(* ===== verification/Go_Prelude.thy ===== *)
theory Go_Prelude
  imports Main "HOL-Library.Word" "HOL-Library.Char_ord" "HOL-Library.List_Lexorder"
    "HOL-Library.Multiset"
begin

unbundle bit_operations_syntax

section \<open>Shared vocabulary of the development\<close>

text \<open>
  The Go notions every component theory uses: the types the model gives to Go's types, zero-value
  map reads, panics and errors as values, the binary search \<open>sort.Search\<close>, decimal formatting,
  the byte encodings of \<open>encoding/binary\<close>, and generic lemmas on lists and maps. Strings are byte
  lists (\<^typ>\<open>string\<close>) ordered bytewise, as Go compares them; \<open>sort.Strings\<close> on them is
  \<^const>\<open>sort\<close>.
\<close>

named_theorems ring_simps \<open>simplification rules for the hash ring\<close>
named_theorems inv_intros \<open>preservation of the components' invariants\<close>
named_theorems model_defs \<open>definitions of straight-line operations\<close>

type_synonym u8 = "8 word"
type_synonym u32 = "32 word"
type_synonym u64 = "64 word"
type_synonym bytes = "8 word list"
type_synonym node_id = string
type_synonym time = int \<comment> \<open>nanoseconds; durations share the type\<close>

text \<open>A Go call that panics does not return a value; the panic is the left summand.\<close>

datatype panic = IndexOutOfRange | MakesliceLenOutOfRange | MakesliceCapOutOfRange | NilDereference
  | PanicValue string \<comment> \<open>an explicit \<open>panic(...)\<close>\<close>

type_synonym 'a go = "panic + 'a"

fun go_bind :: "'a go \<Rightarrow> ('a \<Rightarrow> 'b go) \<Rightarrow> 'b go" where
  "go_bind (Inl p) f = Inl p"
| "go_bind (Inr x) f = f x"

subsection \<open>Slices\<close>

text \<open>Indexing, slicing and \<open>copy\<close> with Go's bounds checks; a slice's capacity is its length.\<close>

definition get_at :: "'a list \<Rightarrow> nat \<Rightarrow> 'a go" where
  "get_at xs i = (if i < length xs then Inr (xs ! i) else Inl IndexOutOfRange)"

definition put_at :: "'a list \<Rightarrow> nat \<Rightarrow> 'a \<Rightarrow> 'a list go" where
  "put_at xs i v = (if i < length xs then Inr (xs[i := v]) else Inl IndexOutOfRange)"

definition slice :: "'a list \<Rightarrow> nat \<Rightarrow> nat \<Rightarrow> 'a list go" where
  \<comment> \<open>\<open>xs[a:b]\<close>\<close>
  "slice xs a b = (if a \<le> b \<and> b \<le> length xs then Inr (take (b - a) (drop a xs)) else Inl IndexOutOfRange)"

definition copy_into :: "'a list \<Rightarrow> nat \<Rightarrow> nat \<Rightarrow> 'a list \<Rightarrow> 'a list go" where
  \<comment> \<open>\<open>copy(xs[a:b], src)\<close>: as many elements as both slices have\<close>
  "copy_into xs a b src =
     (if a \<le> b \<and> b \<le> length xs
      then (let n = min (b - a) (length src) in Inr (take a xs @ take n src @ drop (a + n) xs))
      else Inl IndexOutOfRange)"

subsection \<open>Maps with zero values\<close>

definition map_get :: "'v \<Rightarrow> ('k \<rightharpoonup> 'v) \<Rightarrow> 'k \<Rightarrow> 'v" where
  \<comment> \<open>\<open>m[k]\<close> in expression position: the zero value when the key is absent\<close>
  "map_get z m k = (case m k of None \<Rightarrow> z | Some v \<Rightarrow> v)"

lemma map_get_simps [simp]:
  "m k = None \<Longrightarrow> map_get z m k = z"
  "m k = Some v \<Longrightarrow> map_get z m k = v"
  by (simp_all add: map_get_def)

lemma map_get_upd [simp]: "map_get z (m(k \<mapsto> v)) k' = (if k' = k then v else map_get z m k')"
  by (simp add: map_get_def)

lemma map_get_del [simp]: "map_get z (m(k := None)) k' = (if k' = k then z else map_get z m k')"
  by (simp add: map_get_def)

subsection \<open>\<open>sort.Search\<close>\<close>

text \<open>The loop of Go's \<open>sort.Search\<close>: the interval \<open>[i, j)\<close> is halved until it is empty.\<close>

function search_loop :: "(nat \<Rightarrow> bool) \<Rightarrow> nat \<Rightarrow> nat \<Rightarrow> nat" where
  "search_loop f i j =
     (if i < j then (let h = (i + j) div 2 in
        if \<not> f h then search_loop f (h + 1) j else search_loop f i h) else i)"
  by pat_completeness auto
termination
  by (relation "measure (\<lambda>(f, i, j). j - i)") auto

declare search_loop.simps [simp del]

definition sort_search :: "nat \<Rightarrow> (nat \<Rightarrow> bool) \<Rightarrow> nat" where
  "sort_search n f = search_loop f 0 n"

lemma search_loop_unfold:
  "i < j \<Longrightarrow> f ((i + j) div 2) \<Longrightarrow> search_loop f i j = search_loop f i ((i + j) div 2)"
  "i < j \<Longrightarrow> \<not> f ((i + j) div 2) \<Longrightarrow> search_loop f i j = search_loop f ((i + j) div 2 + 1) j"
  "\<not> i < j \<Longrightarrow> search_loop f i j = i"
  by (subst search_loop.simps, simp add: Let_def)+

lemma search_loop_correct:
  assumes "\<forall>a b. a \<le> b \<longrightarrow> b < n \<longrightarrow> f a \<longrightarrow> f b" "j \<le> n" "i \<le> j"
    "\<forall>k < i. \<not> f k" "\<forall>k. j \<le> k \<longrightarrow> k < n \<longrightarrow> f k"
  shows "search_loop f i j \<le> n \<and> (\<forall>k < search_loop f i j. \<not> f k)
    \<and> (\<forall>k. search_loop f i j \<le> k \<longrightarrow> k < n \<longrightarrow> f k)"
  using assms
proof (induction f i j rule: search_loop.induct)
  case (1 f i j)
  define h where "h = (i + j) div 2"
  note mono = "1.prems"(1)
  consider "i = j" | "i < j" "f h" | "i < j" "\<not> f h" using "1.prems"(3) by linarith
  then show ?case
  proof cases
    case 1
    with "1.prems" show ?thesis by (simp add: search_loop_unfold(3) [of j j])
  next
    case 2
    have up: "\<forall>k. h \<le> k \<longrightarrow> k < n \<longrightarrow> f k" using mono 2(2) by blast
    have h: "\<not> \<not> f h" "h \<le> n" "i \<le> h" using 2 "1.prems"(2) by (auto simp: h_def)
    have eq: "search_loop f i j = search_loop f i h"
      using search_loop_unfold(1) [OF 2(1)] 2(2) unfolding h_def by blast
    show ?thesis
      unfolding eq by (rule "1.IH"(2) [OF 2(1) h_def h(1) mono h(2,3) "1.prems"(4) up])
  next
    case 3
    have h: "h + 1 \<le> j" "h < n" using 3 "1.prems"(2) by (auto simp: h_def)
    have lo: "\<forall>k < h + 1. \<not> f k" using mono 3(2) h(2) by (metis less_Suc_eq_le Suc_eq_plus1)
    have eq: "search_loop f i j = search_loop f (h + 1) j"
      using search_loop_unfold(2) [OF 3(1)] 3(2) unfolding h_def by blast
    show ?thesis
      unfolding eq by (rule "1.IH"(1) [OF 3(1) h_def 3(2) mono "1.prems"(2) h(1) lo "1.prems"(5)])
  qed
qed

lemma sort_search_correct:
  assumes "\<forall>a b. a \<le> b \<longrightarrow> b < n \<longrightarrow> f a \<longrightarrow> f b"
  shows "sort_search n f \<le> n" "\<forall>k < sort_search n f. \<not> f k"
    "\<forall>k. sort_search n f \<le> k \<longrightarrow> k < n \<longrightarrow> f k"
  using search_loop_correct [OF assms, of n 0] unfolding sort_search_def by auto

text \<open>On a sorted slice the search for \<open>xs[i] >= h\<close> splits the slice at \<open>h\<close>.\<close>

definition search_ge :: "'a::linorder list \<Rightarrow> 'a \<Rightarrow> nat" where
  "search_ge xs h = sort_search (length xs) (\<lambda>i. xs ! i \<ge> h)"

lemma search_ge_sorted:
  assumes "sorted xs"
  shows search_ge_le: "search_ge xs h \<le> length xs"
    and search_ge_below: "k < search_ge xs h \<Longrightarrow> xs ! k < h"
    and search_ge_above: "search_ge xs h \<le> k \<Longrightarrow> k < length xs \<Longrightarrow> h \<le> xs ! k"
proof -
  have "\<forall>a b. a \<le> b \<longrightarrow> b < length xs \<longrightarrow> h \<le> xs ! a \<longrightarrow> h \<le> xs ! b"
    using assms by (meson order_trans sorted_nth_mono)
  note * = sort_search_correct [OF this]
  show "search_ge xs h \<le> length xs" unfolding search_ge_def by (rule *(1))
  show "k < search_ge xs h \<Longrightarrow> xs ! k < h" using *(2) by (simp add: search_ge_def not_le)
  show "search_ge xs h \<le> k \<Longrightarrow> k < length xs \<Longrightarrow> h \<le> xs ! k"
    using *(3) by (simp add: search_ge_def)
qed

lemma search_ge_take_drop:
  assumes "sorted xs"
  shows "take (search_ge xs h) xs = filter (\<lambda>x. x < h) xs"
    and "drop (search_ge xs h) xs = filter (\<lambda>x. h \<le> x) xs"
proof -
  let ?i = "search_ge xs h"
  have lo: "\<forall>x \<in> set (take ?i xs). x < h"
    using search_ge_below [OF assms, of _ h] by (auto simp: in_set_conv_nth)
  have hi: "\<forall>x \<in> set (drop ?i xs). h \<le> x"
    using search_ge_above [OF assms, of h] by (auto simp: in_set_conv_nth add.commute)
  have "filter P xs = filter P (take ?i xs) @ filter P (drop ?i xs)" for P
    by (metis append_take_drop_id filter_append)
  then show "take ?i xs = filter (\<lambda>x. x < h) xs" "drop ?i xs = filter (\<lambda>x. h \<le> x) xs"
    using lo hi by (auto simp: filter_empty_conv not_less not_le filter_id_conv)
qed

lemma sort_search_filter:
  assumes "\<And>i j. i \<le> j \<Longrightarrow> j < length xs \<Longrightarrow> P (xs ! i) \<Longrightarrow> P (xs ! j)"
  shows "take (sort_search (length xs) (\<lambda>i. P (xs ! i))) xs = filter (\<lambda>x. \<not> P x) xs"
    and "drop (sort_search (length xs) (\<lambda>i. P (xs ! i))) xs = filter P xs"
proof -
  define k where "k = sort_search (length xs) (\<lambda>i. P (xs ! i))"
  have "\<forall>a b. a \<le> b \<longrightarrow> b < length xs \<longrightarrow> P (xs ! a) \<longrightarrow> P (xs ! b)" using assms by blast
  note * = sort_search_correct [OF this, folded k_def]
  have lo: "\<forall>x \<in> set (take k xs). \<not> P x" using *(2) by (auto simp: in_set_conv_nth)
  have hi: "\<forall>x \<in> set (drop k xs). P x" using *(1,3) by (auto simp: in_set_conv_nth)
  have "filter Q xs = filter Q (take k xs) @ filter Q (drop k xs)" for Q
    by (metis append_take_drop_id filter_append)
  then show "take (sort_search (length xs) (\<lambda>i. P (xs ! i))) xs = filter (\<lambda>x. \<not> P x) xs"
    "drop (sort_search (length xs) (\<lambda>i. P (xs ! i))) xs = filter P xs"
    unfolding k_def [symmetric] using lo hi by (auto simp: filter_empty_conv filter_id_conv)
qed

subsection \<open>Decimal formatting\<close>

definition digit :: "nat \<Rightarrow> char" where
  "digit d = char_of (48 + d)"

fun itoa :: "nat \<Rightarrow> string" where
  \<comment> \<open>\<open>%d\<close> of a non-negative integer\<close>
  "itoa n = (if n < 10 then [digit n] else itoa (n div 10) @ [digit (n mod 10)])"

declare itoa.simps [simp del]

fun atoi :: "string \<Rightarrow> nat \<Rightarrow> nat" where
  "atoi [] acc = acc"
| "atoi (c # cs) acc = atoi cs (10 * acc + (of_char c - 48))"

lemma atoi_append: "atoi (xs @ ys) acc = atoi ys (atoi xs acc)"
  by (induction xs arbitrary: acc) auto

lemma of_char_digit [simp]: "d < 10 \<Longrightarrow> of_char (digit d) = 48 + d"
  by (simp add: digit_def)

lemma atoi_itoa: "atoi (itoa n) 0 = n"
proof (induction n rule: itoa.induct)
  case (1 n)
  then show ?case by (cases "n < 10") (simp_all add: itoa.simps [of n] atoi_append)
qed

lemma itoa_inject [simp]: "itoa m = itoa n \<longleftrightarrow> m = n"
  by (metis atoi_itoa)

subsection \<open>Fixed-width integers as bytes\<close>

definition le_encode :: "nat \<Rightarrow> 'a::len word \<Rightarrow> bytes" where
  "le_encode n w = map (\<lambda>i. ucast (drop_bit (8 * i) w)) [0..<n]"

fun le_decode :: "bytes \<Rightarrow> 'a::len word" where
  "le_decode [] = 0"
| "le_decode (b # bs) = ucast b OR push_bit 8 (le_decode bs)"

definition be_decode :: "bytes \<Rightarrow> 'a::len word" where
  "be_decode bs = le_decode (rev bs)"

lemma length_le_encode [simp]: "length (le_encode n w) = n"
  by (simp add: le_encode_def)

lemma bit_le_decode:
  "bit (le_decode bs :: 'a::len word) k \<longleftrightarrow>
     k < LENGTH('a) \<and> k div 8 < length bs \<and> bit (bs ! (k div 8)) (k mod 8)"
proof (induction bs arbitrary: k)
  case (Cons b bs)
  show ?case
  proof (cases "k < 8")
    case True
    then show ?thesis by (auto simp: bit_or_iff bit_push_bit_iff bit_ucast_iff)
  next
    case False
    then have "k div 8 = Suc ((k - 8) div 8)" "(k - 8) mod 8 = k mod 8" "\<not> bit b k"
      using bit_imp_le_length [of b k] by (auto simp: le_div_geq mod_if [of k 8])
    with False show ?thesis using Cons.IH [of "k - 8"]
      by (auto simp: bit_or_iff bit_push_bit_iff bit_ucast_iff bit_imp_le_length)
  qed
qed simp

lemma le_decode_encode:
  assumes "LENGTH('a) \<le> 8 * n"
  shows "le_decode (le_encode n w) = (w :: 'a::len word)"
proof (rule bit_word_eqI)
  fix k assume k: "k < LENGTH('a)"
  with assms have "k div 8 < n" by auto
  moreover have "8 * (k div 8) + k mod 8 = k" by simp
  ultimately show "bit (le_decode (le_encode n w) :: 'a word) k = bit w k"
    using k by (simp add: bit_le_decode le_encode_def bit_ucast_iff bit_drop_bit_eq)
qed

end
