(* ===== verification/Placement.thy ===== *)
theory Placement
  imports Go_Prelude
begin

section \<open>The interface of a collection-placement router\<close>

text \<open>
  \<open>internal/cluster\<close> has two routers with the same operations: the consistent hash ring
  (\<open>hash.go\<close>) and rendezvous hashing (\<open>rendezvous.go\<close>). The locale states what their clients
  (the coordinator, the migration planner, the request router) rely on: membership is exact, every
  key is owned by a member, and a membership change moves only the keys it has to. \<open>U\<close> is the
  set of node IDs the cluster may use and \<open>inv\<close> the router's own invariant.
\<close>

locale placement =
  fixes U :: "node_id set"
    and inv :: "'r \<Rightarrow> bool"
    and members :: "'r \<Rightarrow> node_id set"
    and add :: "node_id \<Rightarrow> 'r \<Rightarrow> 'r"
    and remove :: "node_id \<Rightarrow> 'r \<Rightarrow> 'r go"
    and route :: "'r \<Rightarrow> string \<Rightarrow> node_id"
  assumes route_empty: "inv r \<Longrightarrow> members r = {} \<Longrightarrow> route r k = ''''"
    and route_member: "inv r \<Longrightarrow> members r \<noteq> {} \<Longrightarrow> route r k \<in> members r"
    and inv_add: "inv r \<Longrightarrow> n \<in> U \<Longrightarrow> inv (add n r)"
    and members_add: "inv r \<Longrightarrow> n \<in> U \<Longrightarrow> members (add n r) = insert n (members r)"
    and remove_total: "inv r \<Longrightarrow> \<exists>r'. remove n r = Inr r'"
    and inv_remove: "inv r \<Longrightarrow> remove n r = Inr r' \<Longrightarrow> inv r'"
    and members_remove: "inv r \<Longrightarrow> remove n r = Inr r' \<Longrightarrow> members r' = members r - {n}"
    and route_add: "inv r \<Longrightarrow> n \<in> U \<Longrightarrow> members r \<noteq> {} \<Longrightarrow>
      route (add n r) k = n \<or> route (add n r) k = route r k"
    and route_remove: "inv r \<Longrightarrow> remove n r = Inr r' \<Longrightarrow> route r k \<noteq> n \<Longrightarrow> route r' k = route r k"
begin

lemma remove_moves_exactly:
  assumes "inv r" "remove n r = Inr r'" "n \<in> members r" "n \<noteq> ''''"
  shows "route r' k \<noteq> route r k \<longleftrightarrow> route r k = n"
proof
  assume "route r k = n"
  moreover have "route r' k \<noteq> n"
  proof (cases "members r' = {}")
    case True
    with assms show ?thesis using route_empty [OF inv_remove] by auto
  next
    case False
    with assms show ?thesis using route_member [OF inv_remove] members_remove by blast
  qed
  ultimately show "route r' k \<noteq> route r k" by simp
qed (use assms route_remove in blast)

lemma add_moves_only_to_new:
  assumes "inv r" "n \<in> U" "members r \<noteq> {}" "route (add n r) k \<noteq> route r k"
  shows "route (add n r) k = n"
  using route_add [OF assms(1-3)] assms(4) by blast

lemma fold_add:
  assumes "inv r" "set ns \<subseteq> U"
  shows "inv (fold add ns r) \<and> members (fold add ns r) = members r \<union> set ns"
  using assms by (induction ns arbitrary: r) (auto simp: inv_add members_add)

lemma fold_add_route:
  assumes "inv r" "set ns \<subseteq> U" "members r \<noteq> {}"
  shows "route (fold add ns r) k \<in> insert (route r k) (set ns)"
  using assms
proof (induction ns arbitrary: r)
  case (Cons n ns)
  then have "route (fold add ns (add n r)) k \<in> insert (route (add n r) k) (set ns)"
    by (simp add: inv_add members_add)
  with Cons.prems show ?case using route_add [of r n k] by auto
qed simp

end

end
