(* ===== verification/Hash_Ring.thy ===== *)
theory Hash_Ring
  imports Placement
begin

section \<open>Consistent hashing: \<open>internal/cluster/hash.go\<close>\<close>

text \<open>
  The ring keeps a sorted slice of 32-bit positions, the owner of each position and the set of
  member nodes. SHA-256 (the argument \<open>sha\<close>) is left abstract: every result holds for any hash
  function, and the results that need it say that the positions of the nodes in use do not collide
  (\<open>collision_free\<close>), since the code skips colliding positions. \<open>RemoveNode\<close> allocates with the
  capacity \<open>len(ring)-vnodes\<close>, which panics when it is negative; the model keeps that branch.
\<close>

record hash_ring =
  vnodes :: int
  ring :: "u32 list"
  nodeMap :: "u32 \<rightharpoonup> node_id"
  nodes :: "node_id set"

definition NewHashRing :: "int \<Rightarrow> hash_ring" where
  "NewHashRing v = \<lparr>vnodes = (if v \<le> 0 then 150 else v), ring = [], nodeMap = Map.empty, nodes = {}\<rparr>"

definition hashKey :: "(string \<Rightarrow> bytes) \<Rightarrow> string \<Rightarrow> u32" where
  "hashKey sha key = be_decode (take 4 (sha key))"

definition vnode_key :: "node_id \<Rightarrow> nat \<Rightarrow> string" where
  "vnode_key nodeID i = nodeID @ ''#'' @ itoa i"

definition add_vnode :: "(string \<Rightarrow> bytes) \<Rightarrow> node_id \<Rightarrow> nat \<Rightarrow> hash_ring \<Rightarrow> hash_ring" where
  "add_vnode sha nodeID i h =
     (let hash = hashKey sha (vnode_key nodeID i) in
      case nodeMap h hash of
        Some existing \<Rightarrow>
          if existing \<noteq> nodeID then h
          else h\<lparr>ring := ring h @ [hash], nodeMap := (nodeMap h)(hash \<mapsto> nodeID)\<rparr>
      | None \<Rightarrow> h\<lparr>ring := ring h @ [hash], nodeMap := (nodeMap h)(hash \<mapsto> nodeID)\<rparr>)"

definition AddNode :: "(string \<Rightarrow> bytes) \<Rightarrow> node_id \<Rightarrow> hash_ring \<Rightarrow> hash_ring" where
  "AddNode sha nodeID h =
     (if nodeID \<in> nodes h then h
      else let h1 = h\<lparr>nodes := insert nodeID (nodes h)\<rparr>;
               h2 = fold (add_vnode sha nodeID) [0..<nat (vnodes h)] h1
           in h2\<lparr>ring := sort (ring h2)\<rparr>)"

fun remove_loop :: "node_id \<Rightarrow> u32 list \<Rightarrow> u32 list \<Rightarrow> (u32 \<rightharpoonup> node_id) \<Rightarrow> u32 list \<times> (u32 \<rightharpoonup> node_id)" where
  "remove_loop nodeID [] newRing m = (newRing, m)"
| "remove_loop nodeID (hash # hs) newRing m =
     (if map_get '''' m hash \<noteq> nodeID then remove_loop nodeID hs (newRing @ [hash]) m
      else remove_loop nodeID hs newRing (m(hash := None)))"

definition RemoveNode :: "node_id \<Rightarrow> hash_ring \<Rightarrow> hash_ring go" where
  "RemoveNode nodeID h =
     (if nodeID \<notin> nodes h then Inr h
      else if int (length (ring h)) - vnodes h < 0 then Inl MakesliceCapOutOfRange
      else let (newRing, m) = remove_loop nodeID (ring h) [] (nodeMap h)
           in Inr (h\<lparr>nodes := nodes h - {nodeID}, ring := newRing, nodeMap := m\<rparr>))"

definition start_index :: "u32 list \<Rightarrow> u32 \<Rightarrow> nat" where
  "start_index r hash = (let idx = search_ge r hash in if idx \<ge> length r then 0 else idx)"

definition GetNode :: "(string \<Rightarrow> bytes) \<Rightarrow> hash_ring \<Rightarrow> string \<Rightarrow> node_id" where
  "GetNode sha h key =
     (if ring h = [] then ''''
      else map_get '''' (nodeMap h) (ring h ! start_index (ring h) (hashKey sha key)))"

fun walk :: "hash_ring \<Rightarrow> nat \<Rightarrow> int \<Rightarrow> nat list \<Rightarrow> node_id set \<Rightarrow> node_id list \<Rightarrow> node_id list" where
  "walk h idx n [] seen result = result"
| "walk h idx n (i # is) seen result =
     (if int (length result) < n
      then let pos = (idx + i) mod length (ring h);
               nodeID = map_get '''' (nodeMap h) (ring h ! pos)
           in if nodeID \<notin> seen then walk h idx n is (insert nodeID seen) (result @ [nodeID])
              else walk h idx n is seen result
      else result)"

definition GetNodes :: "(string \<Rightarrow> bytes) \<Rightarrow> hash_ring \<Rightarrow> string \<Rightarrow> int \<Rightarrow> node_id list" where
  "GetNodes sha h key n =
     (if ring h = [] \<or> n \<le> 0 then []
      else walk h (start_index (ring h) (hashKey sha key)) n [0..<length (ring h)] {} [])"

definition NodeCount :: "hash_ring \<Rightarrow> nat" where
  "NodeCount h = card (nodes h)"

definition Nodes :: "hash_ring \<Rightarrow> node_id list" where
  "Nodes h = sorted_list_of_set (nodes h)"

subsection \<open>The ring as a set of positions\<close>

definition node_pos :: "(string \<Rightarrow> bytes) \<Rightarrow> int \<Rightarrow> node_id \<Rightarrow> u32 set" where
  "node_pos sha V n = (\<lambda>i. hashKey sha (vnode_key n i)) ` {..<nat V}"

definition collision_free :: "(string \<Rightarrow> bytes) \<Rightarrow> int \<Rightarrow> node_id set \<Rightarrow> bool" where
  "collision_free sha V U \<longleftrightarrow>
     inj_on (\<lambda>(n, i). hashKey sha (vnode_key n i)) (U \<times> {..<nat V})"

text \<open>The invariant of any ring, and the one of a ring whose vnode positions do not collide.\<close>

definition ring_ok :: "hash_ring \<Rightarrow> bool" where
  "ring_ok h \<longleftrightarrow> 0 < vnodes h \<and> finite (nodes h) \<and> sorted (ring h) \<and>
     set (ring h) = dom (nodeMap h) \<and> ran (nodeMap h) \<subseteq> nodes h"

definition ring_inv :: "(string \<Rightarrow> bytes) \<Rightarrow> node_id set \<Rightarrow> hash_ring \<Rightarrow> bool" where
  "ring_inv sha U h \<longleftrightarrow> ring_ok h \<and> distinct (ring h) \<and> nodes h \<subseteq> U \<and>
     collision_free sha (vnodes h) U \<and>
     (\<forall>p n. nodeMap h p = Some n \<longleftrightarrow> n \<in> nodes h \<and> p \<in> node_pos sha (vnodes h) n)"

text \<open>The position that owns a key: the first one clockwise, wrapping around at the top.\<close>

definition successor :: "u32 set \<Rightarrow> u32 \<Rightarrow> u32" where
  "successor S p = (if \<exists>q \<in> S. p \<le> q then Min {q \<in> S. p \<le> q} else Min S)"

lemma start_index_less: "sorted r \<Longrightarrow> r \<noteq> [] \<Longrightarrow> start_index r p < length r"
  by (simp add: start_index_def Let_def)

lemma start_index_successor:
  assumes "sorted r" "r \<noteq> []"
  shows "r ! start_index r p = successor (set r) p"
proof (cases "search_ge r p < length r")
  case True
  have "drop (search_ge r p) r = filter (\<lambda>x. p \<le> x) r"
    using assms by (simp add: search_ge_take_drop)
  with True have hd: "r ! search_ge r p = hd (filter (\<lambda>x. p \<le> x) r)"
    and ne: "filter (\<lambda>x. p \<le> x) r \<noteq> []"
    by (metis hd_drop_conv_nth, metis drop_eq_Nil not_le)
  have "sorted (filter (\<lambda>x. p \<le> x) r)" using assms by (simp add: sorted_wrt_filter)
  with ne have "hd (filter (\<lambda>x. p \<le> x) r) = Min (set (filter (\<lambda>x. p \<le> x) r))"
    by (cases "filter (\<lambda>x. p \<le> x) r") (auto intro!: Min_eqI [symmetric])
  moreover have "\<exists>q \<in> set r. p \<le> q" using ne by (auto simp: filter_empty_conv)
  ultimately show ?thesis using True hd by (simp add: start_index_def successor_def)
next
  case False
  then have "drop (search_ge r p) r = []" by simp
  then have "\<not> (\<exists>q \<in> set r. p \<le> q)"
    using assms by (auto simp: search_ge_take_drop filter_empty_conv)
  moreover have "r ! 0 = Min (set r)"
    using assms by (cases r) (auto intro!: Min_eqI [symmetric])
  ultimately show ?thesis using False by (auto simp: start_index_def successor_def)
qed

lemma successor_in: "finite S \<Longrightarrow> S \<noteq> {} \<Longrightarrow> successor S p \<in> S"
  using Min_in [of "{q \<in> S. p \<le> q}"] by (auto simp: successor_def)

lemma GetNode_successor:
  "ring_ok h \<Longrightarrow> ring h \<noteq> [] \<Longrightarrow>
     GetNode sha h key = map_get '''' (nodeMap h) (successor (set (ring h)) (hashKey sha key))"
  by (simp add: GetNode_def start_index_successor ring_ok_def)

text \<open>Positions added or removed elsewhere do not move a key's owner position.\<close>

lemma successor_subset:
  assumes "finite S" "T \<subseteq> S" "successor S p \<in> T"
  shows "successor T p = successor S p"
proof (cases "\<exists>q \<in> S. p \<le> q")
  case True
  define m where "m = Min {q \<in> S. p \<le> q}"
  have "m \<in> {q \<in> S. p \<le> q}" "\<And>q. q \<in> S \<Longrightarrow> p \<le> q \<Longrightarrow> m \<le> q"
    unfolding m_def using assms(1) True by (intro Min_in) (auto intro: Min_le)
  moreover have m: "successor S p = m" using True by (simp add: successor_def m_def)
  moreover have "m \<in> T" using m assms(3) by simp
  ultimately have "p \<le> m" "m \<in> T" "Min {q \<in> T. p \<le> q} = m"
    using assms(2) finite_subset [OF assms(2,1)] by (simp, simp, intro Min_eqI) auto
  then show ?thesis using m by (auto simp: successor_def)
next
  case False
  with assms have "successor S p = Min S" "successor T p = Min T"
    by (auto simp: successor_def)
  moreover have "Min T = Min S"
    using assms calculation finite_subset [OF assms(2,1)] by (intro Min_eqI) auto
  ultimately show ?thesis by simp
qed

lemma successor_union:
  assumes "finite S" "S \<noteq> {}" "finite T"
  shows "successor (S \<union> T) p = successor S p \<or> successor (S \<union> T) p \<in> T"
  using successor_in [of "S \<union> T" p] successor_subset [of "S \<union> T" S p] assms by auto

subsection \<open>What the loops compute\<close>

lemma add_vnodes:
  fixes sha n defines "P \<equiv> \<lambda>is. (\<lambda>i. hashKey sha (vnode_key n i)) ` set is"
  shows "vnodes (fold (add_vnode sha n) is h) = vnodes h"
    and "nodes (fold (add_vnode sha n) is h) = nodes h"
    and "nodeMap (fold (add_vnode sha n) is h) =
      (\<lambda>p. if p \<in> P is \<and> nodeMap h p = None then Some n else nodeMap h p)"
    and "set (ring (fold (add_vnode sha n) is h)) =
      set (ring h) \<union> {p \<in> P is. nodeMap h p = None \<or> nodeMap h p = Some n}"
  unfolding P_def
  by (induction "is" arbitrary: h)
    (auto simp: add_vnode_def Let_def fun_eq_iff split: option.splits if_splits)

lemma add_vnodes_distinct:
  assumes "distinct is" "inj_on (\<lambda>i. hashKey sha (vnode_key n i)) (set is)" "distinct (ring h)"
    "(\<lambda>i. hashKey sha (vnode_key n i)) ` set is \<inter> set (ring h) = {}"
  shows "distinct (ring (fold (add_vnode sha n) is h))"
  using assms
proof (induction "is" arbitrary: h)
  case (Cons i "is")
  let ?p = "\<lambda>i. hashKey sha (vnode_key n i)"
  let ?h = "add_vnode sha n i h"
  have r: "ring ?h = ring h \<or> ring ?h = ring h @ [?p i]"
    by (auto simp: add_vnode_def Let_def split: option.splits)
  define S where "S = ?p ` set is"
  have S: "?p i \<notin> S" "S \<inter> set (ring h) = {}" "?p i \<notin> set (ring h)"
    using Cons.prems(1,2,4) by (auto simp: S_def)
  have "S \<inter> set (ring ?h) = {}" "distinct (ring ?h)"
    using r S Cons.prems(3) by auto
  moreover have "inj_on ?p (set is)" using Cons.prems(2) by (simp add: inj_on_insert)
  ultimately show ?case using Cons.IH [of ?h] Cons.prems(1) by (simp add: S_def)
qed simp

lemma remove_loop_spec:
  assumes "distinct r"
  shows "remove_loop n r acc m =
    (acc @ filter (\<lambda>p. map_get '''' m p \<noteq> n) r,
     (\<lambda>p. if p \<in> set r \<and> map_get '''' m p = n then None else m p))"
  using assms
proof (induction r arbitrary: acc m)
  case (Cons p r)
  then have p: "p \<notin> set r" "distinct r" by auto
  have "filter (\<lambda>q. map_get '''' (m(p := None)) q \<noteq> n) r = filter (\<lambda>q. map_get '''' m q \<noteq> n) r"
    using p by (intro filter_cong) auto
  moreover have "(\<lambda>q. if q \<in> set r \<and> map_get '''' (m(p := None)) q = n then None else (m(p := None)) q)
      = (\<lambda>q. if q \<in> set (p # r) \<and> map_get '''' m q = n then None else m q)"
    if "map_get '''' m p = n" using p that by (auto simp: fun_eq_iff)
  moreover have "(\<lambda>q. if q \<in> set r \<and> map_get '''' m q = n then None else m q)
      = (\<lambda>q. if q \<in> set (p # r) \<and> map_get '''' m q = n then None else m q)"
    if "map_get '''' m p \<noteq> n" using p that by (auto simp: fun_eq_iff)
  ultimately show ?case
    unfolding remove_loop.simps Cons.IH [OF p(2)] by (simp del: map_get_del)
qed auto

subsection \<open>Membership changes\<close>

lemma AddNode_member [simp]: "n \<in> nodes h \<Longrightarrow> AddNode sha n h = h"
  by (simp add: AddNode_def)

lemma AddNode_fields:
  assumes "ring_ok h" "n \<notin> nodes h"
  fixes sha defines "T \<equiv> {p \<in> node_pos sha (vnodes h) n. nodeMap h p = None}"
  shows "vnodes (AddNode sha n h) = vnodes h" "nodes (AddNode sha n h) = insert n (nodes h)"
    and "nodeMap (AddNode sha n h) = (\<lambda>p. if p \<in> T then Some n else nodeMap h p)"
    and "set (ring (AddNode sha n h)) = set (ring h) \<union> T" "sorted (ring (AddNode sha n h))"
proof -
  have "nodeMap h p \<noteq> Some n" for p
    using assms(1,2) by (auto simp: ring_ok_def ran_def)
  then show "vnodes (AddNode sha n h) = vnodes h" "nodes (AddNode sha n h) = insert n (nodes h)"
    "nodeMap (AddNode sha n h) = (\<lambda>p. if p \<in> T then Some n else nodeMap h p)"
    "set (ring (AddNode sha n h)) = set (ring h) \<union> T" "sorted (ring (AddNode sha n h))"
    using assms(2)
    by (auto simp: AddNode_def Let_def add_vnodes T_def node_pos_def atLeast0LessThan fun_eq_iff)
qed

lemma ring_ok_New [inv_intros]: "ring_ok (NewHashRing v)"
  by (simp add: ring_ok_def NewHashRing_def)

lemma ring_ok_AddNode [inv_intros]:
  assumes "ring_ok h" shows "ring_ok (AddNode sha n h)"
proof (cases "n \<in> nodes h")
  case False
  with assms AddNode_fields(5) [OF assms False, of sha] show ?thesis
    unfolding ring_ok_def [of "AddNode sha n h"] AddNode_fields [OF assms False]
    by (auto simp: ring_ok_def ran_def dom_def)
qed (use assms in simp)

lemma RemoveNode_fields:
  assumes "ring_ok h" "distinct (ring h)" "n \<in> nodes h" "RemoveNode n h = Inr h'" "n \<noteq> ''''"
  shows "vnodes h' = vnodes h" "nodes h' = nodes h - {n}"
    and "ring h' = filter (\<lambda>p. nodeMap h p \<noteq> Some n) (ring h)"
    and "nodeMap h' = (\<lambda>p. if nodeMap h p = Some n then None else nodeMap h p)"
proof -
  have "map_get '''' (nodeMap h) p = n \<longleftrightarrow> nodeMap h p = Some n" for p
    using assms(5) by (auto simp: map_get_def split: option.splits)
  moreover have "p \<in> set (ring h)" if "nodeMap h p = Some n" for p
    using assms(1) that by (auto simp: ring_ok_def)
  ultimately show "vnodes h' = vnodes h" "nodes h' = nodes h - {n}"
    "ring h' = filter (\<lambda>p. nodeMap h p \<noteq> Some n) (ring h)"
    "nodeMap h' = (\<lambda>p. if nodeMap h p = Some n then None else nodeMap h p)"
    using assms(2-4) unfolding RemoveNode_def remove_loop_spec [OF assms(2)]
    by (auto simp: Let_def fun_eq_iff split: if_splits)
qed

lemma RemoveNode_nonmember: "n \<notin> nodes h \<Longrightarrow> RemoveNode n h = Inr h"
  by (simp add: RemoveNode_def)

lemma ring_ok_RemoveNode [inv_intros]:
  assumes "ring_ok h" "distinct (ring h)" "RemoveNode n h = Inr h'" "n \<noteq> ''''"
  shows "ring_ok h' \<and> distinct (ring h')"
proof (cases "n \<in> nodes h")
  case True
  note f = RemoveNode_fields [OF assms(1,2) True assms(3,4)]
  show ?thesis
    using assms(1,2) unfolding ring_ok_def f
    by (auto simp: ran_def dom_def sorted_wrt_filter)
qed (use assms RemoveNode_nonmember in auto)

subsection \<open>Keys move only when they have to\<close>

lemma GetNode_AddNode:
  assumes "ring_ok h" "ring h \<noteq> []"
  shows "GetNode sha (AddNode sha n h) k = n \<or> GetNode sha (AddNode sha n h) k = GetNode sha h k"
proof (cases "n \<in> nodes h")
  case False
  note f = AddNode_fields [OF assms(1) False, of sha]
  let ?T = "{p \<in> node_pos sha (vnodes h) n. nodeMap h p = None}"
  let ?s = "successor (set (ring h) \<union> ?T) (hashKey sha k)"
  have "set (ring h) \<union> ?T \<noteq> {}" using assms(2) by auto
  then have ne: "ring (AddNode sha n h) \<noteq> []" using f(4) by (metis empty_set)
  have "finite ?T" by simp
  from successor_union [OF _ _ this, of "set (ring h)" "hashKey sha k"] assms(2)
  have "?s = successor (set (ring h)) (hashKey sha k) \<or> ?s \<in> ?T" by simp
  moreover have "successor (set (ring h)) (hashKey sha k) \<notin> ?T"
    using successor_in [of "set (ring h)"] assms by (auto simp: ring_ok_def)
  ultimately show ?thesis
    using GetNode_successor [OF ring_ok_AddNode [OF assms(1)] ne] GetNode_successor [OF assms]
    unfolding f by (auto simp: map_get_def)
qed simp

lemma GetNode_RemoveNode:
  assumes "ring_ok h" "distinct (ring h)" "RemoveNode n h = Inr h'" "n \<noteq> ''''" "GetNode sha h k \<noteq> n"
  shows "GetNode sha h' k = GetNode sha h k"
proof (cases "n \<in> nodes h \<and> ring h \<noteq> []")
  case True
  note f = RemoveNode_fields [OF assms(1,2) _ assms(3,4)]
  let ?s = "successor (set (ring h)) (hashKey sha k)"
  have s: "?s \<in> set (ring h)" using successor_in True by auto
  with assms(1,5) True have keep: "nodeMap h ?s \<noteq> Some n"
    by (auto simp: GetNode_successor)
  then have ne: "ring h' \<noteq> []" and in': "?s \<in> set (ring h')"
    using s f(3) True by (auto simp: filter_empty_conv)
  moreover have "set (ring h') \<subseteq> set (ring h)" using f(3) True by auto
  ultimately have "successor (set (ring h')) (hashKey sha k) = ?s"
    by (intro successor_subset) auto
  then show ?thesis
    using GetNode_successor [of h'] ring_ok_RemoveNode [OF assms(1-4)] ne True keep assms(1) f(4)
    by (simp add: GetNode_successor map_get_def)
next
  case False
  with assms show ?thesis
    by (auto simp: RemoveNode_def GetNode_def Let_def split: if_splits)
qed

lemma GetNode_owner:
  assumes "ring_ok h" "ring h \<noteq> []"
  shows "GetNode sha h k \<in> ran (nodeMap h)" and "GetNode sha h k \<in> nodes h"
proof -
  have "successor (set (ring h)) (hashKey sha k) \<in> dom (nodeMap h)"
    using successor_in [of "set (ring h)"] assms by (auto simp: ring_ok_def)
  then show "GetNode sha h k \<in> ran (nodeMap h)"
    using assms by (auto simp: GetNode_successor ran_def)
  then show "GetNode sha h k \<in> nodes h" using assms(1) by (auto simp: ring_ok_def)
qed

subsection \<open>Rings without collisions\<close>

lemma ring_invD:
  assumes "ring_inv sha U h"
  shows "ring_ok h" "distinct (ring h)" "nodes h \<subseteq> U" "collision_free sha (vnodes h) U"
    "nodeMap h p = Some n \<longleftrightarrow> n \<in> nodes h \<and> p \<in> node_pos sha (vnodes h) n"
  using assms by (auto simp: ring_inv_def)

lemma node_pos_disjoint:
  "collision_free sha V U \<Longrightarrow> m \<in> U \<Longrightarrow> n \<in> U \<Longrightarrow> p \<in> node_pos sha V m \<Longrightarrow>
     p \<in> node_pos sha V n \<Longrightarrow> m = n"
  by (auto simp: collision_free_def node_pos_def inj_on_def)

lemma collision_free_inj:
  "collision_free sha V U \<Longrightarrow> n \<in> U \<Longrightarrow> inj_on (\<lambda>i. hashKey sha (vnode_key n i)) {..<nat V}"
  by (auto simp: collision_free_def inj_on_def)

lemma card_node_pos: "collision_free sha V U \<Longrightarrow> n \<in> U \<Longrightarrow> card (node_pos sha V n) = nat V"
  unfolding node_pos_def by (simp add: card_image collision_free_inj)

lemma ring_inv_New: 
  "collision_free sha (vnodes (NewHashRing v)) U \<Longrightarrow> ring_inv sha U (NewHashRing v)"
  using ring_ok_New [of v] by (simp add: ring_inv_def) (simp add: NewHashRing_def)

lemma ring_inv_AddNode:
  assumes "ring_inv sha U h" "n \<in> U"
  shows "ring_inv sha U (AddNode sha n h)"
proof (cases "n \<in> nodes h")
  case False
  note inv = ring_invD [OF assms(1)]
  note f = AddNode_fields [OF inv(1) False, of sha]
  let ?V = "vnodes h"
  have free: "nodeMap h p = None" if "p \<in> node_pos sha ?V n" for p
  proof (rule ccontr)
    assume "nodeMap h p \<noteq> None"
    then obtain m where "nodeMap h p = Some m" by blast
    then have "m \<in> nodes h" "p \<in> node_pos sha ?V m" by (simp_all add: inv(5))
    moreover from this have "m = n" using node_pos_disjoint inv(3,4) assms(2) that by blast
    ultimately show False using False by simp
  qed
  have "distinct (ring (fold (add_vnode sha n) [0..<nat ?V] (h\<lparr>nodes := insert n (nodes h)\<rparr>)))"
  proof (rule add_vnodes_distinct)
    show "inj_on (\<lambda>i. hashKey sha (vnode_key n i)) (set [0..<nat ?V])"
      using collision_free_inj [OF inv(4) assms(2)] by (simp add: atLeast0LessThan)
    show "(\<lambda>i. hashKey sha (vnode_key n i)) ` set [0..<nat ?V] \<inter>
        set (ring (h\<lparr>nodes := insert n (nodes h)\<rparr>)) = {}"
      using free inv(1) by (auto simp: node_pos_def ring_ok_def)
  qed (use inv(2) in auto)
  then have "distinct (ring (AddNode sha n h))"
    using False by (simp add: AddNode_def Let_def)
  moreover have "nodeMap (AddNode sha n h) p = Some m \<longleftrightarrow>
      m \<in> insert n (nodes h) \<and> p \<in> node_pos sha ?V m" for p m
    using free [of p] False inv(5) [of p m] unfolding f by auto
  ultimately show ?thesis
    using ring_ok_AddNode [OF inv(1), of sha n] inv(3,4) assms(2) unfolding ring_inv_def f(1,2) by auto
qed (use assms in simp)

lemma RemoveNode_total:
  assumes "ring_inv sha U h"
  shows "\<exists>h'. RemoveNode n h = Inr h'"
proof (cases "n \<in> nodes h")
  case True
  note inv = ring_invD [OF assms]
  have "node_pos sha (vnodes h) n \<subseteq> set (ring h)"
    using inv(1,5) True by (auto simp: ring_ok_def dom_def)
  from card_mono [OF _ this] have "nat (vnodes h) \<le> card (set (ring h))"
    using card_node_pos [OF inv(4)] inv(3) True by auto
  then have "vnodes h \<le> int (length (ring h))"
    using distinct_card [OF inv(2)] by linarith
  with True show ?thesis by (simp add: RemoveNode_def split: prod.split)
qed (simp add: RemoveNode_def)

lemma ring_inv_RemoveNode:
  assumes "ring_inv sha U h" "RemoveNode n h = Inr h'" "n \<noteq> ''''"
  shows "ring_inv sha U h'" "nodes h' = nodes h - {n}"
proof -
  note inv = ring_invD [OF assms(1)]
  consider "n \<notin> nodes h" | "n \<in> nodes h" by blast
  then have "ring_inv sha U h' \<and> nodes h' = nodes h - {n}"
  proof cases
    case 2
    note f = RemoveNode_fields [OF inv(1,2) 2 assms(2,3)]
    have "nodeMap h' p = Some m \<longleftrightarrow> m \<in> nodes h - {n} \<and> p \<in> node_pos sha (vnodes h) m" for p m
      using inv(5) [of p m] node_pos_disjoint [OF inv(4), of n m p] inv(3) 2 unfolding f
      by (auto simp: inv(5))
    then show ?thesis
      using ring_ok_RemoveNode [OF inv(1,2) assms(2,3)] inv(3,4) unfolding ring_inv_def f(1,2) by auto
  qed (use assms RemoveNode_nonmember in auto)
  then show "ring_inv sha U h'" "nodes h' = nodes h - {n}" by auto
qed

lemma ring_inv_empty:
  assumes "ring_inv sha U h" shows "ring h = [] \<longleftrightarrow> nodes h = {}"
proof -
  note inv = ring_invD [OF assms]
  have "node_pos sha (vnodes h) n \<noteq> {}" for n
    using inv(1) by (auto simp: node_pos_def ring_ok_def lessThan_empty_iff)
  then have "dom (nodeMap h) = {} \<longleftrightarrow> nodes h = {}"
    by (auto simp: dom_def inv(5))
  moreover have "ring h = [] \<longleftrightarrow> set (ring h) = {}" by simp
  ultimately show ?thesis using inv(1) by (metis ring_ok_def)
qed

text \<open>The ring is a function of its members: the order of joins and leaves leaves no trace.\<close>

lemma ring_inv_canonical:
  assumes "ring_inv sha U h1" "ring_inv sha U h2" "vnodes h1 = vnodes h2" "nodes h1 = nodes h2"
  shows "h1 = h2"
proof -
  note i1 = ring_invD [OF assms(1)] and i2 = ring_invD [OF assms(2)]
  have m: "nodeMap h1 = nodeMap h2"
  proof
    fix p show "nodeMap h1 p = nodeMap h2 p"
      using i1(5) [of p] i2(5) [of p] assms(3,4) by (metis option.exhaust)
  qed
  then have "set (ring h1) = set (ring h2)" using i1(1) i2(1) by (simp add: ring_ok_def)
  then have "ring h1 = ring h2"
    using i1(1,2) i2(1,2) by (auto simp: ring_ok_def intro: sorted_distinct_set_unique)
  with m assms(3,4) show ?thesis by simp
qed

text \<open>The hash ring provides the placement interface for node IDs other than the empty string.\<close>

interpretation ring: placement "U - {''''}" "\<lambda>h. ring_inv sha U h \<and> '''' \<notin> nodes h" nodes
  "AddNode sha" "\<lambda>n h. if n = '''' then Inr h else RemoveNode n h" "GetNode sha" for U sha
proof (unfold_locales, goal_cases)
  case (1 r k) then show ?case using ring_inv_empty by (auto simp: GetNode_def)
next
  case (2 r k) then show ?case using ring_inv_empty GetNode_owner(2) ring_invD(1) by blast
next
  case (3 r n) then show ?case
    using ring_inv_AddNode AddNode_fields(2) ring_invD(1) by (cases "n \<in> nodes r") auto
next
  case (4 r n) then show ?case
    using AddNode_fields(2) ring_invD(1) by (cases "n \<in> nodes r") auto
next
  case (5 r n) then show ?case using RemoveNode_total by auto
next
  case (6 r n r') then show ?case using ring_inv_RemoveNode by (auto split: if_splits)
next
  case (7 r n r') then show ?case using ring_inv_RemoveNode by (auto split: if_splits)
next
  case (8 r n k) then show ?case using GetNode_AddNode ring_inv_empty ring_invD(1) by blast
next
  case (9 r n r' k) then show ?case
    using GetNode_RemoveNode ring_invD(1,2) by (auto split: if_splits)
qed

subsection \<open>Replica sets\<close>

text \<open>The owner \<open>GetNodes\<close> reads at step \<open>i\<close> of its walk from index \<open>idx\<close>.\<close>

definition owner_at :: "hash_ring \<Rightarrow> nat \<Rightarrow> nat \<Rightarrow> node_id" where
  "owner_at h idx i = map_get '''' (nodeMap h) (ring h ! ((idx + i) mod length (ring h)))"

lemma walk_props:
  fixes h idx "is"
  assumes "distinct result" "seen = set result" "int (length result) \<le> n"
  defines "out \<equiv> walk h idx n is seen result"
  shows "distinct out" "set out \<subseteq> set result \<union> owner_at h idx ` set is"
    and "int (length out) \<le> n"
    and "int (length out) < n \<Longrightarrow> set out = set result \<union> owner_at h idx ` set is"
    and "\<exists>suf. out = result @ suf"
proof -
  have "distinct out \<and> set out \<subseteq> set result \<union> owner_at h idx ` set is \<and> int (length out) \<le> n \<and>
    (int (length out) < n \<longrightarrow> set out = set result \<union> owner_at h idx ` set is) \<and>
    (\<exists>suf. out = result @ suf)"
    unfolding out_def using assms(1-3)
  proof (induction h idx n "is" seen result rule: walk.induct)
    case (2 h idx n i "is" seen result)
    let ?o = "owner_at h idx i"
    consider "\<not> int (length result) < n" | "int (length result) < n" "?o \<notin> seen"
      | "int (length result) < n" "?o \<in> seen" by blast
    then show ?case
    proof cases
      case 1
      with 2 show ?thesis by auto
    next
      case 2
      have "walk h idx n (i # is) seen result = walk h idx n is (insert ?o seen) (result @ [?o])"
        using 2 by (simp add: owner_at_def Let_def)
      with "2.IH"(1) [OF 2(1) refl refl] 2 "2.prems" show ?thesis
        by (auto simp: owner_at_def)
    next
      case 3
      have "walk h idx n (i # is) seen result = walk h idx n is seen result"
        using 3 by (simp add: owner_at_def Let_def)
      with "2.IH"(2) [OF 3(1) refl refl] 3 "2.prems" show ?thesis
        by (auto simp: owner_at_def)
    qed
  qed auto
  then show "distinct out" "set out \<subseteq> set result \<union> owner_at h idx ` set is"
    "int (length out) \<le> n"
    "int (length out) < n \<Longrightarrow> set out = set result \<union> owner_at h idx ` set is"
    "\<exists>suf. out = result @ suf" by blast+
qed

lemma owner_at_range:
  assumes "ring_ok h" "ring h \<noteq> []"
  shows "owner_at h idx ` {..<length (ring h)} = ran (nodeMap h)"
proof -
  let ?N = "length (ring h)"
  have dom: "set (ring h) = dom (nodeMap h)" using assms(1) by (simp add: ring_ok_def)
  have "(\<lambda>i. (idx + i) mod ?N) ` {..<?N} = {..<?N}"
  proof (intro card_subset_eq)
    have eq: "i = j" if "(idx + i) mod ?N = (idx + j) mod ?N" "i \<le> j" "j < ?N" for i j
      using that mod_eq_dvd_iff_nat [of "idx + i" "idx + j" ?N] by (auto dest: dvd_imp_le)
    have "inj_on (\<lambda>i. (idx + i) mod ?N) {..<?N}"
      by (intro inj_onI) (metis eq lessThan_iff nat_le_linear)
    then show "card ((\<lambda>i. (idx + i) mod ?N) ` {..<?N}) = card {..<?N}" by (rule card_image)
  qed (use assms(2) in auto)
  then have "owner_at h idx ` {..<?N} = (\<lambda>j. map_get '''' (nodeMap h) (ring h ! j)) ` {..<?N}"
    unfolding owner_at_def by (metis (no_types) image_image)
  also have "\<dots> = map_get '''' (nodeMap h) ` set (ring h)"
    by (auto simp: set_conv_nth image_iff)
  also have "\<dots> = ran (nodeMap h)"
    unfolding dom by (force simp: ran_def dom_def map_get_def image_iff)
  finally show ?thesis .
qed

lemma GetNodes_spec:
  assumes "ring_ok h" "ring h \<noteq> []" "0 < n"
  shows "distinct (GetNodes sha h key n)" "set (GetNodes sha h key n) \<subseteq> ran (nodeMap h)"
    and "int (length (GetNodes sha h key n)) = min n (int (card (ran (nodeMap h))))"
    and "\<exists>rest. GetNodes sha h key n = GetNode sha h key # rest"
proof -
  let ?i = "start_index (ring h) (hashKey sha key)" and ?N = "length (ring h)"
  let ?out = "GetNodes sha h key n"
  have out: "?out = walk h ?i n [0..<?N] {} []" using assms by (simp add: GetNodes_def)
  note w = walk_props [of "[]" "{}" n h ?i "[0..<?N]", folded out]
  have R: "owner_at h ?i ` set [0..<?N] = ran (nodeMap h)"
    using owner_at_range [OF assms(1,2)] by (simp add: atLeast0LessThan)
  show d: "distinct ?out" and s: "set ?out \<subseteq> ran (nodeMap h)" using w(1,2) assms(3) R by auto
  have fin: "finite (ran (nodeMap h))"
    using assms(1) unfolding ring_ok_def by (meson finite_subset)
  show "int (length ?out) = min n (int (card (ran (nodeMap h))))"
  proof (cases "int (length ?out) < n")
    case True
    with w(4) assms(3) R have "set ?out = ran (nodeMap h)" by auto
    with d True show ?thesis using distinct_card by fastforce
  next
    case False
    with w(3) assms(3) have "int (length ?out) = n" by auto
    moreover have "length ?out \<le> card (ran (nodeMap h))"
      using d s fin by (metis card_mono distinct_card)
    ultimately show ?thesis by simp
  qed
  obtain k where k: "[0..<?N] = 0 # k" using assms(2) by (metis length_greater_0_conv upt_conv_Cons)
  have "?out = walk h ?i n k {owner_at h ?i 0} [owner_at h ?i 0]"
    unfolding out k using assms(3) by (simp add: owner_at_def Let_def)
  moreover have "owner_at h ?i 0 = GetNode sha h key"
    using assms start_index_less by (simp add: owner_at_def GetNode_def ring_ok_def)
  ultimately show "\<exists>rest. ?out = GetNode sha h key # rest"
    using walk_props(5) [of "[owner_at h ?i 0]" "{owner_at h ?i 0}" n h ?i k] assms(3) by auto
qed

lemma ring_inv_owners: "ring_inv sha U h \<Longrightarrow> ran (nodeMap h) = nodes h"
proof -
  assume inv: "ring_inv sha U h"
  have "node_pos sha (vnodes h) n \<noteq> {}" for n
    using ring_invD(1) [OF inv] by (auto simp: node_pos_def ring_ok_def lessThan_empty_iff)
  then show ?thesis by (auto simp: ran_def ring_invD(5) [OF inv])
qed

subsection \<open>Runs of membership changes\<close>

datatype ring_op = Join node_id | Leave node_id

fun ring_run :: "(string \<Rightarrow> bytes) \<Rightarrow> ring_op list \<Rightarrow> hash_ring \<Rightarrow> hash_ring go" where
  "ring_run sha [] h = Inr h"
| "ring_run sha (Join n # ops) h = ring_run sha ops (AddNode sha n h)"
| "ring_run sha (Leave n # ops) h =
     (case RemoveNode n h of Inl e \<Rightarrow> Inl e | Inr h' \<Rightarrow> ring_run sha ops h')"

fun run_members :: "ring_op list \<Rightarrow> node_id set \<Rightarrow> node_id set" where
  "run_members [] M = M"
| "run_members (Join n # ops) M = run_members ops (insert n M)"
| "run_members (Leave n # ops) M = run_members ops (M - {n})"

fun op_node :: "ring_op \<Rightarrow> node_id" where
  "op_node (Join n) = n"
| "op_node (Leave n) = n"

lemma vnodes_AddNode [simp]: "vnodes (AddNode sha n h) = vnodes h"
  by (simp add: AddNode_def Let_def add_vnodes)

lemma vnodes_RemoveNode: "RemoveNode n h = Inr h' \<Longrightarrow> vnodes h' = vnodes h"
  by (auto simp: RemoveNode_def split: if_splits prod.splits)

lemma ring_run_inv:
  assumes "ring_inv sha U h" "'''' \<notin> U" "op_node ` set ops \<subseteq> U"
  shows "\<exists>h'. ring_run sha ops h = Inr h' \<and> ring_inv sha U h' \<and>
    nodes h' = run_members ops (nodes h) \<and> vnodes h' = vnodes h"
  using assms
proof (induction sha ops h rule: ring_run.induct)
  case (2 sha n ops h)
  then show ?case
    using ring_inv_AddNode [of sha U h n] AddNode_fields(2) [OF ring_invD(1), of sha U h n sha]
    by (cases "n \<in> nodes h") (auto simp: insert_absorb)
next
  case (3 sha n ops h)
  then obtain h1 where h1: "RemoveNode n h = Inr h1" using RemoveNode_total by blast
  moreover have "n \<noteq> ''''" using "3.prems" by auto
  ultimately show ?case
    using "3.IH" [OF h1] "3.prems" ring_inv_RemoveNode [OF "3.prems"(1) h1] vnodes_RemoveNode [OF h1]
    by auto
qed auto

text \<open>A hash function for the witnesses: the key's own bytes.\<close>

definition demo_sha :: "string \<Rightarrow> bytes" where
  "demo_sha key = map (\<lambda>c. word_of_nat (of_char c)) key"

lemma collision_free_demo: "collision_free demo_sha 2 {''a'', ''b''}"
  unfolding collision_free_def by code_simp

subsection \<open>Properties\<close>

text \<open>C15. \<open>GetNode\<close> computes consistent hashing: on every well-formed, non-empty ring the binary
  search and the wrap-around select the owner of the first position clockwise from the key's hash,
  and that owner is a member.\<close>

theorem GetNode_refines_successor:
  assumes "ring_ok h" "ring h \<noteq> []"
  shows "nodeMap h (successor (dom (nodeMap h)) (hashKey sha key)) = Some (GetNode sha h key) \<and>
    GetNode sha h key \<in> nodes h"
proof -
  have "successor (set (ring h)) (hashKey sha key) \<in> dom (nodeMap h)"
    using successor_in [of "set (ring h)"] assms by (auto simp: ring_ok_def)
  then have "nodeMap h (successor (dom (nodeMap h)) (hashKey sha key)) = Some (GetNode sha h key)"
    using assms by (auto simp: GetNode_successor ring_ok_def)
  then show ?thesis using GetNode_owner(2) assms by blast
qed

definition demo_ring :: hash_ring where
  "demo_ring = AddNode demo_sha ''b'' (AddNode demo_sha ''a'' (NewHashRing 2))"

lemma demo_ring_ok: "ring_ok demo_ring" "ring demo_ring \<noteq> []"
  unfolding demo_ring_def by (intro ring_ok_AddNode ring_ok_New) code_simp

lemma ring_inv_demo: "ring_inv demo_sha {''a'', ''b''} demo_ring"
  unfolding demo_ring_def
  by (intro ring_inv_AddNode ring_inv_New) (simp_all add: NewHashRing_def collision_free_demo)

lemma nodes_demo: "nodes demo_ring = {''a'', ''b''}"
  unfolding demo_ring_def by code_simp

theorem GetNode_refines_successor_witness:
  "ring_ok demo_ring \<and> GetNode demo_sha demo_ring ''k'' \<in> {''a'', ''b''}"
  using GetNode_refines_successor [OF demo_ring_ok, of demo_sha "''k''"] demo_ring_ok nodes_demo
  by simp

text \<open>A join moves keys only to the new node: whatever collisions the hash has, after
  \<open>AddNode\<close> each key is routed to the new node or where it was routed before.\<close>

theorem AddNode_minimal_movement:
  assumes "ring_ok h" "ring h \<noteq> []"
  shows "ring_ok (AddNode sha n h) \<and> GetNode sha (AddNode sha n h) key \<in> {n, GetNode sha h key}"
  using ring_ok_AddNode [OF assms(1)] GetNode_AddNode [OF assms, of sha n key] by auto

theorem AddNode_minimal_movement_witness:
  "ring_ok (AddNode demo_sha ''c'' demo_ring) \<and>
    GetNode demo_sha (AddNode demo_sha ''c'' demo_ring) ''k'' \<in> {''c'', GetNode demo_sha demo_ring ''k''}"
  by (rule AddNode_minimal_movement [OF demo_ring_ok])

text \<open>A leave moves exactly the leaving node's keys: on a collision-free ring \<open>RemoveNode\<close>
  does not panic, keeps the invariant, and a key changes its owner exactly when the leaving node
  owned it.\<close>

theorem RemoveNode_moves_exactly:
  assumes "ring_inv sha U h" "'''' \<notin> nodes h" "n \<in> nodes h"
  shows "\<exists>h'. RemoveNode n h = Inr h' \<and> ring_inv sha U h' \<and> nodes h' = nodes h - {n} \<and>
    (\<forall>key. GetNode sha h' key \<noteq> GetNode sha h key \<longleftrightarrow> GetNode sha h key = n)"
proof -
  have n: "n \<noteq> ''''" using assms by auto
  obtain h' where h': "RemoveNode n h = Inr h'" using RemoveNode_total [OF assms(1)] by blast
  have "GetNode sha h' key \<noteq> GetNode sha h key \<longleftrightarrow> GetNode sha h key = n" for key
    using ring.remove_moves_exactly [of sha U h n h' key] assms n h' by auto
  then show ?thesis using ring_inv_RemoveNode [OF assms(1) h' n] h' by blast
qed

theorem RemoveNode_moves_exactly_witness:
  "\<exists>h'. RemoveNode ''a'' demo_ring = Inr h' \<and> ring_inv demo_sha {''a'', ''b''} h' \<and>
    nodes h' = nodes demo_ring - {''a''} \<and>
    (\<forall>key. GetNode demo_sha h' key \<noteq> GetNode demo_sha demo_ring key \<longleftrightarrow> GetNode demo_sha demo_ring key = ''a'')"
  by (rule RemoveNode_moves_exactly [OF ring_inv_demo]) (simp_all add: nodes_demo)

text \<open>Membership history leaves no trace: from a fresh ring, any sequence of joins and leaves
  of collision-free nodes runs without a panic, and two sequences with the same final members
  produce the same ring.\<close>

theorem ring_history_independent:
  assumes "collision_free sha (vnodes (NewHashRing v)) U" "'''' \<notin> U"
    "op_node ` set ops1 \<subseteq> U" "op_node ` set ops2 \<subseteq> U"
    "run_members ops1 {} = run_members ops2 {}"
  shows "\<exists>h. ring_run sha ops1 (NewHashRing v) = Inr h \<and> ring_run sha ops2 (NewHashRing v) = Inr h \<and>
    ring_inv sha U h \<and> nodes h = run_members ops1 {}"
proof -
  note inv = ring_inv_New [OF assms(1)]
  have "nodes (NewHashRing v) = {}" by (simp add: NewHashRing_def)
  with ring_run_inv [OF inv assms(2,3)] ring_run_inv [OF inv assms(2,4)] assms(5)
  show ?thesis using ring_inv_canonical by metis
qed

theorem ring_history_independent_witness:
  "\<exists>h. ring_run demo_sha [Join ''a'', Join ''b'', Leave ''a''] (NewHashRing 2) = Inr h \<and>
    ring_run demo_sha [Join ''b''] (NewHashRing 2) = Inr h \<and>
    ring_inv demo_sha {''a'', ''b''} h \<and> nodes h = run_members [Join ''a'', Join ''b'', Leave ''a''] {}"
  by (rule ring_history_independent) (auto simp: NewHashRing_def collision_free_demo)

text \<open>Replica sets: \<open>GetNodes\<close> returns distinct members, as many as asked for or all there
  are, and the primary owner first.\<close>

theorem GetNodes_replicas:
  assumes "ring_inv sha U h" "nodes h \<noteq> {}" "0 < n"
  shows "distinct (GetNodes sha h key n) \<and> set (GetNodes sha h key n) \<subseteq> nodes h \<and>
    int (length (GetNodes sha h key n)) = min n (int (NodeCount h)) \<and>
    hd (GetNodes sha h key n) = GetNode sha h key"
proof -
  have "ring h \<noteq> []" using ring_inv_empty [OF assms(1)] assms(2) by simp
  note s = GetNodes_spec [OF ring_invD(1) [OF assms(1)] this assms(3), of sha key]
  show ?thesis using s ring_inv_owners [OF assms(1)] by (auto simp: NodeCount_def)
qed

theorem GetNodes_replicas_witness:
  "distinct (GetNodes demo_sha demo_ring ''k'' 3) \<and> set (GetNodes demo_sha demo_ring ''k'' 3) \<subseteq> nodes demo_ring \<and>
    int (length (GetNodes demo_sha demo_ring ''k'' 3)) = min 3 (int (NodeCount demo_ring)) \<and>
    hd (GetNodes demo_sha demo_ring ''k'' 3) = GetNode demo_sha demo_ring ''k''"
  by (rule GetNodes_replicas [OF ring_inv_demo]) (simp_all add: nodes_demo)

text \<open>Without the collision assumption \<open>RemoveNode\<close> is wrong in two ways, shown by two hash
  functions: a node that collides with itself leaves an ownerless position behind, so that a key is
  routed to the empty node ID while a member is alive; and a position skipped because another node
  owns it makes the capacity argument negative, so that removing the last member panics.\<close>

definition self_colliding :: "string \<Rightarrow> bytes" where
  "self_colliding key = (if take 1 key = ''a'' then [0, 0, 0, 9] else demo_sha key)"

definition all_colliding :: "string \<Rightarrow> bytes" where
  "all_colliding key = [0, 0, 0, 7]"

theorem RemoveNode_collision_defects:
  "(\<exists>h'. ring_run self_colliding [Join ''a'', Join ''b'', Leave ''a''] (NewHashRing 2) = Inr h' \<and>
      nodes h' = {''b''} \<and> GetNode self_colliding h' ''a-key'' = '''') \<and>
   ring_run all_colliding [Join ''a'', Join ''b'', Leave ''a'', Leave ''b''] (NewHashRing 3) =
     Inl MakesliceCapOutOfRange"
proof
  let ?r = "ring_run self_colliding [Join ''a'', Join ''b'', Leave ''a''] (NewHashRing 2)"
  have "\<not> isl ?r" by code_simp
  moreover have "nodes (projr ?r) = {''b''}" by code_simp
  moreover have "GetNode self_colliding (projr ?r) ''a-key'' = ''''" by code_simp
  ultimately show "\<exists>h'. ?r = Inr h' \<and> nodes h' = {''b''} \<and> GetNode self_colliding h' ''a-key'' = ''''"
    by (metis sum.collapse(2))
next
  let ?r = "ring_run all_colliding [Join ''a'', Join ''b'', Leave ''a'', Leave ''b''] (NewHashRing 3)"
  have "isl ?r" by code_simp
  moreover have "projl ?r = MakesliceCapOutOfRange" by code_simp
  ultimately show "?r = Inl MakesliceCapOutOfRange" by (metis sum.collapse(1))
qed

end
