(* ===== verification/Slice_Sort.thy ===== *)
theory Slice_Sort
  imports Go_Prelude
begin

section \<open>The contract of \<open>sort.Slice\<close>\<close>

text \<open>
  \<open>sort.Slice\<close> is not stable: elements that the comparison does not separate may come out in any
  order. Code that sorts by a key therefore takes the sorting function as an argument, and this
  locale is all that is known of it: the result is a permutation in which no later element is less
  than an earlier one. Stable insertion sort, which Go's implementation runs on slices of up to
  twelve elements, is one such function.
\<close>

locale slice_sorter =
  fixes less :: "'a \<Rightarrow> 'a \<Rightarrow> bool"
    and srt :: "'a list \<Rightarrow> 'a list"
  assumes mset_srt: "mset (srt xs) = mset xs"
    and sorted_srt: "sorted_wrt (\<lambda>x y. \<not> less y x) (srt xs)"
begin

lemma set_srt: "set (srt xs) = set xs"
  by (metis mset_srt set_mset_mset)

lemma length_srt: "length (srt xs) = length xs"
  by (metis mset_srt size_mset)

lemma distinct_srt: "distinct (srt xs) \<longleftrightarrow> distinct xs"
  by (metis mset_srt mset_eq_imp_distinct_iff)

lemma srt_take_drop:
  assumes "x \<in> set (take k (srt xs))" "y \<in> set (drop k (srt xs))"
  shows "\<not> less y x"
  using sorted_srt [of xs] assms
  by (metis append_take_drop_id sorted_wrt_append)

lemma srt_take_best:
  assumes "x \<in> set (take k (srt xs))" "y \<in> set xs" "y \<notin> set (take k (srt xs))"
  shows "\<not> less y x"
proof -
  have "y \<in> set (take k (srt xs)) \<union> set (drop k (srt xs))"
    using assms(2) set_srt by (metis append_take_drop_id set_append)
  with assms(3) have "y \<in> set (drop k (srt xs))" by blast
  with assms(1) show ?thesis by (rule srt_take_drop)
qed

lemma srt_hd_best: "y \<in> set xs \<Longrightarrow> y \<noteq> hd (srt xs) \<Longrightarrow> \<not> less y (hd (srt xs))"
  using sorted_srt [of xs] set_srt [of xs] by (cases "srt xs") auto

end

text \<open>Ascending and descending stable sorting by a key.\<close>

definition sort_desc :: "('a \<Rightarrow> 'k::linorder) \<Rightarrow> 'a list \<Rightarrow> 'a list" where
  "sort_desc key xs = rev (sort_key key (rev xs))"

interpretation asc: slice_sorter "\<lambda>a b. key a < key b" "sort_key key"
  for key :: "'a \<Rightarrow> 'k::linorder"
proof
  fix xs :: "'a list"
  have "sorted (map key (sort_key key xs))" by simp
  then show "sorted_wrt (\<lambda>x y. \<not> key y < key x) (sort_key key xs)"
    by (simp add: sorted_wrt_map not_less)
qed simp

interpretation desc: slice_sorter "\<lambda>a b. key a > key b" "sort_desc key"
  for key :: "'a \<Rightarrow> 'k::linorder"
proof
  fix xs :: "'a list"
  have "sorted (map key (sort_key key (rev xs)))" by simp
  then show "sorted_wrt (\<lambda>x y. \<not> key x < key y) (sort_desc key xs)"
    by (simp add: sort_desc_def sorted_wrt_map sorted_wrt_rev not_less)
qed (simp add: sort_desc_def)

end
