(* ===== verification/Rendezvous.thy ===== *)
theory Rendezvous
  imports Placement Slice_Sort
begin

section \<open>Rendezvous hashing: \<open>internal/cluster/rendezvous.go\<close>\<close>

text \<open>
  The router keeps the sorted slice of node IDs and routes a key to the node with the highest
  64-bit weight. \<open>RouteN\<close> sorts with \<open>sort.Slice\<close>, here the argument \<open>srt\<close>; it allocates its
  result with \<open>make\<close>, which panics on a negative count.
\<close>

type_synonym rendezvous_router = "node_id list"

definition NewRendezvousRouter :: "node_id list \<Rightarrow> rendezvous_router" where
  "NewRendezvousRouter ns = sort ns"

definition rr_AddNode :: "node_id \<Rightarrow> rendezvous_router \<Rightarrow> rendezvous_router" where
  "rr_AddNode nodeID r = (if nodeID \<in> set r then r else sort (r @ [nodeID]))"

fun rr_RemoveNode :: "node_id \<Rightarrow> rendezvous_router \<Rightarrow> rendezvous_router" where
  "rr_RemoveNode nodeID [] = []"
| "rr_RemoveNode nodeID (n # ns) = (if n = nodeID then ns else n # rr_RemoveNode nodeID ns)"

definition rendezvousHash :: "(string \<Rightarrow> bytes) \<Rightarrow> node_id \<Rightarrow> string \<Rightarrow> u64" where
  "rendezvousHash sha nodeID key = be_decode (take 8 (sha (nodeID @ [CHR 0x00] @ key)))"

fun route_loop :: "(string \<Rightarrow> bytes) \<Rightarrow> string \<Rightarrow> node_id list \<Rightarrow> u64 \<Rightarrow> node_id \<Rightarrow> node_id" where
  "route_loop sha key [] maxHash winner = winner"
| "route_loop sha key (node # ns) maxHash winner =
     (let h = rendezvousHash sha node key in
      if h > maxHash \<or> winner = '''' then route_loop sha key ns h node
      else route_loop sha key ns maxHash winner)"

definition Route :: "(string \<Rightarrow> bytes) \<Rightarrow> rendezvous_router \<Rightarrow> string \<Rightarrow> node_id" where
  "Route sha r key = (if r = [] then '''' else route_loop sha key r 0 '''')"

record scored =
  sc_node :: node_id
  sc_hash :: u64

definition RouteN :: "(scored list \<Rightarrow> scored list) \<Rightarrow> (string \<Rightarrow> bytes) \<Rightarrow> rendezvous_router \<Rightarrow>
    string \<Rightarrow> int \<Rightarrow> node_id list go" where
  "RouteN srt sha r key n =
     (if r = [] then Inr []
      else let n' = (if n > int (length r) then int (length r) else n);
               ranked = srt (map (\<lambda>node. \<lparr>sc_node = node, sc_hash = rendezvousHash sha node key\<rparr>) r)
           in if n' < 0 then Inl MakesliceLenOutOfRange
              else Inr (map sc_node (take (nat n') ranked)))"

definition rr_NodeCount :: "rendezvous_router \<Rightarrow> nat" where
  "rr_NodeCount r = length r"

definition rr_Nodes :: "rendezvous_router \<Rightarrow> node_id list" where
  "rr_Nodes r = r"

subsection \<open>The winner has the highest weight\<close>

definition rr_inv :: "rendezvous_router \<Rightarrow> bool" where
  "rr_inv r \<longleftrightarrow> sorted r \<and> distinct r \<and> '''' \<notin> set r"

text \<open>The first node of the slice among those of maximal weight.\<close>

definition first_max :: "(string \<Rightarrow> bytes) \<Rightarrow> string \<Rightarrow> node_id list \<Rightarrow> node_id \<Rightarrow> bool" where
  "first_max sha key r w \<longleftrightarrow> (\<exists>xs ys. r = xs @ w # ys \<and>
     (\<forall>x \<in> set xs. rendezvousHash sha x key < rendezvousHash sha w key) \<and>
     (\<forall>y \<in> set ys. rendezvousHash sha y key \<le> rendezvousHash sha w key))"

lemma first_max_unique: "first_max sha key r v \<Longrightarrow> first_max sha key r w \<Longrightarrow> v = w"
proof -
  assume "first_max sha key r v" "first_max sha key r w"
  then obtain xs ys us vs where r: "r = xs @ v # ys" "r = us @ w # vs"
    and x: "\<forall>x \<in> set xs. rendezvousHash sha x key < rendezvousHash sha v key"
      "\<forall>y \<in> set ys. rendezvousHash sha y key \<le> rendezvousHash sha v key"
    and u: "\<forall>x \<in> set us. rendezvousHash sha x key < rendezvousHash sha w key"
      "\<forall>y \<in> set vs. rendezvousHash sha y key \<le> rendezvousHash sha w key"
    unfolding first_max_def by blast
  have "xs @ v # ys = us @ w # vs" using r by simp
  then consider zs where "xs = us @ w # zs" "vs = zs @ v # ys"
    | "xs = us" "v = w" | zs where "us = xs @ v # zs" "ys = zs @ w # vs"
    by (force simp: append_eq_append_conv2 append_eq_Cons_conv Cons_eq_append_conv)
  then show "v = w" using x u by cases (auto dest: leD)
qed

lemma route_loop_first_max:
  assumes "'''' \<notin> set ns" "first_max sha key xs w" "w \<noteq> ''''" "m = rendezvousHash sha w key"
  shows "first_max sha key (xs @ ns) (route_loop sha key ns m w)"
  using assms
proof (induction ns arbitrary: xs w m)
  case (Cons n ns)
  obtain us vs where xs: "xs = us @ w # vs"
    "\<forall>x \<in> set us. rendezvousHash sha x key < rendezvousHash sha w key"
    "\<forall>y \<in> set vs. rendezvousHash sha y key \<le> rendezvousHash sha w key"
    using Cons.prems(2) unfolding first_max_def by blast
  show ?case
  proof (cases "rendezvousHash sha n key > m")
    case True
    then have "first_max sha key (xs @ [n]) n"
      using xs Cons.prems(4) unfolding first_max_def
      by (intro exI [of _ xs] exI [of _ "[]"]) auto
    with True Cons.IH [of "xs @ [n]" n "rendezvousHash sha n key"] Cons.prems(1) show ?thesis by auto
  next
    case False
    then have "first_max sha key (xs @ [n]) w"
      using xs Cons.prems(4) unfolding first_max_def
      by (intro exI [of _ us] exI [of _ "vs @ [n]"]) auto
    with False Cons.IH [of "xs @ [n]" w m] Cons.prems show ?thesis by simp
  qed
qed simp

lemma Route_first_max:
  assumes "'''' \<notin> set r" "r \<noteq> []"
  shows "first_max sha key r (Route sha r key)"
proof (cases r)
  case (Cons n ns)
  have "first_max sha key [n] n" unfolding first_max_def by (intro exI [of _ "[]"]) auto
  with route_loop_first_max [of ns sha key "[n]" n "rendezvousHash sha n key"] assms Cons show ?thesis
    by (auto simp: Route_def)
qed (use assms in simp)

lemma first_max_mem: "first_max sha key r w \<Longrightarrow> w \<in> set r"
  by (auto simp: first_max_def)

lemma first_max_filter:
  assumes "first_max sha key r w" "w \<noteq> n"
  shows "first_max sha key (filter (\<lambda>x. x \<noteq> n) r) w"
proof -
  obtain xs ys where "r = xs @ w # ys"
    "\<forall>x \<in> set xs. rendezvousHash sha x key < rendezvousHash sha w key"
    "\<forall>y \<in> set ys. rendezvousHash sha y key \<le> rendezvousHash sha w key"
    using assms(1) unfolding first_max_def by blast
  with assms(2) show ?thesis
    unfolding first_max_def
    by (intro exI [of _ "filter (\<lambda>x. x \<noteq> n) xs"] exI [of _ "filter (\<lambda>x. x \<noteq> n) ys"]) auto
qed

lemma rr_RemoveNode_filter: "distinct r \<Longrightarrow> rr_RemoveNode n r = filter (\<lambda>x. x \<noteq> n) r"
proof (induction r)
  case (Cons m r)
  moreover from this have "n \<notin> set r \<Longrightarrow> filter (\<lambda>x. x \<noteq> n) r = r" by (auto simp: filter_id_conv)
  ultimately show ?case by auto
qed simp

lemma rr_AddNode_filter:
  assumes "rr_inv r" "n \<notin> set r"
  shows "filter (\<lambda>x. x \<noteq> n) (rr_AddNode n r) = r"
proof (rule sorted_distinct_set_unique)
  show "sorted (filter (\<lambda>x. x \<noteq> n) (rr_AddNode n r))"
    using assms by (simp add: rr_AddNode_def sorted_wrt_filter)
qed (use assms in \<open>auto simp: rr_inv_def rr_AddNode_def\<close>)

lemma rr_inv_AddNode [inv_intros]: "rr_inv r \<Longrightarrow> n \<noteq> '''' \<Longrightarrow> rr_inv (rr_AddNode n r)"
  by (auto simp: rr_inv_def rr_AddNode_def)

lemma rr_inv_RemoveNode [inv_intros]: "rr_inv r \<Longrightarrow> rr_inv (rr_RemoveNode n r)"
  by (auto simp: rr_inv_def rr_RemoveNode_filter sorted_wrt_filter)

text \<open>Rendezvous hashing provides the placement interface with no assumption on the hash.\<close>

interpretation rendezvous: placement "- {''''}" rr_inv set rr_AddNode
  "\<lambda>n r. Inr (rr_RemoveNode n r)" "Route sha" for sha
proof (unfold_locales, goal_cases)
  case (1 r k) then show ?case by (simp add: Route_def)
next
  case (2 r k) then show ?case by (intro first_max_mem [OF Route_first_max]) (auto simp: rr_inv_def)
next
  case (3 r n) then show ?case by (auto intro: rr_inv_AddNode)
next
  case (4 r n) then show ?case by (auto simp: rr_AddNode_def)
next
  case (5 r n) then show ?case by simp
next
  case (6 r n r') then show ?case by (auto intro: rr_inv_RemoveNode)
next
  case (7 r n r') then show ?case by (auto simp: rr_inv_def rr_RemoveNode_filter)
next
  case (8 r n k)
  show ?case
  proof (cases "n \<in> set r")
    case False
    have "set (rr_AddNode n r) = insert n (set r)" by (auto simp: rr_AddNode_def)
    then have "'''' \<notin> set (rr_AddNode n r)" "rr_AddNode n r \<noteq> []"
      using 8 rr_inv_AddNode [of r n] by (auto simp: rr_inv_def)
    then have "first_max sha k (rr_AddNode n r) (Route sha (rr_AddNode n r) k)"
      by (rule Route_first_max)
    from first_max_filter [OF this, of n] have "Route sha (rr_AddNode n r) k \<noteq> n \<Longrightarrow>
        first_max sha k r (Route sha (rr_AddNode n r) k)"
      using rr_AddNode_filter 8 False by auto
    with 8 show ?thesis using Route_first_max first_max_unique by (fastforce simp: rr_inv_def)
  qed (simp add: rr_AddNode_def)
next
  case (9 r n r' k)
  show ?case
  proof (cases "r = []")
    case False
    have r': "r' = filter (\<lambda>x. x \<noteq> n) r" using 9 by (auto simp: rr_inv_def rr_RemoveNode_filter)
    have "first_max sha k r' (Route sha r k)"
      unfolding r' using 9 False by (intro first_max_filter Route_first_max) (auto simp: rr_inv_def)
    moreover have "first_max sha k r' (Route sha r' k)"
      using first_max_mem [OF calculation] 9(1) unfolding r'
      by (intro Route_first_max) (auto simp: rr_inv_def filter_empty_conv)
    ultimately show ?thesis by (rule first_max_unique [symmetric])
  qed (use 9 in \<open>auto simp: Route_def\<close>)
qed

subsection \<open>Properties\<close>

text \<open>Highest random weight: \<open>Route\<close> returns a member of maximal weight, the first one in the
  slice when several are maximal.\<close>

theorem Route_highest_weight:
  assumes "rr_inv r" "r \<noteq> []"
  shows "Route sha r key \<in> set r \<and>
    (\<forall>n \<in> set r. rendezvousHash sha n key \<le> rendezvousHash sha (Route sha r key) key) \<and>
    (\<forall>n \<in> set r. rendezvousHash sha n key = rendezvousHash sha (Route sha r key) key \<longrightarrow>
       Route sha r key \<le> n)"
proof -
  have fm: "first_max sha key r (Route sha r key)"
    using Route_first_max assms by (auto simp: rr_inv_def)
  then obtain xs ys where r: "r = xs @ Route sha r key # ys"
    "\<forall>x \<in> set xs. rendezvousHash sha x key < rendezvousHash sha (Route sha r key) key"
    "\<forall>y \<in> set ys. rendezvousHash sha y key \<le> rendezvousHash sha (Route sha r key) key"
    unfolding first_max_def by blast
  have "set r = set xs \<union> {Route sha r key} \<union> set ys" by (subst r(1)) auto
  moreover have "\<forall>y \<in> set ys. Route sha r key \<le> y"
    using assms(1) r(1) unfolding rr_inv_def by (metis sorted_wrt.simps(2) sorted_wrt_append)
  ultimately show ?thesis using r(2,3) by (auto simp: less_imp_le)
qed

definition demo_weight :: "string \<Rightarrow> bytes" where
  "demo_weight key = map (\<lambda>c. word_of_nat (of_char c)) key"

lemma demo_router: "rr_inv [''n1'', ''n2'', ''n3'']"
  by (simp add: rr_inv_def)

theorem Route_highest_weight_witness:
  "rr_inv [''n1'', ''n2'', ''n3''] \<and>
   Route demo_weight [''n1'', ''n2'', ''n3''] ''col'' \<in> set [''n1'', ''n2'', ''n3'']"
  using Route_highest_weight [OF demo_router, of demo_weight "''col''"] demo_router by blast

text \<open>Membership changes of the rendezvous router move only what they must, for any hash
  function: a join moves keys only to the new node, a leave moves exactly the leaving node's keys.\<close>

theorem rendezvous_minimal_movement:
  assumes "rr_inv r" "r \<noteq> []" "n \<noteq> ''''"
  shows "Route sha (rr_AddNode n r) key \<in> {n, Route sha r key} \<and>
    (n \<in> set r \<longrightarrow>
      (Route sha (rr_RemoveNode n r) key \<noteq> Route sha r key \<longleftrightarrow> Route sha r key = n))"
  using rendezvous.route_add [of r n sha key] rendezvous.remove_moves_exactly [of r n _ sha key] assms
  by auto

theorem rendezvous_minimal_movement_witness:
  "Route demo_weight (rr_AddNode ''n4'' [''n1'', ''n2'', ''n3'']) ''col'' \<in>
     {''n4'', Route demo_weight [''n1'', ''n2'', ''n3''] ''col''}"
  using rendezvous_minimal_movement [OF demo_router, of "''n4''" demo_weight "''col''"] by simp

text \<open>Replica ranking: for any sorting function that meets the contract of \<open>sort.Slice\<close> and a
  non-negative count, \<open>RouteN\<close> returns that many distinct members (all of them when there are
  fewer), and no member left out outweighs one returned.\<close>

theorem RouteN_top_weights:
  assumes "slice_sorter (\<lambda>a b. sc_hash a > sc_hash b) srt" "rr_inv r" "0 \<le> n"
  shows "\<exists>out. RouteN srt sha r key n = Inr out \<and> distinct out \<and> set out \<subseteq> set r \<and>
    int (length out) = min n (int (rr_NodeCount r)) \<and>
    (\<forall>m \<in> set out. \<forall>m' \<in> set r - set out. rendezvousHash sha m' key \<le> rendezvousHash sha m key)"
proof (cases "r = []")
  case False
  define f where "f = (\<lambda>node. \<lparr>sc_node = node, sc_hash = rendezvousHash sha node key\<rparr>)"
  define k where "k = nat (min n (int (length r)))"
  define top where "top = take k (srt (map f r))"
  have f: "sc_node (f m) = m" "sc_hash (f m) = rendezvousHash sha m key" for m by (simp_all add: f_def)
  note set_srt = slice_sorter.set_srt [OF assms(1), of "map f r"]
  have img: "x \<in> set top \<Longrightarrow> x = f (sc_node x) \<and> sc_node x \<in> set r" for x
    using set_srt in_set_takeD [of x k "srt (map f r)"] by (auto simp: top_def f)
  have "distinct (map f r)"
    using assms(2) by (simp add: rr_inv_def distinct_map inj_on_def) (metis f(1))
  then have "distinct top" unfolding top_def using slice_sorter.distinct_srt [OF assms(1)] by simp
  then have "distinct (map sc_node top)" unfolding distinct_map inj_on_def using img by metis
  moreover have "length top = k"
    unfolding top_def using slice_sorter.length_srt [OF assms(1)] assms(3) by (simp add: k_def)
  moreover have "rendezvousHash sha m' key \<le> rendezvousHash sha m key"
    if "m \<in> sc_node ` set top" "m' \<in> set r" "m' \<notin> sc_node ` set top" for m m'
  proof -
    have "f m \<in> set top" "f m' \<notin> set top" using that img f(1) by (auto simp: image_iff)
    then show ?thesis
      using slice_sorter.srt_take_best [OF assms(1), of "f m" k "map f r" "f m'"] that(2)
      by (simp add: top_def f not_less)
  qed
  moreover have "RouteN srt sha r key n = Inr (map sc_node top)"
    using False assms(3) by (simp add: RouteN_def Let_def f_def top_def k_def min_def)
  ultimately show ?thesis
    using img assms(3) by (auto simp: rr_NodeCount_def k_def)
qed (use assms in \<open>simp add: RouteN_def rr_NodeCount_def\<close>)

theorem RouteN_top_weights_witness:
  "\<exists>out. RouteN (sort_desc sc_hash) demo_weight [''n1'', ''n2'', ''n3''] ''col'' 2 = Inr out \<and>
    distinct out \<and> set out \<subseteq> set [''n1'', ''n2'', ''n3''] \<and>
    int (length out) = min 2 (int (rr_NodeCount [''n1'', ''n2'', ''n3''])) \<and>
    (\<forall>m \<in> set out. \<forall>m' \<in> set [''n1'', ''n2'', ''n3''] - set out.
       rendezvousHash demo_weight m' ''col'' \<le> rendezvousHash demo_weight m ''col'')"
  by (rule RouteN_top_weights [OF desc.slice_sorter_axioms demo_router]) simp

end
