(* ===== verification/Coordinator.thy ===== *)
theory Coordinator
  imports Hash_Ring
begin

section \<open>Cluster coordination: \<open>coordinator.go\<close> and \<open>consistency.go\<close>\<close>

text \<open>
  The coordinator keeps the registered nodes with their health state and the hash ring used for
  routing. \<open>time.Now()\<close> is the argument \<open>now\<close>. \<open>CheckHealth\<close> ranges over a Go map, whose
  iteration order is unspecified: the argument \<open>ids\<close> is the order. Errors and panics of the ring
  are results of the operations.
\<close>

subsection \<open>Consistency levels\<close>

datatype ConsistencyLevel = ConsistencyOne | ConsistencyQuorum | ConsistencyAll
  | ConsistencyOther int \<comment> \<open>any other value of the Go integer type\<close>

fun level_String :: "ConsistencyLevel \<Rightarrow> string" where
  "level_String ConsistencyOne = ''one''"
| "level_String ConsistencyQuorum = ''quorum''"
| "level_String ConsistencyAll = ''all''"
| "level_String (ConsistencyOther n) = ''unknown''"

definition ParseConsistencyLevel :: "string \<Rightarrow> string + ConsistencyLevel" where
  "ParseConsistencyLevel s =
     (if s = ''one'' \<or> s = '''' then Inr ConsistencyOne
      else if s = ''quorum'' then Inr ConsistencyQuorum
      else if s = ''all'' then Inr ConsistencyAll
      else Inl s)"

definition ResolveConsistency :: "ConsistencyLevel \<Rightarrow> int \<Rightarrow> int" where
  "ResolveConsistency level rf0 =
     (let rf = (if rf0 \<le> 0 then 1 else rf0) in
      case level of
        ConsistencyQuorum \<Rightarrow> (let q = rf div 2 + 1 in if q > rf then rf else q)
      | ConsistencyAll \<Rightarrow> rf
      | _ \<Rightarrow> 1)"

lemma ResolveConsistency_bounds:
  "1 \<le> ResolveConsistency l rf \<and> ResolveConsistency l rf \<le> max 1 rf"
  by (auto simp: ResolveConsistency_def Let_def split: ConsistencyLevel.split)

text \<open>Consistency levels: the level of every name parses back, the number of acknowledgements
  is within one and the replication factor, and two quorums of the same replicas intersect.\<close>

theorem consistency_levels:
  "l \<in> {ConsistencyOne, ConsistencyQuorum, ConsistencyAll} \<Longrightarrow>
   ParseConsistencyLevel (level_String l) = Inr l \<and>
   1 \<le> ResolveConsistency l rf \<and> ResolveConsistency l rf \<le> max 1 rf \<and>
   2 * ResolveConsistency ConsistencyQuorum rf > max 1 rf"
proof -
  assume "l \<in> {ConsistencyOne, ConsistencyQuorum, ConsistencyAll}"
  then have "ParseConsistencyLevel (level_String l) = Inr l"
    by (auto simp: ParseConsistencyLevel_def)
  moreover have "2 * ResolveConsistency ConsistencyQuorum rf > max 1 rf"
    by (auto simp: ResolveConsistency_def Let_def)
  ultimately show ?thesis using ResolveConsistency_bounds by blast
qed

theorem consistency_levels_witness:
  "ParseConsistencyLevel (level_String ConsistencyQuorum) = Inr ConsistencyQuorum \<and>
   1 \<le> ResolveConsistency ConsistencyQuorum 3 \<and> ResolveConsistency ConsistencyQuorum 3 \<le> max 1 3 \<and>
   2 * ResolveConsistency ConsistencyQuorum 3 > max 1 3"
  by (rule consistency_levels) simp

subsection \<open>State and operations\<close>

datatype NodeState = NodeAlive | NodeSuspect | NodeDead

record NodeInfo =
  ni_ID :: node_id
  ni_Address :: string
  ni_APIAddress :: string
  ni_State :: NodeState
  ni_LastHeartbeat :: time
  ni_JoinedAt :: time
  ni_Collections :: int

record Coordinator =
  co_nodeID :: node_id
  co_nodes :: "node_id \<rightharpoonup> NodeInfo"
  co_ring :: hash_ring
  co_replicationFactor :: int
  co_heartbeatTimeout :: time
  co_deadTimeout :: time

record CoordinatorConfig =
  cfg_NodeID :: node_id
  cfg_ReplicationFactor :: int
  cfg_VirtualNodes :: int
  cfg_HeartbeatTimeout :: time
  cfg_DeadTimeout :: time

definition second :: time where "second = 1000000000"

definition DefaultCoordinatorConfig :: CoordinatorConfig where
  "DefaultCoordinatorConfig = \<lparr>cfg_NodeID = ''node-1'', cfg_ReplicationFactor = 3,
     cfg_VirtualNodes = 150, cfg_HeartbeatTimeout = 5 * second, cfg_DeadTimeout = 15 * second\<rparr>"

definition NewCoordinator :: "CoordinatorConfig \<Rightarrow> Coordinator" where
  "NewCoordinator cfg =
     \<lparr>co_nodeID = cfg_NodeID cfg, co_nodes = Map.empty,
      co_ring = NewHashRing (if cfg_VirtualNodes cfg \<le> 0 then 150 else cfg_VirtualNodes cfg),
      co_replicationFactor = (if cfg_ReplicationFactor cfg \<le> 0 then 3 else cfg_ReplicationFactor cfg),
      co_heartbeatTimeout =
        (if cfg_HeartbeatTimeout cfg \<le> 0 then 5 * second else cfg_HeartbeatTimeout cfg),
      co_deadTimeout = (if cfg_DeadTimeout cfg \<le> 0 then 15 * second else cfg_DeadTimeout cfg)\<rparr>"

datatype cluster_error = EmptyNodeID | NodeNotFound node_id

definition JoinNode :: "(string \<Rightarrow> bytes) \<Rightarrow> time \<Rightarrow> node_id \<Rightarrow> string \<Rightarrow> string \<Rightarrow> Coordinator \<Rightarrow>
    cluster_error + Coordinator" where
  "JoinNode sha now nodeID address apiAddress c =
     (if nodeID = '''' then Inl EmptyNodeID
      else case co_nodes c nodeID of
        Some existing \<Rightarrow> Inr (c\<lparr>co_nodes := (co_nodes c)(nodeID \<mapsto>
          existing\<lparr>ni_Address := address, ni_APIAddress := apiAddress, ni_State := NodeAlive,
                   ni_LastHeartbeat := now\<rparr>)\<rparr>)
      | None \<Rightarrow> Inr (c\<lparr>co_nodes := (co_nodes c)(nodeID \<mapsto>
          \<lparr>ni_ID = nodeID, ni_Address = address, ni_APIAddress = apiAddress, ni_State = NodeAlive,
           ni_LastHeartbeat = now, ni_JoinedAt = now, ni_Collections = 0\<rparr>),
          co_ring := AddNode sha nodeID (co_ring c)\<rparr>))"

definition LeaveNode :: "node_id \<Rightarrow> Coordinator \<Rightarrow> (cluster_error + Coordinator) go" where
  "LeaveNode nodeID c =
     (case co_nodes c nodeID of
        None \<Rightarrow> Inr (Inl (NodeNotFound nodeID))
      | Some _ \<Rightarrow> (case RemoveNode nodeID (co_ring c) of
          Inl p \<Rightarrow> Inl p
        | Inr r \<Rightarrow> Inr (Inr (c\<lparr>co_nodes := (co_nodes c)(nodeID := None), co_ring := r\<rparr>))))"

definition Heartbeat :: "(string \<Rightarrow> bytes) \<Rightarrow> time \<Rightarrow> node_id \<Rightarrow> Coordinator \<Rightarrow>
    cluster_error + Coordinator" where
  "Heartbeat sha now nodeID c =
     (case co_nodes c nodeID of
        None \<Rightarrow> Inl (NodeNotFound nodeID)
      | Some node \<Rightarrow> Inr (c\<lparr>co_ring := (if ni_State node = NodeDead then AddNode sha nodeID (co_ring c)
                                       else co_ring c),
          co_nodes := (co_nodes c)(nodeID \<mapsto> node\<lparr>ni_LastHeartbeat := now, ni_State := NodeAlive\<rparr>)\<rparr>))"

text \<open>The body of the loop of \<open>CheckHealth\<close>; the ring's removal takes the node's own ID field.\<close>

definition check_node :: "time \<Rightarrow> node_id \<Rightarrow> Coordinator \<Rightarrow> Coordinator go" where
  "check_node now k c =
     (case co_nodes c k of
        None \<Rightarrow> Inr c
      | Some node \<Rightarrow>
        (let elapsed = now - ni_LastHeartbeat node in
         if elapsed \<ge> co_deadTimeout c then
           (if ni_State node \<noteq> NodeDead
            then (case RemoveNode (ni_ID node) (co_ring c) of
                    Inl p \<Rightarrow> Inl p
                  | Inr r \<Rightarrow> Inr (c\<lparr>co_nodes := (co_nodes c)(k \<mapsto> node\<lparr>ni_State := NodeDead\<rparr>),
                                   co_ring := r\<rparr>))
            else Inr c)
         else if elapsed \<ge> co_heartbeatTimeout c
           then Inr (c\<lparr>co_nodes := (co_nodes c)(k \<mapsto> node\<lparr>ni_State := NodeSuspect\<rparr>)\<rparr>)
         else Inr (c\<lparr>co_nodes := (co_nodes c)(k \<mapsto> node\<lparr>ni_State := NodeAlive\<rparr>)\<rparr>)))"

fun CheckHealth :: "time \<Rightarrow> node_id list \<Rightarrow> Coordinator \<Rightarrow> Coordinator go" where
  "CheckHealth now [] c = Inr c"
| "CheckHealth now (k # ids) c =
     (case check_node now k c of Inl p \<Rightarrow> Inl p | Inr c' \<Rightarrow> CheckHealth now ids c')"

definition co_GetNode :: "Coordinator \<Rightarrow> node_id \<Rightarrow> NodeInfo option" where
  "co_GetNode c nodeID = co_nodes c nodeID"

definition GetAliveNodes :: "Coordinator \<Rightarrow> node_id list \<Rightarrow> NodeInfo list" where
  "GetAliveNodes c ids = filter (\<lambda>i. ni_State i = NodeAlive) (List.map_filter (co_nodes c) ids)"

definition GetAllNodes :: "Coordinator \<Rightarrow> node_id list \<Rightarrow> NodeInfo list" where
  "GetAllNodes c ids = List.map_filter (co_nodes c) ids"

definition RouteCollection :: "(string \<Rightarrow> bytes) \<Rightarrow> Coordinator \<Rightarrow> string \<Rightarrow> node_id" where
  "RouteCollection sha c collectionID = GetNode sha (co_ring c) collectionID"

definition RouteCollectionReplicas :: "(string \<Rightarrow> bytes) \<Rightarrow> Coordinator \<Rightarrow> string \<Rightarrow> node_id list" where
  "RouteCollectionReplicas sha c collectionID =
     GetNodes sha (co_ring c) collectionID (co_replicationFactor c)"

definition ShardMap :: "(string \<Rightarrow> bytes) \<Rightarrow> Coordinator \<Rightarrow> string list \<Rightarrow> (string \<rightharpoonup> node_id)" where
  "ShardMap sha c collectionIDs = fold (\<lambda>i m. m(i \<mapsto> GetNode sha (co_ring c) i)) collectionIDs Map.empty"

subsection \<open>The invariant\<close>

text \<open>The ring is well formed and routes only to registered nodes that are not dead.\<close>

definition live :: "Coordinator \<Rightarrow> node_id set" where
  "live c = {k. \<exists>i. co_nodes c k = Some i \<and> ni_State i \<noteq> NodeDead}"

definition co_inv :: "(string \<Rightarrow> bytes) \<Rightarrow> node_id set \<Rightarrow> Coordinator \<Rightarrow> bool" where
  "co_inv sha U c \<longleftrightarrow> ring_inv sha U (co_ring c) \<and> nodes (co_ring c) \<subseteq> live c \<and>
     (\<forall>k i. co_nodes c k = Some i \<longrightarrow> ni_ID i = k \<and> k \<noteq> '''' \<and> k \<in> U)"

lemma co_invD:
  assumes "co_inv sha U c"
  shows "ring_inv sha U (co_ring c)" "nodes (co_ring c) \<subseteq> live c"
    "co_nodes c k = Some i \<Longrightarrow> ni_ID i = k \<and> k \<noteq> '''' \<and> k \<in> U"
  using assms by (auto simp: co_inv_def)

lemma nodes_AddNode: "ring_inv sha U h \<Longrightarrow> nodes (AddNode sha n h) = insert n (nodes h)"
  using AddNode_fields(2) [OF ring_invD(1)] by (cases "n \<in> nodes h") auto

lemma co_inv_New:
  "collision_free sha (vnodes (co_ring (NewCoordinator cfg))) U \<Longrightarrow> co_inv sha U (NewCoordinator cfg)"
  using ring_inv_New [of sha "if cfg_VirtualNodes cfg \<le> 0 then 150 else cfg_VirtualNodes cfg" U]
  unfolding co_inv_def by (simp add: NewCoordinator_def) (simp add: NewHashRing_def)

lemma co_inv_upd:
  assumes "co_inv sha U c" "ni_ID i = k" "k \<noteq> ''''" "k \<in> U" "ni_State i \<noteq> NodeDead"
    "ring_inv sha U r" "nodes r \<subseteq> insert k (nodes (co_ring c))"
  shows "co_inv sha U (c\<lparr>co_nodes := (co_nodes c)(k \<mapsto> i), co_ring := r\<rparr>)"
proof -
  have "nodes r \<subseteq> live (c\<lparr>co_nodes := (co_nodes c)(k \<mapsto> i), co_ring := r\<rparr>)"
    using assms(5,7) co_invD(2) [OF assms(1)] by (auto simp: live_def)
  then show ?thesis
    using assms(2-4,6) co_invD(3) [OF assms(1)] by (simp add: co_inv_def)
qed

lemma co_inv_Join [inv_intros]:
  assumes "co_inv sha U c" "n \<in> U" "JoinNode sha now n a b c = Inr c'"
  shows "co_inv sha U c'"
proof (cases "co_nodes c n")
  case None
  with assms(3) have "n \<noteq> ''''" "c' = c\<lparr>co_nodes := (co_nodes c)(n \<mapsto>
      \<lparr>ni_ID = n, ni_Address = a, ni_APIAddress = b, ni_State = NodeAlive,
       ni_LastHeartbeat = now, ni_JoinedAt = now, ni_Collections = 0\<rparr>),
      co_ring := AddNode sha n (co_ring c)\<rparr>"
    by (auto simp: JoinNode_def split: if_splits)
  with assms(1,2) show ?thesis
    using ring_inv_AddNode [of sha U "co_ring c" n] nodes_AddNode [of sha U "co_ring c" n] co_invD(1)
    by (auto intro!: co_inv_upd)
next
  case (Some i)
  with assms(3) have "c' = c\<lparr>co_nodes := (co_nodes c)(n \<mapsto> i\<lparr>ni_Address := a, ni_APIAddress := b,
      ni_State := NodeAlive, ni_LastHeartbeat := now\<rparr>), co_ring := co_ring c\<rparr>"
    by (auto simp: JoinNode_def split: if_splits)
  moreover have "ni_ID i = n" "n \<noteq> ''''" using co_invD(3) [OF assms(1) Some] by auto
  moreover have "nodes (co_ring c) \<subseteq> insert n (nodes (co_ring c))" by blast
  ultimately show ?thesis
    using co_inv_upd [OF assms(1) _ _ assms(2), of _ "co_ring c"] co_invD(1) [OF assms(1)] by simp
qed

lemma co_inv_Heartbeat [inv_intros]:
  assumes "co_inv sha U c" "Heartbeat sha now n c = Inr c'"
  shows "co_inv sha U c'"
proof -
  obtain i where i: "co_nodes c n = Some i" using assms(2) by (auto simp: Heartbeat_def split: option.splits)
  define r where "r = (if ni_State i = NodeDead then AddNode sha n (co_ring c) else co_ring c)"
  have "c' = c\<lparr>co_nodes := (co_nodes c)(n \<mapsto> i\<lparr>ni_LastHeartbeat := now, ni_State := NodeAlive\<rparr>), co_ring := r\<rparr>"
    using assms(2) i by (auto simp: Heartbeat_def r_def)
  moreover have n: "ni_ID i = n" "n \<noteq> ''''" "n \<in> U" using co_invD(3) [OF assms(1) i] by auto
  moreover have "ring_inv sha U r" "nodes r \<subseteq> insert n (nodes (co_ring c))"
    using ring_inv_AddNode nodes_AddNode co_invD(1) [OF assms(1)] n(3) by (auto simp: r_def)
  ultimately show ?thesis using co_inv_upd [OF assms(1)] by auto
qed

lemma LeaveNode_total: "co_inv sha U c \<Longrightarrow> \<exists>r. LeaveNode n c = Inr r"
  using RemoveNode_total [OF co_invD(1), of sha U c n] by (auto simp: LeaveNode_def split: option.split)

lemma co_inv_Leave [inv_intros]:
  assumes "co_inv sha U c" "LeaveNode n c = Inr (Inr c')"
  shows "co_inv sha U c'"
proof -
  obtain r where r: "RemoveNode n (co_ring c) = Inr r" "co_nodes c n \<noteq> None"
    "c' = c\<lparr>co_nodes := (co_nodes c)(n := None), co_ring := r\<rparr>"
    using assms(2) by (auto simp: LeaveNode_def split: option.splits sum.splits)
  then have "n \<noteq> ''''" using co_invD(3) [OF assms(1)] by auto
  then show ?thesis
    using ring_inv_RemoveNode [OF co_invD(1) [OF assms(1)] r(1)] assms(1) r(3)
    by (auto simp: co_inv_def live_def)
qed

subsection \<open>The health check\<close>

definition same_config :: "Coordinator \<Rightarrow> Coordinator \<Rightarrow> bool" where
  "same_config c c' \<longleftrightarrow> co_nodeID c' = co_nodeID c \<and> co_replicationFactor c' = co_replicationFactor c \<and>
     co_heartbeatTimeout c' = co_heartbeatTimeout c \<and> co_deadTimeout c' = co_deadTimeout c"

lemma same_config_eq:
  "same_config c c1 \<Longrightarrow> same_config c c2 \<Longrightarrow> co_nodes c1 = co_nodes c2 \<Longrightarrow> co_ring c1 = co_ring c2 \<Longrightarrow>
     c1 = (c2 :: Coordinator)"
  by (simp add: same_config_def)


fun classify :: "Coordinator \<Rightarrow> time \<Rightarrow> NodeInfo \<Rightarrow> NodeState" where
  "classify c now i =
     (if now - ni_LastHeartbeat i \<ge> co_deadTimeout c then NodeDead
      else if now - ni_LastHeartbeat i \<ge> co_heartbeatTimeout c then NodeSuspect
      else NodeAlive)"

lemma check_node_spec:
  assumes "co_inv sha U c"
  shows "\<exists>c'. check_node now k c = Inr c' \<and> co_inv sha U c' \<and>
    co_nodes c' = (\<lambda>j. if j = k then map_option (\<lambda>i. i\<lparr>ni_State := classify c now i\<rparr>) (co_nodes c j)
                       else co_nodes c j) \<and>
    nodes (co_ring c') = nodes (co_ring c) - {j. j = k \<and> (\<exists>i. co_nodes c j = Some i \<and> classify c now i = NodeDead)} \<and>
    vnodes (co_ring c') = vnodes (co_ring c) \<and>
    same_config c c'"
proof (cases "co_nodes c k")
  case None
  with assms show ?thesis by (auto simp: check_node_def same_config_def)
next
  case (Some i)
  note inv = co_invD [OF assms]
  have k: "ni_ID i = k" "k \<noteq> ''''" using inv(3) [OF Some] by auto
  obtain r where r: "RemoveNode k (co_ring c) = Inr r" using RemoveNode_total [OF inv(1)] by blast
  note rr = ring_inv_RemoveNode [OF inv(1) r k(2)] vnodes_RemoveNode [OF r]
  have up: "(co_nodes c)(k \<mapsto> i\<lparr>ni_State := s\<rparr>) =
     (\<lambda>j. if j = k then map_option (\<lambda>i. i\<lparr>ni_State := s\<rparr>) (co_nodes c j) else co_nodes c j)" for s
    using Some by (auto simp: fun_eq_iff)
  consider "classify c now i = NodeDead" "ni_State i \<noteq> NodeDead"
    | "classify c now i = NodeDead" "ni_State i = NodeDead" | "classify c now i \<noteq> NodeDead" by blast
  then show ?thesis
  proof cases
    case 1
    then show ?thesis using Some k r rr assms inv(2)
      by (auto simp: check_node_def Let_def co_inv_def live_def fun_eq_iff same_config_def split: if_splits)
  next
    case 2
    then have "k \<notin> nodes (co_ring c)" using inv(2) Some by (auto simp: live_def)
    moreover have "i\<lparr>ni_State := NodeDead\<rparr> = i" using 2(2) by (cases i) simp
    ultimately show ?thesis using 2 Some assms
      by (auto simp: check_node_def Let_def fun_eq_iff same_config_def split: if_splits)
  next
    case 3
    then show ?thesis using Some assms
      by (auto simp: check_node_def Let_def co_inv_def live_def fun_eq_iff same_config_def split: if_splits)
  qed
qed

text \<open>What a whole health check does to the registered nodes and to the ring's members.\<close>

definition health_nodes :: "Coordinator \<Rightarrow> time \<Rightarrow> node_id set \<Rightarrow> (node_id \<rightharpoonup> NodeInfo)" where
  "health_nodes c now K = (\<lambda>k. if k \<in> K
     then map_option (\<lambda>i. i\<lparr>ni_State := classify c now i\<rparr>) (co_nodes c k) else co_nodes c k)"

definition expired :: "Coordinator \<Rightarrow> time \<Rightarrow> node_id set" where
  "expired c now = {k. \<exists>i. co_nodes c k = Some i \<and> classify c now i = NodeDead}"

lemma CheckHealth_spec:
  assumes "co_inv sha U c"
  shows "\<exists>c'. CheckHealth now ids c = Inr c' \<and> co_inv sha U c' \<and>
    co_nodes c' = health_nodes c now (set ids) \<and>
    nodes (co_ring c') = nodes (co_ring c) - (set ids \<inter> expired c now) \<and>
    vnodes (co_ring c') = vnodes (co_ring c) \<and>
    same_config c c'"
  using assms
proof (induction ids arbitrary: c)
  case Nil
  then show ?case by (simp add: health_nodes_def same_config_def)
next
  case (Cons k ids)
  obtain c1 where c1: "check_node now k c = Inr c1" "co_inv sha U c1"
    "co_nodes c1 = (\<lambda>j. if j = k then map_option (\<lambda>i. i\<lparr>ni_State := classify c now i\<rparr>) (co_nodes c j)
                       else co_nodes c j)"
    "nodes (co_ring c1) = nodes (co_ring c) - {j. j = k \<and> (\<exists>i. co_nodes c j = Some i \<and> classify c now i = NodeDead)}"
    "vnodes (co_ring c1) = vnodes (co_ring c)" "same_config c c1"
    using check_node_spec [OF Cons.prems] by blast
  have to: "co_deadTimeout c1 = co_deadTimeout c" "co_heartbeatTimeout c1 = co_heartbeatTimeout c"
    using c1(6) by (simp_all add: same_config_def)
  obtain c2 where c2: "CheckHealth now ids c1 = Inr c2" "co_inv sha U c2"
    "co_nodes c2 = health_nodes c1 now (set ids)"
    "nodes (co_ring c2) = nodes (co_ring c1) - (set ids \<inter> expired c1 now)"
    "vnodes (co_ring c2) = vnodes (co_ring c1)" "same_config c1 c2"
    using Cons.IH [OF c1(2)] by blast
  have "health_nodes c1 now (set ids) = health_nodes c now (set (k # ids))"
    by (auto simp: health_nodes_def c1(3) to fun_eq_iff option.map_comp o_def intro!: option.map_cong)
  moreover have "expired c1 now = expired c now"
  proof (rule set_eqI)
    fix j show "j \<in> expired c1 now \<longleftrightarrow> j \<in> expired c now"
      by (cases "co_nodes c j"; cases "j = k") (simp_all add: expired_def c1(3) to)
  qed
  moreover have "same_config c c2" using c1(6) c2(6) by (simp add: same_config_def)
  moreover have "nodes (co_ring c2) = nodes (co_ring c) - (set (k # ids) \<inter> expired c now)"
    using c1(4) c2(4) calculation(2) by (auto simp: expired_def)
  ultimately show ?case
    using c1(1,5) c2(1,2,3,5) by simp
qed

subsection \<open>Reachable coordinators\<close>

inductive co_reach :: "(string \<Rightarrow> bytes) \<Rightarrow> node_id set \<Rightarrow> CoordinatorConfig \<Rightarrow> Coordinator \<Rightarrow> bool"
  for sha U cfg where
  start: "co_reach sha U cfg (NewCoordinator cfg)"
| join: "co_reach sha U cfg c \<Longrightarrow> n \<in> U \<Longrightarrow> JoinNode sha now n a b c = Inr c' \<Longrightarrow> co_reach sha U cfg c'"
| leave: "co_reach sha U cfg c \<Longrightarrow> LeaveNode n c = Inr (Inr c') \<Longrightarrow> co_reach sha U cfg c'"
| heartbeat: "co_reach sha U cfg c \<Longrightarrow> Heartbeat sha now n c = Inr c' \<Longrightarrow> co_reach sha U cfg c'"
| check: "co_reach sha U cfg c \<Longrightarrow> CheckHealth now ids c = Inr c' \<Longrightarrow> co_reach sha U cfg c'"

lemma co_reach_inv:
  assumes "co_reach sha U cfg c" "collision_free sha (vnodes (co_ring (NewCoordinator cfg))) U"
  shows "co_inv sha U c"
  using assms(1)
proof (induction rule: co_reach.induct)
  case (check c now ids c')
  then show ?case using CheckHealth_spec [of sha U c now ids] by auto
qed (use assms(2) in \<open>auto intro: co_inv_New inv_intros\<close>)

lemma RouteCollection_member:
  assumes inv: "co_inv sha U c" and ne: "nodes (co_ring c) \<noteq> {}"
  shows "RouteCollection sha c key \<in> live c"
proof -
  obtain n where n: "n \<in> nodes (co_ring c)" using ne by blast
  have "hashKey sha (vnode_key n 0) \<in> node_pos sha (vnodes (co_ring c)) n"
    using co_invD(1) [OF inv] by (auto simp: node_pos_def ring_inv_def ring_ok_def)
  then have "ring (co_ring c) \<noteq> []"
    using co_invD(1) [OF inv] n by (fastforce simp: ring_inv_def ring_ok_def)
  then show ?thesis
    using GetNode_owner(2) [OF ring_invD(1) [OF co_invD(1) [OF inv]]] co_invD(2) [OF inv]
    by (auto simp: RouteCollection_def)
qed

lemma replicas_live:
  assumes "co_inv sha U c"
  shows "set (RouteCollectionReplicas sha c key) \<subseteq> live c"
proof -
  have "set (RouteCollectionReplicas sha c key) \<subseteq> nodes (co_ring c)"
    using GetNodes_spec(2) [OF ring_invD(1) [OF co_invD(1) [OF assms]]] ring_inv_owners [OF co_invD(1) [OF assms]]
    by (cases "ring (co_ring c) = [] \<or> co_replicationFactor c \<le> 0")
      (auto simp: RouteCollectionReplicas_def GetNodes_def)
  then show ?thesis using co_invD(2) [OF assms] by blast
qed

subsection \<open>Without the collision assumption\<close>

text \<open>What survives collisions of ring positions: every owner of a position is a member, and no member is dead.\<close>

definition owners_ok :: "hash_ring \<Rightarrow> bool" where
  "owners_ok h \<longleftrightarrow> dom (nodeMap h) \<subseteq> set (ring h) \<and> ran (nodeMap h) \<subseteq> nodes h"

definition co_weak :: "Coordinator \<Rightarrow> bool" where
  "co_weak c \<longleftrightarrow> owners_ok (co_ring c) \<and> nodes (co_ring c) \<subseteq> live c \<and>
     (\<forall>k i. co_nodes c k = Some i \<longrightarrow> ni_ID i = k \<and> k \<noteq> '''')"

lemma owners_ok_add_vnodes:
  "owners_ok h \<Longrightarrow> n \<in> nodes h \<Longrightarrow>
     owners_ok (fold (add_vnode sha n) is h) \<and> nodes (fold (add_vnode sha n) is h) = nodes h"
proof (induction "is" arbitrary: h)
  case (Cons i "is")
  have "owners_ok (add_vnode sha n i h) \<and> nodes (add_vnode sha n i h) = nodes h"
    using Cons.prems by (auto simp: add_vnode_def owners_ok_def Let_def ran_def split: option.splits)
  then show ?case using Cons.IH [of "add_vnode sha n i h"] Cons.prems(2) by simp
qed simp

lemma owners_ok_AddNode:
  assumes "owners_ok h"
  shows "owners_ok (AddNode sha n h) \<and> nodes (AddNode sha n h) = insert n (nodes h)"
proof (cases "n \<in> nodes h")
  case False
  have "owners_ok (h\<lparr>nodes := insert n (nodes h)\<rparr>)" using assms by (auto simp: owners_ok_def)
  from owners_ok_add_vnodes [OF this, of n sha "[0..<nat (vnodes h)]"] show ?thesis
    using False by (auto simp: AddNode_def Let_def owners_ok_def)
qed (use assms in \<open>auto simp: AddNode_def\<close>)

lemma remove_loop_owners:
  "remove_loop n hs nr m = (nr', m') \<Longrightarrow> n \<noteq> '''' \<Longrightarrow>
     m' = (\<lambda>p. if p \<in> set hs \<and> m p = Some n then None else m p) \<and> set nr \<subseteq> set nr' \<and>
     {p \<in> set hs. m p \<noteq> Some n} \<subseteq> set nr'"
proof (induction hs arbitrary: nr m)
  case (Cons p hs)
  show ?case
  proof (cases "m p = Some n")
    case True
    then have "remove_loop n hs nr (m(p := None)) = (nr', m')" using Cons.prems by (simp add: map_get_def)
    from Cons.IH [OF this Cons.prems(2)] show ?thesis using True by (auto simp: fun_eq_iff split: if_splits)
  next
    case False
    then have "remove_loop n hs (nr @ [p]) m = (nr', m')" using Cons.prems by (auto simp: map_get_def split: option.splits)
    from Cons.IH [OF this Cons.prems(2)] show ?thesis using False by (auto simp: fun_eq_iff)
  qed
qed simp

lemma owners_ok_RemoveNode:
  assumes "owners_ok h" "RemoveNode n h = Inr r" "n \<noteq> ''''"
  shows "owners_ok r \<and> nodes r = nodes h - {n}"
proof (cases "n \<in> nodes h")
  case True
  obtain nr m where l: "remove_loop n (ring h) [] (nodeMap h) = (nr, m)" by fastforce
  have r: "r = h\<lparr>nodes := nodes h - {n}, ring := nr, nodeMap := m\<rparr>"
    using assms(2) True l by (auto simp: RemoveNode_def split: if_splits)
  have "m = (\<lambda>p. if p \<in> set (ring h) \<and> nodeMap h p = Some n then None else nodeMap h p)"
    "{p \<in> set (ring h). nodeMap h p \<noteq> Some n} \<subseteq> set nr" using remove_loop_owners [OF l assms(3)] by auto
  then show ?thesis using assms(1) unfolding owners_ok_def r ran_def dom_def by (auto split: if_splits)
qed (use assms(1,2) in \<open>auto simp: RemoveNode_def\<close>)

lemma co_weak_upd:
  assumes "co_weak c" "ni_ID i = k" "k \<noteq> ''''" "ni_State i \<noteq> NodeDead"
    "owners_ok r" "nodes r \<subseteq> insert k (nodes (co_ring c))"
  shows "co_weak (c\<lparr>co_nodes := (co_nodes c)(k \<mapsto> i), co_ring := r\<rparr>)"
  using assms by (auto simp: co_weak_def live_def)

lemma co_weak_check_node:
  assumes "co_weak c" "check_node now k c = Inr c'"
  shows "co_weak c'"
proof (cases "co_nodes c k")
  case (Some i)
  then have i: "ni_ID i = k" "k \<noteq> ''''" using assms(1) by (auto simp: co_weak_def)
  consider (dead) r where "RemoveNode k (co_ring c) = Inr r"
      "c' = c\<lparr>co_nodes := (co_nodes c)(k \<mapsto> i\<lparr>ni_State := NodeDead\<rparr>), co_ring := r\<rparr>"
    | (same) "c' = c"
    | (alive) s where "s \<noteq> NodeDead" "c' = c\<lparr>co_nodes := (co_nodes c)(k \<mapsto> i\<lparr>ni_State := s\<rparr>)\<rparr>"
    using assms(2) Some i(1) that(2) that(3) [of NodeSuspect] that(3) [of NodeAlive]
    by (cases "RemoveNode k (co_ring c)") (simp_all add: check_node_def Let_def that(1) split: if_split_asm)
  then show ?thesis
  proof cases
    case dead
    then show ?thesis using owners_ok_RemoveNode [of "co_ring c" k r] i assms(1)
      by (auto simp: co_weak_def live_def)
  next
    case alive
    then show ?thesis using assms(1) i by (auto simp: co_weak_def live_def)
  qed (use assms(1) in simp)
qed (use assms in \<open>simp add: check_node_def\<close>)

lemma co_weak_CheckHealth: "co_weak c \<Longrightarrow> CheckHealth now ids c = Inr c' \<Longrightarrow> co_weak c'"
  by (induction ids arbitrary: c) (auto split: sum.splits intro: co_weak_check_node)

lemma co_reach_weak: "co_reach sha U cfg c \<Longrightarrow> co_weak c"
proof (induction rule: co_reach.induct)
  case start
  show ?case by (simp add: co_weak_def owners_ok_def NewCoordinator_def NewHashRing_def)
next
  case (join c n now a b c')
  then show ?case
  proof (cases "co_nodes c n")
    case None
    then have "n \<noteq> ''''" "c' = c\<lparr>co_nodes := (co_nodes c)(n \<mapsto>
        \<lparr>ni_ID = n, ni_Address = a, ni_APIAddress = b, ni_State = NodeAlive,
         ni_LastHeartbeat = now, ni_JoinedAt = now, ni_Collections = 0\<rparr>), co_ring := AddNode sha n (co_ring c)\<rparr>"
      using join.hyps by (auto simp: JoinNode_def split: if_splits)
    moreover have "owners_ok (AddNode sha n (co_ring c))" "nodes (AddNode sha n (co_ring c)) \<subseteq> insert n (nodes (co_ring c))"
      using owners_ok_AddNode [of "co_ring c" sha n] join.IH by (auto simp: co_weak_def)
    ultimately show ?thesis using co_weak_upd [OF join.IH] by simp
  next
    case (Some i)
    then have "c' = c\<lparr>co_nodes := (co_nodes c)(n \<mapsto> i\<lparr>ni_Address := a, ni_APIAddress := b,
        ni_State := NodeAlive, ni_LastHeartbeat := now\<rparr>)\<rparr>"
      using join.hyps by (auto simp: JoinNode_def split: if_splits)
    then show ?thesis using join.IH Some by (auto simp: co_weak_def live_def)
  qed
next
  case (leave c n c')
  obtain r where "RemoveNode n (co_ring c) = Inr r" "co_nodes c n \<noteq> None"
    "c' = c\<lparr>co_nodes := (co_nodes c)(n := None), co_ring := r\<rparr>"
    using leave.hyps by (auto simp: LeaveNode_def split: option.splits sum.splits)
  then show ?case using leave.IH owners_ok_RemoveNode [of "co_ring c" n r] by (auto simp: co_weak_def live_def)
next
  case (heartbeat c now n c')
  obtain i where i: "co_nodes c n = Some i" using heartbeat.hyps by (auto simp: Heartbeat_def split: option.splits)
  define r where "r = (if ni_State i = NodeDead then AddNode sha n (co_ring c) else co_ring c)"
  have "c' = c\<lparr>co_nodes := (co_nodes c)(n \<mapsto> i\<lparr>ni_LastHeartbeat := now, ni_State := NodeAlive\<rparr>), co_ring := r\<rparr>"
    using heartbeat.hyps i by (auto simp: Heartbeat_def r_def)
  moreover have "owners_ok r \<and> nodes r \<subseteq> insert n (nodes (co_ring c))"
    using heartbeat.IH owners_ok_AddNode [of "co_ring c" sha n] by (auto simp: r_def co_weak_def)
  moreover have "ni_ID i = n" "n \<noteq> ''''" using heartbeat.IH i by (auto simp: co_weak_def)
  ultimately show ?case using co_weak_upd [OF heartbeat.IH] by auto
next
  case (check c now ids c')
  then show ?case by (blast intro: co_weak_CheckHealth)
qed

lemma map_get_owner: "owners_ok h \<Longrightarrow> map_get '''' (nodeMap h) p \<in> insert '''' (nodes h)"
  by (auto simp: map_get_def owners_ok_def ran_def split: option.splits)

lemma walk_owners: "owners_ok h \<Longrightarrow> set res \<subseteq> insert '''' (nodes h) \<Longrightarrow> set (walk h idx n is seen res) \<subseteq> insert '''' (nodes h)"
proof (induction "is" arbitrary: seen res)
  case (Cons i "is")
  define n' where "n' = map_get '''' (nodeMap h) (ring h ! ((idx + i) mod length (ring h)))"
  have "set (res @ [n']) \<subseteq> insert '''' (nodes h)" using map_get_owner [OF Cons.prems(1)] Cons.prems(2) by (simp add: n'_def)
  then show ?case using Cons.IH [OF Cons.prems(1)] Cons.prems(2) by (simp add: Let_def n'_def [symmetric])
qed simp

lemma routed_weak:
  assumes "co_weak c"
  shows "RouteCollection sha c key \<in> insert '''' (live c)" "set (RouteCollectionReplicas sha c key) \<subseteq> insert '''' (live c)"
proof -
  have o: "owners_ok (co_ring c)" "nodes (co_ring c) \<subseteq> live c" using assms by (auto simp: co_weak_def)
  show "RouteCollection sha c key \<in> insert '''' (live c)"
    using map_get_owner [OF o(1)] o(2) by (auto simp: RouteCollection_def GetNode_def)
  show "set (RouteCollectionReplicas sha c key) \<subseteq> insert '''' (live c)"
    using subset_trans [OF walk_owners [OF o(1), of "[]"] insert_mono [OF o(2)]]
    by (simp add: RouteCollectionReplicas_def GetNodes_def)
qed

subsection \<open>Properties\<close>

text \<open>C39. Dead nodes get no traffic: in every coordinator reached by joins, leaves, heartbeats and health checks
  in any order, whatever the hash, a collection and each of its replicas is routed to a registered node that is
  not dead, or to the empty node ID. If moreover the ring positions of the nodes (SHA-256 cut to 32 bits) do not
  collide, no replica is the empty ID, a collection is routed to a live node as soon as the ring has a member, and
  \<open>LeaveNode\<close> and \<open>CheckHealth\<close> do not panic (\<open>JoinNode\<close> and \<open>Heartbeat\<close> cannot). What collisions do is shown
  by \<open>RemoveNode_collision_defects\<close>.\<close>

theorem dead_never_routed:
  assumes "co_reach sha U cfg c"
  shows "RouteCollection sha c key \<in> insert '''' (live c) \<and>
    set (RouteCollectionReplicas sha c key) \<subseteq> insert '''' (live c) \<and>
    (collision_free sha (vnodes (co_ring (NewCoordinator cfg))) U \<longrightarrow>
       set (RouteCollectionReplicas sha c key) \<subseteq> live c \<and>
       (nodes (co_ring c) \<noteq> {} \<longrightarrow> RouteCollection sha c key \<in> live c) \<and>
       (\<forall>n. \<exists>r. LeaveNode n c = Inr r) \<and> (\<forall>now ids. \<exists>c'. CheckHealth now ids c = Inr c'))"
proof -
  have free: "set (RouteCollectionReplicas sha c key) \<subseteq> live c \<and>
       (nodes (co_ring c) \<noteq> {} \<longrightarrow> RouteCollection sha c key \<in> live c) \<and>
       (\<forall>n. \<exists>r. LeaveNode n c = Inr r) \<and> (\<forall>now ids. \<exists>c'. CheckHealth now ids c = Inr c')"
    if "collision_free sha (vnodes (co_ring (NewCoordinator cfg))) U"
  proof -
    note inv = co_reach_inv [OF assms that]
    have "set (RouteCollectionReplicas sha c key) \<subseteq> live c" by (rule replicas_live [OF inv])
    then show ?thesis
      using RouteCollection_member [OF inv] LeaveNode_total [OF inv] CheckHealth_spec [OF inv] by blast
  qed
  show ?thesis using routed_weak [OF co_reach_weak [OF assms]] free by blast
qed

definition demo_cfg :: CoordinatorConfig where
  "demo_cfg = \<lparr>cfg_NodeID = ''a'', cfg_ReplicationFactor = 2, cfg_VirtualNodes = 2,
     cfg_HeartbeatTimeout = 5, cfg_DeadTimeout = 15\<rparr>"

lemma demo_cfg_free: "collision_free demo_sha (vnodes (co_ring (NewCoordinator demo_cfg))) {''a'', ''b''}"
  by (simp add: NewCoordinator_def NewHashRing_def demo_cfg_def collision_free_demo)

definition demo_joined :: Coordinator where
  "demo_joined = projr (JoinNode demo_sha 0 ''a'' ''addr'' ''api'' (NewCoordinator demo_cfg))"

lemma demo_joined: "JoinNode demo_sha 0 ''a'' ''addr'' ''api'' (NewCoordinator demo_cfg) = Inr demo_joined"
  by (simp add: demo_joined_def JoinNode_def NewCoordinator_def)

lemma demo_reach: "co_reach demo_sha {''a'', ''b''} demo_cfg demo_joined"
  by (rule co_reach.join [OF co_reach.start _ demo_joined]) simp

theorem dead_never_routed_witness:
  "\<exists>c2 c3. JoinNode demo_sha 10 ''b'' ''addr2'' ''api2'' demo_joined = Inr c2 \<and> CheckHealth 16 [''b'', ''a''] c2 = Inr c3 \<and>
     ''a'' \<notin> live c3 \<and> RouteCollection demo_sha c3 ''col'' = ''b'' \<and> set (RouteCollectionReplicas demo_sha c3 ''col'') \<subseteq> {''b''}"
proof -
  have dj: "co_nodes demo_joined = [''a'' \<mapsto> \<lparr>ni_ID = ''a'', ni_Address = ''addr'', ni_APIAddress = ''api'', ni_State = NodeAlive,
       ni_LastHeartbeat = 0, ni_JoinedAt = 0, ni_Collections = 0\<rparr>]" "co_deadTimeout demo_joined = 15" "co_heartbeatTimeout demo_joined = 5"
    "nodes (co_ring demo_joined) = {''a''}"
    using owners_ok_AddNode [of "NewHashRing 2" demo_sha "''a''"]
    by (simp_all add: demo_joined_def JoinNode_def NewCoordinator_def demo_cfg_def) (simp add: owners_ok_def NewHashRing_def)
  define c2 where "c2 = projr (JoinNode demo_sha 10 ''b'' ''addr2'' ''api2'' demo_joined)"
  have c2: "JoinNode demo_sha 10 ''b'' ''addr2'' ''api2'' demo_joined = Inr c2" by (simp add: c2_def JoinNode_def dj)
  have r2: "co_reach demo_sha {''a'', ''b''} demo_cfg c2" by (rule co_reach.join [OF demo_reach _ c2]) simp
  have n2: "co_nodes c2 = (co_nodes demo_joined)(''b'' \<mapsto> \<lparr>ni_ID = ''b'', ni_Address = ''addr2'', ni_APIAddress = ''api2'',
       ni_State = NodeAlive, ni_LastHeartbeat = 10, ni_JoinedAt = 10, ni_Collections = 0\<rparr>)"
    "co_deadTimeout c2 = 15" "co_heartbeatTimeout c2 = 5" "nodes (co_ring c2) = {''a'', ''b''}"
    using owners_ok_AddNode [of "co_ring demo_joined" demo_sha "''b''"] co_reach_weak [OF demo_reach] dj
    by (auto simp: c2_def JoinNode_def co_weak_def)
  note free = dead_never_routed [OF r2] demo_cfg_free
  obtain c3 where c3: "CheckHealth 16 [''b'', ''a''] c2 = Inr c3" using free by blast
  have r3: "co_reach demo_sha {''a'', ''b''} demo_cfg c3" by (rule co_reach.check [OF r2 c3])
  have n3: "co_nodes c3 = health_nodes c2 16 {''a'', ''b''}" "nodes (co_ring c3) = nodes (co_ring c2) - ({''a'', ''b''} \<inter> expired c2 16)"
    using CheckHealth_spec [OF co_reach_inv [OF r2 demo_cfg_free], of 16 "[''b'', ''a'']"] c3 by (auto simp: insert_commute)
  have live: "live c3 = {''b''}" by (auto simp: live_def n3(1) health_nodes_def n2 dj split: if_splits)
  have "nodes (co_ring c3) \<noteq> {}" by (auto simp: n3(2) n2 dj expired_def)
  then have "RouteCollection demo_sha c3 ''col'' \<in> live c3 \<and> set (RouteCollectionReplicas demo_sha c3 ''col'') \<subseteq> live c3"
    using dead_never_routed [OF r3] demo_cfg_free by blast
  then show ?thesis using c2 c3 live by auto
qed

text \<open>The health check is a function of the heartbeat ages: whatever order the map iteration
  takes, \<open>CheckHealth\<close> gives every node the state its age calls for, removes exactly the expired
  nodes from the ring, and two orders give the same coordinator.\<close>

theorem CheckHealth_order_independent:
  assumes "co_inv sha U c" "set ids1 = dom (co_nodes c)" "set ids2 = dom (co_nodes c)"
  shows "\<exists>c'. CheckHealth now ids1 c = Inr c' \<and> CheckHealth now ids2 c = Inr c' \<and>
    (\<forall>k. co_nodes c' k = map_option (\<lambda>i. i\<lparr>ni_State := classify c now i\<rparr>) (co_nodes c k)) \<and>
    nodes (co_ring c') = nodes (co_ring c) - expired c now"
proof -
  obtain c1 c2 where c:
    "CheckHealth now ids1 c = Inr c1" "co_inv sha U c1" "co_nodes c1 = health_nodes c now (dom (co_nodes c))"
    "nodes (co_ring c1) = nodes (co_ring c) - (dom (co_nodes c) \<inter> expired c now)"
    "vnodes (co_ring c1) = vnodes (co_ring c)" "same_config c c1"
    "CheckHealth now ids2 c = Inr c2" "co_inv sha U c2" "co_nodes c2 = health_nodes c now (dom (co_nodes c))"
    "nodes (co_ring c2) = nodes (co_ring c) - (dom (co_nodes c) \<inter> expired c now)"
    "vnodes (co_ring c2) = vnodes (co_ring c)" "same_config c c2"
    using CheckHealth_spec [OF assms(1), of now ids1] CheckHealth_spec [OF assms(1), of now ids2] assms(2,3)
    by metis
  have "co_ring c1 = co_ring c2"
    using ring_inv_canonical [OF co_invD(1) [OF c(2)] co_invD(1) [OF c(8)]] c(4,5,10,11) by simp
  then have "c1 = c2" using c(3,6,9,12) same_config_eq by simp
  moreover have "dom (co_nodes c) \<inter> expired c now = expired c now" by (auto simp: expired_def)
  ultimately show ?thesis using c(1,3,4,7) by (auto simp: health_nodes_def domIff)
qed

theorem CheckHealth_order_independent_witness:
  "\<exists>c'. CheckHealth 20 [''a''] demo_joined = Inr c' \<and> CheckHealth 20 [''a'', ''a''] demo_joined = Inr c' \<and>
    (\<forall>k. co_nodes c' k = map_option (\<lambda>i. i\<lparr>ni_State := classify demo_joined 20 i\<rparr>) (co_nodes demo_joined k)) \<and>
    nodes (co_ring c') = nodes (co_ring demo_joined) - expired demo_joined 20"
  by (rule CheckHealth_order_independent [OF co_reach_inv [OF demo_reach demo_cfg_free]])
    (simp_all add: demo_joined_def JoinNode_def NewCoordinator_def)

text \<open>Re-joining does not restore routing: when a dead node re-registers, \<open>JoinNode\<close> marks it
  alive but leaves it out of the ring, and later heartbeats, which repair only nodes still marked
  dead, leave it out as well.\<close>

theorem rejoin_not_routed:
  assumes "co_inv sha U c" "co_nodes c n = Some i" "ni_State i = NodeDead"
  shows "\<exists>c' i'. JoinNode sha now n a b c = Inr c' \<and> co_nodes c' n = Some i' \<and> ni_State i' = NodeAlive \<and>
    n \<notin> nodes (co_ring c') \<and>
    (\<exists>c''. Heartbeat sha later n c' = Inr c'' \<and> n \<notin> nodes (co_ring c''))"
proof -
  have "n \<notin> nodes (co_ring c)" using co_invD(2) [OF assms(1)] assms(2,3) by (auto simp: live_def)
  moreover have "n \<noteq> ''''" using co_invD(3) [OF assms(1,2)] by simp
  ultimately show ?thesis using assms(2) by (auto simp: JoinNode_def Heartbeat_def)
qed

definition demo_dead :: Coordinator where
  "demo_dead = projr (CheckHealth 20 [''a''] demo_joined)"

theorem rejoin_not_routed_witness:
  "\<exists>c' i'. JoinNode demo_sha 21 ''a'' ''x'' ''y'' demo_dead = Inr c' \<and> co_nodes c' ''a'' = Some i' \<and>
    ni_State i' = NodeAlive \<and> ''a'' \<notin> nodes (co_ring c') \<and>
    (\<exists>c''. Heartbeat demo_sha 22 ''a'' c' = Inr c'' \<and> ''a'' \<notin> nodes (co_ring c''))"
proof -
  note inv = co_reach_inv [OF demo_reach demo_cfg_free]
  obtain c' where c': "CheckHealth 20 [''a''] demo_joined = Inr c'" "co_inv demo_sha {''a'', ''b''} c'"
    "co_nodes c' = health_nodes demo_joined 20 {''a''}"
    using CheckHealth_spec [OF inv, of 20 "[''a'']"] by auto
  then have "demo_dead = c'" by (simp add: demo_dead_def)
  with c' show ?thesis
    by (intro rejoin_not_routed [of demo_sha "{''a'', ''b''}"])
      (auto simp: health_nodes_def demo_joined_def JoinNode_def NewCoordinator_def demo_cfg_def)
qed

end
