(* ===== verification/Distance.thy ===== *)
theory Distance
  imports Go_Prelude Complex_Main
begin

section \<open>Distance functions and batch kernels\<close>

text \<open>
  Models \<open>internal/distance\<close>: the scalar functions of \<open>distance.go\<close>, the four-lane batch kernels of
  \<open>batch_pure.go\<close>, and the dispatch of \<open>batch.go\<close>, \<open>dispatch.go\<close> and the SIMD wrappers.

  The definitions are polymorphic in the number type and use the operations of the purely syntactic
  classes only (no law of arithmetic), in the order the code applies them; they make sense for
  \<open>float32\<close> with its rounding as well as for exact numbers. Statements that need laws of arithmetic
  are made for ordered fields, that is for exact arithmetic. \<open>rt\<close> stands for
  \<open>float32(math.Sqrt(float64(x)))\<close>; clearing the sign bit is \<^const>\<open>abs\<close>. A build
  carries its C kernels; those of the repository are in theory \<open>Simd_Kernels\<close>. Out-of-range indexing panics.
\<close>

subsection \<open>Scalar functions\<close>

datatype metric_fn = L2Squared_fn | Cosine_fn | DotProduct_fn | Manhattan_fn

definition GetDistanceFunc :: "string \<Rightarrow> metric_fn option" where
  "GetDistanceFunc name =
     (if name = ''l2'' then Some L2Squared_fn
      else if name = ''cosine'' then Some Cosine_fn
      else if name = ''dot'' then Some DotProduct_fn
      else if name = ''manhattan'' then Some Manhattan_fn
      else None)"

fun sum_loop :: "(nat \<Rightarrow> 'f::plus) \<Rightarrow> nat \<Rightarrow> 'f \<Rightarrow> 'f" where
  \<comment> \<open>\<open>for i := range a { sum += t(i) }\<close>, the last summand added last\<close>
  "sum_loop t 0 acc = acc"
| "sum_loop t (Suc n) acc = sum_loop t n acc + t n"

definition L2Squared :: "'f::{zero,plus,minus,times} list \<Rightarrow> 'f list \<Rightarrow> 'f" where
  "L2Squared a b = sum_loop (\<lambda>i. let diff = a ! i - b ! i in diff * diff) (length a) 0"

definition DotProduct :: "'f::{zero,plus,times} list \<Rightarrow> 'f list \<Rightarrow> 'f" where
  "DotProduct a b = sum_loop (\<lambda>i. a ! i * b ! i) (length a) 0"

definition DotDistance :: "'f::{zero,plus,times,uminus} list \<Rightarrow> 'f list \<Rightarrow> 'f" where
  "DotDistance a b = - DotProduct a b"

definition Manhattan :: "'f::{zero,plus,minus,uminus,ord} list \<Rightarrow> 'f list \<Rightarrow> 'f" where
  "Manhattan a b =
     sum_loop (\<lambda>i. let diff = a ! i - b ! i in if diff < 0 then - diff else diff) (length a) 0"

definition clamp_similarity :: "'f::{one,uminus,ord} \<Rightarrow> 'f" where
  "clamp_similarity s = (if s > 1 then 1 else if s < - 1 then - 1 else s)"

definition Cosine :: "('f \<Rightarrow> 'f) \<Rightarrow> 'f::{zero,one,plus,minus,times,inverse,uminus,ord} list \<Rightarrow> 'f list \<Rightarrow> 'f"
  where
  "Cosine rt a b =
     (let dot = sum_loop (\<lambda>i. a ! i * b ! i) (length a) 0;
          normA = sum_loop (\<lambda>i. a ! i * a ! i) (length a) 0;
          normB = sum_loop (\<lambda>i. b ! i * b ! i) (length a) 0 in
      if normA = 0 \<or> normB = 0 then 1
      else 1 - clamp_similarity (dot / rt (normA * normB)))"

definition CosineSimilarity ::
  "('f \<Rightarrow> 'f) \<Rightarrow> 'f::{zero,one,plus,minus,times,inverse,uminus,ord} list \<Rightarrow> 'f list \<Rightarrow> 'f" where
  "CosineSimilarity rt a b = 1 - Cosine rt a b"

definition Normalize :: "('f \<Rightarrow> 'f) \<Rightarrow> 'f::{zero,one,plus,times,inverse} list \<Rightarrow> 'f list" where
  "Normalize rt v =
     (let norm = sum_loop (\<lambda>i. v ! i * v ! i) (length v) 0 in
      if norm = 0 then v else (let scale = 1 / rt norm in map (\<lambda>x. x * scale) v))"

definition ScoreFromDistance ::
  "('f \<Rightarrow> 'f) \<Rightarrow> 'f::{zero,one,plus,minus,inverse,uminus,ord} \<Rightarrow> string \<Rightarrow> 'f" where
  "ScoreFromDistance rt d metric =
     (if metric = ''l2'' then 1 / (1 + rt d)
      else if metric = ''cosine'' then (let score = 1 - d / (1 + 1) in if score < 0 then 0 else score)
      else if metric = ''dot'' then (- d + 1) / (1 + 1)
      else if metric = ''manhattan'' then 1 / (1 + d)
      else 0)"

subsection \<open>Four-lane batch kernels\<close>

function tail_loop :: "(nat \<Rightarrow> 'f::plus) \<Rightarrow> nat \<Rightarrow> nat \<Rightarrow> 'f \<Rightarrow> 'f" where
  "tail_loop t dm j acc = (if j < dm then tail_loop t dm (j + 1) (acc + t j) else acc)"
  by pat_completeness auto
termination
  by (relation "measure (\<lambda>(t, dm, j, _). dm - j)") auto

function lane_loop :: "(nat \<Rightarrow> 'f::plus) \<Rightarrow> nat \<Rightarrow> nat \<Rightarrow> 'f \<Rightarrow> 'f \<Rightarrow> 'f \<Rightarrow> 'f \<Rightarrow> 'f" where
  "lane_loop t dm j s0 s1 s2 s3 =
     (if j + 4 \<le> dm
      then lane_loop t dm (j + 4) (s0 + t j) (s1 + t (j + 1)) (s2 + t (j + 2)) (s3 + t (j + 3))
      else tail_loop t dm j (s0 + s1 + s2 + s3))"
  by pat_completeness auto
termination
  by (relation "measure (\<lambda>(t, dm, j, _). dm - j)") auto

function cosine_loop ::
  "(nat \<Rightarrow> 'f) \<Rightarrow> (nat \<Rightarrow> 'f) \<Rightarrow> nat \<Rightarrow> nat \<Rightarrow> 'f \<Rightarrow> 'f \<Rightarrow> 'f \<Rightarrow> 'f \<Rightarrow> 'f \<Rightarrow> 'f::{plus,times} \<times> 'f" where
  "cosine_loop q r dm j dot b0 b1 b2 b3 =
     (if j + 4 \<le> dm
      then cosine_loop q r dm (j + 4)
        (dot + (q j * r j + q (j + 1) * r (j + 1) + q (j + 2) * r (j + 2) + q (j + 3) * r (j + 3)))
        (b0 + r j * r j) (b1 + r (j + 1) * r (j + 1))
        (b2 + r (j + 2) * r (j + 2)) (b3 + r (j + 3) * r (j + 3))
      else (tail_loop (\<lambda>j. q j * r j) dm j dot, tail_loop (\<lambda>j. r j * r j) dm j (b0 + b1 + b2 + b3)))"
  by pat_completeness auto
termination
  by (relation "measure (\<lambda>(q, r, dm, j, _). dm - j)") auto

declare tail_loop.simps [simp del] lane_loop.simps [simp del] cosine_loop.simps [simp del]

definition run_batch :: "'f list \<Rightarrow> 'f list \<Rightarrow> nat \<Rightarrow> nat \<Rightarrow> (nat \<Rightarrow> 'f) \<Rightarrow> 'f list \<Rightarrow> 'f list go" where
  \<comment> \<open>the outer loop over \<open>n\<close> rows: every element of the query and of the first \<open>n\<close> rows is read and
     \<open>results[i]\<close> written, so a short slice panics\<close>
  "run_batch query matrix n dm row results =
     (if 0 < n \<and> (length results < n \<or> 0 < dm \<and> (length query < dm \<or> length matrix < n * dm))
      then Inl IndexOutOfRange
      else Inr (map row [0..<n] @ drop n results))"

definition L2BatchPure ::
  "'f::{zero,plus,minus,times} list \<Rightarrow> 'f list \<Rightarrow> nat \<Rightarrow> nat \<Rightarrow> 'f list \<Rightarrow> 'f list go" where
  "L2BatchPure query matrix n dm results =
     run_batch query matrix n dm (\<lambda>i. let base = i * dm in
       lane_loop (\<lambda>j. let d = query ! j - matrix ! (base + j) in d * d) dm 0 0 0 0 0) results"

definition DotBatchPure ::
  "'f::{zero,plus,times} list \<Rightarrow> 'f list \<Rightarrow> nat \<Rightarrow> nat \<Rightarrow> 'f list \<Rightarrow> 'f list go" where
  "DotBatchPure query matrix n dm results =
     run_batch query matrix n dm (\<lambda>i. let base = i * dm in
       lane_loop (\<lambda>j. query ! j * matrix ! (base + j)) dm 0 0 0 0 0) results"

definition ManhattanBatchPure ::
  "'f::{zero,plus,minus,abs} list \<Rightarrow> 'f list \<Rightarrow> nat \<Rightarrow> nat \<Rightarrow> 'f list \<Rightarrow> 'f list go" where
  "ManhattanBatchPure query matrix n dm results =
     run_batch query matrix n dm (\<lambda>i. let base = i * dm in
       lane_loop (\<lambda>j. let d = query ! j - matrix ! (base + j) in \<bar>d\<bar>) dm 0 0 0 0 0) results"

definition query_norm :: "'f::{zero,plus,times} list \<Rightarrow> nat \<Rightarrow> 'f" where
  "query_norm query dm = sum_loop (\<lambda>j. query ! j * query ! j) dm 0"

definition CosineBatchPure ::
  "('f \<Rightarrow> 'f) \<Rightarrow> 'f::{zero,one,plus,minus,times,inverse,uminus,ord} list \<Rightarrow> 'f list \<Rightarrow> nat \<Rightarrow> nat \<Rightarrow>
    'f list \<Rightarrow> 'f list go" where
  "CosineBatchPure rt query matrix n dm results =
     (if length query < dm then Inl IndexOutOfRange
      else let queryNorm = query_norm query dm in
        run_batch query matrix n dm (\<lambda>i. let base = i * dm in
          case cosine_loop (\<lambda>j. query ! j) (\<lambda>j. matrix ! (base + j)) dm 0 0 0 0 0 0 of
            (dot, normB) \<Rightarrow>
              if queryNorm = 0 \<or> normB = 0 then 1
              else 1 - clamp_similarity (dot / rt (queryNorm * normB))) results)"

subsection \<open>Dispatch\<close>

text \<open>
  A build has C kernels (\<open>simd_avx2.go\<close>, \<open>simd_neon_dispatch.go\<close>) or the stubs of
  \<open>simd_stub.go\<close>, which panic. A kernel gets the slices, \<open>n\<close>, \<open>dm\<close> (the cosine kernel the query
  norm too) and fills the results.
\<close>

datatype 'f simd_build =
    SimdKernels (l2k: "'f list \<Rightarrow> 'f list \<Rightarrow> nat \<Rightarrow> nat \<Rightarrow> 'f list \<Rightarrow> 'f list")
      (dotk: "'f list \<Rightarrow> 'f list \<Rightarrow> nat \<Rightarrow> nat \<Rightarrow> 'f list \<Rightarrow> 'f list")
      (cosk: "'f list \<Rightarrow> 'f list \<Rightarrow> nat \<Rightarrow> nat \<Rightarrow> 'f \<Rightarrow> 'f list \<Rightarrow> 'f list")
  | SimdStub

definition MaxInt32 :: nat where
  "MaxInt32 = 2147483647"

definition simd_fallback :: "'f list \<Rightarrow> 'f list \<Rightarrow> nat \<Rightarrow> nat \<Rightarrow> 'f list \<Rightarrow> bool" where
  "simd_fallback query matrix n dm results \<longleftrightarrow>
     n > MaxInt32 \<or> dm > MaxInt32 \<or>
     length query < dm \<or> length matrix < n * dm \<or> length results < n"

definition l2BatchSIMD ::
  "'f simd_build \<Rightarrow> 'f::{zero,plus,minus,times} list \<Rightarrow> 'f list \<Rightarrow> nat \<Rightarrow> nat \<Rightarrow> 'f list \<Rightarrow> 'f list go" where
  "l2BatchSIMD b query matrix n dm results =
     (case b of SimdStub \<Rightarrow> Inl (PanicValue ''l2BatchSIMD called without SIMD support'')
      | SimdKernels l2 _ _ \<Rightarrow>
          if n = 0 \<or> dm = 0 then Inr results
          else if simd_fallback query matrix n dm results
            then L2BatchPure query matrix n dm results
          else Inr (l2 query matrix n dm results))"

definition dotBatchSIMD ::
  "'f simd_build \<Rightarrow> 'f::{zero,plus,times} list \<Rightarrow> 'f list \<Rightarrow> nat \<Rightarrow> nat \<Rightarrow> 'f list \<Rightarrow> 'f list go" where
  "dotBatchSIMD b query matrix n dm results =
     (case b of SimdStub \<Rightarrow> Inl (PanicValue ''dotBatchSIMD called without SIMD support'')
      | SimdKernels _ dt _ \<Rightarrow>
          if n = 0 \<or> dm = 0 then Inr results
          else if simd_fallback query matrix n dm results
            then DotBatchPure query matrix n dm results
          else Inr (dt query matrix n dm results))"

definition cosineBatchSIMD ::
  "('f \<Rightarrow> 'f) \<Rightarrow> 'f simd_build \<Rightarrow> 'f::{zero,one,plus,minus,times,inverse,uminus,ord} list \<Rightarrow> 'f list \<Rightarrow>
     nat \<Rightarrow> nat \<Rightarrow> 'f \<Rightarrow> 'f list \<Rightarrow> 'f list go" where
  "cosineBatchSIMD rt b query matrix n dm queryNorm results =
     (case b of SimdStub \<Rightarrow> Inl (PanicValue ''cosineBatchSIMD called without SIMD support'')
      | SimdKernels _ _ cs \<Rightarrow>
          if n = 0 \<or> dm = 0 then Inr results
          else if simd_fallback query matrix n dm results
            then CosineBatchPure rt query matrix n dm results
          else Inr (cs query matrix n dm queryNorm results))"

definition simdThreshold :: nat where
  "simdThreshold = 64"

text \<open>The platform: whether \<open>init\<close> found the CPU feature, the build's kernels, and \<open>rt\<close>.\<close>

record 'f platform =
  useSIMD :: bool
  build :: "'f simd_build"
  rt32 :: "'f \<Rightarrow> 'f"

datatype goarch = Amd64 | Arm64 | OtherArch

definition init_useSIMD :: "goarch \<Rightarrow> bool \<Rightarrow> bool \<Rightarrow> bool \<Rightarrow> bool" where
  "init_useSIMD arch hasAVX2 hasFMA hasASIMD =
     (case arch of Amd64 \<Rightarrow> hasAVX2 \<and> hasFMA | Arm64 \<Rightarrow> hasASIMD | OtherArch \<Rightarrow> False)"

definition L2Batch ::
  "'f platform \<Rightarrow> 'f::{zero,plus,minus,times} list \<Rightarrow> 'f list \<Rightarrow> nat \<Rightarrow> nat \<Rightarrow> 'f list \<Rightarrow> 'f list go" where
  "L2Batch p query matrix n dm results =
     (if useSIMD p \<and> n \<ge> simdThreshold then l2BatchSIMD (build p) query matrix n dm results
      else L2BatchPure query matrix n dm results)"

definition DotBatch ::
  "'f platform \<Rightarrow> 'f::{zero,plus,times} list \<Rightarrow> 'f list \<Rightarrow> nat \<Rightarrow> nat \<Rightarrow> 'f list \<Rightarrow> 'f list go" where
  "DotBatch p query matrix n dm results =
     (if useSIMD p \<and> n \<ge> simdThreshold then dotBatchSIMD (build p) query matrix n dm results
      else DotBatchPure query matrix n dm results)"

definition CosineBatch ::
  "'f platform \<Rightarrow> 'f::{zero,one,plus,minus,times,inverse,uminus,ord} list \<Rightarrow> 'f list \<Rightarrow> nat \<Rightarrow> nat \<Rightarrow>
    'f list \<Rightarrow> 'f list go" where
  "CosineBatch p query matrix n dm results =
     (if useSIMD p \<and> n \<ge> simdThreshold then
        (if length query < dm then Inl IndexOutOfRange
         else cosineBatchSIMD (rt32 p) (build p) query matrix n dm (query_norm query dm) results)
      else CosineBatchPure (rt32 p) query matrix n dm results)"

definition BatchDistance ::
  "'f platform \<Rightarrow> 'f::{zero,one,plus,minus,times,inverse,uminus,abs,ord} list \<Rightarrow> 'f list \<Rightarrow> nat \<Rightarrow> nat \<Rightarrow>
    string \<Rightarrow> 'f list \<Rightarrow> 'f list go" where
  "BatchDistance p query matrix n dm metric results =
     (if metric = ''l2'' then L2Batch p query matrix n dm results
      else if metric = ''cosine'' then CosineBatch p query matrix n dm results
      else if metric = ''dot'' then DotBatch p query matrix n dm results
      else if metric = ''manhattan'' then ManhattanBatchPure query matrix n dm results
      else if length results < n then Inl IndexOutOfRange
      else Inr (replicate n 0 @ drop n results))"

subsection \<open>The kernels compute the scalar functions\<close>

definition apply_metric ::
  "('f \<Rightarrow> 'f) \<Rightarrow> metric_fn \<Rightarrow> 'f::{zero,one,plus,minus,times,inverse,uminus,ord} list \<Rightarrow> 'f list \<Rightarrow> 'f"
  where
  "apply_metric rt f a b =
     (case f of L2Squared_fn \<Rightarrow> L2Squared a b | Cosine_fn \<Rightarrow> Cosine rt a b
      | DotProduct_fn \<Rightarrow> DotProduct a b | Manhattan_fn \<Rightarrow> Manhattan a b)"

definition row_of :: "nat \<Rightarrow> 'f list \<Rightarrow> nat \<Rightarrow> 'f list" where
  "row_of dm matrix i = take dm (drop (i * dm) matrix)"

text \<open>
  What is assumed of a platform: with SIMD the build is not the one of the stubs, which panic, and on slices that are
  long enough its kernels agree with the Go kernels. Theory \<open>Simd_Kernels\<close> shows it of the C kernels for AVX2 and NEON.
\<close>

definition kernels_agree ::
  "'f::{zero,one,plus,minus,times,inverse,uminus,abs,ord} platform \<Rightarrow> bool" where
  "kernels_agree p \<longleftrightarrow> (useSIMD p \<longrightarrow> build p \<noteq> SimdStub \<and>
     (\<forall>q m n dm r. dm \<le> length q \<longrightarrow> n * dm \<le> length m \<longrightarrow> n \<le> length r \<longrightarrow>
        Inr (l2k (build p) q m n dm r) = L2BatchPure q m n dm r \<and>
        Inr (dotk (build p) q m n dm r) = DotBatchPure q m n dm r \<and>
        Inr (cosk (build p) q m n dm (query_norm q dm) r) = CosineBatchPure (rt32 p) q m n dm r))"

lemma sum_loop_sum: "sum_loop t n acc = acc + sum t {..<n}" for t :: "nat \<Rightarrow> 'f::comm_monoid_add"
  by (induction n) (simp_all add: add.assoc)

lemma tail_loop_sum:
  "j \<le> dm \<Longrightarrow> tail_loop t dm j acc = acc + sum t {j..<dm}" for t :: "nat \<Rightarrow> 'f::comm_monoid_add"
proof (induction t dm j acc rule: tail_loop.induct)
  case (1 t dm j acc)
  then show ?case
    by (cases "j < dm")
      (simp_all add: tail_loop.simps [of t dm j] tail_loop.simps [of t dm dm]
        sum.atLeast_Suc_lessThan add.assoc)
qed

lemma sum_four:
  "j + 4 \<le> dm \<Longrightarrow> sum t {j..<dm} = t j + t (j + 1) + t (j + 2) + t (j + 3) + sum t {j + 4..<dm}"
  for t :: "nat \<Rightarrow> 'f::comm_monoid_add"
  using sum.atLeastLessThan_concat [of j "j + 4" dm t]
  by (simp add: sum.atLeast_Suc_lessThan numeral_eq_Suc add.assoc)

lemma lane_loop_sum:
  "j \<le> dm \<Longrightarrow> lane_loop t dm j s0 s1 s2 s3 = s0 + s1 + s2 + s3 + sum t {j..<dm}"
  for t :: "nat \<Rightarrow> 'f::comm_monoid_add"
proof (induction t dm j s0 s1 s2 s3 rule: lane_loop.induct)
  case (1 t dm j s0 s1 s2 s3)
  show ?case
  proof (cases "j + 4 \<le> dm")
    case True
    with 1 show ?thesis by (subst lane_loop.simps) (simp add: sum_four [OF True] ac_simps)
  next
    case False
    with 1 show ?thesis by (subst lane_loop.simps) (simp add: tail_loop_sum)
  qed
qed

lemma cosine_loop_sum:
  "j \<le> dm \<Longrightarrow> cosine_loop q r dm j d b0 b1 b2 b3 =
     (d + sum (\<lambda>j. q j * r j) {j..<dm}, b0 + b1 + b2 + b3 + sum (\<lambda>j. r j * r j) {j..<dm})"
  for q :: "nat \<Rightarrow> 'f::comm_semiring_0"
proof (induction q r dm j d b0 b1 b2 b3 rule: cosine_loop.induct)
  case (1 q r dm j d b0 b1 b2 b3)
  show ?case
  proof (cases "j + 4 \<le> dm")
    case True
    with 1 show ?thesis by (subst cosine_loop.simps) (simp add: sum_four [OF True] ac_simps)
  next
    case False
    with 1 show ?thesis by (subst cosine_loop.simps) (simp add: tail_loop_sum)
  qed
qed

lemma nth_row_of:
  assumes "(i + 1) * dm \<le> length m" "j < dm"
  shows "row_of dm m i ! j = m ! (i * dm + j)"
  using assms by (simp add: row_of_def add.commute)

lemma rows_in_range:
  assumes "i < n" "n * dm \<le> length m"
  shows "(i + 1) * dm \<le> length m"
  using assms mult_le_mono1 [of "i + 1" n dm] by simp

lemma scalar_row:
  fixes q :: "'f::linordered_field list"
  assumes "length q = dm" "i < n" "n * dm \<le> length m"
  shows "L2Squared q (row_of dm m i) = (\<Sum>j<dm. (q ! j - m ! (i * dm + j)) * (q ! j - m ! (i * dm + j)))"
    "DotProduct q (row_of dm m i) = (\<Sum>j<dm. q ! j * m ! (i * dm + j))"
    "Manhattan q (row_of dm m i) = (\<Sum>j<dm. \<bar>q ! j - m ! (i * dm + j)\<bar>)"
    "sum_loop (\<lambda>j. row_of dm m i ! j * row_of dm m i ! j) dm 0 =
       (\<Sum>j<dm. m ! (i * dm + j) * m ! (i * dm + j))"
proof -
  have nth: "row_of dm m i ! j = m ! (i * dm + j)" if "j < dm" for j
    using nth_row_of [OF rows_in_range [OF assms(2,3)] that] .
  show "L2Squared q (row_of dm m i) = (\<Sum>j<dm. (q ! j - m ! (i * dm + j)) * (q ! j - m ! (i * dm + j)))"
    "DotProduct q (row_of dm m i) = (\<Sum>j<dm. q ! j * m ! (i * dm + j))"
    "Manhattan q (row_of dm m i) = (\<Sum>j<dm. \<bar>q ! j - m ! (i * dm + j)\<bar>)"
    "sum_loop (\<lambda>j. row_of dm m i ! j * row_of dm m i ! j) dm 0 =
       (\<Sum>j<dm. m ! (i * dm + j) * m ! (i * dm + j))"
    using nth assms(1)
    by (auto simp: L2Squared_def DotProduct_def Manhattan_def sum_loop_sum abs_if Let_def intro!: sum.cong)
qed

lemma run_batch_rows:
  assumes "n * dm \<le> length m" "n \<le> length r" "dm \<le> length q"
    "\<And>i. i < n \<Longrightarrow> row i = f (row_of dm m i)"
  shows "run_batch q m n dm row r = Inr (map (\<lambda>i. f (row_of dm m i)) [0..<n] @ drop n r)"
  using assms by (auto simp: run_batch_def)

lemma pure_kernels:
  fixes q :: "'f::linordered_field list"
  assumes "length q = dm" "n * dm \<le> length m" "n \<le> length r"
  shows L2BatchPure_rows: "L2BatchPure q m n dm r = Inr (map (\<lambda>i. L2Squared q (row_of dm m i)) [0..<n] @ drop n r)"
    and DotBatchPure_rows: "DotBatchPure q m n dm r = Inr (map (\<lambda>i. DotProduct q (row_of dm m i)) [0..<n] @ drop n r)"
    and ManhattanBatchPure_rows: "ManhattanBatchPure q m n dm r = Inr (map (\<lambda>i. Manhattan q (row_of dm m i)) [0..<n] @ drop n r)"
    and CosineBatchPure_rows: "CosineBatchPure rt q m n dm r = Inr (map (\<lambda>i. Cosine rt q (row_of dm m i)) [0..<n] @ drop n r)"
proof -
  have le: "dm \<le> length q" using assms(1) by simp
  note rows = run_batch_rows [OF assms(2,3) le]
  note sc = scalar_row [OF assms(1) _ assms(2)]
  show "L2BatchPure q m n dm r = Inr (map (\<lambda>i. L2Squared q (row_of dm m i)) [0..<n] @ drop n r)"
    unfolding L2BatchPure_def by (rule rows) (simp add: sc lane_loop_sum Let_def atLeast0LessThan)
  show "DotBatchPure q m n dm r = Inr (map (\<lambda>i. DotProduct q (row_of dm m i)) [0..<n] @ drop n r)"
    unfolding DotBatchPure_def by (rule rows) (simp add: sc lane_loop_sum Let_def atLeast0LessThan)
  show "ManhattanBatchPure q m n dm r = Inr (map (\<lambda>i. Manhattan q (row_of dm m i)) [0..<n] @ drop n r)"
    unfolding ManhattanBatchPure_def by (rule rows) (simp add: sc lane_loop_sum Let_def atLeast0LessThan)
  have "Cosine rt q (row_of dm m i) =
      (let B = (\<Sum>j<dm. m ! (i * dm + j) * m ! (i * dm + j)) in
       if query_norm q dm = 0 \<or> B = 0 then 1
       else 1 - clamp_similarity ((\<Sum>j<dm. q ! j * m ! (i * dm + j)) / rt (query_norm q dm * B)))"
    if "i < n" for i
    using sc(2) [OF that] sc(4) [OF that] assms(1)
    unfolding Cosine_def DotProduct_def query_norm_def Let_def by simp
  then show "CosineBatchPure rt q m n dm r = Inr (map (\<lambda>i. Cosine rt q (row_of dm m i)) [0..<n] @ drop n r)"
    using le unfolding CosineBatchPure_def Let_def
    by (subst if_not_P, simp, intro rows) (simp add: Let_def cosine_loop_sum atLeast0LessThan)
qed

lemma dispatch_pure:
  assumes "kernels_agree p" "dm \<le> length q" "n * dm \<le> length m" "n \<le> length r"
  shows "0 < dm \<Longrightarrow> L2Batch p q m n dm r = L2BatchPure q m n dm r"
    "0 < dm \<Longrightarrow> DotBatch p q m n dm r = DotBatchPure q m n dm r"
    "0 < dm \<Longrightarrow> CosineBatch p q m n dm r = CosineBatchPure (rt32 p) q m n dm r"
  using assms
  by (auto simp: L2Batch_def DotBatch_def CosineBatch_def l2BatchSIMD_def dotBatchSIMD_def
      cosineBatchSIMD_def kernels_agree_def simdThreshold_def split: simd_build.split)

lemma BatchDistance_rows:
  fixes q :: "'f::linordered_field list"
  assumes "kernels_agree p" "length q = dm" "0 < dm" "n * dm \<le> length m" "n \<le> length r"
    "GetDistanceFunc metric = Some f"
  shows "BatchDistance p q m n dm metric r =
    Inr (map (\<lambda>i. apply_metric (rt32 p) f q (row_of dm m i)) [0..<n] @ drop n r)"
proof -
  have le: "dm \<le> length q" using assms(2) by simp
  note d = dispatch_pure [OF assms(1) le assms(4,5,3)]
  note k = pure_kernels [OF assms(2,4,5)]
  show ?thesis
    using assms(6)
    by (auto simp: GetDistanceFunc_def BatchDistance_def apply_metric_def d k split: if_splits)
qed

text \<open>Scores: in exact arithmetic the score of a distance the metric can produce lies in \<open>[0, 1]\<close>
  (non-negative distances for L2 and Manhattan, any \<open>Cosine\<close> value, and for \<open>dot\<close> a negated
  inner product between -1 and 1), \<open>Cosine\<close> itself lies in \<open>[0, 2]\<close> whatever the square
  root returns, and a closer vector never gets a lower score.\<close>
theorem scores_normalised:
  fixes d d' :: "'f::linordered_field"
  assumes "\<And>x. 0 \<le> x \<Longrightarrow> 0 \<le> rt x" "\<And>x y. 0 \<le> x \<Longrightarrow> x \<le> y \<Longrightarrow> rt x \<le> rt y" "d \<le> d'"
    "metric \<in> {''l2'', ''manhattan''} \<and> 0 \<le> d \<or> metric = ''cosine'' \<and> 0 \<le> d \<or>
      metric = ''dot'' \<and> - 1 \<le> d \<and> d' \<le> 1"
  shows "0 \<le> ScoreFromDistance rt d' metric \<and> ScoreFromDistance rt d' metric \<le> ScoreFromDistance rt d metric \<and>
    ScoreFromDistance rt d metric \<le> 1 \<and> 0 \<le> Cosine rt a b \<and> Cosine rt a b \<le> 2"
proof -
  have two: "(1 :: 'f) + 1 = 2" by simp
  have c: "0 \<le> Cosine rt a b \<and> Cosine rt a b \<le> 2"
    by (auto simp: Cosine_def clamp_similarity_def Let_def not_less)
  have inv: "0 \<le> 1 / (1 + y) \<and> 1 / (1 + y) \<le> 1 / (1 + x) \<and> 1 / (1 + x) \<le> 1" if "0 \<le> x" "x \<le> y" for x y :: 'f
    using that by (auto simp: frac_le)
  have half: "d / 2 \<le> d' / 2" using assms(3) by simp
  consider (l2) "metric = ''l2''" "0 \<le> d" | (man) "metric = ''manhattan''" "0 \<le> d"
    | (cos) "metric = ''cosine''" "0 \<le> d" | (dot) "metric = ''dot''" "- 1 \<le> d" "d' \<le> 1" using assms(4) by blast
  then show ?thesis
  proof cases
    case l2
    then show ?thesis using inv [of "rt d" "rt d'"] assms(1-3) c by (simp add: ScoreFromDistance_def)
  next
    case man
    then show ?thesis using inv [of d d'] assms(3) c by (simp add: ScoreFromDistance_def)
  next
    case cos
    then show ?thesis using c half by (auto simp: ScoreFromDistance_def two Let_def)
  next
    case dot
    then show ?thesis using c assms(3) by (auto simp: ScoreFromDistance_def two field_simps)
  qed
qed

theorem scores_normalised_witness:
  "(0 :: rat) \<le> ScoreFromDistance id 3 ''l2'' \<and> ScoreFromDistance id 3 ''l2'' \<le> ScoreFromDistance id (1 :: rat) ''l2'' \<and>
    ScoreFromDistance id (1 :: rat) ''l2'' \<le> 1 \<and> 0 \<le> Cosine id [1, 0] [0, 1 :: rat] \<and> Cosine id [1, 0] [0, 1 :: rat] \<le> 2"
  by (rule scores_normalised) simp_all

end
