(* ===== verification/Errors.thy ===== *)
theory Errors
  imports Go_Prelude
begin

section \<open>The error hierarchy\<close>

text \<open>
  Models \<open>internal/errors/errors.go\<close>. Messages carry no control flow and are not modelled; an error
  that is not a \<open>VDBError\<close> (a context error, a driver error, \<open>fmt.Errorf\<close>) is \<open>OtherError\<close> with a
  tag and the error it wraps, if any. A result of type \<^typ>\<open>'e + 'a\<close> has the error left.
\<close>

datatype ErrorCode =
    ErrDimensionMismatch | ErrCollectionNotFound | ErrVectorNotFound | ErrCapacityExceeded
  | ErrIndexNotBuilt | ErrCorruptedFile | ErrConcurrentModification | ErrDuplicateID
  | ErrRateLimitExceeded | ErrUnauthorized | ErrIntegrityFailure | ErrQuotaExceeded
  | ErrTenantNotFound | ErrWALTruncation

datatype error =
    VDBError (Code: ErrorCode) (Cause: "error option")
  | OtherError string "error option"

definition Newf :: "ErrorCode \<Rightarrow> error" where
  "Newf code = VDBError code None"

fun Unwrap :: "error \<Rightarrow> error option" where
  "Unwrap (VDBError _ c) = c"
| "Unwrap (OtherError _ c) = c"

definition HTTPStatusCode :: "ErrorCode \<Rightarrow> nat" where
  "HTTPStatusCode c =
     (case c of
        ErrDimensionMismatch \<Rightarrow> 400
      | ErrCollectionNotFound \<Rightarrow> 404 | ErrVectorNotFound \<Rightarrow> 404 | ErrTenantNotFound \<Rightarrow> 404
      | ErrUnauthorized \<Rightarrow> 401
      | ErrQuotaExceeded \<Rightarrow> 402
      | ErrDuplicateID \<Rightarrow> 409 | ErrConcurrentModification \<Rightarrow> 409
      | ErrRateLimitExceeded \<Rightarrow> 429
      | ErrCapacityExceeded \<Rightarrow> 507
      | ErrIndexNotBuilt \<Rightarrow> 503
      | ErrCorruptedFile \<Rightarrow> 500 | ErrIntegrityFailure \<Rightarrow> 500 | ErrWALTruncation \<Rightarrow> 500)"

fun err_Is :: "error \<Rightarrow> error \<Rightarrow> bool" where
  "err_Is (VDBError c _) (VDBError c' _) \<longleftrightarrow> c = c'"
| "err_Is _ _ \<longleftrightarrow> False"

fun IsCode :: "error option \<Rightarrow> ErrorCode \<Rightarrow> bool" where
  "IsCode None code \<longleftrightarrow> False"
| "IsCode (Some (VDBError c cause)) code \<longleftrightarrow> c = code \<or> IsCode cause code"
| "IsCode (Some (OtherError _ cause)) code \<longleftrightarrow> IsCode cause code"

lemma IsCode_Newf [simp]: "IsCode (Some (Newf c)) d \<longleftrightarrow> c = d"
  by (simp add: Newf_def)

lemma Newf_inject [simp]: "Newf c = Newf d \<longleftrightarrow> c = d"
  by (simp add: Newf_def)

lemma IsCode_chain:
  "IsCode (Some e) code \<longleftrightarrow> err_Is e (Newf code) \<or> IsCode (Unwrap e) code"
  by (cases e) (auto simp: Newf_def)

end
