(* ===== verification/Index_Contract.thy ===== *)
theory Index_Contract
  imports Errors
begin

section \<open>The index interface\<close>

text \<open>
  The contract of \<open>index.Index\<close> (\<open>internal/index/index.go\<close>) that every index type promises its
  clients, stated as a specification on finite maps from identifiers to vectors and as a locale whose
  operations may be any implementation. The client lemmas here hold for every implementation.
\<close>

type_synonym 'f store = "u64 \<rightharpoonup> 'f list"

definition spec_Insert :: "nat \<Rightarrow> u64 \<Rightarrow> 'f list \<Rightarrow> 'f store \<Rightarrow> 'f store \<times> ErrorCode option" where
  "spec_Insert d i v m =
     (if length v \<noteq> d then (m, Some ErrDimensionMismatch)
      else if i \<in> dom m then (m, Some ErrDuplicateID)
      else (m(i \<mapsto> v), None))"

definition spec_Delete :: "u64 \<Rightarrow> 'f store \<Rightarrow> 'f store \<times> ErrorCode option" where
  "spec_Delete i m = (if i \<in> dom m then (m(i := None), None) else (m, Some ErrVectorNotFound))"

datatype 'f index_op = OpInsert u64 "'f list" | OpDelete u64

fun spec_op :: "nat \<Rightarrow> 'f index_op \<Rightarrow> 'f store \<Rightarrow> 'f store \<times> ErrorCode option" where
  "spec_op d (OpInsert i v) m = spec_Insert d i v m"
| "spec_op d (OpDelete i) m = spec_Delete i m"

fun spec_run :: "nat \<Rightarrow> 'f index_op list \<Rightarrow> 'f store \<Rightarrow> 'f store \<times> ErrorCode option list" where
  "spec_run d [] m = (m, [])"
| "spec_run d (x # xs) m =
     (case spec_op d x m of (m', e) \<Rightarrow> case spec_run d xs m' of (m'', es) \<Rightarrow> (m'', e # es))"

definition code_of :: "error option \<Rightarrow> ErrorCode option" where
  "code_of e = map_option Code e"

lemma code_of_simps [simp]: "code_of None = None" "code_of (Some (Newf c)) = Some c"
  by (simp_all add: code_of_def Newf_def)

text \<open>
  \<open>ix_inv\<close> is the implementation's invariant, \<open>vecs\<close> its abstraction, \<open>ix_dim\<close> the dimension it was
  created with. An operation must not panic, must keep the invariant and must do and report what the
  specification says.
\<close>

locale vector_index =
  fixes ix_inv :: "'i \<Rightarrow> bool"
    and vecs :: "'i \<Rightarrow> 'f store"
    and ix_dim :: "'i \<Rightarrow> nat"
    and ix_insert :: "u64 \<Rightarrow> 'f list \<Rightarrow> 'i \<Rightarrow> ('i \<times> error option) go"
    and ix_delete :: "u64 \<Rightarrow> 'i \<Rightarrow> ('i \<times> error option) go"
    and ix_len :: "'i \<Rightarrow> nat"
  assumes insert_ok: "ix_inv s \<Longrightarrow> \<exists>s' e. ix_insert i v s = Inr (s', e) \<and> ix_inv s' \<and> ix_dim s' = ix_dim s \<and>
      (vecs s', code_of e) = spec_Insert (ix_dim s) i v (vecs s)"
    and delete_ok: "ix_inv s \<Longrightarrow> \<exists>s' e. ix_delete i s = Inr (s', e) \<and> ix_inv s' \<and> ix_dim s' = ix_dim s \<and>
      (vecs s', code_of e) = spec_Delete i (vecs s)"
    and len_ok: "ix_inv s \<Longrightarrow> finite (dom (vecs s)) \<and> ix_len s = card (dom (vecs s))"
begin

fun op :: "'f index_op \<Rightarrow> 'i \<Rightarrow> ('i \<times> error option) go" where
  "op (OpInsert i v) s = ix_insert i v s"
| "op (OpDelete i) s = ix_delete i s"

fun run :: "'f index_op list \<Rightarrow> 'i \<Rightarrow> ('i \<times> ErrorCode option list) go" where
  "run [] s = Inr (s, [])"
| "run (x # xs) s = go_bind (op x s) (\<lambda>(s', e).
     go_bind (run xs s') (\<lambda>(s'', es). Inr (s'', code_of e # es)))"

lemma op_refines:
  assumes "ix_inv s"
  shows "\<exists>s' e. op x s = Inr (s', e) \<and> ix_inv s' \<and> ix_dim s' = ix_dim s \<and>
    (vecs s', code_of e) = spec_op (ix_dim s) x (vecs s)"
  using insert_ok [OF assms] delete_ok [OF assms] by (cases x) simp_all

lemma run_refines:
  "ix_inv s \<Longrightarrow> \<exists>s' es. run xs s = Inr (s', es) \<and> ix_inv s' \<and> ix_dim s' = ix_dim s \<and>
     (vecs s', es) = spec_run (ix_dim s) xs (vecs s) \<and> ix_len s' = card (dom (vecs s'))"
proof (induction xs arbitrary: s)
  case Nil
  then show ?case using len_ok by simp
next
  case (Cons x xs)
  obtain s1 e where s1: "op x s = Inr (s1, e)" "ix_inv s1" "ix_dim s1 = ix_dim s"
    "(vecs s1, code_of e) = spec_op (ix_dim s) x (vecs s)" using op_refines [OF Cons.prems] by blast
  obtain s2 es where s2: "run xs s1 = Inr (s2, es)" "ix_inv s2" "ix_dim s2 = ix_dim s1"
    "(vecs s2, es) = spec_run (ix_dim s1) xs (vecs s1)" "ix_len s2 = card (dom (vecs s2))"
    using Cons.IH [OF s1(2)] by blast
  have "(vecs s2, code_of e # es) = spec_run (ix_dim s) (x # xs) (vecs s)"
    using s1(3,4) s2(4) by (metis (no_types, lifting) case_prod_conv spec_run.simps(2))
  then show ?case using s1 s2 by auto
qed

end

end
