(* ===== verification/Go_Heap.thy ===== *)
theory Go_Heap
  imports Go_Prelude
begin

section \<open>\<open>container/heap\<close> on slices\<close>

text \<open>
  The heap operations of Go's standard library, on the slice itself: \<open>lt\<close> is the client's
  \<open>Less\<close>, which is the first argument of every operation. The loops \<open>up\<close> and \<open>down\<close> are written as
  in the library; \<open>heap.Pop\<close> swaps the root with the last element, sifts the new root down in the
  shorter prefix and then cuts the last element off.
\<close>

definition swap :: "nat \<Rightarrow> nat \<Rightarrow> 'a list \<Rightarrow> 'a list" where
  "swap i j xs = xs[i := xs ! j, j := xs ! i]"

fun heap_up :: "('a \<Rightarrow> 'a \<Rightarrow> bool) \<Rightarrow> nat \<Rightarrow> 'a list \<Rightarrow> 'a list" where
  "heap_up lt j xs =
     (let i = (j - 1) div 2 in
      if i = j \<or> \<not> lt (xs ! j) (xs ! i)  then xs
      else heap_up lt i (swap i j xs))"

function heap_down :: "('a \<Rightarrow> 'a \<Rightarrow> bool) \<Rightarrow> nat \<Rightarrow> nat \<Rightarrow> 'a list \<Rightarrow> 'a list \<times> nat" where
  "heap_down lt i n xs =
     (let j1 = 2 * i + 1 in
      if j1 \<ge> n then (xs, i)
      else let j = (if j1 + 1 < n \<and> lt (xs ! (j1 + 1)) (xs ! j1) then j1 + 1 else j1) in
        if \<not> lt (xs ! j) (xs ! i) then (xs, i)
        else heap_down lt j n (swap i j xs))"
  by pat_completeness auto
termination
  by (relation "measure (\<lambda>(lt, i, n, xs). n - i)") (auto split: if_splits)

declare heap_up.simps [simp del] heap_down.simps [simp del]

definition heap_Push :: "('a \<Rightarrow> 'a \<Rightarrow> bool) \<Rightarrow> 'a \<Rightarrow> 'a list \<Rightarrow> 'a list" where
  "heap_Push lt x xs = heap_up lt (length xs) (xs @ [x])"

definition heap_Fix :: "('a \<Rightarrow> 'a \<Rightarrow> bool) \<Rightarrow> nat \<Rightarrow> 'a list \<Rightarrow> 'a list" where
  "heap_Fix lt i xs =
     (let (ys, i') = heap_down lt i (length xs) xs in
      if i' > i then ys else heap_up lt i ys)"

definition heap_Pop :: "('a \<Rightarrow> 'a \<Rightarrow> bool) \<Rightarrow> 'a list \<Rightarrow> 'a \<times> 'a list" where
  "heap_Pop lt xs =
     (let n = length xs - 1; ys = fst (heap_down lt 0 n (swap 0 n xs)) in (last ys, butlast ys))"

subsection \<open>Permutation\<close>

lemma length_swap [simp]: "length (swap i j xs) = length xs"
  by (simp add: swap_def)

lemma mset_swap_slice [simp]: "i < length xs \<Longrightarrow> j < length xs \<Longrightarrow> mset (swap i j xs) = mset xs"
  by (simp add: swap_def mset_swap)

lemma nth_swap:
  "i < length xs \<Longrightarrow> j < length xs \<Longrightarrow>
     swap i j xs ! k = (if k = j then xs ! i else if k = i then xs ! j else xs ! k)"
  by (auto simp: swap_def nth_list_update)

lemma heap_up_mset: "j < length xs \<Longrightarrow> mset (heap_up lt j xs) = mset xs"
proof (induction lt j xs rule: heap_up.induct)
  case (1 lt j xs)
  show ?case
  proof (cases "(j - 1) div 2 = j \<or> \<not> lt (xs ! j) (xs ! ((j - 1) div 2))")
    case True
    then show ?thesis by (subst heap_up.simps) (auto simp: Let_def)
  next
    case False
    then have "(j - 1) div 2 < length xs" using "1.prems" by auto
    with False "1.IH" [OF refl] "1.prems" show ?thesis
      by (subst heap_up.simps) (auto simp: Let_def)
  qed
qed

lemma heap_down_mset:
  "i < n \<Longrightarrow> n \<le> length xs \<Longrightarrow>
     mset (fst (heap_down lt i n xs)) = mset xs \<and> drop n (fst (heap_down lt i n xs)) = drop n xs \<and>
     i \<le> snd (heap_down lt i n xs)"
proof (induction lt i n xs rule: heap_down.induct)
  case (1 lt i n xs)
  define j1 where "j1 = 2 * i + 1"
  define j where "j = (if j1 + 1 < n \<and> lt (xs ! (j1 + 1)) (xs ! j1) then j1 + 1 else j1)"
  show ?case
  proof (cases "j1 \<ge> n \<or> \<not> lt (xs ! j) (xs ! i)")
    case True
    then have "heap_down lt i n xs = (xs, i)"
      by (subst heap_down.simps) (auto simp: Let_def j1_def j_def)
    then show ?thesis by simp
  next
    case False
    then have eq: "heap_down lt i n xs = heap_down lt j n (swap i j xs)"
      by (subst heap_down.simps) (auto simp: Let_def j1_def j_def)
    have j: "j < n" "i < j" using False by (auto simp: j_def j1_def)
    have "drop n (swap i j xs) = drop n xs" using j "1.prems" by (simp add: swap_def drop_update_cancel)
    then show ?thesis
      unfolding eq using "1.IH" [OF j1_def _ j_def] False j "1.prems" by auto
  qed
qed

subsection \<open>The heap property\<close>

locale heap_order =
  fixes lt :: "'a \<Rightarrow> 'a \<Rightarrow> bool"
  assumes asym: "lt a b \<Longrightarrow> \<not> lt b a"
    and le_trans: "\<not> lt b a \<Longrightarrow> \<not> lt c b \<Longrightarrow> \<not> lt c a"
begin

definition heap_upto :: "nat \<Rightarrow> 'a list \<Rightarrow> bool" where
  "heap_upto n xs \<longleftrightarrow> (\<forall>j. 0 < j \<longrightarrow> j < n \<longrightarrow> \<not> lt (xs ! j) (xs ! ((j - 1) div 2)))"

definition broken_at :: "nat \<Rightarrow> nat \<Rightarrow> 'a list \<Rightarrow> bool" where
  \<comment> \<open>only the edges from \<open>i\<close> to its children may be out of order\<close>
  "broken_at i n xs \<longleftrightarrow>
     (\<forall>j. 0 < j \<longrightarrow> j < n \<longrightarrow> (j - 1) div 2 \<noteq> i \<longrightarrow> \<not> lt (xs ! j) (xs ! ((j - 1) div 2))) \<and>
     (\<forall>j. 0 < j \<longrightarrow> j < n \<longrightarrow> (j - 1) div 2 = i \<longrightarrow> 0 < i \<longrightarrow> \<not> lt (xs ! j) (xs ! ((i - 1) div 2)))"

definition raised_at :: "nat \<Rightarrow> nat \<Rightarrow> 'a list \<Rightarrow> bool" where
  \<comment> \<open>only the edge from \<open>i\<close> to its parent may be out of order\<close>
  "raised_at i n xs \<longleftrightarrow>
     (\<forall>j. 0 < j \<longrightarrow> j < n \<longrightarrow> j \<noteq> i \<longrightarrow> \<not> lt (xs ! j) (xs ! ((j - 1) div 2))) \<and>
     (\<forall>j. 0 < j \<longrightarrow> j < n \<longrightarrow> (j - 1) div 2 = i \<longrightarrow> 0 < i \<longrightarrow> \<not> lt (xs ! j) (xs ! ((i - 1) div 2)))"

lemma root_least:
  assumes "heap_upto n xs" "j < n"
  shows "\<not> lt (xs ! j) (xs ! 0)"
  using assms(2)
proof (induction j rule: less_induct)
  case (less j)
  show ?case
  proof (cases "j = 0")
    case True
    then show ?thesis using asym by blast
  next
    case False
    then have "\<not> lt (xs ! ((j - 1) div 2)) (xs ! 0)" using less by simp
    moreover have "\<not> lt (xs ! j) (xs ! ((j - 1) div 2))"
      using assms(1) less.prems False by (simp add: heap_upto_def)
    ultimately show ?thesis by (rule le_trans)
  qed
qed

lemma broken_at_swap:
  assumes b: "broken_at i n xs" and "n \<le> length xs" "j < n" "j = 2 * i + 1 \<or> j = 2 * i + 2"
    and sel: "\<And>k. k < n \<Longrightarrow> k = 2 * i + 1 \<or> k = 2 * i + 2 \<Longrightarrow> \<not> lt (xs ! k) (xs ! j)"
    and lt: "lt (xs ! j) (xs ! i)"
  shows "broken_at j n (swap i j xs)"
proof -
  have len: "i < length xs" "j < length xs" "i < j" "i < n" using assms by auto
  have pj: "(j - 1) div 2 = i" using assms(4) by auto
  have child: "k = 2 * p + 1 \<or> k = 2 * p + 2" if "0 < k" "(k - 1) div 2 = p" for k p :: nat
    using that by presburger
  have 1: "\<not> lt (swap i j xs ! k) (swap i j xs ! ((k - 1) div 2))"
    if k: "0 < k" "k < n" "(k - 1) div 2 \<noteq> j" for k
  proof -
    consider "k = i" | "k = j" | "k \<noteq> j" "(k - 1) div 2 = i" | "k \<noteq> i" "k \<noteq> j" "(k - 1) div 2 \<noteq> i"
      by blast
    then show ?thesis
    proof cases
      case 1
      then have "\<not> lt (xs ! j) (xs ! ((i - 1) div 2))"
        using b assms(3,4) k pj unfolding broken_at_def by auto
      moreover have "(i - 1) div 2 \<noteq> i" "(i - 1) div 2 \<noteq> j" using 1 k len by auto
      ultimately show ?thesis using 1 len by (simp add: nth_swap)
    next
      case 2
      then show ?thesis using len pj asym [OF lt] by (simp add: nth_swap)
    next
      case 3
      then have "\<not> lt (xs ! k) (xs ! j)" using sel child k by blast
      moreover have "k \<noteq> i" using 3(2) k(1) by auto
      ultimately show ?thesis using 3 len by (simp add: nth_swap)
    next
      case 4
      then have "\<not> lt (xs ! k) (xs ! ((k - 1) div 2))" using b k unfolding broken_at_def by blast
      then show ?thesis using 4 k len by (simp add: nth_swap)
    qed
  qed
  have 2: "\<not> lt (swap i j xs ! k) (swap i j xs ! ((j - 1) div 2))"
    if k: "0 < k" "k < n" "(k - 1) div 2 = j" for k
  proof -
    have "k \<noteq> j" "k \<noteq> i" using k len by auto
    moreover have "\<not> lt (xs ! k) (xs ! j)"
      using b k pj len unfolding broken_at_def by (metis less_irrefl)
    ultimately show ?thesis using len pj by (simp add: nth_swap)
  qed
  show ?thesis using 1 2 unfolding broken_at_def by blast
qed

lemma heap_down_heap:
  assumes "i < n" "n \<le> length xs" "broken_at i n xs"
  shows "heap_upto n (fst (heap_down lt i n xs))"
  using assms
proof (induction "n - i" arbitrary: i xs rule: less_induct)
  case less
  define j1 where "j1 = 2 * i + 1"
  define j where "j = (if j1 + 1 < n \<and> lt (xs ! (j1 + 1)) (xs ! j1) then j1 + 1 else j1)"
  have sel: "\<not> lt (xs ! k) (xs ! j)" if "k < n" "k = 2 * i + 1 \<or> k = 2 * i + 2" for k
    using that asym by (auto simp: j_def j1_def)
  show ?case
  proof (cases "j1 \<ge> n \<or> \<not> lt (xs ! j) (xs ! i)")
    case True
    then have eq: "heap_down lt i n xs = (xs, i)"
      by (subst heap_down.simps) (auto simp: Let_def j1_def j_def)
    have "\<not> lt (xs ! k) (xs ! i)" if "0 < k" "k < n" "(k - 1) div 2 = i" for k
    proof -
      have k: "k = 2 * i + 1 \<or> k = 2 * i + 2" using that by presburger
      with that True have "\<not> lt (xs ! j) (xs ! i)" by (auto simp: j1_def)
      then show ?thesis using sel [OF that(2) k] le_trans by blast
    qed
    then show ?thesis using less.prems(3) unfolding eq heap_upto_def broken_at_def by auto
  next
    case False
    then have eq: "heap_down lt i n xs = heap_down lt j n (swap i j xs)"
      by (subst heap_down.simps) (auto simp: Let_def j1_def j_def)
    have j: "j < n" "j = 2 * i + 1 \<or> j = 2 * i + 2" using False by (auto simp: j_def j1_def)
    have "broken_at j n (swap i j xs)"
      using broken_at_swap [OF less.prems(3,2) j sel] False by blast
    then show ?thesis unfolding eq using less.hyps [of j "swap i j xs"] j less.prems by auto
  qed
qed

lemma raised_at_swap:
  assumes r: "raised_at j n xs" and "n \<le> length xs" "j < n" "0 < j" and i: "i = (j - 1) div 2"
    and lt: "lt (xs ! j) (xs ! i)"
  shows "raised_at i n (swap i j xs)"
proof -
  have len: "i < length xs" "j < length xs" "i < j" "i < n" using assms by auto
  have edge: "\<not> lt (xs ! k) (xs ! ((k - 1) div 2))" if "0 < k" "k < n" "k \<noteq> j" for k
    using r that unfolding raised_at_def by blast
  have 1: "\<not> lt (swap i j xs ! k) (swap i j xs ! ((k - 1) div 2))"
    if k: "0 < k" "k < n" "k \<noteq> i" for k
  proof -
    consider "k = j" | "k \<noteq> j" "(k - 1) div 2 = i" | "k \<noteq> j" "(k - 1) div 2 = j"
      | "k \<noteq> j" "(k - 1) div 2 \<noteq> i" "(k - 1) div 2 \<noteq> j" by blast
    then show ?thesis
    proof cases
      case 1
      then show ?thesis using len i asym [OF lt] by (simp add: nth_swap)
    next
      case 2
      then have "\<not> lt (xs ! k) (xs ! j)" using le_trans [OF asym [OF lt]] edge k by metis
      then show ?thesis using 2 k len by (simp add: nth_swap)
    next
      case 3
      then have "\<not> lt (xs ! k) (xs ! i)" using r k assms(4) i unfolding raised_at_def by blast
      then show ?thesis using 3 k len by (simp add: nth_swap)
    next
      case 4
      then show ?thesis using edge k len by (simp add: nth_swap)
    qed
  qed
  have 2: "\<not> lt (swap i j xs ! k) (swap i j xs ! ((i - 1) div 2))"
    if k: "0 < k" "k < n" "(k - 1) div 2 = i" "0 < i" for k
  proof -
    have pi: "\<not> lt (xs ! i) (xs ! ((i - 1) div 2))" using edge len k(4) by blast
    have "(i - 1) div 2 \<noteq> i" "(i - 1) div 2 \<noteq> j" "k \<noteq> i" using k len by auto
    moreover have "k \<noteq> j \<Longrightarrow> \<not> lt (xs ! k) (xs ! ((i - 1) div 2))"
      using le_trans [OF pi] edge [OF k(1,2)] k(3) by metis
    ultimately show ?thesis using pi len by (simp add: nth_swap)
  qed
  show ?thesis using 1 2 unfolding raised_at_def by blast
qed

lemma heap_up_heap:
  assumes "j < n" "n \<le> length xs" "raised_at j n xs"
  shows "heap_upto n (heap_up lt j xs)"
  using assms
proof (induction j arbitrary: xs rule: less_induct)
  case (less j)
  define i where "i = (j - 1) div 2"
  show ?case
  proof (cases "i = j \<or> \<not> lt (xs ! j) (xs ! i)")
    case True
    then have eq: "heap_up lt j xs = xs" by (subst heap_up.simps) (auto simp: Let_def i_def)
    have "j = 0 \<or> \<not> lt (xs ! j) (xs ! i)" using True by (auto simp: i_def)
    then show ?thesis using less.prems(3) unfolding eq heap_upto_def raised_at_def i_def by auto
  next
    case False
    then have eq: "heap_up lt j xs = heap_up lt i (swap i j xs)"
      by (subst heap_up.simps) (auto simp: Let_def i_def)
    have "0 < j" "i < j" using False by (auto simp: i_def)
    then show ?thesis
      unfolding eq using less.IH [of i "swap i j xs"] raised_at_swap [OF less.prems(3,2,1) _ i_def] False
        less.prems by auto
  qed
qed

abbreviation is_heap :: "'a list \<Rightarrow> bool" where
  "is_heap xs \<equiv> heap_upto (length xs) xs"

lemma heap_Push_correct:
  assumes "is_heap xs"
  shows "is_heap (heap_Push lt x xs) \<and> mset (heap_Push lt x xs) = add_mset x (mset xs)"
proof -
  let ?ys = "xs @ [x]"
  have m: "mset (heap_up lt (length xs) ?ys) = mset ?ys" by (rule heap_up_mset) simp
  have "raised_at (length xs) (length ?ys) ?ys"
    unfolding raised_at_def
  proof (intro conjI allI impI)
    fix j assume "0 < j" "j < length ?ys" "j \<noteq> length xs"
    then have "j < length xs" "(j - 1) div 2 < length xs" by auto
    then show "\<not> lt (?ys ! j) (?ys ! ((j - 1) div 2))"
      using assms \<open>0 < j\<close> by (simp add: nth_append heap_upto_def)
  next
    fix j assume "0 < j" "j < length ?ys" "(j - 1) div 2 = length xs"
    then show "\<not> lt (?ys ! j) (?ys ! ((length xs - 1) div 2))" by auto
  qed
  from heap_up_heap [OF _ _ this] show ?thesis
    unfolding heap_Push_def using m by (metis length_append_singleton lessI mset_append mset_single_iff_right
        mset_eq_length order_refl add_mset_add_single mset.simps(1,2))
qed

lemma broken_root:
  assumes "heap_upto m xs" "n \<le> m" "\<And>j. 0 < j \<Longrightarrow> j < n \<Longrightarrow> ys ! j = xs ! j"
  shows "broken_at 0 n ys"
  unfolding broken_at_def
proof (intro conjI allI impI)
  fix j assume j: "0 < j" "j < n" "(j - 1) div 2 \<noteq> 0"
  then have "0 < (j - 1) div 2" "(j - 1) div 2 < n" by auto
  then show "\<not> lt (ys ! j) (ys ! ((j - 1) div 2))"
    using assms j unfolding heap_upto_def by auto
qed simp

lemma heap_Pop_correct:
  assumes "is_heap xs" "xs \<noteq> []"
  shows "fst (heap_Pop lt xs) = hd xs \<and> is_heap (snd (heap_Pop lt xs)) \<and>
    mset xs = add_mset (hd xs) (mset (snd (heap_Pop lt xs))) \<and>
    length (snd (heap_Pop lt xs)) = length xs - 1"
proof -
  define n where "n = length xs - 1"
  define zs where "zs = swap 0 n xs"
  define ys where "ys = fst (heap_down lt 0 n zs)"
  have n: "n < length xs" "length zs = Suc n" using assms(2) by (auto simp: n_def zs_def)
  have mz: "mset zs = mset xs" and lz: "zs ! n = hd xs"
    using n assms(2) by (auto simp: zs_def nth_swap hd_conv_nth)
  have ys: "mset ys = mset zs \<and> drop n ys = drop n zs \<and> heap_upto n ys"
  proof (cases "n = 0")
    case True
    then have "heap_down lt 0 n zs = (zs, 0)" by (subst heap_down.simps) simp
    then show ?thesis using True by (simp add: ys_def heap_upto_def)
  next
    case False
    have "broken_at 0 n zs"
      using broken_root [OF assms(1), of n zs] n by (simp add: zs_def nth_swap)
    then show ?thesis
      using heap_down_mset [of 0 n zs lt] heap_down_heap [of 0 n zs] False n by (simp add: ys_def)
  qed
  have len: "length ys = Suc n" using ys n by (metis mset_eq_length)
  have "drop n zs = [hd xs]" using n lz by (simp add: Cons_nth_drop_Suc [symmetric])
  with ys have y: "ys = butlast ys @ [hd xs]"
    using len by (metis append_butlast_last_id append_take_drop_id butlast_conv_take diff_Suc_1)
  have pop: "heap_Pop lt xs = (last ys, butlast ys)"
    by (simp add: heap_Pop_def Let_def ys_def zs_def n_def)
  have "heap_upto n (butlast ys)"
    using ys len unfolding heap_upto_def by (auto simp: nth_butlast)
  moreover have "mset xs = add_mset (hd xs) (mset (butlast ys))"
    using ys mz y by (metis add_mset_add_single mset.simps mset_append union_commute add_mset_commute empty_neutral(1) union_mset_add_mset_right)
  moreover have "last ys = hd xs" using y by (metis last_snoc)
  ultimately show ?thesis using len pop by (simp add: n_def)
qed

lemma heap_Fix_root:
  assumes "is_heap xs" "xs \<noteq> []"
  shows "is_heap (heap_Fix lt 0 (xs[0 := x])) \<and>
    add_mset (hd xs) (mset (heap_Fix lt 0 (xs[0 := x]))) = add_mset x (mset xs)"
proof -
  let ?ys = "xs[0 := x]"
  have len: "0 < length xs" using assms(2) by simp
  have b: "broken_at 0 (length ?ys) ?ys" using broken_root [OF assms(1), of "length xs" ?ys] by simp
  have up: "heap_up lt 0 zs = zs" for zs by (subst heap_up.simps) simp
  have fx: "heap_Fix lt 0 ?ys = fst (heap_down lt 0 (length ?ys) ?ys)"
    by (simp add: heap_Fix_def up split: prod.split)
  have m: "mset (heap_Fix lt 0 ?ys) = mset ?ys"
    using heap_down_mset [of 0 "length ?ys" ?ys lt] len by (simp add: fx)
  then have "length (heap_Fix lt 0 ?ys) = length ?ys" by (metis mset_eq_length)
  moreover have "heap_upto (length ?ys) (heap_Fix lt 0 ?ys)"
    using heap_down_heap [of 0 "length ?ys" ?ys] b len by (simp add: fx)
  moreover have "add_mset (hd xs) (mset ?ys) = add_mset x (mset xs)"
    using assms(2) by (cases xs) auto
  ultimately show ?thesis using m by simp
qed

lemma root_is_least:
  assumes "is_heap xs" "y \<in> set xs"
  shows "\<not> lt y (hd xs)"
proof -
  obtain j where j: "j < length xs" "y = xs ! j" using assms(2) by (metis in_set_conv_nth)
  moreover have "hd xs = xs ! 0" using assms(2) by (intro hd_conv_nth) auto
  ultimately show ?thesis using root_least [OF assms(1)] by simp
qed

end

end
