(* ===== verification/Flat_Index.thy ===== *)
theory Flat_Index
  imports Distance Index_Contract Go_Heap
begin

section \<open>The flat index\<close>

text \<open>
  Models \<open>internal/index/flat\<close>: the contiguous storage of \<open>flat.go\<close> (insert with doubling growth,
  swap-with-last deletion, exact search in chunks) and the bounded max-heap \<open>TopK\<close> of \<open>heap.go\<close>.
  The slices are lists of the same length, \<open>idToRow\<close> is a map; every slice expression keeps its
  bounds check. Pooled buffers are arguments: their stale contents are arbitrary. \<open>ctx.Err()\<close> is a
  function of how often it was asked. Numbers are as in theory \<open>Distance\<close>.
\<close>

record 'f SearchResult =
  ID :: u64
  Distance :: 'f
  Score :: 'f

record 'f FlatIndex =
  fi_dim :: nat
  fi_metric :: string
  capacity :: nat
  count :: nat
  vectors :: "'f list"
  ids :: "u64 list"
  idToRow :: "u64 \<rightharpoonup> nat"

definition defaultInitialCapacity :: nat where
  "defaultInitialCapacity = 1024"

definition NewFlatIndex :: "int \<Rightarrow> string \<Rightarrow> error + 'f::zero FlatIndex" where
  "NewFlatIndex d metric =
     (if d \<le> 0 then Inl (Newf ErrDimensionMismatch)
      else case GetDistanceFunc metric of
        None \<Rightarrow> Inl (OtherError ''distance: unknown metric'' None)
      | Some _ \<Rightarrow> Inr \<lparr>fi_dim = nat d, fi_metric = metric,
          capacity = defaultInitialCapacity, count = 0,
          vectors = replicate (defaultInitialCapacity * nat d) 0,
          ids = replicate defaultInitialCapacity 0, idToRow = Map.empty\<rparr>)"

subsection \<open>Updates\<close>

definition grow :: "'f::zero FlatIndex \<Rightarrow> 'f FlatIndex go" where
  "grow idx =
     (let newCap = (if capacity idx * 2 = 0 then defaultInitialCapacity else capacity idx * 2) in
      go_bind (slice (vectors idx) 0 (count idx * fi_dim idx)) (\<lambda>old.
      go_bind (copy_into (replicate (newCap * fi_dim idx) 0) 0 (newCap * fi_dim idx) old) (\<lambda>newVec.
      go_bind (slice (ids idx) 0 (count idx)) (\<lambda>oldIDs.
      go_bind (copy_into (replicate newCap 0) 0 newCap oldIDs) (\<lambda>newIDs.
        Inr (idx\<lparr>vectors := newVec, ids := newIDs, capacity := newCap\<rparr>))))))"

definition Insert :: "u64 \<Rightarrow> 'f list \<Rightarrow> 'f::zero FlatIndex \<Rightarrow> ('f FlatIndex \<times> error option) go" where
  "Insert i v idx =
     (if length v \<noteq> fi_dim idx then Inr (idx, Some (Newf ErrDimensionMismatch))
      else if i \<in> dom (idToRow idx) then Inr (idx, Some (Newf ErrDuplicateID))
      else go_bind (if count idx \<ge> capacity idx then grow idx else Inr idx) (\<lambda>idx.
        let row = count idx in
        go_bind (copy_into (vectors idx) (row * fi_dim idx) ((row + 1) * fi_dim idx) v) (\<lambda>vs.
        go_bind (put_at (ids idx) row i) (\<lambda>is.
          Inr (idx\<lparr>vectors := vs, ids := is, idToRow := (idToRow idx)(i \<mapsto> row), count := row + 1\<rparr>, None)))))"

definition Delete :: "u64 \<Rightarrow> 'f FlatIndex \<Rightarrow> ('f FlatIndex \<times> error option) go" where
  "Delete i idx =
     (case idToRow idx i of None \<Rightarrow> Inr (idx, Some (Newf ErrVectorNotFound))
      | Some row \<Rightarrow>
          let lastRow = count idx - 1; d = fi_dim idx in
          go_bind (if row \<noteq> lastRow then
              go_bind (slice (vectors idx) (lastRow * d) ((lastRow + 1) * d)) (\<lambda>lastVec.
              go_bind (copy_into (vectors idx) (row * d) ((row + 1) * d) lastVec) (\<lambda>vs.
              go_bind (get_at (ids idx) lastRow) (\<lambda>lastID.
              go_bind (put_at (ids idx) row lastID) (\<lambda>is.
                Inr (idx\<lparr>vectors := vs, ids := is, idToRow := (idToRow idx)(lastID \<mapsto> row)\<rparr>)))))
            else Inr idx) (\<lambda>idx.
          Inr (idx\<lparr>idToRow := (idToRow idx)(i := None), count := count idx - 1\<rparr>, None)))"

definition Len :: "'f FlatIndex \<Rightarrow> nat" where
  "Len idx = count idx"

subsection \<open>Reads\<close>

definition GetVector :: "u64 \<Rightarrow> 'f FlatIndex \<Rightarrow> 'f list option go" where
  "GetVector i idx =
     (case idToRow idx i of None \<Rightarrow> Inr None
      | Some row \<Rightarrow> go_bind (slice (vectors idx) (row * fi_dim idx) ((row + 1) * fi_dim idx)) (\<lambda>v. Inr (Some v)))"

definition AllVectors :: "'f FlatIndex \<Rightarrow> (u64 list \<times> 'f list \<times> nat) go" where
  "AllVectors idx =
     go_bind (slice (ids idx) 0 (count idx)) (\<lambda>is.
     go_bind (slice (vectors idx) 0 (count idx * fi_dim idx)) (\<lambda>vs. Inr (is, vs, count idx)))"

fun ExportVectors :: "u64 list \<Rightarrow> 'f FlatIndex \<Rightarrow> (u64 \<times> 'f list) list go" where
  \<comment> \<open>the first argument is the iteration order of \<open>idToRow\<close>\<close>
  "ExportVectors [] idx = Inr []"
| "ExportVectors (i # order) idx =
     (let row = map_get 0 (idToRow idx) i; start = row * fi_dim idx in
      go_bind (slice (vectors idx) start (start + fi_dim idx)) (\<lambda>vec.
      go_bind (ExportVectors order idx) (\<lambda>rest. Inr ((i, vec) # rest))))"

subsection \<open>Search\<close>

definition far :: "'f::ord SearchResult \<Rightarrow> 'f SearchResult \<Rightarrow> bool" where
  \<comment> \<open>\<open>distHeap.Less\<close>: worst first\<close>
  "far a b \<longleftrightarrow> Distance a > Distance b"

definition result_of :: "u64 \<Rightarrow> 'f::zero \<Rightarrow> 'f SearchResult" where
  "result_of i d = \<lparr>ID = i, Distance = d, Score = 0\<rparr>"

fun topk_loop ::
  "u64 list \<Rightarrow> nat \<Rightarrow> nat \<Rightarrow> 'f::{zero,ord} list \<Rightarrow> 'f SearchResult list \<Rightarrow> 'f SearchResult list go" where
  \<comment> \<open>\<open>for i, d := range distances\<close>, from index \<open>i\<close> on\<close>
  "topk_loop is k i [] h = Inr h"
| "topk_loop is k i (d # ds) h =
     go_bind
       (if length h < k then go_bind (get_at is i) (\<lambda>x. Inr (heap_Push far (result_of x d) h))
        else go_bind (get_at h 0) (\<lambda>root.
          if d < Distance root
          then go_bind (get_at is i) (\<lambda>x. Inr (heap_Fix far 0 (h[0 := result_of x d])))
          else Inr h))
       (\<lambda>h. topk_loop is k (i + 1) ds h)"

fun drain :: "nat \<Rightarrow> 'f::ord SearchResult list \<Rightarrow> 'f SearchResult list \<Rightarrow> 'f SearchResult list" where
  \<comment> \<open>\<open>result[i] = heap.Pop(hp)\<close> for \<open>i\<close> from the last index down\<close>
  "drain 0 h acc = acc"
| "drain (Suc n) h acc = (case heap_Pop far h of (x, h') \<Rightarrow> drain n h' (x # acc))"

definition TopK :: "'f::{zero,ord} list \<Rightarrow> u64 list \<Rightarrow> int \<Rightarrow> 'f SearchResult list go" where
  "TopK distances is k =
     (if k \<le> 0 then Inr []
      else go_bind (topk_loop is (nat k) 0 distances []) (\<lambda>h. Inr (drain (length h) h [])))"

definition chunkSize :: nat where
  "chunkSize = 10000"

function search_chunks ::
  "'f platform \<Rightarrow> (nat \<Rightarrow> error option) \<Rightarrow> 'f::{zero,one,plus,minus,times,inverse,uminus,abs,ord} list \<Rightarrow>
    'f FlatIndex \<Rightarrow> nat \<Rightarrow> nat \<Rightarrow> nat \<Rightarrow> 'f list \<Rightarrow> (error + 'f list) go" where
  "search_chunks p ctx query idx n start c distances =
     (if start < n then
        (let e = min (start + chunkSize) n in
         case ctx c of Some err \<Rightarrow> Inr (Inl err)
         | None \<Rightarrow>
             go_bind (slice (vectors idx) (start * fi_dim idx) (length (vectors idx))) (\<lambda>m.
             go_bind (BatchDistance p query m (e - start) (fi_dim idx) (fi_metric idx) (drop start distances))
               (\<lambda>seg. search_chunks p ctx query idx n (start + chunkSize) (c + 1) (take start distances @ seg))))
      else Inr (Inr distances))"
  by pat_completeness auto
termination
  by (relation "measure (\<lambda>(p, ctx, query, idx, n, start, _). n - start)") (auto simp: chunkSize_def)

declare search_chunks.simps [simp del]

definition Search ::
  "'f platform \<Rightarrow> (nat \<Rightarrow> error option) \<Rightarrow> 'f list \<Rightarrow> 'f::{zero,one,plus,minus,times,inverse,uminus,abs,ord} list \<Rightarrow>
    int \<Rightarrow> 'f FlatIndex \<Rightarrow> (error + 'f SearchResult list) go" where
  \<comment> \<open>the third argument is the pooled distance buffer\<close>
  "Search p ctx buf query k idx =
     (if length query \<noteq> fi_dim idx then Inr (Inl (Newf ErrDimensionMismatch))
      else if k \<le> 0 then Inr (Inr [])
      else let n = count idx in
        if n = 0 then Inr (Inr [])
        else let distances = (if length buf < n then replicate n 0 else take n buf) in
          go_bind (slice (ids idx) 0 n) (\<lambda>liveIDs.
          go_bind (search_chunks p ctx query idx n 0 0 distances) (\<lambda>r.
            case r of Inl err \<Rightarrow> Inr (Inl err)
            | Inr distances \<Rightarrow>
                go_bind (TopK distances liveIDs k) (\<lambda>results.
                  Inr (Inr (map (\<lambda>r. r\<lparr>Score := ScoreFromDistance (rt32 p) (Distance r) (fi_metric idx)\<rparr>) results))))))"

subsection \<open>Invariant and abstraction\<close>

definition fi_inv :: "'f FlatIndex \<Rightarrow> bool" where
  "fi_inv idx \<longleftrightarrow> 0 < fi_dim idx \<and> length (vectors idx) = capacity idx * fi_dim idx \<and>
     length (ids idx) = capacity idx \<and> count idx \<le> capacity idx \<and>
     (\<forall>r < count idx. idToRow idx (ids idx ! r) = Some r) \<and>
     (\<forall>i r. idToRow idx i = Some r \<longrightarrow> r < count idx \<and> ids idx ! r = i)"

definition fi_vecs :: "'f FlatIndex \<Rightarrow> 'f store" where
  "fi_vecs idx = (\<lambda>i. map_option (row_of (fi_dim idx) (vectors idx)) (idToRow idx i))"

lemma fi_invD:
  assumes "fi_inv idx"
  shows "0 < fi_dim idx" "length (vectors idx) = capacity idx * fi_dim idx"
    "length (ids idx) = capacity idx" "count idx \<le> capacity idx"
    "r < count idx \<Longrightarrow> idToRow idx (ids idx ! r) = Some r"
    "idToRow idx i = Some r \<Longrightarrow> r < count idx" "idToRow idx i = Some r \<Longrightarrow> ids idx ! r = i"
  using assms unfolding fi_inv_def by blast+

lemma row_end: "r < c \<Longrightarrow> (r + 1) * d \<le> c * d" for r c d :: nat
  by (rule mult_le_mono1) simp

lemma row_end': "r < c \<Longrightarrow> d + r * d \<le> c * d" for r c d :: nat
  using row_end [of r c d] by (simp add: add.commute)

lemma row_of_append: "(r + 1) * d \<le> length xs \<Longrightarrow> row_of d (xs @ ys) r = row_of d xs r"
  by (simp add: row_of_def)

lemma row_of_take: "r < c \<Longrightarrow> row_of d (take (c * d) xs) r = row_of d xs r"
  using row_end [of r c d] by (simp add: row_of_def drop_take min_absorb1)

lemma row_of_put:
  assumes "length v = d" "(r + 1) * d \<le> length xs"
  shows "row_of d (take (r * d) xs @ v @ drop (r * d + d) xs) r' = (if r' = r then v else row_of d xs r')"
proof -
  have le: "r * d \<le> length xs" using assms(2) by simp
  consider "r' = r" | "r' < r" | "r < r'" by linarith
  then show ?thesis
  proof cases
    case 1
    then show ?thesis using le assms by (simp add: row_of_def min_absorb2)
  next
    case 2
    then have "row_of d (take (r * d) xs @ v @ drop (r * d + d) xs) r' = row_of d (take (r * d) xs) r'"
      using row_end [OF 2, of d] le by (intro row_of_append) (simp add: min_absorb2)
    with 2 show ?thesis by (simp add: row_of_take)
  next
    case 3
    have ge: "r * d + d \<le> r' * d" using row_end [OF 3, of d] by simp
    have "drop (r' * d) (take (r * d) xs @ v @ drop (r * d + d) xs) = drop (r' * d) xs"
      using ge le assms(1) 3 by (simp add: min_absorb2)
    with 3 show ?thesis by (simp add: row_of_def)
  qed
qed

lemma copy_into_row:
  assumes "length v = d" "(r + 1) * d \<le> length xs"
  shows "copy_into xs (r * d) ((r + 1) * d) v = Inr (take (r * d) xs @ v @ drop (r * d + d) xs)"
    and "length (take (r * d) xs @ v @ drop (r * d + d) xs) = length xs"
  using assms by (simp_all add: copy_into_def min_absorb1 min_absorb2)

lemma slice_row: "(r + 1) * d \<le> length xs \<Longrightarrow> slice xs (r * d) ((r + 1) * d) = Inr (row_of d xs r)"
  by (simp add: slice_def row_of_def)

lemma length_row_of [simp]: "(r + 1) * d \<le> length xs \<Longrightarrow> length (row_of d xs r) = d"
  by (simp add: row_of_def)

lemma grow_ok:
  assumes inv: "fi_inv idx"
  shows "\<exists>idx'. grow idx = Inr idx' \<and> fi_inv idx' \<and> fi_vecs idx' = fi_vecs idx \<and> count idx' < capacity idx' \<and>
    count idx' = count idx \<and> fi_dim idx' = fi_dim idx \<and> fi_metric idx' = fi_metric idx \<and> idToRow idx' = idToRow idx"
proof -
  note i = fi_invD [OF inv]
  define d where "d = fi_dim idx"
  define c where "c = count idx"
  define C where "C = (if capacity idx * 2 = 0 then defaultInitialCapacity else capacity idx * 2)"
  have C: "c < C" "c \<le> C" using i(4) by (auto simp: C_def c_def defaultInitialCapacity_def)
  have cd: "c * d \<le> C * d" "c * d \<le> length (vectors idx)"
    using C i(2,4) by (auto simp: c_def d_def intro: mult_le_mono1)
  define vs where "vs = take (c * d) (vectors idx) @ replicate (C * d - c * d) 0"
  define js where "js = take c (ids idx) @ replicate (C - c) (0 :: u64)"
  let ?idx = "idx\<lparr>vectors := vs, ids := js, capacity := C\<rparr>"
  have eq: "grow idx = Inr ?idx"
    using cd C i(3,4) unfolding grow_def C_def [symmetric] d_def [symmetric] c_def [symmetric] Let_def
    by (simp add: slice_def copy_into_def vs_def js_def Let_def min_absorb1 min_absorb2 c_def [symmetric])
  have ids: "js ! r = ids idx ! r" if "r < c" for r
    using that i(3,4) by (simp add: js_def nth_append c_def)
  have len: "length vs = C * d" "length js = C" using cd C i(3,4) by (simp_all add: vs_def js_def c_def min_absorb2)
  have rows: "row_of d vs r = row_of d (vectors idx) r" if "r < c" for r
    using that cd row_end [OF that, of d] by (simp add: vs_def row_of_append row_of_take min_absorb2)
  have "fi_inv ?idx"
    using i C len ids unfolding fi_inv_def by (auto simp: c_def d_def)
  moreover have "fi_vecs ?idx = fi_vecs idx"
    using rows i(6) by (auto simp: fi_vecs_def fun_eq_iff c_def d_def intro!: option.map_cong)
  ultimately show ?thesis using eq C by (auto simp: c_def)
qed

lemma room_ok:
  assumes "fi_inv idx"
  shows "\<exists>idx'. (if count idx \<ge> capacity idx then grow idx else Inr idx) = Inr idx' \<and> fi_inv idx' \<and>
    fi_vecs idx' = fi_vecs idx \<and> count idx' < capacity idx' \<and> count idx' = count idx \<and>
    fi_dim idx' = fi_dim idx \<and> fi_metric idx' = fi_metric idx \<and> idToRow idx' = idToRow idx"
  using grow_ok [OF assms] assms by auto

lemma dom_fi_vecs [simp]: "dom (fi_vecs idx) = dom (idToRow idx)"
  by (auto simp: fi_vecs_def)

lemma Insert_ok:
  assumes inv: "fi_inv idx"
  shows "\<exists>idx' e. Insert i v idx = Inr (idx', e) \<and> fi_inv idx' \<and> fi_dim idx' = fi_dim idx \<and>
    fi_metric idx' = fi_metric idx \<and> (fi_vecs idx', code_of e) = spec_Insert (fi_dim idx) i v (fi_vecs idx)"
proof (cases "length v \<noteq> fi_dim idx \<or> i \<in> dom (idToRow idx)")
  case True
  then show ?thesis using inv by (auto simp: Insert_def spec_Insert_def)
next
  case False
  obtain s where s: "(if count idx \<ge> capacity idx then grow idx else Inr idx) = Inr s" "fi_inv s"
    "fi_vecs s = fi_vecs idx" "count s < capacity s" "count s = count idx"
    "fi_dim s = fi_dim idx" "fi_metric s = fi_metric idx" "idToRow s = idToRow idx" using room_ok [OF inv] by blast
  define d where "d = fi_dim s"
  define row where "row = count s"
  note i = fi_invD [OF s(2)]
  have v: "length v = d" using False s(6) by (simp add: d_def)
  have le: "(row + 1) * d \<le> length (vectors s)"
    using row_end [OF s(4), of d] i(2) unfolding row_def d_def by linarith
  define vs where "vs = take (row * d) (vectors s) @ v @ drop (row * d + d) (vectors s)"
  let ?s = "s\<lparr>vectors := vs, ids := (ids s)[row := i], idToRow := (idToRow s)(i \<mapsto> row), count := row + 1\<rparr>"
  have put: "put_at (ids s) row i = Inr ((ids s)[row := i])" using s(4) i(3) by (simp add: put_at_def row_def)
  have eq: "Insert i v idx = Inr (?s, None)"
    using False copy_into_row(1) [OF v le] put
    by (simp add: Insert_def s(1) Let_def vs_def d_def row_def)
  have len: "length vs = length (vectors s)" unfolding vs_def by (rule copy_into_row(2) [OF v le])
  have fresh: "i \<notin> dom (idToRow s)" using False s(8) by simp
  then have ne: "ids s ! r \<noteq> i" if "r < count s" for r using i(5) [OF that] by auto
  have inv': "fi_inv ?s"
    using i len fresh s(4) ne unfolding fi_inv_def
    by (auto simp: row_def nth_list_update less_Suc_eq dest: i(6))
  have rows: "row_of d vs r = (if r = row then v else row_of d (vectors s) r)" for r
    unfolding vs_def by (rule row_of_put [OF v le])
  have "fi_vecs ?s = (fi_vecs idx)(i \<mapsto> v)"
    unfolding s(3) [symmetric]
    using rows by (auto simp: fi_vecs_def fun_eq_iff row_def d_def intro!: option.map_cong dest: i(6))
  then show ?thesis
    using eq inv' False s by (auto simp: spec_Insert_def)
qed

lemma Delete_ok:
  assumes inv: "fi_inv idx"
  shows "\<exists>idx' e. Delete i idx = Inr (idx', e) \<and> fi_inv idx' \<and> fi_dim idx' = fi_dim idx \<and>
    fi_metric idx' = fi_metric idx \<and> (fi_vecs idx', code_of e) = spec_Delete i (fi_vecs idx)"
proof (cases "idToRow idx i")
  case None
  then show ?thesis using inv by (auto simp: Delete_def spec_Delete_def)
next
  case (Some row)
  note i = fi_invD [OF inv]
  define d where "d = fi_dim idx"
  define l where "l = count idx - 1"
  have row: "row < count idx" "ids idx ! row = i" using i(6,7) Some by blast+
  then have c: "count idx = l + 1" "row \<le> l" by (auto simp: l_def)
  have le: "(r + 1) * d \<le> length (vectors idx)" if "r \<le> l" for r
    using row_end [of r "capacity idx" d] that c i(2,4) unfolding d_def by simp
  have spec: "spec_Delete i (fi_vecs idx) = ((fi_vecs idx)(i := None), None)"
    using Some by (auto simp: spec_Delete_def)
  have uniq: "idToRow idx x = Some r \<Longrightarrow> idToRow idx y = Some r \<Longrightarrow> x = y" for x y r
    using i(7) by metis
  show ?thesis
  proof (cases "row = l")
    case True
    let ?s = "idx\<lparr>idToRow := (idToRow idx)(i := None), count := l\<rparr>"
    have "ids idx ! r \<noteq> i" if "r < l" for r using i(5) [of r] c that Some True by auto
    moreover have "r < l" if "idToRow idx x = Some r" "x \<noteq> i" for x r
      using i(6) [OF that(1)] uniq [OF that(1), of i] that(2) Some True c by (cases "r = l") auto
    ultimately have "fi_inv ?s"
      using i c row unfolding fi_inv_def by auto
    moreover have "Delete i idx = Inr (?s, None)"
      using Some True by (simp add: Delete_def Let_def l_def)
    moreover have "fi_vecs ?s = (fi_vecs idx)(i := None)" by (auto simp: fi_vecs_def)
    ultimately show ?thesis using spec by auto
  next
    case False
    define lid where "lid = ids idx ! l"
    have lid: "idToRow idx lid = Some l" using i(5) c by (simp add: lid_def)
    then have ne: "lid \<noteq> i" using Some False by auto
    define v where "v = row_of d (vectors idx) l"
    have v: "length v = d" using le [of l] by (simp add: v_def)
    define vs where "vs = take (row * d) (vectors idx) @ v @ drop (row * d + d) (vectors idx)"
    let ?s = "idx\<lparr>vectors := vs, ids := (ids idx)[row := lid],
        idToRow := ((idToRow idx)(lid \<mapsto> row))(i := None), count := l\<rparr>"
    have "slice (vectors idx) (l * d) ((l + 1) * d) = Inr v"
      unfolding v_def by (rule slice_row) (rule le, simp)
    moreover have "copy_into (vectors idx) (row * d) ((row + 1) * d) v = Inr vs"
      unfolding vs_def by (rule copy_into_row(1) [OF v le]) (rule c(2))
    moreover have "get_at (ids idx) l = Inr lid" "put_at (ids idx) row lid = Inr ((ids idx)[row := lid])"
      using i(3,4) c row by (auto simp: get_at_def put_at_def lid_def)
    ultimately have eq: "Delete i idx = Inr (?s, None)"
      using Some False c(1) by (simp add: Delete_def Let_def d_def)
    have len: "length vs = length (vectors idx)" unfolding vs_def by (rule copy_into_row(2) [OF v le]) (rule c(2))
    have rows: "row_of d vs r = (if r = row then v else row_of d (vectors idx) r)" for r
      unfolding vs_def by (rule row_of_put [OF v le]) (rule c(2))
    have below: "r < l" if "idToRow idx x = Some r" "x \<noteq> lid" for x r
      using i(6) [OF that(1)] uniq [OF that(1)] lid that(2) c by (cases "r = l") auto
    have "fi_inv ?s"
      unfolding fi_inv_def
    proof (intro conjI allI impI)
      fix r assume "r < count ?s"
      then show "idToRow ?s (ids ?s ! r) = Some r"
        using i(5) [of r] i(3,4) c row False ne uniq [of "ids idx ! r" l lid] lid uniq [of _ r i] Some
        by (auto simp: nth_list_update)
    next
      fix x r assume x: "idToRow ?s x = Some r"
      then have "x \<noteq> i" by auto
      show "r < count ?s" "ids ?s ! r = x"
        using x \<open>x \<noteq> i\<close> below [of x r] i(3,4,7) c row False uniq [of x row i] Some
        by (auto simp: nth_list_update split: if_splits)
    qed (use i len c in auto)
    moreover have "fi_vecs ?s = (fi_vecs idx)(i := None)"
    proof
      fix x
      have "idToRow idx x = Some r \<Longrightarrow> x \<noteq> i \<Longrightarrow> r \<noteq> row" for r using uniq [of x row i] Some by blast
      then show "fi_vecs ?s x = ((fi_vecs idx)(i := None)) x"
        using lid ne by (cases "idToRow idx x"; cases "x = lid") (simp_all add: fi_vecs_def d_def [symmetric] v_def rows)
    qed
    ultimately show ?thesis using eq spec by auto
  qed
qed

lemma count_card:
  assumes "fi_inv idx"
  shows "finite (dom (fi_vecs idx)) \<and> Len idx = card (dom (fi_vecs idx))"
proof -
  note i = fi_invD [OF assms]
  have "dom (idToRow idx) = (\<lambda>r. ids idx ! r) ` {..<count idx}"
    using i(5,6,7) by (force simp: image_iff)
  moreover have "inj_on (\<lambda>r. ids idx ! r) {..<count idx}"
    using i(5) by (metis (no_types, lifting) inj_onI lessThan_iff option.inject)
  ultimately show ?thesis by (simp add: Len_def card_image)
qed

interpretation flat: vector_index fi_inv fi_vecs fi_dim Insert Delete Len
proof unfold_locales
  fix s :: "'f::zero FlatIndex" and i v
  assume s: "fi_inv s"
  show "\<exists>s' e. Insert i v s = Inr (s', e) \<and> fi_inv s' \<and> fi_dim s' = fi_dim s \<and>
      (fi_vecs s', code_of e) = spec_Insert (fi_dim s) i v (fi_vecs s)" using Insert_ok [OF s] by metis
  show "\<exists>s' e. Delete i s = Inr (s', e) \<and> fi_inv s' \<and> fi_dim s' = fi_dim s \<and>
      (fi_vecs s', code_of e) = spec_Delete i (fi_vecs s)" using Delete_ok [OF s] by metis
  show "finite (dom (fi_vecs s)) \<and> Len s = card (dom (fi_vecs s))" by (rule count_card [OF s])
qed

subsection \<open>Top-K selection\<close>

interpretation dist: heap_order "far :: 'f::linorder SearchResult \<Rightarrow> 'f SearchResult \<Rightarrow> bool"
  by unfold_locales (auto simp: far_def)

text \<open>\<open>selects k h S\<close>: \<open>h\<close> holds \<open>k\<close> of the candidates \<open>S\<close> (all, if there are fewer) and none that was
  left out is closer than one that was kept.\<close>

definition selects :: "nat \<Rightarrow> 'f::linorder SearchResult list \<Rightarrow> 'f SearchResult multiset \<Rightarrow> bool" where
  "selects k h S \<longleftrightarrow> length h = min k (size S) \<and>
     (\<exists>rest. S = mset h + rest \<and> (\<forall>x \<in> set h. \<forall>y \<in># rest. Distance x \<le> Distance y))"

lemma selects_full:
  assumes h: "dist.is_heap h" "h \<noteq> []" and s: "selects (length h) h S"
    and out: "\<not> Distance x < Distance (hd h)"
  shows "selects (length h) h (add_mset x S)"
proof -
  obtain rest where r: "S = mset h + rest" "\<forall>a \<in> set h. \<forall>y \<in># rest. Distance a \<le> Distance y"
    "length h \<le> size S"
    using s unfolding selects_def by auto
  have "Distance a \<le> Distance x" if "a \<in> set h" for a
    using dist.root_is_least [OF h(1) that] out by (auto simp: far_def)
  then show ?thesis using r unfolding selects_def by (intro conjI exI [of _ "add_mset x rest"]) auto
qed

lemma selects_replace:
  assumes h: "dist.is_heap h" "h \<noteq> []" and s: "selects (length h) h S"
    and near: "Distance x < Distance (hd h)" and h': "add_mset (hd h) (mset h') = add_mset x (mset h)"
  shows "selects (length h) h' (add_mset x S)"
proof -
  obtain rest where r: "S = mset h + rest" "\<forall>a \<in> set h. \<forall>y \<in># rest. Distance a \<le> Distance y"
    "length h \<le> size S"
    using s unfolding selects_def by auto
  have le: "Distance a \<le> Distance (hd h)" if "a \<in> set h" for a
    using dist.root_is_least [OF h(1) that] by (auto simp: far_def)
  have mem: "a \<in> set h' \<Longrightarrow> a = x \<or> a \<in> set h" for a
    using h' by (metis insertCI set_mset_add_mset_insert set_mset_mset insertE)
  have "Distance a \<le> Distance y" if "a \<in> set h'" "y \<in># add_mset (hd h) rest" for a y
  proof -
    have "Distance (hd h) \<le> Distance y" "Distance a \<le> Distance (hd h)" if "y \<in># rest"
      using that r(2) h(2) hd_in_set le mem [OF \<open>a \<in> set h'\<close>] near by (auto intro: less_imp_le)
    then show ?thesis using mem [OF that(1)] that(2) le near by (auto intro: less_imp_le order_trans)
  qed
  moreover have "add_mset x S = mset h' + add_mset (hd h) rest"
    using h' r(1) by (simp flip: union_mset_add_mset_left)
  moreover have "length h' = length h" using arg_cong [OF h', of size] by simp
  ultimately show ?thesis using r(3) unfolding selects_def by (intro conjI exI [of _ "add_mset (hd h) rest"]) auto
qed

lemma selects_push:
  assumes "selects k h S" "length h < k" "mset h' = add_mset x (mset h)"
  shows "selects k h' (add_mset x S)"
proof -
  obtain rest where r: "S = mset h + rest" using assms(1) unfolding selects_def by blast
  have len: "length h = size S" using assms(1,2) by (auto simp: selects_def min_def split: if_splits)
  then have "rest = {#}" using arg_cong [OF r, of size] by simp
  with r len have "S = mset h" "length h = size S" by auto
  then show ?thesis
    using assms(2) arg_cong [OF assms(3), of size, simplified] unfolding selects_def
    by (intro conjI exI [of _ "{#}"]) (simp_all add: assms(3))
qed

lemma topk_loop_selects:
  fixes ds :: "'f::{linorder,zero} list"
  assumes "0 < k" "dist.is_heap h" "selects k h S" "i + length ds \<le> length xs"
  shows "\<exists>h'. topk_loop xs k i ds h = Inr h' \<and> dist.is_heap h' \<and>
    selects k h' (S + mset (map2 result_of (drop i xs) ds))"
  using assms(2-4)
proof (induction ds arbitrary: i h S)
  case Nil
  then show ?case by simp
next
  case (Cons d ds)
  let ?x = "result_of (xs ! i) d"
  have i: "i < length xs" "get_at xs i = Inr (xs ! i)" using Cons.prems(3) by (auto simp: get_at_def)
  obtain h1 where h1: "topk_loop xs k i (d # ds) h = topk_loop xs k (i + 1) ds h1"
    "dist.is_heap h1" "selects k h1 (add_mset ?x S)"
  proof (cases "length h < k")
    case True
    show ?thesis
      using dist.heap_Push_correct [OF Cons.prems(1), of ?x] True i(2)
      by (intro that [of "heap_Push far ?x h"]) (auto intro: selects_push [OF Cons.prems(2)])
  next
    case False
    then have k: "k = length h" "h \<noteq> []" using Cons.prems(2) assms(1) by (auto simp: selects_def)
    then have root: "get_at h 0 = Inr (hd h)" by (simp add: get_at_def hd_conv_nth)
    note sel = Cons.prems(2) [unfolded k(1)]
    show ?thesis
    proof (cases "d < Distance (hd h)")
      case True
      then have near: "Distance ?x < Distance (hd h)" by (simp add: result_of_def)
      note fx = dist.heap_Fix_root [OF Cons.prems(1) k(2), of ?x]
      have "selects k (heap_Fix far 0 (h[0 := ?x])) (add_mset ?x S)"
        unfolding k(1) by (rule selects_replace [OF Cons.prems(1) k(2) sel near]) (use fx in blast)
      with fx True False root i(2) show ?thesis by (intro that) auto
    next
      case far: False
      then have "\<not> Distance ?x < Distance (hd h)" by (simp add: result_of_def)
      from selects_full [OF Cons.prems(1) k(2) sel this] Cons.prems(1) k(1) far False root
      show ?thesis by (intro that) auto
    qed
  qed
  have "drop i xs = xs ! i # drop (i + 1) xs" using i(1) by (simp add: Cons_nth_drop_Suc)
  then show ?case using Cons.IH [OF h1(2,3), of "i + 1"] Cons.prems(3) h1(1) by auto
qed

lemma drain_sorted:
  fixes h :: "'f::linorder SearchResult list"
  assumes "dist.is_heap h" "n = length h" "sorted (map Distance acc)"
    "\<forall>x \<in> set h. \<forall>y \<in> set acc. Distance x \<le> Distance y"
  shows "sorted (map Distance (drain n h acc)) \<and> mset (drain n h acc) = mset h + mset acc"
  using assms
proof (induction n h acc rule: drain.induct)
  case (2 n h acc)
  then have ne: "h \<noteq> []" by auto
  obtain x h' where p: "heap_Pop far h = (x, h')" by fastforce
  have x: "x = hd h" "dist.is_heap h'" "mset h = add_mset x (mset h')" "length h' = n"
    using dist.heap_Pop_correct [OF "2.prems"(1) ne] p "2.prems"(2) by auto
  have le: "Distance y \<le> Distance x" if "y \<in> set h" for y
    using dist.root_is_least [OF "2.prems"(1) that] by (simp add: far_def x(1))
  have sub: "set h = insert x (set h')" using x(3) by (metis set_mset_add_mset_insert set_mset_mset)
  have "sorted (map Distance (drain n h' (x # acc))) \<and> mset (drain n h' (x # acc)) = mset h' + mset (x # acc)"
    using "2.prems"(3,4) le sub x(4) by (intro "2.IH" [OF p [symmetric] x(2)]) auto
  then show ?case using p x(3) by simp
qed auto

lemma TopK_selects:
  fixes ds :: "'f::{linorder,zero} list"
  assumes "0 < k" "length ds \<le> length xs"
  shows "\<exists>rs. TopK ds xs k = Inr rs \<and> sorted (map Distance rs) \<and> selects (nat k) rs (mset (map2 result_of xs ds))"
proof -
  have 0: "dist.is_heap []" "selects (nat k) [] {#}" by (auto simp: dist.heap_upto_def selects_def)
  obtain h where h: "topk_loop xs (nat k) 0 ds [] = Inr h" "dist.is_heap h"
    "selects (nat k) h (mset (map2 result_of xs ds))"
    using topk_loop_selects [OF _ 0, of 0 ds xs] assms by auto
  have d: "sorted (map Distance (drain (length h) h []))" "mset (drain (length h) h []) = mset h"
    using drain_sorted [OF h(2) refl, of "[]"] by auto
  from d(2) have "set (drain (length h) h []) = set h" "length (drain (length h) h []) = length h"
    by (metis set_mset_mset, metis size_mset)
  with h d(2) have "selects (nat k) (drain (length h) h []) (mset (map2 result_of xs ds))"
    unfolding selects_def by simp
  with d(1) h(1) assms(1) show ?thesis by (auto simp: TopK_def)
qed

subsection \<open>Exact search\<close>

lemma row_of_drop: "row_of d (drop (s * d) xs) r = row_of d xs (s + r)"
  by (simp add: row_of_def add_mult_distrib add.commute)

lemma search_chunks_ok:
  fixes q :: "'f::linordered_field list"
  assumes inv: "fi_inv idx" and n: "n = count idx" and p: "kernels_agree p" "length q = fi_dim idx"
    "GetDistanceFunc (fi_metric idx) = Some f" and ctx: "\<And>c. ctx c = None"
    and st: "length ds = n"
      "take (min s n) ds = map (\<lambda>i. apply_metric (rt32 p) f q (row_of (fi_dim idx) (vectors idx) i)) [0..<min s n]"
  shows "search_chunks p ctx q idx n s c ds =
    Inr (Inr (map (\<lambda>i. apply_metric (rt32 p) f q (row_of (fi_dim idx) (vectors idx) i)) [0..<n]))"
  using st
proof (induction "n - s" arbitrary: s c ds rule: less_induct)
  case less
  note i = fi_invD [OF inv]
  let ?d = "fi_dim idx"
  let ?g = "\<lambda>i. apply_metric (rt32 p) f q (row_of ?d (vectors idx) i)"
  show ?case
  proof (cases "s < n")
    case False
    then show ?thesis using less.prems by (subst search_chunks.simps) simp
  next
    case True
    define e where "e = min (s + chunkSize) n"
    have e: "s < e" "e \<le> n" using True by (auto simp: e_def chunkSize_def)
    have sd: "s * ?d \<le> length (vectors idx)" "(e - s) * ?d \<le> length (drop (s * ?d) (vectors idx))"
    proof -
      have "e * ?d \<le> capacity idx * ?d" using e n i(4) by (intro mult_le_mono1) simp
      moreover have "s * ?d \<le> e * ?d" using e by (intro mult_le_mono1) simp
      ultimately show "s * ?d \<le> length (vectors idx)" "(e - s) * ?d \<le> length (drop (s * ?d) (vectors idx))"
        unfolding i(2) length_drop diff_mult_distrib by linarith+
    qed
    have eds: "e - s \<le> length (drop s ds)" using e less.prems(1) by simp
    define seg where "seg = map (\<lambda>r. ?g (s + r)) [0..<e - s] @ drop (e - s) (drop s ds)"
    have b: "BatchDistance p q (drop (s * ?d) (vectors idx)) (e - s) ?d (fi_metric idx) (drop s ds) = Inr seg"
      unfolding BatchDistance_rows [OF p(1,2) i(1) sd(2) eds p(3)] seg_def by (simp add: row_of_drop)
    have s: "Go_Prelude.slice (vectors idx) (s * ?d) (length (vectors idx)) = Inr (drop (s * ?d) (vectors idx))"
      using sd(1) by (simp add: slice_def)
    let ?ds = "take s ds @ seg"
    have 1: "search_chunks p ctx q idx n s c ds = search_chunks p ctx q idx n (s + chunkSize) (c + 1) ?ds"
      by (subst search_chunks.simps) (simp add: True ctx s e_def [symmetric] b Let_def)
    have len: "length ?ds = n" using less.prems(1) e True by (simp add: seg_def)
    have "[0..<e] = [0..<s] @ map (\<lambda>r. s + r) [0..<e - s]"
      using e(1) upt_add_eq_append [of 0 s "e - s"] map_add_upt [of s "e - s"] by (simp add: add.commute [of s])
    then have "take e ?ds = map ?g [0..<e]"
      using less.prems e True by (simp add: seg_def min_absorb1 min_absorb2 o_def)
    moreover have "min (s + chunkSize) n = e" by (simp add: e_def)
    ultimately show ?thesis
      unfolding 1 using True len by (intro less.hyps) (auto simp: chunkSize_def)
  qed
qed

text \<open>What an exact search promises: \<open>rs\<close> are the \<open>k\<close> nearest of the stored vectors, closest first,
  each once, with their true distances and scores.\<close>

definition exact_knn ::
  "('f \<Rightarrow> 'f) \<Rightarrow> string \<Rightarrow> 'f::linordered_field list \<Rightarrow> int \<Rightarrow> 'f store \<Rightarrow> 'f SearchResult list \<Rightarrow> bool" where
  "exact_knn rt metric q k m rs \<longleftrightarrow>
     length rs = min (nat k) (card (dom m)) \<and> distinct (map ID rs) \<and> sorted (map Distance rs) \<and>
     (\<forall>r \<in> set rs. \<exists>v. m (ID r) = Some v \<and> Distance r = apply_metric rt (the (GetDistanceFunc metric)) q v \<and>
        Score r = ScoreFromDistance rt (Distance r) metric) \<and>
     (\<forall>i v. m i = Some v \<longrightarrow> i \<notin> ID ` set rs \<longrightarrow>
        (\<forall>r \<in> set rs. Distance r \<le> apply_metric rt (the (GetDistanceFunc metric)) q v))"

lemma selects_rows:
  fixes g :: "nat \<Rightarrow> 'f::linordered_field"
  assumes sel: "selects k rs (mset (map2 result_of xs (map g [0..<n])))" and n: "length xs = n" and d: "distinct xs"
  shows "length rs = min k n" "distinct (map ID rs)" "\<forall>r \<in> set rs. \<exists>j < n. r = result_of (xs ! j) (g j)"
    "\<forall>j < n. xs ! j \<notin> ID ` set rs \<longrightarrow> (\<forall>r \<in> set rs. Distance r \<le> g j)"
proof -
  let ?S = "map2 result_of xs (map g [0..<n])"
  have eq: "?S = map (\<lambda>j. result_of (xs ! j) (g j)) [0..<n]" using n by (intro nth_equalityI) auto
  have S: "set ?S = (\<lambda>j. result_of (xs ! j) (g j)) ` {..<n}" unfolding eq by (simp add: lessThan_atLeast0)
  have IDs: "map ID ?S = xs" using n by (intro nth_equalityI) (auto simp: result_of_def)
  obtain rest where r: "mset ?S = mset rs + rest" "\<forall>x \<in> set rs. \<forall>y \<in># rest. Distance x \<le> Distance y"
    and len: "length rs = min k (size (mset ?S))" using sel unfolding selects_def by blast
  show "length rs = min k n" using len n by simp
  have "mset xs = mset (map ID rs) + image_mset ID rest"
    using arg_cong [OF r(1), of "image_mset ID"] IDs by (metis image_mset_union mset_map)
  then show "distinct (map ID rs)"
    using d by (metis distinct_append ex_mset mset_append mset_eq_imp_distinct_iff)
  have "set_mset (mset ?S) = set rs \<union> set_mset rest" unfolding r(1) by simp
  then have u: "set ?S = set rs \<union> set_mset rest" by (simp only: set_mset_mset)
  show "\<forall>r \<in> set rs. \<exists>j < n. r = result_of (xs ! j) (g j)" using u S by blast
  show "\<forall>j < n. xs ! j \<notin> ID ` set rs \<longrightarrow> (\<forall>r \<in> set rs. Distance r \<le> g j)"
  proof (intro allI impI ballI)
    fix j r assume j: "j < n" "xs ! j \<notin> ID ` set rs" "r \<in> set rs"
    define y where "y = result_of (xs ! j) (g j)"
    have id: "ID y = xs ! j" by (simp add: y_def result_of_def)
    have "y \<in> set ?S" unfolding S y_def using j(1) by (intro imageI) simp
    moreover have "y \<notin> set rs" using j(2) unfolding id [symmetric] by blast
    ultimately have "y \<in># rest" unfolding u by blast
    then have "Distance r \<le> Distance y" using r(2) j(3) by blast
    then show "Distance r \<le> g j" by (simp add: y_def result_of_def)
  qed
qed

lemma live_rows:
  assumes "fi_inv idx"
  shows "distinct (take (count idx) (ids idx))" "dom (fi_vecs idx) = set (take (count idx) (ids idx))"
    "j < count idx \<Longrightarrow> fi_vecs idx (ids idx ! j) = Some (row_of (fi_dim idx) (vectors idx) j)"
proof -
  note i = fi_invD [OF assms]
  show "distinct (take (count idx) (ids idx))"
    using i(3,4,5) by (auto simp: distinct_conv_nth) (metis option.inject)
  show "dom (fi_vecs idx) = set (take (count idx) (ids idx))"
    using i(3,4,5,6,7) by (force simp: in_set_conv_nth)
  show "j < count idx \<Longrightarrow> fi_vecs idx (ids idx ! j) = Some (row_of (fi_dim idx) (vectors idx) j)"
    using i(5) by (simp add: fi_vecs_def)
qed

lemma Search_ok:
  fixes q :: "'f::linordered_field list"
  assumes inv: "fi_inv idx" and p: "kernels_agree p" "length q = fi_dim idx"
    "GetDistanceFunc (fi_metric idx) = Some f" and k: "0 < k" and ctx: "\<And>c. ctx c = None"
  shows "\<exists>rs. Search p ctx buf q k idx = Inr (Inr rs) \<and> exact_knn (rt32 p) (fi_metric idx) q k (fi_vecs idx) rs"
proof (cases "count idx = 0")
  case True
  then have "dom (fi_vecs idx) = {}" using live_rows(2) [OF inv] by simp
  then show ?thesis using True p(2) k by (simp add: Search_def exact_knn_def)
next
  case False
  define n where "n = count idx"
  note i = fi_invD [OF inv] and l = live_rows [OF inv]
  define g where "g = (\<lambda>i. apply_metric (rt32 p) f q (row_of (fi_dim idx) (vectors idx) i))"
  define ds where "ds = (if length buf < n then replicate n 0 else take n buf)"
  have ds: "length ds = n" by (auto simp: ds_def)
  define xs where "xs = take n (ids idx)"
  have xs: "Go_Prelude.slice (ids idx) 0 n = Inr xs" "length xs = n" "distinct xs"
    using i(3,4) l(1) by (auto simp: slice_def xs_def n_def)
  have ch: "search_chunks p ctx q idx n 0 0 ds = Inr (Inr (map g [0..<n]))"
    unfolding g_def by (rule search_chunks_ok [OF inv n_def p ctx ds]) simp
  obtain rs where rs: "TopK (map g [0..<n]) xs k = Inr rs" "sorted (map Distance rs)"
    "selects (nat k) rs (mset (map2 result_of xs (map g [0..<n])))"
    using TopK_selects [of k "map g [0..<n]" xs] k xs(2) by auto
  note sel = selects_rows [OF rs(3) xs(2,3)]
  define rs' where "rs' = map (\<lambda>r. r\<lparr>Score := ScoreFromDistance (rt32 p) (Distance r) (fi_metric idx)\<rparr>) rs"
  have eq: "Search p ctx buf q k idx = Inr (Inr rs')"
    using False p(2) k unfolding Search_def Let_def n_def [symmetric] ds_def [symmetric]
    by (simp add: xs(1) ch rs(1) rs'_def)
  have m: "map ID rs' = map ID rs" "map Distance rs' = map Distance rs" "ID ` set rs' = ID ` set rs"
    by (auto simp: rs'_def image_iff)
  have v: "fi_vecs idx (xs ! j) = Some (row_of (fi_dim idx) (vectors idx) j)" if "j < n" for j
    using l(3) that by (simp add: xs_def n_def)
  have "exact_knn (rt32 p) (fi_metric idx) q k (fi_vecs idx) rs'"
    unfolding exact_knn_def
  proof (intro conjI allI impI)
    show "length rs' = min (nat k) (card (dom (fi_vecs idx)))"
      using sel(1) count_card [OF inv] by (simp add: rs'_def n_def Len_def)
    show "\<forall>r \<in> set rs'. \<exists>v. fi_vecs idx (ID r) = Some v \<and>
        Distance r = apply_metric (rt32 p) (the (GetDistanceFunc (fi_metric idx))) q v \<and>
        Score r = ScoreFromDistance (rt32 p) (Distance r) (fi_metric idx)"
      using sel(3) v unfolding p(3) by (fastforce simp: rs'_def result_of_def g_def)
  next
    fix x w assume x: "fi_vecs idx x = Some w" "x \<notin> ID ` set rs'"
    then obtain j where j: "j < n" "x = xs ! j"
      using l(2) xs(2) unfolding n_def [symmetric] xs_def [symmetric] by (metis domI in_set_conv_nth)
    have "\<forall>r \<in> set rs. Distance r \<le> g j" using sel(4) j x(2) m(3) by blast
    moreover have "g j = apply_metric (rt32 p) (the (GetDistanceFunc (fi_metric idx))) q w"
      using v [OF j(1)] x(1) j(2) p(3) by (simp add: g_def)
    ultimately show "\<forall>r \<in> set rs'. Distance r \<le> apply_metric (rt32 p) (the (GetDistanceFunc (fi_metric idx))) q w"
      by (simp add: rs'_def)
  qed (use sel(2) rs(2) m in simp_all)
  with eq show ?thesis by blast
qed

lemma NewFlatIndex_inv:
  "NewFlatIndex d metric = Inr idx \<Longrightarrow>
     fi_inv idx \<and> fi_vecs idx = Map.empty \<and> fi_dim idx = nat d \<and> 0 < d \<and> fi_metric idx = metric \<and>
     GetDistanceFunc metric \<noteq> None"
  by (auto simp: NewFlatIndex_def fi_inv_def fi_vecs_def split: if_splits option.splits)

lemma run_metric:
  "fi_inv idx \<Longrightarrow> flat.run ops idx = Inr (idx', es) \<Longrightarrow> fi_metric idx' = fi_metric idx"
proof (induction ops arbitrary: idx es)
  case (Cons x ops)
  obtain s e where s: "flat.op x idx = Inr (s, e)" "fi_inv s" "fi_metric s = fi_metric idx"
    using Insert_ok [OF Cons.prems(1)] Delete_ok [OF Cons.prems(1)] by (cases x) (metis flat.op.simps)+
  then obtain es' where "flat.run ops s = Inr (idx', es')"
    using Cons.prems(2) by (cases "flat.run ops s") auto
  then show ?case using Cons.IH s by metis
qed simp

lemma row_in_range:
  assumes "fi_inv idx" "idToRow idx i = Some r"
  shows "(r + 1) * fi_dim idx \<le> length (vectors idx)"
  using fi_invD(2,4,6) [OF assms(1)] assms(2) row_end [of r "capacity idx" "fi_dim idx"]
  by (metis less_le_trans)

lemma GetVector_ok: "fi_inv idx \<Longrightarrow> GetVector i idx = Inr (fi_vecs idx i)"
  using slice_row [OF row_in_range]
  by (cases "idToRow idx i") (fastforce simp: GetVector_def fi_vecs_def)+

text \<open>C5. The flat index implements the index interface: from \<open>NewFlatIndex\<close> on, any sequence of
  inserts and deletes runs without a panic, reports for every operation the error the interface
  documents (dimension mismatch, duplicate, not found) and stores exactly the vectors the
  specification on maps has, and \<open>Len\<close> counts them; growth and swap-with-last deletion are not
  observable.\<close>
theorem flat_refines_store:
  fixes idx :: "'f::zero FlatIndex"
  assumes "NewFlatIndex d metric = Inr idx"
  shows "\<exists>idx' es. flat.run ops idx = Inr (idx', es) \<and> fi_inv idx' \<and>
    (fi_vecs idx', es) = spec_run (nat d) ops Map.empty \<and> Len idx' = card (dom (fi_vecs idx')) \<and>
    (\<forall>i. GetVector i idx' = Inr (fi_vecs idx' i))"
proof -
  note n = NewFlatIndex_inv [OF assms]
  obtain s es where s: "flat.run ops idx = Inr (s, es)" "fi_inv s"
    "(fi_vecs s, es) = spec_run (nat d) ops Map.empty" "Len s = card (dom (fi_vecs s))"
    using flat.run_refines [of idx ops] n by auto
  with GetVector_ok [OF s(2)] show ?thesis by blast
qed

definition ex_ops :: "rat index_op list" where
  "ex_ops = [OpInsert 7 [1, 0], OpInsert 8 [0, 3], OpInsert 7 [5, 5], OpInsert 9 [2, 2], OpDelete 7, OpDelete 1,
     OpInsert 4 [1]]"

definition ex_store :: "rat store" where
  "ex_store = Map.empty(8 \<mapsto> [0, 3], 9 \<mapsto> [2, 2])"

lemma ex_spec:
  "spec_run 2 ex_ops Map.empty =
     (ex_store, [None, None, Some ErrDuplicateID, None, None, Some ErrVectorNotFound, Some ErrDimensionMismatch])"
  by (auto simp: ex_ops_def ex_store_def spec_Insert_def spec_Delete_def)

theorem flat_refines_store_witness:
  "\<exists>idx idx' es. NewFlatIndex 2 ''l2'' = Inr idx \<and> flat.run ex_ops idx = Inr (idx', es) \<and> fi_inv idx' \<and>
     (fi_vecs idx', es) = spec_run 2 ex_ops Map.empty \<and> Len idx' = card (dom (fi_vecs idx')) \<and>
     (\<forall>i. GetVector i idx' = Inr (fi_vecs idx' i))"
proof -
  have "isl (NewFlatIndex 2 ''l2'' :: error + rat FlatIndex) = False" by (simp add: NewFlatIndex_def GetDistanceFunc_def)
  then obtain idx :: "rat FlatIndex" where idx: "NewFlatIndex 2 ''l2'' = Inr idx"
    by (cases "NewFlatIndex 2 ''l2'' :: error + rat FlatIndex") auto
  then show ?thesis using flat_refines_store [OF idx, of ex_ops] by auto
qed

text \<open>C6. The flat index is the exact oracle: after any sequence of inserts and deletes on a fresh index, a
  search with a query of the right dimension, \<open>k > 0\<close> and a context that is not cancelled returns
  the \<open>k\<close> nearest stored vectors (all of them if there are fewer), each once, in ascending
  distance, with the true distance and score of each, and leaves out no closer vector; whatever the
  pooled buffer held before, in exact arithmetic and with C kernels that agree with the Go kernels.\<close>
theorem flat_search_exact:
  fixes q :: "'f::linordered_field list"
  assumes "NewFlatIndex d metric = Inr idx" "kernels_agree p" "length q = nat d" "0 < k" "\<And>c. ctx c = None"
  shows "\<exists>idx' es rs. flat.run ops idx = Inr (idx', es) \<and> Search p ctx buf q k idx' = Inr (Inr rs) \<and>
    exact_knn (rt32 p) metric q k (fst (spec_run (nat d) ops Map.empty)) rs"
proof -
  note n = NewFlatIndex_inv [OF assms(1)]
  obtain s es where s: "flat.run ops idx = Inr (s, es)" "fi_inv s" "fi_dim s = nat d"
    "(fi_vecs s, es) = spec_run (nat d) ops Map.empty"
    using flat.run_refines [of idx ops] n by auto
  have m: "fi_metric s = metric" using run_metric s(1) n by metis
  then obtain f where "GetDistanceFunc (fi_metric s) = Some f" using n by auto
  from Search_ok [OF s(2) assms(2) _ this assms(4), where ctx = ctx and q = q and buf = buf] obtain rs where
    "Search p ctx buf q k s = Inr (Inr rs)" "exact_knn (rt32 p) metric q k (fi_vecs s) rs"
    using s(3) m assms(3,5) by auto
  moreover have "fi_vecs s = fst (spec_run (nat d) ops Map.empty)" using s(4) by (metis fst_conv)
  ultimately show ?thesis using s(1) by auto
qed

definition go_platform :: "rat platform" where
  "go_platform = \<lparr>useSIMD = False, build = SimdStub, rt32 = id\<rparr>"

lemma go_platform_agrees: "kernels_agree go_platform"
  by (simp add: kernels_agree_def go_platform_def)

lemma new_flat_exists:
  assumes "0 < d" "GetDistanceFunc metric \<noteq> None"
  obtains idx :: "'f::zero FlatIndex" where "NewFlatIndex d metric = Inr idx"
  using assms by (auto simp: NewFlatIndex_def)

theorem flat_search_exact_witness:
  "\<exists>idx idx' es rs. NewFlatIndex 2 ''l2'' = Inr idx \<and> flat.run ex_ops idx = Inr (idx', es) \<and>
     Search go_platform (\<lambda>_. None) [] [0, 0] 1 idx' = Inr (Inr rs) \<and> exact_knn id ''l2'' [0, 0] 1 ex_store rs"
proof -
  obtain idx :: "rat FlatIndex" where idx: "NewFlatIndex 2 ''l2'' = Inr idx"
    by (rule new_flat_exists [of 2 "''l2''"]) (auto simp: GetDistanceFunc_def)
  have r: "rt32 go_platform = id" by (simp add: go_platform_def)
  show ?thesis
    using flat_search_exact [OF idx go_platform_agrees, of "[0, 0]" 1 "\<lambda>_. None" ex_ops "[]"] idx
    by (auto simp: ex_spec r)
qed

text \<open>With the metric \<open>dot\<close> the index ranks by the inner product itself, ascending: every vector a
  search leaves out has an inner product with the query at least as large as every vector it returns.
  So for the similarity metric the \<open>k\<close> least similar vectors come back; and a vector whose
  inner product is 1 gets the score 0, one whose inner product is -1 the score 1.\<close>
theorem flat_dot_least_similar:
  fixes q :: "'f::linordered_field list"
  assumes "NewFlatIndex d ''dot'' = Inr idx" "kernels_agree p" "length q = nat d" "0 < k" "\<And>c. ctx c = None"
  shows "\<exists>idx' es rs. flat.run ops idx = Inr (idx', es) \<and> Search p ctx buf q k idx' = Inr (Inr rs) \<and>
    (let m = fst (spec_run (nat d) ops Map.empty) in
      length rs = min (nat k) (card (dom m)) \<and>
      (\<forall>r \<in> set rs. ID r \<in> dom m \<and> Distance r = DotProduct q (the (m (ID r))) \<and>
        (\<forall>i v. m i = Some v \<longrightarrow> i \<notin> ID ` set rs \<longrightarrow> Distance r \<le> DotProduct q v) \<and>
        (Distance r = 1 \<longrightarrow> Score r = 0) \<and> (Distance r = - 1 \<longrightarrow> Score r = 1)))"
proof -
  note n = NewFlatIndex_inv [OF assms(1)]
  have f: "GetDistanceFunc ''dot'' = Some DotProduct_fn" by (simp add: GetDistanceFunc_def)
  obtain s es where s: "flat.run ops idx = Inr (s, es)" "fi_inv s" "fi_dim s = nat d"
    "(fi_vecs s, es) = spec_run (nat d) ops Map.empty" using flat.run_refines [of idx ops] n by auto
  then have m: "fi_metric s = ''dot''" using run_metric n by metis
  obtain rs where rs: "Search p ctx buf q k s = Inr (Inr rs)" "exact_knn (rt32 p) ''dot'' q k (fi_vecs s) rs"
    using Search_ok [OF s(2) assms(2) _ _ assms(4), where ctx = ctx and q = q and buf = buf] f m s(3) assms(3,5) by auto
  have vs: "fst (spec_run (nat d) ops Map.empty) = fi_vecs s" using s(4) by (metis fst_conv)
  show ?thesis
    using s(1) rs(1) rs(2) unfolding exact_knn_def vs Let_def f
    by (intro exI [of _ s] exI [of _ es] exI [of _ rs]) (fastforce simp: apply_metric_def ScoreFromDistance_def)
qed

definition dot_ops :: "rat index_op list" where
  "dot_ops = [OpInsert 1 [1], OpInsert 2 [- 1]]"

theorem flat_dot_least_similar_witness:
  "\<exists>idx idx' es r. NewFlatIndex 1 ''dot'' = Inr idx \<and> flat.run dot_ops idx = Inr (idx', es) \<and>
     Search go_platform (\<lambda>_. None) [] [1] 1 idx' = Inr (Inr [r]) \<and> ID r = 2 \<and> Distance r = - 1 \<and> Score r = 1"
proof -
  obtain idx :: "rat FlatIndex" where idx: "NewFlatIndex 1 ''dot'' = Inr idx"
    by (rule new_flat_exists [of 1 "''dot''"]) (auto simp: GetDistanceFunc_def)
  define m :: "rat store" where "m = [1 \<mapsto> [1], 2 \<mapsto> [- 1]]"
  have m: "fst (spec_run (nat 1) dot_ops Map.empty) = m"
    by (simp add: dot_ops_def spec_Insert_def m_def)
  have dm: "dom m = {1, 2}" "card (dom m) = 2" by (auto simp: m_def)
  obtain idx' es rs where run: "flat.run dot_ops idx = Inr (idx', es)"
    "Search go_platform (\<lambda>_. None) [] [1] 1 idx' = Inr (Inr rs)" and len: "length rs = 1"
    and rs: "\<forall>r \<in> set rs. ID r \<in> {1, 2} \<and> Distance r = DotProduct [1] (the (m (ID r))) \<and>
      (\<forall>i v. m i = Some v \<longrightarrow> i \<notin> ID ` set rs \<longrightarrow> Distance r \<le> DotProduct [1] v) \<and>
      (Distance r = 1 \<longrightarrow> Score r = 0) \<and> (Distance r = - 1 \<longrightarrow> Score r = 1)"
    using flat_dot_least_similar [OF idx go_platform_agrees, of "[1]" 1 "\<lambda>_. None" dot_ops "[]"]
    unfolding m Let_def dm by auto
  obtain r where r: "rs = [r]" using len by (auto simp: length_Suc_conv)
  have "m 1 = Some [1]" "m 2 = Some [- 1]" by (auto simp: m_def)
  then have d: "DotProduct [1] (the (m 1)) = 1" "DotProduct [1] (the (m 2)) = - 1" "m 2 = Some [- 1]"
    by (simp_all add: DotProduct_def)
  have r': "ID r = 1 \<or> ID r = 2" "Distance r = DotProduct [1] (the (m (ID r)))"
    "2 \<noteq> ID r \<Longrightarrow> Distance r \<le> DotProduct [1] (the (m 2))" using rs d(3) unfolding r by auto
  then have "ID r = 2" using d by fastforce
  then have "ID r = 2 \<and> Distance r = - 1" using r'(2) d by simp
  with rs run idx r show ?thesis by auto
qed

text \<open>Builds without the C kernels: \<open>init\<close> enables SIMD from the CPU features alone, so on an amd64
  processor with AVX2 and FMA a binary that was built without cgo (and so has the stubs of
  \<open>simd_stub.go\<close>) panics in every search over 64 or more vectors for every metric but Manhattan.\<close>
theorem flat_search_stub_panics:
  assumes "fi_inv idx" "simdThreshold \<le> Len idx" "fi_metric idx \<in> {''l2'', ''cosine'', ''dot''}"
    "useSIMD p = init_useSIMD Amd64 True True asimd" "build p = SimdStub"
    "length q = fi_dim idx" "0 < k" "\<And>c. ctx c = None"
  shows "\<exists>msg. Search p ctx buf q k idx = Inl (PanicValue msg)"
proof -
  note i = fi_invD [OF assms(1)]
  have n: "0 < count idx" "64 \<le> min chunkSize (count idx)" "count idx \<le> length (ids idx)"
    using assms(2) i(3,4) by (auto simp: simdThreshold_def Len_def chunkSize_def)
  have u: "useSIMD p" using assms(4) by (simp add: init_useSIMD_def)
  have b: "\<exists>msg. BatchDistance p q m (min chunkSize (count idx)) (fi_dim idx) (fi_metric idx) r = Inl (PanicValue msg)"
    for m r
    using assms(3,5,6) n u
    by (auto simp: BatchDistance_def L2Batch_def DotBatch_def CosineBatch_def simdThreshold_def
        l2BatchSIMD_def dotBatchSIMD_def cosineBatchSIMD_def)
  have "\<exists>msg. search_chunks p ctx q idx (count idx) 0 0 ds = Inl (PanicValue msg)" for ds
    using b [of "vectors idx" ds] n(1) assms(8) by (subst search_chunks.simps) (auto simp: slice_def Let_def)
  from this [of "if length buf < count idx then replicate (count idx) 0 else take (count idx) buf"]
  show ?thesis using assms(6,7) n by (auto simp: Search_def Let_def slice_def)
qed

definition idx64 :: "rat FlatIndex" where
  "idx64 = \<lparr>fi_dim = 1, fi_metric = ''l2'', capacity = 64, count = 64, vectors = replicate 64 0,
     ids = map of_nat [0..<64], idToRow = (\<lambda>i. if unat i < 64 then Some (unat i) else None)\<rparr>"

theorem flat_search_stub_panics_witness:
  "\<exists>msg. Search \<lparr>useSIMD = True, build = SimdStub, rt32 = id\<rparr> (\<lambda>_. None) [] [0] 1 idx64 = Inl (PanicValue msg)"
  by (rule flat_search_stub_panics [where asimd = False])
    (auto simp: idx64_def fi_inv_def simdThreshold_def Len_def init_useSIMD_def unat_of_nat)

end
