(* ===== verification/Where_Filter.thy ===== *)
theory Where_Filter
  imports Errors
begin

section \<open>Metadata filters\<close>

text \<open>
  Models \<open>internal/metadata/filter.go\<close>: the parser of \<open>where\<close> clauses and the evaluation of a parsed
  filter on a vector's metadata.

  \<open>any\<close> is a value as \<open>encoding/json\<close> decodes it; \<open>'n\<close> is the type of its numbers (\<open>float64\<close>; the
  statements assume a linear order, so no NaN). A JSON object is the list of its entries in the order
  the Go map iteration visits them; its keys are distinct. \<open>fn\<close>, the text \<open>%v\<close> prints for a number,
  is a parameter.
\<close>

datatype 'n any = Null | Bool bool | Num 'n | Str string | Arr "'n any list" | Obj "(string \<times> 'n any) list"

type_synonym 'n metadata = "string \<rightharpoonup> 'n any"

fun join_sp :: "string list \<Rightarrow> string" where
  "join_sp [] = ''''"
| "join_sp [x] = x"
| "join_sp (x # xs) = x @ '' '' @ join_sp xs"

fun sprint :: "('n \<Rightarrow> string) \<Rightarrow> 'n any \<Rightarrow> string" where
  \<comment> \<open>\<open>fmt.Sprintf("%v", v)\<close>; maps print in key order\<close>
  "sprint fn Null = ''<nil>''"
| "sprint fn (Bool b) = (if b then ''true'' else ''false'')"
| "sprint fn (Num x) = fn x"
| "sprint fn (Str s) = s"
| "sprint fn (Arr xs) = ''['' @ join_sp (map (sprint fn) xs) @ '']''"
| "sprint fn (Obj kvs) =
     ''map['' @ join_sp (map (\<lambda>(k, s). k @ '':'' @ s) (sort_key fst (map (\<lambda>(k, v). (k, sprint fn v)) kvs))) @ '']''"

record 'n FieldFilter =
  Field :: string
  Operator :: string
  Value :: "'n any"
  Values :: "'n any list"

datatype 'n Filter = Filter (ANDs: "'n FieldFilter list") (ORs: "'n Filter list")

subsection \<open>Parsing\<close>

text \<open>
  The loops get the recursive call \<open>sub\<close> of the depth-limited parser as an argument; it yields
  \<open>None\<close> for Go's \<open>nil\<close> filter. Errors are left, a panic is a panic of type \<open>go\<close>.
\<close>

type_synonym 'n parse = "(error + 'n Filter option) go"

definition filter_error :: "string \<Rightarrow> (error + 'a) go" where
  "filter_error s = Inr (Inl (OtherError (''filter: '' @ s) None))"

fun and_items ::
  "((string \<times> 'n any) list \<Rightarrow> 'n parse) \<Rightarrow> 'n any list \<Rightarrow> 'n Filter \<Rightarrow> (error + 'n Filter) go" where
  "and_items sub [] f = Inr (Inr f)"
| "and_items sub (item # items) f =
     (case item of
        Obj subMap \<Rightarrow> go_bind (sub subMap) (\<lambda>r. case r of
            Inl e \<Rightarrow> Inr (Inl e)
          | Inr None \<Rightarrow> Inl NilDereference
          | Inr (Some s) \<Rightarrow> and_items sub items (Filter (ANDs f @ ANDs s) (ORs f @ ORs s)))
      | _ \<Rightarrow> filter_error ''$and elements must be objects'')"

fun or_items ::
  "((string \<times> 'n any) list \<Rightarrow> 'n parse) \<Rightarrow> 'n any list \<Rightarrow> 'n Filter \<Rightarrow> (error + 'n Filter) go" where
  "or_items sub [] f = Inr (Inr f)"
| "or_items sub (item # items) f =
     (case item of
        Obj subMap \<Rightarrow> go_bind (sub subMap) (\<lambda>r. case r of
            Inl e \<Rightarrow> Inr (Inl e)
          | Inr None \<Rightarrow> Inl NilDereference
          | Inr (Some s) \<Rightarrow> or_items sub items (Filter (ANDs f) (ORs f @ [s])))
      | _ \<Rightarrow> filter_error ''$or elements must be objects'')"

definition field_filter :: "string \<Rightarrow> string \<Rightarrow> 'n any \<Rightarrow> 'n any list \<Rightarrow> 'n FieldFilter" where
  "field_filter k op v vs = \<lparr>Field = k, Operator = op, Value = v, Values = vs\<rparr>"

fun field_ops :: "string \<Rightarrow> (string \<times> 'n any) list \<Rightarrow> 'n Filter \<Rightarrow> (error + 'n Filter) go" where
  "field_ops key [] f = Inr (Inr f)"
| "field_ops key ((op, opVal) # ops) f =
     (if op = ''$in'' \<or> op = ''$nin'' then
        (case opVal of
           Arr arr \<Rightarrow> field_ops key ops (Filter (ANDs f @ [field_filter key op Null arr]) (ORs f))
         | _ \<Rightarrow> filter_error (op @ '' requires an array value''))
      else field_ops key ops (Filter (ANDs f @ [field_filter key op opVal []]) (ORs f)))"

fun parse_keys ::
  "((string \<times> 'n any) list \<Rightarrow> 'n parse) \<Rightarrow> (string \<times> 'n any) list \<Rightarrow> 'n Filter \<Rightarrow> (error + 'n Filter) go" where
  "parse_keys sub [] f = Inr (Inr f)"
| "parse_keys sub ((key, val) # raw) f =
     go_bind
       (if key = ''$and'' then
          (case val of Arr arr \<Rightarrow> and_items sub arr f | _ \<Rightarrow> filter_error ''$and must be an array'')
        else if key = ''$or'' then
          (case val of Arr arr \<Rightarrow> or_items sub arr f | _ \<Rightarrow> filter_error ''$or must be an array'')
        else (case val of Obj ops \<Rightarrow> field_ops key ops f
          | _ \<Rightarrow> Inr (Inr (Filter (ANDs f @ [field_filter key ''$eq'' val []]) (ORs f)))))
       (\<lambda>r. case r of Inl e \<Rightarrow> Inr (Inl e) | Inr f \<Rightarrow> parse_keys sub raw f)"

fun parseFilterDepth :: "nat \<Rightarrow> (string \<times> 'n any) list \<Rightarrow> 'n parse" where
  "parseFilterDepth maxDepth raw =
     (if raw = [] then Inr (Inr None)
      else case maxDepth of
        0 \<Rightarrow> filter_error ''maximum nesting depth exceeded''
      | Suc d \<Rightarrow> go_bind (parse_keys (parseFilterDepth d) raw (Filter [] [])) (\<lambda>r. case r of
            Inl e \<Rightarrow> Inr (Inl e) | Inr f \<Rightarrow> Inr (Inr (Some f))))"

declare parseFilterDepth.simps [simp del]

definition ParseFilter :: "(string \<times> 'n any) list \<Rightarrow> 'n parse" where
  "ParseFilter raw = parseFilterDepth 10 raw"

subsection \<open>Evaluation\<close>

fun toFloat64 :: "'n any \<Rightarrow> 'n option" where
  "toFloat64 (Num x) = Some x"
| "toFloat64 _ = None"

definition compareEqual :: "('n \<Rightarrow> string) \<Rightarrow> 'n any \<Rightarrow> 'n any \<Rightarrow> bool" where
  "compareEqual fn a b =
     (case (toFloat64 a, toFloat64 b) of (Some x, Some y) \<Rightarrow> x = y
      | _ \<Rightarrow> (case (a, b) of
            (Str s, Str t) \<Rightarrow> s = t
          | (Bool p, Bool q) \<Rightarrow> p = q
          | _ \<Rightarrow> sprint fn a = sprint fn b))"

definition compareNumeric :: "('n::linorder \<Rightarrow> string) \<Rightarrow> 'n any \<Rightarrow> 'n any \<Rightarrow> int" where
  "compareNumeric fn a b =
     (case (toFloat64 a, toFloat64 b) of
        (Some x, Some y) \<Rightarrow> if x < y then - 1 else if x > y then 1 else 0
      | _ \<Rightarrow> (let s = sprint fn a; t = sprint fn b in if s < t then - 1 else if s > t then 1 else 0))"

definition ff_Match :: "('n::linorder \<Rightarrow> string) \<Rightarrow> 'n FieldFilter \<Rightarrow> 'n metadata \<Rightarrow> bool" where
  "ff_Match fn ff meta =
     (let op = Operator ff in
      case meta (Field ff) of
        None \<Rightarrow> op = ''$ne'' \<or> op = ''$nin''
      | Some val \<Rightarrow>
          if op = ''$eq'' then compareEqual fn val (Value ff)
          else if op = ''$ne'' then \<not> compareEqual fn val (Value ff)
          else if op = ''$gt'' then compareNumeric fn val (Value ff) > 0
          else if op = ''$gte'' then compareNumeric fn val (Value ff) \<ge> 0
          else if op = ''$lt'' then compareNumeric fn val (Value ff) < 0
          else if op = ''$lte'' then compareNumeric fn val (Value ff) \<le> 0
          else if op = ''$in'' then list_ex (\<lambda>v. compareEqual fn val v) (Values ff)
          else if op = ''$nin'' then \<not> list_ex (\<lambda>v. compareEqual fn val v) (Values ff)
          else False)"

lemma compareEqual_sprint: "inj fn \<Longrightarrow> compareEqual fn a b \<longleftrightarrow> sprint fn a = sprint fn b"
  by (cases a; cases b) (auto simp: compareEqual_def inj_eq)

fun Match :: "('n::linorder \<Rightarrow> string) \<Rightarrow> 'n metadata \<Rightarrow> 'n Filter \<Rightarrow> bool" where
  "Match fn meta (Filter an ors) \<longleftrightarrow>
     list_all (\<lambda>ff. ff_Match fn ff meta) an \<and> (ors = [] \<or> list_ex (Match fn meta) ors)"

definition Match_opt :: "('n::linorder \<Rightarrow> string) \<Rightarrow> 'n metadata \<Rightarrow> 'n Filter option \<Rightarrow> bool" where
  \<comment> \<open>the method on a possibly \<open>nil\<close> receiver\<close>
  "Match_opt fn meta f = (case f of None \<Rightarrow> True | Some f \<Rightarrow> Match fn meta f)"

subsection \<open>What the parser accepts and what it means\<close>

text \<open>
  The meaning the package comment gives to a \<open>where\<close> clause: all entries of an object must hold, \<open>$and\<close>
  holds when all its elements do, \<open>$or\<close> when one does (an empty \<open>$or\<close> is no condition), a field entry
  when each of its operators does.
\<close>

definition sat_field :: "('n::linorder \<Rightarrow> string) \<Rightarrow> 'n metadata \<Rightarrow> string \<Rightarrow> 'n any \<Rightarrow> bool" where
  "sat_field fn meta key v =
     (case v of
        Obj ops \<Rightarrow> list_all (\<lambda>(op, x). ff_Match fn
          (if op = ''$in'' \<or> op = ''$nin'' then field_filter key op Null (case x of Arr a \<Rightarrow> a | _ \<Rightarrow> [])
           else field_filter key op x []) meta) ops
      | _ \<Rightarrow> ff_Match fn (field_filter key ''$eq'' v []) meta)"

fun elems :: "'n any \<Rightarrow> 'n any list" where
  "elems (Arr xs) = xs"
| "elems _ = []"

fun entries :: "'n any \<Rightarrow> (string \<times> 'n any) list" where
  "entries (Obj kvs) = kvs"
| "entries _ = []"

lemma size_elems: "x \<in> set (elems v) \<Longrightarrow> size x < size v"
  by (cases v) (auto simp: less_Suc_eq_le dest: size_list_estimation' [where f = size, OF _ order_refl])

lemma size_entries: "(k, v) \<in> set (entries o') \<Longrightarrow> size v < size o'"
  by (cases o') (auto simp: less_Suc_eq_le dest!: size_list_estimation' [where f = "size_prod (\<lambda>_. 0) size" and y = "size v"])

function sat :: "('n::linorder \<Rightarrow> string) \<Rightarrow> 'n metadata \<Rightarrow> 'n any \<Rightarrow> bool" where
  "sat fn meta x \<longleftrightarrow> (\<forall>(key, v) \<in> set (entries x).
     if key = ''$and'' then \<forall>y \<in> set (elems v). sat fn meta y
     else if key = ''$or'' then elems v = [] \<or> (\<exists>y \<in> set (elems v). sat fn meta y)
     else sat_field fn meta key v)"
  by pat_completeness auto
termination
  by (relation "measure (\<lambda>(_, _, x). size x)") (auto dest!: size_elems size_entries)

declare sat.simps [simp del]

text \<open>
  The number of places an object's disjunctions come from, counting those of its \<open>$and\<close> elements: the
  parser merges them into one list.
\<close>

function or_sources :: "'n any \<Rightarrow> nat" where
  "or_sources x = sum_list (map (\<lambda>(key, v).
     if key = ''$and'' then sum_list (map or_sources (elems v))
     else if key = ''$or'' \<and> elems v \<noteq> [] then 1 else 0) (entries x))"
  by pat_completeness auto
termination
  by (relation "measure size") (auto dest!: size_elems size_entries)

declare or_sources.simps [simp del]

definition entry_shape :: "('n any \<Rightarrow> bool) \<Rightarrow> string \<Rightarrow> 'n any \<Rightarrow> bool" where
  "entry_shape P key v =
     (if key = ''$and'' \<or> key = ''$or'' then
        (case v of Arr items \<Rightarrow> list_all P items | _ \<Rightarrow> False)
      else (case v of Obj ops \<Rightarrow> list_all (\<lambda>(op, y).
          (op = ''$in'' \<or> op = ''$nin'') \<longrightarrow> (case y of Arr _ \<Rightarrow> True | _ \<Rightarrow> False)) ops
        | _ \<Rightarrow> True))"

fun well_formed :: "nat \<Rightarrow> 'n any \<Rightarrow> bool" where
  "well_formed 0 x \<longleftrightarrow> False"
| "well_formed (Suc d) x \<longleftrightarrow> (case x of
     Obj kvs \<Rightarrow> kvs \<noteq> [] \<and> or_sources x \<le> 1 \<and> list_all (\<lambda>(key, v). entry_shape (well_formed d) key v) kvs
   | _ \<Rightarrow> False)"

definition holds :: "('n::linorder \<Rightarrow> string) \<Rightarrow> 'n metadata \<Rightarrow> 'n FieldFilter list \<Rightarrow> 'n Filter list \<Rightarrow> bool" where
  "holds fn meta A B \<longleftrightarrow> list_all (\<lambda>ff. ff_Match fn ff meta) A \<and> (B = [] \<or> list_ex (Match fn meta) B)"

lemma Match_holds: "Match fn meta f \<longleftrightarrow> holds fn meta (ANDs f) (ORs f)"
  by (cases f) (simp add: holds_def)

lemma holds_append: "B = [] \<or> B' = [] \<Longrightarrow> holds fn meta (A @ A') (B @ B') \<longleftrightarrow> holds fn meta A B \<and> holds fn meta A' B'"
  by (auto simp: holds_def)

text \<open>\<open>extends r f P n\<close>: a loop started with the filter \<open>f\<close> ends normally having appended conditions that
  mean \<open>P\<close>, and no disjunctions if \<open>n\<close> is zero.\<close>

definition extends ::
  "('n::linorder \<Rightarrow> string) \<Rightarrow> (error + 'n Filter) go \<Rightarrow> 'n Filter \<Rightarrow> ('n metadata \<Rightarrow> bool) \<Rightarrow> nat \<Rightarrow> bool" where
  "extends fn r f P n \<longleftrightarrow> (\<exists>A B. r = Inr (Inr (Filter (ANDs f @ A) (ORs f @ B))) \<and>
     (\<forall>meta. holds fn meta A B = P meta) \<and> (n = 0 \<longrightarrow> B = []))"

lemma extends_refl: "(\<And>meta. P meta) \<Longrightarrow> extends fn (Inr (Inr f)) f P n"
  unfolding extends_def by (intro exI [of _ "[]"]) (cases f, auto simp: holds_def)

lemma extends_step:
  assumes "extends fn r f P m" "\<And>g. extends fn (k g) g Q n" "m = 0 \<or> n = 0"
    "\<And>meta. R meta \<longleftrightarrow> P meta \<and> Q meta"
  shows "extends fn (go_bind r (\<lambda>r. case r of Inl e \<Rightarrow> Inr (Inl e) | Inr f \<Rightarrow> k f)) f R (m + n)"
proof -
  obtain A B where 1: "r = Inr (Inr (Filter (ANDs f @ A) (ORs f @ B)))" "\<And>meta. holds fn meta A B = P meta" "m = 0 \<longrightarrow> B = []"
    using assms(1) unfolding extends_def by blast
  obtain A' B' where 2: "k (Filter (ANDs f @ A) (ORs f @ B)) = Inr (Inr (Filter ((ANDs f @ A) @ A') ((ORs f @ B) @ B')))"
    "\<And>meta. holds fn meta A' B' = Q meta" "n = 0 \<longrightarrow> B' = []"
    using assms(2) [of "Filter (ANDs f @ A) (ORs f @ B)"] unfolding extends_def by auto
  show ?thesis
    unfolding extends_def
  proof (intro exI [of _ "A @ A'"] exI [of _ "B @ B'"] conjI allI)
    show "holds fn meta (A @ A') (B @ B') = R meta" for meta
      using holds_append [of B B' fn meta A A'] 1(2) [of meta] 1(3) 2(2) [of meta] 2(3) assms(3) assms(4) [of meta] by blast
  qed (use 1 2 in auto)
qed

definition parses :: "('n::linorder \<Rightarrow> string) \<Rightarrow> ((string \<times> 'n any) list \<Rightarrow> 'n parse) \<Rightarrow> 'n any \<Rightarrow> bool" where
  "parses fn sub x \<longleftrightarrow> (\<exists>s. x = Obj (entries x) \<and> sub (entries x) = Inr (Inr (Some s)) \<and>
     (\<forall>meta. Match fn meta s = sat fn meta x) \<and> (or_sources x = 0 \<longrightarrow> ORs s = []))"

lemma and_items_extends:
  "\<forall>x \<in> set items. parses fn sub x \<Longrightarrow> sum_list (map or_sources items) \<le> 1 \<Longrightarrow>
     extends fn (and_items sub items f) f (\<lambda>meta. \<forall>x \<in> set items. sat fn meta x) (sum_list (map or_sources items))"
proof (induction items arbitrary: f)
  case (Cons x items)
  obtain s where s: "x = Obj (entries x)" "sub (entries x) = Inr (Inr (Some s))" "\<And>meta. Match fn meta s = sat fn meta x"
    "or_sources x = 0 \<longrightarrow> ORs s = []" using Cons.prems(1) by (auto simp: parses_def)
  let ?r = "Inr (Inr (Filter (ANDs f @ ANDs s) (ORs f @ ORs s)))"
  have "extends fn ?r f (\<lambda>meta. sat fn meta x) (or_sources x)"
    unfolding extends_def using s(3,4)
    by (intro exI [of _ "ANDs s"] exI [of _ "ORs s"]) (simp add: Match_holds)
  moreover have "extends fn (and_items sub items g) g (\<lambda>meta. \<forall>x \<in> set items. sat fn meta x) (sum_list (map or_sources items))" for g
    using Cons.IH Cons.prems by simp
  moreover have "or_sources x = 0 \<or> sum_list (map or_sources items) = 0"
    using Cons.prems(2) by (simp only: list.map sum_list.Cons) arith
  ultimately have "extends fn (go_bind ?r (\<lambda>r. case r of Inl e \<Rightarrow> Inr (Inl e) | Inr f \<Rightarrow> and_items sub items f)) f
      (\<lambda>meta. \<forall>x \<in> set (x # items). sat fn meta x) (or_sources x + sum_list (map or_sources items))"
    by (rule extends_step) simp
  moreover have "and_items sub (x # items) f = go_bind ?r (\<lambda>r. case r of Inl e \<Rightarrow> Inr (Inl e) | Inr f \<Rightarrow> and_items sub items f)"
    by (subst s(1)) (simp add: s(2))
  ultimately show ?case by simp
qed (simp add: extends_refl)

lemma or_items_parse:
  "\<forall>x \<in> set items. parses fn sub x \<Longrightarrow>
     \<exists>B. or_items sub items f = Inr (Inr (Filter (ANDs f) (ORs f @ B))) \<and>
       (\<forall>meta. list_ex (Match fn meta) B = (\<exists>x \<in> set items. sat fn meta x)) \<and> (B = [] \<longleftrightarrow> items = [])"
proof (induction items arbitrary: f)
  case Nil
  then show ?case by (cases f) auto
next
  case (Cons x items)
  obtain s where s: "x = Obj (entries x)" "sub (entries x) = Inr (Inr (Some s))" "\<And>meta. Match fn meta s = sat fn meta x"
    using Cons.prems by (auto simp: parses_def)
  obtain B where B: "or_items sub items (Filter (ANDs f) (ORs f @ [s])) = Inr (Inr (Filter (ANDs f) ((ORs f @ [s]) @ B)))"
    "\<And>meta. list_ex (Match fn meta) B = (\<exists>x \<in> set items. sat fn meta x)"
    using Cons.IH [of "Filter (ANDs f) (ORs f @ [s])"] Cons.prems by auto
  have "or_items sub (x # items) f = or_items sub items (Filter (ANDs f) (ORs f @ [s]))"
    by (subst s(1)) (simp add: s(2))
  then show ?case using B s(3) by (intro exI [of _ "s # B"]) simp
qed

lemma or_items_extends:
  assumes "\<forall>x \<in> set items. parses fn sub x"
  shows "extends fn (or_items sub items f) f (\<lambda>meta. items = [] \<or> (\<exists>x \<in> set items. sat fn meta x))
    (if items = [] then 0 else 1)"
proof -
  obtain B where "or_items sub items f = Inr (Inr (Filter (ANDs f @ []) (ORs f @ B)))"
    "\<And>meta. list_ex (Match fn meta) B = (\<exists>x \<in> set items. sat fn meta x)" "B = [] \<longleftrightarrow> items = []"
    using or_items_parse [OF assms, of f] by auto
  then show ?thesis unfolding extends_def holds_def by (intro exI [of _ "[]"] exI [of _ B]) auto
qed

lemma single_extends:
  "extends fn (Inr (Inr (Filter (ANDs f @ [ff]) (ORs f)))) f (\<lambda>meta. ff_Match fn ff meta) 0"
  unfolding extends_def by (intro exI [of _ "[ff]"] exI [of _ "[]"]) (simp add: holds_def)

lemma field_ops_extends:
  "\<forall>(op, y) \<in> set ops. (op = ''$in'' \<or> op = ''$nin'') \<longrightarrow> (\<exists>a. y = Arr a) \<Longrightarrow>
     extends fn (field_ops key ops f) f (\<lambda>meta. sat_field fn meta key (Obj ops)) 0"
proof (induction ops arbitrary: f)
  case (Cons oy ops)
  obtain op y where oy: "oy = (op, y)" by fastforce
  let ?ff = "if op = ''$in'' \<or> op = ''$nin'' then field_filter key op Null (case y of Arr a \<Rightarrow> a | _ \<Rightarrow> [])
     else field_filter key op y []"
  let ?r = "Inr (Inr (Filter (ANDs f @ [?ff]) (ORs f)))"
  have "extends fn (go_bind ?r (\<lambda>r. case r of Inl e \<Rightarrow> Inr (Inl e) | Inr f \<Rightarrow> field_ops key ops f)) f
      (\<lambda>meta. sat_field fn meta key (Obj (oy # ops))) (0 + 0)"
    by (rule extends_step [OF single_extends, where Q = "\<lambda>meta. sat_field fn meta key (Obj ops)"])
      (use Cons oy in \<open>auto simp: sat_field_def\<close>)
  moreover have "field_ops key (oy # ops) f = go_bind ?r (\<lambda>r. case r of Inl e \<Rightarrow> Inr (Inl e) | Inr f \<Rightarrow> field_ops key ops f)"
    using Cons.prems oy by auto
  ultimately show ?case by simp
qed (simp add: extends_refl sat_field_def)

definition entry_sat :: "('n::linorder \<Rightarrow> string) \<Rightarrow> 'n metadata \<Rightarrow> string \<Rightarrow> 'n any \<Rightarrow> bool" where
  "entry_sat fn meta key v \<longleftrightarrow>
     (if key = ''$and'' then \<forall>y \<in> set (elems v). sat fn meta y
      else if key = ''$or'' then elems v = [] \<or> (\<exists>y \<in> set (elems v). sat fn meta y)
      else sat_field fn meta key v)"

definition entry_ors :: "string \<Rightarrow> 'n any \<Rightarrow> nat" where
  "entry_ors key v = (if key = ''$and'' then sum_list (map or_sources (elems v))
     else if key = ''$or'' \<and> elems v \<noteq> [] then 1 else 0)"

definition entry_wf :: "('n::linorder \<Rightarrow> string) \<Rightarrow> ((string \<times> 'n any) list \<Rightarrow> 'n parse) \<Rightarrow> string \<Rightarrow> 'n any \<Rightarrow> bool" where
  "entry_wf fn sub key v \<longleftrightarrow>
     (if key = ''$and'' \<or> key = ''$or'' then v = Arr (elems v) \<and> (\<forall>x \<in> set (elems v). parses fn sub x)
      else \<forall>ops. v = Obj ops \<longrightarrow> (\<forall>(op, y) \<in> set ops. (op = ''$in'' \<or> op = ''$nin'') \<longrightarrow> (\<exists>a. y = Arr a)))"

lemma entry_extends:
  assumes wf: "entry_wf fn sub key v" and le: "entry_ors key v \<le> 1"
  shows "extends fn
    (if key = ''$and'' then
       (case v of Arr arr \<Rightarrow> and_items sub arr f | _ \<Rightarrow> filter_error ''$and must be an array'')
     else if key = ''$or'' then
       (case v of Arr arr \<Rightarrow> or_items sub arr f | _ \<Rightarrow> filter_error ''$or must be an array'')
     else (case v of Obj ops \<Rightarrow> field_ops key ops f
       | _ \<Rightarrow> Inr (Inr (Filter (ANDs f @ [field_filter key ''$eq'' v []]) (ORs f)))))
    f (\<lambda>meta. entry_sat fn meta key v) (entry_ors key v)"
proof -
  consider (a) arr where "key = ''$and''" "v = Arr arr" "\<forall>x \<in> set arr. parses fn sub x"
    | (o) arr where "key = ''$or''" "v = Arr arr" "\<forall>x \<in> set arr. parses fn sub x"
    | (f) "key \<noteq> ''$and''" "key \<noteq> ''$or''" using wf unfolding entry_wf_def by metis
  then show ?thesis
  proof cases
    case a
    then show ?thesis using and_items_extends [OF a(3), of f] le by (simp add: entry_sat_def entry_ors_def)
  next
    case o
    then show ?thesis using or_items_extends [OF o(3), of f] by (cases "arr = []") (simp_all add: entry_sat_def entry_ors_def)
  next
    case f
    then have s: "entry_sat fn meta key v = sat_field fn meta key v" "entry_ors key v = 0" for meta
      by (auto simp: entry_sat_def entry_ors_def)
    show ?thesis
    proof (cases "\<exists>ops. v = Obj ops")
      case True
      then show ?thesis using f wf field_ops_extends [of _ fn key f] by (auto simp: s entry_wf_def)
    next
      case False
      then show ?thesis using f single_extends [of fn f "field_filter key ''$eq'' v []"]
        unfolding s by (cases v) (auto simp: sat_field_def)
    qed
  qed
qed

lemma parse_keys_extends:
  "\<forall>(key, v) \<in> set kvs. entry_wf fn sub key v \<Longrightarrow> sum_list (map (\<lambda>(key, v). entry_ors key v) kvs) \<le> 1 \<Longrightarrow>
     extends fn (parse_keys sub kvs f) f (\<lambda>meta. \<forall>(key, v) \<in> set kvs. entry_sat fn meta key v)
       (sum_list (map (\<lambda>(key, v). entry_ors key v) kvs))"
proof (induction kvs arbitrary: f)
  case (Cons kv kvs)
  obtain key v where kv: "kv = (key, v)" by fastforce
  have "extends fn (parse_keys sub ((key, v) # kvs) f) f (\<lambda>meta. \<forall>(key, v) \<in> set ((key, v) # kvs). entry_sat fn meta key v)
     (entry_ors key v + sum_list (map (\<lambda>(key, v). entry_ors key v) kvs))"
    unfolding parse_keys.simps
  proof (rule extends_step [OF entry_extends])
    show "extends fn (parse_keys sub kvs g) g (\<lambda>meta. \<forall>(key, v) \<in> set kvs. entry_sat fn meta key v)
       (sum_list (map (\<lambda>(key, v). entry_ors key v) kvs))" for g
      using Cons kv by simp
    show "entry_ors key v = 0 \<or> sum_list (map (\<lambda>(key, v). entry_ors key v) kvs) = 0"
      using Cons.prems(2) kv by (simp only: list.map sum_list.Cons case_prod_conv) arith
  qed (use Cons.prems kv in auto)
  then show ?case by (simp add: kv)
qed (simp add: extends_refl)

lemma is_arr: "(case y of Arr _ \<Rightarrow> True | _ \<Rightarrow> False) \<longleftrightarrow> (\<exists>a. y = Arr a)"
  by (cases y) auto

lemma well_formed_parses:
  "well_formed d x \<Longrightarrow> parses fn (parseFilterDepth d) x"
proof (induction d arbitrary: x)
  case (Suc d)
  then obtain kvs where x: "x = Obj kvs" "kvs \<noteq> []" "or_sources x \<le> 1" by (auto split: any.splits)
  have ors: "or_sources x = sum_list (map (\<lambda>(key, v). entry_ors key v) kvs)"
    by (subst or_sources.simps) (simp only: x(1) entry_ors_def [abs_def] entries.simps)
  have sat: "sat fn meta x = (\<forall>(key, v) \<in> set kvs. entry_sat fn meta key v)" for meta
    by (subst sat.simps) (simp only: x(1) entry_sat_def [abs_def] entries.simps)
  have "entry_wf fn (parseFilterDepth d) key v" if "(key, v) \<in> set kvs" for key v
  proof -
    have "entry_shape (well_formed d) key v" using Suc.prems that by (auto simp: x(1) list_all_iff)
    then show ?thesis using Suc.IH
      by (cases v) (auto simp: entry_shape_def entry_wf_def list_all_iff is_arr split: if_splits)
  qed
  then have e: "extends fn (parse_keys (parseFilterDepth d) kvs (Filter [] [])) (Filter [] [])
      (\<lambda>meta. sat fn meta x) (or_sources x)"
    using parse_keys_extends [of kvs fn "parseFilterDepth d" "Filter [] []"] x(3) unfolding ors sat by blast
  then obtain A B where r: "parse_keys (parseFilterDepth d) kvs (Filter [] []) = Inr (Inr (Filter A B))"
    "\<And>meta. holds fn meta A B = sat fn meta x" "or_sources x = 0 \<longrightarrow> B = []" unfolding extends_def by auto
  have "parseFilterDepth (Suc d) kvs = Inr (Inr (Some (Filter A B)))"
    using x(2) r(1) by (subst parseFilterDepth.simps) simp
  moreover have "Match fn meta (Filter A B) = sat fn meta x" for meta
    using r(2) Match_holds [of fn meta "Filter A B"] by simp
  ultimately show ?case
    unfolding parses_def using r(3) by (intro exI [of _ "Filter A B"]) (simp add: x(1) del: Match.simps)
qed simp

text \<open>C32. The parser is correct on the filters it is meant for: a nested filter of at most ten levels whose
  arrays hold non-empty objects and whose disjunctions at each level come from one place parses
  without error or panic, and the parsed filter accepts exactly the metadata the filter language
  says, missing fields included.\<close>
theorem ParseFilter_meaning:
  assumes "well_formed 10 (Obj raw)"
  shows "\<exists>f. ParseFilter raw = Inr (Inr (Some f)) \<and> (\<forall>meta. Match_opt fn meta (Some f) = sat fn meta (Obj raw))"
  using well_formed_parses [OF assms, of fn] by (auto simp: parses_def ParseFilter_def Match_opt_def)

definition ex_filter :: "(string \<times> int any) list" where
  "ex_filter = [(''category'', Obj [(''$eq'', Str ''science'')]), (''year'', Obj [(''$gte'', Num 2020), (''$nin'', Arr [Num 2022])]),
     (''$and'', Arr [Obj [(''lang'', Str ''en'')],
        Obj [(''$or'', Arr [Obj [(''x'', Num 1)], Obj [(''y'', Bool True)]])]])]"

theorem ParseFilter_meaning_witness:
  "\<exists>f. ParseFilter ex_filter = Inr (Inr (Some f)) \<and>
     (\<forall>meta. Match_opt (\<lambda>_. ''n'') meta (Some f) = sat (\<lambda>_. ''n'') meta (Obj ex_filter))"
  by (rule ParseFilter_meaning) (simp add: ex_filter_def numeral_eq_Suc or_sources.simps entry_shape_def)

text \<open>Two defects of the parser: \<open>{"$and": [{}]}\<close> (and the same under \<open>$or\<close>) makes it dereference
  the \<open>nil\<close> filter of the empty object and panic; and two \<open>$or\<close> clauses under one \<open>$and\<close> are merged
  into a single disjunction, so that metadata which violates one of them is accepted.\<close>
theorem ParseFilter_defects:
  "ParseFilter [(''$and'', Arr [Obj []])] = (Inl NilDereference :: int parse) \<and>
   ParseFilter [(''$or'', Arr [Obj []])] = (Inl NilDereference :: int parse) \<and>
   (\<exists>raw f. \<exists>meta :: int metadata. ParseFilter raw = Inr (Inr (Some f)) \<and>
      Match (\<lambda>_. ''n'') meta f \<and> \<not> sat (\<lambda>_. ''n'') meta (Obj raw))"
proof (intro conjI)
  show "ParseFilter [(''$and'', Arr [Obj []])] = (Inl NilDereference :: int parse)"
    "ParseFilter [(''$or'', Arr [Obj []])] = (Inl NilDereference :: int parse)"
    by (simp_all add: ParseFilter_def parseFilterDepth.simps numeral_eq_Suc)
  let ?eq = "\<lambda>k. field_filter k ''$eq'' (Num 1) [] :: int FieldFilter"
  let ?raw = "[(''$and'', Arr [Obj [(''$or'', Arr [Obj [(''a'', Num (1 :: int))]])],
      Obj [(''$or'', Arr [Obj [(''b'', Num 1)]])]])]"
  let ?f = "Filter [] [Filter [?eq ''a''] [], Filter [?eq ''b''] []]"
  have "ParseFilter ?raw = Inr (Inr (Some ?f))"
    by (simp add: ParseFilter_def parseFilterDepth.simps numeral_eq_Suc)
  moreover have "Match (\<lambda>_. ''n'') [''a'' \<mapsto> Num 1] ?f"
    by (simp add: ff_Match_def field_filter_def compareEqual_def)
  moreover have "\<not> sat (\<lambda>_. ''n'') [''a'' \<mapsto> Num 1] (Obj ?raw)"
    by (simp add: sat.simps sat_field_def ff_Match_def field_filter_def)
  ultimately show "\<exists>raw f. \<exists>meta :: int metadata. ParseFilter raw = Inr (Inr (Some f)) \<and>
      Match (\<lambda>_. ''n'') meta f \<and> \<not> sat (\<lambda>_. ''n'') meta (Obj raw)" by blast
qed

end
