(* ===== verification/Bitmap_Index.thy ===== *)
theory Bitmap_Index
  imports Where_Filter Slice_Sort
begin

section \<open>The metadata bitmap index\<close>

text \<open>
  Models \<open>internal/index/bitmap_index.go\<close>: bitmaps of node indices per field and value, a sorted list
  of numeric values per field, and the resolution of a filter to one bitmap. The bit set library is
  a parameter, the record \<open>bitset_ops\<close> (a \<open>Clone\<close> is the value itself, since values are never
  shared here), and so is \<open>sort.Slice\<close>. A \<open>nil\<close> bitmap is \<open>None\<close>.
\<close>

record 'b bitset_ops =
  bs_New :: "nat \<Rightarrow> 'b"
  bs_Set :: "nat \<Rightarrow> 'b \<Rightarrow> 'b"
  bs_Clear :: "nat \<Rightarrow> 'b \<Rightarrow> 'b"
  bs_Intersection :: "'b \<Rightarrow> 'b \<Rightarrow> 'b"
  bs_Union :: "'b \<Rightarrow> 'b \<Rightarrow> 'b"
  bs_Difference :: "'b \<Rightarrow> 'b \<Rightarrow> 'b"
  bs_FlipRange :: "nat \<Rightarrow> nat \<Rightarrow> 'b \<Rightarrow> 'b"

text \<open>The documented behaviour of the library: a bit set is the set of its bits.\<close>

definition bitset_ok :: "'b bitset_ops \<Rightarrow> ('b \<Rightarrow> nat set) \<Rightarrow> bool" where
  "bitset_ok B mem \<longleftrightarrow>
     (\<forall>n. mem (bs_New B n) = {}) \<and>
     (\<forall>i b. mem (bs_Set B i b) = insert i (mem b)) \<and>
     (\<forall>i b. mem (bs_Clear B i b) = mem b - {i}) \<and>
     (\<forall>a b. mem (bs_Intersection B a b) = mem a \<inter> mem b) \<and>
     (\<forall>a b. mem (bs_Union B a b) = mem a \<union> mem b) \<and>
     (\<forall>a b. mem (bs_Difference B a b) = mem a - mem b) \<and>
     (\<forall>s e b. mem (bs_FlipRange B s e b) = (mem b - {s..<e}) \<union> ({s..<e} - mem b))"

record ('n, 'b) MetadataBitmapIndex =
  bits :: "string \<rightharpoonup> 'b"
  numericSorted :: "string \<rightharpoonup> ('n \<times> nat) list"
  maxNodeIdx :: nat
  totalNodes :: nat
  fieldCardinality :: "string \<rightharpoonup> nat"

definition NewMetadataBitmapIndex :: "('n, 'b) MetadataBitmapIndex" where
  "NewMetadataBitmapIndex = \<lparr>bits = Map.empty, numericSorted = Map.empty, maxNodeIdx = 0, totalNodes = 0,
     fieldCardinality = Map.empty\<rparr>"

definition compositeKey :: "('n \<Rightarrow> string) \<Rightarrow> string \<Rightarrow> 'n any \<Rightarrow> string" where
  "compositeKey fn field v = field @ [CHR 0x00] @ sprint fn v"

definition bm_Set ::
  "'b bitset_ops \<Rightarrow> ('n \<Rightarrow> string) \<Rightarrow> string \<Rightarrow> 'n any \<Rightarrow> nat \<Rightarrow> ('n, 'b) MetadataBitmapIndex \<Rightarrow>
    ('n, 'b) MetadataBitmapIndex" where
  "bm_Set B fn field v nodeIdx idx =
     (let key = compositeKey fn field v;
          (bm, idx) = (case bits idx key of
              Some bm \<Rightarrow> (bm, idx)
            | None \<Rightarrow> (bs_New B (nodeIdx + 64),
                idx\<lparr>fieldCardinality := (fieldCardinality idx)(field \<mapsto> map_get 0 (fieldCardinality idx) field + 1)\<rparr>));
          idx = idx\<lparr>bits := (bits idx)(key \<mapsto> bs_Set B nodeIdx bm)\<rparr>;
          idx = (if nodeIdx > maxNodeIdx idx then idx\<lparr>maxNodeIdx := nodeIdx\<rparr> else idx) in
      case toFloat64 v of None \<Rightarrow> idx
      | Some x \<Rightarrow> idx\<lparr>numericSorted := (numericSorted idx)(field \<mapsto> map_get [] (numericSorted idx) field @ [(x, nodeIdx)])\<rparr>)"

definition bm_Remove ::
  "'b bitset_ops \<Rightarrow> ('n \<Rightarrow> string) \<Rightarrow> string \<Rightarrow> 'n any \<Rightarrow> nat \<Rightarrow> ('n, 'b) MetadataBitmapIndex \<Rightarrow>
    ('n, 'b) MetadataBitmapIndex" where
  "bm_Remove B fn field v nodeIdx idx =
     (let key = compositeKey fn field v;
          idx = (case bits idx key of None \<Rightarrow> idx
            | Some bm \<Rightarrow> idx\<lparr>bits := (bits idx)(key \<mapsto> bs_Clear B nodeIdx bm)\<rparr>) in
      case toFloat64 v of None \<Rightarrow> idx
      | Some x \<Rightarrow>
          if (x, nodeIdx) \<in> set (map_get [] (numericSorted idx) field)
          then idx\<lparr>numericSorted := (numericSorted idx)(field \<mapsto> remove1 (x, nodeIdx) (map_get [] (numericSorted idx) field))\<rparr>
          else idx)"

definition allNodesBitmap :: "'b bitset_ops \<Rightarrow> ('n, 'b) MetadataBitmapIndex \<Rightarrow> 'b" where
  "allNodesBitmap B idx =
     (let size = (if totalNodes idx \<le> maxNodeIdx idx then maxNodeIdx idx + 1 else totalNodes idx) in
      bs_FlipRange B 0 size (bs_New B size))"

definition collectBitmap :: "'b bitset_ops \<Rightarrow> ('n, 'b) MetadataBitmapIndex \<Rightarrow> ('n \<times> nat) list \<Rightarrow> 'b" where
  "collectBitmap B idx es =
     (if es = [] then bs_New B 0
      else fold (\<lambda>(_, n) bm. bs_Set B n bm) es (bs_New B (maxNodeIdx idx + 1)))"

definition resolveNumericRange ::
  "'b bitset_ops \<Rightarrow> ('n::linorder, 'b) MetadataBitmapIndex \<Rightarrow> 'n FieldFilter \<Rightarrow> 'b option" where
  "resolveNumericRange B idx ff =
     (case numericSorted idx (Field ff) of None \<Rightarrow> None
      | Some es \<Rightarrow>
          if es = [] then None
          else case toFloat64 (Value ff) of None \<Rightarrow> None
          | Some t \<Rightarrow>
              (let above = sort_search (length es) (\<lambda>i. fst (es ! i) > t);
                   from_t = sort_search (length es) (\<lambda>i. fst (es ! i) \<ge> t) in
               if Operator ff = ''$gt'' then Some (collectBitmap B idx (drop above es))
               else if Operator ff = ''$gte'' then Some (collectBitmap B idx (drop from_t es))
               else if Operator ff = ''$lt'' then Some (collectBitmap B idx (take from_t es))
               else if Operator ff = ''$lte'' then Some (collectBitmap B idx (take above es))
               else None))"

fun union_values ::
  "'b bitset_ops \<Rightarrow> ('n \<Rightarrow> string) \<Rightarrow> ('n, 'b) MetadataBitmapIndex \<Rightarrow> string \<Rightarrow> 'n any list \<Rightarrow> 'b option \<Rightarrow> 'b option"
  where
  "union_values B fn idx field [] result = result"
| "union_values B fn idx field (v # vs) result =
     union_values B fn idx field vs
       (case bits idx (compositeKey fn field v) of None \<Rightarrow> result
        | Some bm \<Rightarrow> (case result of None \<Rightarrow> Some bm | Some r \<Rightarrow> Some (bs_Union B r bm)))"

definition resolveFieldFilter ::
  "'b bitset_ops \<Rightarrow> ('n::linorder \<Rightarrow> string) \<Rightarrow> ('n, 'b) MetadataBitmapIndex \<Rightarrow> 'n FieldFilter \<Rightarrow> 'b option" where
  "resolveFieldFilter B fn idx ff =
     (if Operator ff = ''$eq'' then bits idx (compositeKey fn (Field ff) (Value ff))
      else if Operator ff = ''$ne'' then
        (let allNodes = allNodesBitmap B idx in
         case bits idx (compositeKey fn (Field ff) (Value ff)) of
           Some bm \<Rightarrow> Some (bs_Difference B allNodes bm) | None \<Rightarrow> Some allNodes)
      else if Operator ff = ''$in'' then union_values B fn idx (Field ff) (Values ff) None
      else if Operator ff = ''$nin'' then
        (let allNodes = allNodesBitmap B idx in
         case union_values B fn idx (Field ff) (Values ff) None of
           Some excluded \<Rightarrow> Some (bs_Difference B allNodes excluded) | None \<Rightarrow> Some allNodes)
      else resolveNumericRange B idx ff)"

fun resolve_and ::
  "'b bitset_ops \<Rightarrow> ('n::linorder \<Rightarrow> string) \<Rightarrow> ('n, 'b) MetadataBitmapIndex \<Rightarrow> 'n FieldFilter list \<Rightarrow> 'b option \<Rightarrow>
    'b + 'b option" where
  \<comment> \<open>the left summand is the early \<open>return bitset.New(0)\<close>\<close>
  "resolve_and B fn idx [] result = Inr result"
| "resolve_and B fn idx (ff # ffs) result =
     (case resolveFieldFilter B fn idx ff of
        None \<Rightarrow> Inl (bs_New B 0)
      | Some bm \<Rightarrow> resolve_and B fn idx ffs
          (case result of None \<Rightarrow> Some bm | Some r \<Rightarrow> Some (bs_Intersection B r bm)))"

fun or_union :: "'b bitset_ops \<Rightarrow> 'b option list \<Rightarrow> 'b option \<Rightarrow> 'b option" where
  "or_union B [] orResult = orResult"
| "or_union B (sub # subs) orResult =
     or_union B subs
       (case sub of None \<Rightarrow> orResult
        | Some s \<Rightarrow> (case orResult of None \<Rightarrow> Some s | Some r \<Rightarrow> Some (bs_Union B r s)))"

fun resolveInner ::
  "'b bitset_ops \<Rightarrow> ('n::linorder \<Rightarrow> string) \<Rightarrow> ('n, 'b) MetadataBitmapIndex \<Rightarrow> 'n Filter \<Rightarrow> 'b option" where
  "resolveInner B fn idx (Filter an ors) =
     (case resolve_and B fn idx an None of
        Inl early \<Rightarrow> Some early
      | Inr result \<Rightarrow>
          if ors = [] then result
          else case or_union B (map (resolveInner B fn idx) ors) None of
            None \<Rightarrow> result
          | Some orResult \<Rightarrow> (case result of None \<Rightarrow> Some orResult
              | Some r \<Rightarrow> Some (bs_Intersection B r orResult)))"

definition Resolve ::
  "'b bitset_ops \<Rightarrow> ('n::linorder \<Rightarrow> string) \<Rightarrow> (('n \<times> nat) list \<Rightarrow> ('n \<times> nat) list) \<Rightarrow> 'n Filter option \<Rightarrow>
    ('n, 'b) MetadataBitmapIndex \<Rightarrow> 'b option \<times> ('n, 'b) MetadataBitmapIndex" where
  \<comment> \<open>\<open>srt\<close> is \<open>sort.Slice\<close> by value\<close>
  "Resolve B fn srt flt idx =
     (case flt of None \<Rightarrow> (None, idx)
      | Some f \<Rightarrow>
          let idx = idx\<lparr>numericSorted := (\<lambda>field. map_option srt (numericSorted idx field))\<rparr> in
          (resolveInner B fn idx f, idx))"

definition SetTotalNodes :: "nat \<Rightarrow> ('n, 'b) MetadataBitmapIndex \<Rightarrow> ('n, 'b) MetadataBitmapIndex" where
  "SetTotalNodes n idx = idx\<lparr>totalNodes := n\<rparr>"

definition Cardinality :: "string \<Rightarrow> ('n, 'b) MetadataBitmapIndex \<Rightarrow> nat" where
  "Cardinality field idx = map_get 0 (fieldCardinality idx) field"

definition SortNumeric ::
  "(('n \<times> nat) list \<Rightarrow> ('n \<times> nat) list) \<Rightarrow> string \<Rightarrow> ('n, 'b) MetadataBitmapIndex \<Rightarrow> ('n, 'b) MetadataBitmapIndex"
  where
  "SortNumeric srt field idx =
     idx\<lparr>numericSorted := (numericSorted idx)(field \<mapsto> srt (map_get [] (numericSorted idx) field))\<rparr>"

subsection \<open>What the index represents\<close>

definition memo :: "('b \<Rightarrow> nat set) \<Rightarrow> 'b option \<Rightarrow> nat set" where
  "memo mem b = (case b of None \<Rightarrow> {} | Some b \<Rightarrow> mem b)"

lemma memo_simps [simp]: "memo mem None = {}" "memo mem (Some b) = mem b"
  by (simp_all add: memo_def)

definition nul_free :: "string \<Rightarrow> bool" where
  "nul_free s \<longleftrightarrow> CHR 0x00 \<notin> set s"

abbreviation nums :: "('n, 'b) MetadataBitmapIndex \<Rightarrow> string \<Rightarrow> ('n \<times> nat) list" where
  "nums idx field \<equiv> map_get [] (numericSorted idx) field"

text \<open>\<open>rep mem fn idx M\<close>: the index holds exactly the metadata \<open>M\<close> of the nodes. Field names are free of
  the NUL byte that separates field and value in the keys.\<close>

definition rep ::
  "('b \<Rightarrow> nat set) \<Rightarrow> ('n \<Rightarrow> string) \<Rightarrow> ('n, 'b) MetadataBitmapIndex \<Rightarrow> (nat \<Rightarrow> 'n metadata) \<Rightarrow> bool" where
  "rep mem fn idx M \<longleftrightarrow>
     (\<forall>n f v. M n f = Some v \<longrightarrow> nul_free f \<and> n \<le> maxNodeIdx idx) \<and>
     (\<forall>f v. nul_free f \<longrightarrow> memo mem (bits idx (compositeKey fn f v)) = {n. \<exists>w. M n f = Some w \<and> sprint fn w = sprint fn v}) \<and>
     (\<forall>f. distinct (nums idx f) \<and> set (nums idx f) = {(x, n). M n f = Some (Num x)})"

lemma repD:
  assumes "rep mem fn idx M"
  shows "M n f = Some v \<Longrightarrow> nul_free f" "M n f = Some v \<Longrightarrow> n \<le> maxNodeIdx idx"
    "nul_free f \<Longrightarrow> memo mem (bits idx (compositeKey fn f v)) = {n. \<exists>w. M n f = Some w \<and> sprint fn w = sprint fn v}"
    "distinct (nums idx f)" "set (nums idx f) = {(x, n). M n f = Some (Num x)}"
  using assms unfolding rep_def by blast+

lemma compositeKey_inject:
  assumes "nul_free f" "nul_free g"
  shows "compositeKey fn f v = compositeKey fn g w \<longleftrightarrow> f = g \<and> sprint fn v = sprint fn w"
proof -
  have "takeWhile (\<lambda>c. c \<noteq> CHR 0x00) (compositeKey fn f v) = f"
    "takeWhile (\<lambda>c. c \<noteq> CHR 0x00) (compositeKey fn g w) = g"
    using assms by (auto simp: compositeKey_def nul_free_def takeWhile_append)
  then show ?thesis by (auto simp: compositeKey_def)
qed

lemma toFloat64_Some: "toFloat64 v = Some x \<longleftrightarrow> v = Num x"
  by (cases v) auto

lemma bitset_okD:
  assumes "bitset_ok B mem"
  shows "mem (bs_New B n) = {}" "mem (bs_Set B i b) = insert i (mem b)" "mem (bs_Clear B i b) = mem b - {i}"
    "mem (bs_Intersection B a b) = mem a \<inter> mem b" "mem (bs_Union B a b) = mem a \<union> mem b"
    "mem (bs_Difference B a b) = mem a - mem b"
    "mem (bs_FlipRange B s e b) = (mem b - {s..<e}) \<union> ({s..<e} - mem b)"
  using assms by (simp_all add: bitset_ok_def)

lemma bm_Set_fields:
  assumes ok: "bitset_ok B mem"
  shows "memo mem (bits (bm_Set B fn f v n idx) key) =
      (if key = compositeKey fn f v then insert n (memo mem (bits idx key)) else memo mem (bits idx key))"
    "maxNodeIdx (bm_Set B fn f v n idx) = max n (maxNodeIdx idx)"
    "nums (bm_Set B fn f v n idx) g = (if g = f then nums idx f @ (case v of Num x \<Rightarrow> [(x, n)] | _ \<Rightarrow> []) else nums idx g)"
  using bitset_okD [OF ok] by (auto simp: bm_Set_def Let_def memo_def split: option.splits any.splits prod.splits)

lemma bm_Set_rep:
  assumes ok: "bitset_ok B mem" and r: "rep mem fn idx M" and f: "nul_free f" "M n f = None"
  shows "rep mem fn (bm_Set B fn f v n idx) (M(n := (M n)(f \<mapsto> v)))"
  unfolding rep_def
proof (intro conjI allI impI)
  note F = bm_Set_fields [OF ok, of fn f v n idx]
  fix g w
  assume g: "nul_free g"
  show "memo mem (bits (bm_Set B fn f v n idx) (compositeKey fn g w)) =
      {k. \<exists>u. (M(n := (M n)(f \<mapsto> v))) k g = Some u \<and> sprint fn u = sprint fn w}"
    unfolding F(1) repD(3) [OF r g] compositeKey_inject [OF g f(1)] using f(2) by auto
next
  note F = bm_Set_fields [OF ok, of fn f v n idx]
  fix k g w assume "(M(n := (M n)(f \<mapsto> v))) k g = Some w"
  then show "nul_free g" "k \<le> maxNodeIdx (bm_Set B fn f v n idx)"
    unfolding F(2) using repD(1,2) [OF r] f(1) by (auto split: if_splits intro: le_max_iff_disj [THEN iffD2])
next
  note F = bm_Set_fields [OF ok, of fn f v n idx]
  fix g
  have new: "(x, n) \<notin> set (nums idx f)" for x using repD(5) [OF r, of f] f(2) by simp
  show "distinct (nums (bm_Set B fn f v n idx) g)"
    unfolding F(3) using repD(4) [OF r] new by (auto split: any.splits)
  show "set (nums (bm_Set B fn f v n idx) g) = {(x, k). (M(n := (M n)(f \<mapsto> v))) k g = Some (Num x)}"
    unfolding F(3) using repD(5) [OF r] f(2) by (auto split: any.splits)
qed

lemma bm_Remove_fields:
  assumes ok: "bitset_ok B mem"
  shows "memo mem (bits (bm_Remove B fn f v n idx) key) =
      (if key = compositeKey fn f v then memo mem (bits idx key) - {n} else memo mem (bits idx key))"
    "maxNodeIdx (bm_Remove B fn f v n idx) = maxNodeIdx idx"
    "nums (bm_Remove B fn f v n idx) g = (if g = f then (case v of Num x \<Rightarrow> remove1 (x, n) (nums idx f) | _ \<Rightarrow> nums idx f) else nums idx g)"
  using bitset_okD [OF ok]
  by (auto simp: bm_Remove_def Let_def memo_def remove1_idem split: option.splits any.splits)

lemma bm_Remove_rep:
  assumes ok: "bitset_ok B mem" and r: "rep mem fn idx M" and f: "M n f = Some v"
  shows "rep mem fn (bm_Remove B fn f v n idx) (M(n := (M n)(f := None)))"
  unfolding rep_def
proof (intro conjI allI impI)
  note F = bm_Remove_fields [OF ok, of fn f v n idx]
  fix g w
  assume g: "nul_free g"
  show "memo mem (bits (bm_Remove B fn f v n idx) (compositeKey fn g w)) =
      {k. \<exists>u. (M(n := (M n)(f := None))) k g = Some u \<and> sprint fn u = sprint fn w}"
    unfolding F(1) repD(3) [OF r g] compositeKey_inject [OF g repD(1) [OF r f]] using f by auto
next
  note F = bm_Remove_fields [OF ok, of fn f v n idx]
  fix k g w assume "(M(n := (M n)(f := None))) k g = Some w"
  then have "M k g = Some w" by (auto split: if_splits)
  then show "nul_free g" "k \<le> maxNodeIdx (bm_Remove B fn f v n idx)"
    unfolding F(2) using repD(1,2) [OF r] by blast+
next
  note F = bm_Remove_fields [OF ok, of fn f v n idx]
  fix g
  show "distinct (nums (bm_Remove B fn f v n idx) g)"
    unfolding F(3) using repD(4) [OF r] by (auto split: any.splits)
  show "set (nums (bm_Remove B fn f v n idx) g) = {(x, k). (M(n := (M n)(f := None))) k g = Some (Num x)}"
    unfolding F(3) using repD(4,5) [OF r] f by (auto split: any.splits)
qed

subsection \<open>Resolution agrees with evaluation\<close>

definition node_count :: "('n, 'b) MetadataBitmapIndex \<Rightarrow> nat" where
  "node_count idx = max (totalNodes idx) (maxNodeIdx idx + 1)"

text \<open>
  The filters the index is meant for: known operators, NUL-free field names, and for the range
  operators a numeric bound and only numeric values in the field (others are compared as text by
  \<open>compareNumeric\<close> and are not in the numeric lists). No branch of a disjunction is empty.
\<close>

definition ff_supported :: "(nat \<Rightarrow> 'n metadata) \<Rightarrow> 'n FieldFilter \<Rightarrow> bool" where
  "ff_supported M ff \<longleftrightarrow> nul_free (Field ff) \<and>
     (Operator ff \<in> {''$eq'', ''$ne'', ''$in'', ''$nin''} \<or>
      Operator ff \<in> {''$gt'', ''$gte'', ''$lt'', ''$lte''} \<and> (\<exists>t. Value ff = Num t) \<and>
        (\<forall>n v. M n (Field ff) = Some v \<longrightarrow> (\<exists>x. v = Num x)))"

fun supported :: "(nat \<Rightarrow> 'n metadata) \<Rightarrow> 'n Filter \<Rightarrow> bool" where
  "supported M (Filter an ors) \<longleftrightarrow> (an \<noteq> [] \<or> ors \<noteq> []) \<and> list_all (ff_supported M) an \<and> list_all (supported M) ors"

definition nums_sorted :: "('n::linorder, 'b) MetadataBitmapIndex \<Rightarrow> bool" where
  "nums_sorted idx \<longleftrightarrow> (\<forall>f. sorted (map fst (nums idx f)))"

lemma mem_allNodes: "bitset_ok B mem \<Longrightarrow> mem (allNodesBitmap B idx) = {..<node_count idx}"
  by (auto simp: allNodesBitmap_def Let_def bitset_okD node_count_def)

lemma mem_collect:
  assumes "bitset_ok B mem"
  shows "mem (collectBitmap B idx es) = snd ` set es"
proof -
  have "mem (fold (\<lambda>(_, n) bm. bs_Set B n bm) es b) = snd ` set es \<union> mem b" for b
    by (induction es arbitrary: b) (auto simp: bitset_okD [OF assms])
  then show ?thesis by (auto simp: collectBitmap_def bitset_okD [OF assms])
qed

lemma memo_union_values:
  assumes "bitset_ok B mem"
  shows "memo mem (union_values B fn idx f vs r) = memo mem r \<union> (\<Union>v \<in> set vs. memo mem (bits idx (compositeKey fn f v)))"
  by (induction vs arbitrary: r) (auto simp: bitset_okD [OF assms] split: option.splits)

lemma memo_range:
  assumes ok: "bitset_ok B mem" and r: "rep mem fn idx M" and s: "nums_sorted idx" and v: "Value ff = Num t"
  shows "memo mem (resolveNumericRange B idx ff) =
    (if Operator ff = ''$gt'' then {n. \<exists>x. M n (Field ff) = Some (Num x) \<and> x > t}
     else if Operator ff = ''$gte'' then {n. \<exists>x. M n (Field ff) = Some (Num x) \<and> x \<ge> t}
     else if Operator ff = ''$lt'' then {n. \<exists>x. M n (Field ff) = Some (Num x) \<and> x < t}
     else if Operator ff = ''$lte'' then {n. \<exists>x. M n (Field ff) = Some (Num x) \<and> x \<le> t}
     else {})"
proof (cases "numericSorted idx (Field ff)")
  case None
  then show ?thesis using repD(5) [OF r, of "Field ff"] by (auto simp: resolveNumericRange_def)
next
  case (Some es)
  have es: "set es = {(x, n). M n (Field ff) = Some (Num x)}" "sorted (map fst es)"
    using repD(5) [OF r, of "Field ff"] s Some by (auto simp: nums_sorted_def) (metis map_get_simps(2))
  have mono: "fst (es ! i) \<le> fst (es ! j)" if "i \<le> j" "j < length es" for i j
    using sorted_nth_mono [OF es(2) that(1)] that by simp
  have gt: "take (sort_search (length es) (\<lambda>i. fst (es ! i) > t)) es = filter (\<lambda>e. \<not> fst e > t) es"
    "drop (sort_search (length es) (\<lambda>i. fst (es ! i) > t)) es = filter (\<lambda>e. fst e > t) es"
    by (rule sort_search_filter [where P = "\<lambda>e. fst e > t"], metis mono less_le_trans)+
  have ge: "take (sort_search (length es) (\<lambda>i. fst (es ! i) \<ge> t)) es = filter (\<lambda>e. \<not> fst e \<ge> t) es"
    "drop (sort_search (length es) (\<lambda>i. fst (es ! i) \<ge> t)) es = filter (\<lambda>e. fst e \<ge> t) es"
    by (rule sort_search_filter [where P = "\<lambda>e. fst e \<ge> t"], metis mono order_trans)+
  have img: "snd ` {e \<in> set es. P e} = {n. \<exists>x. M n (Field ff) = Some (Num x) \<and> P (x, n)}" for P
    using es(1) by (force simp: image_iff)
  show ?thesis
  proof (cases "es = []")
    case True
    then show ?thesis using Some es(1) by (auto simp: resolveNumericRange_def)
  next
    case False
    then show ?thesis
      using Some by (simp add: resolveNumericRange_def v Let_def gt ge mem_collect [OF ok] img not_less not_le)
  qed
qed

lemma memo_field:
  fixes fn :: "'n::linorder \<Rightarrow> string"
  assumes ok: "bitset_ok B mem" and r: "rep mem fn idx M" and s: "nums_sorted idx" and fn: "inj fn"
    and ff: "ff_supported M ff" and n: "n < node_count idx"
  shows "n \<in> memo mem (resolveFieldFilter B fn idx ff) \<longleftrightarrow> ff_Match fn ff (M n)"
proof -
  have f: "nul_free (Field ff)" using ff by (simp add: ff_supported_def)
  note key = repD(3) [OF r f] and eq = compareEqual_sprint [OF fn]
  have un: "memo mem (union_values B fn idx (Field ff) (Values ff) None) =
      {k. \<exists>w. M k (Field ff) = Some w \<and> (\<exists>v \<in> set (Values ff). sprint fn w = sprint fn v)}"
    by (auto simp: memo_union_values [OF ok] key)
  consider (eqs) "Operator ff \<in> {''$eq'', ''$ne''}" | (ins) "Operator ff \<in> {''$in'', ''$nin''}"
    | (num) t where "Operator ff \<in> {''$gt'', ''$gte'', ''$lt'', ''$lte''}" "Value ff = Num t"
      "\<And>w. M n (Field ff) = Some w \<Longrightarrow> \<exists>x. w = Num x"
    using ff by (auto simp: ff_supported_def)
  then show ?thesis
  proof cases
    case eqs
    then show ?thesis using n key [of "Value ff"]
      by (cases "bits idx (compositeKey fn (Field ff) (Value ff))"; cases "M n (Field ff)")
        (auto simp: resolveFieldFilter_def ff_Match_def mem_allNodes [OF ok] bitset_okD [OF ok] eq)
  next
    case ins
    then show ?thesis using n un
      by (cases "union_values B fn idx (Field ff) (Values ff) None"; cases "M n (Field ff)")
        (auto simp: resolveFieldFilter_def ff_Match_def mem_allNodes [OF ok] bitset_okD [OF ok] eq list_ex_iff)
  next
    case num
    then have op: "resolveFieldFilter B fn idx ff = resolveNumericRange B idx ff"
      by (auto simp: resolveFieldFilter_def)
    show ?thesis
    proof (cases "M n (Field ff)")
      case None
      then show ?thesis using num(1) by (auto simp: op memo_range [OF ok r s num(2)] ff_Match_def)
    next
      case (Some w)
      then obtain x where "M n (Field ff) = Some (Num x)" using num(3) by blast
      then show ?thesis using num(1,2)
        by (auto simp: op memo_range [OF ok r s num(2)] ff_Match_def compareNumeric_def not_less)
    qed
  qed
qed

definition all_or :: "('b \<Rightarrow> nat set) \<Rightarrow> 'b option \<Rightarrow> nat set" where
  "all_or mem r = (case r of None \<Rightarrow> UNIV | Some b \<Rightarrow> mem b)"

lemma resolve_and_correct:
  fixes fn :: "'n::linorder \<Rightarrow> string"
  assumes ok: "bitset_ok B mem" and r: "rep mem fn idx M" and s: "nums_sorted idx" and fn: "inj fn"
    and ff: "list_all (ff_supported M) ffs"
  shows "case resolve_and B fn idx ffs res of
      Inl b \<Rightarrow> mem b = {} \<and> (\<forall>n < node_count idx. \<not> list_all (\<lambda>ff. ff_Match fn ff (M n)) ffs)
    | Inr res' \<Rightarrow> (res' = None \<longleftrightarrow> res = None \<and> ffs = []) \<and>
        (\<forall>n < node_count idx. n \<in> all_or mem res' \<longleftrightarrow> n \<in> all_or mem res \<and> list_all (\<lambda>ff. ff_Match fn ff (M n)) ffs)"
  using ff
proof (induction ffs arbitrary: res)
  case (Cons f ffs)
  note m = memo_field [OF ok r s fn, of f]
  show ?case
  proof (cases "resolveFieldFilter B fn idx f")
    case None
    then show ?thesis using m Cons.prems by (auto simp: bitset_okD [OF ok])
  next
    case (Some bm)
    let ?res = "case res of None \<Rightarrow> Some bm | Some r \<Rightarrow> Some (bs_Intersection B r bm)"
    have a: "all_or mem ?res = all_or mem res \<inter> mem bm"
      by (cases res) (auto simp: all_or_def bitset_okD [OF ok])
    have mb: "n \<in> mem bm \<longleftrightarrow> ff_Match fn f (M n)" if "n < node_count idx" for n
      using m that Cons.prems Some by auto
    have "?res \<noteq> None" by (cases res) auto
    with Cons.IH [of ?res] Cons.prems a mb Some show ?thesis
      by (auto split: sum.splits)
  qed
qed simp

lemma memo_or_union:
  assumes ok: "bitset_ok B mem"
  shows "memo mem (or_union B subs r) = memo mem r \<union> (\<Union>s \<in> set subs. memo mem s)"
    "or_union B subs r = None \<longleftrightarrow> r = None \<and> list_all (\<lambda>s. s = None) subs"
  by (induction subs arbitrary: r) (auto simp: bitset_okD [OF ok] split: option.splits)

lemma resolveInner_correct:
  fixes fn :: "'n::linorder \<Rightarrow> string"
  assumes ok: "bitset_ok B mem" and r: "rep mem fn idx M" and s: "nums_sorted idx" and fn: "inj fn"
  shows "supported M f \<Longrightarrow> \<exists>b. resolveInner B fn idx f = Some b \<and> (\<forall>n < node_count idx. n \<in> mem b \<longleftrightarrow> Match fn (M n) f)"
proof (induction f)
  case (Filter an ors)
  have IH: "\<exists>b. resolveInner B fn idx g = Some b \<and> (\<forall>n < node_count idx. n \<in> mem b \<longleftrightarrow> Match fn (M n) g)" if "g \<in> set ors" for g
    using Filter that by (simp add: list_all_iff)
  let ?u = "or_union B (map (resolveInner B fn idx) ors) None"
  have u: "n \<in> memo mem ?u \<longleftrightarrow> list_ex (Match fn (M n)) ors" if "n < node_count idx" for n
    unfolding memo_or_union(1) [OF ok] using IH that by (auto simp: list_ex_iff) (metis memo_simps(2))+
  have un: "?u = None \<longleftrightarrow> ors = []"
    unfolding memo_or_union(2) [OF ok] using IH by (cases ors) auto
  note a = resolve_and_correct [OF ok r s fn, of an None]
  show ?case
  proof (cases "resolve_and B fn idx an None")
    case (Inl e)
    then show ?thesis using a Filter.prems by auto
  next
    case (Inr res)
    then have res: "res = None \<longleftrightarrow> an = []"
      "\<And>n. n < node_count idx \<Longrightarrow> n \<in> all_or mem res \<longleftrightarrow> list_all (\<lambda>ff. ff_Match fn ff (M n)) an"
      using a Filter.prems by (auto simp: all_or_def)
    show ?thesis
    proof (cases "ors = []")
      case True
      then obtain b where "res = Some b" using res(1) Filter.prems by auto
      with True Inr res(2) show ?thesis by (auto simp: all_or_def)
    next
      case False
      then obtain o' where o': "?u = Some o'" using un by auto
      have "n \<in> mem o' \<longleftrightarrow> list_ex (Match fn (M n)) ors" if "n < node_count idx" for n using u [OF that] o' by simp
      with False Inr res(2) o' show ?thesis
        by (cases res) (auto simp: all_or_def bitset_okD [OF ok])
    qed
  qed
qed

text \<open>The histories of an index with the metadata they leave behind: values are set for fields a node does
  not have yet and removed with the value they have; the node count may be raised; searches resolve
  filters in between.\<close>

inductive bm_reach ::
  "'b bitset_ops \<Rightarrow> ('n::linorder \<Rightarrow> string) \<Rightarrow> (('n \<times> nat) list \<Rightarrow> ('n \<times> nat) list) \<Rightarrow>
    ('n, 'b) MetadataBitmapIndex \<Rightarrow> (nat \<Rightarrow> 'n metadata) \<Rightarrow> bool"
  for B fn srt where
  new: "bm_reach B fn srt NewMetadataBitmapIndex (\<lambda>_. Map.empty)"
| set: "bm_reach B fn srt idx M \<Longrightarrow> nul_free f \<Longrightarrow> M n f = None \<Longrightarrow>
    bm_reach B fn srt (bm_Set B fn f v n idx) (M(n := (M n)(f \<mapsto> v)))"
| remove: "bm_reach B fn srt idx M \<Longrightarrow> M n f = Some v \<Longrightarrow>
    bm_reach B fn srt (bm_Remove B fn f v n idx) (M(n := (M n)(f := None)))"
| total: "bm_reach B fn srt idx M \<Longrightarrow> bm_reach B fn srt (SetTotalNodes k idx) M"
| resolve: "bm_reach B fn srt idx M \<Longrightarrow> bm_reach B fn srt (snd (Resolve B fn srt flt idx)) M"

lemma rep_numericSorted:
  assumes "rep mem fn idx M" "\<And>f. mset (nums idx' f) = mset (nums idx f)" "bits idx' = bits idx" "maxNodeIdx idx' = maxNodeIdx idx"
  shows "rep mem fn idx' M"
proof -
  have "distinct (nums idx' f) \<longleftrightarrow> distinct (nums idx f)" "set (nums idx' f) = set (nums idx f)" for f
    using assms(2) by (metis mset_eq_imp_distinct_iff, metis set_mset_mset)
  then show ?thesis using assms(1,3,4) by (simp add: rep_def)
qed

lemma sorted_nums:
  fixes idx :: "('n::linorder, 'b) MetadataBitmapIndex"
  assumes srt: "slice_sorter (\<lambda>a b. fst a < fst b) srt"
  defines "idx' \<equiv> idx\<lparr>numericSorted := (\<lambda>field. map_option srt (numericSorted idx field))\<rparr>"
  shows "mset (nums idx' f) = mset (nums idx f)" "nums_sorted idx'"
proof -
  note S = slice_sorter.mset_srt [OF srt] slice_sorter.sorted_srt [OF srt]
  show "mset (nums idx' f) = mset (nums idx f)"
    using S(1) by (cases "numericSorted idx f") (auto simp: idx'_def)
  have "sorted (map fst (nums idx' f))" for f
    using S(2) by (cases "numericSorted idx f") (auto simp: idx'_def sorted_wrt_map not_less)
  then show "nums_sorted idx'" by (simp add: nums_sorted_def)
qed

lemma bm_reach_rep:
  assumes "bitset_ok B mem" "slice_sorter (\<lambda>a b. fst a < fst b) srt" "bm_reach B fn srt idx M"
  shows "rep mem fn idx M"
  using assms(3)
proof induction
  case new
  then show ?case by (auto simp: rep_def NewMetadataBitmapIndex_def)
next
  case (total idx M k)
  then show ?case by (simp add: rep_def SetTotalNodes_def)
next
  case (resolve idx M flt)
  then show ?case
    by (auto simp: Resolve_def Let_def split: option.splits
        intro: rep_numericSorted [OF resolve.IH] sorted_nums(1) [OF assms(2)])
qed (blast intro: bm_Set_rep [OF assms(1)] bm_Remove_rep [OF assms(1)])+

text \<open>C14. The bitmap path of filtered search is equivalent to evaluating the filter: in every reachable index,
  for every supported filter and any bit set library, sort and number formatting that meet their
  contracts, \<open>Resolve\<close> returns a bitmap in which exactly those of the known nodes are set whose
  metadata \<open>Match\<close> accepts, nodes without the field included.\<close>
theorem Resolve_equals_Match:
  assumes "bitset_ok B mem" "slice_sorter (\<lambda>a b. fst a < fst b) srt" "inj fn" "bm_reach B fn srt idx M" "supported M f"
  shows "\<exists>b. fst (Resolve B fn srt (Some f) idx) = Some b \<and>
    (\<forall>n < node_count idx. n \<in> mem b \<longleftrightarrow> Match fn (M n) f)"
proof -
  let ?idx = "idx\<lparr>numericSorted := (\<lambda>field. map_option srt (numericSorted idx field))\<rparr>"
  have "rep mem fn ?idx M"
    by (rule rep_numericSorted [OF bm_reach_rep [OF assms(1,2,4)]], rule sorted_nums(1) [OF assms(2)]) simp_all
  from resolveInner_correct [OF assms(1) this sorted_nums(2) [OF assms(2)] assms(3,5)]
  show ?thesis by (simp add: Resolve_def node_count_def Let_def)
qed

definition set_ops :: "nat set bitset_ops" where
  "set_ops = \<lparr>bs_New = (\<lambda>_. {}), bs_Set = insert, bs_Clear = (\<lambda>i b. b - {i}), bs_Intersection = (\<inter>), bs_Union = (\<union>),
     bs_Difference = (-), bs_FlipRange = (\<lambda>s e b. (b - {s..<e}) \<union> ({s..<e} - b))\<rparr>"

lemma set_ops_ok: "bitset_ok set_ops id"
  by (simp add: bitset_ok_def set_ops_def)

theorem Resolve_equals_Match_witness:
  "\<exists>idx b. fst (Resolve set_ops itoa (sort_key fst)
       (Some (Filter [field_filter ''year'' ''$gte'' (Num 2020) [], field_filter ''lang'' ''$ne'' (Str ''de'') []] [])) idx) = Some b \<and>
     (3 \<in> b \<longleftrightarrow> Match itoa [''year'' \<mapsto> Num (2021 :: nat)]
        (Filter [field_filter ''year'' ''$gte'' (Num 2020) [], field_filter ''lang'' ''$ne'' (Str ''de'') []] []))"
proof -
  let ?M = "(\<lambda>_. Map.empty)(3 := [''year'' \<mapsto> Num (2021 :: nat)])"
  let ?idx = "bm_Set set_ops itoa ''year'' (Num 2021) 3 NewMetadataBitmapIndex"
  have "bm_reach set_ops itoa (sort_key fst) ?idx ((\<lambda>_. Map.empty)(3 := (Map.empty)(''year'' \<mapsto> Num (2021 :: nat))))"
    by (rule bm_reach.set [OF bm_reach.new]) (simp_all add: nul_free_def)
  then have "bm_reach set_ops itoa (sort_key fst) ?idx ?M" by simp
  moreover have "slice_sorter (\<lambda>a b. fst a < fst b) (sort_key fst :: (nat \<times> nat) list \<Rightarrow> _)" by (rule asc.slice_sorter_axioms)
  moreover have "inj itoa" by (simp add: inj_def)
  moreover have "3 < node_count ?idx"
    by (simp add: node_count_def bm_Set_def NewMetadataBitmapIndex_def Let_def)
  moreover have "supported ?M (Filter [field_filter ''year'' ''$gte'' (Num 2020) [], field_filter ''lang'' ''$ne'' (Str ''de'') []] [])"
    by (auto simp: ff_supported_def field_filter_def nul_free_def)
  ultimately show ?thesis
    using Resolve_equals_Match [OF set_ops_ok, of "sort_key fst" itoa ?idx ?M
        "Filter [field_filter ''year'' ''$gte'' (Num 2020) [], field_filter ''lang'' ''$ne'' (Str ''de'') []] []"]
    by (metis (no_types, lifting) fun_upd_same id_apply)
qed

end
