(* ===== verification/Segment_Cache.thy ===== *)
theory Segment_Cache
  imports Go_Prelude
begin

section \<open>The segment cache\<close>

text \<open>
  Models \<open>internal/cache/segment_cache.go\<close>: an LRU cache of byte strings with second-access admission.
  A list element of \<open>lru\<close> or \<open>seenLRU\<close> is identified by its key, front first; the entry an element
  points to is the entry of that key. Sizes are integers.
\<close>

record entry =
  val_of :: bytes
  size_of :: int

record SegmentCache =
  entries :: "string \<rightharpoonup> entry"
  lru :: "string list"
  maxBytes :: int
  currentBytes :: int
  seenLRU :: "string list"
  seenFilter :: "string set"
  maxSeenKeys :: nat

definition NewSegmentCache :: "int \<Rightarrow> SegmentCache" where
  "NewSegmentCache m = \<lparr>entries = Map.empty, lru = [], maxBytes = m, currentBytes = 0,
     seenLRU = [], seenFilter = {}, maxSeenKeys = 100000\<rparr>"

definition MoveToFront :: "string \<Rightarrow> string list \<Rightarrow> string list" where
  "MoveToFront k xs = k # remove1 k xs"

definition cache_Get :: "string \<Rightarrow> SegmentCache \<Rightarrow> bytes option \<times> SegmentCache" where
  "cache_Get key c =
     (case entries c key of Some e \<Rightarrow> (Some (val_of e), c\<lparr>lru := MoveToFront key (lru c)\<rparr>)
      | None \<Rightarrow> (None, c))"

definition evictLRU :: "SegmentCache \<Rightarrow> SegmentCache" where
  "evictLRU c =
     (if lru c = [] then c
      else let k = last (lru c); es = (case entries c k of Some e \<Rightarrow> size_of e | None \<Rightarrow> 0) in
        c\<lparr>lru := butlast (lru c), currentBytes := currentBytes c - es, entries := (entries c)(k := None)\<rparr>)"

function evict_loop :: "int \<Rightarrow> SegmentCache \<Rightarrow> SegmentCache" where
  "evict_loop sz c =
     (if currentBytes c + sz > maxBytes c \<and> length (lru c) > 0 then evict_loop sz (evictLRU c) else c)"
  by pat_completeness auto
termination
  by (relation "measure (\<lambda>(_, c). length (lru c))") (auto simp: evictLRU_def Let_def)

declare evict_loop.simps [simp del]

definition forget_seen :: "string \<Rightarrow> SegmentCache \<Rightarrow> SegmentCache" where
  "forget_seen key c =
     (if key \<in> seenFilter c
      then c\<lparr>seenLRU := remove1 key (seenLRU c), seenFilter := seenFilter c - {key}\<rparr> else c)"

definition note_seen :: "string \<Rightarrow> SegmentCache \<Rightarrow> SegmentCache" where
  "note_seen key c =
     (let c = (if length (seenLRU c) \<ge> maxSeenKeys c then
           (if seenLRU c = [] then c
            else c\<lparr>seenFilter := seenFilter c - {last (seenLRU c)}, seenLRU := butlast (seenLRU c)\<rparr>)
           else c) in
      c\<lparr>seenLRU := key # seenLRU c, seenFilter := insert key (seenFilter c)\<rparr>)"

definition cache_Put :: "string \<Rightarrow> bytes \<Rightarrow> SegmentCache \<Rightarrow> bool \<times> SegmentCache" where
  "cache_Put key v c =
     (case entries c key of
        Some e \<Rightarrow>
          (True, c\<lparr>currentBytes := currentBytes c - size_of e + int (length v),
             entries := (entries c)(key \<mapsto> \<lparr>val_of = v, size_of = int (length v)\<rparr>),
             lru := MoveToFront key (lru c)\<rparr>)
      | None \<Rightarrow>
          if key \<notin> seenFilter c then (False, note_seen key c)
          else
            let sz = int (length v); c = evict_loop sz (forget_seen key c) in
            if sz > maxBytes c then (False, c)
            else (True, c\<lparr>lru := key # lru c, entries := (entries c)(key \<mapsto> \<lparr>val_of = v, size_of = sz\<rparr>),
                currentBytes := currentBytes c + sz\<rparr>))"

definition cache_Remove :: "string \<Rightarrow> SegmentCache \<Rightarrow> SegmentCache" where
  "cache_Remove key c =
     forget_seen key
       (case entries c key of None \<Rightarrow> c
        | Some e \<Rightarrow> c\<lparr>lru := remove1 key (lru c), currentBytes := currentBytes c - size_of e,
            entries := (entries c)(key := None)\<rparr>)"

definition cache_Clear :: "SegmentCache \<Rightarrow> SegmentCache" where
  "cache_Clear c = c\<lparr>entries := Map.empty, lru := [], currentBytes := 0, seenFilter := {}, seenLRU := []\<rparr>"

definition cache_Len :: "SegmentCache \<Rightarrow> nat" where
  "cache_Len c = card (dom (entries c))"

subsection \<open>Invariant\<close>

definition entry_bytes :: "(string \<rightharpoonup> entry) \<Rightarrow> string list \<Rightarrow> int" where
  "entry_bytes m ks = sum_list (map (\<lambda>k. case m k of Some e \<Rightarrow> size_of e | None \<Rightarrow> 0) ks)"

definition cache_inv :: "SegmentCache \<Rightarrow> bool" where
  "cache_inv c \<longleftrightarrow> distinct (lru c) \<and> set (lru c) = dom (entries c) \<and>
     (\<forall>k e. entries c k = Some e \<longrightarrow> size_of e = int (length (val_of e))) \<and>
     currentBytes c = entry_bytes (entries c) (lru c) \<and>
     distinct (seenLRU c) \<and> set (seenLRU c) = seenFilter c \<and> length (seenLRU c) \<le> maxSeenKeys c \<and> 0 < maxSeenKeys c"

lemma cache_invD:
  assumes "cache_inv c"
  shows "distinct (lru c)" "set (lru c) = dom (entries c)" "entries c k = Some e \<Longrightarrow> size_of e = int (length (val_of e))"
    "currentBytes c = entry_bytes (entries c) (lru c)" "distinct (seenLRU c)" "set (seenLRU c) = seenFilter c"
    "length (seenLRU c) \<le> maxSeenKeys c" "0 < maxSeenKeys c"
  using assms unfolding cache_inv_def by blast+

lemma entry_bytes_simps [simp]:
  "entry_bytes m [] = 0"
  "entry_bytes m (k # ks) = (case m k of Some e \<Rightarrow> size_of e | None \<Rightarrow> 0) + entry_bytes m ks"
  "entry_bytes m (ks @ ks') = entry_bytes m ks + entry_bytes m ks'"
  by (simp_all add: entry_bytes_def)

lemma entry_bytes_upd [simp]: "k \<notin> set ks \<Longrightarrow> entry_bytes (m(k := x)) ks = entry_bytes m ks"
  by (auto simp: entry_bytes_def intro!: arg_cong [where f = sum_list] map_cong)

lemma entry_bytes_remove1:
  "k \<in> set ks \<Longrightarrow> entry_bytes m ks = (case m k of Some e \<Rightarrow> size_of e | None \<Rightarrow> 0) + entry_bytes m (remove1 k ks)"
  by (induction ks) auto

lemma last_not_butlast: "distinct xs \<Longrightarrow> xs \<noteq> [] \<Longrightarrow> last xs \<notin> set (butlast xs)"
  by (metis append_butlast_last_id distinct_append not_distinct_conv_prefix disjoint_insert(1) list.simps(15))

lemma set_butlast: "distinct xs \<Longrightarrow> xs \<noteq> [] \<Longrightarrow> set (butlast xs) = set xs - {last xs}"
proof -
  assume a: "distinct xs" "xs \<noteq> []"
  then have "set xs = insert (last xs) (set (butlast xs))"
    by (metis append_butlast_last_id list.simps(15) rotate1.simps(2) set_rotate1)
  with last_not_butlast [OF a] show ?thesis by auto
qed

lemma entry_bytes_butlast:
  assumes "xs \<noteq> []"
  shows "entry_bytes m xs = entry_bytes m (butlast xs) + (case m (last xs) of Some e \<Rightarrow> size_of e | None \<Rightarrow> 0)"
  using arg_cong [OF append_butlast_last_id [OF assms], of "entry_bytes m"] by simp

lemma evictLRU_inv:
  assumes "cache_inv c"
  shows "cache_inv (evictLRU c)"
proof (cases "lru c = []")
  case False
  note i = cache_invD [OF assms] and ln = last_not_butlast [OF i(1) False]
  show ?thesis
    using i ln set_butlast [OF i(1) False] entry_bytes_butlast [OF False, of "entries c"] False
    by (auto simp: cache_inv_def evictLRU_def Let_def distinct_butlast)
qed (simp add: evictLRU_def assms)

lemma note_seen_inv:
  assumes "cache_inv c" "key \<notin> seenFilter c"
  shows "cache_inv (note_seen key c)"
proof -
  note i = cache_invD [OF assms(1)]
  show ?thesis
  proof (cases "length (seenLRU c) \<ge> maxSeenKeys c")
    case True
    then have ne: "seenLRU c \<noteq> []" using i(8) by auto
    note ln = last_not_butlast [OF i(5) ne] and sb = set_butlast [OF i(5) ne]
    have "key \<notin> set (butlast (seenLRU c))" using assms(2) i(6) sb by auto
    then show ?thesis
      using assms i sb True ne by (auto simp: note_seen_def cache_inv_def Let_def distinct_butlast)
  next
    case False
    then show ?thesis using assms i by (auto simp: note_seen_def cache_inv_def Let_def)
  qed
qed

lemma forget_seen_inv: "cache_inv c \<Longrightarrow> cache_inv (forget_seen key c)"
  by (auto simp: forget_seen_def cache_inv_def set_remove1_eq length_remove1)

lemma MoveToFront_facts:
  assumes "cache_inv c" "key \<in> dom (entries c)"
  shows "distinct (MoveToFront key (lru c))" "set (MoveToFront key (lru c)) = dom (entries c)"
    "currentBytes c = (case entries c key of Some e \<Rightarrow> size_of e | None \<Rightarrow> 0) + entry_bytes (entries c) (remove1 key (lru c))"
    "key \<notin> set (remove1 key (lru c))"
  using cache_invD [OF assms(1)] assms(2) entry_bytes_remove1 [of key "lru c" "entries c"]
  by (auto simp: MoveToFront_def set_remove1_eq)

subsection \<open>Eviction\<close>

text \<open>The loop keeps the longest most-recent prefix that leaves room, and drops the entries of the rest.\<close>

lemma evict_loop_spec:
  assumes "cache_inv c"
  shows "\<exists>m \<le> length (lru c). cache_inv (evict_loop sz c) \<and> lru (evict_loop sz c) = take m (lru c) \<and>
    entries (evict_loop sz c) = entries c |` set (take m (lru c)) \<and>
    (currentBytes (evict_loop sz c) + sz \<le> maxBytes c \<or> m = 0) \<and>
    (m < length (lru c) \<longrightarrow> entry_bytes (entries c) (take (m + 1) (lru c)) + sz > maxBytes c) \<and>
    maxBytes (evict_loop sz c) = maxBytes c \<and> seenFilter (evict_loop sz c) = seenFilter c"
  using assms
proof (induction "length (lru c)" arbitrary: c rule: less_induct)
  case less
  note i = cache_invD [OF less.prems]
  show ?case
  proof (cases "currentBytes c + sz > maxBytes c \<and> length (lru c) > 0")
    case False
    then have "evict_loop sz c = c" using evict_loop.simps [of sz c] by (simp only: if_False)
    then show ?thesis using False less.prems i(2)
      by (intro exI [of _ "length (lru c)"]) (auto simp: restrict_map_def dom_def fun_eq_iff)
  next
    case True
    define d where "d = evictLRU c"
    have ne: "lru c \<noteq> []" using True by auto
    have eq: "evict_loop sz c = evict_loop sz d" using True by (subst evict_loop.simps) (simp add: d_def)
    have d: "lru d = butlast (lru c)" "entries d = (entries c)(last (lru c) := None)" "maxBytes d = maxBytes c"
      "seenFilter d = seenFilter c" "cache_inv d"
      using ne evictLRU_inv [OF less.prems] by (auto simp: d_def evictLRU_def Let_def)
    obtain m where m: "m \<le> length (lru d)" "cache_inv (evict_loop sz d)" "lru (evict_loop sz d) = take m (lru d)"
      "entries (evict_loop sz d) = entries d |` set (take m (lru d))"
      "currentBytes (evict_loop sz d) + sz \<le> maxBytes d \<or> m = 0"
      "m < length (lru d) \<longrightarrow> entry_bytes (entries d) (take (m + 1) (lru d)) + sz > maxBytes d"
      "maxBytes (evict_loop sz d) = maxBytes d" "seenFilter (evict_loop sz d) = seenFilter d"
      using less.hyps [of d] d(1,5) ne by auto
    have "length (lru d) = length (lru c) - 1" "0 < length (lru c)" using ne by (simp_all add: d(1))
    then have lt: "m < length (lru c)" using m(1) by linarith
    have tk: "take k (lru d) = take k (lru c)" if "k < length (lru c)" for k
      using that by (simp add: d(1) take_butlast)
    have ln: "last (lru c) \<notin> set (take k (lru c))" if "k < length (lru c)" for k
      using last_not_butlast [OF i(1) ne] that by (metis in_set_takeD take_butlast)
    have "entries d |` set (take m (lru d)) = entries c |` set (take m (lru c))"
      using ln [OF lt] by (auto simp: tk [OF lt] d(2) restrict_map_def fun_eq_iff)
    moreover have "entry_bytes (entries c) (take (m + 1) (lru c)) + sz > maxBytes c"
    proof (cases "m < length (lru d)")
      case True
      then have "m + 1 < length (lru c)" using d(1) ne by (simp add: less_diff_conv)
      with True m(6) show ?thesis using tk ln d(2,3) by simp
    next
      case False
      then have "m + 1 = length (lru c)" using m(1) lt d(1) by simp
      then show ?thesis using True i(4) by simp
    qed
    ultimately show ?thesis
      unfolding eq using m d lt tk [OF lt] by (intro exI [of _ m]) auto
  qed
qed

lemma cache_Put_inv: "cache_inv c \<Longrightarrow> cache_inv (snd (cache_Put key v c))"
proof -
  assume inv: "cache_inv c"
  note i = cache_invD [OF inv]
  consider (hit) e where "entries c key = Some e" | (first) "entries c key = None" "key \<notin> seenFilter c"
    | (second) "entries c key = None" "key \<in> seenFilter c" by blast
  then show ?thesis
  proof cases
    case hit
    then have "key \<in> dom (entries c)" by auto
    note f = MoveToFront_facts [OF inv this]
    show ?thesis using hit f i by (auto simp: cache_Put_def cache_inv_def MoveToFront_def)
  next
    case first
    then show ?thesis using note_seen_inv [OF inv] by (simp add: cache_Put_def domIff)
  next
    case second
    define d where "d = evict_loop (int (length v)) (forget_seen key c)"
    have fe: "entries (forget_seen key c) = entries c" by (simp add: forget_seen_def)
    obtain m where d: "cache_inv d" "entries d = entries c |` set (take m (lru (forget_seen key c)))"
      using evict_loop_spec [OF forget_seen_inv [OF inv], where key1 = key and sz = "int (length v)"] fe unfolding d_def by auto
    then have "key \<notin> dom (entries d)" using second(1) by (simp add: restrict_map_def domIff)
    then show ?thesis
      using second cache_invD [OF d(1)] d(1)
      by (auto simp: cache_Put_def Let_def d_def [symmetric] cache_inv_def domIff)
  qed
qed

inductive cache_reach :: "SegmentCache \<Rightarrow> bool" where
  new: "cache_reach (NewSegmentCache m)"
| get: "cache_reach c \<Longrightarrow> cache_reach (snd (cache_Get k c))"
| put: "cache_reach c \<Longrightarrow> cache_reach (snd (cache_Put k v c))"
| remove: "cache_reach c \<Longrightarrow> cache_reach (cache_Remove k c)"
| clear: "cache_reach c \<Longrightarrow> cache_reach (cache_Clear c)"

lemma cache_reach_inv: "cache_reach c \<Longrightarrow> cache_inv c"
proof (induction rule: cache_reach.induct)
  case (get c k)
  show ?case
  proof (cases "entries c k")
    case (Some e)
    then have "k \<in> dom (entries c)" by auto
    note f = MoveToFront_facts [OF get.IH this]
    show ?thesis using Some f cache_invD [OF get.IH] by (auto simp: cache_Get_def cache_inv_def MoveToFront_def)
  qed (simp add: cache_Get_def get.IH)
next
  case (remove c k)
  have "cache_inv (case entries c k of None \<Rightarrow> c | Some e \<Rightarrow> c\<lparr>lru := remove1 k (lru c), currentBytes := currentBytes c - size_of e,
            entries := (entries c)(k := None)\<rparr>)"
  proof (cases "entries c k")
    case (Some e)
    then have "k \<in> dom (entries c)" by auto
    note f = MoveToFront_facts [OF remove.IH this]
    show ?thesis using Some f cache_invD [OF remove.IH] by (auto simp: cache_inv_def set_remove1_eq)
  qed (simp add: remove.IH)
  then show ?case unfolding cache_Remove_def by (rule forget_seen_inv)
next
  case (clear c)
  then show ?case using cache_invD [OF clear.IH] by (simp add: cache_inv_def cache_Clear_def)
qed (auto intro: cache_Put_inv, simp add: cache_inv_def NewSegmentCache_def)

text \<open>C28. In every reachable cache the recency list enumerates the entries, the byte counter is the sum of
  the cached lengths and the seen list never exceeds its bound; and \<open>Put\<close> behaves as documented:
  a cached key is updated; an unseen key is only noted; a key seen before is cached if it fits, at
  the front, and the entries that stay are exactly the longest most-recently-used prefix that leaves
  room for it, with the total within the budget.\<close>
theorem cache_Put_admission:
  assumes "cache_reach c" "cache_Put key v c = (ok, c')"
  shows "distinct (lru c) \<and> set (lru c) = dom (entries c) \<and> currentBytes c = entry_bytes (entries c) (lru c) \<and>
    length (seenLRU c) \<le> maxSeenKeys c \<and> cache_reach c' \<and>
    (if key \<in> dom (entries c) then ok \<and> fst (cache_Get key c') = Some v
     else if key \<notin> seenFilter c then \<not> ok \<and> entries c' = entries c \<and> key \<in> seenFilter c'
     else (ok \<longleftrightarrow> int (length v) \<le> maxBytes c) \<and>
       (\<exists>m \<le> length (lru c).
          (m < length (lru c) \<longrightarrow> entry_bytes (entries c) (take (m + 1) (lru c)) + int (length v) > maxBytes c) \<and>
          (if ok then lru c' = key # take m (lru c) \<and> currentBytes c' \<le> maxBytes c' \<and>
             entries c' = (entries c |` set (take m (lru c)))(key \<mapsto> \<lparr>val_of = v, size_of = int (length v)\<rparr>)
           else entries c' = entries c |` set (take m (lru c)))))"
proof -
  have inv: "cache_inv c" by (rule cache_reach_inv [OF assms(1)])
  note i = cache_invD [OF inv]
  define f where "f = forget_seen key c"
  have f: "cache_inv f" "entries f = entries c" "lru f = lru c" "maxBytes f = maxBytes c"
    using forget_seen_inv [OF inv] by (auto simp: f_def forget_seen_def)
  define d where "d = evict_loop (int (length v)) f"
  obtain m where m: "m \<le> length (lru c)" "cache_inv d" "lru d = take m (lru c)" "entries d = entries c |` set (take m (lru c))"
    "currentBytes d + int (length v) \<le> maxBytes c \<or> m = 0"
    "m < length (lru c) \<longrightarrow> entry_bytes (entries c) (take (m + 1) (lru c)) + int (length v) > maxBytes c" "maxBytes d = maxBytes c"
    using evict_loop_spec [OF f(1), of "int (length v)"] unfolding f d_def by blast
  have z: "m = 0 \<Longrightarrow> currentBytes d = 0" using cache_invD(4) [OF m(2)] m(3) by simp
  have r: "cache_reach c'" using cache_reach.put [OF assms(1), of key v] assms(2) by simp
  show ?thesis
  proof (cases "key \<in> dom (entries c) \<or> key \<notin> seenFilter c")
    case True
    then show ?thesis using i assms(2) r
      by (cases "entries c key") (auto simp: cache_Put_def cache_Get_def note_seen_def Let_def)
  next
    case False
    then have p: "(ok, c') = (if int (length v) > maxBytes d then (False, d)
        else (True, d\<lparr>lru := key # lru d, entries := (entries d)(key \<mapsto> \<lparr>val_of = v, size_of = int (length v)\<rparr>),
                currentBytes := currentBytes d + int (length v)\<rparr>))"
      using assms(2) by (auto simp: cache_Put_def Let_def d_def f_def domIff)
    show ?thesis
    proof (cases "int (length v) \<le> maxBytes c")
      case True
      then show ?thesis using p m z i r False by (auto intro!: exI [of _ m])
    next
      case big: False
      then show ?thesis using p m i r False by (auto intro!: exI [of _ m])
    qed
  qed
qed

theorem cache_Put_admission_witness:
  "\<exists>c'. cache_Put ''b'' [2, 2] (snd (cache_Put ''b'' [2, 2] (snd (cache_Put ''a'' [1] (snd (cache_Put ''a'' [1] (NewSegmentCache 2))))))) = (True, c') \<and>
    hd (lru c') = ''b'' \<and> currentBytes c' \<le> maxBytes c'"
proof -
  define c where "c = snd (cache_Put ''b'' [2, 2] (snd (cache_Put ''a'' [1] (snd (cache_Put ''a'' [1] (NewSegmentCache 2))))))"
  have c: "lru c = [''a'']" "''b'' \<notin> dom (entries c)" "''b'' \<in> seenFilter c" "maxBytes c = 2"
    "entry_bytes (entries c) (take 1 (lru c)) = 1"
    by (simp_all add: c_def cache_Put_def NewSegmentCache_def note_seen_def forget_seen_def Let_def evict_loop.simps)
  have r: "cache_reach c" unfolding c_def by (intro cache_reach.intros)
  obtain ok c' where p: "cache_Put ''b'' [2, 2] c = (ok, c')" by fastforce
  have nb: "(''b'' \<in> dom (entries c)) = False" "(''b'' \<notin> seenFilter c) = False" using c by blast+
  have "int (length [2, 2 :: u8]) \<le> maxBytes c" by (simp add: c)
  with cache_Put_admission [OF r p] have "ok \<and> (\<exists>m. lru c' = ''b'' # take m (lru c) \<and> currentBytes c' \<le> maxBytes c')"
    by (simp only: nb if_False) (elim conjE exE, simp, blast)
  with p have "cache_Put ''b'' [2, 2] c = (True, c') \<and> hd (lru c') = ''b'' \<and> currentBytes c' \<le> maxBytes c'" by auto
  then show ?thesis unfolding c_def by blast
qed

text \<open>The byte budget is not kept by updates: \<open>Put\<close> on a cached key replaces the value without
  evicting, so one update takes the cache above \<open>maxBytes\<close>. And a value larger than the budget is
  refused only after everything else was evicted to make room for it.\<close>
theorem cache_budget_defects:
  "\<exists>c. cache_reach c \<and> currentBytes c \<le> maxBytes c \<and> fst (cache_Put ''a'' [1, 2, 3] c) \<and>
     currentBytes (snd (cache_Put ''a'' [1, 2, 3] c)) > maxBytes (snd (cache_Put ''a'' [1, 2, 3] c)) \<and>
     \<not> fst (cache_Put ''b'' [1, 2, 3] (snd (cache_Put ''b'' [1, 2, 3] c))) \<and>
     entries (snd (cache_Put ''b'' [1, 2, 3] (snd (cache_Put ''b'' [1, 2, 3] c)))) = Map.empty \<and> cache_Len c = 1"
proof -
  define c where "c = snd (cache_Put ''a'' [1] (snd (cache_Put ''a'' [1] (NewSegmentCache 2))))"
  have "cache_reach c" unfolding c_def by (intro cache_reach.intros)
  then show ?thesis
    by (intro exI [of _ c]) (simp add: c_def cache_Put_def NewSegmentCache_def note_seen_def forget_seen_def Let_def
        evict_loop.simps evictLRU_def MoveToFront_def cache_Len_def)
qed

end
