(* ===== verification/Admission.thy ===== *)
theory Admission
  imports Errors
begin

section \<open>Admission-controlled object storage\<close>

text \<open>
  Models \<open>internal/storage/admission.go\<close>: the per-prefix admission controller with its wait queues, the
  key prefixes, the in-memory object store and the admitted store.

  A caller of \<open>Acquire\<close> is identified by the channel it makes, a number. The sections under the mutex
  are atomic operations: the first part of \<open>Acquire\<close>, the cancellation branch, and \<open>Release\<close>;
  receiving from the channel is a step of its own. The channel of a caller holds at most one token.
\<close>

type_synonym waiter = nat

record AdmissionController =
  inFlight :: "string \<rightharpoonup> int"
  maxPerPrefix :: int
  waitQueues :: "string \<Rightarrow> waiter list"
  tokens :: "waiter \<Rightarrow> nat" \<comment> \<open>what each channel holds\<close>
  totalAcquires :: nat
  totalWaits :: nat
  totalTimeouts :: nat

definition NewAdmissionController :: "int \<Rightarrow> AdmissionController" where
  "NewAdmissionController m = \<lparr>inFlight = Map.empty, maxPerPrefix = m, waitQueues = (\<lambda>_. []), tokens = (\<lambda>_. 0),
     totalAcquires = 0, totalWaits = 0, totalTimeouts = 0\<rparr>"

definition InFlight :: "string \<Rightarrow> AdmissionController \<Rightarrow> int" where
  "InFlight p ac = map_get 0 (inFlight ac) p"

definition QueueDepth :: "string \<Rightarrow> AdmissionController \<Rightarrow> nat" where
  "QueueDepth p ac = length (waitQueues ac p)"

definition drop_slot :: "string \<Rightarrow> AdmissionController \<Rightarrow> AdmissionController" where
  "drop_slot p ac =
     (let n = InFlight p ac - 1 in
      ac\<lparr>inFlight := (inFlight ac)(p := (if n = 0 then None else Some n))\<rparr>)"

definition Acquire_enter :: "waiter \<Rightarrow> string \<Rightarrow> AdmissionController \<Rightarrow> bool \<times> AdmissionController" where
  \<comment> \<open>up to the \<open>select\<close>: whether a slot was free\<close>
  "Acquire_enter w p ac =
     (let ac = ac\<lparr>totalAcquires := totalAcquires ac + 1\<rparr> in
      if InFlight p ac < maxPerPrefix ac
      then (True, ac\<lparr>inFlight := (inFlight ac)(p \<mapsto> InFlight p ac + 1)\<rparr>)
      else (False, ac\<lparr>totalWaits := totalWaits ac + 1,
          waitQueues := (waitQueues ac)(p := waitQueues ac p @ [w]), tokens := (tokens ac)(w := 0)\<rparr>))"

definition Acquire_recv :: "waiter \<Rightarrow> AdmissionController \<Rightarrow> AdmissionController option" where
  \<comment> \<open>\<open>case <-ch\<close>: enabled when the channel holds a token\<close>
  "Acquire_recv w ac = (if tokens ac w = 0 then None else Some (ac\<lparr>tokens := (tokens ac)(w := tokens ac w - 1)\<rparr>))"

definition Acquire_cancel :: "waiter \<Rightarrow> string \<Rightarrow> AdmissionController \<Rightarrow> AdmissionController" where
  \<comment> \<open>\<open>case <-ctx.Done()\<close>\<close>
  "Acquire_cancel w p ac =
     (let ac = ac\<lparr>totalTimeouts := totalTimeouts ac + 1,
            waitQueues := (waitQueues ac)(p := remove1 w (waitQueues ac p))\<rparr> in
      if tokens ac w = 0 then ac
      else drop_slot p (ac\<lparr>tokens := (tokens ac)(w := tokens ac w - 1)\<rparr>))"

definition Release :: "string \<Rightarrow> AdmissionController \<Rightarrow> AdmissionController" where
  "Release p ac =
     (case waitQueues ac p of
        ch # q \<Rightarrow> ac\<lparr>waitQueues := (waitQueues ac)(p := q), tokens := (tokens ac)(ch := tokens ac ch + 1)\<rparr>
      | [] \<Rightarrow> drop_slot p ac)"

subsection \<open>Callers and the controller\<close>

datatype status = Idle | Waiting string | Holding string

text \<open>One step of the system: the callers' statuses are \<open>S\<close>. A caller uses a fresh channel every time it
  queues, so while it is idle its channel is empty.\<close>

inductive ac_step ::
  "AdmissionController \<times> (waiter \<Rightarrow> status) \<Rightarrow> AdmissionController \<times> (waiter \<Rightarrow> status) \<Rightarrow> bool" where
  enter: "S w = Idle \<Longrightarrow> Acquire_enter w p ac = (free, ac') \<Longrightarrow>
    ac_step (ac, S) (ac', S(w := (if free then Holding p else Waiting p)))"
| recv: "S w = Waiting p \<Longrightarrow> Acquire_recv w ac = Some ac' \<Longrightarrow> ac_step (ac, S) (ac', S(w := Holding p))"
| cancel: "S w = Waiting p \<Longrightarrow> ac_step (ac, S) (Acquire_cancel w p ac, S(w := Idle))"
| release: "S w = Holding p \<Longrightarrow> ac_step (ac, S) (Release p ac, S(w := Idle))"

inductive_cases ac_stepE: "ac_step (ac, S) s'"

inductive ac_reach :: "int \<Rightarrow> AdmissionController \<times> (waiter \<Rightarrow> status) \<Rightarrow> bool" for m where
  init: "ac_reach m (NewAdmissionController m, \<lambda>_. Idle)"
| step: "ac_reach m s \<Longrightarrow> ac_step s s' \<Longrightarrow> ac_reach m s'"

definition owners :: "AdmissionController \<Rightarrow> (waiter \<Rightarrow> status) \<Rightarrow> string \<Rightarrow> waiter set" where
  \<comment> \<open>callers that hold a slot of the prefix or have been handed one\<close>
  "owners ac S p = {w. S w = Holding p \<or> S w = Waiting p \<and> tokens ac w = 1}"

definition ac_inv :: "AdmissionController \<Rightarrow> (waiter \<Rightarrow> status) \<Rightarrow> bool" where
  "ac_inv ac S \<longleftrightarrow>
     (\<forall>p. finite (owners ac S p) \<and> InFlight p ac = int (card (owners ac S p)) \<and>
        (InFlight p ac \<le> max 0 (maxPerPrefix ac)) \<and> inFlight ac p \<noteq> Some 0 \<and>
        distinct (waitQueues ac p) \<and> set (waitQueues ac p) = {w. S w = Waiting p \<and> tokens ac w = 0}) \<and>
     (\<forall>w. tokens ac w \<le> 1 \<and> (tokens ac w = 1 \<longrightarrow> (\<exists>p. S w = Waiting p)))"

lemma InFlight_simps [simp]:
  "InFlight p (ac\<lparr>waitQueues := qs\<rparr>) = InFlight p ac" "InFlight p (ac\<lparr>tokens := t\<rparr>) = InFlight p ac"
  "InFlight p (ac\<lparr>totalAcquires := a\<rparr>) = InFlight p ac" "InFlight p (ac\<lparr>totalWaits := a\<rparr>) = InFlight p ac"
  "InFlight p (ac\<lparr>totalTimeouts := a\<rparr>) = InFlight p ac"
  "InFlight p (ac\<lparr>inFlight := (inFlight ac)(q \<mapsto> n)\<rparr>) = (if p = q then n else InFlight p ac)"
  by (simp_all add: InFlight_def)

lemma InFlight_drop [simp]: "InFlight p (drop_slot q ac) = (if p = q then InFlight p ac - 1 else InFlight p ac)"
  by (simp add: drop_slot_def InFlight_def Let_def map_get_def)

lemma drop_slot_fields [simp]:
  "tokens (drop_slot p ac) = tokens ac" "waitQueues (drop_slot p ac) = waitQueues ac"
  "maxPerPrefix (drop_slot p ac) = maxPerPrefix ac"
  "inFlight (drop_slot p ac) q = Some 0 \<longleftrightarrow> q \<noteq> p \<and> inFlight ac q = Some 0"
  by (simp_all add: drop_slot_def Let_def)

lemma ac_invD:
  assumes "ac_inv ac S"
  shows "finite (owners ac S p)" "InFlight p ac = int (card (owners ac S p))"
    "InFlight p ac \<le> max 0 (maxPerPrefix ac)" "inFlight ac p \<noteq> Some 0" "distinct (waitQueues ac p)"
    "set (waitQueues ac p) = {w. S w = Waiting p \<and> tokens ac w = 0}"
    "tokens ac w \<le> 1" "tokens ac w = 1 \<Longrightarrow> \<exists>p. S w = Waiting p"
  using assms unfolding ac_inv_def by blast+

text \<open>A step touches one prefix; the invariant is re-established from the new owners and queue of it.\<close>

lemma ac_invI:
  assumes inv: "ac_inv ac S" and mx: "maxPerPrefix ac' = maxPerPrefix ac"
    and other: "\<And>q. q \<noteq> p \<Longrightarrow> InFlight q ac' = InFlight q ac \<and> (inFlight ac' q = Some 0 \<longrightarrow> inFlight ac q = Some 0) \<and>
      waitQueues ac' q = waitQueues ac q \<and> owners ac' S' q = owners ac S q \<and>
      {w. S' w = Waiting q \<and> tokens ac' w = 0} = {w. S w = Waiting q \<and> tokens ac w = 0}"
    and own: "finite (owners ac' S' p)" "InFlight p ac' = int (card (owners ac' S' p))" "InFlight p ac' \<le> max 0 (maxPerPrefix ac)"
      "inFlight ac' p \<noteq> Some 0"
    and que: "distinct (waitQueues ac' p)" "set (waitQueues ac' p) = {w. S' w = Waiting p \<and> tokens ac' w = 0}"
    and tok: "\<And>w. tokens ac' w \<le> 1 \<and> (tokens ac' w = 1 \<longrightarrow> (\<exists>p. S' w = Waiting p))"
  shows "ac_inv ac' S'"
  unfolding ac_inv_def mx
proof (intro conjI allI)
  fix q
  note i = ac_invD [OF inv, of q]
  show "finite (owners ac' S' q)" "InFlight q ac' = int (card (owners ac' S' q))"
    "InFlight q ac' \<le> max 0 (maxPerPrefix ac)" "inFlight ac' q \<noteq> Some 0" "distinct (waitQueues ac' q)"
    "set (waitQueues ac' q) = {w. S' w = Waiting q \<and> tokens ac' w = 0}"
    using other [of q] own que i by (cases "q = p"; simp)+
qed (use tok in auto)

lemma enter_inv:
  assumes inv: "ac_inv ac S" and w: "S w = Idle" and e: "Acquire_enter w p ac = (free, ac')"
  shows "ac_inv ac' (S(w := (if free then Holding p else Waiting p)))"
proof -
  note i = ac_invD [OF inv]
  have t0: "tokens ac w = 0" using i(7,8) [of w] w by (cases "tokens ac w") auto
  have nw: "w \<notin> owners ac S q" "w \<notin> set (waitQueues ac q)" for q using w i(6) by (auto simp: owners_def)
  show ?thesis
  proof (cases "InFlight p ac < maxPerPrefix ac")
    case True
    then have F: "free" "tokens ac' = tokens ac" "waitQueues ac' = waitQueues ac" "maxPerPrefix ac' = maxPerPrefix ac"
      "\<And>q. inFlight ac' q = (if q = p then Some (InFlight p ac + 1) else inFlight ac q)"
      using e by (auto simp: Acquire_enter_def Let_def)
    have I: "InFlight q ac' = (if q = p then InFlight p ac + 1 else InFlight q ac)" for q by (simp add: InFlight_def F map_get_def)
    have o: "owners ac' (S(w := Holding p)) q = (if q = p then insert w (owners ac S p) else owners ac S q)" for q
      using w by (auto simp: owners_def F)
    have "InFlight p ac \<ge> 0" using i(2) by simp
    then show ?thesis
      using True w i(1,5,6,7,8) i(2) [of p] nw t0 by (intro ac_invI [OF inv, where p = p]) (auto simp: o F I)
  next
    case False
    then have F: "\<not> free" "tokens ac' = (tokens ac)(w := 0)" "waitQueues ac' = (waitQueues ac)(p := waitQueues ac p @ [w])"
      "maxPerPrefix ac' = maxPerPrefix ac" "inFlight ac' = inFlight ac"
      using e by (auto simp: Acquire_enter_def Let_def)
    have I: "InFlight q ac' = InFlight q ac" for q by (simp add: InFlight_def F)
    have o: "owners ac' (S(w := Waiting p)) q = owners ac S q" for q
      using w t0 by (auto simp: owners_def F)
    show ?thesis
      using w i nw t0 by (intro ac_invI [OF inv, where p = p]) (auto simp: o F I)
  qed
qed

lemma recv_inv:
  assumes inv: "ac_inv ac S" and w: "S w = Waiting p" and r: "Acquire_recv w ac = Some ac'"
  shows "ac_inv ac' (S(w := Holding p))"
proof -
  note i = ac_invD [OF inv]
  have t: "tokens ac w = 1" using r i(7) [of w] by (auto simp: Acquire_recv_def split: if_splits)
  have F: "tokens ac' = (tokens ac)(w := 0)" "waitQueues ac' = waitQueues ac" "maxPerPrefix ac' = maxPerPrefix ac"
    "inFlight ac' = inFlight ac" using r t by (auto simp: Acquire_recv_def)
  have I: "InFlight q ac' = InFlight q ac" for q by (simp add: InFlight_def F)
  have o: "owners ac' (S(w := Holding p)) q = owners ac S q" for q
    using w t by (auto simp: owners_def F)
  show ?thesis
    using i t w by (intro ac_invI [OF inv, where p = p]) (auto simp: o F I)
qed

text \<open>A caller that gives its slot back to the controller.\<close>

lemma give_back_inv:
  assumes inv: "ac_inv ac S" and w: "w \<in> owners ac S p"
    and F: "tokens ac' = (tokens ac)(w := 0)" "waitQueues ac' = waitQueues ac" "maxPerPrefix ac' = maxPerPrefix ac"
      "\<And>q. InFlight q ac' = (if q = p then InFlight p ac - 1 else InFlight q ac)"
      "\<And>q. inFlight ac' q = Some 0 \<longleftrightarrow> q \<noteq> p \<and> inFlight ac q = Some 0"
  shows "ac_inv ac' (S(w := Idle))"
proof -
  note i = ac_invD [OF inv]
  have t0: "S w = Holding p \<Longrightarrow> tokens ac w = 0" using i(7,8) [of w] by (cases "tokens ac w") auto
  have o: "owners ac' (S(w := Idle)) q = (if q = p then owners ac S p - {w} else owners ac S q)" for q
    using w by (auto simp: owners_def F)
  have "0 < card (owners ac S p)" using i(1) w card_gt_0_iff by blast
  then have c: "int (card (owners ac S p - {w})) = InFlight p ac - 1"
    using i(2) [of p] w by (simp add: card_Diff_singleton)
  have st: "S w = Holding p \<and> tokens ac w = 0 \<or> S w = Waiting p \<and> tokens ac w = 1" using w t0 by (auto simp: owners_def)
  show ?thesis
    using i(1,4,5,6,7,8) i(3) [of p] st c by (intro ac_invI [OF inv, where p = p]) (auto simp: o F)
qed

lemma cancel_inv:
  assumes inv: "ac_inv ac S" and w: "S w = Waiting p"
  shows "ac_inv (Acquire_cancel w p ac) (S(w := Idle))"
proof (cases "tokens ac w = 0")
  case True
  note i = ac_invD [OF inv]
  define ac' where "ac' = Acquire_cancel w p ac"
  have F: "tokens ac' = tokens ac" "waitQueues ac' = (waitQueues ac)(p := remove1 w (waitQueues ac p))"
    "maxPerPrefix ac' = maxPerPrefix ac" "inFlight ac' = inFlight ac"
    using True by (auto simp: ac'_def Acquire_cancel_def Let_def)
  have I: "InFlight q ac' = InFlight q ac" for q by (simp add: InFlight_def F)
  have o: "owners ac' (S(w := Idle)) q = owners ac S q" for q
    using w True by (auto simp: owners_def F)
  show ?thesis
    unfolding ac'_def [symmetric]
    using i True w by (intro ac_invI [OF inv, where p = p]) (auto simp: o F I set_remove1_eq)
next
  case False
  then have t: "tokens ac w = 1" using ac_invD(7) [OF inv, of w] by simp
  then have nw: "w \<notin> set (waitQueues ac p)" using ac_invD(6) [OF inv, of p] by simp
  show ?thesis
    using t nw w by (intro give_back_inv [OF inv, where p = p])
      (auto simp: owners_def Acquire_cancel_def Let_def remove1_idem)
qed

lemma release_inv:
  assumes inv: "ac_inv ac S" and w: "S w = Holding p"
  shows "ac_inv (Release p ac) (S(w := Idle))"
proof -
  note i = ac_invD [OF inv]
  have t0: "tokens ac w = 0" using i(7,8) [of w] w by (cases "tokens ac w") auto
  have m: "w \<in> owners ac S p" using w by (simp add: owners_def)
  show ?thesis
  proof (cases "waitQueues ac p")
    case Nil
    then show ?thesis using m t0 by (intro give_back_inv [OF inv, where p = p]) (auto simp: Release_def)
  next
    case (Cons ch q)
    define ac' where "ac' = Release p ac"
    have "ch \<in> set (waitQueues ac p)" using Cons by simp
    then have ch: "S ch = Waiting p" "tokens ac ch = 0" using i(6) by auto
    have "distinct (ch # q)" "set (ch # q) = {x. S x = Waiting p \<and> tokens ac x = 0}" using i(5,6) [of p] Cons by auto
    then have q: "distinct q" "set q = {x. S x = Waiting p \<and> tokens ac x = 0 \<and> x \<noteq> ch}" by auto
    have F: "tokens ac' = (tokens ac)(ch := 1)" "waitQueues ac' = (waitQueues ac)(p := q)" "maxPerPrefix ac' = maxPerPrefix ac"
      "inFlight ac' = inFlight ac" using Cons ch by (auto simp: ac'_def Release_def)
    have I: "InFlight r ac' = InFlight r ac" for r by (simp add: InFlight_def F)
    have o: "owners ac' (S(w := Idle)) r = (if r = p then insert ch (owners ac S p - {w}) else owners ac S r)" for r
      using w ch by (auto simp: owners_def F)
    have nc: "ch \<notin> owners ac S p" using ch by (auto simp: owners_def)
    have "0 < card (owners ac S p)" using i(1) m card_gt_0_iff by blast
    then have c: "card (insert ch (owners ac S p - {w})) = card (owners ac S p)"
      using i(1) [of p] m nc by (simp add: card_Diff_singleton)
    show ?thesis
      unfolding ac'_def [symmetric]
      using i(1,4,5,6,7,8) i(2,3) [of p] w ch q c t0 by (intro ac_invI [OF inv, where p = p]) (auto simp: o F I)
  qed
qed

lemma ac_step_inv: "ac_step (ac, S) (ac', S') \<Longrightarrow> ac_inv ac S \<Longrightarrow> ac_inv ac' S'"
proof (erule ac_stepE)
  fix w p free ac''
  assume "ac_inv ac S" "(ac', S') = (ac'', S(w := if free then Holding p else Waiting p))" "S w = Idle"
    "Acquire_enter w p ac = (free, ac'')"
  then show "ac_inv ac' S'" using enter_inv by blast
qed (blast intro: recv_inv cancel_inv release_inv)+

lemma ac_reach_inv: "ac_reach m s \<Longrightarrow> ac_inv (fst s) (snd s) \<and> maxPerPrefix (fst s) = m"
proof (induction rule: ac_reach.induct)
  case init
  then show ?case by (auto simp: ac_inv_def NewAdmissionController_def owners_def InFlight_def)
next
  case (step s s')
  obtain ac S where s: "s = (ac, S)" by fastforce
  have "maxPerPrefix (fst s') = maxPerPrefix ac"
    using step.hyps(2) unfolding s
    by (elim ac_stepE) (auto simp: Acquire_enter_def Acquire_recv_def Acquire_cancel_def Release_def Let_def
        split: if_splits list.splits)
  then show ?case
    using step.hyps(2) step.IH ac_step_inv [of ac S "fst s'" "snd s'"] unfolding s by simp
qed

text \<open>C29. Slots are neither lost nor over-committed under any interleaving of \<open>Acquire\<close>, cancellation and
  \<open>Release\<close>: the in-flight counter of every prefix is exactly the number of callers that hold a slot
  or have one in their channel, it never exceeds the configured maximum, the wait queue holds exactly
  the callers still waiting without one, and a channel never holds a second token, so the send in
  \<open>Release\<close>, made under the mutex, cannot block.\<close>
theorem admission_slots_exact:
  assumes "ac_reach m (ac, S)" "0 \<le> m"
  shows "InFlight p ac = int (card {w. S w = Holding p \<or> S w = Waiting p \<and> tokens ac w = 1}) \<and>
    card {w. S w = Holding p} \<le> nat m \<and> InFlight p ac \<le> m \<and>
    set (waitQueues ac p) = {w. S w = Waiting p \<and> tokens ac w = 0} \<and>
    (waitQueues ac p \<noteq> [] \<longrightarrow> tokens ac (hd (waitQueues ac p)) = 0) \<and> tokens ac w \<le> 1"
proof -
  have inv: "ac_inv ac S" and mx: "maxPerPrefix ac = m" using ac_reach_inv [OF assms(1)] by auto
  note i = ac_invD [OF inv]
  have o: "owners ac S p = {w. S w = Holding p \<or> S w = Waiting p \<and> tokens ac w = 1}" by (simp add: owners_def)
  have "card {w. S w = Holding p} \<le> card (owners ac S p)" using i(1) by (intro card_mono) (auto simp: owners_def)
  moreover have le: "InFlight p ac \<le> m" using i(3) [of p] mx assms(2) by simp
  ultimately have "card {w. S w = Holding p} \<le> nat m" using i(2) [of p] by linarith
  moreover have "waitQueues ac p \<noteq> [] \<longrightarrow> tokens ac (hd (waitQueues ac p)) = 0"
    using i(6) [of p] list.set_sel(1) by blast
  ultimately show ?thesis using i(2,6,7) le o by simp
qed

lemma admission_demo:
  "\<exists>ac S. ac_reach 1 (ac, S) \<and> S 2 = Waiting ''p'' \<and> waitQueues ac ''p'' = [2] \<and> InFlight ''p'' ac = 0 \<and>
     (\<forall>w. w \<noteq> 2 \<longrightarrow> S w = Idle)"
proof -
  let ?e = "\<lambda>w ac. snd (Acquire_enter w ''p'' ac)"
  let ?ac0 = "NewAdmissionController 1"
  let ?ac1 = "?e 0 ?ac0"
  let ?ac2 = "?e 1 ?ac1"
  let ?ac3 = "?e 2 ?ac2"
  let ?ac4 = "Release ''p'' ?ac3"
  let ?ac5 = "Acquire_cancel 1 ''p'' ?ac4"
  let ?I = "\<lambda>_ :: nat. Idle"
  have f: "fst (Acquire_enter 0 ''p'' ?ac0)" "\<not> fst (Acquire_enter 1 ''p'' ?ac1)" "\<not> fst (Acquire_enter 2 ''p'' ?ac2)"
    by (simp_all add: Acquire_enter_def NewAdmissionController_def InFlight_def)
  have st: "ac_step (ac, S) (?e w ac, S(w := (if fst (Acquire_enter w ''p'' ac) then Holding ''p'' else Waiting ''p'')))"
    if "S w = Idle" for ac S w by (rule ac_step.enter) (use that in auto)
  let ?S3 = "?I(0 := Holding ''p'', 1 := Waiting ''p'', 2 := Waiting ''p'')"
  have "ac_reach 1 (?ac1, ?I(0 := Holding ''p''))"
    using ac_reach.step [OF ac_reach.init st [of ?I 0 ?ac0]] f by simp
  then have "ac_reach 1 (?ac2, ?I(0 := Holding ''p'', 1 := Waiting ''p''))"
    using ac_reach.step [OF _ st [of "?I(0 := Holding ''p'')" 1 ?ac1]] f by simp
  then have "ac_reach 1 (?ac3, ?S3)"
    using ac_reach.step [OF _ st [of "?I(0 := Holding ''p'', 1 := Waiting ''p'')" 2 ?ac2]] f by simp
  then have "ac_reach 1 (?ac4, ?S3(0 := Idle))"
    by (rule ac_reach.step) (rule ac_step.release, simp)
  then have r: "ac_reach 1 (?ac5, ?S3(0 := Idle, 1 := Idle))"
    by (rule ac_reach.step) (rule ac_step.cancel, simp)
  moreover have "waitQueues ?ac5 ''p'' = [2]" "InFlight ''p'' ?ac5 = 0"
    by (simp_all add: Acquire_enter_def NewAdmissionController_def Release_def Acquire_cancel_def drop_slot_def
        InFlight_def Let_def)
  moreover have "(?S3(0 := Idle, 1 := Idle)) 2 = Waiting ''p''" "\<forall>w. w \<noteq> 2 \<longrightarrow> (?S3(0 := Idle, 1 := Idle)) w = Idle" by auto
  ultimately show ?thesis by blast
qed

theorem admission_slots_exact_witness:
  "\<exists>ac S. ac_reach 1 (ac, S) \<and> InFlight ''p'' ac \<le> 1 \<and> set (waitQueues ac ''p'') = {w. S w = Waiting ''p'' \<and> tokens ac w = 0}"
proof -
  obtain ac S where r: "ac_reach 1 (ac, S)" using admission_demo by blast
  show ?thesis using admission_slots_exact [OF r, of "''p''"] r by auto
qed

text \<open>A wake-up can be lost: when a waiter is cancelled after \<open>Release\<close> has already handed it the slot,
  the cancellation branch gives the slot back by decrementing the counter but does not pass it to the
  next waiter. There is a reachable state of a controller with one slot per prefix in which a caller
  waits in the queue and cannot proceed, although no slot is in use and no other caller is active
  that could wake it.\<close>
theorem admission_lost_wakeup:
  "\<exists>ac S. ac_reach 1 (ac, S) \<and> S 2 = Waiting ''p'' \<and> waitQueues ac ''p'' = [2] \<and> Acquire_recv 2 ac = None \<and>
     InFlight ''p'' ac < maxPerPrefix ac \<and> S = (\<lambda>_. Idle)(2 := Waiting ''p'')"
proof -
  obtain ac S where r: "ac_reach 1 (ac, S)" and s: "S 2 = Waiting ''p''" "waitQueues ac ''p'' = [2]" "InFlight ''p'' ac = 0"
    "\<forall>w. w \<noteq> 2 \<longrightarrow> S w = Idle" using admission_demo by blast
  have inv: "ac_inv ac S" and mx: "maxPerPrefix ac = 1" using ac_reach_inv [OF r] by auto
  have "2 \<in> set (waitQueues ac ''p'')" using s(2) by simp
  then have t2: "tokens ac 2 = 0" unfolding ac_invD(6) [OF inv] by blast
  have "Acquire_recv 2 ac = None" "InFlight ''p'' ac < maxPerPrefix ac" using t2 s(3) mx by (simp_all add: Acquire_recv_def)
  moreover have "S = (\<lambda>_. Idle)(2 := Waiting ''p'')" using s(1,4) by auto
  ultimately show ?thesis using r s(1,2) by blast
qed

end
