(* ===== verification/Object_Store.thy ===== *)
theory Object_Store
  imports Admission
begin

section \<open>Object stores\<close>

text \<open>
  The \<open>ObjectStore\<close> interface of \<open>internal/storage/admission.go\<close> as a record of operations with the
  locale of what its clients rely on, the \<open>MemoryStore\<close> that implements it, the \<open>AdmittedStore\<close> that
  wraps one, and \<open>KeyPrefix\<close>. \<open>now\<close> is \<open>time.Now().UnixNano()\<close>.
\<close>

record 's store_ops =
  st_Get :: "string \<Rightarrow> string \<Rightarrow> 's \<Rightarrow> error + bytes"
  st_Put :: "string \<Rightarrow> string \<Rightarrow> bytes \<Rightarrow> 's \<Rightarrow> error option \<times> 's"
  st_Delete :: "string \<Rightarrow> string \<Rightarrow> 's \<Rightarrow> error option \<times> 's"
  st_ConditionalPut :: "string \<Rightarrow> string \<Rightarrow> bytes \<Rightarrow> string \<Rightarrow> 's \<Rightarrow> (error + string) \<times> 's"

text \<open>What the clients rely on: a successful write is read back; a write or a delete, successful or not, leaves the
  other keys of the bucket alone. A missing object is reported as such.\<close>

locale object_store =
  fixes ops :: "'s store_ops"
  assumes put_get: "st_Put ops b k d s = (None, s') \<Longrightarrow> st_Get ops b k s' = Inr d"
    and put_other: "st_Put ops b k d s = (e, s') \<Longrightarrow> k' \<noteq> k \<Longrightarrow> st_Get ops b k' s' = st_Get ops b k' s"
    and delete_other: "st_Delete ops b k s = (e, s') \<Longrightarrow> k' \<noteq> k \<Longrightarrow> st_Get ops b k' s' = st_Get ops b k' s"
begin

lemma put_cases:
  "st_Put ops b k d s = (None, s') \<Longrightarrow> st_Get ops b k' s' = (if k' = k then Inr d else st_Get ops b k' s)"
  using put_get put_other by auto

end

subsection \<open>The in-memory store\<close>

record MemoryStore =
  objects :: "string \<rightharpoonup> bytes"
  etags :: "string \<rightharpoonup> string"

definition NewMemoryStore :: MemoryStore where
  "NewMemoryStore = \<lparr>objects = Map.empty, etags = Map.empty\<rparr>"

definition fullKey :: "string \<Rightarrow> string \<Rightarrow> string" where
  "fullKey bucket key = bucket @ ''/'' @ key"

definition etag_at :: "nat \<Rightarrow> string" where
  "etag_at now = ''etag-'' @ itoa now"

definition mem_Get :: "string \<Rightarrow> string \<Rightarrow> MemoryStore \<Rightarrow> error + bytes" where
  "mem_Get bucket key m =
     (case objects m (fullKey bucket key) of None \<Rightarrow> Inl (OtherError ''object not found'' None) | Some d \<Rightarrow> Inr d)"

definition mem_Put :: "nat \<Rightarrow> string \<Rightarrow> string \<Rightarrow> bytes \<Rightarrow> MemoryStore \<Rightarrow> error option \<times> MemoryStore" where
  "mem_Put now bucket key data m =
     (let fk = fullKey bucket key in
      (None, m\<lparr>objects := (objects m)(fk \<mapsto> data), etags := (etags m)(fk \<mapsto> etag_at now)\<rparr>))"

definition mem_Delete :: "string \<Rightarrow> string \<Rightarrow> MemoryStore \<Rightarrow> error option \<times> MemoryStore" where
  "mem_Delete bucket key m =
     (let fk = fullKey bucket key in (None, m\<lparr>objects := (objects m)(fk := None), etags := (etags m)(fk := None)\<rparr>))"

definition mem_ConditionalPut ::
  "nat \<Rightarrow> string \<Rightarrow> string \<Rightarrow> bytes \<Rightarrow> string \<Rightarrow> MemoryStore \<Rightarrow> (error + string) \<times> MemoryStore" where
  "mem_ConditionalPut now bucket key data expectedETag m =
     (let fk = fullKey bucket key; currentETag = map_get '''' (etags m) fk in
      if currentETag \<noteq> '''' \<and> currentETag \<noteq> expectedETag
      then (Inl (OtherError ''precondition failed'' None), m)
      else (Inr (etag_at now), m\<lparr>objects := (objects m)(fk \<mapsto> data), etags := (etags m)(fk \<mapsto> etag_at now)\<rparr>))"

definition mem_ops :: "nat \<Rightarrow> MemoryStore store_ops" where
  "mem_ops now = \<lparr>st_Get = mem_Get, st_Put = mem_Put now, st_Delete = mem_Delete, st_ConditionalPut = mem_ConditionalPut now\<rparr>"

lemma fullKey_inject [simp]: "fullKey b k = fullKey b k' \<longleftrightarrow> k = k'"
  by (simp add: fullKey_def)

interpretation mem: object_store "mem_ops now" for now
  by unfold_locales (auto simp: mem_ops_def mem_Put_def mem_Get_def mem_Delete_def Let_def)

subsection \<open>The admitted store\<close>

fun split_slash :: "string \<Rightarrow> string list" where
  \<comment> \<open>the fields between slashes\<close>
  "split_slash [] = ['''']"
| "split_slash (c # cs) =
     (if c = CHR ''/'' then [] # split_slash cs
      else (case split_slash cs of f # fs \<Rightarrow> (c # f) # fs | [] \<Rightarrow> [[c]]))"

definition KeyPrefix :: "string \<Rightarrow> string" where
  \<comment> \<open>\<open>SplitN(key, "/", 4)\<close> only joins fields from the fourth on, which are not used\<close>
  "KeyPrefix key =
     (let parts = split_slash key in
      if length parts \<ge> 2 then parts ! 0 @ ''/'' @ parts ! 1 else key)"

text \<open>An admitted operation: with the outcome of \<open>Acquire\<close> for the key's prefix, either its error
  wrapped and no call, or the inner operation followed by \<open>Release\<close>.\<close>

definition admitted ::
  "string \<Rightarrow> error option \<Rightarrow> ('s \<Rightarrow> 'r \<times> 's) \<Rightarrow> (error \<Rightarrow> 'r) \<Rightarrow> AdmissionController \<times> 's \<Rightarrow> 'r \<times> AdmissionController \<times> 's" where
  "admitted key acq inner fail st =
     (case st of (ac, s) \<Rightarrow>
        case acq of Some e \<Rightarrow> (fail (OtherError ''admission'' (Some e)), ac, s)
        | None \<Rightarrow> (case inner s of (r, s') \<Rightarrow> (r, Release (KeyPrefix key) ac, s')))"

definition admitted_Get ::
  "'s store_ops \<Rightarrow> string \<Rightarrow> string \<Rightarrow> error option \<Rightarrow> AdmissionController \<times> 's \<Rightarrow> (error + bytes) \<times> AdmissionController \<times> 's"
  where
  "admitted_Get ops bucket key acq = admitted key acq (\<lambda>s. (st_Get ops bucket key s, s)) Inl"

definition admitted_Put ::
  "'s store_ops \<Rightarrow> string \<Rightarrow> string \<Rightarrow> bytes \<Rightarrow> error option \<Rightarrow> AdmissionController \<times> 's \<Rightarrow> error option \<times> AdmissionController \<times> 's"
  where
  "admitted_Put ops bucket key data acq = admitted key acq (st_Put ops bucket key data) Some"

definition admitted_Delete ::
  "'s store_ops \<Rightarrow> string \<Rightarrow> string \<Rightarrow> error option \<Rightarrow> AdmissionController \<times> 's \<Rightarrow> error option \<times> AdmissionController \<times> 's"
  where
  "admitted_Delete ops bucket key acq = admitted key acq (st_Delete ops bucket key) Some"

definition admitted_ConditionalPut ::
  "'s store_ops \<Rightarrow> string \<Rightarrow> string \<Rightarrow> bytes \<Rightarrow> string \<Rightarrow> error option \<Rightarrow> AdmissionController \<times> 's \<Rightarrow>
    (error + string) \<times> AdmissionController \<times> 's" where
  "admitted_ConditionalPut ops bucket key data et acq = admitted key acq (st_ConditionalPut ops bucket key data et) Inl"

lemma KeyPrefix_example: "KeyPrefix ''logs/tenant1/db1/collection1/frag.parquet'' = ''logs/tenant1''"
  by (simp add: KeyPrefix_def)

end
