(* ===== verification/S3_Wal.thy ===== *)
theory S3_Wal
  imports Object_Store "HOL-Library.Countable"
begin

section \<open>The write-ahead log on object storage\<close>

text \<open>
  Models \<open>internal/storage/s3wal.go\<close> over the interface of theory \<open>Object_Store\<close>. The JSON encoding of
  manifests and fragments is a parameter, the record \<open>codec\<close>; \<open>codec_ok\<close> is what is used of it (the
  \<open>ETag\<close> of a manifest is not encoded). \<open>now\<close> is the clock, \<open>ctx n\<close> the context's error when a
  retry is about to sleep for the \<open>n\<close>-th time. The fields of a record the log only carries are its
  payload, up to what JSON keeps of it. One reading of the clock stands for those of a call.
\<close>

record S3WALConfig =
  Bucket :: string
  Prefix :: string
  FragmentBucket :: nat
  MaxRetries :: nat

record Fragment =
  SeqStart :: u64
  SeqEnd :: u64
  S3Key :: string
  SizeBytes :: nat
  CreatedAt :: int

record Manifest =
  Fragments :: "Fragment list"
  HeadSeq :: u64
  CursorSeq :: u64
  Version :: int
  ETag :: string

record 'p S3WALRecord =
  SeqID :: u64
  Timestamp :: int
  payload :: 'p

record 'p codec =
  enc_manifest :: "Manifest \<Rightarrow> bytes"
  dec_manifest :: "bytes \<Rightarrow> Manifest option"
  enc_records :: "'p S3WALRecord list \<Rightarrow> bytes option" \<comment> \<open>\<open>None\<close>: a value JSON has no encoding of, such as a NaN\<close>
  dec_records :: "bytes \<Rightarrow> 'p S3WALRecord list option"

definition codec_ok :: "'p codec \<Rightarrow> bool" where
  "codec_ok c \<longleftrightarrow> (\<forall>m. dec_manifest c (enc_manifest c m) = Some (m\<lparr>ETag := ''''\<rparr>)) \<and>
     (\<forall>rs d. enc_records c rs = Some d \<longrightarrow> dec_records c d = Some rs)"

record S3WAL =
  config :: S3WALConfig
  manifest :: Manifest

definition hexdigit :: "nat \<Rightarrow> char" where
  "hexdigit d = (if d < 10 then char_of (48 + d) else char_of (87 + d))"

definition hex16 :: "u64 \<Rightarrow> string" where
  \<comment> \<open>\<open>%016x\<close>\<close>
  "hex16 w = map (\<lambda>i. hexdigit (unat (drop_bit (4 * i) w AND 15))) (rev [0..<16])"

definition manifestKey :: "S3WALConfig \<Rightarrow> string" where
  "manifestKey cfg = Prefix cfg @ ''/manifest/MANIFEST''"

definition fragmentKey :: "S3WALConfig \<Rightarrow> u64 \<Rightarrow> string" where
  "fragmentKey cfg seqStart =
     (let bucket = unat seqStart div FragmentBucket cfg * FragmentBucket cfg in
      Prefix cfg @ ''/fragments/Bucket='' @ itoa bucket @ ''/Seq='' @ hex16 seqStart @ ''.bin'')"

fun cas_loop ::
  "'s store_ops \<Rightarrow> (nat \<Rightarrow> error option) \<Rightarrow> string \<Rightarrow> string \<Rightarrow> bytes \<Rightarrow> nat \<Rightarrow> nat \<Rightarrow> Manifest \<Rightarrow> error \<Rightarrow> 's \<Rightarrow>
    error option \<times> Manifest \<times> 's" where
  \<comment> \<open>\<open>left\<close> attempts are left; \<open>lastErr\<close> is the error of the last one\<close>
  "cas_loop ops ctx bucket key data attempt 0 m lastErr s = (Some (OtherError ''manifest CAS failed'' (Some lastErr)), m, s)"
| "cas_loop ops ctx bucket key data attempt (Suc left) m lastErr s =
     (case st_ConditionalPut ops bucket key data (ETag m) s of
        (Inr newETag, s') \<Rightarrow> (None, m\<lparr>ETag := newETag\<rparr>, s')
      | (Inl err, s') \<Rightarrow>
          (case ctx attempt of Some e \<Rightarrow> (Some e, m, s')
           | None \<Rightarrow> cas_loop ops ctx bucket key data (attempt + 1) left m err s'))"

definition writeManifest ::
  "'s store_ops \<Rightarrow> 'p codec \<Rightarrow> (nat \<Rightarrow> error option) \<Rightarrow> S3WAL \<Rightarrow> 's \<Rightarrow> error option \<times> S3WAL \<times> 's" where
  "writeManifest ops c ctx w s =
     (let data = enc_manifest c (manifest w); key = manifestKey (config w) in
      if ETag (manifest w) = '''' then
        (case st_Put ops (Bucket (config w)) key data s of (e, s') \<Rightarrow> (e, w, s'))
      else (case cas_loop ops ctx (Bucket (config w)) key data 0 (MaxRetries (config w)) (manifest w)
              (OtherError ''nil'' None) s of
          (e, m, s') \<Rightarrow> (e, w\<lparr>manifest := m\<rparr>, s')))"

fun contains :: "string \<Rightarrow> string \<Rightarrow> bool" where
  "contains sub [] \<longleftrightarrow> sub = []"
| "contains sub (c # cs) \<longleftrightarrow> take (length sub) (c # cs) = sub \<or> contains sub cs"

fun is_missing :: "error \<Rightarrow> bool" where
  \<comment> \<open>the test on the lower-cased message; the tags of this model are lower case\<close>
  "is_missing (OtherError t cause) \<longleftrightarrow> contains ''not found'' t \<or> contains ''nosuchkey'' t \<or> contains ''404'' t \<or>
     (case cause of None \<Rightarrow> False | Some e \<Rightarrow> is_missing e)"
| "is_missing (VDBError _ cause) \<longleftrightarrow> (case cause of None \<Rightarrow> False | Some e \<Rightarrow> is_missing e)"

definition empty_manifest :: Manifest where
  "empty_manifest = \<lparr>Fragments = [], HeadSeq = 0, CursorSeq = 0, Version = 1, ETag = ''''\<rparr>"

definition loadOrCreateManifest ::
  "'s store_ops \<Rightarrow> 'p codec \<Rightarrow> (nat \<Rightarrow> error option) \<Rightarrow> S3WALConfig \<Rightarrow> 's \<Rightarrow> (error + S3WAL) \<times> 's" where
  "loadOrCreateManifest ops c ctx cfg s =
     (case st_Get ops (Bucket cfg) (manifestKey cfg) s of
        Inl err \<Rightarrow>
          if is_missing err then
            (case writeManifest ops c ctx \<lparr>config = cfg, manifest = empty_manifest\<rparr> s of
               (None, w, s') \<Rightarrow> (Inr w, s') | (Some e, w, s') \<Rightarrow> (Inl e, s'))
          else (Inl (OtherError ''failed to get manifest'' (Some err)), s)
      | Inr data \<Rightarrow>
          (case dec_manifest c data of None \<Rightarrow> (Inl (OtherError ''corrupted manifest'' None), s)
           | Some m \<Rightarrow> (Inr \<lparr>config = cfg, manifest = m\<rparr>, s)))"

definition s3_defaults :: "S3WALConfig \<Rightarrow> S3WALConfig" where
  "s3_defaults cfg =
     (let cfg = (if FragmentBucket cfg = 0 then cfg\<lparr>FragmentBucket := 4096\<rparr> else cfg) in
      if MaxRetries cfg = 0 then cfg\<lparr>MaxRetries := 5\<rparr> else cfg)"

definition NewS3WAL ::
  "'s store_ops \<Rightarrow> 'p codec \<Rightarrow> (nat \<Rightarrow> error option) \<Rightarrow> S3WALConfig \<Rightarrow> 's \<Rightarrow> (error + S3WAL) \<times> 's" where
  "NewS3WAL ops c ctx cfg s =
     (case loadOrCreateManifest ops c ctx (s3_defaults cfg) s of
        (Inl e, s') \<Rightarrow> (Inl (OtherError ''initializing manifest'' (Some e)), s') | (Inr w, s') \<Rightarrow> (Inr w, s'))"

definition assign_seqs :: "int \<Rightarrow> u64 \<Rightarrow> 'p S3WALRecord list \<Rightarrow> 'p S3WALRecord list" where
  "assign_seqs now start rs =
     map2 (\<lambda>i r. r\<lparr>SeqID := start + of_nat i, Timestamp := (if Timestamp r = 0 then now else Timestamp r)\<rparr>) [0..<length rs] rs"

definition s3_Append ::
  "'s store_ops \<Rightarrow> 'p codec \<Rightarrow> (nat \<Rightarrow> error option) \<Rightarrow> int \<Rightarrow> 'p S3WALRecord list \<Rightarrow> S3WAL \<Rightarrow> 's \<Rightarrow>
    (error + u64) \<times> S3WAL \<times> 's" where
  "s3_Append ops c ctx now records w s =
     (if records = [] then (Inr (HeadSeq (manifest w)), w, s)
      else
        let newSeqStart = HeadSeq (manifest w) + 1;
            newSeqEnd = newSeqStart + of_nat (length records) - 1;
            fragKey = fragmentKey (config w) newSeqStart in
        case enc_records c (assign_seqs now newSeqStart records) of
          None \<Rightarrow> (Inl (OtherError ''encoding fragment'' None), w, s)
        | Some data \<Rightarrow>
           (case st_Put ops (Bucket (config w)) fragKey data s of
              (Some e, s') \<Rightarrow> (Inl (OtherError ''writing fragment'' (Some e)), w, s')
            | (None, s') \<Rightarrow>
                (let frag = \<lparr>SeqStart = newSeqStart, SeqEnd = newSeqEnd, S3Key = fragKey, SizeBytes = length data,
                       CreatedAt = now div 1000000000\<rparr>;
                     m = manifest w;
                     w' = w\<lparr>manifest := m\<lparr>Fragments := Fragments m @ [frag], HeadSeq := newSeqEnd, Version := Version m + 1\<rparr>\<rparr> in
                 case writeManifest ops c ctx w' s' of
                   (Some e, w'', s'') \<Rightarrow> (Inl (OtherError ''updating manifest'' (Some e)), w'', s'')
                 | (None, w'', s'') \<Rightarrow> (Inr newSeqEnd, w'', s''))))"

fun read_fragments ::
  "'s store_ops \<Rightarrow> 'p codec \<Rightarrow> string \<Rightarrow> u64 \<Rightarrow> Fragment list \<Rightarrow> 's \<Rightarrow> error + 'p S3WALRecord list" where
  "read_fragments ops c bucket afterSeq [] s = Inr []"
| "read_fragments ops c bucket afterSeq (frag # frags) s =
     (if SeqEnd frag \<le> afterSeq then read_fragments ops c bucket afterSeq frags s
      else case st_Get ops bucket (S3Key frag) s of
        Inl e \<Rightarrow> Inl (OtherError ''reading fragment'' (Some e))
      | Inr data \<Rightarrow>
          (case dec_records c data of None \<Rightarrow> Inl (OtherError ''decoding fragment'' None)
           | Some records \<Rightarrow>
               (case read_fragments ops c bucket afterSeq frags s of Inl e \<Rightarrow> Inl e
                | Inr rest \<Rightarrow> Inr (filter (\<lambda>r. SeqID r > afterSeq) records @ rest))))"

definition ReadSince :: "'s store_ops \<Rightarrow> 'p codec \<Rightarrow> u64 \<Rightarrow> S3WAL \<Rightarrow> 's \<Rightarrow> error + 'p S3WALRecord list" where
  "ReadSince ops c afterSeq w s = read_fragments ops c (Bucket (config w)) afterSeq (Fragments (manifest w)) s"

fun drop_fragments ::
  "'s store_ops \<Rightarrow> string \<Rightarrow> u64 \<Rightarrow> Fragment list \<Rightarrow> 's \<Rightarrow> Fragment list \<times> 's" where
  \<comment> \<open>a failed delete is only logged\<close>
  "drop_fragments ops bucket cur [] s = ([], s)"
| "drop_fragments ops bucket cur (f # fs) s =
     (if SeqEnd f \<ge> cur then (case drop_fragments ops bucket cur fs s of (rest, s') \<Rightarrow> (f # rest, s'))
      else drop_fragments ops bucket cur fs (snd (st_Delete ops bucket (S3Key f) s)))"

definition AdvanceCursor ::
  "'s store_ops \<Rightarrow> 'p codec \<Rightarrow> (nat \<Rightarrow> error option) \<Rightarrow> u64 \<Rightarrow> S3WAL \<Rightarrow> 's \<Rightarrow> error option \<times> S3WAL \<times> 's" where
  "AdvanceCursor ops c ctx newCursorSeq w s =
     (let m = manifest w in
      if newCursorSeq \<le> CursorSeq m then (None, w, s)
      else case drop_fragments ops (Bucket (config w)) newCursorSeq (Fragments m) s of
        (remaining, s') \<Rightarrow>
          writeManifest ops c ctx
            (w\<lparr>manifest := m\<lparr>CursorSeq := newCursorSeq, Version := Version m + 1, Fragments := remaining\<rparr>\<rparr>) s')"

subsection \<open>Keys\<close>

lemma nibble_less: "unat (w AND 15 :: u64) < 16"
proof -
  have "w AND 15 \<le> (15 :: u64)" by (rule word_and_le1)
  then show ?thesis by (simp add: word_le_nat_alt)
qed

lemma hexdigit_inject: "a < 16 \<Longrightarrow> b < 16 \<Longrightarrow> hexdigit a = hexdigit b \<longleftrightarrow> a = b"
proof -
  assume ab: "a < 16" "b < 16"
  have h: "of_char (hexdigit a) = (if a < 10 then 48 + a else 87 + a)"
    "of_char (hexdigit b) = (if b < 10 then 48 + b else 87 + b)" using ab by (simp_all add: hexdigit_def)
  show "hexdigit a = hexdigit b \<longleftrightarrow> a = b"
  proof
    assume "hexdigit a = hexdigit b"
    then have "(if a < 10 then 48 + a else 87 + a) = (if b < 10 then 48 + b else 87 + b)" using h by metis
    then show "a = b" using ab by (simp split: if_splits)
  qed simp
qed

lemma hex16_inject: "hex16 v = hex16 w \<longleftrightarrow> v = w"
proof
  assume eq: "hex16 v = hex16 w"
  have nib: "drop_bit (4 * i) v AND 15 = drop_bit (4 * i) w AND 15" if "i < 16" for i
  proof -
    have "hexdigit (unat (drop_bit (4 * i) v AND 15)) = hexdigit (unat (drop_bit (4 * i) w AND 15))"
      using eq that unfolding hex16_def by simp
    then show ?thesis using hexdigit_inject [OF nibble_less nibble_less] word_unat_eq_iff by blast
  qed
  show "v = w"
  proof (rule bit_word_eqI)
    fix k assume k: "k < LENGTH(64)"
    then have i: "k div 4 < 16" by simp
    have m: "k mod 4 < 4" by simp
    have "bit (15 :: u64) (k mod 4)"
    proof -
      have "k mod 4 \<in> {0, 1, 2, 3}" using m by auto
      then show ?thesis by auto
    qed
    moreover have "4 * (k div 4) + k mod 4 = k" by simp
    ultimately have "bit (drop_bit (4 * (k div 4)) u AND 15) (k mod 4) = bit u k" for u :: u64
      by (simp add: bit_and_iff bit_drop_bit_eq)
    then show "bit v k = bit w k" using nib [OF i] by metis
  qed
qed simp

lemma length_hex16 [simp]: "length (hex16 w) = 16"
  by (simp add: hex16_def)

lemma fragmentKey_inject [simp]: "fragmentKey cfg a = fragmentKey cfg b \<longleftrightarrow> a = b"
proof
  assume "fragmentKey cfg a = fragmentKey cfg b"
  moreover have "\<exists>p. fragmentKey cfg x = p @ hex16 x @ ''.bin''" for x
    by (intro exI [of _ "Prefix cfg @ ''/fragments/Bucket='' @ itoa (unat x div FragmentBucket cfg * FragmentBucket cfg) @ ''/Seq=''"])
      (simp add: fragmentKey_def Let_def)
  ultimately obtain p q where "p @ (hex16 a @ ''.bin'') = q @ (hex16 b @ ''.bin'')" by metis
  then have "hex16 a @ ''.bin'' = hex16 b @ ''.bin''" by (subst (asm) append_eq_append_conv) auto
  then show "a = b" by (simp add: hex16_inject)
qed simp

lemma fragmentKey_not_manifest [simp]: "fragmentKey cfg a \<noteq> manifestKey cfg" "manifestKey cfg \<noteq> fragmentKey cfg a"
  by (simp_all add: fragmentKey_def manifestKey_def Let_def)

subsection \<open>The log a manifest represents\<close>

definition frag_ok :: "'s store_ops \<Rightarrow> 'p codec \<Rightarrow> S3WALConfig \<Rightarrow> 's \<Rightarrow> Fragment \<Rightarrow> 'p S3WALRecord list \<Rightarrow> bool" where
  "frag_ok ops c cfg s f rs \<longleftrightarrow> S3Key f = fragmentKey cfg (SeqStart f) \<and> SeqStart f \<le> SeqEnd f \<and>
     (\<exists>d. st_Get ops (Bucket cfg) (S3Key f) s = Inr d \<and> dec_records c d = Some rs) \<and> (\<forall>r \<in> set rs. SeqID r \<le> SeqEnd f)"

definition s3_inv :: "'s store_ops \<Rightarrow> 'p codec \<Rightarrow> S3WAL \<Rightarrow> 's \<Rightarrow> 'p S3WALRecord list \<Rightarrow> bool" where
  "s3_inv ops c w s L \<longleftrightarrow> (let m = manifest w; cfg = config w in
     ETag m = '''' \<and>
     map (\<lambda>r. unat (SeqID r)) L = [1..<Suc (unat (HeadSeq m))] \<and>
     distinct (map SeqStart (Fragments m)) \<and> (\<forall>f \<in> set (Fragments m). SeqEnd f \<le> HeadSeq m) \<and>
     (\<exists>rss. list_all2 (frag_ok ops c cfg s) (Fragments m) rss \<and>
        (\<forall>a. unat (CursorSeq m) \<le> Suc (unat a) \<longrightarrow>
           filter (\<lambda>r. SeqID r > a) (concat rss) = filter (\<lambda>r. SeqID r > a) L)))"

definition manifest_stored :: "'s store_ops \<Rightarrow> 'p codec \<Rightarrow> S3WAL \<Rightarrow> 's \<Rightarrow> bool" where
  \<comment> \<open>the store holds the manifest of the handle\<close>
  "manifest_stored ops c w s \<longleftrightarrow> st_Get ops (Bucket (config w)) (manifestKey (config w)) s = Inr (enc_manifest c (manifest w))"

lemma writeManifest_plain:
  assumes "object_store ops" "ETag (manifest w) = ''''" "writeManifest ops c ctx w s = (e, w', s')"
  shows "w' = w" "k \<noteq> manifestKey (config w) \<Longrightarrow> st_Get ops (Bucket (config w)) k s' = st_Get ops (Bucket (config w)) k s"
    "e = None \<Longrightarrow> manifest_stored ops c w s'"
proof -
  have p: "st_Put ops (Bucket (config w)) (manifestKey (config w)) (enc_manifest c (manifest w)) s = (e, s')" "w' = w"
    using assms(2,3) by (auto simp: writeManifest_def Let_def split: prod.splits)
  show "w' = w" by (rule p(2))
  show "st_Get ops (Bucket (config w)) k s' = st_Get ops (Bucket (config w)) k s" if "k \<noteq> manifestKey (config w)"
    using object_store.put_other [OF assms(1) p(1) that] .
  show "manifest_stored ops c w s'" if "e = None" using object_store.put_get [OF assms(1)] p(1) that by (simp add: manifest_stored_def)
qed

lemma read_fragments_ok:
  assumes "list_all2 (frag_ok ops c cfg s) fs rss"
  shows "read_fragments ops c (Bucket cfg) a fs s = Inr (filter (\<lambda>r. SeqID r > a) (concat rss))"
  using assms
proof (induction fs rss rule: list_all2_induct)
  case (Cons f fs rs rss)
  obtain d where g: "st_Get ops (Bucket cfg) (S3Key f) s = Inr d" "\<forall>r \<in> set rs. SeqID r \<le> SeqEnd f" "dec_records c d = Some rs"
    using Cons.hyps by (auto simp: frag_ok_def)
  have "filter (\<lambda>r. SeqID r > a) rs = []" if "SeqEnd f \<le> a"
    using g(2) that by (auto simp: filter_empty_conv not_less)
  then show ?case using Cons.IH g by simp
qed simp

lemma frag_ok_frame:
  assumes "list_all2 (frag_ok ops c cfg s) fs rss"
    "\<And>f. f \<in> set fs \<Longrightarrow> st_Get ops (Bucket cfg) (fragmentKey cfg (SeqStart f)) s' = st_Get ops (Bucket cfg) (fragmentKey cfg (SeqStart f)) s"
  shows "list_all2 (frag_ok ops c cfg s') fs rss"
  using assms(1)
  by (rule list.rel_mono_strong) (auto simp: frag_ok_def assms(2))

lemma map_SeqID_assign:
  assumes "unat h + length rs < 2 ^ 64"
  shows "map (\<lambda>r. unat (SeqID r)) (assign_seqs now (h + 1) rs) = [Suc (unat h)..<Suc (unat h + length rs)]"
proof (rule nth_equalityI)
  fix i assume "i < length (map (\<lambda>r. unat (SeqID r)) (assign_seqs now (h + 1) rs))"
  then have i: "i < length rs" by (simp add: assign_seqs_def)
  have e: "h + 1 + of_nat i = (of_nat (unat h + 1 + i) :: u64)" by simp
  have "unat (h + 1 + of_nat i) = unat h + 1 + i"
    unfolding e unat_of_nat using assms i by (intro mod_less) simp
  then show "map (\<lambda>r. unat (SeqID r)) (assign_seqs now (h + 1) rs) ! i = [Suc (unat h)..<Suc (unat h + length rs)] ! i"
    using i by (simp add: assign_seqs_def nth_append less_diff_conv del: upt_Suc)
qed (simp add: assign_seqs_def del: upt_Suc)

lemma unat_add_of_nat:
  fixes h :: u64
  assumes "unat h + n < 2 ^ 64"
  shows "unat (h + of_nat n) = unat h + n"
proof -
  have e: "h + of_nat n = of_nat (unat h + n)" by simp
  show ?thesis unfolding e using assms by (simp only: unat_of_nat) simp
qed

lemma unat_seq_end:
  assumes "unat h + n < 2 ^ 64" "0 < n"
  shows "unat (h + 1 + of_nat n - 1 :: u64) = unat h + n" "unat (h + 1 :: u64) = Suc (unat h)"
proof -
  have "h + 1 + of_nat n - 1 = h + of_nat n" by (simp add: algebra_simps)
  then show "unat (h + 1 + of_nat n - 1 :: u64) = unat h + n" using unat_add_of_nat [OF assms(1)] by metis
  show "unat (h + 1 :: u64) = Suc (unat h)" using unat_add_of_nat [of h 1] assms by simp
qed

lemma s3_defaults_simps [simp]:
  "Bucket (s3_defaults cfg) = Bucket cfg" "manifestKey (s3_defaults cfg) = manifestKey cfg"
  by (auto simp: s3_defaults_def manifestKey_def Let_def)

lemma s3_New_inv:
  assumes os: "object_store ops" and new: "NewS3WAL ops c ctx cfg s = (Inr w, s')"
    and get: "st_Get ops (Bucket cfg) (manifestKey cfg) s = Inl err" "is_missing err"
  shows "s3_inv ops c w s' [] \<and> manifest_stored ops c w s' \<and> config w = s3_defaults cfg \<and> manifest w = empty_manifest"
proof -
  have wm: "writeManifest ops c ctx \<lparr>config = s3_defaults cfg, manifest = empty_manifest\<rparr> s = (None, w, s')"
    using new get by (auto simp: NewS3WAL_def loadOrCreateManifest_def split: prod.splits option.splits sum.splits)
  have "w = \<lparr>config = s3_defaults cfg, manifest = empty_manifest\<rparr>"
    by (rule writeManifest_plain(1) [OF os _ wm]) (simp add: empty_manifest_def)
  moreover have "manifest_stored ops c \<lparr>config = s3_defaults cfg, manifest = empty_manifest\<rparr> s'"
    by (rule writeManifest_plain(3) [OF os _ wm]) (simp_all add: empty_manifest_def)
  ultimately show ?thesis by (simp add: s3_inv_def Let_def empty_manifest_def)
qed

lemma s3_reopen:
  assumes "codec_ok c" "s3_inv ops c w s L" "manifest_stored ops c w s'" "config w = s3_defaults cfg"
  shows "NewS3WAL ops c ctx cfg s' = (Inr w, s')"
proof -
  have "ETag (manifest w) = ''''" "st_Get ops (Bucket cfg) (manifestKey cfg) s' = Inr (enc_manifest c (manifest w))"
    using assms(2-4) by (auto simp: s3_inv_def manifest_stored_def Let_def)
  then show ?thesis using assms(1,4) by (simp add: NewS3WAL_def loadOrCreateManifest_def codec_ok_def)
qed

lemma s3_invE:
  assumes "s3_inv ops c w s L"
  obtains rss where "ETag (manifest w) = ''''"
    "map (\<lambda>r. unat (SeqID r)) L = [1..<Suc (unat (HeadSeq (manifest w)))]"
    "distinct (map SeqStart (Fragments (manifest w)))" "\<And>f. f \<in> set (Fragments (manifest w)) \<Longrightarrow> SeqEnd f \<le> HeadSeq (manifest w)"
    "list_all2 (frag_ok ops c (config w) s) (Fragments (manifest w)) rss"
    "\<And>a. unat (CursorSeq (manifest w)) \<le> Suc (unat a) \<Longrightarrow>
       filter (\<lambda>r. SeqID r > a) (concat rss) = filter (\<lambda>r. SeqID r > a) L"
  using assms unfolding s3_inv_def Let_def by (elim conjE exE) (rule that, blast+)

lemma s3_invI:
  assumes "ETag (manifest w) = ''''"
    "map (\<lambda>r. unat (SeqID r)) L = [1..<Suc (unat (HeadSeq (manifest w)))]"
    "distinct (map SeqStart (Fragments (manifest w)))" "\<And>f. f \<in> set (Fragments (manifest w)) \<Longrightarrow> SeqEnd f \<le> HeadSeq (manifest w)"
    "list_all2 (frag_ok ops c (config w) s) (Fragments (manifest w)) rss"
    "\<And>a. unat (CursorSeq (manifest w)) \<le> Suc (unat a) \<Longrightarrow>
       filter (\<lambda>r. SeqID r > a) (concat rss) = filter (\<lambda>r. SeqID r > a) L"
  shows "s3_inv ops c w s L"
  unfolding s3_inv_def Let_def using assms by blast

lemma s3_inv_ReadSince:
  assumes "s3_inv ops c w s L" "unat (CursorSeq (manifest w)) \<le> Suc (unat a)"
  shows "ReadSince ops c a w s = Inr (filter (\<lambda>r. SeqID r > a) L)"
proof -
  obtain rss where l: "list_all2 (frag_ok ops c (config w) s) (Fragments (manifest w)) rss"
    and "filter (\<lambda>r. SeqID r > a) (concat rss) = filter (\<lambda>r. SeqID r > a) L"
    by (rule s3_invE [OF assms(1)]) (use assms(2) in blast)
  then show ?thesis using read_fragments_ok [OF l] by (simp add: ReadSince_def)
qed

lemma frag_ok_start: "list_all2 (frag_ok ops c cfg s) fs rss \<Longrightarrow> f \<in> set fs \<Longrightarrow> SeqStart f \<le> SeqEnd f"
  by (auto simp: frag_ok_def list_all2_conv_all_nth in_set_conv_nth)

text \<open>The manifest with one more fragment.\<close>

lemma s3_Append_frag:
  fixes w :: S3WAL and rs :: "'p S3WALRecord list"
  defines "h \<equiv> HeadSeq (manifest w)"
  assumes cok: "codec_ok c" and I: "ETag (manifest w) = ''''"
    "map (\<lambda>r. unat (SeqID r)) L = [1..<Suc (unat (HeadSeq (manifest w)))]"
    "distinct (map SeqStart (Fragments (manifest w)))" "\<And>f. f \<in> set (Fragments (manifest w)) \<Longrightarrow> SeqEnd f \<le> HeadSeq (manifest w)"
    "list_all2 (frag_ok ops c (config w) s) (Fragments (manifest w)) rss"
    "\<And>a. unat (CursorSeq (manifest w)) \<le> Suc (unat a) \<Longrightarrow>
       filter (\<lambda>r. SeqID r > a) (concat rss) = filter (\<lambda>r. SeqID r > a) L"
    and old: "\<And>f. f \<in> set (Fragments (manifest w)) \<Longrightarrow> SeqStart f \<noteq> HeadSeq (manifest w) + 1"
    and small: "unat h + length rs < 2 ^ 64" and ne: "rs \<noteq> []"
    and d: "enc_records c (assign_seqs now (h + 1) rs) = Some d"
    and frag: "SeqStart frag = h + 1" "SeqEnd frag = h + of_nat (length rs)" "S3Key frag = fragmentKey (config w) (h + 1)"
    and g: "st_Get ops (Bucket (config w)) (fragmentKey (config w) (h + 1)) s = Inr d"
    and m: "m = (manifest w)\<lparr>Fragments := Fragments (manifest w) @ [frag], HeadSeq := SeqEnd frag, Version := v\<rparr>"
  shows "s3_inv ops c (w\<lparr>manifest := m\<rparr>) s (L @ assign_seqs now (h + 1) rs)"
proof -
  define new where "new = assign_seqs now (h + 1) rs"
  have ue: "unat (SeqEnd frag) = unat h + length rs" "unat (SeqStart frag) = Suc (unat h)"
    using unat_add_of_nat [OF small] unat_seq_end(2) [of h "length rs"] small ne by (simp_all add: frag)
  have dd: "dec_records c d = Some new" using cok d by (simp add: codec_ok_def new_def)
  have seqs: "map (\<lambda>r. unat (SeqID r)) new = [Suc (unat h)..<Suc (unat h + length rs)]"
    unfolding new_def using map_SeqID_assign small h_def by blast
  then have "unat (SeqID r) \<le> unat h + length rs" if "r \<in> set new" for r
    using that by (metis (no_types, lifting) atLeastLessThan_iff imageI less_Suc_eq_le list.set_map set_upt)
  moreover have "1 \<le> length rs" using ne by (simp add: Suc_le_eq)
  ultimately have nf: "frag_ok ops c (config w) s frag new"
    using ue dd g by (auto simp: frag_ok_def word_le_nat_alt frag(1,3))
  show ?thesis unfolding new_def [symmetric]
  proof (rule s3_invI)
    show "map (\<lambda>r. unat (SeqID r)) (L @ new) = [1..<Suc (unat (HeadSeq (manifest (w\<lparr>manifest := m\<rparr>))))]"
      using I(2) seqs ue(1) upt_add_eq_append [of "Suc 0" "Suc (unat h)" "length rs"] by (simp add: m h_def del: upt_Suc)
    show "distinct (map SeqStart (Fragments (manifest (w\<lparr>manifest := m\<rparr>))))" using I(3) old by (fastforce simp: m frag h_def)
    show "SeqEnd f \<le> HeadSeq (manifest (w\<lparr>manifest := m\<rparr>))" if "f \<in> set (Fragments (manifest (w\<lparr>manifest := m\<rparr>)))" for f
      using I(4) [of f] ue(1) that by (auto simp: m word_le_nat_alt h_def)
    show "list_all2 (frag_ok ops c (config (w\<lparr>manifest := m\<rparr>)) s) (Fragments (manifest (w\<lparr>manifest := m\<rparr>))) (rss @ [new])"
      using I(5) nf by (simp add: m list_all2_appendI)
    show "filter (\<lambda>r. SeqID r > a) (concat (rss @ [new])) = filter (\<lambda>r. SeqID r > a) (L @ new)"
      if "unat (CursorSeq (manifest (w\<lparr>manifest := m\<rparr>))) \<le> Suc (unat a)" for a
      using I(6) [of a] that by (simp add: m)
  qed (simp add: m I(1))
qed

text \<open>An append either fails before it touches the handle, or numbers its records in the handle; it is
  acknowledged exactly if the manifest is then also in the store.\<close>

lemma s3_Append_inv:
  fixes w :: S3WAL and rs :: "'p S3WALRecord list"
  assumes os: "object_store ops" and cok: "codec_ok c" and inv: "s3_inv ops c w s L"
    and ap: "s3_Append ops c ctx now rs w s = (x, w', s')" and ne: "rs \<noteq> []"
    and small: "unat (HeadSeq (manifest w)) + length rs < 2 ^ 64"
  shows "config w' = config w \<and>
    (if w' = w then isl x \<and> s3_inv ops c w s' L \<and> (manifest_stored ops c w s \<longrightarrow> manifest_stored ops c w s')
     else s3_inv ops c w' s' (L @ assign_seqs now (HeadSeq (manifest w) + 1) rs) \<and>
       (\<forall>q. x = Inr q \<longrightarrow> q = HeadSeq (manifest w') \<and> manifest_stored ops c w' s'))"
proof -
  obtain rss where I: "ETag (manifest w) = ''''"
    "map (\<lambda>r. unat (SeqID r)) L = [1..<Suc (unat (HeadSeq (manifest w)))]"
    "distinct (map SeqStart (Fragments (manifest w)))" "\<And>f. f \<in> set (Fragments (manifest w)) \<Longrightarrow> SeqEnd f \<le> HeadSeq (manifest w)"
    "list_all2 (frag_ok ops c (config w) s) (Fragments (manifest w)) rss"
    "\<And>a. unat (CursorSeq (manifest w)) \<le> Suc (unat a) \<Longrightarrow>
       filter (\<lambda>r. SeqID r > a) (concat rss) = filter (\<lambda>r. SeqID r > a) L"
    using s3_invE [OF inv] by metis
  define h where "h = HeadSeq (manifest w)"
  define new where "new = assign_seqs now (h + 1) rs"
  define key where "key = fragmentKey (config w) (h + 1)"
  have old: "SeqStart f \<noteq> h + 1" if "f \<in> set (Fragments (manifest w))" for f
    using frag_ok_start [OF I(5) that] I(4) [OF that] unat_seq_end(2) [of h "length rs"] small ne
    by (auto simp: word_le_nat_alt h_def)
  have frame: "list_all2 (frag_ok ops c (config w) t) (Fragments (manifest w)) rss"
    if "\<And>k. k \<noteq> key \<Longrightarrow> k \<noteq> manifestKey (config w) \<Longrightarrow> st_Get ops (Bucket (config w)) k t = st_Get ops (Bucket (config w)) k s" for t
    by (rule frag_ok_frame [OF I(5)]) (rule that, use old in \<open>simp_all add: key_def\<close>)
  have keep: "s3_inv ops c w t L" if "list_all2 (frag_ok ops c (config w) t) (Fragments (manifest w)) rss" for t
    using I that by (intro s3_invI) auto
  show ?thesis
  proof (cases "enc_records c new")
    case None
    then have "x = Inl (OtherError ''encoding fragment'' None)" "w' = w" "s' = s"
      using ap ne unfolding s3_Append_def Let_def h_def [symmetric] new_def [symmetric] by auto
    then show ?thesis using inv by simp
  next
    case (Some d)
    obtain pe s1 where pe: "st_Put ops (Bucket (config w)) key d s = (pe, s1)" by fastforce
    have g1: "st_Get ops (Bucket (config w)) k s1 = st_Get ops (Bucket (config w)) k s" if "k \<noteq> key" for k
      using object_store.put_other [OF os pe that] .
    define frag where "frag = \<lparr>SeqStart = h + 1, SeqEnd = h + 1 + of_nat (length rs) - 1, S3Key = key,
      SizeBytes = length d, CreatedAt = now div 1000000000\<rparr>"
    define m where "m = (manifest w)\<lparr>Fragments := Fragments (manifest w) @ [frag], HeadSeq := SeqEnd frag, Version := Version (manifest w) + 1\<rparr>"
    show ?thesis
    proof (cases pe)
      case (Some e)
      then have "isl x" "w' = w" "s' = s1" using ap ne \<open>enc_records c new = Some d\<close> pe
        unfolding s3_Append_def Let_def h_def [symmetric] new_def [symmetric] key_def [symmetric] by auto
      then show ?thesis using keep [OF frame] g1 by (auto simp: manifest_stored_def key_def)
    next
      case None
      obtain we where s1: "writeManifest ops c ctx (w\<lparr>manifest := m\<rparr>) s1 = (we, w', s')"
        "x = (case we of None \<Rightarrow> Inr (SeqEnd frag) | Some e \<Rightarrow> Inl (OtherError ''updating manifest'' (Some e)))"
        using ap ne Some None pe unfolding s3_Append_def Let_def h_def [symmetric] new_def [symmetric] key_def [symmetric]
        by (auto simp: m_def frag_def split: prod.splits option.splits)
      have "ETag (manifest (w\<lparr>manifest := m\<rparr>)) = ''''" using I(1) by (simp add: m_def)
      note W = writeManifest_plain [OF os this s1(1)]
      have w': "w' = w\<lparr>manifest := m\<rparr>" by (rule W(1))
      have g2: "st_Get ops (Bucket (config w)) k s' = st_Get ops (Bucket (config w)) k s1" if "k \<noteq> manifestKey (config w)" for k
        using W(2) that by simp
      have st: "we = None \<Longrightarrow> manifest_stored ops c w' s'" using W(3) w' by metis
      have "Version (manifest w') \<noteq> Version (manifest w)" by (simp add: w' m_def)
      then have "w' \<noteq> w" by auto
      moreover have "s3_inv ops c (w\<lparr>manifest := m\<rparr>) s' (L @ assign_seqs now (HeadSeq (manifest w) + 1) rs)"
      proof (rule s3_Append_frag [where frag = frag and d = d and rss = rss])
        show "list_all2 (frag_ok ops c (config w) s') (Fragments (manifest w)) rss" by (rule frame) (simp add: g1 g2)
        show "enc_records c (assign_seqs now (HeadSeq (manifest w) + 1) rs) = Some d" using Some by (simp add: new_def h_def)
        show "st_Get ops (Bucket (config w)) (fragmentKey (config w) (HeadSeq (manifest w) + 1)) s' = Inr d"
          using object_store.put_get [OF os] pe None g2 [of key] by (simp add: key_def h_def)
        show "m = (manifest w)\<lparr>Fragments := Fragments (manifest w) @ [frag], HeadSeq := SeqEnd frag, Version := Version (manifest w) + 1\<rparr>"
          by (rule m_def)
        fix f assume "f \<in> set (Fragments (manifest w))"
        then show "SeqStart f \<noteq> HeadSeq (manifest w) + 1" "SeqEnd f \<le> HeadSeq (manifest w)"
          using old [of f] I(4) [of f] by (simp_all add: h_def)
      qed (use cok I small ne in \<open>auto simp: frag_def key_def h_def\<close>)
      ultimately show ?thesis using st s1(2) by (auto simp: w' m_def split: option.splits)
    qed
  qed
qed

lemma drop_fragments_ok:
  assumes os: "object_store ops"
    and "list_all2 (frag_ok ops c cfg s) fs rss" "distinct (map SeqStart fs)"
    "drop_fragments ops (Bucket cfg) cur fs s = (fs', s')"
  shows "\<exists>rss'. list_all2 (frag_ok ops c cfg s') fs' rss' \<and> set fs' \<subseteq> set fs \<and> distinct (map SeqStart fs') \<and>
    (\<forall>k. (\<forall>f \<in> set fs. k \<noteq> fragmentKey cfg (SeqStart f)) \<longrightarrow> st_Get ops (Bucket cfg) k s' = st_Get ops (Bucket cfg) k s) \<and>
    (\<forall>a. unat cur \<le> Suc (unat a) \<longrightarrow> filter (\<lambda>r. SeqID r > a) (concat rss') = filter (\<lambda>r. SeqID r > a) (concat rss))"
  using assms(2-)
proof (induction fs arbitrary: s rss fs' s')
  case Nil
  then show ?case by (intro exI [of _ "[]"]) auto
next
  case (Cons f fs)
  obtain rs rss0 where rss: "rss = rs # rss0" "frag_ok ops c cfg s f rs" "list_all2 (frag_ok ops c cfg s) fs rss0"
    using Cons.prems(1) by (auto simp: list_all2_Cons1)
  have key: "S3Key f = fragmentKey cfg (SeqStart f)" "\<forall>r \<in> set rs. SeqID r \<le> SeqEnd f" using rss(2) by (auto simp: frag_ok_def)
  have nin: "\<forall>g \<in> set fs. SeqStart f \<noteq> SeqStart g" and dist: "distinct (map SeqStart fs)" using Cons.prems(2) by auto
  show ?case
  proof (cases "SeqEnd f \<ge> cur")
    case True
    then obtain fs0 where fs': "fs' = f # fs0" "drop_fragments ops (Bucket cfg) cur fs s = (fs0, s')"
      using Cons.prems(3) by (auto split: prod.splits)
    obtain rss' where R: "list_all2 (frag_ok ops c cfg s') fs0 rss'" "set fs0 \<subseteq> set fs" "distinct (map SeqStart fs0)"
      "\<And>k. (\<forall>f \<in> set fs. k \<noteq> fragmentKey cfg (SeqStart f)) \<Longrightarrow> st_Get ops (Bucket cfg) k s' = st_Get ops (Bucket cfg) k s"
      "\<And>a. unat cur \<le> Suc (unat a) \<Longrightarrow> filter (\<lambda>r. SeqID r > a) (concat rss') = filter (\<lambda>r. SeqID r > a) (concat rss0)"
      using Cons.IH [OF rss(3) dist fs'(2)] by blast
    have "frag_ok ops c cfg s' f rs" using rss(2) key R(4) [of "fragmentKey cfg (SeqStart f)"] nin by (simp add: frag_ok_def)
    moreover have "SeqStart f \<notin> SeqStart ` set fs0" using nin R(2) by fastforce
    ultimately show ?thesis using R rss(1) fs'(1) by (intro exI [of _ "rs # rss'"]) auto
  next
    case False
    define s1 where "s1 = snd (st_Delete ops (Bucket cfg) (S3Key f) s)"
    have g: "st_Get ops (Bucket cfg) k s1 = st_Get ops (Bucket cfg) k s" if "k \<noteq> fragmentKey cfg (SeqStart f)" for k
      using object_store.delete_other [OF os, of "Bucket cfg" "S3Key f" s "fst (st_Delete ops (Bucket cfg) (S3Key f) s)" s1 k] that key
      by (simp add: s1_def)
    have "list_all2 (frag_ok ops c cfg s1) fs rss0"
      using nin by (intro frag_ok_frame [OF rss(3)]) (auto intro!: g)
    moreover have "drop_fragments ops (Bucket cfg) cur fs s1 = (fs', s')" using Cons.prems(3) False by (simp add: s1_def)
    ultimately obtain rss' where R: "list_all2 (frag_ok ops c cfg s') fs' rss'" "set fs' \<subseteq> set fs" "distinct (map SeqStart fs')"
      "\<And>k. (\<forall>f \<in> set fs. k \<noteq> fragmentKey cfg (SeqStart f)) \<Longrightarrow> st_Get ops (Bucket cfg) k s' = st_Get ops (Bucket cfg) k s1"
      "\<And>a. unat cur \<le> Suc (unat a) \<Longrightarrow> filter (\<lambda>r. SeqID r > a) (concat rss') = filter (\<lambda>r. SeqID r > a) (concat rss0)"
      using Cons.IH [OF _ dist] by blast
    have "filter (\<lambda>r. SeqID r > a) rs = []" if "unat cur \<le> Suc (unat a)" for a
      using key(2) False that by (fastforce simp: filter_empty_conv word_le_nat_alt word_less_nat_alt not_le)
    then show ?thesis using R rss(1) g by (intro exI [of _ rss']) auto
  qed
qed

lemma s3_Advance_inv:
  assumes os: "object_store ops" and inv: "s3_inv ops c w s L" and ad: "AdvanceCursor ops c ctx n w s = (e, w', s')"
  shows "s3_inv ops c w' s' L \<and> config w' = config w \<and> HeadSeq (manifest w') = HeadSeq (manifest w) \<and>
    CursorSeq (manifest w') = max n (CursorSeq (manifest w)) \<and>
    (if w' = w then s' = s \<and> e = None else e = None \<longrightarrow> manifest_stored ops c w' s')"
proof (cases "n \<le> CursorSeq (manifest w)")
  case True
  then show ?thesis using inv ad by (simp add: AdvanceCursor_def Let_def max_def)
next
  case False
  obtain rss where I: "ETag (manifest w) = ''''"
    "map (\<lambda>r. unat (SeqID r)) L = [1..<Suc (unat (HeadSeq (manifest w)))]"
    "distinct (map SeqStart (Fragments (manifest w)))" "\<And>f. f \<in> set (Fragments (manifest w)) \<Longrightarrow> SeqEnd f \<le> HeadSeq (manifest w)"
    "list_all2 (frag_ok ops c (config w) s) (Fragments (manifest w)) rss"
    "\<And>a. unat (CursorSeq (manifest w)) \<le> Suc (unat a) \<Longrightarrow>
       filter (\<lambda>r. SeqID r > a) (concat rss) = filter (\<lambda>r. SeqID r > a) L"
    using s3_invE [OF inv] by metis
  obtain fs' s1 where d: "drop_fragments ops (Bucket (config w)) n (Fragments (manifest w)) s = (fs', s1)" by fastforce
  define m where "m = (manifest w)\<lparr>CursorSeq := n, Version := Version (manifest w) + 1, Fragments := fs'\<rparr>"
  have wr: "writeManifest ops c ctx (w\<lparr>manifest := m\<rparr>) s1 = (e, w', s')"
    using ad False d by (simp add: AdvanceCursor_def Let_def m_def)
  have "ETag (manifest (w\<lparr>manifest := m\<rparr>)) = ''''" using I(1) by (simp add: m_def)
  note W = writeManifest_plain [OF os this wr]
  have w': "w' = w\<lparr>manifest := m\<rparr>" by (rule W(1))
  have g: "st_Get ops (Bucket (config w)) k s' = st_Get ops (Bucket (config w)) k s1" if "k \<noteq> manifestKey (config w)" for k
    using W(2) that by simp
  have st: "e = None \<Longrightarrow> manifest_stored ops c w' s'" using W(3) w' by metis
  have "Version (manifest w') \<noteq> Version (manifest w)" by (simp add: w' m_def)
  then have "w' \<noteq> w" by auto
  obtain rss' where R: "list_all2 (frag_ok ops c (config w) s1) fs' rss'" "set fs' \<subseteq> set (Fragments (manifest w))" "distinct (map SeqStart fs')"
      "\<And>a. unat n \<le> Suc (unat a) \<Longrightarrow> filter (\<lambda>r. SeqID r > a) (concat rss') = filter (\<lambda>r. SeqID r > a) (concat rss)"
    using drop_fragments_ok [OF os I(5,3) d] by blast
  have fr: "list_all2 (frag_ok ops c (config w) s') fs' rss'" by (rule frag_ok_frame [OF R(1)]) (simp add: g)
  have "s3_inv ops c w' s' L"
  proof (rule s3_invI)
    show "filter (\<lambda>r. SeqID r > a) (concat rss') = filter (\<lambda>r. SeqID r > a) L"
      if "unat (CursorSeq (manifest w')) \<le> Suc (unat a)" for a
      using R(4) [of a] I(6) [of a] that False by (simp add: w' m_def word_le_nat_alt)
  qed (use I R(2,3) fr in \<open>auto simp: w' m_def\<close>)
  then show ?thesis using False st \<open>w' \<noteq> w\<close> by (simp add: w' m_def max_def)
qed

subsection \<open>Runs of one writer\<close>

text \<open>The handles and stores one writer reaches by calls that succeed or fail. \<open>L\<close> holds the records the
  handle has numbered, each with whether its append was acknowledged: an append that fails in encoding or
  in writing the fragment leaves the handle alone, but one that fails in writing the manifest has numbered
  its records. \<open>ok\<close>: the last manifest write succeeded; the writer closes and opens the log again
  only then (what it finds otherwise depends on what a failed \<open>Put\<close> left; see the lemmas below).\<close>

inductive s3_run ::
  "'s store_ops \<Rightarrow> 'p codec \<Rightarrow> S3WALConfig \<Rightarrow> S3WAL \<Rightarrow> 's \<Rightarrow> (bool \<times> 'p S3WALRecord) list \<Rightarrow> bool \<Rightarrow> bool"
  for ops c cfg where
  create: "st_Get ops (Bucket cfg) (manifestKey cfg) s = Inl err \<Longrightarrow> is_missing err \<Longrightarrow>
     NewS3WAL ops c ctx cfg s = (Inr w, s') \<Longrightarrow> s3_run ops c cfg w s' [] True"
| append: "s3_run ops c cfg w s L ok \<Longrightarrow> s3_Append ops c ctx now rs w s = (Inr q, w', s') \<Longrightarrow>
     unat (HeadSeq (manifest w)) + length rs < 2 ^ 64 \<Longrightarrow>
     s3_run ops c cfg w' s' (L @ map (Pair True) (assign_seqs now (HeadSeq (manifest w) + 1) rs)) (ok \<or> rs \<noteq> [])"
| append_fails: "s3_run ops c cfg w s L ok \<Longrightarrow> s3_Append ops c ctx now rs w s = (Inl e, w', s') \<Longrightarrow>
     unat (HeadSeq (manifest w)) + length rs < 2 ^ 64 \<Longrightarrow>
     s3_run ops c cfg w' s'
       (if w' = w then L else L @ map (Pair False) (assign_seqs now (HeadSeq (manifest w) + 1) rs)) (ok \<and> w' = w)"
| advance: "s3_run ops c cfg w s L ok \<Longrightarrow> AdvanceCursor ops c ctx n w s = (e, w', s') \<Longrightarrow>
     s3_run ops c cfg w' s' L (if w' = w then ok else e = None)"
| reopen: "s3_run ops c cfg w s L True \<Longrightarrow> NewS3WAL ops c ctx cfg s = (Inr w', s') \<Longrightarrow> s3_run ops c cfg w' s' L True"

lemma snd_Pair [simp]: "snd \<circ> Pair t = (\<lambda>x. x)"
  by auto

lemma s3_run_inv:
  assumes "object_store ops" "codec_ok c" "s3_run ops c cfg w s L ok"
  shows "s3_inv ops c w s (map snd L) \<and> (ok \<longrightarrow> manifest_stored ops c w s) \<and> config w = s3_defaults cfg"
  using assms(3)
proof induction
  case (create s err ctx w s')
  then show ?case using s3_New_inv [OF assms(1)] by fastforce
next
  case (append w s L ok ctx now rs q w' s')
  show ?case
  proof (cases "rs = []")
    case True
    then show ?thesis using append by (simp add: s3_Append_def assign_seqs_def)
  next
    case False
    with s3_Append_inv [OF assms(1,2) conjunct1 [OF append.IH] append.hyps(2) False append.hyps(3)] append.IH
    show ?thesis by (cases "w' = w") simp_all
  qed
next
  case (append_fails w s L ok ctx now rs e w' s')
  then have "rs \<noteq> []" by (auto simp: s3_Append_def)
  with s3_Append_inv [OF assms(1,2) conjunct1 [OF append_fails.IH] append_fails.hyps(2) _ append_fails.hyps(3)] append_fails.IH
  show ?case by (cases "w' = w") simp_all
next
  case (advance w s L ok ctx n e w' s')
  then show ?case using s3_Advance_inv [OF assms(1) _ advance.hyps(2)] by (metis (full_types))
next
  case (reopen w s L ctx w' s')
  then show ?case using s3_reopen [OF assms(2)] by fastforce
qed

text \<open>C27. Log round trip for one writer over a conforming object store, after any run of creating,
  appending, advancing the cursor (with its deletions) and reopening, in which any call may fail: the
  records the handle has numbered carry \<open>1, 2, ...\<close> up to the head; a read since \<open>a\<close>, where the cursor is
  at most \<open>a + 1\<close>, returns without error exactly those with a larger number, in order, so that every
  acknowledged record is returned; and if the last manifest write succeeded, a reader that opens the log from the
  store gets the same handle. (The records of an append whose manifest write failed are numbered and
  returned too, although the append reported an error.)\<close>

theorem s3wal_read_after_append:
  assumes "object_store ops" "codec_ok c" "s3_run ops c cfg w s L ok" "unat (CursorSeq (manifest w)) \<le> Suc (unat a)"
  shows "ReadSince ops c a w s = Inr (filter (\<lambda>r. SeqID r > a) (map snd L)) \<and>
    map (\<lambda>r. unat (SeqID r)) (map snd L) = [1..<Suc (unat (HeadSeq (manifest w)))] \<and>
    (ok \<longrightarrow> NewS3WAL ops c ctx cfg s = (Inr w, s))"
proof -
  have inv: "s3_inv ops c w s (map snd L)" "ok \<longrightarrow> manifest_stored ops c w s" and cfg: "config w = s3_defaults cfg"
    using s3_run_inv [OF assms(1-3)] by auto
  have "map (\<lambda>r. unat (SeqID r)) (map snd L) = [1..<Suc (unat (HeadSeq (manifest w)))]"
    using s3_invE [OF inv(1)] by metis
  then show ?thesis using s3_inv_ReadSince [OF inv(1) assms(4)] s3_reopen [OF assms(2) inv(1) _ cfg] inv(2) by blast
qed

text \<open>A codec that satisfies \<open>codec_ok\<close>: the values are numbered and a number is written in unary.\<close>

definition unary_codec :: "nat codec" where
  "unary_codec = \<lparr>
     enc_manifest = (\<lambda>m. replicate (to_nat (map (\<lambda>f. (unat (SeqStart f), unat (SeqEnd f), map (of_char :: char \<Rightarrow> nat) (S3Key f), SizeBytes f, CreatedAt f)) (Fragments m),
        unat (HeadSeq m), unat (CursorSeq m), Version m)) 0),
     dec_manifest = (\<lambda>d. case from_nat (length d) of (fs, h, cu, v) \<Rightarrow>
        Some \<lparr>Fragments = map (\<lambda>(a, b, k, n, t). \<lparr>SeqStart = of_nat a, SeqEnd = of_nat b, S3Key = map (char_of :: nat \<Rightarrow> char) k, SizeBytes = n, CreatedAt = t\<rparr>) fs,
          HeadSeq = of_nat h, CursorSeq = of_nat cu, Version = v, ETag = ''''\<rparr>),
     enc_records = (\<lambda>rs. Some (replicate (to_nat (map (\<lambda>r. (unat (SeqID r), Timestamp r, payload r)) rs)) 0)),
     dec_records = (\<lambda>d. Some (map (\<lambda>(q, t, p). \<lparr>SeqID = of_nat q, Timestamp = t, payload = p\<rparr>) (from_nat (length d))))\<rparr>"

lemma unary_codec_enc: "\<exists>d. enc_records unary_codec rs = Some d"
  by (simp add: unary_codec_def)

lemma unary_codec_ok: "codec_ok unary_codec"
proof -
  have "(\<lambda>f. \<lparr>SeqStart = SeqStart f, SeqEnd = SeqEnd f, S3Key = S3Key f, SizeBytes = SizeBytes f, CreatedAt = CreatedAt f\<rparr>) = (\<lambda>f. f)"
    "(\<lambda>r :: nat S3WALRecord. \<lparr>SeqID = SeqID r, Timestamp = Timestamp r, payload = payload r\<rparr>) = (\<lambda>r. r)" by auto
  then show ?thesis by (simp add: codec_ok_def unary_codec_def comp_def case_prod_unfold)
qed

definition s3_example_cfg :: S3WALConfig where
  "s3_example_cfg = \<lparr>Bucket = ''b'', Prefix = ''p'', FragmentBucket = 0, MaxRetries = 0\<rparr>"

definition s3_one :: "nat \<Rightarrow> nat S3WALRecord list" where
  "s3_one p = [\<lparr>SeqID = 0, Timestamp = 5, payload = p\<rparr>]"

lemma NewS3WAL_mem:
  "NewS3WAL (mem_ops now) c ctx cfg NewMemoryStore = (Inr \<lparr>config = s3_defaults cfg, manifest = empty_manifest\<rparr>,
     snd (mem_Put now (Bucket cfg) (manifestKey cfg) (enc_manifest c empty_manifest) NewMemoryStore))"
  by (simp add: NewS3WAL_def loadOrCreateManifest_def mem_ops_def mem_Get_def NewMemoryStore_def writeManifest_def
      empty_manifest_def mem_Put_def Let_def)

text \<open>The in-memory store behind a list that says which \<open>Put\<close>s fail without effect.\<close>

definition flaky_ops :: "nat \<Rightarrow> (bool list \<times> MemoryStore) store_ops" where
  "flaky_ops now = \<lparr>
     st_Get = (\<lambda>b k (fs, m). mem_Get b k m),
     st_Put = (\<lambda>b k d (fs, m).
       if fs \<noteq> [] \<and> hd fs then (Some (OtherError ''unavailable'' None), tl fs, m)
       else (case mem_Put now b k d m of (e, m') \<Rightarrow> (e, tl fs, m'))),
     st_Delete = (\<lambda>b k (fs, m). case mem_Delete b k m of (e, m') \<Rightarrow> (e, fs, m')),
     st_ConditionalPut = (\<lambda>b k d t (fs, m). case st_ConditionalPut (mem_ops now) b k d t m of (r, m') \<Rightarrow> (r, fs, m'))\<rparr>"

interpretation flaky: object_store "flaky_ops now" for now
  by unfold_locales
    (auto simp: flaky_ops_def mem_Put_def mem_Get_def mem_Delete_def Let_def split: if_splits prod.splits)

lemma flaky_Append:
  assumes "ETag (manifest w) = ''''"
  obtains w' m' where "s3_Append (flaky_ops now) unary_codec ctx n (s3_one p) w (False # b # fs, m) =
      ((if b then Inl (OtherError ''updating manifest'' (Some (OtherError ''unavailable'' None))) else Inr (HeadSeq (manifest w) + 1)), w', fs, m')"
    "w' \<noteq> w" "ETag (manifest w') = ''''" "CursorSeq (manifest w') = CursorSeq (manifest w)"
    "HeadSeq (manifest w') = HeadSeq (manifest w) + 1"
proof -
  obtain d where "enc_records unary_codec (assign_seqs n (HeadSeq (manifest w) + 1) (s3_one p)) = Some d"
    using unary_codec_enc by blast
  moreover have "w\<lparr>manifest := m\<rparr> \<noteq> w" if "Version m = Version (manifest w) + 1" for m
  proof
    assume "w\<lparr>manifest := m\<rparr> = w"
    then have "manifest (w\<lparr>manifest := m\<rparr>) = manifest w" by simp
    then show False using that by simp
  qed
  ultimately show ?thesis using assms that
    by (cases b) (auto simp: s3_Append_def Let_def writeManifest_def flaky_ops_def mem_Put_def s3_one_def)
qed

theorem s3wal_read_after_append_witness:
  "\<exists>w s r1 r2. s3_run (flaky_ops 7) unary_codec s3_example_cfg w s [(True, r1), (False, r2)] False \<and>
     r1 = \<lparr>SeqID = 1, Timestamp = 5, payload = 3\<rparr> \<and> r2 = \<lparr>SeqID = 2, Timestamp = 5, payload = 4\<rparr> \<and>
     ReadSince (flaky_ops 7) unary_codec 0 w s = Inr [r1, r2]"
proof -
  define w0 where "w0 = \<lparr>config = s3_defaults s3_example_cfg, manifest = empty_manifest\<rparr>"
  let ?s = "([False, False, False, False, True], NewMemoryStore)"
  obtain m0 where new: "NewS3WAL (flaky_ops 7) unary_codec (\<lambda>_. None) s3_example_cfg ?s = (Inr w0, [False, False, False, True], m0)"
    unfolding w0_def by (simp add: NewS3WAL_def loadOrCreateManifest_def flaky_ops_def mem_Get_def NewMemoryStore_def
        writeManifest_def empty_manifest_def mem_Put_def Let_def)
  have r0: "s3_run (flaky_ops 7) unary_codec s3_example_cfg w0 ([False, False, False, True], m0) [] True"
    by (rule s3_run.create [OF _ _ new]) (auto simp: flaky_ops_def mem_Get_def NewMemoryStore_def)
  have w0: "HeadSeq (manifest w0) = 0" "ETag (manifest w0) = ''''" "CursorSeq (manifest w0) = 0" by (simp_all add: w0_def empty_manifest_def)
  have len: "length (s3_one p) = 1" "s3_one p \<noteq> []" for p by (simp_all add: s3_one_def)
  obtain w1 m1 where 1: "s3_Append (flaky_ops 7) unary_codec (\<lambda>_. None) 9 (s3_one 3) w0 ([False, False, False, True], m0) = (Inr 1, w1, [False, True], m1)"
    "ETag (manifest w1) = ''''" "CursorSeq (manifest w1) = 0" "HeadSeq (manifest w1) = 1"
    by (rule flaky_Append [OF w0(2), of 7 "\<lambda>_. None" 9 3 False "[False, True]" m0]) (simp add: w0)
  obtain w2 m2 e where 2: "s3_Append (flaky_ops 7) unary_codec (\<lambda>_. None) 9 (s3_one 4) w1 ([False, True], m1) = (Inl e, w2, [], m2)"
    "w2 \<noteq> w1" "CursorSeq (manifest w2) = 0"
    by (rule flaky_Append [OF 1(2), of 7 "\<lambda>_. None" 9 4 True "[]" m1]) (simp add: 1(3))
  note run1 = s3_run.append [OF r0 1(1), simplified w0 len]
  have run: "s3_run (flaky_ops 7) unary_codec s3_example_cfg w2 ([], m2)
    ([(True, \<lparr>SeqID = 1, Timestamp = 5, payload = 3\<rparr>), (False, \<lparr>SeqID = 2, Timestamp = 5, payload = 4\<rparr>)]) False"
    using s3_run.append_fails [OF run1 2(1)] 1(4) 2(2) by (simp add: s3_one_def assign_seqs_def)
  have "ReadSince (flaky_ops 7) unary_codec 0 w2 ([], m2) =
    Inr [\<lparr>SeqID = 1, Timestamp = 5, payload = 3\<rparr>, \<lparr>SeqID = 2, Timestamp = 5, payload = 4\<rparr>]"
    using s3wal_read_after_append [OF flaky.object_store_axioms unary_codec_ok run, of 0] 2(3) by simp
  with run show ?thesis by blast
qed

text \<open>What a failed manifest write leaves. The handle is ahead of the store: its reads return the records of the
  append that reported an error, and a reader that opens the log finds the handle from before it.\<close>

theorem s3wal_failed_append_diverges:
  assumes "object_store ops" "codec_ok c" "s3_run ops c cfg w s L True" "rs \<noteq> []"
    and "unat (HeadSeq (manifest w)) + length rs < 2 ^ 64"
    and "s3_Append ops c ctx now rs w s = (Inl e, w', s')" "w' \<noteq> w"
    and "st_Get ops (Bucket cfg) (manifestKey cfg) s' = st_Get ops (Bucket cfg) (manifestKey cfg) s"
    and "unat (CursorSeq (manifest w')) \<le> Suc (unat a)"
  shows "ReadSince ops c a w' s' =
      Inr (filter (\<lambda>r. SeqID r > a) (map snd L @ assign_seqs now (HeadSeq (manifest w) + 1) rs)) \<and>
    NewS3WAL ops c ctx cfg s' = (Inr w, s')"
proof -
  have inv: "s3_inv ops c w s (map snd L)" "manifest_stored ops c w s" and cfg: "config w = s3_defaults cfg"
    using s3_run_inv [OF assms(1-3)] by auto
  have "s3_inv ops c w' s' (map snd L @ assign_seqs now (HeadSeq (manifest w) + 1) rs)"
    using s3_Append_inv [OF assms(1,2) inv(1) assms(6,4,5)] assms(7) by simp
  moreover have "manifest_stored ops c w s'" using inv(2) assms(8) cfg by (simp add: manifest_stored_def)
  ultimately show ?thesis
    by (intro conjI s3_inv_ReadSince [OF _ assms(9)] s3_reopen [OF assms(2) inv(1) _ cfg])
qed

text \<open>Advancing the cursor deletes the fragments before it writes the manifest: when that write fails, the manifest
  in the store still names a deleted fragment, and a reader that opens the log fails from its own cursor on.\<close>

theorem s3wal_failed_advance_unreadable:
  assumes "object_store ops" "codec_ok c" "s3_run ops c cfg w s L True"
    and "AdvanceCursor ops c ctx n w s = (Some e, w', s')"
    and "st_Get ops (Bucket cfg) (manifestKey cfg) s' = st_Get ops (Bucket cfg) (manifestKey cfg) s"
    and "Fragments (manifest w) = f # fs" "SeqEnd f > a" "st_Get ops (Bucket cfg) (S3Key f) s' = Inl err"
  shows "NewS3WAL ops c ctx cfg s' = (Inr w, s') \<and>
    ReadSince ops c a w s' = Inl (OtherError ''reading fragment'' (Some err))"
proof -
  have inv: "s3_inv ops c w s (map snd L)" "manifest_stored ops c w s" and cfg: "config w = s3_defaults cfg"
    using s3_run_inv [OF assms(1-3)] by auto
  have "manifest_stored ops c w s'" using inv(2) assms(5) cfg by (simp add: manifest_stored_def)
  moreover have "ReadSince ops c a w s' = Inl (OtherError ''reading fragment'' (Some err))"
    using assms(6-8) cfg by (simp add: ReadSince_def linorder_not_le [symmetric])
  ultimately show ?thesis using s3_reopen [OF assms(2) inv(1) _ cfg] by blast
qed

definition one_manifest :: "'p codec \<Rightarrow> S3WALConfig \<Rightarrow> int \<Rightarrow> 'p S3WALRecord \<Rightarrow> Manifest" where
  "one_manifest c cfg n r = \<lparr>Fragments = [\<lparr>SeqStart = 1, SeqEnd = 1, S3Key = fragmentKey cfg 1,
     SizeBytes = (case enc_records c (assign_seqs n 1 [r]) of None \<Rightarrow> 0 | Some d \<Rightarrow> length d), CreatedAt = n div 1000000000\<rparr>],
     HeadSeq = 1, CursorSeq = 0, Version = 2, ETag = ''''\<rparr>"

lemma first_append_mem:
  assumes "s3_Append (mem_ops t) c ctx n [r] \<lparr>config = cfg, manifest = empty_manifest\<rparr> s = (x, w, s')"
    and "enc_records c (assign_seqs n 1 [r]) = Some d"
  shows "x = Inr 1" "w = \<lparr>config = cfg, manifest = one_manifest c cfg n r\<rparr>"
    "mem_Get (Bucket cfg) (fragmentKey cfg 1) s' = Inr d"
    "mem_Get (Bucket cfg) (manifestKey cfg) s' = Inr (enc_manifest c (one_manifest c cfg n r))"
  using assms
  by (auto simp: s3_Append_def Let_def writeManifest_def mem_ops_def mem_Put_def mem_Get_def empty_manifest_def one_manifest_def)

text \<open>Two writers: the manifest is written with \<open>Put\<close>, not with the compare-and-swap, because its
  \<open>ETag\<close> is never set by creating or loading it. When a second writer has opened the log before the
  first one appends, both appends are acknowledged with the same sequence number and fragment key, no
  error is reported, and every later reader, the first writer included, sees only the second record:
  an acknowledged record is lost.\<close>

theorem s3wal_two_writers_lose:
  assumes "codec_ok c"
    and "NewS3WAL (mem_ops t0) c ctx cfg NewMemoryStore = (Inr a, s0)"
    and "NewS3WAL (mem_ops t1) c ctx cfg s0 = (Inr b, s1)"
    and "enc_records c (assign_seqs n1 1 [ra]) = Some d1" "enc_records c (assign_seqs n2 1 [rb]) = Some d2"
    and "s3_Append (mem_ops t2) c ctx n1 [ra] a s1 = (xa, a', s2)"
    and "s3_Append (mem_ops t3) c ctx n2 [rb] b s2 = (xb, b', s3)"
  shows "xa = Inr 1 \<and> xb = Inr 1 \<and> ETag (manifest a) = '''' \<and> ETag (manifest b) = '''' \<and>
    ReadSince (mem_ops t4) c 0 a' s3 = Inr (assign_seqs n2 1 [rb]) \<and>
    (\<exists>w. NewS3WAL (mem_ops t4) c ctx cfg s3 = (Inr w, s3) \<and> ReadSince (mem_ops t4) c 0 w s3 = Inr (assign_seqs n2 1 [rb]))"
proof -
  have dec: "dec_manifest c (enc_manifest c m) = Some (m\<lparr>ETag := ''''\<rparr>)" "enc_records c rs = Some d \<Longrightarrow> dec_records c d = Some rs" for m rs d
    using assms(1) by (auto simp: codec_ok_def)
  have a: "a = \<lparr>config = s3_defaults cfg, manifest = empty_manifest\<rparr>"
    "s0 = snd (mem_Put t0 (Bucket cfg) (manifestKey cfg) (enc_manifest c empty_manifest) NewMemoryStore)"
    using assms(2) by (simp_all add: NewS3WAL_mem)
  have b: "b = a" "s1 = s0"
    using assms(3) by (auto simp: a NewS3WAL_def loadOrCreateManifest_def mem_ops_def mem_Get_def mem_Put_def Let_def dec empty_manifest_def)
  note A = first_append_mem [OF assms(6) [unfolded a(1)] assms(4)]
    and B = first_append_mem [OF assms(7) [unfolded b(1) a(1)] assms(5)]
  have rd: "ReadSince (mem_ops t4) c 0 \<lparr>config = s3_defaults cfg, manifest = one_manifest c (s3_defaults cfg) n r\<rparr> s3 =
    Inr (assign_seqs n2 1 [rb])" for n r
    using B(3) dec(2) [OF assms(5)] by (simp add: ReadSince_def one_manifest_def mem_ops_def) (simp add: assign_seqs_def)
  have "NewS3WAL (mem_ops t4) c ctx cfg s3 = (Inr b', s3)"
    using B(2,4) by (simp add: NewS3WAL_def loadOrCreateManifest_def mem_ops_def dec) (simp add: one_manifest_def)
  then show ?thesis using A(1,2) B(1,2) rd a(1) b(1) by (simp add: empty_manifest_def)
qed

lemma s3_two_writers_run:
  "\<exists>a s0 b s1 a' s2 b' s3. NewS3WAL (mem_ops 1) unary_codec (\<lambda>_. None) s3_example_cfg NewMemoryStore = (Inr a, s0) \<and>
     NewS3WAL (mem_ops 2) unary_codec (\<lambda>_. None) s3_example_cfg s0 = (Inr b, s1) \<and>
     s3_Append (mem_ops 3) unary_codec (\<lambda>_. None) 9 (s3_one 3) a s1 = (Inr 1, a', s2) \<and>
     s3_Append (mem_ops 4) unary_codec (\<lambda>_. None) 9 (s3_one 4) b s2 = (Inr 1, b', s3)"
proof -
  define a where "a = \<lparr>config = s3_defaults s3_example_cfg, manifest = empty_manifest\<rparr>"
  define s0 where "s0 = snd (mem_Put 1 (Bucket s3_example_cfg) (manifestKey s3_example_cfg) (enc_manifest unary_codec empty_manifest) NewMemoryStore)"
  have 1: "NewS3WAL (mem_ops 1) unary_codec (\<lambda>_. None) s3_example_cfg NewMemoryStore = (Inr a, s0)"
    unfolding a_def s0_def by (rule NewS3WAL_mem)
  have 2: "NewS3WAL (mem_ops 2) unary_codec (\<lambda>_. None) s3_example_cfg s0 = (Inr a, s0)"
    using unary_codec_ok
    by (simp add: a_def s0_def NewS3WAL_def loadOrCreateManifest_def mem_ops_def mem_Get_def mem_Put_def Let_def codec_ok_def empty_manifest_def)
  have 3: "\<exists>w s'. s3_Append (mem_ops t) unary_codec (\<lambda>_. None) 9 (s3_one p) a s = (Inr 1, w, s')" for t p s
    by (cases "s3_Append (mem_ops t) unary_codec (\<lambda>_. None) 9 (s3_one p) a s")
      (use unary_codec_enc in \<open>force simp: a_def s3_one_def dest: first_append_mem(1)\<close>)
  from 1 2 3 show ?thesis by metis
qed

theorem s3wal_two_writers_lose_witness:
  "\<exists>a' b' s3 s2 b. s3_Append (mem_ops 4) unary_codec (\<lambda>_. None) 9 (s3_one 4) b s2 = (Inr 1, b', s3) \<and>
     ReadSince (mem_ops 5) unary_codec 0 a' s3 = Inr [\<lparr>SeqID = 1, Timestamp = 5, payload = 4\<rparr>]"
proof -
  obtain a s0 b s1 a' s2 b' s3 where R: "NewS3WAL (mem_ops 1) unary_codec (\<lambda>_. None) s3_example_cfg NewMemoryStore = (Inr a, s0)"
    "NewS3WAL (mem_ops 2) unary_codec (\<lambda>_. None) s3_example_cfg s0 = (Inr b, s1)"
    "s3_Append (mem_ops 3) unary_codec (\<lambda>_. None) 9 (s3_one 3) a s1 = (Inr 1, a', s2)"
    "s3_Append (mem_ops 4) unary_codec (\<lambda>_. None) 9 (s3_one 4) b s2 = (Inr 1, b', s3)" using s3_two_writers_run by blast
  obtain d1 d2 where "enc_records unary_codec (assign_seqs 9 1 (s3_one 3)) = Some d1" "enc_records unary_codec (assign_seqs 9 1 (s3_one 4)) = Some d2"
    using unary_codec_enc by blast
  from s3wal_two_writers_lose [OF unary_codec_ok R(1,2) this [unfolded s3_one_def] R(3,4) [unfolded s3_one_def], of 5]
  have "ReadSince (mem_ops 5) unary_codec 0 a' s3 = Inr [\<lparr>SeqID = 1, Timestamp = 5, payload = 4\<rparr>]" by (simp add: assign_seqs_def)
  with R(4) show ?thesis by blast
qed

end
