(* ===== verification/Simd_Kernels.thy ===== *)
theory Simd_Kernels
  imports Distance
begin

section \<open>The C kernels\<close>

text \<open>
  Models \<open>internal/distance/simd_avx2.c\<close> and \<open>internal/distance/neon/simd_neon.c\<close>, the batch kernels behind
  \<open>l2BatchSIMD\<close> and its kin, and shows that in exact arithmetic they compute what the Go kernels compute. The
  kernels of the two files differ in the width of a register and in the horizontal sum, which are
  parameters here. A register is the list of its lanes; each intrinsic acts lane by lane as the processor manuals
  say. \<open>rt\<close> is \<open>__builtin_sqrtf\<close>. A fused multiply-add rounds once, so for rounded numbers \<open>fma_lanes\<close> would not
  be a multiplication and an addition; the statements are about ordered fields. The wrappers check the
  lengths of the slices before they pass pointers, so no read here is out of range.
\<close>

definition load_lanes :: "nat \<Rightarrow> 'f list \<Rightarrow> nat \<Rightarrow> 'f list" where
  \<comment> \<open>\<open>_mm256_loadu_ps(xs + j)\<close>, \<open>vld1q_f32(xs + j)\<close>\<close>
  "load_lanes w xs j = take w (drop j xs)"

definition sub_lanes :: "'f::minus list \<Rightarrow> 'f list \<Rightarrow> 'f list" where
  "sub_lanes a b = map2 (-) a b"

definition fma_lanes :: "'f::{plus,times} list \<Rightarrow> 'f list \<Rightarrow> 'f list \<Rightarrow> 'f list" where
  \<comment> \<open>\<open>_mm256_fmadd_ps(a, b, c)\<close>, \<open>vfmaq_f32(c, a, b)\<close>\<close>
  "fma_lanes a b c = map2 (+) (map2 (*) a b) c"

definition hadd :: "'f::plus list \<Rightarrow> 'f list \<Rightarrow> 'f list" where
  \<comment> \<open>\<open>_mm_hadd_ps\<close>\<close>
  "hadd a b = [a ! 0 + a ! 1, a ! 2 + a ! 3, b ! 0 + b ! 1, b ! 2 + b ! 3]"

definition avx2_sum :: "'f::plus list \<Rightarrow> 'f" where
  "avx2_sum acc =
     (let hi = drop 4 acc; lo = take 4 acc; sum128 = map2 (+) lo hi; sum128 = hadd sum128 sum128; sum128 = hadd sum128 sum128
      in sum128 ! 0)"

definition neon_sum :: "'f::plus list \<Rightarrow> 'f" where
  \<comment> \<open>\<open>vaddvq_f32\<close>\<close>
  "neon_sum acc = (acc ! 0 + acc ! 1) + (acc ! 2 + acc ! 3)"

definition for_blocks :: "nat \<Rightarrow> nat \<Rightarrow> (nat \<Rightarrow> 'a \<Rightarrow> 'a) \<Rightarrow> 'a \<Rightarrow> 'a" where
  \<comment> \<open>\<open>for (int j = 0; j < aligned_dim; j += vec_width)\<close>\<close>
  "for_blocks w dm step = fold (\<lambda>b. step (b * w)) [0..<dm div w]"

definition l2_kernel :: "nat \<Rightarrow> ('f list \<Rightarrow> 'f) \<Rightarrow> 'f::{zero,plus,minus,times} list \<Rightarrow> 'f list \<Rightarrow> nat \<Rightarrow> nat \<Rightarrow> 'f list \<Rightarrow> 'f list" where
  "l2_kernel w hsum query matrix n dm results =
     map (\<lambda>i. let row = drop (i * dm) matrix;
         acc = for_blocks w dm (\<lambda>j acc.
           let q = load_lanes w query j; r = load_lanes w row j; diff = sub_lanes q r in fma_lanes diff diff acc) (replicate w 0)
       in tail_loop (\<lambda>j. let diff = query ! j - row ! j in diff * diff) dm (dm div w * w) (hsum acc)) [0..<n] @ drop n results"

definition dot_kernel :: "nat \<Rightarrow> ('f list \<Rightarrow> 'f) \<Rightarrow> 'f::{zero,plus,times} list \<Rightarrow> 'f list \<Rightarrow> nat \<Rightarrow> nat \<Rightarrow> 'f list \<Rightarrow> 'f list" where
  "dot_kernel w hsum query matrix n dm results =
     map (\<lambda>i. let row = drop (i * dm) matrix;
         acc = for_blocks w dm (\<lambda>j acc.
           let q = load_lanes w query j; r = load_lanes w row j in fma_lanes q r acc) (replicate w 0)
       in tail_loop (\<lambda>j. query ! j * row ! j) dm (dm div w * w) (hsum acc)) [0..<n] @ drop n results"

definition cosine_kernel ::
  "nat \<Rightarrow> ('f list \<Rightarrow> 'f) \<Rightarrow> ('f \<Rightarrow> 'f) \<Rightarrow> 'f::{zero,one,plus,minus,times,inverse,uminus,ord} list \<Rightarrow> 'f list \<Rightarrow> nat \<Rightarrow> nat \<Rightarrow>
    'f \<Rightarrow> 'f list \<Rightarrow> 'f list" where
  "cosine_kernel w hsum rt query matrix n dm queryNorm results =
     map (\<lambda>i. let row = drop (i * dm) matrix in
       case for_blocks w dm (\<lambda>j (dot_acc, norm_acc).
           let q = load_lanes w query j; r = load_lanes w row j in (fma_lanes q r dot_acc, fma_lanes r r norm_acc))
         (replicate w 0, replicate w 0) of (dot_acc, norm_acc) \<Rightarrow>
       let dot = tail_loop (\<lambda>j. query ! j * row ! j) dm (dm div w * w) (hsum dot_acc);
           norm_b = tail_loop (\<lambda>j. row ! j * row ! j) dm (dm div w * w) (hsum norm_acc) in
       if queryNorm = 0 \<or> norm_b = 0 then 1
       else let similarity = dot / rt (queryNorm * norm_b);
                similarity = (if similarity > 1 then 1 else similarity);
                similarity = (if similarity < - 1 then - 1 else similarity) in 1 - similarity) [0..<n] @ drop n results"

definition avx2_build :: "('f \<Rightarrow> 'f) \<Rightarrow> 'f::{zero,one,plus,minus,times,inverse,uminus,ord} simd_build" where
  \<comment> \<open>\<open>amd64\<close> with cgo\<close>
  "avx2_build rt = SimdKernels (l2_kernel 8 avx2_sum) (dot_kernel 8 avx2_sum) (cosine_kernel 8 avx2_sum rt)"

definition neon_build :: "('f \<Rightarrow> 'f) \<Rightarrow> 'f::{zero,one,plus,minus,times,inverse,uminus,ord} simd_build" where
  \<comment> \<open>\<open>arm64\<close> with cgo\<close>
  "neon_build rt = SimdKernels (l2_kernel 4 neon_sum) (dot_kernel 4 neon_sum) (cosine_kernel 4 neon_sum rt)"

subsection \<open>Lanes and sums\<close>

lemma avx2_sum: "length acc = 8 \<Longrightarrow> avx2_sum acc = sum_list acc" for acc :: "'f::comm_monoid_add list"
  by (auto simp: avx2_sum_def hadd_def Let_def length_Suc_conv eval_nat_numeral ac_simps)

lemma neon_sum: "length acc = 4 \<Longrightarrow> neon_sum acc = sum_list acc" for acc :: "'f::comm_monoid_add list"
  by (auto simp: neon_sum_def length_Suc_conv eval_nat_numeral ac_simps)

definition adds_lanes :: "nat \<Rightarrow> nat \<Rightarrow> (nat \<Rightarrow> 'f::comm_monoid_add) \<Rightarrow> (nat \<Rightarrow> 'f list \<Rightarrow> 'f list) \<Rightarrow> bool" where
  \<comment> \<open>a step adds the next \<open>w\<close> terms, one to each lane\<close>
  "adds_lanes w dm t step \<longleftrightarrow> (\<forall>j acc. length acc = w \<longrightarrow> j + w \<le> dm \<longrightarrow> step j acc = map (\<lambda>l. t (j + l) + acc ! l) [0..<w])"

lemma for_blocks_sum:
  assumes "adds_lanes w dm t step"
  shows "length (for_blocks w dm step (replicate w 0)) = w \<and> sum_list (for_blocks w dm step (replicate w 0)) = sum t {..<dm div w * w}"
proof -
  have "length (fold (\<lambda>b. step (b * w)) [0..<k] (replicate w 0)) = w \<and>
    sum_list (fold (\<lambda>b. step (b * w)) [0..<k] (replicate w 0)) = sum t {..<k * w}" if "k * w \<le> dm" for k
    using that
  proof (induction k)
    case 0
    have "sum_list (replicate w (0 :: 'a)) = 0" by (induction w) simp_all
    then show ?case by simp
  next
    case (Suc k)
    let ?acc = "fold (\<lambda>b. step (b * w)) [0..<k] (replicate w 0)"
    have a: "length ?acc = w" "sum_list ?acc = sum t {..<k * w}" using Suc by auto
    have s: "step (k * w) ?acc = map (\<lambda>l. t (k * w + l) + ?acc ! l) [0..<w]"
      using assms a(1) Suc.prems by (simp add: adds_lanes_def add.commute)
    have "sum_list (map (\<lambda>l. t (k * w + l) + ?acc ! l) [0..<w]) = (\<Sum>l<w. t (k * w + l)) + sum_list ?acc"
      using a(1) by (simp add: sum_list_addf interv_sum_list_conv_sum_set_nat sum_list_sum_nth atLeast0LessThan sum.distrib)
    moreover have "(\<Sum>l<w. t (k * w + l)) = sum t {k * w..<Suc k * w}"
      using sum.shift_bounds_nat_ivl [of t 0 "k * w" w] by (simp add: atLeast0LessThan add.commute)
    moreover have "sum t {..<k * w} + sum t {k * w..<Suc k * w} = sum t {..<Suc k * w}"
      using sum.atLeastLessThan_concat [of 0 "k * w" "Suc k * w" t] by (simp add: atLeast0LessThan)
    ultimately show ?case using s a(2) by (simp add: add.commute)
  qed
  from this [of "dm div w"] show ?thesis by (simp add: for_blocks_def)
qed

lemma blocks_and_tail:
  assumes "adds_lanes w dm t step" "\<And>acc. length acc = w \<Longrightarrow> hsum acc = sum_list acc"
  shows "tail_loop t dm (dm div w * w) (hsum (for_blocks w dm step (replicate w 0))) = sum t {..<dm}"
  using for_blocks_sum [OF assms(1)] assms(2) sum.atLeastLessThan_concat [of 0 "dm div w * w" dm t]
  by (simp add: tail_loop_sum atLeast0LessThan)

lemma fma_adds:
  fixes a b :: "'f::comm_ring list"
  assumes "dm \<le> length a" "dm \<le> length b"
  shows "adds_lanes w dm (\<lambda>j. a ! j * b ! j) (\<lambda>j. fma_lanes (load_lanes w a j) (load_lanes w b j))"
    "adds_lanes w dm (\<lambda>j. (a ! j - b ! j) * (a ! j - b ! j))
      (\<lambda>j. fma_lanes (sub_lanes (load_lanes w a j) (load_lanes w b j)) (sub_lanes (load_lanes w a j) (load_lanes w b j)))"
  unfolding adds_lanes_def fma_lanes_def sub_lanes_def load_lanes_def
  by (intro allI impI nth_equalityI; use assms in simp)+

lemma for_blocks_pair:
  "for_blocks w dm (\<lambda>j (x, y). (f j x, g j y)) (a, b) = (for_blocks w dm f a, for_blocks w dm g b)"
proof -
  have "fold (\<lambda>k (x, y). (f (k * w) x, g (k * w) y)) ks (a, b) = (fold (\<lambda>k. f (k * w)) ks a, fold (\<lambda>k. g (k * w)) ks b)" for ks
    by (induction ks arbitrary: a b) auto
  then show ?thesis by (simp add: for_blocks_def case_prod_beta)
qed

subsection \<open>The C kernels are the Go kernels\<close>

lemma kernel_rows:
  fixes q :: "'f::linordered_field list"
  assumes h: "\<And>acc :: 'f list. length acc = w \<Longrightarrow> hsum acc = sum_list acc" and l: "dm \<le> length q" "n * dm \<le> length m" "n \<le> length r"
  shows "Inr (l2_kernel w hsum q m n dm r) = L2BatchPure q m n dm r"
    "Inr (dot_kernel w hsum q m n dm r) = DotBatchPure q m n dm r"
    "Inr (cosine_kernel w hsum rt q m n dm (query_norm q dm) r) = CosineBatchPure rt q m n dm r"
proof -
  have row: "dm \<le> length (drop (i * dm) m)" if "i < n" for i using rows_in_range [OF that l(2)] by simp
  have nth: "drop (i * dm) m ! j = m ! (i * dm + j)" if "i < n" for i j using row [OF that] rows_in_range [OF that l(2)] by simp
  note A = fma_adds [OF l(1) row, where w = w] fma_adds(1) [OF row row, where w = w]
  have S: "tail_loop t dm (dm div w * w) (hsum (for_blocks w dm step (replicate w 0))) = sum t {..<dm}"
    if "adds_lanes w dm t step" for t step by (rule blocks_and_tail [OF that]) (rule h)
  have T: "tail_loop (\<lambda>j. q ! j * m ! (i * dm + j)) dm (dm div w * w)
      (hsum (for_blocks w dm (\<lambda>j. fma_lanes (load_lanes w q j) (load_lanes w (drop (i * dm) m) j)) (replicate w 0))) =
      (\<Sum>j<dm. q ! j * m ! (i * dm + j))"
    "tail_loop (\<lambda>j. (q ! j - m ! (i * dm + j)) * (q ! j - m ! (i * dm + j))) dm (dm div w * w)
      (hsum (for_blocks w dm (\<lambda>j. fma_lanes (sub_lanes (load_lanes w q j) (load_lanes w (drop (i * dm) m) j))
        (sub_lanes (load_lanes w q j) (load_lanes w (drop (i * dm) m) j))) (replicate w 0))) =
      (\<Sum>j<dm. (q ! j - m ! (i * dm + j)) * (q ! j - m ! (i * dm + j)))"
    "tail_loop (\<lambda>j. m ! (i * dm + j) * m ! (i * dm + j)) dm (dm div w * w)
      (hsum (for_blocks w dm (\<lambda>j. fma_lanes (load_lanes w (drop (i * dm) m) j) (load_lanes w (drop (i * dm) m) j)) (replicate w 0))) =
      (\<Sum>j<dm. m ! (i * dm + j) * m ! (i * dm + j))" if "i < n" for i
    using S [OF A(1) [OF that]] S [OF A(2) [OF that]] S [OF A(3) [OF that that]] unfolding nth [OF that] .
  have run: "run_batch q m n dm f r = Inr (map f [0..<n] @ drop n r)" for f using l by (auto simp: run_batch_def)
  show "Inr (l2_kernel w hsum q m n dm r) = L2BatchPure q m n dm r"
    unfolding L2BatchPure_def run l2_kernel_def Let_def
    by (simp add: T lane_loop_sum atLeast0LessThan nth)
  show "Inr (dot_kernel w hsum q m n dm r) = DotBatchPure q m n dm r"
    unfolding DotBatchPure_def run dot_kernel_def Let_def
    by (simp add: T lane_loop_sum atLeast0LessThan nth)
  show "Inr (cosine_kernel w hsum rt q m n dm (query_norm q dm) r) = CosineBatchPure rt q m n dm r"
    using l(1) unfolding CosineBatchPure_def cosine_kernel_def Let_def run for_blocks_pair prod.case
    by (simp add: T cosine_loop_sum atLeast0LessThan nth clamp_similarity_def)
qed

lemma builds_agree:
  fixes p :: "'f::linordered_field platform"
  assumes "useSIMD p \<Longrightarrow> build p = avx2_build (rt32 p) \<or> build p = neon_build (rt32 p)"
  shows "kernels_agree p"
  using assms kernel_rows [OF avx2_sum] kernel_rows [OF neon_sum]
  by (auto simp: kernels_agree_def avx2_build_def neon_build_def)

subsection \<open>Batch distances\<close>

text \<open>C34. Batch kernels against the scalar functions: in exact arithmetic, for every metric name the system accepts
  and slices of the right lengths, \<open>BatchDistance\<close> does not panic, writes exactly the scalar distance from the
  query to each of the first \<open>n\<close> rows and leaves the rest of the results alone. It covers the dispatch, the four-lane
  loops of Go and, when the processor has the feature and the batch is large enough, the AVX2 and NEON kernels in
  C. A build without the C kernels on such a processor is excluded: its stubs panic.\<close>

theorem BatchDistance_is_scalar:
  fixes q :: "'f::linordered_field list"
  assumes "useSIMD p \<Longrightarrow> build p = avx2_build (rt32 p) \<or> build p = neon_build (rt32 p)"
    "length q = dm" "0 < dm" "n * dm \<le> length m" "n \<le> length r" "GetDistanceFunc metric = Some f"
  shows "BatchDistance p q m n dm metric r =
    Inr (map (\<lambda>i. apply_metric (rt32 p) f q (row_of dm m i)) [0..<n] @ drop n r)"
  by (rule BatchDistance_rows [OF builds_agree [OF assms(1)] assms(2-6)])

lemma goes_to_avx2:
  "BatchDistance \<lparr>useSIMD = True, build = avx2_build rt, rt32 = rt\<rparr> (replicate 9 2) (replicate 576 1) 64 9 ''l2'' (replicate 65 7) =
    Inr (l2_kernel 8 avx2_sum (replicate 9 2) (replicate 576 1) 64 9 (replicate 65 (7 :: 'f::linordered_field)))"
  by (simp add: BatchDistance_def L2Batch_def simdThreshold_def l2BatchSIMD_def avx2_build_def simd_fallback_def MaxInt32_def)

theorem BatchDistance_is_scalar_witness:
  "BatchDistance \<lparr>useSIMD = True, build = avx2_build id, rt32 = id\<rparr> (replicate 9 2) (replicate 576 1) 64 9 ''l2'' (replicate 65 7) =
      Inr (replicate 64 9 @ [7 :: rat]) \<and>
    l2_kernel 8 avx2_sum (replicate 9 2) (replicate 576 1) 64 9 (replicate 65 7) = replicate 64 9 @ [7 :: rat]"
proof -
  have m: "GetDistanceFunc ''l2'' = Some L2Squared_fn" by code_simp
  have row: "apply_metric id L2Squared_fn (replicate 9 2) (row_of 9 (replicate 576 1) i) = (9 :: rat)" if "i < 64" for i
    using that by (simp add: apply_metric_def row_of_def L2Squared_def sum_loop_sum)
  have row': "map (\<lambda>i. apply_metric id L2Squared_fn (replicate 9 2) (row_of 9 (replicate 576 1) i)) [0..<64] = replicate 64 (9 :: rat)"
    by (rule nth_equalityI) (simp_all add: row del: upt.simps replicate.simps)
  have "BatchDistance \<lparr>useSIMD = True, build = avx2_build id, rt32 = id\<rparr> (replicate 9 2) (replicate 576 1) 64 9 ''l2'' (replicate 65 7) =
      Inr (replicate 64 9 @ [7 :: rat])"
    by (subst BatchDistance_is_scalar [where f = L2Squared_fn]) (simp_all add: m row' del: upt.simps)
  then show ?thesis using goes_to_avx2 [of "id :: rat \<Rightarrow> rat"] by simp
qed

end
