(* ===== verification/Wal.thy ===== *)
theory Wal
  imports Errors
begin

section \<open>The write-ahead log on SQLite\<close>

text \<open>
  Models \<open>internal/storage/wal.go\<close>. A \<open>float32\<close> is its bit pattern. The SQLite table \<open>wal_entries\<close>
  is a parameter, the record \<open>table\<close> of the statements the code prepares; \<open>sqlite_table\<close> is what is
  used of them: AUTOINCREMENT keys grow and are never reused, a failed statement changes nothing, the
  queries mean what they say. The interface \<open>WAL\<close> is the locale \<open>wal\<close>. The synchronisation pragmas and
  the checkpoint loop only affect what survives a crash of the machine and are not modelled.
\<close>

type_synonym f32 = u32

record WALOp =
  Type :: u8
  CollectionID :: string
  ID :: u64
  Vector :: "f32 list option" \<comment> \<open>\<open>None\<close> is the nil slice\<close>
  Document :: string

record WALEntry =
  SeqID :: u64
  Op :: WALOp

definition WALOpInsert :: u8 where
  "WALOpInsert = 1"

definition WALOpDelete :: u8 where
  "WALOpDelete = 2"

record row =
  op_type :: u8
  collection_id :: string
  vector_id :: u64
  vector_data :: "bytes option"
  document :: "string option"

record 'd table =
  tb_insert :: "row \<Rightarrow> 'd \<Rightarrow> (error + int) \<times> 'd"
  tb_begin :: "'d \<Rightarrow> error option"
  tb_commit :: "'d \<Rightarrow> error option"
  tb_min :: "'d \<Rightarrow> error + int option"
  tb_max :: "'d \<Rightarrow> error + int option"
  tb_select :: "u64 \<Rightarrow> 'd \<Rightarrow> error + (int \<times> row) list"
  tb_delete :: "u64 \<Rightarrow> 'd \<Rightarrow> error option \<times> 'd"

subsection \<open>Vectors as bytes\<close>

definition encodeVectorBinary :: "f32 list \<Rightarrow> bytes option" where
  \<comment> \<open>the memory of the slice on a little-endian machine; nil for the empty slice\<close>
  "encodeVectorBinary v = (if v = [] then None else Some (concat (map (le_encode 4) v)))"

definition read_u32 :: "bytes \<Rightarrow> nat \<Rightarrow> u32 go" where
  \<comment> \<open>\<open>binary.LittleEndian.Uint32(data[i*4:])\<close>\<close>
  "read_u32 data i = go_bind (slice data (4 * i) (length data)) (\<lambda>b.
     if length b < 4 then Inl IndexOutOfRange else Inr (le_decode (take 4 b)))"

fun decode_loop :: "bytes \<Rightarrow> nat list \<Rightarrow> f32 list go" where
  "decode_loop data [] = Inr []"
| "decode_loop data (i # is) = go_bind (read_u32 data i) (\<lambda>x. go_bind (decode_loop data is) (\<lambda>xs. Inr (x # xs)))"

definition decodeVectorBinary :: "bytes \<Rightarrow> f32 list option go" where
  "decodeVectorBinary data =
     (if data = [] then Inr None
      else go_bind (decode_loop data [0..<length data div 4]) (\<lambda>v. Inr (Some v)))"

lemma read_u32_chunk: "4 * i + 4 \<le> length data \<Longrightarrow> read_u32 data i = Inr (le_decode (take 4 (drop (4 * i) data)))"
  by (simp add: read_u32_def slice_def)

lemma decode_loop_chunks:
  "\<forall>i \<in> set is. 4 * i + 4 \<le> length data \<Longrightarrow>
   decode_loop data is = Inr (map (\<lambda>i. le_decode (take 4 (drop (4 * i) data))) is)"
  by (induction "is") (simp_all add: read_u32_chunk)

lemma decodeVectorBinary_total:
  "decodeVectorBinary data = Inr (if data = [] then None
     else Some (map (\<lambda>i. le_decode (take 4 (drop (4 * i) data))) [0..<length data div 4]))"
proof -
  have "\<forall>i \<in> set [0..<length data div 4]. 4 * i + 4 \<le> length data" by auto
  then show ?thesis by (simp only: decodeVectorBinary_def decode_loop_chunks go_bind.simps) auto
qed

lemma length_concat_encode [simp]: "length (concat (map (le_encode 4) v)) = 4 * length v"
  by (induction v) simp_all

lemma drop_concat_encode: "drop (4 * i) (concat (map (le_encode 4) v)) = concat (map (le_encode 4) (drop i v))"
  by (induction v arbitrary: i) (auto simp: drop_Cons split: nat.split)

lemma chunk_encode:
  assumes "i < length (v :: f32 list)"
  shows "le_decode (take 4 (drop (4 * i) (concat (map (le_encode 4) v)))) = v ! i"
proof -
  have "drop (4 * i) (concat (map (le_encode 4) v)) = le_encode 4 (v ! i) @ concat (map (le_encode 4) (drop (Suc i) v))"
    unfolding drop_concat_encode using assms by (simp flip: Cons_nth_drop_Suc)
  then show ?thesis using le_decode_encode [of 4 "v ! i"] by simp
qed

lemma decode_encode_trail:
  assumes "length xs < 4" "v \<noteq> []"
  shows "decodeVectorBinary (concat (map (le_encode 4) v) @ xs) = Inr (Some v)"
proof -
  have nth: "map (\<lambda>i. le_decode (take 4 (drop (4 * i) (concat (map (le_encode 4) v) @ xs)))) [0..<length v] = v"
    by (rule nth_equalityI) (use chunk_encode in \<open>auto simp: nth_append\<close>)
  have "concat (map (le_encode 4) v) @ xs \<noteq> []" using assms(2) by (cases v) (auto simp: le_encode_def)
  moreover have "length (concat (map (le_encode 4) v) @ xs) div 4 = length v" using assms(1) by simp
  ultimately show ?thesis unfolding decodeVectorBinary_total using nth by simp
qed

lemma vector_decode_encode:
  "case encodeVectorBinary v of None \<Rightarrow> v = [] | Some d \<Rightarrow> decodeVectorBinary d = Inr (Some v)"
  using decode_encode_trail [of "[]" v] by (simp add: encodeVectorBinary_def)

text \<open>Vector round trip: the bytes of a non-empty vector decode to the same vector, bit for bit
  (NaN payloads and signed zeros included), the empty vector is stored as NULL, decoding panics on no
  input, and of a blob whose length is not a multiple of four the trailing bytes are ignored.\<close>

theorem vector_binary_roundtrip:
  "(case encodeVectorBinary v of None \<Rightarrow> v = [] | Some d \<Rightarrow> length d = 4 * length v \<and> decodeVectorBinary d = Inr (Some v)) \<and>
   (\<exists>r. decodeVectorBinary data = Inr r \<and> length (case r of None \<Rightarrow> [] | Some x \<Rightarrow> x) = length data div 4) \<and>
   decodeVectorBinary (concat (map (le_encode 4) (x # w)) @ take 3 trail) = Inr (Some (x # w))"
proof -
  have "\<exists>r. decodeVectorBinary data = Inr r \<and> length (case r of None \<Rightarrow> [] | Some x \<Rightarrow> x) = length data div 4"
    by (simp add: decodeVectorBinary_total)
  moreover have "decodeVectorBinary (concat (map (le_encode 4) (x # w)) @ take 3 trail) = Inr (Some (x # w))"
    by (rule decode_encode_trail) auto
  ultimately show ?thesis using vector_decode_encode [of v] by (cases "v = []") (simp_all add: encodeVectorBinary_def)
qed

subsection \<open>Operations\<close>

definition row_of :: "WALOp \<Rightarrow> row" where
  "row_of op = \<lparr>op_type = Type op, collection_id = CollectionID op, vector_id = ID op,
     vector_data = (case Vector op of None \<Rightarrow> None | Some v \<Rightarrow> encodeVectorBinary v), document = Some (Document op)\<rparr>"

definition Append :: "'d table \<Rightarrow> WALOp \<Rightarrow> 'd \<Rightarrow> (error + u64) \<times> 'd" where
  "Append tb op d =
     (case tb_insert tb (row_of op) d of
        (Inl e, d') \<Rightarrow> (Inl (OtherError ''appending entry'' (Some e)), d')
      | (Inr seqID, d') \<Rightarrow> (Inr (word_of_int seqID), d'))"

fun batch_loop :: "'d table \<Rightarrow> WALOp list \<Rightarrow> 'd \<Rightarrow> (error + u64 list) \<times> 'd" where
  "batch_loop tb [] tx = (Inr [], tx)"
| "batch_loop tb (op # ops) tx =
     (case tb_insert tb (row_of op) tx of
        (Inl e, tx') \<Rightarrow> (Inl (OtherError ''batch insert'' (Some e)), tx')
      | (Inr seqID, tx') \<Rightarrow>
          (case batch_loop tb ops tx' of
             (Inl e, tx'') \<Rightarrow> (Inl e, tx'') | (Inr seqIDs, tx'') \<Rightarrow> (Inr (word_of_int seqID # seqIDs), tx'')))"

definition AppendBatch :: "'d table \<Rightarrow> WALOp list \<Rightarrow> 'd \<Rightarrow> (error + u64 list) \<times> 'd" where
  \<comment> \<open>an early return rolls the transaction back: the database is as it was\<close>
  "AppendBatch tb ops d =
     (if ops = [] then (Inr [], d)
      else case tb_begin tb d of Some e \<Rightarrow> (Inl (OtherError ''beginning transaction'' (Some e)), d)
      | None \<Rightarrow>
          (case batch_loop tb ops d of
             (Inl e, tx) \<Rightarrow> (Inl e, d)
           | (Inr seqIDs, tx) \<Rightarrow>
               (case tb_commit tb tx of Some e \<Rightarrow> (Inl (OtherError ''committing batch'' (Some e)), d)
                | None \<Rightarrow> (Inr seqIDs, tx))))"

fun scan_rows :: "(int \<times> row) list \<Rightarrow> WALEntry list go" where
  "scan_rows [] = Inr []"
| "scan_rows ((q, r) # rows) =
     go_bind (case vector_data r of None \<Rightarrow> Inr None | Some b \<Rightarrow> decodeVectorBinary b) (\<lambda>v.
     go_bind (scan_rows rows) (\<lambda>es.
       Inr (\<lparr>SeqID = word_of_int q, Op = \<lparr>Type = op_type r, CollectionID = collection_id r, ID = vector_id r,
         Vector = v, Document = (case document r of None \<Rightarrow> '''' | Some s \<Rightarrow> s)\<rparr>\<rparr> # es)))"

definition truncated :: "int option \<Rightarrow> u64 \<Rightarrow> bool" where
  "truncated minSeqID afterSeq \<longleftrightarrow> (case minSeqID of None \<Rightarrow> False | Some q \<Rightarrow> word_of_int q > afterSeq)"

definition truncation_error :: error where
  "truncation_error = OtherError ''requested seq'' (Some (VDBError ErrWALTruncation None))"

definition ReadFrom :: "'d table \<Rightarrow> u64 \<Rightarrow> 'd \<Rightarrow> (error + WALEntry list) go" where
  "ReadFrom tb afterSeq d =
     (let check = (if afterSeq > 0
          then (case tb_min tb d of
                  Inl e \<Rightarrow> Some (OtherError ''reading min seq id'' (Some e))
                | Inr minSeqID \<Rightarrow> if truncated minSeqID afterSeq then Some truncation_error else None)
          else None) in
      case check of Some e \<Rightarrow> Inr (Inl e)
      | None \<Rightarrow>
          (case tb_select tb afterSeq d of
             Inl e \<Rightarrow> Inr (Inl (OtherError ''reading'' (Some e)))
           | Inr rows \<Rightarrow> go_bind (scan_rows rows) (\<lambda>entries. Inr (Inr entries))))"

definition GetMaxSeqID :: "'d table \<Rightarrow> 'd \<Rightarrow> error + u64" where
  "GetMaxSeqID tb d =
     (case tb_max tb d of
        Inl e \<Rightarrow> Inl (OtherError ''getting max seq id'' (Some e))
      | Inr None \<Rightarrow> Inr 0
      | Inr (Some q) \<Rightarrow> Inr (word_of_int q))"

definition Truncate :: "'d table \<Rightarrow> u64 \<Rightarrow> 'd \<Rightarrow> error option \<times> 'd" where
  "Truncate tb upToSeq d =
     (case tb_delete tb upToSeq d of
        (None, d') \<Rightarrow> (None, d') | (Some e, d') \<Rightarrow> (Some (OtherError ''truncating'' (Some e)), d'))"

subsection \<open>What is used of SQLite\<close>

definition table_keys_ok :: "(int \<times> row) list \<Rightarrow> int \<Rightarrow> bool" where
  "table_keys_ok rs seqno \<longleftrightarrow> sorted_wrt (<) (map fst rs) \<and> 0 \<le> seqno \<and> seqno < 2 ^ 63 \<and> (\<forall>q \<in> fst ` set rs. 1 \<le> q \<and> q \<le> seqno)"

definition sqlite_table :: "'d table \<Rightarrow> ('d \<Rightarrow> (int \<times> row) list) \<Rightarrow> ('d \<Rightarrow> int) \<Rightarrow> bool" where
  \<comment> \<open>\<open>rows d\<close> are the table's rows by key, \<open>seqno d\<close> the largest key it ever gave out\<close>
  "sqlite_table tb rows seqno \<longleftrightarrow>
     (\<forall>d. table_keys_ok (rows d) (seqno d)) \<and>
     (\<forall>r d q d'. tb_insert tb r d = (Inr q, d') \<longrightarrow> seqno d < q \<and> seqno d' = q \<and> rows d' = rows d @ [(q, r)]) \<and>
     (\<forall>r d e d'. tb_insert tb r d = (Inl e, d') \<longrightarrow> seqno d' = seqno d \<and> rows d' = rows d) \<and>
     (\<forall>d x. tb_min tb d = Inr x \<longrightarrow> x = (if rows d = [] then None else Some (fst (hd (rows d))))) \<and>
     (\<forall>d x. tb_max tb d = Inr x \<longrightarrow> x = (if rows d = [] then None else Some (fst (last (rows d))))) \<and>
     (\<forall>a d rs. tb_select tb a d = Inr rs \<longrightarrow> rs = filter (\<lambda>(q, _). q > uint a) (rows d)) \<and>
     (\<forall>a d d'. tb_delete tb a d = (None, d') \<longrightarrow> seqno d' = seqno d \<and> rows d' = filter (\<lambda>(q, _). q > uint a) (rows d)) \<and>
     (\<forall>a d e d'. tb_delete tb a d = (Some e, d') \<longrightarrow> seqno d' = seqno d \<and> rows d' = rows d)"

subsection \<open>The interface\<close>

definition stored :: "WALOp \<Rightarrow> WALOp" where
  \<comment> \<open>an empty vector comes back as nil\<close>
  "stored op = (if Vector op = Some [] then op\<lparr>Vector := None\<rparr> else op)"

text \<open>\<open>log\<close> is what the log holds, \<open>hi\<close> the largest number it ever gave out.\<close>

locale wal =
  fixes append :: "WALOp \<Rightarrow> 's \<Rightarrow> (error + u64) \<times> 's"
    and append_batch :: "WALOp list \<Rightarrow> 's \<Rightarrow> (error + u64 list) \<times> 's"
    and read_from :: "u64 \<Rightarrow> 's \<Rightarrow> (error + WALEntry list) go"
    and max_seq :: "'s \<Rightarrow> error + u64"
    and truncate :: "u64 \<Rightarrow> 's \<Rightarrow> error option \<times> 's"
    and log :: "'s \<Rightarrow> WALEntry list"
    and hi :: "'s \<Rightarrow> u64"
  assumes append_ok: "append op s = (Inr q, s') \<Longrightarrow> hi s < q \<and> hi s' = q \<and> log s' = log s @ [\<lparr>SeqID = q, Op = stored op\<rparr>]"
    and append_err: "append op s = (Inl e, s') \<Longrightarrow> hi s' = hi s \<and> log s' = log s"
    and batch_ok: "append_batch ops s = (Inr qs, s') \<Longrightarrow> length qs = length ops \<and> sorted_wrt (<) (hi s # qs) \<and>
      hi s' = last (hi s # qs) \<and> log s' = log s @ map2 (\<lambda>q op. \<lparr>SeqID = q, Op = stored op\<rparr>) qs ops"
    and batch_err: "append_batch ops s = (Inl e, s') \<Longrightarrow> hi s' = hi s \<and> log s' = log s"
    and read_ok: "\<exists>r. read_from a s = Inr r \<and> (\<forall>es. r = Inr es \<longrightarrow> es = filter (\<lambda>e. SeqID e > a) (log s))"
    and max_ok: "max_seq s = Inr q \<Longrightarrow> q = (if log s = [] then 0 else SeqID (last (log s)))"
    and truncate_ok: "truncate a s = (None, s') \<Longrightarrow> hi s' = hi s \<and> log s' = filter (\<lambda>e. SeqID e > a) (log s)"
    and truncate_err: "truncate a s = (Some e, s') \<Longrightarrow> hi s' = hi s \<and> log s' = log s"

definition last_seq :: "WALEntry list \<Rightarrow> u64" where
  "last_seq H = (if H = [] then 0 else SeqID (last H))"

text \<open>A run of the log with the entries it acknowledged and the largest number removed by a truncation.\<close>

inductive wal_run ::
  "(WALOp \<Rightarrow> 's \<Rightarrow> (error + u64) \<times> 's) \<Rightarrow> (WALOp list \<Rightarrow> 's \<Rightarrow> (error + u64 list) \<times> 's) \<Rightarrow>
   (u64 \<Rightarrow> 's \<Rightarrow> error option \<times> 's) \<Rightarrow> 's \<Rightarrow> 's \<Rightarrow> WALEntry list \<Rightarrow> u64 \<Rightarrow> bool"
  for append append_batch truncate s0 where
  start: "wal_run append append_batch truncate s0 s0 [] 0"
| append: "wal_run append append_batch truncate s0 s H T \<Longrightarrow> append op s = (Inr q, s') \<Longrightarrow>
    wal_run append append_batch truncate s0 s' (H @ [\<lparr>SeqID = q, Op = stored op\<rparr>]) T"
| append_fails: "wal_run append append_batch truncate s0 s H T \<Longrightarrow> append op s = (Inl e, s') \<Longrightarrow>
    wal_run append append_batch truncate s0 s' H T"
| batch: "wal_run append append_batch truncate s0 s H T \<Longrightarrow> append_batch ops s = (Inr qs, s') \<Longrightarrow>
    wal_run append append_batch truncate s0 s' (H @ map2 (\<lambda>q op. \<lparr>SeqID = q, Op = stored op\<rparr>) qs ops) T"
| batch_fails: "wal_run append append_batch truncate s0 s H T \<Longrightarrow> append_batch ops s = (Inl e, s') \<Longrightarrow>
    wal_run append append_batch truncate s0 s' H T"
| truncate: "wal_run append append_batch truncate s0 s H T \<Longrightarrow> truncate a s = (None, s') \<Longrightarrow>
    wal_run append append_batch truncate s0 s' H (max T (min a (last_seq H)))"
| truncate_fails: "wal_run append append_batch truncate s0 s H T \<Longrightarrow> truncate a s = (Some e, s') \<Longrightarrow>
    wal_run append append_batch truncate s0 s' H T"

definition wal_inv :: "WALEntry list \<Rightarrow> u64 \<Rightarrow> WALEntry list \<Rightarrow> u64 \<Rightarrow> bool" where
  "wal_inv lg h H T \<longleftrightarrow> lg = filter (\<lambda>e. SeqID e > T) H \<and> sorted_wrt (<) (map SeqID H) \<and>
     (\<forall>e \<in> set H. SeqID e \<le> h) \<and> T \<le> h"

lemma wal_inv_append:
  assumes "wal_inv lg h H T" "sorted_wrt (<) (h # map SeqID es)"
  shows "wal_inv (lg @ es) (last (h # map SeqID es)) (H @ es) T"
proof -
  have I: "lg = filter (\<lambda>e. SeqID e > T) H" "sorted_wrt (<) (map SeqID H)" "\<forall>e \<in> set H. SeqID e \<le> h" "T \<le> h"
    using assms(1) by (auto simp: wal_inv_def)
  have gt: "\<forall>e \<in> set es. h < SeqID e" and so: "sorted_wrt (<) (map SeqID es)" using assms(2) by auto
  have le: "x \<le> last (h # map SeqID es)" if "x \<in> set (h # map SeqID es)" for x
  proof -
    have "sorted (h # map SeqID es)" using assms(2) by (metis strict_sorted_imp_sorted)
    then show ?thesis using that by (metis in_set_conv_nth last_conv_nth le_less_Suc_eq length_Cons less_Suc_eq_le list.discI
          sorted_iff_nth_mono diff_Suc_1 lessI)
  qed
  have "filter (\<lambda>e. SeqID e > T) es = es" using gt I(4) by (auto simp: filter_id_conv)
  moreover have "sorted_wrt (<) (map SeqID (H @ es))"
    using I(2,3) gt so by (fastforce simp: sorted_wrt_append)
  moreover have "SeqID e \<le> last (h # map SeqID es)" if "e \<in> set H" for e
    using I(3) that le [of h] by (meson list.set_intros(1) order_trans)
  moreover have "T \<le> last (h # map SeqID es)" using I(4) le [of h] by simp
  ultimately show ?thesis using I(1) le unfolding wal_inv_def by auto
qed

lemma last_seq_greatest: "sorted_wrt (<) (map SeqID H) \<Longrightarrow> e \<in> set H \<Longrightarrow> SeqID e \<le> last_seq H"
  by (induction H rule: rev_induct) (auto simp: last_seq_def sorted_wrt_append)

lemma wal_inv_truncate:
  assumes "wal_inv lg h H T"
  shows "wal_inv (filter (\<lambda>e. SeqID e > a) lg) h H (max T (min a (last_seq H)))"
proof -
  have I: "lg = filter (\<lambda>e. SeqID e > T) H" "sorted_wrt (<) (map SeqID H)" "\<forall>e \<in> set H. SeqID e \<le> h" "T \<le> h"
    using assms by (auto simp: wal_inv_def)
  have "filter (\<lambda>e. SeqID e > a) lg = filter (\<lambda>e. SeqID e > max T (min a (last_seq H))) H"
    unfolding I(1) filter_filter
    by (rule filter_cong) (use last_seq_greatest [OF I(2)] in \<open>auto simp: min_less_iff_disj dest: leD\<close>)
  moreover have "max T (min a (last_seq H)) \<le> h"
    using I(3,4) by (cases "H = []") (auto simp: last_seq_def min.coboundedI2)
  ultimately show ?thesis using I by (simp add: wal_inv_def)
qed

context wal
begin

lemma run_inv:
  assumes "wal_run append append_batch truncate s0 s H T" "log s0 = []"
  shows "wal_inv (log s) (hi s) H T"
  using assms(1)
proof induction
  case start
  then show ?case using assms(2) by (simp add: wal_inv_def)
next
  case (append s H T op q s')
  then show ?case using append_ok [OF append.hyps(2)] wal_inv_append [of "log s" "hi s" H T "[\<lparr>SeqID = q, Op = stored op\<rparr>]"] by simp
next
  case (append_fails s H T op e s')
  then show ?case using append_err by metis
next
  case (batch s H T ops qs s')
  define es where "es = map2 (\<lambda>q op. \<lparr>SeqID = q, Op = stored op\<rparr>) qs ops"
  note B = batch_ok [OF batch.hyps(2)]
  have "map SeqID es = qs" using B by (simp add: es_def comp_def case_prod_unfold)
  then show ?case using B batch.IH wal_inv_append [of "log s" "hi s" H T es] by (simp add: es_def)
next
  case (batch_fails s H T ops e s')
  then show ?case using batch_err by metis
next
  case (truncate s H T a s')
  then show ?case using truncate_ok [OF truncate.hyps(2)] wal_inv_truncate by simp
next
  case (truncate_fails s H T a e s')
  then show ?case using truncate_err by metis
qed

lemma read_complete:
  assumes "wal_run append append_batch truncate s0 s H T" "log s0 = []"
  shows "sorted_wrt (<) (map SeqID H)"
    "\<exists>r. read_from a s = Inr r \<and> (\<forall>es. r = Inr es \<longrightarrow> es = filter (\<lambda>e. SeqID e > max a T) H)"
proof -
  have I: "log s = filter (\<lambda>e. SeqID e > T) H" "sorted_wrt (<) (map SeqID H)" using run_inv [OF assms] by (auto simp: wal_inv_def)
  show "sorted_wrt (<) (map SeqID H)" by (rule I(2))
  obtain r where r: "read_from a s = Inr r" "\<And>es. r = Inr es \<Longrightarrow> es = filter (\<lambda>e. SeqID e > a) (log s)" using read_ok by blast
  have "filter (\<lambda>e. SeqID e > a) (log s) = filter (\<lambda>e. SeqID e > max a T) H" unfolding I(1) filter_filter by (rule filter_cong) auto
  with r show "\<exists>r. read_from a s = Inr r \<and> (\<forall>es. r = Inr es \<longrightarrow> es = filter (\<lambda>e. SeqID e > max a T) H)" by metis
qed

end

subsection \<open>The SQLite log implements the interface\<close>

definition entry_of :: "int \<times> row \<Rightarrow> WALEntry" where
  "entry_of = (\<lambda>(q, r). \<lparr>SeqID = word_of_int q, Op = \<lparr>Type = op_type r, CollectionID = collection_id r, ID = vector_id r,
     Vector = (case vector_data r of None \<Rightarrow> None | Some b \<Rightarrow> projr (decodeVectorBinary b)),
     Document = (case document r of None \<Rightarrow> '''' | Some s \<Rightarrow> s)\<rparr>\<rparr>)"

lemma SeqID_entry_of [simp]: "SeqID (entry_of (q, r)) = word_of_int q"
  by (simp add: entry_of_def)

lemma scan_rows_eq: "scan_rows rows = Inr (map entry_of rows)"
  by (induction rows rule: scan_rows.induct)
    (auto simp: entry_of_def decodeVectorBinary_total split: option.split)

lemma entry_of_row: "entry_of (q, row_of op) = \<lparr>SeqID = word_of_int q, Op = stored op\<rparr>"
proof (cases "Vector op")
  case (Some v)
  have "case encodeVectorBinary v of None \<Rightarrow> v = [] | Some d \<Rightarrow> decodeVectorBinary d = Inr (Some v)"
    by (rule vector_decode_encode)
  then show ?thesis using Some
    by (cases "encodeVectorBinary v") (auto simp: entry_of_def row_of_def stored_def encodeVectorBinary_def split: if_splits)
qed (simp add: entry_of_def row_of_def stored_def)

lemma word_of_int_less:
  assumes "0 \<le> p" "p < 2 ^ 63" "0 \<le> q" "q < 2 ^ 63"
  shows "(word_of_int p :: u64) < word_of_int q \<longleftrightarrow> p < q" "uint (word_of_int p :: u64) = p"
  using assms by (simp_all add: word_less_def uint_word_of_int take_bit_int_eq_self)

lemma sqlite_seqno_bounds: "sqlite_table tb rows seqno \<Longrightarrow> 0 \<le> seqno d \<and> seqno d < 2 ^ 63"
  by (auto simp: sqlite_table_def table_keys_ok_def)

lemma sqlite_key_bounds:
  assumes "sqlite_table tb rows seqno" "x \<in> set (rows d)"
  shows "0 \<le> fst x \<and> fst x < 2 ^ 63"
proof -
  have "table_keys_ok (rows d) (seqno d)" using assms(1) by (simp add: sqlite_table_def)
  then have "1 \<le> fst x \<and> fst x \<le> seqno d" using assms(2) by (auto simp: table_keys_ok_def)
  then show ?thesis using sqlite_seqno_bounds [OF assms(1), of d] by linarith
qed

lemma sqlite_insert_ok:
  assumes "sqlite_table tb rows seqno" "tb_insert tb r d = (Inr q, d')"
  shows "seqno d < q \<and> seqno d' = q \<and> rows d' = rows d @ [(q, r)] \<and> (word_of_int (seqno d) :: u64) < word_of_int q"
proof -
  have "seqno d < q \<and> seqno d' = q \<and> rows d' = rows d @ [(q, r)]"
    using assms(1) [unfolded sqlite_table_def, THEN conjunct2, THEN conjunct1] assms(2) by blast
  then show ?thesis
    using sqlite_seqno_bounds [OF assms(1), of d] sqlite_seqno_bounds [OF assms(1), of d'] by (simp add: word_of_int_less)
qed

lemma sqlite_insert_err:
  "sqlite_table tb rows seqno \<Longrightarrow> tb_insert tb r d = (Inl e, d') \<Longrightarrow> seqno d' = seqno d \<and> rows d' = rows d"
  unfolding sqlite_table_def by blast

lemma batch_loop_ok:
  assumes "sqlite_table tb rows seqno"
  shows "batch_loop tb ops d = (Inr qs, d') \<Longrightarrow> length qs = length ops \<and> sorted_wrt (<) (word_of_int (seqno d) # qs) \<and>
     word_of_int (seqno d') = last (word_of_int (seqno d) # qs) \<and>
     map entry_of (rows d') = map entry_of (rows d) @ map2 (\<lambda>q op. \<lparr>SeqID = q, Op = stored op\<rparr>) qs ops"
proof (induction ops arbitrary: d qs)
  case (Cons op ops)
  then obtain q d1 qs' where 1: "tb_insert tb (row_of op) d = (Inr q, d1)" "batch_loop tb ops d1 = (Inr qs', d')" "qs = word_of_int q # qs'"
    by (auto split: prod.splits sum.splits)
  note I = sqlite_insert_ok [OF assms 1(1)] and IH = Cons.IH [OF 1(2)]
  have s: "sorted_wrt (<) (word_of_int q # qs')" using IH I by simp
  then have "sorted_wrt (<) (word_of_int (seqno d) # qs)" using I unfolding 1(3) by (auto intro: less_trans)
  then show ?case using IH I 1(3) by (simp add: entry_of_row)
qed simp

lemma filter_entries:
  assumes "sqlite_table tb rows seqno"
  shows "filter (\<lambda>e. SeqID e > a) (map entry_of (rows d)) = map entry_of (filter (\<lambda>(q, _). q > uint a) (rows d))"
proof -
  have "(SeqID (entry_of x) > a) = (fst x > uint a)" if "x \<in> set (rows d)" for x
  proof -
    have "uint (word_of_int (fst x) :: u64) = fst x" using sqlite_key_bounds [OF assms that] word_of_int_less(2) [of "fst x" "fst x"] by blast
    then show ?thesis by (cases x) (simp add: word_less_def)
  qed
  then have "filter (\<lambda>x. SeqID (entry_of x) > a) (rows d) = filter (\<lambda>x. fst x > uint a) (rows d)" by (metis (no_types, lifting) filter_cong)
  then show ?thesis by (simp add: filter_map comp_def case_prod_unfold)
qed

lemma sqlite_wal:
  assumes table: "sqlite_table tb rows seqno"
  shows "wal (Append tb) (AppendBatch tb) (ReadFrom tb) (GetMaxSeqID tb) (Truncate tb) (\<lambda>d. map entry_of (rows d)) (\<lambda>d. word_of_int (seqno d))"
proof
  show "word_of_int (seqno d) < q \<and> word_of_int (seqno d') = q \<and> map entry_of (rows d') = map entry_of (rows d) @ [\<lparr>SeqID = q, Op = stored op\<rparr>]"
    if "Append tb op d = (Inr q, d')" for op d q d'
    using that sqlite_insert_ok [OF table, of "row_of op" d]
    by (auto simp: Append_def entry_of_row split: prod.splits sum.splits)
  show "word_of_int (seqno d') = (word_of_int (seqno d) :: u64) \<and> map entry_of (rows d') = map entry_of (rows d)"
    if "Append tb op d = (Inl e, d')" for op d e d'
    using that sqlite_insert_err [OF table, of "row_of op" d] by (auto simp: Append_def split: prod.splits sum.splits)
  show "length qs = length ops \<and> sorted_wrt (<) (word_of_int (seqno d) # qs) \<and>
      word_of_int (seqno d') = last (word_of_int (seqno d) # qs) \<and>
      map entry_of (rows d') = map entry_of (rows d) @ map2 (\<lambda>q op. \<lparr>SeqID = q, Op = stored op\<rparr>) qs ops"
    if "AppendBatch tb ops d = (Inr qs, d')" for ops d qs d'
    using that batch_loop_ok [OF table, of ops d qs d'] by (simp add: AppendBatch_def split: prod.splits sum.splits option.splits if_splits)
  show "word_of_int (seqno d') = (word_of_int (seqno d) :: u64) \<and> map entry_of (rows d') = map entry_of (rows d)"
    if "AppendBatch tb ops d = (Inl e, d')" for ops d e d'
    using that by (auto simp: AppendBatch_def split: prod.splits sum.splits option.splits if_splits)
  have sel: "rs = filter (\<lambda>(q, _). q > uint a) (rows d)" if "tb_select tb a d = Inr rs" for a d rs
    using table that unfolding sqlite_table_def by blast
  show "\<exists>r. ReadFrom tb a d = Inr r \<and> (\<forall>es. r = Inr es \<longrightarrow> es = filter (\<lambda>e. SeqID e > a) (map entry_of (rows d)))" for a d
    unfolding filter_entries [OF table] by (auto simp: ReadFrom_def Let_def scan_rows_eq dest: sel split: option.split sum.split)
  have mx: "x = (if rows d = [] then None else Some (fst (last (rows d))))" if "tb_max tb d = Inr x" for d x
    using table that unfolding sqlite_table_def by blast
  show "q = (if map entry_of (rows d) = [] then 0 else SeqID (last (map entry_of (rows d))))" if "GetMaxSeqID tb d = Inr q" for d q
    using that mx [of d] by (cases "rows d = []") (auto simp: GetMaxSeqID_def last_map entry_of_def case_prod_unfold split: sum.splits option.splits)
  have del: "seqno d' = seqno d \<and> rows d' = filter (\<lambda>(q, _). q > uint a) (rows d)" if "tb_delete tb a d = (None, d')" for a d d'
    using table that unfolding sqlite_table_def by blast
  show "word_of_int (seqno d') = (word_of_int (seqno d) :: u64) \<and> map entry_of (rows d') = filter (\<lambda>e. SeqID e > a) (map entry_of (rows d))"
    if "Truncate tb a d = (None, d')" for a d d'
    using that unfolding filter_entries [OF table] by (auto simp: Truncate_def split: prod.splits option.splits dest!: del)
  have dele: "seqno d' = seqno d \<and> rows d' = rows d" if "tb_delete tb a d = (Some e, d')" for a d e d'
    using table that unfolding sqlite_table_def by blast
  show "word_of_int (seqno d') = (word_of_int (seqno d) :: u64) \<and> map entry_of (rows d') = map entry_of (rows d)"
    if "Truncate tb a d = (Some e, d')" for a d e d'
    using that by (auto simp: Truncate_def split: prod.splits option.splits dest!: dele)
qed

text \<open>A table that satisfies \<open>sqlite_table\<close>: the rows and the counter of AUTOINCREMENT.\<close>

type_synonym list_db = "(int \<times> row) list \<times> int"

definition lt :: "list_db \<Rightarrow> list_db" where
  "lt d = (if table_keys_ok (fst d) (snd d) then d else ([], 0))"

definition list_table :: "list_db table" where
  "list_table = \<lparr>
     tb_insert = (\<lambda>r d. case lt d of (rs, n) \<Rightarrow> if n + 1 < 2 ^ 63 then (Inr (n + 1), rs @ [(n + 1, r)], n + 1) else (Inl (OtherError ''full'' None), d)),
     tb_begin = (\<lambda>_. None), tb_commit = (\<lambda>_. None),
     tb_min = (\<lambda>d. Inr (if fst (lt d) = [] then None else Some (fst (hd (fst (lt d)))))),
     tb_max = (\<lambda>d. Inr (if fst (lt d) = [] then None else Some (fst (last (fst (lt d)))))),
     tb_select = (\<lambda>a d. Inr (filter (\<lambda>(q, _). q > uint a) (fst (lt d)))),
     tb_delete = (\<lambda>a d. case lt d of (rs, n) \<Rightarrow> (None, filter (\<lambda>(q, _). q > uint a) rs, n))\<rparr>"

lemma lt_ok: "table_keys_ok (fst (lt d)) (snd (lt d))"
  by (auto simp: lt_def table_keys_ok_def)

lemma keys_ok_snoc: "table_keys_ok rs n \<Longrightarrow> n + 1 < 2 ^ 63 \<Longrightarrow> table_keys_ok (rs @ [(n + 1, r)]) (n + 1)"
  by (force simp: table_keys_ok_def sorted_wrt_append)

lemma keys_ok_filter: "table_keys_ok rs n \<Longrightarrow> table_keys_ok (filter P rs) n"
  by (auto simp: table_keys_ok_def sorted_wrt_map intro: sorted_wrt_filter)

lemma list_table_ok: "sqlite_table list_table (\<lambda>d. fst (lt d)) (\<lambda>d. snd (lt d))"
proof -
  have ins: "snd (lt d) < q \<and> snd (lt d') = q \<and> fst (lt d') = fst (lt d) @ [(q, r)]" if "tb_insert list_table r d = (Inr q, d')" for r d q d'
  proof -
    obtain rs n where d: "lt d = (rs, n)" by fastforce
    then have q: "n + 1 < 2 ^ 63" "q = n + 1" "d' = (rs @ [(n + 1, r)], n + 1)" using that by (auto simp: list_table_def split: if_splits)
    then have "table_keys_ok (fst d') (snd d')" using keys_ok_snoc [of rs n r] lt_ok [of d] d by simp
    then have "lt d' = d'" by (simp add: lt_def)
    then show ?thesis using q d by simp
  qed
  have del: "snd (lt d') = snd (lt d) \<and> fst (lt d') = filter (\<lambda>(q, _). q > uint a) (fst (lt d))" if "tb_delete list_table a d = (None, d')" for a d d'
  proof -
    obtain rs n where d: "lt d = (rs, n)" by fastforce
    then have d': "d' = (filter (\<lambda>(q, _). q > uint a) rs, n)" using that by (simp add: list_table_def)
    then have "table_keys_ok (fst d') (snd d')" using keys_ok_filter lt_ok [of d] d by simp
    then have "lt d' = d'" by (simp add: lt_def)
    then show ?thesis using d d' by simp
  qed
  have err: "snd (lt d') = snd (lt d) \<and> fst (lt d') = fst (lt d)" if "tb_insert list_table r d = (Inl e, d')" for r d e d'
    using that by (auto simp: list_table_def split: prod.splits if_splits)
  show ?thesis
    unfolding sqlite_table_def
    by (intro conjI allI impI; (rule lt_ok | drule ins | drule err | drule del | simp add: list_table_def split: prod.splits); simp?)
qed

interpretation lw: wal "Append list_table" "AppendBatch list_table" "ReadFrom list_table" "GetMaxSeqID list_table"
  "Truncate list_table" "\<lambda>d. map entry_of (fst (lt d))" "\<lambda>d. word_of_int (snd (lt d))"
  by (rule sqlite_wal [OF list_table_ok])

subsection \<open>Reading the log back\<close>

lemma ReadFrom_queries:
  assumes "sqlite_table tb rows seqno" "tb_min tb d = Inr m" "tb_select tb a d = Inr rs"
  shows "ReadFrom tb a d = Inr (let lg = map entry_of (rows d) in
    if 0 < a \<and> lg \<noteq> [] \<and> SeqID (hd lg) > a then Inl truncation_error else Inr (filter (\<lambda>e. SeqID e > a) lg))"
proof -
  have m: "m = (if rows d = [] then None else Some (fst (hd (rows d))))" and rs: "rs = filter (\<lambda>(q, _). q > uint a) (rows d)"
    using assms unfolding sqlite_table_def by blast+
  have "truncated m a \<longleftrightarrow> map entry_of (rows d) \<noteq> [] \<and> SeqID (hd (map entry_of (rows d))) > a"
    unfolding m truncated_def by (cases "rows d") (auto simp: entry_of_def)
  then show ?thesis
    unfolding ReadFrom_def assms(2,3) filter_entries [OF assms(1)] rs Let_def scan_rows_eq by auto
qed

lemma run_log:
  assumes "sqlite_table tb rows seqno" "rows d0 = []" "wal_run (Append tb) (AppendBatch tb) (Truncate tb) d0 d H T"
  shows "map entry_of (rows d) = filter (\<lambda>e. SeqID e > T) H" "sorted_wrt (<) (map SeqID H)"
proof -
  have "wal_inv (map entry_of (rows d)) (word_of_int (seqno d)) H T"
    using wal.run_inv [OF sqlite_wal [OF assms(1)] assms(3)] assms(2) by simp
  then show "map entry_of (rows d) = filter (\<lambda>e. SeqID e > T) H" "sorted_wrt (<) (map SeqID H)"
    by (auto simp: wal_inv_def)
qed

lemma filter_max: "filter (\<lambda>e. SeqID e > a) (filter (\<lambda>e. SeqID e > T) H) = filter (\<lambda>e. SeqID e > max a T) H"
  unfolding filter_filter by (rule filter_cong) auto

text \<open>C26. Durability and order of the log: after any sequence of appends, batches and truncations on an
  initially empty table, failing ones included, the acknowledged entries have strictly increasing
  sequence numbers, and when SQLite answers, \<open>ReadFrom(a)\<close> returns without panic either exactly the
  acknowledged entries after \<open>a\<close> that no truncation removed, in order and with their vectors bit for
  bit, or the truncation error, the latter exactly when \<open>a\<close> is positive and smaller than every
  number left; \<open>GetMaxSeqID\<close> is the largest number left, 0 when none is.\<close>

theorem wal_read_back:
  assumes "sqlite_table tb rows seqno" "rows d0 = []" "wal_run (Append tb) (AppendBatch tb) (Truncate tb) d0 d H T"
    and "tb_min tb d = Inr m" "tb_select tb a d = Inr rs" "tb_max tb d = Inr mx"
  shows "sorted_wrt (<) (map SeqID H) \<and>
    ReadFrom tb a d = Inr (let kept = filter (\<lambda>e. SeqID e > T) H in
      if 0 < a \<and> kept \<noteq> [] \<and> SeqID (hd kept) > a then Inl truncation_error else Inr (filter (\<lambda>e. SeqID e > max a T) H)) \<and>
    GetMaxSeqID tb d = Inr (last_seq (filter (\<lambda>e. SeqID e > T) H))"
proof -
  note L = run_log [OF assms(1-3)]
  obtain q where q: "GetMaxSeqID tb d = Inr q" using assms(6) by (cases mx) (auto simp: GetMaxSeqID_def)
  then have "q = last_seq (map entry_of (rows d))" using wal.max_ok [OF sqlite_wal [OF assms(1)] q] by (simp add: last_seq_def)
  with q L(1) have "GetMaxSeqID tb d = Inr (last_seq (filter (\<lambda>e. SeqID e > T) H))" by simp
  then show ?thesis
    unfolding ReadFrom_queries [OF assms(1,4,5)] L(1) Let_def filter_max using L(2) by blast
qed

text \<open>Truncation detection: right after \<open>Truncate(T)\<close>, with entries left, \<open>ReadFrom(T)\<close> reports
  truncation although none of the entries it asks for was removed; and when the truncation removed all
  entries, \<open>ReadFrom(a)\<close> returns an empty result without error for every \<open>a\<close>, although acknowledged
  entries after \<open>a\<close> are gone.\<close>

theorem wal_truncation_detection:
  assumes "sqlite_table tb rows seqno" "rows d0 = []" "wal_run (Append tb) (AppendBatch tb) (Truncate tb) d0 d H T"
    and "tb_min tb d = Inr m" "tb_select tb a d = Inr rs" "tb_select tb T d = Inr rs'"
  shows "if \<exists>e \<in> set H. SeqID e > T then 0 < T \<longrightarrow> ReadFrom tb T d = Inr (Inl truncation_error)
    else ReadFrom tb a d = Inr (Inr [])"
proof (cases "\<exists>e \<in> set H. SeqID e > T")
  case True
  then have ne: "filter (\<lambda>e. SeqID e > T) H \<noteq> []" by (auto simp: filter_empty_conv)
  then have "SeqID (hd (filter (\<lambda>e. SeqID e > T) H)) > T" using hd_in_set [OF ne] by simp
  then show ?thesis
    using True ne unfolding ReadFrom_queries [OF assms(1,4,6)] run_log(1) [OF assms(1-3)] Let_def by simp
next
  case False
  then have "filter (\<lambda>e. SeqID e > T) H = []" by (auto simp: filter_empty_conv)
  then show ?thesis
    using False unfolding ReadFrom_queries [OF assms(1,4,5)] run_log(1) [OF assms(1-3)] Let_def by simp
qed

subsection \<open>An example run\<close>

definition ex_op :: "u64 \<Rightarrow> WALOp" where
  "ex_op i = \<lparr>Type = WALOpInsert, CollectionID = ''c'', ID = i, Vector = Some [5], Document = ''''\<rparr>"

definition ex_row :: "u64 \<Rightarrow> row" where
  "ex_row i = \<lparr>op_type = 1, collection_id = ''c'', vector_id = i, vector_data = Some [5, 0, 0, 0], document = Some ''''\<rparr>"

lemma row_of_ex: "row_of (ex_op i) = ex_row i"
  by (simp add: row_of_def ex_op_def ex_row_def WALOpInsert_def encodeVectorBinary_def le_encode_def upt_rec drop_bit_eq_div)


lemma lt_start: "lt ([], 0) = ([], 0)"
  by (simp add: lt_def table_keys_ok_def)

lemma ex_appends:
  "Append list_table (ex_op 7) ([], 0) = (Inr 1, [(1, ex_row 7)], 1)"
  "Append list_table (ex_op 8) ([(1, ex_row 7)], 1) = (Inr 2, [(1, ex_row 7), (2, ex_row 8)], 2)"
  by (simp_all add: Append_def row_of_ex list_table_def lt_def table_keys_ok_def)

lemma ex_truncates:
  "Truncate list_table 1 ([(1, ex_row 7), (2, ex_row 8)], 2) = (None, [(2, ex_row 8)], 2)"
  by (simp add: Truncate_def list_table_def lt_def table_keys_ok_def)

lemma ex_run:
  "wal_run (Append list_table) (AppendBatch list_table) (Truncate list_table) ([], 0) ([(2, ex_row 8)], 2)
     [\<lparr>SeqID = 1, Op = ex_op 7\<rparr>, \<lparr>SeqID = 2, Op = ex_op 8\<rparr>] 1"
proof -
  have st: "stored (ex_op i) = ex_op i" for i by (simp add: stored_def ex_op_def)
  let ?run = "wal_run (Append list_table) (AppendBatch list_table) (Truncate list_table) ([], 0)"
  have A: "?run ([(1, ex_row 7)], 1) ([] @ [\<lparr>SeqID = 1, Op = stored (ex_op 7)\<rparr>]) 0"
    by (rule wal_run.append [where append = "Append list_table", OF wal_run.start ex_appends(1)])
  have B: "?run ([(1, ex_row 7), (2, ex_row 8)], 2) (([] @ [\<lparr>SeqID = 1, Op = stored (ex_op 7)\<rparr>]) @ [\<lparr>SeqID = 2, Op = stored (ex_op 8)\<rparr>]) 0"
    by (rule wal_run.append [OF A ex_appends(2)])
  note C = wal_run.truncate [where truncate = "Truncate list_table", OF B ex_truncates]
  have "max 0 (min 1 (last_seq ([] @ [\<lparr>SeqID = 1, Op = stored (ex_op 7)\<rparr>] @ [\<lparr>SeqID = 2, Op = stored (ex_op 8)\<rparr>]))) = (1 :: u64)"
    by (simp add: last_seq_def min_def max_def)
  with C st show ?thesis by simp
qed

lemma ex_queries:
  "tb_min list_table ([(2, ex_row 8)], 2) = Inr (Some 2)" "tb_max list_table ([(2, ex_row 8)], 2) = Inr (Some 2)"
  "tb_select list_table a ([(2, ex_row 8)], 2) = Inr (filter (\<lambda>(q, _). q > uint a) [(2, ex_row 8)])"
  by (simp_all add: list_table_def lt_def table_keys_ok_def)

theorem wal_read_back_witness:
  "ReadFrom list_table 0 ([(2, ex_row 8)], 2) = Inr (Inr [\<lparr>SeqID = 2, Op = ex_op 8\<rparr>]) \<and>
   GetMaxSeqID list_table ([(2, ex_row 8)], 2) = Inr 2"
  using wal_read_back [OF list_table_ok _ ex_run ex_queries(1,3,2), of 0]
  by (simp add: lt_start last_seq_def)

theorem wal_truncation_detection_witness:
  "ReadFrom list_table 1 ([(2, ex_row 8)], 2) = Inr (Inl truncation_error)"
  using wal_truncation_detection [OF list_table_ok _ ex_run ex_queries(1,3,3)]
  by (simp add: lt_start)

end
