(* ===== verification/Segment_File.thy ===== *)
theory Segment_File
  imports Wal
begin

section \<open>Segment files\<close>

text \<open>
  Models \<open>internal/storage/format.go\<close>, \<open>CompactVectors\<close> of \<open>compaction.go\<close> and the mapped files of
  \<open>mmap_unix.go\<close>. The file system is a map from paths to contents. \<open>io k\<close> is the outcome of the
  \<open>k\<close>-th system call of an operation: it succeeds, it fails with an error, or the process stops at that
  call, a write then having stored a prefix of its data. SHA-256 is the parameter \<open>sha\<close>.
\<close>

type_synonym fs = "string \<rightharpoonup> bytes"

datatype outcome = Succeeds | Fails error | Crashes nat

subsection \<open>The file header\<close>

record FileHeader =
  Magic :: bytes
  Version :: "16 word"
  Flags :: "16 word"
  VectorCount :: u64
  Dimension :: u32
  DataType :: u8
  Checksum :: bytes

definition fileMagic :: bytes where
  "fileMagic = map (\<lambda>c. of_nat (of_char c)) ''VDBX''"

definition fileVersion :: "16 word" where
  "fileVersion = 1"

definition headerSize :: nat where
  "headerSize = 64"

definition dataTypeFloat32 :: u8 where
  "dataTypeFloat32 = 1"

definition encode_header :: "FileHeader \<Rightarrow> bytes" where
  \<comment> \<open>\<open>binary.Write\<close> in little-endian order; the blank fields are zero\<close>
  "encode_header h = Magic h @ le_encode 2 (Version h) @ le_encode 2 (Flags h) @ le_encode 8 (VectorCount h) @
     le_encode 4 (Dimension h) @ [DataType h] @ replicate 3 0 @ Checksum h @ replicate 8 0"

definition decode_header :: "bytes \<Rightarrow> FileHeader option" where
  \<comment> \<open>\<open>binary.Read\<close>: an error when fewer bytes than the struct has are left\<close>
  "decode_header b = (if length b < 64 then None else Some
     \<lparr>Magic = take 4 b, Version = le_decode (take 2 (drop 4 b)), Flags = le_decode (take 2 (drop 6 b)),
      VectorCount = le_decode (take 8 (drop 8 b)), Dimension = le_decode (take 4 (drop 16 b)),
      DataType = le_decode (take 1 (drop 20 b)), Checksum = take 32 (drop 24 b)\<rparr>)"

definition WriteHeader :: "u64 \<Rightarrow> u32 \<Rightarrow> bytes \<Rightarrow> bytes" where
  \<comment> \<open>the bytes handed to the writer\<close>
  "WriteHeader vectorCount d checksum = encode_header
     \<lparr>Magic = fileMagic, Version = fileVersion, Flags = 0, VectorCount = vectorCount, Dimension = d,
      DataType = dataTypeFloat32, Checksum = checksum\<rparr>"

definition ReadHeader :: "bytes \<Rightarrow> error + FileHeader" where
  "ReadHeader b =
     (case decode_header b of
        None \<Rightarrow> Inl (OtherError ''reading header'' None)
      | Some hdr \<Rightarrow>
          if Magic hdr \<noteq> fileMagic then Inl (OtherError ''invalid magic bytes'' None)
          else if Version hdr \<noteq> fileVersion then Inl (OtherError ''unsupported file version'' None)
          else if DataType hdr \<noteq> dataTypeFloat32 then Inl (OtherError ''unsupported data type'' None)
          else Inr hdr)"

definition ReadHeaderFromFile :: "string \<Rightarrow> fs \<Rightarrow> error + FileHeader" where
  "ReadHeaderFromFile path f =
     (case f path of None \<Rightarrow> Inl (OtherError ''opening'' None) | Some b \<Rightarrow> ReadHeader b)"

definition ComputeChecksum :: "(bytes \<Rightarrow> bytes) \<Rightarrow> string \<Rightarrow> fs \<Rightarrow> error + bytes" where
  "ComputeChecksum sha path f =
     (case f path of None \<Rightarrow> Inl (OtherError ''opening file for checksum'' None)
      | Some b \<Rightarrow> Inr (sha (drop headerSize b)))"

definition VerifyFileIntegrity :: "(bytes \<Rightarrow> bytes) \<Rightarrow> string \<Rightarrow> fs \<Rightarrow> error + FileHeader" where
  "VerifyFileIntegrity sha path f =
     (case ReadHeaderFromFile path f of Inl e \<Rightarrow> Inl e
      | Inr hdr \<Rightarrow>
          (case ComputeChecksum sha path f of Inl e \<Rightarrow> Inl e
           | Inr actual \<Rightarrow> if actual \<noteq> Checksum hdr then Inl (OtherError ''checksum mismatch'' None) else Inr hdr))"

lemma length_fileMagic [simp]: "length fileMagic = 4"
  by (simp add: fileMagic_def)

lemma length_WriteHeader [simp]: "length cs = 32 \<Longrightarrow> length (WriteHeader n d cs) = 64"
  by (simp add: WriteHeader_def encode_header_def)

lemma le_decode_1: "le_decode [b] = (b :: u8)"
  by simp

lemma decode_encode_header:
  assumes "length (Magic h) = 4" "length (Checksum h) = 32"
  shows "decode_header (encode_header h @ rest) = Some h"
proof -
  have "le_decode (le_encode 2 (Version h)) = Version h" "le_decode (le_encode 2 (Flags h)) = Flags h"
    "le_decode (le_encode 8 (VectorCount h)) = VectorCount h" "le_decode (le_encode 4 (Dimension h)) = Dimension h"
    by (simp_all add: le_decode_encode)
  with assms show ?thesis by (simp add: decode_header_def encode_header_def)
qed

lemma ReadHeader_WriteHeader:
  "length cs = 32 \<Longrightarrow> ReadHeader (WriteHeader n d cs @ rest) = Inr
     \<lparr>Magic = fileMagic, Version = fileVersion, Flags = 0, VectorCount = n, Dimension = d, DataType = dataTypeFloat32, Checksum = cs\<rparr>"
  unfolding ReadHeader_def WriteHeader_def by (subst decode_encode_header) simp_all

subsection \<open>Writing a segment\<close>

datatype 'a exit = Returns 'a | Stops

definition float_bytes :: "f32 list \<Rightarrow> bytes" where
  "float_bytes v = concat (map (le_encode 4) v)"

text \<open>The deferred clean-up: the error of \<open>os.Remove\<close> is ignored.\<close>

definition cleanup :: "(nat \<Rightarrow> outcome) \<Rightarrow> string \<Rightarrow> fs \<Rightarrow> fs" where
  "cleanup io tmp f = (case io 10 of Succeeds \<Rightarrow> f(tmp := None) | _ \<Rightarrow> f)"

text \<open>One system call: \<open>eff n\<close> is the file system when it has had its effect on \<open>n\<close> bytes, \<open>full\<close> the
  one after success, \<open>clean\<close> what the deferred function does on the error return.\<close>

definition syscall ::
  "outcome \<Rightarrow> (nat \<Rightarrow> fs) \<Rightarrow> fs \<Rightarrow> (fs \<Rightarrow> fs) \<Rightarrow> string \<Rightarrow> (fs \<Rightarrow> error option exit \<times> fs) \<Rightarrow> error option exit \<times> fs" where
  "syscall oc eff full clean msg cont =
     (case oc of
        Succeeds \<Rightarrow> cont full
      | Fails e \<Rightarrow> (Returns (Some (OtherError msg (Some e))), clean (eff 0))
      | Crashes n \<Rightarrow> (Stops, eff n))"

definition CompactVectors ::
  "(bytes \<Rightarrow> bytes) \<Rightarrow> (nat \<Rightarrow> outcome) \<Rightarrow> string \<Rightarrow> string \<Rightarrow> f32 list \<Rightarrow> int \<Rightarrow> fs \<Rightarrow> error option exit \<times> fs" where
  "CompactVectors sha io tmp target vectors d f =
     (if d \<le> 0 then (Returns (Some (OtherError ''invalid dimension'' None)), f)
      else if int (length vectors) mod d \<noteq> 0 then (Returns (Some (OtherError ''not divisible'' None)), f)
      else let vectorCount = length vectors div nat d in
      if vectorCount = 0 then (Returns None, f)
      else let dataBuf = float_bytes vectors; zero = replicate headerSize 0; clean = cleanup io tmp;
               hdr = WriteHeader (of_nat vectorCount) (word_of_int d) (sha dataBuf) in
        syscall (io 0) (\<lambda>n. if n = 0 then f else f(tmp \<mapsto> [])) (f(tmp \<mapsto> [])) (\<lambda>g. g) ''creating temp file'' (\<lambda>f1.
        syscall (io 1) (\<lambda>n. f1(tmp \<mapsto> take n zero)) (f1(tmp \<mapsto> zero)) clean ''writing header placeholder'' (\<lambda>f2.
        syscall (io 2) (\<lambda>n. f2(tmp \<mapsto> zero @ take n dataBuf)) (f2(tmp \<mapsto> zero @ dataBuf)) clean ''writing vector data'' (\<lambda>f3.
        syscall (io 3) (\<lambda>n. f3) f3 clean ''seeking to header'' (\<lambda>f4.
        syscall (io 4) (\<lambda>n. f4(tmp \<mapsto> take n hdr @ drop n zero @ dataBuf)) (f4(tmp \<mapsto> hdr @ dataBuf)) clean ''writing header'' (\<lambda>f5.
        syscall (io 5) (\<lambda>n. f5) f5 clean ''fsync'' (\<lambda>f6.
        syscall (io 6) (\<lambda>n. f6) f6 clean ''closing temp file'' (\<lambda>f7.
        let renamed = f7(tmp := None, target := f7 tmp) in
        syscall (io 7) (\<lambda>n. if n = 0 then f7 else renamed) renamed (\<lambda>g. g) ''atomic rename'' (\<lambda>f8.
          case io 8 of Fails _ \<Rightarrow> (Returns None, f8) | Crashes _ \<Rightarrow> (Stops, f8)
          | Succeeds \<Rightarrow> syscall (io 9) (\<lambda>n. f8) f8 (\<lambda>g. g) ''fsync directory'' (\<lambda>f9. (Returns None, f9)))))))))))"

definition segment_of :: "(bytes \<Rightarrow> bytes) \<Rightarrow> f32 list \<Rightarrow> int \<Rightarrow> bytes" where
  "segment_of sha vectors d =
     WriteHeader (of_nat (length vectors div nat d)) (word_of_int d) (sha (float_bytes vectors)) @ float_bytes vectors"

lemma syscall_cases:
  assumes "syscall oc eff full clean msg cont = (r, g)"
  obtains "oc = Succeeds" "cont full = (r, g)"
    | e where "oc = Fails e" "r = Returns (Some (OtherError msg (Some e)))" "g = clean (eff 0)"
    | n where "oc = Crashes n" "r = Stops" "g = eff n"
  using assms by (cases oc) (auto simp: syscall_def)

text \<open>What holds of every file system an operation can leave: only the temporary file and the target may
  differ, the target is the old file or the complete new one, and success means the new one.\<close>

definition compact_post :: "string \<Rightarrow> string \<Rightarrow> fs \<Rightarrow> bytes \<Rightarrow> error option exit \<times> fs \<Rightarrow> bool" where
  "compact_post tmp target f seg x \<longleftrightarrow> (\<forall>p. p \<noteq> tmp \<longrightarrow> p \<noteq> target \<longrightarrow> snd x p = f p) \<and>
     (snd x target = f target \<or> snd x target = Some seg) \<and>
     (fst x = Returns None \<longrightarrow> snd x target = Some seg \<and> snd x tmp = None)"

lemma syscall_post:
  assumes "\<And>n. compact_post tmp target f seg (Stops, eff n)" "\<And>n e. compact_post tmp target f seg (Returns (Some e), clean (eff 0))"
    "compact_post tmp target f seg (cont full)"
  shows "compact_post tmp target f seg (syscall oc eff full clean msg cont)"
  using assms by (cases oc) (auto simp: syscall_def)

lemma post_tmp: "tmp \<noteq> target \<Longrightarrow> x \<noteq> Returns None \<Longrightarrow> compact_post tmp target f seg (x, f(tmp := c))"
  "compact_post tmp target f seg (Stops, f)" "compact_post tmp target f seg (Returns (Some e), f)"
  by (auto simp: compact_post_def)

lemma post_cleanup:
  "tmp \<noteq> target \<Longrightarrow> compact_post tmp target f seg (Returns (Some e), cleanup io tmp (f(tmp := c)))"
  by (cases "io 10") (auto simp: compact_post_def cleanup_def)

lemma CompactVectors_post:
  assumes "tmp \<noteq> target" "0 < d" "int (length v) mod d = 0" "v \<noteq> []"
  shows "compact_post tmp target f (segment_of sha v d) (CompactVectors sha io tmp target v d f)"
proof -
  have "d \<le> int (length v)" using assms(2,3,4) by (intro zdvd_imp_le) auto
  then have n: "length v div nat d \<noteq> 0" using assms(2) by (simp add: div_eq_0_iff not_less nat_le_iff)
  have new: "compact_post tmp target f seg (x, f(tmp := None, target \<mapsto> seg))" for x seg
    using assms(1) by (auto simp: compact_post_def)
  have "\<not> d \<le> 0" using assms(2) by simp
  then show ?thesis
    unfolding CompactVectors_def Let_def
    apply (simp only: assms(3) n if_False simp_thms)
    apply (intro syscall_post)
    using assms(1) new by (auto simp: post_tmp post_cleanup segment_of_def syscall_post split: outcome.split)
qed

subsection \<open>Mapped files\<close>

text \<open>The mapped region is the header, the floats of the view and the bytes after the last whole float;
  the view shares its memory with the region. \<open>None\<close> is the nil view of a closed or empty file.\<close>

record MappedFile =
  mf_head :: bytes
  Vectors :: "f32 list option"
  mf_tail :: bytes
  Size :: int
  Count :: u64
  Dim :: int

definition floats_of :: "bytes \<Rightarrow> f32 list" where
  "floats_of b = map (\<lambda>i. le_decode (take 4 (drop (4 * i) b))) [0..<length b div 4]"

definition wrap64 :: "int \<Rightarrow> int" where
  \<comment> \<open>\<open>int64\<close> arithmetic\<close>
  "wrap64 x = sint (word_of_int x :: u64)"

definition OpenMapped :: "(nat \<Rightarrow> outcome) \<Rightarrow> string \<Rightarrow> int \<Rightarrow> int \<Rightarrow> fs \<Rightarrow> (error + MappedFile) go \<times> fs" where
  \<comment> \<open>system calls 0 open, 1 stat, 2 truncate, 3 mmap; a crash is not distinguished from an error here\<close>
  "OpenMapped io path n d f =
     (let fileSize = wrap64 (int headerSize + wrap64 (n * d) * 4); fails = (\<lambda>k. io k \<noteq> Succeeds) in
      if fileSize \<le> 0 then (Inr (Inl (OtherError ''invalid file size'' None)), f)
      else if fails 0 then (Inr (Inl (OtherError ''opening'' None)), f)
      else let b = (case f path of None \<Rightarrow> [] | Some b \<Rightarrow> b); f1 = f(path \<mapsto> b) in
      if fails 1 then (Inr (Inl (OtherError ''stat'' None)), f1)
      else if int (length b) < fileSize \<and> fails 2 then (Inr (Inl (OtherError ''truncate'' None)), f1)
      else let b2 = b @ replicate (nat fileSize - length b) 0; f2 = f1(path \<mapsto> b2) in
      if fails 3 then (Inr (Inl (OtherError ''mmap'' None)), f2)
      else (go_bind (slice b2 headerSize (length b2)) (\<lambda>dataSection.
        let floatCount = length dataSection div 4 in
        Inr (Inr \<lparr>mf_head = take headerSize b2, Vectors = (if floatCount > 0 then Some (floats_of dataSection) else None),
          mf_tail = drop (4 * floatCount) dataSection, Size = int (length b2), Count = word_of_int n, Dim = d\<rparr>)), f2))"

definition mf_Raw :: "MappedFile \<Rightarrow> bytes" where
  "mf_Raw mf = mf_head mf @ float_bytes (case Vectors mf of None \<Rightarrow> [] | Some v \<Rightarrow> v) @ mf_tail mf"

definition row_bounds :: "MappedFile \<Rightarrow> int \<Rightarrow> (nat \<times> nat) go" where
  \<comment> \<open>the bounds \<open>start : start+Dim\<close>, refused by the slice expression when negative or out of order\<close>
  "row_bounds mf rw = (let start = rw * Dim mf in
     if 0 \<le> start \<and> start \<le> start + Dim mf then Inr (nat start, nat (start + Dim mf)) else Inl IndexOutOfRange)"

definition mf_GetVector :: "int \<Rightarrow> MappedFile \<Rightarrow> f32 list option go" where
  "mf_GetVector rw mf =
     (case Vectors mf of None \<Rightarrow> Inr None
      | Some v \<Rightarrow>
          if rw < 0 \<or> rw \<ge> sint (Count mf) then Inr None
          else go_bind (row_bounds mf rw) (\<lambda>(a, b). go_bind (slice v a b) (\<lambda>x. Inr (Some x))))"

definition mf_PutVector :: "int \<Rightarrow> f32 list \<Rightarrow> MappedFile \<Rightarrow> MappedFile go" where
  "mf_PutVector rw vector mf =
     (case Vectors mf of None \<Rightarrow> Inr mf
      | Some v \<Rightarrow>
          if rw < 0 \<or> rw \<ge> sint (Count mf) then Inr mf
          else go_bind (row_bounds mf rw) (\<lambda>(a, b). go_bind (copy_into v a b vector) (\<lambda>v'. Inr (mf\<lparr>Vectors := Some v'\<rparr>))))"

definition mf_Close :: "MappedFile \<Rightarrow> MappedFile" where
  "mf_Close mf = mf\<lparr>Vectors := None\<rparr>"

lemma length_float_bytes [simp]: "length (float_bytes v) = 4 * length v"
  by (simp add: float_bytes_def)

lemma length_floats_of [simp]: "length (floats_of b) = length b div 4"
  by (simp add: floats_of_def)

lemma floats_of_bytes [simp]: "floats_of (float_bytes v) = v"
  unfolding floats_of_def length_float_bytes unfolding float_bytes_def
  by (rule nth_equalityI) (use chunk_encode in auto)

lemma floats_of_append: "floats_of (float_bytes v @ w) = v @ floats_of w"
proof (rule nth_equalityI)
  fix i assume i: "i < length (floats_of (float_bytes v @ w))"
  show "floats_of (float_bytes v @ w) ! i = (v @ floats_of w) ! i"
  proof (cases "i < length v")
    case True
    then have "4 * i + 4 \<le> length (float_bytes v)" by simp
    then show ?thesis using i True chunk_encode [OF True] by (simp add: floats_of_def nth_append flip: float_bytes_def)
  next
    case False
    then have "4 * i - length (float_bytes v) = 4 * (i - length v)" by simp
    moreover have "i - length v < length w div 4" using i False by simp
    ultimately show ?thesis using i False by (simp add: floats_of_def nth_append)
  qed
qed simp

text \<open>A mapped file whose view holds all its rows.\<close>

definition mf_ok :: "MappedFile \<Rightarrow> bool" where
  "mf_ok mf \<longleftrightarrow> 0 \<le> Dim mf \<and> (case Vectors mf of None \<Rightarrow> True | Some v \<Rightarrow> sint (Count mf) * Dim mf \<le> int (length v))"

lemma row_in_view:
  assumes "mf_ok mf" "Vectors mf = Some v" "0 \<le> rw" "rw < sint (Count mf)"
  shows "row_bounds mf rw = Inr (nat rw * nat (Dim mf), nat rw * nat (Dim mf) + nat (Dim mf))"
    "nat rw * nat (Dim mf) + nat (Dim mf) \<le> length v"
proof -
  have d: "0 \<le> Dim mf" "sint (Count mf) * Dim mf \<le> int (length v)" using assms(1,2) by (auto simp: mf_ok_def)
  then have "(rw + 1) * Dim mf \<le> int (length v)" using assms(4) by (meson mult_right_mono order_trans zless_imp_add1_zle)
  then have "int (nat rw * nat (Dim mf) + nat (Dim mf)) \<le> int (length v)" using assms(3) d(1) by (simp add: algebra_simps)
  then show "nat rw * nat (Dim mf) + nat (Dim mf) \<le> length v" by linarith
  show "row_bounds mf rw = Inr (nat rw * nat (Dim mf), nat rw * nat (Dim mf) + nat (Dim mf))"
    using assms(3) d(1) by (simp add: row_bounds_def Let_def nat_mult_distrib nat_add_distrib)
qed

lemma mf_GetVector_row:
  assumes "mf_ok mf" "Vectors mf = Some v" "0 \<le> rw" "rw < sint (Count mf)"
  shows "mf_GetVector rw mf = Inr (Some (take (nat (Dim mf)) (drop (nat rw * nat (Dim mf)) v)))"
  using assms row_in_view [OF assms] by (simp add: mf_GetVector_def slice_def)


lemma wrap64_id: "- (2 ^ 63) \<le> x \<Longrightarrow> x < 2 ^ 63 \<Longrightarrow> wrap64 x = x"
  unfolding wrap64_def by (simp add: signed_of_int signed_take_bit_int_eq_self)

lemma slice_from: "k \<le> length b \<Longrightarrow> slice b k (length b) = Inr (drop k b)"
  by (simp add: slice_def)

lemma file_size_exact:
  assumes "0 \<le> n * d" "n * d * 4 + 64 < 2 ^ 63"
  shows "wrap64 (int headerSize + wrap64 (n * d) * 4) = 64 + n * d * 4"
proof -
  have "wrap64 (n * d) = n * d" using assms by (intro wrap64_id) linarith+
  then have "wrap64 (int headerSize + wrap64 (n * d) * 4) = wrap64 (64 + n * d * 4)" by (simp add: headerSize_def)
  also have "\<dots> = 64 + n * d * 4" using assms by (intro wrap64_id) linarith+
  finally show ?thesis .
qed

lemma OpenMapped_file:
  assumes "\<And>k. io k = Succeeds" "f path = Some (h @ float_bytes v)" "length h = headerSize"
    "0 \<le> n" "0 \<le> d" "n * d \<le> int (length v)" "n * d * 4 + 64 < 2 ^ 63" "n < 2 ^ 63"
  shows "OpenMapped io path n d f = (Inr (Inr \<lparr>mf_head = h, Vectors = (if v = [] then None else Some v), mf_tail = [],
     Size = 64 + 4 * int (length v), Count = word_of_int n, Dim = d\<rparr>), f)"
proof -
  have nd: "0 \<le> n * d" using assms(4,5) by simp
  have fsz: "wrap64 (int headerSize + wrap64 (n * d) * 4) = 64 + n * d * 4"
    by (rule file_size_exact [OF nd assms(7)])
  have ext: "nat (64 + n * d * 4) - length (h @ float_bytes v) = 0" using assms(3,6) nd by (simp add: headerSize_def)
  have upd: "f(path \<mapsto> h @ float_bytes v) = f" using assms(2) by (simp add: fun_upd_idem)
  have "slice (h @ float_bytes v) headerSize (length (h @ float_bytes v)) = Inr (float_bytes v)"
    using assms(3) slice_from [of headerSize "h @ float_bytes v"] by simp
  moreover have "\<not> 64 + n * d * 4 \<le> 0" using nd by simp
  ultimately show ?thesis
    unfolding OpenMapped_def Let_def fsz assms(2) option.case ext replicate_0 append_Nil2 upd
    using assms(1,3) by (simp add: headerSize_def)
qed

text \<open>C17. Segment files: whatever system calls fail and wherever the process stops, \<open>CompactVectors\<close> leaves
  every other file alone and the target either as it was or complete, never partial; success means
  complete, with the temporary file gone. A complete file passes the integrity check with the count
  and dimension written, and mapping it gives back every vector bit for bit.\<close>

theorem segment_file_atomic_roundtrip:
  assumes "\<And>x. length (sha x) = 32" "tmp \<noteq> target" "0 < d" "d < 2 ^ 32" "int (length v) = n * d" "0 < n" "4 * length v + 64 < 2 ^ 63"
    and "CompactVectors sha io tmp target v d f = (r, f')"
  shows "(\<forall>p. p \<noteq> tmp \<longrightarrow> p \<noteq> target \<longrightarrow> f' p = f p) \<and>
    (f' target = f target \<or> f' target = Some (segment_of sha v d)) \<and>
    (r = Returns None \<longrightarrow> f' target = Some (segment_of sha v d) \<and> f' tmp = None) \<and>
    (f' target = Some (segment_of sha v d) \<longrightarrow>
       (\<exists>hdr. VerifyFileIntegrity sha target f' = Inr hdr \<and> uint (VectorCount hdr) = n \<and> uint (Dimension hdr) = d) \<and>
       (\<exists>mf. OpenMapped (\<lambda>_. Succeeds) target n d f' = (Inr (Inr mf), f') \<and>
          (\<forall>i. 0 \<le> i \<longrightarrow> i < n \<longrightarrow> mf_GetVector i mf = Inr (Some (take (nat d) (drop (nat i * nat d) v))))))"
proof -
  have ne: "v \<noteq> []" using assms(3,5,6) by auto
  have "int (length v) mod d = 0" using assms(5) by simp
  then have post: "compact_post tmp target f (segment_of sha v d) (r, f')"
    using CompactVectors_post [OF assms(2,3) _ ne] assms(8) by metis
  have ln: "n \<le> int (length v)" using assms(3,5,6) by (simp add: mult_le_cancel_left1)
  have cnt: "int (length v div nat d) = n" using assms(3,5) by (simp add: zdiv_int)
  then have uc: "uint (of_nat (length v div nat d) :: u64) = n"
  proof -
    have "length v < 2 ^ 64" using assms(7) by simp
    then have "length v div nat d < 2 ^ 64" by (rule le_less_trans [OF div_le_dividend])
    then have "unat (of_nat (length v div nat d) :: u64) = length v div nat d" by (simp add: unat_of_nat)
    then show ?thesis using cnt by (simp only: uint_nat)
  qed
  have ud: "uint (word_of_int d :: u32) = d" using assms(3,4) by (simp add: uint_word_of_int)
  have seg: "segment_of sha v d = WriteHeader (of_nat (length v div nat d)) (word_of_int d) (sha (float_bytes v)) @ float_bytes v"
    by (simp add: segment_of_def)
  have hl: "length (WriteHeader (of_nat (length v div nat d)) (word_of_int d) (sha (float_bytes v))) = headerSize"
    using assms(1) by (simp add: headerSize_def)
  have ver: "\<exists>hdr. VerifyFileIntegrity sha target f' = Inr hdr \<and> uint (VectorCount hdr) = n \<and> uint (Dimension hdr) = d"
    if "f' target = Some (segment_of sha v d)"
    using that assms(1) hl uc ud
    by (simp add: VerifyFileIntegrity_def ReadHeaderFromFile_def ComputeChecksum_def seg ReadHeader_WriteHeader)
  define mf where "mf = \<lparr>mf_head = WriteHeader (of_nat (length v div nat d)) (word_of_int d) (sha (float_bytes v)),
    Vectors = Some v, mf_tail = [], Size = 64 + 4 * int (length v), Count = word_of_int n, Dim = d\<rparr>"
  have "int (4 * length v + 64) < 2 ^ 63" using assms(7) by simp
  then have bound: "n * d * 4 + 64 < 2 ^ 63" "n < 2 ^ 63" using assms(5) ln by linarith+
  have op: "OpenMapped (\<lambda>_. Succeeds) target n d f' = (Inr (Inr mf), f')" if "f' target = Some (segment_of sha v d)"
    using OpenMapped_file [where io = "\<lambda>_. Succeeds" and f = f' and path = target and v = v and n = n and d = d, OF refl that [unfolded seg] hl] assms(3,5,6) bound ne
    by (simp add: mf_def)
  have sc: "sint (Count mf) = n" using assms(6,7) ln wrap64_id [of n] by (simp add: mf_def wrap64_def)
  have "mf_ok mf" using sc assms(3,5) by (simp add: mf_ok_def mf_def)
  then have "mf_GetVector i mf = Inr (Some (take (nat d) (drop (nat i * nat d) v)))" if "0 \<le> i" "i < n" for i
    using mf_GetVector_row [of mf v i] that sc by (simp add: mf_def)
  with op ver post show ?thesis unfolding compact_post_def by fastforce
qed


definition sum_sha :: "bytes \<Rightarrow> bytes" where
  "sum_sha b = replicate 32 (sum_list b)"

theorem segment_file_atomic_roundtrip_witness:
  "\<exists>f' mf. CompactVectors sum_sha (\<lambda>_. Succeeds) ''t'' ''s'' [1, 2, 3, 4] 2 Map.empty = (Returns None, f') \<and>
     OpenMapped (\<lambda>_. Succeeds) ''s'' 2 2 f' = (Inr (Inr mf), f') \<and> mf_GetVector 1 mf = Inr (Some [3, 4])"
proof -
  obtain r f' where c: "CompactVectors sum_sha (\<lambda>_. Succeeds) ''t'' ''s'' [1, 2, 3, 4] 2 Map.empty = (r, f')" by fastforce
  have r: "r = Returns None" using c by (simp add: CompactVectors_def Let_def syscall_def)
  have sl: "length (sum_sha x) = 32" for x by (simp add: sum_sha_def)
  have "\<exists>mf. OpenMapped (\<lambda>_. Succeeds) ''s'' 2 2 f' = (Inr (Inr mf), f') \<and>
    (\<forall>i. 0 \<le> i \<longrightarrow> i < 2 \<longrightarrow> mf_GetVector i mf = Inr (Some (take (nat 2) (drop (nat i * nat 2) [1, 2, 3, 4]))))"
    using segment_file_atomic_roundtrip [where sha = sum_sha and tmp = "''t''" and target = "''s''" and d = 2 and v = "[1, 2, 3, 4]" and n = 2, OF sl _ _ _ _ _ _ c] r
    by simp
  then obtain mf where mf: "OpenMapped (\<lambda>_. Succeeds) ''s'' 2 2 f' = (Inr (Inr mf), f')"
    "\<forall>i. 0 \<le> i \<longrightarrow> i < 2 \<longrightarrow> mf_GetVector i mf = Inr (Some (take (nat 2) (drop (nat i * nat 2) [1, 2, 3, 4])))" by blast
  have "mf_GetVector 1 mf = Inr (Some [3, 4])" using mf(2) [rule_format, of 1] by simp
  with mf(1) c r show ?thesis by blast
qed

lemma splice_rows:
  assumes "i * D + D \<le> length v" "length w = D" "j * D + D \<le> length v"
  shows "take D (drop (j * D) (take (i * D) v @ w @ drop (i * D + D) v)) = (if i = j then w else take D (drop (j * D) v))"
proof (cases i j rule: linorder_cases)
  case less
  then have "i * D + D \<le> j * D" using mult_le_mono1 [of "Suc i" j D] by simp
  then show ?thesis using assms less by simp
next
  case equal
  then show ?thesis using assms by simp
next
  case greater
  then have "j * D + D \<le> i * D" using mult_le_mono1 [of "Suc j" i D] by simp
  then show ?thesis using assms greater by (simp add: take_drop min_def)
qed

lemma OpenMapped_ok:
  assumes "0 \<le> n" "0 \<le> d" "n < 2 ^ 63" "n * d * 4 + 64 < 2 ^ 63" "OpenMapped io path n d f = (x, f')"
  shows "\<exists>y. x = Inr y \<and> (\<forall>mf. y = Inr mf \<longrightarrow> mf_ok mf \<and> sint (Count mf) = n \<and> Dim mf = d)"
proof -
  have nd: "0 \<le> n * d" using assms(1,2) by simp
  have fsz: "wrap64 (int headerSize + wrap64 (n * d) * 4) = 64 + n * d * 4"
    by (rule file_size_exact [OF nd assms(4)])
  define b where "b = (case f path of None \<Rightarrow> [] | Some b \<Rightarrow> b)"
  define b2 where "b2 = b @ replicate (nat (64 + n * d * 4) - length b) 0"
  have len: "headerSize \<le> length b2" "64 + n * d * 4 \<le> int (length b2)" using nd by (auto simp: b2_def headerSize_def)
  have sl: "slice b2 headerSize (length b2) = Inr (drop headerSize b2)" using len(1) by (rule slice_from)
  have cnt: "sint (word_of_int n :: u64) = n" using assms(1,3) wrap64_id [of n] by (simp add: wrap64_def)
  have "n * d \<le> int (length (drop headerSize b2) div 4)"
    using len(2) by (simp add: headerSize_def zdiv_int)
  then have ok: "mf_ok \<lparr>mf_head = h, Vectors = (if 0 < length (drop headerSize b2) div 4 then Some (floats_of (drop headerSize b2)) else None),
    mf_tail = tl, Size = s, Count = word_of_int n, Dim = d\<rparr>" for h tl s
    using assms(2) cnt by (simp add: mf_ok_def)
  show ?thesis
    using assms(5) ok cnt unfolding OpenMapped_def Let_def fsz b_def [symmetric] b2_def [symmetric] sl
    by (auto split: if_splits)
qed

lemma PutVector_row:
  assumes "mf_ok mf" "Vectors mf = Some v" "0 \<le> i" "i < sint (Count mf)" "length w = nat (Dim mf)"
  shows "mf_PutVector i w mf = Inr (mf\<lparr>Vectors := Some (take (nat i * nat (Dim mf)) v @ w @ drop (nat i * nat (Dim mf) + nat (Dim mf)) v)\<rparr>)"
  using assms row_in_view [OF assms(1-4)] by (simp add: mf_PutVector_def copy_into_def Let_def)

lemma put_get_row:
  assumes "mf_ok mf" "length w = nat (Dim mf)"
  shows "\<exists>mf'. mf_PutVector i w mf = Inr mf' \<and>
       mf_GetVector j mf' = (if i = j \<and> 0 \<le> i \<and> i < sint (Count mf) \<and> Vectors mf \<noteq> None then Inr (Some w) else mf_GetVector j mf) \<and>
       (\<exists>z. mf_GetVector j mf = Inr z) \<and> mf_head mf' = mf_head mf \<and> length (mf_Raw mf') = length (mf_Raw mf)"
proof (cases "Vectors mf")
  case None
  then show ?thesis by (simp add: mf_PutVector_def mf_GetVector_def)
next
  case (Some v)
  have get: "\<exists>z. mf_GetVector j mf = Inr z"
    using mf_GetVector_row [OF assms(1) Some, of j] Some by (cases "0 \<le> j \<and> j < sint (Count mf)") (auto simp: mf_GetVector_def)
  show ?thesis
  proof (cases "0 \<le> i \<and> i < sint (Count mf)")
    case True
    define D where "D = nat (Dim mf)"
    define v' where "v' = take (nat i * D) v @ w @ drop (nat i * D + D) v"
    have bd: "nat i * D + D \<le> length v" using row_in_view(2) [OF assms(1) Some] True by (simp add: D_def)
    have put: "mf_PutVector i w mf = Inr (mf\<lparr>Vectors := Some v'\<rparr>)"
      using PutVector_row [OF assms(1) Some _ _ assms(2)] True by (simp add: v'_def D_def)
    have len: "length v' = length v" using bd assms(2) by (simp add: v'_def D_def)
    have ok': "mf_ok (mf\<lparr>Vectors := Some v'\<rparr>)" using assms(1) Some len by (simp add: mf_ok_def)
    have "mf_GetVector j (mf\<lparr>Vectors := Some v'\<rparr>) = (if i = j then Inr (Some w) else mf_GetVector j mf)"
    proof (cases "0 \<le> j \<and> j < sint (Count mf)")
      case j: True
      have bj: "nat j * D + D \<le> length v" using row_in_view(2) [OF assms(1) Some] j by (simp add: D_def)
      have "nat i = nat j \<longleftrightarrow> i = j" using True j by auto
      then show ?thesis
        using mf_GetVector_row [OF ok', of v' j] mf_GetVector_row [OF assms(1) Some, of j] j True
          splice_rows [OF bd _ bj, of w] assms(2) by (simp add: v'_def D_def)
    next
      case False
      then show ?thesis using Some True by (auto simp: mf_GetVector_def)
    qed
    then show ?thesis using put get True Some len by (simp add: mf_Raw_def)
  next
    case False
    then show ?thesis using get Some by (auto simp: mf_PutVector_def)
  qed
qed

text \<open>Mapped access: on a freshly mapped file with non-negative row count and dimension (file size within
  \<open>int64\<close>), whatever the file contained before, reading and writing any row never panics; a row that is
  written is read back, the other rows, the header and the length of the region are unchanged, and rows
  out of range are ignored.\<close>

theorem mapped_put_get:
  assumes "0 \<le> n" "0 \<le> d" "n < 2 ^ 63" "n * d * 4 + 64 < 2 ^ 63" "OpenMapped io path n d f = (x, f')"
  shows "\<exists>y. x = Inr y \<and> (\<forall>mf. y = Inr mf \<longrightarrow> (\<forall>i j w. length w = nat d \<longrightarrow>
    (\<exists>mf'. mf_PutVector i w mf = Inr mf' \<and>
       mf_GetVector j mf' = (if i = j \<and> 0 \<le> i \<and> i < n \<and> Vectors mf \<noteq> None then Inr (Some w) else mf_GetVector j mf) \<and>
       (\<exists>z. mf_GetVector j mf = Inr z) \<and>
       mf_head mf' = mf_head mf \<and> length (mf_Raw mf') = length (mf_Raw mf))))"
proof -
  obtain y where y: "x = Inr y" "\<And>mf. y = Inr mf \<Longrightarrow> mf_ok mf \<and> sint (Count mf) = n \<and> Dim mf = d" using OpenMapped_ok [OF assms] by blast
  have "\<exists>mf'. mf_PutVector i w mf = Inr mf' \<and>
       mf_GetVector j mf' = (if i = j \<and> 0 \<le> i \<and> i < n \<and> Vectors mf \<noteq> None then Inr (Some w) else mf_GetVector j mf) \<and>
       (\<exists>z. mf_GetVector j mf = Inr z) \<and> mf_head mf' = mf_head mf \<and> length (mf_Raw mf') = length (mf_Raw mf)"
    if "y = Inr mf" "length w = nat d" for mf i j w
    using put_get_row [of mf w i j] y(2) [OF that(1)] that(2) by metis
  with y(1) show ?thesis by blast
qed

theorem mapped_put_get_witness:
  "\<exists>mf mf'. mf_PutVector 1 [7, 8] mf = Inr mf' \<and> mf_GetVector 1 mf' = Inr (Some [7, 8]) \<and> mf_GetVector 0 mf' = mf_GetVector 0 mf"
proof -
  obtain x f' where o: "OpenMapped (\<lambda>_. Succeeds) ''m'' 2 2 Map.empty = (x, f')" by fastforce
  have "\<exists>mf. x = Inr (Inr mf) \<and> Vectors mf \<noteq> None"
    using o by (auto simp: OpenMapped_def Let_def wrap64_id slice_def headerSize_def)
  then obtain mf where mf: "x = Inr (Inr mf)" "Vectors mf \<noteq> None" by blast
  have P: "\<exists>mf'. mf_PutVector i w mf = Inr mf' \<and>
       mf_GetVector j mf' = (if i = j \<and> 0 \<le> i \<and> i < 2 \<and> Vectors mf \<noteq> None then Inr (Some w) else mf_GetVector j mf)"
    if "length w = nat 2" for i j w
    using mapped_put_get [OF _ _ _ _ o] mf(1) that by fastforce
  show ?thesis using P [of "[7, 8]" 1 1] P [of "[7, 8]" 1 0] mf(2) by fastforce
qed

end
