(* ===== verification/Compact_Action.thy ===== *)
theory Compact_Action
  imports Segment_File
begin

section \<open>Compaction actions\<close>

text \<open>
  Models \<open>internal/storage/compact_action.go\<close> on the file system of theory \<open>Segment_File\<close>. \<open>io k\<close> is the
  outcome of the \<open>k\<close>-th call that changes the file system; a process that stops at a rename or remove
  stops before it (\<open>Crashes 0\<close>) or after it. The JSON codec of actions and the result of \<open>os.ReadDir\<close>
  are parameters. Directories are clean paths, so \<open>filepath.Join\<close> puts a slash between its arguments.
\<close>

record FileRename =
  Source :: string
  Destination :: string

record CompactionAction =
  Renames :: "FileRename list"
  Deletes :: "string list"

definition CompactionActionFileExt :: string where
  "CompactionActionFileExt = ''.compact_action''"

definition pad20 :: "string \<Rightarrow> string" where
  "pad20 s = replicate (20 - length s) (CHR ''0'') @ s"

definition CompactionActionPath :: "string \<Rightarrow> nat \<Rightarrow> string" where
  "CompactionActionPath dir index = dir @ ''/'' @ pad20 (itoa index) @ CompactionActionFileExt"

definition WriteCompactionAction ::
  "(CompactionAction \<Rightarrow> bytes) \<Rightarrow> (nat \<Rightarrow> outcome) \<Rightarrow> string \<Rightarrow> CompactionAction \<Rightarrow> fs \<Rightarrow> error option exit \<times> fs" where
  \<comment> \<open>a failed or interrupted \<open>WriteFile\<close> leaves a prefix; the directory sync is best effort\<close>
  "WriteCompactionAction enc io path action f =
     (let data = enc action in
      case io 0 of
        Crashes n \<Rightarrow> (Stops, f(path \<mapsto> take n data))
      | Fails e \<Rightarrow> (Returns (Some (OtherError ''write'' (Some e))), f(path \<mapsto> []))
      | Succeeds \<Rightarrow>
          (let f1 = f(path \<mapsto> data) in
           case io 1 of Crashes _ \<Rightarrow> (Stops, f1) | Fails e \<Rightarrow> (Returns (Some (OtherError ''open for fsync'' (Some e))), f1)
           | Succeeds \<Rightarrow>
               (case io 2 of Crashes _ \<Rightarrow> (Stops, f1) | Fails e \<Rightarrow> (Returns (Some (OtherError ''fsync'' (Some e))), f1)
                | Succeeds \<Rightarrow> (Returns None, f1))))"

definition ReadCompactionAction :: "(bytes \<Rightarrow> CompactionAction option) \<Rightarrow> string \<Rightarrow> fs \<Rightarrow> error + CompactionAction" where
  "ReadCompactionAction dec path f =
     (case f path of None \<Rightarrow> Inl (OtherError ''read'' None)
      | Some data \<Rightarrow> (case dec data of None \<Rightarrow> Inl (OtherError ''unmarshal'' None) | Some a \<Rightarrow> Inr a))"

definition fs_rename :: "string \<Rightarrow> string \<Rightarrow> fs \<Rightarrow> fs" where
  \<comment> \<open>\<open>os.Rename\<close>: the destination is replaced\<close>
  "fs_rename s d f = (if s = d then f else f(d := f s, s := None))"

fun exec_renames :: "(nat \<Rightarrow> outcome) \<Rightarrow> nat \<Rightarrow> FileRename list \<Rightarrow> fs \<Rightarrow> error option exit \<times> nat \<times> fs" where
  "exec_renames io k [] f = (Returns None, k, f)"
| "exec_renames io k (r # rs) f =
     (if f (Source r) = None then exec_renames io k rs f
      else let f' = fs_rename (Source r) (Destination r) f in
        case io k of
          Succeeds \<Rightarrow> exec_renames io (k + 1) rs f'
        | Fails e \<Rightarrow> (Returns (Some (OtherError ''rename'' (Some e))), k, f)
        | Crashes n \<Rightarrow> (Stops, k, if n = 0 then f else f'))"

fun exec_deletes :: "(nat \<Rightarrow> outcome) \<Rightarrow> nat \<Rightarrow> string list \<Rightarrow> fs \<Rightarrow> error option exit \<times> fs" where
  "exec_deletes io k [] f = (Returns None, f)"
| "exec_deletes io k (d # ds) f =
     (if f d = None then exec_deletes io k ds f
      else let f' = f(d := None) in
        case io k of
          Succeeds \<Rightarrow> exec_deletes io (k + 1) ds f'
        | Fails e \<Rightarrow> (Returns (Some (OtherError ''delete'' (Some e))), f)
        | Crashes n \<Rightarrow> (Stops, if n = 0 then f else f'))"

definition ExecuteCompactionAction :: "(nat \<Rightarrow> outcome) \<Rightarrow> CompactionAction \<Rightarrow> fs \<Rightarrow> error option exit \<times> fs" where
  "ExecuteCompactionAction io action f =
     (case exec_renames io 0 (Renames action) f of
        (Returns None, k, f1) \<Rightarrow> exec_deletes io k (Deletes action) f1
      | (x, k, f1) \<Rightarrow> (x, f1))"

fun recover_loop ::
  "(bytes \<Rightarrow> CompactionAction option) \<Rightarrow> (string \<Rightarrow> nat \<Rightarrow> outcome) \<Rightarrow> (string \<Rightarrow> outcome) \<Rightarrow> string list \<Rightarrow> fs \<Rightarrow> unit exit \<times> fs" where
  \<comment> \<open>errors of one action are logged and its file is kept\<close>
  "recover_loop dec io rm [] f = (Returns (), f)"
| "recover_loop dec io rm (path # paths) f =
     (case ReadCompactionAction dec path f of
        Inl _ \<Rightarrow> recover_loop dec io rm paths f
      | Inr action \<Rightarrow>
          (case ExecuteCompactionAction (io path) action f of
             (Stops, f1) \<Rightarrow> (Stops, f1)
           | (Returns (Some _), f1) \<Rightarrow> recover_loop dec io rm paths f1
           | (Returns None, f1) \<Rightarrow>
               (case rm path of
                  Crashes n \<Rightarrow> (Stops, if n = 0 then f1 else f1(path := None))
                | Fails _ \<Rightarrow> recover_loop dec io rm paths f1
                | Succeeds \<Rightarrow> recover_loop dec io rm paths (f1(path := None)))))"

definition has_suffix :: "string \<Rightarrow> string \<Rightarrow> bool" where
  "has_suffix s suf \<longleftrightarrow> length suf \<le> length s \<and> drop (length s - length suf) s = suf"

text \<open>\<open>entries\<close> is the outcome of \<open>os.ReadDir\<close>: names with the directory flag, a missing directory, or
  another error.\<close>

datatype dir_listing = Listing "(string \<times> bool) list" | DirMissing | DirError error

definition RecoverCompactionActions ::
  "(bytes \<Rightarrow> CompactionAction option) \<Rightarrow> (string \<Rightarrow> nat \<Rightarrow> outcome) \<Rightarrow> (string \<Rightarrow> outcome) \<Rightarrow> string \<Rightarrow> dir_listing \<Rightarrow> fs \<Rightarrow>
    error option exit \<times> fs" where
  "RecoverCompactionActions dec io rm dir entries f =
     (case entries of
        DirMissing \<Rightarrow> (Returns None, f)
      | DirError e \<Rightarrow> (Returns (Some (OtherError ''reading dir'' (Some e))), f)
      | Listing es \<Rightarrow>
          (let actionPaths = sort (map (\<lambda>e. dir @ ''/'' @ fst e) (filter (\<lambda>e. \<not> snd e \<and> has_suffix (fst e) CompactionActionFileExt) es)) in
           if actionPaths = [] then (Returns None, f)
           else case recover_loop dec io rm actionPaths f of (Stops, f1) \<Rightarrow> (Stops, f1) | (Returns _, f1) \<Rightarrow> (Returns None, f1)))"

subsection \<open>The effect of an action\<close>

definition rename_step :: "FileRename \<Rightarrow> fs \<Rightarrow> fs" where
  "rename_step r f = (if f (Source r) = None then f else fs_rename (Source r) (Destination r) f)"

definition delete_step :: "string \<Rightarrow> fs \<Rightarrow> fs" where
  "delete_step d f = f(d := None)"

definition action_result :: "CompactionAction \<Rightarrow> fs \<Rightarrow> fs" where
  "action_result a f = fold delete_step (Deletes a) (fold rename_step (Renames a) f)"

lemma rename_step_simps:
  "f (Source r) = None \<Longrightarrow> rename_step r f = f"
  "f (Source r) = Some b \<Longrightarrow> rename_step r f = fs_rename (Source r) (Destination r) f"
  by (simp_all add: rename_step_def)

lemma delete_step_absent: "f d = None \<Longrightarrow> delete_step d f = f"
  by (simp add: delete_step_def fun_upd_idem)

lemma exec_renames_returns: "\<exists>k'. exec_renames (\<lambda>_. Succeeds) k rs f = (Returns None, k', fold rename_step rs f)"
  by (induction rs arbitrary: k f) (auto simp: rename_step_simps Let_def)

lemma exec_deletes_returns: "exec_deletes (\<lambda>_. Succeeds) k ds f = (Returns None, fold delete_step ds f)"
  by (induction ds arbitrary: k f) (auto simp: delete_step_absent Let_def simp flip: delete_step_def)

lemma Execute_ok: "ExecuteCompactionAction (\<lambda>_. Succeeds) a f = (Returns None, action_result a f)"
  using exec_renames_returns [of 0 "Renames a" f] by (auto simp: ExecuteCompactionAction_def action_result_def exec_deletes_returns)

text \<open>An interrupted execution has done a prefix of the steps.\<close>

lemma exec_renames_prefix:
  "exec_renames io k rs f = (x, k', g) \<Longrightarrow> \<exists>n. g = fold rename_step (take n rs) f \<and> (x = Returns None \<longrightarrow> take n rs = rs)"
proof (induction rs arbitrary: k f)
  case (Cons r rs)
  have go: ?case if "exec_renames io j rs (rename_step r f) = (x, k', g)" for j
    using Cons.IH [OF that] by (metis fold_simps(2) take_Suc_Cons)
  have stop: ?case if "g = f \<or> g = rename_step r f" "x \<noteq> Returns None"
    using that by (metis fold_simps(1) fold_simps(2) take_Suc_Cons take_0)
  show ?case
  proof (cases "f (Source r)")
    case None
    then show ?thesis using Cons.prems go by (simp add: rename_step_simps)
  next
    case (Some b)
    then show ?thesis using Cons.prems go stop
      by (cases "io k") (auto simp: Let_def rename_step_simps split: if_splits)
  qed
qed simp

lemma exec_deletes_prefix:
  "exec_deletes io k ds f = (x, g) \<Longrightarrow> \<exists>n. g = fold delete_step (take n ds) f"
proof (induction ds arbitrary: k f)
  case (Cons d ds)
  have go: ?case if "exec_deletes io j ds (delete_step d f) = (x, g)" for j
    using Cons.IH [OF that] by (metis fold_simps(2) take_Suc_Cons)
  have stop: ?case if "g = f \<or> g = delete_step d f"
    using that by (metis fold_simps(1) fold_simps(2) take_Suc_Cons take_0)
  show ?case
  proof (cases "f d")
    case None
    then show ?thesis using Cons.prems go by (simp add: delete_step_absent)
  next
    case (Some b)
    then show ?thesis using Cons.prems go stop
      by (cases "io k") (auto simp: Let_def simp flip: delete_step_def split: if_splits)
  qed
qed simp

subsection \<open>Replaying an interrupted action\<close>

definition separate :: "CompactionAction \<Rightarrow> bool" where
  "separate a \<longleftrightarrow> set (map Source (Renames a)) \<inter> set (map Destination (Renames a)) = {}"

lemma rename_step_other: "p \<noteq> Source r \<Longrightarrow> p \<noteq> Destination r \<Longrightarrow> rename_step r f p = f p"
  by (simp add: rename_step_def fs_rename_def)

lemma rename_step_source: "Source r \<noteq> Destination r \<Longrightarrow> rename_step r f (Source r) = None"
  by (simp add: rename_step_def fs_rename_def)

lemma renames_keep_absent:
  "f p = None \<Longrightarrow> p \<notin> set (map Destination rs) \<Longrightarrow> fold rename_step rs f p = None"
proof (induction rs arbitrary: f)
  case (Cons r rs)
  have "rename_step r f p = None" using Cons.prems by (auto simp: rename_step_def fs_rename_def)
  then show ?case using Cons by simp
qed simp

lemma renames_clear_sources:
  "set (map Source rs) \<inter> set (map Destination rs) = {} \<Longrightarrow> r \<in> set rs \<Longrightarrow> fold rename_step rs f (Source r) = None"
proof (induction rs arbitrary: f)
  case (Cons q rs)
  show ?case
  proof (cases "r = q")
    case True
    then have "rename_step q f (Source r) = None" using Cons.prems(1) rename_step_source [of q] by auto
    moreover have "Source r \<notin> set (map Destination rs)" using Cons.prems(1) True by auto
    ultimately show ?thesis using renames_keep_absent by simp
  next
    case False
    then show ?thesis using Cons by auto
  qed
qed simp

lemma renames_absent: "\<forall>r \<in> set rs. f (Source r) = None \<Longrightarrow> fold rename_step rs f = f"
  by (induction rs) (simp_all add: rename_step_simps)

lemma deletes_absent: "\<forall>d \<in> set ds. f d = None \<Longrightarrow> fold delete_step ds f = f"
  by (induction ds) (simp_all add: delete_step_absent)

lemma fold_delete: "fold delete_step ds f p = (if p \<in> set ds then None else f p)"
  by (induction ds arbitrary: f) (auto simp: delete_step_def)

lemma replay_renames:
  assumes "set (map Source rs) \<inter> set (map Destination rs) = {}"
  shows "fold rename_step rs (fold rename_step (take n rs) f) = fold rename_step rs f"
proof -
  have sub: "set (map Source (take n rs)) \<inter> set (map Destination (take n rs)) = {}"
    using assms set_take_subset [of n rs] by auto
  have "fold rename_step (take n rs) (fold rename_step (take n rs) f) = fold rename_step (take n rs) f"
    by (rule renames_absent) (use renames_clear_sources [OF sub] in blast)
  then show ?thesis by (metis append_take_drop_id fold_append comp_apply)
qed

lemma replay_all:
  assumes "separate a"
  shows "action_result a (fold rename_step (take n (Renames a)) f) = action_result a f"
    "action_result a (fold delete_step (take m (Deletes a)) (fold rename_step (Renames a) f)) = action_result a f"
proof -
  have S: "set (map Source (Renames a)) \<inter> set (map Destination (Renames a)) = {}" using assms by (simp add: separate_def)
  show "action_result a (fold rename_step (take n (Renames a)) f) = action_result a f"
    by (simp add: action_result_def replay_renames [OF S])
  let ?g = "fold delete_step (take m (Deletes a)) (fold rename_step (Renames a) f)"
  have "fold rename_step (Renames a) ?g = ?g"
    by (rule renames_absent) (use renames_clear_sources [OF S] in \<open>auto simp: fold_delete\<close>)
  moreover have "fold delete_step (Deletes a) ?g = fold delete_step (Deletes a) (fold rename_step (Renames a) f)"
    using set_take_subset [of m "Deletes a"] by (auto simp: fun_eq_iff fold_delete)
  ultimately show "action_result a ?g = action_result a f" by (simp add: action_result_def)
qed

lemma Execute_prefix:
  assumes "ExecuteCompactionAction io a f = (x, g)"
  obtains n where "g = fold rename_step (take n (Renames a)) f"
  | m where "g = fold delete_step (take m (Deletes a)) (fold rename_step (Renames a) f)"
proof -
  obtain y k f1 where e: "exec_renames io 0 (Renames a) f = (y, k, f1)" by (cases "exec_renames io 0 (Renames a) f")
  from exec_renames_prefix [OF e] obtain n where n: "f1 = fold rename_step (take n (Renames a)) f"
    "y = Returns None \<Longrightarrow> take n (Renames a) = Renames a" by blast
  show thesis
  proof (cases "y = Returns None")
    case True
    then have "exec_deletes io k (Deletes a) f1 = (x, g)" using assms e by (simp add: ExecuteCompactionAction_def)
    from exec_deletes_prefix [OF this] show thesis using n True that(2) by metis
  next
    case False
    then have "g = f1" using assms e by (auto simp: ExecuteCompactionAction_def split: exit.splits option.splits)
    then show thesis using n(1) that(1) by blast
  qed
qed

lemma replay_attempt: "separate a \<Longrightarrow> action_result a (snd (ExecuteCompactionAction io a f)) = action_result a f"
  by (cases "ExecuteCompactionAction io a f") (metis Execute_prefix replay_all snd_conv)

lemma replay_attempts:
  "separate a \<Longrightarrow> action_result a (fold (\<lambda>io g. snd (ExecuteCompactionAction io a g)) ios f) = action_result a f"
  by (induction ios arbitrary: f) (simp_all add: replay_attempt)

definition untouched :: "string \<Rightarrow> CompactionAction \<Rightarrow> bool" where
  "untouched p a \<longleftrightarrow> p \<notin> set (map Source (Renames a)) \<and> p \<notin> set (map Destination (Renames a)) \<and> p \<notin> set (Deletes a)"

lemma renames_other:
  "p \<notin> set (map Source rs) \<Longrightarrow> p \<notin> set (map Destination rs) \<Longrightarrow> fold rename_step rs f p = f p"
  by (induction rs arbitrary: f) (simp_all add: rename_step_other)

lemma attempt_other:
  assumes "untouched p a"
  shows "snd (ExecuteCompactionAction io a f) p = f p"
proof (cases "ExecuteCompactionAction io a f")
  case (Pair x g)
  have "p \<notin> set (map Source (take n (Renames a))) \<and> p \<notin> set (map Destination (take n (Renames a))) \<and> p \<notin> set (take n (Deletes a))" for n
    using assms set_take_subset [of n "Renames a"] set_take_subset [of n "Deletes a"] by (auto simp: untouched_def)
  then have "g p = f p" using Pair assms
    by (elim Execute_prefix) (auto simp: renames_other fold_delete untouched_def)
  then show ?thesis using Pair by simp
qed

lemma attempts_other:
  "untouched p a \<Longrightarrow> fold (\<lambda>io g. snd (ExecuteCompactionAction io a g)) ios f p = f p"
  by (induction ios arbitrary: f) (simp_all add: attempt_other)

text \<open>C25. Crash recovery of a compaction: once the action file is written, however often and wherever the
  execution of the action (or a recovery of it) is interrupted or fails, a start-up recovery whose
  system calls succeed completes it: the file system is exactly what one uninterrupted execution gives,
  and the action file is gone. The renames must not use a destination as a source, and the action must
  not touch its own file.\<close>

theorem compaction_action_recovers:
  assumes "dec (enc a) = Some a" "separate a" "p = dir @ ''/'' @ name" "has_suffix name CompactionActionFileExt" "untouched p a"
    and "WriteCompactionAction enc iow p a f = (Returns None, f0)"
    and "f1 = fold (\<lambda>io g. snd (ExecuteCompactionAction io a g)) ios f0"
  shows "RecoverCompactionActions dec (\<lambda>_ _. Succeeds) (\<lambda>_. Succeeds) dir (Listing [(name, False)]) f1 =
      (Returns None, (snd (ExecuteCompactionAction (\<lambda>_. Succeeds) a f0))(p := None))"
proof -
  have f0: "f0 p = Some (enc a)" using assms(6) by (auto simp: WriteCompactionAction_def Let_def split: outcome.splits)
  have "f1 p = Some (enc a)" using attempts_other [OF assms(5)] f0 assms(7) by simp
  then have rd: "ReadCompactionAction dec p f1 = Inr a" using assms(1) by (simp add: ReadCompactionAction_def)
  have "action_result a f1 = action_result a f0" using replay_attempts [OF assms(2)] assms(7) by simp
  then show ?thesis using rd assms(3,4) by (simp add: RecoverCompactionActions_def Execute_ok)
qed

definition ex_action :: CompactionAction where
  "ex_action = \<lparr>Renames = [\<lparr>Source = ''a'', Destination = ''b''\<rparr>], Deletes = [''c'']\<rparr>"

theorem compaction_action_recovers_witness:
  "RecoverCompactionActions (\<lambda>_. Some ex_action) (\<lambda>_ _. Succeeds) (\<lambda>_. Succeeds) ''d'' (Listing [(''x.compact_action'', False)])
     [''a'' \<mapsto> [1], ''c'' \<mapsto> [2], ''d/x.compact_action'' \<mapsto> []] = (Returns None, [''b'' \<mapsto> [1]])"
proof -
  have "RecoverCompactionActions (\<lambda>_. Some ex_action) (\<lambda>_ _. Succeeds) (\<lambda>_. Succeeds) ''d'' (Listing [(''x.compact_action'', False)])
     [''a'' \<mapsto> [1], ''c'' \<mapsto> [2], ''d/x.compact_action'' \<mapsto> []] =
    (Returns None, (snd (ExecuteCompactionAction (\<lambda>_. Succeeds) ex_action [''a'' \<mapsto> [1], ''c'' \<mapsto> [2], ''d/x.compact_action'' \<mapsto> []]))(''d/x.compact_action'' := None))"
    by (rule compaction_action_recovers [where enc = "\<lambda>_. []" and iow = "\<lambda>_. Succeeds" and ios = "[]" and f = "[''a'' \<mapsto> [1], ''c'' \<mapsto> [2]]"])
      (simp_all add: separate_def ex_action_def has_suffix_def CompactionActionFileExt_def untouched_def WriteCompactionAction_def)
  then show ?thesis
    by (simp add: ExecuteCompactionAction_def ex_action_def fs_rename_def fun_eq_iff)
qed

text \<open>An action is not idempotent when a destination is also a source: after the complete execution of
  the renames \<open>b\<close> to \<open>c\<close> and \<open>a\<close> to \<open>b\<close>, replaying the action, as a start-up does when the process
  stopped before the action file was removed, moves the new \<open>b\<close> over \<open>c\<close>, and the contents of the old
  \<open>b\<close> are lost.\<close>

theorem compaction_action_not_idempotent:
  "let a = \<lparr>Renames = [\<lparr>Source = ''b'', Destination = ''c''\<rparr>, \<lparr>Source = ''a'', Destination = ''b''\<rparr>], Deletes = []\<rparr>;
       f1 = snd (ExecuteCompactionAction (\<lambda>_. Succeeds) a [''a'' \<mapsto> x, ''b'' \<mapsto> y]) in
   f1 = [''b'' \<mapsto> x, ''c'' \<mapsto> y] \<and>
   ExecuteCompactionAction (\<lambda>_. Succeeds) a f1 = (Returns None, [''c'' \<mapsto> x])"
  by (simp add: ExecuteCompactionAction_def fs_rename_def Let_def fun_eq_iff)

end
