(* ===== verification/Garbage_Collector.thy ===== *)
theory Garbage_Collector
  imports Errors
begin

section \<open>Segment garbage collection\<close>

text \<open>
  Models \<open>internal/gc/gc.go\<close>: pins, \<open>Mark\<close> and \<open>Sweep\<close>. \<open>Sweep\<close> is composed of the pieces other
  goroutines can run between: the snapshot of the marked list under the lock, for each segment the
  fence test and the deletion, and the final assignment under the lock. The disk is the map from file
  paths to sizes; \<open>rm_fails\<close> says for which paths \<open>os.Remove\<close> fails with an error other than
  not-exist; \<open>ctx i\<close> is the context's error at the \<open>i\<close>-th iteration. Counters of the statistics are
  not modelled.
\<close>

record SegmentRef =
  ID :: string
  FilePath :: string
  MarkedAt :: time \<comment> \<open>0 is the zero time\<close>

record GCConfig =
  Interval :: time
  FenceTimeout :: time
  MinAge :: time

record Collector =
  marked :: "SegmentRef list"
  pins :: "string \<rightharpoonup> int"
  config :: GCConfig

type_synonym disk = "string \<rightharpoonup> nat"

definition DefaultGCConfig :: GCConfig where
  "DefaultGCConfig = \<lparr>Interval = 60 * 1000000000, FenceTimeout = 30 * 1000000000, MinAge = 300 * 1000000000\<rparr>"

definition NewCollector :: "(string \<rightharpoonup> int) \<Rightarrow> GCConfig \<Rightarrow> Collector" where
  "NewCollector p cfg = \<lparr>marked = [], pins = p, config = cfg\<rparr>"

definition Pin :: "string \<Rightarrow> Collector \<Rightarrow> Collector" where
  "Pin segmentID gc = gc\<lparr>pins := (pins gc)(segmentID \<mapsto> map_get 0 (pins gc) segmentID + 1)\<rparr>"

definition Unpin :: "string \<Rightarrow> Collector \<Rightarrow> Collector" where
  "Unpin segmentID gc =
     (case pins gc segmentID of None \<Rightarrow> gc | Some n \<Rightarrow> gc\<lparr>pins := (pins gc)(segmentID \<mapsto> n - 1)\<rparr>)"

definition PinCount :: "string \<Rightarrow> Collector \<Rightarrow> int" where
  "PinCount segmentID gc = map_get 0 (pins gc) segmentID"

definition Remove :: "string \<Rightarrow> Collector \<Rightarrow> Collector" where
  "Remove segmentID gc = gc\<lparr>pins := (pins gc)(segmentID := None)\<rparr>"

definition Mark :: "time \<Rightarrow> SegmentRef \<Rightarrow> Collector \<Rightarrow> Collector" where
  "Mark now seg gc =
     (let seg = (if MarkedAt seg = 0 then seg\<lparr>MarkedAt := now\<rparr> else seg) in gc\<lparr>marked := marked gc @ [seg]\<rparr>)"

definition MarkedCount :: "Collector \<Rightarrow> nat" where
  "MarkedCount gc = length (marked gc)"

definition fence_passed :: "time \<Rightarrow> SegmentRef \<Rightarrow> Collector \<Rightarrow> bool" where
  "fence_passed now seg gc \<longleftrightarrow> \<not> now - MarkedAt seg < MinAge (config gc) \<and> \<not> PinCount (ID seg) gc > 0"

definition sweep_file :: "(string \<Rightarrow> bool) \<Rightarrow> SegmentRef \<Rightarrow> Collector \<times> disk \<Rightarrow> bool \<times> Collector \<times> disk" where
  \<comment> \<open>phase 3; \<open>False\<close> when the file cannot be removed\<close>
  "sweep_file rm_fails seg st =
     (case st of (gc, d) \<Rightarrow>
        if FilePath seg \<noteq> '''' \<and> d (FilePath seg) \<noteq> None \<and> rm_fails (FilePath seg) then (False, gc, d)
        else (True, Remove (ID seg) gc, if FilePath seg \<noteq> '''' then d(FilePath seg := None) else d))"

fun sweep_loop ::
  "(nat \<Rightarrow> error option) \<Rightarrow> (string \<Rightarrow> bool) \<Rightarrow> time \<Rightarrow> SegmentRef list \<Rightarrow> nat \<Rightarrow> SegmentRef list \<Rightarrow> nat \<Rightarrow> SegmentRef list \<Rightarrow>
    Collector \<times> disk \<Rightarrow> (nat \<times> error option) \<times> Collector \<times> disk" where
  \<comment> \<open>\<open>i\<close> iterations done, \<open>todo\<close> left; \<open>remaining\<close> and \<open>collected\<close> as in the code\<close>
  "sweep_loop ctx rm_fails now pending i remaining collected [] st =
     (case st of (gc, d) \<Rightarrow> ((collected, None), gc\<lparr>marked := remaining\<rparr>, d))"
| "sweep_loop ctx rm_fails now pending i remaining collected (seg # todo) st =
     (case ctx i of
        Some e \<Rightarrow> (case st of (gc, d) \<Rightarrow> ((collected, Some e), gc\<lparr>marked := remaining @ drop collected pending\<rparr>, d))
      | None \<Rightarrow>
          if \<not> fence_passed now seg (fst st)
          then sweep_loop ctx rm_fails now pending (i + 1) (remaining @ [seg]) collected todo st
          else case sweep_file rm_fails seg st of
            (False, st') \<Rightarrow> sweep_loop ctx rm_fails now pending (i + 1) (remaining @ [seg]) collected todo st'
          | (True, st') \<Rightarrow> sweep_loop ctx rm_fails now pending (i + 1) remaining (collected + 1) todo st')"

definition Sweep ::
  "(nat \<Rightarrow> error option) \<Rightarrow> (string \<Rightarrow> bool) \<Rightarrow> time \<Rightarrow> Collector \<times> disk \<Rightarrow> (nat \<times> error option) \<times> Collector \<times> disk" where
  "Sweep ctx rm_fails now st = (let pending = marked (fst st) in sweep_loop ctx rm_fails now pending 0 [] 0 pending st)"

fun Run :: "(nat \<Rightarrow> nat \<Rightarrow> error option) \<Rightarrow> (string \<Rightarrow> bool) \<Rightarrow> time list \<Rightarrow> Collector \<times> disk \<Rightarrow> Collector \<times> disk" where
  \<comment> \<open>the ticks of the timer until the context is done; a failed sweep is only logged\<close>
  "Run ctx rm_fails [] st = st"
| "Run ctx rm_fails (now # ticks) st = Run ctx rm_fails ticks (snd (Sweep (ctx (length ticks)) rm_fails now st))"

subsection \<open>What a sweep collects\<close>

definition collectable :: "(string \<Rightarrow> bool) \<Rightarrow> time \<Rightarrow> Collector \<times> disk \<Rightarrow> SegmentRef \<Rightarrow> bool" where
  \<comment> \<open>old enough, not pinned, and its file can be removed\<close>
  "collectable rm_fails now st seg \<longleftrightarrow> now - MarkedAt seg \<ge> MinAge (config (fst st)) \<and> PinCount (ID seg) (fst st) \<le> 0 \<and>
     \<not> (FilePath seg \<noteq> '''' \<and> snd st (FilePath seg) \<noteq> None \<and> rm_fails (FilePath seg))"

definition drop_files :: "SegmentRef list \<Rightarrow> disk \<Rightarrow> disk" where
  "drop_files segs d = (\<lambda>p. if p \<in> FilePath ` set segs \<and> p \<noteq> '''' then None else d p)"

definition drop_pins :: "SegmentRef list \<Rightarrow> (string \<rightharpoonup> int) \<Rightarrow> (string \<rightharpoonup> int)" where
  "drop_pins segs m = (\<lambda>i. if i \<in> ID ` set segs then None else m i)"

text \<open>The state in the middle of a sweep that has collected \<open>got\<close>.\<close>

definition swept :: "Collector \<times> disk \<Rightarrow> SegmentRef list \<Rightarrow> Collector \<times> disk" where
  "swept st got = ((fst st)\<lparr>pins := drop_pins got (pins (fst st))\<rparr>, drop_files got (snd st))"

lemma swept_Nil: "swept st [] = st"
  by (cases st) (simp add: swept_def drop_pins_def drop_files_def)

lemma swept_step:
  assumes "\<forall>s \<in> set got. collectable rm_fails now st s"
  shows "fence_passed now seg (fst (swept st got)) \<longleftrightarrow> now - MarkedAt seg \<ge> MinAge (config (fst st)) \<and> PinCount (ID seg) (fst st) \<le> 0"
    "sweep_file rm_fails seg (swept st got) =
       (if FilePath seg \<noteq> '''' \<and> snd st (FilePath seg) \<noteq> None \<and> rm_fails (FilePath seg) then (False, swept st got) else (True, swept st (got @ [seg])))"
proof -
  have pc: "PinCount i (fst (swept st got)) > 0 \<longleftrightarrow> PinCount i (fst st) > 0" for i
    using assms by (auto simp: swept_def PinCount_def drop_pins_def map_get_def collectable_def)
  show "fence_passed now seg (fst (swept st got)) \<longleftrightarrow> now - MarkedAt seg \<ge> MinAge (config (fst st)) \<and> PinCount (ID seg) (fst st) \<le> 0"
    unfolding fence_passed_def pc by (auto simp: not_less) (simp_all add: swept_def)
  have "snd (swept st got) (FilePath seg) \<noteq> None \<longleftrightarrow> snd st (FilePath seg) \<noteq> None" if "rm_fails (FilePath seg)" "FilePath seg \<noteq> ''''"
    using assms that by (auto simp: swept_def drop_files_def collectable_def)
  then show "sweep_file rm_fails seg (swept st got) =
       (if FilePath seg \<noteq> '''' \<and> snd st (FilePath seg) \<noteq> None \<and> rm_fails (FilePath seg) then (False, swept st got) else (True, swept st (got @ [seg])))"
    by (auto simp: sweep_file_def swept_def Remove_def drop_pins_def drop_files_def fun_eq_iff split: prod.splits)
qed

text \<open>\<open>k\<close> is the number of iterations before the context is done, if it is.\<close>

lemma sweep_loop_exact:
  assumes "pending = hist @ todo" "k \<le> length pending" "length hist \<le> k" "\<forall>i < k. ctx i = None" "k = length pending \<or> ctx k \<noteq> None"
  shows "sweep_loop ctx rm_fails now pending (length hist) (filter (\<lambda>s. \<not> collectable rm_fails now st s) hist)
      (length (filter (collectable rm_fails now st) hist)) todo (swept st (filter (collectable rm_fails now st) hist)) =
    (let got = filter (collectable rm_fails now st) (take k pending);
         kept = filter (\<lambda>s. \<not> collectable rm_fails now st s) (take k pending);
         st' = swept st got in
     if k = length pending then ((length got, None), (fst st')\<lparr>marked := kept\<rparr>, snd st')
     else ((length got, ctx k), (fst st')\<lparr>marked := kept @ drop (length got) pending\<rparr>, snd st'))"
  using assms(1,3)
proof (induction todo arbitrary: hist)
  case Nil
  then have "k = length pending" "take k pending = hist" using assms(2) by auto
  then show ?case by (simp add: Let_def split: prod.splits)
next
  case (Cons seg todo)
  show ?case
  proof (cases "k = length hist")
    case True
    then have "k \<noteq> length pending" "take k pending = hist" using Cons.prems(1) by auto
    moreover obtain e where "ctx k = Some e" using assms(5) calculation(1) by auto
    ultimately show ?thesis using True by (simp add: Let_def split: prod.splits)
  next
    case False
    then have lt: "Suc (length hist) \<le> k" "ctx (length hist) = None" using Cons.prems(2) assms(4) by auto
    have h: "pending = (hist @ [seg]) @ todo" "length (hist @ [seg]) \<le> k" using Cons.prems(1) lt(1) by simp_all
    have got: "\<forall>s \<in> set (filter (collectable rm_fails now st) hist). collectable rm_fails now st s" by simp
    note S = swept_step [OF got] and IH = Cons.IH [OF h]
    show ?thesis
    proof (cases "collectable rm_fails now st seg")
      case True
      then have "fence_passed now seg (fst (swept st (filter (collectable rm_fails now st) hist)))"
        "sweep_file rm_fails seg (swept st (filter (collectable rm_fails now st) hist)) =
          (True, swept st (filter (collectable rm_fails now st) hist @ [seg]))"
        unfolding S by (auto simp: collectable_def)
      then show ?thesis using IH lt(2) True by simp
    next
      case False
      show ?thesis
      proof (cases "fence_passed now seg (fst (swept st (filter (collectable rm_fails now st) hist)))")
        case fp: True
        then have "sweep_file rm_fails seg (swept st (filter (collectable rm_fails now st) hist)) =
          (False, swept st (filter (collectable rm_fails now st) hist))"
          using False unfolding S by (auto simp: collectable_def)
        then show ?thesis using IH lt(2) False fp by simp
      next
        case nfp: False
        then show ?thesis using IH lt(2) False by simp
      qed
    qed
  qed
qed

lemma Sweep_exact:
  assumes "k \<le> length (marked (fst st))" "\<forall>i < k. ctx i = None" "k = length (marked (fst st)) \<or> ctx k \<noteq> None"
  shows "Sweep ctx rm_fails now st =
    (let pending = marked (fst st); got = filter (collectable rm_fails now st) (take k pending);
         kept = filter (\<lambda>s. \<not> collectable rm_fails now st s) (take k pending); st' = swept st got in
     if k = length pending then ((length got, None), (fst st')\<lparr>marked := kept\<rparr>, snd st')
     else ((length got, ctx k), (fst st')\<lparr>marked := kept @ drop (length got) pending\<rparr>, snd st'))"
  using sweep_loop_exact [of "marked (fst st)" "[]" "marked (fst st)" k ctx rm_fails now st] assms
  by (simp add: Sweep_def swept_Nil)

subsection \<open>Guarantees of a sweep\<close>

lemma Sweep_done:
  obtains k where "k \<le> length (marked gc)" "\<forall>i < k. ctx i = None" "k = length (marked gc) \<or> ctx k \<noteq> None"
proof (cases "\<exists>i < length (marked gc). ctx i \<noteq> None")
  case True
  define k where "k = (LEAST i. ctx i \<noteq> None)"
  obtain i where i: "i < length (marked gc)" "ctx i \<noteq> None" using True by blast
  have "ctx k \<noteq> None" "k \<le> i" unfolding k_def using i(2) by (auto intro: LeastI Least_le)
  moreover have "\<forall>i < k. ctx i = None" unfolding k_def using not_less_Least by blast
  ultimately show thesis using that [of k] i(1) by simp
next
  case False
  then show thesis using that [of "length (marked gc)"] by blast
qed

text \<open>C18. A sweep during which no other goroutine changes pins or marks, wherever it is cancelled: a file
  disappears only if a marked segment with that path is at least \<open>MinAge\<close> old and has no reader; no
  marked segment is lost: each is still marked or its file is gone; and a sweep that is not cancelled
  collects every segment that passes the fence and whose file can be removed, returns their number
  and keeps exactly the others, in order.\<close>

theorem gc_sweep_fence:
  assumes "Sweep ctx rm_fails now (gc, d) = ((n, e), gc', d')"
  shows "(\<forall>p. d' p \<noteq> d p \<longrightarrow> d' p = None \<and> (\<exists>s \<in> set (marked gc). FilePath s = p \<and> now - MarkedAt s \<ge> MinAge (config gc) \<and> PinCount (ID s) gc \<le> 0)) \<and>
    (\<forall>s \<in> set (marked gc). s \<in> set (marked gc') \<or> (FilePath s = '''' \<or> d' (FilePath s) = None) \<and> collectable rm_fails now (gc, d) s) \<and>
    (e = None \<longrightarrow> marked gc' = filter (\<lambda>s. \<not> collectable rm_fails now (gc, d) s) (marked gc) \<and>
       n = length (filter (collectable rm_fails now (gc, d)) (marked gc)))"
proof -
  obtain k where k: "k \<le> length (marked gc)" "\<forall>i < k. ctx i = None" "k = length (marked gc) \<or> ctx k \<noteq> None" using Sweep_done by blast
  define got where "got = filter (collectable rm_fails now (gc, d)) (take k (marked gc))"
  define kept where "kept = filter (\<lambda>s. \<not> collectable rm_fails now (gc, d) s) (take k (marked gc))"
  have ex: "n = length got" "d' = drop_files got d"
    "marked gc' = (if k = length (marked gc) then kept else kept @ drop (length got) (marked gc))"
    "e = (if k = length (marked gc) then None else ctx k)"
    using assms Sweep_exact [of k "(gc, d)" ctx rm_fails now] k
    by (auto simp: got_def kept_def Let_def swept_def split: if_splits)
  have sub: "set got \<subseteq> set (marked gc)" "\<forall>s \<in> set got. collectable rm_fails now (gc, d) s"
    using set_take_subset [of k "marked gc"] by (auto simp: got_def)
  have lg: "length got \<le> k" unfolding got_def using k(1) by (metis length_filter_le length_take min.absorb2)
  have cov: "s \<in> set (marked gc') \<or> s \<in> set got" if "s \<in> set (marked gc)" for s
  proof -
    have "s \<in> set (take k (marked gc)) \<or> s \<in> set (drop k (marked gc))" using that by (metis Un_iff append_take_drop_id set_append)
    moreover have "set (drop k (marked gc)) \<subseteq> set (drop (length got) (marked gc))" using lg by (rule set_drop_subset_set_drop)
    ultimately show ?thesis unfolding ex(3) by (auto simp: got_def kept_def)
  qed
  have A: "d' p = None \<and> (\<exists>s \<in> set (marked gc). FilePath s = p \<and> now - MarkedAt s \<ge> MinAge (config gc) \<and> PinCount (ID s) gc \<le> 0)"
    if "d' p \<noteq> d p" for p
    using that sub unfolding ex(2) by (auto simp: drop_files_def collectable_def split: if_splits)
  have B: "s \<in> set (marked gc') \<or> (FilePath s = '''' \<or> d' (FilePath s) = None) \<and> collectable rm_fails now (gc, d) s"
    if "s \<in> set (marked gc)" for s
    using cov [OF that] sub(2) unfolding ex(2) by (auto simp: drop_files_def)
  have C: "marked gc' = filter (\<lambda>s. \<not> collectable rm_fails now (gc, d) s) (marked gc) \<and>
       n = length (filter (collectable rm_fails now (gc, d)) (marked gc))" if "e = None"
    using that ex k(3) by (auto simp: got_def kept_def split: if_splits)
  show ?thesis by (rule conjI, intro allI impI, erule A, rule conjI, intro ballI, erule B, intro impI, erule C)
qed

definition ex_seg :: "string \<Rightarrow> SegmentRef" where
  "ex_seg i = \<lparr>ID = i, FilePath = i, MarkedAt = 1\<rparr>"

definition ex_gc :: "SegmentRef list \<Rightarrow> Collector" where
  "ex_gc segs = \<lparr>marked = segs, pins = [''b'' \<mapsto> 1], config = \<lparr>Interval = 1, FenceTimeout = 1, MinAge = 10\<rparr>\<rparr>"

theorem gc_sweep_fence_witness:
  "\<exists>gc' d'. Sweep (\<lambda>_. None) (\<lambda>_. False) 20 (ex_gc [ex_seg ''a'', ex_seg ''b''], [''a'' \<mapsto> 1, ''b'' \<mapsto> 1]) = ((1, None), gc', d') \<and>
     marked gc' = [ex_seg ''b''] \<and> d' = [''b'' \<mapsto> 1]"
proof -
  obtain n e gc' d' where s: "Sweep (\<lambda>_. None) (\<lambda>_. False) 20 (ex_gc [ex_seg ''a'', ex_seg ''b''], [''a'' \<mapsto> 1, ''b'' \<mapsto> 1]) = ((n, e), gc', d')"
    by (metis surj_pair)
  have "e = None \<and> d' = [''b'' \<mapsto> 1]"
    using s by (auto simp: Sweep_def ex_gc_def ex_seg_def fence_passed_def PinCount_def sweep_file_def Remove_def fun_upd_def)
  moreover have "collectable (\<lambda>_. False) 20 (ex_gc [ex_seg ''a'', ex_seg ''b''], [''a'' \<mapsto> 1, ''b'' \<mapsto> 1]) (ex_seg ''a'')"
    "\<not> collectable (\<lambda>_. False) 20 (ex_gc [ex_seg ''a'', ex_seg ''b''], [''a'' \<mapsto> 1, ''b'' \<mapsto> 1]) (ex_seg ''b'')"
    by (simp_all add: collectable_def ex_gc_def ex_seg_def PinCount_def)
  ultimately show ?thesis using gc_sweep_fence [OF s] s by (simp add: ex_gc_def)
qed

text \<open>What the fence does not cover. A reader that pins the segment after the fence test and before the
  deletion has its file removed under it and its pin forgotten. A segment marked between the snapshot
  and the end of a sweep is dropped from the list by the final assignment, so its file is never
  collected. A cancelled sweep puts back what it has collected: with one young and one collected
  segment before the cancellation, the collected one is in the list again.\<close>

theorem gc_interleaving_defects:
  "(let gc = ex_gc [ex_seg ''a'']; gc1 = Pin ''a'' gc; (done, gc2, d2) = sweep_file (\<lambda>_. False) (ex_seg ''a'') (gc1, [''a'' \<mapsto> 1]) in
      fence_passed 20 (ex_seg ''a'') gc \<and> PinCount ''a'' gc1 = 1 \<and> done \<and> d2 = Map.empty \<and> PinCount ''a'' gc2 = 0) \<and>
   (let gc = ex_gc [ex_seg ''b'']; pending = marked gc; gc1 = Mark 5 (ex_seg ''c'') gc in
      marked (fst (snd (sweep_loop (\<lambda>_. None) (\<lambda>_. False) 20 pending 0 [] 0 pending (gc1, [''b'' \<mapsto> 1, ''c'' \<mapsto> 1])))) = [ex_seg ''b'']) \<and>
   (let young = (ex_seg ''y'')\<lparr>MarkedAt := 15\<rparr>;
        r = Sweep (\<lambda>i. if i = 2 then Some (OtherError ''context canceled'' None) else None) (\<lambda>_. False) 20
          (ex_gc [young, ex_seg ''a'', ex_seg ''c''], [''a'' \<mapsto> 1]) in
      snd (snd r) = Map.empty \<and> fst (fst r) = 1 \<and> marked (fst (snd r)) = [young, ex_seg ''a'', ex_seg ''c''])"
  by (simp add: Let_def ex_gc_def ex_seg_def Pin_def Mark_def fence_passed_def PinCount_def sweep_file_def Remove_def Sweep_def fun_eq_iff)

end
