(* ===== verification/Rank_Fusion.thy ===== *)
theory Rank_Fusion
  imports Slice_Sort Complex_Main
begin

section \<open>Reciprocal rank fusion\<close>

text \<open>
  Models \<open>internal/search/rrf.go\<close> on an ordered field, so in exact arithmetic; the conversions between
  \<open>float64\<close> and \<open>float32\<close> are the identity there. \<open>enum\<close> is the order in which \<open>range\<close> visits the keys
  of a map, \<open>srt\<close> is \<open>sort.Slice\<close> with the comparison of the code.
\<close>

record 'n RankedResult =
  ID :: u64
  Score :: 'n

definition enumerates :: "('k set \<Rightarrow> 'k list) \<Rightarrow> bool" where
  "enumerates enum \<longleftrightarrow> (\<forall>S. finite S \<longrightarrow> set (enum S) = S \<and> distinct (enum S))"

fun rank_loop :: "'n::field \<Rightarrow> 'n \<Rightarrow> nat \<Rightarrow> 'n RankedResult list \<Rightarrow> (u64 \<rightharpoonup> 'n) \<Rightarrow> (u64 \<rightharpoonup> 'n)" where
  \<comment> \<open>the ranks from \<open>rank\<close> on\<close>
  "rank_loop w k rank [] scores = scores"
| "rank_loop w k rank (result # rs) scores =
     rank_loop w k (rank + 1) rs (scores(ID result \<mapsto> map_get 0 scores (ID result) + w / (k + of_nat (rank + 1))))"

fun list_loop :: "'n::field \<Rightarrow> ('n \<times> 'n RankedResult list) list \<Rightarrow> (u64 \<rightharpoonup> 'n) \<Rightarrow> (u64 \<rightharpoonup> 'n)" where
  "list_loop k [] scores = scores"
| "list_loop k ((w, rs) # rest) scores = list_loop k rest (rank_loop w k 0 rs scores)"

definition merged_results :: "(u64 set \<Rightarrow> u64 list) \<Rightarrow> (u64 \<rightharpoonup> 'n::zero) \<Rightarrow> 'n RankedResult list" where
  "merged_results enum scores = map (\<lambda>i. \<lparr>ID = i, Score = map_get 0 scores i\<rparr>) (enum (dom scores))"

definition default_k :: "'n::linordered_field \<Rightarrow> 'n" where
  "default_k k = (if k \<le> 0 then 60 else k)"

definition RRF ::
  "(u64 set \<Rightarrow> u64 list) \<Rightarrow> ('n RankedResult list \<Rightarrow> 'n RankedResult list) \<Rightarrow> 'n RankedResult list list \<Rightarrow> 'n::linordered_field \<Rightarrow>
    'n RankedResult list" where
  "RRF enum srt rankings k =
     srt (merged_results enum (list_loop (default_k k) (map (\<lambda>rs. (1, rs)) rankings) Map.empty))"

definition RRFTopK ::
  "(u64 set \<Rightarrow> u64 list) \<Rightarrow> ('n RankedResult list \<Rightarrow> 'n RankedResult list) \<Rightarrow> 'n RankedResult list list \<Rightarrow> 'n::linordered_field \<Rightarrow> int \<Rightarrow>
    'n RankedResult list go" where
  "RRFTopK enum srt rankings k topK =
     (let merged = RRF enum srt rankings k in
      if int (length merged) > topK then (if topK < 0 then Inl IndexOutOfRange else Inr (take (nat topK) merged)) else Inr merged)"

definition WeightedRRF ::
  "(u64 set \<Rightarrow> u64 list) \<Rightarrow> ('n RankedResult list \<Rightarrow> 'n RankedResult list) \<Rightarrow> 'n RankedResult list list \<Rightarrow> 'n list \<Rightarrow>
    'n::linordered_field \<Rightarrow> 'n RankedResult list" where
  "WeightedRRF enum srt rankings weights k =
     (let weights = (if length weights \<noteq> length rankings then replicate (length rankings) 1 else weights) in
      srt (merged_results enum (list_loop (default_k k) (zip weights rankings) Map.empty)))"

subsection \<open>The fused score\<close>

definition contribution :: "'n::linordered_field \<Rightarrow> 'n \<Rightarrow> 'n RankedResult list \<Rightarrow> u64 \<Rightarrow> 'n" where
  \<comment> \<open>what a list adds to the score of an identifier, for each of its ranks, counted from 1\<close>
  "contribution k w rs i = (\<Sum>r | r < length rs \<and> ID (rs ! r) = i. w / (k + of_nat (r + 1)))"

lemma contribution_snoc:
  "contribution k w (rs @ [x]) i = contribution k w rs i + (if ID x = i then w / (k + of_nat (length rs + 1)) else 0)"
proof -
  have "{r. r < length (rs @ [x]) \<and> ID ((rs @ [x]) ! r) = i} =
    {r. r < length rs \<and> ID (rs ! r) = i} \<union> (if ID x = i then {length rs} else {})"
    by (auto simp: nth_append less_Suc_eq split: if_splits)
  then show ?thesis unfolding contribution_def by (auto intro!: sum.cong simp: nth_append)
qed

lemma rank_loop_append:
  "rank_loop w k n (xs @ ys) s = rank_loop w k (n + length xs) ys (rank_loop w k n xs s)"
  by (induction xs arbitrary: n s) auto

lemma rank_loop_scores:
  "map_get 0 (rank_loop w k 0 rs s) i = map_get 0 s i + contribution k w rs i \<and>
   dom (rank_loop w k 0 rs s) = dom s \<union> ID ` set rs"
proof (induction rs rule: rev_induct)
  case (snoc x rs)
  have e: "rank_loop w k 0 (rs @ [x]) s = (rank_loop w k 0 rs s)(ID x \<mapsto>
    map_get 0 (rank_loop w k 0 rs s) (ID x) + w / (k + of_nat (length rs + 1)))"
    by (simp only: rank_loop_append rank_loop.simps add_0)
  show ?case
  proof
    show "map_get 0 (rank_loop w k 0 (rs @ [x]) s) i = map_get 0 s i + contribution k w (rs @ [x]) i"
      using snoc [THEN conjunct1] unfolding e contribution_snoc map_get_upd by (cases "i = ID x") (simp_all del: of_nat_add)
    show "dom (rank_loop w k 0 (rs @ [x]) s) = dom s \<union> ID ` set (rs @ [x])"
      using snoc [THEN conjunct2] unfolding e dom_fun_upd by simp
  qed
qed (simp add: contribution_def)

lemma list_loop_scores:
  "map_get 0 (list_loop k ws s) i = map_get 0 s i + (\<Sum>(w, rs) \<leftarrow> ws. contribution k w rs i) \<and>
   dom (list_loop k ws s) = dom s \<union> (\<Union>(w, rs) \<in> set ws. ID ` set rs)"
proof (induction ws arbitrary: s)
  case (Cons x ws)
  obtain w rs where x: "x = (w, rs)" by (cases x)
  show ?case using Cons.IH [of "rank_loop w k 0 rs s"] rank_loop_scores [of w k rs s] by (auto simp: x)
qed simp

lemma merged_results_facts:
  fixes s :: "u64 \<rightharpoonup> 'n::linordered_field"
  assumes "enumerates enum" "slice_sorter (\<lambda>a b. Score a > Score b) srt" "finite (dom s)"
  shows "distinct (map ID (srt (merged_results enum s)))" "set (map ID (srt (merged_results enum s))) = dom s"
    "sorted_wrt (\<lambda>a b. Score a \<ge> Score b) (srt (merged_results enum s))"
    "r \<in> set (srt (merged_results enum s)) \<Longrightarrow> Score r = map_get 0 s (ID r)"
proof -
  have en: "set (enum (dom s)) = dom s" "distinct (enum (dom s))" using assms(1,3) by (auto simp: enumerates_def)
  have ids: "map ID (merged_results enum s) = enum (dom s)" by (simp add: merged_results_def comp_def)
  have ms: "mset (srt (merged_results enum s)) = mset (merged_results enum s)" using assms(2) by (simp add: slice_sorter_def)
  then have "mset (map ID (srt (merged_results enum s))) = mset (enum (dom s))" using ids by (metis mset_map)
  then show "distinct (map ID (srt (merged_results enum s)))" "set (map ID (srt (merged_results enum s))) = dom s"
    using en by (metis mset_eq_imp_distinct_iff, metis mset_eq_setD)
  show "sorted_wrt (\<lambda>a b. Score a \<ge> Score b) (srt (merged_results enum s))"
    using slice_sorter.sorted_srt [OF assms(2), of "merged_results enum s"] by (simp add: not_less)
  show "r \<in> set (srt (merged_results enum s)) \<Longrightarrow> Score r = map_get 0 s (ID r)"
    using mset_eq_setD [OF ms] by (auto simp: merged_results_def)
qed

text \<open>C31. Reciprocal rank fusion: the result holds every identifier of the lists exactly once, descending by
  score, and the score is the sum of the weights over \<open>k\<close> plus the rank, counted from 1, over all
  occurrences (\<open>k\<close> defaulting to 60 when not positive), whatever the map iteration order and the
  sorting; \<open>RRF\<close> is the fusion with weights 1, which \<open>WeightedRRF\<close> also uses when the numbers of
  weights and lists differ, and \<open>RRFTopK\<close> is its prefix.\<close>

theorem RRF_fuses:
  assumes "enumerates enum" "slice_sorter (\<lambda>a b. Score a > Score b) srt"
  shows "(let r = WeightedRRF enum srt rankings weights k;
      ws = (if length weights = length rankings then weights else replicate (length rankings) 1) in
     distinct (map ID r) \<and> set (map ID r) = (\<Union>rs \<in> set rankings. ID ` set rs) \<and> sorted_wrt (\<lambda>a b. Score a \<ge> Score b) r \<and>
     (\<forall>x \<in> set r. Score x = (\<Sum>(w, rs) \<leftarrow> zip ws rankings. contribution (default_k k) w rs (ID x)))) \<and>
    RRF enum srt rankings k = WeightedRRF enum srt rankings (replicate (length rankings) 1) k \<and>
    RRFTopK enum srt rankings k (int n) = Inr (take n (RRF enum srt rankings k))"
proof -
  define ws where "ws = (if length weights = length rankings then weights else replicate (length rankings) 1)"
  have lw: "length ws = length rankings" by (simp add: ws_def)
  define s where "s = list_loop (default_k k) (zip ws rankings) Map.empty"
  have sc: "map_get 0 s i = (\<Sum>(w, rs) \<leftarrow> zip ws rankings. contribution (default_k k) w rs i)" for i
    using list_loop_scores [of "default_k k" "zip ws rankings" Map.empty i] by (simp add: s_def)
  have "dom s = (\<Union>(w, rs) \<in> set (zip ws rankings). ID ` set rs)"
    using list_loop_scores [of "default_k k" "zip ws rankings" Map.empty] by (simp add: s_def)
  also have "\<dots> = (\<Union>rs \<in> snd ` set (zip ws rankings). ID ` set rs)" by force
  also have "snd ` set (zip ws rankings) = set rankings" using lw by (metis list.set_map map_snd_zip)
  finally have dm: "dom s = (\<Union>rs \<in> set rankings. ID ` set rs)" .
  have r: "WeightedRRF enum srt rankings weights k = srt (merged_results enum s)"
    by (simp add: WeightedRRF_def Let_def s_def ws_def)
  have "finite (dom s)" using dm by simp
  note M = merged_results_facts [OF assms this]
  have "RRF enum srt rankings k = WeightedRRF enum srt rankings (replicate (length rankings) 1) k"
    by (simp add: RRF_def WeightedRRF_def Let_def zip_replicate1)
  moreover have "RRFTopK enum srt rankings k (int n) = Inr (take n (RRF enum srt rankings k))"
    by (simp add: RRFTopK_def Let_def)
  ultimately show ?thesis
    unfolding Let_def ws_def [symmetric] r using M dm sc by auto
qed

theorem RRF_fuses_witness:
  "RRFTopK sorted_list_of_set (sort_desc Score) [[\<lparr>ID = 1, Score = 9\<rparr>, \<lparr>ID = 2, Score = 8\<rparr>], [\<lparr>ID = 2, Score = 5\<rparr>]] (60 :: rat) 1
     = Inr [\<lparr>ID = 2, Score = 1/62 + 1/61\<rparr>] \<and>
   RRFTopK sorted_list_of_set (sort_desc Score) [[\<lparr>ID = 1, Score = 9\<rparr>, \<lparr>ID = 2, Score = 8\<rparr>], [\<lparr>ID = 2, Score = 5\<rparr>]] (60 :: rat) (int 1)
     = Inr (take 1 (RRF sorted_list_of_set (sort_desc Score) [[\<lparr>ID = 1, Score = 9\<rparr>, \<lparr>ID = 2, Score = 8\<rparr>], [\<lparr>ID = 2, Score = 5\<rparr>]] 60))"
proof -
  have en: "enumerates (sorted_list_of_set :: u64 set \<Rightarrow> u64 list)" by (simp add: enumerates_def)
  have F: "RRFTopK sorted_list_of_set (sort_desc Score) L (60 :: rat) (int 1) = Inr (take 1 (RRF sorted_list_of_set (sort_desc Score) L 60))" for L
    using RRF_fuses [OF en desc.slice_sorter_axioms [of Score], of L "[]" 60 1] by blast
  have "list_loop (60 :: rat) [(1, [\<lparr>ID = 1, Score = 9\<rparr>, \<lparr>ID = 2, Score = 8\<rparr>]), (1, [\<lparr>ID = 2, Score = 5\<rparr>])] Map.empty
      = [1 \<mapsto> 1/61, 2 \<mapsto> 1/62 + 1/61]"
    by (simp add: fun_eq_iff)
  moreover have "sorted_list_of_set {1, 2 :: u64} = [1, 2]" by (simp add: sorted_list_of_set_insert_remove)
  ultimately have "RRF sorted_list_of_set (sort_desc Score) [[\<lparr>ID = 1, Score = 9\<rparr>, \<lparr>ID = 2, Score = 8\<rparr>], [\<lparr>ID = 2, Score = 5\<rparr>]] (60 :: rat) =
    [\<lparr>ID = 2, Score = 1/62 + 1/61\<rparr>, \<lparr>ID = 1, Score = 1/61\<rparr>]"
    by (simp add: RRF_def default_k_def merged_results_def sort_desc_def insert_commute)
  with F show ?thesis by simp
qed

end
