(* ===== verification/Sparse_Index.thy ===== *)
theory Sparse_Index
  imports Rank_Fusion
begin

section \<open>The inverted index\<close>

text \<open>
  Models \<open>internal/index/sparse/inverted.go\<close> on an ordered field, in exact arithmetic. A text is its
  list of code points; \<open>strings.ToLower\<close>, the letter-or-digit test and the logarithm are parameters.
  A loop over the entries of a map whose body changes the entries of its own key only is written
  pointwise; \<open>enum\<close> and \<open>srt\<close> are as in theory \<open>Rank_Fusion\<close>.
\<close>

type_synonym rune = nat
type_synonym word_ = "rune list"

record 'n Posting =
  DocID :: u64
  RawTF :: 'n

record 'n InvertedIndex =
  postings :: "u32 \<rightharpoonup> 'n Posting list"
  docLengths :: "u64 \<rightharpoonup> nat"
  termDF :: "u32 \<rightharpoonup> int"
  totalDocs :: int
  avgDocLen :: 'n
  vocab :: "word_ \<rightharpoonup> u32"
  nextTermID :: u32
  k1 :: 'n
  b :: 'n

record unicode =
  ToLower :: "rune list \<Rightarrow> rune list"
  letter_or_digit :: "rune \<Rightarrow> bool"

definition NewInvertedIndexWithParams :: "'n::field \<Rightarrow> 'n \<Rightarrow> 'n InvertedIndex" where
  "NewInvertedIndexWithParams k1' b' = \<lparr>postings = Map.empty, docLengths = Map.empty, termDF = Map.empty, totalDocs = 0,
     avgDocLen = 0, vocab = Map.empty, nextTermID = 0, k1 = k1', b = b'\<rparr>"

definition NewInvertedIndex :: "'n::field InvertedIndex" where
  "NewInvertedIndex = NewInvertedIndexWithParams (12 / 10) (75 / 100)"

subsection \<open>Tokens\<close>

definition runes :: "string \<Rightarrow> rune list" where
  "runes s = map of_char s"

definition utf8_len :: "rune \<Rightarrow> nat" where
  "utf8_len r = (if r < 128 then 1 else if r < 2048 then 2 else if r < 65536 then 3 else 4)"

definition byte_len :: "rune list \<Rightarrow> nat" where
  \<comment> \<open>\<open>len(w)\<close>: bytes, not code points\<close>
  "byte_len w = sum_list (map utf8_len w)"

fun FieldsFunc :: "(rune \<Rightarrow> bool) \<Rightarrow> rune list \<Rightarrow> rune list \<Rightarrow> rune list list" where
  \<comment> \<open>\<open>cur\<close> is the field being read\<close>
  "FieldsFunc sep [] cur = (if cur = [] then [] else [cur])"
| "FieldsFunc sep (r # rs) cur =
     (if sep r then (if cur = [] then FieldsFunc sep rs [] else cur # FieldsFunc sep rs [])
      else FieldsFunc sep rs (cur @ [r]))"

definition stopWords :: "word_ list" where
  "stopWords = map runes [''the'', ''is'', ''at'', ''which'', ''on'', ''a'', ''an'', ''and'', ''or'', ''but'', ''in'', ''with'',
     ''to'', ''for'', ''of'', ''it'', ''by'', ''from'', ''as'', ''be'', ''was'', ''are'', ''were'', ''been'', ''has'', ''have'',
     ''had'', ''do'', ''does'', ''did'', ''will'', ''would'', ''could'', ''should'', ''this'', ''that'', ''these'', ''those'',
     ''not'', ''no'', ''so'', ''if'', ''then'']"

definition Tokenize :: "unicode \<Rightarrow> rune list \<Rightarrow> word_ list" where
  "Tokenize u text =
     (let words = FieldsFunc (\<lambda>r. \<not> letter_or_digit u r) (ToLower u text) [] in
      filter (\<lambda>w. \<not> byte_len w < 2 \<and> w \<notin> set stopWords) words)"

subsection \<open>Operations\<close>

definition termID :: "word_ \<Rightarrow> 'n InvertedIndex \<Rightarrow> u32 \<times> 'n InvertedIndex" where
  "termID t idx =
     (case vocab idx t of Some i \<Rightarrow> (i, idx)
      | None \<Rightarrow> (nextTermID idx, idx\<lparr>vocab := (vocab idx)(t \<mapsto> nextTermID idx), nextTermID := nextTermID idx + 1\<rparr>))"

fun count_terms :: "word_ list \<Rightarrow> (u32 \<rightharpoonup> nat) \<Rightarrow> 'n InvertedIndex \<Rightarrow> (u32 \<rightharpoonup> nat) \<times> 'n InvertedIndex" where
  "count_terms [] tf idx = (tf, idx)"
| "count_terms (t # ts) tf idx =
     (case termID t idx of (tid, idx) \<Rightarrow> count_terms ts (tf(tid \<mapsto> map_get 0 tf tid + 1)) idx)"

definition AddDocument :: "unicode \<Rightarrow> u64 \<Rightarrow> rune list \<Rightarrow> 'n::field InvertedIndex \<Rightarrow> 'n InvertedIndex" where
  "AddDocument u docID text idx =
     (let terms = Tokenize u text;
          idx = idx\<lparr>docLengths := (docLengths idx)(docID \<mapsto> length terms), totalDocs := totalDocs idx + 1\<rparr> in
      case count_terms terms Map.empty idx of (tf, idx) \<Rightarrow>
        let idx = idx\<lparr>
              postings := (\<lambda>i. case tf i of None \<Rightarrow> postings idx i
                | Some freq \<Rightarrow> Some (map_get [] (postings idx) i @ [\<lparr>DocID = docID, RawTF = of_nat freq\<rparr>])),
              termDF := (\<lambda>i. case tf i of None \<Rightarrow> termDF idx i | Some _ \<Rightarrow> Some (map_get 0 (termDF idx) i + 1))\<rparr>;
            n = of_int (totalDocs idx) in
        idx\<lparr>avgDocLen := avgDocLen idx * (n - 1) / n + of_nat (length terms) / n\<rparr>)"

fun remove_first :: "u64 \<Rightarrow> 'n Posting list \<Rightarrow> 'n Posting list" where
  "remove_first docID [] = []"
| "remove_first docID (p # ps) = (if DocID p = docID then ps else p # remove_first docID ps)"

definition RemoveDocument :: "u64 \<Rightarrow> 'n::field InvertedIndex \<Rightarrow> 'n InvertedIndex" where
  "RemoveDocument docID idx =
     (if docLengths idx docID = None then idx
      else
        let hit = (\<lambda>i. docID \<in> DocID ` set (map_get [] (postings idx) i));
            df = (\<lambda>i. map_get 0 (termDF idx) i - 1);
            idx = idx\<lparr>
              postings := (\<lambda>i. if hit i then (if df i = 0 then None else Some (remove_first docID (map_get [] (postings idx) i))) else postings idx i),
              termDF := (\<lambda>i. if hit i then (if df i = 0 then None else Some (df i)) else termDF idx i)\<rparr>;
            oldLen = map_get 0 (docLengths idx) docID;
            idx = idx\<lparr>docLengths := (docLengths idx)(docID := None), totalDocs := totalDocs idx - 1\<rparr> in
        if totalDocs idx > 0
        then (let n = of_int (totalDocs idx) in idx\<lparr>avgDocLen := (avgDocLen idx * (n + 1) - of_nat oldLen) / n\<rparr>)
        else idx\<lparr>avgDocLen := 0\<rparr>)"

definition bm25Score :: "('n \<Rightarrow> 'n) \<Rightarrow> 'n::field InvertedIndex \<Rightarrow> u32 \<Rightarrow> 'n \<Rightarrow> nat \<Rightarrow> 'n" where
  "bm25Score lg idx tid rawTF docLen =
     (let df = of_int (map_get 0 (termDF idx) tid); N = of_int (totalDocs idx);
          idf = lg (1 + (N - df + 1 / 2) / (df + 1 / 2));
          tf = rawTF; dl = of_nat docLen;
          tfNorm = tf * (k1 idx + 1) / (tf + k1 idx * (1 - b idx + b idx * dl / avgDocLen idx)) in
      idf * tfNorm)"

fun score_postings :: "('n \<Rightarrow> 'n) \<Rightarrow> 'n::field InvertedIndex \<Rightarrow> u32 \<Rightarrow> 'n Posting list \<Rightarrow> (u64 \<rightharpoonup> 'n) \<Rightarrow> (u64 \<rightharpoonup> 'n)" where
  "score_postings lg idx tid [] scores = scores"
| "score_postings lg idx tid (p # ps) scores =
     (let docLen = map_get 0 (docLengths idx) (DocID p) in
      score_postings lg idx tid ps
        (scores(DocID p \<mapsto> map_get 0 scores (DocID p) + bm25Score lg idx tid (RawTF p) docLen)))"

fun score_terms :: "('n \<Rightarrow> 'n) \<Rightarrow> 'n::field InvertedIndex \<Rightarrow> word_ list \<Rightarrow> (u64 \<rightharpoonup> 'n) \<Rightarrow> (u64 \<rightharpoonup> 'n)" where
  "score_terms lg idx [] scores = scores"
| "score_terms lg idx (t # ts) scores =
     (case vocab idx t of None \<Rightarrow> score_terms lg idx ts scores
      | Some tid \<Rightarrow>
          (case postings idx tid of None \<Rightarrow> score_terms lg idx ts scores
           | Some ps \<Rightarrow> score_terms lg idx ts (score_postings lg idx tid ps scores)))"

definition sp_Search ::
  "unicode \<Rightarrow> ('n \<Rightarrow> 'n) \<Rightarrow> (u64 set \<Rightarrow> u64 list) \<Rightarrow> ('n RankedResult list \<Rightarrow> 'n RankedResult list) \<Rightarrow> rune list \<Rightarrow> int \<Rightarrow>
    'n::field InvertedIndex \<Rightarrow> 'n RankedResult list" where
  \<comment> \<open>\<open>sparse.SearchResult\<close> has the fields of \<open>RankedResult\<close>\<close>
  "sp_Search u lg enum srt query k idx =
     (if totalDocs idx = 0 \<or> k \<le> 0 then []
      else let queryTerms = Tokenize u query in
      if queryTerms = [] then []
      else let results = srt (merged_results enum (score_terms lg idx queryTerms Map.empty)) in
      if int (length results) > k then take (nat k) results else results)"

definition sp_Len :: "'n InvertedIndex \<Rightarrow> int" where
  "sp_Len idx = totalDocs idx"

definition VocabSize :: "'n InvertedIndex \<Rightarrow> nat" where
  "VocabSize idx = card (dom (vocab idx))"

subsection \<open>What the index holds\<close>

definition tids :: "'n InvertedIndex \<Rightarrow> word_ list \<Rightarrow> u32 list" where
  "tids idx ts = map (\<lambda>t. the (vocab idx t)) ts"

definition vocab_ok :: "'n InvertedIndex \<Rightarrow> bool" where
  \<comment> \<open>identifiers are given out in order, until 32 bits no longer suffice\<close>
  "vocab_ok idx \<longleftrightarrow> finite (dom (vocab idx)) \<and> (card (dom (vocab idx)) \<le> 2 ^ 32 \<longrightarrow>
     inj_on (vocab idx) (dom (vocab idx)) \<and> (\<forall>i \<in> ran (vocab idx). unat i < card (dom (vocab idx))) \<and>
     nextTermID idx = of_nat (card (dom (vocab idx))))"

definition posts_ok :: "'n::field InvertedIndex \<Rightarrow> (u64 \<rightharpoonup> word_ list) \<Rightarrow> u32 \<Rightarrow> bool" where
  "posts_ok idx D i \<longleftrightarrow> (let P = map_get [] (postings idx) i in
     distinct (map DocID P) \<and> (postings idx i = None \<longleftrightarrow> P = []) \<and> map_get 0 (termDF idx) i = int (length P) \<and>
     set P = {p. \<exists>d ts. D d = Some ts \<and> i \<in> set (tids idx ts) \<and> p = \<lparr>DocID = d, RawTF = of_nat (count_list (tids idx ts) i)\<rparr>})"

definition total_len :: "(u64 \<rightharpoonup> word_ list) \<Rightarrow> nat" where
  "total_len D = (\<Sum>d \<in> dom D. length (the (D d)))"

definition sp_inv :: "'n::linordered_field InvertedIndex \<Rightarrow> (u64 \<rightharpoonup> word_ list) \<Rightarrow> bool" where
  "sp_inv idx D \<longleftrightarrow> finite (dom D) \<and> docLengths idx = (\<lambda>d. map_option length (D d)) \<and> totalDocs idx = int (card (dom D)) \<and>
     avgDocLen idx * of_nat (card (dom D)) = of_nat (total_len D) \<and> (dom D = {} \<longrightarrow> avgDocLen idx = 0) \<and>
     (\<forall>d ts. D d = Some ts \<longrightarrow> set ts \<subseteq> dom (vocab idx)) \<and> (\<forall>i. posts_ok idx D i)"

lemma vocab_same: "\<exists>vo n. idx = idx\<lparr>vocab := vo, nextTermID := n\<rparr>"
  by (intro exI [of _ "vocab idx"] exI [of _ "nextTermID idx"]) simp

lemma termID_spec:
  assumes "termID t idx = (tid, idx1)" "vocab_ok idx"
  shows "(\<exists>vo n. idx1 = idx\<lparr>vocab := vo, nextTermID := n\<rparr>) \<and> vocab idx \<subseteq>\<^sub>m vocab idx1 \<and> vocab idx1 t = Some tid \<and> vocab_ok idx1"
proof (cases "vocab idx t")
  case (Some i)
  then have "idx1 = idx" "tid = i" using assms(1) by (simp_all add: termID_def)
  then show ?thesis using Some assms(2) vocab_same [of idx] by auto
next
  case None
  define n where "n = card (dom (vocab idx))"
  have e: "idx1 = idx\<lparr>vocab := (vocab idx)(t \<mapsto> nextTermID idx), nextTermID := nextTermID idx + 1\<rparr>" "tid = nextTermID idx"
    using assms(1) None by (auto simp: termID_def)
  have fin: "finite (dom (vocab idx))" using assms(2) by (simp add: vocab_ok_def del: fun_upd_apply)
  have nt: "t \<notin> dom (vocab idx)" using None by blast
  have c: "card (dom (vocab idx1)) = Suc n" using fin nt by (simp add: e n_def)
  have "vocab_ok idx1"
    unfolding vocab_ok_def c
  proof (intro conjI impI)
    show "finite (dom (vocab idx1))" using fin by (simp add: e)
    assume le: "Suc n \<le> 2 ^ 32"
    then have K: "inj_on (vocab idx) (dom (vocab idx))" "\<And>i. i \<in> ran (vocab idx) \<Longrightarrow> unat i < n" "nextTermID idx = of_nat n"
      using assms(2) by (auto simp: vocab_ok_def n_def)
    have un: "unat (nextTermID idx) = n" unfolding K(3) using le by (simp add: unat_of_nat)
    then have fresh: "nextTermID idx \<notin> ran (vocab idx)" using K(2) by fastforce
    then have nf: "vocab idx s \<noteq> Some (nextTermID idx)" for s by (auto simp: ran_def)
    show "inj_on (vocab idx1) (dom (vocab idx1))"
      using K(1) nf nt by (auto simp: e inj_on_def)
    show "\<forall>i \<in> ran (vocab idx1). unat i < Suc n" using K(2) un None by (auto simp: e less_SucI)
    show "nextTermID idx1 = of_nat (Suc n)" by (simp add: e K(3))
  qed
  moreover have "vocab idx \<subseteq>\<^sub>m vocab idx1" using None by (auto simp: e map_le_def)
  ultimately show ?thesis by (auto simp: e)
qed

lemma count_terms_spec:
  "count_terms ts tf idx = (tf', idx') \<Longrightarrow> vocab_ok idx \<Longrightarrow>
     (\<exists>vo n. idx' = idx\<lparr>vocab := vo, nextTermID := n\<rparr>) \<and> vocab idx \<subseteq>\<^sub>m vocab idx' \<and> set ts \<subseteq> dom (vocab idx') \<and> vocab_ok idx' \<and>
     (\<forall>i. tf' i = (if tf i = None \<and> i \<notin> set (tids idx' ts) then None else Some (map_get 0 tf i + count_list (tids idx' ts) i)))"
proof (induction ts arbitrary: tf idx)
  case Nil
  then have "idx' = idx" "tf' = tf" by simp_all
  then show ?case using vocab_same [of idx] Nil.prems(2) by (auto simp: tids_def map_get_def split: option.split)
next
  case (Cons t ts)
  obtain tid idx1 where t: "termID t idx = (tid, idx1)" by fastforce
  have rest: "count_terms ts (tf(tid \<mapsto> map_get 0 tf tid + 1)) idx1 = (tf', idx')" using Cons.prems t by simp
  have one: "(\<exists>vo n. idx1 = idx\<lparr>vocab := vo, nextTermID := n\<rparr>) \<and> vocab idx \<subseteq>\<^sub>m vocab idx1 \<and> vocab idx1 t = Some tid \<and> vocab_ok idx1"
    using termID_spec [OF t Cons.prems(2)] .
  obtain vo n vo' n' where e: "idx1 = idx\<lparr>vocab := vo, nextTermID := n\<rparr>" "idx' = idx1\<lparr>vocab := vo', nextTermID := n'\<rparr>"
    and IH: "vocab idx1 \<subseteq>\<^sub>m vocab idx'" "set ts \<subseteq> dom (vocab idx')" "vocab_ok idx'"
      "\<And>i. tf' i = (if (tf(tid \<mapsto> map_get 0 tf tid + 1)) i = None \<and> i \<notin> set (tids idx' ts) then None
        else Some (map_get 0 (tf(tid \<mapsto> map_get 0 tf tid + 1)) i + count_list (tids idx' ts) i))"
    using Cons.IH [OF rest] one by blast
  have vt: "vocab idx' t = Some tid" using one IH(1) by (metis domI map_le_def)
  have "\<exists>vo n. idx' = idx\<lparr>vocab := vo, nextTermID := n\<rparr>" using e by (intro exI [of _ vo'] exI [of _ n']) simp
  moreover have "vocab idx \<subseteq>\<^sub>m vocab idx'" using one IH(1) map_le_trans by blast
  moreover have "tf' i = (if tf i = None \<and> i \<notin> set (tids idx' (t # ts)) then None else Some (map_get 0 tf i + count_list (tids idx' (t # ts)) i))" for i
    unfolding IH(4) by (auto simp: tids_def vt)
  moreover have "set (t # ts) \<subseteq> dom (vocab idx')" using IH(2) vt by auto
  ultimately show ?case using IH(3) by blast
qed


lemma tids_mono:
  assumes "vocab idx \<subseteq>\<^sub>m vocab idx'" "set ts \<subseteq> dom (vocab idx)"
  shows "tids idx' ts = tids idx ts"
  unfolding tids_def
proof (rule map_cong)
  fix t assume "t \<in> set ts"
  then have "t \<in> dom (vocab idx)" using assms(2) by blast
  then show "the (vocab idx' t) = the (vocab idx t)" using assms(1) unfolding map_le_def by metis
qed simp

lemma sp_invD:
  assumes "sp_inv idx D"
  shows "finite (dom D)" "docLengths idx = (\<lambda>d. map_option length (D d))" "totalDocs idx = int (card (dom D))"
    "avgDocLen idx * of_nat (card (dom D)) = of_nat (total_len D)" "dom D = {} \<Longrightarrow> avgDocLen idx = 0"
    "\<And>d ts. D d = Some ts \<Longrightarrow> set ts \<subseteq> dom (vocab idx)" "\<And>i. posts_ok idx D i"
  using assms by (auto simp: sp_inv_def)

lemma AddDocument_spec:
  fixes idx :: "'n::linordered_field InvertedIndex"
  assumes inv: "sp_inv idx D" and vok: "vocab_ok idx" and new: "d \<notin> dom D"
  shows "sp_inv (AddDocument u d text idx) (D(d \<mapsto> Tokenize u text)) \<and> vocab_ok (AddDocument u d text idx) \<and>
    vocab idx \<subseteq>\<^sub>m vocab (AddDocument u d text idx) \<and> k1 (AddDocument u d text idx) = k1 idx \<and> b (AddDocument u d text idx) = b idx"
proof -
  note I = sp_invD [OF inv]
  define terms where "terms = Tokenize u text"
  define idx1 where "idx1 = idx\<lparr>docLengths := (docLengths idx)(d \<mapsto> length terms), totalDocs := totalDocs idx + 1\<rparr>"
  obtain tf idx2 where ct: "count_terms terms Map.empty idx1 = (tf, idx2)" by fastforce
  have "vocab_ok idx1" using vok by (simp add: vocab_ok_def idx1_def)
  note C = count_terms_spec [OF ct this]
  obtain vo n where e2: "idx2 = idx1\<lparr>vocab := vo, nextTermID := n\<rparr>" using C by blast
  have le: "vocab idx \<subseteq>\<^sub>m vocab idx2" and sub: "set terms \<subseteq> dom (vocab idx2)" and vok2: "vocab_ok idx2" using C by (auto simp: idx1_def)
  have tf: "tf i = (if i \<notin> set (tids idx2 terms) then None else Some (count_list (tids idx2 terms) i))" for i using C by simp
  define N :: 'n where "N = of_int (totalDocs idx2)"
  define idx3 where "idx3 = idx2\<lparr>
      postings := (\<lambda>i. case tf i of None \<Rightarrow> postings idx2 i
        | Some freq \<Rightarrow> Some (map_get [] (postings idx2) i @ [\<lparr>DocID = d, RawTF = of_nat freq\<rparr>])),
      termDF := (\<lambda>i. case tf i of None \<Rightarrow> termDF idx2 i | Some _ \<Rightarrow> Some (map_get 0 (termDF idx2) i + 1)),
      avgDocLen := avgDocLen idx2 * (N - 1) / N + of_nat (length terms) / N\<rparr>"
  have add: "AddDocument u d text idx = idx3"
    by (simp add: AddDocument_def Let_def terms_def [symmetric] idx1_def [symmetric] ct idx3_def N_def)
  have same: "postings idx2 = postings idx" "termDF idx2 = termDF idx" "avgDocLen idx2 = avgDocLen idx"
    "vocab idx3 = vocab idx2" "docLengths idx3 = (docLengths idx)(d \<mapsto> length terms)" "totalDocs idx3 = totalDocs idx + 1"
    "totalDocs idx2 = totalDocs idx + 1" "k1 idx3 = k1 idx" "b idx3 = b idx"
    by (simp_all add: idx3_def e2 idx1_def)
  have t3: "tids idx3 ts = tids idx2 ts" for ts by (simp add: tids_def same(4))
  have told: "tids idx2 ts = tids idx ts" if "D d' = Some ts" for d' ts using tids_mono [OF le] I(6) [OF that] by blast
  have cd: "card (dom (D(d \<mapsto> terms))) = Suc (card (dom D))" using I(1) new by simp
  have tl: "total_len (D(d \<mapsto> terms)) = total_len D + length terms"
  proof -
    have "total_len (D(d \<mapsto> terms)) = length terms + (\<Sum>x \<in> dom D. length (the ((D(d \<mapsto> terms)) x)))"
      unfolding total_len_def using I(1) new by simp
    also have "(\<Sum>x \<in> dom D. length (the ((D(d \<mapsto> terms)) x))) = total_len D"
      unfolding total_len_def by (rule sum.cong) (use new in auto)
    finally show ?thesis by (simp only: add.commute)
  qed
  have posts: "posts_ok idx3 (D(d \<mapsto> terms)) i" for i
  proof -
    define P where "P = map_get [] (postings idx) i"
    have P: "distinct (map DocID P)" "postings idx i = None \<longleftrightarrow> P = []" "map_get 0 (termDF idx) i = int (length P)"
      "set P = {p. \<exists>d ts. D d = Some ts \<and> i \<in> set (tids idx ts) \<and> p = \<lparr>DocID = d, RawTF = of_nat (count_list (tids idx ts) i)\<rparr>}"
      using I(7) [of i] unfolding posts_ok_def Let_def P_def by auto
    have nd: "d \<notin> DocID ` set P" unfolding P(4) using new by auto
    have old: "set P = {p. \<exists>d' ts. D d' = Some ts \<and> i \<in> set (tids idx2 ts) \<and> p = \<lparr>DocID = d', RawTF = of_nat (count_list (tids idx2 ts) i)\<rparr>}"
      unfolding P(4) using told by (metis (no_types, lifting))
    show ?thesis
    proof (cases "i \<in> set (tids idx2 terms)")
      case True
      let ?p = "\<lparr>DocID = d, RawTF = of_nat (count_list (tids idx2 terms) i)\<rparr>"
      have p3: "postings idx3 i = Some (P @ [?p])" "termDF idx3 i = Some (map_get 0 (termDF idx) i + 1)"
        using True by (simp_all add: idx3_def same tf P_def)
      have "set (P @ [?p]) = {p. \<exists>d' ts. (D(d \<mapsto> terms)) d' = Some ts \<and> i \<in> set (tids idx2 ts) \<and> p = \<lparr>DocID = d', RawTF = of_nat (count_list (tids idx2 ts) i)\<rparr>}"
        using old True new by (auto split: if_splits)
      then show ?thesis unfolding posts_ok_def t3 using P nd by (simp add: p3)
    next
      case False
      have p3: "postings idx3 i = postings idx i" "termDF idx3 i = termDF idx i" using False by (simp_all add: idx3_def same tf)
      have "set P = {p. \<exists>d' ts. (D(d \<mapsto> terms)) d' = Some ts \<and> i \<in> set (tids idx2 ts) \<and> p = \<lparr>DocID = d', RawTF = of_nat (count_list (tids idx2 ts) i)\<rparr>}"
        using old False new by (auto split: if_splits)
      then show ?thesis unfolding posts_ok_def t3 using P by (simp add: p3 map_get_def P_def [symmetric, unfolded map_get_def])
    qed
  qed
  have avg: "avgDocLen idx3 * of_nat (card (dom (D(d \<mapsto> terms)))) = of_nat (total_len (D(d \<mapsto> terms)))"
  proof -
    have N: "N = of_nat (Suc (card (dom D)))" by (simp add: N_def same(7) I(3))
    have N0: "N \<noteq> 0" unfolding N by (simp del: of_nat_Suc)
    have "avgDocLen idx3 = avgDocLen idx * (N - 1) / N + of_nat (length terms) / N" by (simp add: idx3_def same(3))
    then have "avgDocLen idx3 * N = avgDocLen idx * (N - 1) + of_nat (length terms)" using N0 by (simp add: field_simps)
    moreover have "N - 1 = of_nat (card (dom D))" by (simp add: N)
    ultimately show ?thesis unfolding cd N [symmetric] tl using I(4) by simp
  qed
  have "sp_inv idx3 (D(d \<mapsto> terms))"
    unfolding sp_inv_def
  proof (intro conjI allI impI)
    show "docLengths idx3 = (\<lambda>x. map_option length ((D(d \<mapsto> terms)) x))" by (auto simp: same(5) I(2))
    show "totalDocs idx3 = int (card (dom (D(d \<mapsto> terms))))" unfolding cd by (simp add: same(6) I(3))
    show "set ts \<subseteq> dom (vocab idx3)" if "(D(d \<mapsto> terms)) d' = Some ts" for d' ts
      using that sub I(6) [of d' ts] map_le_implies_dom_le [OF le] by (auto simp: same(4) split: if_splits)
  qed (use I(1) avg posts in simp_all)
  moreover have "vocab_ok idx3" using vok2 by (simp add: vocab_ok_def idx3_def)
  ultimately show ?thesis using le unfolding add terms_def [symmetric] by (simp add: same)
qed

lemma remove_first_spec:
  "distinct (map DocID P) \<Longrightarrow> d \<in> DocID ` set P \<Longrightarrow>
     set (remove_first d P) = {p \<in> set P. DocID p \<noteq> d} \<and> distinct (map DocID (remove_first d P)) \<and> Suc (length (remove_first d P)) = length P"
proof (induction P)
  case (Cons p P)
  show ?case
  proof (cases "DocID p = d")
    case True
    then have "d \<notin> DocID ` set P" using Cons.prems(1) by simp
    moreover have "DocID x \<noteq> d" if "x \<in> set P" for x using calculation that by blast
    then have "{x \<in> set (p # P). DocID x \<noteq> d} = set P" using True by auto
    ultimately show ?thesis using True Cons.prems(1) by simp
  next
    case False
    then have IH: "set (remove_first d P) = {p \<in> set P. DocID p \<noteq> d}" "distinct (map DocID (remove_first d P))"
      "Suc (length (remove_first d P)) = length P" using Cons by auto
    then show ?thesis using False Cons.prems(1) by auto
  qed
qed simp

lemma RemoveDocument_spec:
  fixes idx :: "'n::linordered_field InvertedIndex"
  assumes inv: "sp_inv idx D"
  shows "sp_inv (RemoveDocument d idx) (D(d := None)) \<and> vocab (RemoveDocument d idx) = vocab idx \<and>
    nextTermID (RemoveDocument d idx) = nextTermID idx \<and> k1 (RemoveDocument d idx) = k1 idx \<and> b (RemoveDocument d idx) = b idx"
proof (cases "D d")
  case None
  then show ?thesis using inv sp_invD(2) [OF inv] by (simp add: RemoveDocument_def fun_upd_idem)
next
  case (Some terms)
  note I = sp_invD [OF inv]
  define P where "P i = map_get [] (postings idx) i" for i
  define hit where "hit i \<longleftrightarrow> d \<in> DocID ` set (P i)" for i
  define df where "df i = map_get 0 (termDF idx) i - 1" for i
  define N :: 'n where "N = of_int (totalDocs idx - 1)"
  define idx' where "idx' = RemoveDocument d idx"
  have dl: "docLengths idx d = Some (length terms)" using I(2) Some by simp
  have F: "postings idx' = (\<lambda>i. if hit i then (if df i = 0 then None else Some (remove_first d (P i))) else postings idx i)"
    "termDF idx' = (\<lambda>i. if hit i then (if df i = 0 then None else Some (df i)) else termDF idx i)"
    "docLengths idx' = (docLengths idx)(d := None)" "totalDocs idx' = totalDocs idx - 1" "vocab idx' = vocab idx"
    "nextTermID idx' = nextTermID idx" "k1 idx' = k1 idx" "b idx' = b idx"
    "avgDocLen idx' = (if totalDocs idx - 1 > 0 then (avgDocLen idx * (N + 1) - of_nat (length terms)) / N else 0)"
    using dl by (simp_all add: idx'_def RemoveDocument_def Let_def hit_def P_def df_def N_def fun_eq_iff)
  have t': "tids idx' ts = tids idx ts" for ts by (simp add: tids_def F(5))
  have din: "d \<in> dom D" using Some by blast
  have cd: "card (dom D) = Suc (card (dom (D(d := None))))" 
  proof -
    have "dom (D(d := None)) = dom D - {d}" by simp
    then show ?thesis using card_Suc_Diff1 [OF I(1) din] by metis
  qed
  have tl: "total_len D = total_len (D(d := None)) + length terms"
  proof -
    have "total_len D = length (the (D d)) + (\<Sum>x \<in> dom D - {d}. length (the (D x)))"
      unfolding total_len_def using I(1) din by (rule sum.remove)
    also have "(\<Sum>x \<in> dom D - {d}. length (the (D x))) = total_len (D(d := None))"
      unfolding total_len_def by (rule sum.cong) auto
    finally show ?thesis using Some by simp
  qed
  have posts: "posts_ok idx' (D(d := None)) i" for i
  proof -
    have P: "distinct (map DocID (P i))" "postings idx i = None \<longleftrightarrow> P i = []" "map_get 0 (termDF idx) i = int (length (P i))"
      "set (P i) = {p. \<exists>d ts. D d = Some ts \<and> i \<in> set (tids idx ts) \<and> p = \<lparr>DocID = d, RawTF = of_nat (count_list (tids idx ts) i)\<rparr>}"
      using I(7) [of i] unfolding posts_ok_def Let_def P_def by auto
    have rest: "{p \<in> set (P i). DocID p \<noteq> d} = {p. \<exists>d' ts. (D(d := None)) d' = Some ts \<and> i \<in> set (tids idx ts) \<and>
        p = \<lparr>DocID = d', RawTF = of_nat (count_list (tids idx ts) i)\<rparr>}"
      unfolding P(4) by (auto split: if_splits)
    show ?thesis
    proof (cases "hit i")
      case True
      then have R: "set (remove_first d (P i)) = {p \<in> set (P i). DocID p \<noteq> d}" "distinct (map DocID (remove_first d (P i)))"
        "Suc (length (remove_first d (P i))) = length (P i)" using remove_first_spec [OF P(1), of d] by (auto simp: hit_def)
      have dfl: "df i = int (length (remove_first d (P i)))" using P(3) R(3) by (simp add: df_def)
      have M: "map_get [] (postings idx') i = remove_first d (P i)" "map_get 0 (termDF idx') i = df i"
        "postings idx' i = None \<longleftrightarrow> remove_first d (P i) = []"
        using True dfl by (simp_all add: F map_get_def)
      show ?thesis unfolding posts_ok_def Let_def M t' using R(1,2) dfl rest by simp
    next
      case False
      then have "{p \<in> set (P i). DocID p \<noteq> d} = set (P i)" by (auto simp: hit_def)
      moreover have "map_get [] (postings idx') i = P i" "map_get 0 (termDF idx') i = int (length (P i))" "postings idx' i = None \<longleftrightarrow> P i = []"
        using False P(2,3) by (simp_all add: F map_get_def P_def)
      ultimately show ?thesis unfolding posts_ok_def Let_def t' using P(1) rest by simp
    qed
  qed
  have Nn: "N = of_nat (card (dom (D(d := None))))" by (simp add: N_def I(3) cd)
  have avg: "avgDocLen idx' * of_nat (card (dom (D(d := None)))) = of_nat (total_len (D(d := None)))"
  proof (cases "card (dom (D(d := None))) = 0")
    case True
    moreover have e: "dom (D(d := None)) = {}" using True I(1) by simp
    moreover have "total_len (D(d := None)) = 0" unfolding total_len_def e by simp
    ultimately show ?thesis by simp
  next
    case False
    then have N0: "N \<noteq> 0" unfolding Nn by simp
    have "avgDocLen idx * (N + 1) = of_nat (total_len D)" using I(4) unfolding cd Nn by (simp add: algebra_simps)
    then have "avgDocLen idx * (N + 1) - of_nat (length terms) = of_nat (total_len (D(d := None)))" unfolding tl by simp
    moreover have "totalDocs idx - 1 > 0" using False I(3) cd by linarith
    ultimately have "avgDocLen idx' = of_nat (total_len (D(d := None))) / N" by (simp add: F(9))
    then show ?thesis unfolding Nn [symmetric] using N0 by simp
  qed
  have "sp_inv idx' (D(d := None))"
    unfolding sp_inv_def
  proof (intro conjI allI impI)
    show "docLengths idx' = (\<lambda>x. map_option length ((D(d := None)) x))" by (auto simp: F(3) I(2))
    show "totalDocs idx' = int (card (dom (D(d := None))))" using cd by (simp add: F(4) I(3))
    show "avgDocLen idx' = 0" if "dom (D(d := None)) = {}" 
    proof -
      have "card (dom (D(d := None))) = 0" using that by simp
      then have "totalDocs idx - 1 = 0" using cd I(3) by linarith
      then show ?thesis by (simp add: F(9))
    qed
    show "set ts \<subseteq> dom (vocab idx')" if "(D(d := None)) d' = Some ts" for d' ts
      using that I(6) [of d' ts] by (auto simp: F(5) split: if_splits)
  qed (use I(1) avg posts in simp_all)
  then show ?thesis unfolding idx'_def [symmetric] by (simp add: F)
qed


subsection \<open>BM25\<close>

text \<open>The reference: the score of a document from the documents alone, as the package documentation gives it.\<close>

definition term_df :: "(u64 \<rightharpoonup> word_ list) \<Rightarrow> word_ \<Rightarrow> nat" where
  "term_df D t = card {d \<in> dom D. t \<in> set (the (D d))}"

definition bm25_term :: "('n \<Rightarrow> 'n) \<Rightarrow> 'n \<Rightarrow> 'n \<Rightarrow> (u64 \<rightharpoonup> word_ list) \<Rightarrow> word_ \<Rightarrow> u64 \<Rightarrow> 'n::linordered_field" where
  "bm25_term lg k1' b' D t d =
     (let ts = the (D d); df = of_nat (term_df D t); N = of_nat (card (dom D)); tf = of_nat (count_list ts t);
          avgdl = of_nat (total_len D) / N in
      if t \<in> set ts then lg (1 + (N - df + 1 / 2) / (df + 1 / 2)) *
        (tf * (k1' + 1) / (tf + k1' * (1 - b' + b' * of_nat (length ts) / avgdl))) else 0)"

definition bm25_doc :: "('n \<Rightarrow> 'n) \<Rightarrow> 'n \<Rightarrow> 'n \<Rightarrow> (u64 \<rightharpoonup> word_ list) \<Rightarrow> word_ list \<Rightarrow> u64 \<Rightarrow> 'n::linordered_field" where
  "bm25_doc lg k1' b' D q d = (\<Sum>t \<leftarrow> q. bm25_term lg k1' b' D t d)"

definition matching :: "(u64 \<rightharpoonup> word_ list) \<Rightarrow> word_ list \<Rightarrow> u64 set" where
  "matching D q = {d \<in> dom D. set q \<inter> set (the (D d)) \<noteq> {}}"

lemma count_list_map_inj:
  "inj_on f S \<Longrightarrow> set xs \<subseteq> S \<Longrightarrow> x \<in> S \<Longrightarrow> count_list (map f xs) (f x) = count_list xs x"
  by (induction xs) (auto simp: inj_on_def)

lemma tid_of_term:
  assumes "vocab_ok idx" "card (dom (vocab idx)) \<le> 2 ^ 32" "vocab idx t = Some i" "set ts \<subseteq> dom (vocab idx)"
  shows "count_list (tids idx ts) i = count_list ts t" "i \<in> set (tids idx ts) \<longleftrightarrow> t \<in> set ts"
proof -
  have inj: "inj_on (vocab idx) (dom (vocab idx))" using assms(1,2) by (simp add: vocab_ok_def del: fun_upd_apply)
  have "inj_on (\<lambda>s. the (vocab idx s)) (dom (vocab idx))"
    using inj by (intro inj_onI) (metis domD inj_onD option.sel)
  then have "count_list (map (\<lambda>s. the (vocab idx s)) ts) (the (vocab idx t)) = count_list ts t"
    using assms(3,4) by (intro count_list_map_inj) auto
  then show c: "count_list (tids idx ts) i = count_list ts t" using assms(3) by (simp add: tids_def)
  show "i \<in> set (tids idx ts) \<longleftrightarrow> t \<in> set ts" using c by (metis count_list_0_iff)
qed

lemma score_postings_spec:
  "map_get 0 (score_postings lg idx i ps s) d = map_get 0 s d +
     (\<Sum>p \<leftarrow> ps. if DocID p = d then bm25Score lg idx i (RawTF p) (map_get 0 (docLengths idx) d) else 0) \<and>
   dom (score_postings lg idx i ps s) = dom s \<union> DocID ` set ps"
proof (induction ps arbitrary: s)
  case (Cons p ps)
  show ?case using Cons.IH [of "s(DocID p \<mapsto> map_get 0 s (DocID p) + bm25Score lg idx i (RawTF p) (map_get 0 (docLengths idx) (DocID p)))"]
    by (auto simp: Let_def simp del: fun_upd_apply)
qed simp

lemma sum_list_unique:
  assumes "distinct (map DocID P)" "p \<in> set P"
  shows "(\<Sum>x \<leftarrow> P. if DocID x = DocID p then f x else (0 :: 'n::comm_monoid_add)) = f p"
  using assms
proof (induction P)
  case (Cons q P)
  have z: "(\<Sum>x \<leftarrow> P. if DocID x = DocID p then f x else 0) = 0" if "DocID p \<notin> DocID ` set P"
    using that by (induction P) auto
  show ?case
  proof (cases "p = q")
    case True
    then show ?thesis using z Cons.prems(1) by simp
  next
    case False
    then have "p \<in> set P" "DocID q \<noteq> DocID p" using Cons.prems by (auto intro: rev_image_eqI)
    then show ?thesis using Cons by simp
  qed
qed simp

lemma term_score:
  fixes idx :: "'n::linordered_field InvertedIndex"
  assumes inv: "sp_inv idx D" and vok: "vocab_ok idx" "card (dom (vocab idx)) \<le> 2 ^ 32"
    and v: "vocab idx t = Some i"
  defines "P \<equiv> map_get [] (postings idx) i"
  shows "d \<in> dom D \<Longrightarrow> (\<Sum>p \<leftarrow> P. if DocID p = d then bm25Score lg idx i (RawTF p) (map_get 0 (docLengths idx) d) else 0) =
      bm25_term lg (k1 idx) (b idx) D t d"
    and "DocID ` set P = {d \<in> dom D. t \<in> set (the (D d))}"
proof -
  note I = sp_invD [OF inv]
  have P: "distinct (map DocID P)" "map_get 0 (termDF idx) i = int (length P)"
    "set P = {p. \<exists>d ts. D d = Some ts \<and> i \<in> set (tids idx ts) \<and> p = \<lparr>DocID = d, RawTF = of_nat (count_list (tids idx ts) i)\<rparr>}"
    using I(7) [of i] unfolding posts_ok_def Let_def P_def by auto
  note T = tid_of_term [OF vok v I(6)]
  have set_P: "set P = {p. \<exists>d ts. D d = Some ts \<and> t \<in> set ts \<and> p = \<lparr>DocID = d, RawTF = of_nat (count_list ts t)\<rparr>}"
    unfolding P(3) using T by (intro Collect_cong) (metis (no_types, lifting))
  show docs: "DocID ` set P = {d \<in> dom D. t \<in> set (the (D d))}"
  proof (intro equalityI subsetI)
    fix x assume "x \<in> {d \<in> dom D. t \<in> set (the (D d))}"
    then obtain ts where "D x = Some ts" "t \<in> set ts" by auto
    then have "\<lparr>DocID = x, RawTF = of_nat (count_list ts t)\<rparr> \<in> set P" unfolding set_P by blast
    then show "x \<in> DocID ` set P" by (intro image_eqI) simp_all
  qed (auto simp: set_P)
  have "length P = card (DocID ` set P)" using P(1) by (metis distinct_card length_map list.set_map)
  then have df: "map_get 0 (termDF idx) i = int (term_df D t)" using P(2) docs by (simp add: term_df_def)
  assume d: "d \<in> dom D"
  then obtain ts where ts: "D d = Some ts" by blast
  have "card (dom D) \<noteq> 0" using I(1) d by auto
  then have avg: "avgDocLen idx = of_nat (total_len D) / of_nat (card (dom D))" using I(4) by (simp add: field_simps)
  have dl: "map_get 0 (docLengths idx) d = length ts" using I(2) ts by simp
  show "(\<Sum>p \<leftarrow> P. if DocID p = d then bm25Score lg idx i (RawTF p) (map_get 0 (docLengths idx) d) else 0) =
      bm25_term lg (k1 idx) (b idx) D t d"
  proof (cases "t \<in> set ts")
    case True
    let ?p = "\<lparr>DocID = d, RawTF = of_nat (count_list ts t)\<rparr> :: 'n Posting"
    have "?p \<in> set P" unfolding set_P using ts True by blast
    from sum_list_unique [OF P(1) this, of "\<lambda>p. bm25Score lg idx i (RawTF p) (map_get 0 (docLengths idx) d)"]
    have "(\<Sum>p \<leftarrow> P. if DocID p = d then bm25Score lg idx i (RawTF p) (map_get 0 (docLengths idx) d) else 0) =
      bm25Score lg idx i (of_nat (count_list ts t)) (length ts)" by (simp add: dl)
    then show ?thesis using ts True by (simp add: bm25Score_def bm25_term_def df avg I(3) Let_def)
  next
    case False
    then have "\<forall>p \<in> set P. DocID p \<noteq> d" unfolding set_P using ts by auto
    then have "(\<Sum>p \<leftarrow> P. if DocID p = d then bm25Score lg idx i (RawTF p) (map_get 0 (docLengths idx) d) else 0) = 0"
      by (induction P) auto
    then show ?thesis using ts False by (simp add: bm25_term_def)
  qed
qed

lemma score_terms_spec:
  fixes idx :: "'n::linordered_field InvertedIndex"
  assumes inv: "sp_inv idx D" and vok: "vocab_ok idx" "card (dom (vocab idx)) \<le> 2 ^ 32"
  shows "(\<forall>d \<in> dom D. map_get 0 (score_terms lg idx q s) d = map_get 0 s d + bm25_doc lg (k1 idx) (b idx) D q d) \<and>
    dom (score_terms lg idx q s) = dom s \<union> matching D q"
proof (induction q arbitrary: s)
  case (Cons t q)
  note I = sp_invD [OF inv]
  show ?case
  proof (cases "vocab idx t")
    case None
    then have "t \<notin> set (the (D d))" if "d \<in> dom D" for d using I(6) that by fastforce
    then have "\<forall>d \<in> dom D. bm25_term lg (k1 idx) (b idx) D t d = 0" "matching D (t # q) = matching D q"
      by (auto simp: bm25_term_def Let_def matching_def)
    then show ?thesis using Cons.IH [of s] None by (simp add: bm25_doc_def)
  next
    case (Some i)
    define P where "P = map_get [] (postings idx) i"
    have e: "score_terms lg idx (t # q) s = score_terms lg idx q (score_postings lg idx i P s)"
      using Some by (cases "postings idx i") (simp_all add: P_def)
    note S = score_postings_spec [of lg idx i P s]
    note T = term_score [OF inv vok Some, folded P_def]
    have "matching D (t # q) = {d \<in> dom D. t \<in> set (the (D d))} \<union> matching D q" by (auto simp: matching_def)
    then show ?thesis unfolding e using Cons.IH [of "score_postings lg idx i P s"] S T by (auto simp: bm25_doc_def)
  qed
qed (simp add: bm25_doc_def matching_def)


subsection \<open>Runs and search\<close>

text \<open>The indexes reached by adding documents that are not indexed and removing any, with the live documents.\<close>

inductive sp_run :: "unicode \<Rightarrow> 'n::linordered_field \<Rightarrow> 'n \<Rightarrow> 'n InvertedIndex \<Rightarrow> (u64 \<rightharpoonup> word_ list) \<Rightarrow> bool"
  for u k1' b' where
  new: "sp_run u k1' b' (NewInvertedIndexWithParams k1' b') Map.empty"
| add: "sp_run u k1' b' idx D \<Longrightarrow> d \<notin> dom D \<Longrightarrow> sp_run u k1' b' (AddDocument u d body idx) (D(d \<mapsto> Tokenize u body))"
| remove: "sp_run u k1' b' idx D \<Longrightarrow> sp_run u k1' b' (RemoveDocument d idx) (D(d := None))"

lemma sp_run_inv: "sp_run u k1' b' idx D \<Longrightarrow> sp_inv idx D \<and> vocab_ok idx \<and> k1 idx = k1' \<and> b idx = b'"
proof (induction rule: sp_run.induct)
  case new
  then show ?case
    by (simp add: sp_inv_def NewInvertedIndexWithParams_def total_len_def posts_ok_def vocab_ok_def fun_eq_iff)
next
  case (add idx D d body)
  then show ?case using AddDocument_spec [of idx D d u body] by (simp del: fun_upd_apply)
next
  case (remove idx D d)
  then show ?case using RemoveDocument_spec [of idx D d] by (simp add: vocab_ok_def del: fun_upd_apply)
qed

lemma take_top:
  assumes "sorted_wrt (\<lambda>a b. f a \<ge> (f b :: 'n::linorder)) r" "x \<in> set (take n r)" "y \<in> set r" "y \<notin> set (take n r)"
  shows "f y \<le> f x"
proof -
  have "y \<in> set (drop n r)" using assms(3,4) by (metis Un_iff append_take_drop_id set_append)
  then show ?thesis using assms(1,2) by (metis append_take_drop_id sorted_wrt_append)
qed

text \<open>C30. Keyword search: after any sequence of additions of new documents and removals, in exact arithmetic
  and with fewer than \<open>2^32\<close> terms ever seen, \<open>Search\<close> for \<open>k > 0\<close> returns the \<open>k\<close> best (all, if there
  are fewer) of the live documents that contain a query term, each once, descending, with exactly the
  BM25 score computed from the live documents alone: postings, document frequencies and the running
  mean of the document length leave no trace of removed documents.\<close>

theorem sparse_search_bm25:
  assumes "sp_run u k1' b' idx D" "card (dom (vocab idx)) \<le> 2 ^ 32" "enumerates enum" "slice_sorter (\<lambda>a b. Score a > Score b) srt" "0 < k"
  shows "let q = Tokenize u query; r = sp_Search u lg enum srt query (int k) idx; score = bm25_doc lg k1' b' D q in
    distinct (map ID r) \<and> set (map ID r) \<subseteq> matching D q \<and> length r = min k (card (matching D q)) \<and>
    sorted_wrt (\<lambda>a b. Score a \<ge> Score b) r \<and> (\<forall>x \<in> set r. Score x = score (ID x)) \<and>
    (\<forall>x \<in> set r. \<forall>d \<in> matching D q - set (map ID r). score d \<le> Score x)"
proof -
  have inv: "sp_inv idx D" and vok: "vocab_ok idx" and par: "k1 idx = k1'" "b idx = b'" using sp_run_inv [OF assms(1)] by auto
  note I = sp_invD [OF inv]
  define q where "q = Tokenize u query"
  define s where "s = score_terms lg idx q Map.empty"
  define r where "r = srt (merged_results enum s)"
  have S: "\<And>d. d \<in> dom D \<Longrightarrow> map_get 0 s d = bm25_doc lg k1' b' D q d" "dom s = matching D q"
    using score_terms_spec [OF inv vok assms(2), of lg q Map.empty] par by (auto simp: s_def)
  have mD: "matching D q \<subseteq> dom D" by (auto simp: matching_def)
  then have "finite (dom s)" using S(2) I(1) finite_subset by metis
  note M = merged_results_facts [OF assms(3,4) this, folded r_def]
  have sr: "sp_Search u lg enum srt query (int k) idx = take k r"
  proof (cases "totalDocs idx = 0 \<or> q = []")
    case True
    then have "matching D q = {}" using I(1,3) by (auto simp: matching_def)
    then have "r = []" using M(2) S(2) by simp
    then show ?thesis using True by (auto simp: sp_Search_def q_def Let_def)
  next
    case False
    then show ?thesis using assms(5) by (simp add: sp_Search_def q_def [symmetric] s_def [symmetric] r_def [symmetric] Let_def)
  qed
  have sc: "Score x = bm25_doc lg k1' b' D q (ID x)" if "x \<in> set r" for x
  proof -
    have "ID x \<in> set (map ID r)" using that by simp
    then have "ID x \<in> dom s" by (simp only: M(2))
    then have "map_get 0 s (ID x) = bm25_doc lg k1' b' D q (ID x)" using S mD by blast
    with M(4) [OF that] show ?thesis by simp
  qed
  have "length r = card (matching D q)" using M(1,2) S(2) by (metis distinct_card length_map)
  then have A2: "length (take k r) = min k (card (matching D q))" by (simp add: min_def)
  have A1: "distinct (map ID (take k r))" using M(1) by (metis distinct_take take_map)
  have A3: "set (map ID (take k r)) \<subseteq> matching D q" using M(2) S(2) by (metis set_take_subset take_map)
  have A4: "sorted_wrt (\<lambda>a b. Score a \<ge> Score b) (take k r)" using M(3) by (metis append_take_drop_id sorted_wrt_append)
  have A5: "bm25_doc lg k1' b' D q d \<le> Score x" if "x \<in> set (take k r)" "d \<in> matching D q - set (map ID (take k r))" for x d
  proof -
    have "d \<in> set (map ID r)" using that(2) unfolding M(2) S(2) by blast
    then obtain y where y: "y \<in> set r" "ID y = d" by auto
    then have "y \<notin> set (take k r)" using that(2) by auto
    then show ?thesis using take_top [OF M(3) that(1) y(1)] sc [OF y(1)] y(2) by simp
  qed
  have A6: "Score x = bm25_doc lg k1' b' D q (ID x)" if "x \<in> set (take k r)" for x
    using sc that in_set_takeD by metis
  show ?thesis
    unfolding Let_def q_def [symmetric] sr 
    by (rule conjI, rule A1, rule conjI, rule A3, rule conjI, rule A2, rule conjI, rule A4, rule conjI)
      (intro ballI, erule A6, intro ballI, erule A5, assumption)
qed


definition ascii :: unicode where
  "ascii = \<lparr>ToLower = map (\<lambda>r. if 65 \<le> r \<and> r \<le> 90 then r + 32 else r),
     letter_or_digit = (\<lambda>r. 48 \<le> r \<and> r \<le> 57 \<or> 65 \<le> r \<and> r \<le> 90 \<or> 97 \<le> r \<and> r \<le> 122)\<rparr>"

lemma Tokenize_ascii: "Tokenize ascii (runes ''The Go map!'') = [runes ''go'', runes ''map'']"
  by (simp add: Tokenize_def ascii_def runes_def byte_len_def utf8_len_def stopWords_def)

definition ex_sp :: "rat InvertedIndex" where
  "ex_sp = AddDocument ascii 7 (runes ''The Go map!'') (NewInvertedIndexWithParams 1 1)"

theorem sparse_search_bm25_witness:
  "card (matching [7 \<mapsto> [runes ''go'', runes ''map'']] [runes ''go'', runes ''map'']) = 1 \<and>
   map ID (sp_Search ascii (\<lambda>x. x) sorted_list_of_set (sort_desc Score) (runes ''The Go map!'') (int 3) ex_sp) = [7]"
proof -
  have run: "sp_run ascii 1 1 ex_sp (Map.empty(7 \<mapsto> Tokenize ascii (runes ''The Go map!'')))"
    unfolding ex_sp_def by (rule sp_run.add [OF sp_run.new]) simp
  have vo: "dom (vocab ex_sp) \<subseteq> {runes ''go'', runes ''map''}"
    by (auto simp: ex_sp_def AddDocument_def Tokenize_ascii NewInvertedIndexWithParams_def termID_def Let_def split: if_splits)
  have "card (dom (vocab ex_sp)) \<le> card {runes ''go'', runes ''map''}" by (rule card_mono [OF _ vo]) simp
  also have "\<dots> \<le> 2 ^ 32" by (simp add: card_insert_if)
  finally have small: "card (dom (vocab ex_sp)) \<le> 2 ^ 32" .
  have en: "enumerates (sorted_list_of_set :: u64 set \<Rightarrow> u64 list)" by (simp add: enumerates_def)
  define r where "r = sp_Search ascii (\<lambda>x. x) sorted_list_of_set (sort_desc Score) (runes ''The Go map!'') (int 3) ex_sp"
  have m: "matching [7 \<mapsto> [runes ''go'', runes ''map'']] [runes ''go'', runes ''map''] = {7}" by (auto simp: matching_def)
  have "length r = 1" "set (map ID r) \<subseteq> {7}"
    using sparse_search_bm25 [OF run small en desc.slice_sorter_axioms [of Score], of 3 "runes ''The Go map!''" "\<lambda>x. x"]
    by (simp_all add: Let_def Tokenize_ascii m r_def)
  then have "map ID r = [7]" by (cases r) auto
  then show ?thesis by (simp add: m r_def)
qed

text \<open>Adding a document that is already indexed counts it twice and leaves a posting that removing it does not
  clear; the clients add a document only after the vector index accepted its identifier as new.\<close>

lemma sparse_readd_leaves_ghost:
  "let idx = RemoveDocument 7 (AddDocument ascii 7 (runes ''map'') (AddDocument ascii 7 (runes ''map'') (NewInvertedIndexWithParams (1 :: rat) 1))) in
   docLengths idx = Map.empty \<and> totalDocs idx = 1 \<and> map DocID (map_get [] (postings idx) 0) = [7]"
proof -
  have t: "Tokenize ascii (runes ''map'') = [runes ''map'']"
    by (simp add: Tokenize_def ascii_def runes_def byte_len_def utf8_len_def stopWords_def)
  show ?thesis
    by (simp add: AddDocument_def RemoveDocument_def t NewInvertedIndexWithParams_def termID_def Let_def fun_eq_iff)
qed

end
