(* ===== verification/Collection_Manager.thy ===== *)
theory Collection_Manager
  imports Flat_Index Where_Filter Sparse_Index Wal
begin

section \<open>The collection manager\<close>

text \<open>
  Models \<open>internal/collection/collection.go\<close> and \<open>fork.go\<close>: the operations of \<open>Manager\<close> over the
  write-ahead log of theory \<open>Wal\<close>, the inverted index of \<open>Sparse_Index\<close>, the filters of \<open>Where_Filter\<close>
  and, as records of operations, the index types (\<open>index_ops\<close>) and the system database (\<open>sysdb_ops\<close>).
  A locked operation is atomic. \<open>environment\<close> bundles these with the parameters of the components;
  \<open>order\<close> is the order in which \<open>range\<close> visits the keys of a map. Events given to the bus and the
  gossip broadcaster are collected in the state, newest last.

  Left out: the bitmap index and the searches it prunes, which only HNSW indexes have, and log output.
\<close>

record CollectionMeta =
  cm_ID :: string
  cm_TenantID :: string
  cm_DatabaseID :: string
  cm_Name :: string
  cm_Dimension :: int
  cm_Metric :: string
  cm_IndexType :: string
  cm_CreatedAt :: int
  cm_VectorCount :: int

record ('i, 'n) index_ops =
  new_flat :: "int \<Rightarrow> string \<Rightarrow> error + 'i"
  new_ivf :: "int \<Rightarrow> nat \<Rightarrow> nat \<Rightarrow> string \<Rightarrow> nat \<Rightarrow> error + 'i"
  new_hnsw :: "int \<Rightarrow> nat \<Rightarrow> nat \<Rightarrow> nat \<Rightarrow> string \<Rightarrow> error + 'i"
  new_spann :: "int \<Rightarrow> nat \<Rightarrow> nat \<Rightarrow> string \<Rightarrow> error + 'i"
  ix_Insert :: "u64 \<Rightarrow> f32 list \<Rightarrow> 'i \<Rightarrow> ('i \<times> error option) go"
  ix_Delete :: "u64 \<Rightarrow> 'i \<Rightarrow> ('i \<times> error option) go"
  ix_Search :: "f32 list \<Rightarrow> int \<Rightarrow> int \<Rightarrow> 'i \<Rightarrow> error + 'n SearchResult list"
  ix_Len :: "'i \<Rightarrow> nat"
  ix_Flush :: "'i \<Rightarrow> error option \<times> 'i"
  ix_ExportVectors :: "'i \<Rightarrow> (u64 \<times> f32 list) list option" \<comment> \<open>\<open>None\<close>: not a \<open>VectorExporter\<close>\<close>
  is_hnsw :: "'i \<Rightarrow> bool"
  hn_SetSnapshotPath :: "string \<Rightarrow> 'i \<Rightarrow> 'i"
  hn_SetSnapshotSeqID :: "u64 \<Rightarrow> 'i \<Rightarrow> 'i"
  hn_Load :: "string \<Rightarrow> error + 'i \<times> u64"
  hn_SetDistanceFunc :: "string \<Rightarrow> 'i \<Rightarrow> error option \<times> 'i"

record ('s, 'n) sysdb_ops =
  sd_ListCollections :: "'s \<Rightarrow> error + CollectionMeta list"
  sd_CreateCollection :: "string \<Rightarrow> int \<Rightarrow> string \<Rightarrow> string \<Rightarrow> 's \<Rightarrow> (error + CollectionMeta) \<times> 's"
  sd_CreateCollectionScoped :: "string \<Rightarrow> string \<Rightarrow> string \<Rightarrow> int \<Rightarrow> string \<Rightarrow> string \<Rightarrow> 's \<Rightarrow> (error + CollectionMeta) \<times> 's"
  sd_GetCollectionByName :: "string \<Rightarrow> 's \<Rightarrow> CollectionMeta option"
  sd_DeleteCollection :: "string \<Rightarrow> 's \<Rightarrow> error option \<times> 's"
  sd_DeleteCollectionScoped :: "string \<Rightarrow> string \<Rightarrow> 's \<Rightarrow> error option \<times> 's"
  sd_UpdateVectorCount :: "string \<Rightarrow> int \<Rightarrow> 's \<Rightarrow> error option \<times> 's"
  sd_AddTombstone :: "string \<Rightarrow> u64 \<Rightarrow> 's \<Rightarrow> error option \<times> 's"
  sd_RemoveTombstonesBatch :: "string \<Rightarrow> u64 list \<Rightarrow> 's \<Rightarrow> error option \<times> 's"
  sd_SaveVectorMetadata :: "string \<Rightarrow> u64 \<Rightarrow> 'n metadata \<Rightarrow> 's \<Rightarrow> error option \<times> 's"
  sd_DeleteVectorMetadata :: "string \<Rightarrow> u64 \<Rightarrow> 's \<Rightarrow> error option \<times> 's"
  sd_LoadVectorMetadataBatch :: "string \<Rightarrow> u64 list \<Rightarrow> 's \<Rightarrow> error + (u64 \<rightharpoonup> 'n metadata)"
  sd_LoadAllVectorMetadata :: "string \<Rightarrow> 's \<Rightarrow> error + (u64 \<times> 'n metadata) list"

record ('i, 'n, 'd, 's) environment =
  ix :: "('i, 'n) index_ops"
  tb :: "'d table"
  sd :: "('s, 'n) sysdb_ops"
  uc :: unicode
  utf8 :: "string \<Rightarrow> rune list"
  lgf :: "'n \<Rightarrow> 'n"
  enum :: "u64 set \<Rightarrow> u64 list"
  srt :: "'n RankedResult list \<Rightarrow> 'n RankedResult list"
  fnum :: "'n \<Rightarrow> string"
  order :: "string set \<Rightarrow> string list"

record ('i, 'n) Collection =
  meta :: CollectionMeta
  idx :: 'i
  invertedIndex :: "'n InvertedIndex"

datatype FlowEvent = EventCollectionCreated | EventVectorInserted | EventWALReplayComplete

datatype GossipEvent =
    GossipEventCreateCollection string int string string
  | GossipEventDropCollection string string

record ('i, 'n, 'd, 's) Manager =
  collections :: "string \<rightharpoonup> ('i, 'n) Collection"
  sysdb :: 's
  wal :: 'd
  flowBus :: bool
  broadcaster :: bool
  dataDir :: string
  snapshotSeqIDs :: "string \<rightharpoonup> u64"
  notified :: "FlowEvent list"
  gossiped :: "GossipEvent list"

definition Notify :: "FlowEvent \<Rightarrow> ('i, 'n, 'd, 's) Manager \<Rightarrow> ('i, 'n, 'd, 's) Manager" where
  "Notify ev m = (if flowBus m then m\<lparr>notified := notified m @ [ev]\<rparr> else m)"

definition broadcast :: "GossipEvent \<Rightarrow> ('i, 'n, 'd, 's) Manager \<Rightarrow> ('i, 'n, 'd, 's) Manager" where
  "broadcast ev m = (if broadcaster m then m\<lparr>gossiped := gossiped m @ [ev]\<rparr> else m)"

definition not_found :: error where
  "not_found = OtherError ''collection not found'' None"

definition createIndex :: "('i, 'n) index_ops \<Rightarrow> int \<Rightarrow> string \<Rightarrow> string \<Rightarrow> error + 'i" where
  "createIndex ops d metric indexType =
     (if indexType = ''flat'' then new_flat ops d metric
      else if indexType = ''ivf'' then new_ivf ops d 256 5 metric 0
      else if indexType = ''ivfpq'' then new_ivf ops d 256 5 metric 8
      else if indexType = ''hnsw'' then new_hnsw ops d 16 400 128 metric
      else if indexType = ''spann'' then new_spann ops d 256 5 metric
      else Inl (OtherError ''unsupported index type'' None))"

definition snapshotPath :: "('i, 'n, 'd, 's) Manager \<Rightarrow> string \<Rightarrow> string" where
  "snapshotPath m cid = dataDir m @ ''/snapshots/'' @ cid @ ''.hsnp''"

definition new_collection ::
  "('i, 'n::field, 'd, 's) environment \<Rightarrow> ('i, 'n, 'd, 's) Manager \<Rightarrow> CollectionMeta \<Rightarrow> 'i \<Rightarrow> ('i, 'n) Collection" where
  \<comment> \<open>the snapshot path of an HNSW index and the collection built around it\<close>
  "new_collection E m mt i = \<lparr>meta = mt,
     idx = (if is_hnsw (ix E) i \<and> dataDir m \<noteq> '''' then hn_SetSnapshotPath (ix E) (snapshotPath m (cm_ID mt)) i else i),
     invertedIndex = NewInvertedIndex\<rparr>"

subsection \<open>Creating, reading and deleting collections\<close>

definition CreateCollection ::
  "('i, 'n::field, 'd, 's) environment \<Rightarrow> string \<Rightarrow> int \<Rightarrow> string \<Rightarrow> string \<Rightarrow> ('i, 'n, 'd, 's) Manager \<Rightarrow>
    (error + CollectionMeta) \<times> ('i, 'n, 'd, 's) Manager" where
  "CreateCollection E name d metric indexType m =
     (case sd_CreateCollection (sd E) name d metric indexType (sysdb m) of
        (Inl e, s) \<Rightarrow> (Inl (OtherError ''creating'' (Some e)), m\<lparr>sysdb := s\<rparr>)
      | (Inr mt, s) \<Rightarrow>
          (case createIndex (ix E) d metric indexType of
             Inl e \<Rightarrow> (Inl (OtherError ''creating index'' (Some e)), m\<lparr>sysdb := snd (sd_DeleteCollection (sd E) (cm_ID mt) s)\<rparr>)
           | Inr i \<Rightarrow>
               (let m = m\<lparr>sysdb := s, collections := (collections m)(cm_ID mt \<mapsto> new_collection E m mt i)\<rparr> in
                (Inr mt, broadcast (GossipEventCreateCollection name d metric indexType) (Notify EventCollectionCreated m)))))"

definition CreateCollectionScoped ::
  "('i, 'n::field, 'd, 's) environment \<Rightarrow> string \<Rightarrow> string \<Rightarrow> string \<Rightarrow> int \<Rightarrow> string \<Rightarrow> string \<Rightarrow> ('i, 'n, 'd, 's) Manager \<Rightarrow>
    (error + CollectionMeta) \<times> ('i, 'n, 'd, 's) Manager" where
  "CreateCollectionScoped E tenantID databaseID name d metric indexType m =
     (case sd_CreateCollectionScoped (sd E) tenantID databaseID name d metric indexType (sysdb m) of
        (Inl e, s) \<Rightarrow> (Inl (OtherError ''creating scoped'' (Some e)), m\<lparr>sysdb := s\<rparr>)
      | (Inr mt, s) \<Rightarrow>
          (case createIndex (ix E) d metric indexType of
             Inl e \<Rightarrow> (Inl (OtherError ''creating index'' (Some e)), m\<lparr>sysdb := snd (sd_DeleteCollectionScoped (sd E) tenantID (cm_ID mt) s)\<rparr>)
           | Inr i \<Rightarrow>
               (let m = m\<lparr>sysdb := s, collections := (collections m)(cm_ID mt \<mapsto> new_collection E m mt i)\<rparr> in
                (Inr mt, broadcast (GossipEventCreateCollection name d metric indexType) (Notify EventCollectionCreated m)))))"

definition CreateCollectionRemote ::
  "('i, 'n::field, 'd, 's) environment \<Rightarrow> string \<Rightarrow> int \<Rightarrow> string \<Rightarrow> string \<Rightarrow> ('i, 'n, 'd, 's) Manager \<Rightarrow>
    error option \<times> ('i, 'n, 'd, 's) Manager" where
  \<comment> \<open>no event and no broadcast\<close>
  "CreateCollectionRemote E name d metric indexType m =
     (if sd_GetCollectionByName (sd E) name (sysdb m) \<noteq> None then (None, m)
      else case sd_CreateCollection (sd E) name d metric indexType (sysdb m) of
        (Inl e, s) \<Rightarrow> (Some (OtherError ''remote create'' (Some e)), m\<lparr>sysdb := s\<rparr>)
      | (Inr mt, s) \<Rightarrow>
          (case createIndex (ix E) d metric indexType of
             Inl e \<Rightarrow> (Some (OtherError ''remote create index'' (Some e)), m\<lparr>sysdb := snd (sd_DeleteCollection (sd E) (cm_ID mt) s)\<rparr>)
           | Inr i \<Rightarrow> (None, m\<lparr>sysdb := s, collections := (collections m)(cm_ID mt \<mapsto> new_collection E m mt i)\<rparr>)))"

definition meta_copy :: "('i, 'n) index_ops \<Rightarrow> ('i, 'n) Collection \<Rightarrow> CollectionMeta" where
  "meta_copy ops c = (meta c)\<lparr>cm_VectorCount := int (ix_Len ops (idx c))\<rparr>"

definition GetCollection :: "('i, 'n, 'd, 's) environment \<Rightarrow> string \<Rightarrow> ('i, 'n, 'd, 's) Manager \<Rightarrow> CollectionMeta option" where
  "GetCollection E cid m = map_option (meta_copy (ix E)) (collections m cid)"

definition GetCollectionScoped ::
  "('i, 'n, 'd, 's) environment \<Rightarrow> string \<Rightarrow> string \<Rightarrow> ('i, 'n, 'd, 's) Manager \<Rightarrow> CollectionMeta option" where
  "GetCollectionScoped E tenantID cid m =
     (case collections m cid of None \<Rightarrow> None
      | Some c \<Rightarrow> if cm_TenantID (meta c) \<noteq> tenantID then None else Some (meta_copy (ix E) c))"

definition list_where ::
  "('i, 'n, 'd, 's) environment \<Rightarrow> (CollectionMeta \<Rightarrow> bool) \<Rightarrow> ('i, 'n, 'd, 's) Manager \<Rightarrow> CollectionMeta list" where
  "list_where E P m =
     map (meta_copy (ix E)) (filter (\<lambda>c. P (meta c)) (map (\<lambda>cid. the (collections m cid)) (order E (dom (collections m)))))"

definition ListCollections :: "('i, 'n, 'd, 's) environment \<Rightarrow> ('i, 'n, 'd, 's) Manager \<Rightarrow> CollectionMeta list" where
  "ListCollections E = list_where E (\<lambda>_. True)"

definition ListCollectionsScoped ::
  "('i, 'n, 'd, 's) environment \<Rightarrow> string \<Rightarrow> string \<Rightarrow> ('i, 'n, 'd, 's) Manager \<Rightarrow> CollectionMeta list" where
  "ListCollectionsScoped E tenantID databaseID = list_where E (\<lambda>mt. cm_TenantID mt = tenantID \<and> cm_DatabaseID mt = databaseID)"

definition ListCollectionsForTenant ::
  "('i, 'n, 'd, 's) environment \<Rightarrow> string \<Rightarrow> ('i, 'n, 'd, 's) Manager \<Rightarrow> CollectionMeta list" where
  "ListCollectionsForTenant E tenantID = list_where E (\<lambda>mt. cm_TenantID mt = tenantID)"

definition DeleteCollection ::
  "('i, 'n, 'd, 's) environment \<Rightarrow> string \<Rightarrow> ('i, 'n, 'd, 's) Manager \<Rightarrow> error option \<times> ('i, 'n, 'd, 's) Manager" where
  "DeleteCollection E cid m =
     (case collections m cid of None \<Rightarrow> (Some not_found, m)
      | Some c \<Rightarrow>
          (let m = m\<lparr>collections := (collections m)(cid := None)\<rparr> in
           case sd_DeleteCollection (sd E) cid (sysdb m) of
             (Some e, s) \<Rightarrow> (Some e, m\<lparr>sysdb := s\<rparr>)
           | (None, s) \<Rightarrow> (None, broadcast (GossipEventDropCollection cid (cm_Name (meta c))) (m\<lparr>sysdb := s\<rparr>))))"

definition DeleteCollectionScoped ::
  "('i, 'n, 'd, 's) environment \<Rightarrow> string \<Rightarrow> string \<Rightarrow> ('i, 'n, 'd, 's) Manager \<Rightarrow> error option \<times> ('i, 'n, 'd, 's) Manager" where
  "DeleteCollectionScoped E tenantID cid m =
     (case collections m cid of None \<Rightarrow> (Some not_found, m)
      | Some c \<Rightarrow>
          if cm_TenantID (meta c) \<noteq> tenantID then (Some not_found, m)
          else
          (let m = m\<lparr>collections := (collections m)(cid := None)\<rparr> in
           case sd_DeleteCollectionScoped (sd E) tenantID cid (sysdb m) of
             (Some e, s) \<Rightarrow> (Some e, m\<lparr>sysdb := s\<rparr>)
           | (None, s) \<Rightarrow> (None, broadcast (GossipEventDropCollection cid (cm_Name (meta c))) (m\<lparr>sysdb := s\<rparr>))))"

definition DeleteCollectionRemote ::
  "('i, 'n, 'd, 's) environment \<Rightarrow> string \<Rightarrow> ('i, 'n, 'd, 's) Manager \<Rightarrow> error option \<times> ('i, 'n, 'd, 's) Manager" where
  "DeleteCollectionRemote E name m =
     (case sd_GetCollectionByName (sd E) name (sysdb m) of None \<Rightarrow> (None, m)
      | Some mt \<Rightarrow>
          (case sd_DeleteCollection (sd E) (cm_ID mt) (sysdb m) of
             (e, s) \<Rightarrow> (map_option (\<lambda>e. OtherError ''remote delete'' (Some e)) e,
               m\<lparr>collections := (collections m)(cm_ID mt := None), sysdb := s\<rparr>)))"

subsection \<open>Writing vectors\<close>

definition doc_of :: "'n metadata option list \<Rightarrow> nat \<Rightarrow> string" where
  \<comment> \<open>\<open>meta[i]["document"].(string)\<close>, empty unless all of it is there\<close>
  "doc_of metas i =
     (if i < length metas then
        (case metas ! i of None \<Rightarrow> ''''
         | Some mm \<Rightarrow> (case mm ''document'' of Some (Str s) \<Rightarrow> s | _ \<Rightarrow> ''''))
      else '''')"

fun build_ops ::
  "string \<Rightarrow> f32 list list \<Rightarrow> 'n metadata option list \<Rightarrow> (nat \<times> u64) list \<Rightarrow> (WALOp \<times> f32 list \<times> 'n metadata option) list go" where
  \<comment> \<open>the operations, with the vector and the metadata of each\<close>
  "build_ops cid vs metas [] = Inr []"
| "build_ops cid vs metas ((i, vid) # rest) =
     go_bind (get_at vs i) (\<lambda>v. go_bind (build_ops cid vs metas rest) (\<lambda>ops.
       Inr ((\<lparr>WALOp.Type = WALOpInsert, CollectionID = cid, ID = vid, Vector = Some v, Document = doc_of metas i\<rparr>, v,
              (if i < length metas then metas ! i else None)) # ops)))"

fun insert_loop ::
  "('i, 'n::field, 'd, 's) environment \<Rightarrow> (WALOp \<times> f32 list \<times> 'n metadata option) list \<Rightarrow> ('i, 'n) Collection \<Rightarrow> 's \<Rightarrow>
    (error option \<times> ('i, 'n) Collection \<times> 's) go" where
  \<comment> \<open>an error of the metadata store is only logged\<close>
  "insert_loop E [] c s = Inr (None, c, s)"
| "insert_loop E ((op, v, md) # rest) c s =
     go_bind (ix_Insert (ix E) (WALOp.ID op) v (idx c)) (\<lambda>(i, e).
       let c = c\<lparr>idx := i\<rparr> in
       case e of
         Some err \<Rightarrow> Inr (Some (OtherError ''index insert failed'' (Some err)), c, s)
       | None \<Rightarrow>
           let s = (case md of None \<Rightarrow> s
                 | Some mm \<Rightarrow> snd (sd_SaveVectorMetadata (sd E) (CollectionID op) (WALOp.ID op) mm s));
               c = (if Document op \<noteq> ''''
                 then c\<lparr>invertedIndex := AddDocument (uc E) (WALOp.ID op) (utf8 E (Document op)) (invertedIndex c)\<rparr> else c) in
           insert_loop E rest c s)"

definition set_count :: "('i, 'n, 'd, 's) environment \<Rightarrow> ('i, 'n) Collection \<Rightarrow> ('i, 'n) Collection" where
  "set_count E c = c\<lparr>meta := (meta c)\<lparr>cm_VectorCount := int (ix_Len (ix E) (idx c))\<rparr>\<rparr>"

definition InsertVectors ::
  "('i, 'n::field, 'd, 's) environment \<Rightarrow> string \<Rightarrow> u64 list \<Rightarrow> f32 list list \<Rightarrow> 'n metadata option list \<Rightarrow>
    ('i, 'n, 'd, 's) Manager \<Rightarrow> (error option \<times> ('i, 'n, 'd, 's) Manager) go" where
  "InsertVectors E cid vids vs metas m =
     (case collections m cid of None \<Rightarrow> Inr (Some not_found, m)
      | Some c \<Rightarrow>
          go_bind (build_ops cid vs metas (enumerate 0 vids)) (\<lambda>ops.
          case AppendBatch (tb E) (map fst ops) (wal m) of
            (Inl e, d) \<Rightarrow> Inr (Some (OtherError ''WAL append batch failed'' (Some e)), m\<lparr>wal := d\<rparr>)
          | (Inr _, d) \<Rightarrow>
              let s = snd (sd_RemoveTombstonesBatch (sd E) cid vids (sysdb m)) in
              go_bind (insert_loop E ops c s) (\<lambda>(e, c, s).
                case e of
                  Some err \<Rightarrow> Inr (Some err, m\<lparr>wal := d, sysdb := s, collections := (collections m)(cid \<mapsto> c)\<rparr>)
                | None \<Rightarrow>
                    let c = set_count E c;
                        s = snd (sd_UpdateVectorCount (sd E) cid (int (ix_Len (ix E) (idx c))) s) in
                    Inr (None, Notify EventVectorInserted
                      (m\<lparr>wal := d, sysdb := s, collections := (collections m)(cid \<mapsto> c)\<rparr>)))))"

definition delete_op :: "string \<Rightarrow> u64 \<Rightarrow> WALOp" where
  "delete_op cid vid = \<lparr>WALOp.Type = WALOpDelete, CollectionID = cid, ID = vid, Vector = None, Document = ''''\<rparr>"

definition DeleteVector ::
  "('i, 'n::field, 'd, 's) environment \<Rightarrow> string \<Rightarrow> u64 \<Rightarrow> ('i, 'n, 'd, 's) Manager \<Rightarrow> (error option \<times> ('i, 'n, 'd, 's) Manager) go" where
  "DeleteVector E cid vid m =
     (case collections m cid of None \<Rightarrow> Inr (Some not_found, m)
      | Some c \<Rightarrow>
          (case Append (tb E) (delete_op cid vid) (wal m) of
             (Inl e, d) \<Rightarrow> Inr (Some (OtherError ''WAL append failed'' (Some e)), m\<lparr>wal := d\<rparr>)
           | (Inr _, d) \<Rightarrow>
               go_bind (ix_Delete (ix E) vid (idx c)) (\<lambda>(i, e).
                 let c = c\<lparr>idx := i\<rparr>; m = m\<lparr>wal := d\<rparr> in
                 case e of
                   Some err \<Rightarrow> Inr (Some err, m\<lparr>collections := (collections m)(cid \<mapsto> c)\<rparr>)
                 | None \<Rightarrow>
                     let c = c\<lparr>invertedIndex := RemoveDocument vid (invertedIndex c)\<rparr>;
                         s = snd (sd_DeleteVectorMetadata (sd E) cid vid (sysdb m)) in
                     case sd_AddTombstone (sd E) cid vid s of
                       (Some err, s) \<Rightarrow>
                         Inr (Some (OtherError ''adding tombstone'' (Some err)),
                           m\<lparr>collections := (collections m)(cid \<mapsto> c), sysdb := s\<rparr>)
                     | (None, s) \<Rightarrow>
                         let c = set_count E c;
                             s = snd (sd_UpdateVectorCount (sd E) cid (int (ix_Len (ix E) (idx c))) s) in
                         Inr (None, m\<lparr>collections := (collections m)(cid \<mapsto> c), sysdb := s\<rparr>))))"

subsection \<open>Searching\<close>

definition search_width :: "int \<Rightarrow> int \<Rightarrow> int" where
  \<comment> \<open>ten times as many as asked for, at most the whole index, at least 50\<close>
  "search_width k maxK =
     (let searchK = k * 10; searchK = (if searchK > maxK then maxK else searchK) in if searchK < 50 then 50 else searchK)"

definition batch_meta ::
  "('i, 'n, 'd, 's) environment \<Rightarrow> string \<Rightarrow> u64 list \<Rightarrow> 's \<Rightarrow> u64 \<Rightarrow> 'n metadata" where
  \<comment> \<open>\<open>batchMeta[id]\<close>; after an error, which is logged, the map is nil\<close>
  "batch_meta E cid vids s vid =
     (case sd_LoadVectorMetadataBatch (sd E) cid vids s of Inl _ \<Rightarrow> Map.empty | Inr bm \<Rightarrow> map_get Map.empty bm vid)"

definition search_post ::
  "('i, 'n::linordered_field, 'd, 's) environment \<Rightarrow> string \<Rightarrow> f32 list \<Rightarrow> int \<Rightarrow> int \<Rightarrow> 'n Filter \<Rightarrow> ('i, 'n) Collection \<Rightarrow> 's \<Rightarrow>
    (error + 'n SearchResult list) go" where
  \<comment> \<open>the slow path: search wide, then filter\<close>
  "search_post E cid query k nprobe f c s =
     (case ix_Search (ix E) query (search_width k (int (ix_Len (ix E) (idx c)))) nprobe (idx c) of
        Inl e \<Rightarrow> Inr (Inl e)
      | Inr res \<Rightarrow>
          (let bm = batch_meta E cid (map SearchResult.ID res) s;
               filtered = filter (\<lambda>r. Match (fnum E) (bm (SearchResult.ID r)) f) res in
           if int (length filtered) > k then (if k < 0 then Inl IndexOutOfRange else Inr (Inr (take (nat k) filtered)))
           else Inr (Inr filtered)))"

definition SearchVectors ::
  "('i, 'n::linordered_field, 'd, 's) environment \<Rightarrow> string \<Rightarrow> f32 list \<Rightarrow> int \<Rightarrow> int \<Rightarrow> (string \<times> 'n any) list \<Rightarrow> ('i, 'n, 'd, 's) Manager \<Rightarrow>
    (error + 'n SearchResult list) go" where
  \<comment> \<open>for an index that is not a \<open>FilteredSearcher\<close>\<close>
  "SearchVectors E cid query k nprobe filterMap m =
     (case collections m cid of None \<Rightarrow> Inr (Inl not_found)
      | Some c \<Rightarrow>
          go_bind (if length filterMap > 0 then ParseFilter filterMap else Inr (Inr None)) (\<lambda>parsed.
          case parsed of
            Inl e \<Rightarrow> Inr (Inl (OtherError ''invalid filter'' (Some e)))
          | Inr None \<Rightarrow> Inr (ix_Search (ix E) query k nprobe (idx c))
          | Inr (Some f) \<Rightarrow> search_post E cid query k nprobe f c (sysdb m)))"

definition dense_rank :: "'n SearchResult \<Rightarrow> 'n RankedResult" where
  "dense_rank r = \<lparr>RankedResult.ID = SearchResult.ID r, Score = SearchResult.Score r\<rparr>"

definition fuse_top ::
  "('i, 'n::linordered_field, 'd, 's) environment \<Rightarrow> int \<Rightarrow> 'n RankedResult list \<Rightarrow> 'n RankedResult list \<Rightarrow> 'n SearchResult list go" where
  "fuse_top E topK dense sparse =
     (let fused = RRF (enum E) (srt E) [dense, sparse] 60 in
      if topK < 0 then Inl MakesliceCapOutOfRange
      else Inr (map (\<lambda>r. \<lparr>SearchResult.ID = RankedResult.ID r, Distance = 0, Score = RankedResult.Score r\<rparr>) (take (nat topK) fused)))"

definition HybridSearch ::
  "('i, 'n::linordered_field, 'd, 's) environment \<Rightarrow> string \<Rightarrow> f32 list \<Rightarrow> string \<Rightarrow> int \<Rightarrow> int \<Rightarrow> (string \<times> 'n any) list \<Rightarrow>
    ('i, 'n, 'd, 's) Manager \<Rightarrow> (error + 'n SearchResult list) go" where
  "HybridSearch E cid queryVector queryText topK nprobe filterMap m =
     (case collections m cid of None \<Rightarrow> Inr (Inl not_found)
      | Some c \<Rightarrow>
          go_bind (if length filterMap > 0 then ParseFilter filterMap else Inr (Inr None)) (\<lambda>parsed.
          case parsed of
            Inl e \<Rightarrow> Inr (Inl (OtherError ''invalid filter'' (Some e)))
          | Inr f \<Rightarrow>
              (let searchK = (case f of None \<Rightarrow> topK | Some _ \<Rightarrow> search_width topK (int (ix_Len (ix E) (idx c))));
                   sparse = sp_Search (uc E) (lgf E) (enum E) (srt E) (utf8 E queryText) searchK (invertedIndex c) in
               case ix_Search (ix E) queryVector searchK nprobe (idx c) of
                 Inl e \<Rightarrow> Inr (Inl e)
               | Inr res \<Rightarrow>
                   (let dense = map dense_rank res;
                        keep = (case f of None \<Rightarrow> (\<lambda>r. True)
                          | Some flt \<Rightarrow>
                              (let bm = batch_meta E cid (map RankedResult.ID dense @ map RankedResult.ID sparse) (sysdb m) in
                               (\<lambda>r. Match (fnum E) (bm (RankedResult.ID r)) flt))) in
                    go_bind (fuse_top E topK (filter keep dense) (filter keep sparse)) (\<lambda>rs. Inr (Inr rs))))))"

definition GetVectorsMetadata ::
  "('i, 'n, 'd, 's) environment \<Rightarrow> string \<Rightarrow> u64 list \<Rightarrow> ('i, 'n, 'd, 's) Manager \<Rightarrow> error + (u64 \<rightharpoonup> 'n metadata)" where
  "GetVectorsMetadata E cid vids m =
     (case collections m cid of None \<Rightarrow> Inl not_found | Some _ \<Rightarrow> sd_LoadVectorMetadataBatch (sd E) cid vids (sysdb m))"

subsection \<open>Start-up and snapshots\<close>

fun min_seq :: "u64 list \<Rightarrow> bool \<Rightarrow> u64 \<Rightarrow> u64" where
  "min_seq [] hasSnapshot afterSeq = afterSeq"
| "min_seq (q # qs) hasSnapshot afterSeq =
     (if \<not> hasSnapshot \<or> q < afterSeq then min_seq qs True q else min_seq qs hasSnapshot afterSeq)"

definition replay_entry ::
  "('i, 'n::field, 'd, 's) environment \<Rightarrow> WALEntry \<Rightarrow> ('i, 'n) Collection \<Rightarrow> ('i, 'n) Collection go" where
  \<comment> \<open>a failed operation, and one of unknown type, is skipped\<close>
  "replay_entry E e c =
     (let op = Op e in
      if WALOp.Type op = WALOpInsert then
        go_bind (ix_Insert (ix E) (WALOp.ID op) (case Vector op of None \<Rightarrow> [] | Some v \<Rightarrow> v) (idx c)) (\<lambda>(i, err).
          let c = c\<lparr>idx := i\<rparr> in
          if err \<noteq> None then Inr c
          else
            let c = (if Document op \<noteq> '''' then c\<lparr>invertedIndex := AddDocument (uc E) (WALOp.ID op) (utf8 E (Document op)) (invertedIndex c)\<rparr> else c) in
            Inr (if CollectionID op \<noteq> '''' then set_count E c else c))
      else if WALOp.Type op = WALOpDelete then
        go_bind (ix_Delete (ix E) (WALOp.ID op) (idx c)) (\<lambda>(i, err).
          let c = c\<lparr>idx := i\<rparr> in
          if err \<noteq> None then Inr c else Inr (c\<lparr>invertedIndex := RemoveDocument (WALOp.ID op) (invertedIndex c)\<rparr>))
      else Inr c)"

fun replay_loop ::
  "('i, 'n::field, 'd, 's) environment \<Rightarrow> (string \<rightharpoonup> u64) \<Rightarrow> WALEntry list \<Rightarrow> (string \<rightharpoonup> ('i, 'n) Collection) \<Rightarrow>
    (string \<rightharpoonup> ('i, 'n) Collection) go" where
  "replay_loop E snaps [] cols = Inr cols"
| "replay_loop E snaps (e # es) cols =
     (case cols (CollectionID (Op e)) of
        None \<Rightarrow> replay_loop E snaps es cols
      | Some c \<Rightarrow>
          if (case snaps (CollectionID (Op e)) of None \<Rightarrow> False | Some q \<Rightarrow> SeqID e \<le> q) then replay_loop E snaps es cols
          else go_bind (replay_entry E e c) (\<lambda>c. replay_loop E snaps es (cols(CollectionID (Op e) \<mapsto> c))))"

definition replayWAL ::
  "('i, 'n::field, 'd, 's) environment \<Rightarrow> ('i, 'n, 'd, 's) Manager \<Rightarrow> (error option \<times> ('i, 'n, 'd, 's) Manager) go" where
  "replayWAL E m =
     (let afterSeq = min_seq (map (\<lambda>c. the (snapshotSeqIDs m c)) (order E (dom (snapshotSeqIDs m)))) False 0 in
      go_bind (ReadFrom (tb E) afterSeq (wal m)) (\<lambda>r.
        case r of
          Inl e \<Rightarrow> Inr (Some (OtherError ''reading WAL entries'' (Some e)), m)
        | Inr es \<Rightarrow>
            if es = [] then Inr (None, m)
            else go_bind (replay_loop E (snapshotSeqIDs m) es (collections m)) (\<lambda>cols.
              Inr (None, Notify EventWALReplayComplete (m\<lparr>collections := cols\<rparr>)))))"

definition load_snapshot ::
  "('i, 'n, 'd, 's) environment \<Rightarrow> ('i, 'n, 'd, 's) Manager \<Rightarrow> CollectionMeta \<Rightarrow> 'i \<Rightarrow> 'i \<times> (string \<rightharpoonup> u64)" where
  \<comment> \<open>the index to use and the snapshot positions, the latter changed when a snapshot is loaded\<close>
  "load_snapshot E m mt i =
     (if cm_IndexType mt = ''hnsw'' \<and> dataDir m \<noteq> '''' \<and> is_hnsw (ix E) i then
        (let path = snapshotPath m (cm_ID mt); i = hn_SetSnapshotPath (ix E) path i in
         case hn_Load (ix E) path of
           Inl _ \<Rightarrow> (i, snapshotSeqIDs m)
         | Inr (loaded, seqID) \<Rightarrow>
             (case hn_SetDistanceFunc (ix E) (cm_Metric mt) loaded of
                (Some _, _) \<Rightarrow> (i, snapshotSeqIDs m)
              | (None, loaded) \<Rightarrow> (hn_SetSnapshotPath (ix E) path loaded, (snapshotSeqIDs m)(cm_ID mt \<mapsto> seqID))))
      else (i, snapshotSeqIDs m))"

fun restore_loop ::
  "('i, 'n::field, 'd, 's) environment \<Rightarrow> CollectionMeta list \<Rightarrow> ('i, 'n, 'd, 's) Manager \<Rightarrow> ('i, 'n, 'd, 's) Manager" where
  "restore_loop E [] m = m"
| "restore_loop E (mt # mts) m =
     (case createIndex (ix E) (cm_Dimension mt) (cm_Metric mt) (cm_IndexType mt) of
        Inl _ \<Rightarrow> restore_loop E mts m
      | Inr i \<Rightarrow>
          (case load_snapshot E m mt i of (i, snaps) \<Rightarrow>
             restore_loop E mts (m\<lparr>snapshotSeqIDs := snaps,
               collections := (collections m)(cm_ID mt \<mapsto> \<lparr>meta = mt, idx = i, invertedIndex = NewInvertedIndex\<rparr>)\<rparr>)))"

definition empty_manager :: "'s \<Rightarrow> 'd \<Rightarrow> bool \<Rightarrow> bool \<Rightarrow> string \<Rightarrow> ('i, 'n, 'd, 's) Manager" where
  "empty_manager s d bus br dir = \<lparr>collections = Map.empty, sysdb = s, wal = d, flowBus = bus, broadcaster = br, dataDir = dir,
     snapshotSeqIDs = Map.empty, notified = [], gossiped = []\<rparr>"

definition NewManager ::
  "('i, 'n::field, 'd, 's) environment \<Rightarrow> 's \<Rightarrow> 'd \<Rightarrow> bool \<Rightarrow> bool \<Rightarrow> string \<Rightarrow> (error + ('i, 'n, 'd, 's) Manager) go" where
  "NewManager E s d bus br dir =
     (case sd_ListCollections (sd E) s of
        Inl e \<Rightarrow> Inr (Inl (OtherError ''loading existing collections'' (Some e)))
      | Inr cols \<Rightarrow>
          go_bind (replayWAL E (restore_loop E cols (empty_manager s d bus br dir))) (\<lambda>(err, m).
            case err of
              Some e \<Rightarrow> Inr (Inl (OtherError ''WAL replay failed'' (Some e)))
            | None \<Rightarrow> Inr (Inr m)))"

fun flush_loop ::
  "('i, 'n, 'd, 's) environment \<Rightarrow> u64 \<Rightarrow> string list \<Rightarrow> error option \<Rightarrow> (string \<rightharpoonup> ('i, 'n) Collection) \<Rightarrow>
    error option \<times> (string \<rightharpoonup> ('i, 'n) Collection)" where
  "flush_loop E maxSeqID [] firstErr cols = (firstErr, cols)"
| "flush_loop E maxSeqID (cid # cids) firstErr cols =
     (case cols cid of None \<Rightarrow> flush_loop E maxSeqID cids firstErr cols
      | Some c \<Rightarrow>
          (let i = (if is_hnsw (ix E) (idx c) then hn_SetSnapshotSeqID (ix E) maxSeqID (idx c) else idx c) in
           case ix_Flush (ix E) i of (e, i) \<Rightarrow>
             flush_loop E maxSeqID cids
               (if firstErr = None then map_option (\<lambda>e. OtherError ''flush failed'' (Some e)) e else firstErr)
               (cols(cid \<mapsto> c\<lparr>idx := i\<rparr>))))"

definition Flush :: "('i, 'n, 'd, 's) environment \<Rightarrow> ('i, 'n, 'd, 's) Manager \<Rightarrow> error option \<times> ('i, 'n, 'd, 's) Manager" where
  "Flush E m =
     (let maxSeqID = (if dataDir m \<noteq> '''' then (case GetMaxSeqID (tb E) (wal m) of Inl _ \<Rightarrow> 0 | Inr q \<Rightarrow> q) else 0) in
      case flush_loop E maxSeqID (order E (dom (collections m))) None (collections m) of
        (e, cols) \<Rightarrow> (e, m\<lparr>collections := cols\<rparr>))"

definition SnapshotCollection ::
  "('i, 'n, 'd, 's) environment \<Rightarrow> string \<Rightarrow> ('i, 'n, 'd, 's) Manager \<Rightarrow> error option \<times> ('i, 'n, 'd, 's) Manager" where
  "SnapshotCollection E cid m =
     (case collections m cid of None \<Rightarrow> (Some not_found, m)
      | Some c \<Rightarrow>
          if \<not> is_hnsw (ix E) (idx c) then (None, m)
          else
          (let maxSeqID = (case GetMaxSeqID (tb E) (wal m) of Inl _ \<Rightarrow> 0 | Inr q \<Rightarrow> q) in
           case ix_Flush (ix E) (hn_SetSnapshotSeqID (ix E) maxSeqID (idx c)) of
             (e, i) \<Rightarrow> (e, m\<lparr>collections := (collections m)(cid \<mapsto> c\<lparr>idx := i\<rparr>)\<rparr>)))"

subsection \<open>Backup and fork\<close>

record 'n SnapshotExport =
  snap_Collection :: CollectionMeta
  snap_Vectors :: "(u64 \<times> f32 list) list"
  snap_Metadata :: "u64 \<rightharpoonup> 'n metadata"

definition exported :: "('i, 'n) index_ops \<Rightarrow> 'i \<Rightarrow> (u64 \<times> f32 list) list" where
  "exported ops i = (case ix_ExportVectors ops i of None \<Rightarrow> [] | Some vs \<Rightarrow> vs)"

definition ExportCollectionSnapshot ::
  "('i, 'n, 'd, 's) environment \<Rightarrow> string \<Rightarrow> ('i, 'n, 'd, 's) Manager \<Rightarrow> error + 'n SnapshotExport" where
  \<comment> \<open>an error of loading the metadata is dropped\<close>
  "ExportCollectionSnapshot E cid m =
     (case collections m cid of None \<Rightarrow> Inl not_found
      | Some c \<Rightarrow>
          (let vectors = exported (ix E) (idx c) in
           Inr \<lparr>snap_Collection = meta c, snap_Vectors = vectors,
             snap_Metadata = (case sd_LoadVectorMetadataBatch (sd E) cid (map fst vectors) (sysdb m) of Inl _ \<Rightarrow> Map.empty | Inr bm \<Rightarrow> bm)\<rparr>))"

definition RestoreCollectionSnapshot ::
  "('i, 'n::field, 'd, 's) environment \<Rightarrow> 'n SnapshotExport \<Rightarrow> ('i, 'n, 'd, 's) Manager \<Rightarrow> (error option \<times> ('i, 'n, 'd, 's) Manager) go" where
  "RestoreCollectionSnapshot E snap m =
     (let mt = snap_Collection snap in
      case CreateCollection E (cm_Name mt) (cm_Dimension mt) (cm_Metric mt) (cm_IndexType mt) m of
        (Inl e, m) \<Rightarrow> Inr (Some (OtherError ''restore: creating collection'' (Some e)), m)
      | (Inr col, m) \<Rightarrow>
          go_bind (InsertVectors E (cm_ID col) (map fst (snap_Vectors snap)) (map snd (snap_Vectors snap))
              (map (\<lambda>v. snap_Metadata snap (fst v)) (snap_Vectors snap)) m) (\<lambda>(e, m).
            Inr (map_option (\<lambda>e. OtherError ''restore: inserting vectors'' (Some e)) e, m)))"

fun fork_vectors :: "('i, 'n, 'd, 's) environment \<Rightarrow> (u64 \<times> f32 list) list \<Rightarrow> 'i \<Rightarrow> 'i go" where
  \<comment> \<open>a failed insertion is only logged\<close>
  "fork_vectors E [] i = Inr i"
| "fork_vectors E ((vid, v) # vs) i = go_bind (ix_Insert (ix E) vid v i) (\<lambda>(i, _). fork_vectors E vs i)"

definition ForkCollection ::
  "('i, 'n::field, 'd, 's) environment \<Rightarrow> string \<Rightarrow> string \<Rightarrow> ('i, 'n, 'd, 's) Manager \<Rightarrow>
    ((error + CollectionMeta) \<times> ('i, 'n, 'd, 's) Manager) go" where
  "ForkCollection E srcID newName m =
     (case collections m srcID of None \<Rightarrow> Inr (Inl not_found, m)
      | Some src \<Rightarrow>
          (let sm = meta src in
           case sd_CreateCollection (sd E) newName (cm_Dimension sm) (cm_Metric sm) (cm_IndexType sm) (sysdb m) of
             (Inl e, s) \<Rightarrow> Inr (Inl (OtherError ''fork: creating new collection'' (Some e)), m\<lparr>sysdb := s\<rparr>)
           | (Inr mt, s) \<Rightarrow>
               (case createIndex (ix E) (cm_Dimension sm) (cm_Metric sm) (cm_IndexType sm) of
                  Inl e \<Rightarrow> Inr (Inl (OtherError ''fork: creating index'' (Some e)), m\<lparr>sysdb := snd (sd_DeleteCollection (sd E) (cm_ID mt) s)\<rparr>)
                | Inr i \<Rightarrow>
                    go_bind (fork_vectors E (exported (ix E) (idx src)) i) (\<lambda>i.
                      let s = (case sd_LoadAllVectorMetadata (sd E) srcID s of Inl _ \<Rightarrow> s
                            | Inr al \<Rightarrow> fold (\<lambda>(vid, mm) s. snd (sd_SaveVectorMetadata (sd E) (cm_ID mt) vid mm s)) al s) in
                      Inr (Inr mt, m\<lparr>sysdb := s,
                        collections := (collections m)(cm_ID mt \<mapsto> \<lparr>meta = mt, idx = i, invertedIndex = NewInvertedIndex\<rparr>)\<rparr>)))))"

end
