(* ===== verification/Catalog.thy ===== *)
theory Catalog
  imports Collection_Manager
begin

section \<open>The interface of the system database\<close>

text \<open>
  What the collection manager relies on of the system database to survive a restart, as the locale
  \<open>catalog\<close>: which collections are stored (\<open>listed\<close>), which identifiers were ever given out (\<open>seen\<close>),
  and how each operation the manager calls changes them. Theory \<open>Sys_DB\<close> interprets it.
\<close>

definition core :: "CollectionMeta \<Rightarrow> CollectionMeta" where
  \<comment> \<open>all but the vector count, which is advisory\<close>
  "core mt = mt\<lparr>cm_VectorCount := 0\<rparr>"

text \<open>\<open>listed s\<close> are the collections the database holds, \<open>seen s\<close> the identifiers it ever gave out.\<close>

definition creates ::
  "('s \<Rightarrow> string \<rightharpoonup> CollectionMeta) \<Rightarrow> ('s \<Rightarrow> string set) \<Rightarrow> ('s \<Rightarrow> bool) \<Rightarrow> int \<Rightarrow> string \<Rightarrow> string \<Rightarrow> string \<Rightarrow> string \<Rightarrow> 's \<Rightarrow>
    (error + CollectionMeta) \<times> 's \<Rightarrow> bool" where
  "creates listed seen ok d metric indexType tenant name s r \<longleftrightarrow> ok (snd r) \<and>
     (case r of
        (Inl _, s') \<Rightarrow> listed s' = listed s \<and> seen s \<subseteq> seen s'
      | (Inr mt, s') \<Rightarrow> cm_ID mt \<notin> seen s \<and> cm_ID mt \<noteq> '''' \<and> insert (cm_ID mt) (seen s) \<subseteq> seen s' \<and>
          listed s' = (listed s)(cm_ID mt \<mapsto> core mt) \<and>
          cm_Dimension mt = d \<and> cm_Metric mt = metric \<and> cm_IndexType mt = indexType \<and> cm_TenantID mt = tenant \<and> cm_Name mt = name)"

definition removes ::
  "('s \<Rightarrow> string \<rightharpoonup> CollectionMeta) \<Rightarrow> ('s \<Rightarrow> string set) \<Rightarrow> ('s \<Rightarrow> bool) \<Rightarrow> string \<Rightarrow> 's \<Rightarrow> error option \<times> 's \<Rightarrow> bool" where
  "removes listed seen ok cid s r \<longleftrightarrow> ok (snd r) \<and> seen s \<subseteq> seen (snd r) \<and>
     listed (snd r) = (if fst r = None then (listed s)(cid := None) else listed s)"

definition keeps ::
  "('s \<Rightarrow> string \<rightharpoonup> CollectionMeta) \<Rightarrow> ('s \<Rightarrow> string set) \<Rightarrow> ('s \<Rightarrow> bool) \<Rightarrow> 's \<Rightarrow> 's \<Rightarrow> bool" where
  "keeps listed seen ok s s' \<longleftrightarrow> ok s' \<and> seen s \<subseteq> seen s' \<and> listed s' = listed s"

locale catalog =
  fixes S :: "('s, 'n) sysdb_ops"
    and listed :: "'s \<Rightarrow> string \<rightharpoonup> CollectionMeta"
    and seen :: "'s \<Rightarrow> string set"
    and ok :: "'s \<Rightarrow> bool"
  assumes list_ok: "ok s \<Longrightarrow> sd_ListCollections S s = Inr cols \<Longrightarrow>
      map_of (map (\<lambda>mt. (cm_ID mt, core mt)) cols) = listed s \<and> distinct (map cm_ID cols)"
    and seen_ok: "ok s \<Longrightarrow> dom (listed s) \<subseteq> seen s"
    and create_ok: "ok s \<Longrightarrow> creates listed seen ok d metric ty '''' name s (sd_CreateCollection S name d metric ty s)"
    and create_scoped_ok:
      "ok s \<Longrightarrow> creates listed seen ok d metric ty te name s (sd_CreateCollectionScoped S te db name d metric ty s)"
    and delete_ok: "ok s \<Longrightarrow> removes listed seen ok cid s (sd_DeleteCollection S cid s)"
    and delete_scoped_ok: "ok s \<Longrightarrow> removes listed seen ok cid s (sd_DeleteCollectionScoped S te cid s)"
    and count_ok: "ok s \<Longrightarrow> keeps listed seen ok s (snd (sd_UpdateVectorCount S cid n s))"
    and tombstone_ok: "ok s \<Longrightarrow> keeps listed seen ok s (snd (sd_AddTombstone S cid v s))"
    and untombstone_ok: "ok s \<Longrightarrow> keeps listed seen ok s (snd (sd_RemoveTombstonesBatch S cid vs s))"
    and save_ok: "ok s \<Longrightarrow> keeps listed seen ok s (snd (sd_SaveVectorMetadata S cid v mm s))"
    and delete_meta_ok: "ok s \<Longrightarrow> keeps listed seen ok s (snd (sd_DeleteVectorMetadata S cid v s))"

lemma keeps_refl: "ok s \<Longrightarrow> keeps listed seen ok s s"
  by (simp add: keeps_def)

lemma keeps_trans: "keeps listed seen ok s s1 \<Longrightarrow> keeps listed seen ok s1 s2 \<Longrightarrow> keeps listed seen ok s s2"
  by (auto simp: keeps_def)

end
