(* ===== verification/Manager_Recovery.thy ===== *)
theory Manager_Recovery
  imports Catalog
begin

section \<open>Recovery of the collection manager\<close>

text \<open>
  A restart rebuilds the in-memory collections from the system database and the write-ahead log. This
  theory shows that replaying the log repeats the operations the live manager executed, and with that
  that a restart loses nothing, on any database with the interface \<open>catalog\<close>.
\<close>

subsection \<open>Replaying operations\<close>

text \<open>The part of a collection the log determines, and the effect of one logged operation on it.\<close>

type_synonym ('i, 'n) content = "'i \<times> 'n InvertedIndex"

definition content_of :: "('i, 'n) Collection \<Rightarrow> ('i, 'n) content" where
  "content_of c = (idx c, invertedIndex c)"

definition rep_op :: "('i, 'n::field, 'd, 's) environment \<Rightarrow> WALOp \<Rightarrow> ('i, 'n) content \<Rightarrow> ('i, 'n) content go" where
  "rep_op E op st =
     (if WALOp.Type op = WALOpInsert then
        go_bind (ix_Insert (ix E) (WALOp.ID op) (case Vector op of None \<Rightarrow> [] | Some v \<Rightarrow> v) (fst st)) (\<lambda>(i, err).
          Inr (i, if err = None \<and> Document op \<noteq> '''' then AddDocument (uc E) (WALOp.ID op) (utf8 E (Document op)) (snd st) else snd st))
      else if WALOp.Type op = WALOpDelete then
        go_bind (ix_Delete (ix E) (WALOp.ID op) (fst st)) (\<lambda>(i, err).
          Inr (i, if err = None then RemoveDocument (WALOp.ID op) (snd st) else snd st))
      else Inr st)"

fun rep_ops :: "('i, 'n::field, 'd, 's) environment \<Rightarrow> WALOp list \<Rightarrow> ('i, 'n) content \<Rightarrow> ('i, 'n) content go" where
  "rep_ops E [] st = Inr st"
| "rep_ops E (op # ops) st = go_bind (rep_op E op st) (rep_ops E ops)"

definition ops_for :: "string \<Rightarrow> WALEntry list \<Rightarrow> WALOp list" where
  "ops_for cid es = map Op (filter (\<lambda>e. CollectionID (Op e) = cid) es)"

lemma ops_for_simps [simp]:
  "ops_for cid [] = []"
  "ops_for cid (e # es) = (if CollectionID (Op e) = cid then Op e # ops_for cid es else ops_for cid es)"
  "ops_for cid (es @ es') = ops_for cid es @ ops_for cid es'"
  by (simp_all add: ops_for_def)

lemma rep_ops_append: "rep_ops E (xs @ ys) st = go_bind (rep_ops E xs st) (rep_ops E ys)"
proof (induction xs arbitrary: st)
  case (Cons x xs)
  then show ?case by (cases "rep_op E x st") simp_all
qed simp

lemma stored_simps [simp]:
  "WALOp.Type (stored op) = WALOp.Type op" "CollectionID (stored op) = CollectionID op" "WALOp.ID (stored op) = WALOp.ID op"
  "Document (stored op) = Document op"
  by (simp_all add: stored_def)

lemma stored_vector: "(case Vector (stored op) of None \<Rightarrow> [] | Some v \<Rightarrow> v) = (case Vector op of None \<Rightarrow> [] | Some v \<Rightarrow> v)"
  by (simp add: stored_def)

lemma rep_op_stored [simp]: "rep_op E (stored op) st = rep_op E op st"
  unfolding rep_op_def stored_simps stored_vector ..


lemma core_set_count [simp]: "core (meta (set_count E c)) = core (meta c)" "content_of (set_count E c) = content_of c"
  by (simp_all add: core_def set_count_def content_of_def)

lemma replay_entry_content:
  assumes "rep_op E (Op e) (content_of c) = Inr st"
  shows "\<exists>c'. replay_entry E e c = Inr c' \<and> content_of c' = st \<and> core (meta c') = core (meta c)"
  using assms
  by (cases "WALOp.Type (Op e) = WALOpInsert"; cases "WALOp.Type (Op e) = WALOpDelete")
    (auto simp: rep_op_def replay_entry_def Let_def content_of_def core_def set_count_def split: sum.splits prod.splits option.splits
      elim!: go_bind.elims)

lemma replay_loop_content:
  assumes "\<And>cid c. cols cid = Some c \<Longrightarrow> rep_ops E (ops_for cid es) (content_of c) = Inr (st cid)"
  shows "\<exists>cols'. replay_loop E Map.empty es cols = Inr cols' \<and> dom cols' = dom cols \<and>
    (\<forall>cid c. cols cid = Some c \<longrightarrow> (\<exists>c'. cols' cid = Some c' \<and> content_of c' = st cid \<and> core (meta c') = core (meta c)))"
  using assms
proof (induction es arbitrary: cols)
  case Nil
  then show ?case by fastforce
next
  case (Cons e es)
  define k where "k = CollectionID (Op e)"
  show ?case
  proof (cases "cols k")
    case None
    have "rep_ops E (ops_for cid es) (content_of c) = Inr (st cid)" if "cols cid = Some c" for cid c
      using Cons.prems [OF that] that None by (auto simp: k_def split: if_splits)
    from Cons.IH [OF this] show ?thesis using None by (simp add: k_def)
  next
    case (Some c)
    obtain s1 where s1: "rep_op E (Op e) (content_of c) = Inr s1" "rep_ops E (ops_for k es) s1 = Inr (st k)"
      using Cons.prems [OF Some] by (cases "rep_op E (Op e) (content_of c)") (auto simp: k_def)
    obtain c1 where c1: "replay_entry E e c = Inr c1" "content_of c1 = s1" "core (meta c1) = core (meta c)"
      using replay_entry_content [OF s1(1)] by blast
    have "rep_ops E (ops_for cid es) (content_of c') = Inr (st cid)" if "(cols(k \<mapsto> c1)) cid = Some c'" for cid c'
      using that s1(2) c1(2) Cons.prems [of cid c'] by (auto simp: k_def split: if_splits)
    from Cons.IH [OF this] obtain cols' where IH: "replay_loop E Map.empty es (cols(k \<mapsto> c1)) = Inr cols'" "dom cols' = dom (cols(k \<mapsto> c1))"
      "\<forall>cid c. (cols(k \<mapsto> c1)) cid = Some c \<longrightarrow> (\<exists>c'. cols' cid = Some c' \<and> content_of c' = st cid \<and> core (meta c') = core (meta c))" by blast
    have "replay_loop E Map.empty (e # es) cols = Inr cols'" using Some c1(1) IH(1) by (simp add: k_def)
    moreover have "dom cols' = dom cols" using IH(2) Some by auto
    moreover have "\<exists>c'. cols' cid = Some c' \<and> content_of c' = st cid \<and> core (meta c') = core (meta d)" if "cols cid = Some d" for cid d
      using IH(3) that c1(3) Some by (cases "cid = k") (metis fun_upd_same option.sel, metis fun_upd_other)
    ultimately show ?thesis by blast
  qed
qed

subsection \<open>What a manager and its log agree on\<close>

lemma go_bind_Inr: "go_bind x f = Inr y \<longleftrightarrow> (\<exists>a. x = Inr a \<and> f a = Inr y)"
  by (cases x) simp_all

lemma core_simps [simp]:
  "cm_ID (core mt) = cm_ID mt" "cm_TenantID (core mt) = cm_TenantID mt" "cm_Dimension (core mt) = cm_Dimension mt"
  "cm_Metric (core mt) = cm_Metric mt" "cm_IndexType (core mt) = cm_IndexType mt" "core (core mt) = core mt"
  by (simp_all add: core_def)

lemma core_eqD:
  assumes "core x = core y"
  shows "cm_ID x = cm_ID y" "cm_Dimension x = cm_Dimension y" "cm_Metric x = cm_Metric y" "cm_IndexType x = cm_IndexType y"
  using assms by (metis core_simps)+

definition rebuilt :: "('i, 'n::field, 'd, 's) environment \<Rightarrow> WALEntry list \<Rightarrow> string \<Rightarrow> ('i, 'n) Collection \<Rightarrow> bool" where
  "rebuilt E es cid c \<longleftrightarrow> cm_ID (meta c) = cid \<and>
     (\<exists>i. createIndex (ix E) (cm_Dimension (meta c)) (cm_Metric (meta c)) (cm_IndexType (meta c)) = Inr i \<and>
       rep_ops E (ops_for cid es) (i, NewInvertedIndex) = Inr (content_of c))"

definition same_collections :: "(string \<rightharpoonup> ('i, 'n) Collection) \<Rightarrow> (string \<rightharpoonup> ('i, 'n) Collection) \<Rightarrow> bool" where
  "same_collections cols cols' \<longleftrightarrow> dom cols' = dom cols \<and>
     (\<forall>cid c. cols cid = Some c \<longrightarrow> (\<exists>c'. cols' cid = Some c' \<and> idx c' = idx c \<and> invertedIndex c' = invertedIndex c \<and> core (meta c') = core (meta c)))"

definition in_step ::
  "('i, 'n::field, 'd, 's) environment \<Rightarrow> ('s \<Rightarrow> string \<rightharpoonup> CollectionMeta) \<Rightarrow> ('s \<Rightarrow> string set) \<Rightarrow> ('s \<Rightarrow> bool) \<Rightarrow> WALEntry list \<Rightarrow> ('i, 'n, 'd, 's) Manager \<Rightarrow> bool"
  where
  \<comment> \<open>no index has a snapshot file: HNSW indexes only have one when there is a data directory\<close>
  "in_step E listed seen ok es m \<longleftrightarrow> ok (sysdb m) \<and> (dataDir m = '''' \<or> (\<forall>i. \<not> is_hnsw (ix E) i)) \<and>
     (\<forall>cid. listed (sysdb m) cid = map_option (\<lambda>c. core (meta c)) (collections m cid)) \<and>
     (\<forall>e \<in> set es. CollectionID (Op e) \<in> seen (sysdb m)) \<and> (\<forall>cid c. collections m cid = Some c \<longrightarrow> rebuilt E es cid c)"

lemma ops_for_none: "\<forall>e \<in> set es. CollectionID (Op e) \<noteq> cid \<Longrightarrow> ops_for cid es = []"
  by (simp add: ops_for_def filter_empty_conv)

lemma rebuilt_other: "rebuilt E es cid c \<Longrightarrow> \<forall>e \<in> set es'. CollectionID (Op e) \<noteq> cid \<Longrightarrow> rebuilt E (es @ es') cid c"
  by (simp add: rebuilt_def ops_for_none)

lemma rebuilt_ops:
  assumes "rebuilt E es cid c" "\<forall>e \<in> set es'. CollectionID (Op e) = cid"
    "rep_ops E (map Op es') (content_of c) = Inr (content_of c')" "core (meta c') = core (meta c)"
  shows "rebuilt E (es @ es') cid c'"
proof -
  have "ops_for cid es' = map Op es'" using assms(2) by (simp add: ops_for_def)
  then show ?thesis using assms core_eqD [OF assms(4)] by (auto simp: rebuilt_def rep_ops_append)
qed

lemma in_step_update:
  assumes "in_step E listed seen ok es m" "collections m cid = Some c" "\<forall>e \<in> set es'. CollectionID (Op e) = cid"
    "rep_ops E (map Op es') (content_of c) = Inr (content_of c')" "core (meta c') = core (meta c)"
    "dom (listed (sysdb m)) \<subseteq> seen (sysdb m)"
    "dataDir m' = dataDir m" "collections m' = (collections m)(cid \<mapsto> c')" "keeps listed seen ok (sysdb m) (sysdb m')"
  shows "in_step E listed seen ok (es @ es') m'"
proof -
  have L: "\<And>k. listed (sysdb m) k = map_option (\<lambda>c. core (meta c)) (collections m k)"
    and S: "\<forall>e \<in> set es. CollectionID (Op e) \<in> seen (sysdb m)" and R: "\<And>k c. collections m k = Some c \<Longrightarrow> rebuilt E es k c"
    using assms(1) by (auto simp: in_step_def)
  have K: "ok (sysdb m')" "seen (sysdb m) \<subseteq> seen (sysdb m')" "listed (sysdb m') = listed (sysdb m)" using assms(9) by (auto simp: keeps_def)
  have "cid \<in> seen (sysdb m)" using L [of cid] assms(2,6) by fastforce
  then have "\<forall>e \<in> set (es @ es'). CollectionID (Op e) \<in> seen (sysdb m')" using S assms(3) K(2) by auto
  moreover have "listed (sysdb m') k = map_option (\<lambda>c. core (meta c)) (collections m' k)" for k
    using L [of k] assms(2,5,8) K(3) by simp
  moreover have "rebuilt E (es @ es') k d" if "collections m' k = Some d" for k d
  proof (cases "k = cid")
    case True
    then show ?thesis using that assms(8) rebuilt_ops [OF R [OF assms(2)] assms(3-5)] by simp
  next
    case False
    then show ?thesis using that assms(3,8) R [of k d] by (auto intro: rebuilt_other)
  qed
  ultimately show ?thesis using assms(1,7) K(1) by (simp add: in_step_def)
qed

lemma in_step_same:
  assumes "in_step E listed seen ok es m" "same_collections (collections m) (collections m')" "dataDir m' = '''' \<or> (\<forall>i. \<not> is_hnsw (ix E) i)"
    "keeps listed seen ok (sysdb m) (sysdb m')"
  shows "in_step E listed seen ok es m'"
proof -
  have K: "ok (sysdb m')" "seen (sysdb m) \<subseteq> seen (sysdb m')" "listed (sysdb m') = listed (sysdb m)" using assms(4) by (auto simp: keeps_def)
  have rel: "\<exists>c. collections m k = Some c \<and> idx d = idx c \<and> invertedIndex d = invertedIndex c \<and> core (meta d) = core (meta c)"
    if "collections m' k = Some d" for k d
  proof -
    have "k \<in> dom (collections m)" using assms(2) that by (auto simp: same_collections_def)
    then obtain c where c: "collections m k = Some c" by blast
    then obtain d' where "collections m' k = Some d'" "idx d' = idx c" "invertedIndex d' = invertedIndex c" "core (meta d') = core (meta c)"
      using assms(2) unfolding same_collections_def by blast
    then show ?thesis using c that by simp
  qed
  have "rebuilt E es k d" if k: "collections m' k = Some d" for k d
  proof -
    obtain c where c: "collections m k = Some c" "content_of d = content_of c" "core (meta d) = core (meta c)"
      using rel [OF k] by (auto simp: content_of_def)
    then have "rebuilt E es k c" using assms(1) by (simp add: in_step_def)
    then show ?thesis using c(2) core_eqD [OF c(3)] by (simp add: rebuilt_def)
  qed
  moreover have "listed (sysdb m') k = map_option (\<lambda>c. core (meta c)) (collections m' k)" for k
  proof (cases "collections m' k")
    case None
    then have "collections m k = None" using assms(2) unfolding same_collections_def by blast
    then show ?thesis using assms(1) K(3) None by (simp add: in_step_def)
  next
    case (Some d)
    then show ?thesis using rel [OF Some] assms(1) K(3) by (auto simp: in_step_def)
  qed
  ultimately show ?thesis using assms(1,3) K by (auto simp: in_step_def)
qed

subsection \<open>The operations keep them in agreement\<close>

lemma build_ops_spec:
  "build_ops cid vs metas ivs = Inr ops \<Longrightarrow>
   \<forall>(op, v, md) \<in> set ops. WALOp.Type op = WALOpInsert \<and> CollectionID op = cid \<and> Vector op = Some v"
proof (induction ivs arbitrary: ops)
  case (Cons a ivs)
  obtain i vid where a: "a = (i, vid)" by fastforce
  obtain v rest where v: "get_at vs i = Inr v" "build_ops cid vs metas ivs = Inr rest"
    using Cons.prems a by (auto simp: go_bind_Inr)
  then show ?case using Cons.prems Cons.IH [OF v(2)] a by auto
qed simp

lemma insert_loop_content:
  assumes "catalog (sd E) listed seen ok"
  shows "insert_loop E ops c s = Inr (None, c', s') \<Longrightarrow> ok s \<Longrightarrow>
    \<forall>(op, v, md) \<in> set ops. WALOp.Type op = WALOpInsert \<and> CollectionID op = cid \<and> Vector op = Some v \<Longrightarrow>
    rep_ops E (map fst ops) (content_of c) = Inr (content_of c') \<and> meta c' = meta c \<and> keeps listed seen ok s s'"
proof (induction ops arbitrary: c s)
  case Nil
  then show ?case by (simp add: keeps_refl)
next
  case (Cons a ops)
  obtain op v md where a: "a = (op, v, md)" by (metis prod_cases3)
  have op: "WALOp.Type op = WALOpInsert" "CollectionID op = cid" "Vector op = Some v" using Cons.prems(3) a by auto
  obtain i where i: "ix_Insert (ix E) (WALOp.ID op) v (idx c) = Inr (i, None)"
    using Cons.prems(1) a by (auto simp: go_bind_Inr Let_def split: option.splits)
  define c1 where "c1 = (if Document op \<noteq> '''' then c\<lparr>idx := i, invertedIndex := AddDocument (uc E) (WALOp.ID op) (utf8 E (Document op)) (invertedIndex c)\<rparr>
    else c\<lparr>idx := i\<rparr>)"
  define s1 where "s1 = (case md of None \<Rightarrow> s | Some mm \<Rightarrow> snd (sd_SaveVectorMetadata (sd E) (CollectionID op) (WALOp.ID op) mm s))"
  have next1: "insert_loop E ops c1 s1 = Inr (None, c', s')"
    using Cons.prems(1) by (simp add: a i c1_def s1_def Let_def split: if_splits)
  have s1: "keeps listed seen ok s s1"
    using catalog.save_ok [OF assms Cons.prems(2)] Cons.prems(2) by (simp add: s1_def keeps_refl split: option.split)
  have "rep_op E op (content_of c) = Inr (content_of c1)" "meta c1 = meta c"
    using op i by (simp_all add: rep_op_def content_of_def c1_def)
  moreover have "ok s1" using s1 by (simp add: keeps_def)
  ultimately show ?case using Cons.IH [OF next1] Cons.prems(3) a keeps_trans [OF s1] by simp
qed

lemma insert_loop_error:
  "insert_loop E ops c s = Inr (Some e, c', s') \<Longrightarrow> \<exists>x. e = OtherError ''index insert failed'' (Some x)"
  by (induction E ops c s rule: insert_loop.induct) (auto simp: go_bind_Inr Let_def split: option.splits)

lemma ops_of_entries:
  assumes "length qs = length ops"
  shows "map Op (map2 (\<lambda>q op. \<lparr>SeqID = q, Op = stored op\<rparr>) qs ops) = map stored ops"
  using assms by (induction qs ops rule: list_induct2) simp_all

lemma rep_ops_stored [simp]: "rep_ops E (map stored ops) st = rep_ops E ops st"
proof (induction ops arbitrary: st)
  case (Cons op ops)
  then show ?case by (cases "rep_op E op st") simp_all
qed simp

lemma Notify_simps [simp]:
  "collections (Notify ev m) = collections m" "sysdb (Notify ev m) = sysdb m" "wal (Notify ev m) = wal m" "dataDir (Notify ev m) = dataDir m"
  "collections (broadcast g m) = collections m" "sysdb (broadcast g m) = sysdb m" "wal (broadcast g m) = wal m"
  "dataDir (broadcast g m) = dataDir m"
  by (simp_all add: Notify_def broadcast_def)

lemma in_step_wal:
  assumes "in_step E listed seen ok es m" "collections m' = collections m" "dataDir m' = dataDir m" "sysdb m' = sysdb m"
  shows "in_step E listed seen ok es m'"
  using assms by (simp add: in_step_def)

lemma InsertVectors_in_step:
  assumes "catalog (sd E) listed seen ok" "sqlite_table (tb E) rows seqno" "in_step E listed seen ok (map entry_of (rows (wal m))) m"
    "InsertVectors E cid vids vs metas m = Inr (r, m')" "\<And>e. r \<noteq> Some (OtherError ''index insert failed'' (Some e))"
  shows "in_step E listed seen ok (map entry_of (rows (wal m'))) m'"
proof (cases "collections m cid")
  case None
  then have "m' = m" using assms(4) by (simp add: InsertVectors_def)
  then show ?thesis using assms(3) by simp
next
  case (Some c)
  obtain ops where ops: "build_ops cid vs metas (enumerate 0 vids) = Inr ops"
    using assms(4) Some by (auto simp: InsertVectors_def elim!: go_bind.elims)
  note B = build_ops_spec [OF ops]
  obtain b d where b: "AppendBatch (tb E) (map fst ops) (wal m) = (b, d)" by fastforce
  show ?thesis
  proof (cases b)
    case (Inl e)
    then have "m' = m\<lparr>wal := d\<rparr>" "map entry_of (rows d) = map entry_of (rows (wal m))"
      using assms(4) Some ops b wal.batch_err [OF sqlite_wal [OF assms(2)]] by (auto simp: InsertVectors_def)
    then show ?thesis using assms(3) by (auto intro: in_step_wal)
  next
    case (Inr qs)
    define es where "es = map2 (\<lambda>q op. \<lparr>SeqID = q, Op = stored op\<rparr>) qs (map fst ops)"
    have qs: "length qs = length (map fst ops)" and lg: "map entry_of (rows d) = map entry_of (rows (wal m)) @ es"
      using wal.batch_ok [OF sqlite_wal [OF assms(2)], of "map fst ops" "wal m" qs d] b Inr by (auto simp: es_def)
    define s where "s = snd (sd_RemoveTombstonesBatch (sd E) cid vids (sysdb m))"
    have s: "keeps listed seen ok (sysdb m) s"
      using catalog.untombstone_ok [OF assms(1)] assms(3) by (simp add: s_def in_step_def)
    have res: "go_bind (insert_loop E ops c s) (\<lambda>(e, c, s).
                case e of
                  Some err \<Rightarrow> Inr (Some err, m\<lparr>wal := d, sysdb := s, collections := (collections m)(cid \<mapsto> c)\<rparr>)
                | None \<Rightarrow>
                    let c = set_count E c;
                        s = snd (sd_UpdateVectorCount (sd E) cid (int (ix_Len (ix E) (idx c))) s) in
                    Inr (None, Notify EventVectorInserted
                      (m\<lparr>wal := d, sysdb := s, collections := (collections m)(cid \<mapsto> c)\<rparr>))) = Inr (r, m')"
      using assms(4) Some ops b Inr by (simp add: InsertVectors_def s_def)
    obtain e c1 s1 where loop: "insert_loop E ops c s = Inr (e, c1, s1)" using res by (auto elim!: go_bind.elims)
    have "e = None" using insert_loop_error [of E ops c s _ c1 s1] loop res assms(5) by (cases e) auto
    then have m': "wal m' = d" "collections m' = (collections m)(cid \<mapsto> set_count E c1)" "dataDir m' = dataDir m"
      "sysdb m' = snd (sd_UpdateVectorCount (sd E) cid (int (ix_Len (ix E) (idx (set_count E c1)))) s1)"
      using res loop by (auto simp: Let_def)
    have C: "rep_ops E (map fst ops) (content_of c) = Inr (content_of c1)" "meta c1 = meta c" "keeps listed seen ok s s1"
      using insert_loop_content [OF assms(1) _ _ B] loop \<open>e = None\<close> s by (simp_all add: keeps_def)
    have "keeps listed seen ok s1 (sysdb m')"
      unfolding m'(4) by (rule catalog.count_ok [OF assms(1)]) (use C(3) in \<open>simp add: keeps_def\<close>)
    then have K: "keeps listed seen ok (sysdb m) (sysdb m')" using keeps_trans [OF s] keeps_trans [OF C(3)] by blast
    have okm: "ok (sysdb m)" using assms(3) by (simp add: in_step_def)
    have cid: "\<forall>e \<in> set es. CollectionID (Op e) = cid"
      using B by (fastforce simp: es_def dest!: set_zip_rightD)
    show ?thesis
      unfolding m'(1) lg
    proof (rule in_step_update [OF assms(3) Some cid])
      show "rep_ops E (map Op es) (content_of c) = Inr (content_of (set_count E c1))"
        unfolding es_def ops_of_entries [OF qs] rep_ops_stored using C(1) by simp
    qed (use m'(2,3) C(2) K catalog.seen_ok [OF assms(1) okm] in simp_all)
  qed
qed

lemma DeleteVector_in_step:
  assumes "catalog (sd E) listed seen ok" "sqlite_table (tb E) rows seqno" "in_step E listed seen ok (map entry_of (rows (wal m))) m"
    "DeleteVector E cid vid m = Inr (r, m')"
  shows "in_step E listed seen ok (map entry_of (rows (wal m'))) m'"
proof (cases "collections m cid")
  case None
  then have "m' = m" using assms(4) by (simp add: DeleteVector_def)
  then show ?thesis using assms(3) by simp
next
  case (Some c)
  obtain b d where b: "Append (tb E) (delete_op cid vid) (wal m) = (b, d)" by fastforce
  show ?thesis
  proof (cases b)
    case (Inl e)
    then have "m' = m\<lparr>wal := d\<rparr>" "map entry_of (rows d) = map entry_of (rows (wal m))"
      using assms(4) Some b wal.append_err [OF sqlite_wal [OF assms(2)]] by (auto simp: DeleteVector_def)
    then show ?thesis using assms(3) by (auto intro: in_step_wal)
  next
    case (Inr q)
    define e where "e = \<lparr>SeqID = q, Op = stored (delete_op cid vid)\<rparr>"
    have lg: "map entry_of (rows d) = map entry_of (rows (wal m)) @ [e]"
      using wal.append_ok [OF sqlite_wal [OF assms(2)], of "delete_op cid vid" "wal m" q d] b Inr by (simp add: e_def)
    have okm: "ok (sysdb m)" using assms(3) by (simp add: in_step_def)
    obtain i er where i: "ix_Delete (ix E) vid (idx c) = Inr (i, er)"
      using assms(4) Some b Inr by (auto simp: DeleteVector_def go_bind_Inr)
    define c1 where "c1 = (if er = None then c\<lparr>idx := i, invertedIndex := RemoveDocument vid (invertedIndex c)\<rparr> else c\<lparr>idx := i\<rparr>)"
    have c1: "rep_ops E [delete_op cid vid] (content_of c) = Inr (content_of c1)" "core (meta c1) = core (meta c)"
      using i by (simp_all add: delete_op_def rep_op_def WALOpInsert_def WALOpDelete_def content_of_def c1_def)
    obtain c2 where m': "wal m' = d" "collections m' = (collections m)(cid \<mapsto> c2)" "c2 = c1 \<or> c2 = set_count E c1" "dataDir m' = dataDir m"
      "keeps listed seen ok (sysdb m) (sysdb m')"
    proof (cases er)
      case (Some x)
      then have "m' = m\<lparr>wal := d, collections := (collections m)(cid \<mapsto> c1)\<rparr>"
        using assms(4) \<open>collections m cid = Some c\<close> b Inr i Some by (auto simp: DeleteVector_def Let_def c1_def)
      then show ?thesis using that okm by (simp add: keeps_refl)
    next
      case None
      define s where "s = snd (sd_DeleteVectorMetadata (sd E) cid vid (sysdb m))"
      obtain t s1 where t: "sd_AddTombstone (sd E) cid vid s = (t, s1)" by fastforce
      have s: "keeps listed seen ok (sysdb m) s" unfolding s_def by (rule catalog.delete_meta_ok [OF assms(1) okm])
      have "keeps listed seen ok s s1"
        using catalog.tombstone_ok [OF assms(1), of s cid vid] s t by (simp add: keeps_def)
      then have s1: "keeps listed seen ok (sysdb m) s1" by (rule keeps_trans [OF s])
      then have "keeps listed seen ok s1 (snd (sd_UpdateVectorCount (sd E) cid n s1))" for n
        by (intro catalog.count_ok [OF assms(1)]) (simp add: keeps_def)
      then have s2: "keeps listed seen ok (sysdb m) (snd (sd_UpdateVectorCount (sd E) cid n s1))" for n by (rule keeps_trans [OF s1])
      have "m' = (case t of Some _ \<Rightarrow> m\<lparr>wal := d, collections := (collections m)(cid \<mapsto> c1), sysdb := s1\<rparr>
        | None \<Rightarrow> m\<lparr>wal := d, collections := (collections m)(cid \<mapsto> set_count E c1),
            sysdb := snd (sd_UpdateVectorCount (sd E) cid (int (ix_Len (ix E) (idx (set_count E c1)))) s1)\<rparr>)"
        using assms(4) \<open>collections m cid = Some c\<close> b Inr i None t
        by (auto simp: DeleteVector_def Let_def c1_def s_def split: option.splits)
      then show ?thesis using that s1 s2 by (cases t) auto
    qed
    show ?thesis
      unfolding m'(1) lg
    proof (rule in_step_update [OF assms(3) Some])
      show "\<forall>x \<in> set [e]. CollectionID (Op x) = cid" by (simp add: e_def delete_op_def)
      show "rep_ops E (map Op [e]) (content_of c) = Inr (content_of c2)"
        using c1(1) m'(3) by (auto simp: e_def)
    qed (use m' c1 catalog.seen_ok [OF assms(1) okm] in auto)
  qed
qed

lemma in_step_add:
  assumes "in_step E listed seen ok es m" "dom (listed (sysdb m)) \<subseteq> seen (sysdb m)"
    "creates listed seen ok d metric ty te name (sysdb m) (Inr mt, s)" "createIndex (ix E) d metric ty = Inr i"
    "dataDir m' = dataDir m" "sysdb m' = s" "collections m' = (collections m)(cm_ID mt \<mapsto> new_collection E m mt i)"
  shows "in_step E listed seen ok es m'"
proof -
  have mt: "cm_ID mt \<notin> seen (sysdb m)" "insert (cm_ID mt) (seen (sysdb m)) \<subseteq> seen s" "ok s" "listed s = (listed (sysdb m))(cm_ID mt \<mapsto> core mt)"
    "cm_Dimension mt = d" "cm_Metric mt = metric" "cm_IndexType mt = ty" using assms(3) by (auto simp: creates_def)
  have dir: "dataDir m = '''' \<or> (\<forall>i. \<not> is_hnsw (ix E) i)" and L: "\<And>k. listed (sysdb m) k = map_option (\<lambda>c. core (meta c)) (collections m k)"
    and S: "\<forall>e \<in> set es. CollectionID (Op e) \<in> seen (sysdb m)" and R: "\<And>k c. collections m k = Some c \<Longrightarrow> rebuilt E es k c"
    using assms(1) unfolding in_step_def by auto
  have new: "new_collection E m mt i = \<lparr>meta = mt, idx = i, invertedIndex = NewInvertedIndex\<rparr>" using dir by (auto simp: new_collection_def)
  have "ops_for (cm_ID mt) es = []" by (rule ops_for_none) (use S mt(1) in auto)
  then have "rebuilt E es (cm_ID mt) (new_collection E m mt i)"
    using assms(4) mt(5-7) by (simp add: rebuilt_def new content_of_def)
  then have "rebuilt E es k c" if "collections m' k = Some c" for k c
    using that R [of k c] assms(7) by (auto split: if_splits)
  moreover have "listed (sysdb m') k = map_option (\<lambda>c. core (meta c)) (collections m' k)" for k
    using L [of k] assms(6,7) mt(4) by (simp add: new)
  moreover have "\<forall>e \<in> set es. CollectionID (Op e) \<in> seen (sysdb m')" using S assms(6) mt(2) by auto
  ultimately show ?thesis using dir assms(5,6) mt(3) by (simp add: in_step_def)
qed

lemma in_step_drop:
  assumes "in_step E listed seen ok es m" "removes listed seen ok cid (sysdb m) (None, s)"
    "dataDir m' = dataDir m" "sysdb m' = s" "collections m' = (collections m)(cid := None)"
  shows "in_step E listed seen ok es m'"
  using assms by (auto simp: in_step_def removes_def)

lemma Create_in_step:
  assumes "catalog (sd E) listed seen ok" "in_step E listed seen ok es m"
  shows "CreateCollection E name d metric ty m = (Inr mt, m') \<Longrightarrow> in_step E listed seen ok es m' \<and> wal m' = wal m"
    and "CreateCollectionScoped E te db name d metric ty m = (Inr mt, m') \<Longrightarrow> in_step E listed seen ok es m' \<and> wal m' = wal m"
    and "CreateCollectionRemote E name d metric ty m = (None, m') \<Longrightarrow> in_step E listed seen ok es m' \<and> wal m' = wal m"
proof -
  have okm: "ok (sysdb m)" using assms(2) by (simp add: in_step_def)
  note seen = catalog.seen_ok [OF assms(1) okm] and cr = catalog.create_ok [OF assms(1) okm] catalog.create_scoped_ok [OF assms(1) okm]
  show "in_step E listed seen ok es m' \<and> wal m' = wal m" if "CreateCollection E name d metric ty m = (Inr mt, m')"
    using that cr(1) [of d metric ty name]
    by (auto simp: CreateCollection_def Let_def split: prod.splits sum.splits intro!: in_step_add [OF assms(2) seen])
  show "in_step E listed seen ok es m' \<and> wal m' = wal m" if "CreateCollectionScoped E te db name d metric ty m = (Inr mt, m')"
    using that cr(2) [of d metric ty te name db]
    by (auto simp: CreateCollectionScoped_def Let_def split: prod.splits sum.splits intro!: in_step_add [OF assms(2) seen])
  show "in_step E listed seen ok es m' \<and> wal m' = wal m" if "CreateCollectionRemote E name d metric ty m = (None, m')"
    using that assms(2) cr(1) [of d metric ty name]
    by (auto simp: CreateCollectionRemote_def Let_def split: prod.splits sum.splits if_splits intro!: in_step_add [OF assms(2) seen])
qed

lemma Delete_in_step:
  assumes "catalog (sd E) listed seen ok" "in_step E listed seen ok es m"
  shows "DeleteCollection E cid m = (None, m') \<Longrightarrow> in_step E listed seen ok es m' \<and> wal m' = wal m"
    and "DeleteCollectionScoped E te cid m = (None, m') \<Longrightarrow> in_step E listed seen ok es m' \<and> wal m' = wal m"
    and "DeleteCollectionRemote E name m = (None, m') \<Longrightarrow> in_step E listed seen ok es m' \<and> wal m' = wal m"
proof -
  have okm: "ok (sysdb m)" using assms(2) by (simp add: in_step_def)
  note rm = catalog.delete_ok [OF assms(1) okm] catalog.delete_scoped_ok [OF assms(1) okm]
  show "in_step E listed seen ok es m' \<and> wal m' = wal m" if "DeleteCollection E cid m = (None, m')"
    using that rm(1) [of cid]
    by (auto simp: DeleteCollection_def Let_def split: prod.splits option.splits intro!: in_step_drop [OF assms(2), of cid])
  show "in_step E listed seen ok es m' \<and> wal m' = wal m" if "DeleteCollectionScoped E te cid m = (None, m')"
    using that rm(2) [of cid te]
    by (auto simp: DeleteCollectionScoped_def Let_def split: prod.splits option.splits if_splits intro!: in_step_drop [OF assms(2), of cid])
  show "in_step E listed seen ok es m' \<and> wal m' = wal m" if "DeleteCollectionRemote E name m = (None, m')"
  proof (cases "sd_GetCollectionByName (sd E) name (sysdb m)")
    case None
    then show ?thesis using that assms(2) by (simp add: DeleteCollectionRemote_def)
  next
    case (Some mt)
    then show ?thesis using that rm(1) [of "cm_ID mt"]
      by (auto simp: DeleteCollectionRemote_def Let_def split: prod.splits intro!: in_step_drop [OF assms(2), of "cm_ID mt"])
  qed
qed

subsection \<open>Restarting\<close>

lemma load_snapshot_none: "dataDir m = '''' \<or> (\<forall>i. \<not> is_hnsw (ix E) i) \<Longrightarrow> load_snapshot E m mt i = (i, snapshotSeqIDs m)"
  by (auto simp: load_snapshot_def)

lemma restore_loop_eq:
  assumes "dataDir m = '''' \<or> (\<forall>i. \<not> is_hnsw (ix E) i)" "distinct (map cm_ID cols)"
    "\<forall>mt \<in> set cols. createIndex (ix E) (cm_Dimension mt) (cm_Metric mt) (cm_IndexType mt) = Inr (f mt)"
  shows "restore_loop E cols m = m\<lparr>collections := collections m ++
    map_of (map (\<lambda>mt. (cm_ID mt, \<lparr>meta = mt, idx = f mt, invertedIndex = NewInvertedIndex\<rparr>)) cols)\<rparr>"
  using assms
proof (induction cols arbitrary: m)
  case (Cons mt cols)
  define c where "c = \<lparr>meta = mt, idx = f mt, invertedIndex = (NewInvertedIndex :: 'b InvertedIndex)\<rparr>"
  let ?M = "map_of (map (\<lambda>mt. (cm_ID mt, \<lparr>meta = mt, idx = f mt, invertedIndex = NewInvertedIndex\<rparr>)) cols)"
  have new: "cm_ID mt \<notin> dom ?M" using Cons.prems(2) by (auto simp: dom_map_of_conv_image_fst)
  have step: "restore_loop E (mt # cols) m = restore_loop E cols (m\<lparr>collections := (collections m)(cm_ID mt \<mapsto> c)\<rparr>)"
    using Cons.prems(1,3) by (simp add: load_snapshot_none c_def)
  have rest: "restore_loop E cols (m\<lparr>collections := (collections m)(cm_ID mt \<mapsto> c)\<rparr>) =
      m\<lparr>collections := (collections m)(cm_ID mt \<mapsto> c) ++ ?M\<rparr>"
    using Cons.IH [of "m\<lparr>collections := (collections m)(cm_ID mt \<mapsto> c)\<rparr>"] Cons.prems by (simp del: fun_upd_apply)
  have add: "(collections m)(cm_ID mt \<mapsto> c) ++ ?M = collections m ++ (?M(cm_ID mt \<mapsto> c))"
    using new by (auto simp: map_add_def fun_eq_iff split: option.split)
  have "map_of (map (\<lambda>mt. (cm_ID mt, \<lparr>meta = mt, idx = f mt, invertedIndex = NewInvertedIndex\<rparr>)) (mt # cols)) = ?M(cm_ID mt \<mapsto> c)"
    by (simp add: c_def)
  then show ?case by (simp only: step rest add)
qed simp

lemma map_of_image: "map_of (map (\<lambda>x. (k x, v x)) xs) a = map_option v (map_of (map (\<lambda>x. (k x, x)) xs) a)"
  by (induction xs) auto


lemma restart_ok:
  fixes E :: "('i, 'n::field, 'd, 's) environment"
  assumes "catalog (sd E) listed seen ok" "sqlite_table (tb E) rows seqno" "enumerates (order E)"
    "in_step E listed seen ok (map entry_of (rows d)) m" "sysdb m = s" "dir = dataDir m"
    "sd_ListCollections (sd E) s = Inr cols" "tb_select (tb E) 0 d = Inr rs"
  shows "\<exists>m'. NewManager E s d bus br dir = Inr (Inr m') \<and> same_collections (collections m) (collections m') \<and>
    sysdb m' = s \<and> wal m' = d \<and> dataDir m' = dir"
proof -
  define es where "es = map entry_of (rows d)"
  define f where "f mt = projr (createIndex (ix E) (cm_Dimension mt) (cm_Metric mt) (cm_IndexType mt))" for mt :: CollectionMeta
  define start where "start mt = \<lparr>meta = mt, idx = f mt, invertedIndex = (NewInvertedIndex :: 'n InvertedIndex)\<rparr>" for mt :: CollectionMeta
  have dir: "dataDir m = '''' \<or> (\<forall>i. \<not> is_hnsw (ix E) i)"
    and L: "\<And>k. listed s k = map_option (\<lambda>c. core (meta c)) (collections m k)"
    and R: "\<And>k c. collections m k = Some c \<Longrightarrow> rebuilt E es k c"
    using assms(4,5) unfolding in_step_def es_def by auto
  have okm: "ok s" using assms(4,5) by (simp add: in_step_def)
  let ?mts = "map_of (map (\<lambda>mt. (cm_ID mt, mt)) cols)"
  have cols: "map_option core (?mts k) = listed s k" for k
    using catalog.list_ok [OF assms(1) okm assms(7)] map_of_image [of cm_ID core cols k] by (metis (no_types, lifting))
  have dist: "distinct (map cm_ID cols)" using catalog.list_ok [OF assms(1) okm assms(7)] by blast
  have pair: "\<exists>c. collections m k = Some c \<and> core (meta c) = core mt" if "?mts k = Some mt" for k mt
    using cols [of k] L [of k] that by (cases "collections m k") auto
  have idx0: "createIndex (ix E) (cm_Dimension mt) (cm_Metric mt) (cm_IndexType mt) = Inr (f mt) \<and>
      rep_ops E (ops_for k es) (f mt, NewInvertedIndex) = Inr (content_of (the (collections m k)))" if mt: "?mts k = Some mt" for k mt
  proof -
    obtain c where c: "collections m k = Some c" "core (meta c) = core mt" using pair [OF mt] by blast
    then show ?thesis using R [OF c(1)] core_eqD [OF c(2)] by (auto simp: rebuilt_def f_def)
  qed
  have ci: "\<forall>mt \<in> set cols. createIndex (ix E) (cm_Dimension mt) (cm_Metric mt) (cm_IndexType mt) = Inr (f mt)"
  proof
    fix mt assume "mt \<in> set cols"
    then have "?mts (cm_ID mt) = Some mt" using dist by (auto intro!: map_of_is_SomeI simp: comp_def)
    then show "createIndex (ix E) (cm_Dimension mt) (cm_Metric mt) (cm_IndexType mt) = Inr (f mt)" using idx0 by blast
  qed
  define m0 where "m0 = (empty_manager s d bus br dir :: ('i, 'n, 'd, 's) Manager)\<lparr>collections := map_option start \<circ> ?mts\<rparr>"
  have restore: "restore_loop E cols (empty_manager s d bus br dir) = m0"
  proof -
    have "dataDir (empty_manager s d bus br dir :: ('i, 'n, 'd, 's) Manager) = '''' \<or> (\<forall>i. \<not> is_hnsw (ix E) i)"
      using dir assms(6) by (simp add: empty_manager_def)
    note R = restore_loop_eq [OF this dist ci]
    have "map_of (map (\<lambda>mt. (cm_ID mt, start mt)) cols) = map_option start \<circ> ?mts"
      by (rule ext) (simp only: comp_apply map_of_image [of cm_ID start cols])
    then show ?thesis unfolding R m0_def by (simp add: start_def empty_manager_def)
  qed
  have st0: "rep_ops E (ops_for k es) (content_of c0) = Inr (content_of (the (collections m k)))"
    if "collections m0 k = Some c0" for k c0
    using that idx0 [of k] by (auto simp: m0_def start_def content_of_def)
  obtain cols' where loop: "replay_loop E Map.empty es (collections m0) = Inr cols'" "dom cols' = dom (collections m0)"
    "\<And>k c. collections m0 k = Some c \<Longrightarrow>
      \<exists>c'. cols' k = Some c' \<and> content_of c' = content_of (the (collections m k)) \<and> core (meta c') = core (meta c)"
    using replay_loop_content [of "collections m0" E es "\<lambda>k. content_of (the (collections m k))", OF st0] by blast
  have same: "same_collections (collections m) cols'"
    unfolding same_collections_def
  proof (intro conjI allI impI)
    have "(collections m0 k = None) = (collections m k = None)" for k
      using cols [of k] L [of k] by (cases "collections m k"; cases "?mts k") (simp_all add: m0_def)
    then show "dom cols' = dom (collections m)" unfolding loop(2) by (auto simp: dom_def)
    fix k c assume c: "collections m k = Some c"
    obtain mt where mt: "?mts k = Some mt" "core mt = core (meta c)" using cols [of k] L [of k] c by (cases "?mts k") auto
    then have "collections m0 k = Some (start mt)" by (simp add: m0_def)
    then show "\<exists>c'. cols' k = Some c' \<and> idx c' = idx c \<and> invertedIndex c' = invertedIndex c \<and> core (meta c') = core (meta c)"
      using loop(3) [of k] c mt(2) by (fastforce simp: content_of_def start_def)
  qed
  have read: "ReadFrom (tb E) 0 d = Inr (Inr es)"
  proof -
    have "rs = filter (\<lambda>(q, _). q > uint (0 :: u64)) (rows d)" using assms(2,8) unfolding sqlite_table_def by blast
    moreover have "filter (\<lambda>(q, _). q > uint (0 :: u64)) (rows d) = rows d"
    proof -
      have "table_keys_ok (rows d) (seqno d)"
        using assms(2) [unfolded sqlite_table_def, THEN conjunct1] by (rule spec)
      then have "\<forall>x \<in> set (rows d). 0 < fst x" unfolding table_keys_ok_def by fastforce
      then show ?thesis by (auto simp: filter_id_conv)
    qed
    ultimately show ?thesis using assms(8) by (simp add: ReadFrom_def scan_rows_eq es_def)
  qed
  have ord: "order E {} = []" using assms(3) unfolding enumerates_def by (metis finite.emptyI set_empty)
  have "\<exists>m'. replayWAL E m0 = Inr (None, m') \<and> collections m' = cols' \<and> sysdb m' = s \<and> wal m' = d \<and> dataDir m' = dir"
    using read loop(1) ord by (auto simp: replayWAL_def m0_def empty_manager_def)
  then show ?thesis using same assms(7) restore by (auto simp: NewManager_def)
qed

text \<open>
  A run of a manager: the operations as they return, any failure of a write included except an insertion
  the index rejects, and restarts. A failed creation or removal of a collection ends the run.
\<close>

inductive mgr_run :: "('i, 'n::field, 'd, 's) environment \<Rightarrow> ('i, 'n, 'd, 's) Manager \<Rightarrow> ('i, 'n, 'd, 's) Manager \<Rightarrow> bool"
  for E m0 where
  start: "mgr_run E m0 m0"
| create: "mgr_run E m0 m \<Longrightarrow> CreateCollection E name d metric ty m = (Inr mt, m') \<Longrightarrow> mgr_run E m0 m'"
| create_scoped: "mgr_run E m0 m \<Longrightarrow> CreateCollectionScoped E te db name d metric ty m = (Inr mt, m') \<Longrightarrow> mgr_run E m0 m'"
| create_remote: "mgr_run E m0 m \<Longrightarrow> CreateCollectionRemote E name d metric ty m = (None, m') \<Longrightarrow> mgr_run E m0 m'"
| drop: "mgr_run E m0 m \<Longrightarrow> DeleteCollection E cid m = (None, m') \<Longrightarrow> mgr_run E m0 m'"
| drop_scoped: "mgr_run E m0 m \<Longrightarrow> DeleteCollectionScoped E te cid m = (None, m') \<Longrightarrow> mgr_run E m0 m'"
| drop_remote: "mgr_run E m0 m \<Longrightarrow> DeleteCollectionRemote E name m = (None, m') \<Longrightarrow> mgr_run E m0 m'"
| insert: "mgr_run E m0 m \<Longrightarrow> InsertVectors E cid vids vs metas m = Inr (r, m') \<Longrightarrow>
    (\<And>e. r \<noteq> Some (OtherError ''index insert failed'' (Some e))) \<Longrightarrow> mgr_run E m0 m'"
| delete: "mgr_run E m0 m \<Longrightarrow> DeleteVector E cid vid m = Inr (r, m') \<Longrightarrow> mgr_run E m0 m'"
| restart: "mgr_run E m0 m \<Longrightarrow> sd_ListCollections (sd E) (sysdb m) = Inr cols \<Longrightarrow> tb_select (tb E) 0 (wal m) = Inr rs \<Longrightarrow>
    NewManager E (sysdb m) (wal m) bus br (dataDir m) = Inr (Inr m') \<Longrightarrow> mgr_run E m0 m'"

lemma mgr_run_in_step:
  assumes "catalog (sd E) listed seen ok" "sqlite_table (tb E) rows seqno" "enumerates (order E)"
    "mgr_run E m0 m" "in_step E listed seen ok (map entry_of (rows (wal m0))) m0"
  shows "in_step E listed seen ok (map entry_of (rows (wal m))) m"
  using assms(4,5)
proof (induction rule: mgr_run.induct)
  case (insert m cid vids vs metas r m')
  then show ?case using InsertVectors_in_step [OF assms(1,2)] by blast
next
  case (delete m cid vid r m')
  then show ?case using DeleteVector_in_step [OF assms(1,2)] by blast
next
  case (restart m cols rs bus br m')
  have in_m: "in_step E listed seen ok (map entry_of (rows (wal m))) m" using restart by simp
  obtain m1 where m1: "NewManager E (sysdb m) (wal m) bus br (dataDir m) = Inr (Inr m1)"
      "same_collections (collections m) (collections m1)" "sysdb m1 = sysdb m" "wal m1 = wal m" "dataDir m1 = dataDir m"
    using restart_ok [OF assms(1-3) in_m refl refl restart(2,3)] by blast
  have "in_step E listed seen ok (map entry_of (rows (wal m))) m1"
    using in_step_same [OF in_m m1(2)] m1(3,5) in_m by (simp add: in_step_def keeps_def)
  then show ?case using restart(4) m1 by simp
qed (use Create_in_step [OF assms(1)] Delete_in_step [OF assms(1)] in \<open>metis (no_types, lifting)\<close>)+

lemma restart_recovers:
  assumes "catalog (sd E) listed seen ok" "sqlite_table (tb E) rows seqno" "enumerates (order E)"
    "ok s0" "listed s0 = Map.empty" "rows d0 = []" "dir = '''' \<or> (\<forall>i. \<not> is_hnsw (ix E) i)"
    "mgr_run E (empty_manager s0 d0 bus br dir) m"
    "sd_ListCollections (sd E) (sysdb m) = Inr cols" "tb_select (tb E) 0 (wal m) = Inr rs"
  shows "\<exists>m'. NewManager E (sysdb m) (wal m) bus' br' (dataDir m) = Inr (Inr m') \<and> same_collections (collections m) (collections m')"
proof -
  have "in_step E listed seen ok (map entry_of (rows (wal (empty_manager s0 d0 bus br dir :: (_, _, _, _) Manager))))
      (empty_manager s0 d0 bus br dir)"
    using assms(4-7) by (simp add: in_step_def empty_manager_def)
  from restart_ok [OF assms(1-3) mgr_run_in_step [OF assms(1-3,8) this] refl refl assms(9,10)] show ?thesis by blast
qed

end
