(* ===== verification/Sys_DB.thy ===== *)
theory Sys_DB
  imports Catalog
begin

section \<open>The system database\<close>

text \<open>
  Models \<open>internal/metadata/sqlite.go\<close>: the catalogue of collections, the tombstones with their cache in
  memory, and the metadata of vectors. The tables are lists of rows, and each SQL statement of the code is
  written as the list operation it denotes, with the primary keys, unique constraints and cascading foreign
  keys of the schema in \<open>NewSysDB\<close>. What the outside contributes to a call is a \<open>world\<close>: the clock, a fresh
  UUID, and which of its statements fail, counted from 0; a failed statement changes nothing and an
  uncommitted transaction is rolled back. The calls of a database take the worlds of a sequence in order.

  Calls are sequential. Then \<open>database/sql\<close> keeps using its one idle connection, on which \<open>NewSysDB\<close> has switched
  foreign keys on; concurrent calls may open connections on which they are off. An identifier from
  \<open>2 ^ 63\<close> on, which \<open>database/sql\<close> can refuse as a parameter, counts as a statement that fails.

  The tables \<open>vectors\<close> and \<open>segments\<close> of the schema are neither written nor read by the code. The operations
  on tenants are in theory \<open>Tenants\<close>.
\<close>

record Tenant =
  tn_ID :: string
  tn_Name :: string
  tn_MaxDBs :: int
  tn_MaxColls :: int
  tn_CreatedAt :: int

record Database =
  da_ID :: string
  da_TenantID :: string
  da_Name :: string
  da_CreatedAt :: int

record TenantQuotas =
  MaxVectors :: int
  MaxCollections :: int
  MaxQPS :: int
  MaxBytes :: int

record TenantUsage =
  us_VectorCount :: int
  us_CollectionCount :: int
  us_BytesUsed :: int
  us_UpdatedAt :: int

record api_key =
  key_hash :: string
  key_tenant :: string
  key_role :: string
  expires_at :: "int option"

record tables =
  t_collections :: "CollectionMeta list"
  t_tombstones :: "(string \<times> u64) list"
  t_metadata :: "(string \<times> u64 \<times> string \<times> string) list"
  t_tenants :: "Tenant list"
  t_databases :: "Database list"
  t_quotas :: "(string \<times> TenantQuotas) list"
  t_usage :: "(string \<times> TenantUsage) list"
  t_api_keys :: "api_key list"

record world =
  w_uuid :: string
  w_now :: int
  w_fail :: "nat \<Rightarrow> error option"

record SysDB =
  db :: tables
  tombstones :: "string \<rightharpoonup> u64 set"
  worlds :: "nat \<Rightarrow> world"
  tick :: nat

definition world_of :: "SysDB \<Rightarrow> world" where
  "world_of s = worlds s (tick s)"

definition next_call :: "SysDB \<Rightarrow> SysDB" where
  "next_call s = s\<lparr>tick := tick s + 1\<rparr>"

definition constraint_failed :: error where
  "constraint_failed = OtherError ''constraint failed'' None"

definition exec :: "error option \<Rightarrow> bool \<Rightarrow> (tables \<Rightarrow> tables) \<Rightarrow> tables \<Rightarrow> error option \<times> tables" where
  \<comment> \<open>a statement with the constraints it must meet\<close>
  "exec fail constraints f t =
     (case fail of Some e \<Rightarrow> (Some e, t) | None \<Rightarrow> if constraints then (None, f t) else (Some constraint_failed, t))"

definition collection_ids :: "tables \<Rightarrow> string set" where
  "collection_ids t = cm_ID ` set (t_collections t)"

subsection \<open>Opening\<close>

definition empty_tables :: tables where
  "empty_tables = \<lparr>t_collections = [], t_tombstones = [], t_metadata = [], t_tenants = [], t_databases = [], t_quotas = [],
     t_usage = [], t_api_keys = []\<rparr>"

definition add_tomb :: "string \<Rightarrow> u64 \<Rightarrow> (string \<rightharpoonup> u64 set) \<Rightarrow> (string \<rightharpoonup> u64 set)" where
  "add_tomb cid v m = m(cid \<mapsto> insert v (map_get {} m cid))"

definition loadTombstones :: "(string \<times> u64) list \<Rightarrow> (string \<rightharpoonup> u64 set) \<Rightarrow> (string \<rightharpoonup> u64 set)" where
  "loadTombstones rows m = fold (\<lambda>(cid, v). add_tomb cid v) rows m"

definition NewSysDB :: "(nat \<Rightarrow> world) \<Rightarrow> tables \<Rightarrow> error + SysDB" where
  \<comment> \<open>five pragmas, the schema (which keeps existing tables) and the query of the tombstones\<close>
  "NewSysDB ws t =
     (case List.find (\<lambda>e. e \<noteq> None) (map (w_fail (ws 0)) [0..<7]) of
        Some (Some e) \<Rightarrow> Inl (OtherError ''opening'' (Some e))
      | _ \<Rightarrow> Inr \<lparr>db = t, tombstones = loadTombstones (t_tombstones t) Map.empty, worlds = ws, tick = 1\<rparr>)"

subsection \<open>Collections\<close>

definition db_CreateCollectionScoped ::
  "string \<Rightarrow> string \<Rightarrow> string \<Rightarrow> int \<Rightarrow> string \<Rightarrow> string \<Rightarrow> SysDB \<Rightarrow> (error + CollectionMeta) \<times> SysDB" where
  "db_CreateCollectionScoped tenantID databaseID name d metric indexType s =
     (let w = world_of s;
          mt = \<lparr>cm_ID = w_uuid w, cm_TenantID = tenantID, cm_DatabaseID = databaseID, cm_Name = name, cm_Dimension = d,
                cm_Metric = metric, cm_IndexType = indexType, cm_CreatedAt = w_now w, cm_VectorCount = 0\<rparr>;
          unique = (cm_ID mt \<notin> collection_ids (db s) \<and>
            (\<forall>c \<in> set (t_collections (db s)). \<not> (cm_DatabaseID c = databaseID \<and> cm_Name c = name))) in
      case exec (w_fail w 0) unique (\<lambda>t. t\<lparr>t_collections := t_collections t @ [mt]\<rparr>) (db s) of
        (Some e, t) \<Rightarrow> (Inl (OtherError ''creating collection'' (Some e)), (next_call s)\<lparr>db := t\<rparr>)
      | (None, t) \<Rightarrow> (Inr mt, (next_call s)\<lparr>db := t\<rparr>))"

definition db_CreateCollection :: "string \<Rightarrow> int \<Rightarrow> string \<Rightarrow> string \<Rightarrow> SysDB \<Rightarrow> (error + CollectionMeta) \<times> SysDB" where
  "db_CreateCollection name d metric indexType = db_CreateCollectionScoped '''' '''' name d metric indexType"

definition query_one :: "(CollectionMeta \<Rightarrow> bool) \<Rightarrow> SysDB \<Rightarrow> error + CollectionMeta option" where
  \<comment> \<open>\<open>QueryRow\<close> reads the first row; none is \<open>ErrNoRows\<close>\<close>
  "query_one P s = (case w_fail (world_of s) 0 of Some e \<Rightarrow> Inl (OtherError ''getting collection'' (Some e))
     | None \<Rightarrow> Inr (List.find P (t_collections (db s))))"

definition db_GetCollection :: "string \<Rightarrow> SysDB \<Rightarrow> error + CollectionMeta option" where
  "db_GetCollection cid = query_one (\<lambda>c. cm_ID c = cid)"

definition db_GetCollectionScoped :: "string \<Rightarrow> string \<Rightarrow> SysDB \<Rightarrow> error + CollectionMeta option" where
  "db_GetCollectionScoped tenantID cid = query_one (\<lambda>c. cm_ID c = cid \<and> cm_TenantID c = tenantID)"

definition db_GetCollectionByName :: "string \<Rightarrow> SysDB \<Rightarrow> error + CollectionMeta option" where
  "db_GetCollectionByName name = query_one (\<lambda>c. cm_Name c = name)"

definition db_GetCollectionByNameAndTenant :: "string \<Rightarrow> string \<Rightarrow> SysDB \<Rightarrow> error + CollectionMeta option" where
  "db_GetCollectionByNameAndTenant tenantID name = query_one (\<lambda>c. cm_TenantID c = tenantID \<and> cm_Name c = name)"

definition scanCollections :: "(CollectionMeta \<Rightarrow> bool) \<Rightarrow> SysDB \<Rightarrow> error + CollectionMeta list" where
  "scanCollections P s = (case w_fail (world_of s) 0 of Some e \<Rightarrow> Inl (OtherError ''listing collections'' (Some e))
     | None \<Rightarrow> Inr (sort_key cm_CreatedAt (filter P (t_collections (db s)))))"

definition db_ListCollections :: "SysDB \<Rightarrow> error + CollectionMeta list" where
  "db_ListCollections = scanCollections (\<lambda>_. True)"

definition db_ListCollectionsScoped :: "string \<Rightarrow> string \<Rightarrow> SysDB \<Rightarrow> error + CollectionMeta list" where
  "db_ListCollectionsScoped tenantID databaseID = scanCollections (\<lambda>c. cm_TenantID c = tenantID \<and> cm_DatabaseID c = databaseID)"

definition remove_collections :: "(CollectionMeta \<Rightarrow> bool) \<Rightarrow> tables \<Rightarrow> tables" where
  \<comment> \<open>\<open>DELETE FROM collections\<close>, cascading to the rows that refer to them\<close>
  "remove_collections P t =
     (let gone = cm_ID ` set (filter P (t_collections t)) in
      t\<lparr>t_collections := filter (\<lambda>c. \<not> P c) (t_collections t),
        t_tombstones := filter (\<lambda>(c, v). c \<notin> gone) (t_tombstones t),
        t_metadata := filter (\<lambda>(c, v, k, x). c \<notin> gone) (t_metadata t)\<rparr>)"

definition delete_where :: "(CollectionMeta \<Rightarrow> bool) \<Rightarrow> string \<Rightarrow> SysDB \<Rightarrow> error option \<times> SysDB" where
  "delete_where P cid s =
     (case exec (w_fail (world_of s) 0) True (remove_collections P) (db s) of
        (Some e, t) \<Rightarrow> (Some (OtherError ''deleting collection'' (Some e)), next_call s)
      | (None, t) \<Rightarrow>
          if filter P (t_collections (db s)) = [] then (Some not_found, (next_call s)\<lparr>db := t\<rparr>)
          else (None, (next_call s)\<lparr>db := t, tombstones := (tombstones s)(cid := None)\<rparr>))"

definition db_DeleteCollection :: "string \<Rightarrow> SysDB \<Rightarrow> error option \<times> SysDB" where
  "db_DeleteCollection cid = delete_where (\<lambda>c. cm_ID c = cid) cid"

definition db_DeleteCollectionScoped :: "string \<Rightarrow> string \<Rightarrow> SysDB \<Rightarrow> error option \<times> SysDB" where
  "db_DeleteCollectionScoped tenantID cid = delete_where (\<lambda>c. cm_ID c = cid \<and> cm_TenantID c = tenantID) cid"

definition db_UpdateVectorCount :: "string \<Rightarrow> int \<Rightarrow> SysDB \<Rightarrow> error option \<times> SysDB" where
  "db_UpdateVectorCount cid n s =
     (case exec (w_fail (world_of s) 0) True
        (\<lambda>t. t\<lparr>t_collections := map (\<lambda>c. if cm_ID c = cid then c\<lparr>cm_VectorCount := n\<rparr> else c) (t_collections t)\<rparr>) (db s) of
        (e, t) \<Rightarrow> (map_option (\<lambda>e. OtherError ''updating vector count'' (Some e)) e, (next_call s)\<lparr>db := t\<rparr>))"

subsection \<open>Tombstones\<close>

definition db_AddTombstone :: "string \<Rightarrow> u64 \<Rightarrow> SysDB \<Rightarrow> error option \<times> SysDB" where
  "db_AddTombstone cid v s =
     (case exec (w_fail (world_of s) 0) (cid \<in> collection_ids (db s))
        (\<lambda>t. t\<lparr>t_tombstones := filter (\<lambda>r. r \<noteq> (cid, v)) (t_tombstones t) @ [(cid, v)]\<rparr>) (db s) of
        (Some e, t) \<Rightarrow> (Some (OtherError ''adding tombstone'' (Some e)), (next_call s)\<lparr>db := t\<rparr>)
      | (None, t) \<Rightarrow> (None, (next_call s)\<lparr>db := t, tombstones := add_tomb cid v (tombstones s)\<rparr>))"

definition drop_tombs :: "string \<Rightarrow> u64 set \<Rightarrow> (string \<rightharpoonup> u64 set) \<Rightarrow> (string \<rightharpoonup> u64 set)" where
  "drop_tombs cid V m = (case m cid of None \<Rightarrow> m | Some S \<Rightarrow> m(cid \<mapsto> S - V))"

definition db_RemoveTombstone :: "string \<Rightarrow> u64 \<Rightarrow> SysDB \<Rightarrow> error option \<times> SysDB" where
  "db_RemoveTombstone cid v s =
     (case exec (w_fail (world_of s) 0) True (\<lambda>t. t\<lparr>t_tombstones := filter (\<lambda>r. r \<noteq> (cid, v)) (t_tombstones t)\<rparr>) (db s) of
        (Some e, t) \<Rightarrow> (Some (OtherError ''removing tombstone'' (Some e)), (next_call s)\<lparr>db := t\<rparr>)
      | (None, t) \<Rightarrow> (None, (next_call s)\<lparr>db := t, tombstones := drop_tombs cid {v} (tombstones s)\<rparr>))"

definition maxBatch :: nat where
  "maxBatch = 900"

function batches :: "'a list \<Rightarrow> 'a list list" where
  "batches xs = (if xs = [] then [] else take maxBatch xs # batches (drop maxBatch xs))"
  by auto
termination by (relation "measure length") (auto simp: maxBatch_def)

declare batches.simps [simp del]

fun untomb_batches :: "world \<Rightarrow> nat \<Rightarrow> string \<Rightarrow> u64 list list \<Rightarrow> tables \<Rightarrow> error option \<times> tables" where
  \<comment> \<open>one statement for each batch, outside any transaction\<close>
  "untomb_batches w k cid [] t = (None, t)"
| "untomb_batches w k cid (batch # bs) t =
     (case exec (w_fail w k) True (\<lambda>t. t\<lparr>t_tombstones := filter (\<lambda>(c, v). \<not> (c = cid \<and> v \<in> set batch)) (t_tombstones t)\<rparr>) t of
        (Some e, t) \<Rightarrow> (Some (OtherError ''removing tombstones batch'' (Some e)), t)
      | (None, t) \<Rightarrow> untomb_batches w (k + 1) cid bs t)"

definition db_RemoveTombstonesBatch :: "string \<Rightarrow> u64 list \<Rightarrow> SysDB \<Rightarrow> error option \<times> SysDB" where
  "db_RemoveTombstonesBatch cid vs s =
     (if vs = [] then (None, s)
      else case untomb_batches (world_of s) 0 cid (batches vs) (db s) of
        (Some e, t) \<Rightarrow> (Some e, (next_call s)\<lparr>db := t\<rparr>)
      | (None, t) \<Rightarrow> (None, (next_call s)\<lparr>db := t, tombstones := drop_tombs cid (set vs) (tombstones s)\<rparr>))"

definition IsTombstoned :: "string \<Rightarrow> u64 \<Rightarrow> SysDB \<Rightarrow> bool" where
  "IsTombstoned cid v s = (case tombstones s cid of None \<Rightarrow> False | Some S \<Rightarrow> v \<in> S)"

subsection \<open>Metadata of vectors\<close>

fun save_loop :: "world \<Rightarrow> nat \<Rightarrow> string \<Rightarrow> u64 \<Rightarrow> (string \<times> string) list \<Rightarrow> tables \<Rightarrow> error option \<times> tables" where
  "save_loop w n cid v [] t = (None, t)"
| "save_loop w n cid v ((k, x) # kxs) t =
     (case exec (w_fail w n) (cid \<in> collection_ids t)
        (\<lambda>t. t\<lparr>t_metadata := filter (\<lambda>(c, u, l, y). \<not> (c = cid \<and> u = v \<and> l = k)) (t_metadata t) @ [(cid, v, k, x)]\<rparr>) t of
        (Some e, t) \<Rightarrow> (Some (OtherError ''saving vector metadata'' (Some e)), t)
      | (None, t) \<Rightarrow> save_loop w (n + 1) cid v kxs t)"

definition db_SaveVectorMetadata ::
  "('n \<Rightarrow> string) \<Rightarrow> (string set \<Rightarrow> string list) \<Rightarrow> string \<Rightarrow> u64 \<Rightarrow> 'n metadata \<Rightarrow> SysDB \<Rightarrow> error option \<times> SysDB" where
  \<comment> \<open>begin, one statement for each key, commit\<close>
  "db_SaveVectorMetadata fn ord cid v mm s =
     (let w = world_of s; kxs = map (\<lambda>k. (k, sprint fn (the (mm k)))) (ord (dom mm)) in
      if kxs = [] then (None, s)
      else case w_fail w 0 of Some e \<Rightarrow> (Some (OtherError ''beginning transaction'' (Some e)), next_call s)
      | None \<Rightarrow>
          (case save_loop w 1 cid v kxs (db s) of
             (Some e, t) \<Rightarrow> (Some e, next_call s)
           | (None, t) \<Rightarrow>
               (case w_fail w (length kxs + 1) of Some e \<Rightarrow> (Some e, next_call s)
                | None \<Rightarrow> (None, (next_call s)\<lparr>db := t\<rparr>))))"

definition db_DeleteVectorMetadata :: "string \<Rightarrow> u64 \<Rightarrow> SysDB \<Rightarrow> error option \<times> SysDB" where
  "db_DeleteVectorMetadata cid v s =
     (case exec (w_fail (world_of s) 0) True
        (\<lambda>t. t\<lparr>t_metadata := filter (\<lambda>(c, u, k, x). \<not> (c = cid \<and> u = v)) (t_metadata t)\<rparr>) (db s) of
        (e, t) \<Rightarrow> (map_option (\<lambda>e. OtherError ''deleting vector metadata'' (Some e)) e, (next_call s)\<lparr>db := t\<rparr>))"

fun put_row :: "string \<times> u64 \<times> string \<times> string \<Rightarrow> 'n metadata \<Rightarrow> 'n metadata" where
  "put_row (c, u, k, x) m = m(k \<mapsto> Str x)"

definition db_LoadVectorMetadata :: "string \<Rightarrow> u64 \<Rightarrow> SysDB \<Rightarrow> error + 'n metadata" where
  "db_LoadVectorMetadata cid v s =
     (case w_fail (world_of s) 0 of Some e \<Rightarrow> Inl (OtherError ''loading vector metadata'' (Some e))
      | None \<Rightarrow> Inr (fold put_row (filter (\<lambda>(c, u, k, x). c = cid \<and> u = v) (t_metadata (db s))) Map.empty))"

definition scan_meta :: "(string \<times> u64 \<times> string \<times> string) list \<Rightarrow> (u64 \<rightharpoonup> 'n metadata) \<Rightarrow> (u64 \<rightharpoonup> 'n metadata)" where
  "scan_meta rows m = fold (\<lambda>(c, u, k, x) m. m(u \<mapsto> put_row (c, u, k, x) (map_get Map.empty m u))) rows m"

fun load_batches :: "world \<Rightarrow> nat \<Rightarrow> string \<Rightarrow> u64 list list \<Rightarrow> tables \<Rightarrow> (u64 \<rightharpoonup> 'n metadata) \<Rightarrow> error + (u64 \<rightharpoonup> 'n metadata)" where
  "load_batches w n cid [] t m = Inr m"
| "load_batches w n cid (batch # bs) t m =
     (case w_fail w n of Some e \<Rightarrow> Inl (OtherError ''loading vector metadata batch'' (Some e))
      | None \<Rightarrow> load_batches w (n + 1) cid bs t (scan_meta (filter (\<lambda>(c, u, k, x). c = cid \<and> u \<in> set batch) (t_metadata t)) m))"

definition db_LoadVectorMetadataBatch :: "string \<Rightarrow> u64 list \<Rightarrow> SysDB \<Rightarrow> error + (u64 \<rightharpoonup> 'n metadata)" where
  "db_LoadVectorMetadataBatch cid vs s =
     (if vs = [] then Inr Map.empty else load_batches (world_of s) 0 cid (batches vs) (db s) Map.empty)"

definition db_LoadAllVectorMetadata :: "string \<Rightarrow> SysDB \<Rightarrow> error + (u64 \<rightharpoonup> 'n metadata)" where
  "db_LoadAllVectorMetadata cid s =
     (case w_fail (world_of s) 0 of Some e \<Rightarrow> Inl (OtherError ''loading vector metadata'' (Some e))
      | None \<Rightarrow> Inr (scan_meta (filter (\<lambda>(c, u, k, x). c = cid) (t_metadata (db s))) Map.empty))"

subsection \<open>Filters as SQL\<close>

datatype 'n sql_value = SqlNull | SqlReal 'n | SqlText string

definition bind_value :: "'n::zero_neq_one any \<Rightarrow> error + 'n sql_value" where
  \<comment> \<open>the driver's conversion of an argument\<close>
  "bind_value a =
     (case a of Null \<Rightarrow> Inr SqlNull | Num x \<Rightarrow> Inr (SqlReal x) | Str s \<Rightarrow> Inr (SqlText s)
      | Bool p \<Rightarrow> Inr (SqlReal (if p then 1 else 0)) | _ \<Rightarrow> Inl (OtherError ''unsupported type'' None))"

definition sql_compare :: "(string \<Rightarrow> 'n option) \<Rightarrow> ('n \<Rightarrow> 'n \<Rightarrow> bool) \<Rightarrow> bool \<Rightarrow> 'n \<Rightarrow> 'n sql_value \<Rightarrow> bool" where
  \<comment> \<open>a number against a bound value: text that reads as a number (\<open>num\<close>) is converted, other text is larger\<close>
  "sql_compare num op larger x v =
     (case v of SqlNull \<Rightarrow> False | SqlReal y \<Rightarrow> op x y
      | SqlText s \<Rightarrow> (case num s of Some y \<Rightarrow> op x y | None \<Rightarrow> larger))"

record 'n sql =
  cast_real :: "string \<Rightarrow> 'n" \<comment> \<open>\<open>CAST(... AS REAL)\<close>\<close>
  numeric :: "string \<Rightarrow> 'n option"
  show_number :: "'n \<Rightarrow> string" \<comment> \<open>\<open>%v\<close> of a number\<close>

type_synonym condition = "string \<Rightarrow> string \<Rightarrow> bool" \<comment> \<open>on \<open>meta_key\<close> and \<open>meta_value\<close> of one row\<close>

definition numeric_condition ::
  "'n::{zero_neq_one,linorder} sql \<Rightarrow> 'n FieldFilter \<Rightarrow> ('n \<Rightarrow> 'n \<Rightarrow> bool) \<Rightarrow> bool \<Rightarrow> (error + condition) option" where
  "numeric_condition q ff op larger =
     Some (map_sum id (\<lambda>v k x. k = Field ff \<and> sql_compare (numeric q) op larger (cast_real q x) v) (bind_value (Value ff)))"

definition fieldFilterToSQL :: "'n::{zero_neq_one,linorder} sql \<Rightarrow> 'n FieldFilter \<Rightarrow> (error + condition) option" where
  \<comment> \<open>\<open>None\<close>: no condition\<close>
  "fieldFilterToSQL q ff =
     (let op = Operator ff in
      if op = ''$eq'' then Some (Inr (\<lambda>k x. k = Field ff \<and> x = sprint (show_number q) (Value ff)))
      else if op = ''$ne'' then Some (Inr (\<lambda>k x. k = Field ff \<and> x \<noteq> sprint (show_number q) (Value ff)))
      else if op = ''$gt'' then numeric_condition q ff (>) False
      else if op = ''$gte'' then numeric_condition q ff (\<ge>) False
      else if op = ''$lt'' then numeric_condition q ff (<) True
      else if op = ''$lte'' then numeric_condition q ff (\<le>) True
      else if op = ''$in'' then
        (if Values ff = [] then None
         else Some (Inr (\<lambda>k x. k = Field ff \<and> x \<in> set (map (sprint (show_number q)) (Values ff)))))
      else None)"

definition filterToSQL :: "'n::{zero_neq_one,linorder} sql \<Rightarrow> 'n Filter \<Rightarrow> (error + condition) list" where
  \<comment> \<open>the conditions joined by \<open>AND\<close>; those of \<open>OR\<close> are not looked at\<close>
  "filterToSQL q f = List.map_filter (fieldFilterToSQL q) (ANDs f)"

definition db_GetFilteredVectorIDs ::
  "'n::{zero_neq_one,linorder} sql \<Rightarrow> string \<Rightarrow> 'n Filter option \<Rightarrow> SysDB \<Rightarrow> error + u64 set option" where
  \<comment> \<open>\<open>None\<close> is the nil map\<close>
  "db_GetFilteredVectorIDs q cid filt s =
     (case filt of None \<Rightarrow> Inr None
      | Some f \<Rightarrow>
          (let conds = filterToSQL q f in
           if conds = [] then Inr None
           else case List.find isl conds of
             Some c \<Rightarrow> Inl (OtherError ''filtering vector IDs'' (Some (projl c)))
           | None \<Rightarrow>
               (case w_fail (world_of s) 0 of Some e \<Rightarrow> Inl (OtherError ''filtering vector IDs'' (Some e))
                | None \<Rightarrow> Inr (Some {u. \<exists>k x. (cid, u, k, x) \<in> set (t_metadata (db s)) \<and> (\<forall>c \<in> set conds. projr c k x)}))))"

subsection \<open>The operations the manager calls\<close>

definition sql_sysdb ::
  "('n \<Rightarrow> string) \<Rightarrow> (string set \<Rightarrow> string list) \<Rightarrow> (u64 set \<Rightarrow> u64 list) \<Rightarrow> (SysDB, 'n) sysdb_ops" where
  "sql_sysdb fn ord en = \<lparr>
     sd_ListCollections = db_ListCollections,
     sd_CreateCollection = db_CreateCollection,
     sd_CreateCollectionScoped = db_CreateCollectionScoped,
     sd_GetCollectionByName = (\<lambda>name s. case db_GetCollectionByName name s of Inl _ \<Rightarrow> None | Inr r \<Rightarrow> r),
     sd_DeleteCollection = db_DeleteCollection,
     sd_DeleteCollectionScoped = db_DeleteCollectionScoped,
     sd_UpdateVectorCount = db_UpdateVectorCount,
     sd_AddTombstone = db_AddTombstone,
     sd_RemoveTombstonesBatch = db_RemoveTombstonesBatch,
     sd_SaveVectorMetadata = db_SaveVectorMetadata fn ord,
     sd_DeleteVectorMetadata = db_DeleteVectorMetadata,
     sd_LoadVectorMetadataBatch = db_LoadVectorMetadataBatch,
     sd_LoadAllVectorMetadata = (\<lambda>cid s. map_sum id (\<lambda>m. map (\<lambda>v. (v, the (m v))) (en (dom m))) (db_LoadAllVectorMetadata cid s))\<rparr>"

definition db_listed :: "SysDB \<Rightarrow> string \<rightharpoonup> CollectionMeta" where
  "db_listed s = map_of (map (\<lambda>c. (cm_ID c, core c)) (t_collections (db s)))"

definition db_seen :: "SysDB \<Rightarrow> string set" where
  "db_seen s = (\<lambda>k. w_uuid (worlds s k)) ` {..<tick s}"

definition uuids_fresh :: "(nat \<Rightarrow> world) \<Rightarrow> bool" where
  "uuids_fresh ws \<longleftrightarrow> inj (\<lambda>k. w_uuid (ws k)) \<and> (\<forall>k. w_uuid (ws k) \<noteq> '''')"

definition db_ok :: "SysDB \<Rightarrow> bool" where
  "db_ok s \<longleftrightarrow> uuids_fresh (worlds s) \<and> collection_ids (db s) \<subseteq> db_seen s \<and> distinct (map cm_ID (t_collections (db s)))"


subsection \<open>The database is a catalogue\<close>

definition same_catalog :: "SysDB \<Rightarrow> SysDB \<Rightarrow> bool" where
  "same_catalog s s' \<longleftrightarrow> worlds s' = worlds s \<and> tick s \<le> tick s' \<and>
     map (\<lambda>c. (cm_ID c, core c)) (t_collections (db s')) = map (\<lambda>c. (cm_ID c, core c)) (t_collections (db s))"

lemma same_catalog_keeps:
  assumes "db_ok s" "same_catalog s s'"
  shows "keeps db_listed db_seen db_ok s s'"
proof -
  have W: "worlds s' = worlds s" "tick s \<le> tick s'"
    and M: "map (\<lambda>c. (cm_ID c, core c)) (t_collections (db s')) = map (\<lambda>c. (cm_ID c, core c)) (t_collections (db s))"
    using assms(2) by (auto simp: same_catalog_def)
  have ids: "map cm_ID (t_collections (db s')) = map cm_ID (t_collections (db s))"
    using arg_cong [OF M, of "map fst"] by (simp add: comp_def)
  have "db_seen s \<subseteq> db_seen s'" using W by (auto simp: db_seen_def)
  moreover have "collection_ids (db s') = collection_ids (db s)" using arg_cong [OF ids, of set] by (simp add: collection_ids_def)
  moreover have "db_listed s' = db_listed s" by (simp only: db_listed_def M)
  ultimately show ?thesis using assms(1) W ids unfolding keeps_def db_ok_def by auto
qed

lemma untomb_batches_collections [simp]: "t_collections (snd (untomb_batches w k cid bs t)) = t_collections t"
  by (induction w k cid bs t rule: untomb_batches.induct) (auto simp: exec_def split: option.splits)

lemma save_loop_collections [simp]: "t_collections (snd (save_loop w n cid v kxs t)) = t_collections t"
  by (induction w n cid v kxs t rule: save_loop.induct) (auto simp: exec_def split: option.splits)

lemma same_catalogI: "worlds s' = worlds s \<Longrightarrow> tick s \<le> tick s' \<Longrightarrow> t_collections (db s') = t_collections (db s) \<Longrightarrow> same_catalog s s'"
  by (simp add: same_catalog_def)

lemma db_keeps:
  "same_catalog s (snd (db_UpdateVectorCount cid n s))"
  "same_catalog s (snd (db_AddTombstone cid v s))"
  "same_catalog s (snd (db_RemoveTombstonesBatch cid vs s))"
  "same_catalog s (snd (db_SaveVectorMetadata fn ord cid v mm s))"
  "same_catalog s (snd (db_DeleteVectorMetadata cid v s))"
proof -
  show "same_catalog s (snd (db_UpdateVectorCount cid n s))"
    by (auto simp: db_UpdateVectorCount_def exec_def next_call_def same_catalog_def core_def split: option.splits)
  show "same_catalog s (snd (db_AddTombstone cid v s))"
    by (rule same_catalogI) (auto simp: db_AddTombstone_def exec_def next_call_def split: option.splits)
  show "same_catalog s (snd (db_DeleteVectorMetadata cid v s))"
    by (rule same_catalogI) (auto simp: db_DeleteVectorMetadata_def exec_def next_call_def split: option.splits)
  obtain e t where u: "untomb_batches (world_of s) 0 cid (batches vs) (db s) = (e, t)" by fastforce
  then have "t_collections t = t_collections (db s)" using untomb_batches_collections [of "world_of s" 0 cid "batches vs" "db s"] by simp
  then show "same_catalog s (snd (db_RemoveTombstonesBatch cid vs s))"
    by (intro same_catalogI) (auto simp: db_RemoveTombstonesBatch_def next_call_def u split: option.splits)
  define kxs where "kxs = map (\<lambda>k. (k, sprint fn (the (mm k)))) (ord (dom mm))"
  obtain e' t' where v: "save_loop (world_of s) 1 cid v kxs (db s) = (e', t')" by fastforce
  then have "t_collections t' = t_collections (db s)" using save_loop_collections [of "world_of s" 1 cid v kxs "db s"] by simp
  then show "same_catalog s (snd (db_SaveVectorMetadata fn ord cid v mm s))"
    using v by (intro same_catalogI) (auto simp: db_SaveVectorMetadata_def Let_def next_call_def kxs_def split: option.splits)
qed

lemma seen_next: "worlds s' = worlds s \<Longrightarrow> tick s' = tick s + 1 \<Longrightarrow> db_seen s' = insert (w_uuid (world_of s)) (db_seen s)"
  by (auto simp: db_seen_def world_of_def lessThan_Suc)

lemma db_creates:
  assumes "db_ok s"
  shows "creates db_listed db_seen db_ok d metric ty te name s (db_CreateCollectionScoped te dbid name d metric ty s)"
proof -
  define r where "r = db_CreateCollectionScoped te dbid name d metric ty s"
  define mt where "mt = \<lparr>cm_ID = w_uuid (world_of s), cm_TenantID = te, cm_DatabaseID = dbid, cm_Name = name, cm_Dimension = d,
    cm_Metric = metric, cm_IndexType = ty, cm_CreatedAt = w_now (world_of s), cm_VectorCount = 0\<rparr>"
  have w: "worlds (snd r) = worlds s" "tick (snd r) = tick s + 1"
    by (auto simp: r_def db_CreateCollectionScoped_def Let_def exec_def next_call_def split: option.splits)
  note sn = seen_next [OF w]
  consider (fails) e where "r = (Inl e, next_call s)"
    | (works) "r = (Inr mt, (next_call s)\<lparr>db := (db s)\<lparr>t_collections := t_collections (db s) @ [mt]\<rparr>\<rparr>)"
    by (fastforce simp: r_def db_CreateCollectionScoped_def mt_def Let_def exec_def next_call_def split: option.splits if_splits)
  then show ?thesis
  proof cases
    case fails
    then show ?thesis using assms sn w
      by (auto simp: creates_def db_ok_def db_listed_def next_call_def simp flip: r_def)
  next
    case works
    have fresh: "cm_ID mt \<notin> db_seen s"
      using assms unfolding db_ok_def uuids_fresh_def db_seen_def mt_def world_of_def inj_def by auto
    then have new: "cm_ID mt \<notin> collection_ids (db s)" using assms by (auto simp: db_ok_def)
    have "db_listed (snd r) = (db_listed s)(cm_ID mt \<mapsto> core mt)"
    proof -
      have "map_of (map (\<lambda>c. (cm_ID c, core c)) (t_collections (db s))) (cm_ID mt) = None"
        using new by (auto simp: map_of_eq_None_iff collection_ids_def image_image)
      then show ?thesis by (auto simp: works db_listed_def fun_eq_iff map_add_def split: option.split)
    qed
    moreover have "db_ok (snd r)" using assms new w sn unfolding db_ok_def by (auto simp: works collection_ids_def mt_def)
    moreover have "cm_ID mt \<noteq> ''''" using assms by (simp add: mt_def world_of_def db_ok_def uuids_fresh_def)
    moreover have "cm_ID mt = w_uuid (world_of s)" "cm_TenantID mt = te" "cm_Name mt = name" "cm_Dimension mt = d"
      "cm_Metric mt = metric" "cm_IndexType mt = ty" by (simp_all add: mt_def)
    ultimately have "creates db_listed db_seen db_ok d metric ty te name s r" using fresh sn by (simp add: works creates_def subset_insertI)
    then show ?thesis by (simp add: r_def)
  qed
qed

lemma listed_filter:
  "map_of (map (\<lambda>c. (cm_ID c, core c)) (filter (\<lambda>c. cm_ID c \<noteq> cid) cs)) = (map_of (map (\<lambda>c. (cm_ID c, core c)) cs))(cid := None)"
  by (induction cs) auto

lemma delete_where_removes:
  assumes "db_ok s" "\<And>c. P c \<Longrightarrow> cm_ID c = cid"
  shows "removes db_listed db_seen db_ok cid s (delete_where P cid s)"
proof -
  define r where "r = delete_where P cid s"
  have w: "worlds (snd r) = worlds s" "tick (snd r) = tick s + 1"
    by (auto simp: r_def delete_where_def exec_def next_call_def split: option.splits)
  have dis: "distinct (map cm_ID (t_collections (db s)))" using assms(1) by (simp add: db_ok_def)
  have cols: "t_collections (db (snd r)) = (if fst r = None then filter (\<lambda>c. \<not> P c) (t_collections (db s)) else t_collections (db s))"
  proof (cases "filter P (t_collections (db s)) = []")
    case True
    then show ?thesis
      by (auto simp: r_def delete_where_def exec_def next_call_def remove_collections_def Let_def filter_empty_conv filter_id_conv split: option.splits)
  next
    case False
    then show ?thesis by (auto simp: r_def delete_where_def exec_def next_call_def remove_collections_def Let_def split: option.splits)
  qed
  have ne: "filter P (t_collections (db s)) \<noteq> []" if "fst r = None"
    using that by (auto simp: r_def delete_where_def exec_def split: option.splits if_splits)
  have "db_listed (snd r) = (if fst r = None then (db_listed s)(cid := None) else db_listed s)"
  proof (cases "fst r")
    case None
    then obtain c0 where c0: "c0 \<in> set (t_collections (db s))" "P c0" using ne by (auto simp: filter_empty_conv)
    have "P c \<longleftrightarrow> cm_ID c = cid" if "c \<in> set (t_collections (db s))" for c
      using dis that c0 assms(2) [OF c0(2)] assms(2) [of c] by (auto simp: distinct_map inj_on_def)
    then have "filter (\<lambda>c. \<not> P c) (t_collections (db s)) = filter (\<lambda>c. cm_ID c \<noteq> cid) (t_collections (db s))"
      by (auto intro: filter_cong)
    then show ?thesis using None cols by (simp add: db_listed_def listed_filter)
  next
    case (Some e)
    then show ?thesis unfolding db_listed_def cols by simp
  qed
  moreover have "db_seen s \<subseteq> db_seen (snd r)" using seen_next [OF w] by auto
  moreover have "db_ok (snd r)"
    using assms(1) seen_next [OF w] w(1) cols dis
    by (auto simp: db_ok_def collection_ids_def distinct_map inj_on_def split: if_splits)
  ultimately show ?thesis by (simp add: removes_def flip: r_def)
qed

interpretation sq: catalog "sql_sysdb fn ord en" db_listed db_seen db_ok for fn ord en
proof
  fix s cols d metric ty te dbid name cid n v vs and mm :: "'a metadata"
  assume ok: "db_ok s"
  show "dom (db_listed s) \<subseteq> db_seen s"
    using ok by (simp add: db_ok_def db_listed_def collection_ids_def dom_map_of_conv_image_fst image_image)
  show "map_of (map (\<lambda>mt. (cm_ID mt, core mt)) cols) = db_listed s \<and> distinct (map cm_ID cols)"
    if "sd_ListCollections (sql_sysdb fn ord en) s = Inr cols"
  proof -
    have cols: "cols = sort_key cm_CreatedAt (t_collections (db s))"
      using that by (auto simp: sql_sysdb_def db_ListCollections_def scanCollections_def split: option.splits)
    have dis: "distinct (map cm_ID (t_collections (db s)))" using ok by (simp add: db_ok_def)
    then have dis': "distinct (map cm_ID cols)" unfolding cols by (simp add: distinct_map)
    have "map_of (map (\<lambda>mt. (cm_ID mt, core mt)) cols) = map_of (map (\<lambda>mt. (cm_ID mt, core mt)) (t_collections (db s)))"
      using dis dis' by (subst map_of_inject_set) (simp_all add: comp_def cols)
    then show ?thesis using dis' by (simp add: db_listed_def)
  qed
  show "creates db_listed db_seen db_ok d metric ty '''' name s (sd_CreateCollection (sql_sysdb fn ord en) name d metric ty s)"
    using db_creates [OF ok] by (simp add: sql_sysdb_def db_CreateCollection_def)
  show "creates db_listed db_seen db_ok d metric ty te name s (sd_CreateCollectionScoped (sql_sysdb fn ord en) te dbid name d metric ty s)"
    using db_creates [OF ok] by (simp add: sql_sysdb_def)
  show "removes db_listed db_seen db_ok cid s (sd_DeleteCollection (sql_sysdb fn ord en) cid s)"
    using delete_where_removes [OF ok] by (simp add: sql_sysdb_def db_DeleteCollection_def)
  show "removes db_listed db_seen db_ok cid s (sd_DeleteCollectionScoped (sql_sysdb fn ord en) te cid s)"
    unfolding sql_sysdb_def db_DeleteCollectionScoped_def sysdb_ops.simps by (rule delete_where_removes [OF ok]) simp
qed (simp_all add: sql_sysdb_def same_catalog_keeps db_keeps)


subsection \<open>The tombstone cache\<close>

text \<open>The operations of \<open>sqlite.go\<close> on a database (those of \<open>tenant.go\<close>, with \<open>DeleteTenant\<close>, are in theory \<open>Tenants\<close>); a
  removal of tombstones in several statements that fails half-way is left out.\<close>

inductive db_run :: "('n \<Rightarrow> string) \<Rightarrow> SysDB \<Rightarrow> SysDB \<Rightarrow> bool" for fn s0 where
  start: "db_run fn s0 s0"
| create: "db_run fn s0 s \<Longrightarrow> db_CreateCollectionScoped te dbid name d metric ty s = (r, s') \<Longrightarrow> db_run fn s0 s'"
| delete: "db_run fn s0 s \<Longrightarrow> db_DeleteCollection cid s = (r, s') \<Longrightarrow> db_run fn s0 s'"
| delete_scoped: "db_run fn s0 s \<Longrightarrow> db_DeleteCollectionScoped te cid s = (r, s') \<Longrightarrow> db_run fn s0 s'"
| update_count: "db_run fn s0 s \<Longrightarrow> db_UpdateVectorCount cid n s = (r, s') \<Longrightarrow> db_run fn s0 s'"
| add: "db_run fn s0 s \<Longrightarrow> db_AddTombstone cid v s = (r, s') \<Longrightarrow> db_run fn s0 s'"
| remove: "db_run fn s0 s \<Longrightarrow> db_RemoveTombstone cid v s = (r, s') \<Longrightarrow> db_run fn s0 s'"
| remove_batch: "db_run fn s0 s \<Longrightarrow> db_RemoveTombstonesBatch cid vs s = (r, s') \<Longrightarrow> r = None \<or> length vs \<le> maxBatch \<Longrightarrow> db_run fn s0 s'"
| save: "db_run fn s0 s \<Longrightarrow> db_SaveVectorMetadata fn ord cid v mm s = (r, s') \<Longrightarrow> db_run fn s0 s'"
| delete_meta: "db_run fn s0 s \<Longrightarrow> db_DeleteVectorMetadata cid v s = (r, s') \<Longrightarrow> db_run fn s0 s'"

definition tombs_in :: "(bool \<Rightarrow> bool \<Rightarrow> bool) \<Rightarrow> SysDB \<Rightarrow> bool" where
  \<comment> \<open>\<open>R\<close> relates the cache to the table\<close>
  "tombs_in R s \<longleftrightarrow> (\<forall>cid v. R (IsTombstoned cid v s) ((cid, v) \<in> set (t_tombstones (db s))))"

abbreviation tombs_agree :: "SysDB \<Rightarrow> bool" where
  "tombs_agree \<equiv> tombs_in (=)"

lemma is_tombstoned_get: "IsTombstoned cid v s \<longleftrightarrow> v \<in> map_get {} (tombstones s) cid"
  by (simp add: IsTombstoned_def map_get_def split: option.split)

lemma add_tomb_get [simp]: "map_get {} (add_tomb cid v m) c = (if c = cid then insert v (map_get {} m cid) else map_get {} m c)"
  by (simp add: add_tomb_def map_get_def)

lemma drop_tombs_get [simp]: "map_get {} (drop_tombs cid V m) c = (if c = cid then map_get {} m cid - V else map_get {} m c)"
  by (simp add: drop_tombs_def map_get_def split: option.split)

lemma map_get_empty [simp]: "map_get d Map.empty k = d"
  by (simp add: map_get_def)

lemma loadTombstones_get: "v \<in> map_get {} (loadTombstones rows m) cid \<longleftrightarrow> v \<in> map_get {} m cid \<or> (cid, v) \<in> set rows"
  unfolding loadTombstones_def
proof (induction rows arbitrary: m)
  case (Cons r rows)
  obtain c u where r: "r = (c, u)" by fastforce
  show ?case unfolding r by (simp add: Cons.IH) blast
qed simp

lemma tombs_agree_start: "NewSysDB ws t = Inr s \<Longrightarrow> tombs_agree s"
  by (auto simp: NewSysDB_def tombs_in_def is_tombstoned_get loadTombstones_get split: option.splits)

lemma tombs_in_cong:
  assumes "tombs_in R s" "tombstones s' = tombstones s" "t_tombstones (db s') = t_tombstones (db s)"
  shows "tombs_in R s'"
  using assms by (simp add: tombs_in_def is_tombstoned_get)

lemma save_loop_tombs [simp]: "t_tombstones (snd (save_loop w n cid v kxs t)) = t_tombstones t"
  by (induction w n cid v kxs t rule: save_loop.induct) (auto simp: exec_def split: option.splits)

lemma concat_batches [simp]: "concat (batches xs) = xs"
proof (induction xs rule: batches.induct)
  case (1 xs)
  show ?case by (subst batches.simps) (use 1 in simp)
qed

lemma batches_one: "xs \<noteq> [] \<Longrightarrow> length xs \<le> maxBatch \<Longrightarrow> batches xs = [xs]"
  by (subst batches.simps, simp, subst batches.simps, simp)

lemma untomb_batches_ok:
  "untomb_batches w k cid bs t = (None, t') \<Longrightarrow>
   t' = t\<lparr>t_tombstones := filter (\<lambda>(c, v). \<not> (c = cid \<and> v \<in> set (concat bs))) (t_tombstones t)\<rparr>"
proof (induction w k cid bs t rule: untomb_batches.induct)
  case (1 w k cid t)
  then show ?case by (simp add: case_prod_beta)
next
  case (2 w k cid b bs t)
  define t1 where "t1 = t\<lparr>t_tombstones := filter (\<lambda>(c, v). \<not> (c = cid \<and> v \<in> set b)) (t_tombstones t)\<rparr>"
  have e: "exec (w_fail w k) True (\<lambda>t. t\<lparr>t_tombstones := filter (\<lambda>(c, v). \<not> (c = cid \<and> v \<in> set b)) (t_tombstones t)\<rparr>) t = (None, t1)"
    "untomb_batches w (k + 1) cid bs t1 = (None, t')"
    using 2(2) by (auto simp: exec_def t1_def split: option.splits)
  have eq: "filter (\<lambda>(c, v). \<not> (c = cid \<and> v \<in> set (concat bs))) (filter (\<lambda>(c, v). \<not> (c = cid \<and> v \<in> set b)) rs) =
      filter (\<lambda>(c, v). \<not> (c = cid \<and> v \<in> set (concat (b # bs)))) rs" for rs by (induction rs) auto
  show ?case using 2(1) [OF e(1) [symmetric] refl e(2)] unfolding t1_def
    by (cases t) (simp only: tables.simps eq)
qed

lemma tombs_in_delete_where:
  assumes "tombs_in R s" "\<And>c. P c \<Longrightarrow> cm_ID c = cid" "delete_where P cid s = (r, s')" "\<And>b. R b b"
  shows "tombs_in R s'"
proof -
  have "cm_ID ` set (filter P (t_collections (db s))) \<subseteq> {cid}" using assms(2) by auto
  then consider "filter P (t_collections (db s)) = []" | "filter P (t_collections (db s)) \<noteq> []" "cm_ID ` set (filter P (t_collections (db s))) = {cid}"
    by (metis image_is_empty set_empty subset_singletonD)
  then show ?thesis
  proof cases
    case 1
    then have "tombstones s' = tombstones s" "t_tombstones (db s') = t_tombstones (db s)"
      using assms(3) by (auto simp: delete_where_def exec_def next_call_def remove_collections_def Let_def case_prod_beta split: option.splits)
    then show ?thesis by (rule tombs_in_cong [OF assms(1)])
  next
    case 2
    then consider "tombstones s' = tombstones s" "t_tombstones (db s') = t_tombstones (db s)"
      | "tombstones s' = (tombstones s)(cid := None)" "t_tombstones (db s') = filter (\<lambda>(c, v). c \<noteq> cid) (t_tombstones (db s))"
      using assms(3) by (auto simp: delete_where_def exec_def next_call_def remove_collections_def Let_def split: option.splits)
    then show ?thesis
      using assms(1,4) by cases (auto simp: tombs_in_def is_tombstoned_get map_get_def split: if_splits)
  qed
qed

lemma db_run_tombs:
  assumes "db_run fn s0 s" "tombs_in R s0" and R: "\<And>b. R b b"
  shows "tombs_in R s"
proof -
  have R': "R (p \<or> a) (p \<or> b \<and> \<not> p)" "R (a \<and> \<not> p) (b \<and> \<not> p)" if "R a b" for p a b using that R by (cases p; simp)+
  show ?thesis using assms(1,2)
proof (induction rule: db_run.induct)
  case (create s te dbid name d metric ty r s')
  then show ?case
    by (auto simp: db_CreateCollectionScoped_def Let_def exec_def next_call_def split: option.splits if_splits intro: tombs_in_cong)
next
  case (delete s cid r s')
  then show ?case using tombs_in_delete_where [of R s "\<lambda>c. cm_ID c = cid" cid r s'] R by (simp add: db_DeleteCollection_def)
next
  case (delete_scoped s te cid r s')
  then show ?case using tombs_in_delete_where [of R s "\<lambda>c. cm_ID c = cid \<and> cm_TenantID c = te" cid r s'] R by (simp add: db_DeleteCollectionScoped_def)
next
  case (update_count s cid n r s')
  then show ?case by (auto simp: db_UpdateVectorCount_def exec_def next_call_def split: option.splits intro: tombs_in_cong)
next
  case (add s cid v r s')
  then show ?case
    by (auto simp: db_AddTombstone_def exec_def next_call_def tombs_in_def is_tombstoned_get R split: option.splits if_splits) (metis R'(1))+
next
  case (remove s cid v r s')
  then show ?case
    by (auto simp: db_RemoveTombstone_def exec_def next_call_def tombs_in_def is_tombstoned_get R split: option.splits if_splits) (metis R'(2))+
next
  case (remove_batch s cid vs r s')
  show ?case
  proof (cases "vs = []")
    case True
    then show ?thesis using remove_batch by (simp add: db_RemoveTombstonesBatch_def)
  next
    case False
    obtain e t where u: "untomb_batches (world_of s) 0 cid (batches vs) (db s) = (e, t)" by fastforce
    show ?thesis
    proof (cases e)
      case None
      then have "t = (db s)\<lparr>t_tombstones := filter (\<lambda>(c, v). \<not> (c = cid \<and> v \<in> set vs)) (t_tombstones (db s))\<rparr>"
        using untomb_batches_ok u by fastforce
      then show ?thesis using remove_batch False u None
        by (auto simp: db_RemoveTombstonesBatch_def next_call_def tombs_in_def is_tombstoned_get R split: if_splits) (metis R'(2))+
    next
      case (Some x)
      then have "length vs \<le> maxBatch" using remove_batch False u by (auto simp: db_RemoveTombstonesBatch_def)
      then have "t = db s" using u Some False by (auto simp: batches_one exec_def split: option.splits)
      then show ?thesis using remove_batch False u Some
        by (auto simp: db_RemoveTombstonesBatch_def next_call_def intro: tombs_in_cong)
    qed
  qed
next
  case (save s ord cid v mm r s')
  obtain e t where u: "save_loop (world_of s) 1 cid v (map (\<lambda>k. (k, sprint fn (the (mm k)))) (ord (dom mm))) (db s) = (e, t)" by fastforce
  then have "t_tombstones t = t_tombstones (db s)" by (metis save_loop_tombs snd_conv)
  then show ?case using save u
    by (auto simp: db_SaveVectorMetadata_def Let_def next_call_def split: option.splits if_splits intro: tombs_in_cong)
next
  case (delete_meta s cid v r s')
  then show ?case by (auto simp: db_DeleteVectorMetadata_def exec_def next_call_def split: option.splits intro: tombs_in_cong)
qed
qed


subsection \<open>Metadata as it comes back\<close>

definition meta_at :: "tables \<Rightarrow> string \<Rightarrow> u64 \<Rightarrow> 'n metadata" where
  "meta_at t cid v = fold put_row (filter (\<lambda>(c, u, k, x). c = cid \<and> u = v) (t_metadata t)) Map.empty"

lemma put_rows_add: "fold put_row rows m = m ++ fold put_row rows Map.empty"
proof (induction rows rule: rev_induct)
  case (snoc r rows)
  obtain c u k x where r: "r = (c, u, k, x)" by (cases r)
  have "fold put_row (rows @ [r]) m = (m ++ fold put_row rows Map.empty)(k \<mapsto> Str x)"
    unfolding fold_append comp_apply snoc.IH by (simp add: r del: fun_upd_apply)
  then show ?case by (simp add: r del: fun_upd_apply)
qed simp

lemma LoadVectorMetadata_eq: "db_LoadVectorMetadata cid v s = (case w_fail (world_of s) 0 of
    Some e \<Rightarrow> Inl (OtherError ''loading vector metadata'' (Some e)) | None \<Rightarrow> Inr (meta_at (db s) cid v))"
  unfolding db_LoadVectorMetadata_def meta_at_def ..

lemma scan_meta_get:
  "map_get Map.empty (scan_meta rows m) v = fold put_row (filter (\<lambda>(c, u, k, x). u = v) rows) (map_get Map.empty m v)"
  unfolding scan_meta_def
proof (induction rows arbitrary: m)
  case (Cons r rows)
  obtain c u k x where r: "r = (c, u, k, x)" by (cases r)
  have "map_get Map.empty (m(u \<mapsto> put_row (c, u, k, x) (map_get Map.empty m u))) v =
      (if u = v then put_row (c, u, k, x) (map_get Map.empty m v) else map_get Map.empty m v)" by (simp add: map_get_def)
  then show ?case using Cons.IH by (simp add: r del: fun_upd_apply put_row.simps)
qed simp

lemma load_batches_get:
  "load_batches w n cid bs t m = Inr r \<Longrightarrow>
   map_get Map.empty r v = map_get Map.empty m v ++ (if v \<in> set (concat bs) then meta_at t cid v else Map.empty)"
proof (induction bs arbitrary: n m)
  case (Cons b bs)
  define m1 where "m1 = scan_meta (filter (\<lambda>(c, u, k, x). c = cid \<and> u \<in> set b) (t_metadata t)) m"
  have "load_batches w (n + 1) cid bs t m1 = Inr r" using Cons.prems by (auto simp: m1_def split: option.splits)
  from Cons.IH [OF this]
  have IH: "map_get Map.empty r v = map_get Map.empty m1 v ++ (if v \<in> set (concat bs) then meta_at t cid v else Map.empty)" .
  have "filter (\<lambda>(c, u, k, x). u = v) (filter (\<lambda>(c, u, k, x). c = cid \<and> u \<in> set b) (t_metadata t)) =
      (if v \<in> set b then filter (\<lambda>(c, u, k, x). c = cid \<and> u = v) (t_metadata t) else [])"
    by (induction "t_metadata t") (auto simp: filter_empty_conv intro!: filter_cong)
  then have "map_get Map.empty m1 v = map_get Map.empty m v ++ (if v \<in> set b then meta_at t cid v else Map.empty)"
    unfolding m1_def scan_meta_get by (subst put_rows_add) (simp add: meta_at_def)
  then show ?case using IH by (auto simp: fun_eq_iff map_add_def split: option.splits)
qed simp

lemma LoadVectorMetadataBatch_get:
  "db_LoadVectorMetadataBatch cid vs s = Inr bm \<Longrightarrow>
   map_get Map.empty bm v = (if v \<in> set vs then meta_at (db s) cid v else Map.empty)"
  using load_batches_get [of "world_of s" 0 cid "batches vs" "db s" Map.empty bm v]
  by (auto simp: db_LoadVectorMetadataBatch_def split: if_splits)

lemma put_rows_without:
  "fold put_row (filter (\<lambda>(c, u, l, y). l \<noteq> k) rows) Map.empty = (fold put_row rows Map.empty)(k := None)"
proof (induction rows rule: rev_induct)
  case (snoc r rows)
  obtain c u l x where r: "r = (c, u, l, x)" by (cases r)
  show ?case using snoc by (auto simp: r fun_eq_iff)
qed simp

lemma meta_at_put:
  "meta_at (t\<lparr>t_metadata := filter (\<lambda>(c, u, l, y). \<not> (c = cid \<and> u = v \<and> l = k)) (t_metadata t) @ [(cid, v, k, x)]\<rparr>) cid v =
   (meta_at t cid v)(k \<mapsto> Str x)"
proof -
  have "filter (\<lambda>(c, u, k, x). c = cid \<and> u = v) (filter (\<lambda>(c, u, l, y). \<not> (c = cid \<and> u = v \<and> l = k)) rs) =
    filter (\<lambda>(c, u, l, y). l \<noteq> k) (filter (\<lambda>(c, u, k, x). c = cid \<and> u = v) rs)" for rs :: "(string \<times> u64 \<times> string \<times> string) list"
    by (induction rs) auto
  then show ?thesis unfolding meta_at_def tables.simps filter_append fold_append comp_apply by (simp add: put_rows_without del: filter_filter)
qed

lemma save_loop_meta:
  "save_loop w n cid v kxs t = (None, t') \<Longrightarrow> (meta_at t' cid v :: 'n metadata) = fold (\<lambda>(k, x) m. m(k \<mapsto> Str x)) kxs (meta_at t cid v)"
proof (induction w n cid v kxs t rule: save_loop.induct)
  case (2 w n cid v k x kxs t)
  define f where "f = (\<lambda>t :: tables. t\<lparr>t_metadata := filter (\<lambda>(c, u, l, y). \<not> (c = cid \<and> u = v \<and> l = k)) (t_metadata t) @ [(cid, v, k, x)]\<rparr>)"
  have e: "exec (w_fail w n) (cid \<in> collection_ids t) f t = (None, f t)" "save_loop w (n + 1) cid v kxs (f t) = (None, t')"
    using 2(2) unfolding f_def by (auto simp: exec_def split: option.splits if_splits)
  show ?case using 2(1) [OF e(1) [symmetric, unfolded f_def] refl e(2) [unfolded f_def]] meta_at_put [of cid v k t x, where ?'a = 'n] by (simp del: fun_upd_apply)
qed simp

lemma save_loop_other:
  "save_loop w n cid v kxs t = (None, t') \<Longrightarrow> (c, u) \<noteq> (cid, v) \<Longrightarrow> (meta_at t' c u :: 'n metadata) = meta_at t c u"
proof (induction w n cid v kxs t rule: save_loop.induct)
  case (2 w n cid v k x kxs t)
  define f where "f = (\<lambda>t :: tables. t\<lparr>t_metadata := filter (\<lambda>(c, u, l, y). \<not> (c = cid \<and> u = v \<and> l = k)) (t_metadata t) @ [(cid, v, k, x)]\<rparr>)"
  have e: "exec (w_fail w n) (cid \<in> collection_ids t) f t = (None, f t)" "save_loop w (n + 1) cid v kxs (f t) = (None, t')"
    using 2(2) unfolding f_def by (auto simp: exec_def split: option.splits if_splits)
  have "filter (\<lambda>(c', u', k, x). c' = c \<and> u' = u) (t_metadata (f t)) = filter (\<lambda>(c', u', k, x). c' = c \<and> u' = u) (t_metadata t)"
    using 2(3) by (auto simp: f_def intro!: filter_cong)
  then have "(meta_at (f t) c u :: 'n metadata) = meta_at t c u" by (simp add: meta_at_def)
  then show ?case using 2(1) [OF e(1) [symmetric, unfolded f_def] refl e(2) [unfolded f_def] 2(3)] by (simp add: f_def)
qed simp

lemma fold_keys:
  fixes m mm :: "'n metadata"
  shows
  "set ks \<subseteq> dom mm \<Longrightarrow> fold (\<lambda>(k, x) m. m(k \<mapsto> Str x)) (map (\<lambda>k. (k, sprint fn (the (mm k)))) ks) m =
   (\<lambda>k. if k \<in> set ks then map_option (\<lambda>a. Str (sprint fn a)) (mm k) else m k)"
  by (induction ks arbitrary: m) (auto simp: fun_eq_iff)

lemma compareEqual_stored: "inj fn \<Longrightarrow> compareEqual fn (Str (sprint fn a)) = compareEqual fn a"
  by (rule ext) (simp add: compareEqual_sprint)

lemma ff_Match_equality:
  assumes "inj fn" "Operator ff \<in> {''$eq'', ''$ne'', ''$in'', ''$nin''}"
  shows "ff_Match fn ff (\<lambda>k. map_option (\<lambda>a. Str (sprint fn a)) (m k)) = ff_Match fn ff m"
proof (cases "m (Field ff)")
  case None
  then show ?thesis by (simp add: ff_Match_def)
next
  case (Some a)
  then show ?thesis using assms(2) by (elim insertE emptyE) (simp_all add: ff_Match_def compareEqual_stored [OF assms(1)])
qed

definition texts :: "('n \<Rightarrow> string) \<Rightarrow> 'n metadata \<Rightarrow> 'n metadata" where
  "texts fn mm = (\<lambda>k. map_option (\<lambda>a. Str (sprint fn a)) (mm k))"

lemma saved_metadata:
  assumes "db_SaveVectorMetadata fn ord cid v mm s = (None, s')" "finite (dom mm)" "enumerates ord"
  shows "(meta_at (db s') cid v :: 'n metadata) = meta_at (db s) cid v ++ texts fn mm"
    "(c, u) \<noteq> (cid, v) \<Longrightarrow> (meta_at (db s') c u :: 'n metadata) = meta_at (db s) c u"
proof -
  let ?kxs = "map (\<lambda>k. (k, sprint fn (the (mm k)))) (ord (dom mm))"
  have ks: "set (ord (dom mm)) = dom mm" using assms(2,3) by (simp add: enumerates_def)
  have "db s' = db s \<and> dom mm = {} \<or> save_loop (world_of s) 1 cid v ?kxs (db s) = (None, db s')"
    using assms(1) ks by (auto simp: db_SaveVectorMetadata_def Let_def next_call_def split: option.splits if_splits prod.splits)
  then show "(meta_at (db s') cid v :: 'n metadata) = meta_at (db s) cid v ++ texts fn mm"
    "(c, u) \<noteq> (cid, v) \<Longrightarrow> (meta_at (db s') c u :: 'n metadata) = meta_at (db s) c u"
  proof (atomize (full), elim disjE conjE)
    assume "db s' = db s" "dom mm = {}"
    then show "(meta_at (db s') cid v :: 'n metadata) = meta_at (db s) cid v ++ texts fn mm \<and>
      ((c, u) \<noteq> (cid, v) \<longrightarrow> (meta_at (db s') c u :: 'n metadata) = meta_at (db s) c u)" by (simp add: texts_def map_add_def)
  next
    assume l: "save_loop (world_of s) 1 cid v ?kxs (db s) = (None, db s')"
    have "(meta_at (db s') cid v :: 'n metadata) = meta_at (db s) cid v ++ texts fn mm"
      unfolding save_loop_meta [OF l] fold_keys [OF equalityD1 [OF ks]] ks
      by (auto simp: fun_eq_iff texts_def map_add_def split: option.split)
    then show "(meta_at (db s') cid v :: 'n metadata) = meta_at (db s) cid v ++ texts fn mm \<and>
      ((c, u) \<noteq> (cid, v) \<longrightarrow> (meta_at (db s') c u :: 'n metadata) = meta_at (db s) c u)" using save_loop_other [OF l] by blast
  qed
qed



subsection \<open>Pre-filtering in SQL\<close>

definition eq_filter :: "string \<Rightarrow> 'n any \<Rightarrow> 'n FieldFilter" where
  "eq_filter f a = field_filter f ''$eq'' a []"

lemma fieldFilterToSQL_eq:
  "fieldFilterToSQL q (eq_filter f a) = Some (Inr (\<lambda>k x. k = f \<and> x = sprint (show_number q) a))"
  by (simp add: fieldFilterToSQL_def eq_filter_def field_filter_def)

lemma compareEqual_text: "compareEqual fn (Str x) a \<longleftrightarrow> x = sprint fn a"
  by (cases a) (auto simp: compareEqual_def)

lemma put_rows_last:
  assumes "distinct (map (\<lambda>(c, u, k, x). (c, u, k)) rows)" "\<forall>(c, u, k, x) \<in> set rows. c = cid \<and> u = v"
  shows "fold put_row rows Map.empty k = Some (Str x) \<longleftrightarrow> (cid, v, k, x) \<in> set rows"
  using assms
proof (induction rows rule: rev_induct)
  case (snoc r rows)
  obtain c u l y where r: "r = (c, u, l, y)" by (cases r)
  then have "c = cid" "u = v" using snoc.prems(2) by auto
  then show ?case using snoc by (force simp: r)
qed simp

lemma meta_at_rows:
  assumes "distinct (map (\<lambda>(c, u, k, x). (c, u, k)) (t_metadata t))"
  shows "meta_at t cid v k = Some (Str x) \<longleftrightarrow> (cid, v, k, x) \<in> set (t_metadata t)"
    and "meta_at t cid v k = Some a \<Longrightarrow> \<exists>x. a = Str x"
proof -
  let ?R = "filter (\<lambda>(c, u, k, x). c = cid \<and> u = v) (t_metadata t)"
  have "distinct (map (\<lambda>(c, u, k, x). (c, u, k)) ?R)" using assms by (simp add: distinct_map_filter)
  then show "meta_at t cid v k = Some (Str x) \<longleftrightarrow> (cid, v, k, x) \<in> set (t_metadata t)"
    using put_rows_last [of ?R cid v k x] by (auto simp: meta_at_def)
  show "\<exists>x. a = Str x" if "meta_at t cid v k = Some a"
  proof -
    have "fold put_row rows m k = Some a \<Longrightarrow> m k = Some a \<or> (\<exists>x. a = Str x)" for rows m
      by (induction rows arbitrary: m) (fastforce split: if_splits)+
    then show ?thesis using that by (fastforce simp: meta_at_def)
  qed
qed

text \<open>Pre-filtering: \<open>GetFilteredVectorIDs\<close> returns exactly the vectors whose stored metadata match when
  the filter is one equality, but in general it does not implement the filter: the alternatives of \<open>$or\<close>
  are ignored, so too many vectors are returned, and two conditions on different fields are asked of
  one row of the key-value table, so none is.\<close>

theorem filtered_ids_one_condition:
  fixes q :: "'n::{zero_neq_one,linorder} sql"
  assumes "w_fail (world_of s) 0 = None" "distinct (map (\<lambda>(c, u, k, x). (c, u, k)) (t_metadata (db s)))" "f \<noteq> g"
  shows "db_GetFilteredVectorIDs q cid (Some (Filter [eq_filter f a] [])) s =
      Inr (Some {v. \<exists>m. db_LoadVectorMetadata cid v s = Inr m \<and> Match (show_number q) m (Filter [eq_filter f a] [])}) \<and>
    db_GetFilteredVectorIDs q cid (Some (Filter an ors)) s = db_GetFilteredVectorIDs q cid (Some (Filter an [])) s \<and>
    db_GetFilteredVectorIDs q cid (Some (Filter [eq_filter f a, eq_filter g a'] [])) s = Inr (Some {})"
proof (intro conjI)
  note eq = fieldFilterToSQL_eq
  have "(cid, v, f, sprint (show_number q) a) \<in> set (t_metadata (db s)) \<longleftrightarrow> Match (show_number q) (meta_at (db s) cid v) (Filter [eq_filter f a] [])" for v
  proof -
    have M: "Match (show_number q) m (Filter [eq_filter f a] []) = (case m f of None \<Rightarrow> False | Some y \<Rightarrow> compareEqual (show_number q) y a)" for m
      by (simp add: ff_Match_def eq_filter_def field_filter_def Let_def split: option.split)
    show ?thesis
    proof (cases "meta_at (db s) cid v f :: 'n any option")
      case None
      then show ?thesis unfolding M using meta_at_rows(1) [OF assms(2), of cid v f "sprint (show_number q) a", where ?'a = 'n] by simp
    next
      case (Some y)
      then obtain x where y: "y = Str x" using meta_at_rows(2) [OF assms(2)] by blast
      then show ?thesis unfolding M using Some meta_at_rows(1) [OF assms(2), of cid v f "sprint (show_number q) a", where ?'a = 'n]
        by (auto simp: compareEqual_text)
    qed
  qed
  then show "db_GetFilteredVectorIDs q cid (Some (Filter [eq_filter f a] [])) s =
      Inr (Some {v. \<exists>m. db_LoadVectorMetadata cid v s = Inr m \<and> Match (show_number q) m (Filter [eq_filter f a] [])})"
    using assms(1) by (simp add: db_GetFilteredVectorIDs_def filterToSQL_def List.map_filter_def eq LoadVectorMetadata_eq)
  show "db_GetFilteredVectorIDs q cid (Some (Filter an ors)) s = db_GetFilteredVectorIDs q cid (Some (Filter an [])) s"
    by (simp add: db_GetFilteredVectorIDs_def filterToSQL_def)
  show "db_GetFilteredVectorIDs q cid (Some (Filter [eq_filter f a, eq_filter g a'] [])) s = Inr (Some {})"
    using assms(1,3) by (simp add: db_GetFilteredVectorIDs_def filterToSQL_def List.map_filter_def eq)
qed


subsection \<open>Witnesses\<close>

definition ex_worlds :: "nat \<Rightarrow> world" where
  "ex_worlds k = \<lparr>w_uuid = replicate (Suc k) CHR ''u'', w_now = int k, w_fail = (\<lambda>_. None)\<rparr>"

definition ex_mt :: "nat \<Rightarrow> string \<Rightarrow> string \<Rightarrow> CollectionMeta" where
  "ex_mt k te name = \<lparr>cm_ID = replicate (Suc k) CHR ''u'', cm_TenantID = te, cm_DatabaseID = '''', cm_Name = name, cm_Dimension = 2,
    cm_Metric = ''l2'', cm_IndexType = ''flat'', cm_CreatedAt = int k, cm_VectorCount = 0\<rparr>"

definition ex_db :: "nat \<Rightarrow> tables \<Rightarrow> (string \<rightharpoonup> u64 set) \<Rightarrow> SysDB" where
  "ex_db k t c = \<lparr>db = t, tombstones = c, worlds = ex_worlds, tick = k\<rparr>"

lemma ex_world [simp]: "world_of (ex_db k t c) = ex_worlds k" "next_call (ex_db k t c) = ex_db (k + 1) t c"
  "db (ex_db k t c) = t" "tombstones (ex_db k t c) = c" "worlds (ex_db k t c) = ex_worlds" "tick (ex_db k t c) = k"
  "(ex_db k t c)\<lparr>db := t'\<rparr> = ex_db k t' c" "(ex_db k t c)\<lparr>tombstones := c'\<rparr> = ex_db k t c'"
  "w_fail (ex_worlds k) n = None"
  by (simp_all add: world_of_def next_call_def ex_db_def ex_worlds_def)

lemma ex_uuids: "uuids_fresh ex_worlds"
  by (auto simp: uuids_fresh_def ex_worlds_def inj_def dest: arg_cong [of _ _ length])

lemma ex_open: "NewSysDB ex_worlds empty_tables = Inr (ex_db 1 empty_tables Map.empty)"
  by (simp add: NewSysDB_def ex_db_def empty_tables_def loadTombstones_def ex_worlds_def upt_rec)

lemma ex_create: "db_CreateCollectionScoped te '''' name 2 ''l2'' ''flat'' (ex_db k empty_tables c) =
    (Inr (ex_mt k te name), ex_db (k + 1) (empty_tables\<lparr>t_collections := [ex_mt k te name]\<rparr>) c)"
  by (simp add: db_CreateCollectionScoped_def exec_def collection_ids_def empty_tables_def ex_mt_def) (simp add: ex_worlds_def Let_def)

lemma sorted_list_enumerates [simp]: "enumerates (sorted_list_of_set :: 'k::linorder set \<Rightarrow> 'k list)"
  by (simp add: enumerates_def)


definition ex_sql :: "nat sql" where
  "ex_sql = \<lparr>cast_real = (\<lambda>s. atoi s 0), numeric = (\<lambda>s. Some (atoi s 0)), show_number = itoa\<rparr>"

theorem filtered_ids_one_condition_witness:
  "let s = ex_db 3 (empty_tables\<lparr>t_metadata := [(''uu'', 7, ''size'', ''9''), (''uu'', 7, ''color'', ''red''), (''uu'', 8, ''color'', ''red'')]\<rparr>) Map.empty in
   db_GetFilteredVectorIDs ex_sql ''uu'' (Some (Filter [eq_filter ''color'' (Str ''red'')] [Filter [eq_filter ''size'' (Num 1)] []])) s =
     Inr (Some {7, 8}) \<and>
   db_GetFilteredVectorIDs ex_sql ''uu'' (Some (Filter [eq_filter ''color'' (Str ''red''), eq_filter ''size'' (Num 9)] [])) s = Inr (Some {})"
proof -
  define s where "s = ex_db 3 (empty_tables\<lparr>t_metadata := [(''uu'', 7, ''size'', ''9''), (''uu'', 7, ''color'', ''red''), (''uu'', 8, ''color'', ''red'')]\<rparr>) Map.empty"
  have key: "distinct (map (\<lambda>(c, u, k, x). (c, u, k)) (t_metadata (db s)))" by (simp add: s_def)
  have fail: "w_fail (world_of s) 0 = None" by (simp add: s_def)
  have ne: "''color'' \<noteq> ''size''" by simp
  note R = filtered_ids_one_condition [OF fail key ne, of ex_sql "''uu''" "Str ''red''" "[eq_filter ''color'' (Str ''red'')]"
    "[Filter [eq_filter ''size'' (Num 1)] []]" "Num 9"]
  have "db_GetFilteredVectorIDs ex_sql ''uu'' (Some (Filter [eq_filter ''color'' (Str ''red'')] [])) s = Inr (Some {7, 8})"
    by (simp add: db_GetFilteredVectorIDs_def filterToSQL_def List.map_filter_def fieldFilterToSQL_eq s_def) auto
  then show ?thesis unfolding s_def [symmetric] Let_def
    using conjunct1 [OF conjunct2 [OF R]] conjunct2 [OF conjunct2 [OF R]] by (metis (no_types))
qed

end
