(* ===== verification/Manager_System.thy ===== *)
theory Manager_System
  imports Manager_Recovery Sys_DB
begin

section \<open>The manager on its database and log\<close>

text \<open>
  The collection manager of \<open>Collection_Manager\<close> on the system database of \<open>Sys_DB\<close> and the SQLite log of
  \<open>Wal\<close>: when a restart gives back what was in memory, three ways in which it does not, and what one tenant
  sees of another's collections.
\<close>

subsection \<open>Restarting\<close>

lemma start_ok:
  assumes "uuids_fresh (worlds s)" "t_collections (db s) = []"
  shows "db_ok s" "db_listed s = Map.empty"
  using assms by (simp_all add: db_ok_def collection_ids_def db_listed_def)

definition fresh_start ::
  "('i, 'n, 'd, SysDB) environment \<Rightarrow> ('d \<Rightarrow> (int \<times> row) list) \<Rightarrow> SysDB \<Rightarrow> 'd \<Rightarrow> string \<Rightarrow> bool" where
  \<comment> \<open>the environment the statements are about, on an empty database and an empty log; no HNSW index has a snapshot\<close>
  "fresh_start E rows s0 d0 dir \<longleftrightarrow>
     (\<exists>fn ord en. sd E = sql_sysdb fn ord en) \<and> (\<exists>seqno. sqlite_table (tb E) rows seqno) \<and> enumerates (order E) \<and>
     uuids_fresh (worlds s0) \<and> t_collections (db s0) = [] \<and> rows d0 = [] \<and> (dir = '''' \<or> (\<forall>i. \<not> is_hnsw (ix E) i))"

lemma run_in_step:
  assumes "fresh_start E rows s0 d0 dir" "mgr_run E (empty_manager s0 d0 bus br dir) m"
  shows "in_step E db_listed db_seen db_ok (map entry_of (rows (wal m))) m" "catalog (sd E) db_listed db_seen db_ok"
    "\<exists>seqno. sqlite_table (tb E) rows seqno" "enumerates (order E)"
proof -
  obtain fn ord en seqno where A: "sd E = sql_sysdb fn ord en" "sqlite_table (tb E) rows seqno" "enumerates (order E)"
    "uuids_fresh (worlds s0)" "t_collections (db s0) = []" "rows d0 = []" "dir = '''' \<or> (\<forall>i. \<not> is_hnsw (ix E) i)"
    using assms(1) unfolding fresh_start_def by blast
  show C: "catalog (sd E) db_listed db_seen db_ok" unfolding A(1) by (rule sq.catalog_axioms)
  show "\<exists>seqno. sqlite_table (tb E) rows seqno" "enumerates (order E)" using A by blast+
  have "in_step E db_listed db_seen db_ok (map entry_of (rows (wal (empty_manager s0 d0 bus br dir :: (_, _, _, _) Manager))))
      (empty_manager s0 d0 bus br dir)"
    using A(6,7) start_ok [OF A(4,5)] by (simp add: in_step_def empty_manager_def)
  from mgr_run_in_step [OF C A(2,3) assms(2) this]
  show "in_step E db_listed db_seen db_ok (map entry_of (rows (wal m))) m" .
qed

text \<open>C1. Restart recovery, for indexes that only the manager's calls change, as the flat index: take a manager
  that started on an empty database and log and created and removed collections, inserted and deleted
  vectors and restarted in any order, where any write of the log or the database may fail, but a creation or removal that
  fails ends the run and no batch has a vector the index rejects. If the database lists its collections and the log can be read, starting a manager on what is
  stored succeeds and gives the same collections, each with the very same index and inverted index as in
  memory and the same metadata up to the advisory vector count. No index has a snapshot file. The operations
  of an index are functions of its state here: the background work of HNSW, IVF and SPANN indexes is outside
  the run, and \<open>replayed_delete_misses_queue\<close> of \<open>Hnsw_System\<close> shows that with the HNSW applier the statement fails;
  a rejected batch is the subject of the next section.\<close>

theorem manager_restart_recovers:
  assumes "fresh_start E rows s0 d0 dir" "mgr_run E (empty_manager s0 d0 bus br dir) m"
    "sd_ListCollections (sd E) (sysdb m) = Inr cols" "tb_select (tb E) 0 (wal m) = Inr rs"
  shows "\<exists>m'. NewManager E (sysdb m) (wal m) bus' br' (dataDir m) = Inr (Inr m') \<and> same_collections (collections m) (collections m')"
proof -
  note R = run_in_step [OF assms(1,2)]
  obtain seqno where T: "sqlite_table (tb E) rows seqno" using R(3) by blast
  from restart_ok [OF R(2) T R(4,1) refl refl assms(3,4)] show ?thesis by blast
qed

subsection \<open>A failed batch\<close>

text \<open>The operations of a batch, as the index interface sees them.\<close>

definition batch_ops :: "(WALOp \<times> f32 list \<times> 'n metadata option) list \<Rightarrow> f32 index_op list" where
  "batch_ops ops = map (\<lambda>(op, v, md). OpInsert (WALOp.ID op) v) ops"

lemma build_ops_batch:
  "build_ops cid vs metas ivs = Inr ops \<Longrightarrow>
     batch_ops ops = map (\<lambda>(i, vid). OpInsert vid (vs ! i)) ivs \<and> (\<forall>(i, vid) \<in> set ivs. i < length vs)"
proof (induction ivs arbitrary: ops)
  case (Cons a ivs)
  obtain i vid where a: "a = (i, vid)" by fastforce
  obtain v rest where v: "get_at vs i = Inr v" "build_ops cid vs metas ivs = Inr rest"
    and ops: "ops = (\<lparr>WALOp.Type = WALOpInsert, CollectionID = cid, ID = vid, Vector = Some v, Document = doc_of metas i\<rparr>, v,
       (if i < length metas then metas ! i else None)) # rest"
    using Cons.prems a by (auto simp: go_bind_Inr)
  have "v = vs ! i" "i < length vs" using v(1) by (auto simp: get_at_def split: if_splits)
  then show ?case using Cons.IH [OF v(2)] by (simp add: a ops batch_ops_def)
qed (simp add: batch_ops_def)

lemma build_ops_map2:
  assumes "build_ops cid vs metas (enumerate 0 vids) = Inr ops"
  shows "batch_ops ops = map2 OpInsert vids vs" "length vids \<le> length vs"
proof -
  note B = build_ops_batch [OF assms]
  have i: "(i, vids ! i) \<in> set (enumerate 0 vids)" if "i < length vids" for i
    using that by (auto simp: in_set_enumerate_eq)
  show le: "length vids \<le> length vs"
  proof (rule ccontr)
    assume "\<not> length vids \<le> length vs"
    then show False using B i [of "length vs"] by auto
  qed
  show "batch_ops ops = map2 OpInsert vids vs"
    using B le by (auto intro!: nth_equalityI simp: nth_enumerate_eq)
qed

lemma spec_inserts_keep: "M i = Some v \<Longrightarrow> fst (spec_run D (map2 OpInsert is vs) M) i = Some v"
proof (induction "is" arbitrary: vs M)
  case (Cons k "is")
  show ?case
  proof (cases vs)
    case (Cons v' vs')
    obtain M' e where M': "spec_Insert D k v' M = (M', e)" by fastforce
    have "M' i = Some v" using M' \<open>M i = Some v\<close> by (auto simp: spec_Insert_def split: if_splits)
    with Cons.IH [of M' vs'] show ?thesis using M' by (simp add: \<open>vs = v' # vs'\<close> case_prod_unfold)
  qed (use Cons.prems in simp)
qed simp

lemma spec_inserts_dom: "dom (fst (spec_run D (map2 OpInsert is vs) M)) \<subseteq> dom M \<union> set is"
proof (induction "is" arbitrary: vs M)
  case (Cons k "is")
  show ?case
  proof (cases vs)
    case (Cons v vs')
    obtain M' e where M': "spec_Insert D k v M = (M', e)" by fastforce
    have "dom M' \<subseteq> insert k (dom M)" using M' by (auto simp: spec_Insert_def split: if_splits)
    then have "dom (fst (spec_run D (map2 OpInsert is vs') M')) \<subseteq> insert k (dom M) \<union> set is" using Cons.IH [of vs' M'] by blast
    then show ?thesis using M' by (simp add: \<open>vs = v # vs'\<close> case_prod_unfold)
  qed auto
qed simp

lemma spec_inserts_new:
  "j < length is \<Longrightarrow> length is \<le> length vs \<Longrightarrow> is ! j \<notin> dom M \<Longrightarrow> is ! j \<notin> set (take j is) \<Longrightarrow> length (vs ! j) = D \<Longrightarrow>
     fst (spec_run D (map2 OpInsert is vs) M) (is ! j) = Some (vs ! j)"
proof (induction "is" arbitrary: vs M j)
  case (Cons k "is")
  obtain v vs' where vs: "vs = v # vs'" using Cons.prems(2) by (cases vs) auto
  obtain M' e where M': "spec_Insert D k v M = (M', e)" by fastforce
  have run: "fst (spec_run D (map2 OpInsert (k # is) vs) M) = fst (spec_run D (map2 OpInsert is vs') M')"
    by (simp add: vs M' split: prod.split)
  show ?case
  proof (cases j)
    case 0
    then have "M' k = Some v" using M' Cons.prems by (auto simp: spec_Insert_def vs split: if_splits)
    then show ?thesis unfolding run using spec_inserts_keep 0 by (simp add: vs)
  next
    case (Suc j')
    then have "is ! j' \<notin> dom M'" "is ! j' \<notin> set (take j' is)" using M' Cons.prems by (auto simp: spec_Insert_def split: if_splits)
    then show ?thesis unfolding run using Cons.IH [of j' vs' M'] Cons.prems Suc by (simp add: vs)
  qed
qed simp

lemma rep_op_contract:
  assumes V: "vector_index good vecs dm (ix_Insert (ix E)) (ix_Delete (ix E)) (ix_Len (ix E))" and st: "good (fst st)"
  shows "\<exists>st'. rep_op E op st = Inr st' \<and> good (fst st') \<and> dm (fst st') = dm (fst st) \<and>
    (\<forall>v. WALOp.Type op = WALOpInsert \<and> Vector op = Some v \<longrightarrow>
       vecs (fst st') = fst (spec_Insert (dm (fst st)) (WALOp.ID op) v (vecs (fst st))))"
proof -
  note I = vector_index.insert_ok [OF V st] and D = vector_index.delete_ok [OF V st]
  obtain s1 e1 where 1: "ix_Insert (ix E) (WALOp.ID op) (case Vector op of None \<Rightarrow> [] | Some v \<Rightarrow> v) (fst st) = Inr (s1, e1)"
    "good s1" "dm s1 = dm (fst st)"
    "(vecs s1, code_of e1) = spec_Insert (dm (fst st)) (WALOp.ID op) (case Vector op of None \<Rightarrow> [] | Some v \<Rightarrow> v) (vecs (fst st))"
    using I by blast
  obtain s2 e2 where 2: "ix_Delete (ix E) (WALOp.ID op) (fst st) = Inr (s2, e2)" "good s2" "dm s2 = dm (fst st)"
    using D by blast
  consider "WALOp.Type op = WALOpInsert" | "WALOp.Type op \<noteq> WALOpInsert" "WALOp.Type op = WALOpDelete"
    | "WALOp.Type op \<noteq> WALOpInsert" "WALOp.Type op \<noteq> WALOpDelete" by blast
  then show ?thesis
  proof cases
    case 1
    then show ?thesis
      using \<open>ix_Insert (ix E) _ _ _ = _\<close> \<open>good s1\<close> \<open>dm s1 = _\<close> \<open>(vecs s1, _) = _\<close>
      by (auto simp: rep_op_def) (metis fst_conv)
  next
    case 2
    then show ?thesis using \<open>ix_Delete (ix E) _ _ = _\<close> \<open>good s2\<close> \<open>dm s2 = _\<close> by (auto simp: rep_op_def)
  qed (use st in \<open>auto simp: rep_op_def\<close>)
qed

lemma rep_ops_contract:
  assumes "vector_index good vecs dm (ix_Insert (ix E)) (ix_Delete (ix E)) (ix_Len (ix E))"
  shows "good (fst st) \<Longrightarrow> rep_ops E xs st = Inr st' \<Longrightarrow> good (fst st') \<and> dm (fst st') = dm (fst st)"
proof (induction xs arbitrary: st)
  case (Cons op xs)
  obtain st1 where st1: "rep_op E op st = Inr st1" "good (fst st1)" "dm (fst st1) = dm (fst st)"
    using rep_op_contract [OF assms Cons.prems(1)] by blast
  then show ?case using Cons.IH [OF st1(2)] Cons.prems(2) by simp
qed simp

lemma rep_batch:
  assumes V: "vector_index good vecs dm (ix_Insert (ix E)) (ix_Delete (ix E)) (ix_Len (ix E))"
  shows "good (fst st) \<Longrightarrow> \<forall>(op, v, md) \<in> set ops. WALOp.Type op = WALOpInsert \<and> CollectionID op = cid \<and> Vector op = Some v \<Longrightarrow>
    \<exists>st'. rep_ops E (map fst ops) st = Inr st' \<and> vecs (fst st') = fst (spec_run (dm (fst st)) (batch_ops ops) (vecs (fst st)))"
proof (induction ops arbitrary: st)
  case (Cons a ops)
  obtain op v md where a: "a = (op, v, md)" by (metis prod_cases3)
  obtain st1 where st1: "rep_op E op st = Inr st1" "good (fst st1)" "dm (fst st1) = dm (fst st)"
    "vecs (fst st1) = fst (spec_Insert (dm (fst st)) (WALOp.ID op) v (vecs (fst st)))"
    using rep_op_contract [OF V Cons.prems(1), of op] Cons.prems(2) by (auto simp: a)
  then show ?case using Cons.IH [OF st1(2)] Cons.prems(2) by (auto simp: a batch_ops_def split: prod.split)
qed (simp add: batch_ops_def)

lemma insert_loop_contract:
  assumes V: "vector_index good vecs dm (ix_Insert (ix E)) (ix_Delete (ix E)) (ix_Len (ix E))"
  shows "good (idx c) \<Longrightarrow> insert_loop E ops c s = Inr (Some err, c1, s1) \<Longrightarrow>
    \<exists>k < length ops. vecs (idx c1) = fst (spec_run (dm (idx c)) (take k (batch_ops ops)) (vecs (idx c))) \<and>
      (\<exists>x. snd (spec_run (dm (idx c)) (take (Suc k) (batch_ops ops)) (vecs (idx c))) = replicate k None @ [Some x])"
proof (induction ops arbitrary: c s)
  case (Cons a ops)
  obtain op v md where a: "a = (op, v, md)" by (metis prod_cases3)
  obtain i e where i: "ix_Insert (ix E) (WALOp.ID op) v (idx c) = Inr (i, e)" "good i" "dm i = dm (idx c)"
    "(vecs i, code_of e) = spec_Insert (dm (idx c)) (WALOp.ID op) v (vecs (idx c))"
    using vector_index.insert_ok [OF V Cons.prems(1)] by blast
  show ?case
  proof (cases e)
    case (Some x)
    then have "c1 = c\<lparr>idx := i\<rparr>" using Cons.prems(2) i(1) by (simp add: a Let_def)
    moreover have "spec_Insert (dm (idx c)) (WALOp.ID op) v (vecs (idx c)) = (vecs (idx c), Some (Code x))" "vecs i = vecs (idx c)"
      using i(4) Some by (auto simp: code_of_def spec_Insert_def split: if_splits)
    ultimately show ?thesis by (intro exI [of _ 0]) (simp add: a batch_ops_def)
  next
    case None
    define c2 where "c2 = (if Document op \<noteq> '''' then c\<lparr>idx := i, invertedIndex := AddDocument (uc E) (WALOp.ID op) (utf8 E (Document op)) (invertedIndex c)\<rparr>
      else c\<lparr>idx := i\<rparr>)"
    define s2 where "s2 = (case md of None \<Rightarrow> s | Some mm \<Rightarrow> snd (sd_SaveVectorMetadata (sd E) (CollectionID op) (WALOp.ID op) mm s))"
    have l: "insert_loop E ops c2 s2 = Inr (Some err, c1, s1)"
      using Cons.prems(2) None i(1) by (simp add: a c2_def s2_def Let_def split: if_splits)
    have c2: "idx c2 = i" by (simp add: c2_def)
    obtain k x where k: "k < length ops" "vecs (idx c1) = fst (spec_run (dm i) (take k (batch_ops ops)) (vecs i))"
      "snd (spec_run (dm i) (take (Suc k) (batch_ops ops)) (vecs i)) = replicate k None @ [Some x]"
      using Cons.IH [OF _ l] i(2) c2 by auto
    have "spec_Insert (dm (idx c)) (WALOp.ID op) v (vecs (idx c)) = (vecs i, None)" using i(4) None by simp
    then show ?thesis using k i(3)
      by (intro exI [of _ "Suc k"] conjI exI [of _ x]) (simp_all add: a batch_ops_def case_prod_unfold)
  qed
qed simp

lemma collection_inv:
  assumes "in_step E listed seen ok es m" "collections m cid = Some c"
    and V: "vector_index good vecs dm (ix_Insert (ix E)) (ix_Delete (ix E)) (ix_Len (ix E))"
    and new: "\<And>d t ty i. createIndex (ix E) d t ty = Inr i \<Longrightarrow> good i"
  shows "good (idx c)"
proof -
  obtain i where i: "createIndex (ix E) (cm_Dimension (meta c)) (cm_Metric (meta c)) (cm_IndexType (meta c)) = Inr i"
    "rep_ops E (ops_for cid es) (i, NewInvertedIndex) = Inr (content_of c)"
  proof -
    have "rebuilt E es cid c" using assms(1,2) by (simp add: in_step_def)
    then show thesis using that by (auto simp: rebuilt_def)
  qed
  have "good (fst (i, NewInvertedIndex))" using new [OF i(1)] by simp
  from rep_ops_contract [OF V this i(2)] show ?thesis by (simp add: content_of_def)
qed

lemma failed_insert_cases:
  assumes "collections m cid = Some c" "InsertVectors E cid vids vs metas m = Inr (Some (OtherError ''index insert failed'' (Some e)), m')"
  obtains ops qs d c1 s1 where "build_ops cid vs metas (enumerate 0 vids) = Inr ops" "AppendBatch (tb E) (map fst ops) (wal m) = (Inr qs, d)"
    "insert_loop E ops c (snd (sd_RemoveTombstonesBatch (sd E) cid vids (sysdb m))) = Inr (Some (OtherError ''index insert failed'' (Some e)), c1, s1)"
    "m' = m\<lparr>wal := d, sysdb := s1, collections := (collections m)(cid \<mapsto> c1)\<rparr>"
proof -
  obtain ops where ops: "build_ops cid vs metas (enumerate 0 vids) = Inr ops"
    using assms by (auto simp: InsertVectors_def elim!: go_bind.elims)
  obtain b d where b: "AppendBatch (tb E) (map fst ops) (wal m) = (b, d)" by fastforce
  show ?thesis
  proof (cases b)
    case (Inl x)
    then show ?thesis using assms ops b by (simp add: InsertVectors_def)
  next
    case (Inr qs)
    obtain r c1 s1 where l: "insert_loop E ops c (snd (sd_RemoveTombstonesBatch (sd E) cid vids (sysdb m))) = Inr (r, c1, s1)"
      using assms ops b Inr by (auto simp: InsertVectors_def Let_def go_bind_Inr)
    then have "r = Some (OtherError ''index insert failed'' (Some e)) \<and> m' = m\<lparr>wal := d, sysdb := s1, collections := (collections m)(cid \<mapsto> c1)\<rparr>"
      using assms ops b Inr by (auto simp: InsertVectors_def Let_def split: option.splits)
    then show ?thesis using that ops b Inr l by blast
  qed
qed

lemma insert_loop_keeps:
  assumes "catalog (sd E) listed seen ok"
  shows "insert_loop E ops c s = Inr (r, c', s') \<Longrightarrow> ok s \<Longrightarrow> keeps listed seen ok s s' \<and> meta c' = meta c"
proof (induction ops arbitrary: c s)
  case Nil
  then show ?case by (simp add: keeps_refl)
next
  case (Cons a ops)
  obtain op v md where a: "a = (op, v, md)" by (metis prod_cases3)
  obtain i err where i: "ix_Insert (ix E) (WALOp.ID op) v (idx c) = Inr (i, err)"
    using Cons.prems(1) a by (auto simp: go_bind_Inr)
  show ?case
  proof (cases err)
    case (Some x)
    then show ?thesis using Cons.prems a i by (auto simp: Let_def keeps_refl)
  next
    case None
    define c1 where "c1 = (if Document op \<noteq> '''' then c\<lparr>idx := i, invertedIndex := AddDocument (uc E) (WALOp.ID op) (utf8 E (Document op)) (invertedIndex c)\<rparr>
      else c\<lparr>idx := i\<rparr>)"
    define s1 where "s1 = (case md of None \<Rightarrow> s | Some mm \<Rightarrow> snd (sd_SaveVectorMetadata (sd E) (CollectionID op) (WALOp.ID op) mm s))"
    have "insert_loop E ops c1 s1 = Inr (r, c', s')"
      using Cons.prems(1) None by (simp add: a i c1_def s1_def Let_def split: if_splits)
    moreover have s1: "keeps listed seen ok s s1"
      using catalog.save_ok [OF assms Cons.prems(2)] Cons.prems(2) by (simp add: s1_def keeps_refl split: option.split)
    moreover have "ok s1" "meta c1 = meta c" using s1 by (simp_all add: keeps_def c1_def)
    ultimately show ?thesis using Cons.IH [of c1 s1] keeps_trans [OF s1] by simp
  qed
qed

lemma failed_batch_restart:
  assumes "fresh_start E rows s0 d0 dir" "mgr_run E (empty_manager s0 d0 bus br dir) m" "collections m cid = Some c"
    and F: "build_ops cid vs metas (enumerate 0 vids) = Inr ops" "AppendBatch (tb E) (map fst ops) (wal m) = (Inr qs, d)"
      "insert_loop E ops c (snd (sd_RemoveTombstonesBatch (sd E) cid vids (sysdb m))) = Inr (r, c1, s1)"
      "m' = m\<lparr>wal := d, sysdb := s1, collections := (collections m)(cid \<mapsto> c1)\<rparr>"
    and rep: "rep_ops E (map fst ops) (idx c, invertedIndex c) = Inr (i, ii)"
    and l: "sd_ListCollections (sd E) (sysdb m') = Inr cols" "tb_select (tb E) 0 (wal m') = Inr rs"
  shows "\<exists>m1 c1. NewManager E (sysdb m') (wal m') bus' br' (dataDir m') = Inr (Inr m1) \<and> collections m1 cid = Some c1 \<and>
    idx c1 = i \<and> invertedIndex c1 = ii"
proof -
  note R = run_in_step [OF assms(1,2)]
  obtain seqno where T: "sqlite_table (tb E) rows seqno" using R(3) by blast
  define es where "es = map2 (\<lambda>q op. \<lparr>SeqID = q, Op = stored op\<rparr>) qs (map fst ops)"
  have qs: "length qs = length (map fst ops)" and lg: "map entry_of (rows d) = map entry_of (rows (wal m)) @ es"
    using wal.batch_ok [OF sqlite_wal [OF T], of "map fst ops" "wal m" qs d] F(2) by (auto simp: es_def)
  have okm: "db_ok (sysdb m)" using R(1) by (simp add: in_step_def)
  have s: "keeps db_listed db_seen db_ok (sysdb m) (snd (sd_RemoveTombstonesBatch (sd E) cid vids (sysdb m)))"
    by (rule catalog.untombstone_ok [OF R(2) okm])
  then have K: "keeps db_listed db_seen db_ok (sysdb m) s1"
    using insert_loop_keeps [OF R(2) F(3)] keeps_trans [OF s] by (simp add: keeps_def)
  define c2 where "c2 = c\<lparr>idx := i, invertedIndex := ii\<rparr>"
  define m2 where "m2 = m\<lparr>wal := d, sysdb := s1, collections := (collections m)(cid \<mapsto> c2)\<rparr>"
  have cid: "\<forall>e \<in> set es. CollectionID (Op e) = cid"
    using build_ops_spec [OF F(1)] by (fastforce simp: es_def dest!: set_zip_rightD)
  have "wal m2 = d" by (simp add: m2_def)
  then have "map entry_of (rows (wal m2)) = map entry_of (rows (wal m)) @ es" using lg by simp
  moreover have "in_step E db_listed db_seen db_ok (map entry_of (rows (wal m)) @ es) m2"
    unfolding m2_def
  proof (rule in_step_update [OF R(1) assms(3) cid, where c' = c2])
    show "rep_ops E (map Op es) (content_of c) = Inr (content_of c2)"
      unfolding es_def ops_of_entries [OF qs] rep_ops_stored using rep by (simp add: content_of_def c2_def)
  qed (use K catalog.seen_ok [OF R(2) okm] in \<open>simp_all add: c2_def\<close>)
  ultimately have "in_step E db_listed db_seen db_ok (map entry_of (rows (wal m2))) m2" by simp
  moreover have "sysdb m2 = sysdb m'" "dataDir m' = dataDir m2" "wal m2 = wal m'" by (simp_all add: m2_def F(4))
  ultimately have st: "in_step E db_listed db_seen db_ok (map entry_of (rows (wal m'))) m2" "sysdb m2 = sysdb m'" "dataDir m' = dataDir m2"
    by simp_all
  obtain m1 where m1: "NewManager E (sysdb m') (wal m') bus' br' (dataDir m') = Inr (Inr m1)"
      "same_collections (collections m2) (collections m1)"
    using restart_ok [OF R(2) T R(4) st l, of bus' br'] by blast
  have "collections m2 cid = Some c2" by (simp add: m2_def)
  then obtain c3 where "collections m1 cid = Some c3" "idx c3 = idx c2" "invertedIndex c3 = invertedIndex c2"
    using m1(2) unfolding same_collections_def by blast
  then show ?thesis using m1(1) by (simp add: c2_def)
qed

text \<open>C40. A failed batch comes back. After a run as above, let the index satisfy the contract \<open>vector_index\<close> (as the flat index does) and
  reject a vector of a batch, the \<open>k\<close>-th one being the first. The call reports the error, and
  in memory the collection has the vectors before the \<open>k\<close>-th only. But the whole batch is in the log: the
  next start applies all of it and skips just what the index rejects. So every vector after the \<open>k\<close>-th
  whose length is right and whose identifier is new was not in the collection when the caller was told
  that the insertion had failed, and is in it after the restart.\<close>

theorem failed_batch_resurrects:
  assumes "fresh_start E rows s0 d0 dir" "mgr_run E (empty_manager s0 d0 bus br dir) m" "collections m cid = Some c"
    "vector_index good vecs dm (ix_Insert (ix E)) (ix_Delete (ix E)) (ix_Len (ix E))"
    "\<forall>d t ty i. createIndex (ix E) d t ty = Inr i \<longrightarrow> good i"
    "InsertVectors E cid vids vs metas m = Inr (Some (OtherError ''index insert failed'' (Some e)), m')"
    "sd_ListCollections (sd E) (sysdb m') = Inr cols" "tb_select (tb E) 0 (wal m') = Inr rs"
  shows "\<exists>k c1 m1 c2. k < length vids \<and>
    (\<exists>x. snd (spec_run (dm (idx c)) (take (Suc k) (map2 OpInsert vids vs)) (vecs (idx c))) = replicate k None @ [Some x]) \<and>
    collections m' cid = Some c1 \<and> vecs (idx c1) = fst (spec_run (dm (idx c)) (take k (map2 OpInsert vids vs)) (vecs (idx c))) \<and>
    NewManager E (sysdb m') (wal m') bus' br' (dataDir m') = Inr (Inr m1) \<and> collections m1 cid = Some c2 \<and>
    vecs (idx c2) = fst (spec_run (dm (idx c)) (map2 OpInsert vids vs) (vecs (idx c))) \<and>
    (\<forall>j. k < j \<and> j < length vids \<and> length (vs ! j) = dm (idx c) \<and> vids ! j \<notin> dom (vecs (idx c)) \<and> vids ! j \<notin> set (take j vids) \<longrightarrow>
       vids ! j \<notin> dom (vecs (idx c1)) \<and> vecs (idx c2) (vids ! j) = Some (vs ! j))"
proof -
  let ?D = "dm (idx c)" and ?xs = "map2 OpInsert vids vs"
  obtain ops qs d c1 s1 where F: "build_ops cid vs metas (enumerate 0 vids) = Inr ops" "AppendBatch (tb E) (map fst ops) (wal m) = (Inr qs, d)"
    "insert_loop E ops c (snd (sd_RemoveTombstonesBatch (sd E) cid vids (sysdb m))) = Inr (Some (OtherError ''index insert failed'' (Some e)), c1, s1)"
    "m' = m\<lparr>wal := d, sysdb := s1, collections := (collections m)(cid \<mapsto> c1)\<rparr>"
    by (rule failed_insert_cases [OF assms(3,6)])
  note B = build_ops_map2 [OF F(1)]
  have good: "good (idx c)" by (rule collection_inv [OF run_in_step(1) [OF assms(1,2)] assms(3,4) assms(5) [rule_format]])
  have "length (batch_ops ops) = length vids" using B by simp
  then have len: "length ops = length vids" by (simp add: batch_ops_def)
  obtain k where k: "k < length vids" "vecs (idx c1) = fst (spec_run ?D (take k ?xs) (vecs (idx c)))"
    "\<exists>x. snd (spec_run ?D (take (Suc k) ?xs) (vecs (idx c))) = replicate k None @ [Some x]"
    using insert_loop_contract [OF assms(4) good F(3)] unfolding B(1) len by blast
  obtain i ii where i: "rep_ops E (map fst ops) (idx c, invertedIndex c) = Inr (i, ii)" "vecs i = fst (spec_run ?D ?xs (vecs (idx c)))"
    using rep_batch [OF assms(4), of "(idx c, invertedIndex c)", OF _ build_ops_spec [OF F(1)]] good B(1) by auto
  obtain m1 c2 where m1: "NewManager E (sysdb m') (wal m') bus' br' (dataDir m') = Inr (Inr m1)" "collections m1 cid = Some c2" "idx c2 = i"
    using failed_batch_restart [OF assms(1-3) F i(1) assms(7,8)] by blast
  have "vids ! j \<notin> dom (vecs (idx c1)) \<and> vecs (idx c2) (vids ! j) = Some (vs ! j)"
    if j: "k < j" "j < length vids" "length (vs ! j) = ?D" "vids ! j \<notin> dom (vecs (idx c))" "vids ! j \<notin> set (take j vids)" for j
  proof
    have t: "take k ?xs = map2 OpInsert (take k vids) (take k vs)" by (simp add: take_map take_zip)
    have "set (take k vids) \<subseteq> set (take j vids)" using j(1) by (intro set_take_subset_set_take) simp
    then show "vids ! j \<notin> dom (vecs (idx c1))"
      using spec_inserts_dom [of ?D "take k vids" "take k vs" "vecs (idx c)"] j(4,5) unfolding k(2) t by blast
    show "vecs (idx c2) (vids ! j) = Some (vs ! j)"
      unfolding m1(3) i(2) using spec_inserts_new [OF j(2) B(2) j(4,5,3)] .
  qed
  moreover have "collections m' cid = Some c1" by (simp add: F(4))
  ultimately show ?thesis using k m1 i(2) by (intro exI [of _ k] exI [of _ c1] exI [of _ m1] exI [of _ c2]) auto
qed

subsection \<open>Forks\<close>

lemma save_all_keeps:
  assumes "catalog (sd E) listed seen ok"
  shows "ok s \<Longrightarrow> keeps listed seen ok s (fold (\<lambda>(vid, mm) s. snd (sd_SaveVectorMetadata (sd E) cid vid mm s)) al s)"
proof (induction al arbitrary: s)
  case (Cons a al)
  have "keeps listed seen ok s (snd (sd_SaveVectorMetadata (sd E) cid (fst a) (snd a) s))" by (rule catalog.save_ok [OF assms Cons.prems])
  moreover from this have "ok (snd (sd_SaveVectorMetadata (sd E) cid (fst a) (snd a) s))" by (simp add: keeps_def)
  note Cons.IH [OF this]
  ultimately show ?case by (simp add: case_prod_beta) (rule keeps_trans)
qed (simp add: keeps_refl)

text \<open>Forks are not durable: \<open>ForkCollection\<close> copies the vectors into the index of the new collection but
  writes nothing to the log, so after a restart the fork exists and its index is the empty one it was
  created with, its metadata rows notwithstanding. The documents of the source are not even copied in memory.\<close>

theorem fork_lost_on_restart:
  assumes "fresh_start E rows s0 d0 dir" "mgr_run E (empty_manager s0 d0 bus br dir) m"
    "ForkCollection E srcID newName m = Inr (Inr mt, m')"
    "sd_ListCollections (sd E) (sysdb m') = Inr cols" "tb_select (tb E) 0 (wal m') = Inr rs"
  shows "\<exists>c i m1 c1. collections m' (cm_ID mt) = Some c \<and> invertedIndex c = NewInvertedIndex \<and>
    createIndex (ix E) (cm_Dimension mt) (cm_Metric mt) (cm_IndexType mt) = Inr i \<and>
    fork_vectors E (exported (ix E) (idx (the (collections m srcID)))) i = Inr (idx c) \<and>
    NewManager E (sysdb m') (wal m') bus' br' (dataDir m') = Inr (Inr m1) \<and> collections m1 (cm_ID mt) = Some c1 \<and> idx c1 = i"
proof -
  note R = run_in_step [OF assms(1,2)]
  obtain seqno where T: "sqlite_table (tb E) rows seqno" using R(3) by blast
  have okm: "db_ok (sysdb m)" using R(1) by (simp add: in_step_def)
  obtain src where src: "collections m srcID = Some src" using assms(3) by (auto simp: ForkCollection_def split: option.splits)
  define sm where "sm = meta src"
  obtain r s where r: "sd_CreateCollection (sd E) newName (cm_Dimension sm) (cm_Metric sm) (cm_IndexType sm) (sysdb m) = (r, s)" by fastforce
  have "\<exists>mt1. r = Inr mt1" using assms(3) src r by (cases r) (auto simp: ForkCollection_def Let_def sm_def)
  then obtain mt1 where mt1: "r = Inr mt1" ..
  obtain i where i: "createIndex (ix E) (cm_Dimension sm) (cm_Metric sm) (cm_IndexType sm) = Inr i"
    using assms(3) src r mt1 by (auto simp: ForkCollection_def Let_def sm_def split: sum.splits)
  obtain j where j: "fork_vectors E (exported (ix E) (idx src)) i = Inr j"
    using assms(3) src r mt1 i by (auto simp: ForkCollection_def Let_def sm_def go_bind_Inr)
  define s1 where "s1 = (case sd_LoadAllVectorMetadata (sd E) srcID s of Inl _ \<Rightarrow> s
    | Inr al \<Rightarrow> fold (\<lambda>(vid, mm) s. snd (sd_SaveVectorMetadata (sd E) (cm_ID mt1) vid mm s)) al s)"
  have m': "mt1 = mt" "m' = m\<lparr>sysdb := s1,
      collections := (collections m)(cm_ID mt \<mapsto> \<lparr>meta = mt, idx = j, invertedIndex = NewInvertedIndex\<rparr>)\<rparr>"
    using assms(3) src r mt1 i j by (auto simp: ForkCollection_def Let_def sm_def s1_def)
  have cr: "creates db_listed db_seen db_ok (cm_Dimension sm) (cm_Metric sm) (cm_IndexType sm) '''' newName (sysdb m) (Inr mt, s)"
    using catalog.create_ok [OF R(2) okm, of "cm_Dimension sm" "cm_Metric sm" "cm_IndexType sm" newName] r mt1 m'(1) by simp
  then have fields: "cm_Dimension mt = cm_Dimension sm" "cm_Metric mt = cm_Metric sm" "cm_IndexType mt = cm_IndexType sm" "db_ok s"
    by (simp_all add: creates_def)
  define m2 where "m2 = m\<lparr>sysdb := s, collections := (collections m)(cm_ID mt \<mapsto> new_collection E m mt i)\<rparr>"
  have dir: "dataDir m = '''' \<or> (\<forall>i. \<not> is_hnsw (ix E) i)" using R(1) by (simp add: in_step_def)
  have new: "new_collection E m mt i = \<lparr>meta = mt, idx = i, invertedIndex = NewInvertedIndex\<rparr>" using dir by (auto simp: new_collection_def)
  have st2: "in_step E db_listed db_seen db_ok (map entry_of (rows (wal m))) m2"
    by (rule in_step_add [OF R(1) catalog.seen_ok [OF R(2) okm] cr i]) (simp_all add: m2_def)
  have K: "keeps db_listed db_seen db_ok s s1"
    unfolding s1_def using save_all_keeps [OF R(2) fields(4)] keeps_refl [where ok = db_ok, OF fields(4)] by (simp split: sum.split)
  have st3: "in_step E db_listed db_seen db_ok (map entry_of (rows (wal m'))) (m2\<lparr>sysdb := s1\<rparr>)"
    using in_step_same [OF st2, of "m2\<lparr>sysdb := s1\<rparr>"] K dir by (simp add: m2_def m'(2) same_collections_def)
  obtain m1 where "NewManager E (sysdb m') (wal m') bus' br' (dataDir m') = Inr (Inr m1)"
      "same_collections (collections m2) (collections m1)"
    using restart_ok [OF R(2) T R(4) st3 _ _ assms(4,5), of "dataDir m'" bus' br'] by (auto simp: m2_def m'(2))
  moreover have "collections m2 (cm_ID mt) = Some \<lparr>meta = mt, idx = i, invertedIndex = NewInvertedIndex\<rparr>" by (simp add: m2_def new)
  ultimately show ?thesis using i j src fields unfolding same_collections_def by (fastforce simp: m'(2))
qed

subsection \<open>Collections without a snapshot\<close>

lemma min_seq_least:
  "min_seq qs h a \<in> insert a (set qs)" "(h \<longrightarrow> min_seq qs h a \<le> a) \<and> (\<forall>q \<in> set qs. min_seq qs h a \<le> q)"
proof -
  show "min_seq qs h a \<in> insert a (set qs)" by (induction qs h a rule: min_seq.induct) auto
  show "(h \<longrightarrow> min_seq qs h a \<le> a) \<and> (\<forall>q \<in> set qs. min_seq qs h a \<le> q)"
    by (induction qs h a rule: min_seq.induct) (auto simp: not_less)
qed

lemma min_seq_member: "qs \<noteq> [] \<Longrightarrow> min_seq qs False a \<in> set qs"
  using min_seq_least(1) [of "tl qs" True "hd qs"] by (cases qs) auto

lemma replay_loop_other:
  "replay_loop E snaps es cols = Inr cols' \<Longrightarrow> \<forall>e \<in> set es. CollectionID (Op e) \<noteq> k \<Longrightarrow> cols' k = cols k"
proof (induction es arbitrary: cols)
  case (Cons e es)
  show ?case
  proof (cases "cols (CollectionID (Op e))")
    case None
    then show ?thesis using Cons by auto
  next
    case (Some c)
    then obtain cols1 where "replay_loop E snaps es cols1 = Inr cols'" "cols1 k = cols k"
      using Cons.prems by (auto simp: go_bind_Inr split: if_splits)
    then show ?thesis using Cons.IH Cons.prems(2) by auto
  qed
qed simp

text \<open>A snapshot hides the log of other collections: when some collection was restored from a snapshot, the
  log is read only from the least snapshot position on. A collection without a snapshot whose acknowledged
  writes are not after that position stays as it was created, empty, though its entries are in the log.\<close>

theorem snapshot_hides_log:
  assumes "sqlite_table (tb E) rows seqno" "enumerates (order E)" "finite (dom (snapshotSeqIDs m))"
    "snapshotSeqIDs m j = Some q" "snapshotSeqIDs m k = None"
    "\<forall>e \<in> set (map entry_of (rows (wal m))). CollectionID (Op e) = k \<longrightarrow> (\<forall>q \<in> ran (snapshotSeqIDs m). SeqID e \<le> q)"
    "replayWAL E m = Inr (None, m')"
  shows "collections m' k = collections m k"
proof -
  let ?qs = "map (\<lambda>c. the (snapshotSeqIDs m c)) (order E (dom (snapshotSeqIDs m)))"
  define a where "a = min_seq ?qs False 0"
  have dom: "set (order E (dom (snapshotSeqIDs m))) = dom (snapshotSeqIDs m)" using assms(2,3) by (simp add: enumerates_def)
  then have qs: "set ?qs = ran (snapshotSeqIDs m)" by (force simp: ran_def)
  have "j \<in> dom (snapshotSeqIDs m)" using assms(4) by blast
  then have "order E (dom (snapshotSeqIDs m)) \<noteq> []" using dom by force
  then have a: "a \<in> ran (snapshotSeqIDs m)" using min_seq_member [of ?qs 0] qs by (simp add: a_def)
  obtain r where r: "ReadFrom (tb E) a (wal m) = Inr r" "\<forall>es. r = Inr es \<longrightarrow> es = filter (\<lambda>e. SeqID e > a) (map entry_of (rows (wal m)))"
    using wal.read_ok [OF sqlite_wal [OF assms(1)], of a "wal m"] by blast
  obtain es where es: "r = Inr es" "es = filter (\<lambda>e. SeqID e > a) (map entry_of (rows (wal m)))"
    using assms(7) r by (cases r) (auto simp: replayWAL_def Let_def simp flip: a_def)
  have "CollectionID (Op e) \<noteq> k" if "e \<in> set es" for e
  proof
    assume "CollectionID (Op e) = k"
    moreover have "e \<in> set (map entry_of (rows (wal m)))" "SeqID e > a" using that unfolding es(2) set_filter by blast+
    ultimately show False using assms(6) a by (metis not_less)
  qed
  then show ?thesis
    using assms(7) r(1) es(1) replay_loop_other [of E "snapshotSeqIDs m" es "collections m"]
    by (auto simp: replayWAL_def Let_def go_bind_Inr Notify_def split: if_splits simp flip: a_def)
qed

subsection \<open>Tenants\<close>

text \<open>C23. Tenant isolation in the memory of one node: the scoped reads show and list only collections of the tenant they
  are called for, listing by tenant lists all of them, and a scoped removal leaves the collections of
  others in this node's memory in place; a collection of another tenant is answered as one that does not exist. (What the
  removal broadcasts is another matter: it names the collection only, and a peer that receives it removes by
  name, \<open>gossip_drop_ignores_tenant\<close>.)\<close>

theorem tenant_isolation:
  assumes "enumerates (order E)" "finite (dom (collections m))"
  shows "(\<forall>mt. GetCollectionScoped E te cid m = Some mt \<longrightarrow> cm_TenantID mt = te) \<and>
    set (ListCollectionsForTenant E te m) = {meta_copy (ix E) c | c cid. collections m cid = Some c \<and> cm_TenantID (meta c) = te} \<and>
    set (ListCollectionsScoped E te dbid m) \<subseteq> {mt \<in> set (ListCollectionsForTenant E te m). cm_DatabaseID mt = dbid} \<and>
    (\<forall>c k. collections m k = Some c \<and> cm_TenantID (meta c) \<noteq> te \<longrightarrow>
      collections (snd (DeleteCollectionScoped E te cid m)) k = Some c \<and>
      (k = cid \<longrightarrow> DeleteCollectionScoped E te cid m = (Some not_found, m) \<and> GetCollectionScoped E te cid m = None))"
proof -
  have dom: "set (order E (dom (collections m))) = dom (collections m)" using assms by (simp add: enumerates_def)
  have list: "set (list_where E P m) = {meta_copy (ix E) c | c cid. collections m cid = Some c \<and> P (meta c)}" for P
    unfolding list_where_def set_map set_filter dom by (force simp: image_iff)
  have "cm_DatabaseID (meta_copy (ix E) c) = cm_DatabaseID (meta c)" "cm_TenantID (meta_copy (ix E) c) = cm_TenantID (meta c)" for c
    by (simp_all add: meta_copy_def)
  then show ?thesis
    unfolding ListCollectionsForTenant_def ListCollectionsScoped_def list
    by (auto simp: GetCollectionScoped_def DeleteCollectionScoped_def Let_def broadcast_def split: option.splits if_splits prod.splits)
qed

text \<open>Gossip crosses tenants: a drop of a collection on one node removes on another the first collection of
  that name, whichever tenant it belongs to, in memory and from the database.\<close>

theorem gossip_drop_ignores_tenant:
  assumes "sd E = sql_sysdb fn ord en" "\<And>n. w_fail (world_of (sysdb m)) n = None"
    "List.find (\<lambda>c. cm_Name c = name) (t_collections (db (sysdb m))) = Some mt"
  shows "DeleteCollectionRemote E name m = (None, m\<lparr>collections := (collections m)(cm_ID mt := None),
      sysdb := snd (db_DeleteCollection (cm_ID mt) (sysdb m))\<rparr>) \<and>
    cm_ID mt \<notin> collection_ids (db (snd (db_DeleteCollection (cm_ID mt) (sysdb m))))"
proof -
  have "mt \<in> set (t_collections (db (sysdb m)))" using assms(3) by (auto simp: find_Some_iff)
  then have "filter (\<lambda>c. cm_ID c = cm_ID mt) (t_collections (db (sysdb m))) \<noteq> []" by (auto simp: filter_empty_conv)
  then show ?thesis
    using assms
    by (auto simp: DeleteCollectionRemote_def sql_sysdb_def db_GetCollectionByName_def query_one_def db_DeleteCollection_def
        delete_where_def exec_def remove_collections_def Let_def collection_ids_def next_call_def)
qed


subsection \<open>Witnesses\<close>

text \<open>The flat index as the index type of a manager; the other types are refused. \<open>val\<close> reads the bits of a
  float32, which the storage of vectors does not.\<close>

definition flat_ops :: "'n::linordered_field platform \<Rightarrow> (f32 \<Rightarrow> 'n) \<Rightarrow> (f32 FlatIndex, 'n) index_ops" where
  "flat_ops p val = \<lparr>new_flat = NewFlatIndex,
     new_ivf = (\<lambda>_ _ _ _ _. Inl (OtherError ''unsupported'' None)), new_hnsw = (\<lambda>_ _ _ _ _. Inl (OtherError ''unsupported'' None)),
     new_spann = (\<lambda>_ _ _ _. Inl (OtherError ''unsupported'' None)),
     ix_Insert = Flat_Index.Insert, ix_Delete = Flat_Index.Delete,
     ix_Search = (\<lambda>q k nprobe i. case Flat_Index.Search p (\<lambda>_. None) [] (map val q) k
         \<lparr>fi_dim = fi_dim i, fi_metric = fi_metric i, capacity = capacity i, count = count i, vectors = map val (vectors i), ids = ids i, idToRow = idToRow i\<rparr>
       of Inr r \<Rightarrow> r | Inl _ \<Rightarrow> Inl (OtherError ''panic'' None)),
     ix_Len = Flat_Index.Len, ix_Flush = (\<lambda>i. (None, i)),
     ix_ExportVectors = (\<lambda>i. case ExportVectors (sorted_list_of_set (dom (idToRow i))) i of Inr vs \<Rightarrow> Some vs | Inl _ \<Rightarrow> None),
     is_hnsw = (\<lambda>_. False), hn_SetSnapshotPath = (\<lambda>_ i. i), hn_SetSnapshotSeqID = (\<lambda>_ i. i),
     hn_Load = (\<lambda>_. Inl (OtherError ''no file'' None)), hn_SetDistanceFunc = (\<lambda>_ i. (None, i))\<rparr>"

lemma flat_ops_contract:
  "vector_index fi_inv fi_vecs fi_dim (ix_Insert (flat_ops p val)) (ix_Delete (flat_ops p val)) (ix_Len (flat_ops p val))"
  by (simp add: flat_ops_def flat.vector_index_axioms)

lemma flat_ops_created: "createIndex (flat_ops p val) d t ty = Inr i \<Longrightarrow> fi_inv i"
  by (auto simp: createIndex_def flat_ops_def dest: NewFlatIndex_inv split: if_splits)

lemma ExportVectors_ok:
  assumes "fi_inv f"
  shows "set is \<subseteq> dom (fi_vecs f) \<Longrightarrow> ExportVectors is f = Inr (map (\<lambda>i. (i, the (fi_vecs f i))) is)"
proof (induction "is")
  case (Cons i "is")
  then obtain r where r: "idToRow f i = Some r" by (auto simp: fi_vecs_def)
  have "r < count f" by (rule fi_invD(6) [OF assms r])
  then have "(r + 1) * fi_dim f \<le> length (vectors f)"
    using row_end [of r "capacity f" "fi_dim f"] fi_invD(2,4) [OF assms] by simp
  from slice_row [OF this] have "slice (vectors f) (r * fi_dim f) (r * fi_dim f + fi_dim f) = Inr (Distance.row_of (fi_dim f) (vectors f) r)"
    by (simp add: add.commute)
  then show ?case using Cons r by (simp add: Let_def fi_vecs_def)
qed simp

definition fl0 :: "f32 FlatIndex" where
  "fl0 = projr (NewFlatIndex 2 ''l2'')"

definition fl_with :: "u64 \<Rightarrow> f32 list \<Rightarrow> f32 FlatIndex" where
  "fl_with v x = fst (projr (Flat_Index.Insert v x fl0))"

lemma fl0: "NewFlatIndex 2 ''l2'' = Inr fl0" "fi_inv fl0" "fi_vecs fl0 = Map.empty" "fi_dim fl0 = 2"
proof -
  show n: "NewFlatIndex 2 ''l2'' = Inr fl0" by (simp add: fl0_def NewFlatIndex_def GetDistanceFunc_def)
  from NewFlatIndex_inv [OF n] show "fi_inv fl0" "fi_vecs fl0 = Map.empty" "fi_dim fl0 = 2" by simp_all
qed

lemma fl_with:
  assumes "length x = 2"
  shows "Flat_Index.Insert v x fl0 = Inr (fl_with v x, None)" "fi_inv (fl_with v x)" "fi_vecs (fl_with v x) = [v \<mapsto> x]"
    "fi_dim (fl_with v x) = 2" "Flat_Index.Len (fl_with v x) = 1"
    "length y = 2 \<Longrightarrow> Flat_Index.Insert v y (fl_with v x) = Inr (fl_with v x, Some (Newf ErrDuplicateID))"
proof -
  obtain f e where f: "Flat_Index.Insert v x fl0 = Inr (f, e)" "fi_inv f" "fi_dim f = 2" "(fi_vecs f, code_of e) = spec_Insert 2 v x Map.empty"
    using flat.insert_ok [OF fl0(2), of v x] fl0(3,4) by auto
  then have e: "e = None" "fi_vecs f = [v \<mapsto> x]" using assms by (auto simp: spec_Insert_def code_of_def)
  have eq: "fl_with v x = f" by (simp add: fl_with_def f(1))
  show "Flat_Index.Insert v x fl0 = Inr (fl_with v x, None)" "fi_inv (fl_with v x)" "fi_vecs (fl_with v x) = [v \<mapsto> x]"
    "fi_dim (fl_with v x) = 2" unfolding eq using f e by simp_all
  show "Flat_Index.Len (fl_with v x) = 1" unfolding eq using flat.len_ok [OF f(2)] e(2) by simp
  have "v \<in> dom (fi_vecs f)" using e(2) by simp
  then have "v \<in> dom (idToRow f)" by (auto simp: fi_vecs_def)
  then show "length y = 2 \<Longrightarrow> Flat_Index.Insert v y (fl_with v x) = Inr (fl_with v x, Some (Newf ErrDuplicateID))"
    unfolding eq using f(3) by (simp add: Flat_Index.Insert_def)
qed

definition ex_index :: "(f32 FlatIndex, rat) index_ops" where
  "ex_index = flat_ops go_platform (\<lambda>w. of_int (sint w))"

lemma ex_index_simps [simp]:
  "ix_Insert ex_index = Flat_Index.Insert" "ix_Delete ex_index = Flat_Index.Delete" "ix_Len ex_index = Flat_Index.Len"
  "\<not> is_hnsw ex_index i" "createIndex ex_index 2 ''l2'' ''flat'' = Inr fl0"
  "exported ex_index i = (case ExportVectors (sorted_list_of_set (dom (idToRow i))) i of Inr vs \<Rightarrow> vs | Inl _ \<Rightarrow> [])"
  by (simp_all add: ex_index_def flat_ops_def createIndex_def exported_def fl0 split: sum.split)

definition ex_env :: "(f32 FlatIndex, rat, list_db, SysDB) environment" where
  "ex_env = \<lparr>ix = ex_index, tb = list_table, sd = sql_sysdb (\<lambda>_. '''') sorted_list_of_set sorted_list_of_set,
     uc = \<lparr>ToLower = id, letter_or_digit = (\<lambda>r. r \<noteq> 32)\<rparr>, utf8 = runes, lgf = id, enum = sorted_list_of_set, srt = id,
     fnum = (\<lambda>_. ''''), order = sorted_list_of_set\<rparr>"

type_synonym ex_manager = "(f32 FlatIndex, rat, list_db, SysDB) Manager"

definition ex_m :: "SysDB \<Rightarrow> list_db \<Rightarrow> (string \<rightharpoonup> (f32 FlatIndex, rat) Collection) \<Rightarrow> ex_manager" where
  "ex_m s d cols = (empty_manager s d False False '''')\<lparr>collections := cols\<rparr>"

lemma ex_m_simps [simp]:
  "sysdb (ex_m s d cols) = s" "wal (ex_m s d cols) = d" "collections (ex_m s d cols) = cols" "dataDir (ex_m s d cols) = ''''"
  "(ex_m s d cols)\<lparr>wal := d'\<rparr> = ex_m s d' cols" "(ex_m s d cols)\<lparr>sysdb := s'\<rparr> = ex_m s' d cols"
  "(ex_m s d cols)\<lparr>collections := cols'\<rparr> = ex_m s d cols'" "Notify ev (ex_m s d cols) = ex_m s d cols"
  "broadcast g (ex_m s d cols) = ex_m s d cols" "empty_manager s d False False '''' = ex_m s d Map.empty"
  by (simp_all add: ex_m_def empty_manager_def Notify_def broadcast_def)

definition ex_col :: "nat \<Rightarrow> int \<Rightarrow> f32 FlatIndex \<Rightarrow> (f32 FlatIndex, rat) Collection" where
  "ex_col k n i = \<lparr>meta = (ex_mt k '''' ''docs'')\<lparr>cm_VectorCount := n\<rparr>, idx = i, invertedIndex = NewInvertedIndex\<rparr>"

definition ex_tables :: "int \<Rightarrow> tables" where
  "ex_tables n = empty_tables\<lparr>t_collections := [(ex_mt 1 '''' ''docs'')\<lparr>cm_VectorCount := n\<rparr>]\<rparr>"

definition ex_m1 :: ex_manager where
  "ex_m1 = ex_m (ex_db 2 (ex_tables 0) Map.empty) ([], 0) [''uu'' \<mapsto> ex_col 1 0 fl0]"

lemma ex_fresh_start: "fresh_start ex_env (\<lambda>d. fst (lt d)) (ex_db 1 empty_tables Map.empty) ([], 0) ''''"
proof -
  have "sd ex_env = sql_sysdb (\<lambda>_. '''') sorted_list_of_set sorted_list_of_set" "tb ex_env = list_table" "order ex_env = sorted_list_of_set"
    by (simp_all add: ex_env_def)
  then show ?thesis using list_table_ok ex_uuids unfolding fresh_start_def by (auto simp: lt_start empty_tables_def)
qed

lemma ex_created: "CreateCollection ex_env ''docs'' 2 ''l2'' ''flat'' (ex_m (ex_db 1 empty_tables Map.empty) ([], 0) Map.empty) =
    (Inr (ex_mt 1 '''' ''docs''), ex_m1)"
proof -
  have "cm_ID (ex_mt 1 '''' ''docs'') = ''uu''" "(ex_mt 1 '''' ''docs'')\<lparr>cm_VectorCount := 0\<rparr> = ex_mt 1 '''' ''docs''" by (simp_all add: ex_mt_def)
  then show ?thesis
    using ex_create [of "''''" "''docs''" 1 Map.empty]
    by (simp add: CreateCollection_def ex_env_def sql_sysdb_def db_CreateCollection_def new_collection_def
        ex_m1_def ex_tables_def ex_col_def numeral_2_eq_2)
qed

lemma ex_run1: "mgr_run ex_env (empty_manager (ex_db 1 empty_tables Map.empty) ([], 0) False False '''') ex_m1"
  using mgr_run.create [OF mgr_run.start ex_created] by simp

definition ex_vrow :: "string \<Rightarrow> u64 \<Rightarrow> f32 list \<Rightarrow> row" where
  "ex_vrow cid v x = row_of \<lparr>WALOp.Type = WALOpInsert, CollectionID = cid, ID = v, Vector = Some x, Document = ''''\<rparr>"

lemma ex_append1: "AppendBatch list_table [\<lparr>WALOp.Type = WALOpInsert, CollectionID = cid, ID = v, Vector = Some x, Document = ''''\<rparr>] ([], 0) =
    (Inr [1], [(1, ex_vrow cid v x)], 1)"
  by (simp add: AppendBatch_def list_table_def lt_start ex_vrow_def)

lemma ex_inserted: "InsertVectors ex_env ''uu'' [7] [[1, 0]] [] ex_m1 =
    Inr (None, ex_m (ex_db 4 (ex_tables 1) Map.empty) ([(1, ex_vrow ''uu'' 7 [1, 0])], 1) [''uu'' \<mapsto> ex_col 1 1 (fl_with 7 [1, 0])])"
  by (simp add: InsertVectors_def ex_m1_def ex_env_def get_at_def doc_of_def ex_append1 sql_sysdb_def db_RemoveTombstonesBatch_def
      batches_one maxBatch_def exec_def drop_tombs_def ex_tables_def ex_col_def set_count_def db_UpdateVectorCount_def fl_with
      empty_tables_def ex_mt_def)


lemma ex_lists: "\<exists>cols. sd_ListCollections (sd ex_env) (ex_db k t c) = Inr cols" "\<exists>rs. tb_select (tb ex_env) a d = Inr rs"
  by (simp_all add: ex_env_def sql_sysdb_def db_ListCollections_def scanCollections_def list_table_def)

theorem manager_restart_recovers_witness:
  "\<exists>m m'. mgr_run ex_env (empty_manager (ex_db 1 empty_tables Map.empty) ([], 0) False False '''') m \<and>
     collections m = [''uu'' \<mapsto> ex_col 1 1 (fl_with 7 [1, 0])] \<and>
     NewManager ex_env (sysdb m) (wal m) False False (dataDir m) = Inr (Inr m') \<and> same_collections (collections m) (collections m')"
proof -
  define m where "m = ex_m (ex_db 4 (ex_tables 1) Map.empty) ([(1, ex_vrow ''uu'' 7 [1, 0])], 1) [''uu'' \<mapsto> ex_col 1 1 (fl_with 7 [1, 0])]"
  have run: "mgr_run ex_env (empty_manager (ex_db 1 empty_tables Map.empty) ([], 0) False False '''') m"
    unfolding m_def by (rule mgr_run.insert [OF ex_run1 ex_inserted]) simp
  obtain cols rs where "sd_ListCollections (sd ex_env) (sysdb m) = Inr cols" "tb_select (tb ex_env) 0 (wal m) = Inr rs"
    using ex_lists unfolding m_def ex_m_simps by blast
  note R = manager_restart_recovers [OF ex_fresh_start run this, of False False]
  have "collections m = [''uu'' \<mapsto> ex_col 1 1 (fl_with 7 [1, 0])]" by (simp add: m_def)
  with R run show ?thesis by blast
qed

definition ex_op3 :: "u64 \<Rightarrow> f32 \<Rightarrow> WALOp" where
  "ex_op3 v x = \<lparr>WALOp.Type = WALOpInsert, CollectionID = ''uu'', ID = v, Vector = Some [x, 0], Document = ''''\<rparr>"

lemma ex_built: "build_ops ''uu'' [[1, 0], [2, 0], [3, 0]] ([] :: rat metadata option list) (enumerate 0 [5, 5, 6]) =
    Inr [(ex_op3 5 1, [1, 0], None), (ex_op3 5 2, [2, 0], None), (ex_op3 6 3, [3, 0], None)]"
  by (simp add: get_at_def doc_of_def ex_op3_def)

lemma ex_append3: "AppendBatch list_table [ex_op3 5 1, ex_op3 5 2, ex_op3 6 3] ([], 0) =
    (Inr [1, 2, 3], [(1, row_of (ex_op3 5 1)), (2, row_of (ex_op3 5 2)), (3, row_of (ex_op3 6 3))], 3)"
  by (simp add: AppendBatch_def list_table_def lt_def table_keys_ok_def)

lemma ex_failed: "InsertVectors ex_env ''uu'' [5, 5, 6] [[1, 0], [2, 0], [3, 0]] [] ex_m1 =
    Inr (Some (OtherError ''index insert failed'' (Some (Newf ErrDuplicateID))),
      ex_m (ex_db 3 (ex_tables 0) Map.empty) ([(1, row_of (ex_op3 5 1)), (2, row_of (ex_op3 5 2)), (3, row_of (ex_op3 6 3))], 3)
        [''uu'' \<mapsto> ex_col 1 0 (fl_with 5 [1, 0])])"
proof -
  have "untomb_batches (ex_worlds 2) 0 ''uu'' (batches [5, 5, 6]) (ex_tables 0) = (None, ex_tables 0)"
    by (simp add: batches_one maxBatch_def exec_def ex_tables_def empty_tables_def)
  then have "sd_RemoveTombstonesBatch (sd ex_env) ''uu'' [5, 5, 6] (ex_db 2 (ex_tables 0) Map.empty) =
      (None, ex_db 3 (ex_tables 0) Map.empty)"
    by (simp add: ex_env_def sql_sysdb_def db_RemoveTombstonesBatch_def drop_tombs_def)
  moreover have "insert_loop ex_env [(ex_op3 5 1, [1, 0], None), (ex_op3 5 2, [2, 0], None), (ex_op3 6 3, [3, 0], None)] (ex_col 1 0 fl0) s =
      Inr (Some (OtherError ''index insert failed'' (Some (Newf ErrDuplicateID))), ex_col 1 0 (fl_with 5 [1, 0]), s)" for s
    by (simp add: ex_env_def ex_op3_def ex_col_def fl_with)
  moreover have "tb ex_env = list_table" by (simp add: ex_env_def)
  ultimately show ?thesis
    unfolding InsertVectors_def ex_m1_def by (simp add: ex_built ex_append3 del: build_ops.simps insert_loop.simps enumerate_simps)
qed

theorem failed_batch_resurrects_witness:
  "\<exists>m' c1 m1 c2. InsertVectors ex_env ''uu'' [5, 5, 6] [[1, 0], [2, 0], [3, 0]] [] ex_m1 =
      Inr (Some (OtherError ''index insert failed'' (Some (Newf ErrDuplicateID))), m') \<and>
    collections m' ''uu'' = Some c1 \<and> fi_vecs (idx c1) = [5 \<mapsto> [1, 0]] \<and>
    NewManager ex_env (sysdb m') (wal m') False False (dataDir m') = Inr (Inr m1) \<and> collections m1 ''uu'' = Some c2 \<and>
    fi_vecs (idx c2) = [5 \<mapsto> [1, 0], 6 \<mapsto> [3, 0]]"
proof -
  define m' where "m' = ex_m (ex_db 3 (ex_tables 0) Map.empty) ([(1, row_of (ex_op3 5 1)), (2, row_of (ex_op3 5 2)), (3, row_of (ex_op3 6 3))], 3)
        [''uu'' \<mapsto> ex_col 1 0 (fl_with 5 [1, 0])]"
  have c: "collections ex_m1 ''uu'' = Some (ex_col 1 0 fl0)" by (simp add: ex_m1_def)
  have V: "vector_index fi_inv fi_vecs fi_dim (ix_Insert (ix ex_env)) (ix_Delete (ix ex_env)) (ix_Len (ix ex_env))"
    by (simp add: ex_env_def flat.vector_index_axioms)
  have new: "\<forall>d t ty i. createIndex (ix ex_env) d t ty = Inr i \<longrightarrow> fi_inv i"
    using flat_ops_created by (simp add: ex_env_def ex_index_def) blast
  obtain cols rs where l: "sd_ListCollections (sd ex_env) (sysdb m') = Inr cols" "tb_select (tb ex_env) 0 (wal m') = Inr rs"
    using ex_lists unfolding m'_def ex_m_simps by blast
  have x: "idx (ex_col 1 0 i) = i" for i by (simp add: ex_col_def)
  obtain c1 m1 c2 where R: "collections m' ''uu'' = Some c1" "NewManager ex_env (sysdb m') (wal m') False False (dataDir m') = Inr (Inr m1)"
    "collections m1 ''uu'' = Some c2"
    "fi_vecs (idx c2) = fst (spec_run 2 (map2 OpInsert [5, 5, 6] [[1, 0], [2, 0], [3, 0]]) Map.empty)"
    using failed_batch_resurrects [where bus' = False and br' = False, OF ex_fresh_start ex_run1 c V new ex_failed [folded m'_def] l]
    unfolding x fl0 by blast
  have "c1 = ex_col 1 0 (fl_with 5 [1, 0])" using R(1) by (simp add: m'_def)
  then have "fi_vecs (idx c1) = [5 \<mapsto> [1, 0]]" by (simp only: x) (simp add: fl_with)
  moreover have "fi_vecs (idx c2) = [5 \<mapsto> [1, 0], 6 \<mapsto> [3, 0]]" unfolding R(4) by (simp add: spec_Insert_def)
  ultimately show ?thesis using R(1-3) ex_failed [folded m'_def] by blast
qed


text \<open>A second collection to fork into and to restore: the log of the example after one insertion.\<close>

definition ex_log1 :: list_db where
  "ex_log1 = ([(1, ex_vrow ''uu'' 7 [1, 0])], 1)"

definition ex_m2 :: ex_manager where
  "ex_m2 = ex_m (ex_db 4 (ex_tables 1) Map.empty) ex_log1 [''uu'' \<mapsto> ex_col 1 1 (fl_with 7 [1, 0])]"

lemma ex_run2: "mgr_run ex_env (empty_manager (ex_db 1 empty_tables Map.empty) ([], 0) False False '''') ex_m2"
  unfolding ex_m2_def ex_log1_def by (rule mgr_run.insert [OF ex_run1 ex_inserted]) simp

definition ex_forked :: ex_manager where
  "ex_forked = ex_m (ex_db 5 ((ex_tables 1)\<lparr>t_collections := t_collections (ex_tables 1) @ [ex_mt 4 '''' ''copy'']\<rparr>) Map.empty) ex_log1
     [''uu'' \<mapsto> ex_col 1 1 (fl_with 7 [1, 0]),
      ''uuuuu'' \<mapsto> \<lparr>meta = ex_mt 4 '''' ''copy'', idx = fl_with 7 [1, 0], invertedIndex = NewInvertedIndex\<rparr>]"

lemma ex_fork: "ForkCollection ex_env ''uu'' ''copy'' ex_m2 = Inr (Inr (ex_mt 4 '''' ''copy''), ex_forked)"
proof -
  have c: "sd_CreateCollection (sd ex_env) ''copy'' 2 ''l2'' ''flat'' (ex_db 4 (ex_tables 1) Map.empty) = (Inr (ex_mt 4 '''' ''copy''),
      ex_db 5 ((ex_tables 1)\<lparr>t_collections := t_collections (ex_tables 1) @ [ex_mt 4 '''' ''copy'']\<rparr>) Map.empty)"
    by (simp add: ex_env_def sql_sysdb_def db_CreateCollection_def db_CreateCollectionScoped_def exec_def collection_ids_def ex_tables_def
        empty_tables_def ex_mt_def ex_worlds_def Let_def eval_nat_numeral)
  have meta: "cm_Dimension (meta (ex_col k n i)) = 2" "cm_Metric (meta (ex_col k n i)) = ''l2''" "cm_IndexType (meta (ex_col k n i)) = ''flat''"
    "idx (ex_col k n i) = i" for k n i by (simp_all add: ex_col_def ex_mt_def)
  have "dom (idToRow (fl_with 7 [1, 0])) = dom (fi_vecs (fl_with 7 [1, 0]))" by (auto simp: fi_vecs_def)
  then have "sorted_list_of_set (dom (idToRow (fl_with 7 [1, 0]))) = [7]" by (simp add: fl_with)
  then have "exported (ix ex_env) (fl_with 7 [1, 0]) = [(7, [1, 0])]"
    using ExportVectors_ok [of "fl_with 7 [1, 0]" "[7]"] by (simp add: ex_env_def fl_with)
  then have ops: "createIndex (ix ex_env) 2 ''l2'' ''flat'' = Inr fl0" "exported (ix ex_env) (fl_with 7 [1, 0]) = [(7, [1, 0])]"
    "fork_vectors ex_env [(7, [1, 0])] fl0 = Inr (fl_with 7 [1, 0])"
    by (simp_all add: ex_env_def fl_with)
  have all: "sd_LoadAllVectorMetadata (sd ex_env) ''uu'' (ex_db 5 ((ex_tables 1)\<lparr>t_collections := cs\<rparr>) Map.empty) = Inr []" for cs
    by (simp add: ex_env_def sql_sysdb_def db_LoadAllVectorMetadata_def scan_meta_def ex_tables_def empty_tables_def)
  have "cm_ID (ex_mt 4 '''' ''copy'') = ''uuuuu''" by (simp add: ex_mt_def eval_nat_numeral)
  then show ?thesis
    by (simp only: ForkCollection_def ex_m2_def ex_m_simps Let_def meta ops c all prod.case sum.case go_bind.simps fun_upd_same option.case
        fold.simps id_apply ex_forked_def)
qed

theorem fork_lost_on_restart_witness:
  "\<exists>m1 c c1. collections ex_forked ''uuuuu'' = Some c \<and> fi_vecs (idx c) = [7 \<mapsto> [1, 0]] \<and>
    NewManager ex_env (sysdb ex_forked) (wal ex_forked) False False (dataDir ex_forked) = Inr (Inr m1) \<and>
    collections m1 ''uuuuu'' = Some c1 \<and> fi_vecs (idx c1) = Map.empty"
proof -
  obtain cols rs where l: "sd_ListCollections (sd ex_env) (sysdb ex_forked) = Inr cols" "tb_select (tb ex_env) 0 (wal ex_forked) = Inr rs"
    using ex_lists unfolding ex_forked_def ex_m_simps by blast
  have "cm_ID (ex_mt 4 '''' ''copy'') = ''uuuuu''" by (simp add: ex_mt_def eval_nat_numeral)
  moreover have "createIndex (ix ex_env) 2 ''l2'' ''flat'' = Inr fl0" "cm_IndexType (ex_mt 4 '''' ''copy'') = ''flat''"
    "cm_Dimension (ex_mt 4 '''' ''copy'') = 2" "cm_Metric (ex_mt 4 '''' ''copy'') = ''l2''"
    by (simp_all add: ex_env_def ex_mt_def)
  ultimately show ?thesis
    using fork_lost_on_restart [OF ex_fresh_start ex_run2 ex_fork l, of False False] by (auto simp: ex_forked_def fl0 fl_with)
qed

theorem snapshot_hides_log_witness:
  "\<exists>m m'. snapshotSeqIDs m ''hnsw'' = Some 2 \<and> replayWAL ex_env m = Inr (None, m') \<and>
    (\<exists>e \<in> set (map entry_of (fst (lt (wal m)))). CollectionID (Op e) = ''uu'' \<and> ID (Op e) = 7) \<and>
    map_option (\<lambda>c. fi_vecs (idx c)) (collections m' ''uu'') = Some Map.empty"
proof -
  define d :: list_db where "d = ([(1, ex_vrow ''uu'' 7 [1, 0]), (2, ex_vrow ''hnsw'' 8 [1, 0])], 2)"
  define m where "m = (ex_m (ex_db 4 (ex_tables 1) Map.empty) d [''uu'' \<mapsto> ex_col 1 0 fl0, ''hnsw'' \<mapsto> ex_col 3 1 (fl_with 8 [1, 0])])\<lparr>snapshotSeqIDs := [''hnsw'' \<mapsto> 2]\<rparr>"
  have lt: "lt d = d" by (simp add: d_def lt_def table_keys_ok_def)
  have w: "wal m = d" "collections m ''uu'' = Some (ex_col 1 0 fl0)" "snapshotSeqIDs m = [''hnsw'' \<mapsto> 2]" by (simp_all add: m_def)
  have es: "map entry_of (fst (lt d)) = [\<lparr>SeqID = 1, Op = stored \<lparr>WALOp.Type = WALOpInsert, CollectionID = ''uu'', ID = 7, Vector = Some [1, 0], Document = ''''\<rparr>\<rparr>,
      \<lparr>SeqID = 2, Op = stored \<lparr>WALOp.Type = WALOpInsert, CollectionID = ''hnsw'', ID = 8, Vector = Some [1, 0], Document = ''''\<rparr>\<rparr>]"
    by (simp add: lt) (simp add: d_def ex_vrow_def entry_of_row)
  have rd: "ReadFrom (tb ex_env) 2 d = Inr (Inr [])"
    by (simp add: ReadFrom_def ex_env_def list_table_def lt) (simp add: d_def truncated_def)
  then have rep: "replayWAL ex_env m = Inr (None, m)"
    by (simp add: replayWAL_def w) (simp add: ex_env_def)
  have tbl: "sqlite_table (tb ex_env) (\<lambda>d. fst (lt d)) (\<lambda>d. snd (lt d))" "enumerates (order ex_env)"
    using list_table_ok by (simp_all add: ex_env_def)
  have "collections m ''uu'' = collections m ''uu''"
    by (rule snapshot_hides_log [OF tbl, of m "''hnsw''" 2]) (use rep es in \<open>simp_all add: w\<close>)
  then have "map_option (\<lambda>c. fi_vecs (idx c)) (collections m ''uu'') = Some Map.empty" by (simp add: w ex_col_def fl0)
  moreover have "\<exists>e \<in> set (map entry_of (fst (lt (wal m)))). CollectionID (Op e) = ''uu'' \<and> ID (Op e) = 7"
    unfolding w es by simp
  moreover have "snapshotSeqIDs m ''hnsw'' = Some 2" by (simp add: w)
  ultimately show ?thesis using rep by blast
qed

theorem tenant_isolation_witness:
  "ListCollectionsForTenant ex_env '''' ex_m2 = [(ex_mt 1 '''' ''docs'')\<lparr>cm_VectorCount := 1\<rparr>] \<and>
   set (ListCollectionsForTenant ex_env ''other'' ex_m2) = {} \<and> DeleteCollectionScoped ex_env ''other'' ''uu'' ex_m2 = (Some not_found, ex_m2)"
proof -
  have fin: "enumerates (order ex_env)" "finite (dom (collections ex_m2))" by (simp_all add: ex_env_def ex_m2_def)
  note R = tenant_isolation [OF fin, of "''other''" "''uu''"]
  have c: "collections ex_m2 k = Some c \<longleftrightarrow> k = ''uu'' \<and> c = ex_col 1 1 (fl_with 7 [1, 0])" for k c by (auto simp: ex_m2_def)
  have te: "cm_TenantID (meta (ex_col k n i)) = ''''" for k n i by (simp add: ex_col_def ex_mt_def)
  have "ListCollectionsForTenant ex_env '''' ex_m2 = [(ex_mt 1 '''' ''docs'')\<lparr>cm_VectorCount := 1\<rparr>]"
    by (simp add: ListCollectionsForTenant_def list_where_def ex_m2_def te) (simp add: ex_env_def meta_copy_def ex_col_def ex_mt_def fl_with)
  moreover have "set (ListCollectionsForTenant ex_env ''other'' ex_m2) = {}"
    using conjunct1 [OF conjunct2 [OF R]] by (simp add: c te)
  moreover have "DeleteCollectionScoped ex_env ''other'' ''uu'' ex_m2 = (Some not_found, ex_m2)"
    using conjunct2 [OF conjunct2 [OF conjunct2 [OF R]], rule_format, of "''uu''" "ex_col 1 1 (fl_with 7 [1, 0])"] by (simp add: c te)
  ultimately show ?thesis by blast
qed

theorem gossip_drop_ignores_tenant_witness:
  "let m = ex_m (ex_db 2 (empty_tables\<lparr>t_collections := [ex_mt 1 ''acme'' ''docs'']\<rparr>) Map.empty) ([], 0) [''uu'' \<mapsto> ex_col 1 0 fl0] in
   \<exists>m'. DeleteCollectionRemote ex_env ''docs'' m = (None, m') \<and> collections m' ''uu'' = None"
proof -
  define m where "m = ex_m (ex_db 2 (empty_tables\<lparr>t_collections := [ex_mt 1 ''acme'' ''docs'']\<rparr>) Map.empty) ([], 0) [''uu'' \<mapsto> ex_col 1 0 fl0]"
  have A: "sd ex_env = sql_sysdb (\<lambda>_. '''') sorted_list_of_set sorted_list_of_set" "w_fail (world_of (sysdb m)) n = None"
    "List.find (\<lambda>c. cm_Name c = ''docs'') (t_collections (db (sysdb m))) = Some (ex_mt 1 ''acme'' ''docs'')" for n
    by (simp_all add: ex_env_def m_def ex_mt_def)
  have "cm_ID (ex_mt 1 ''acme'' ''docs'') = ''uu''" by (simp add: ex_mt_def)
  then show ?thesis using conjunct1 [OF gossip_drop_ignores_tenant [OF A]] unfolding m_def [symmetric] Let_def by simp
qed

end
