(* ===== verification/Tenants.thy ===== *)
theory Tenants
  imports Sys_DB
begin

section \<open>Tenants, databases and API keys\<close>

text \<open>
  Models \<open>internal/metadata/tenant.go\<close> and \<open>EnsureDefaults\<close> of \<open>sqlite.go\<close> over the tables, statements and worlds
  of theory \<open>Sys_DB\<close>. \<open>w_fail w k\<close> is the failure of the \<open>k\<close>-th step of a call: begin, statement, iteration
  over the rows of a query, commit. A transaction that does not commit leaves the tables as they were. The
  table \<open>collections\<close> has no foreign key to \<open>tenants\<close> or \<open>databases\<close>, so no deletion here reaches it.
\<close>

definition default_quotas :: TenantQuotas where
  "default_quotas = \<lparr>MaxVectors = 10000000, MaxCollections = 100, MaxQPS = 100, MaxBytes = 10737418240\<rparr>"

definition InitMultiTenancySchema :: "SysDB \<Rightarrow> error option \<times> SysDB" where
  \<comment> \<open>\<open>CREATE TABLE IF NOT EXISTS\<close>: existing tables are kept\<close>
  "InitMultiTenancySchema s = (map_option (\<lambda>e. OtherError ''initializing multi-tenancy schema'' (Some e)) (w_fail (world_of s) 0), next_call s)"

definition tenant_ids :: "tables \<Rightarrow> string set" where
  "tenant_ids t = tn_ID ` set (t_tenants t)"

subsection \<open>Tenants\<close>

definition and_then :: "error option \<times> tables \<Rightarrow> (tables \<Rightarrow> error option \<times> tables) \<Rightarrow> error option \<times> tables" where
  \<comment> \<open>the next statement of a transaction\<close>
  "and_then r k = (case r of (Some e, t) \<Rightarrow> (Some e, t) | (None, t) \<Rightarrow> k t)"

definition transaction :: "string \<Rightarrow> (tables \<Rightarrow> error option \<times> tables) \<Rightarrow> SysDB \<Rightarrow> error option \<times> SysDB" where
  \<comment> \<open>\<open>Begin\<close> is step 0; the body ends with its commit; \<open>defer tx.Rollback()\<close> undoes all else\<close>
  "transaction msg body s =
     (case and_then (w_fail (world_of s) 0, db s) body of
        (Some e, t) \<Rightarrow> (Some (OtherError msg (Some e)), next_call s)
      | (None, t) \<Rightarrow> (None, (next_call s)\<lparr>db := t\<rparr>))"

definition insert_tenant :: "world \<Rightarrow> Tenant \<Rightarrow> tables \<Rightarrow> error option \<times> tables" where
  "insert_tenant w tn t =
     and_then (exec (w_fail w 1) (tn_ID tn \<notin> tenant_ids t \<and> tn_Name tn \<notin> tn_Name ` set (t_tenants t))
        (\<lambda>t. t\<lparr>t_tenants := t_tenants t @ [tn]\<rparr>) t) (\<lambda>t.
     and_then (exec (w_fail w 2) (tn_ID tn \<notin> fst ` set (t_quotas t) \<and> tn_ID tn \<in> tenant_ids t)
        (\<lambda>t. t\<lparr>t_quotas := t_quotas t @ [(tn_ID tn, default_quotas)]\<rparr>) t) (\<lambda>t.
     and_then (exec (w_fail w 3) (tn_ID tn \<notin> fst ` set (t_usage t) \<and> tn_ID tn \<in> tenant_ids t)
        (\<lambda>t. t\<lparr>t_usage := t_usage t @ [(tn_ID tn, \<lparr>us_VectorCount = 0, us_CollectionCount = 0, us_BytesUsed = 0, us_UpdatedAt = w_now w\<rparr>)]\<rparr>) t) (\<lambda>t.
     (w_fail w 4, t))))"

definition CreateTenant :: "string \<Rightarrow> int \<Rightarrow> int \<Rightarrow> SysDB \<Rightarrow> (error + Tenant) \<times> SysDB" where
  "CreateTenant name maxDBs maxColls s =
     (let w = world_of s;
          tn = \<lparr>tn_ID = w_uuid w, tn_Name = name, tn_MaxDBs = maxDBs, tn_MaxColls = maxColls, tn_CreatedAt = w_now w\<rparr> in
      case transaction ''creating tenant'' (insert_tenant w tn) s of
        (Some e, s') \<Rightarrow> (Inl e, s') | (None, s') \<Rightarrow> (Inr tn, s'))"

definition query_row :: "string \<Rightarrow> 'a option \<Rightarrow> SysDB \<Rightarrow> error + 'a option" where
  \<comment> \<open>\<open>QueryRow\<close>: \<open>ErrNoRows\<close> gives nil without an error\<close>
  "query_row msg r s = (case w_fail (world_of s) 0 of Some e \<Rightarrow> Inl (OtherError msg (Some e)) | None \<Rightarrow> Inr r)"

definition GetTenant :: "string \<Rightarrow> SysDB \<Rightarrow> error + Tenant option" where
  "GetTenant te s = query_row ''getting tenant'' (List.find (\<lambda>t. tn_ID t = te) (t_tenants (db s))) s"

definition GetTenantByName :: "string \<Rightarrow> SysDB \<Rightarrow> error + Tenant option" where
  "GetTenantByName name s = query_row ''getting tenant by name'' (List.find (\<lambda>t. tn_Name t = name) (t_tenants (db s))) s"

definition ListTenants :: "SysDB \<Rightarrow> error + Tenant list" where
  "ListTenants s = (case w_fail (world_of s) 0 of Some e \<Rightarrow> Inl (OtherError ''listing tenants'' (Some e))
     | None \<Rightarrow> (case w_fail (world_of s) 1 of Some e \<Rightarrow> Inl e | None \<Rightarrow> Inr (sort_key tn_CreatedAt (t_tenants (db s)))))"

definition remove_tenant :: "string \<Rightarrow> tables \<Rightarrow> tables" where
  \<comment> \<open>\<open>DELETE FROM tenants\<close> with \<open>ON DELETE CASCADE\<close>\<close>
  "remove_tenant te t = t\<lparr>t_tenants := filter (\<lambda>x. tn_ID x \<noteq> te) (t_tenants t),
     t_databases := filter (\<lambda>d. da_TenantID d \<noteq> te) (t_databases t),
     t_quotas := filter (\<lambda>(x, q). x \<noteq> te) (t_quotas t),
     t_usage := filter (\<lambda>(x, u). x \<noteq> te) (t_usage t),
     t_api_keys := filter (\<lambda>k. key_tenant k \<noteq> te) (t_api_keys t)\<rparr>"

definition DeleteTenant :: "string \<Rightarrow> SysDB \<Rightarrow> error option \<times> SysDB" where
  "DeleteTenant te s =
     (let w = world_of s; colIDs = map cm_ID (filter (\<lambda>c. cm_TenantID c = te) (t_collections (db s))) in
      case w_fail w 0 of Some e \<Rightarrow> (Some (OtherError ''querying tenant collections'' (Some e)), next_call s)
      | None \<Rightarrow> (case w_fail w 1 of Some e \<Rightarrow> (Some (OtherError ''iterating tenant collections'' (Some e)), next_call s)
      | None \<Rightarrow> (case exec (w_fail w 2) True (remove_tenant te) (db s) of
          (Some e, t) \<Rightarrow> (Some (OtherError ''deleting tenant'' (Some e)), next_call s)
        | (None, t) \<Rightarrow>
            if te \<notin> tenant_ids (db s) then (Some not_found, (next_call s)\<lparr>db := t\<rparr>)
            else (None, (next_call s)\<lparr>db := t, tombstones := fold (\<lambda>cid m. m(cid := None)) colIDs (tombstones s)\<rparr>))))"

subsection \<open>Databases\<close>

definition insert_database :: "world \<Rightarrow> Database \<Rightarrow> tables \<Rightarrow> error option \<times> tables" where
  "insert_database w d t =
     and_then (w_fail w 1, t) (\<lambda>t.
     case List.find (\<lambda>x. tn_ID x = da_TenantID d) (t_tenants t) of
       None \<Rightarrow> (Some not_found, t)
     | Some tn \<Rightarrow> and_then (w_fail w 2, t) (\<lambda>t.
       (let limited = 0 < tn_MaxDBs tn; n = (if limited then 4 else 3) in
        and_then (if limited then w_fail w 3 else None, t) (\<lambda>t.
        if limited \<and> tn_MaxDBs tn \<le> int (length (filter (\<lambda>x. da_TenantID x = da_TenantID d) (t_databases t)))
        then (Some (OtherError ''max databases limit'' None), t)
        else and_then (exec (w_fail w n) (da_ID d \<notin> da_ID ` set (t_databases t) \<and> da_TenantID d \<in> tenant_ids t \<and>
            (\<forall>x \<in> set (t_databases t). \<not> (da_TenantID x = da_TenantID d \<and> da_Name x = da_Name d)))
            (\<lambda>t. t\<lparr>t_databases := t_databases t @ [d]\<rparr>) t) (\<lambda>t.
        (w_fail w (n + 1), t))))))"

definition CreateDatabase :: "string \<Rightarrow> string \<Rightarrow> SysDB \<Rightarrow> (error + Database) \<times> SysDB" where
  "CreateDatabase tenantID name s =
     (let w = world_of s; d = \<lparr>da_ID = w_uuid w, da_TenantID = tenantID, da_Name = name, da_CreatedAt = w_now w\<rparr> in
      case transaction ''creating database'' (insert_database w d) s of
        (Some e, s') \<Rightarrow> (Inl e, s') | (None, s') \<Rightarrow> (Inr d, s'))"

definition GetDatabase :: "string \<Rightarrow> SysDB \<Rightarrow> error + Database option" where
  "GetDatabase i s = query_row ''getting database'' (List.find (\<lambda>d. da_ID d = i) (t_databases (db s))) s"

definition ListDatabases :: "string \<Rightarrow> SysDB \<Rightarrow> error + Database list" where
  "ListDatabases tenantID s = (case w_fail (world_of s) 0 of Some e \<Rightarrow> Inl (OtherError ''listing databases'' (Some e))
     | None \<Rightarrow> (case w_fail (world_of s) 1 of Some e \<Rightarrow> Inl e
       | None \<Rightarrow> Inr (sort_key da_CreatedAt (filter (\<lambda>d. da_TenantID d = tenantID) (t_databases (db s))))))"

definition DeleteDatabase :: "string \<Rightarrow> SysDB \<Rightarrow> error option \<times> SysDB" where
  "DeleteDatabase i s =
     (case exec (w_fail (world_of s) 0) True (\<lambda>t. t\<lparr>t_databases := filter (\<lambda>d. da_ID d \<noteq> i) (t_databases t)\<rparr>) (db s) of
        (Some e, t) \<Rightarrow> (Some (OtherError ''deleting database'' (Some e)), next_call s)
      | (None, t) \<Rightarrow> (if i \<notin> da_ID ` set (t_databases (db s)) then Some not_found else None, (next_call s)\<lparr>db := t\<rparr>))"

subsection \<open>Quotas, usage and API keys\<close>

definition GetTenantQuotas :: "string \<Rightarrow> SysDB \<Rightarrow> error + TenantQuotas option" where
  "GetTenantQuotas te s = query_row ''getting tenant quotas'' (map_of (t_quotas (db s)) te) s"

definition GetTenantUsage :: "string \<Rightarrow> SysDB \<Rightarrow> error + TenantUsage option" where
  "GetTenantUsage te s = query_row ''getting tenant usage'' (map_of (t_usage (db s)) te) s"

definition IncrementTenantVectorCount :: "string \<Rightarrow> int \<Rightarrow> SysDB \<Rightarrow> error option \<times> SysDB" where
  "IncrementTenantVectorCount te delta s =
     (let w = world_of s in
      case exec (w_fail w 0) True (\<lambda>t. t\<lparr>t_usage := map (\<lambda>(x, u). (x, if x = te
          then u\<lparr>us_VectorCount := us_VectorCount u + delta, us_UpdatedAt := w_now w\<rparr> else u)) (t_usage t)\<rparr>) (db s) of
        (e, t) \<Rightarrow> (map_option (\<lambda>e. OtherError ''incrementing vector count'' (Some e)) e, (next_call s)\<lparr>db := t\<rparr>))"

definition ResolveAPIKey :: "string \<Rightarrow> SysDB \<Rightarrow> error + string \<times> string" where
  "ResolveAPIKey h s =
     (case w_fail (world_of s) 0 of Some e \<Rightarrow> Inl (OtherError ''resolving API key'' (Some e))
      | None \<Rightarrow> (case List.find (\<lambda>k. key_hash k = h \<and> (case expires_at k of None \<Rightarrow> True | Some x \<Rightarrow> w_now (world_of s) < x))
            (t_api_keys (db s)) of
          None \<Rightarrow> Inl (OtherError ''unknown or expired API key'' None)
        | Some k \<Rightarrow> Inr (key_tenant k, key_role k)))"

definition CreateAPIKey :: "string \<Rightarrow> string \<Rightarrow> string \<Rightarrow> int option \<Rightarrow> SysDB \<Rightarrow> error option \<times> SysDB" where
  "CreateAPIKey h te r expires s =
     (case exec (w_fail (world_of s) 0) (h \<notin> key_hash ` set (t_api_keys (db s)) \<and> te \<in> tenant_ids (db s))
        (\<lambda>t. t\<lparr>t_api_keys := t_api_keys t @ [\<lparr>key_hash = h, key_tenant = te, key_role = r, expires_at = expires\<rparr>]\<rparr>) (db s) of
        (e, t) \<Rightarrow> (e, (next_call s)\<lparr>db := t\<rparr>))"

definition CountCollectionsForTenant :: "string \<Rightarrow> SysDB \<Rightarrow> error + nat" where
  "CountCollectionsForTenant te s = (case w_fail (world_of s) 0 of Some e \<Rightarrow> Inl e
     | None \<Rightarrow> Inr (length (filter (\<lambda>c. cm_TenantID c = te) (t_collections (db s)))))"

subsection \<open>The default tenant\<close>

definition DefaultTenantName :: string where
  "DefaultTenantName = ''default_tenant''"

definition DefaultDatabaseName :: string where
  "DefaultDatabaseName = ''default''"

definition create_default_database :: "string \<Rightarrow> SysDB \<Rightarrow> (error + string \<times> string) \<times> SysDB" where
  "create_default_database te s = (case CreateDatabase te DefaultDatabaseName s of
     (Inl e, s') \<Rightarrow> (Inl e, s') | (Inr d, s') \<Rightarrow> (Inr (te, da_ID d), s'))"

definition EnsureDefaults :: "SysDB \<Rightarrow> (error + string \<times> string) \<times> SysDB" where
  \<comment> \<open>each query is a call of its own\<close>
  "EnsureDefaults s =
     (case GetTenantByName DefaultTenantName s of
        Inl e \<Rightarrow> (Inl (OtherError ''checking default tenant'' (Some e)), next_call s)
      | Inr (Some existing) \<Rightarrow>
          (case ListDatabases (tn_ID existing) (next_call s) of
             Inl e \<Rightarrow> (Inl e, next_call (next_call s))
           | Inr dbs \<Rightarrow>
               (case List.find (\<lambda>d. da_Name d = DefaultDatabaseName) dbs of
                  Some d \<Rightarrow> (Inr (tn_ID existing, da_ID d), next_call (next_call s))
                | None \<Rightarrow> create_default_database (tn_ID existing) (next_call (next_call s))))
      | Inr None \<Rightarrow>
          (case CreateTenant DefaultTenantName 0 0 (next_call s) of
             (Inl e, s') \<Rightarrow> (Inl (OtherError ''creating default tenant'' (Some e)), s')
           | (Inr tn, s') \<Rightarrow>
               (case create_default_database (tn_ID tn) s' of
                  (Inl e, s'') \<Rightarrow> (Inl (OtherError ''creating default database'' (Some e)), s'')
                | r \<Rightarrow> r)))"


subsection \<open>Well-formedness of the tenant tables\<close>

definition databases_of :: "tables \<Rightarrow> string \<Rightarrow> Database list" where
  "databases_of t te = filter (\<lambda>d. da_TenantID d = te) (t_databases t)"

definition tenants_ok :: "tables \<Rightarrow> bool" where
  "tenants_ok t \<longleftrightarrow>
     distinct (map tn_ID (t_tenants t)) \<and> distinct (map tn_Name (t_tenants t)) \<and>
     map fst (t_quotas t) = map tn_ID (t_tenants t) \<and> map fst (t_usage t) = map tn_ID (t_tenants t) \<and>
     distinct (map da_ID (t_databases t)) \<and> distinct (map (\<lambda>d. (da_TenantID d, da_Name d)) (t_databases t)) \<and>
     da_TenantID ` set (t_databases t) \<subseteq> tenant_ids t \<and>
     distinct (map key_hash (t_api_keys t)) \<and> key_tenant ` set (t_api_keys t) \<subseteq> tenant_ids t \<and>
     (\<forall>tn \<in> set (t_tenants t). 0 < tn_MaxDBs tn \<longrightarrow> int (length (databases_of t (tn_ID tn))) \<le> tn_MaxDBs tn)"

definition tenant_part :: "tables \<Rightarrow> Tenant list \<times> Database list \<times> (string \<times> TenantQuotas) list \<times> (string \<times> TenantUsage) list \<times> api_key list" where
  "tenant_part t = (t_tenants t, t_databases t, t_quotas t, t_usage t, t_api_keys t)"

text \<open>All calls of a database. \<open>D\<close> holds the tenants that may be deleted.\<close>

inductive tenant_run :: "('n \<Rightarrow> string) \<Rightarrow> string set \<Rightarrow> SysDB \<Rightarrow> SysDB \<Rightarrow> bool" for fn D s0 where
  start: "tenant_run fn D s0 s0"
| schema: "tenant_run fn D s0 s \<Longrightarrow> InitMultiTenancySchema s = (r, s') \<Longrightarrow> tenant_run fn D s0 s'"
| catalogue: "tenant_run fn D s0 s \<Longrightarrow> db_run fn s s' \<Longrightarrow> tenant_run fn D s0 s'"
| create_tenant: "tenant_run fn D s0 s \<Longrightarrow> CreateTenant name mx mc s = (r', s') \<Longrightarrow> tenant_run fn D s0 s'"
| delete_tenant: "tenant_run fn D s0 s \<Longrightarrow> te \<in> D \<Longrightarrow> DeleteTenant te s = (r, s') \<Longrightarrow> tenant_run fn D s0 s'"
| create_database: "tenant_run fn D s0 s \<Longrightarrow> CreateDatabase te name s = (rd, s') \<Longrightarrow> tenant_run fn D s0 s'"
| delete_database: "tenant_run fn D s0 s \<Longrightarrow> DeleteDatabase i s = (r, s') \<Longrightarrow> tenant_run fn D s0 s'"
| count_vectors: "tenant_run fn D s0 s \<Longrightarrow> IncrementTenantVectorCount te n s = (r, s') \<Longrightarrow> tenant_run fn D s0 s'"
| create_key: "tenant_run fn D s0 s \<Longrightarrow> CreateAPIKey h te role expires s = (r, s') \<Longrightarrow> tenant_run fn D s0 s'"
| defaults: "tenant_run fn D s0 s \<Longrightarrow> EnsureDefaults s = (re, s') \<Longrightarrow> tenant_run fn D s0 s'"

lemma and_then_None: "and_then r k = (None, t') \<longleftrightarrow> (\<exists>t. r = (None, t) \<and> k t = (None, t'))"
  by (auto simp: and_then_def split: prod.splits option.splits)

lemma exec_None: "exec fail c f t = (None, t') \<longleftrightarrow> fail = None \<and> c \<and> t' = f t"
  by (auto simp: exec_def split: option.splits)

lemma transaction_db:
  "db (snd (transaction msg body s)) = (if fst (transaction msg body s) = None then snd (body (db s)) else db s)"
  by (auto simp: transaction_def and_then_def next_call_def split: option.splits prod.splits)

lemma transaction_None: "transaction msg body s = (None, s') \<longleftrightarrow>
    (\<exists>t. w_fail (world_of s) 0 = None \<and> body (db s) = (None, t) \<and> s' = (next_call s)\<lparr>db := t\<rparr>)"
  by (auto simp: transaction_def and_then_def split: option.splits prod.splits)

lemma transaction_other: "tombstones (snd (transaction msg body s)) = tombstones s"
  by (auto simp: transaction_def and_then_def next_call_def split: option.splits prod.splits)

lemma tenants_ok_part: "tenant_part t' = tenant_part t \<Longrightarrow> tenants_ok t' = tenants_ok t"
  by (simp add: tenant_part_def tenants_ok_def tenant_ids_def databases_of_def)

lemma untomb_batches_tenants [simp]: "tenant_part (snd (untomb_batches w k cid bs t)) = tenant_part t"
  by (induction w k cid bs t rule: untomb_batches.induct) (auto simp: exec_def tenant_part_def split: option.splits)

lemma save_loop_tenants [simp]: "tenant_part (snd (save_loop w n cid v kxs t)) = tenant_part t"
  by (induction w n cid v kxs t rule: save_loop.induct) (auto simp: exec_def tenant_part_def split: option.splits)

lemma delete_where_tenants: "delete_where P cid s = (r, s') \<Longrightarrow> tenant_part (db s') = tenant_part (db s)"
  by (auto simp: delete_where_def exec_def next_call_def remove_collections_def tenant_part_def Let_def split: option.splits if_splits)

lemma db_run_tenants: "db_run fn s s' \<Longrightarrow> tenant_part (db s') = tenant_part (db s)"
proof (induction rule: db_run.induct)
  case (create s te dbid name d metric ty r s')
  then show ?case by (auto simp: db_CreateCollectionScoped_def Let_def exec_def next_call_def tenant_part_def split: option.splits if_splits)
next
  case (delete s cid r s')
  then show ?case using delete_where_tenants by (simp add: db_DeleteCollection_def)
next
  case (delete_scoped s te cid r s')
  then show ?case using delete_where_tenants by (simp add: db_DeleteCollectionScoped_def)
next
  case (update_count s cid n r s')
  then show ?case by (auto simp: db_UpdateVectorCount_def exec_def next_call_def tenant_part_def split: option.splits)
next
  case (add s cid v r s')
  then show ?case by (auto simp: db_AddTombstone_def exec_def next_call_def tenant_part_def split: option.splits if_splits)
next
  case (remove s cid v r s')
  then show ?case by (auto simp: db_RemoveTombstone_def exec_def next_call_def tenant_part_def split: option.splits)
next
  case (remove_batch s cid vs r s')
  obtain e t where u: "untomb_batches (world_of s) 0 cid (batches vs) (db s) = (e, t)" by fastforce
  then have "tenant_part t = tenant_part (db s)" by (metis untomb_batches_tenants snd_conv)
  then show ?case using remove_batch u by (auto simp: db_RemoveTombstonesBatch_def next_call_def split: option.splits if_splits)
next
  case (save s ord cid v mm r s')
  obtain e t where u: "save_loop (world_of s) 1 cid v (map (\<lambda>k. (k, sprint fn (the (mm k)))) (ord (dom mm))) (db s) = (e, t)" by fastforce
  then have "tenant_part t = tenant_part (db s)" by (metis save_loop_tenants snd_conv)
  then show ?case using save u by (auto simp: db_SaveVectorMetadata_def Let_def next_call_def split: option.splits if_splits)
next
  case (delete_meta s cid v r s')
  then show ?case by (auto simp: db_DeleteVectorMetadata_def exec_def next_call_def tenant_part_def split: option.splits)
qed simp

lemma insert_tenant_None:
  "insert_tenant w tn t = (None, t') \<Longrightarrow>
   tn_ID tn \<notin> tenant_ids t \<and> tn_Name tn \<notin> tn_Name ` set (t_tenants t) \<and>
   t' = t\<lparr>t_tenants := t_tenants t @ [tn], t_quotas := t_quotas t @ [(tn_ID tn, default_quotas)],
     t_usage := t_usage t @ [(tn_ID tn, \<lparr>us_VectorCount = 0, us_CollectionCount = 0, us_BytesUsed = 0, us_UpdatedAt = w_now w\<rparr>)]\<rparr>"
  unfolding insert_tenant_def and_then_None exec_None by auto

lemma insert_tenant_ok:
  assumes "tenants_ok t" "insert_tenant w tn t = (None, t')"
  shows "tenants_ok t'"
proof -
  note I = insert_tenant_None [OF assms(2)]
  have none: "databases_of t (tn_ID tn) = []"
    using assms(1) I by (auto simp: tenants_ok_def databases_of_def filter_empty_conv)
  show ?thesis using assms(1) I none unfolding tenants_ok_def
    by (auto simp: tenant_ids_def databases_of_def)
qed

lemma find_tenant: "List.find (\<lambda>x. tn_ID x = te) ts = Some tn \<Longrightarrow> tn \<in> set ts \<and> tn_ID tn = te"
  by (auto simp: find_Some_iff)

lemma insert_database_None:
  "insert_database w d t = (None, t') \<Longrightarrow>
   \<exists>tn. tn \<in> set (t_tenants t) \<and> tn_ID tn = da_TenantID d \<and>
     (0 < tn_MaxDBs tn \<longrightarrow> int (length (databases_of t (da_TenantID d))) < tn_MaxDBs tn) \<and>
     da_ID d \<notin> da_ID ` set (t_databases t) \<and> (\<forall>x \<in> set (t_databases t). \<not> (da_TenantID x = da_TenantID d \<and> da_Name x = da_Name d)) \<and>
     t' = t\<lparr>t_databases := t_databases t @ [d]\<rparr>"
  unfolding insert_database_def and_then_None databases_of_def
  by (auto simp: and_then_None exec_None Let_def split: option.splits if_splits dest: find_tenant)

lemma insert_database_ok:
  assumes "tenants_ok t" "insert_database w d t = (None, t')"
  shows "tenants_ok t'"
proof -
  obtain tn where tn: "tn \<in> set (t_tenants t)" "tn_ID tn = da_TenantID d"
    and room: "0 < tn_MaxDBs tn \<Longrightarrow> int (length (databases_of t (da_TenantID d))) < tn_MaxDBs tn"
    and new: "da_ID d \<notin> da_ID ` set (t_databases t)" "\<forall>x \<in> set (t_databases t). \<not> (da_TenantID x = da_TenantID d \<and> da_Name x = da_Name d)"
    and t': "t' = t\<lparr>t_databases := t_databases t @ [d]\<rparr>"
    using insert_database_None [OF assms(2)] by blast
  have uniq: "x = tn" if "x \<in> set (t_tenants t)" "tn_ID x = da_TenantID d" for x
    using assms(1) that tn by (auto simp: tenants_ok_def distinct_map inj_on_def)
  have quota: "int (length (databases_of t' (tn_ID x))) \<le> tn_MaxDBs x" if "x \<in> set (t_tenants t)" "0 < tn_MaxDBs x" for x
  proof (cases "tn_ID x = da_TenantID d")
    case True
    then show ?thesis using uniq [OF that(1) True] room that(2) by (simp add: t' databases_of_def)
  next
    case False
    then have "databases_of t' (tn_ID x) = databases_of t (tn_ID x)" by (auto simp: t' databases_of_def)
    then show ?thesis using assms(1) that by (simp add: tenants_ok_def)
  qed
  show ?thesis using assms(1) new tn quota unfolding tenants_ok_def t'
    by (auto simp: tenant_ids_def image_iff) metis
qed

lemma remove_tenant_ok:
  assumes "tenants_ok t"
  shows "tenants_ok (remove_tenant te t)"
proof -
  have keys: "map fst (filter (\<lambda>(x, q). x \<noteq> te) ys) = filter (\<lambda>x. x \<noteq> te) (map fst ys)" for ys :: "(string \<times> 'a) list"
    by (induction ys) auto
  have ids: "map tn_ID (filter (\<lambda>x. tn_ID x \<noteq> te) xs) = filter (\<lambda>x. x \<noteq> te) (map tn_ID xs)" for xs
    by (induction xs) auto
  have dbs: "databases_of (remove_tenant te t) x = databases_of t x" if "x \<noteq> te" for x
    using that by (auto simp: databases_of_def remove_tenant_def intro!: filter_cong)
  have "distinct (map f (filter P xs))" if "distinct (map f xs)" for f :: "'b \<Rightarrow> 'c" and P xs
    using that by (simp add: distinct_map_filter)
  then show ?thesis using assms dbs unfolding tenants_ok_def
    by (auto simp: remove_tenant_def tenant_ids_def keys ids distinct_map_filter)
qed

lemma tenant_call_ok:
  assumes "tenants_ok (db s)"
  shows "tenants_ok (db (snd (CreateTenant name mx mc s)))"
    and "tenants_ok (db (snd (CreateDatabase te name s)))"
    and "tenants_ok (db (snd (DeleteTenant te s)))"
    and "tenants_ok (db (snd (DeleteDatabase i s)))"
    and "tenants_ok (db (snd (IncrementTenantVectorCount te n s)))"
    and "tenants_ok (db (snd (CreateAPIKey h te role expires s)))"
proof -
  show "tenants_ok (db (snd (CreateTenant name mx mc s)))"
    using assms insert_tenant_ok [OF assms]
    by (auto simp: CreateTenant_def Let_def transaction_None transaction_def and_then_def next_call_def split: option.splits prod.splits)
  show "tenants_ok (db (snd (CreateDatabase te name s)))"
    using assms insert_database_ok [OF assms]
    by (auto simp: CreateDatabase_def Let_def transaction_None transaction_def and_then_def next_call_def split: option.splits prod.splits)
  show "tenants_ok (db (snd (DeleteTenant te s)))"
    using assms remove_tenant_ok [OF assms]
    by (auto simp: DeleteTenant_def Let_def exec_def next_call_def split: option.splits)
  have "tenants_ok ((db s)\<lparr>t_databases := filter (\<lambda>d. da_ID d \<noteq> i) (t_databases (db s))\<rparr>)"
  proof -
    have le: "length (filter P (filter Q xs)) \<le> length (filter P xs)" for P Q and xs :: "Database list"
      by (induction xs) auto
    show ?thesis using assms unfolding tenants_ok_def databases_of_def
      by (auto simp: tenant_ids_def distinct_map_filter simp del: filter_filter intro!: order.trans [OF le [THEN of_nat_mono]])
  qed
  then show "tenants_ok (db (snd (DeleteDatabase i s)))"
    using assms by (auto simp: DeleteDatabase_def exec_def next_call_def split: option.splits)
  show "tenants_ok (db (snd (IncrementTenantVectorCount te n s)))"
    using assms by (auto simp: IncrementTenantVectorCount_def Let_def exec_def next_call_def tenants_ok_def tenant_ids_def databases_of_def comp_def case_prod_beta split: option.splits)
  show "tenants_ok (db (snd (CreateAPIKey h te role expires s)))"
    using assms by (auto simp: CreateAPIKey_def exec_def next_call_def tenants_ok_def tenant_ids_def databases_of_def split: option.splits)
qed

lemma next_call_simps [simp]: "db (next_call s) = db s" "tombstones (next_call s) = tombstones s" "worlds (next_call s) = worlds s"
  "tick (next_call s) = tick s + 1"
  by (simp_all add: next_call_def)

lemma create_default_ok: "tenants_ok (db s) \<Longrightarrow> tenants_ok (db (snd (create_default_database te s)))"
  using tenant_call_ok(2) [of s te DefaultDatabaseName]
  by (auto simp: create_default_database_def split: prod.splits sum.splits)

lemma EnsureDefaults_ok: "tenants_ok (db s) \<Longrightarrow> tenants_ok (db (snd (EnsureDefaults s)))"
  using tenant_call_ok(1) [of "next_call s" DefaultTenantName 0 0] create_default_ok
  by (auto simp: EnsureDefaults_def split: prod.splits sum.splits option.splits) (metis snd_conv)+

lemma tenant_run_ok:
  assumes "tenant_run fn D s0 s" "tenants_ok (db s0)"
  shows "tenants_ok (db s)"
  using assms
proof (induction rule: tenant_run.induct)
  case (schema s r s')
  then show ?case by (auto simp: InitMultiTenancySchema_def)
next
  case (catalogue s s')
  then show ?case using tenants_ok_part [OF db_run_tenants] by blast
next
  case (create_tenant s name mx mc r' s')
  then show ?case using tenant_call_ok(1) by (metis snd_conv)
next
  case (delete_tenant s te r s')
  then show ?case using tenant_call_ok(3) by (metis snd_conv)
next
  case (create_database s te name rd s')
  then show ?case using tenant_call_ok(2) by (metis snd_conv)
next
  case (delete_database s i r s')
  then show ?case using tenant_call_ok(4) by (metis snd_conv)
next
  case (count_vectors s te n r s')
  then show ?case using tenant_call_ok(5) by (metis snd_conv)
next
  case (create_key s h te role expires r s')
  then show ?case using tenant_call_ok(6) by (metis snd_conv)
next
  case (defaults s re s')
  then show ?case using EnsureDefaults_ok by (metis snd_conv)
qed

text \<open>C38. Tenant tables: on a new database, whatever calls are made and whichever of their statements fail, the
  names of tenants are unique, every tenant has exactly one row of quotas and of usage, every database and
  API key belongs to an existing tenant, and no tenant has more databases than its limit.\<close>

theorem tenant_tables_invariant:
  assumes "NewSysDB ws empty_tables = Inr s0" "tenant_run fn D s0 s"
  shows "tenants_ok (db s)"
proof (rule tenant_run_ok [OF assms(2)])
  have "db s0 = empty_tables" using assms(1) by (auto simp: NewSysDB_def split: option.splits)
  then show "tenants_ok (db s0)" by (simp add: tenants_ok_def empty_tables_def tenant_ids_def)
qed

subsection \<open>The tombstones under all calls\<close>

definition tombs_of :: "SysDB \<Rightarrow> (string \<times> u64) list \<times> (string \<rightharpoonup> u64 set)" where
  "tombs_of s = (t_tombstones (db s), tombstones s)"

lemma tombs_of_eqD: "tombs_of s' = tombs_of s \<Longrightarrow> t_tombstones (db s') = t_tombstones (db s) \<and> tombstones s' = tombstones s"
  by (simp add: tombs_of_def)

lemma tombs_of_next [simp]: "tombs_of (next_call s) = tombs_of s"
  by (simp add: tombs_of_def)

lemma insert_tenant_tombs: "t_tombstones (snd (insert_tenant w tn t)) = t_tombstones t"
  by (auto simp: insert_tenant_def and_then_def exec_def split: option.splits prod.splits)

lemma insert_database_tombs: "t_tombstones (snd (insert_database w d t)) = t_tombstones t"
  by (auto simp: insert_database_def and_then_def exec_def Let_def split: option.splits prod.splits)

lemma transaction_tombs:
  assumes "\<And>t. t_tombstones (snd (body t)) = t_tombstones t"
  shows "tombs_of (snd (transaction msg body s)) = tombs_of s"
  using assms [of "db s"] by (simp add: tombs_of_def transaction_db transaction_other)

lemma calls_keep_tombs:
  "tombs_of (snd (CreateTenant name mx mc s)) = tombs_of s"
  "tombs_of (snd (CreateDatabase te name s)) = tombs_of s"
  "tombs_of (snd (DeleteDatabase i s)) = tombs_of s"
  "tombs_of (snd (IncrementTenantVectorCount te n s)) = tombs_of s"
  "tombs_of (snd (CreateAPIKey h te role expires s)) = tombs_of s"
proof -
  have t: "tombs_of (snd (transaction msg (insert_tenant w tn) s)) = tombs_of s" for msg w tn by (rule transaction_tombs [OF insert_tenant_tombs])
  have d: "tombs_of (snd (transaction msg (insert_database w x) s)) = tombs_of s" for msg w x by (rule transaction_tombs [OF insert_database_tombs])
  show "tombs_of (snd (CreateTenant name mx mc s)) = tombs_of s"
    using t by (auto simp: CreateTenant_def Let_def split: prod.splits option.splits) (metis snd_conv)+
  show "tombs_of (snd (CreateDatabase te name s)) = tombs_of s"
    using d by (auto simp: CreateDatabase_def Let_def split: prod.splits option.splits) (metis snd_conv)+
qed (auto simp: DeleteDatabase_def IncrementTenantVectorCount_def CreateAPIKey_def exec_def Let_def tombs_of_def split: option.splits)

lemma EnsureDefaults_tombs: "tombs_of (snd (EnsureDefaults s)) = tombs_of s"
proof -
  have d: "tombs_of (snd (create_default_database te s)) = tombs_of s" for te s
    using calls_keep_tombs(2) [of te DefaultDatabaseName s] by (auto simp: create_default_database_def split: prod.splits sum.splits)
  show ?thesis
  proof (cases "CreateTenant DefaultTenantName 0 0 (next_call s)")
    case (Pair r s1)
    then have "tombs_of s1 = tombs_of s" using calls_keep_tombs(1) [of DefaultTenantName 0 0 "next_call s"] by simp
    then show ?thesis
      using d [of _ s1] d [of _ "next_call (next_call s)"] Pair
      by (auto simp: EnsureDefaults_def split: prod.split sum.split option.split) (metis snd_conv)+
  qed
qed

lemma forget_all: "fold (\<lambda>cid m. m(cid := None)) cids m c = (if c \<in> set cids then None else m c)"
  by (induction cids arbitrary: m) auto

abbreviation cache_sound :: "SysDB \<Rightarrow> bool" where
  "cache_sound \<equiv> tombs_in (\<longrightarrow>)"

lemma DeleteTenant_sound: "cache_sound s \<Longrightarrow> cache_sound (snd (DeleteTenant te s))"
proof -
  assume s: "cache_sound s"
  have "IsTombstoned cid v (snd (DeleteTenant te s)) \<Longrightarrow> IsTombstoned cid v s" for cid v
    by (auto simp: DeleteTenant_def Let_def exec_def IsTombstoned_def forget_all split: option.splits if_splits)
  moreover have "t_tombstones (db (snd (DeleteTenant te s))) = t_tombstones (db s)"
    by (auto simp: DeleteTenant_def Let_def exec_def remove_tenant_def split: option.splits if_splits)
  ultimately show ?thesis using s unfolding tombs_in_def by metis
qed

lemma tenant_run_tombs:
  assumes "tenant_run fn D s0 s" "tombs_in R s0" "\<And>b. R b b"
    and del: "\<And>s te. tombs_in R s \<Longrightarrow> te \<in> D \<Longrightarrow> tombs_in R (snd (DeleteTenant te s))"
  shows "tombs_in R s"
  using assms(1,2)
proof (induction rule: tenant_run.induct)
  case (catalogue s s')
  then have "db_run fn s s'" "tombs_in R s" by simp_all
  then show ?case by (rule db_run_tombs) (rule assms(3))
next
  case (delete_tenant s te r s')
  then show ?case using del by (metis snd_conv)
next
  case (schema s r s')
  then have "tombs_of s' = tombs_of s" by (auto simp: InitMultiTenancySchema_def)
  then show ?case using schema tombs_of_eqD tombs_in_cong by blast
next
  case (create_tenant s name mx mc r' s')
  then have "tombs_of s' = tombs_of s" using calls_keep_tombs(1) by (metis snd_conv)
  then show ?case using create_tenant tombs_of_eqD tombs_in_cong by blast
next
  case (create_database s te name rd s')
  then have "tombs_of s' = tombs_of s" using calls_keep_tombs(2) by (metis snd_conv)
  then show ?case using create_database tombs_of_eqD tombs_in_cong by blast
next
  case (delete_database s i r s')
  then have "tombs_of s' = tombs_of s" using calls_keep_tombs(3) by (metis snd_conv)
  then show ?case using delete_database tombs_of_eqD tombs_in_cong by blast
next
  case (count_vectors s te n r s')
  then have "tombs_of s' = tombs_of s" using calls_keep_tombs(4) by (metis snd_conv)
  then show ?case using count_vectors tombs_of_eqD tombs_in_cong by blast
next
  case (create_key s h te role expires r s')
  then have "tombs_of s' = tombs_of s" using calls_keep_tombs(5) by (metis snd_conv)
  then show ?case using create_key tombs_of_eqD tombs_in_cong by blast
next
  case (defaults s re s')
  then have "tombs_of s' = tombs_of s" using EnsureDefaults_tombs by (metis snd_conv)
  then show ?case using defaults tombs_of_eqD tombs_in_cong by blast
qed

text \<open>C24. Tombstone cache: open the database and make any calls, of collections, tombstones, metadata and tenants,
  failing ones included (but a removal of more than 900 tombstones that fails half-way). \<open>IsTombstoned\<close>, which reads
  only the cache in memory, never reports a tombstone that is not in the table; as long as no tenant is deleted it
  reports exactly those of the table; and opening the database again gives exactly those in any case.
  (Deleting a tenant empties the cache of its collections and leaves the table.)\<close>

theorem tombstone_cache_exact:
  assumes "NewSysDB ws t = Inr s0" "tenant_run fn D s0 s"
  shows "(IsTombstoned cid v s \<longrightarrow> (cid, v) \<in> set (t_tombstones (db s))) \<and>
    (D = {} \<longrightarrow> (IsTombstoned cid v s \<longleftrightarrow> (cid, v) \<in> set (t_tombstones (db s)))) \<and>
    (\<forall>ws' s1. NewSysDB ws' (db s) = Inr s1 \<longrightarrow> (IsTombstoned cid v s1 \<longleftrightarrow> (cid, v) \<in> set (t_tombstones (db s))))"
proof -
  have a: "tombs_agree s0" by (rule tombs_agree_start [OF assms(1)])
  then have "cache_sound s0" by (simp add: tombs_in_def)
  then have "cache_sound s" by (rule tenant_run_tombs [OF assms(2)]) (simp_all add: DeleteTenant_sound)
  moreover have "tombs_agree s" if "D = {}" by (rule tenant_run_tombs [OF assms(2) a]) (simp_all add: that)
  moreover have "IsTombstoned cid v s1 \<longleftrightarrow> (cid, v) \<in> set (t_tombstones (db s))" if "NewSysDB ws' (db s) = Inr s1" for ws' s1
  proof -
    have "db s1 = db s" using that by (auto simp: NewSysDB_def split: option.splits)
    then show ?thesis using tombs_agree_start [OF that] by (simp add: tombs_in_def)
  qed
  ultimately show ?thesis unfolding tombs_in_def by blast
qed

subsection \<open>What deleting a tenant leaves behind\<close>

text \<open>Deleting a tenant does not delete its collections, which have no foreign key to it, although the
  code means to: they and their tombstones stay in the tables. But the tombstones are dropped from
  the cache in memory, so the deleted vectors of those collections count as live until the next start.\<close>

theorem DeleteTenant_forgets_tombstones:
  assumes "DeleteTenant te s = (None, s')" "c \<in> set (t_collections (db s))" "cm_TenantID c = te"
    "(cm_ID c, v) \<in> set (t_tombstones (db s))" "NewSysDB ws (db s') = Inr restarted"
  shows "c \<in> set (t_collections (db s')) \<and> \<not> IsTombstoned (cm_ID c) v s' \<and> IsTombstoned (cm_ID c) v restarted"
proof -
  have d: "db s' = remove_tenant te (db s)"
    and t: "tombstones s' = fold (\<lambda>cid m. m(cid := None)) (map cm_ID (filter (\<lambda>c. cm_TenantID c = te) (t_collections (db s)))) (tombstones s)"
    using assms(1) by (auto simp: DeleteTenant_def Let_def exec_def split: option.splits if_splits)
  have "tombstones s' (cm_ID c) = None" using assms(2,3) by (auto simp: t forget_all)
  moreover have "tombs_agree restarted" by (rule tombs_agree_start [OF assms(5)])
  moreover have "db restarted = db s'" using assms(5) by (auto simp: NewSysDB_def split: option.splits)
  ultimately show ?thesis using assms(2,4) by (simp add: d remove_tenant_def IsTombstoned_def [of _ _ s'] tombs_in_def)
qed

subsection \<open>The default tenant\<close>

definition calls_succeed :: "SysDB \<Rightarrow> bool" where
  "calls_succeed s \<longleftrightarrow> (\<forall>k \<ge> tick s. \<forall>n. w_fail (worlds s k) n = None)"

definition is_default :: "tables \<Rightarrow> string \<Rightarrow> string \<Rightarrow> bool" where
  "is_default t te d \<longleftrightarrow> (\<exists>tn \<in> set (t_tenants t). tn_ID tn = te \<and> tn_Name tn = DefaultTenantName) \<and>
     (\<exists>x \<in> set (t_databases t). da_ID x = d \<and> da_TenantID x = te \<and> da_Name x = DefaultDatabaseName)"

lemma find_unique: "x \<in> set xs \<Longrightarrow> P x \<Longrightarrow> (\<And>y. y \<in> set xs \<Longrightarrow> P y \<Longrightarrow> y = x) \<Longrightarrow> List.find P xs = Some x"
proof (induction xs)
  case (Cons a xs)
  show ?case
  proof (cases "P a")
    case True
    have "a = x" by (rule Cons.prems(3)) (simp_all add: True)
    then show ?thesis using True by simp
  next
    case False
    then have x: "x \<in> set xs" using Cons.prems(1,2) by auto
    have "List.find P xs = Some x"
      by (rule Cons.IH [OF x Cons.prems(2)]) (rule Cons.prems(3), simp_all)
    then show ?thesis using False by simp
  qed
qed simp

lemma EnsureDefaults_found:
  assumes "tenants_ok (db s)" "calls_succeed s" "is_default (db s) te d"
  shows "EnsureDefaults s = (Inr (te, d), next_call (next_call s))"
proof -
  obtain tn x where tn: "tn \<in> set (t_tenants (db s))" "tn_ID tn = te" "tn_Name tn = DefaultTenantName"
    and x: "x \<in> set (t_databases (db s))" "da_ID x = d" "da_TenantID x = te" "da_Name x = DefaultDatabaseName"
    using assms(3) by (auto simp: is_default_def)
  have "List.find (\<lambda>t. tn_Name t = DefaultTenantName) (t_tenants (db s)) = Some tn"
    by (rule find_unique) (use assms(1) tn in \<open>auto simp: tenants_ok_def distinct_map inj_on_def\<close>)
  moreover have "List.find (\<lambda>d. da_Name d = DefaultDatabaseName)
      (sort_key da_CreatedAt (filter (\<lambda>d. da_TenantID d = te) (t_databases (db s)))) = Some x"
    by (rule find_unique) (use assms(1) x in \<open>auto simp: tenants_ok_def distinct_map inj_on_def\<close>)
  ultimately show ?thesis using assms(2) tn(2) x(2)
    by (simp add: EnsureDefaults_def GetTenantByName_def ListDatabases_def query_row_def world_of_def calls_succeed_def)
qed

lemma create_default_is_default:
  assumes "create_default_database te s = (Inr (te', d), s')" "tn \<in> set (t_tenants (db s))" "tn_ID tn = te" "tn_Name tn = DefaultTenantName"
  shows "te' = te \<and> is_default (db s') te d"
proof -
  obtain da where c: "CreateDatabase te DefaultDatabaseName s = (Inr da, s')" "te' = te" "d = da_ID da"
    using assms(1) by (auto simp: create_default_database_def split: prod.splits sum.splits)
  define dd where "dd = \<lparr>da_ID = w_uuid (world_of s), da_TenantID = te, da_Name = DefaultDatabaseName, da_CreatedAt = w_now (world_of s)\<rparr>"
  have "transaction ''creating database'' (insert_database (world_of s) dd) s = (None, s')" "da = dd"
    using c(1) by (auto simp: CreateDatabase_def Let_def dd_def split: prod.splits option.splits)
  then have "db s' = (db s)\<lparr>t_databases := t_databases (db s) @ [dd]\<rparr>" "da = dd"
    by (auto simp: transaction_None dest!: insert_database_None)
  then show ?thesis using assms(2-4) c by (auto simp: is_default_def dd_def)
qed

lemma EnsureDefaults_is_default:
  assumes "EnsureDefaults s = (Inr (te, d), s')"
  shows "is_default (db s') te d"
proof (cases "GetTenantByName DefaultTenantName s")
  case (Inl e)
  then show ?thesis using assms by (simp add: EnsureDefaults_def)
next
  case (Inr r)
  show ?thesis
  proof (cases r)
    case None
    obtain tn s1 where c: "CreateTenant DefaultTenantName 0 0 (next_call s) = (Inr tn, s1)"
      and "create_default_database (tn_ID tn) s1 = (Inr (te, d), s')"
      using assms Inr None by (auto simp: EnsureDefaults_def split: prod.splits sum.splits)
    moreover have "tn \<in> set (t_tenants (db s1)) \<and> tn_Name tn = DefaultTenantName"
      using c by (auto simp: CreateTenant_def Let_def transaction_None dest!: insert_tenant_None split: prod.splits option.splits)
    ultimately show ?thesis using create_default_is_default by blast
  next
    case (Some tn)
    then have tn: "tn \<in> set (t_tenants (db s))" "tn_Name tn = DefaultTenantName"
      using Inr by (auto simp: GetTenantByName_def query_row_def find_Some_iff split: option.splits)
    define dbs where "dbs = sort_key da_CreatedAt (filter (\<lambda>d. da_TenantID d = tn_ID tn) (t_databases (db s)))"
    have listed: "ListDatabases (tn_ID tn) (next_call s) = Inr dbs"
      using assms Inr Some by (auto simp: EnsureDefaults_def ListDatabases_def dbs_def split: option.splits)
    have "(case List.find (\<lambda>d. da_Name d = DefaultDatabaseName) dbs of
        Some x \<Rightarrow> (Inr (tn_ID tn, da_ID x), next_call (next_call s))
      | None \<Rightarrow> create_default_database (tn_ID tn) (next_call (next_call s))) = (Inr (te, d), s')"
      using assms Inr Some listed by (simp add: EnsureDefaults_def)
    then consider (found) x where "List.find (\<lambda>d. da_Name d = DefaultDatabaseName) dbs = Some x"
        "te = tn_ID tn" "d = da_ID x" "s' = next_call (next_call s)"
      | (made) "create_default_database (tn_ID tn) (next_call (next_call s)) = (Inr (te, d), s')"
      by (cases "List.find (\<lambda>d. da_Name d = DefaultDatabaseName) dbs") simp_all
    then show ?thesis
    proof cases
      case found
      then have x: "x \<in> set dbs" "da_Name x = DefaultDatabaseName" by (auto simp: find_Some_iff)
      then have "x \<in> set (t_databases (db s))" "da_TenantID x = tn_ID tn" by (simp_all add: dbs_def)
      then show ?thesis using x tn found by (auto simp: is_default_def)
    next
      case made
      then show ?thesis using create_default_is_default [OF made, of tn] tn by simp
    qed
  qed
qed

text \<open>Start-up: \<open>EnsureDefaults\<close>, when it succeeds, has a tenant and a database of the default names, and
  every later start that meets no failure returns the same two identifiers and changes no table.\<close>

theorem EnsureDefaults_idempotent:
  assumes "tenants_ok (db s)" "EnsureDefaults s = (Inr (te, d), s')" "calls_succeed s'"
  shows "is_default (db s') te d \<and> fst (EnsureDefaults s') = Inr (te, d) \<and> db (snd (EnsureDefaults s')) = db s'"
proof -
  have "tenants_ok (db s')" using EnsureDefaults_ok [OF assms(1)] assms(2) by simp
  from EnsureDefaults_found [OF this assms(3) EnsureDefaults_is_default [OF assms(2)]]
  show ?thesis using EnsureDefaults_is_default [OF assms(2)] by simp
qed

subsection \<open>Witnesses\<close>

definition ex_tenant :: "nat \<Rightarrow> string \<Rightarrow> int \<Rightarrow> Tenant" where
  "ex_tenant k name mx = \<lparr>tn_ID = replicate (Suc k) CHR ''u'', tn_Name = name, tn_MaxDBs = mx, tn_MaxColls = 0, tn_CreatedAt = int k\<rparr>"

definition ex_database :: "nat \<Rightarrow> nat \<Rightarrow> string \<Rightarrow> Database" where
  "ex_database k te name = \<lparr>da_ID = replicate (Suc k) CHR ''u'', da_TenantID = replicate (Suc te) CHR ''u'', da_Name = name, da_CreatedAt = int k\<rparr>"

definition ex_row :: "nat \<Rightarrow> TenantUsage" where
  "ex_row k = \<lparr>us_VectorCount = 0, us_CollectionCount = 0, us_BytesUsed = 0, us_UpdatedAt = int k\<rparr>"

definition ex_tenant_tables :: "nat \<Rightarrow> string \<Rightarrow> int \<Rightarrow> Database list \<Rightarrow> tables" where
  "ex_tenant_tables k name mx ds = empty_tables\<lparr>t_tenants := [ex_tenant k name mx], t_databases := ds,
     t_quotas := [(replicate (Suc k) CHR ''u'', default_quotas)], t_usage := [(replicate (Suc k) CHR ''u'', ex_row k)]\<rparr>"

lemma ex_CreateTenant:
  "CreateTenant name mx 0 (ex_db k empty_tables c) = (Inr (ex_tenant k name mx), ex_db (Suc k) (ex_tenant_tables k name mx []) c)"
  by (simp add: CreateTenant_def Let_def transaction_def insert_tenant_def and_then_def exec_def tenant_ids_def empty_tables_def
      ex_tenant_tables_def ex_tenant_def ex_row_def) (simp add: ex_worlds_def)

lemma ex_CreateDatabase:
  "CreateDatabase (replicate (Suc te) CHR ''u'') name (ex_db k (ex_tenant_tables te tname mx ds) c) =
   (if 0 < mx \<and> mx \<le> int (length (filter (\<lambda>x. da_TenantID x = replicate (Suc te) CHR ''u'') ds))
    then (Inl (OtherError ''creating database'' (Some (OtherError ''max databases limit'' None))), ex_db (Suc k) (ex_tenant_tables te tname mx ds) c)
    else if ds = [] then (Inr (ex_database k te name), ex_db (Suc k) (ex_tenant_tables te tname mx [ex_database k te name]) c)
    else CreateDatabase (replicate (Suc te) CHR ''u'') name (ex_db k (ex_tenant_tables te tname mx ds) c))"
  by (simp add: CreateDatabase_def Let_def transaction_def insert_database_def and_then_def exec_def tenant_ids_def empty_tables_def
      ex_tenant_tables_def ex_tenant_def ex_database_def) (simp add: ex_worlds_def)

lemma ex_defaults:
  "EnsureDefaults (ex_db 1 empty_tables Map.empty) =
   (Inr (''uuu'', ''uuuu''), ex_db 4 (ex_tenant_tables 2 DefaultTenantName 0 [ex_database 3 2 DefaultDatabaseName]) Map.empty)"
proof -
  have "GetTenantByName DefaultTenantName (ex_db 1 empty_tables Map.empty) = Inr None"
    by (simp add: GetTenantByName_def query_row_def empty_tables_def)
  then show ?thesis
    using ex_CreateTenant [of DefaultTenantName 0 2 Map.empty] ex_CreateDatabase [of 2 DefaultDatabaseName 3 DefaultTenantName 0 "[]" Map.empty]
    by (simp add: EnsureDefaults_def create_default_database_def numeral_2_eq_2 numeral_3_eq_3 ex_tenant_def ex_database_def)
qed

theorem tenant_tables_invariant_witness:
  "\<exists>s s'. tenant_run id UNIV (ex_db 1 empty_tables Map.empty) s \<and> tenants_ok (db s) \<and> length (t_databases (db s)) = 1 \<and>
     CreateDatabase ''uu'' ''second'' s = (Inl (OtherError ''creating database'' (Some (OtherError ''max databases limit'' None))), s')"
proof -
  have 1: "tenant_run id UNIV (ex_db 1 empty_tables Map.empty) (ex_db (Suc 1) (ex_tenant_tables 1 ''acme'' 1 []) Map.empty)"
    by (rule tenant_run.create_tenant [OF tenant_run.start ex_CreateTenant])
  note c = ex_CreateDatabase [of 1 _ _ "''acme''" 1 _ Map.empty]
  define s where "s = ex_db 3 (ex_tenant_tables 1 ''acme'' 1 [ex_database 2 1 ''first'']) Map.empty"
  have "CreateDatabase ''uu'' ''first'' (ex_db (Suc 1) (ex_tenant_tables 1 ''acme'' 1 []) Map.empty) = (Inr (ex_database 2 1 ''first''), s)"
    using c [of "''first''" 2 "[]"] by (simp add: s_def numeral_2_eq_2 numeral_3_eq_3)
  from tenant_run.create_database [OF 1 this] have run: "tenant_run id UNIV (ex_db 1 empty_tables Map.empty) s" .
  have "CreateDatabase ''uu'' ''second'' s = (Inl (OtherError ''creating database'' (Some (OtherError ''max databases limit'' None))),
      ex_db 4 (ex_tenant_tables 1 ''acme'' 1 [ex_database 2 1 ''first'']) Map.empty)"
    using c [of "''second''" 3 "[ex_database 2 1 ''first'']"] by (simp add: s_def ex_database_def)
  then show ?thesis using run tenant_tables_invariant [OF ex_open run] by (auto simp: s_def ex_tenant_tables_def)
qed

theorem tombstone_cache_exact_witness:
  "\<exists>s. tenant_run id {} (ex_db 1 empty_tables Map.empty) s \<and> IsTombstoned ''uu'' 7 s \<and> (''uu'', 7) \<in> set (t_tombstones (db s))"
proof -
  define s1 where "s1 = ex_db 2 (empty_tables\<lparr>t_collections := [ex_mt 1 '''' ''docs'']\<rparr>) Map.empty"
  have 1: "db_run id (ex_db 1 empty_tables Map.empty) s1"
    using db_run.create [OF db_run.start ex_create [of "''''" "''docs''" 1]] by (simp add: s1_def numeral_2_eq_2)
  obtain r s2 where 2: "db_AddTombstone ''uu'' 7 s1 = (r, s2)" by fastforce
  have i: "IsTombstoned ''uu'' 7 s2"
    using 2 by (auto simp: db_AddTombstone_def s1_def exec_def collection_ids_def ex_mt_def IsTombstoned_def add_tomb_def)
  have run: "tenant_run id {} (ex_db 1 empty_tables Map.empty) s2"
    by (rule tenant_run.catalogue [OF tenant_run.start db_run.add [OF 1 2]])
  show ?thesis using tombstone_cache_exact [OF ex_open run, of "''uu''" 7] i run by blast
qed

theorem DeleteTenant_forgets_tombstones_witness:
  "\<exists>s s' restarted. IsTombstoned ''uu'' 7 s \<and> DeleteTenant ''acme'' s = (None, s') \<and> ex_mt 1 ''acme'' ''docs'' \<in> set (t_collections (db s')) \<and>
     \<not> IsTombstoned ''uu'' 7 s' \<and> NewSysDB ex_worlds (db s') = Inr restarted \<and> IsTombstoned ''uu'' 7 restarted"
proof -
  define t where "t = empty_tables\<lparr>t_collections := [ex_mt 1 ''acme'' ''docs''], t_tombstones := [(''uu'', 7)],
    t_tenants := [(ex_tenant 1 ''acme'' 0)\<lparr>tn_ID := ''acme''\<rparr>]\<rparr>"
  define s where "s = ex_db 3 t [''uu'' \<mapsto> {7}]"
  obtain s' where d: "DeleteTenant ''acme'' s = (None, s')"
    by (simp add: DeleteTenant_def exec_def s_def t_def tenant_ids_def)
  obtain restarted where r: "NewSysDB ex_worlds (db s') = Inr restarted"
    by (simp add: NewSysDB_def ex_worlds_def upt_rec)
  have mt: "cm_ID (ex_mt 1 ''acme'' ''docs'') = ''uu''" "cm_TenantID (ex_mt 1 ''acme'' ''docs'') = ''acme''" by (simp_all add: ex_mt_def)
  have "ex_mt 1 ''acme'' ''docs'' \<in> set (t_collections (db s))" "(''uu'', 7) \<in> set (t_tombstones (db s))" by (simp_all add: s_def t_def)
  from DeleteTenant_forgets_tombstones [OF d this(1) mt(2), of 7, unfolded mt(1), OF this(2) r]
  have "ex_mt 1 ''acme'' ''docs'' \<in> set (t_collections (db s')) \<and> \<not> IsTombstoned ''uu'' 7 s' \<and> IsTombstoned ''uu'' 7 restarted" .
  moreover have "IsTombstoned ''uu'' 7 s" by (simp add: IsTombstoned_def s_def)
  ultimately show ?thesis using d r by blast
qed

theorem EnsureDefaults_idempotent_witness:
  "\<exists>s'. EnsureDefaults (ex_db 1 empty_tables Map.empty) = (Inr (''uuu'', ''uuuu''), s') \<and> is_default (db s') ''uuu'' ''uuuu'' \<and>
     fst (EnsureDefaults s') = Inr (''uuu'', ''uuuu'') \<and> db (snd (EnsureDefaults s')) = db s'"
proof -
  define s' where "s' = ex_db 4 (ex_tenant_tables 2 DefaultTenantName 0 [ex_database 3 2 DefaultDatabaseName]) Map.empty"
  have ok: "tenants_ok (db (ex_db 1 empty_tables Map.empty))" by (simp add: tenants_ok_def empty_tables_def tenant_ids_def)
  have "calls_succeed s'" by (simp add: calls_succeed_def s'_def)
  from EnsureDefaults_idempotent [OF ok ex_defaults [folded s'_def] this] show ?thesis using ex_defaults [folded s'_def] by blast
qed

end
