(* ===== verification/Hnsw_Graph.thy ===== *)
theory Hnsw_Graph
  imports Flat_Index Slice_Sort
begin

section \<open>The HNSW graph\<close>

text \<open>
  Models the graph part of \<open>internal/index/hnsw/hnsw.go\<close>: nodes with one list of neighbours for each
  layer, vectors in one slab addressed by offsets, greedy descent, beam search with the pooled
  \<open>visitedTracker\<close> and two heaps, neighbour selection and pruning, and \<open>insertLocked\<close>. Node indices are
  natural numbers (an \<open>entryPoint\<close> of -1 is \<open>None\<close>); every index and slice expression keeps its bounds
  check. The parameters, in the record \<open>hnsw_env\<close>, are the distance platform, \<open>math.Log\<close>, the
  conversion to \<open>int\<close>, the numbers drawn from \<open>rng\<close>, \<open>math.MaxFloat32\<close> and \<open>sort.Slice\<close>. \<open>ctx.Done()\<close>
  is a function of how often it was asked. The two variants of the code that differ only in the test a
  neighbour has to pass (a map of identifiers, a bitmap of node indices) share one definition that takes
  the test as an argument.
\<close>

record 'f candidate =
  nodeIdx :: nat
  dist :: 'f

record 'f hnsw_env =
  plat :: "'f platform"
  logf :: "'f \<Rightarrow> 'f"
  trunc :: "'f \<Rightarrow> int"
  rnd :: "nat \<Rightarrow> 'f"
  maxFloat :: 'f
  csort :: "'f candidate list \<Rightarrow> 'f candidate list"
  rsort :: "'f SearchResult list \<Rightarrow> 'f SearchResult list"

record hnode =
  nd_id :: u64
  nd_level :: int
  friends :: "nat list list"

record 'f HNSWIndex =
  hn_dim :: nat
  hn_metric :: string
  distFn :: metric_fn
  hn_m :: nat
  mMax0 :: nat
  efConstruction :: nat
  efSearch :: nat
  mL :: 'f
  maxLevel :: int
  entryPoint :: "nat option"
  nodes :: "hnode list"
  idToNode :: "u64 \<rightharpoonup> nat"
  vectorSlab :: "'f list"
  vectorOffsets :: "nat list"
  rng :: nat \<comment> \<open>how many numbers were drawn\<close>
  deleted :: "nat set"
  snapshotPath :: string
  snapshotSeqID :: u64
  dirty :: "(u64 \<times> 'f list) list"

definition NewHNSWIndex :: "'f hnsw_env \<Rightarrow> int \<Rightarrow> int \<Rightarrow> int \<Rightarrow> int \<Rightarrow> string \<Rightarrow> error + 'f::linordered_field HNSWIndex" where
  "NewHNSWIndex E d m efc efs metric =
     (if d \<le> 0 then Inl (Newf ErrDimensionMismatch)
      else case GetDistanceFunc metric of
        None \<Rightarrow> Inl (OtherError ''distance: unknown metric'' None)
      | Some fn \<Rightarrow>
          (let m = (if m \<le> 0 then 16 else m); efc = (if efc \<le> 0 then 400 else efc); efs = (if efs \<le> 0 then 128 else efs) in
           Inr \<lparr>hn_dim = nat d, hn_metric = metric, distFn = fn, hn_m = nat m, mMax0 = 2 * nat m, efConstruction = nat efc,
             efSearch = nat efs, mL = 1 / logf E (of_int m), maxLevel = - 1, entryPoint = None, nodes = [],
             idToNode = Map.empty, vectorSlab = [], vectorOffsets = [], rng = 0, deleted = {}, snapshotPath = '''',
             snapshotSeqID = 0, dirty = []\<rparr>))"

definition randomLevel :: "'f hnsw_env \<Rightarrow> 'f::linordered_field HNSWIndex \<Rightarrow> int \<times> 'f HNSWIndex" where
  "randomLevel E h =
     (let r = (if rnd E (rng h) = 0 then 1 / 10 ^ 15 else rnd E (rng h));
          level = trunc E (- logf E r * mL h);
          maxPossible = trunc E (logf E (of_nat (length (nodes h) + 1)) * mL h) + 2;
          maxPossible = (if maxPossible < 6 then 6 else maxPossible) in
      (if level > maxPossible then maxPossible else level, h\<lparr>rng := rng h + 1\<rparr>))"

definition nodeVector :: "'f HNSWIndex \<Rightarrow> nat \<Rightarrow> 'f list go" where
  "nodeVector h i = go_bind (get_at (vectorOffsets h) i) (\<lambda>offset. slice (vectorSlab h) offset (offset + hn_dim h))"

definition node_dist :: "'f hnsw_env \<Rightarrow> 'f::linordered_field HNSWIndex \<Rightarrow> 'f list \<Rightarrow> nat \<Rightarrow> 'f go" where
  \<comment> \<open>\<open>h.distFn(query, h.nodeVector(i))\<close>\<close>
  "node_dist E h q i = go_bind (nodeVector h i) (\<lambda>v. Inr (apply_metric (rt32 (plat E)) (distFn h) q v))"

definition layer_friends :: "'f HNSWIndex \<Rightarrow> nat \<Rightarrow> nat \<Rightarrow> nat list go" where
  \<comment> \<open>\<open>if layer < len(h.nodes[i].friends) { ... h.nodes[i].friends[layer] }\<close>\<close>
  "layer_friends h i layer =
     go_bind (get_at (nodes h) i) (\<lambda>n. Inr (if layer < length (friends n) then friends n ! layer else []))"

lemma go_bind_cong [fundef_cong]:
  "x = x' \<Longrightarrow> (\<And>y. x' = Inr y \<Longrightarrow> f y = g y) \<Longrightarrow> go_bind x f = go_bind x' g"
  by (cases x') auto

lemma go_bind_eq_Inr: "go_bind x f = Inr y \<longleftrightarrow> (\<exists>z. x = Inr z \<and> f z = Inr y)"
  by (cases x) auto

subsection \<open>Greedy descent\<close>

fun scan_friends ::
  "'f hnsw_env \<Rightarrow> 'f::linordered_field HNSWIndex \<Rightarrow> (nat \<Rightarrow> bool go) \<Rightarrow> 'f list \<Rightarrow> nat list \<Rightarrow> nat \<Rightarrow> 'f \<Rightarrow> bool \<Rightarrow>
    (nat \<times> 'f \<times> bool) go" where
  \<comment> \<open>one \<open>for _, friendIdx := range friends\<close>; \<open>ok\<close> is the filter\<close>
  "scan_friends E h ok q [] ep epDist changed = Inr (ep, epDist, changed)"
| "scan_friends E h ok q (f # fs) ep epDist changed =
     (if f \<in> deleted h then scan_friends E h ok q fs ep epDist changed
      else go_bind (ok f) (\<lambda>valid.
        if \<not> valid then scan_friends E h ok q fs ep epDist changed
        else go_bind (node_dist E h q f) (\<lambda>d.
          if d < epDist then scan_friends E h ok q fs f d True
          else scan_friends E h ok q fs ep epDist changed)))"

definition greedy_pass ::
  "'f hnsw_env \<Rightarrow> 'f::linordered_field HNSWIndex \<Rightarrow> (nat \<Rightarrow> bool go) \<Rightarrow> 'f list \<Rightarrow> nat \<Rightarrow> nat \<Rightarrow> 'f \<Rightarrow> (nat \<times> 'f \<times> bool) go" where
  "greedy_pass E h ok q layer ep epDist =
     go_bind (layer_friends h ep layer) (\<lambda>fs. scan_friends E h ok q fs ep epDist False)"

definition closer :: "'f hnsw_env \<Rightarrow> 'f::linordered_field HNSWIndex \<Rightarrow> 'f list \<Rightarrow> 'f \<Rightarrow> nat set" where
  "closer E h q d = {i. i < length (vectorOffsets h) \<and> (\<exists>x. node_dist E h q i = Inr x \<and> x < d)}"

lemma finite_closer [simp]: "finite (closer E h q d)"
  by (rule finite_subset [of _ "{..<length (vectorOffsets h)}"]) (auto simp: closer_def)

lemma node_dist_range: "node_dist E h q i = Inr x \<Longrightarrow> i < length (vectorOffsets h)"
  by (auto simp: node_dist_def nodeVector_def get_at_def split: if_splits)

lemma scan_friends_result:
  "scan_friends E h ok q fs ep d ch = Inr (ep', d', ch') \<Longrightarrow>
     (ep' = ep \<and> d' = d \<and> ch' = ch) \<or>
     (ch' \<and> d' < d \<and> node_dist E h q ep' = Inr d' \<and> ep' \<in> set fs \<and> ep' \<notin> deleted h \<and> ok ep' = Inr True)"
proof (induction fs arbitrary: ep d ch)
  case (Cons f fs)
  then show ?case
    by (auto simp: go_bind_eq_Inr split: if_splits; fastforce)
qed simp

lemma greedy_pass_decreases:
  assumes "greedy_pass E h ok q layer ep d = Inr (ep', d', True)"
  shows "card (closer E h q d') < card (closer E h q d)"
proof (rule psubset_card_mono)
  obtain fs where "scan_friends E h ok q fs ep d False = Inr (ep', d', True)"
    using assms by (auto simp: greedy_pass_def go_bind_eq_Inr)
  from scan_friends_result [OF this] have d: "d' < d" "node_dist E h q ep' = Inr d'" by auto
  then have "ep' \<in> closer E h q d - closer E h q d'"
    using node_dist_range [OF d(2)] by (simp add: closer_def)
  then show "closer E h q d' \<subset> closer E h q d" using d(1) by (fastforce simp: closer_def)
qed simp

function greedy_loop ::
  "'f hnsw_env \<Rightarrow> 'f::linordered_field HNSWIndex \<Rightarrow> (nat \<Rightarrow> bool go) \<Rightarrow> 'f list \<Rightarrow> nat \<Rightarrow> nat \<Rightarrow> 'f \<Rightarrow> nat go" where
  \<comment> \<open>\<open>for changed { ... }\<close>\<close>
  "greedy_loop E h ok q layer ep epDist =
     go_bind (greedy_pass E h ok q layer ep epDist) (\<lambda>r.
       case r of (ep', d', changed) \<Rightarrow> if changed then greedy_loop E h ok q layer ep' d' else Inr ep')"
  by pat_completeness auto
termination
  by (relation "measure (\<lambda>(E, h, ok, q, layer, ep, d). card (closer E h q d))") (auto dest: greedy_pass_decreases)

declare greedy_loop.simps [simp del]

definition greedyClosest :: "'f hnsw_env \<Rightarrow> 'f::linordered_field HNSWIndex \<Rightarrow> 'f list \<Rightarrow> nat \<Rightarrow> nat \<Rightarrow> nat go" where
  "greedyClosest E h q ep layer =
     go_bind (node_dist E h q ep) (\<lambda>epDist. greedy_loop E h (\<lambda>_. Inr True) q layer ep epDist)"

fun best_valid ::
  "'f hnsw_env \<Rightarrow> 'f::linordered_field HNSWIndex \<Rightarrow> (nat \<Rightarrow> bool go) \<Rightarrow> 'f list \<Rightarrow> nat list \<Rightarrow> nat \<Rightarrow> 'f \<Rightarrow> nat go" where
  \<comment> \<open>the fallback of the filtered descents: the closest valid neighbour\<close>
  "best_valid E h ok q [] bestIdx bestDist = Inr bestIdx"
| "best_valid E h ok q (f # fs) bestIdx bestDist =
     (if f \<in> deleted h then best_valid E h ok q fs bestIdx bestDist
      else go_bind (ok f) (\<lambda>valid.
        if \<not> valid then best_valid E h ok q fs bestIdx bestDist
        else go_bind (node_dist E h q f) (\<lambda>d.
          if d < bestDist then best_valid E h ok q fs f d else best_valid E h ok q fs bestIdx bestDist)))"

definition valid_id :: "'f HNSWIndex \<Rightarrow> u64 set \<Rightarrow> nat \<Rightarrow> bool go" where
  \<comment> \<open>\<open>validIDs[h.nodes[i].id]\<close>\<close>
  "valid_id h S i = go_bind (get_at (nodes h) i) (\<lambda>n. Inr (nd_id n \<in> S))"

definition greedyClosestFiltered ::
  "'f hnsw_env \<Rightarrow> 'f::linordered_field HNSWIndex \<Rightarrow> u64 set \<Rightarrow> 'f list \<Rightarrow> nat \<Rightarrow> nat \<Rightarrow> nat go" where
  "greedyClosestFiltered E h validIDs q ep layer =
     go_bind (node_dist E h q ep) (\<lambda>epDist.
     go_bind (greedy_loop E h (valid_id h validIDs) q layer ep epDist) (\<lambda>ep.
       if layer = 0 then
         go_bind (valid_id h validIDs ep) (\<lambda>valid.
           if valid then Inr ep
           else go_bind (layer_friends h ep layer) (\<lambda>fs. best_valid E h (valid_id h validIDs) q fs ep (maxFloat E)))
       else Inr ep))"

definition greedyClosestBitmap ::
  "'f hnsw_env \<Rightarrow> 'f::linordered_field HNSWIndex \<Rightarrow> nat set \<Rightarrow> 'f list \<Rightarrow> nat \<Rightarrow> nat \<Rightarrow> nat go" where
  "greedyClosestBitmap E h bits q ep layer =
     go_bind (node_dist E h q ep) (\<lambda>epDist.
     go_bind (greedy_loop E h (\<lambda>i. Inr (i \<in> bits)) q layer ep epDist) (\<lambda>ep.
       if ep \<in> bits then Inr ep
       else go_bind (layer_friends h ep layer) (\<lambda>fs. best_valid E h (\<lambda>i. Inr (i \<in> bits)) q fs ep (maxFloat E))))"

function descend :: "(nat \<Rightarrow> nat \<Rightarrow> nat go) \<Rightarrow> int \<Rightarrow> int \<Rightarrow> nat \<Rightarrow> nat go" where
  \<comment> \<open>\<open>for lc := top; lc > low; lc--\<close>\<close>
  "descend step lc low ep = (if lc > low then go_bind (step ep (nat lc)) (descend step (lc - 1) low) else Inr ep)"
  by pat_completeness auto
termination
  by (relation "measure (\<lambda>(step, lc, low, ep). nat (lc - low))") auto

declare descend.simps [simp del]

subsection \<open>The visited tracker\<close>

record visitedTracker =
  generations :: "u32 list"
  currentGen :: u32

definition fresh_tracker :: visitedTracker where
  \<comment> \<open>what \<open>visitedPool.New\<close> makes\<close>
  "fresh_tracker = \<lparr>generations = replicate 1024 0, currentGen = 0\<rparr>"

definition nextGen :: "visitedTracker \<Rightarrow> visitedTracker" where
  "nextGen vt =
     (let vt = vt\<lparr>currentGen := currentGen vt + 1\<rparr> in
      if currentGen vt = 0 then vt\<lparr>generations := map (\<lambda>_. 0) (generations vt), currentGen := 1\<rparr> else vt)"

definition grow_to :: "nat \<Rightarrow> visitedTracker \<Rightarrow> visitedTracker" where
  "grow_to i vt =
     (if i \<ge> length (generations vt)
      then vt\<lparr>generations := generations vt @ replicate (i + 1024 - length (generations vt)) 0\<rparr> else vt)"

definition mark :: "nat \<Rightarrow> visitedTracker \<Rightarrow> visitedTracker" where
  "mark i vt = vt\<lparr>generations := (generations vt)[i := currentGen vt]\<rparr>"

definition visited :: "visitedTracker \<Rightarrow> nat set" where
  \<comment> \<open>the nodes that count as visited, those beyond the slice as they would after growing it\<close>
  "visited vt = {i. (if i < length (generations vt) then generations vt ! i else 0) = currentGen vt}"

definition clean :: "visitedTracker \<Rightarrow> bool" where
  "clean vt \<longleftrightarrow> 0 < currentGen vt \<and> (\<forall>g \<in> set (generations vt). g < currentGen vt)"

definition tracker_ok :: "visitedTracker \<Rightarrow> bool" where
  "tracker_ok vt \<longleftrightarrow> (\<forall>g \<in> set (generations vt). g \<le> currentGen vt)"

lemma visited_grow_to [simp]: "visited (grow_to i vt) = visited vt"
  by (auto simp: visited_def grow_to_def nth_append)

lemma currentGen_simps [simp]: "currentGen (grow_to i vt) = currentGen vt" "currentGen (mark i vt) = currentGen vt"
  by (simp_all add: grow_to_def mark_def)

lemma grow_to_length [simp]: "i < length (generations (grow_to i vt))"
  by (simp add: grow_to_def)

lemma visited_mark [simp]: "i < length (generations vt) \<Longrightarrow> visited (mark i vt) = insert i (visited vt)"
  by (auto simp: visited_def mark_def nth_list_update)

lemma in_visited_grown: "generations (grow_to i vt) ! i = currentGen vt \<longleftrightarrow> i \<in> visited vt"
  by (auto simp: visited_def grow_to_def nth_append)

lemma tracker_ok_mark [simp]: "tracker_ok vt \<Longrightarrow> tracker_ok (mark i vt)"
  by (auto simp: tracker_ok_def mark_def dest!: set_update_subset_insert [THEN subsetD])

lemma tracker_ok_grow_to [simp]: "tracker_ok (grow_to i vt) \<longleftrightarrow> tracker_ok vt"
  by (auto simp: tracker_ok_def grow_to_def)

lemma tracker_ok_fresh [simp]: "tracker_ok fresh_tracker"
  by (auto simp: tracker_ok_def fresh_tracker_def)

lemma clean_visited: "clean vt \<Longrightarrow> visited vt = {}"
  by (force simp: clean_def visited_def split: if_splits dest: nth_mem)

lemma clean_ok: "clean vt \<Longrightarrow> tracker_ok vt"
  by (auto simp: clean_def tracker_ok_def)

lemma nextGen_clean:
  assumes "tracker_ok vt"
  shows "clean (nextGen vt)"
proof (cases "currentGen vt + 1 = 0")
  case True
  then show ?thesis by (auto simp: clean_def nextGen_def Let_def)
next
  case False
  define c where "c = currentGen vt + 1"
  have lt: "currentGen vt < c"
    using unatSuc [of "currentGen vt"] False by (simp add: c_def word_less_nat_alt add.commute)
  have "nextGen vt = vt\<lparr>currentGen := c\<rparr>" using False by (simp add: nextGen_def Let_def c_def)
  moreover have "\<forall>g \<in> set (generations vt). g < c" using assms lt unfolding tracker_ok_def by (meson le_less_trans)
  moreover have "0 < c" using False by (simp only: c_def word_gt_0 not_False_eq_True)
  ultimately show ?thesis by (simp add: clean_def)
qed

subsection \<open>Beam search\<close>

fun collect :: "(nat \<Rightarrow> bool go) \<Rightarrow> nat list \<Rightarrow> visitedTracker \<Rightarrow> nat list \<Rightarrow> (visitedTracker \<times> nat list) go" where
  \<comment> \<open>the unvisited neighbours that pass the filter; all of them are marked\<close>
  "collect ok [] vt unvisited = Inr (vt, unvisited)"
| "collect ok (f # fs) vt unvisited =
     (let vt = grow_to f vt in
      if generations vt ! f \<noteq> currentGen vt then
        go_bind (ok f) (\<lambda>valid. collect ok fs (mark f vt) (if valid then unvisited @ [f] else unvisited))
      else collect ok fs vt unvisited)"

fun gather :: "'f HNSWIndex \<Rightarrow> nat list \<Rightarrow> 'f list list go" where
  "gather h [] = Inr []"
| "gather h (i # is) = go_bind (nodeVector h i) (\<lambda>v. go_bind (gather h is) (\<lambda>vs. Inr (v # vs)))"

definition batch_dists :: "'f hnsw_env \<Rightarrow> 'f::linordered_field HNSWIndex \<Rightarrow> 'f list \<Rightarrow> nat list \<Rightarrow> 'f list go" where
  \<comment> \<open>the buffers hold \<open>mMax0\<close> vectors: reslicing them further panics\<close>
  "batch_dists E h q us =
     (if length us > mMax0 h then Inl IndexOutOfRange
      else go_bind (gather h us) (\<lambda>vs.
        BatchDistance (plat E) q (concat vs) (length us) (hn_dim h) (hn_metric h) (replicate (length us) 0)))"

definition near :: "'f::ord candidate \<Rightarrow> 'f candidate \<Rightarrow> bool" where
  \<comment> \<open>\<open>minCandHeap.Less\<close>\<close>
  "near a b \<longleftrightarrow> dist a < dist b"

definition farther :: "'f::ord candidate \<Rightarrow> 'f candidate \<Rightarrow> bool" where
  \<comment> \<open>\<open>maxCandHeap.Less\<close>\<close>
  "farther a b \<longleftrightarrow> dist a > dist b"

fun offer ::
  "(nat \<Rightarrow> error option) \<Rightarrow> nat \<Rightarrow> nat \<Rightarrow> nat \<Rightarrow> (nat \<times> 'f::linordered_field) list \<Rightarrow> 'f candidate list \<Rightarrow> 'f candidate list \<Rightarrow>
    (bool \<times> nat \<times> 'f candidate list \<times> 'f candidate list) go" where
  \<comment> \<open>\<open>for i, fi := range unvisited\<close>: whether the context was done, how often it was asked, the two heaps\<close>
  "offer ctx c ef i [] cands results = Inr (False, c, cands, results)"
| "offer ctx c ef i ((fi, d) # xs) cands results =
     (if i mod 100 = 0 \<and> ctx c \<noteq> None then Inr (True, c + 1, cands, results)
      else
        let c = (if i mod 100 = 0 then c + 1 else c); friend = \<lparr>nodeIdx = fi, dist = d\<rparr> in
        go_bind (if length results < ef then Inr True else go_bind (get_at results 0) (\<lambda>root. Inr (d < dist root))) (\<lambda>take.
          if take then
            let cands = heap_Push near friend cands; results = heap_Push farther friend results in
            offer ctx c ef (i + 1) xs cands (if length results > ef then snd (heap_Pop farther results) else results)
          else offer ctx c ef (i + 1) xs cands results))"

lemma length_heap_Push [simp]: "length (heap_Push lt x xs) = Suc (length xs)"
  using heap_up_mset [of "length xs" "xs @ [x]" lt] unfolding heap_Push_def
  by (metis length_append_singleton lessI mset_eq_length)

lemma length_heap_Pop: "xs \<noteq> [] \<Longrightarrow> length (snd (heap_Pop lt xs)) = length xs - 1"
proof -
  assume ne: "xs \<noteq> []"
  define n where "n = length xs - 1"
  have "length (fst (heap_down lt 0 n (swap 0 n xs))) = length xs"
  proof (cases "n = 0")
    case True
    then show ?thesis by (subst heap_down.simps) simp
  next
    case False
    then show ?thesis
      using heap_down_mset [of 0 n "swap 0 n xs" lt] ne by (metis diff_le_self length_swap mset_eq_length n_def not_gr_zero)
  qed
  then show ?thesis by (simp add: heap_Pop_def Let_def n_def)
qed

lemma collect_result:
  "collect ok fs vt acc = Inr (vt', us) \<Longrightarrow>
     \<exists>new. us = acc @ new \<and> distinct new \<and> set new = {f \<in> set fs. f \<notin> visited vt \<and> ok f = Inr True} \<and>
       visited vt' = visited vt \<union> set fs \<and> currentGen vt' = currentGen vt \<and> (tracker_ok vt \<longrightarrow> tracker_ok vt') \<and>
       length new \<le> length fs"
proof (induction fs arbitrary: vt acc)
  case (Cons f fs)
  show ?case
  proof (cases "f \<in> visited vt")
    case True
    then have "collect ok fs (grow_to f vt) acc = Inr (vt', us)"
      using Cons.prems by (simp add: in_visited_grown Let_def)
    from Cons.IH [OF this] obtain new where new: "us = acc @ new" "distinct new"
      "set new = {g \<in> set fs. g \<notin> visited vt \<and> ok g = Inr True}" "visited vt' = visited vt \<union> set fs"
      "currentGen vt' = currentGen vt" "tracker_ok vt \<longrightarrow> tracker_ok vt'" "length new \<le> length fs" by auto
    show ?thesis using new True by (intro exI [of _ new]) auto
  next
    case False
    then obtain b where b: "ok f = Inr b" "collect ok fs (mark f (grow_to f vt)) (if b then acc @ [f] else acc) = Inr (vt', us)"
      using Cons.prems by (auto simp: in_visited_grown Let_def go_bind_eq_Inr)
    from Cons.IH [OF b(2)] obtain new where new: "us = (if b then acc @ [f] else acc) @ new" "distinct new"
      "set new = {g \<in> set fs. g \<notin> insert f (visited vt) \<and> ok g = Inr True}" "visited vt' = insert f (visited vt) \<union> set fs"
      "currentGen vt' = currentGen vt" "tracker_ok (mark f (grow_to f vt)) \<longrightarrow> tracker_ok vt'" "length new \<le> length fs" by auto
    show ?thesis
      using new False b(1) by (intro exI [of _ "(if b then [f] else []) @ new"]) auto
  qed
qed simp

lemma gather_result:
  "gather h is = Inr vs \<Longrightarrow> length vs = length is \<and> (\<forall>j < length is. nodeVector h (is ! j) = Inr (vs ! j))"
  by (induction "is" arbitrary: vs) (auto simp: go_bind_eq_Inr nth_Cons split: nat.splits)

lemma nodeVector_range: "nodeVector h i = Inr v \<Longrightarrow> i < length (vectorOffsets h)"
  by (auto simp: nodeVector_def get_at_def split: if_splits)

lemma batch_dists_range: "batch_dists E h q us = Inr ds \<Longrightarrow> set us \<subseteq> {..<length (vectorOffsets h)}"
  by (force simp: batch_dists_def go_bind_eq_Inr in_set_conv_nth split: if_splits dest!: gather_result dest: nodeVector_range)

lemma offer_length: "offer ctx c ef i xs cs rs = Inr (stop, c', cs', rs') \<Longrightarrow> length cs' \<le> length cs + length xs"
proof (induction xs arbitrary: c i cs rs)
  case (Cons x xs)
  then show ?case
    by (cases x) (fastforce simp: Let_def go_bind_eq_Inr simp del: go_bind.simps split: if_splits)
qed simp

definition unseen :: "'f HNSWIndex \<Rightarrow> visitedTracker \<Rightarrow> nat" where
  "unseen h vt = card ({..<length (vectorOffsets h)} - visited vt)"

lemma unseen_collect:
  assumes "collect ok fs vt [] = Inr (vt', us)" "set us \<subseteq> {..<length (vectorOffsets h)}"
  shows "unseen h vt' + length us \<le> unseen h vt"
proof -
  obtain us: "distinct us" "set us = {f \<in> set fs. f \<notin> visited vt \<and> ok f = Inr True}" "visited vt' = visited vt \<union> set fs"
    using collect_result [OF assms(1)] by auto
  let ?V = "{..<length (vectorOffsets h)}"
  have "card (?V - visited vt') + card (set us) = card ((?V - visited vt') \<union> set us)"
    using us by (intro card_Un_disjoint [symmetric]) auto
  also have "\<dots> \<le> card (?V - visited vt)" using us assms(2) by (intro card_mono) auto
  finally show ?thesis using us(1) by (simp add: unseen_def distinct_card)
qed

lemma beam_decreases:
  assumes "cands \<noteq> []" "(x, cands') = heap_Pop near cands" "collect ok fs vt [] = Inr (vt', us)"
  shows "us = [] \<Longrightarrow> unseen h vt' + length cands' < unseen h vt + length cands"
    and "batch_dists E h q us = Inr ds \<Longrightarrow> offer ctx c ef 0 (zip us ds) cands' results = Inr (stop, c', cs', rs') \<Longrightarrow>
      unseen h vt' + length cs' < unseen h vt + length cands"
proof -
  have "snd (heap_Pop near cands) = cands'" using assms(2) by (metis snd_conv)
  then have l: "length cands' < length cands" using length_heap_Pop [OF assms(1), of near] assms(1) by (cases cands) auto
  show "us = [] \<Longrightarrow> unseen h vt' + length cands' < unseen h vt + length cands"
    using l unseen_collect [OF assms(3), of h] by simp
  assume "batch_dists E h q us = Inr ds" "offer ctx c ef 0 (zip us ds) cands' results = Inr (stop, c', cs', rs')"
  from offer_length [OF this(2)] l unseen_collect [OF assms(3) batch_dists_range [OF this(1)]]
  show "unseen h vt' + length cs' < unseen h vt + length cands" by simp
qed

function beam ::
  "'f hnsw_env \<Rightarrow> (nat \<Rightarrow> error option) \<Rightarrow> nat \<Rightarrow> 'f::linordered_field HNSWIndex \<Rightarrow> 'f list \<Rightarrow> nat \<Rightarrow> nat \<Rightarrow> (nat \<Rightarrow> bool go) \<Rightarrow>
    visitedTracker \<Rightarrow> 'f candidate list \<Rightarrow> 'f candidate list \<Rightarrow> ('f candidate list \<times> visitedTracker) go" where
  \<comment> \<open>\<open>for cands.Len() > 0 { ... }\<close>: the results and the tracker\<close>
  "beam E ctx c h q ef layer ok vt cands results =
     (if cands = [] then Inr (results, vt)
      else case heap_Pop near cands of (x, cands') \<Rightarrow>
        go_bind (if length results \<ge> ef then go_bind (get_at results 0) (\<lambda>root. Inr (dist x > dist root)) else Inr False) (\<lambda>stop.
        if stop then Inr (results, vt)
        else go_bind (layer_friends h (nodeIdx x) layer) (\<lambda>fs.
          go_bind (collect ok fs vt []) (\<lambda>(vt', unvisited).
            if unvisited = [] then beam E ctx c h q ef layer ok vt' cands' results
            else go_bind (batch_dists E h q unvisited) (\<lambda>dists.
              go_bind (offer ctx c ef 0 (zip unvisited dists) cands' results) (\<lambda>(stop, c', cands'', results').
                if stop then Inr (results', vt') else beam E ctx c' h q ef layer ok vt' cands'' results'))))))"
  by pat_completeness auto
termination
proof (relation "measure (\<lambda>(E, ctx, c, h, q, ef, layer, ok, vt, cands, results). unseen h vt + length cands)", goal_cases)
  case (2 E ctx c h q ef layer ok vt cands results x cands' stop fs r vt' us)
  then have "collect ok fs vt [] = Inr (vt', us)" "us = []" by simp_all
  from beam_decreases(1) [OF 2(1,2) this] show ?case by (simp only: in_measure split_conv)
next
  case (3 E ctx c h q ef layer ok vt cands results x cands' stop fs r vt' us ds r' stop' yb c' yc cs' rs')
  then have "collect ok fs vt [] = Inr (vt', us)" "batch_dists E h q us = Inr ds"
    "offer ctx c ef 0 (zip us ds) cands' results = Inr (stop', c', cs', rs')" by simp_all
  from beam_decreases(2) [OF 3(1,2) this] show ?case by (simp only: in_measure split_conv)
qed simp

declare beam.simps [simp del]

fun drain_heap :: "('a \<Rightarrow> 'a \<Rightarrow> bool) \<Rightarrow> nat \<Rightarrow> 'a list \<Rightarrow> 'a list \<Rightarrow> 'a list" where
  \<comment> \<open>\<open>sorted[i] = heap.Pop(results)\<close> for \<open>i\<close> from the last index down\<close>
  "drain_heap lt 0 h acc = acc"
| "drain_heap lt (Suc n) h acc = (case heap_Pop lt h of (x, h') \<Rightarrow> drain_heap lt n h' (x # acc))"

definition searchLayer ::
  "'f hnsw_env \<Rightarrow> (nat \<Rightarrow> error option) \<Rightarrow> nat \<Rightarrow> 'f::linordered_field HNSWIndex \<Rightarrow> 'f list \<Rightarrow> nat \<Rightarrow> nat \<Rightarrow> nat \<Rightarrow> visitedTracker \<Rightarrow>
    (nat \<Rightarrow> bool go) \<Rightarrow> ('f candidate list \<times> visitedTracker) go" where
  \<comment> \<open>\<open>ok\<close> is the test of \<open>validIDs\<close>\<close>
  "searchLayer E ctx c h q ep ef layer vt ok =
     go_bind (node_dist E h q ep) (\<lambda>epDist.
     go_bind (beam E ctx c h q ef layer ok (mark ep (grow_to ep vt)) [\<lparr>nodeIdx = ep, dist = epDist\<rparr>] [\<lparr>nodeIdx = ep, dist = epDist\<rparr>])
       (\<lambda>(results, vt). Inr (drain_heap farther (length results) results [], vt)))"

definition pass_all :: "nat \<Rightarrow> bool go" where
  "pass_all = (\<lambda>_. Inr True)"

definition searchLayerBitmap ::
  "'f hnsw_env \<Rightarrow> (nat \<Rightarrow> error option) \<Rightarrow> nat \<Rightarrow> 'f::linordered_field HNSWIndex \<Rightarrow> 'f list \<Rightarrow> nat \<Rightarrow> nat \<Rightarrow> nat \<Rightarrow> visitedTracker \<Rightarrow>
    nat set \<Rightarrow> ('f candidate list \<times> visitedTracker) go" where
  \<comment> \<open>the same loop with the test \<open>filter.Test(friendIdx)\<close>\<close>
  "searchLayerBitmap E ctx c h q ep ef layer vt bits = searchLayer E ctx c h q ep ef layer vt (\<lambda>i. Inr (i \<in> bits))"

subsection \<open>Selecting and pruning neighbours\<close>

fun closer_than ::
  "'f hnsw_env \<Rightarrow> 'f::linordered_field HNSWIndex \<Rightarrow> 'f list \<Rightarrow> 'f \<Rightarrow> nat list \<Rightarrow> bool go" where
  \<comment> \<open>whether the candidate is closer to a selected neighbour than \<open>d\<close>\<close>
  "closer_than E h cv d [] = Inr False"
| "closer_than E h cv d (r # rs) =
     go_bind (node_dist E h cv r) (\<lambda>x. if x < d then Inr True else closer_than E h cv d rs)"

fun select_loop ::
  "'f hnsw_env \<Rightarrow> 'f::linordered_field HNSWIndex \<Rightarrow> nat \<Rightarrow> 'f candidate list \<Rightarrow> nat list \<Rightarrow> nat list go" where
  "select_loop E h m [] result = Inr result"
| "select_loop E h m (c # cs) result =
     (if length result \<ge> m then Inr result
      else go_bind (nodeVector h (nodeIdx c)) (\<lambda>cv.
        go_bind (closer_than E h cv (dist c) result) (\<lambda>closer.
          select_loop E h m cs (if closer then result else result @ [nodeIdx c]))))"

definition selectNeighborsHeuristic ::
  "'f hnsw_env \<Rightarrow> 'f::linordered_field HNSWIndex \<Rightarrow> 'f candidate list \<Rightarrow> nat \<Rightarrow> nat list go" where
  "selectNeighborsHeuristic E h candidates m =
     (if length candidates \<le> m then Inr (map nodeIdx candidates) else select_loop E h m candidates [])"

fun prune_candidates ::
  "'f hnsw_env \<Rightarrow> 'f::linordered_field HNSWIndex \<Rightarrow> 'f list \<Rightarrow> nat list \<Rightarrow> 'f candidate list go" where
  "prune_candidates E h v [] = Inr []"
| "prune_candidates E h v (f # fs) =
     go_bind (node_dist E h v f) (\<lambda>d. go_bind (prune_candidates E h v fs) (\<lambda>cs. Inr (\<lparr>nodeIdx = f, dist = d\<rparr> # cs)))"

definition pruneConnections ::
  "'f hnsw_env \<Rightarrow> 'f::linordered_field HNSWIndex \<Rightarrow> 'f list \<Rightarrow> nat list \<Rightarrow> nat \<Rightarrow> nat list go" where
  "pruneConnections E h nodeVec fs maxConn =
     (if length fs \<le> maxConn then Inr fs
      else go_bind (prune_candidates E h nodeVec fs) (\<lambda>candidates. selectNeighborsHeuristic E h (csort E candidates) maxConn))"

subsection \<open>Insertion\<close>

definition get_friends :: "'f HNSWIndex \<Rightarrow> nat \<Rightarrow> nat \<Rightarrow> nat list go" where
  \<comment> \<open>\<open>h.nodes[i].friends[lc]\<close>\<close>
  "get_friends h i lc = go_bind (get_at (nodes h) i) (\<lambda>n. get_at (friends n) lc)"

definition set_friends :: "nat \<Rightarrow> nat \<Rightarrow> nat list \<Rightarrow> 'f HNSWIndex \<Rightarrow> 'f HNSWIndex go" where
  \<comment> \<open>\<open>h.nodes[i].friends[lc] = fs\<close>\<close>
  "set_friends i lc fs h =
     go_bind (get_at (nodes h) i) (\<lambda>n. go_bind (put_at (friends n) lc fs) (\<lambda>ls.
       Inr (h\<lparr>nodes := (nodes h)[i := n\<lparr>friends := ls\<rparr>]\<rparr>)))"

fun link_back ::
  "'f hnsw_env \<Rightarrow> nat \<Rightarrow> nat \<Rightarrow> nat \<Rightarrow> nat list \<Rightarrow> 'f::linordered_field HNSWIndex \<Rightarrow> 'f HNSWIndex go" where
  \<comment> \<open>\<open>for _, neighborIdx := range neighbors\<close>\<close>
  "link_back E newIdx lc maxConn [] h = Inr h"
| "link_back E newIdx lc maxConn (nb # nbs) h =
     go_bind (get_friends h nb lc) (\<lambda>fs.
     go_bind (set_friends nb lc (fs @ [newIdx]) h) (\<lambda>h.
     go_bind (if length (fs @ [newIdx]) > maxConn then
         go_bind (nodeVector h nb) (\<lambda>v.
         go_bind (pruneConnections E h v (fs @ [newIdx]) maxConn) (\<lambda>fs'. set_friends nb lc fs' h))
       else Inr h) (\<lambda>h. link_back E newIdx lc maxConn nbs h)))"

fun insert_layers ::
  "'f hnsw_env \<Rightarrow> 'f list \<Rightarrow> nat \<Rightarrow> nat \<Rightarrow> nat \<Rightarrow> visitedTracker \<Rightarrow> 'f::linordered_field HNSWIndex \<Rightarrow>
    ('f HNSWIndex \<times> visitedTracker) go" where
  \<comment> \<open>\<open>for lc := topLayer; lc >= 0; lc--\<close>, the third argument being the number of layers left\<close>
  "insert_layers E v newIdx 0 ep vt h = Inr (h, vt)"
| "insert_layers E v newIdx (Suc lc) ep vt h =
     go_bind (searchLayer E (\<lambda>_. None) 0 h v ep (efConstruction h) lc (nextGen vt) pass_all) (\<lambda>(candidates, vt).
       let maxConn = (if lc = 0 then mMax0 h else hn_m h) in
       go_bind (selectNeighborsHeuristic E h candidates maxConn) (\<lambda>neighbors.
       go_bind (set_friends newIdx lc neighbors h) (\<lambda>h.
       go_bind (link_back E newIdx lc maxConn neighbors h) (\<lambda>h.
         insert_layers E v newIdx lc (case candidates of [] \<Rightarrow> ep | c # _ \<Rightarrow> nodeIdx c) vt h))))"

definition append_node :: "u64 \<Rightarrow> 'f list \<Rightarrow> int \<Rightarrow> 'f HNSWIndex \<Rightarrow> 'f HNSWIndex" where
  "append_node vid v level h =
     h\<lparr>vectorSlab := vectorSlab h @ v, vectorOffsets := vectorOffsets h @ [length (vectorSlab h)],
       nodes := nodes h @ [\<lparr>nd_id = vid, nd_level = level, friends = replicate (nat (level + 1)) []\<rparr>],
       idToNode := (idToNode h)(vid \<mapsto> length (nodes h))\<rparr>"

definition insertLocked ::
  "'f hnsw_env \<Rightarrow> u64 \<Rightarrow> 'f list \<Rightarrow> visitedTracker \<Rightarrow> 'f::linordered_field HNSWIndex \<Rightarrow>
    (error option \<times> 'f HNSWIndex \<times> visitedTracker) go" where
  \<comment> \<open>the tracker is the one the pool hands out; the result has the one that is put back\<close>
  "insertLocked E vid v vt h =
     (if (case idToNode h vid of None \<Rightarrow> False | Some i \<Rightarrow> i \<notin> deleted h) then Inr (Some (Newf ErrDuplicateID), h, vt)
      else
        let h = (if vid \<in> dom (idToNode h) then h\<lparr>idToNode := (idToNode h)(vid := None)\<rparr> else h);
            (level, h) = randomLevel E h; newIdx = length (nodes h) in
        if level + 1 < 0 then Inl MakesliceLenOutOfRange
        else let h = append_node vid v level h in
          (case entryPoint h of
             None \<Rightarrow> Inr (None, h\<lparr>entryPoint := Some newIdx, maxLevel := level\<rparr>, vt)
           | Some ep \<Rightarrow>
               go_bind (descend (greedyClosest E h v) (maxLevel h) level ep) (\<lambda>ep.
               go_bind (insert_layers E v newIdx (nat (min level (maxLevel h) + 1)) ep vt h) (\<lambda>(h, vt).
                 Inr (None, if level > maxLevel h then h\<lparr>maxLevel := level, entryPoint := Some newIdx\<rparr> else h, nextGen vt)))))"

end
