(* ===== verification/Hnsw_Invariant.thy ===== *)
theory Hnsw_Invariant
  imports Hnsw_Graph
begin

section \<open>Invariant of the HNSW graph\<close>

text \<open>
  The well-formedness invariant of the graph (every link of a layer leads to a node that has the layer,
  degrees are bounded, every node has its vector in the slab), total correctness of greedy descent and
  beam search under it, and its preservation by \<open>insertLocked\<close>: no index, slice or buffer is overrun.
\<close>

interpretation nearest: heap_order "near :: 'f::linorder candidate \<Rightarrow> _"
  by unfold_locales (auto simp: near_def)

interpretation farthest: heap_order "farther :: 'f::linorder candidate \<Rightarrow> _"
  by unfold_locales (auto simp: farther_def)

subsection \<open>The environment and the invariant\<close>

text \<open>What the code relies on: kernels that agree with the Go code, \<open>Float64\<close> in [0,1), the sign of the
  logarithm, and the contract of \<open>sort.Slice\<close>.\<close>

definition env_ok :: "'f::linordered_field hnsw_env \<Rightarrow> bool" where
  "env_ok E \<longleftrightarrow> kernels_agree (plat E) \<and> (\<forall>n. 0 \<le> rnd E n \<and> rnd E n < 1) \<and>
     (\<forall>x. 0 < x \<longrightarrow> x < 1 \<longrightarrow> logf E x \<le> 0) \<and> (\<forall>x. 1 \<le> x \<longrightarrow> 0 \<le> logf E x) \<and> (\<forall>x. 0 \<le> x \<longrightarrow> 0 \<le> trunc E x) \<and>
     slice_sorter near (csort E) \<and> slice_sorter (\<lambda>a b. Distance a < Distance b) (rsort E)"

lemma env_okD:
  assumes "env_ok E"
  shows "kernels_agree (plat E)" "0 \<le> rnd E n" "rnd E n < 1" "0 < x \<Longrightarrow> x < 1 \<Longrightarrow> logf E x \<le> 0"
    "1 \<le> x \<Longrightarrow> 0 \<le> logf E x" "0 \<le> x \<Longrightarrow> 0 \<le> trunc E x" "slice_sorter near (csort E)"
    "slice_sorter (\<lambda>a b. Distance a < Distance b) (rsort E)"
  using assms unfolding env_ok_def by blast+

definition on_layer :: "'f HNSWIndex \<Rightarrow> nat \<Rightarrow> nat \<Rightarrow> bool" where
  "on_layer h l i \<longleftrightarrow> i < length (nodes h) \<and> l < length (friends (nodes h ! i))"

definition layer_cap :: "'f HNSWIndex \<Rightarrow> nat \<Rightarrow> nat" where
  "layer_cap h l = (if l = 0 then mMax0 h else hn_m h)"

definition links_ok :: "'f HNSWIndex \<Rightarrow> nat \<Rightarrow> bool" where
  "links_ok h i \<longleftrightarrow> 0 \<le> nd_level (nodes h ! i) \<and> length (friends (nodes h ! i)) = nat (nd_level (nodes h ! i) + 1) \<and>
     (\<forall>l < length (friends (nodes h ! i)). length (friends (nodes h ! i) ! l) \<le> layer_cap h l \<and>
        (\<forall>f \<in> set (friends (nodes h ! i) ! l). on_layer h l f))"

definition params_ok :: "'f::linordered_field HNSWIndex \<Rightarrow> bool" where
  "params_ok h \<longleftrightarrow> 0 < hn_dim h \<and> 0 < hn_m h \<and> hn_m h \<le> mMax0 h \<and> 0 < efConstruction h \<and> 0 < efSearch h \<and> 0 \<le> mL h \<and>
     GetDistanceFunc (hn_metric h) = Some (distFn h)"

definition store_ok :: "'f HNSWIndex \<Rightarrow> bool" where
  "store_ok h \<longleftrightarrow> length (nodes h) \<le> length (vectorOffsets h) \<and>
     (\<forall>x \<in> set (vectorOffsets h). x + hn_dim h \<le> length (vectorSlab h))"

definition graph_inv :: "'f::linordered_field HNSWIndex \<Rightarrow> bool" where
  "graph_inv h \<longleftrightarrow> params_ok h \<and> store_ok h \<and> (\<forall>i < length (nodes h). links_ok h i) \<and>
     (case entryPoint h of None \<Rightarrow> nodes h = []
      | Some e \<Rightarrow> e < length (nodes h) \<and> maxLevel h = nd_level (nodes h ! e))"

lemma graph_invD:
  assumes "graph_inv h"
  shows "params_ok h" "store_ok h" "i < length (nodes h) \<Longrightarrow> links_ok h i"
    "entryPoint h = None \<Longrightarrow> nodes h = []"
    "entryPoint h = Some e \<Longrightarrow> e < length (nodes h)" "entryPoint h = Some e \<Longrightarrow> maxLevel h = nd_level (nodes h ! e)"
  using assms unfolding graph_inv_def by (auto split: option.splits)

lemma paramsD:
  assumes "params_ok h"
  shows "0 < hn_dim h" "0 < hn_m h" "hn_m h \<le> mMax0 h" "0 < efConstruction h" "0 < efSearch h" "0 \<le> mL h"
    "GetDistanceFunc (hn_metric h) = Some (distFn h)"
  using assms unfolding params_ok_def by blast+

lemma layer_cap_le: "params_ok h \<Longrightarrow> layer_cap h l \<le> mMax0 h"
  by (simp add: layer_cap_def paramsD)

lemma on_layer_lower: "on_layer h l i \<Longrightarrow> l' \<le> l \<Longrightarrow> on_layer h l' i"
  by (simp add: on_layer_def)

subsection \<open>Vectors and distances\<close>

definition vec :: "'f HNSWIndex \<Rightarrow> nat \<Rightarrow> 'f list" where
  "vec h i = take (hn_dim h) (drop (vectorOffsets h ! i) (vectorSlab h))"

definition ndist :: "'f hnsw_env \<Rightarrow> 'f::linordered_field HNSWIndex \<Rightarrow> 'f list \<Rightarrow> nat \<Rightarrow> 'f" where
  "ndist E h q i = apply_metric (rt32 (plat E)) (distFn h) q (vec h i)"

lemma store_okD:
  assumes "store_ok h"
  shows "i < length (vectorOffsets h) \<Longrightarrow> vectorOffsets h ! i + hn_dim h \<le> length (vectorSlab h)"
    "i < length (nodes h) \<Longrightarrow> i < length (vectorOffsets h)"
  using assms unfolding store_ok_def by auto

lemma nodeVector_ok:
  assumes "store_ok h" "i < length (vectorOffsets h)"
  shows "nodeVector h i = Inr (vec h i)" "length (vec h i) = hn_dim h"
  using store_okD(1) [OF assms] assms(2) by (auto simp: nodeVector_def get_at_def slice_def vec_def)

lemma node_dist_ok: "store_ok h \<Longrightarrow> i < length (vectorOffsets h) \<Longrightarrow> node_dist E h q i = Inr (ndist E h q i)"
  by (simp add: node_dist_def nodeVector_ok ndist_def)

lemma node_dist_node: "store_ok h \<Longrightarrow> i < length (nodes h) \<Longrightarrow> node_dist E h q i = Inr (ndist E h q i)"
  by (simp add: node_dist_ok store_okD)

lemma gather_ok:
  "store_ok h \<Longrightarrow> set us \<subseteq> {..<length (vectorOffsets h)} \<Longrightarrow> gather h us = Inr (map (vec h) us)"
  by (induction us) (auto simp: nodeVector_ok)

lemma row_of_concat:
  "\<forall>v \<in> set vs. length v = d \<Longrightarrow> i < length vs \<Longrightarrow> row_of d (concat vs) i = vs ! i"
proof (induction vs arbitrary: i)
  case (Cons v vs)
  then show ?case by (cases i) (auto simp: row_of_def)
qed simp

lemma length_concat_const: "\<forall>v \<in> set vs. length v = d \<Longrightarrow> length (concat vs) = length vs * d"
  by (induction vs) auto

lemma batch_rows:
  fixes q :: "'f::linordered_field list"
  assumes "kernels_agree p" "length q = d" "0 < d" "GetDistanceFunc metric = Some f" "\<forall>v \<in> set vs. length v = d"
    "length r = length vs"
  shows "BatchDistance p q (concat vs) (length vs) d metric r = Inr (map (apply_metric (rt32 p) f q) vs)"
proof -
  have "BatchDistance p q (concat vs) (length vs) d metric r =
      Inr (map (\<lambda>i. apply_metric (rt32 p) f q (row_of d (concat vs) i)) [0..<length vs] @ drop (length vs) r)"
    using assms length_concat_const [OF assms(5)] by (intro BatchDistance_rows) simp_all
  also have "map (\<lambda>i. apply_metric (rt32 p) f q (row_of d (concat vs) i)) [0..<length vs] = map (apply_metric (rt32 p) f q) vs"
    using assms(5) by (intro nth_equalityI) (simp_all add: row_of_concat)
  finally show ?thesis using assms(6) by simp
qed

lemma batch_dists_ok:
  assumes "kernels_agree (plat E)" "params_ok h" "store_ok h" "length q = hn_dim h"
    "set us \<subseteq> {..<length (nodes h)}" "length us \<le> mMax0 h"
  shows "batch_dists E h q us = Inr (map (ndist E h q) us)"
proof -
  have us: "set us \<subseteq> {..<length (vectorOffsets h)}" using assms(3,5) store_okD(2) by blast
  have "BatchDistance (plat E) q (concat (map (vec h) us)) (length (map (vec h) us)) (hn_dim h) (hn_metric h) (replicate (length us) 0) =
      Inr (map (apply_metric (rt32 (plat E)) (distFn h) q) (map (vec h) us))"
    using us by (intro batch_rows) (auto simp: assms(1,4) paramsD [OF assms(2)] nodeVector_ok(2) [OF assms(3)])
  then show ?thesis using assms(6) gather_ok [OF assms(3) us] by (simp add: batch_dists_def ndist_def o_def)
qed

definition lfriends :: "'f HNSWIndex \<Rightarrow> nat \<Rightarrow> nat \<Rightarrow> nat list" where
  "lfriends h l i = (if l < length (friends (nodes h ! i)) then friends (nodes h ! i) ! l else [])"

lemma layer_friends_ok: "i < length (nodes h) \<Longrightarrow> layer_friends h i l = Inr (lfriends h l i)"
  by (simp add: layer_friends_def get_at_def lfriends_def)

lemma lfriends_ok:
  assumes "links_ok h i"
  shows "f \<in> set (lfriends h l i) \<Longrightarrow> on_layer h l f" "length (lfriends h l i) \<le> layer_cap h l"
  using assms by (auto simp: lfriends_def links_ok_def split: if_splits)

lemma on_layer_node: "on_layer h l i \<Longrightarrow> i < length (nodes h)"
  by (simp add: on_layer_def)

subsection \<open>Greedy descent\<close>

definition filters :: "'f HNSWIndex \<Rightarrow> (nat \<Rightarrow> bool go) \<Rightarrow> (nat \<Rightarrow> bool) \<Rightarrow> bool" where
  "filters h ok P \<longleftrightarrow> (\<forall>i < length (nodes h). ok i = Inr (P i))"

lemma filters_pass_all [simp]: "filters h pass_all (\<lambda>_. True)" "filters h (\<lambda>i. Inr (P i)) P"
  by (simp_all add: filters_def pass_all_def)

lemma filters_valid_id: "filters h (valid_id h S) (\<lambda>i. nd_id (nodes h ! i) \<in> S)"
  by (simp add: filters_def valid_id_def get_at_def)

definition eligible :: "'f HNSWIndex \<Rightarrow> (nat \<Rightarrow> bool) \<Rightarrow> nat list \<Rightarrow> nat set" where
  "eligible h P fs = {f \<in> set fs. f \<notin> deleted h \<and> P f}"

lemma scan_friends_ok:
  assumes "store_ok h" "filters h ok P" "\<forall>f \<in> set fs. f < length (nodes h)" "d = ndist E h q ep"
  shows "\<exists>ep' ch'. scan_friends E h ok q fs ep d ch = Inr (ep', ndist E h q ep', ch') \<and>
    ndist E h q ep' \<le> d \<and> (\<forall>f \<in> eligible h P fs. ndist E h q ep' \<le> ndist E h q f) \<and>
    (ep' = ep \<or> ep' \<in> set fs) \<and> (\<not> ch' \<longrightarrow> ep' = ep)"
  using assms(3,4)
proof (induction fs arbitrary: ep d ch)
  case (Cons f fs)
  have f: "f < length (nodes h)" "ok f = Inr (P f)" "node_dist E h q f = Inr (ndist E h q f)"
    using Cons.prems(1) assms(1,2) by (simp_all add: filters_def node_dist_node)
  consider "f \<in> deleted h \<or> \<not> P f" | "f \<notin> deleted h" "P f" "ndist E h q f < d" | "f \<notin> deleted h" "P f" "\<not> ndist E h q f < d"
    by blast
  then show ?case
  proof cases
    case 1
    then have "eligible h P (f # fs) = eligible h P fs" by (auto simp: eligible_def)
    then show ?thesis using 1 f(2) Cons.IH [of d ep ch] Cons.prems by auto
  next
    case 2
    then have e: "eligible h P (f # fs) = insert f (eligible h P fs)" by (auto simp: eligible_def)
    obtain ep' ch' where IH: "scan_friends E h ok q fs f (ndist E h q f) True = Inr (ep', ndist E h q ep', ch')"
      "ndist E h q ep' \<le> ndist E h q f" "\<forall>g \<in> eligible h P fs. ndist E h q ep' \<le> ndist E h q g"
      "ep' = f \<or> ep' \<in> set fs" using Cons.IH [of "ndist E h q f" f True] Cons.prems(1) by auto
    moreover have "ch'" using scan_friends_result [OF IH(1)] by blast
    ultimately show ?thesis using 2 f e by auto
  next
    case 3
    then have e: "eligible h P (f # fs) = insert f (eligible h P fs)" by (auto simp: eligible_def)
    obtain ep' ch' where IH: "scan_friends E h ok q fs ep d ch = Inr (ep', ndist E h q ep', ch')" "ndist E h q ep' \<le> d"
      "\<forall>g \<in> eligible h P fs. ndist E h q ep' \<le> ndist E h q g" "ep' = ep \<or> ep' \<in> set fs" "\<not> ch' \<longrightarrow> ep' = ep"
      using Cons.IH [of d ep ch] Cons.prems by auto
    have "ndist E h q ep' \<le> ndist E h q f" using IH(2) 3(3) by simp
    then show ?thesis using IH 3 f e by auto
  qed
qed (auto simp: eligible_def)

lemma greedy_pass_ok:
  assumes inv: "store_ok h" "\<forall>i < length (nodes h). links_ok h i" and ok: "filters h ok P" and ep: "on_layer h l ep"
  shows "\<exists>ep' ch. greedy_pass E h ok q l ep (ndist E h q ep) = Inr (ep', ndist E h q ep', ch) \<and> on_layer h l ep' \<and>
    ndist E h q ep' \<le> ndist E h q ep \<and> (\<forall>f \<in> eligible h P (lfriends h l ep). ndist E h q ep' \<le> ndist E h q f) \<and>
    (\<not> ch \<longrightarrow> ep' = ep)"
proof -
  have i: "ep < length (nodes h)" using ep by (rule on_layer_node)
  have fr: "\<forall>f \<in> set (lfriends h l ep). on_layer h l f" using inv(2) i lfriends_ok by blast
  then have "\<forall>f \<in> set (lfriends h l ep). f < length (nodes h)" using on_layer_node by blast
  from scan_friends_ok [OF inv(1) ok this refl, of E q ep False] show ?thesis
    using fr ep by (force simp: greedy_pass_def layer_friends_ok [OF i])
qed

text \<open>The pass as a function on the entry point, and its iteration.\<close>

definition pass_to :: "'f hnsw_env \<Rightarrow> 'f::linordered_field HNSWIndex \<Rightarrow> (nat \<Rightarrow> bool go) \<Rightarrow> 'f list \<Rightarrow> nat \<Rightarrow> nat \<Rightarrow> nat \<Rightarrow> bool" where
  "pass_to E h ok q l ep ep' \<longleftrightarrow>
     greedy_pass E h ok q l ep (ndist E h q ep) = Inr (ep', ndist E h q ep', True)"

lemma greedy_loop_ok:
  assumes inv: "store_ok h" "\<forall>i < length (nodes h). links_ok h i" and ok: "filters h ok P" and ep: "on_layer h l ep"
  shows "\<exists>k ep'. (pass_to E h ok q l ^^ k) ep ep' \<and> k \<le> card (closer E h q (ndist E h q ep)) \<and>
    greedy_pass E h ok q l ep' (ndist E h q ep') = Inr (ep', ndist E h q ep', False) \<and>
    greedy_loop E h ok q l ep (ndist E h q ep) = Inr ep' \<and> on_layer h l ep' \<and> ndist E h q ep' \<le> ndist E h q ep \<and>
    (\<forall>f \<in> eligible h P (lfriends h l ep'). ndist E h q ep' \<le> ndist E h q f)"
  using ep
proof (induction "card (closer E h q (ndist E h q ep))" arbitrary: ep rule: less_induct)
  case less
  obtain ep1 ch where 1: "greedy_pass E h ok q l ep (ndist E h q ep) = Inr (ep1, ndist E h q ep1, ch)" "on_layer h l ep1"
    "ndist E h q ep1 \<le> ndist E h q ep" "\<forall>f \<in> eligible h P (lfriends h l ep). ndist E h q ep1 \<le> ndist E h q f"
    "\<not> ch \<longrightarrow> ep1 = ep" using greedy_pass_ok [OF inv ok less.prems] by blast
  show ?case
  proof (cases ch)
    case False
    then have "greedy_loop E h ok q l ep (ndist E h q ep) = Inr ep" using 1 by (subst greedy_loop.simps) simp
    then show ?thesis using 1 False less.prems by (intro exI [of _ 0] exI [of _ ep]) auto
  next
    case True
    then have lt: "card (closer E h q (ndist E h q ep1)) < card (closer E h q (ndist E h q ep))"
      using 1(1) greedy_pass_decreases [of E h ok q l ep "ndist E h q ep" ep1 "ndist E h q ep1"] by simp
    have eq: "greedy_loop E h ok q l ep (ndist E h q ep) = greedy_loop E h ok q l ep1 (ndist E h q ep1)"
      using 1(1) True by (subst greedy_loop.simps) simp
    obtain k ep' where k: "(pass_to E h ok q l ^^ k) ep1 ep'" "k \<le> card (closer E h q (ndist E h q ep1))"
      "greedy_pass E h ok q l ep' (ndist E h q ep') = Inr (ep', ndist E h q ep', False)"
      "greedy_loop E h ok q l ep1 (ndist E h q ep1) = Inr ep'" "on_layer h l ep'" "ndist E h q ep' \<le> ndist E h q ep1"
      "\<forall>f \<in> eligible h P (lfriends h l ep'). ndist E h q ep' \<le> ndist E h q f"
      using less.hyps [OF lt 1(2)] by blast
    have "pass_to E h ok q l ep ep1" using 1(1) True by (simp add: pass_to_def)
    with k(1) have "(pass_to E h ok q l ^^ Suc k) ep ep'" by (metis relpowp_Suc_I2)
    then show ?thesis using k lt 1(3) eq by (intro exI [of _ "Suc k"] exI [of _ ep']) auto
  qed
qed

lemma greedyClosest_ok:
  assumes "graph_inv h" "on_layer h l ep"
  shows "\<exists>ep'. greedyClosest E h q ep l = Inr ep' \<and> on_layer h l ep'"
proof -
  have s: "store_ok h" "\<forall>i < length (nodes h). links_ok h i" using graph_invD [OF assms(1)] by blast+
  have "node_dist E h q ep = Inr (ndist E h q ep)" using s(1) on_layer_node [OF assms(2)] by (rule node_dist_node)
  then show ?thesis
    using greedy_loop_ok [OF s filters_pass_all(1) assms(2), of E q] by (auto simp: greedyClosest_def pass_all_def)
qed

lemma best_valid_ok:
  assumes "store_ok h" "filters h ok P" "\<forall>f \<in> set fs. f < length (nodes h)"
  shows "\<exists>i'. best_valid E h ok q fs i d = Inr i' \<and> (i' = i \<or> i' \<in> set fs)"
  using assms(3)
proof (induction fs arbitrary: i d)
  case (Cons f fs)
  have f: "ok f = Inr (P f)" "node_dist E h q f = Inr (ndist E h q f)"
    using Cons.prems assms(1,2) by (simp_all add: filters_def node_dist_node)
  show ?case using Cons.IH [of i d] Cons.IH [of f "ndist E h q f"] Cons.prems f by auto
qed simp

lemma filtered_descent_ok:
  assumes "graph_inv h" "on_layer h l ep"
  shows "\<exists>ep'. greedyClosestFiltered E h S q ep l = Inr ep' \<and> on_layer h l ep'"
    and "\<exists>ep'. greedyClosestBitmap E h B q ep l = Inr ep' \<and> on_layer h l ep'"
proof -
  have s: "store_ok h" "\<forall>i < length (nodes h). links_ok h i" using graph_invD [OF assms(1)] by blast+
  have d: "node_dist E h q ep = Inr (ndist E h q ep)" using s(1) on_layer_node [OF assms(2)] by (rule node_dist_node)
  have fall: "\<exists>i'. go_bind (layer_friends h e l) (\<lambda>fs. best_valid E h ok q fs e m) = Inr i' \<and> on_layer h l i'"
    if ok: "filters h ok P" and e: "on_layer h l e" for ok P e and m
  proof -
    have i: "e < length (nodes h)" using e by (rule on_layer_node)
    have fr: "\<forall>f \<in> set (lfriends h l e). on_layer h l f" using s(2) i lfriends_ok by blast
    then show ?thesis
      using best_valid_ok [OF s(1) ok, of "lfriends h l e" E q e m] on_layer_node e by (fastforce simp: layer_friends_ok [OF i])
  qed
  show "\<exists>ep'. greedyClosestFiltered E h S q ep l = Inr ep' \<and> on_layer h l ep'"
    using greedy_loop_ok [OF s filters_valid_id [of h S] assms(2), of E q] d fall [OF filters_valid_id [of h S]]
    unfolding greedyClosestFiltered_def
    by (fastforce simp: valid_id_def get_at_def on_layer_node)
  show "\<exists>ep'. greedyClosestBitmap E h B q ep l = Inr ep' \<and> on_layer h l ep'"
    using greedy_loop_ok [OF s filters_pass_all(2) [of h "\<lambda>i. i \<in> B"] assms(2), of E q] d
      fall [OF filters_pass_all(2) [of h "\<lambda>i. i \<in> B"]]
    unfolding greedyClosestBitmap_def by fastforce
qed

lemma descend_ok:
  assumes step: "\<And>ep l. on_layer h l ep \<Longrightarrow> \<exists>ep'. step ep l = Inr ep' \<and> on_layer h l ep'"
    and "low \<ge> -1" "0 \<le> lc \<Longrightarrow> on_layer h (nat lc) ep"
  shows "\<exists>ep'. descend step lc low ep = Inr ep' \<and> (0 \<le> lc \<longrightarrow> on_layer h (nat (min lc (low + 1))) ep')"
  using assms(3)
proof (induction "nat (lc - low)" arbitrary: lc ep rule: less_induct)
  case less
  show ?case
  proof (cases "lc > low")
    case False
    then show ?thesis using less.prems by (subst descend.simps) simp
  next
    case True
    then have lc: "0 \<le> lc" using assms(2) by simp
    obtain ep1 where 1: "step ep (nat lc) = Inr ep1" "on_layer h (nat lc) ep1" using step less.prems lc by blast
    have eq: "descend step lc low ep = descend step (lc - 1) low ep1" using True 1(1) by (subst descend.simps) simp
    have "on_layer h (nat (lc - 1)) ep1" by (rule on_layer_lower [OF 1(2)]) simp
    then obtain ep' where ep': "descend step (lc - 1) low ep1 = Inr ep'"
      "0 \<le> lc - 1 \<longrightarrow> on_layer h (nat (min (lc - 1) (low + 1))) ep'" using less.hyps [of "lc - 1" ep1] True by auto
    show ?thesis
    proof (cases "lc = 0")
      case True
      then have "ep' = ep1" using ep'(1) \<open>lc > low\<close> assms(2) by (subst (asm) descend.simps) simp
      then show ?thesis using eq ep'(1) 1(2) True \<open>lc > low\<close> assms(2) by simp
    next
      case False
      show ?thesis
      proof (cases "lc - 1 > low")
        case True
        then have "min (lc - 1) (low + 1) = low + 1" "min lc (low + 1) = low + 1" by simp_all
        then show ?thesis using ep' eq False lc by simp
      next
        case False
        then have "ep' = ep1" "lc = low + 1" using ep'(1) \<open>lc > low\<close> by (auto simp: descend.simps [of step "lc - 1"])
        then show ?thesis using eq ep'(1) 1(2) by simp
      qed
    qed
  qed
qed

subsection \<open>Beam search\<close>

lemma mset_distinct_map: "mset xs = mset ys \<Longrightarrow> distinct (map f xs) \<longleftrightarrow> distinct (map f ys)"
  by (metis mset_map mset_eq_imp_distinct_iff)

definition keep_best :: "nat \<Rightarrow> 'f::linordered_field candidate \<Rightarrow> 'f candidate list \<Rightarrow> 'f candidate list" where
  "keep_best ef x rs =
     (let rs = heap_Push farther x rs in if length rs > ef then snd (heap_Pop farther rs) else rs)"

definition results_ok :: "nat \<Rightarrow> 'f::linordered_field candidate list \<Rightarrow> bool" where
  "results_ok ef rs \<longleftrightarrow> farthest.is_heap rs \<and> rs \<noteq> [] \<and> length rs \<le> ef \<and> distinct (map nodeIdx rs)"

lemma keep_best_ok:
  assumes "0 < ef" "results_ok ef rs" "nodeIdx x \<notin> nodeIdx ` set rs"
  shows "results_ok ef (keep_best ef x rs)" "set (keep_best ef x rs) \<subseteq> insert x (set rs)"
    "\<forall>y \<in> insert x (set rs). \<exists>z \<in> set (keep_best ef x rs). dist z \<le> dist y"
    "length rs < ef \<Longrightarrow> set (keep_best ef x rs) = insert x (set rs)" "length (keep_best ef x rs) \<le> Suc (length rs)"
proof -
  define R where "R = heap_Push farther x rs"
  have R: "farthest.is_heap R" "mset R = mset (x # rs)" "length R = Suc (length rs)"
    using farthest.heap_Push_correct [of rs x] assms(2) by (simp_all add: R_def results_ok_def)
  have set: "set R = insert x (set rs)" using R(2) by (metis set_mset_mset list.simps(15))
  have dR: "distinct (map nodeIdx R)" using mset_distinct_map [OF R(2), of nodeIdx] assms(2,3) by (auto simp: results_ok_def)
  have ne: "R \<noteq> []" using R(3) by auto
  define K where "K = keep_best ef x rs"
  have K: "results_ok ef K \<and> set K \<subseteq> set R \<and> (\<forall>y \<in> set R. \<exists>z \<in> set K. dist z \<le> dist y) \<and> (length rs < ef \<longrightarrow> set K = set R) \<and>
    length K \<le> Suc (length rs)"
  proof (cases "length R > ef")
    case False
    then have "K = R" by (simp add: K_def keep_best_def R_def Let_def)
    then show ?thesis using R ne dR False by (auto simp: results_ok_def)
  next
    case True
    then have eq: "K = snd (heap_Pop farther R)" by (simp add: K_def keep_best_def R_def Let_def)
    have p: "farthest.is_heap K" "mset R = add_mset (hd R) (mset K)" "length K = length R - 1"
      using farthest.heap_Pop_correct [OF R(1) ne] unfolding eq by blast+
    have len: "length K = ef" using p(3) True R(3) assms(2) by (simp add: results_ok_def)
    then have neK: "K \<noteq> []" using assms(1) by auto
    have sR: "set R = insert (hd R) (set K)" using p(2) by (metis set_mset_add_mset_insert set_mset_mset)
    have "distinct (map nodeIdx (hd R # K))" using mset_distinct_map [of R "hd R # K" nodeIdx] p(2) dR by simp
    moreover have "\<exists>z \<in> set K. dist z \<le> dist y" if "y \<in> set R" for y
    proof (cases "y \<in> set K")
      case False
      then have y: "y = hd R" using that sR by blast
      obtain z where z: "z \<in> set K" using neK by (cases K) auto
      then have "\<not> farther z (hd R)" using farthest.root_is_least [OF R(1)] sR by blast
      then show ?thesis using z y by (intro bexI [of _ z]) (auto simp: farther_def)
    qed auto
    ultimately show ?thesis using p(1) neK len R(3) True sR by (auto simp: results_ok_def)
  qed
  show "results_ok ef (keep_best ef x rs)" "set (keep_best ef x rs) \<subseteq> insert x (set rs)"
    "\<forall>y \<in> insert x (set rs). \<exists>z \<in> set (keep_best ef x rs). dist z \<le> dist y"
    "length rs < ef \<Longrightarrow> set (keep_best ef x rs) = insert x (set rs)" "length (keep_best ef x rs) \<le> Suc (length rs)"
    using K unfolding set K_def by blast+
qed

definition offered :: "(nat \<times> 'f) list \<Rightarrow> 'f candidate set" where
  "offered xs = (\<lambda>(f, d). \<lparr>nodeIdx = f, dist = d\<rparr>) ` set xs"

lemma offered_simps [simp]: "offered [] = {}" "offered ((f, d) # xs) = insert \<lparr>nodeIdx = f, dist = d\<rparr> (offered xs)"
  by (simp_all add: offered_def)

lemma offer_Cons:
  assumes "results_ok ef rs" "\<not> (i mod 100 = 0 \<and> ctx c \<noteq> None)"
  shows "\<exists>c'. offer ctx c ef i ((f, d) # xs) cs rs =
    (if length rs < ef \<or> d < dist (hd rs)
     then offer ctx c' ef (i + 1) xs (heap_Push near \<lparr>nodeIdx = f, dist = d\<rparr> cs) (keep_best ef \<lparr>nodeIdx = f, dist = d\<rparr> rs)
     else offer ctx c' ef (i + 1) xs cs rs)"
proof -
  have "get_at rs 0 = Inr (hd rs)" using assms(1) by (auto simp: results_ok_def get_at_def hd_conv_nth)
  moreover have n: "(i mod 100 = 0 \<and> ctx c \<noteq> None) = False" using assms(2) by blast
  ultimately show ?thesis
    unfolding offer.simps n if_False Let_def keep_best_def
    by (intro exI [of _ "if i mod 100 = 0 then c + 1 else c"]) simp
qed

lemma offer_ok:
  assumes "0 < ef" "nearest.is_heap cs" "results_ok ef rs" "distinct (map fst xs)" "fst ` set xs \<inter> nodeIdx ` set rs = {}"
  shows "\<exists>stop c' cs' rs'. offer ctx c ef i xs cs rs = Inr (stop, c', cs', rs') \<and> nearest.is_heap cs' \<and> results_ok ef rs' \<and>
    set cs' \<subseteq> set cs \<union> offered xs \<and> set rs' \<subseteq> set rs \<union> offered xs \<and> (\<forall>y \<in> set rs. \<exists>z \<in> set rs'. dist z \<le> dist y) \<and>
    ((\<forall>c. ctx c = None) \<and> length rs + length xs \<le> ef \<longrightarrow>
       \<not> stop \<and> set cs' = set cs \<union> offered xs \<and> set rs' = set rs \<union> offered xs)"
  using assms(2-5)
proof (induction xs arbitrary: c i cs rs)
  case Nil
  then show ?case by (auto intro: exI [of _ False])
next
  case (Cons p xs)
  obtain f d where p: "p = (f, d)" by fastforce
  let ?x = "\<lparr>nodeIdx = f, dist = d\<rparr>"
  have dx: "distinct (map fst xs)" using Cons.prems(3) by simp
  show ?case
  proof (cases "i mod 100 = 0 \<and> ctx c \<noteq> None")
    case True
    then have "offer ctx c ef i (p # xs) cs rs = Inr (True, c + 1, cs, rs)" by (simp add: p)
    then show ?thesis using Cons.prems True by auto
  next
    case False
    from offer_Cons [of ef rs i ctx c f d xs cs, OF Cons.prems(2) this] obtain c' where c': "offer ctx c ef i (p # xs) cs rs =
      (if length rs < ef \<or> d < dist (hd rs) then offer ctx c' ef (i + 1) xs (heap_Push near ?x cs) (keep_best ef ?x rs)
       else offer ctx c' ef (i + 1) xs cs rs)" unfolding p by blast
    show ?thesis
    proof (cases "length rs < ef \<or> d < dist (hd rs)")
      case True
      have fr: "nodeIdx ?x \<notin> nodeIdx ` set rs" using Cons.prems(4) p by auto
      note k = keep_best_ok [OF assms(1) Cons.prems(2) fr]
      have cs: "nearest.is_heap (heap_Push near ?x cs)" "set (heap_Push near ?x cs) = insert ?x (set cs)"
        using nearest.heap_Push_correct [OF Cons.prems(1), of ?x] by (blast, metis set_mset_add_mset_insert set_mset_mset)
      have "nodeIdx ` set (keep_best ef ?x rs) \<subseteq> insert f (nodeIdx ` set rs)"
        using image_mono [OF k(2), of nodeIdx] by simp
      moreover have "f \<notin> fst ` set xs" "fst ` set xs \<inter> nodeIdx ` set rs = {}" using Cons.prems(3,4) p by auto
      ultimately have "fst ` set xs \<inter> nodeIdx ` set (keep_best ef ?x rs) = {}" by blast
      from Cons.IH [OF cs(1) k(1) dx this, of c' "i + 1"]
      obtain stop c2 cs' rs' where IH: "offer ctx c' ef (i + 1) xs (heap_Push near ?x cs) (keep_best ef ?x rs) = Inr (stop, c2, cs', rs')"
        "nearest.is_heap cs'" "results_ok ef rs'" "set cs' \<subseteq> set (heap_Push near ?x cs) \<union> offered xs"
        "set rs' \<subseteq> set (keep_best ef ?x rs) \<union> offered xs" "\<forall>y \<in> set (keep_best ef ?x rs). \<exists>z \<in> set rs'. dist z \<le> dist y"
        "(\<forall>c. ctx c = None) \<and> length (keep_best ef ?x rs) + length xs \<le> ef \<longrightarrow> \<not> stop \<and>
           set cs' = set (heap_Push near ?x cs) \<union> offered xs \<and> set rs' = set (keep_best ef ?x rs) \<union> offered xs" by blast
      have "\<exists>z \<in> set rs'. dist z \<le> dist y" if "y \<in> set rs" for y
        using k(3) IH(6) that by (meson insertI2 order_trans)
      moreover have "\<not> stop \<and> set cs' = set cs \<union> offered (p # xs) \<and> set rs' = set rs \<union> offered (p # xs)"
        if "\<forall>c. ctx c = None" "length rs + length (p # xs) \<le> ef"
        using IH(7) k(4,5) cs(2) that p by auto
      moreover have "set cs' \<subseteq> set cs \<union> offered (p # xs)" "set rs' \<subseteq> set rs \<union> offered (p # xs)"
        using IH(4,5) k(2) cs(2) p by auto
      ultimately show ?thesis using c' True IH(1-3) by auto
    next
      case no: False
      have "fst ` set xs \<inter> nodeIdx ` set rs = {}" using Cons.prems(4) by auto
      from Cons.IH [OF Cons.prems(1,2) dx this, of c' "i + 1"]
      obtain stop c2 cs' rs' where IH: "offer ctx c' ef (i + 1) xs cs rs = Inr (stop, c2, cs', rs')"
        "nearest.is_heap cs'" "results_ok ef rs'" "set cs' \<subseteq> set cs \<union> offered xs" "set rs' \<subseteq> set rs \<union> offered xs"
        "\<forall>y \<in> set rs. \<exists>z \<in> set rs'. dist z \<le> dist y" by blast
      then have "set cs' \<subseteq> set cs \<union> offered (p # xs)" "set rs' \<subseteq> set rs \<union> offered (p # xs)" by (auto simp: p)
      moreover have "\<not> length rs + length (p # xs) \<le> ef" using no by auto
      ultimately show ?thesis using c' no IH by auto
    qed
  qed
qed

lemma collect_ok:
  assumes "filters h ok P" "\<forall>f \<in> set fs. f < length (nodes h)"
  shows "\<exists>vt' us. collect ok fs vt acc = Inr (vt', us)"
  using assms(2)
proof (induction fs arbitrary: vt acc)
  case (Cons f fs)
  then have "ok f = Inr (P f)" using assms(1) by (simp add: filters_def)
  then show ?case using Cons.IH Cons.prems by (simp add: Let_def)
qed simp

definition true_cand :: "'f hnsw_env \<Rightarrow> 'f::linordered_field HNSWIndex \<Rightarrow> 'f list \<Rightarrow> nat \<Rightarrow> 'f candidate \<Rightarrow> bool" where
  "true_cand E h q l x \<longleftrightarrow> on_layer h l (nodeIdx x) \<and> dist x = ndist E h q (nodeIdx x)"

definition closed_under :: "'f HNSWIndex \<Rightarrow> (nat \<Rightarrow> bool) \<Rightarrow> nat \<Rightarrow> nat set \<Rightarrow> bool" where
  "closed_under h P l R \<longleftrightarrow> (\<forall>i \<in> R. i < length (nodes h) \<longrightarrow> (\<forall>f \<in> set (lfriends h l i). P f \<longrightarrow> f \<in> R))"

text \<open>The state of the beam search that nothing was dropped in: the results are the valid nodes seen, and
  those of them that are no longer in the queue were expanded.\<close>

definition complete :: "'f HNSWIndex \<Rightarrow> (nat \<Rightarrow> bool) \<Rightarrow> nat \<Rightarrow> visitedTracker \<Rightarrow> 'f candidate list \<Rightarrow> 'f candidate list \<Rightarrow> bool" where
  "complete h P l vt cs rs \<longleftrightarrow> set cs \<subseteq> set rs \<and> (\<forall>i \<in> visited vt. i < length (nodes h) \<longrightarrow> P i \<longrightarrow> i \<in> nodeIdx ` set rs) \<and>
     (\<forall>x \<in> set rs. x \<in> set cs \<or> set (lfriends h l (nodeIdx x)) \<subseteq> visited vt)"

definition beam_state :: "'f hnsw_env \<Rightarrow> 'f::linordered_field HNSWIndex \<Rightarrow> 'f list \<Rightarrow> nat \<Rightarrow> nat \<Rightarrow> nat set \<Rightarrow> visitedTracker \<Rightarrow>
    'f candidate list \<Rightarrow> 'f candidate list \<Rightarrow> bool" where
  "beam_state E h q ef l R vt cs rs \<longleftrightarrow> nearest.is_heap cs \<and> results_ok ef rs \<and> nodeIdx ` set rs \<subseteq> visited vt \<and> tracker_ok vt \<and>
     (\<forall>x \<in> set cs \<union> set rs. true_cand E h q l x \<and> nodeIdx x \<in> R)"

definition beam_done :: "'f hnsw_env \<Rightarrow> 'f::linordered_field HNSWIndex \<Rightarrow> 'f list \<Rightarrow> (nat \<Rightarrow> bool) \<Rightarrow> nat \<Rightarrow> nat \<Rightarrow> nat set \<Rightarrow>
    bool \<Rightarrow> 'f candidate list \<Rightarrow> visitedTracker \<Rightarrow> 'f candidate list \<Rightarrow> visitedTracker \<Rightarrow> bool" where
  "beam_done E h q P ef l R all rs vt rs' vt' \<longleftrightarrow> results_ok ef rs' \<and> tracker_ok vt' \<and> currentGen vt' = currentGen vt \<and>
     (\<forall>x \<in> set rs'. true_cand E h q l x \<and> nodeIdx x \<in> R) \<and> (\<forall>y \<in> set rs. \<exists>z \<in> set rs'. dist z \<le> dist y) \<and>
     (all \<longrightarrow> set rs \<subseteq> set rs' \<and> closed_under h P l (nodeIdx ` set rs'))"

lemma beam_done_trans:
  assumes "beam_done E h q P ef l R all rs1 vt1 rs' vt'" "currentGen vt1 = currentGen vt"
    "\<forall>y \<in> set rs. \<exists>z \<in> set rs1. dist z \<le> dist y" "all \<longrightarrow> set rs \<subseteq> set rs1"
  shows "beam_done E h q P ef l R all rs vt rs' vt'"
  using assms unfolding beam_done_def by (auto; meson order_trans)

lemma beam_room:
  assumes "results_ok ef rs" "\<forall>x \<in> set rs. on_layer h l (nodeIdx x)" "distinct us" "set us \<subseteq> {..<length (nodes h)}"
    "nodeIdx ` set rs \<inter> set us = {}"
  shows "length rs + length us \<le> length (nodes h)"
proof -
  have "length rs + length us = card (nodeIdx ` set rs) + card (set us)"
    using assms(1,3) by (metis distinct_card length_map list.set_map results_ok_def)
  also have "\<dots> = card (nodeIdx ` set rs \<union> set us)" using assms(5) by (intro card_Un_disjoint [symmetric]) auto
  also have "\<dots> \<le> card {..<length (nodes h)}" using assms(2,4) by (intro card_mono) (auto dest: on_layer_node)
  finally show ?thesis by simp
qed

lemma beam_ok:
  assumes E: "kernels_agree (plat E)" and h: "params_ok h" "store_ok h" "\<forall>i < length (nodes h). links_ok h i"
    and ok: "filters h ok P" and q: "length q = hn_dim h" and ef: "0 < ef" and R: "closed_under h P l R"
    and st: "beam_state E h q ef l R vt cs rs"
    and all: "all \<longrightarrow> (\<forall>c. ctx c = None) \<and> length (nodes h) \<le> ef \<and> complete h P l vt cs rs"
  shows "\<exists>rs' vt'. beam E ctx c h q ef l ok vt cs rs = Inr (rs', vt') \<and> beam_done E h q P ef l R all rs vt rs' vt'"
  using st all
proof (induction "unseen h vt + length cs" arbitrary: c vt cs rs rule: less_induct)
  case less
  note st = less.prems(1) [unfolded beam_state_def]
  have root: "get_at rs 0 = Inr (hd rs)" using st by (auto simp: results_ok_def get_at_def hd_conv_nth)
  have same: "beam_done E h q P ef l R all rs vt rs vt" if "all \<Longrightarrow> closed_under h P l (nodeIdx ` set rs)"
    using st that by (auto simp: beam_done_def)
  show ?case
  proof (cases "cs = []")
    case True
    then have "all \<Longrightarrow> closed_under h P l (nodeIdx ` set rs)"
    proof -
      assume all
      then have c: "complete h P l vt [] rs" using less.prems(2) True by blast
      have "f \<in> nodeIdx ` set rs" if "x \<in> set rs" "f \<in> set (lfriends h l (nodeIdx x))" "P f" for x f
      proof -
        have "on_layer h l (nodeIdx x)" using st that(1) by (auto simp: true_cand_def)
        then have "f < length (nodes h)" using that(2) h(3) lfriends_ok(1) on_layer_node by blast
        then show ?thesis using c that unfolding complete_def by auto
      qed
      then show "closed_under h P l (nodeIdx ` set rs)" by (auto simp: closed_under_def)
    qed
    then show ?thesis using same True by (subst beam.simps) auto
  next
    case False
    obtain x cs1 where pop: "heap_Pop near cs = (x, cs1)" by fastforce
    have x: "x = hd cs" "nearest.is_heap cs1" "mset cs = add_mset x (mset cs1)"
      using nearest.heap_Pop_correct [OF _ False] st pop by auto
    have scs: "set cs = insert x (set cs1)" using x(3) by (metis set_mset_add_mset_insert set_mset_mset)
    define fs where "fs = lfriends h l (nodeIdx x)"
    have ol: "on_layer h l (nodeIdx x)" "nodeIdx x \<in> R" using st scs by (auto simp: true_cand_def)
    have i: "nodeIdx x < length (nodes h)" using ol(1) by (rule on_layer_node)
    have fs: "\<forall>f \<in> set fs. on_layer h l f" "length fs \<le> mMax0 h"
      using lfriends_ok h(3) i layer_cap_le [OF h(1)] unfolding fs_def by (blast, meson order_trans)
    have fsn: "\<forall>f \<in> set fs. f < length (nodes h)" using fs(1) on_layer_node by blast
    define stop where "stop \<longleftrightarrow> length rs \<ge> ef \<and> dist x > dist (hd rs)"
    have test: "(if length rs \<ge> ef then go_bind (get_at rs 0) (\<lambda>root. Inr (dist x > dist root)) else Inr False) = Inr stop"
      by (simp add: root stop_def)
    show ?thesis
    proof (cases stop)
      case True
      then have "beam E ctx c h q ef l ok vt cs rs = Inr (rs, vt)" using False by (subst beam.simps) (simp add: pop test)
      moreover have "\<not> all"
      proof
        assume all
        then have "x \<in> set rs" using less.prems(2) scs by (auto simp: complete_def)
        then show False using farthest.root_is_least [of rs x] st True by (auto simp: results_ok_def farther_def stop_def)
      qed
      ultimately show ?thesis using same by auto
    next
      case go: False
      obtain vt1 us where col: "collect ok fs vt [] = Inr (vt1, us)" using collect_ok [OF ok fsn] by blast
      have us: "distinct us" "set us = {f \<in> set fs. f \<notin> visited vt \<and> P f}" "visited vt1 = visited vt \<union> set fs"
        "currentGen vt1 = currentGen vt" "tracker_ok vt1" "length us \<le> mMax0 h"
        using collect_result [OF col] fs(2) fsn ok st by (auto simp: filters_def)
      have usR: "set us \<subseteq> R" "set us \<subseteq> {..<length (nodes h)}"
        using us(2) R ol(2) i fsn by (auto simp: closed_under_def fs_def)
      note dec = beam_decreases [OF False pop [symmetric] col]
      show ?thesis
      proof (cases "us = []")
        case True
        have eq: "beam E ctx c h q ef l ok vt cs rs = beam E ctx c h q ef l ok vt1 cs1 rs"
          using False go True by (subst beam.simps) (simp add: pop test layer_friends_ok [OF i] fs_def [symmetric] col)
        have "beam_state E h q ef l R vt1 cs1 rs" using st x(2) us(3,5) scs by (auto simp: beam_state_def)
        moreover have "complete h P l vt1 cs1 rs" if "complete h P l vt cs rs"
          using that us(2,3) True scs fsn unfolding complete_def fs_def by auto
        ultimately obtain rs' vt' where "beam E ctx c h q ef l ok vt1 cs1 rs = Inr (rs', vt')"
          "beam_done E h q P ef l R all rs vt1 rs' vt'"
          using less.hyps [OF dec(1) [OF True], of rs c] less.prems(2) by blast
        then show ?thesis unfolding eq using beam_done_trans [OF _ us(4)] by blast
      next
        case ne: False
        define ds where "ds = map (ndist E h q) us"
        have bd: "batch_dists E h q us = Inr ds" unfolding ds_def by (rule batch_dists_ok [OF E h(1,2) q usR(2) us(6)])
        have off: "offered (zip us ds) = (\<lambda>i. \<lparr>nodeIdx = i, dist = ndist E h q i\<rparr>) ` set us"
          by (simp add: offered_def ds_def zip_map2 zip_same_conv_map image_image)
        have dz: "distinct (map fst (zip us ds))" "fst ` set (zip us ds) \<inter> nodeIdx ` set rs = {}" "length (zip us ds) = length us"
        proof -
          have "fst ` set (zip us ds) = set us" by (simp add: ds_def zip_map2 zip_same_conv_map image_image)
          then show "fst ` set (zip us ds) \<inter> nodeIdx ` set rs = {}" using us(2) st by blast
        qed (simp_all add: ds_def us(1))
        have ro: "results_ok ef rs" using st by blast
        from offer_ok [OF ef x(2) ro dz(1,2), of ctx c 0]
        obtain stop2 c2 cs2 rs2 where o: "offer ctx c ef 0 (zip us ds) cs1 rs = Inr (stop2, c2, cs2, rs2)" "nearest.is_heap cs2"
          "results_ok ef rs2" "set cs2 \<subseteq> set cs1 \<union> offered (zip us ds)" "set rs2 \<subseteq> set rs \<union> offered (zip us ds)"
          "\<forall>y \<in> set rs. \<exists>z \<in> set rs2. dist z \<le> dist y"
          "(\<forall>c. ctx c = None) \<and> length rs + length (zip us ds) \<le> ef \<longrightarrow>
             \<not> stop2 \<and> set cs2 = set cs1 \<union> offered (zip us ds) \<and> set rs2 = set rs \<union> offered (zip us ds)" by blast
        have room: "length rs + length (zip us ds) \<le> length (nodes h)"
          using beam_room [of ef rs h l us] st us(1,2) usR(2) dz(3) by (auto simp: true_cand_def)
        have tc: "true_cand E h q l y \<and> nodeIdx y \<in> R" if "y \<in> set cs2 \<union> set rs2" for y
        proof -
          have "y \<in> set cs1 \<union> set rs \<or> y \<in> offered (zip us ds)" using that o(4,5) by blast
          then show ?thesis using st scs fs(1) us(2) usR(1) by (auto simp: off true_cand_def)
        qed
        show ?thesis
        proof (cases stop2)
          case True
          have "beam E ctx c h q ef l ok vt cs rs = Inr (rs2, vt1)"
            using False go ne True by (subst beam.simps) (simp add: pop test layer_friends_ok [OF i] fs_def [symmetric] col bd o(1))
          moreover have "\<not> all" using o(7) room less.prems(2) True by auto
          ultimately show ?thesis using o(3,6) us(4,5) tc by (auto simp: beam_done_def)
        next
          case go2: False
          have eq: "beam E ctx c h q ef l ok vt cs rs = beam E ctx c2 h q ef l ok vt1 cs2 rs2"
            using False go ne go2 by (subst beam.simps) (simp add: pop test layer_friends_ok [OF i] fs_def [symmetric] col bd o(1))
          have "nodeIdx ` set rs2 \<subseteq> visited vt1" using o(5) st us(2,3) by (force simp: off)
          then have "beam_state E h q ef l R vt1 cs2 rs2" using o(2,3) us(5) tc by (auto simp: beam_state_def)
          moreover have "complete h P l vt1 cs2 rs2 \<and> set rs \<subseteq> set rs2" if all
          proof -
            have c: "complete h P l vt cs rs" and e: "set cs2 = set cs1 \<union> offered (zip us ds)" "set rs2 = set rs \<union> offered (zip us ds)"
              using less.prems(2) that o(7) room by auto
            have idx: "nodeIdx ` set rs2 = nodeIdx ` set rs \<union> set us" by (auto simp: e(2) off image_Un image_image)
            show ?thesis using c scs us(2,3) idx unfolding complete_def e fs_def by auto
          qed
          ultimately obtain rs' vt' where b: "beam E ctx c2 h q ef l ok vt1 cs2 rs2 = Inr (rs', vt')"
            "beam_done E h q P ef l R all rs2 vt1 rs' vt'"
            using less.hyps [OF dec(2) [OF bd o(1)], of rs2 c2] less.prems(2) by blast
          have "all \<longrightarrow> set rs \<subseteq> set rs2" using o(7) room less.prems(2) by auto
          then show ?thesis unfolding eq using b beam_done_trans [OF b(2) us(4) o(6)] by blast
        qed
      qed
    qed
  qed
qed

lemma drain_heap_sorted:
  fixes h :: "'f::linorder candidate list"
  assumes "farthest.is_heap h" "n = length h" "sorted (map dist acc)" "\<forall>x \<in> set h. \<forall>y \<in> set acc. dist x \<le> dist y"
  shows "sorted (map dist (drain_heap farther n h acc)) \<and> mset (drain_heap farther n h acc) = mset h + mset acc"
  using assms
proof (induction n arbitrary: h acc)
  case (Suc n)
  then have ne: "h \<noteq> []" by auto
  obtain x h' where p: "heap_Pop farther h = (x, h')" by fastforce
  have x: "x = hd h" "farthest.is_heap h'" "mset h = add_mset x (mset h')" "length h' = n"
    using farthest.heap_Pop_correct [OF Suc.prems(1) ne] p Suc.prems(2) by auto
  have le: "dist y \<le> dist x" if "y \<in> set h" for y
    using farthest.root_is_least [OF Suc.prems(1) that] by (simp add: farther_def x(1))
  have sub: "set h = insert x (set h')" using x(3) by (metis set_mset_add_mset_insert set_mset_mset)
  have "sorted (map dist (drain_heap farther n h' (x # acc))) \<and> mset (drain_heap farther n h' (x # acc)) = mset h' + mset (x # acc)"
    using Suc.prems(3,4) le sub x(4) by (intro Suc.IH [OF x(2)]) auto
  then show ?case using p x(3) by simp
qed simp

lemma searchLayer_ok:
  assumes E: "kernels_agree (plat E)" and h: "params_ok h" "store_ok h" "\<forall>i < length (nodes h). links_ok h i"
    and ok: "filters h ok P" and q: "length q = hn_dim h" and ef: "0 < ef" and R: "closed_under h P l R"
    and ep: "on_layer h l ep" "ep \<in> R" and vt: "tracker_ok vt"
    and all: "all \<longrightarrow> (\<forall>c. ctx c = None) \<and> length (nodes h) \<le> ef \<and> clean vt"
  shows "\<exists>cs vt'. searchLayer E ctx c h q ep ef l vt ok = Inr (cs, vt') \<and> sorted (map dist cs) \<and> cs \<noteq> [] \<and> length cs \<le> ef \<and>
    distinct (map nodeIdx cs) \<and> (\<forall>x \<in> set cs. true_cand E h q l x \<and> nodeIdx x \<in> R) \<and> tracker_ok vt' \<and>
    (\<exists>x \<in> set cs. dist x \<le> ndist E h q ep) \<and> (all \<longrightarrow> ep \<in> nodeIdx ` set cs \<and> closed_under h P l (nodeIdx ` set cs))"
proof -
  let ?x = "\<lparr>nodeIdx = ep, dist = ndist E h q ep\<rparr>"
  let ?vt = "mark ep (grow_to ep vt)"
  have d: "node_dist E h q ep = Inr (ndist E h q ep)" using h(2) on_layer_node [OF ep(1)] by (rule node_dist_node)
  have "beam_state E h q ef l R ?vt [?x] [?x]"
    using ep vt ef by (auto simp: beam_state_def results_ok_def nearest.heap_upto_def farthest.heap_upto_def true_cand_def)
  moreover have "complete h P l ?vt [?x] [?x]" if "clean vt" using clean_visited [OF that] by (auto simp: complete_def)
  ultimately obtain rs vt' where b: "beam E ctx c h q ef l ok ?vt [?x] [?x] = Inr (rs, vt')"
    "beam_done E h q P ef l R all [?x] ?vt rs vt'"
    using beam_ok [OF E h ok q ef R, of ?vt "[?x]" "[?x]" all ctx c] all by blast
  define cs where "cs = drain_heap farther (length rs) rs []"
  have rs: "results_ok ef rs" using b(2) by (simp add: beam_done_def)
  have cs: "sorted (map dist cs)" "mset cs = mset rs"
    using drain_heap_sorted [of rs "length rs" "[]"] rs by (auto simp: cs_def results_ok_def)
  have set: "set cs = set rs" using cs(2) by (metis set_mset_mset)
  have "length cs = length rs" "distinct (map nodeIdx cs)"
    using cs(2) rs mset_distinct_map [OF cs(2), of nodeIdx] by (auto simp: results_ok_def dest: mset_eq_length)
  moreover have "cs \<noteq> []" using rs calculation(1) by (auto simp: results_ok_def)
  moreover have "searchLayer E ctx c h q ep ef l vt ok = Inr (cs, vt')" by (simp add: searchLayer_def d b(1) cs_def)
  moreover have "ep \<in> nodeIdx ` set cs" if "?x \<in> set cs" using imageI [OF that, of nodeIdx] by simp
  ultimately show ?thesis using b(2) cs(1) rs
    by (auto simp: beam_done_def results_ok_def set simp del: image_iff)
qed

subsection \<open>Updating links\<close>

definition all_links :: "'f HNSWIndex \<Rightarrow> bool" where
  "all_links h \<longleftrightarrow> (\<forall>i < length (nodes h). links_ok h i)"

definition node_shape :: "hnode \<Rightarrow> u64 \<times> int \<times> nat" where
  "node_shape n = (nd_id n, nd_level n, length (friends n))"

definition same_shape :: "'f HNSWIndex \<Rightarrow> 'f HNSWIndex \<Rightarrow> bool" where
  \<comment> \<open>only neighbour lists differ\<close>
  "same_shape h h' \<longleftrightarrow> h'\<lparr>nodes := []\<rparr> = h\<lparr>nodes := []\<rparr> \<and> map node_shape (nodes h') = map node_shape (nodes h)"

lemma same_shape_refl [simp]: "same_shape h h"
  by (simp add: same_shape_def)

lemma same_shape_trans: "same_shape h h1 \<Longrightarrow> same_shape h1 h2 \<Longrightarrow> same_shape h h2"
  by (simp add: same_shape_def)

lemma same_shape_fields:
  assumes "same_shape h h'"
  shows "hn_dim h' = hn_dim h" "hn_metric h' = hn_metric h" "distFn h' = distFn h" "hn_m h' = hn_m h" "mMax0 h' = mMax0 h"
    "efConstruction h' = efConstruction h" "efSearch h' = efSearch h" "mL h' = mL h" "maxLevel h' = maxLevel h"
    "entryPoint h' = entryPoint h" "idToNode h' = idToNode h" "vectorSlab h' = vectorSlab h"
    "vectorOffsets h' = vectorOffsets h" "rng h' = rng h" "deleted h' = deleted h" "snapshotPath h' = snapshotPath h"
    "snapshotSeqID h' = snapshotSeqID h" "dirty h' = dirty h"
proof -
  have eq: "h'\<lparr>nodes := []\<rparr> = h\<lparr>nodes := []\<rparr>" using assms by (simp add: same_shape_def)
  show "hn_dim h' = hn_dim h" using arg_cong [OF eq, of hn_dim] by simp
  show "hn_metric h' = hn_metric h" using arg_cong [OF eq, of hn_metric] by simp
  show "distFn h' = distFn h" using arg_cong [OF eq, of distFn] by simp
  show "hn_m h' = hn_m h" using arg_cong [OF eq, of hn_m] by simp
  show "mMax0 h' = mMax0 h" using arg_cong [OF eq, of mMax0] by simp
  show "efConstruction h' = efConstruction h" using arg_cong [OF eq, of efConstruction] by simp
  show "efSearch h' = efSearch h" using arg_cong [OF eq, of efSearch] by simp
  show "mL h' = mL h" using arg_cong [OF eq, of mL] by simp
  show "maxLevel h' = maxLevel h" using arg_cong [OF eq, of maxLevel] by simp
  show "entryPoint h' = entryPoint h" using arg_cong [OF eq, of entryPoint] by simp
  show "idToNode h' = idToNode h" using arg_cong [OF eq, of idToNode] by simp
  show "vectorSlab h' = vectorSlab h" using arg_cong [OF eq, of vectorSlab] by simp
  show "vectorOffsets h' = vectorOffsets h" using arg_cong [OF eq, of vectorOffsets] by simp
  show "rng h' = rng h" using arg_cong [OF eq, of rng] by simp
  show "deleted h' = deleted h" using arg_cong [OF eq, of deleted] by simp
  show "snapshotPath h' = snapshotPath h" using arg_cong [OF eq, of snapshotPath] by simp
  show "snapshotSeqID h' = snapshotSeqID h" using arg_cong [OF eq, of snapshotSeqID] by simp
  show "dirty h' = dirty h" using arg_cong [OF eq, of dirty] by simp
qed

lemma same_shapeD:
  assumes "same_shape h h'"
  shows "length (nodes h') = length (nodes h)" "on_layer h' l i = on_layer h l i" "params_ok h' = params_ok h"
    "store_ok h' = store_ok h" "layer_cap h' l = layer_cap h l" "vec h' i = vec h i" "ndist E h' q i = ndist E h q i"
    "i < length (nodes h) \<Longrightarrow> nd_id (nodes h' ! i) = nd_id (nodes h ! i)"
    "i < length (nodes h) \<Longrightarrow> nd_level (nodes h' ! i) = nd_level (nodes h ! i)"
proof -
  note fields = same_shape_fields [OF assms]
  have m: "map node_shape (nodes h') = map node_shape (nodes h)" using assms by (simp add: same_shape_def)
  show len: "length (nodes h') = length (nodes h)" using m by (rule map_eq_imp_length_eq)
  have nth: "node_shape (nodes h' ! i) = node_shape (nodes h ! i)" if "i < length (nodes h)" for i
    using m that len by (metis nth_map)
  show "on_layer h' l i = on_layer h l i" using nth [of i] len by (auto simp: on_layer_def node_shape_def)
  show "i < length (nodes h) \<Longrightarrow> nd_id (nodes h' ! i) = nd_id (nodes h ! i)"
    "i < length (nodes h) \<Longrightarrow> nd_level (nodes h' ! i) = nd_level (nodes h ! i)" using nth [of i] by (auto simp: node_shape_def)
  show "params_ok h' = params_ok h" "store_ok h' = store_ok h" "layer_cap h' l = layer_cap h l" "vec h' i = vec h i"
    "ndist E h' q i = ndist E h q i"
    by (simp_all add: params_ok_def store_ok_def len layer_cap_def vec_def ndist_def fields)
qed

definition upd_friends :: "nat \<Rightarrow> nat \<Rightarrow> nat list \<Rightarrow> 'f HNSWIndex \<Rightarrow> 'f HNSWIndex" where
  "upd_friends i lc fs h = h\<lparr>nodes := (nodes h)[i := (nodes h ! i)\<lparr>friends := (friends (nodes h ! i))[lc := fs]\<rparr>]\<rparr>"

lemma set_friends_ok: "on_layer h lc i \<Longrightarrow> set_friends i lc fs h = Inr (upd_friends i lc fs h)"
  by (simp add: set_friends_def on_layer_def get_at_def put_at_def upd_friends_def)

lemma get_friends_ok: "on_layer h lc i \<Longrightarrow> get_friends h i lc = Inr (friends (nodes h ! i) ! lc)"
  by (simp add: get_friends_def on_layer_def get_at_def)

lemma upd_friends_shape: "same_shape h (upd_friends i lc fs h)"
proof -
  have "map node_shape ((nodes h)[i := n\<lparr>friends := (friends n)[lc := fs]\<rparr>]) = map node_shape (nodes h)" if "n = nodes h ! i" for n
    using that by (cases "i < length (nodes h)"; intro nth_equalityI) (auto simp: nth_list_update node_shape_def)
  then show ?thesis by (simp add: same_shape_def upd_friends_def)
qed

lemma upd_friends_twice: "i < length (nodes h) \<Longrightarrow> upd_friends i lc gs (upd_friends i lc fs h) = upd_friends i lc gs h"
  by (simp add: upd_friends_def)

lemma upd_friends_links:
  fixes h :: "'f::linordered_field HNSWIndex"
  assumes "all_links h" "on_layer h lc i" "length fs \<le> layer_cap h lc" "\<forall>f \<in> set fs. on_layer h lc f"
  shows "all_links (upd_friends i lc fs h)"
  unfolding all_links_def
proof (intro allI impI)
  let ?h = "upd_friends i lc fs h"
  note sh = same_shapeD [OF upd_friends_shape [of h i lc fs]]
  fix j assume "j < length (nodes ?h)"
  then have j: "j < length (nodes h)" using sh(1) by simp
  then have l: "links_ok h j" using assms(1) by (simp add: all_links_def)
  have fr: "friends (nodes ?h ! j) = (if j = i then (friends (nodes h ! i))[lc := fs] else friends (nodes h ! j))"
    using j by (simp add: upd_friends_def nth_list_update)
  show "links_ok ?h j"
    using l assms(2-4) unfolding links_ok_def sh(2,5) sh(9) [OF j] fr
    by (auto simp: nth_list_update on_layer_def)
qed

subsection \<open>Insertion\<close>

lemma closer_than_ok:
  "store_ok h \<Longrightarrow> set rs \<subseteq> {..<length (nodes h)} \<Longrightarrow> \<exists>b. closer_than E h cv d rs = Inr b"
  by (induction rs) (auto simp: node_dist_node)

lemma select_loop_ok:
  assumes "store_ok h" "\<forall>c \<in> set cs. nodeIdx c < length (nodes h)" "set rs \<subseteq> {..<length (nodes h)}" "length rs \<le> m"
  shows "\<exists>rs'. select_loop E h m cs rs = Inr rs' \<and> set rs' \<subseteq> set rs \<union> nodeIdx ` set cs \<and> length rs' \<le> m"
  using assms(2-4)
proof (induction cs arbitrary: rs)
  case (Cons c cs)
  show ?case
  proof (cases "length rs \<ge> m")
    case False
    have "nodeVector h (nodeIdx c) = Inr (vec h (nodeIdx c))"
      using Cons.prems(1) store_okD(2) [OF assms(1)] by (intro nodeVector_ok [OF assms(1)]) simp
    moreover obtain b where "closer_than E h (vec h (nodeIdx c)) (dist c) rs = Inr b"
      using closer_than_ok [OF assms(1) Cons.prems(2)] by blast
    ultimately have eq: "select_loop E h m (c # cs) rs = select_loop E h m cs (if b then rs else rs @ [nodeIdx c])"
      using False by simp
    have "\<exists>rs'. select_loop E h m cs (if b then rs else rs @ [nodeIdx c]) = Inr rs' \<and>
        set rs' \<subseteq> set (if b then rs else rs @ [nodeIdx c]) \<union> nodeIdx ` set cs \<and> length rs' \<le> m"
      using Cons.prems False by (intro Cons.IH) auto
    then show ?thesis unfolding eq by (auto split: if_splits)
  qed (use Cons.prems in auto)
qed auto

lemma selectNeighbors_ok:
  assumes "store_ok h" "\<forall>c \<in> set cs. nodeIdx c < length (nodes h)"
  shows "\<exists>rs. selectNeighborsHeuristic E h cs m = Inr rs \<and> set rs \<subseteq> nodeIdx ` set cs \<and> length rs \<le> m"
proof (cases "length cs \<le> m")
  case False
  then show ?thesis using select_loop_ok [OF assms, of "[]" m E] by (auto simp: selectNeighborsHeuristic_def)
qed (auto simp: selectNeighborsHeuristic_def)

lemma prune_candidates_ok:
  "store_ok h \<Longrightarrow> set fs \<subseteq> {..<length (nodes h)} \<Longrightarrow> \<exists>cs. prune_candidates E h v fs = Inr cs \<and> map nodeIdx cs = fs"
  by (induction fs) (auto simp: node_dist_node)

lemma pruneConnections_ok:
  assumes "store_ok h" "set fs \<subseteq> {..<length (nodes h)}" "slice_sorter near (csort E)"
  shows "\<exists>rs. pruneConnections E h v fs m = Inr rs \<and> set rs \<subseteq> set fs \<and> length rs \<le> m"
proof (cases "length fs \<le> m")
  case False
  obtain cs where cs: "prune_candidates E h v fs = Inr cs" "map nodeIdx cs = fs"
    using prune_candidates_ok [OF assms(1,2)] by blast
  have s: "set (csort E cs) = set cs" using assms(3) by (rule slice_sorter.set_srt)
  have i: "nodeIdx ` set cs = set fs" using cs(2) by (metis list.set_map)
  have "\<forall>c \<in> set (csort E cs). nodeIdx c < length (nodes h)" using s i assms(2) by auto
  from selectNeighbors_ok [OF assms(1) this, of E m] show ?thesis
    using False cs(1) s i by (simp add: pruneConnections_def)
qed (auto simp: pruneConnections_def)

lemma link_back_ok:
  assumes E: "slice_sorter near (csort E)" and new: "on_layer h lc new" and nbs: "\<forall>nb \<in> set nbs. on_layer h lc nb"
    and h: "store_ok h" "all_links h" "0 < layer_cap h lc"
  shows "\<exists>h'. link_back E new lc (layer_cap h lc) nbs h = Inr h' \<and> same_shape h h' \<and> all_links h'"
  using new nbs h
proof (induction nbs arbitrary: h)
  case (Cons nb nbs)
  let ?m = "layer_cap h lc"
  define fs where "fs = friends (nodes h ! nb) ! lc"
  have nb: "on_layer h lc nb" "nb < length (nodes h)" using Cons.prems(2) on_layer_node by auto
  have fs: "length fs \<le> ?m" "\<forall>f \<in> set fs. on_layer h lc f"
  proof -
    have "links_ok h nb" "lc < length (friends (nodes h ! nb))" using Cons.prems(4) nb by (simp_all add: all_links_def on_layer_def)
    then show "length fs \<le> ?m" "\<forall>f \<in> set fs. on_layer h lc f" unfolding links_ok_def fs_def by blast+
  qed
  let ?gs = "fs @ [new]"
  have gs: "\<forall>f \<in> set ?gs. on_layer h lc f" using fs Cons.prems(1) by auto
  let ?h1 = "upd_friends nb lc ?gs h"
  note sh1 = same_shapeD [OF upd_friends_shape [of h nb lc ?gs]]
  have "\<exists>gs'. (if length ?gs > ?m then go_bind (nodeVector ?h1 nb) (\<lambda>v. go_bind (pruneConnections E ?h1 v ?gs ?m) (\<lambda>fs'. set_friends nb lc fs' ?h1))
      else Inr ?h1) = Inr (upd_friends nb lc gs' h) \<and> length gs' \<le> ?m \<and> set gs' \<subseteq> set ?gs"
  proof (cases "length ?gs > ?m")
    case True
    have "store_ok ?h1" using Cons.prems(3) sh1(4) by simp
    moreover have "set ?gs \<subseteq> {..<length (nodes ?h1)}" using gs sh1(1) on_layer_node by fastforce
    ultimately obtain rs where "pruneConnections E ?h1 (vec ?h1 nb) ?gs ?m = Inr rs" "set rs \<subseteq> set ?gs" "length rs \<le> ?m"
      using pruneConnections_ok [OF _ _ E] by blast
    moreover have "nodeVector ?h1 nb = Inr (vec ?h1 nb)"
      using nb(2) sh1(1) by (intro nodeVector_ok(1) [OF \<open>store_ok ?h1\<close>] store_okD(2) [OF \<open>store_ok ?h1\<close>]) simp
    moreover have "set_friends nb lc rs ?h1 = Inr (upd_friends nb lc rs h)"
      using set_friends_ok [of ?h1 lc nb rs] sh1(2) nb upd_friends_twice [OF nb(2)] by simp
    ultimately show ?thesis using True by auto
  qed auto
  then obtain gs' where g: "(if length ?gs > ?m then go_bind (nodeVector ?h1 nb) (\<lambda>v. go_bind (pruneConnections E ?h1 v ?gs ?m) (\<lambda>fs'. set_friends nb lc fs' ?h1))
      else Inr ?h1) = Inr (upd_friends nb lc gs' h)" "length gs' \<le> ?m" "set gs' \<subseteq> set ?gs" by blast
  let ?h2 = "upd_friends nb lc gs' h"
  note sh2 = same_shapeD [OF upd_friends_shape [of h nb lc gs']]
  have "all_links ?h2" using g(2,3) gs by (intro upd_friends_links Cons.prems(4) nb(1)) auto
  then have "\<exists>h'. link_back E new lc (layer_cap ?h2 lc) nbs ?h2 = Inr h' \<and> same_shape ?h2 h' \<and> all_links h'"
    using Cons.prems sh2(2,4,5) by (intro Cons.IH) auto
  then obtain h' where h': "link_back E new lc ?m nbs ?h2 = Inr h'" "same_shape ?h2 h'" "all_links h'" using sh2(5) by auto
  have "link_back E new lc ?m (nb # nbs) h = Inr h'"
    unfolding link_back.simps get_friends_ok [OF nb(1)] go_bind.simps fs_def [symmetric] set_friends_ok [OF nb(1)] g(1) by (rule h'(1))
  then show ?case using h' same_shape_trans [OF upd_friends_shape] by blast
qed simp

lemma insert_layers_ok:
  assumes E: "env_ok E" and h: "params_ok h" "store_ok h" "all_links h" and v: "length v = hn_dim h" "tracker_ok vt"
    and ep: "\<forall>l < n. on_layer h l ep" and new: "\<forall>l < n. on_layer h l new"
  shows "\<exists>h' vt'. insert_layers E v new n ep vt h = Inr (h', vt') \<and> same_shape h h' \<and> all_links h' \<and> tracker_ok vt'"
  using h v ep new
proof (induction n arbitrary: ep vt h)
  case (Suc lc)
  note E = env_okD [OF E]
  have lk: "\<forall>i < length (nodes h). links_ok h i" using Suc.prems(3) by (simp add: all_links_def)
  have "on_layer h lc ep" using Suc.prems(6) by blast
  moreover have "closed_under h (\<lambda>_. True) lc UNIV" by (simp add: closed_under_def)
  moreover have "tracker_ok (nextGen vt)" using Suc.prems(5) nextGen_clean clean_ok by blast
  ultimately obtain cs vt1 where s: "searchLayer E (\<lambda>_. None) 0 h v ep (efConstruction h) lc (nextGen vt) pass_all = Inr (cs, vt1)"
    "\<forall>x \<in> set cs. true_cand E h v lc x" "cs \<noteq> []" "tracker_ok vt1"
    using searchLayer_ok [OF E(1) Suc.prems(1,2) lk filters_pass_all(1) Suc.prems(4), of "efConstruction h" lc UNIV ep "nextGen vt" False
        "\<lambda>_. None" 0] paramsD(4) [OF Suc.prems(1)] by auto
  have cl: "\<forall>c \<in> set cs. on_layer h lc (nodeIdx c)" using s(2) by (auto simp: true_cand_def)
  let ?m = "layer_cap h lc"
  obtain nbs where nbs: "selectNeighborsHeuristic E h cs ?m = Inr nbs" "set nbs \<subseteq> nodeIdx ` set cs" "length nbs \<le> ?m"
    using selectNeighbors_ok [OF Suc.prems(2), of cs E ?m] cl on_layer_node by blast
  have nl: "\<forall>nb \<in> set nbs. on_layer h lc nb" using nbs(2) cl by auto
  have ol: "on_layer h lc new" using Suc.prems(7) by blast
  let ?h1 = "upd_friends new lc nbs h"
  note sh1 = same_shapeD [OF upd_friends_shape [of h new lc nbs]]
  have l1: "all_links ?h1" by (rule upd_friends_links [OF Suc.prems(3) ol nbs(3) nl])
  have "0 < layer_cap h lc" using paramsD [OF Suc.prems(1)] by (simp add: layer_cap_def)
  then obtain h2 where h2: "link_back E new lc ?m nbs ?h1 = Inr h2" "same_shape ?h1 h2" "all_links h2"
    using link_back_ok [OF E(7), of ?h1 lc new nbs] ol nl Suc.prems(2) l1 sh1 by auto
  have sh: "same_shape h h2" by (rule same_shape_trans [OF upd_friends_shape h2(2)])
  note sh2 = same_shapeD [OF sh] same_shape_fields [OF sh]
  let ?ep = "nodeIdx (hd cs)"
  have "on_layer h2 lc ?ep" using cl s(3) sh2(2) by simp
  then have "\<forall>l < lc. on_layer h2 l ?ep" using on_layer_lower less_imp_le by blast
  moreover have "\<forall>l < lc. on_layer h2 l new" using sh2(2) Suc.prems(7) by auto
  ultimately obtain h' vt' where r: "insert_layers E v new lc ?ep vt1 h2 = Inr (h', vt')" "same_shape h2 h'" "all_links h'" "tracker_ok vt'"
    using Suc.IH [of h2 vt1 ?ep] Suc.prems(1,2,4) h2(3) s(4) sh2 by auto
  have "(case cs of [] \<Rightarrow> ep | c # _ \<Rightarrow> nodeIdx c) = ?ep" using s(3) by (cases cs) auto
  then have "insert_layers E v new (Suc lc) ep vt h = Inr (h', vt')"
    using r(1) h2(1) nbs(1) set_friends_ok [OF ol]
    by (simp add: s(1) Let_def layer_cap_def [symmetric])
  then show ?case using r sh same_shape_trans by blast
qed auto

definition core :: "'f HNSWIndex \<Rightarrow> _" where
  \<comment> \<open>the fields the graph's well-formedness depends on\<close>
  "core h = (nodes h, hn_dim h, hn_metric h, distFn h, hn_m h, mMax0 h, efConstruction h, efSearch h, mL h, vectorSlab h, vectorOffsets h)"

lemma core_cong:
  assumes "core h' = core h"
  shows "params_ok h' = params_ok h" "store_ok h' = store_ok h" "all_links h' = all_links h" "on_layer h' l i = on_layer h l i"
    "links_ok h' i = links_ok h i" "vec h' i = vec h i" "layer_cap h' l = layer_cap h l"
  using assms by (auto simp: core_def params_ok_def store_ok_def all_links_def on_layer_def links_ok_def vec_def layer_cap_def)

lemma append_node_ok:
  assumes "params_ok h" "store_ok h" "all_links h" "length v = hn_dim h" "0 \<le> level"
  shows "params_ok (append_node i v level h)" "store_ok (append_node i v level h)" "all_links (append_node i v level h)"
    "on_layer h l j \<Longrightarrow> on_layer (append_node i v level h) l j"
    "l \<le> nat level \<Longrightarrow> on_layer (append_node i v level h) l (length (nodes h))"
proof -
  let ?h = "append_node i v level h"
  show on: "on_layer h l j \<Longrightarrow> on_layer ?h l j" for l j by (auto simp: on_layer_def append_node_def nth_append)
  show "l \<le> nat level \<Longrightarrow> on_layer ?h l (length (nodes h))" using assms(5) by (auto simp: on_layer_def append_node_def)
  show "params_ok ?h" using assms(1) by (simp add: params_ok_def append_node_def)
  show "store_ok ?h" using assms(2,4) by (auto simp: store_ok_def append_node_def)
  show "all_links ?h" unfolding all_links_def
  proof (intro allI impI)
    fix j assume j: "j < length (nodes ?h)"
    have cap: "layer_cap ?h l = layer_cap h l" for l by (simp add: layer_cap_def append_node_def)
    show "links_ok ?h j"
    proof (cases "j < length (nodes h)")
      case True
      then have "nodes ?h ! j = nodes h ! j" "links_ok h j" using assms(3) by (simp_all add: append_node_def nth_append all_links_def)
      then show ?thesis using on unfolding links_ok_def cap by auto
    next
      case False
      then have "nodes ?h ! j = \<lparr>nd_id = i, nd_level = level, friends = replicate (nat (level + 1)) []\<rparr>"
        using j by (simp add: append_node_def nth_append less_Suc_eq)
      then show ?thesis using assms(5) by (simp add: links_ok_def)
    qed
  qed
qed

lemma randomLevel_ok:
  assumes "env_ok E" "params_ok h"
  shows "\<exists>level. randomLevel E h = (level, h\<lparr>rng := rng h + 1\<rparr>) \<and> 0 \<le> level"
proof -
  note E = env_okD [OF assms(1)]
  define r where "r = (if rnd E (rng h) = 0 then 1 / 10 ^ 15 else rnd E (rng h))"
  have "0 < r" "r < 1" using E(2,3) [of "rng h"] unfolding r_def by (simp_all add: less_le)
  then have "logf E r \<le> 0" by (rule E(4))
  then have "0 \<le> - logf E r * mL h" using paramsD(6) [OF assms(2)] mult_nonpos_nonneg by fastforce
  then have "0 \<le> trunc E (- logf E r * mL h)" by (rule E(6))
  then show ?thesis by (simp add: randomLevel_def Let_def r_def [symmetric])
qed

text \<open>What a successful insertion leaves: one node more, in the slab at the end.\<close>

definition inserted :: "u64 \<Rightarrow> 'f list \<Rightarrow> 'f HNSWIndex \<Rightarrow> 'f HNSWIndex \<Rightarrow> bool" where
  "inserted i v h h' \<longleftrightarrow> map nd_id (nodes h') = map nd_id (nodes h) @ [i] \<and> idToNode h' = (idToNode h)(i \<mapsto> length (nodes h)) \<and>
     vectorSlab h' = vectorSlab h @ v \<and> vectorOffsets h' = vectorOffsets h @ [length (vectorSlab h)] \<and> deleted h' = deleted h \<and>
     hn_dim h' = hn_dim h \<and> hn_metric h' = hn_metric h \<and> distFn h' = distFn h \<and> dirty h' = dirty h \<and>
     efSearch h' = efSearch h \<and> hn_m h' = hn_m h \<and> mMax0 h' = mMax0 h \<and> snapshotPath h' = snapshotPath h \<and> snapshotSeqID h' = snapshotSeqID h"

lemma shape_ids: "same_shape h h' \<Longrightarrow> map nd_id (nodes h') = map nd_id (nodes h)"
  for h :: "'f::linordered_field HNSWIndex"
  using same_shapeD(1,8) [of h h'] by (intro nth_equalityI) auto

lemma insertLocked_ok:
  assumes E: "env_ok E" and inv: "graph_inv h" and v: "length v = hn_dim h" "tracker_ok vt"
  shows "\<exists>e h' vt'. insertLocked E i v vt h = Inr (e, h', vt') \<and> graph_inv h' \<and> tracker_ok vt' \<and>
    (if \<exists>j. idToNode h i = Some j \<and> j \<notin> deleted h then e = Some (Newf ErrDuplicateID) \<and> h' = h else e = None \<and> inserted i v h h')"
proof (cases "\<exists>j. idToNode h i = Some j \<and> j \<notin> deleted h")
  case True
  then show ?thesis using inv v(2) by (auto simp: insertLocked_def)
next
  case False
  then have nodup: "(case idToNode h i of None \<Rightarrow> False | Some j \<Rightarrow> j \<notin> deleted h) = False" by (auto split: option.split)
  define h1 where "h1 = (if i \<in> dom (idToNode h) then h\<lparr>idToNode := (idToNode h)(i := None)\<rparr> else h)"
  have n1: "nodes h1 = nodes h" by (simp add: h1_def)
  have h1: "params_ok h1" "store_ok h1" "all_links h1"
  proof -
    have "core h1 = core h" by (simp add: h1_def core_def)
    from core_cong(1-3) [OF this] show "params_ok h1" "store_ok h1" "all_links h1"
      using graph_invD(1-3) [OF inv] by (simp_all add: all_links_def)
  qed
  obtain level where lev: "randomLevel E h1 = (level, h1\<lparr>rng := rng h1 + 1\<rparr>)" "0 \<le> level"
    using randomLevel_ok [OF E h1(1)] by blast
  define h2 where "h2 = h1\<lparr>rng := rng h1 + 1\<rparr>"
  have h2: "params_ok h2" "store_ok h2" "all_links h2" "nodes h2 = nodes h" "length v = hn_dim h2"
  proof -
    have "core h2 = core h1" by (simp add: h2_def core_def)
    from core_cong(1-3) [OF this] show "params_ok h2" "store_ok h2" "all_links h2" using h1 by simp_all
  qed (use n1 v(1) in \<open>simp_all add: h2_def h1_def\<close>)
  define h3 where "h3 = append_node i v level h2"
  note h3 = append_node_ok [OF h2(1,2,3,5) lev(2), where i = i, folded h3_def]
  have f3: "entryPoint h3 = entryPoint h" "maxLevel h3 = maxLevel h" "idToNode h3 = (idToNode h)(i \<mapsto> length (nodes h))"
    "nodes h3 = nodes h @ [\<lparr>nd_id = i, nd_level = level, friends = replicate (nat (level + 1)) []\<rparr>]" "hn_dim h3 = hn_dim h"
    by (simp_all add: h3_def append_node_def h2_def h1_def)
  have ins3: "inserted i v h h3" by (simp add: inserted_def h3_def append_node_def h2_def h1_def)
  have eq: "insertLocked E i v vt h = (case entryPoint h3 of
      None \<Rightarrow> Inr (None, h3\<lparr>entryPoint := Some (length (nodes h)), maxLevel := level\<rparr>, vt)
    | Some ep \<Rightarrow> go_bind (descend (greedyClosest E h3 v) (maxLevel h3) level ep) (\<lambda>ep.
        go_bind (insert_layers E v (length (nodes h)) (nat (min level (maxLevel h3) + 1)) ep vt h3) (\<lambda>(h', vt').
          Inr (None, if level > maxLevel h' then h'\<lparr>maxLevel := level, entryPoint := Some (length (nodes h))\<rparr> else h', nextGen vt'))))"
    using lev(2) unfolding insertLocked_def nodup if_False h1_def [symmetric] Let_def lev(1) h2_def [symmetric] split_conv
      h3_def [symmetric] h2(4)
    by (simp add: f3(4) not_less)
  have new: "on_layer h3 l (length (nodes h))" if "l \<le> nat level" for l using h3(5) [OF that] by (simp add: h2(4))
  show ?thesis
  proof (cases "entryPoint h")
    case None
    let ?h = "h3\<lparr>entryPoint := Some (length (nodes h)), maxLevel := level\<rparr>"
    have "params_ok ?h" "store_ok ?h" "all_links ?h"
    proof -
      have "core ?h = core h3" by (simp add: core_def)
      from core_cong(1-3) [OF this] show "params_ok ?h" "store_ok ?h" "all_links ?h" using h3(1-3) by simp_all
    qed
    then have "graph_inv ?h" by (simp add: graph_inv_def all_links_def f3(4))
    moreover have "inserted i v h ?h" using ins3 by (simp add: inserted_def)
    ultimately show ?thesis using False eq None v(2) f3(1) by auto
  next
    case (Some e)
    have e: "e < length (nodes h)" "maxLevel h = nd_level (nodes h ! e)" "links_ok h e"
      using graph_invD [OF inv] Some by blast+
    then have M: "0 \<le> maxLevel h3" "on_layer h2 (nat (maxLevel h3)) e"
      using f3(2) by (auto simp: links_ok_def on_layer_def h2(4))
    have e3: "graph_inv h3"
      using h3(1-3) e f3 Some by (simp add: graph_inv_def all_links_def nth_append)
    obtain ep where ep: "descend (greedyClosest E h3 v) (maxLevel h3) level e = Inr ep"
      "on_layer h3 (nat (min (maxLevel h3) (level + 1))) ep"
      using descend_ok [of h3 "greedyClosest E h3 v" level "maxLevel h3" e] greedyClosest_ok [OF e3] lev(2) M h3(4) [OF M(2)] by auto
    let ?n = "nat (min level (maxLevel h3) + 1)"
    have "on_layer h3 l ep" "on_layer h3 l (length (nodes h))" if "l < ?n" for l
    proof -
      have "l \<le> nat (min (maxLevel h3) (level + 1))" "l \<le> nat level" using that by auto
      then show "on_layer h3 l ep" "on_layer h3 l (length (nodes h))" using on_layer_lower [OF ep(2)] new by blast+
    qed
    then obtain h4 vt4 where h4: "insert_layers E v (length (nodes h)) ?n ep vt h3 = Inr (h4, vt4)" "same_shape h3 h4" "all_links h4" "tracker_ok vt4"
      using insert_layers_ok [OF E h3(1,2,3) _ v(2), of v ?n ep "length (nodes h)"] v(1) f3(5) by auto
    note sh = same_shapeD [OF h4(2)] same_shape_fields [OF h4(2)]
    have ins4: "inserted i v h h4" using ins3 shape_ids [OF h4(2)] by (simp add: inserted_def sh)
    define h5 where "h5 = (if level > maxLevel h4 then h4\<lparr>maxLevel := level, entryPoint := Some (length (nodes h))\<rparr> else h4)"
    have n5: "nodes h5 = nodes h4" by (simp add: h5_def)
    have "params_ok h5" "store_ok h5" "all_links h5"
    proof -
      have "core h5 = core h4" by (simp add: h5_def core_def)
      from core_cong(1-3) [OF this] show "params_ok h5" "store_ok h5" "all_links h5" using h3(1,2) h4(3) sh(3,4) by simp_all
    qed
    moreover have "nd_level (nodes h4 ! length (nodes h)) = level" "nd_level (nodes h4 ! e) = maxLevel h"
      using sh(9) [of "length (nodes h)"] sh(9) [of e] e f3(4) by (simp_all add: nth_append)
    ultimately have "graph_inv h5" using e(1) f3 Some by (simp add: graph_inv_def all_links_def n5 sh h5_def)
    moreover have "inserted i v h h5" using ins4 by (simp add: inserted_def h5_def)
    moreover have "insertLocked E i v vt h = Inr (None, h5, nextGen vt4)"
      unfolding eq using Some f3(1) ep(1) h4(1) by (simp add: h5_def)
    moreover have "tracker_ok (nextGen vt4)" using h4(4) nextGen_clean clean_ok by blast
    ultimately show ?thesis using False by auto
  qed
qed

end
