(* ===== verification/Hnsw_Index.thy ===== *)
theory Hnsw_Index
  imports Hnsw_Invariant
begin

section \<open>The HNSW index\<close>

text \<open>
  Models the operations of \<open>HNSWIndex\<close> in \<open>internal/index/hnsw/hnsw.go\<close> over the graph of theory
  \<open>Hnsw_Graph\<close>: inserts that go to the dirty buffer, the drain that applies them, soft deletion, the three
  searches with the brute-force search of the buffer, \<open>Rebuild\<close> and export. A locked operation is atomic;
  \<open>pool n\<close> is the tracker that \<open>visitedPool\<close> hands out at the \<open>n\<close>-th request of an operation, and
  \<open>OnDrain\<close> is the client's reaction to the map that a drain returns.
\<close>

subsection \<open>Updates\<close>

definition hn_Insert :: "u64 \<Rightarrow> 'f list \<Rightarrow> 'f HNSWIndex \<Rightarrow> 'f HNSWIndex \<times> error option" where
  "hn_Insert vid v h =
     (if length v \<noteq> hn_dim h then (h, Some (Newf ErrDimensionMismatch)) else (h\<lparr>dirty := dirty h @ [(vid, v)]\<rparr>, None))"

fun drain_loop ::
  "'f hnsw_env \<Rightarrow> (nat \<Rightarrow> visitedTracker) \<Rightarrow> nat \<Rightarrow> (u64 \<times> 'f list) list \<Rightarrow> 'f::linordered_field HNSWIndex \<Rightarrow> (u64 \<rightharpoonup> nat) \<Rightarrow>
    ('f HNSWIndex \<times> (u64 \<rightharpoonup> nat)) go" where
  \<comment> \<open>\<open>for _, p := range batch\<close>; a refused insertion is dropped\<close>
  "drain_loop E pool n [] h drained = Inr (h, drained)"
| "drain_loop E pool n ((vid, v) # ps) h drained =
     go_bind (insertLocked E vid v (pool n) h) (\<lambda>(e, h', _).
       drain_loop E pool (n + 1) ps h' (if e = None then drained(vid \<mapsto> length (nodes h)) else drained))"

definition drainDirtyBuffer ::
  "'f hnsw_env \<Rightarrow> (nat \<Rightarrow> visitedTracker) \<Rightarrow> 'f::linordered_field HNSWIndex \<Rightarrow> ('f HNSWIndex \<times> (u64 \<rightharpoonup> nat)) go" where
  "drainDirtyBuffer E pool h =
     (if dirty h = [] then Inr (h, Map.empty) else drain_loop E pool 0 (dirty h) (h\<lparr>dirty := []\<rparr>) Map.empty)"

definition applier_tick ::
  "'f hnsw_env \<Rightarrow> (nat \<Rightarrow> visitedTracker) \<Rightarrow> 'f::linordered_field HNSWIndex \<Rightarrow> 'f HNSWIndex go" where
  \<comment> \<open>one \<open><-ticker.C\<close> of \<open>backgroundApplier\<close>\<close>
  "applier_tick E pool h = (if 0 < length (dirty h) then go_bind (drainDirtyBuffer E pool h) (\<lambda>(h, _). Inr h) else Inr h)"

definition hn_Close ::
  "'f hnsw_env \<Rightarrow> (nat \<Rightarrow> visitedTracker) \<Rightarrow> 'f::linordered_field HNSWIndex \<Rightarrow> 'f HNSWIndex go" where
  \<comment> \<open>after the applier has stopped\<close>
  "hn_Close E pool h = go_bind (drainDirtyBuffer E pool h) (\<lambda>(h, _). Inr h)"

definition hn_Delete :: "u64 \<Rightarrow> 'f HNSWIndex \<Rightarrow> 'f HNSWIndex \<times> error option" where
  "hn_Delete vid h =
     (case idToNode h vid of None \<Rightarrow> (h, Some (Newf ErrVectorNotFound))
      | Some i \<Rightarrow> (h\<lparr>deleted := insert i (deleted h)\<rparr>, None))"

definition hn_Len :: "'f HNSWIndex \<Rightarrow> int" where
  "hn_Len h = int (length (nodes h)) - int (card (deleted h)) + int (length (dirty h))"

definition NodeIndex :: "u64 \<Rightarrow> 'f HNSWIndex \<Rightarrow> int \<times> bool" where
  "NodeIndex vid h =
     (case idToNode h vid of None \<Rightarrow> (- 1, False) | Some i \<Rightarrow> if i \<in> deleted h then (- 1, False) else (int i, True))"

fun live_nodes :: "'f HNSWIndex \<Rightarrow> nat list \<Rightarrow> (u64 \<times> 'f list) list go" where
  "live_nodes h [] = Inr []"
| "live_nodes h (i # is) =
     (if i \<in> deleted h then live_nodes h is
      else go_bind (get_at (nodes h) i) (\<lambda>n. go_bind (nodeVector h i) (\<lambda>v. go_bind (live_nodes h is) (\<lambda>rest.
        Inr ((nd_id n, v) # rest)))))"

fun reinsert ::
  "'f hnsw_env \<Rightarrow> (nat \<Rightarrow> visitedTracker) \<Rightarrow> nat \<Rightarrow> (u64 \<times> 'f list) list \<Rightarrow> 'f::linordered_field HNSWIndex \<Rightarrow>
    ('f HNSWIndex \<times> error option) go" where
  "reinsert E pool n [] h = Inr (h, None)"
| "reinsert E pool n ((vid, v) # ps) h =
     go_bind (insertLocked E vid v (pool n) h) (\<lambda>(e, h, _). if e \<noteq> None then Inr (h, e) else reinsert E pool (n + 1) ps h)"

definition hn_Rebuild ::
  "'f hnsw_env \<Rightarrow> (nat \<Rightarrow> visitedTracker) \<Rightarrow> (nat \<Rightarrow> visitedTracker) \<Rightarrow> 'f::linordered_field HNSWIndex \<Rightarrow> ('f HNSWIndex \<times> error option) go" where
  \<comment> \<open>a new source of random numbers goes on with the sequence \<open>rnd\<close>\<close>
  "hn_Rebuild E pool pool' h =
     go_bind (drainDirtyBuffer E pool h) (\<lambda>(h, _).
       if card (deleted h) = 0 then Inr (h, None)
       else go_bind (live_nodes h [0..<length (nodes h)]) (\<lambda>live.
         reinsert E pool' 0 live (h\<lparr>nodes := [], idToNode := Map.empty, deleted := {}, maxLevel := - 1, entryPoint := None\<rparr>)))"

fun hn_ExportVectors :: "u64 list \<Rightarrow> 'f HNSWIndex \<Rightarrow> (u64 \<times> 'f list) list go" where
  \<comment> \<open>the first argument is the iteration order of \<open>idToNode\<close>\<close>
  "hn_ExportVectors [] h = Inr []"
| "hn_ExportVectors (vid # order) h =
     (let i = map_get 0 (idToNode h) vid in
      if i \<in> deleted h then hn_ExportVectors order h
      else go_bind (nodeVector h i) (\<lambda>v. go_bind (hn_ExportVectors order h) (\<lambda>rest. Inr ((vid, v) # rest))))"

definition SetSnapshotPath :: "string \<Rightarrow> 'f HNSWIndex \<Rightarrow> 'f HNSWIndex" where
  "SetSnapshotPath path h = h\<lparr>snapshotPath := path\<rparr>"

definition SetSnapshotSeqID :: "u64 \<Rightarrow> 'f HNSWIndex \<Rightarrow> 'f HNSWIndex" where
  "SetSnapshotSeqID seqID h = h\<lparr>snapshotSeqID := seqID\<rparr>"

definition SetDistanceFunc :: "string \<Rightarrow> 'f HNSWIndex \<Rightarrow> error option \<times> 'f HNSWIndex" where
  "SetDistanceFunc metric h =
     (case GetDistanceFunc metric of None \<Rightarrow> (Some (OtherError ''distance: unknown metric'' None), h)
      | Some fn \<Rightarrow> (None, h\<lparr>hn_metric := metric, distFn := fn\<rparr>))"

subsection \<open>Search\<close>

definition with_scores :: "'f hnsw_env \<Rightarrow> 'f::linordered_field HNSWIndex \<Rightarrow> 'f SearchResult list \<Rightarrow> 'f SearchResult list" where
  "with_scores E h = map (\<lambda>r. r\<lparr>Score := ScoreFromDistance (rt32 (plat E)) (Distance r) (hn_metric h)\<rparr>)"

definition search_pending ::
  "'f hnsw_env \<Rightarrow> 'f::linordered_field HNSWIndex \<Rightarrow> 'f list \<Rightarrow> nat \<Rightarrow> (u64 \<times> 'f list) list \<Rightarrow> 'f SearchResult list go" where
  \<comment> \<open>brute force over (the selected part of) the dirty buffer\<close>
  "search_pending E h q k ps =
     (if ps = [] then Inr []
      else go_bind (BatchDistance (plat E) q (concat (map snd ps)) (length ps) (hn_dim h) (hn_metric h) (replicate (length ps) 0))
        (\<lambda>dists. Inr (with_scores E h (take k (rsort E (map2 result_of (map fst ps) dists))))))"

definition searchDirtyBuffer where
  "searchDirtyBuffer E h q k = search_pending E h q k (dirty h)"

definition searchDirtyBufferFiltered where
  "searchDirtyBufferFiltered E h q k validIDs = search_pending E h q k (filter (\<lambda>(vid, _). vid \<in> validIDs) (dirty h))"

definition searchDirtyBufferBitmap where
  \<comment> \<open>pending vectors have no node index: the filter is not applied\<close>
  "searchDirtyBufferBitmap E h q k bits = search_pending E h q k (dirty h)"

definition mergeResults :: "'f hnsw_env \<Rightarrow> 'f SearchResult list \<Rightarrow> 'f SearchResult list \<Rightarrow> nat \<Rightarrow> 'f SearchResult list" where
  "mergeResults E main dirt k = take k (rsort E (main @ dirt))"

function descend_ctx ::
  "(nat \<Rightarrow> error option) \<Rightarrow> nat \<Rightarrow> (nat \<Rightarrow> nat \<Rightarrow> nat go) \<Rightarrow> int \<Rightarrow> nat \<Rightarrow> (error + nat \<times> nat) go" where
  \<comment> \<open>\<open>for lc := h.maxLevel; lc >= 1; lc--\<close>: the entry point found and how often \<open>ctx\<close> was asked\<close>
  "descend_ctx ctx c step lc ep =
     (if lc \<ge> 1 then
        (case ctx c of Some e \<Rightarrow> Inr (Inl e)
         | None \<Rightarrow> go_bind (step ep (nat lc)) (\<lambda>ep. descend_ctx ctx (c + 1) step (lc - 1) ep))
      else Inr (Inr (ep, c)))"
  by pat_completeness auto
termination
  by (relation "measure (\<lambda>(ctx, c, step, lc, ep). nat lc)") auto

declare descend_ctx.simps [simp del]

fun pick_results :: "'f::zero HNSWIndex \<Rightarrow> nat set \<Rightarrow> nat \<Rightarrow> 'f candidate list \<Rightarrow> 'f SearchResult list \<Rightarrow> 'f SearchResult list go" where
  \<comment> \<open>the first \<open>k\<close> candidates outside \<open>skip\<close>\<close>
  "pick_results h skip k [] results = Inr results"
| "pick_results h skip k (c # cs) results =
     (if nodeIdx c \<in> skip then pick_results h skip k cs results
      else go_bind (get_at (nodes h) (nodeIdx c)) (\<lambda>n.
        let results = results @ [result_of (nd_id n) (dist c)] in
        if length results \<ge> k then Inr results else pick_results h skip k cs results))"

definition search_ef :: "'f HNSWIndex \<Rightarrow> int \<Rightarrow> int \<Rightarrow> nat" where
  "search_ef h k nprobe =
     (let ef = (if nprobe > 0 then nat nprobe else efSearch h) in if ef < nat k then nat k else ef)"

definition search_graph ::
  "'f hnsw_env \<Rightarrow> (nat \<Rightarrow> error option) \<Rightarrow> visitedTracker \<Rightarrow> 'f::linordered_field HNSWIndex \<Rightarrow> 'f list \<Rightarrow> int \<Rightarrow> int \<Rightarrow>
    (nat \<Rightarrow> nat \<Rightarrow> nat go) \<Rightarrow> (nat \<Rightarrow> nat \<Rightarrow> nat \<Rightarrow> visitedTracker \<Rightarrow> ('f candidate list \<times> visitedTracker) go) \<Rightarrow> nat set \<Rightarrow>
    'f SearchResult list \<Rightarrow> (error + 'f SearchResult list) go" where
  \<comment> \<open>the part of the three searches after the dirty buffer: descent, beam search of layer 0, extraction, merge\<close>
  "search_graph E ctx vt h q k nprobe step layer0 skip dirtyResults =
     (case entryPoint h of
        None \<Rightarrow> Inr (Inr dirtyResults)
      | Some ep \<Rightarrow>
          go_bind (descend_ctx ctx 0 step (maxLevel h) ep) (\<lambda>r.
            case r of Inl e \<Rightarrow> Inr (Inl e)
            | Inr (ep, c) \<Rightarrow>
                go_bind (layer0 c ep (search_ef h k nprobe) vt) (\<lambda>(candidates, _).
                go_bind (pick_results h skip (nat k) candidates []) (\<lambda>results.
                  let results = with_scores E h results in
                  Inr (Inr (if dirtyResults \<noteq> [] then mergeResults E results dirtyResults (nat k) else results))))))"

definition hn_Search ::
  "'f hnsw_env \<Rightarrow> (nat \<Rightarrow> error option) \<Rightarrow> visitedTracker \<Rightarrow> 'f list \<Rightarrow> int \<Rightarrow> int \<Rightarrow> 'f::linordered_field HNSWIndex \<Rightarrow>
    (error + 'f SearchResult list) go" where
  "hn_Search E ctx vt q k nprobe h =
     (if length q \<noteq> hn_dim h then Inr (Inl (Newf ErrDimensionMismatch))
      else if k \<le> 0 then Inr (Inr [])
      else go_bind (searchDirtyBuffer E h q (nat k)) (\<lambda>dirtyResults.
        search_graph E ctx vt h q k nprobe (\<lambda>ep lc. greedyClosest E h q ep lc)
          (\<lambda>c ep ef vt. searchLayer E ctx c h q ep ef 0 vt pass_all) (deleted h) dirtyResults))"

definition SearchFiltered ::
  "'f hnsw_env \<Rightarrow> (nat \<Rightarrow> error option) \<Rightarrow> visitedTracker \<Rightarrow> 'f list \<Rightarrow> int \<Rightarrow> int \<Rightarrow> u64 set \<Rightarrow> 'f::linordered_field HNSWIndex \<Rightarrow>
    (error + 'f SearchResult list) go" where
  "SearchFiltered E ctx vt q k nprobe validIDs h =
     (if length q \<noteq> hn_dim h then Inr (Inl (Newf ErrDimensionMismatch))
      else if k \<le> 0 \<or> validIDs = {} then Inr (Inr [])
      else go_bind (searchDirtyBufferFiltered E h q (nat k) validIDs) (\<lambda>dirtyResults.
        search_graph E ctx vt h q k nprobe (\<lambda>ep lc. greedyClosestFiltered E h validIDs q ep lc)
          (\<lambda>c ep ef vt. searchLayer E ctx c h q ep ef 0 vt (valid_id h validIDs)) {} dirtyResults))"

definition SearchFilteredBitmap ::
  "'f hnsw_env \<Rightarrow> (nat \<Rightarrow> error option) \<Rightarrow> visitedTracker \<Rightarrow> 'f list \<Rightarrow> int \<Rightarrow> int \<Rightarrow> nat set option \<Rightarrow> 'f::linordered_field HNSWIndex \<Rightarrow>
    (error + 'f SearchResult list) go" where
  "SearchFilteredBitmap E ctx vt q k nprobe bits h =
     (if length q \<noteq> hn_dim h then Inr (Inl (Newf ErrDimensionMismatch))
      else case bits of None \<Rightarrow> Inr (Inr [])
      | Some bits \<Rightarrow>
          if k \<le> 0 \<or> bits = {} then Inr (Inr [])
          else go_bind (searchDirtyBufferBitmap E h q (nat k) bits) (\<lambda>dirtyResults.
            search_graph E ctx vt h q k nprobe (\<lambda>ep lc. greedyClosestBitmap E h bits q ep lc)
              (\<lambda>c ep ef vt. searchLayerBitmap E ctx c h q ep ef 0 vt bits) {} dirtyResults))"

subsection \<open>Invariant and abstraction\<close>

definition ids_ok :: "'f HNSWIndex \<Rightarrow> bool" where
  "ids_ok h \<longleftrightarrow> (\<forall>i j. idToNode h i = Some j \<longrightarrow> j < length (nodes h) \<and> nd_id (nodes h ! j) = i) \<and>
     (\<forall>j < length (nodes h). j \<notin> deleted h \<longrightarrow> idToNode h (nd_id (nodes h ! j)) = Some j) \<and> deleted h \<subseteq> {..<length (nodes h)}"

definition hn_inv :: "'f::linordered_field HNSWIndex \<Rightarrow> bool" where
  "hn_inv h \<longleftrightarrow> graph_inv h \<and> ids_ok h \<and> (\<forall>(i, v) \<in> set (dirty h). length v = hn_dim h)"

definition exact :: "'f HNSWIndex \<Rightarrow> bool" where
  \<comment> \<open>node \<open>i\<close> has the \<open>i\<close>-th offset; \<open>Rebuild\<close> destroys this\<close>
  "exact h \<longleftrightarrow> length (vectorOffsets h) = length (nodes h)"

definition hn_vecs :: "'f HNSWIndex \<Rightarrow> 'f store" where
  \<comment> \<open>what the graph stores\<close>
  "hn_vecs h = (\<lambda>i. case idToNode h i of None \<Rightarrow> None | Some j \<Rightarrow> if j \<in> deleted h then None else Some (vec h j))"

definition spec_drain :: "nat \<Rightarrow> (u64 \<times> 'f list) list \<Rightarrow> 'f store \<Rightarrow> 'f store" where
  "spec_drain d ps m = fold (\<lambda>(i, v) m. fst (spec_Insert d i v m)) ps m"

lemma hn_invD:
  assumes "hn_inv h"
  shows "graph_inv h" "ids_ok h" "(i, v) \<in> set (dirty h) \<Longrightarrow> length v = hn_dim h"
  using assms by (auto simp: hn_inv_def)

lemma graph_inv_core:
  assumes "core h' = core h" "entryPoint h' = entryPoint h" "maxLevel h' = maxLevel h"
  shows "graph_inv h' = graph_inv h"
proof -
  have n: "nodes h' = nodes h" using assms(1) by (simp add: core_def)
  show ?thesis unfolding graph_inv_def core_cong(1,2,5) [OF assms(1)] assms(2,3) n by (rule refl)
qed

lemma vec_upd [simp]: "vec (h\<lparr>dirty := x\<rparr>) i = vec h i" "vec (h\<lparr>deleted := y\<rparr>) i = vec h i"
  by (simp_all add: vec_def)

lemma ids_okD:
  assumes "ids_ok h"
  shows "idToNode h i = Some j \<Longrightarrow> j < length (nodes h)" "idToNode h i = Some j \<Longrightarrow> nd_id (nodes h ! j) = i"
    "j < length (nodes h) \<Longrightarrow> j \<notin> deleted h \<Longrightarrow> idToNode h (nd_id (nodes h ! j)) = Some j"
    "j \<in> deleted h \<Longrightarrow> j < length (nodes h)" "finite (deleted h)"
  using assms finite_subset [of "deleted h" "{..<length (nodes h)}"] unfolding ids_ok_def by auto

lemma inserted_vec:
  assumes "inserted i v h h'" "store_ok h" "j < length (vectorOffsets h)"
  shows "vec h' j = vec h j"
proof -
  have "vectorOffsets h ! j + hn_dim h \<le> length (vectorSlab h)" by (rule store_okD(1) [OF assms(2,3)])
  then show ?thesis using assms(1,3) by (simp add: vec_def inserted_def nth_append)
qed

lemma inserted_ids:
  assumes ins: "inserted i v h h'" and ok: "ids_ok h" and fresh: "\<nexists>j. idToNode h i = Some j \<and> j \<notin> deleted h"
  shows "ids_ok h'"
proof -
  have ids: "map nd_id (nodes h') = map nd_id (nodes h) @ [i]" "idToNode h' = (idToNode h)(i \<mapsto> length (nodes h))" "deleted h' = deleted h"
    using ins by (simp_all add: inserted_def)
  have len: "length (nodes h') = Suc (length (nodes h))" using ids(1) by (metis length_append_singleton length_map)
  have nth: "nd_id (nodes h' ! j) = (if j < length (nodes h) then nd_id (nodes h ! j) else i)" if "j < Suc (length (nodes h))" for j
  proof -
    have "nd_id (nodes h' ! j) = (map nd_id (nodes h) @ [i]) ! j" using that len ids(1) by (metis nth_map)
    then show ?thesis using that by (cases "j = length (nodes h)") (simp_all add: nth_append)
  qed
  have no: "nd_id (nodes h ! j) \<noteq> i" if "j < length (nodes h)" "j \<notin> deleted h" for j
    using ids_okD(3) [OF ok that] fresh that by auto
  have del: "length (nodes h) \<notin> deleted h" using ids_okD(4) [OF ok] by blast
  show ?thesis
    unfolding ids_ok_def len ids(2,3)
  proof (intro conjI allI impI)
    fix a j assume "((idToNode h)(i \<mapsto> length (nodes h))) a = Some j"
    then have "(a = i \<and> j = length (nodes h)) \<or> (a \<noteq> i \<and> idToNode h a = Some j)" by (auto split: if_splits)
    then show "j < Suc (length (nodes h))" "nd_id (nodes h' ! j) = a" using ids_okD(1,2) [OF ok, of a j] nth [of j] by auto
  next
    fix j assume "j < Suc (length (nodes h))" "j \<notin> deleted h"
    then show "((idToNode h)(i \<mapsto> length (nodes h))) (nd_id (nodes h' ! j)) = Some j"
      using nth [of j] no [of j] ids_okD(3) [OF ok, of j] by (auto simp: less_Suc_eq)
  next
    show "deleted h \<subseteq> {..<Suc (length (nodes h))}" using ids_okD(4) [OF ok] by force
  qed
qed

lemma inserted_vecs:
  assumes ins: "inserted i v h h'" and ok: "ids_ok h" "store_ok h" "exact h" and v: "length v = hn_dim h"
  shows "exact h'" "hn_vecs h' = (hn_vecs h)(i \<mapsto> v)"
proof -
  have f: "idToNode h' = (idToNode h)(i \<mapsto> length (nodes h))" "deleted h' = deleted h"
    "vectorOffsets h' = vectorOffsets h @ [length (vectorSlab h)]" "map nd_id (nodes h') = map nd_id (nodes h) @ [i]"
    using ins by (simp_all add: inserted_def)
  show "exact h'" using ok(3) f(3,4) unfolding exact_def by (metis length_append_singleton length_map)
  have new: "vec h' (length (nodes h)) = v"
    using ins ok(3) v by (simp add: vec_def inserted_def exact_def nth_append)
  have old: "vec h' j = vec h j" if "idToNode h a = Some j" for a j
    using inserted_vec [OF ins ok(2)] ids_okD(1) [OF ok(1) that] ok(3) by (simp add: exact_def)
  have "length (nodes h) \<notin> deleted h" using ids_okD(4) [OF ok(1)] by blast
  then show "hn_vecs h' = (hn_vecs h)(i \<mapsto> v)"
    using new old by (auto simp: hn_vecs_def f fun_eq_iff split: option.split)
qed

lemma dom_hn_vecs: "i \<in> dom (hn_vecs h) \<longleftrightarrow> (\<exists>j. idToNode h i = Some j \<and> j \<notin> deleted h)"
  by (auto simp: hn_vecs_def split: option.splits if_splits)

lemma insertLocked_inv:
  assumes "env_ok E" "hn_inv h" "length v = hn_dim h" "tracker_ok vt"
  shows "\<exists>e h' vt'. insertLocked E i v vt h = Inr (e, h', vt') \<and> hn_inv h' \<and> hn_dim h' = hn_dim h \<and> dirty h' = dirty h \<and> deleted h' = deleted h \<and>
    (e = None \<longleftrightarrow> i \<notin> dom (hn_vecs h)) \<and> (e = None \<longrightarrow> inserted i v h h') \<and>
    dom (idToNode h') = insert i (dom (idToNode h)) \<and>
    (exact h \<longrightarrow> exact h' \<and> hn_vecs h' = fst (spec_Insert (hn_dim h) i v (hn_vecs h)))"
proof -
  note inv = hn_invD [OF assms(2)]
  obtain e h' vt' where r: "insertLocked E i v vt h = Inr (e, h', vt')" "graph_inv h'"
    "if \<exists>j. idToNode h i = Some j \<and> j \<notin> deleted h then e = Some (Newf ErrDuplicateID) \<and> h' = h else e = None \<and> inserted i v h h'"
    using insertLocked_ok [OF assms(1) inv(1) assms(3,4)] by blast
  show ?thesis
  proof (cases "i \<in> dom (hn_vecs h)")
    case True
    then have "e = Some (Newf ErrDuplicateID)" "h' = h" using r(3) dom_hn_vecs [of i h] by auto
    moreover have "i \<in> dom (idToNode h)" using True dom_hn_vecs [of i h] by blast
    ultimately show ?thesis using r(1) True assms(2,3) by (auto simp: spec_Insert_def)
  next
    case False
    then have ins: "e = None" "inserted i v h h'" using r(3) dom_hn_vecs [of i h] by auto
    have fr: "\<nexists>j. idToNode h i = Some j \<and> j \<notin> deleted h" using False dom_hn_vecs [of i h] by blast
    have "hn_inv h'" using r(2) inserted_ids [OF ins(2) inv(2) fr] ins(2) inv(3) by (auto simp: hn_inv_def inserted_def)
    moreover have "exact h \<longrightarrow> exact h' \<and> hn_vecs h' = fst (spec_Insert (hn_dim h) i v (hn_vecs h))"
      using inserted_vecs [OF ins(2) inv(2) graph_invD(2) [OF inv(1)] _ assms(3)] False assms(3) by (auto simp: spec_Insert_def)
    moreover have "dom (idToNode h') = insert i (dom (idToNode h))" using ins(2) by (simp add: inserted_def)
    ultimately show ?thesis using r(1) ins False by (simp add: inserted_def)
  qed
qed

lemma drain_loop_ok:
  assumes "env_ok E" "\<forall>n. tracker_ok (pool n)"
  shows "hn_inv h \<Longrightarrow> \<forall>(i, v) \<in> set ps. length v = hn_dim h \<Longrightarrow>
    \<exists>h' dr. drain_loop E pool n ps h dr0 = Inr (h', dr) \<and> hn_inv h' \<and> hn_dim h' = hn_dim h \<and> dirty h' = dirty h \<and> deleted h' = deleted h \<and>
      dom (idToNode h') = dom (idToNode h) \<union> fst ` set ps \<and>
      (exact h \<longrightarrow> exact h' \<and> hn_vecs h' = spec_drain (hn_dim h) ps (hn_vecs h))"
proof (induction ps arbitrary: n h dr0)
  case (Cons p ps)
  obtain i v where p: "p = (i, v)" by fastforce
  have v: "length v = hn_dim h" using Cons.prems(2) p by auto
  obtain e h1 vt1 where 1: "insertLocked E i v (pool n) h = Inr (e, h1, vt1)" "hn_inv h1" "hn_dim h1 = hn_dim h" "dirty h1 = dirty h"
    "deleted h1 = deleted h" "dom (idToNode h1) = insert i (dom (idToNode h))" "exact h \<longrightarrow> exact h1 \<and> hn_vecs h1 = fst (spec_Insert (hn_dim h) i v (hn_vecs h))"
    using insertLocked_inv [OF assms(1) Cons.prems(1) v] assms(2) by blast
  have "\<forall>(i, v) \<in> set ps. length v = hn_dim h1" using Cons.prems(2) 1(3) by auto
  then obtain h' dr where IH: "drain_loop E pool (n + 1) ps h1 (if e = None then dr0(i \<mapsto> length (nodes h)) else dr0) = Inr (h', dr)"
    "hn_inv h'" "hn_dim h' = hn_dim h1" "dirty h' = dirty h1" "deleted h' = deleted h1"
    "dom (idToNode h') = dom (idToNode h1) \<union> fst ` set ps" "exact h1 \<longrightarrow> exact h' \<and> hn_vecs h' = spec_drain (hn_dim h1) ps (hn_vecs h1)"
    using Cons.IH [OF 1(2), of "n + 1" "if e = None then dr0(i \<mapsto> length (nodes h)) else dr0"] by blast
  have "drain_loop E pool n (p # ps) h dr0 = Inr (h', dr)" using IH(1) 1(1) by (simp add: p)
  moreover have "exact h \<longrightarrow> exact h' \<and> hn_vecs h' = spec_drain (hn_dim h) (p # ps) (hn_vecs h)"
    using IH(7) 1(3,7) by (auto simp: spec_drain_def p)
  moreover have "dom (idToNode h') = dom (idToNode h) \<union> fst ` set (p # ps)" using IH(6) 1(6) by (auto simp: p)
  ultimately show ?case using IH(2-5) 1(3-5) by auto
qed (auto simp: spec_drain_def)

lemma drain_ok:
  assumes "env_ok E" "\<forall>n. tracker_ok (pool n)" "hn_inv h"
  shows "\<exists>h' dr. drainDirtyBuffer E pool h = Inr (h', dr) \<and> hn_inv h' \<and> hn_dim h' = hn_dim h \<and> dirty h' = [] \<and> deleted h' = deleted h \<and>
      dom (idToNode h') = dom (idToNode h) \<union> fst ` set (dirty h) \<and>
      (exact h \<longrightarrow> exact h' \<and> hn_vecs h' = spec_drain (hn_dim h) (dirty h) (hn_vecs h))"
proof (cases "dirty h = []")
  case True
  then show ?thesis using assms(3) by (auto simp: drainDirtyBuffer_def spec_drain_def)
next
  case False
  let ?h = "h\<lparr>dirty := []\<rparr>"
  have c: "core ?h = core h" by (simp add: core_def)
  have "graph_inv ?h" using hn_invD(1) [OF assms(3)] graph_inv_core [OF c] by simp
  moreover have "ids_ok ?h" using hn_invD(2) [OF assms(3)] by (simp add: ids_ok_def)
  ultimately have inv: "hn_inv ?h" by (simp add: hn_inv_def)
  have e: "exact ?h = exact h" "hn_vecs ?h = hn_vecs h" by (auto simp: exact_def hn_vecs_def fun_eq_iff split: option.split)
  have "\<forall>(i, v) \<in> set (dirty h). length v = hn_dim ?h" using hn_invD(3) [OF assms(3)] by auto
  from drain_loop_ok [OF assms(1,2) inv this, of 0 Map.empty] show ?thesis using False e by (auto simp: drainDirtyBuffer_def)
qed

lemma inserted_dom:
  assumes "inserted i v h h'" "ids_ok h"
  shows "dom (hn_vecs h') = insert i (dom (hn_vecs h))"
  using assms(1) ids_okD(4) [OF assms(2), of "length (nodes h)"] by (auto simp: set_eq_iff dom_hn_vecs inserted_def)

lemma drain_loop_dom:
  assumes "env_ok E" "\<forall>n. tracker_ok (pool n)"
  shows "hn_inv h \<Longrightarrow> \<forall>(i, v) \<in> set ps. length v = hn_dim h \<Longrightarrow> drain_loop E pool n ps h dr0 = Inr (h', dr) \<Longrightarrow>
    dom (hn_vecs h') = dom (hn_vecs h) \<union> fst ` set ps"
proof (induction ps arbitrary: n h dr0)
  case (Cons p ps)
  obtain i v where p: "p = (i, v)" by fastforce
  have v: "length v = hn_dim h" using Cons.prems(2) p by auto
  obtain e h1 vt1 where 1: "insertLocked E i v (pool n) h = Inr (e, h1, vt1)" "hn_inv h1" "hn_dim h1 = hn_dim h"
    "if i \<in> dom (hn_vecs h) then h1 = h else inserted i v h h1"
  proof -
    obtain e h1 vt1 where "insertLocked E i v (pool n) h = Inr (e, h1, vt1)"
      "if \<exists>j. idToNode h i = Some j \<and> j \<notin> deleted h then e = Some (Newf ErrDuplicateID) \<and> h1 = h else e = None \<and> inserted i v h h1"
      using insertLocked_ok [OF assms(1) hn_invD(1) [OF Cons.prems(1)] v, of "pool n" i] assms(2) by blast
    moreover obtain h1' e' vt' where "insertLocked E i v (pool n) h = Inr (e', h1', vt')" "hn_inv h1'" "hn_dim h1' = hn_dim h"
      using insertLocked_inv [OF assms(1) Cons.prems(1) v, of "pool n" i] assms(2) by blast
    ultimately show thesis using that [of e h1 vt1] dom_hn_vecs [of i h] by (auto split: if_splits)
  qed
  have d: "dom (hn_vecs h1) = insert i (dom (hn_vecs h))"
    using 1(4) inserted_dom [OF _ hn_invD(2) [OF Cons.prems(1)], of i v h1] by (auto split: if_splits)
  have "\<forall>(i, v) \<in> set ps. length v = hn_dim h1" using Cons.prems(2) 1(3) by auto
  then have "dom (hn_vecs h') = dom (hn_vecs h1) \<union> fst ` set ps"
    using Cons.IH [OF 1(2)] Cons.prems(3) 1(1) by (simp add: p)
  then show ?case using d by (simp add: p)
qed simp

lemma drain_dom:
  assumes "env_ok E" "\<forall>n. tracker_ok (pool n)" "hn_inv h" "drainDirtyBuffer E pool h = Inr (h', dr)"
  shows "dom (hn_vecs h') = dom (hn_vecs h) \<union> fst ` set (dirty h)"
proof (cases "dirty h = []")
  case False
  let ?h = "h\<lparr>dirty := []\<rparr>"
  have c: "core ?h = core h" by (simp add: core_def)
  have "graph_inv ?h" using hn_invD(1) [OF assms(3)] graph_inv_core [OF c] by simp
  moreover have "ids_ok ?h" using hn_invD(2) [OF assms(3)] by (simp add: ids_ok_def)
  ultimately have inv: "hn_inv ?h" by (simp add: hn_inv_def)
  have "\<forall>(i, v) \<in> set (dirty h). length v = hn_dim ?h" using hn_invD(3) [OF assms(3)] by auto
  moreover have "hn_vecs ?h = hn_vecs h" by (auto simp: hn_vecs_def fun_eq_iff split: option.split)
  ultimately show ?thesis
    using drain_loop_dom [OF assms(1,2) inv] assms(4) False by (simp add: drainDirtyBuffer_def)
qed (use assms(4) in \<open>simp add: drainDirtyBuffer_def\<close>)

lemma hn_Delete_ok:
  assumes "hn_inv h"
  shows "hn_inv (fst (hn_Delete i h))" "hn_dim (fst (hn_Delete i h)) = hn_dim h" "dirty (fst (hn_Delete i h)) = dirty h"
    "exact (fst (hn_Delete i h)) = exact h" "hn_vecs (fst (hn_Delete i h)) = (hn_vecs h)(i := None)"
    "snd (hn_Delete i h) = (if i \<in> dom (idToNode h) then None else Some (Newf ErrVectorNotFound))"
proof -
  note ids = ids_okD [OF hn_invD(2) [OF assms]]
  have all: "hn_inv (fst (hn_Delete i h)) \<and> hn_vecs (fst (hn_Delete i h)) = (hn_vecs h)(i := None)"
  proof (cases "idToNode h i")
    case None
    then show ?thesis using assms by (auto simp: hn_Delete_def hn_vecs_def fun_eq_iff)
  next
    case (Some j)
    let ?h = "h\<lparr>deleted := insert j (deleted h)\<rparr>"
    have c: "core ?h = core h" by (simp add: core_def)
    have "graph_inv ?h" using hn_invD(1) [OF assms] graph_inv_core [OF c] by simp
    moreover have "ids_ok ?h" using ids(1) [OF Some] hn_invD(2) [OF assms] by (auto simp: ids_ok_def)
    ultimately have "hn_inv ?h" using hn_invD(3) [OF assms] by (auto simp: hn_inv_def)
    moreover have "hn_vecs ?h a = ((hn_vecs h)(i := None)) a" for a
    proof (cases "a = i")
      case False
      then have "idToNode h a \<noteq> Some j" using ids(2) [of a j] ids(2) [OF Some] by auto
      then show ?thesis using False by (auto simp: hn_vecs_def split: option.split)
    qed (simp add: hn_vecs_def Some)
    then have "hn_vecs ?h = (hn_vecs h)(i := None)" by (rule ext)
    ultimately show ?thesis using Some by (simp add: hn_Delete_def)
  qed
  then show "hn_inv (fst (hn_Delete i h))" "hn_vecs (fst (hn_Delete i h)) = (hn_vecs h)(i := None)" by blast+
qed (auto simp: hn_Delete_def exact_def split: option.split)

lemma hn_Insert_inv: "hn_inv h \<Longrightarrow> hn_inv (fst (hn_Insert i v h))"
proof -
  assume inv: "hn_inv h"
  have "core (h\<lparr>dirty := x\<rparr>) = core h" for x by (simp add: core_def)
  from graph_inv_core [OF this] show ?thesis
    using hn_invD [OF inv] by (auto simp: hn_Insert_def hn_inv_def ids_ok_def)
qed

lemma hn_Len_card:
  assumes "hn_inv h"
  shows "hn_Len h = int (card (dom (hn_vecs h))) + int (length (dirty h))"
proof -
  note ids = ids_okD [OF hn_invD(2) [OF assms]]
  let ?live = "{..<length (nodes h)} - deleted h"
  have "inj_on (\<lambda>j. nd_id (nodes h ! j)) ?live"
    by (rule inj_on_inverseI [of _ "\<lambda>i. the (idToNode h i)"]) (use ids(3) in auto)
  moreover have "dom (hn_vecs h) = (\<lambda>j. nd_id (nodes h ! j)) ` ?live"
    using ids(1-3) by (force simp: set_eq_iff dom_hn_vecs)
  ultimately have "card (dom (hn_vecs h)) = card ?live" by (simp add: card_image)
  also have "\<dots> = length (nodes h) - card (deleted h)" using ids(4,5) by (subst card_Diff_subset) auto
  finally have "card (dom (hn_vecs h)) = length (nodes h) - card (deleted h)" .
  moreover have "card (deleted h) \<le> length (nodes h)"
    using card_mono [of "{..<length (nodes h)}" "deleted h"] ids(4) by force
  ultimately show ?thesis by (simp add: hn_Len_def)
qed

subsection \<open>Searching\<close>

inductive_set reach :: "'f HNSWIndex \<Rightarrow> (nat \<Rightarrow> bool) \<Rightarrow> nat \<Rightarrow> nat \<Rightarrow> nat set" for h P l ep where
  start: "ep \<in> reach h P l ep"
| edge: "i \<in> reach h P l ep \<Longrightarrow> i < length (nodes h) \<Longrightarrow> f \<in> set (lfriends h l i) \<Longrightarrow> P f \<Longrightarrow> f \<in> reach h P l ep"

lemma reach_closed: "closed_under h P l (reach h P l ep)"
  by (auto simp: closed_under_def intro: reach.edge)

lemma reach_least:
  assumes "closed_under h P l C" "ep \<in> C"
  shows "reach h P l ep \<subseteq> C"
proof
  fix x assume "x \<in> reach h P l ep"
  then show "x \<in> C" by induction (use assms in \<open>auto simp: closed_under_def\<close>)
qed

definition hit :: "'f hnsw_env \<Rightarrow> 'f::linordered_field HNSWIndex \<Rightarrow> 'f list \<Rightarrow> nat \<Rightarrow> 'f SearchResult" where
  \<comment> \<open>the result a node stands for\<close>
  "hit E h q j = \<lparr>ID = nd_id (nodes h ! j), Distance = ndist E h q j,
     Score = ScoreFromDistance (rt32 (plat E)) (ndist E h q j) (hn_metric h)\<rparr>"

definition pending :: "'f hnsw_env \<Rightarrow> 'f::linordered_field HNSWIndex \<Rightarrow> 'f list \<Rightarrow> nat \<Rightarrow> (u64 \<times> 'f list) list \<Rightarrow> 'f SearchResult list" where
  "pending E h q k ps = with_scores E h (take k (rsort E (map (\<lambda>(i, v). result_of i (apply_metric (rt32 (plat E)) (distFn h) q v)) ps)))"

lemma search_pending_ok:
  assumes "env_ok E" "params_ok h" "length q = hn_dim h" "\<forall>(i, v) \<in> set ps. length v = hn_dim h"
  shows "search_pending E h q k ps = Inr (pending E h q k ps)"
proof (cases "ps = []")
  case True
  have "rsort E [] = []" using slice_sorter.length_srt [OF env_okD(8) [OF assms(1)], of "[]"] by simp
  then show ?thesis using True by (simp add: search_pending_def pending_def with_scores_def)
next
  case False
  have "BatchDistance (plat E) q (concat (map snd ps)) (length (map snd ps)) (hn_dim h) (hn_metric h) (replicate (length ps) 0) =
      Inr (map (apply_metric (rt32 (plat E)) (distFn h) q) (map snd ps))"
    using assms(3,4) by (intro batch_rows) (auto simp: env_okD(1) [OF assms(1)] paramsD [OF assms(2)])
  moreover have "map2 result_of (map fst ps) (map (apply_metric (rt32 (plat E)) (distFn h) q) (map snd ps)) =
      map (\<lambda>(i, v). result_of i (apply_metric (rt32 (plat E)) (distFn h) q v)) ps"
    by (induction ps) auto
  ultimately show ?thesis using False by (simp add: search_pending_def pending_def del: map_map)
qed

lemma pick_results_ok:
  assumes "\<forall>c \<in> set cs. nodeIdx c < length (nodes h)" "length acc < k"
  shows "pick_results h skip k cs acc =
    Inr (acc @ take (k - length acc) (map (\<lambda>c. result_of (nd_id (nodes h ! nodeIdx c)) (dist c)) (filter (\<lambda>c. nodeIdx c \<notin> skip) cs)))"
  using assms
proof (induction cs arbitrary: acc)
  case (Cons c cs)
  show ?case
  proof (cases "nodeIdx c \<in> skip")
    case False
    obtain m where m: "k - length acc = Suc m" using Cons.prems(2) by (metis Suc_diff_Suc)
    show ?thesis
    proof (cases "Suc (length acc) \<ge> k")
      case True
      then have "m = 0" using m by simp
      then show ?thesis using False True m Cons.prems(1) by (simp add: get_at_def Let_def)
    next
      case no: False
      have "k - Suc (length acc) = m" using m by simp
      then show ?thesis using False no m Cons.IH [of "acc @ [result_of (nd_id (nodes h ! nodeIdx c)) (dist c)]"] Cons.prems
        by (simp add: get_at_def Let_def)
    qed
  qed (use Cons in simp)
qed simp

lemma descend_ctx_total:
  assumes step: "\<And>ep l. on_layer h l ep \<Longrightarrow> \<exists>ep'. step ep l = Inr ep' \<and> on_layer h l ep'" and "0 \<le> lc" "on_layer h (nat lc) ep"
  shows "\<exists>r. descend_ctx ctx c step lc ep = Inr r \<and> (\<forall>ep' c'. r = Inr (ep', c') \<longrightarrow> on_layer h 0 ep')"
  using assms(2,3)
proof (induction "nat lc" arbitrary: lc ep c)
  case 0
  then show ?case by (subst descend_ctx.simps) simp
next
  case (Suc n)
  then have lc: "lc \<ge> 1" "n = nat (lc - 1)" by auto
  obtain ep1 where 1: "step ep (nat lc) = Inr ep1" "on_layer h (nat lc) ep1" using step Suc.prems by blast
  have "on_layer h (nat (lc - 1)) ep1" by (rule on_layer_lower [OF 1(2)]) simp
  then have "\<exists>r. descend_ctx ctx (c + 1) step (lc - 1) ep1 = Inr r \<and> (\<forall>ep' c'. r = Inr (ep', c') \<longrightarrow> on_layer h 0 ep')"
    using Suc.hyps(1) [OF lc(2), of ep1 "c + 1"] lc(1) by simp
  then show ?case using lc 1(1) by (subst descend_ctx.simps) (auto split: option.split)
qed

lemma descend_ctx_none:
  assumes "\<And>c. ctx c = None"
  shows "\<exists>c'. descend_ctx ctx c step lc ep = go_bind (descend step lc 0 ep) (\<lambda>ep'. Inr (Inr (ep', c')))"
proof (induction "nat lc" arbitrary: lc ep c)
  case 0
  then show ?case by (subst descend_ctx.simps, subst descend.simps) simp
next
  case (Suc n)
  then have lc: "lc \<ge> 1" "lc > 0" "n = nat (lc - 1)" by auto
  show ?case
  proof (cases "step ep (nat lc)")
    case (Inl p)
    then show ?thesis using lc assms by (subst descend_ctx.simps, subst descend.simps) simp
  next
    case (Inr ep1)
    then show ?thesis using lc assms Suc.hyps(1) [OF lc(3), of "c + 1" ep1]
      by (subst descend_ctx.simps, subst descend.simps) simp
  qed
qed

lemma entry_on_layer:
  assumes "graph_inv h" "entryPoint h = Some e"
  shows "0 \<le> maxLevel h" "on_layer h (nat (maxLevel h)) e"
proof -
  have "e < length (nodes h)" "maxLevel h = nd_level (nodes h ! e)" "links_ok h e" using graph_invD [OF assms(1)] assms(2) by blast+
  then show "0 \<le> maxLevel h" "on_layer h (nat (maxLevel h)) e" by (auto simp: links_ok_def on_layer_def)
qed

lemma search_ef_pos: "0 < k \<Longrightarrow> 0 < search_ef h k nprobe" "0 < k \<Longrightarrow> nat k \<le> search_ef h k nprobe"
  by (auto simp: search_ef_def Let_def)

lemma search_graph_total:
  assumes E: "env_ok E" and h: "hn_inv h" and q: "length q = hn_dim h" and k: "0 < k" and vt: "tracker_ok vt" and ok: "filters h ok P"
    and step: "\<And>ep l. on_layer h l ep \<Longrightarrow> \<exists>ep'. step ep l = Inr ep' \<and> on_layer h l ep'"
  shows "\<exists>r. search_graph E ctx vt h q k nprobe step (\<lambda>c ep ef vt. searchLayer E ctx c h q ep ef 0 vt ok) skip dr = Inr r"
proof (cases "entryPoint h")
  case (Some e)
  note inv = graph_invD [OF hn_invD(1) [OF h]]
  have L: "\<forall>i < length (nodes h). links_ok h i" using inv(3) by blast
  obtain r where r: "descend_ctx ctx 0 step (maxLevel h) e = Inr r" "\<And>ep c. r = Inr (ep, c) \<Longrightarrow> on_layer h 0 ep"
    using descend_ctx_total [where h = h and step = step, OF step entry_on_layer [OF hn_invD(1) [OF h] Some], where ctx = ctx and c = 0] by blast
  show ?thesis
  proof (cases r)
    case (Inr x)
    then obtain ep c where x: "r = Inr (ep, c)" by (cases x) auto
    have U: "closed_under h P 0 UNIV" by (simp add: closed_under_def)
    then obtain cs vt' where s: "searchLayer E ctx c h q ep (search_ef h k nprobe) 0 vt ok = Inr (cs, vt')" "\<forall>x \<in> set cs. true_cand E h q 0 x"
      using searchLayer_ok [OF env_okD(1) [OF E] inv(1,2) L ok q search_ef_pos(1) [OF k] U r(2) [OF x] UNIV_I vt, where all = False and ctx = ctx and c = c]
      by blast
    have "\<forall>c \<in> set cs. nodeIdx c < length (nodes h)" using s(2) by (auto simp: true_cand_def on_layer_def)
    then show ?thesis using Some r(1) x s(1) k by (simp add: search_graph_def pick_results_ok Let_def)
  qed (use Some r(1) in \<open>simp add: search_graph_def\<close>)
qed (simp add: search_graph_def)

text \<open>What a search of the graph that is not cancelled finds.\<close>

definition nearest_hits :: "'f hnsw_env \<Rightarrow> 'f::linordered_field HNSWIndex \<Rightarrow> 'f list \<Rightarrow> (nat \<Rightarrow> bool) \<Rightarrow> nat set \<Rightarrow> nat \<Rightarrow> nat \<Rightarrow> bool \<Rightarrow> nat list \<Rightarrow> bool" where
  \<comment> \<open>\<open>js\<close>: at most \<open>k\<close> distinct nodes reachable from \<open>ep\<close> outside \<open>skip\<close>, closest first; if \<open>all\<close>, no closer one is missing\<close>
  "nearest_hits E h q P skip k ep all js \<longleftrightarrow> distinct js \<and> length js \<le> k \<and> sorted (map (ndist E h q) js) \<and>
     set js \<subseteq> reach h P 0 ep - skip \<and> set js \<subseteq> {..<length (nodes h)} \<and>
     (all \<longrightarrow> (\<forall>i \<in> reach h P 0 ep - skip - set js. length js = k \<and> (\<forall>j \<in> set js. ndist E h q j \<le> ndist E h q i)))"

lemma search_graph_hits:
  assumes E: "env_ok E" and h: "hn_inv h" and q: "length q = hn_dim h" and k: "0 < k" and vt: "tracker_ok vt" and ok: "filters h ok P"
    and step: "\<And>ep l. on_layer h l ep \<Longrightarrow> \<exists>ep'. step ep l = Inr ep' \<and> on_layer h l ep'"
    and ctx: "\<And>c. ctx c = None" and e: "entryPoint h = Some e"
  shows "\<exists>ep js. descend step (maxLevel h) 0 e = Inr ep \<and> on_layer h 0 ep \<and>
    nearest_hits E h q P skip (nat k) ep (clean vt \<and> length (nodes h) \<le> search_ef h k nprobe) js \<and>
    search_graph E ctx vt h q k nprobe step (\<lambda>c ep ef vt. searchLayer E ctx c h q ep ef 0 vt ok) skip dr =
      Inr (Inr (if dr \<noteq> [] then mergeResults E (map (hit E h q) js) dr (nat k) else map (hit E h q) js))"
proof -
  note inv = graph_invD [OF hn_invD(1) [OF h]]
  note M = entry_on_layer [OF hn_invD(1) [OF h] e]
  obtain ep where ep: "descend step (maxLevel h) 0 e = Inr ep" "on_layer h (nat (min (maxLevel h) 1)) ep"
    using descend_ok [where h = h and step = step and low = 0 and lc = "maxLevel h" and ep = e, OF step] M by auto
  have o: "on_layer h 0 ep" by (rule on_layer_lower [OF ep(2)]) simp
  obtain c where d: "descend_ctx ctx 0 step (maxLevel h) e = Inr (Inr (ep, c))"
    using descend_ctx_none [of ctx 0 step "maxLevel h" e] ctx ep(1) by auto
  let ?all = "clean vt \<and> length (nodes h) \<le> search_ef h k nprobe"
  let ?R = "reach h P 0 ep"
  have L: "\<forall>i < length (nodes h). links_ok h i" using inv(3) by blast
  obtain cs vt' where s: "searchLayer E ctx c h q ep (search_ef h k nprobe) 0 vt ok = Inr (cs, vt')" "sorted (map dist cs)"
    "distinct (map nodeIdx cs)" "\<forall>x \<in> set cs. true_cand E h q 0 x \<and> nodeIdx x \<in> ?R"
    "?all \<longrightarrow> ep \<in> nodeIdx ` set cs \<and> closed_under h P 0 (nodeIdx ` set cs)"
    using searchLayer_ok [OF env_okD(1) [OF E] inv(1,2) L ok q search_ef_pos(1) [OF k] reach_closed o reach.start vt, where all = ?all and ctx = ctx and c = c] ctx
    by blast
  have n: "\<forall>c \<in> set cs. nodeIdx c < length (nodes h)" using s(4) by (auto simp: true_cand_def on_layer_def)
  define fs where "fs = filter (\<lambda>c. nodeIdx c \<notin> skip) cs"
  define ks where "ks = map nodeIdx fs"
  have dist_fs: "map dist fs = map (ndist E h q) ks" using s(4) by (auto simp: ks_def fs_def true_cand_def)
  have sk: "sorted (map (ndist E h q) ks)"
    using s(2) unfolding dist_fs [symmetric] fs_def sorted_map by (rule sorted_wrt_filter)
  have dk: "distinct ks" using s(3) unfolding ks_def fs_def by (rule distinct_map_filter)
  have setk: "set ks = nodeIdx ` set cs - skip" by (auto simp: ks_def fs_def)
  define js where "js = take (nat k) ks"
  have split: "ks = js @ drop (nat k) ks" by (simp add: js_def)
  have "nearest_hits E h q P skip (nat k) ep ?all js"
    unfolding nearest_hits_def
  proof (intro conjI impI ballI)
    show "distinct js" using dk by (simp add: js_def distinct_take)
    show "length js \<le> nat k" by (simp add: js_def)
    show "sorted (map (ndist E h q) js)" using sk by (simp add: js_def take_map [symmetric] sorted_wrt_take)
    have "set js \<subseteq> set ks" by (auto simp: js_def dest: in_set_takeD)
    then show "set js \<subseteq> ?R - skip" "set js \<subseteq> {..<length (nodes h)}" using setk s(4) n by auto
  next
    fix i assume all: ?all and i: "i \<in> ?R - skip - set js"
    then have "i \<in> set ks" using s(5) reach_least [of h P 0 "nodeIdx ` set cs" ep] setk by blast
    then have id: "i \<in> set (drop (nat k) ks)" using split i by (metis Diff_iff Un_iff set_append)
    then show "length js = nat k" by (cases "length ks \<le> nat k") (auto simp: js_def)
    fix j assume "j \<in> set js"
    then show "ndist E h q j \<le> ndist E h q i"
      using sk id split by (metis (no_types, lifting) imageI list.set_map map_append sorted_append)
  qed
  moreover have "with_scores E h (take (nat k) (map (\<lambda>c. result_of (nd_id (nodes h ! nodeIdx c)) (dist c)) fs)) = map (hit E h q) js"
  proof -
    have "map (\<lambda>c. result_of (nd_id (nodes h ! nodeIdx c)) (dist c)) fs = map (\<lambda>j. result_of (nd_id (nodes h ! j)) (ndist E h q j)) ks"
      using s(4) by (auto simp: ks_def fs_def true_cand_def)
    then show ?thesis by (simp add: take_map js_def with_scores_def hit_def result_of_def)
  qed
  then have "search_graph E ctx vt h q k nprobe step (\<lambda>c ep ef vt. searchLayer E ctx c h q ep ef 0 vt ok) skip dr =
      Inr (Inr (if dr \<noteq> [] then mergeResults E (map (hit E h q) js) dr (nat k) else map (hit E h q) js))"
    using k n by (simp add: search_graph_def e d s(1) pick_results_ok Let_def fs_def [symmetric])
  ultimately show ?thesis using ep(1) o by blast
qed

end
