(* ===== verification/Hnsw_System.thy ===== *)
theory Hnsw_System
  imports Hnsw_Index
begin

section \<open>Runs of the HNSW index\<close>

text \<open>
  The index of \<open>internal/index/hnsw/hnsw.go\<close> as a state machine: the writes a collection and the background
  applier make, in any order, from \<open>NewHNSWIndex\<close>. What every reachable state satisfies, what it stores, what
  the three searches return on it, and the places where the code does not do what it means to.
\<close>

subsection \<open>The three searches do not panic\<close>

definition trackers_ok :: "(nat \<Rightarrow> visitedTracker) \<Rightarrow> bool" where
  "trackers_ok pool \<longleftrightarrow> (\<forall>n. tracker_ok (pool n))"

lemma trackers_okD: "trackers_ok pool \<Longrightarrow> tracker_ok (pool n)"
  by (simp add: trackers_ok_def)

lemma node_stored:
  assumes "hn_inv h" "i < length (nodes h)"
  shows "nodeVector h i = Inr (vec h i)" "length (vec h i) = hn_dim h"
proof -
  have "store_ok h" by (rule graph_invD(2) [OF hn_invD(1) [OF assms(1)]])
  then show "nodeVector h i = Inr (vec h i)" "length (vec h i) = hn_dim h"
    using nodeVector_ok [of h i] assms(2) by (auto simp: store_ok_def)
qed

lemma search_pending_total:
  assumes "env_ok E" "hn_inv h" "length q = hn_dim h" "set ps \<subseteq> set (dirty h)"
  shows "search_pending E h q k ps = Inr (pending E h q k ps)"
  using assms(4) hn_invD(3) [OF assms(2)]
  by (intro search_pending_ok [OF assms(1) graph_invD(1) [OF hn_invD(1) [OF assms(2)]] assms(3)]) auto

lemma searches_total:
  assumes E: "env_ok E" and h: "hn_inv h" and vt: "tracker_ok vt"
  shows "\<exists>r. hn_Search E ctx vt q k nprobe h = Inr r" "\<exists>r. SearchFiltered E ctx vt q k nprobe S h = Inr r"
    "\<exists>r. SearchFilteredBitmap E ctx vt q k nprobe bits h = Inr r"
proof -
  note g = hn_invD(1) [OF h]
  show "\<exists>r. hn_Search E ctx vt q k nprobe h = Inr r"
  proof (cases "length q = hn_dim h \<and> 0 < k")
    case True
    then have q: "length q = hn_dim h" and k: "0 < k" by auto
    from search_graph_total [OF E h q k vt filters_pass_all(1) greedyClosest_ok [OF g]] show ?thesis
      by (simp add: hn_Search_def q k linorder_not_le [symmetric] searchDirtyBuffer_def search_pending_total [OF E h q])
  qed (auto simp: hn_Search_def)
  show "\<exists>r. SearchFiltered E ctx vt q k nprobe S h = Inr r"
  proof (cases "length q = hn_dim h \<and> 0 < k")
    case True
    then have q: "length q = hn_dim h" and k: "0 < k" by auto
    from search_graph_total [OF E h q k vt filters_valid_id filtered_descent_ok(1) [OF g]] show ?thesis
      using search_pending_total [OF E h q, of "filter (\<lambda>(vid, _). vid \<in> S) (dirty h)" "nat k"]
      by (auto simp: SearchFiltered_def q searchDirtyBufferFiltered_def)
  qed (auto simp: SearchFiltered_def)
  show "\<exists>r. SearchFilteredBitmap E ctx vt q k nprobe bits h = Inr r"
  proof (cases "length q = hn_dim h \<and> 0 < k \<and> bits \<noteq> None")
    case True
    then obtain B where q: "length q = hn_dim h" and k: "0 < k" and B: "bits = Some B" by auto
    from search_graph_total [OF E h q k vt filters_pass_all(2) filtered_descent_ok(2) [OF g]] show ?thesis
      by (auto simp: SearchFilteredBitmap_def q B searchLayerBitmap_def searchDirtyBufferBitmap_def search_pending_total [OF E h q])
  qed (auto simp: SearchFilteredBitmap_def split: option.split)
qed

subsection \<open>Rebuild\<close>

lemma live_nodes_ok:
  assumes "hn_inv h" "set js \<subseteq> {..<length (nodes h)}"
  shows "live_nodes h js = Inr (map (\<lambda>i. (nd_id (nodes h ! i), vec h i)) (filter (\<lambda>i. i \<notin> deleted h) js))"
  using assms(2)
proof (induction js)
  case (Cons i js)
  have "nodeVector h i = Inr (vec h i)" using node_stored [OF assms(1)] Cons.prems by simp
  then show ?case using Cons by (simp add: get_at_def)
qed simp

lemma reinsert_ok:
  assumes "env_ok E" "trackers_ok pool"
  shows "hn_inv h \<Longrightarrow> \<forall>x \<in> set ps. length (snd x) = hn_dim h \<and> fst x \<notin> dom (hn_vecs h) \<Longrightarrow> distinct (map fst ps) \<Longrightarrow>
    \<exists>h'. reinsert E pool n ps h = Inr (h', None) \<and> hn_inv h' \<and> hn_dim h' = hn_dim h \<and> dirty h' = dirty h \<and> deleted h' = deleted h \<and>
      dom (hn_vecs h') = dom (hn_vecs h) \<union> fst ` set ps"
proof (induction ps arbitrary: n h)
  case (Cons p ps)
  obtain i v where p: "p = (i, v)" by fastforce
  have v: "length v = hn_dim h" "i \<notin> dom (hn_vecs h)" using Cons.prems(2) p by auto
  obtain e h1 vt1 where 1: "insertLocked E i v (pool n) h = Inr (e, h1, vt1)" "hn_inv h1" "hn_dim h1 = hn_dim h" "dirty h1 = dirty h"
    "deleted h1 = deleted h" "e = None" "inserted i v h h1"
    using insertLocked_inv [OF assms(1) Cons.prems(1) v(1) trackers_okD [OF assms(2), of n], of i] v(2) by blast
  have d: "dom (hn_vecs h1) = insert i (dom (hn_vecs h))"
    using 1(7) ids_okD(4) [OF hn_invD(2) [OF Cons.prems(1)], of "length (nodes h)"]
    by (auto simp: set_eq_iff dom_hn_vecs inserted_def)
  have "\<forall>x \<in> set ps. fst x \<noteq> i" using Cons.prems(3) p by force
  then have "\<forall>x \<in> set ps. length (snd x) = hn_dim h1 \<and> fst x \<notin> dom (hn_vecs h1)" using Cons.prems(2) unfolding d 1(3) p by simp
  then obtain h' where "reinsert E pool (n + 1) ps h1 = Inr (h', None)" "hn_inv h'" "hn_dim h' = hn_dim h1" "dirty h' = dirty h1"
    "deleted h' = deleted h1" "dom (hn_vecs h') = dom (hn_vecs h1) \<union> fst ` set ps"
    using Cons.IH [OF 1(2), of "n + 1"] Cons.prems(3) by auto
  then show ?case using 1(1,3-6) d by (simp add: p Un_commute)
qed simp

lemma Rebuild_ok:
  assumes E: "env_ok E" "trackers_ok pool" "trackers_ok pool'" and h: "hn_inv h"
  shows "\<exists>h'. hn_Rebuild E pool pool' h = Inr (h', None) \<and> hn_inv h' \<and> hn_dim h' = hn_dim h \<and> dirty h' = [] \<and> deleted h' = {} \<and>
    (\<forall>h1 dr. drainDirtyBuffer E pool h = Inr (h1, dr) \<longrightarrow> dom (hn_vecs h') = dom (hn_vecs h1)) \<and>
    (exact h \<and> deleted h = {} \<longrightarrow> exact h' \<and> hn_vecs h' = spec_drain (hn_dim h) (dirty h) (hn_vecs h))"
proof -
  obtain h1 dr where 1: "drainDirtyBuffer E pool h = Inr (h1, dr)" "hn_inv h1" "hn_dim h1 = hn_dim h" "dirty h1 = []" "deleted h1 = deleted h"
    "exact h \<longrightarrow> exact h1 \<and> hn_vecs h1 = spec_drain (hn_dim h) (dirty h) (hn_vecs h)"
    using drain_ok [OF E(1) E(2) [unfolded trackers_ok_def] h] by blast
  note ids = ids_okD [OF hn_invD(2) [OF 1(2)]]
  have fin: "card (deleted h1) = 0 \<longleftrightarrow> deleted h1 = {}" using ids(5) by simp
  show ?thesis
  proof (cases "deleted h1 = {}")
    case True
    then show ?thesis using 1 by (simp add: hn_Rebuild_def)
  next
    case False
    let ?live = "map (\<lambda>i. (nd_id (nodes h1 ! i), vec h1 i)) (filter (\<lambda>i. i \<notin> deleted h1) [0..<length (nodes h1)])"
    let ?h2 = "h1\<lparr>nodes := [], idToNode := Map.empty, deleted := {}, maxLevel := - 1, entryPoint := None\<rparr>"
    note g = graph_invD [OF hn_invD(1) [OF 1(2)]]
    have live: "live_nodes h1 [0..<length (nodes h1)] = Inr ?live" by (rule live_nodes_ok [OF 1(2)]) auto
    have inv2: "hn_inv ?h2"
      using g(1,2) 1(4) by (simp add: hn_inv_def graph_inv_def params_ok_def store_ok_def ids_ok_def)
    have emp: "dom (hn_vecs ?h2) = {}" by (simp add: hn_vecs_def)
    have len: "\<forall>x \<in> set ?live. length (snd x) = hn_dim ?h2 \<and> fst x \<notin> dom (hn_vecs ?h2)"
      using node_stored(2) [OF 1(2)] by (auto simp: emp)
    have inj: "inj_on (\<lambda>i. nd_id (nodes h1 ! i)) {i. i < length (nodes h1) \<and> i \<notin> deleted h1}"
      by (rule inj_on_inverseI [of _ "\<lambda>i. the (idToNode h1 i)"]) (use ids(3) in auto)
    have dist: "distinct (map fst ?live)"
      using inj by (auto simp: distinct_map comp_def intro: inj_on_subset)
    obtain h' where h': "reinsert E pool' 0 ?live ?h2 = Inr (h', None)" "hn_inv h'" "hn_dim h' = hn_dim ?h2" "dirty h' = dirty ?h2"
      "deleted h' = {}" "dom (hn_vecs h') = fst ` set ?live"
      using reinsert_ok [OF E(1,3) inv2 len dist, of 0] emp by auto
    have "fst ` set ?live = dom (hn_vecs h1)"
      using ids(1-3) by (force simp: set_eq_iff dom_hn_vecs)
    then show ?thesis using 1 h' live False fin by (simp add: hn_Rebuild_def)
  qed
qed


lemma Rebuild_dom:
  assumes E: "env_ok E" "trackers_ok pool" "trackers_ok pool'" and h: "hn_inv h"
    and r: "hn_Rebuild E pool pool' h = Inr (h', e)" "drainDirtyBuffer E pool h = Inr (h1, dr)"
  shows "dom (hn_vecs h') = dom (hn_vecs h1)"
  using Rebuild_ok [OF E h] r by auto

subsection \<open>Operations and their specification\<close>

text \<open>The writes of an index, the pools of trackers chosen by the environment.\<close>

datatype 'f hn_op = HInsert u64 "'f list" | HDrain "nat \<Rightarrow> visitedTracker" | HTick "nat \<Rightarrow> visitedTracker" | HDelete u64
  | HRebuild "nat \<Rightarrow> visitedTracker" "nat \<Rightarrow> visitedTracker"

fun hn_exec :: "'f hnsw_env \<Rightarrow> 'f hn_op \<Rightarrow> 'f::linordered_field HNSWIndex \<Rightarrow> ('f HNSWIndex \<times> error option) go" where
  "hn_exec E (HInsert i v) h = Inr (hn_Insert i v h)"
| "hn_exec E (HDrain pool) h = go_bind (drainDirtyBuffer E pool h) (\<lambda>(h, _). Inr (h, None))"
| "hn_exec E (HTick pool) h = go_bind (applier_tick E pool h) (\<lambda>h. Inr (h, None))"
| "hn_exec E (HDelete i) h = Inr (hn_Delete i h)"
| "hn_exec E (HRebuild pool pool') h = hn_Rebuild E pool pool' h"

fun hn_run :: "'f hnsw_env \<Rightarrow> 'f hn_op list \<Rightarrow> 'f::linordered_field HNSWIndex \<Rightarrow> ('f HNSWIndex \<times> error option list) go" where
  "hn_run E [] h = Inr (h, [])"
| "hn_run E (x # xs) h = go_bind (hn_exec E x h) (\<lambda>(h, e). go_bind (hn_run E xs h) (\<lambda>(h, es). Inr (h, e # es)))"

fun op_ok :: "'f hn_op \<Rightarrow> bool" where
  "op_ok (HDrain pool) = trackers_ok pool"
| "op_ok (HTick pool) = trackers_ok pool"
| "op_ok (HRebuild pool pool') = (trackers_ok pool \<and> trackers_ok pool')"
| "op_ok _ = True"

text \<open>
  The specification: the vectors stored, the identifiers the graph has ever known (a \<open>Delete\<close> of one of these
  succeeds, again and again), and the pending inserts, which no operation but the drain looks at.
\<close>

record 'f hn_spec =
  stored :: "'f store"
  known :: "u64 set"
  queue :: "(u64 \<times> 'f list) list"

fun spec_exec :: "nat \<Rightarrow> 'f hn_op \<Rightarrow> 'f hn_spec \<Rightarrow> 'f hn_spec \<times> error option" where
  "spec_exec d (HInsert i v) s =
     (if length v \<noteq> d then (s, Some (Newf ErrDimensionMismatch)) else (s\<lparr>queue := queue s @ [(i, v)]\<rparr>, None))"
| "spec_exec d (HDelete i) s =
     (if i \<in> known s then (s\<lparr>stored := (stored s)(i := None)\<rparr>, None) else (s, Some (Newf ErrVectorNotFound)))"
| "spec_exec d _ s =
     (\<lparr>stored = spec_drain d (queue s) (stored s), known = known s \<union> fst ` set (queue s), queue = []\<rparr>, None)"

fun spec_hn_run :: "nat \<Rightarrow> 'f hn_op list \<Rightarrow> 'f hn_spec \<Rightarrow> 'f hn_spec \<times> error option list" where
  "spec_hn_run d [] s = (s, [])"
| "spec_hn_run d (x # xs) s =
     (case spec_exec d x s of (s, e) \<Rightarrow> case spec_hn_run d xs s of (s, es) \<Rightarrow> (s, e # es))"

definition hn_abs :: "'f HNSWIndex \<Rightarrow> 'f hn_spec" where
  "hn_abs h = \<lparr>stored = hn_vecs h, known = dom (idToNode h), queue = dirty h\<rparr>"

fun no_rebuild :: "'f hn_op \<Rightarrow> bool" where
  "no_rebuild (HRebuild _ _) = False"
| "no_rebuild _ = True"

lemma NewHNSWIndex_ok:
  assumes "env_ok E" "m \<noteq> 1" "NewHNSWIndex E d m efc efs metric = Inr h"
  shows "hn_inv h" "exact h" "hn_dim h = nat d" "hn_abs h = \<lparr>stored = Map.empty, known = {}, queue = []\<rparr>" "hn_metric h = metric"
  using assms(2,3) env_okD(5) [OF assms(1), of "of_int m"] env_okD(5) [OF assms(1), of 16]
  by (auto simp: NewHNSWIndex_def hn_inv_def graph_inv_def params_ok_def store_ok_def ids_ok_def exact_def hn_abs_def hn_vecs_def Let_def
      split: if_splits option.splits)

lemma hn_Insert_vecs: "hn_vecs (fst (hn_Insert i v h)) = hn_vecs h" "exact (fst (hn_Insert i v h)) = exact h"
  "hn_dim (fst (hn_Insert i v h)) = hn_dim h" "idToNode (fst (hn_Insert i v h)) = idToNode h"
  by (auto simp: hn_Insert_def hn_vecs_def exact_def fun_eq_iff split: option.split)

lemma hn_Delete_known: "idToNode (fst (hn_Delete i h)) = idToNode h"
  by (simp add: hn_Delete_def split: option.split)

lemma hn_exec_tick: "hn_exec E (HTick pool) h = hn_exec E (HDrain pool) h"
  by (cases "drainDirtyBuffer E pool h") (auto simp: applier_tick_def drainDirtyBuffer_def)

lemma hn_exec_inv:
  assumes "env_ok E" "op_ok x" "hn_inv h"
  shows "\<exists>h' e. hn_exec E x h = Inr (h', e) \<and> hn_inv h' \<and> hn_dim h' = hn_dim h"
proof (cases x)
  case (HDrain pool)
  then show ?thesis using drain_ok [OF assms(1) _ assms(3), of pool] assms(2) by (auto simp: trackers_ok_def)
next
  case (HTick pool)
  then show ?thesis
    using drain_ok [OF assms(1) _ assms(3), of pool] assms(2) by (auto simp: trackers_ok_def hn_exec_tick simp del: hn_exec.simps(3))
next
  case (HRebuild pool pool')
  then show ?thesis using Rebuild_ok [OF assms(1) _ _ assms(3), of pool pool'] assms(2) by auto
qed (use hn_Insert_inv [OF assms(3)] hn_Delete_ok [OF assms(3)] hn_Insert_vecs in \<open>simp_all add: prod_eq_iff\<close>)

lemma hn_exec_refines:
  assumes "env_ok E" "op_ok x" "no_rebuild x" "hn_inv h" "exact h"
  shows "\<exists>h' e. hn_exec E x h = Inr (h', e) \<and> exact h' \<and> (hn_abs h', e) = spec_exec (hn_dim h) x (hn_abs h)"
proof (cases x)
  case (HInsert i v)
  then show ?thesis using assms(5) by (auto simp: hn_Insert_def hn_abs_def exact_def hn_vecs_def fun_eq_iff split: option.split)
next
  case (HDrain pool)
  then show ?thesis using drain_ok [OF assms(1) _ assms(4), of pool] assms(2,5) by (auto simp: trackers_ok_def hn_abs_def)
next
  case (HTick pool)
  then show ?thesis using drain_ok [OF assms(1) _ assms(4), of pool] assms(2,5)
    by (auto simp: trackers_ok_def hn_abs_def hn_exec_tick simp del: hn_exec.simps(3))
next
  case (HDelete i)
  have "hn_vecs (fst (hn_Delete i h)) = hn_vecs h" if "i \<notin> dom (idToNode h)" using that by (auto simp: hn_Delete_def)
  then show ?thesis
    using HDelete hn_Delete_ok [OF assms(4), of i] assms(5) by (auto simp: hn_abs_def prod_eq_iff hn_Delete_known)
qed (use assms(3) in simp)

lemma hn_run_inv:
  assumes "env_ok E"
  shows "hn_inv h \<Longrightarrow> \<forall>x \<in> set xs. op_ok x \<Longrightarrow> \<exists>h' es. hn_run E xs h = Inr (h', es) \<and> hn_inv h' \<and> hn_dim h' = hn_dim h"
proof (induction xs arbitrary: h)
  case (Cons x xs)
  obtain h1 e where 1: "hn_exec E x h = Inr (h1, e)" "hn_inv h1" "hn_dim h1 = hn_dim h"
    using hn_exec_inv [OF assms _ Cons.prems(1), of x] Cons.prems(2) by auto
  then show ?case using Cons.IH [OF 1(2)] Cons.prems(2) by fastforce
qed simp

lemma hn_run_refines:
  assumes "env_ok E"
  shows "hn_inv h \<Longrightarrow> exact h \<Longrightarrow> \<forall>x \<in> set xs. op_ok x \<and> no_rebuild x \<Longrightarrow>
    \<exists>h' es. hn_run E xs h = Inr (h', es) \<and> exact h' \<and> (hn_abs h', es) = spec_hn_run (hn_dim h) xs (hn_abs h)"
proof (induction xs arbitrary: h)
  case (Cons x xs)
  have x: "op_ok x" "no_rebuild x" using Cons.prems(3) by auto
  obtain h1 e where 1: "hn_exec E x h = Inr (h1, e)" "hn_inv h1" "hn_dim h1 = hn_dim h" "exact h1"
    "(hn_abs h1, e) = spec_exec (hn_dim h) x (hn_abs h)"
    using hn_exec_inv [OF assms x(1) Cons.prems(1)] hn_exec_refines [OF assms x Cons.prems(1,2)] by auto
  obtain h' es where 2: "hn_run E xs h1 = Inr (h', es)" "exact h'" "(hn_abs h', es) = spec_hn_run (hn_dim h) xs (hn_abs h1)"
    using Cons.IH [OF 1(2,4)] Cons.prems(3) 1(3) by auto
  then show ?case using 1 by (simp add: 1(5) [symmetric] 2(3) [symmetric])
qed simp


subsection \<open>What a search returns\<close>

definition covered :: "'f::linordered_field SearchResult list \<Rightarrow> nat \<Rightarrow> u64 \<Rightarrow> 'f \<Rightarrow> bool" where
  \<comment> \<open>an answer of length \<open>k\<close> has no room for \<open>i\<close> at distance \<open>d\<close>, or it has it\<close>
  "covered rs k i d \<longleftrightarrow> (\<exists>r \<in> set rs. ID r = i \<and> Distance r = d) \<or> (length rs = k \<and> (\<forall>r \<in> set rs. Distance r \<le> d))"

lemma take_sorted_le:
  fixes xs :: "'a::linorder list"
  assumes "sorted xs" "k \<le> length (filter (\<lambda>x. x \<le> d) xs)"
  shows "\<forall>x \<in> set (take k xs). x \<le> d"
  using assms
proof (induction xs arbitrary: k)
  case (Cons x xs)
  show ?case
  proof (cases k)
    case (Suc k')
    show ?thesis
    proof (cases "x \<le> d")
      case True
      then have "k' \<le> length (filter (\<lambda>y. y \<le> d) xs)" using Cons.prems(2) Suc by simp
      moreover have "sorted xs" using Cons.prems(1) by simp
      ultimately have "\<forall>y \<in> set (take k' xs). y \<le> d" by (intro Cons.IH)
      then show ?thesis using Suc True by simp
    next
      case False
      then have "filter (\<lambda>y. y \<le> d) (x # xs) = []" using Cons.prems(1) by (fastforce simp: filter_empty_conv)
      then show ?thesis using Cons.prems(2) Suc by simp
    qed
  qed simp
qed simp

lemma covered_take_srt:
  fixes xs :: "'f::linordered_field SearchResult list"
  assumes "slice_sorter (\<lambda>a b. Distance a < Distance b) srt"
    and "(\<exists>r \<in> set xs. ID r = i \<and> Distance r = d) \<or> k \<le> length (filter (\<lambda>r. Distance r \<le> d) xs)"
  shows "covered (take k (srt xs)) k i d"
proof (cases "k \<le> length (filter (\<lambda>r. Distance r \<le> d) xs)")
  case True
  note S = slice_sorter.mset_srt [OF assms(1), of xs] slice_sorter.sorted_srt [OF assms(1), of xs]
  have len: "k \<le> length (srt xs)"
    using True length_filter_le [of "\<lambda>r. Distance r \<le> d" xs] mset_eq_length [OF S(1)] by linarith
  have s: "sorted (map Distance (srt xs))" using S(2) by (simp add: sorted_wrt_map not_less)
  have "length (filter (\<lambda>x. x \<le> d) (map Distance (srt xs))) = length (filter (\<lambda>r. Distance r \<le> d) (srt xs))"
    by (simp add: filter_map comp_def)
  also have "\<dots> = size (filter_mset (\<lambda>r. Distance r \<le> d) (mset (srt xs)))" by (metis mset_filter size_mset)
  also have "\<dots> = length (filter (\<lambda>r. Distance r \<le> d) xs)" unfolding S(1) by (metis mset_filter size_mset)
  finally have F: "length (filter (\<lambda>x. x \<le> d) (map Distance (srt xs))) = length (filter (\<lambda>r. Distance r \<le> d) xs)" .
  have "\<forall>x \<in> set (take k (map Distance (srt xs))). x \<le> d" by (rule take_sorted_le [OF s]) (unfold F, rule True)
  then show ?thesis using len by (auto simp: covered_def take_map)
next
  case False
  then obtain r where r: "r \<in> set xs" "ID r = i" "Distance r = d" using assms(2) by blast
  show ?thesis
  proof (cases "r \<in> set (take k (srt xs))")
    case no: False
    then have "\<forall>x \<in> set (take k (srt xs)). Distance x \<le> d"
      using slice_sorter.srt_take_best [OF assms(1) _ r(1) no] r(3) by (force simp: not_less)
    moreover have "k < length (srt xs)"
      using no r(1) slice_sorter.set_srt [OF assms(1), of xs] by (metis linorder_not_le take_all)
    ultimately show ?thesis by (simp add: covered_def)
  qed (use r in \<open>auto simp: covered_def\<close>)
qed

lemma mergeResults_covered:
  assumes "env_ok E" "covered xs k i d \<or> covered ys k i d"
  shows "covered (mergeResults E xs ys k) k i d"
proof -
  have "k \<le> length (filter (\<lambda>r. Distance r \<le> d) (xs @ ys))"
    if "(length xs = k \<and> (\<forall>r \<in> set xs. Distance r \<le> d)) \<or> (length ys = k \<and> (\<forall>r \<in> set ys. Distance r \<le> d))"
    using that by (auto simp: filter_id_conv [THEN iffD2])
  then show ?thesis unfolding mergeResults_def
    using assms(2) by (intro covered_take_srt [OF env_okD(8) [OF assms(1)]]) (auto simp: covered_def)
qed

lemma covered_scored: "covered (with_scores E h rs) k i d = covered rs k i d"
  by (auto simp: covered_def with_scores_def)

lemma pending_covered:
  assumes "env_ok E" "(i, v) \<in> set ps"
  shows "covered (pending E h q k ps) k i (apply_metric (rt32 (plat E)) (distFn h) q v)"
  unfolding pending_def covered_scored
  using assms(2) by (intro covered_take_srt [OF env_okD(8) [OF assms(1)]]) (force simp: result_of_def)

definition answer_of :: "'f hnsw_env \<Rightarrow> 'f::linordered_field HNSWIndex \<Rightarrow> 'f list \<Rightarrow> 'f SearchResult \<Rightarrow> bool" where
  \<comment> \<open>a pending or stored vector with its distance and score\<close>
  "answer_of E h q r \<longleftrightarrow> (\<exists>v. ((ID r, v) \<in> set (dirty h) \<or> hn_vecs h (ID r) = Some v) \<and>
     Distance r = apply_metric (rt32 (plat E)) (distFn h) q v \<and> Score r = ScoreFromDistance (rt32 (plat E)) (Distance r) (hn_metric h))"

lemma take_srt_ok:
  assumes "slice_sorter (\<lambda>a b. Distance a < Distance b) srt"
  shows "length (take k (srt xs)) \<le> k" "sorted (map Distance (take k (srt xs :: 'f::linordered_field SearchResult list)))"
    "set (take k (srt xs)) \<subseteq> set xs"
proof -
  have "sorted (map Distance (srt xs))" using slice_sorter.sorted_srt [OF assms, of xs] by (simp add: sorted_wrt_map not_less)
  then show "sorted (map Distance (take k (srt xs)))" by (simp add: take_map [symmetric] sorted_wrt_take)
qed (use set_take_subset slice_sorter.set_srt [OF assms, of xs] in fastforce)+

lemma pending_answers:
  assumes "env_ok E" "set ps \<subseteq> set (dirty h)"
  shows "length (pending E h q k ps) \<le> k" "sorted (map Distance (pending E h q k ps))" "\<forall>r \<in> set (pending E h q k ps). answer_of E h q r"
proof -
  note T = take_srt_ok [OF env_okD(8) [OF assms(1)], of k "map (\<lambda>(i, v). result_of i (apply_metric (rt32 (plat E)) (distFn h) q v)) ps"]
  show "length (pending E h q k ps) \<le> k" "sorted (map Distance (pending E h q k ps))"
    using T by (simp_all add: pending_def with_scores_def comp_def)
  show "\<forall>r \<in> set (pending E h q k ps). answer_of E h q r"
    using T(3) assms(2) unfolding pending_def with_scores_def by (fastforce simp: answer_of_def result_of_def)
qed

lemma hit_answer:
  assumes "hn_inv h" "j < length (nodes h)" "j \<notin> deleted h"
  shows "answer_of E h q (hit E h q j)"
  using ids_okD(3) [OF hn_invD(2) [OF assms(1)] assms(2,3)] assms(3)
  by (auto simp: answer_of_def hit_def hn_vecs_def ndist_def)

lemma nearest_hits_covered:
  assumes "nearest_hits E h q P skip k ep True js" "j \<in> reach h P 0 ep - skip"
  shows "covered (map (hit E h q) js) k (nd_id (nodes h ! j)) (ndist E h q j)"
  using assms by (cases "j \<in> set js") (auto simp: nearest_hits_def covered_def hit_def)

definition finds :: "'f hnsw_env \<Rightarrow> 'f::linordered_field HNSWIndex \<Rightarrow> 'f list \<Rightarrow> nat \<Rightarrow> nat \<Rightarrow> bool \<Rightarrow> 'f SearchResult list \<Rightarrow> bool" where
  \<comment> \<open>at most \<open>k\<close> answers, closest first; no pending vector and, if \<open>all\<close>, no live node reachable from \<open>ep\<close> is missing\<close>
  "finds E h q k ep all rs \<longleftrightarrow> length rs \<le> k \<and> sorted (map Distance rs) \<and> (\<forall>r \<in> set rs. answer_of E h q r) \<and>
     (\<forall>(i, v) \<in> set (dirty h). covered rs k i (apply_metric (rt32 (plat E)) (distFn h) q v)) \<and>
     (all \<longrightarrow> (\<forall>j \<in> reach h (\<lambda>_. True) 0 ep - deleted h. j < length (nodes h) \<longrightarrow> covered rs k (nd_id (nodes h ! j)) (ndist E h q j)))"

lemma hn_Search_finds:
  assumes E: "env_ok E" and h: "hn_inv h" and q: "length q = hn_dim h" and k: "0 < k" and vt: "tracker_ok vt" and ctx: "\<And>c. ctx c = None"
  shows "\<exists>ep rs. (\<forall>e. entryPoint h = Some e \<longrightarrow> descend (\<lambda>ep l. greedyClosest E h q ep l) (maxLevel h) 0 e = Inr ep) \<and>
    hn_Search E ctx vt q k nprobe h = Inr (Inr rs) \<and> finds E h q (nat k) ep (clean vt \<and> length (nodes h) \<le> search_ef h k nprobe) rs"
proof -
  let ?p = "pending E h q (nat k) (dirty h)"
  note P = pending_answers [OF E subset_refl, of h q "nat k"] and C = pending_covered [OF E, of _ _ "dirty h" h q "nat k"]
  have S: "hn_Search E ctx vt q k nprobe h =
    search_graph E ctx vt h q k nprobe (\<lambda>ep l. greedyClosest E h q ep l)
      (\<lambda>c ep ef vt. searchLayer E ctx c h q ep ef 0 vt pass_all) (deleted h) ?p"
    using k by (simp add: hn_Search_def q searchDirtyBuffer_def search_pending_total [OF E h q subset_refl])
  show ?thesis
  proof (cases "entryPoint h")
    case None
    have "nodes h = []" using graph_invD(4) [OF hn_invD(1) [OF h] None] .
    then have "finds E h q (nat k) 0 (clean vt \<and> length (nodes h) \<le> search_ef h k nprobe) ?p" using P C by (auto simp: finds_def)
    then show ?thesis using S None by (auto simp: search_graph_def)
  next
    case (Some e)
    let ?all = "clean vt \<and> length (nodes h) \<le> search_ef h k nprobe"
    have step: "\<exists>ep'. greedyClosest E h q ep l = Inr ep' \<and> on_layer h l ep'" if "on_layer h l ep" for ep l
      by (rule greedyClosest_ok [OF hn_invD(1) [OF h] that])
    obtain ep js where R: "descend (\<lambda>ep l. greedyClosest E h q ep l) (maxLevel h) 0 e = Inr ep"
      "nearest_hits E h q (\<lambda>_. True) (deleted h) (nat k) ep ?all js"
      "search_graph E ctx vt h q k nprobe (\<lambda>ep l. greedyClosest E h q ep l)
      (\<lambda>c ep ef vt. searchLayer E ctx c h q ep ef 0 vt pass_all) (deleted h) ?p =
        Inr (Inr (if ?p \<noteq> [] then mergeResults E (map (hit E h q) js) ?p (nat k) else map (hit E h q) js))"
      using search_graph_hits [where step = "greedyClosest E h q" and ctx = ctx and skip = "deleted h" and nprobe = nprobe and dr = ?p, OF E h q k vt filters_pass_all(1) step ctx Some] by blast
    define rs where "rs = (if ?p \<noteq> [] then mergeResults E (map (hit E h q) js) ?p (nat k) else map (hit E h q) js)"
    have J: "length js \<le> nat k" "sorted (map (ndist E h q) js)" "set js \<inter> deleted h = {}" "set js \<subseteq> {..<length (nodes h)}"
      using R(2) unfolding nearest_hits_def by blast+
    have js: "sorted (map Distance (map (hit E h q) js))" using J(2) by (simp add: hit_def comp_def)
    have ja: "\<forall>r \<in> set (map (hit E h q) js). answer_of E h q r" using J(3,4) by (auto intro!: hit_answer [OF h])
    have basic: "length rs \<le> nat k \<and> sorted (map Distance rs) \<and> (\<forall>r \<in> set rs. answer_of E h q r)"
      using J(1) js ja P(3) take_srt_ok [OF env_okD(8) [OF E], of "nat k" "map (hit E h q) js @ ?p"]
      by (auto simp: rs_def mergeResults_def simp del: map_map)
    have pend: "\<forall>(i, v) \<in> set (dirty h). covered rs (nat k) i (apply_metric (rt32 (plat E)) (distFn h) q v)"
    proof (cases "?p = []")
      case True
      have "x \<notin> set (dirty h)" for x using C [of "fst x" "snd x"] True k by (auto simp: covered_def)
      then show ?thesis by blast
    next
      case False
      then show ?thesis using C mergeResults_covered [OF E] by (auto simp: rs_def)
    qed
    have "covered rs (nat k) (nd_id (nodes h ! j)) (ndist E h q j)" if "?all" "j \<in> reach h (\<lambda>_. True) 0 ep - deleted h" for j
      using nearest_hits_covered [OF _ that(2), of E q "nat k" js] R(2) that(1) mergeResults_covered [OF E] by (auto simp: rs_def)
    then have "finds E h q (nat k) ep ?all rs" using basic pend by (auto simp: finds_def)
    then show ?thesis using S R(1,3) Some by (auto simp: rs_def)
  qed
qed


subsection \<open>A tracker that nobody has advanced\<close>

lemma heap_Pop_single [simp]: "heap_Pop lt [x] = (x, [])"
  by (simp add: heap_Pop_def swap_def heap_down.simps [of lt 0 0 "[x]"])

lemma visited_fresh [simp]: "visited fresh_tracker = UNIV"
  by (auto simp: visited_def fresh_tracker_def)

lemma collect_visited: "set fs \<subseteq> visited vt \<Longrightarrow> \<exists>vt'. collect ok fs vt us = Inr (vt', us)"
proof (induction fs arbitrary: vt)
  case (Cons f fs)
  then show ?case using Cons.IH [of "grow_to f vt"] by (simp add: in_visited_grown Let_def)
qed simp

lemma searchLayer_blind:
  assumes inv: "store_ok h" "on_layer h l ep" and ef: "0 < ef" and vt: "visited vt = UNIV"
  shows "\<exists>vt'. searchLayer E ctx c h q ep ef l vt ok = Inr ([\<lparr>nodeIdx = ep, dist = ndist E h q ep\<rparr>], vt')"
proof -
  let ?x = "\<lparr>nodeIdx = ep, dist = ndist E h q ep\<rparr>" and ?vt = "mark ep (grow_to ep vt)"
  have i: "ep < length (nodes h)" by (rule on_layer_node [OF inv(2)])
  have "visited ?vt = UNIV" using vt by simp
  then obtain vt' where "collect ok (lfriends h l ep) ?vt [] = Inr (vt', [])"
    using collect_visited [of "lfriends h l ep" ?vt ok "[]"] by auto
  moreover have "beam E ctx c h q ef l ok vt' [] [?x] = Inr ([?x], vt')" for vt' by (simp add: beam.simps)
  ultimately have "beam E ctx c h q ef l ok ?vt [?x] [?x] = Inr ([?x], vt')"
    by (subst beam.simps) (simp add: layer_friends_ok [OF i] get_at_def)
  then show ?thesis
    using node_dist_node [OF inv(1) i] by (simp add: searchLayer_def)
qed

lemma search_blind:
  assumes E: "env_ok E" and h: "hn_inv h" and q: "length q = hn_dim h" and k: "0 < k" and ctx: "\<And>c. ctx c = None"
    and e: "entryPoint h = Some e" and none: "dirty h = []"
  shows "\<exists>ep. descend (\<lambda>ep l. greedyClosest E h q ep l) (maxLevel h) 0 e = Inr ep \<and>
    hn_Search E ctx fresh_tracker q k nprobe h = Inr (Inr (if ep \<in> deleted h then [] else [hit E h q ep]))"
proof -
  note g = hn_invD(1) [OF h]
  note M = entry_on_layer [OF g e]
  have step: "\<exists>ep'. greedyClosest E h q ep l = Inr ep' \<and> on_layer h l ep'" if "on_layer h l ep" for ep l
    by (rule greedyClosest_ok [OF g that])
  obtain ep where ep: "descend (greedyClosest E h q) (maxLevel h) 0 e = Inr ep" "on_layer h (nat (min (maxLevel h) 1)) ep"
    using descend_ok [where h = h and step = "greedyClosest E h q" and low = 0 and lc = "maxLevel h" and ep = e, OF step] M by auto
  have o: "on_layer h 0 ep" by (rule on_layer_lower [OF ep(2)]) simp
  obtain c where d: "descend_ctx ctx 0 (greedyClosest E h q) (maxLevel h) e = Inr (Inr (ep, c))"
    using descend_ctx_none [of ctx 0 "greedyClosest E h q" "maxLevel h" e] ctx ep(1) by auto
  obtain vt' where s: "searchLayer E ctx c h q ep (search_ef h k nprobe) 0 fresh_tracker pass_all =
      Inr ([\<lparr>nodeIdx = ep, dist = ndist E h q ep\<rparr>], vt')"
    using searchLayer_blind [OF graph_invD(2) [OF g] o search_ef_pos(1) [OF k] visited_fresh] by blast
  have "hn_Search E ctx fresh_tracker q k nprobe h = Inr (Inr (if ep \<in> deleted h then [] else [hit E h q ep]))"
    using k q none o
    by (simp add: hn_Search_def searchDirtyBuffer_def search_pending_def search_graph_def e d s get_at_def Let_def on_layer_def
        with_scores_def hit_def result_of_def)
  then show ?thesis using ep(1) by blast
qed

subsection \<open>A filter that the entry point escapes\<close>

lemma reach_cases: "j \<in> reach h P l ep \<Longrightarrow> j = ep \<or> P j"
  by (erule reach.cases) auto

lemma nearest_hits_all:
  assumes "nearest_hits E h q P {} k ep True js" "length (nodes h) \<le> k" "ep < length (nodes h)"
  shows "ep \<in> set js"
proof (rule ccontr)
  assume no: "ep \<notin> set js"
  have js: "distinct js" "set js \<subseteq> {..<length (nodes h)} - {ep}" "length js = k"
    using assms(1) no reach.start [of ep h P 0] by (auto simp: nearest_hits_def)
  have "length js \<le> card ({..<length (nodes h)} - {ep})" using js(1,2) by (metis card_mono distinct_card finite_Diff finite_lessThan)
  also have "\<dots> < length (nodes h)" using assms(3) by simp
  finally show False using js(3) assms(2) by simp
qed

lemma filtered_entry:
  assumes E: "env_ok E" and h: "hn_inv h" and q: "length q = hn_dim h" and k: "0 < k" and vt: "clean vt" and ctx: "\<And>c. ctx c = None"
    and e: "entryPoint h = Some e" and all: "length (nodes h) \<le> nat k" and S: "S \<noteq> {}" and none: "dirty h = []"
  shows "\<exists>ep rs. descend (\<lambda>ep l. greedyClosestFiltered E h S q ep l) (maxLevel h) 0 e = Inr ep \<and>
    SearchFiltered E ctx vt q k nprobe S h = Inr (Inr rs) \<and> hit E h q ep \<in> set rs \<and> (\<forall>r \<in> set rs. r = hit E h q ep \<or> ID r \<in> S)"
proof -
  note g = hn_invD(1) [OF h]
  have step: "\<exists>ep'. greedyClosestFiltered E h S q ep l = Inr ep' \<and> on_layer h l ep'" if "on_layer h l ep" for ep l
    by (rule filtered_descent_ok(1) [OF g that])
  let ?P = "\<lambda>i. nd_id (nodes h ! i) \<in> S"
  have "length (nodes h) \<le> search_ef h k nprobe" using all search_ef_pos(2) [OF k, of h nprobe] by simp
  then obtain ep js where R: "descend (greedyClosestFiltered E h S q) (maxLevel h) 0 e = Inr ep" "on_layer h 0 ep"
    "nearest_hits E h q ?P {} (nat k) ep True js"
    "search_graph E ctx vt h q k nprobe (greedyClosestFiltered E h S q)
      (\<lambda>c ep ef vt. searchLayer E ctx c h q ep ef 0 vt (valid_id h S)) {} [] = Inr (Inr (map (hit E h q) js))"
    using search_graph_hits [where step = "greedyClosestFiltered E h S q" and ctx = ctx and skip = "{}" and nprobe = nprobe and dr = "[]",
      OF E h q k clean_ok [OF vt] filters_valid_id step ctx e] vt by fastforce
  have "ep < length (nodes h)" using R(2) by (simp add: on_layer_def)
  then have "ep \<in> set js" using nearest_hits_all [OF R(3) all] by simp
  moreover have "\<forall>j \<in> set js. j = ep \<or> ?P j" using R(3) reach_cases [of _ h ?P 0 ep] by (force simp: nearest_hits_def)
  then have "\<forall>r \<in> set (map (hit E h q) js). r = hit E h q ep \<or> ID r \<in> S" by (auto simp: hit_def)
  moreover have "SearchFiltered E ctx vt q k nprobe S h = Inr (Inr (map (hit E h q) js))"
    using k S R(4) by (simp add: SearchFiltered_def q searchDirtyBufferFiltered_def none search_pending_def)
  ultimately show ?thesis using R(1) by auto
qed

subsection \<open>What \<open>Rebuild\<close> makes of the vectors\<close>

lemma reinsert_vecs:
  assumes "env_ok E" "trackers_ok pool"
  shows "hn_inv h \<Longrightarrow> deleted h = {} \<Longrightarrow> \<forall>x \<in> set ps. length (snd x) = hn_dim h \<and> fst x \<notin> dom (idToNode h) \<Longrightarrow> distinct (map fst ps) \<Longrightarrow>
    reinsert E pool n ps h = Inr (h', e) \<Longrightarrow>
    (\<forall>j < length ps. idToNode h' (fst (ps ! j)) = Some (length (nodes h) + j)) \<and> (\<forall>i \<in> dom (idToNode h). idToNode h' i = idToNode h i) \<and>
    (\<forall>j < length (vectorOffsets h). vec h' j = vec h j) \<and> deleted h' = {}"
proof (induction ps arbitrary: n h)
  case (Cons p ps)
  obtain i v where p: "p = (i, v)" by fastforce
  have v: "length v = hn_dim h" "i \<notin> dom (idToNode h)" using Cons.prems(3) p by auto
  have nv: "i \<notin> dom (hn_vecs h)" using v(2) dom_hn_vecs [of i h] by blast
  obtain h1 vt1 where 1: "insertLocked E i v (pool n) h = Inr (None, h1, vt1)" "hn_inv h1" "hn_dim h1 = hn_dim h"
    "deleted h1 = {}" "inserted i v h h1"
    using insertLocked_inv [OF assms(1) Cons.prems(1) v(1) trackers_okD [OF assms(2), of n], of i] nv Cons.prems(2) by auto
  have ids: "idToNode h1 = (idToNode h)(i \<mapsto> length (nodes h))" "vectorOffsets h1 = vectorOffsets h @ [length (vectorSlab h)]"
    "length (nodes h1) = Suc (length (nodes h))"
    using 1(5) by (simp_all add: inserted_def) (metis length_append_singleton length_map)
  have "\<forall>x \<in> set ps. fst x \<noteq> i" using Cons.prems(4) p by force
  then have ps: "\<forall>x \<in> set ps. length (snd x) = hn_dim h1 \<and> fst x \<notin> dom (idToNode h1)" using Cons.prems(3) unfolding ids 1(3) p by simp
  have "reinsert E pool (n + 1) ps h1 = Inr (h', e)" using Cons.prems(5) 1(1) by (simp add: p)
  from Cons.IH [OF 1(2,4) ps _ this] Cons.prems(4) have IH: "\<forall>j < length ps. idToNode h' (fst (ps ! j)) = Some (Suc (length (nodes h)) + j)"
    "\<forall>a \<in> dom (idToNode h1). idToNode h' a = idToNode h1 a" "\<forall>j < length (vectorOffsets h1). vec h' j = vec h1 j" "deleted h' = {}"
    by (simp_all add: ids(3) p)
  have "vec h' j = vec h j" if "j < length (vectorOffsets h)" for j
    using IH(3) inserted_vec [OF 1(5) graph_invD(2) [OF hn_invD(1) [OF Cons.prems(1)]] that] that by (simp add: ids(2))
  moreover have "idToNode h' (fst ((p # ps) ! j)) = Some (length (nodes h) + j)" if "j < length (p # ps)" for j
    using that IH(1,2) by (cases j) (auto simp: p ids(1))
  moreover have "idToNode h' a = idToNode h a" if "a \<in> dom (idToNode h)" for a using that IH(2) v(2) by (auto simp: ids(1))
  ultimately show ?case using IH(4) by blast
qed simp

lemma Rebuild_vecs:
  assumes E: "env_ok E" "trackers_ok pool" "trackers_ok pool'" and h: "hn_inv h" and d: "dirty h = []" "deleted h \<noteq> {}"
  defines "live \<equiv> filter (\<lambda>i. i \<notin> deleted h) [0..<length (nodes h)]"
  shows "\<exists>h'. hn_Rebuild E pool pool' h = Inr (h', None) \<and>
    (\<forall>j < length live. hn_vecs h' (nd_id (nodes h ! (live ! j))) = Some (vec h j))"
proof -
  note ids = ids_okD [OF hn_invD(2) [OF h]] and g = graph_invD [OF hn_invD(1) [OF h]]
  let ?live = "map (\<lambda>i. (nd_id (nodes h ! i), vec h i)) live"
  let ?h2 = "h\<lparr>nodes := [], idToNode := Map.empty, deleted := {}, maxLevel := - 1, entryPoint := None\<rparr>"
  have live: "live_nodes h [0..<length (nodes h)] = Inr ?live" unfolding live_def by (rule live_nodes_ok [OF h]) auto
  have inv2: "hn_inv ?h2" using g(1,2) d(1) by (simp add: hn_inv_def graph_inv_def params_ok_def store_ok_def ids_ok_def)
  have len: "\<forall>x \<in> set ?live. length (snd x) = hn_dim ?h2 \<and> fst x \<notin> dom (idToNode ?h2)"
    using node_stored(2) [OF h] by (auto simp: live_def)
  have inj: "inj_on (\<lambda>i. nd_id (nodes h ! i)) {i. i < length (nodes h) \<and> i \<notin> deleted h}"
    by (rule inj_on_inverseI [of _ "\<lambda>i. the (idToNode h i)"]) (use ids(3) in auto)
  have dist: "distinct (map fst ?live)" using inj by (auto simp: live_def distinct_map comp_def intro: inj_on_subset)
  obtain h' where h': "hn_Rebuild E pool pool' h = Inr (h', None)" using Rebuild_ok [OF E h] by blast
  have "card (deleted h) \<noteq> 0" using ids(5) d(2) by simp
  then have r: "reinsert E pool' 0 ?live ?h2 = Inr (h', None)"
    using h' d(1) live by (simp add: hn_Rebuild_def drainDirtyBuffer_def)
  note V = reinsert_vecs [OF E(1,3) inv2 _ len dist r]
  have "length live \<le> length (vectorOffsets h)"
    using g(2) length_filter_le [of "\<lambda>i. i \<notin> deleted h" "[0..<length (nodes h)]"] by (simp add: live_def store_ok_def)
  moreover have "vec ?h2 j = vec h j" for j by (simp add: vec_def)
  ultimately have "hn_vecs h' (nd_id (nodes h ! (live ! j))) = Some (vec h j)" if "j < length live" for j
    using V that by (auto simp: hn_vecs_def)
  then show ?thesis using h' by blast
qed


subsection \<open>Reachable states\<close>

definition hn_reachable :: "'f hnsw_env \<Rightarrow> 'f::linordered_field HNSWIndex \<Rightarrow> bool" where
  \<comment> \<open>for \<open>m = 1\<close> the code divides by \<open>math.Log(1)\<close>, which this excludes\<close>
  "hn_reachable E h \<longleftrightarrow> (\<exists>d m efc efs metric h0 xs es. m \<noteq> 1 \<and> NewHNSWIndex E d m efc efs metric = Inr h0 \<and>
     (\<forall>x \<in> set xs. op_ok x) \<and> hn_run E xs h0 = Inr (h, es))"

lemma hn_reachable_inv: "env_ok E \<Longrightarrow> hn_reachable E h \<Longrightarrow> hn_inv h"
  unfolding hn_reachable_def using NewHNSWIndex_ok(1) hn_run_inv by (metis (no_types, lifting) Inr_inject prod.inject)

lemma greedyClosest_passes:
  assumes "env_ok E" "hn_inv h" "on_layer h l ep"
  shows "\<exists>k ep'. (pass_to E h pass_all q l ^^ k) ep ep' \<and> k \<le> length (vectorOffsets h) \<and> greedyClosest E h q ep l = Inr ep' \<and> on_layer h l ep' \<and>
    (\<forall>f \<in> set (lfriends h l ep') - deleted h. ndist E h q ep' \<le> ndist E h q f)"
proof -
  note g = graph_invD [OF hn_invD(1) [OF assms(2)]]
  have L: "\<forall>i < length (nodes h). links_ok h i" using g(3) by blast
  have d: "node_dist E h q ep = Inr (ndist E h q ep)" using g(2) on_layer_node [OF assms(3)] by (rule node_dist_node)
  obtain k ep' where "(pass_to E h pass_all q l ^^ k) ep ep'" "k \<le> card (closer E h q (ndist E h q ep))"
    "greedy_loop E h pass_all q l ep (ndist E h q ep) = Inr ep'" "on_layer h l ep'"
    "\<forall>f \<in> eligible h (\<lambda>_. True) (lfriends h l ep'). ndist E h q ep' \<le> ndist E h q f"
    using greedy_loop_ok [OF g(2) L filters_pass_all(1) assms(3), of E q] by blast
  moreover have "card (closer E h q (ndist E h q ep)) \<le> card {..<length (vectorOffsets h)}"
    by (rule card_mono) (auto simp: closer_def)
  ultimately show ?thesis using d by (intro exI [of _ k] exI [of _ ep']) (auto simp: greedyClosest_def pass_all_def eligible_def)
qed

subsection \<open>A concrete environment\<close>

text \<open>Exact arithmetic, stable sorting, a logarithm by its tangent, and a source of random numbers that is constant.\<close>

definition ex_env :: "rat hnsw_env" where
  "ex_env = \<lparr>plat = go_platform, logf = (\<lambda>x. x - 1), trunc = (\<lambda>x. if 0 \<le> x then \<lfloor>x\<rfloor> else \<lceil>x\<rceil>), rnd = (\<lambda>_. 1 / 2), maxFloat = 10 ^ 38,
     csort = sort_key dist, rsort = sort_key Distance\<rparr>"

lemma ex_env_ok: "env_ok ex_env"
  using asc.slice_sorter_axioms [of "dist :: rat candidate \<Rightarrow> rat"] asc.slice_sorter_axioms [of "Distance :: rat SearchResult \<Rightarrow> rat"]
  by (simp add: env_ok_def ex_env_def go_platform_agrees near_def [abs_def])

definition ex_pool :: "nat \<Rightarrow> visitedTracker" where
  "ex_pool = (\<lambda>_. fresh_tracker)"

lemma ex_pool_ok [simp]: "trackers_ok ex_pool"
  by (simp add: trackers_ok_def ex_pool_def)

definition ex_hn_ops :: "rat hn_op list" where
  "ex_hn_ops = [HInsert 1 [0], HInsert 2 [5], HInsert 3 [1, 2], HDelete 2, HDrain ex_pool, HDelete 1]"

definition ex_new :: "rat HNSWIndex" where
  "ex_new = (case NewHNSWIndex ex_env 1 16 0 0 ''l2'' of Inr h \<Rightarrow> h)"

lemma ex_new: "NewHNSWIndex ex_env 1 16 0 0 ''l2'' = Inr ex_new"
  by (simp add: ex_new_def NewHNSWIndex_def GetDistanceFunc_def Let_def)

lemma ex_ops_ok: "\<forall>x \<in> set ex_hn_ops. op_ok x \<and> no_rebuild x" "(16::int) \<noteq> 1"
  by (simp_all add: ex_hn_ops_def)

lemma ex_spec_run:
  "spec_hn_run 1 ex_hn_ops \<lparr>stored = Map.empty, known = {}, queue = []\<rparr> =
    (\<lparr>stored = [2 \<mapsto> [5]], known = {1, 2}, queue = []\<rparr>,
     [None, None, Some (Newf ErrDimensionMismatch), Some (Newf ErrVectorNotFound), None, None])"
  by (auto simp: ex_hn_ops_def spec_drain_def spec_Insert_def fun_eq_iff)

lemma ex_reached:
  obtains h es where "hn_run ex_env ex_hn_ops ex_new = Inr (h, es)" "hn_reachable ex_env h" "hn_inv h" "exact h" "hn_dim h = 1"
    "hn_vecs h = [2 \<mapsto> [5]]" "dom (idToNode h) = {1, 2}" "dirty h = []"
proof -
  note N = NewHNSWIndex_ok [OF ex_env_ok ex_ops_ok(2) ex_new]
  obtain h es where r: "hn_run ex_env ex_hn_ops ex_new = Inr (h, es)" "hn_inv h" "hn_dim h = 1"
    using hn_run_inv [OF ex_env_ok N(1), of ex_hn_ops] ex_ops_ok(1) N(3) by auto
  have "exact h \<and> (hn_abs h, es) = spec_hn_run 1 ex_hn_ops \<lparr>stored = Map.empty, known = {}, queue = []\<rparr>"
    using hn_run_refines [OF ex_env_ok N(1,2) ex_ops_ok(1)] r(1) N(3,4) by auto
  moreover have "hn_reachable ex_env h" unfolding hn_reachable_def using ex_new r(1) ex_ops_ok by blast
  ultimately show ?thesis using that r ex_spec_run by (auto simp: hn_abs_def)
qed


subsection \<open>Correctness of the index\<close>

lemma ex_entry:
  assumes "hn_inv h" "2 \<in> dom (hn_vecs h)"
  shows "\<exists>e. entryPoint h = Some e" "nodes h \<noteq> []"
proof -
  obtain j where "idToNode h 2 = Some j" using assms(2) dom_hn_vecs [of 2 h] by blast
  then show "nodes h \<noteq> []" using ids_okD(1) [OF hn_invD(2) [OF assms(1)]] by fastforce
  then show "\<exists>e. entryPoint h = Some e" using graph_invD(4) [OF hn_invD(1) [OF assms(1)]] by auto
qed

text \<open>C2. A well-formed HNSW index does not go wrong: from a new index whose \<open>m\<close> is not 1 (for \<open>m = 1\<close> the level factor is \<open>1 / math.Log(1)\<close>,
  infinite, and the first insertion panics), no sequence of inserts, deletes, drains of the
  dirty buffer and rebuilds panics (no index of a slice or a buffer is out of range, no neighbour list is
  overrun), whatever state the pooled trackers are in; the graph invariant holds in the state
  reached, and none of the three searches panics there, for any query, \<open>k\<close>, \<open>nprobe\<close>, filter and context.
  Where the platform has SIMD, its batch kernels are assumed to compute the distances (\<open>env_ok\<close>): true of the C
  kernels of an AVX2 or NEON build (theory \<open>Simd_Kernels\<close>), but not of the stubs of a build without them, which panic.\<close>

theorem hnsw_never_goes_wrong:
  assumes "env_ok E" "NewHNSWIndex E d m efc efs metric = Inr h0" "m \<noteq> 1" "\<forall>x \<in> set xs. op_ok x"
  shows "\<exists>h es. hn_run E xs h0 = Inr (h, es) \<and> hn_inv h \<and>
    (\<forall>ctx vt q k nprobe S bits. tracker_ok vt \<longrightarrow> (\<exists>r. hn_Search E ctx vt q k nprobe h = Inr r) \<and>
      (\<exists>r. SearchFiltered E ctx vt q k nprobe S h = Inr r) \<and> (\<exists>r. SearchFilteredBitmap E ctx vt q k nprobe bits h = Inr r))"
proof -
  obtain h es where "hn_run E xs h0 = Inr (h, es)" "hn_inv h"
    using hn_run_inv [OF assms(1) NewHNSWIndex_ok(1) [OF assms(1,3,2)] assms(4)] by blast
  then show ?thesis by (intro exI [of _ h] exI [of _ es]) (simp add: searches_total [OF assms(1)])
qed

theorem hnsw_never_goes_wrong_witness:
  "\<exists>h es. hn_run ex_env (ex_hn_ops @ [HRebuild ex_pool ex_pool]) ex_new = Inr (h, es) \<and> hn_inv h \<and>
    (\<exists>r. hn_Search ex_env (\<lambda>_. None) fresh_tracker [3] 5 0 h = Inr r)"
  using hnsw_never_goes_wrong [OF ex_env_ok ex_new ex_ops_ok(2), of "ex_hn_ops @ [HRebuild ex_pool ex_pool]"] ex_ops_ok(1)
    tracker_ok_fresh by fastforce

text \<open>C3. The HNSW index refines a store with a queue: from a new index with \<open>m\<close> other than 1, on any sequence of
  inserts, deletes and drains, without a \<open>Rebuild\<close> (which exchanges vectors, \<open>Rebuild_exchanges_vectors\<close>) and on a
  platform whose batch kernels compute the distances, the vectors in the graph, the identifiers it knows and the
  dirty buffer are those of the specification, and so is every error. An insert is only queued and never reports a duplicate; the drain applies the queue in order and
  keeps the first of two live vectors with one identifier; a delete does not see the queue, and succeeds on an
  identifier deleted before. \<open>Len\<close> counts the live vectors and the queue.\<close>

theorem hnsw_refines_buffered_store:
  assumes "env_ok E" "NewHNSWIndex E d m efc efs metric = Inr h0" "m \<noteq> 1" "\<forall>x \<in> set xs. op_ok x \<and> no_rebuild x"
  shows "\<exists>h es. hn_run E xs h0 = Inr (h, es) \<and>
    (hn_abs h, es) = spec_hn_run (nat d) xs \<lparr>stored = Map.empty, known = {}, queue = []\<rparr> \<and>
    hn_Len h = int (card (dom (stored (hn_abs h)))) + int (length (queue (hn_abs h)))"
proof -
  note N = NewHNSWIndex_ok [OF assms(1,3,2)]
  obtain h es where r: "hn_run E xs h0 = Inr (h, es)" "hn_inv h"
    using hn_run_inv [OF assms(1) N(1), of xs] assms(4) by blast
  moreover have "(hn_abs h, es) = spec_hn_run (nat d) xs \<lparr>stored = Map.empty, known = {}, queue = []\<rparr>"
    using hn_run_refines [OF assms(1) N(1,2) assms(4)] r(1) N(3,4) by auto
  moreover have "hn_Len h = int (card (dom (stored (hn_abs h)))) + int (length (queue (hn_abs h)))"
    using hn_Len_card [OF r(2)] by (simp add: hn_abs_def)
  ultimately show ?thesis by blast
qed

theorem hnsw_refines_buffered_store_witness:
  "\<exists>h es. hn_run ex_env ex_hn_ops ex_new = Inr (h, es) \<and> stored (hn_abs h) = [2 \<mapsto> [5]] \<and> hn_Len h = 1 \<and>
     es = [None, None, Some (Newf ErrDimensionMismatch), Some (Newf ErrVectorNotFound), None, None]"
proof -
  have "nat 1 = (1 :: nat)" by simp
  then show ?thesis
    using hnsw_refines_buffered_store [OF ex_env_ok ex_new ex_ops_ok(2,1), unfolded \<open>nat 1 = 1\<close> ex_spec_run] by auto
qed

text \<open>C4. A search that is not cancelled answers correctly: at most \<open>k\<close> results, closest first, each a pending vector or
  a stored live vector with its own distance and score; a pending vector is missing only if \<open>k\<close> results at most
  as far away displace it; and with a tracker that \<open>nextGen\<close> has advanced and a beam at least as wide as the graph the same
  holds for every live node that the links of layer 0 reach from the node where the descent ends.\<close>

theorem hnsw_search_finds:
  assumes "env_ok E" "hn_reachable E h" "length q = hn_dim h" "0 < k" "tracker_ok vt" "\<And>c. ctx c = None"
  shows "\<exists>ep rs. (\<forall>e. entryPoint h = Some e \<longrightarrow> descend (\<lambda>ep l. greedyClosest E h q ep l) (maxLevel h) 0 e = Inr ep) \<and>
    hn_Search E ctx vt q k nprobe h = Inr (Inr rs) \<and> finds E h q (nat k) ep (clean vt \<and> length (nodes h) \<le> search_ef h k nprobe) rs"
  using hn_Search_finds [OF assms(1) hn_reachable_inv [OF assms(1,2)] assms(3-6)] .

theorem hnsw_search_finds_witness:
  "\<exists>h es ep rs. hn_run ex_env ex_hn_ops ex_new = Inr (h, es) \<and> hn_vecs h = [2 \<mapsto> [5]] \<and>
     hn_Search ex_env (\<lambda>_. None) (nextGen fresh_tracker) [3] 5 0 h = Inr (Inr rs) \<and>
     finds ex_env h [3] 5 ep (length (nodes h) \<le> search_ef h 5 0) rs"
proof -
  have c: "clean (nextGen fresh_tracker)" by (simp add: nextGen_clean)
  obtain h es where h: "hn_run ex_env ex_hn_ops ex_new = Inr (h, es)" "hn_reachable ex_env h" "hn_dim h = 1" "hn_vecs h = [2 \<mapsto> [5]]"
    by (rule ex_reached)
  show ?thesis
    using hnsw_search_finds [OF ex_env_ok h(2), of "[3]" 5 "nextGen fresh_tracker" "\<lambda>_. None" 0] c clean_ok [OF c] h by auto
qed

text \<open>C22. The greedy descent on a layer terminates in a local minimum: after at most as many passes over a neighbour
  list as there are vectors, \<open>greedyClosest\<close> returns a node of the layer none of whose live neighbours is
  closer to the query.\<close>

theorem greedy_descent_terminates:
  assumes "env_ok E" "hn_reachable E h" "on_layer h l ep"
  shows "\<exists>k ep'. (pass_to E h pass_all q l ^^ k) ep ep' \<and> k \<le> length (vectorOffsets h) \<and>
    greedyClosest E h q ep l = Inr ep' \<and> on_layer h l ep' \<and>
    (\<forall>f \<in> set (lfriends h l ep') - deleted h. ndist E h q ep' \<le> ndist E h q f)"
  by (rule greedyClosest_passes [OF assms(1) hn_reachable_inv [OF assms(1,2)] assms(3)])

theorem greedy_descent_terminates_witness:
  "\<exists>h es e. hn_run ex_env ex_hn_ops ex_new = Inr (h, es) \<and> entryPoint h = Some e \<and>
    (\<exists>ep'. greedyClosest ex_env h [3] e 0 = Inr ep' \<and> (\<forall>f \<in> set (lfriends h 0 ep') - deleted h. ndist ex_env h [3] ep' \<le> ndist ex_env h [3] f))"
proof -
  obtain h es where h: "hn_run ex_env ex_hn_ops ex_new = Inr (h, es)" "hn_reachable ex_env h" "hn_inv h" "hn_vecs h = [2 \<mapsto> [5]]"
    by (rule ex_reached)
  obtain e where e: "entryPoint h = Some e" using ex_entry [OF h(3)] h(4) by auto
  have "on_layer h 0 e" using entry_on_layer(2) [OF hn_invD(1) [OF h(3)] e] by (rule on_layer_lower) simp
  then show ?thesis using greedy_descent_terminates [OF ex_env_ok h(2), of 0 e "[3]"] h(1) e by blast
qed


subsection \<open>Pending vectors reach the graph\<close>

text \<open>An infinite run: the state before each of its operations.\<close>

definition hn_trace :: "'f hnsw_env \<Rightarrow> (nat \<Rightarrow> 'f hn_op) \<Rightarrow> (nat \<Rightarrow> 'f::linordered_field HNSWIndex) \<Rightarrow> bool" where
  "hn_trace E ev s \<longleftrightarrow> (\<forall>n. op_ok (ev n) \<and> (\<exists>e. hn_exec E (ev n) (s n) = Inr (s (Suc n), e)))"

definition drains :: "'f hn_op \<Rightarrow> bool" where
  "drains x \<longleftrightarrow> (case x of HInsert _ _ \<Rightarrow> False | HDelete _ \<Rightarrow> False | _ \<Rightarrow> True)"

lemma hn_trace_inv: "env_ok E \<Longrightarrow> hn_trace E ev s \<Longrightarrow> hn_inv (s 0) \<Longrightarrow> hn_inv (s n)"
proof (induction n)
  case (Suc n)
  then obtain e where "hn_exec E (ev n) (s n) = Inr (s (Suc n), e)" "op_ok (ev n)" by (auto simp: hn_trace_def)
  with hn_exec_inv [OF Suc.prems(1) _ Suc.IH [OF Suc.prems]] show ?case by fastforce
qed

lemma exec_keeps_pending:
  assumes "hn_exec E x h = Inr (h', e)" "\<not> drains x"
  shows "set (dirty h) \<subseteq> set (dirty h')"
  using assms by (cases x) (auto simp: drains_def hn_Insert_def hn_Delete_def split: if_splits option.splits)

lemma exec_drains:
  assumes "env_ok E" "op_ok x" "hn_inv h" "hn_exec E x h = Inr (h', e)" "drains x"
  shows "fst ` set (dirty h) \<subseteq> dom (hn_vecs h')"
proof -
  have D: "fst ` set (dirty h) \<subseteq> dom (hn_vecs h')" if P: "trackers_ok pool" and X: "hn_exec E (HDrain pool) h = Inr (h', e)" for pool
  proof -
    obtain dr where "drainDirtyBuffer E pool h = Inr (h', dr)" using X by (auto simp: go_bind_eq_Inr)
    from drain_dom [OF assms(1) _ assms(3) this] P show ?thesis by (simp add: trackers_ok_def)
  qed
  show ?thesis
  proof (cases x)
    case (HDrain pool)
    then show ?thesis using D [of pool] assms(2,4) by simp
  next
    case (HTick pool)
    then show ?thesis using D [of pool] assms(2,4) by (simp add: hn_exec_tick del: hn_exec.simps)
  next
    case (HRebuild pool pool')
    obtain h1 dr where 1: "drainDirtyBuffer E pool h = Inr (h1, dr)" "hn_inv h1"
      using drain_ok [OF assms(1) _ assms(3), of pool] assms(2) HRebuild by (auto simp: trackers_ok_def)
    have d: "dom (hn_vecs h1) = dom (hn_vecs h) \<union> fst ` set (dirty h)"
      using drain_dom [OF assms(1) _ assms(3) 1(1)] assms(2) HRebuild by (simp add: trackers_ok_def)
    have "dom (hn_vecs h') = dom (hn_vecs h1)"
      using Rebuild_dom [OF assms(1) _ _ assms(3), of pool pool' h' e h1 dr] assms(2,4) HRebuild 1(1) by simp
    then show ?thesis using d by blast
  qed (use assms(5) in \<open>simp_all add: drains_def\<close>)
qed

lemma pending_until_drain:
  assumes t: "hn_trace E ev s" and p: "(i, v) \<in> set (dirty (s n))" and d: "drains (ev (n + k))"
  shows "\<exists>m \<ge> n. drains (ev m) \<and> (\<forall>j. n \<le> j \<and> j \<le> m \<longrightarrow> (i, v) \<in> set (dirty (s j)))"
  using p d
proof (induction k arbitrary: n)
  case 0
  then show ?case by (intro exI [of _ n]) (auto simp: le_antisym)
next
  case (Suc k)
  obtain e where e: "hn_exec E (ev n) (s n) = Inr (s (Suc n), e)" "op_ok (ev n)" using t by (auto simp: hn_trace_def)
  show ?case
  proof (cases "drains (ev n)")
    case True
    then show ?thesis using Suc.prems(1) by (intro exI [of _ n]) (auto simp: le_antisym)
  next
    case False
    then have "(i, v) \<in> set (dirty (s (Suc n)))" using exec_keeps_pending [OF e(1)] Suc.prems(1) by blast
    then obtain m where "m \<ge> Suc n" "drains (ev m)" "\<forall>j. Suc n \<le> j \<and> j \<le> m \<longrightarrow> (i, v) \<in> set (dirty (s j))"
      using Suc.IH [of "Suc n"] Suc.prems(2) by auto
    then show ?thesis using Suc.prems(1) by (intro exI [of _ m]) (metis Suc_leD Suc_leI le_neq_implies_less)
  qed
qed

lemma spec_drain_first:
  "\<forall>(i, v) \<in> set ps. length v = d \<Longrightarrow>
     spec_drain d ps m i = (case m i of Some w \<Rightarrow> Some w | None \<Rightarrow> map_of ps i)"
proof (induction ps arbitrary: m)
  case (Cons p ps)
  obtain k v where p: "p = (k, v)" by fastforce
  have "spec_drain d (p # ps) m = spec_drain d ps (fst (spec_Insert d k v m))" by (simp add: spec_drain_def p)
  moreover have "\<forall>(i, v) \<in> set ps. length v = d" "length v = d" using Cons.prems by (simp_all add: p)
  ultimately show ?case using Cons.IH by (auto simp: p spec_Insert_def split: option.split)
qed (simp add: spec_drain_def split: option.split)

lemma hn_trace_exact:
  assumes "env_ok E" "hn_trace E ev s" "hn_inv (s 0)" "exact (s 0)" "\<forall>j < n. no_rebuild (ev j)"
  shows "exact (s n)"
  using assms(5)
proof (induction n)
  case (Suc n)
  obtain e where e: "hn_exec E (ev n) (s n) = Inr (s (Suc n), e)" "op_ok (ev n)" using assms(2) by (auto simp: hn_trace_def)
  have "exact (s n)" "no_rebuild (ev n)" using Suc by auto
  with hn_exec_refines [OF assms(1) e(2) _ hn_trace_inv [OF assms(1-3)]] e(1) show ?case by fastforce
qed (simp add: assms(4))

lemma drained_vectors:
  assumes "env_ok E" "op_ok x" "hn_inv h" "exact h" "no_rebuild x" "drains x" "hn_exec E x h = Inr (h', e)"
  shows "hn_vecs h' i = (case hn_vecs h i of Some w \<Rightarrow> Some w | None \<Rightarrow> map_of (dirty h) i)" "dirty h' = []"
proof -
  have "(hn_abs h', e) = spec_exec (hn_dim h) x (hn_abs h)" using hn_exec_refines [OF assms(1,2,5,3,4)] assms(7) by auto
  then have "hn_vecs h' = spec_drain (hn_dim h) (dirty h) (hn_vecs h)" and d: "dirty h' = []"
    using assms(5,6) by (cases x; simp add: hn_abs_def drains_def)+
  then show "hn_vecs h' i = (case hn_vecs h i of Some w \<Rightarrow> Some w | None \<Rightarrow> map_of (dirty h) i)" "dirty h' = []"
    using spec_drain_first [of "dirty h" "hn_dim h" "hn_vecs h" i] hn_invD(3) [OF assms(3)] by auto
qed

text \<open>C21. Every queued insert reaches the graph or is superseded: in an infinite run of a new index, with \<open>m\<close> other than 1
  and batch kernels that compute the distances, in which the ticker of the background applier fires again and again, a vector in the dirty buffer stays there, where searches see
  it, up to a drain after which the graph has a live vector of its identifier. As long as no \<open>Rebuild\<close> ran, that
  vector is the one the identifier already had in the graph, if it had one, and otherwise the first one
  queued for it; a later duplicate in the queue is dropped without an error.\<close>

theorem applier_applies_pending:
  assumes "env_ok E" "m \<noteq> 1" "NewHNSWIndex E d m efc efs metric = Inr (s 0)" "hn_trace E ev s"
    "\<And>n. \<exists>k \<ge> n. \<exists>pool. ev k = HTick pool" "(i, v) \<in> set (dirty (s n))"
  shows "\<exists>k \<ge> n. (\<forall>j. n \<le> j \<and> j \<le> k \<longrightarrow> (i, v) \<in> set (dirty (s j))) \<and> i \<in> dom (hn_vecs (s (Suc k))) \<and>
    ((\<forall>j \<le> k. no_rebuild (ev j)) \<longrightarrow> dirty (s (Suc k)) = [] \<and>
       hn_vecs (s (Suc k)) i = (case hn_vecs (s k) i of Some w \<Rightarrow> Some w | None \<Rightarrow> map_of (dirty (s k)) i))"
proof -
  note N = NewHNSWIndex_ok [OF assms(1-3)]
  obtain k0 pool where "k0 \<ge> n" "ev k0 = HTick pool" using assms(5) by blast
  then have "drains (ev (n + (k0 - n)))" by (simp add: drains_def)
  from pending_until_drain [OF assms(4,6) this] obtain k where k: "k \<ge> n" "drains (ev k)"
    "\<forall>j. n \<le> j \<and> j \<le> k \<longrightarrow> (i, v) \<in> set (dirty (s j))" by blast
  obtain e where e: "hn_exec E (ev k) (s k) = Inr (s (Suc k), e)" "op_ok (ev k)" using assms(4) by (auto simp: hn_trace_def)
  note inv = hn_trace_inv [OF assms(1,4) N(1), of k]
  have "(i, v) \<in> set (dirty (s k))" using k(1,3) by simp
  then have "i \<in> dom (hn_vecs (s (Suc k)))" using exec_drains [OF assms(1) e(2) inv e(1) k(2)] by force
  moreover have "dirty (s (Suc k)) = [] \<and>
       hn_vecs (s (Suc k)) i = (case hn_vecs (s k) i of Some w \<Rightarrow> Some w | None \<Rightarrow> map_of (dirty (s k)) i)"
    if nr: "\<forall>j \<le> k. no_rebuild (ev j)"
  proof -
    have "exact (s k)" using hn_trace_exact [OF assms(1,4) N(1,2)] nr by simp
    with drained_vectors [OF assms(1) e(2) inv _ _ k(2) e(1)] nr show ?thesis by blast
  qed
  ultimately show ?thesis using k by blast
qed

primrec ex_trace :: "nat \<Rightarrow> rat HNSWIndex" where
  "ex_trace 0 = ex_new"
| "ex_trace (Suc n) =
     (case hn_exec ex_env (if n = 0 then HInsert 7 [4] else if n = 1 then HInsert 7 [6] else HTick ex_pool) (ex_trace n) of
        Inr (h, _) \<Rightarrow> h | Inl _ \<Rightarrow> ex_new)"

theorem applier_applies_pending_witness:
  "\<exists>k \<ge> 2. (\<forall>j. 2 \<le> j \<and> j \<le> k \<longrightarrow> (7, [6]) \<in> set (dirty (ex_trace j))) \<and> 7 \<in> dom (hn_vecs (ex_trace (Suc k))) \<and>
     hn_vecs (ex_trace (Suc k)) 7 = (case hn_vecs (ex_trace k) 7 of Some w \<Rightarrow> Some w | None \<Rightarrow> map_of (dirty (ex_trace k)) 7)"
proof -
  have N0: "NewHNSWIndex ex_env 1 16 0 0 ''l2'' = Inr (ex_trace 0)" by (simp add: ex_new)
  note N = NewHNSWIndex_ok [OF ex_env_ok ex_ops_ok(2) ex_new]
  let ?ev = "\<lambda>n. if n = (0::nat) then HInsert 7 [4 :: rat] else if n = 1 then HInsert 7 [6] else HTick ex_pool"
  have ok: "op_ok (?ev n)" "no_rebuild (?ev n)" for n by simp_all
  have inv: "hn_inv (ex_trace n)" for n
  proof (induction n)
    case (Suc n)
    then show ?case using hn_exec_inv [OF ex_env_ok ok(1), of "ex_trace n" n] by fastforce
  qed (simp add: N(1))
  have t: "hn_trace ex_env ?ev ex_trace"
    unfolding hn_trace_def
  proof (intro allI conjI)
    fix n show "op_ok (?ev n)" by simp
    obtain h' e where "hn_exec ex_env (?ev n) (ex_trace n) = Inr (h', e)" using hn_exec_inv [OF ex_env_ok ok(1) inv] by blast
    then show "\<exists>e. hn_exec ex_env (?ev n) (ex_trace n) = Inr (ex_trace (Suc n), e)" by simp
  qed
  have "ex_trace 2 = fst (hn_Insert 7 [6] (fst (hn_Insert 7 [4] ex_new)))" by (simp add: numeral_2_eq_2 case_prod_unfold)
  then have p: "(7, [6]) \<in> set (dirty (ex_trace 2))" using N(3) by (simp add: hn_Insert_def)
  have f: "\<exists>m \<ge> n. \<exists>pool. ?ev m = HTick pool" for n by (rule exI [of _ "n + 2"]) simp
  show ?thesis using applier_applies_pending [OF ex_env_ok ex_ops_ok(2) N0 t f p] ok(2) by blast
qed

subsection \<open>Where the index does not do what it means to\<close>

text \<open>The background applier makes the index depend on more than the order of the calls. An insert, a tick and a
  delete leave no vector; the insert and the delete alone, which is what the write-ahead log replays after a
  restart, make the delete fail, and the next tick stores the vector.\<close>

theorem replayed_delete_misses_queue:
  assumes "env_ok E" "NewHNSWIndex E d m efc efs metric = Inr h0" "m \<noteq> 1" "length v = nat d" "trackers_ok pool" "trackers_ok pool'"
  shows "\<exists>h h'. hn_run E [HInsert i v, HTick pool, HDelete i] h0 = Inr (h, [None, None, None]) \<and>
      hn_abs h = \<lparr>stored = Map.empty, known = {i}, queue = []\<rparr> \<and>
    hn_run E [HInsert i v, HDelete i, HTick pool'] h0 = Inr (h', [None, Some (Newf ErrVectorNotFound), None]) \<and>
      hn_abs h' = \<lparr>stored = [i \<mapsto> v], known = {i}, queue = []\<rparr>"
proof -
  note N = NewHNSWIndex_ok [OF assms(1,3,2)]
  let ?xs = "[HInsert i v, HTick pool, HDelete i]" and ?ys = "[HInsert i v, HDelete i, HTick pool']"
  have sx: "spec_hn_run (nat d) ?xs \<lparr>stored = Map.empty, known = {}, queue = []\<rparr> =
      (\<lparr>stored = Map.empty, known = {i}, queue = []\<rparr>, [None, None, None])"
    and sy: "spec_hn_run (nat d) ?ys \<lparr>stored = Map.empty, known = {}, queue = []\<rparr> =
      (\<lparr>stored = [i \<mapsto> v], known = {i}, queue = []\<rparr>, [None, Some (Newf ErrVectorNotFound), None])"
    using assms(4) by (simp_all add: spec_drain_def spec_Insert_def)
  have "\<forall>x \<in> set ?xs. op_ok x \<and> no_rebuild x" "\<forall>x \<in> set ?ys. op_ok x \<and> no_rebuild x" using assms(5,6) by simp_all
  from hn_run_refines [OF assms(1) N(1,2) this(1)] hn_run_refines [OF assms(1) N(1,2) this(2)] show ?thesis
    by (auto simp only: N(3,4) sx sy prod.inject)
qed

theorem replayed_delete_misses_queue_witness:
  "\<exists>h'. hn_run ex_env [HInsert 7 [4], HDelete 7, HTick ex_pool] ex_new = Inr (h', [None, Some (Newf ErrVectorNotFound), None]) \<and>
    hn_vecs h' = [7 \<mapsto> [4]]"
  using replayed_delete_misses_queue [OF ex_env_ok ex_new ex_ops_ok(2) _ ex_pool_ok ex_pool_ok, of "[4]" 7] by (auto simp: hn_abs_def)

text \<open>A tracker fresh from \<open>visitedPool\<close> blinds a search: its marks are all 0 and so is its generation, \<open>Search\<close>
  calls \<open>nextGen\<close> only after the beam search, so every neighbour counts as visited and the answer is at most
  the one node where the descent ends, whatever \<open>k\<close>, \<open>nprobe\<close> and the graph are.\<close>

theorem fresh_tracker_blinds_search:
  assumes "env_ok E" "hn_reachable E h" "length q = hn_dim h" "0 < k" "\<And>c. ctx c = None" "entryPoint h = Some e" "dirty h = []"
  shows "\<exists>ep. descend (\<lambda>ep l. greedyClosest E h q ep l) (maxLevel h) 0 e = Inr ep \<and>
    hn_Search E ctx fresh_tracker q k nprobe h = Inr (Inr (if ep \<in> deleted h then [] else [hit E h q ep]))"
  by (rule search_blind [OF assms(1) hn_reachable_inv [OF assms(1,2)] assms(3-7)])

theorem fresh_tracker_blinds_search_witness:
  "\<exists>h es rs. hn_run ex_env ex_hn_ops ex_new = Inr (h, es) \<and> hn_Search ex_env (\<lambda>_. None) fresh_tracker [3] 5 0 h = Inr (Inr rs) \<and> length rs \<le> 1"
proof -
  obtain h es where h: "hn_run ex_env ex_hn_ops ex_new = Inr (h, es)" "hn_reachable ex_env h" "hn_inv h" "hn_dim h = 1" "hn_vecs h = [2 \<mapsto> [5]]" "dirty h = []"
    by (rule ex_reached)
  obtain e where e: "entryPoint h = Some e" using ex_entry [OF h(3)] h(5) by auto
  obtain rs where "hn_Search ex_env (\<lambda>_. None) fresh_tracker [3] 5 0 h = Inr (Inr rs)" "length rs \<le> 1"
    using fresh_tracker_blinds_search [OF ex_env_ok h(2), of "[3]" 5 "\<lambda>_. None" e 0] e h(4,6) by fastforce
  then show ?thesis using h(1) by blast
qed

text \<open>A filtered search returns the node where its descent ends even if the filter excludes it or it is
  deleted: with \<open>k\<close> at least the number of nodes it is always among the results, and it is the only one the
  filter can have excluded. The check of the entry point in \<open>greedyClosestFiltered\<close> is made at layer 0, where the
  descent never goes.\<close>

theorem filtered_search_returns_entry:
  assumes "env_ok E" "hn_reachable E h" "length q = hn_dim h" "0 < k" "clean vt" "\<And>c. ctx c = None" "entryPoint h = Some e"
    "length (nodes h) \<le> nat k" "S \<noteq> {}" "dirty h = []"
  shows "\<exists>ep rs. descend (\<lambda>ep l. greedyClosestFiltered E h S q ep l) (maxLevel h) 0 e = Inr ep \<and>
    SearchFiltered E ctx vt q k nprobe S h = Inr (Inr rs) \<and> hit E h q ep \<in> set rs \<and> (\<forall>r \<in> set rs. r = hit E h q ep \<or> ID r \<in> S)"
  by (rule filtered_entry [OF assms(1) hn_reachable_inv [OF assms(1,2)] assms(3-10)])

theorem filtered_search_returns_entry_witness:
  "\<exists>h es r rs k. hn_run ex_env ex_hn_ops ex_new = Inr (h, es) \<and> dom (idToNode h) = {1, 2} \<and>
     SearchFiltered ex_env (\<lambda>_. None) (nextGen fresh_tracker) [3] k 0 {99} h = Inr (Inr (r # rs))"
proof -
  obtain h es where h: "hn_run ex_env ex_hn_ops ex_new = Inr (h, es)" "hn_reachable ex_env h" "hn_inv h" "hn_dim h = 1" "hn_vecs h = [2 \<mapsto> [5]]"
    "dom (idToNode h) = {1, 2}" "dirty h = []"
    by (rule ex_reached)
  have e: "\<exists>e. entryPoint h = Some e" "nodes h \<noteq> []" using ex_entry [OF h(3)] h(5) by auto
  then obtain e where e: "entryPoint h = Some e" "0 < int (length (nodes h))" by auto
  have "clean (nextGen fresh_tracker)" by (simp add: nextGen_clean)
  from filtered_search_returns_entry [OF ex_env_ok h(2) _ e(2) this, of "[3]" "\<lambda>_. None" e "{99}" 0]
  obtain rs x where "SearchFiltered ex_env (\<lambda>_. None) (nextGen fresh_tracker) [3] (int (length (nodes h))) 0 {99} h = Inr (Inr rs)" "x \<in> set rs"
    using e(1) h(4,7) by auto
  then show ?thesis using h(1,6) by (cases rs) auto
qed

text \<open>\<open>Rebuild\<close> exchanges the vectors: it empties the node table but neither the slab nor the offsets, so the
  node that the \<open>j\<close>-th live vector gets has the vector of the old node \<open>j\<close>, be that of another identifier or deleted.\<close>

theorem Rebuild_exchanges_vectors:
  assumes "env_ok E" "trackers_ok pool" "trackers_ok pool'" "hn_reachable E h" "dirty h = []" "deleted h \<noteq> {}"
  shows "\<exists>h'. hn_Rebuild E pool pool' h = Inr (h', None) \<and>
    (\<forall>j < length (filter (\<lambda>i. i \<notin> deleted h) [0..<length (nodes h)]).
       hn_vecs h' (nd_id (nodes h ! (filter (\<lambda>i. i \<notin> deleted h) [0..<length (nodes h)] ! j))) = Some (vec h j))"
  by (rule Rebuild_vecs [OF assms(1-3) hn_reachable_inv [OF assms(1,4)] assms(5,6)])

theorem Rebuild_exchanges_vectors_witness:
  "\<exists>h es h'. hn_run ex_env ex_hn_ops ex_new = Inr (h, es) \<and> hn_vecs h = [2 \<mapsto> [5]] \<and>
     hn_Rebuild ex_env ex_pool ex_pool h = Inr (h', None) \<and> hn_vecs h' 2 = Some (vec h 0)"
proof -
  obtain h es where h: "hn_run ex_env ex_hn_ops ex_new = Inr (h, es)" "hn_reachable ex_env h" "hn_inv h" "hn_vecs h = [2 \<mapsto> [5]]"
    "dom (idToNode h) = {1, 2}" "dirty h = []"
    by (rule ex_reached)
  note ids = ids_okD [OF hn_invD(2) [OF h(3)]]
  let ?live = "filter (\<lambda>i. i \<notin> deleted h) [0..<length (nodes h)]"
  obtain j where j: "idToNode h 1 = Some j" using h(5) by blast
  then have d: "j \<in> deleted h" using dom_hn_vecs [of 1 h] h(4) by auto
  have two: "nd_id (nodes h ! i) = 2" if "i \<in> set ?live" for i
    using that ids(3) [of i] dom_hn_vecs [of "nd_id (nodes h ! i)" h] h(4) by (auto split: if_splits)
  obtain i where "idToNode h 2 = Some i" "i \<notin> deleted h" using dom_hn_vecs [of 2 h] h(4) by auto
  then have "i \<in> set ?live" using ids(1) by simp
  then have "0 < length ?live" by (cases ?live) auto
  moreover from this have "nd_id (nodes h ! (?live ! 0)) = 2" by (intro two nth_mem)
  ultimately show ?thesis
    using Rebuild_exchanges_vectors [OF ex_env_ok ex_pool_ok ex_pool_ok h(2,6)] d h(1,4) by fastforce
qed

end
