(* ===== verification/Hnsw_Snapshot.thy ===== *)
theory Hnsw_Snapshot
  imports Hnsw_System Segment_File
begin

section \<open>Snapshots of the HNSW index\<close>

text \<open>
  Models \<open>internal/index/hnsw/snapshot.go\<close>: the binary format of a snapshot, its atomic writing on the file
  system of theory \<open>Segment_File\<close>, and its reading in two passes. \<open>bits\<close> and \<open>frombits\<close> are
  \<open>math.Float32bits\<close> and \<open>math.Float32frombits\<close>, \<open>sha\<close> is SHA-256, \<open>nilfn\<close> stands for the distance function of a
  loaded index, nil until \<open>SetDistanceFunc\<close> sets it. Writing to a \<open>bytes.Buffer\<close> does not fail.
\<close>

subsection \<open>Writing\<close>

record SnapshotHeader =
  sn_Magic :: bytes
  sn_Version :: u32
  sn_Dim :: u32
  sn_M :: u32
  NodeCount :: u64
  sn_MaxLevel :: u32 \<comment> \<open>the bits of an \<open>int32\<close>\<close>
  sn_EntryPoint :: u64 \<comment> \<open>the bits of an \<open>int64\<close>\<close>
  SeqID :: u64
  Endianness :: "16 word"
  sn_Checksum :: bytes

definition snapshotMagic :: bytes where
  "snapshotMagic = map (\<lambda>c. of_nat (of_char c)) ''HSNP''"

definition snapshotVersion :: u32 where
  "snapshotVersion = 2"

definition snapshotHeaderSize :: nat where
  "snapshotHeaderSize = 78"

definition endianLittle :: "16 word" where
  "endianLittle = 1"

definition encode_snapshot_header :: "SnapshotHeader \<Rightarrow> bytes" where
  "encode_snapshot_header s = sn_Magic s @ le_encode 4 (sn_Version s) @ le_encode 4 (sn_Dim s) @ le_encode 4 (sn_M s) @
     le_encode 8 (NodeCount s) @ le_encode 4 (sn_MaxLevel s) @ le_encode 8 (sn_EntryPoint s) @ le_encode 8 (SeqID s) @
     le_encode 2 (Endianness s) @ sn_Checksum s"

definition decode_snapshot_header :: "bytes \<Rightarrow> SnapshotHeader" where
  \<comment> \<open>of 78 bytes\<close>
  "decode_snapshot_header b =
     \<lparr>sn_Magic = take 4 b, sn_Version = le_decode (take 4 (drop 4 b)), sn_Dim = le_decode (take 4 (drop 8 b)),
      sn_M = le_decode (take 4 (drop 12 b)), NodeCount = le_decode (take 8 (drop 16 b)), sn_MaxLevel = le_decode (take 4 (drop 24 b)),
      sn_EntryPoint = le_decode (take 8 (drop 28 b)), SeqID = le_decode (take 8 (drop 36 b)),
      Endianness = le_decode (take 2 (drop 44 b)), sn_Checksum = take 32 (drop 46 b)\<rparr>"

definition encode_layer :: "nat list \<Rightarrow> bytes" where
  "encode_layer fs = le_encode 4 (of_nat (length fs) :: u32) @ concat (map (\<lambda>f. le_encode 4 (of_nat f :: u32)) fs)"

definition encode_node :: "('f \<Rightarrow> u32) \<Rightarrow> hnode \<Rightarrow> 'f list \<Rightarrow> bytes" where
  "encode_node bits n v = le_encode 8 (nd_id n) @ le_encode 4 (word_of_int (nd_level n) :: u32) @
     concat (map (\<lambda>x. le_encode 4 (bits x)) v) @ concat (map encode_layer (friends n))"

fun encode_nodes :: "('f \<Rightarrow> u32) \<Rightarrow> 'f HNSWIndex \<Rightarrow> nat list \<Rightarrow> bytes go" where
  \<comment> \<open>\<open>for i, n := range h.nodes\<close>\<close>
  "encode_nodes bits h [] = Inr []"
| "encode_nodes bits h (i # js) =
     go_bind (get_at (nodes h) i) (\<lambda>n. go_bind (nodeVector h i) (\<lambda>v. go_bind (encode_nodes bits h js) (\<lambda>rest.
       Inr (encode_node bits n v @ rest))))"

definition snapshot_header :: "(bytes \<Rightarrow> bytes) \<Rightarrow> 'f HNSWIndex \<Rightarrow> u64 \<Rightarrow> bytes \<Rightarrow> SnapshotHeader" where
  "snapshot_header sha h seqID dataBuf =
     \<lparr>sn_Magic = snapshotMagic, sn_Version = snapshotVersion, sn_Dim = of_nat (hn_dim h), sn_M = of_nat (hn_m h),
      NodeCount = of_nat (length (nodes h)), sn_MaxLevel = word_of_int (maxLevel h),
      sn_EntryPoint = (case entryPoint h of None \<Rightarrow> - 1 | Some e \<Rightarrow> of_nat e), SeqID = seqID, Endianness = endianLittle,
      sn_Checksum = sha dataBuf\<rparr>"

definition SnapshotToFile ::
  "(bytes \<Rightarrow> bytes) \<Rightarrow> ('f \<Rightarrow> u32) \<Rightarrow> (nat \<Rightarrow> outcome) \<Rightarrow> string \<Rightarrow> string \<Rightarrow> u64 \<Rightarrow> 'f HNSWIndex \<Rightarrow> fs \<Rightarrow> (error option exit \<times> fs) go" where
  \<comment> \<open>system calls: 0 mkdir, 1 create, 2 and 3 write, 4 fsync, 5 close, 6 rename, 7 open directory, 8 fsync directory,
    10 remove\<close>
  "SnapshotToFile sha bits io tmp path seqID h f =
     go_bind (encode_nodes bits h [0..<length (nodes h)]) (\<lambda>dataBuf.
       let hdr = encode_snapshot_header (snapshot_header sha h seqID dataBuf); clean = cleanup io tmp in Inr (
       syscall (io 0) (\<lambda>n. f) f (\<lambda>g. g) ''hnsw snapshot: creating dir'' (\<lambda>f0.
       syscall (io 1) (\<lambda>n. if n = 0 then f0 else f0(tmp \<mapsto> [])) (f0(tmp \<mapsto> [])) (\<lambda>g. g) ''hnsw snapshot: creating temp file'' (\<lambda>f1.
       syscall (io 2) (\<lambda>n. f1(tmp \<mapsto> take n hdr)) (f1(tmp \<mapsto> hdr)) clean ''hnsw snapshot: writing header'' (\<lambda>f2.
       syscall (io 3) (\<lambda>n. f2(tmp \<mapsto> hdr @ take n dataBuf)) (f2(tmp \<mapsto> hdr @ dataBuf)) clean ''hnsw snapshot: writing data'' (\<lambda>f3.
       syscall (io 4) (\<lambda>n. f3) f3 clean ''hnsw snapshot: fsync'' (\<lambda>f4.
       syscall (io 5) (\<lambda>n. f4) f4 clean ''hnsw snapshot: close'' (\<lambda>f5.
       let renamed = f5(tmp := None, path := f5 tmp) in
       syscall (io 6) (\<lambda>n. if n = 0 then f5 else renamed) renamed (\<lambda>g. g) ''hnsw snapshot: atomic rename'' (\<lambda>f6.
         case io 7 of Fails _ \<Rightarrow> (Returns None, f6) | Crashes _ \<Rightarrow> (Stops, f6)
         | Succeeds \<Rightarrow> (case io 8 of Crashes _ \<Rightarrow> (Stops, f6) | _ \<Rightarrow> (Returns None, f6)))))))))))"

definition hn_Flush ::
  "'f hnsw_env \<Rightarrow> (nat \<Rightarrow> visitedTracker) \<Rightarrow> (bytes \<Rightarrow> bytes) \<Rightarrow> ('f \<Rightarrow> u32) \<Rightarrow> (nat \<Rightarrow> outcome) \<Rightarrow> string \<Rightarrow> 'f::linordered_field HNSWIndex \<Rightarrow> fs \<Rightarrow>
    ('f HNSWIndex \<times> error option exit \<times> fs) go" where
  "hn_Flush E pool sha bits io tmp h f =
     go_bind (drainDirtyBuffer E pool h) (\<lambda>(h, _).
       if snapshotPath h = '''' then Inr (h, Returns None, f)
       else go_bind (SnapshotToFile sha bits io tmp (snapshotPath h) (snapshotSeqID h) h f) (\<lambda>(r, f). Inr (h, r, f)))"

subsection \<open>Reading\<close>

text \<open>A reader consumes a prefix of the bytes; it returns an error or panics.\<close>

type_synonym 'a rd = "bytes \<Rightarrow> (error + 'a \<times> bytes) go"

definition rd_ret :: "'a \<Rightarrow> 'a rd" where
  "rd_ret x = (\<lambda>b. Inr (Inr (x, b)))"

definition rd_bind :: "'a rd \<Rightarrow> ('a \<Rightarrow> 'b rd) \<Rightarrow> 'b rd" where
  "rd_bind p f = (\<lambda>b. go_bind (p b) (\<lambda>r. case r of Inl e \<Rightarrow> Inr (Inl e) | Inr (x, b') \<Rightarrow> f x b'))"

definition read_le :: "nat \<Rightarrow> string \<Rightarrow> ('a::len word) rd" where
  \<comment> \<open>\<open>binary.Read\<close> of an integer of \<open>n\<close> bytes\<close>
  "read_le n msg = (\<lambda>b. if length b < n then Inr (Inl (OtherError msg None)) else Inr (Inr (le_decode (take n b), drop n b)))"

definition seek :: "nat \<Rightarrow> unit rd" where
  \<comment> \<open>\<open>Seek\<close> of a \<open>bytes.Reader\<close> goes beyond the end without an error\<close>
  "seek n = (\<lambda>b. Inr (Inr ((), drop n b)))"

fun read_many :: "nat \<Rightarrow> 'a rd \<Rightarrow> 'a list rd" where
  "read_many 0 p = rd_ret []"
| "read_many (Suc n) p = rd_bind p (\<lambda>x. rd_bind (read_many n p) (\<lambda>xs. rd_ret (x # xs)))"

definition read_layer :: "int list rd" where
  "read_layer = rd_bind (read_le 4 ''hnsw snapshot: reading friend count'') (\<lambda>count :: u32.
     read_many (unat count) (rd_bind (read_le 4 ''hnsw snapshot: reading friend'') (\<lambda>idx :: u32. rd_ret (sint idx))))"

definition read_node :: "nat \<Rightarrow> (u64 \<times> int \<times> int list list) rd" where
  \<comment> \<open>first pass: the vector is read and forgotten\<close>
  "read_node d = rd_bind (read_le 8 ''hnsw snapshot: reading node id'') (\<lambda>nid.
     rd_bind (read_le 4 ''hnsw snapshot: reading node level'') (\<lambda>level :: u32.
     rd_bind (read_many d (read_le 4 ''hnsw snapshot: reading node vector'' :: u32 rd)) (\<lambda>_.
     if sint level + 1 < 0 then (\<lambda>_. Inl MakesliceLenOutOfRange)
     else rd_bind (read_many (nat (sint level + 1)) read_layer) (\<lambda>fs. rd_ret (nid, sint level, fs)))))"

definition skip_layer :: "unit rd" where
  \<comment> \<open>\<open>count*4\<close> is computed in \<open>uint32\<close>\<close>
  "skip_layer = rd_bind (read_le 4 ''hnsw snapshot: re-reading friend count'') (\<lambda>count :: u32. seek (unat (count * 4)))"

definition reread_vector :: "(u32 \<Rightarrow> 'f) \<Rightarrow> nat \<Rightarrow> int \<Rightarrow> 'f list rd" where
  "reread_vector frombits d level = rd_bind (seek 12) (\<lambda>_.
     rd_bind (read_many d (rd_bind (read_le 4 ''hnsw snapshot: re-reading vector'') (\<lambda>w. rd_ret (frombits w)))) (\<lambda>v.
     rd_bind (read_many (nat (level + 1)) skip_layer) (\<lambda>_. rd_ret v)))"

fun reread_all :: "(u32 \<Rightarrow> 'f) \<Rightarrow> nat \<Rightarrow> int list \<Rightarrow> 'f list list rd" where
  "reread_all frombits d [] = rd_ret []"
| "reread_all frombits d (l # ls) =
     rd_bind (reread_vector frombits d l) (\<lambda>v. rd_bind (reread_all frombits d ls) (\<lambda>vs. rd_ret (v # vs)))"

fun index_ids :: "nat \<Rightarrow> u64 list \<Rightarrow> (u64 \<rightharpoonup> nat) \<Rightarrow> (u64 \<rightharpoonup> nat)" where
  \<comment> \<open>\<open>idToNode[id] = i\<close>: a later node with the same identifier wins\<close>
  "index_ids i [] m = m"
| "index_ids i (x # xs) m = index_ids (Suc i) xs (m(x \<mapsto> i))"

definition loaded_index ::
  "'f hnsw_env \<Rightarrow> metric_fn \<Rightarrow> SnapshotHeader \<Rightarrow> (u64 \<times> int \<times> int list list) list \<Rightarrow> 'f list list \<Rightarrow> 'f::linordered_field HNSWIndex" where
  "loaded_index E nilfn hdr ns vs =
     \<lparr>hn_dim = unat (sn_Dim hdr), hn_metric = ''l2'', distFn = nilfn, hn_m = unat (sn_M hdr), mMax0 = 2 * unat (sn_M hdr),
      efConstruction = 200, efSearch = 50, mL = 1 / logf E (of_nat (unat (sn_M hdr))), maxLevel = sint (sn_MaxLevel hdr),
      entryPoint = (if sint (sn_EntryPoint hdr) < 0 then None else Some (nat (sint (sn_EntryPoint hdr)))),
      nodes = map (\<lambda>(nid, level, fs). \<lparr>nd_id = nid, nd_level = level, friends = map (map nat) fs\<rparr>) ns,
      idToNode = index_ids 0 (map fst ns) Map.empty, vectorSlab = concat vs,
      vectorOffsets = map (\<lambda>i. length (concat (take i vs))) [0..<length vs], rng = 0, deleted = {}, snapshotPath = '''',
      snapshotSeqID = 0, dirty = []\<rparr>"

definition representable :: "SnapshotHeader \<Rightarrow> (u64 \<times> int \<times> int list list) list \<Rightarrow> bool" where
  \<comment> \<open>no negative node index but the entry point -1\<close>
  "representable hdr ns \<longleftrightarrow> - 1 \<le> sint (sn_EntryPoint hdr) \<and> (\<forall>(_, _, fs) \<in> set ns. \<forall>l \<in> set fs. \<forall>f \<in> set l. 0 \<le> f)"

definition LoadHNSWFromSnapshot ::
  "'f hnsw_env \<Rightarrow> (bytes \<Rightarrow> bytes) \<Rightarrow> (u32 \<Rightarrow> 'f) \<Rightarrow> metric_fn \<Rightarrow> string \<Rightarrow> fs \<Rightarrow> (error + 'f::linordered_field HNSWIndex \<times> u64) go" where
  \<comment> \<open>a negative node index, which no snapshot written by the code has, is the panic its first use would be\<close>
  "LoadHNSWFromSnapshot E sha frombits nilfn path f =
     (case f path of None \<Rightarrow> Inr (Inl (OtherError ''hnsw snapshot: reading file'' None))
      | Some raw \<Rightarrow>
          if length raw < snapshotHeaderSize then Inr (Inl (OtherError ''hnsw snapshot: file too small'' None))
          else let hdr = decode_snapshot_header (take snapshotHeaderSize raw); dataBytes = drop snapshotHeaderSize raw in
          if sn_Magic hdr \<noteq> snapshotMagic then Inr (Inl (OtherError ''hnsw snapshot: invalid magic bytes'' None))
          else if sn_Version hdr \<noteq> snapshotVersion then Inr (Inl (OtherError ''hnsw snapshot: unsupported version'' None))
          else if Endianness hdr \<noteq> endianLittle then Inr (Inl (OtherError ''hnsw snapshot: endianness mismatch'' None))
          else if sha dataBytes \<noteq> sn_Checksum hdr then Inr (Inl (OtherError ''hnsw snapshot: checksum mismatch'' None))
          else if sint (NodeCount hdr) < 0 then Inl MakesliceLenOutOfRange
          else go_bind (read_many (unat (NodeCount hdr)) (read_node (unat (sn_Dim hdr))) dataBytes) (\<lambda>r.
            case r of Inl e \<Rightarrow> Inr (Inl e)
            | Inr (ns, _) \<Rightarrow>
                go_bind (reread_all frombits (unat (sn_Dim hdr)) (map (fst \<circ> snd) ns) dataBytes) (\<lambda>r.
                case r of Inl e \<Rightarrow> Inr (Inl e)
                | Inr (vs, _) \<Rightarrow>
                    if representable hdr ns then Inr (Inr (loaded_index E nilfn hdr ns vs, SeqID hdr)) else Inl IndexOutOfRange)))"


subsection \<open>A snapshot file is written atomically\<close>

lemma length_snapshot_header: "length (sn_Magic s) = 4 \<Longrightarrow> length (sn_Checksum s) = 32 \<Longrightarrow> length (encode_snapshot_header s) = 78"
  by (simp add: encode_snapshot_header_def)

lemma decode_encode_snapshot_header:
  assumes "length (sn_Magic s) = 4" "length (sn_Checksum s) = 32"
  shows "decode_snapshot_header (encode_snapshot_header s) = s"
proof -
  have "le_decode (le_encode 4 (sn_Version s)) = sn_Version s" "le_decode (le_encode 4 (sn_Dim s)) = sn_Dim s"
    "le_decode (le_encode 4 (sn_M s)) = sn_M s" "le_decode (le_encode 8 (NodeCount s)) = NodeCount s"
    "le_decode (le_encode 4 (sn_MaxLevel s)) = sn_MaxLevel s" "le_decode (le_encode 8 (sn_EntryPoint s)) = sn_EntryPoint s"
    "le_decode (le_encode 8 (SeqID s)) = SeqID s" "le_decode (le_encode 2 (Endianness s)) = Endianness s"
    by (simp_all add: le_decode_encode)
  with assms show ?thesis by (simp add: decode_snapshot_header_def encode_snapshot_header_def)
qed

lemma length_snapshotMagic [simp]: "length snapshotMagic = 4"
  by (simp add: snapshotMagic_def)

definition snapshot_of :: "(bytes \<Rightarrow> bytes) \<Rightarrow> 'f HNSWIndex \<Rightarrow> u64 \<Rightarrow> bytes \<Rightarrow> bytes" where
  "snapshot_of sha h seqID dataBuf = encode_snapshot_header (snapshot_header sha h seqID dataBuf) @ dataBuf"

lemma SnapshotToFile_post:
  assumes "tmp \<noteq> path" "encode_nodes bits h [0..<length (nodes h)] = Inr d"
  shows "\<exists>x. SnapshotToFile sha bits io tmp path seqID h f = Inr x \<and> compact_post tmp path f (snapshot_of sha h seqID d) x"
proof -
  have new: "compact_post tmp path f seg (x, f(tmp := None, path \<mapsto> seg))" for x seg
    using assms(1) by (auto simp: compact_post_def)
  show ?thesis
    unfolding SnapshotToFile_def assms(2) go_bind.simps Let_def
    apply (intro exI conjI, rule refl)
    apply (intro syscall_post)
    using assms(1) new by (auto simp: post_tmp post_cleanup snapshot_of_def split: outcome.split)
qed

subsection \<open>Reading back what was written\<close>

lemma rd_simps [simp]:
  "rd_bind p f b = go_bind (p b) (\<lambda>r. case r of Inl e \<Rightarrow> Inr (Inl e) | Inr (x, b') \<Rightarrow> f x b')"
  "rd_ret x b = Inr (Inr (x, b))"
  by (simp_all add: rd_bind_def rd_ret_def)

lemma read_le_encode: "LENGTH('a) = 8 * n \<Longrightarrow> read_le n msg (le_encode n (w :: 'a::len word) @ b) = Inr (Inr (w, b))"
  by (simp add: read_le_def le_decode_encode)

lemma read_le_widths [simp]:
  "read_le 4 msg (le_encode 4 (w :: u32) @ b) = Inr (Inr (w, b))" "read_le 8 msg (le_encode 8 (x :: u64) @ b) = Inr (Inr (x, b))"
  by (rule read_le_encode, simp)+

lemma read_many_ok:
  assumes "\<And>x b. x \<in> set xs \<Longrightarrow> p (enc x @ b) = Inr (Inr (g x, b))"
  shows "read_many (length xs) p (concat (map enc xs) @ b) = Inr (Inr (map g xs, b))"
  using assms by (induction xs arbitrary: b) auto

lemma sint_of_nat32: "x < 2 ^ 31 \<Longrightarrow> sint (of_nat x :: u32) = int x"
  by (simp add: signed_of_nat signed_take_bit_int_eq_self)

lemma sint_of_nat64: "x < 2 ^ 63 \<Longrightarrow> sint (of_nat x :: u64) = int x"
  by (simp add: signed_of_nat signed_take_bit_int_eq_self)

lemma sint_of_int32: "- (2 ^ 31) \<le> x \<Longrightarrow> x < 2 ^ 31 \<Longrightarrow> sint (word_of_int x :: u32) = x"
  by (simp add: signed_of_int signed_take_bit_int_eq_self)

definition fits :: "hnode \<Rightarrow> bool" where
  "fits n \<longleftrightarrow> 0 \<le> nd_level n \<and> nd_level n < 2 ^ 31 \<and> length (friends n) = nat (nd_level n + 1) \<and>
     (\<forall>l \<in> set (friends n). length l < 2 ^ 30 \<and> (\<forall>f \<in> set l. f < 2 ^ 31))"

lemma read_layer_ok:
  assumes "length l < 2 ^ 30" "\<forall>f \<in> set l. f < 2 ^ 31"
  shows "read_layer (encode_layer l @ b) = Inr (Inr (map int l, b))" "skip_layer (encode_layer l @ b) = Inr (Inr ((), b))"
proof -
  have n: "unat (of_nat (length l) :: u32) = length l" using assms(1) by (simp add: unat_of_nat)
  have m: "unat (of_nat (length l) * 4 :: u32) = 4 * length l"
    using assms(1) by (simp add: unat_word_ariths unat_of_nat)
  have "read_many (length l) (rd_bind (read_le 4 ''hnsw snapshot: reading friend'') (\<lambda>idx :: u32. rd_ret (sint idx)))
      (concat (map (\<lambda>f. le_encode 4 (of_nat f :: u32)) l) @ b) = Inr (Inr (map int l, b))"
    using assms(2) by (intro read_many_ok) (simp add: sint_of_nat32)
  then show "read_layer (encode_layer l @ b) = Inr (Inr (map int l, b))"
    by (simp add: read_layer_def encode_layer_def n)
  have "length (concat (map (\<lambda>f. le_encode 4 (of_nat f :: u32)) l)) = 4 * length l" by (simp add: length_concat comp_def sum_list_triv)
  then show "skip_layer (encode_layer l @ b) = Inr (Inr ((), b))"
    by (simp add: skip_layer_def encode_layer_def seek_def m)
qed

lemma read_node_ok:
  assumes "fits n" "length v = d"
  shows "read_node d (encode_node bits n v @ b) = Inr (Inr ((nd_id n, nd_level n, map (map int) (friends n)), b))"
proof -
  have l: "sint (word_of_int (nd_level n) :: u32) = nd_level n" using assms(1) by (intro sint_of_int32) (auto simp: fits_def)
  have v: "read_many d (read_le 4 msg) (concat (map (\<lambda>x. le_encode 4 (bits x)) v) @ b) = Inr (Inr (map bits v, b))" for msg b
    using assms(2) read_many_ok [of v "read_le 4 msg" "\<lambda>x. le_encode 4 (bits x)" bits b] by simp
  have f: "read_many (nat (nd_level n + 1)) read_layer (concat (map encode_layer (friends n)) @ b) = Inr (Inr (map (map int) (friends n), b))" for b
    using read_many_ok [of "friends n" read_layer encode_layer "map int" b] assms(1) by (simp add: fits_def read_layer_ok)
  have "0 \<le> nd_level n" using assms(1) by (simp add: fits_def)
  then show ?thesis by (simp add: read_node_def encode_node_def l v f)
qed

lemma reread_vector_ok:
  assumes "fits n" "length v = d" "\<forall>x \<in> set v. frombits (bits x) = x"
  shows "reread_vector frombits d (nd_level n) (encode_node bits n v @ b) = Inr (Inr (v, b))"
proof -
  have v: "read_many d (rd_bind (read_le 4 msg) (\<lambda>w. rd_ret (frombits w))) (concat (map (\<lambda>x. le_encode 4 (bits x)) v) @ b) = Inr (Inr (v, b))" for msg b
  proof -
    have "read_many (length v) (rd_bind (read_le 4 msg) (\<lambda>w. rd_ret (frombits w))) (concat (map (\<lambda>x. le_encode 4 (bits x)) v) @ b) =
        Inr (Inr (map (\<lambda>x. x) v, b))"
      using assms(3) by (intro read_many_ok) simp
    then show ?thesis using assms(2) by simp
  qed
  have s: "read_many (nat (nd_level n + 1)) skip_layer (concat (map encode_layer (friends n)) @ b) = Inr (Inr (map (\<lambda>_. ()) (friends n), b))" for b
    using read_many_ok [of "friends n" skip_layer encode_layer "\<lambda>_. ()" b] assms(1) by (simp add: fits_def read_layer_ok)
  show ?thesis by (simp add: reread_vector_def encode_node_def seek_def v s)
qed

lemma encode_nodes_ok:
  assumes "hn_inv h" "set js \<subseteq> {..<length (nodes h)}"
  shows "encode_nodes bits h js = Inr (concat (map (\<lambda>i. encode_node bits (nodes h ! i) (vec h i)) js))"
  using assms(2) by (induction js) (auto simp: get_at_def node_stored [OF assms(1)])

lemma reread_all_ok:
  assumes "\<forall>i \<in> set js. fits (nodes h ! i) \<and> length (vec h i) = d \<and> (\<forall>x \<in> set (vec h i). frombits (bits x) = x)"
  shows "reread_all frombits d (map (\<lambda>i. nd_level (nodes h ! i)) js) (concat (map (\<lambda>i. encode_node bits (nodes h ! i) (vec h i)) js) @ b) =
    Inr (Inr (map (vec h) js, b))"
  using assms by (induction js) (simp_all add: reread_vector_ok)


subsection \<open>What every write keeps\<close>

text \<open>A property that one insertion, the flags of the buffer and of deletion, and the reset of the graph keep is an
  invariant of every run.\<close>

definition kept :: "('f::linordered_field HNSWIndex \<Rightarrow> bool) \<Rightarrow> bool" where
  "kept Q \<longleftrightarrow> (\<forall>h h' i v. hn_inv h \<longrightarrow> Q h \<longrightarrow> inserted i v h h' \<longrightarrow> Q h') \<and> (\<forall>h x. Q (h\<lparr>dirty := x\<rparr>) = Q h) \<and>
     (\<forall>h x. Q (h\<lparr>deleted := x\<rparr>) = Q h) \<and>
     (\<forall>h. Q h \<longrightarrow> Q (h\<lparr>nodes := [], idToNode := Map.empty, deleted := {}, maxLevel := - 1, entryPoint := None\<rparr>))"

lemma insertLocked_kept:
  assumes "env_ok E" "hn_inv h" "length v = hn_dim h" "tracker_ok vt" "kept Q" "Q h" "insertLocked E i v vt h = Inr (e, h', vt')"
  shows "hn_inv h'" "hn_dim h' = hn_dim h" "Q h'"
proof -
  have "hn_inv h' \<and> hn_dim h' = hn_dim h"
    using insertLocked_inv [OF assms(1-4), of i] assms(7) by auto
  moreover have "Q h'"
    using insertLocked_ok [OF assms(1) hn_invD(1) [OF assms(2)] assms(3,4), of i] assms(2,5-7) unfolding kept_def
    by (fastforce split: if_splits)
  ultimately show "hn_inv h'" "hn_dim h' = hn_dim h" "Q h'" by blast+
qed

lemma drain_loop_kept:
  assumes "env_ok E" "trackers_ok pool" "kept Q"
  shows "hn_inv h \<Longrightarrow> Q h \<Longrightarrow> \<forall>(i, v) \<in> set ps. length v = hn_dim h \<Longrightarrow> drain_loop E pool n ps h dr0 = Inr (h', dr) \<Longrightarrow> Q h'"
proof (induction ps arbitrary: n h dr0)
  case (Cons p ps)
  obtain i v where p: "p = (i, v)" by fastforce
  have v: "length v = hn_dim h" using Cons.prems(3) p by auto
  obtain e h1 vt1 where 1: "insertLocked E i v (pool n) h = Inr (e, h1, vt1)"
    "drain_loop E pool (n + 1) ps h1 (if e = None then dr0(i \<mapsto> length (nodes h)) else dr0) = Inr (h', dr)"
    using Cons.prems(4) by (auto simp: p go_bind_eq_Inr)
  note K = insertLocked_kept [OF assms(1) Cons.prems(1) v trackers_okD [OF assms(2)] assms(3) Cons.prems(2) 1(1)]
  show ?case using Cons.IH [OF K(1,3) _ 1(2)] Cons.prems(3) K(2) by auto
qed simp

lemma reinsert_kept:
  assumes "env_ok E" "trackers_ok pool" "kept Q"
  shows "hn_inv h \<Longrightarrow> Q h \<Longrightarrow> \<forall>(i, v) \<in> set ps. length v = hn_dim h \<Longrightarrow> reinsert E pool n ps h = Inr (h', e) \<Longrightarrow> Q h'"
proof (induction ps arbitrary: n h)
  case (Cons p ps)
  obtain i v where p: "p = (i, v)" by fastforce
  have v: "length v = hn_dim h" using Cons.prems(3) p by auto
  obtain e1 h1 vt1 where 1: "insertLocked E i v (pool n) h = Inr (e1, h1, vt1)"
    "if e1 \<noteq> None then h' = h1 else reinsert E pool (n + 1) ps h1 = Inr (h', e)"
    using Cons.prems(4) by (auto simp: p go_bind_eq_Inr split: if_splits)
  note K = insertLocked_kept [OF assms(1) Cons.prems(1) v trackers_okD [OF assms(2)] assms(3) Cons.prems(2) 1(1)]
  show ?case
  proof (cases e1)
    case None
    then have "reinsert E pool (n + 1) ps h1 = Inr (h', e)" using 1(2) by simp
    from Cons.IH [OF K(1,3) _ this] show ?thesis using Cons.prems(3) K(2) by auto
  qed (use 1(2) K(3) in simp)
qed simp

lemma drain_kept:
  assumes "env_ok E" "trackers_ok pool" "kept Q" "hn_inv h" "Q h" "drainDirtyBuffer E pool h = Inr (h', dr)"
  shows "Q h'"
proof (cases "dirty h = []")
  case False
  let ?h = "h\<lparr>dirty := []\<rparr>"
  have c: "core ?h = core h" by (simp add: core_def)
  have "graph_inv ?h" using hn_invD(1) [OF assms(4)] graph_inv_core [OF c] by simp
  moreover have "ids_ok ?h" using hn_invD(2) [OF assms(4)] by (simp add: ids_ok_def)
  ultimately have inv: "hn_inv ?h" by (simp add: hn_inv_def)
  have "\<forall>(i, v) \<in> set (dirty h). length v = hn_dim ?h" using hn_invD(3) [OF assms(4)] by auto
  moreover have "Q ?h" using assms(3,5) by (simp add: kept_def)
  ultimately show ?thesis using drain_loop_kept [OF assms(1-3) inv] assms(6) False by (simp add: drainDirtyBuffer_def)
qed (use assms(5,6) in \<open>simp add: drainDirtyBuffer_def\<close>)

lemma exec_kept:
  assumes E: "env_ok E" and ok: "op_ok x" and k: "kept Q" and h: "hn_inv h" "Q h" and x: "hn_exec E x h = Inr (h', e)"
  shows "Q h'"
proof (cases x)
  case (HInsert i v)
  then show ?thesis using x h(2) k by (auto simp: hn_Insert_def kept_def split: if_splits)
next
  case (HDelete i)
  then show ?thesis using x h(2) k by (auto simp: hn_Delete_def kept_def split: option.splits)
next
  case (HDrain pool)
  then show ?thesis using x ok drain_kept [OF E _ k h, of pool h'] by (auto simp: go_bind_eq_Inr)
next
  case (HTick pool)
  then have "hn_exec E (HDrain pool) h = Inr (h', e)" using x hn_exec_tick by metis
  then show ?thesis using HTick ok drain_kept [OF E _ k h, of pool h'] by (auto simp: go_bind_eq_Inr)
next
  case (HRebuild pool pool')
  then have p: "trackers_ok pool" "trackers_ok pool'" using ok by auto
  obtain h1 dr where 1: "drainDirtyBuffer E pool h = Inr (h1, dr)" "hn_inv h1" "hn_dim h1 = hn_dim h" "dirty h1 = []"
    using drain_ok [OF E p(1) [unfolded trackers_ok_def] h(1)] by blast
  have q: "Q h1" by (rule drain_kept [OF E p(1) k h 1(1)])
  let ?h2 = "h1\<lparr>nodes := [], idToNode := Map.empty, deleted := {}, maxLevel := - 1, entryPoint := None\<rparr>"
  let ?live = "map (\<lambda>i. (nd_id (nodes h1 ! i), vec h1 i)) (filter (\<lambda>i. i \<notin> deleted h1) [0..<length (nodes h1)])"
  note g = graph_invD [OF hn_invD(1) [OF 1(2)]]
  have inv2: "hn_inv ?h2" using g(1,2) 1(4) by (simp add: hn_inv_def graph_inv_def params_ok_def store_ok_def ids_ok_def)
  have live: "live_nodes h1 [0..<length (nodes h1)] = Inr ?live" by (rule live_nodes_ok [OF 1(2)]) auto
  have len: "\<forall>(i, v) \<in> set ?live. length v = hn_dim ?h2" using node_stored(2) [OF 1(2)] by auto
  have q2: "Q ?h2" using q k by (simp add: kept_def)
  show ?thesis
  proof (cases "card (deleted h1) = 0")
    case True
    then show ?thesis using x HRebuild 1(1) q by (simp add: hn_Rebuild_def)
  next
    case False
    then have "reinsert E pool' 0 ?live ?h2 = Inr (h', e)" using x HRebuild 1(1) live by (simp add: hn_Rebuild_def)
    then show ?thesis by (rule reinsert_kept [OF E p(2) k inv2 q2 len])
  qed
qed

lemma run_kept:
  assumes E: "env_ok E" and k: "kept Q"
  shows "hn_inv h \<Longrightarrow> Q h \<Longrightarrow> \<forall>x \<in> set xs. op_ok x \<Longrightarrow> hn_run E xs h = Inr (h', es) \<Longrightarrow> Q h'"
proof (induction xs arbitrary: h es)
  case (Cons x xs)
  obtain h1 e es1 where 1: "hn_exec E x h = Inr (h1, e)" "hn_run E xs h1 = Inr (h', es1)"
    using Cons.prems(4) by (auto simp: go_bind_eq_Inr)
  have ok: "op_ok x" using Cons.prems(3) by simp
  have "hn_inv h1" using hn_exec_inv [OF E ok Cons.prems(1)] 1(1) by auto
  moreover have "Q h1" by (rule exec_kept [OF E ok k Cons.prems(1,2) 1(1)])
  ultimately show ?case using Cons.IH [OF _ _ _ 1(2)] Cons.prems(3) by simp
qed simp

lemma reachable_kept:
  assumes "env_ok E" "kept Q" "hn_reachable E h"
    and "\<And>d m efc efs metric h0. NewHNSWIndex E d m efc efs metric = Inr h0 \<Longrightarrow> Q h0"
  shows "Q h"
  using assms(3) run_kept [OF assms(1,2)] NewHNSWIndex_ok(1) [OF assms(1)] assms(4) unfolding hn_reachable_def by blast

lemma index_ids_snoc: "index_ids i (xs @ [x]) m = (index_ids i xs m)(x \<mapsto> i + length xs)"
  by (induction xs arbitrary: i m) auto

definition regular :: "'f HNSWIndex \<Rightarrow> bool" where
  \<comment> \<open>\<open>idToNode\<close> is the last node of each identifier\<close>
  "regular h \<longleftrightarrow> idToNode h = index_ids 0 (map nd_id (nodes h)) Map.empty \<and> mMax0 h = 2 * hn_m h"

lemma kept_regular: "kept (regular :: 'f::linordered_field HNSWIndex \<Rightarrow> bool)"
proof -
  have "regular h'" if "regular h" "inserted i v h h'" for h h' :: "'f HNSWIndex" and i v
  proof -
    have ids: "map nd_id (nodes h') = map nd_id (nodes h) @ [i]" "idToNode h' = (idToNode h)(i \<mapsto> length (nodes h))"
      "mMax0 h' = mMax0 h" "hn_m h' = hn_m h" using that(2) unfolding inserted_def by blast+
    have r: "idToNode h = index_ids 0 (map nd_id (nodes h)) Map.empty" "mMax0 h = 2 * hn_m h"
      using that(1) unfolding regular_def by blast+
    show ?thesis unfolding regular_def ids index_ids_snoc r(1) [symmetric] r(2) by simp
  qed
  moreover have "regular (h\<lparr>dirty := x\<rparr>) = regular h" "regular (h\<lparr>deleted := y\<rparr>) = regular h" for h :: "'f HNSWIndex" and x y
    by (simp_all add: regular_def)
  moreover have "regular (h\<lparr>nodes := [], idToNode := Map.empty, deleted := {}, maxLevel := - 1, entryPoint := None\<rparr>)"
    if "regular h" for h :: "'f HNSWIndex" using that by (simp add: regular_def)
  ultimately show ?thesis unfolding kept_def by blast
qed

lemma reachable_regular:
  assumes "env_ok E" "hn_reachable E h"
  shows "regular h"
  by (rule reachable_kept [OF assms(1) kept_regular assms(2)])
    (auto simp: NewHNSWIndex_def regular_def Let_def split: if_splits option.splits)


subsection \<open>The index that comes back\<close>

definition snapshot_fits :: "('f \<Rightarrow> u32) \<Rightarrow> (u32 \<Rightarrow> 'f) \<Rightarrow> 'f HNSWIndex \<Rightarrow> bool" where
  \<comment> \<open>the numbers fit their fields, and the bits of a stored \<open>float32\<close> give it back\<close>
  "snapshot_fits bits frombits h \<longleftrightarrow> length (nodes h) < 2 ^ 31 \<and> hn_dim h < 2 ^ 32 \<and> mMax0 h < 2 ^ 30 \<and>
     - (2 ^ 31) \<le> maxLevel h \<and> maxLevel h < 2 ^ 31 \<and> (\<forall>n \<in> set (nodes h). nd_level n < 2 ^ 31) \<and>
     (\<forall>x \<in> set (vectorSlab h). frombits (bits x) = x)"

lemma snapshot_fitsD:
  assumes "snapshot_fits bits frombits h"
  shows "length (nodes h) < 2 ^ 31" "hn_dim h < 2 ^ 32" "mMax0 h < 2 ^ 30" "- (2 ^ 31) \<le> maxLevel h" "maxLevel h < 2 ^ 31"
    "i < length (nodes h) \<Longrightarrow> nd_level (nodes h ! i) < 2 ^ 31" "x \<in> set (vectorSlab h) \<Longrightarrow> frombits (bits x) = x"
  using assms unfolding snapshot_fits_def by auto

lemma nodes_fit:
  assumes h: "hn_inv h" and s: "snapshot_fits bits frombits h" and i: "i < length (nodes h)"
  shows "fits (nodes h ! i)" "\<forall>x \<in> set (vec h i). frombits (bits x) = x"
proof -
  note g = graph_invD [OF hn_invD(1) [OF h]] and S = snapshot_fitsD [OF s]
  have L: "links_ok h i" by (rule g(3) [OF i])
  show "fits (nodes h ! i)"
    unfolding fits_def
  proof (intro conjI ballI)
    show "0 \<le> nd_level (nodes h ! i)" "length (friends (nodes h ! i)) = nat (nd_level (nodes h ! i) + 1)"
      using L by (simp_all add: links_ok_def)
    show "nd_level (nodes h ! i) < 2 ^ 31" by (rule S(6) [OF i])
    fix l assume "l \<in> set (friends (nodes h ! i))"
    then obtain k where k: "k < length (friends (nodes h ! i))" "l = friends (nodes h ! i) ! k" by (metis in_set_conv_nth)
    then have "length l \<le> layer_cap h k" "\<forall>f \<in> set l. on_layer h k f" using L by (auto simp: links_ok_def)
    then show "length l < 2 ^ 30" "\<And>f. f \<in> set l \<Longrightarrow> f < 2 ^ 31"
      using layer_cap_le [OF g(1), of k] S(1,3) by (auto simp: on_layer_def)
  qed
  show "\<forall>x \<in> set (vec h i). frombits (bits x) = x"
    using S(7) unfolding vec_def by (meson in_set_dropD in_set_takeD)
qed

definition read_rows :: "'f HNSWIndex \<Rightarrow> (u64 \<times> int \<times> int list list) list" where
  "read_rows h = map (\<lambda>i. (nd_id (nodes h ! i), nd_level (nodes h ! i), map (map int) (friends (nodes h ! i)))) [0..<length (nodes h)]"

lemma Load_snapshot:
  assumes h: "hn_inv h" and s: "snapshot_fits bits frombits h" and sha: "length (sha d) = 32"
    and d: "encode_nodes bits h [0..<length (nodes h)] = Inr d" and f: "f path = Some (snapshot_of sha h seqID d)"
  shows "LoadHNSWFromSnapshot E sha frombits nilfn path f =
    Inr (Inr (loaded_index E nilfn (snapshot_header sha h seqID d) (read_rows h) (map (vec h) [0..<length (nodes h)]), seqID))"
proof -
  let ?n = "length (nodes h)" and ?hdr = "snapshot_header sha h seqID d"
  note g = graph_invD [OF hn_invD(1) [OF h]] and S = snapshot_fitsD [OF s] and N = nodes_fit [OF h s]
  have sub: "set [0..<?n] \<subseteq> {..<?n}" by auto
  have d': "d = concat (map (\<lambda>i. encode_node bits (nodes h ! i) (vec h i)) [0..<?n])"
    using d encode_nodes_ok [OF h sub, of bits] by simp
  have hdr: "length (encode_snapshot_header ?hdr) = 78" "decode_snapshot_header (encode_snapshot_header ?hdr) = ?hdr"
    using sha by (simp_all add: length_snapshot_header decode_encode_snapshot_header snapshot_header_def)
  have nc: "unat (NodeCount ?hdr) = ?n" "sint (NodeCount ?hdr) = int ?n"
    using S(1) by (simp_all add: snapshot_header_def unat_of_nat sint_of_nat64)
  have dm: "unat (sn_Dim ?hdr) = hn_dim h" using S(2) by (simp add: snapshot_header_def unat_of_nat)
  have row: "read_node (hn_dim h) (encode_node bits (nodes h ! i) (vec h i) @ b) =
      Inr (Inr ((nd_id (nodes h ! i), nd_level (nodes h ! i), map (map int) (friends (nodes h ! i))), b))" if "i \<in> set [0..<?n]" for i b
    using that N(1) node_stored(2) [OF h] by (intro read_node_ok) auto
  have r1: "read_many ?n (read_node (hn_dim h)) d = Inr (Inr (read_rows h, []))"
    using read_many_ok [of "[0..<?n]" "read_node (hn_dim h)" "\<lambda>i. encode_node bits (nodes h ! i) (vec h i)" _ "[]", OF row]
    by (simp add: d' read_rows_def)
  have lv: "map (fst \<circ> snd) (read_rows h) = map (\<lambda>i. nd_level (nodes h ! i)) [0..<?n]" by (simp add: read_rows_def)
  have r2: "reread_all frombits (hn_dim h) (map (fst \<circ> snd) (read_rows h)) d = Inr (Inr (map (vec h) [0..<?n], []))"
    using reread_all_ok [of "[0..<?n]" h "hn_dim h" frombits bits "[]"] N node_stored(2) [OF h] unfolding lv d' by simp
  have ep: "- 1 \<le> sint (sn_EntryPoint ?hdr)"
  proof (cases "entryPoint h")
    case (Some e)
    then have "e < 2 ^ 63" using g(5) [OF Some] S(1) by simp
    then show ?thesis using Some by (simp add: snapshot_header_def sint_of_nat64)
  qed (simp add: snapshot_header_def)
  have "representable ?hdr (read_rows h)" using ep by (auto simp: representable_def read_rows_def)
  moreover have "sn_Magic ?hdr = snapshotMagic" "sn_Version ?hdr = snapshotVersion" "Endianness ?hdr = endianLittle"
    "sn_Checksum ?hdr = sha d" "SeqID ?hdr = seqID" by (simp_all add: snapshot_header_def)
  ultimately show ?thesis
    using f r1 r2 by (simp add: LoadHNSWFromSnapshot_def snapshot_of_def snapshotHeaderSize_def hdr nc dm Let_def)
qed


definition restored :: "'f hnsw_env \<Rightarrow> metric_fn \<Rightarrow> (bytes \<Rightarrow> bytes) \<Rightarrow> 'f::linordered_field HNSWIndex \<Rightarrow> u64 \<Rightarrow> bytes \<Rightarrow> 'f HNSWIndex" where
  "restored E nilfn sha h seqID d =
     loaded_index E nilfn (snapshot_header sha h seqID d) (read_rows h) (map (vec h) [0..<length (nodes h)])"

lemma take_concat_nth: "i < length xs \<Longrightarrow> length (xs ! i) = n \<Longrightarrow> take n (drop (length (concat (take i xs))) (concat xs)) = xs ! i"
proof -
  assume i: "i < length xs" "length (xs ! i) = n"
  have "concat xs = concat (take i xs) @ xs ! i @ concat (drop (Suc i) xs)"
    using id_take_nth_drop [OF i(1)] by (metis concat.simps(2) concat_append)
  then show ?thesis using i(2) by simp
qed

lemma restored_fields:
  assumes h: "hn_inv h" "regular h" and s: "snapshot_fits bits frombits h"
  shows "nodes (restored E nilfn sha h seqID d) = nodes h" "idToNode (restored E nilfn sha h seqID d) = idToNode h"
    "hn_dim (restored E nilfn sha h seqID d) = hn_dim h" "hn_m (restored E nilfn sha h seqID d) = hn_m h"
    "mMax0 (restored E nilfn sha h seqID d) = mMax0 h" "maxLevel (restored E nilfn sha h seqID d) = maxLevel h"
    "entryPoint (restored E nilfn sha h seqID d) = entryPoint h" "deleted (restored E nilfn sha h seqID d) = {}"
    "dirty (restored E nilfn sha h seqID d) = []"
    "i < length (nodes h) \<Longrightarrow> vec (restored E nilfn sha h seqID d) i = vec h i"
    "length (vectorOffsets (restored E nilfn sha h seqID d)) = length (nodes h)"
proof -
  let ?r = "restored E nilfn sha h seqID d" and ?n = "length (nodes h)"
  note S = snapshot_fitsD [OF s] and g = graph_invD [OF hn_invD(1) [OF h(1)]]
  show "nodes ?r = nodes h"
    by (rule nth_equalityI) (simp_all add: restored_def loaded_index_def read_rows_def comp_def)
  have ids: "map fst (read_rows h) = map nd_id (nodes h)" by (rule nth_equalityI) (simp_all add: read_rows_def)
  show "idToNode ?r = idToNode h" using h(2) unfolding regular_def restored_def loaded_index_def by (simp add: ids)
  show dm: "hn_dim ?r = hn_dim h" using S(2) by (simp add: restored_def loaded_index_def snapshot_header_def unat_of_nat)
  have "hn_m h < 2 ^ 32" using S(3) h(2) by (simp add: regular_def)
  then show m: "hn_m ?r = hn_m h" by (simp add: restored_def loaded_index_def snapshot_header_def unat_of_nat)
  then show "mMax0 ?r = mMax0 h" using h(2) by (simp add: restored_def loaded_index_def regular_def)
  show "maxLevel ?r = maxLevel h" using S(4,5) by (simp add: restored_def loaded_index_def snapshot_header_def sint_of_int32)
  show "entryPoint ?r = entryPoint h"
  proof (cases "entryPoint h")
    case (Some e)
    then have "e < 2 ^ 63" using g(5) [OF Some] S(1) by simp
    then show ?thesis using Some by (simp add: restored_def loaded_index_def snapshot_header_def sint_of_nat64)
  qed (simp add: restored_def loaded_index_def snapshot_header_def)
  show "deleted ?r = {}" "dirty ?r = []" "length (vectorOffsets ?r) = ?n" by (simp_all add: restored_def loaded_index_def)
  assume i: "i < ?n"
  have "vectorSlab ?r = concat (map (vec h) [0..<?n])" "vectorOffsets ?r ! i = length (concat (take i (map (vec h) [0..<?n])))"
    using i by (simp_all add: restored_def loaded_index_def)
  then show "vec ?r i = vec h i"
    using take_concat_nth [of i "map (vec h) [0..<?n]" "hn_dim h"] i node_stored(2) [OF h(1) i] unfolding vec_def [of ?r] dm by simp
qed

lemma restored_inv:
  assumes E: "env_ok E" and h: "hn_inv h" "regular h" and s: "snapshot_fits bits frombits h"
  shows "graph_inv (snd (SetDistanceFunc (hn_metric h) (restored E nilfn sha h seqID d)))"
    and "deleted h = {} \<Longrightarrow> hn_inv (snd (SetDistanceFunc (hn_metric h) (restored E nilfn sha h seqID d)))"
proof -
  let ?r = "restored E nilfn sha h seqID d"
  let ?h = "?r\<lparr>hn_metric := hn_metric h, distFn := distFn h\<rparr>"
  note g = graph_invD [OF hn_invD(1) [OF h(1)]] and R = restored_fields [OF h s, where E = E and nilfn = nilfn and sha = sha and seqID = seqID and d = d]
  note P = paramsD [OF g(1)]
  have eq: "snd (SetDistanceFunc (hn_metric h) ?r) = ?h" using P(7) by (simp add: SetDistanceFunc_def)
  have "0 \<le> logf E (of_nat (hn_m h))" using P(2) by (intro env_okD(5) [OF E]) simp
  then have "params_ok ?h" using P R(3-5) by (simp add: params_ok_def) (simp add: restored_def loaded_index_def R(4) [unfolded restored_def loaded_index_def, simplified])
  moreover have "store_ok ?h"
  proof -
    have "x + hn_dim h \<le> length (vectorSlab ?r)" if x: "x \<in> set (vectorOffsets ?r)" for x
    proof -
      obtain i where i: "i < length (nodes h)" "x = length (concat (take i (map (vec h) [0..<length (nodes h)])))"
        using x by (auto simp: restored_def loaded_index_def)
      have "vectorSlab ?r = concat (map (vec h) [0..<length (nodes h)])" by (simp add: restored_def loaded_index_def)
      also have "\<dots> = concat (take i (map (vec h) [0..<length (nodes h)])) @ vec h i @ concat (drop (Suc i) (map (vec h) [0..<length (nodes h)]))"
        using id_take_nth_drop [of i "map (vec h) [0..<length (nodes h)]"] i(1) by (metis concat.simps(2) concat_append diff_zero length_map length_upt nth_map nth_upt add_0)
      finally show ?thesis using i node_stored(2) [OF h(1) i(1)] by simp
    qed
    then show ?thesis using R(1,3,11) by (simp add: store_ok_def)
  qed
  moreover have "links_ok ?h i = links_ok h i" for i by (simp add: R(1,4,5) links_ok_def on_layer_def layer_cap_def)
  then have "\<forall>i < length (nodes ?h). links_ok ?h i" using g(3) R(1) by simp
  moreover have "(case entryPoint ?h of None \<Rightarrow> nodes ?h = [] | Some e \<Rightarrow> e < length (nodes ?h) \<and> maxLevel ?h = nd_level (nodes ?h ! e))"
    using g(4-6) R(1,6,7) by (simp split: option.split)
  ultimately have gi: "graph_inv ?h" by (simp add: graph_inv_def)
  then show "graph_inv (snd (SetDistanceFunc (hn_metric h) ?r))" unfolding eq .
  assume none: "deleted h = {}"
  note ids = ids_okD [OF hn_invD(2) [OF h(1)]]
  have "ids_ok ?h" unfolding ids_ok_def using ids(1-3) none R(1,2,8) by simp
  then show "hn_inv (snd (SetDistanceFunc (hn_metric h) ?r))" unfolding eq using gi R(9) by (simp add: hn_inv_def)
qed

lemma restored_vecs:
  assumes h: "hn_inv h" "regular h" and s: "snapshot_fits bits frombits h"
  shows "hn_vecs (snd (SetDistanceFunc m (restored E nilfn sha h seqID d))) = (\<lambda>i. map_option (vec h) (idToNode h i))"
proof -
  let ?r = "restored E nilfn sha h seqID d"
  note R = restored_fields [OF h s, where E = E and nilfn = nilfn and sha = sha and seqID = seqID and d = d]
  have eq: "hn_vecs (snd (SetDistanceFunc m ?r)) = hn_vecs ?r"
    by (simp add: SetDistanceFunc_def hn_vecs_def vec_def fun_eq_iff split: option.split)
  show ?thesis unfolding eq
    using ids_okD(1) [OF hn_invD(2) [OF h(1)]] R(2,8,10) by (auto simp: hn_vecs_def fun_eq_iff split: option.split)
qed


subsection \<open>Correctness and its limit\<close>

definition loads :: "'f hnsw_env \<Rightarrow> (bytes \<Rightarrow> bytes) \<Rightarrow> (u32 \<Rightarrow> 'f) \<Rightarrow> string \<Rightarrow> string \<Rightarrow> fs \<Rightarrow> u64 \<Rightarrow> 'f::linordered_field HNSWIndex \<Rightarrow> bool" where
  \<comment> \<open>reading the file and setting the metric, as \<open>NewManager\<close> does, gives the index and the sequence number\<close>
  "loads E sha frombits path metric f seqID h' \<longleftrightarrow> (\<forall>nilfn. \<exists>l.
     LoadHNSWFromSnapshot E sha frombits nilfn path f = Inr (Inr (l, seqID)) \<and> h' = snd (SetDistanceFunc metric l) \<and>
     fst (SetDistanceFunc metric l) = None)"

lemma SetDistanceFunc_nil:
  "GetDistanceFunc m = Some fn \<Longrightarrow> snd (SetDistanceFunc m (restored E nilfn sha h seqID d)) = snd (SetDistanceFunc m (restored E fn sha h seqID d))"
  by (simp add: SetDistanceFunc_def restored_def loaded_index_def)

lemma loads_restored:
  assumes "hn_inv h" "snapshot_fits bits frombits h" "length (sha d) = 32" "encode_nodes bits h [0..<length (nodes h)] = Inr d"
    "f path = Some (snapshot_of sha h seqID d)"
  shows "loads E sha frombits path (hn_metric h) f seqID (snd (SetDistanceFunc (hn_metric h) (restored E (distFn h) sha h seqID d)))"
proof -
  have fn: "GetDistanceFunc (hn_metric h) = Some (distFn h)" by (rule paramsD(7) [OF graph_invD(1) [OF hn_invD(1) [OF assms(1)]]])
  show ?thesis
    unfolding loads_def
  proof (intro allI exI conjI)
    fix nilfn
    show "LoadHNSWFromSnapshot E sha frombits nilfn path f = Inr (Inr (restored E nilfn sha h seqID d, seqID))"
      unfolding restored_def using assms by (rule Load_snapshot)
    show "snd (SetDistanceFunc (hn_metric h) (restored E (distFn h) sha h seqID d)) = snd (SetDistanceFunc (hn_metric h) (restored E nilfn sha h seqID d))"
      by (rule SetDistanceFunc_nil [OF fn, symmetric])
    show "fst (SetDistanceFunc (hn_metric h) (restored E nilfn sha h seqID d)) = None" using fn by (simp add: SetDistanceFunc_def)
  qed
qed

lemma encoded:
  assumes "hn_inv h"
  obtains d where "encode_nodes bits h [0..<length (nodes h)] = Inr d"
  using encode_nodes_ok [OF assms, of "[0..<length (nodes h)]" bits] by (auto simp: lessThan_atLeast0)

text \<open>C19. A snapshot is written atomically and read back as it was: whatever system call fails and wherever the process
  stops, the file at the path is the old one or the complete snapshot, no other file but the temporary one has
  changed, and success means the snapshot is there; from a snapshot of an index
  with nothing deleted \<open>LoadHNSWFromSnapshot\<close> and \<open>SetDistanceFunc\<close> give a well-formed index with the same nodes, links,
  vectors and entry point, and the sequence number.\<close>

theorem snapshot_roundtrip:
  assumes "env_ok E" "hn_reachable E h" "snapshot_fits bits frombits h" "\<And>b. length (sha b) = 32" "tmp \<noteq> path" "deleted h = {}"
  shows "\<exists>r f'. SnapshotToFile sha bits io tmp path seqID h f = Inr (r, f') \<and> (\<forall>p. p \<noteq> tmp \<longrightarrow> p \<noteq> path \<longrightarrow> f' p = f p) \<and>
    (let good = (\<exists>h'. loads E sha frombits path (hn_metric h) f' seqID h' \<and> hn_inv h' \<and> nodes h' = nodes h \<and> hn_vecs h' = hn_vecs h \<and>
        entryPoint h' = entryPoint h \<and> maxLevel h' = maxLevel h \<and> hn_metric h' = hn_metric h)
     in (f' path = f path \<or> good) \<and> (r = Returns None \<longrightarrow> good))"
proof -
  have h: "hn_inv h" "regular h" using hn_reachable_inv reachable_regular assms(1,2) by blast+
  obtain d where d: "encode_nodes bits h [0..<length (nodes h)] = Inr d" by (rule encoded [OF h(1)])
  obtain r f' where w: "SnapshotToFile sha bits io tmp path seqID h f = Inr (r, f')" "compact_post tmp path f (snapshot_of sha h seqID d) (r, f')"
    using SnapshotToFile_post [OF assms(5) d] by fastforce
  let ?h' = "snd (SetDistanceFunc (hn_metric h) (restored E (distFn h) sha h seqID d))"
  have fn: "GetDistanceFunc (hn_metric h) = Some (distFn h)" by (rule paramsD(7) [OF graph_invD(1) [OF hn_invD(1) [OF h(1)]]])
  note R = restored_fields [OF h assms(3), where E = E and nilfn = "distFn h" and sha = sha and seqID = seqID and d = d]
  have v: "hn_vecs ?h' = hn_vecs h" unfolding restored_vecs [OF h assms(3)] using assms(6) by (simp add: hn_vecs_def fun_eq_iff split: option.split)
  have good: "\<exists>h'. loads E sha frombits path (hn_metric h) f' seqID h' \<and> hn_inv h' \<and> nodes h' = nodes h \<and> hn_vecs h' = hn_vecs h \<and>
        entryPoint h' = entryPoint h \<and> maxLevel h' = maxLevel h \<and> hn_metric h' = hn_metric h"
    if "f' path = Some (snapshot_of sha h seqID d)"
    using loads_restored [where E = E and sha = sha and d = d and f = f' and path = path, OF h(1) assms(3) assms(4) [of d] d that] restored_inv(2) [OF assms(1) h assms(3,6)] v R(1,6,7)
    by (intro exI [of _ ?h']) (simp add: SetDistanceFunc_def fn)
  show ?thesis using w good unfolding compact_post_def Let_def by (intro exI [of _ r] exI [of _ f']) auto
qed

text \<open>A snapshot forgets which vectors are deleted: the loaded index has every identifier the graph ever knew as a
  live vector, those deleted before the snapshot included; replay starts after the snapshot's sequence
  number, so nothing deletes them again.\<close>

theorem snapshot_resurrects_deleted:
  assumes "env_ok E" "hn_reachable E h" "snapshot_fits bits frombits h" "\<And>b. length (sha b) = 32" "tmp \<noteq> path"
    "SnapshotToFile sha bits io tmp path seqID h f = Inr (Returns None, f')"
  shows "\<exists>h'. loads E sha frombits path (hn_metric h) f' seqID h' \<and> hn_vecs h' = (\<lambda>i. map_option (vec h) (idToNode h i))"
proof -
  have h: "hn_inv h" "regular h" using hn_reachable_inv reachable_regular assms(1,2) by blast+
  obtain d where d: "encode_nodes bits h [0..<length (nodes h)] = Inr d" by (rule encoded [OF h(1)])
  have "f' path = Some (snapshot_of sha h seqID d)"
    using SnapshotToFile_post [OF assms(5) d, of sha io seqID f] assms(6) by (auto simp: compact_post_def)
  from loads_restored [where E = E and sha = sha and d = d and f = f' and path = path, OF h(1) assms(3) assms(4) [of d] d this] restored_vecs [OF h assms(3)]
  show ?thesis by (intro exI conjI) assumption+
qed


text \<open>One vector inserted, drained and, in the second index, deleted.\<close>

definition ex_one :: "rat HNSWIndex" where
  "ex_one = append_node 1 [7] 0 (ex_new\<lparr>rng := 1\<rparr>)\<lparr>entryPoint := Some 0, maxLevel := 0\<rparr>"

lemma ex_one_run:
  "hn_run ex_env [HInsert 1 [7], HDrain ex_pool] ex_new = Inr (ex_one, [None, None])"
  "hn_run ex_env [HInsert 1 [7], HDrain ex_pool, HDelete 1] ex_new = Inr (ex_one\<lparr>deleted := {0}\<rparr>, [None, None, None])"
proof -
  have n: "ex_new = \<lparr>hn_dim = 1, hn_metric = ''l2'', distFn = L2Squared_fn, hn_m = 16, mMax0 = 32, efConstruction = 400, efSearch = 128,
      mL = 1 / 15, maxLevel = - 1, entryPoint = None, nodes = [], idToNode = Map.empty, vectorSlab = [], vectorOffsets = [], rng = 0,
      deleted = {}, snapshotPath = '''', snapshotSeqID = 0, dirty = []\<rparr>"
    by (simp add: ex_new_def NewHNSWIndex_def GetDistanceFunc_def Let_def ex_env_def)
  have fl: "\<lfloor>1 / 30 :: rat\<rfloor> = 0" by (simp add: floor_eq_iff)
  show "hn_run ex_env [HInsert 1 [7], HDrain ex_pool] ex_new = Inr (ex_one, [None, None])"
    by (simp add: hn_Insert_def drainDirtyBuffer_def insertLocked_def Let_def randomLevel_def ex_env_def ex_one_def append_node_def n fl)
  show "hn_run ex_env [HInsert 1 [7], HDrain ex_pool, HDelete 1] ex_new = Inr (ex_one\<lparr>deleted := {0}\<rparr>, [None, None, None])"
    by (simp add: hn_Insert_def drainDirtyBuffer_def insertLocked_def Let_def randomLevel_def ex_env_def ex_one_def append_node_def n fl
        hn_Delete_def)
qed

lemma ex_one_reachable: "hn_reachable ex_env ex_one" "hn_reachable ex_env (ex_one\<lparr>deleted := {0}\<rparr>)"
proof -
  have "\<forall>x \<in> set [HInsert 1 [7 :: rat], HDrain ex_pool]. op_ok x" "\<forall>x \<in> set [HInsert 1 [7 :: rat], HDrain ex_pool, HDelete 1]. op_ok x" by simp_all
  then show "hn_reachable ex_env ex_one" "hn_reachable ex_env (ex_one\<lparr>deleted := {0}\<rparr>)"
    unfolding hn_reachable_def using ex_new ex_ops_ok(2) ex_one_run by blast+
qed

definition ex_bits :: "rat \<Rightarrow> u32" where
  "ex_bits x = word_of_int \<lfloor>x\<rfloor>"

definition ex_frombits :: "u32 \<Rightarrow> rat" where
  "ex_frombits w = of_int (sint w)"

lemma ex_one_fits: "snapshot_fits ex_bits ex_frombits ex_one" "snapshot_fits ex_bits ex_frombits (ex_one\<lparr>deleted := {0}\<rparr>)"
  by (simp_all add: snapshot_fits_def ex_one_def append_node_def ex_new_def NewHNSWIndex_def GetDistanceFunc_def Let_def ex_bits_def ex_frombits_def)

lemma ex_one_fields: "deleted ex_one = {}" "idToNode ex_one = [1 \<mapsto> 0]" "vec ex_one 0 = [7]"
  by (simp_all add: ex_one_def append_node_def ex_new_def NewHNSWIndex_def GetDistanceFunc_def Let_def vec_def)

theorem snapshot_roundtrip_witness:
  "\<exists>r f'. SnapshotToFile (\<lambda>_. replicate 32 0) ex_bits (\<lambda>k. if k = 3 then Crashes 5 else Succeeds) ''t'' ''p'' 9 ex_one Map.empty = Inr (r, f') \<and>
    (r = Returns None \<longrightarrow> (\<exists>h'. loads ex_env (\<lambda>_. replicate 32 0) ex_frombits ''p'' (hn_metric ex_one) f' 9 h' \<and> hn_vecs h' = hn_vecs ex_one))"
  using snapshot_roundtrip [OF ex_env_ok ex_one_reachable(1) ex_one_fits(1) _ _ ex_one_fields(1),
      of "\<lambda>_. replicate 32 0" "''t''" "''p''" "\<lambda>k. if k = 3 then Crashes 5 else Succeeds" 9 Map.empty]
  unfolding Let_def by auto

theorem snapshot_resurrects_deleted_witness:
  "\<exists>f' h'. SnapshotToFile (\<lambda>_. replicate 32 0) ex_bits (\<lambda>_. Succeeds) ''t'' ''p'' 9 (ex_one\<lparr>deleted := {0}\<rparr>) Map.empty = Inr (Returns None, f') \<and>
    hn_vecs (ex_one\<lparr>deleted := {0}\<rparr>) 1 = None \<and>
    loads ex_env (\<lambda>_. replicate 32 0) ex_frombits ''p'' (hn_metric (ex_one\<lparr>deleted := {0}\<rparr>)) f' 9 h' \<and> hn_vecs h' 1 = Some [7]"
proof -
  let ?h = "ex_one\<lparr>deleted := {0}\<rparr>" and ?sha = "\<lambda>_ :: bytes. replicate 32 (0 :: u8)"
  have inv: "hn_inv ?h" by (rule hn_reachable_inv [OF ex_env_ok ex_one_reachable(2)])
  obtain d where d: "encode_nodes ex_bits ?h [0..<length (nodes ?h)] = Inr d" by (rule encoded [OF inv])
  then obtain f' where w: "SnapshotToFile ?sha ex_bits (\<lambda>_. Succeeds) ''t'' ''p'' 9 ?h Map.empty = Inr (Returns None, f')"
    by (simp add: SnapshotToFile_def syscall_def Let_def)
  have "hn_vecs ?h 1 = None" by (simp add: hn_vecs_def ex_one_fields)
  moreover have "map_option (vec ?h) (idToNode ?h 1) = Some [7]" by (simp add: ex_one_fields)
  ultimately show ?thesis
    using snapshot_resurrects_deleted [OF ex_env_ok ex_one_reachable(2) ex_one_fits(2) _ _ w] w by (intro exI [of _ f']) force
qed

end
