(* ===== verification/K_Means.thy ===== *)
theory K_Means
  imports Flat_Index
begin

section \<open>K-means clustering\<close>

text \<open>
  Models \<open>internal/index/ivf/kmeans.go\<close> on an ordered field. The parameters, in the record \<open>km_env\<close>, are the
  distance function, \<open>math.MaxFloat32\<close>, the random numbers (\<open>Intn\<close> is asked once, \<open>Float64\<close> once for each further
  centroid) and \<open>runtime.NumCPU\<close>. The goroutines of \<open>assignParallel\<close> write disjoint parts of the
  assignments and only read the rest, so they are run one after the other. Loops over an index are \<open>for_each\<close>
  over the range; every slice expression keeps its bounds check.
\<close>

subsection \<open>Loops\<close>

fun for_each :: "('a \<Rightarrow> 's \<Rightarrow> 's go) \<Rightarrow> 'a list \<Rightarrow> 's \<Rightarrow> 's go" where
  "for_each f [] s = Inr s"
| "for_each f (x # xs) s = go_bind (f x s) (for_each f xs)"

lemma for_range:
  assumes "a \<le> b" "P a s" "\<And>i s. a \<le> i \<Longrightarrow> i < b \<Longrightarrow> P i s \<Longrightarrow> \<exists>s'. f i s = Inr s' \<and> P (Suc i) s'"
  shows "\<exists>s'. for_each f [a..<b] s = Inr s' \<and> P b s'"
  using assms
proof (induction "b - a" arbitrary: a s)
  case 0
  then show ?case by simp
next
  case (Suc n)
  then have ab: "a < b" by simp
  obtain s1 where s1: "f a s = Inr s1" "P (Suc a) s1" using Suc.prems(3) [OF _ ab Suc.prems(2)] by blast
  have "\<exists>s'. for_each f [Suc a..<b] s1 = Inr s' \<and> P b s'"
    by (rule Suc.hyps(1)) (use Suc.hyps(2) ab s1 Suc.prems(3) in auto)
  then show ?case using s1(1) ab by (simp add: upt_rec [of a b])
qed

lemma for_list:
  assumes "P xs s" "\<And>x ys s. x \<in> set xs \<Longrightarrow> P (x # ys) s \<Longrightarrow> \<exists>s'. f x s = Inr s' \<and> P ys s'"
  shows "\<exists>s'. for_each f xs s = Inr s' \<and> P [] s'"
  using assms
proof (induction xs arbitrary: s)
  case (Cons x xs)
  obtain s1 where s1: "f x s = Inr s1" "P xs s1" using Cons.prems(2) [of x xs s] Cons.prems(1) by auto
  have "\<exists>s'. for_each f xs s1 = Inr s' \<and> P [] s'" by (rule Cons.IH [OF s1(2)]) (use Cons.prems(2) in auto)
  then show ?case using s1(1) by simp
qed simp

subsection \<open>State and parameters\<close>

record 'f KMeans =
  km_K :: nat
  km_Dim :: nat
  MaxIter :: nat
  Centroids :: "'f list"

record 'f km_env =
  distFn :: "'f list \<Rightarrow> 'f list \<Rightarrow> 'f"
  maxFloat :: 'f
  intn :: "nat \<Rightarrow> nat"
  float64 :: "nat \<Rightarrow> 'f"
  numCPU :: nat

definition NewKMeans :: "nat \<Rightarrow> nat \<Rightarrow> 'f KMeans" where
  "NewKMeans k d = \<lparr>km_K = k, km_Dim = d, MaxIter = 200, Centroids = []\<rparr>"

definition nth_row :: "nat \<Rightarrow> 'f list \<Rightarrow> nat \<Rightarrow> 'f list go" where
  \<comment> \<open>\<open>xs[i*d : (i+1)*d]\<close>\<close>
  "nth_row d xs i = slice xs (i * d) ((i + 1) * d)"

definition set_row :: "nat \<Rightarrow> 'f list \<Rightarrow> nat \<Rightarrow> 'f list \<Rightarrow> 'f list go" where
  \<comment> \<open>\<open>copy(xs[i*d : (i+1)*d], v)\<close>\<close>
  "set_row d xs i v = copy_into xs (i * d) ((i + 1) * d) v"

subsection \<open>K-means++ initialisation\<close>

definition update_min :: "'f::linordered_field km_env \<Rightarrow> nat \<Rightarrow> 'f list \<Rightarrow> 'f list \<Rightarrow> nat \<Rightarrow> 'f list \<times> 'f \<Rightarrow> ('f list \<times> 'f) go" where
  "update_min e d vs prev i st = (case st of (md, tot) \<Rightarrow>
     go_bind (nth_row d vs i) (\<lambda>v.
     go_bind (get_at md i) (\<lambda>m.
       let x = distFn e v prev; m' = (if x < m then x else m) in Inr (md[i := m'], tot + m'))))"

fun choose_loop :: "'f::linordered_field \<Rightarrow> 'f \<Rightarrow> nat \<Rightarrow> 'f list \<Rightarrow> nat" where
  "choose_loop target cum i [] = 0"
| "choose_loop target cum i (m # ms) =
     (let cum = cum + m in if cum \<ge> target then i else choose_loop target cum (i + 1) ms)"

definition next_centroid ::
  "'f::linordered_field km_env \<Rightarrow> nat \<Rightarrow> 'f list \<Rightarrow> nat \<Rightarrow> nat \<Rightarrow> 'f list \<times> 'f list \<Rightarrow> ('f list \<times> 'f list) go" where
  \<comment> \<open>the body of the loop over the centroids from the second on: the new centroids and \<open>minDists\<close>\<close>
  "next_centroid e d vs n c st = (case st of (cs, md) \<Rightarrow>
     go_bind (nth_row d cs (c - 1)) (\<lambda>prev.
     go_bind (for_each (update_min e d vs prev) [0..<n] (md, 0)) (\<lambda>(md, tot).
     let chosen = choose_loop (float64 e c * tot) 0 0 md in
     go_bind (nth_row d vs chosen) (\<lambda>v.
     go_bind (set_row d cs c v) (\<lambda>cs. Inr (cs, md))))))"

definition initPlusPlus :: "'f::linordered_field km_env \<Rightarrow> 'f list \<Rightarrow> nat \<Rightarrow> 'f KMeans \<Rightarrow> 'f KMeans go" where
  "initPlusPlus e vs n km =
     (let d = km_Dim km in
      go_bind (nth_row d vs (intn e n)) (\<lambda>v.
      go_bind (set_row d (replicate (km_K km * d) 0) 0 v) (\<lambda>cs.
      go_bind (for_each (next_centroid e d vs n) [1..<km_K km] (cs, replicate n (maxFloat e))) (\<lambda>(cs, md).
        Inr (km\<lparr>Centroids := cs\<rparr>)))))"

subsection \<open>Assignment\<close>

definition nearestCentroid :: "'f::linordered_field km_env \<Rightarrow> 'f KMeans \<Rightarrow> 'f list \<Rightarrow> nat go" where
  "nearestCentroid e km v =
     go_bind (for_each (\<lambda>c (best, bestDist).
         go_bind (nth_row (km_Dim km) (Centroids km) c) (\<lambda>centroid.
           let x = distFn e v centroid in Inr (if x < bestDist then (c, x) else (best, bestDist))))
       [0..<km_K km] (0, maxFloat e)) (\<lambda>(best, _). Inr best)"

definition assign_one ::
  "'f::linordered_field km_env \<Rightarrow> 'f KMeans \<Rightarrow> 'f list \<Rightarrow> nat \<Rightarrow> nat list \<times> nat \<Rightarrow> (nat list \<times> nat) go" where
  "assign_one e km vs i st = (case st of (asg, changes) \<Rightarrow>
     go_bind (nth_row (km_Dim km) vs i) (\<lambda>v.
     go_bind (nearestCentroid e km v) (\<lambda>nearest.
     go_bind (get_at asg i) (\<lambda>old.
       Inr (if nearest \<noteq> old then (asg[i := nearest], changes + 1) else (asg, changes))))))"

definition assignParallel :: "'f::linordered_field km_env \<Rightarrow> 'f KMeans \<Rightarrow> 'f list \<Rightarrow> nat \<Rightarrow> nat list \<Rightarrow> (nat list \<times> nat) go" where
  "assignParallel e km vs n asg =
     (let numWorkers = min (numCPU e) n; chunk = (n + numWorkers - 1) div numWorkers in
      for_each (\<lambda>w. for_each (assign_one e km vs) [w * chunk..<min (w * chunk + chunk) n]) [0..<numWorkers] (asg, 0))"

subsection \<open>Update\<close>

definition accumulate ::
  "nat \<Rightarrow> 'f::linordered_field list \<Rightarrow> nat list \<Rightarrow> nat \<Rightarrow> 'f list \<times> nat list \<Rightarrow> ('f list \<times> nat list) go" where
  "accumulate d vs asg i st = (case st of (cs, counts) \<Rightarrow>
     go_bind (get_at asg i) (\<lambda>c.
     go_bind (get_at counts c) (\<lambda>k.
     go_bind (nth_row d vs i) (\<lambda>src.
     go_bind (nth_row d cs c) (\<lambda>dst.
     go_bind (set_row d cs c (map2 (+) dst src)) (\<lambda>cs. Inr (cs, counts[c := k + 1])))))))"

definition divide_by_count :: "nat \<Rightarrow> nat list \<Rightarrow> nat \<Rightarrow> 'f::linordered_field list \<Rightarrow> 'f list go" where
  "divide_by_count d counts c cs =
     (if 0 < counts ! c
      then go_bind (nth_row d cs c) (\<lambda>centroid. set_row d cs c (map (\<lambda>x. x * (1 / of_nat (counts ! c))) centroid))
      else Inr cs)"

definition findFarthestVector ::
  "'f::linordered_field km_env \<Rightarrow> nat \<Rightarrow> 'f list \<Rightarrow> nat \<Rightarrow> nat list \<Rightarrow> 'f list \<Rightarrow> nat set \<Rightarrow> nat option go" where
  "findFarthestVector e d vs n asg cs skip =
     go_bind (for_each (\<lambda>i (maxDist, maxIdx).
         if i \<in> skip then Inr (maxDist, maxIdx)
         else go_bind (get_at asg i) (\<lambda>c.
              go_bind (nth_row d vs i) (\<lambda>v.
              go_bind (nth_row d cs c) (\<lambda>centroid.
                let x = distFn e v centroid in Inr (if x > maxDist then (x, Some i) else (maxDist, maxIdx))))))
       [0..<n] (- 1, None)) (\<lambda>(_, maxIdx). Inr maxIdx)"

definition refill_empty ::
  "'f::linordered_field km_env \<Rightarrow> nat \<Rightarrow> 'f list \<Rightarrow> nat \<Rightarrow> nat list \<Rightarrow> nat \<Rightarrow> 'f list \<times> nat list \<times> nat set \<Rightarrow>
    ('f list \<times> nat list \<times> nat set) go" where
  "refill_empty e d vs n counts c st = (case st of (cs, asg, reassigned) \<Rightarrow>
     if counts ! c = 0 then
       go_bind (findFarthestVector e d vs n asg cs reassigned) (\<lambda>farthest. case farthest of
         None \<Rightarrow> Inr (cs, asg, reassigned)
       | Some i \<Rightarrow>
           go_bind (nth_row d vs i) (\<lambda>v.
           go_bind (set_row d cs c v) (\<lambda>cs.
           go_bind (put_at asg i c) (\<lambda>asg. Inr (cs, asg, insert i reassigned)))))
     else Inr (cs, asg, reassigned))"

definition updateCentroids ::
  "'f::linordered_field km_env \<Rightarrow> 'f list \<Rightarrow> nat \<Rightarrow> nat list \<Rightarrow> 'f KMeans \<Rightarrow> ('f KMeans \<times> nat list) go" where
  "updateCentroids e vs n asg km =
     (let d = km_Dim km in
      go_bind (for_each (accumulate d vs asg) [0..<n] (replicate (km_K km * d) 0, replicate (km_K km) 0)) (\<lambda>(cs, counts).
      go_bind (for_each (divide_by_count d counts) [0..<km_K km] cs) (\<lambda>cs.
      go_bind (for_each (refill_empty e d vs n counts) [0..<km_K km] (cs, asg, {})) (\<lambda>(cs, asg, _).
        Inr (km\<lparr>Centroids := cs\<rparr>, asg)))))"

subsection \<open>\<open>Fit\<close>\<close>

fun fit_loop ::
  "'f::linordered_field km_env \<Rightarrow> (nat \<Rightarrow> error option) \<Rightarrow> 'f list \<Rightarrow> nat \<Rightarrow> nat \<Rightarrow> nat \<Rightarrow> nat \<Rightarrow> nat list \<Rightarrow> 'f KMeans \<Rightarrow>
    (nat list option \<times> 'f KMeans \<times> nat) go" where
  \<comment> \<open>iterations left, iterations done; the result has how often the context was asked; no assignments is nil\<close>
  "fit_loop e ctx vs n 0 it prev asg km = Inr (Some asg, km, it)"
| "fit_loop e ctx vs n (Suc k) it prev asg km =
     (case ctx it of Some _ \<Rightarrow> Inr (None, km, it + 1)
      | None \<Rightarrow>
          go_bind (assignParallel e km vs n asg) (\<lambda>(asg, changes).
            if of_nat changes / of_nat n < (1 / 1000 :: 'f) \<and> 0 < it \<or> changes = 0 \<and> prev = 0
            then Inr (Some asg, km, it + 1)
            else go_bind (updateCentroids e vs n asg km) (\<lambda>(km, asg). fit_loop e ctx vs n k (it + 1) changes asg km)))"

definition FitCtx ::
  "'f::linordered_field km_env \<Rightarrow> (nat \<Rightarrow> error option) \<Rightarrow> 'f list \<Rightarrow> nat \<Rightarrow> 'f KMeans \<Rightarrow> (nat list option \<times> 'f KMeans \<times> nat) go" where
  "FitCtx e ctx vs n km =
     (if n \<le> km_K km
      then go_bind (slice vs 0 (n * km_Dim km)) (\<lambda>cs. Inr (Some [0..<n], km\<lparr>Centroids := cs\<rparr>, 0))
      else go_bind (initPlusPlus e vs n km) (\<lambda>km. fit_loop e ctx vs n (MaxIter km) 0 n (replicate n 0) km))"

definition Fit :: "'f::linordered_field km_env \<Rightarrow> 'f list \<Rightarrow> nat \<Rightarrow> 'f KMeans \<Rightarrow> (nat list option \<times> 'f KMeans \<times> nat) go" where
  \<comment> \<open>the same without a context\<close>
  "Fit e vs n km = FitCtx e (\<lambda>_. None) vs n km"

subsection \<open>The nearest centroids of a query\<close>

record 'f CentroidDist =
  cd_Index :: nat
  cd_Distance :: 'f

definition select_min :: "('a \<Rightarrow> 'f::linorder) \<Rightarrow> nat \<Rightarrow> 'a list \<Rightarrow> nat" where
  \<comment> \<open>the inner loop of a selection sort by \<open>key\<close>: the first index of the least key from \<open>i\<close> on\<close>
  "select_min key i ds = fold (\<lambda>j m. if key (ds ! j) < key (ds ! m) then j else m) [i + 1..<length ds] i"

definition selection_sort :: "('a \<Rightarrow> 'f::linorder) \<Rightarrow> nat \<Rightarrow> 'a list \<Rightarrow> 'a list" where
  \<comment> \<open>the first \<open>k\<close> places\<close>
  "selection_sort key k ds = fold (\<lambda>i ds. let m = select_min key i ds in ds[i := ds ! m, m := ds ! i]) [0..<k] ds"

definition NearestKCentroids :: "'f::linordered_field km_env \<Rightarrow> 'f KMeans \<Rightarrow> 'f list \<Rightarrow> nat \<Rightarrow> 'f CentroidDist list go" where
  "NearestKCentroids e km v k =
     (let k = (if k > km_K km then km_K km else k) in
      go_bind (for_each (\<lambda>c ds. go_bind (nth_row (km_Dim km) (Centroids km) c) (\<lambda>centroid.
          Inr (ds @ [\<lparr>cd_Index = c, cd_Distance = distFn e v centroid\<rparr>]))) [0..<km_K km] []) (\<lambda>ds.
        Inr (take k (selection_sort cd_Distance k ds))))"


subsection \<open>No slice is overrun\<close>

lemma nth_row_ok: "i < n \<Longrightarrow> n * d \<le> length xs \<Longrightarrow> nth_row d xs i = Inr (row_of d xs i)"
  unfolding nth_row_def using row_end [of i n d] by (intro slice_row) linarith

lemma length_row: "i < n \<Longrightarrow> n * d \<le> length xs \<Longrightarrow> length (row_of d xs i) = d"
  using row_end [of i n d] by (intro length_row_of) linarith

lemma set_row_ok:
  assumes "i < n" "n * d \<le> length xs" "length v = d"
  shows "\<exists>xs'. set_row d xs i v = Inr xs' \<and> length xs' = length xs \<and> (\<forall>j. row_of d xs' j = (if j = i then v else row_of d xs j))"
proof -
  have le: "(i + 1) * d \<le> length xs" using row_end [OF assms(1), of d] assms(2) by linarith
  show ?thesis unfolding set_row_def copy_into_row(1) [OF assms(3) le]
    using copy_into_row(2) [OF assms(3) le] row_of_put [OF assms(3) le] by blast
qed

definition km_shape :: "'f KMeans \<Rightarrow> bool" where
  "km_shape km \<longleftrightarrow> 0 < km_K km \<and> 0 < km_Dim km \<and> length (Centroids km) = km_K km * km_Dim km"

definition same_params :: "'f KMeans \<Rightarrow> 'f KMeans \<Rightarrow> bool" where
  "same_params km km' \<longleftrightarrow> km_K km' = km_K km \<and> km_Dim km' = km_Dim km \<and> MaxIter km' = MaxIter km"

definition cells_ok :: "nat \<Rightarrow> nat \<Rightarrow> nat list \<Rightarrow> bool" where
  "cells_ok K n asg \<longleftrightarrow> length asg = n \<and> (\<forall>i < n. asg ! i < K)"

lemma update_min_ok:
  assumes "i < n" "n * d \<le> length vs" "length md = n"
  shows "\<exists>md' t. update_min e d vs prev i (md, tot) = Inr (md', t) \<and> length md' = n"
  using assms by (simp add: update_min_def nth_row_ok get_at_def Let_def)

lemma choose_loop_range: "choose_loop target cum i ms = 0 \<or> choose_loop target cum i ms < i + length ms"
proof (induction ms arbitrary: cum i)
  case (Cons m ms)
  show ?case using Cons [of "cum + m" "i + 1"] by (simp add: Let_def)
qed simp

lemma next_centroid_ok:
  assumes "1 \<le> c" "c < K" "length cs = K * d" "length md = n" "n * d \<le> length vs" "0 < n"
  shows "\<exists>cs' md'. next_centroid e d vs n c (cs, md) = Inr (cs', md') \<and> length cs' = K * d \<and> length md' = n"
proof -
  have prev: "nth_row d cs (c - 1) = Inr (row_of d cs (c - 1))" using assms(1-3) by (intro nth_row_ok [of _ K]) auto
  obtain md1 tot where md: "for_each (update_min e d vs (row_of d cs (c - 1))) [0..<n] (md, 0) = Inr (md1, tot)" "length md1 = n"
    using for_range [of 0 n "\<lambda>i st. length (fst st) = n" "(md, 0)" "update_min e d vs (row_of d cs (c - 1))"] assms(4,5) update_min_ok
    by fastforce
  define chosen where "chosen = choose_loop (float64 e c * tot) 0 0 md1"
  have ch: "chosen < n" using choose_loop_range [of "float64 e c * tot" 0 0 md1] md(2) assms(6) by (auto simp: chosen_def)
  obtain cs' where "set_row d cs c (row_of d vs chosen) = Inr cs'" "length cs' = K * d"
    using set_row_ok [OF assms(2), of d cs] assms(3) length_row [OF ch assms(5)] by auto
  then show ?thesis using prev md ch nth_row_ok [OF ch assms(5)] by (simp add: next_centroid_def chosen_def [symmetric])
qed

lemma initPlusPlus_ok:
  assumes "0 < km_K km" "0 < km_Dim km" "0 < n" "intn e n < n" "n * km_Dim km \<le> length vs"
  shows "\<exists>km'. initPlusPlus e vs n km = Inr km' \<and> same_params km km' \<and> km_shape km'"
proof -
  define d where "d = km_Dim km"
  define K where "K = km_K km"
  note a = assms [folded d_def K_def]
  have v: "nth_row d vs (intn e n) = Inr (row_of d vs (intn e n))" "length (row_of d vs (intn e n)) = d"
    using nth_row_ok [OF a(4,5)] length_row [OF a(4,5)] by simp_all
  obtain cs where cs: "set_row d (replicate (K * d) 0) 0 (row_of d vs (intn e n)) = Inr cs" "length cs = K * d"
    using set_row_ok [OF a(1), of d "replicate (K * d) 0"] v(2) by auto
  have "\<exists>s'. for_each (next_centroid e d vs n) [1..<K] (cs, replicate n (maxFloat e)) = Inr s' \<and> length (fst s') = K * d \<and> length (snd s') = n"
    by (rule for_range [where P = "\<lambda>i s. length (fst s) = K * d \<and> length (snd s) = n"])
      (use a cs next_centroid_ok [of _ K _ d _ n vs e] in fastforce)+
  then obtain cs' md where "for_each (next_centroid e d vs n) [1..<K] (cs, replicate n (maxFloat e)) = Inr (cs', md)" "length cs' = K * d"
    by (metis prod.collapse)
  then have "initPlusPlus e vs n km = Inr (km\<lparr>Centroids := cs'\<rparr>)" using v cs by (simp add: initPlusPlus_def d_def [symmetric] K_def [symmetric])
  then show ?thesis using a \<open>length cs' = K * d\<close> by (simp add: same_params_def km_shape_def d_def K_def)
qed

definition cent :: "'f KMeans \<Rightarrow> nat \<Rightarrow> 'f list" where
  "cent km c = row_of (km_Dim km) (Centroids km) c"

definition nearest_to :: "'f::linordered_field km_env \<Rightarrow> 'f KMeans \<Rightarrow> 'f list \<Rightarrow> nat \<Rightarrow> bool" where
  \<comment> \<open>a centroid of least distance; distances not below \<open>MaxFloat32\<close> do not count\<close>
  "nearest_to e km v c \<longleftrightarrow> c < km_K km \<and>
     (\<forall>c' < km_K km. distFn e v (cent km c') < maxFloat e \<longrightarrow> distFn e v (cent km c) \<le> distFn e v (cent km c'))"

lemma cent_ok: "km_shape km \<Longrightarrow> c < km_K km \<Longrightarrow> nth_row (km_Dim km) (Centroids km) c = Inr (cent km c)"
  unfolding cent_def by (intro nth_row_ok [of _ "km_K km"]) (auto simp: km_shape_def)

lemma argmin_loop:
  fixes x :: "nat \<Rightarrow> 'f::linorder"
  assumes "\<And>c b bd. c < k \<Longrightarrow> f c (b, bd) = Inr (if x c < bd then (c, x c) else (b, bd))"
  shows "\<exists>b bd. for_each f [0..<k] (0, top_dist) = Inr (b, bd) \<and> (0 < k \<longrightarrow> b < k) \<and> (\<forall>c < k. x c < top_dist \<longrightarrow> x b \<le> x c)"
proof -
  define P where "P = (\<lambda>c s. (s = (0, top_dist) \<and> (\<forall>c' < c. \<not> x c' < top_dist)) \<or>
    (fst s < c \<and> snd s = x (fst s) \<and> (\<forall>c' < c. snd s \<le> x c')))"
  have "\<exists>s'. for_each f [0..<k] (0, top_dist) = Inr s' \<and> P k s'"
  proof (rule for_range [where P = P])
    fix c s assume c: "c < k" "P c s"
    obtain b bd where s: "s = (b, bd)" by fastforce
    have "P (Suc c) (if x c < bd then (c, x c) else (b, bd))"
      using c(2) unfolding s P_def by (auto simp: less_Suc_eq)
    then show "\<exists>s'. f c s = Inr s' \<and> P (Suc c) s'" using assms [OF c(1)] s by auto
  qed (auto simp: P_def)
  then obtain b bd where "for_each f [0..<k] (0, top_dist) = Inr (b, bd)" "P k (b, bd)" by fastforce
  then show ?thesis by (auto simp: P_def)
qed

lemma nearestCentroid_ok:
  assumes "km_shape km"
  shows "\<exists>c. nearestCentroid e km v = Inr c \<and> nearest_to e km v c"
  using argmin_loop [where x = "\<lambda>c. distFn e v (cent km c)" and top_dist = "maxFloat e" and k = "km_K km" and
      f = "\<lambda>c (best, bestDist). go_bind (nth_row (km_Dim km) (Centroids km) c) (\<lambda>centroid.
         let x = distFn e v centroid in Inr (if x < bestDist then (c, x) else (best, bestDist)))"]
    cent_ok [OF assms] assms
  by (fastforce simp: nearestCentroid_def nearest_to_def km_shape_def)

definition near_cell :: "'f::linordered_field km_env \<Rightarrow> 'f KMeans \<Rightarrow> 'f list \<Rightarrow> nat" where
  "near_cell e km v = projr (nearestCentroid e km v)"

lemma near_cell_ok: "km_shape km \<Longrightarrow> nearestCentroid e km v = Inr (near_cell e km v) \<and> nearest_to e km v (near_cell e km v)"
  using nearestCentroid_ok [of km e v] by (auto simp: near_cell_def)

lemma chunks_cover:
  fixes w n :: nat
  assumes "0 < w"
  shows "n \<le> w * ((n + w - 1) div w)"
proof -
  define a where "a = n + w - 1"
  have "w * (a div w) + a mod w = a" by simp
  moreover have "a mod w < w" "a + 1 = n + w" using assms by (simp_all add: a_def)
  ultimately show ?thesis unfolding a_def [symmetric] by linarith
qed

lemma assign_one_ok:
  assumes "km_shape km" "i < n" "n * km_Dim km \<le> length vs" "length asg = n"
  shows "\<exists>ch'. assign_one e km vs i (asg, ch) = Inr (asg[i := near_cell e km (row_of (km_Dim km) vs i)], ch')"
proof -
  have "asg[i := asg ! i] = asg" by simp
  then show ?thesis using assms near_cell_ok [OF assms(1)] by (auto simp: assign_one_def nth_row_ok get_at_def)
qed

lemma assignParallel_ok:
  assumes "km_shape km" "n * km_Dim km \<le> length vs" "length asg = n" "0 < n" "0 < numCPU e"
  shows "\<exists>ch. assignParallel e km vs n asg = Inr (map (\<lambda>i. near_cell e km (row_of (km_Dim km) vs i)) [0..<n], ch)"
proof -
  define w where "w = min (numCPU e) n"
  define chunk where "chunk = (n + w - 1) div w"
  define nr where "nr = (\<lambda>i. near_cell e km (row_of (km_Dim km) vs i))"
  define settled where "settled = (\<lambda>b asg. length asg = n \<and> (\<forall>j < n. j < b \<longrightarrow> asg ! j = nr j))"
  let ?w = "\<lambda>w. for_each (assign_one e km vs) [w * chunk..<min (w * chunk + chunk) n]"
  have "\<exists>s'. for_each ?w [0..<w] (asg, 0) = Inr s' \<and> settled (w * chunk) (fst s')"
  proof (rule for_range [where P = "\<lambda>i s. settled (i * chunk) (fst s)"])
    fix i and s :: "nat list \<times> nat"
    assume i: "settled (i * chunk) (fst s)"
    define b where "b = min (i * chunk + chunk) n"
    show "\<exists>s'. ?w i s = Inr s' \<and> settled (Suc i * chunk) (fst s')"
    proof (cases "i * chunk \<le> b")
      case False
      then show ?thesis using i by (auto simp: b_def settled_def)
    next
      case True
      have "\<exists>s'. for_each (assign_one e km vs) [i * chunk..<b] s = Inr s' \<and> settled b (fst s')"
      proof (rule for_range [where P = "\<lambda>j s. settled j (fst s)"])
        fix j and s :: "nat list \<times> nat"
        assume j: "j < b" "settled j (fst s)"
        then have "j < n" by (simp add: b_def)
        obtain a ch where s: "s = (a, ch)" by fastforce
        obtain ch' where "assign_one e km vs j s = Inr (a[j := nr j], ch')"
          using assign_one_ok [OF assms(1) \<open>j < n\<close> assms(2), of a e ch] j(2) by (auto simp: s settled_def nr_def)
        then show "\<exists>s'. assign_one e km vs j s = Inr s' \<and> settled (Suc j) (fst s')"
          using j(2) \<open>j < n\<close> by (auto simp: settled_def s nth_list_update less_Suc_eq)
      qed (use True i in auto)
      then show ?thesis by (auto simp: b_def settled_def)
    qed
  qed (use assms(3) in \<open>auto simp: settled_def\<close>)
  then obtain a ch where r: "for_each ?w [0..<w] (asg, 0) = Inr (a, ch)" "settled (w * chunk) a" by fastforce
  have "n \<le> w * chunk" using chunks_cover [of w n] assms(4,5) by (simp add: chunk_def w_def)
  then have "a = map nr [0..<n]" using r(2) by (intro nth_equalityI) (auto simp: settled_def)
  then show ?thesis using r(1)
    unfolding assignParallel_def Let_def w_def [symmetric] chunk_def [symmetric] nr_def by blast
qed

lemma accumulate_ok:
  assumes "i < n" "n * d \<le> length vs" "cells_ok K n asg" "length cs = K * d" "length counts = K"
  shows "\<exists>cs' counts'. accumulate d vs asg i (cs, counts) = Inr (cs', counts') \<and> length cs' = K * d \<and> length counts' = K"
proof -
  have c: "asg ! i < K" "length asg = n" using assms(1,3) by (auto simp: cells_ok_def)
  have r: "nth_row d vs i = Inr (row_of d vs i)" "length (row_of d vs i) = d"
    "nth_row d cs (asg ! i) = Inr (row_of d cs (asg ! i))" "length (row_of d cs (asg ! i)) = d"
    using assms c by (simp_all add: nth_row_ok [of _ n] nth_row_ok [of _ K] length_row [of _ n] length_row [of _ K])
  obtain cs' where "set_row d cs (asg ! i) (map2 (+) (row_of d cs (asg ! i)) (row_of d vs i)) = Inr cs'" "length cs' = K * d"
    using set_row_ok [OF c(1), of d cs "map2 (+) (row_of d cs (asg ! i)) (row_of d vs i)"] assms(4) r by auto
  then show ?thesis using assms c r by (simp add: accumulate_def get_at_def)
qed

lemma divide_ok:
  assumes "c < K" "length cs = K * d"
  shows "\<exists>cs'. divide_by_count d counts c cs = Inr cs' \<and> length cs' = K * d"
proof (cases "0 < counts ! c")
  case True
  define v where "v = map (\<lambda>x. x * (1 / of_nat (counts ! c))) (row_of d cs c)"
  have "length v = d" using length_row [OF assms(1), of d cs] assms(2) by (simp add: v_def)
  then obtain cs' where "set_row d cs c v = Inr cs'" "length cs' = K * d"
    using set_row_ok [OF assms(1), of d cs v] assms(2) by auto
  then show ?thesis using True nth_row_ok [OF assms(1), of d cs] assms(2) by (simp add: divide_by_count_def v_def)
qed (use assms in \<open>simp add: divide_by_count_def\<close>)

lemma findFarthest_ok:
  fixes vs :: "'f::linordered_field list"
  assumes "n * d \<le> length vs" "cells_ok K n asg" "length cs = K * d"
  shows "\<exists>r. findFarthestVector e d vs n asg cs skip = Inr r \<and> (\<forall>i. r = Some i \<longrightarrow> i < n)"
proof -
  let ?f = "\<lambda>i (maxDist, maxIdx). if i \<in> skip then Inr (maxDist, maxIdx)
    else go_bind (get_at asg i) (\<lambda>c. go_bind (nth_row d vs i) (\<lambda>v. go_bind (nth_row d cs c) (\<lambda>centroid.
      let x = distFn e v centroid in Inr (if x > maxDist then (x, Some i) else (maxDist, maxIdx)))))"
  have "\<exists>s'. for_each ?f [0..<n] (- 1, None) = Inr s' \<and> (\<forall>i. snd s' = Some i \<longrightarrow> i < n)"
  proof (rule for_range [where P = "\<lambda>k s. \<forall>i. snd s = Some i \<longrightarrow> i < n"])
    fix i and s :: "'f \<times> nat option"
    assume i: "i < n" "\<forall>j. snd s = Some j \<longrightarrow> j < n"
    obtain m mi where s: "s = (m, mi)" by fastforce
    have "asg ! i < K" "length asg = n" using assms(2) i by (auto simp: cells_ok_def)
    moreover define x where "x = distFn e (row_of d vs i) (row_of d cs (asg ! i))"
    ultimately have "?f i s = Inr (if i \<in> skip \<or> \<not> x > m then (m, mi) else (x, Some i))"
      using i assms by (simp add: s get_at_def nth_row_ok [of _ n] nth_row_ok [of _ K] Let_def)
    then show "\<exists>s'. ?f i s = Inr s' \<and> (\<forall>j. snd s' = Some j \<longrightarrow> j < n)" using i by (auto simp: s split: if_splits)
  qed auto
  then obtain m r where "for_each ?f [0..<n] (- 1, None) = Inr (m, r)" "\<forall>i. r = Some i \<longrightarrow> i < n" by fastforce
  then show ?thesis by (simp add: findFarthestVector_def)
qed

lemma refill_ok:
  assumes "c < K" "n * d \<le> length vs" "cells_ok K n asg" "length cs = K * d"
  shows "\<exists>cs' asg' re'. refill_empty e d vs n counts c (cs, asg, re) = Inr (cs', asg', re') \<and> cells_ok K n asg' \<and> length cs' = K * d"
proof (cases "counts ! c = 0")
  case True
  obtain r where r: "findFarthestVector e d vs n asg cs re = Inr r" "\<And>i. r = Some i \<Longrightarrow> i < n"
    using findFarthest_ok [OF assms(2-4)] by blast
  show ?thesis
  proof (cases r)
    case None
    then show ?thesis using True r assms by (simp add: refill_empty_def)
  next
    case (Some i)
    then have i: "i < n" using r(2) by blast
    have "length asg = n" using assms(3) by (simp add: cells_ok_def)
    then have "put_at asg i c = Inr (asg[i := c])" using i by (simp add: put_at_def)
    moreover obtain cs' where "set_row d cs c (row_of d vs i) = Inr cs'" "length cs' = K * d"
      using set_row_ok [OF assms(1), of d cs] length_row [OF i assms(2)] assms(4) by auto
    moreover have "cells_ok K n (asg[i := c])" using assms(1,3) i by (simp add: cells_ok_def nth_list_update)
    ultimately show ?thesis using True Some r nth_row_ok [OF i assms(2)] by (simp add: refill_empty_def)
  qed
qed (use assms in \<open>simp add: refill_empty_def\<close>)

lemma updateCentroids_ok:
  fixes vs :: "'f::linordered_field list"
  assumes "km_shape km" "n * km_Dim km \<le> length vs" "cells_ok (km_K km) n asg"
  shows "\<exists>km' asg'. updateCentroids e vs n asg km = Inr (km', asg') \<and> km_shape km' \<and> same_params km km' \<and> cells_ok (km_K km) n asg'"
proof -
  define d where "d = km_Dim km"
  define K where "K = km_K km"
  note a = assms(2,3) [folded d_def K_def]
  have "\<exists>s'. for_each (accumulate d vs asg) [0..<n] (replicate (K * d) 0, replicate K 0) = Inr s' \<and> length (fst s') = K * d \<and> length (snd s') = K"
  proof (rule for_range [where P = "\<lambda>i s. length (fst s) = K * d \<and> length (snd s) = K"])
    fix i and s :: "'f list \<times> nat list"
    assume "i < n" "length (fst s) = K * d \<and> length (snd s) = K"
    then show "\<exists>s'. accumulate d vs asg i s = Inr s' \<and> length (fst s') = K * d \<and> length (snd s') = K"
      using accumulate_ok [OF _ a, of i "fst s" "snd s"] by auto
  qed simp_all
  then obtain cs1 counts where 1: "for_each (accumulate d vs asg) [0..<n] (replicate (K * d) 0, replicate K 0) = Inr (cs1, counts)"
    "length cs1 = K * d" by fastforce
  have "\<exists>s'. for_each (divide_by_count d counts) [0..<K] cs1 = Inr s' \<and> length s' = K * d"
    by (rule for_range [where P = "\<lambda>i s. length s = K * d"]) (use 1 divide_ok in auto)
  then obtain cs2 where 2: "for_each (divide_by_count d counts) [0..<K] cs1 = Inr cs2" "length cs2 = K * d" by blast
  have "\<exists>s'. for_each (refill_empty e d vs n counts) [0..<K] (cs2, asg, {}) = Inr s' \<and> length (fst s') = K * d \<and> cells_ok K n (fst (snd s'))"
  proof (rule for_range [where P = "\<lambda>i s. length (fst s) = K * d \<and> cells_ok K n (fst (snd s))"])
    fix i and s :: "'f list \<times> nat list \<times> nat set"
    assume i: "i < K" "length (fst s) = K * d \<and> cells_ok K n (fst (snd s))"
    obtain cs as re where s: "s = (cs, as, re)" by (cases s)
    show "\<exists>s'. refill_empty e d vs n counts i s = Inr s' \<and> length (fst s') = K * d \<and> cells_ok K n (fst (snd s'))"
      using refill_ok [OF i(1) a(1), where asg = as and cs = cs and e = e and counts = counts and re = re] i(2) by (auto simp: s)
  qed (use 2 a in simp_all)
  then obtain cs3 asg3 re where 3: "for_each (refill_empty e d vs n counts) [0..<K] (cs2, asg, {}) = Inr (cs3, asg3, re)"
    "length cs3 = K * d" "cells_ok K n asg3" by fastforce
  have "updateCentroids e vs n asg km = Inr (km\<lparr>Centroids := cs3\<rparr>, asg3)"
    using 1 2 3 by (simp add: updateCentroids_def d_def [symmetric] K_def [symmetric])
  then show ?thesis using 3 assms(1) by (simp add: km_shape_def same_params_def d_def K_def)
qed

definition all_nearest :: "'f::linordered_field km_env \<Rightarrow> 'f KMeans \<Rightarrow> 'f list \<Rightarrow> nat list \<Rightarrow> bool" where
  "all_nearest e km vs asg \<longleftrightarrow> (\<forall>i < length asg. nearest_to e km (row_of (km_Dim km) vs i) (asg ! i))"

lemma fit_loop_ok:
  assumes "km_shape km" "n * km_Dim km \<le> length vs" "cells_ok (km_K km) n asg" "0 < n" "0 < numCPU e"
  shows "\<exists>r km' it'. fit_loop e ctx vs n k it prev asg km = Inr (r, km', it') \<and> km_shape km' \<and> same_params km km' \<and>
     (\<forall>asg'. r = Some asg' \<longrightarrow> cells_ok (km_K km) n asg' \<and> (all_nearest e km' vs asg' \<or> it' = it + k)) \<and>
     (r = None \<longrightarrow> (\<exists>j. ctx j \<noteq> None))"
  using assms
proof (induction k arbitrary: it prev asg km)
  case 0
  then show ?case by (simp add: same_params_def)
next
  case (Suc k)
  show ?case
  proof (cases "ctx it")
    case (Some x)
    then show ?thesis using Suc.prems by (auto simp: same_params_def)
  next
    case None
    define asg1 where "asg1 = map (\<lambda>i. near_cell e km (row_of (km_Dim km) vs i)) [0..<n]"
    have len: "length asg = n" using Suc.prems(3) by (simp add: cells_ok_def)
    obtain ch where a: "assignParallel e km vs n asg = Inr (asg1, ch)"
      using assignParallel_ok [OF Suc.prems(1,2) len Suc.prems(4,5)] by (auto simp: asg1_def)
    have all: "all_nearest e km vs asg1" using near_cell_ok [OF Suc.prems(1)] by (simp add: all_nearest_def asg1_def)
    then have ok: "cells_ok (km_K km) n asg1" by (simp add: all_nearest_def nearest_to_def cells_ok_def asg1_def)
    show ?thesis
    proof (cases "of_nat ch / of_nat n < (1 / 1000 :: 'a) \<and> 0 < it \<or> ch = 0 \<and> prev = 0")
      case True
      have "fit_loop e ctx vs n (Suc k) it prev asg km = Inr (Some asg1, km, it + 1)"
        by (simp only: fit_loop.simps None option.case a go_bind.simps case_prod_conv True if_True)
      then show ?thesis using all ok Suc.prems(1) by (auto simp: same_params_def)
    next
      case False
      obtain km2 asg2 where u: "updateCentroids e vs n asg1 km = Inr (km2, asg2)" "km_shape km2" "same_params km km2" "cells_ok (km_K km) n asg2"
        using updateCentroids_ok [OF Suc.prems(1,2) ok] by blast
      have eq: "fit_loop e ctx vs n (Suc k) it prev asg km = fit_loop e ctx vs n k (it + 1) ch asg2 km2"
        by (simp only: fit_loop.simps None option.case a go_bind.simps case_prod_conv False if_False u(1))
      have p: "km_K km2 = km_K km" "km_Dim km2 = km_Dim km" using u(3) by (simp_all add: same_params_def)
      have p': "n * km_Dim km2 \<le> length vs" "cells_ok (km_K km2) n asg2" using Suc.prems(2) u(4) p by simp_all
      obtain r km' it' where r: "fit_loop e ctx vs n k (it + 1) ch asg2 km2 = Inr (r, km', it') \<and> km_shape km' \<and> same_params km2 km' \<and>
        (\<forall>asg'. r = Some asg' \<longrightarrow> cells_ok (km_K km) n asg' \<and> (all_nearest e km' vs asg' \<or> it' = it + 1 + k)) \<and>
        (r = None \<longrightarrow> (\<exists>j. ctx j \<noteq> None))"
        using Suc.IH [OF u(2) p' Suc.prems(4,5), of "it + 1" ch, unfolded p(1)] by (elim exE) (rule that)
      then have "same_params km km'" using u(3) by (simp add: same_params_def)
      with r show ?thesis unfolding eq by (intro exI [of _ r] exI [of _ km'] exI [of _ it']) simp
    qed
  qed
qed

lemma FitCtx_ok:
  assumes "0 < km_K km" "km_K km \<le> n" "0 < km_Dim km" "n * km_Dim km \<le> length vs" "intn e n < n" "0 < numCPU e" "MaxIter km = 200"
  shows "\<exists>r km' it. FitCtx e ctx vs n km = Inr (r, km', it) \<and> km_shape km' \<and> same_params km km' \<and>
     (\<forall>asg. r = Some asg \<longrightarrow> cells_ok (km_K km) n asg \<and> (km_K km < n \<longrightarrow> all_nearest e km' vs asg \<or> it = 200)) \<and>
     (r = None \<longrightarrow> (\<exists>j. ctx j \<noteq> None))"
proof (cases "n \<le> km_K km")
  case True
  then have K: "km_K km = n" using assms(2) by simp
  have "slice vs 0 (n * km_Dim km) = Inr (take (n * km_Dim km) vs)" using assms(4) by (simp add: slice_def)
  then show ?thesis using K assms by (simp add: FitCtx_def km_shape_def same_params_def cells_ok_def min_absorb2)
next
  case False
  have n: "0 < n" using assms(1,2) by simp
  obtain km1 where i: "initPlusPlus e vs n km = Inr km1" "same_params km km1" "km_shape km1"
    using initPlusPlus_ok [OF assms(1,3) n assms(5,4)] by blast
  have p: "km_K km1 = km_K km" "km_Dim km1 = km_Dim km" "MaxIter km1 = 200" using i(2) assms(7) by (simp_all add: same_params_def)
  have "cells_ok (km_K km1) n (replicate n 0)" using assms(1) p by (simp add: cells_ok_def)
  then have c: "n * km_Dim km1 \<le> length vs" "cells_ok (km_K km1) n (replicate n 0)" using assms(4) p by simp_all
  obtain r km' it where r: "fit_loop e ctx vs n 200 0 n (replicate n 0) km1 = Inr (r, km', it) \<and> km_shape km' \<and> same_params km1 km' \<and>
    (\<forall>asg'. r = Some asg' \<longrightarrow> cells_ok (km_K km) n asg' \<and> (all_nearest e km' vs asg' \<or> it = 0 + 200)) \<and> (r = None \<longrightarrow> (\<exists>j. ctx j \<noteq> None))"
    using fit_loop_ok [OF i(3) c n assms(6), of ctx 200 0 n, unfolded p(1)] by (elim exE) (rule that)
  then have "same_params km km'" using i(2) by (simp add: same_params_def)
  with r have "FitCtx e ctx vs n km = Inr (r, km', it) \<and> km_shape km' \<and> same_params km km' \<and>
     (\<forall>asg. r = Some asg \<longrightarrow> cells_ok (km_K km) n asg \<and> (km_K km < n \<longrightarrow> all_nearest e km' vs asg \<or> it = 200)) \<and>
     (r = None \<longrightarrow> (\<exists>j. ctx j \<noteq> None))" using False i(1) p(3) by (simp add: FitCtx_def)
  then show ?thesis by blast
qed

subsection \<open>The nearest centroids\<close>

lemma select_min_ok:
  assumes "i < length ds"
  shows "i \<le> select_min key i ds \<and> select_min key i ds < length ds \<and> (\<forall>j. i \<le> j \<and> j < length ds \<longrightarrow> key (ds ! select_min key i ds) \<le> key (ds ! j))"
proof -
  let ?f = "\<lambda>j m. if key (ds ! j) < key (ds ! m) then j else m"
  have "i \<le> fold ?f [i + 1..<n] i \<and> fold ?f [i + 1..<n] i < n \<and> (\<forall>j. i \<le> j \<and> j < n \<longrightarrow> key (ds ! fold ?f [i + 1..<n] i) \<le> key (ds ! j))"
    if "i < n" for n
    using that
  proof (induction n)
    case (Suc n)
    show ?case
    proof (cases "i = n")
      case True
      then show ?thesis by (auto simp: less_Suc_eq)
    next
      case False
      then have n: "i < n" using Suc.prems by simp
      define m where "m = fold ?f [i + 1..<n] i"
      have eq: "fold ?f [i + 1..<Suc n] i = ?f n m" using n by (simp add: m_def)
      show ?thesis unfolding eq using Suc.IH [OF n, folded m_def] n by (auto simp: less_Suc_eq)
    qed
  qed simp
  then show ?thesis using assms by (simp add: select_min_def)
qed

definition prefix_sorted :: "('a \<Rightarrow> 'f::linorder) \<Rightarrow> nat \<Rightarrow> 'a list \<Rightarrow> bool" where
  "prefix_sorted key i ds \<longleftrightarrow> (\<forall>a b. a < i \<and> a \<le> b \<and> b < length ds \<longrightarrow> key (ds ! a) \<le> key (ds ! b))"

lemma selection_step:
  assumes "i < length ds" "prefix_sorted key i ds" "m = select_min key i ds"
  shows "prefix_sorted key (Suc i) (ds[i := ds ! m, m := ds ! i])" "mset (ds[i := ds ! m, m := ds ! i]) = mset ds"
proof -
  have m: "i \<le> m" "m < length ds" "\<And>j. i \<le> j \<Longrightarrow> j < length ds \<Longrightarrow> key (ds ! m) \<le> key (ds ! j)"
    using select_min_ok [OF assms(1)] assms(3) by auto
  show "mset (ds[i := ds ! m, m := ds ! i]) = mset ds" using assms(1) m(2) by (simp add: mset_swap)
  define ds' where "ds' = ds[i := ds ! m, m := ds ! i]"
  have nth: "ds' ! b = ds ! (if b = i then m else if b = m then i else b)" if "b < length ds" for b
    using that assms(1) m(2) by (auto simp: ds'_def nth_list_update)
  have "key (ds' ! a) \<le> key (ds' ! b)" if "a < Suc i" "a \<le> b" "b < length ds" for a b
  proof (cases "a = i")
    case True
    then show ?thesis using that m assms(1) nth [of a] nth [of b] by (auto simp del: not_le)
  next
    case False
    then have "a < i" using that(1) by simp
    define b' where "b' = (if b = i then m else if b = m then i else b)"
    have "a \<le> b'" "b' < length ds" using \<open>a < i\<close> that m(1,2) assms(1) by (auto simp: b'_def)
    then have "key (ds ! a) \<le> key (ds ! b')" using assms(2) \<open>a < i\<close> by (simp add: prefix_sorted_def)
    then show ?thesis using \<open>a < i\<close> m(1) that nth [of a] nth [of b] by (simp add: b'_def)
  qed
  then show "prefix_sorted key (Suc i) (ds[i := ds ! m, m := ds ! i])" by (simp add: prefix_sorted_def ds'_def [symmetric]) (simp add: ds'_def)
qed

lemma selection_sort_ok:
  assumes "k \<le> length ds"
  shows "prefix_sorted key k (selection_sort key k ds) \<and> mset (selection_sort key k ds) = mset ds"
  using assms
proof (induction k)
  case 0
  then show ?case by (simp add: selection_sort_def prefix_sorted_def)
next
  case (Suc k)
  define s where "s = selection_sort key k ds"
  have IH: "prefix_sorted key k s" "mset s = mset ds" using Suc by (simp_all add: s_def)
  have k: "k < length s" using Suc.prems arg_cong [OF IH(2), of size] by simp
  have "selection_sort key (Suc k) ds = s[k := s ! select_min key k s, select_min key k s := s ! k]"
    by (simp add: selection_sort_def s_def Let_def)
  then show ?case using selection_step [OF k IH(1) refl] IH(2) by simp
qed

definition nearest_cells :: "'f::linordered_field km_env \<Rightarrow> 'f KMeans \<Rightarrow> 'f list \<Rightarrow> nat \<Rightarrow> nat list \<Rightarrow> bool" where
  \<comment> \<open>\<open>cs\<close> are \<open>k\<close> different centroids, nearest first, and no other is nearer\<close>
  "nearest_cells e km v k cs \<longleftrightarrow> length cs = min k (km_K km) \<and> distinct cs \<and> set cs \<subseteq> {..<km_K km} \<and>
     sorted (map (\<lambda>c. distFn e v (cent km c)) cs) \<and>
     (\<forall>c \<in> set cs. \<forall>c' < km_K km. c' \<notin> set cs \<longrightarrow> distFn e v (cent km c) \<le> distFn e v (cent km c'))"

lemma NearestKCentroids_ok:
  assumes "km_shape km"
  shows "\<exists>ds. NearestKCentroids e km v k = Inr ds \<and> nearest_cells e km v k (map cd_Index ds)"
proof -
  define item where "item = (\<lambda>c. \<lparr>cd_Index = c, cd_Distance = distFn e v (cent km c)\<rparr>)"
  let ?f = "\<lambda>c ds. go_bind (nth_row (km_Dim km) (Centroids km) c) (\<lambda>centroid. Inr (ds @ [\<lparr>cd_Index = c, cd_Distance = distFn e v centroid\<rparr>]))"
  have "\<exists>s'. for_each ?f [0..<km_K km] [] = Inr s' \<and> s' = map item [0..<km_K km]"
    by (rule for_range [where P = "\<lambda>i s. s = map item [0..<i]"]) (use cent_ok [OF assms] in \<open>auto simp: item_def\<close>)
  then have all: "for_each ?f [0..<km_K km] [] = Inr (map item [0..<km_K km])" by simp
  define k' where "k' = min k (km_K km)"
  define ss where "ss = selection_sort cd_Distance k' (map item [0..<km_K km])"
  have ss: "prefix_sorted cd_Distance k' ss" "mset ss = mset (map item [0..<km_K km])"
    using selection_sort_ok [of k' "map item [0..<km_K km]" cd_Distance] by (simp_all add: ss_def k'_def)
  have len: "length ss = km_K km" using arg_cong [OF ss(2), of size] by simp
  have set_ss: "set ss = item ` {..<km_K km}" using arg_cong [OF ss(2), of set_mset] by (auto simp: lessThan_atLeast0)
  have idx: "cd_Distance x = distFn e v (cent km (cd_Index x))" "cd_Index x < km_K km" if "x \<in> set ss" for x
    using that set_ss by (auto simp: item_def)
  have "mset (map cd_Index ss) = mset (map cd_Index (map item [0..<km_K km]))" unfolding mset_map [of cd_Index] ss(2) ..
  moreover have "map cd_Index (map item [0..<km_K km]) = [0..<km_K km]" by (simp add: item_def comp_def)
  ultimately have perm: "mset (map cd_Index ss) = mset [0..<km_K km]" by (simp only:)
  then have dis: "distinct (map cd_Index ss)" using mset_eq_imp_distinct_iff distinct_upt by blast
  have "nearest_cells e km v k (map cd_Index (take k' ss))"
    unfolding nearest_cells_def
  proof (intro conjI ballI allI impI)
    show "length (map cd_Index (take k' ss)) = min k (km_K km)" using len by (simp add: k'_def)
    show "distinct (map cd_Index (take k' ss))" using dis by (simp flip: take_map)
    show "set (map cd_Index (take k' ss)) \<subseteq> {..<km_K km}" using idx(2) by (auto dest: in_set_takeD)
    have eq: "map (\<lambda>c. distFn e v (cent km c)) (map cd_Index (take k' ss)) = map cd_Distance (take k' ss)"
      using idx(1) by (auto dest: in_set_takeD)
    show "sorted (map (\<lambda>c. distFn e v (cent km c)) (map cd_Index (take k' ss)))"
      unfolding eq using ss(1) len by (simp add: sorted_iff_nth_mono prefix_sorted_def)
  next
    fix c c' assume c: "c \<in> set (map cd_Index (take k' ss))" "c' < km_K km" "c' \<notin> set (map cd_Index (take k' ss))"
    obtain a where a: "a < k'" "a < length ss" "c = cd_Index (ss ! a)" using c(1) by (auto simp: in_set_conv_nth)
    have "c' \<in> set (map cd_Index ss)" using c(2) perm by (metis atLeastLessThan_iff le0 set_mset_mset set_upt)
    then obtain b where b: "b < length ss" "c' = cd_Index (ss ! b)" by (auto simp: in_set_conv_nth)
    have "k' \<le> b"
    proof (rule ccontr)
      assume "\<not> k' \<le> b"
      then have "ss ! b \<in> set (take k' ss)" using b(1) by (auto simp: in_set_conv_nth)
      then show False using c(3) b(2) by auto
    qed
    then have "cd_Distance (ss ! a) \<le> cd_Distance (ss ! b)" using ss(1) a(1) b(1) by (simp add: prefix_sorted_def)
    then show "distFn e v (cent km c) \<le> distFn e v (cent km c')" using idx(1) a b by simp
  qed
  moreover have "NearestKCentroids e km v k = Inr (take k' ss)"
    by (simp add: NearestKCentroids_def all k'_def ss_def Let_def min_def)
  ultimately show ?thesis by blast
qed

text \<open>C35. K-means: with \<open>0 < K \<le> n\<close> clusters on \<open>n\<close> vectors and any answers of the context, \<open>FitCtx\<close> overruns no
  slice and returns nil only if the context was cancelled; otherwise every vector gets one of the clusters, and,
  unless \<open>K = n\<close> or the 200 iterations were used up, that is a cluster whose centroid is nearest to it
  (a distance not below \<open>MaxFloat32\<close> counts as infinite). \<open>Fit\<close>, which is \<open>FitCtx\<close> without a context, never
  returns nil. In all cases the centroids later probed for a query are the nearest ones, nearest first.\<close>

theorem kmeans_partitions:
  fixes e :: "'f::linordered_field km_env"
  assumes "0 < K" "K \<le> n" "0 < d" "length vs = n * d" "intn e n < n" "0 < numCPU e"
  shows "\<exists>r km it. FitCtx e ctx vs n (NewKMeans K d) = Inr (r, km, it) \<and>
     (case r of None \<Rightarrow> \<exists>j. ctx j \<noteq> None
      | Some asg \<Rightarrow> length asg = n \<and> (\<forall>i < n. asg ! i < K) \<and>
          (K < n \<longrightarrow> it = 200 \<or> (\<forall>i < n. nearest_to e km (row_of d vs i) (asg ! i)))) \<and>
     (\<forall>q p. \<exists>ds. NearestKCentroids e km q p = Inr ds \<and> nearest_cells e km q p (map cd_Index ds)) \<and>
     (\<exists>asg km it. Fit e vs n (NewKMeans K d) = Inr (Some asg, km, it))"
proof -
  have p: "km_K (NewKMeans K d :: 'f KMeans) = K" "km_Dim (NewKMeans K d :: 'f KMeans) = d" "MaxIter (NewKMeans K d :: 'f KMeans) = 200"
    by (simp_all add: NewKMeans_def)
  have pre: "0 < km_K (NewKMeans K d :: 'f KMeans)" "km_K (NewKMeans K d :: 'f KMeans) \<le> n" "0 < km_Dim (NewKMeans K d :: 'f KMeans)"
    "n * km_Dim (NewKMeans K d :: 'f KMeans) \<le> length vs" "intn e n < n" "0 < numCPU e" "MaxIter (NewKMeans K d :: 'f KMeans) = 200"
    using assms by (simp_all add: p)
  obtain r km it where f: "FitCtx e ctx vs n (NewKMeans K d) = Inr (r, km, it) \<and> km_shape km \<and> same_params (NewKMeans K d) km \<and>
     (\<forall>asg. r = Some asg \<longrightarrow> cells_ok K n asg \<and> (K < n \<longrightarrow> all_nearest e km vs asg \<or> it = 200)) \<and> (r = None \<longrightarrow> (\<exists>j. ctx j \<noteq> None))"
    using FitCtx_ok [OF pre, of ctx, unfolded p(1)] by (elim exE) (rule that)
  have d: "km_Dim km = d" using f p(2) by (simp add: same_params_def)
  have "case r of None \<Rightarrow> \<exists>j. ctx j \<noteq> None
      | Some asg \<Rightarrow> length asg = n \<and> (\<forall>i < n. asg ! i < K) \<and>
          (K < n \<longrightarrow> it = 200 \<or> (\<forall>i < n. nearest_to e km (row_of d vs i) (asg ! i)))"
    using f d by (cases r) (auto simp: cells_ok_def all_nearest_def)
  moreover have "\<forall>q p. \<exists>ds. NearestKCentroids e km q p = Inr ds \<and> nearest_cells e km q p (map cd_Index ds)"
    using f by (intro allI NearestKCentroids_ok) simp
  moreover have "\<exists>asg km it. Fit e vs n (NewKMeans K d) = Inr (Some asg, km, it)"
    using FitCtx_ok [OF pre, of "\<lambda>_. None"] unfolding Fit_def by (metis option.exhaust)
  ultimately show ?thesis using f by blast
qed

definition ex_km_env :: "rat km_env" where
  "ex_km_env = \<lparr>distFn = (\<lambda>a b. L2Squared a b), maxFloat = 1000000, intn = (\<lambda>_. 0), float64 = (\<lambda>_. 1 / 2), numCPU = 2\<rparr>"

theorem kmeans_partitions_witness:
  "\<exists>r km it. FitCtx ex_km_env (\<lambda>j. if j = 50 then Some (OtherError ''context canceled'' None) else None) [0, 1, 10, 11] 4 (NewKMeans 2 1) = Inr (r, km, it) \<and>
     (\<forall>asg. r = Some asg \<longrightarrow> length asg = 4 \<and> (\<forall>i < 4. asg ! i < 2) \<and>
        (it = 200 \<or> (\<forall>i < 4. nearest_to ex_km_env km (row_of 1 [0, 1, 10, 11] i) (asg ! i))))"
proof -
  have p: "0 < (2 :: nat)" "(2 :: nat) \<le> 4" "0 < (1 :: nat)" "length [0, 1, 10, 11 :: rat] = 4 * 1" "intn ex_km_env 4 < 4" "0 < numCPU ex_km_env"
    by (simp_all add: ex_km_env_def)
  obtain r km it where "FitCtx ex_km_env (\<lambda>j. if j = 50 then Some (OtherError ''context canceled'' None) else None) [0, 1, 10, 11] 4 (NewKMeans 2 1) = Inr (r, km, it)"
    "case r of None \<Rightarrow> True | Some asg \<Rightarrow> length asg = 4 \<and> (\<forall>i < 4. asg ! i < 2) \<and>
       ((2 :: nat) < 4 \<longrightarrow> it = 200 \<or> (\<forall>i < 4. nearest_to ex_km_env km (row_of 1 [0, 1, 10, 11] i) (asg ! i)))"
    using kmeans_partitions [OF p, of "\<lambda>j. if j = 50 then Some (OtherError ''context canceled'' None) else None"]
    by (auto split: option.splits)
  then show ?thesis by auto
qed

end
