(* ===== verification/Product_Quantizer.thy ===== *)
theory Product_Quantizer
  imports K_Means
begin

section \<open>Product quantization\<close>

text \<open>
  Models \<open>internal/quantize/product.go\<close> on an ordered field. \<open>maxf\<close> is \<open>math.MaxFloat32\<close>; \<open>draws\<close> are the successive
  results of \<open>rng.Intn(n)\<close>. The loop that draws until it finds an unused index may go on forever, so training has
  the result \<open>None\<close> when the draws given do not let it return. The loops that sum squared differences over a
  sub-vector are those of \<^const>\<open>L2Squared\<close>.
\<close>

record 'f ProductQuantizer =
  pq_Dim :: nat
  pq_M :: nat
  SubDim :: nat
  KBook :: nat
  Codebooks :: "'f list"
  trained :: bool

definition NewProductQuantizer :: "int \<Rightarrow> int \<Rightarrow> error + 'f ProductQuantizer" where
  "NewProductQuantizer d m =
     (if d \<le> 0 \<or> m \<le> 0 then Inl (OtherError ''quantize: dim and m must be > 0'' None)
      else if d mod m \<noteq> 0 then Inl (OtherError ''quantize: dim must be divisible by m'' None)
      else Inr \<lparr>pq_Dim = nat d, pq_M = nat m, SubDim = nat (d div m), KBook = 256, Codebooks = [], trained = False\<rparr>)"

definition cbOffset :: "'f ProductQuantizer \<Rightarrow> nat \<Rightarrow> nat" where
  "cbOffset pq m = m * KBook pq * SubDim pq"

subsection \<open>Training\<close>

fun draw_loop :: "nat \<Rightarrow> nat list \<Rightarrow> nat list \<Rightarrow> (nat list \<times> nat list) option" where
  \<comment> \<open>random selection of different indices: those still to select, those selected (last first), the draws\<close>
  "draw_loop 0 used ds = Some (rev used, ds)"
| "draw_loop (Suc k) used [] = None"
| "draw_loop (Suc k) used (i # ds) = (if i \<in> set used then draw_loop (Suc k) used ds else draw_loop k (i # used) ds)"

definition nearest_code :: "'f::linordered_field \<Rightarrow> 'f list \<Rightarrow> nat \<Rightarrow> nat \<Rightarrow> nat \<Rightarrow> 'f list \<Rightarrow> nat go" where
  \<comment> \<open>the nearest of \<open>k\<close> centroids stored from \<open>off\<close> on\<close>
  "nearest_code maxf cb off sd k v =
     go_bind (for_each (\<lambda>c (nearest, nearestDist).
         go_bind (slice cb (off + c * sd) (off + (c + 1) * sd)) (\<lambda>centroid.
           let x = L2Squared v centroid in Inr (if x < nearestDist then (c, x) else (nearest, nearestDist))))
       [0..<k] (0, maxf)) (\<lambda>(nearest, _). Inr nearest)"

definition reassign ::
  "'f::linordered_field \<Rightarrow> 'f list \<Rightarrow> nat \<Rightarrow> nat \<Rightarrow> 'f list \<Rightarrow> nat \<Rightarrow> nat list \<times> nat \<Rightarrow> (nat list \<times> nat) go" where
  "reassign maxf sub sd k cs i st = (case st of (asg, changes) \<Rightarrow>
     go_bind (nth_row sd sub i) (\<lambda>v.
     go_bind (nearest_code maxf cs 0 sd k v) (\<lambda>nearest.
     go_bind (get_at asg i) (\<lambda>old.
       Inr (if nearest \<noteq> old then (asg[i := nearest], changes + 1) else (asg, changes))))))"

fun subspace_loop ::
  "'f::linordered_field \<Rightarrow> 'f list \<Rightarrow> nat \<Rightarrow> nat \<Rightarrow> nat \<Rightarrow> nat \<Rightarrow> nat list \<Rightarrow> 'f list \<Rightarrow> 'f list go" where
  "subspace_loop maxf sub n sd k 0 asg cs = Inr cs"
| "subspace_loop maxf sub n sd k (Suc iters) asg cs =
     go_bind (for_each (reassign maxf sub sd k cs) [0..<n] (asg, 0)) (\<lambda>(asg, changes).
       if changes = 0 then Inr cs
       else go_bind (for_each (accumulate sd sub asg) [0..<n] (replicate (k * sd) 0, replicate k 0)) (\<lambda>(cs, counts).
            go_bind (for_each (divide_by_count sd counts) [0..<k] cs) (\<lambda>cs. subspace_loop maxf sub n sd k iters asg cs)))"

definition kmeansSubspace ::
  "'f::linordered_field \<Rightarrow> nat list \<Rightarrow> 'f list \<Rightarrow> nat \<Rightarrow> nat \<Rightarrow> nat \<Rightarrow> nat \<Rightarrow> ('f list \<times> nat list) option go" where
  \<comment> \<open>the centroids and the draws left\<close>
  "kmeansSubspace maxf draws sub n sd k maxIter =
     (case draw_loop k [] draws of None \<Rightarrow> Inr None
      | Some (chosen, rest) \<Rightarrow>
          go_bind (for_each (\<lambda>c cs. go_bind (nth_row sd sub (chosen ! c)) (set_row sd cs c)) [0..<k] (replicate (k * sd) 0)) (\<lambda>cs.
          go_bind (subspace_loop maxf sub n sd k maxIter (replicate n 0) cs) (\<lambda>cs. Inr (Some (cs, rest)))))"

definition sub_vectors :: "'f::linordered_field ProductQuantizer \<Rightarrow> 'f list \<Rightarrow> nat \<Rightarrow> nat \<Rightarrow> 'f list go" where
  "sub_vectors pq vs n m =
     for_each (\<lambda>i sub. go_bind (slice vs (i * pq_Dim pq + m * SubDim pq) (i * pq_Dim pq + m * SubDim pq + SubDim pq))
       (copy_into sub (i * SubDim pq) (i * SubDim pq + SubDim pq))) [0..<n] (replicate (n * SubDim pq) 0)"

definition train_subspace ::
  "'f::linordered_field \<Rightarrow> 'f ProductQuantizer \<Rightarrow> 'f list \<Rightarrow> nat \<Rightarrow> nat \<Rightarrow> nat \<Rightarrow> ('f list \<times> nat list) option \<Rightarrow>
    ('f list \<times> nat list) option go" where
  \<comment> \<open>one sub-space: the codebooks and the draws left\<close>
  "train_subspace maxf pq vs n maxIter m st = (case st of None \<Rightarrow> Inr None
   | Some (cb, draws) \<Rightarrow>
     (let effectiveK = (if n < KBook pq then n else KBook pq); off = cbOffset pq m; sd = SubDim pq in
      go_bind (sub_vectors pq vs n m) (\<lambda>sub.
      go_bind (kmeansSubspace maxf draws sub n sd effectiveK maxIter) (\<lambda>r. case r of
        None \<Rightarrow> Inr None
      | Some (centroids, draws) \<Rightarrow>
          go_bind (copy_into cb off (off + effectiveK * sd) centroids) (\<lambda>cb.
          go_bind (copy_into cb (off + effectiveK * sd) (off + KBook pq * sd) (replicate ((KBook pq - effectiveK) * sd) 0)) (\<lambda>cb.
            Inr (Some (cb, draws))))))))"

definition Train ::
  "'f::linordered_field \<Rightarrow> nat list \<Rightarrow> 'f list \<Rightarrow> nat \<Rightarrow> int \<Rightarrow> 'f ProductQuantizer \<Rightarrow> ('f ProductQuantizer \<times> error option) option go" where
  "Train maxf draws vs n maxIter pq =
     (if n = 0 then Inr (Some (pq, Some (OtherError ''quantize: cannot train on zero vectors'' None)))
      else let maxIter = (if maxIter \<le> 0 then 25 else nat maxIter) in
        go_bind (for_each (train_subspace maxf pq vs n maxIter) [0..<pq_M pq]
          (Some (replicate (pq_M pq * KBook pq * SubDim pq) 0, draws))) (\<lambda>r. case r of
            None \<Rightarrow> Inr None
          | Some (cb, _) \<Rightarrow> Inr (Some (pq\<lparr>Codebooks := cb, trained := True\<rparr>, None))))"

subsection \<open>Encoding and decoding\<close>

definition Encode :: "'f::linordered_field \<Rightarrow> 'f list \<Rightarrow> 'f ProductQuantizer \<Rightarrow> (error + u8 list) go" where
  "Encode maxf v pq =
     (if \<not> trained pq then Inr (Inl (OtherError ''quantize: PQ not trained'' None))
      else if length v \<noteq> pq_Dim pq then Inr (Inl (OtherError ''quantize: dimension mismatch'' None))
      else go_bind (for_each (\<lambda>m codes.
          go_bind (slice v (m * SubDim pq) ((m + 1) * SubDim pq)) (\<lambda>subVec.
          go_bind (nearest_code maxf (Codebooks pq) (cbOffset pq m) (SubDim pq) (KBook pq) subVec) (\<lambda>nearest.
            put_at codes m (of_nat nearest)))) [0..<pq_M pq] (replicate (pq_M pq) 0)) (\<lambda>codes. Inr (Inr codes)))"

definition Decode :: "u8 list \<Rightarrow> 'f::linordered_field ProductQuantizer \<Rightarrow> (error + 'f list) go" where
  "Decode codes pq =
     (if \<not> trained pq then Inr (Inl (OtherError ''quantize: PQ not trained'' None))
      else if length codes \<noteq> pq_M pq then Inr (Inl (OtherError ''quantize: code length mismatch'' None))
      else go_bind (for_each (\<lambda>m vector.
          go_bind (get_at codes m) (\<lambda>k.
          let off = cbOffset pq m + unat k * SubDim pq in
          go_bind (slice (Codebooks pq) off (off + SubDim pq))
            (copy_into vector (m * SubDim pq) ((m + 1) * SubDim pq)))) [0..<pq_M pq] (replicate (pq_Dim pq) 0)) (\<lambda>vector. Inr (Inr vector)))"

definition BuildDistanceTable :: "'f::linordered_field list \<Rightarrow> 'f ProductQuantizer \<Rightarrow> 'f list go" where
  "BuildDistanceTable query pq =
     for_each (\<lambda>m table.
       go_bind (slice query (m * SubDim pq) ((m + 1) * SubDim pq)) (\<lambda>subQuery.
         for_each (\<lambda>k table.
           go_bind (slice (Codebooks pq) (cbOffset pq m + k * SubDim pq) (cbOffset pq m + (k + 1) * SubDim pq)) (\<lambda>centroid.
             put_at table (m * KBook pq + k) (L2Squared subQuery centroid))) [0..<KBook pq] table))
     [0..<pq_M pq] (replicate (pq_M pq * KBook pq) 0)"

definition DistanceADC :: "'f::linordered_field list \<Rightarrow> u8 list \<Rightarrow> 'f ProductQuantizer \<Rightarrow> 'f go" where
  "DistanceADC table codes pq =
     for_each (\<lambda>m acc. go_bind (get_at codes m) (\<lambda>k. go_bind (get_at table (m * KBook pq + unat k)) (\<lambda>x. Inr (acc + x))))
     [0..<pq_M pq] 0"

definition CompressionRatio :: "'f::linordered_field ProductQuantizer \<Rightarrow> 'f" where
  "CompressionRatio pq = of_nat (4 * pq_Dim pq) / of_nat (pq_M pq)"

definition IsTrained :: "'f ProductQuantizer \<Rightarrow> bool" where
  "IsTrained pq = trained pq"


subsection \<open>No slice is overrun\<close>

definition pq_ok :: "'f ProductQuantizer \<Rightarrow> bool" where
  "pq_ok pq \<longleftrightarrow> 0 < pq_M pq \<and> 0 < SubDim pq \<and> pq_Dim pq = pq_M pq * SubDim pq \<and> KBook pq = 256 \<and>
     (trained pq \<longrightarrow> length (Codebooks pq) = pq_M pq * 256 * SubDim pq)"

definition codeword :: "'f ProductQuantizer \<Rightarrow> nat \<Rightarrow> nat \<Rightarrow> 'f list" where
  "codeword pq m k = row_of (SubDim pq) (Codebooks pq) (m * 256 + k)"

lemma NewProductQuantizer_ok:
  assumes "NewProductQuantizer d m = Inr pq"
  shows "pq_ok pq \<and> pq_Dim pq = nat d \<and> \<not> trained pq"
proof -
  have m: "0 < d" "0 < m" "d mod m = 0" "pq = \<lparr>pq_Dim = nat d, pq_M = nat m, SubDim = nat (d div m), KBook = 256, Codebooks = [], trained = False\<rparr>"
    using assms by (auto simp: NewProductQuantizer_def split: if_splits)
  then have "m * (d div m) = d" by (metis mult_div_mod_eq add.right_neutral)
  moreover from this m(1,2) have "0 < d div m" by (metis zero_less_mult_pos)
  ultimately have "nat d = nat m * nat (d div m)" using m(2) by (metis nat_mult_distrib less_imp_le)
  then show ?thesis using m \<open>0 < d div m\<close> by (simp add: pq_ok_def)
qed

lemma copy_into_length: "a \<le> b \<Longrightarrow> b \<le> length xs \<Longrightarrow> \<exists>xs'. copy_into xs a b src = Inr xs' \<and> length xs' = length xs"
  by (simp add: copy_into_def Let_def min_def)

lemma block_slice: "slice xs (o' * sd + c * sd) (o' * sd + (c + 1) * sd) = nth_row sd xs (o' + c)"
  by (simp add: nth_row_def algebra_simps)

lemma nearest_code_ok:
  assumes "(o' + k) * sd \<le> length cb"
  shows "\<exists>c. nearest_code maxf cb (o' * sd) sd k v = Inr c \<and> (0 < k \<longrightarrow> c < k) \<and>
    (\<forall>c' < k. L2Squared v (row_of sd cb (o' + c')) < maxf \<longrightarrow> L2Squared v (row_of sd cb (o' + c)) \<le> L2Squared v (row_of sd cb (o' + c')))"
proof -
  let ?f = "\<lambda>c (nearest, nearestDist). go_bind (slice cb (o' * sd + c * sd) (o' * sd + (c + 1) * sd)) (\<lambda>centroid.
           let x = L2Squared v centroid in Inr (if x < nearestDist then (c, x) else (nearest, nearestDist)))"
  have "?f c (b, bd) = Inr (if L2Squared v (row_of sd cb (o' + c)) < bd then (c, L2Squared v (row_of sd cb (o' + c))) else (b, bd))" if "c < k" for c b bd
  proof -
    have "slice cb (o' * sd + c * sd) (o' * sd + (c + 1) * sd) = Inr (row_of sd cb (o' + c))"
      unfolding block_slice using that assms by (intro nth_row_ok [of _ "o' + k"]) simp_all
    then show ?thesis by (simp only: prod.case go_bind.simps Let_def)
  qed
  from argmin_loop [of k ?f, OF this, of maxf] obtain b bd where "for_each ?f [0..<k] (0, maxf) = Inr (b, bd)" "0 < k \<longrightarrow> b < k"
    "\<forall>c < k. L2Squared v (row_of sd cb (o' + c)) < maxf \<longrightarrow> L2Squared v (row_of sd cb (o' + b)) \<le> L2Squared v (row_of sd cb (o' + c))"
    by blast
  then show ?thesis unfolding nearest_code_def by (intro exI [of _ b]) simp
qed

lemma draw_loop_ok:
  "draw_loop k used ds = Some (ch, rest) \<Longrightarrow>
   length ch = length used + k \<and> set ch \<subseteq> set used \<union> set ds \<and> (distinct used \<longrightarrow> distinct ch) \<and> set rest \<subseteq> set ds"
  by (induction k used ds rule: draw_loop.induct) (auto split: if_splits)

lemma draw_loop_returns: "k + card (set used) \<le> card (set used \<union> set ds) \<Longrightarrow> draw_loop k used ds \<noteq> None"
proof (induction k used ds rule: draw_loop.induct)
  case (3 k used i ds)
  show ?case
  proof (cases "i \<in> set used")
    case True
    then have "set used \<union> set (i # ds) = set used \<union> set ds" by auto
    then show ?thesis using 3 True by simp
  next
    case False
    then have "set used \<union> set (i # ds) = set (i # used) \<union> set ds" "card (set (i # used)) = Suc (card (set used))" by auto
    then show ?thesis using 3 False by simp
  qed
qed auto

lemma reassign_ok:
  assumes "i < n" "n * sd \<le> length sub" "0 < k" "k * sd \<le> length cs" "cells_ok k n asg"
  shows "\<exists>asg' ch'. reassign maxf sub sd k cs i (asg, ch) = Inr (asg', ch') \<and> cells_ok k n asg'"
proof -
  obtain c where c: "nearest_code maxf cs 0 sd k (row_of sd sub i) = Inr c" "c < k"
    using nearest_code_ok [of 0 k sd cs maxf "row_of sd sub i"] assms(3,4) by auto
  have "get_at asg i = Inr (asg ! i)" using assms(1,5) by (simp add: cells_ok_def get_at_def)
  moreover have "cells_ok k n (asg[i := c])" using assms(1,5) c(2) by (simp add: cells_ok_def nth_list_update)
  ultimately show ?thesis using assms c nth_row_ok [OF assms(1,2)] by (simp add: reassign_def)
qed

lemma subspace_loop_ok:
  fixes cs :: "'f::linordered_field list"
  assumes "n * sd \<le> length sub" "0 < k" "length cs = k * sd" "cells_ok k n asg"
  shows "\<exists>cs'. subspace_loop maxf sub n sd k iters asg cs = Inr cs' \<and> length cs' = k * sd"
  using assms(3,4)
proof (induction iters arbitrary: asg cs)
  case (Suc iters)
  have "\<exists>s'. for_each (reassign maxf sub sd k cs) [0..<n] (asg, 0) = Inr s' \<and> cells_ok k n (fst s')"
  proof (rule for_range [where P = "\<lambda>i s. cells_ok k n (fst s)"])
    fix i and s :: "nat list \<times> nat"
    assume "i < n" "cells_ok k n (fst s)"
    then show "\<exists>s'. reassign maxf sub sd k cs i s = Inr s' \<and> cells_ok k n (fst s')"
      using reassign_ok [of i n sd sub k cs "fst s" maxf "snd s"] assms(1,2) Suc.prems(1) by auto
  qed (use Suc.prems in auto)
  then obtain asg1 ch where 1: "for_each (reassign maxf sub sd k cs) [0..<n] (asg, 0) = Inr (asg1, ch)" "cells_ok k n asg1" by fastforce
  have "\<exists>s'. for_each (accumulate sd sub asg1) [0..<n] (replicate (k * sd) 0, replicate k 0) = Inr s' \<and> length (fst s') = k * sd \<and> length (snd s') = k"
  proof (rule for_range [where P = "\<lambda>i s. length (fst s) = k * sd \<and> length (snd s) = k"])
    fix i and s :: "'f list \<times> nat list"
    assume "i < n" "length (fst s) = k * sd \<and> length (snd s) = k"
    then show "\<exists>s'. accumulate sd sub asg1 i s = Inr s' \<and> length (fst s') = k * sd \<and> length (snd s') = k"
      using accumulate_ok [OF _ assms(1) 1(2), of i "fst s" "snd s"] by auto
  qed simp_all
  then obtain cs1 counts where 2: "for_each (accumulate sd sub asg1) [0..<n] (replicate (k * sd) 0, replicate k 0) = Inr (cs1, counts)"
    "length cs1 = k * sd" by fastforce
  have "\<exists>s'. for_each (divide_by_count sd counts) [0..<k] cs1 = Inr s' \<and> length s' = k * sd"
    by (rule for_range [where P = "\<lambda>i s. length s = k * sd"]) (use 2 divide_ok in auto)
  then obtain cs2 where 3: "for_each (divide_by_count sd counts) [0..<k] cs1 = Inr cs2" "length cs2 = k * sd" by blast
  show ?case using 1 2 3 Suc.IH [OF 3(2) 1(2)] Suc.prems(1) by (cases "ch = 0") simp_all
qed simp

lemma kmeansSubspace_ok:
  fixes sub :: "'f::linordered_field list"
  assumes "length sub = n * sd" "0 < k" "set draws \<subseteq> {..<n}"
  shows "\<exists>r. kmeansSubspace maxf draws sub n sd k maxIter = Inr r \<and>
    (\<forall>cs rest. r = Some (cs, rest) \<longrightarrow> length cs = k * sd \<and> set rest \<subseteq> {..<n})"
proof (cases "draw_loop k [] draws")
  case None
  then show ?thesis by (simp add: kmeansSubspace_def)
next
  case (Some x)
  obtain ch rest where s: "draw_loop k [] draws = Some (ch, rest)" using Some by (cases x) simp
  note sl = draw_loop_ok [OF s]
  have "\<exists>s'. for_each (\<lambda>c cs. go_bind (nth_row sd sub (ch ! c)) (set_row sd cs c)) [0..<k] (replicate (k * sd) 0) = Inr s' \<and> length s' = k * sd"
  proof (rule for_range [where P = "\<lambda>i s. length s = k * sd"])
    fix c and s :: "'f list"
    assume c: "c < k" "length s = k * sd"
    have "ch ! c \<in> set ch" using sl c(1) by simp
    then have i: "ch ! c < n" using sl assms(3) by auto
    show "\<exists>s'. go_bind (nth_row sd sub (ch ! c)) (set_row sd s c) = Inr s' \<and> length s' = k * sd"
      using nth_row_ok [OF i, of sd sub] length_row [OF i, of sd sub] set_row_ok [OF c(1), of sd s "row_of sd sub (ch ! c)"] assms(1) c(2) by auto
  qed simp_all
  then obtain cs where cs: "for_each (\<lambda>c cs. go_bind (nth_row sd sub (ch ! c)) (set_row sd cs c)) [0..<k] (replicate (k * sd) 0) = Inr cs"
    "length cs = k * sd" by blast
  have c0: "cells_ok k n (replicate n 0)" using assms(2) by (simp add: cells_ok_def)
  have le: "n * sd \<le> length sub" using assms(1) by simp
  obtain cs' where "subspace_loop maxf sub n sd k maxIter (replicate n 0) cs = Inr cs'" "length cs' = k * sd"
    using subspace_loop_ok [OF le assms(2) cs(2) c0] by blast
  then show ?thesis using s cs sl assms(3) by (auto simp: kmeansSubspace_def)
qed

lemma sub_vectors_ok:
  fixes vs :: "'f::linordered_field list"
  assumes "pq_ok pq" "m < pq_M pq" "n * pq_Dim pq \<le> length vs"
  shows "\<exists>sub. sub_vectors pq vs n m = Inr sub \<and> length sub = n * SubDim pq"
  unfolding sub_vectors_def
proof (rule for_range [where P = "\<lambda>i s. length s = n * SubDim pq"])
  fix i and s :: "'f list"
  assume i: "i < n" "length s = n * SubDim pq"
  have "m * SubDim pq + SubDim pq \<le> pq_Dim pq" using row_end [OF assms(2), of "SubDim pq"] assms(1) by (simp add: pq_ok_def)
  moreover have "i * pq_Dim pq + pq_Dim pq \<le> length vs" using row_end [OF i(1), of "pq_Dim pq"] assms(3) by simp
  moreover have "i * SubDim pq + SubDim pq \<le> length s" using row_end [OF i(1), of "SubDim pq"] i(2) by simp
  ultimately show "\<exists>s'. go_bind (slice vs (i * pq_Dim pq + m * SubDim pq) (i * pq_Dim pq + m * SubDim pq + SubDim pq))
       (copy_into s (i * SubDim pq) (i * SubDim pq + SubDim pq)) = Inr s' \<and> length s' = n * SubDim pq"
    using i(2) copy_into_length [of "i * SubDim pq" "i * SubDim pq + SubDim pq" s] by (simp add: slice_def)
qed simp_all

lemma train_subspace_ok:
  assumes "pq_ok pq" "m < pq_M pq" "n * pq_Dim pq \<le> length vs" "0 < n" "length cb = pq_M pq * 256 * SubDim pq" "set draws \<subseteq> {..<n}"
  shows "\<exists>r. train_subspace maxf pq vs n maxIter m (Some (cb, draws)) = Inr r \<and>
    (\<forall>cb' rest. r = Some (cb', rest) \<longrightarrow> length cb' = pq_M pq * 256 * SubDim pq \<and> set rest \<subseteq> {..<n})"
proof -
  define sd where "sd = SubDim pq"
  define k where "k = (if n < 256 then n else 256)"
  define off where "off = cbOffset pq m"
  have K: "KBook pq = 256" using assms(1) by (simp add: pq_ok_def)
  have k: "0 < k" "k \<le> 256" using assms(4) by (auto simp: k_def)
  have "(m + 1) * (256 * sd) \<le> pq_M pq * (256 * sd)" using row_end [OF assms(2)] by blast
  then have off: "off + 256 * sd \<le> length cb" using assms(5) K by (simp add: off_def cbOffset_def sd_def algebra_simps)
  have ksd: "off + k * sd \<le> off + 256 * sd" using k by simp
  obtain sub where sub: "sub_vectors pq vs n m = Inr sub" "length sub = n * sd" using sub_vectors_ok [OF assms(1-3)] by (auto simp: sd_def)
  obtain r where r: "kmeansSubspace maxf draws sub n sd k maxIter = Inr r"
    "\<forall>cs rest. r = Some (cs, rest) \<longrightarrow> length cs = k * sd \<and> set rest \<subseteq> {..<n}"
    using kmeansSubspace_ok [OF sub(2) k(1) assms(6)] by blast
  show ?thesis
  proof (cases r)
    case None
    then show ?thesis using sub r
      unfolding train_subspace_def option.case prod.case Let_def K off_def [symmetric] sd_def [symmetric] k_def [symmetric] by simp
  next
    case (Some x)
    obtain cs rest where x: "r = Some (cs, rest)" using Some by (cases x) simp
    obtain cb1 where cb1: "copy_into cb off (off + k * sd) cs = Inr cb1" "length cb1 = length cb"
      using copy_into_length [of off "off + k * sd" cb cs] off ksd by auto
    obtain cb2 where cb2: "copy_into cb1 (off + k * sd) (off + 256 * sd) (replicate ((256 - k) * sd) 0) = Inr cb2" "length cb2 = length cb"
      using copy_into_length [of "off + k * sd" "off + 256 * sd" cb1 "replicate ((256 - k) * sd) 0"] off ksd cb1(2) by auto
    have "train_subspace maxf pq vs n maxIter m (Some (cb, draws)) = Inr (Some (cb2, rest))"
      using sub r x cb1 cb2
      unfolding train_subspace_def option.case prod.case Let_def K off_def [symmetric] sd_def [symmetric] k_def [symmetric] by simp
    then show ?thesis using cb2(2) assms(5) r(2) x by simp
  qed
qed

lemma Train_ok:
  assumes "pq_ok pq" "n * pq_Dim pq \<le> length vs" "0 < n" "set draws \<subseteq> {..<n}"
  shows "\<exists>r. Train maxf draws vs n maxIter pq = Inr r \<and>
    (\<forall>pq' e. r = Some (pq', e) \<longrightarrow> pq_ok pq' \<and> trained pq' \<and> e = None \<and> pq_Dim pq' = pq_Dim pq \<and> pq_M pq' = pq_M pq)"
proof -
  define its where "its = (if maxIter \<le> 0 then 25 else nat maxIter)"
  define P where "P = (\<lambda>st. \<forall>cb rest. st = Some (cb, rest) \<longrightarrow> length (cb :: 'a list) = pq_M pq * 256 * SubDim pq \<and> set rest \<subseteq> {..<n})"
  have K: "KBook pq = 256" using assms(1) by (simp add: pq_ok_def)
  have "\<exists>s'. for_each (train_subspace maxf pq vs n its) [0..<pq_M pq] (Some (replicate (pq_M pq * KBook pq * SubDim pq) 0, draws)) = Inr s' \<and> P s'"
  proof (rule for_range [where P = "\<lambda>_. P"])
    fix m and st :: "('a list \<times> nat list) option"
    assume m: "m < pq_M pq" "P st"
    show "\<exists>s'. train_subspace maxf pq vs n its m st = Inr s' \<and> P s'"
    proof (cases st)
      case None
      then show ?thesis by (simp add: train_subspace_def P_def)
    next
      case (Some x)
      obtain cb ds where "st = Some (cb, ds)" using Some by (cases x) simp
      then show ?thesis using train_subspace_ok [OF assms(1) m(1) assms(2,3), of cb ds maxf its] m(2) unfolding P_def by auto
    qed
  qed (use assms(4) K in \<open>auto simp: P_def\<close>)
  then obtain r where r: "for_each (train_subspace maxf pq vs n its) [0..<pq_M pq] (Some (replicate (pq_M pq * KBook pq * SubDim pq) 0, draws)) = Inr r" "P r"
    by blast
  show ?thesis
  proof (cases r)
    case None
    then show ?thesis using r assms(3) by (simp add: Train_def its_def [symmetric] Let_def)
  next
    case (Some x)
    obtain cb ds where "r = Some (cb, ds)" using Some by (cases x) simp
    then show ?thesis using r assms(1,3) by (simp add: Train_def its_def [symmetric] Let_def P_def pq_ok_def)
  qed
qed

subsection \<open>Codes and distances\<close>

lemma u8_less: "unat (w :: u8) < 256"
  using unsigned_less [of w, where ?'a = nat] by simp

lemma cb_row:
  assumes "pq_ok pq" "trained pq" "m < pq_M pq" "k < 256"
  shows "m * 256 + k < pq_M pq * 256" "slice (Codebooks pq) (cbOffset pq m + k * SubDim pq) (cbOffset pq m + (k + 1) * SubDim pq) = Inr (codeword pq m k)"
    "length (codeword pq m k) = SubDim pq"
proof -
  have "(m + 1) * 256 \<le> pq_M pq * 256" by (rule row_end [OF assms(3)])
  then show j: "m * 256 + k < pq_M pq * 256" using assms(4) by simp
  have off: "cbOffset pq m = (m * 256) * SubDim pq" and len: "(pq_M pq * 256) * SubDim pq \<le> length (Codebooks pq)"
    using assms(1,2) by (simp_all add: cbOffset_def pq_ok_def)
  show "slice (Codebooks pq) (cbOffset pq m + k * SubDim pq) (cbOffset pq m + (k + 1) * SubDim pq) = Inr (codeword pq m k)"
    unfolding off block_slice codeword_def by (rule nth_row_ok [OF j len])
  show "length (codeword pq m k) = SubDim pq" unfolding codeword_def by (rule length_row [OF j len])
qed

lemma sub_row:
  assumes "pq_ok pq" "m < pq_M pq" "length v = pq_Dim pq"
  shows "slice v (m * SubDim pq) ((m + 1) * SubDim pq) = Inr (row_of (SubDim pq) v m)" "length (row_of (SubDim pq) v m) = SubDim pq"
  using nth_row_ok [OF assms(2), of "SubDim pq" v] length_row [OF assms(2), of "SubDim pq" v] assms(1,3)
  by (simp_all add: nth_row_def pq_ok_def)

lemma Encode_ok:
  assumes "pq_ok pq" "trained pq" "length v = pq_Dim pq"
  shows "\<exists>codes. Encode maxf v pq = Inr (Inr codes) \<and> length codes = pq_M pq \<and>
    (\<forall>m < pq_M pq. \<forall>k < 256. L2Squared (row_of (SubDim pq) v m) (codeword pq m k) < maxf \<longrightarrow>
      L2Squared (row_of (SubDim pq) v m) (codeword pq m (unat (codes ! m))) \<le> L2Squared (row_of (SubDim pq) v m) (codeword pq m k))"
proof -
  define sd where "sd = SubDim pq"
  define best where "best = (\<lambda>m c. \<forall>k < 256. L2Squared (row_of sd v m) (codeword pq m k) < maxf \<longrightarrow>
      L2Squared (row_of sd v m) (codeword pq m c) \<le> L2Squared (row_of sd v m) (codeword pq m k))"
  let ?f = "\<lambda>m codes. go_bind (slice v (m * sd) ((m + 1) * sd)) (\<lambda>subVec.
     go_bind (nearest_code maxf (Codebooks pq) (cbOffset pq m) sd (KBook pq) subVec) (\<lambda>nearest. put_at codes m (of_nat nearest)))"
  have "\<exists>s'. for_each ?f [0..<pq_M pq] (replicate (pq_M pq) (0 :: u8)) = Inr s' \<and> length s' = pq_M pq \<and> (\<forall>m < pq_M pq. best m (unat (s' ! m)))"
  proof (rule for_range [where P = "\<lambda>i s. length s = pq_M pq \<and> (\<forall>m < i. best m (unat (s ! m)))"])
    fix m and s :: "u8 list"
    assume m: "m < pq_M pq" "length s = pq_M pq \<and> (\<forall>m' < m. best m' (unat (s ! m')))"
    have off: "cbOffset pq m = (m * 256) * sd" "KBook pq = 256" and len: "(m * 256 + 256) * sd \<le> length (Codebooks pq)"
    proof -
      have "(m + 1) * 256 \<le> pq_M pq * 256" by (rule row_end [OF m(1)])
      then have "(m * 256 + 256) * sd \<le> (pq_M pq * 256) * sd" by (intro mult_le_mono1) simp
      then show "(m * 256 + 256) * sd \<le> length (Codebooks pq)" using assms(1,2) by (simp add: pq_ok_def sd_def)
    qed (use assms(1) in \<open>simp_all add: cbOffset_def pq_ok_def sd_def\<close>)
    obtain c where c: "nearest_code maxf (Codebooks pq) ((m * 256) * sd) sd 256 (row_of sd v m) = Inr c" "c < 256" "best m c"
      using nearest_code_ok [OF len, of maxf "row_of sd v m"] by (auto simp: best_def codeword_def sd_def)
    have "unat (of_nat c :: u8) = c" using c(2) by (simp add: unsigned_of_nat take_bit_nat_eq_self)
    then show "\<exists>s'. ?f m s = Inr s' \<and> length s' = pq_M pq \<and> (\<forall>m' < Suc m. best m' (unat (s' ! m')))"
      using sub_row [OF assms(1) m(1) assms(3)] c m off by (auto simp: sd_def put_at_def nth_list_update less_Suc_eq)
  qed simp_all
  then obtain codes where "for_each ?f [0..<pq_M pq] (replicate (pq_M pq) (0 :: u8)) = Inr codes" "length codes = pq_M pq"
    "\<forall>m < pq_M pq. best m (unat (codes ! m))" by blast
  then show ?thesis using assms by (simp add: Encode_def sd_def best_def)
qed

lemma Decode_ok:
  assumes "pq_ok pq" "trained pq" "length codes = pq_M pq"
  shows "\<exists>v. Decode codes pq = Inr (Inr v) \<and> length v = pq_Dim pq \<and> (\<forall>m < pq_M pq. row_of (SubDim pq) v m = codeword pq m (unat (codes ! m)))"
proof -
  define sd where "sd = SubDim pq"
  have D: "pq_Dim pq = pq_M pq * sd" using assms(1) by (simp add: pq_ok_def sd_def)
  let ?f = "\<lambda>m vector. go_bind (get_at codes m) (\<lambda>k. let off = cbOffset pq m + unat k * sd in
     go_bind (slice (Codebooks pq) off (off + sd)) (copy_into vector (m * sd) ((m + 1) * sd)))"
  have "\<exists>s'. for_each ?f [0..<pq_M pq] (replicate (pq_Dim pq) 0) = Inr s' \<and> length s' = pq_Dim pq \<and>
    (\<forall>m < pq_M pq. row_of sd s' m = codeword pq m (unat (codes ! m)))"
  proof (rule for_range [where P = "\<lambda>i s. length s = pq_Dim pq \<and> (\<forall>m < i. row_of sd s m = codeword pq m (unat (codes ! m)))"])
    fix m and s :: "'a list"
    assume m: "m < pq_M pq" "length s = pq_Dim pq \<and> (\<forall>m' < m. row_of sd s m' = codeword pq m' (unat (codes ! m')))"
    define k where "k = unat (codes ! m)"
    have "k < 256" unfolding k_def by (rule u8_less)
    note cw = cb_row [OF assms(1,2) m(1) this]
    obtain s' where s': "set_row sd s m (codeword pq m k) = Inr s'" "length s' = length s"
      "\<forall>j. row_of sd s' j = (if j = m then codeword pq m k else row_of sd s j)"
      using set_row_ok [OF m(1), of sd s "codeword pq m k"] m(2) D cw(3) by (auto simp: sd_def)
    have sl: "slice (Codebooks pq) (cbOffset pq m + k * sd) (cbOffset pq m + k * sd + sd) = Inr (codeword pq m k)"
      using cw(2) by (simp add: sd_def algebra_simps)
    have "?f m s = Inr s'" using s'(1) sl m(1) assms(3) by (simp add: get_at_def k_def set_row_def Let_def)
    then show "\<exists>s'. ?f m s = Inr s' \<and> length s' = pq_Dim pq \<and> (\<forall>m' < Suc m. row_of sd s' m' = codeword pq m' (unat (codes ! m')))"
      using s' m(2) by (auto simp: k_def less_Suc_eq)
  qed simp_all
  then obtain v where "for_each ?f [0..<pq_M pq] (replicate (pq_Dim pq) 0) = Inr v" "length v = pq_Dim pq"
    "\<forall>m < pq_M pq. row_of sd v m = codeword pq m (unat (codes ! m))" by blast
  then show ?thesis using assms by (simp add: Decode_def sd_def)
qed

lemma table_index: "k < K \<Longrightarrow> k' < K \<Longrightarrow> m * K + k = m' * K + k' \<longleftrightarrow> m = m' \<and> k = k'" for m K k m' k' :: nat
  by (metis add.commute add_left_cancel div_mult_self3 div_less gr_implies_not0 add_0)

lemma table_room: "m < M \<Longrightarrow> k < K \<Longrightarrow> m * K + k < M * K" for m K k M :: nat
  using row_end [of m M K] by simp

lemma BuildDistanceTable_ok:
  assumes "pq_ok pq" "trained pq" "length q = pq_Dim pq"
  shows "\<exists>table. BuildDistanceTable q pq = Inr table \<and> length table = pq_M pq * 256 \<and>
    (\<forall>m < pq_M pq. \<forall>k < 256. table ! (m * 256 + k) = L2Squared (row_of (SubDim pq) q m) (codeword pq m k))"
proof -
  define sd where "sd = SubDim pq"
  define T where "T = (\<lambda>m k. L2Squared (row_of sd q m) (codeword pq m k))"
  define P where "P = (\<lambda>m k table. length table = pq_M pq * 256 \<and> (\<forall>m' < m. \<forall>k' < 256. table ! (m' * 256 + k') = T m' k') \<and>
    (\<forall>k' < k. table ! (m * 256 + k') = T m k'))"
  have K: "KBook pq = 256" using assms(1) by (simp add: pq_ok_def)
  let ?g = "\<lambda>m sub k table. go_bind (slice (Codebooks pq) (cbOffset pq m + k * sd) (cbOffset pq m + (k + 1) * sd)) (\<lambda>centroid.
     put_at table (m * 256 + k) (L2Squared sub centroid))"
  let ?f = "\<lambda>m table. go_bind (slice q (m * sd) ((m + 1) * sd)) (\<lambda>sub. for_each (?g m sub) [0..<256] table)"
  have "\<exists>s'. for_each ?f [0..<pq_M pq] (replicate (pq_M pq * 256) 0) = Inr s' \<and> P (pq_M pq) 0 s'"
  proof (rule for_range [where P = "\<lambda>m s. P m 0 s"])
    fix m s assume m: "m < pq_M pq" "P m 0 s"
    have "\<exists>s'. for_each (?g m (row_of sd q m)) [0..<256] s = Inr s' \<and> P m 256 s'"
    proof (rule for_range [where P = "P m"])
      fix k s assume k: "k < 256" "P m k s"
      define j where "j = m * 256 + k"
      have "j < length s" using table_room [OF m(1) k(1)] k(2) by (simp add: P_def j_def)
      then have "?g m (row_of sd q m) k s = Inr (s[j := T m k])"
        using cb_row [OF assms(1,2) m(1) k(1)] by (simp add: put_at_def sd_def T_def j_def)
      moreover have "P m (Suc k) (s[j := T m k])"
      proof -
        have ne: "m' * 256 + k' \<noteq> j" if "m' < m" "k' < 256" for m' k' using table_index [of k' 256 k m' m] that k(1) by (auto simp: j_def)
        have "s[j := T m k] ! (m * 256 + k') = (if k' = k then T m k else s ! (m * 256 + k'))" if "k' < Suc k" for k'
          using \<open>j < length s\<close> by (auto simp: j_def)
        moreover have "s[j := T m k] ! (m' * 256 + k') = s ! (m' * 256 + k')" if "m' < m" "k' < 256" for m' k'
          using ne [OF that] by (metis nth_list_update_neq)
        ultimately show ?thesis using k unfolding P_def by (auto simp: less_Suc_eq)
      qed
      ultimately show "\<exists>s'. ?g m (row_of sd q m) k s = Inr s' \<and> P m (Suc k) s'" by blast
    qed (use m in simp_all)
    then obtain s' where "for_each (?g m (row_of sd q m)) [0..<256] s = Inr s'" "P m 256 s'" by blast
    then show "\<exists>s'. ?f m s = Inr s' \<and> P (Suc m) 0 s'"
      using sub_row [OF assms(1) m(1) assms(3)] by (auto simp: sd_def P_def less_Suc_eq)
  qed (simp_all add: P_def)
  then obtain table where "for_each ?f [0..<pq_M pq] (replicate (pq_M pq * 256) 0) = Inr table" "P (pq_M pq) 0 table" by blast
  then show ?thesis by (auto simp: BuildDistanceTable_def K sd_def P_def T_def)
qed

lemma DistanceADC_ok:
  assumes "pq_ok pq" "length codes = pq_M pq" "length table = pq_M pq * 256"
  shows "DistanceADC table codes pq = Inr (\<Sum>m < pq_M pq. table ! (m * 256 + unat (codes ! m)))"
proof -
  have K: "KBook pq = 256" using assms(1) by (simp add: pq_ok_def)
  let ?f = "\<lambda>m acc. go_bind (get_at codes m) (\<lambda>k. go_bind (get_at table (m * KBook pq + unat k)) (\<lambda>x. Inr (acc + x)))"
  have "\<exists>s'. for_each ?f [0..<pq_M pq] 0 = Inr s' \<and> s' = (\<Sum>m < pq_M pq. table ! (m * 256 + unat (codes ! m)))"
  proof (rule for_range [where P = "\<lambda>i s. s = (\<Sum>m < i. table ! (m * 256 + unat (codes ! m)))"])
    fix m s assume m: "m < pq_M pq" "s = (\<Sum>m < m. table ! (m * 256 + unat (codes ! m)))"
    have "m * 256 + unat (codes ! m) < pq_M pq * 256" by (intro table_room [OF m(1)] u8_less)
    then show "\<exists>s'. ?f m s = Inr s' \<and> s' = (\<Sum>m < Suc m. table ! (m * 256 + unat (codes ! m)))"
      using m assms by (simp add: get_at_def K)
  qed simp_all
  then show ?thesis by (simp add: DistanceADC_def)
qed

lemma L2Squared_sum: "L2Squared a b = (\<Sum>i < length a. (a ! i - b ! i)\<^sup>2)" for a :: "'f::linordered_field list"
  by (simp add: L2Squared_def Let_def sum_loop_sum power2_eq_square)

lemma L2Squared_nonneg: "0 \<le> L2Squared a b" for a :: "'f::linordered_field list"
  unfolding L2Squared_sum by (intro sum_nonneg) simp

lemma row_nth: "(m + 1) * d \<le> length xs \<Longrightarrow> j < d \<Longrightarrow> row_of d xs m ! j = xs ! (m * d + j)"
  by (simp add: row_of_def)

lemma L2Squared_split:
  fixes q :: "'f::linordered_field list"
  assumes "length q = M * d" "length v = M * d"
  shows "L2Squared q v = (\<Sum>m < M. L2Squared (row_of d q m) (row_of d v m))"
proof -
  define g where "g = (\<lambda>i. (q ! i - v ! i)\<^sup>2)"
  have "L2Squared (row_of d q m) (row_of d v m) = sum g {m * d..<m * d + d}" if "m < M" for m
  proof -
    have le: "(m + 1) * d \<le> M * d" by (rule row_end [OF that])
    have "sum g {m * d..<m * d + d} = (\<Sum>j < d. g (m * d + j))"
      using sum.shift_bounds_nat_ivl [of g 0 "m * d" d] by (simp add: add.commute lessThan_atLeast0)
    moreover have "L2Squared (row_of d q m) (row_of d v m) = (\<Sum>j < d. g (m * d + j))"
      unfolding L2Squared_sum using length_row [OF that, of d q] le assms by (intro sum.cong) (auto simp: row_nth g_def)
    ultimately show ?thesis by simp
  qed
  then have "(\<Sum>m < M. L2Squared (row_of d q m) (row_of d v m)) = sum g {..<M * d}"
    using sum.nat_group [of g d M] by simp
  then show ?thesis using assms(1) by (simp add: L2Squared_sum g_def)
qed

text \<open>C36. Product quantization: with trained codebooks the distance that the table look-up computes for a list of
  codes is exactly the squared L2 distance of the query to the vector those codes decode to, whatever
  metric the index has. \<open>Encode\<close> chooses the best codes: no other list of codes decodes to a vector nearer
  to the one encoded (up to \<open>MaxFloat32\<close>). No slice is overrun.\<close>

theorem pq_adc_exact_encode_best:
  fixes pq :: "'f::linordered_field ProductQuantizer"
  assumes "pq_ok pq" "trained pq" "length q = pq_Dim pq"
  shows "\<exists>table best. BuildDistanceTable q pq = Inr table \<and> Encode maxf q pq = Inr (Inr best) \<and> length best = pq_M pq \<and>
    (\<forall>codes. length codes = pq_M pq \<longrightarrow> (\<exists>v w. Decode codes pq = Inr (Inr v) \<and> DistanceADC table codes pq = Inr (L2Squared q v) \<and>
      Decode best pq = Inr (Inr w) \<and> (L2Squared q v < maxf \<longrightarrow> L2Squared q w \<le> L2Squared q v)))"
proof -
  define T where "T = (\<lambda>m k. L2Squared (row_of (SubDim pq) q m) (codeword pq m k))"
  obtain table where t: "BuildDistanceTable q pq = Inr table" "length table = pq_M pq * 256" "\<forall>m < pq_M pq. \<forall>k < 256. table ! (m * 256 + k) = T m k"
    using BuildDistanceTable_ok [OF assms] by (auto simp: T_def)
  obtain best where b: "Encode maxf q pq = Inr (Inr best)" "length best = pq_M pq"
    "\<forall>m < pq_M pq. \<forall>k < 256. T m k < maxf \<longrightarrow> T m (unat (best ! m)) \<le> T m k" using Encode_ok [OF assms, of maxf] by (auto simp: T_def)
  have dist: "\<exists>v. Decode codes pq = Inr (Inr v) \<and> L2Squared q v = (\<Sum>m < pq_M pq. T m (unat (codes ! m)))" if c: "length codes = pq_M pq" for codes
  proof -
    obtain v where "Decode codes pq = Inr (Inr v)" "length v = pq_Dim pq" "\<forall>m < pq_M pq. row_of (SubDim pq) v m = codeword pq m (unat (codes ! m))"
      using Decode_ok [OF assms(1,2) c] by blast
    then show ?thesis using assms(1,3) L2Squared_split [of q "pq_M pq" "SubDim pq" v] by (simp add: pq_ok_def T_def)
  qed
  obtain w where w: "Decode best pq = Inr (Inr w)" "L2Squared q w = (\<Sum>m < pq_M pq. T m (unat (best ! m)))" using dist [OF b(2)] by blast
  have "\<exists>v w. Decode codes pq = Inr (Inr v) \<and> DistanceADC table codes pq = Inr (L2Squared q v) \<and>
      Decode best pq = Inr (Inr w) \<and> (L2Squared q v < maxf \<longrightarrow> L2Squared q w \<le> L2Squared q v)" if c: "length codes = pq_M pq" for codes
  proof -
    obtain v where v: "Decode codes pq = Inr (Inr v)" "L2Squared q v = (\<Sum>m < pq_M pq. T m (unat (codes ! m)))" using dist [OF c] by blast
    have "DistanceADC table codes pq = Inr (L2Squared q v)"
      unfolding DistanceADC_ok [OF assms(1) c t(2)] v(2) using t(3) u8_less by (intro arg_cong [of _ _ Inr] sum.cong) auto
    moreover have "L2Squared q w \<le> L2Squared q v" if "L2Squared q v < maxf"
      unfolding v(2) w(2)
    proof (rule sum_mono)
      fix m assume m: "m \<in> {..<pq_M pq}"
      have "T m (unat (codes ! m)) \<le> L2Squared q v" unfolding v(2) using m
        by (intro member_le_sum) (auto simp: T_def L2Squared_nonneg)
      then show "T m (unat (best ! m)) \<le> T m (unat (codes ! m))" using b(3) m u8_less that by auto
    qed
    ultimately show ?thesis using v(1) w(1) by blast
  qed
  then show ?thesis using t(1) b(1,2) by blast
qed

definition ex_pq :: "rat ProductQuantizer" where
  "ex_pq = \<lparr>pq_Dim = 2, pq_M = 2, SubDim = 1, KBook = 256, Codebooks = map of_nat [0..<512], trained = True\<rparr>"

theorem pq_adc_exact_encode_best_witness:
  "\<exists>table best v. BuildDistanceTable [3, 300] ex_pq = Inr table \<and> Encode 1000000 [3, 300] ex_pq = Inr (Inr best) \<and>
     Decode [3, 44] ex_pq = Inr (Inr v) \<and> DistanceADC table [3, 44] ex_pq = Inr (L2Squared [3, 300] v)"
proof -
  have ok: "pq_ok ex_pq" "trained ex_pq" "length [3, 300 :: rat] = pq_Dim ex_pq" by (simp_all add: pq_ok_def ex_pq_def)
  have c: "length [3, 44 :: u8] = pq_M ex_pq" by (simp add: ex_pq_def)
  obtain table best where t: "BuildDistanceTable [3, 300] ex_pq = Inr table" "Encode 1000000 [3, 300] ex_pq = Inr (Inr best)"
    "\<forall>codes. length codes = pq_M ex_pq \<longrightarrow> (\<exists>v w. Decode codes ex_pq = Inr (Inr v) \<and> DistanceADC table codes ex_pq = Inr (L2Squared [3, 300] v) \<and>
      Decode best ex_pq = Inr (Inr w) \<and> (L2Squared [3, 300] v < 1000000 \<longrightarrow> L2Squared [3, 300] w \<le> L2Squared [3, 300] v))"
    using pq_adc_exact_encode_best [OF ok, of 1000000] by (elim exE conjE) (rule that)
  then show ?thesis using c by blast
qed

end
