(* ===== verification/Ivf_Index.thy ===== *)
theory Ivf_Index
  imports Product_Quantizer
begin

section \<open>The inverted file index\<close>

text \<open>
  Models \<open>internal/index/ivf/ivf.go\<close>: vectors in the cells of K-means centroids, new ones in a flat index until the
  next rebuild, optionally compressed by product quantization. A nil slice of vectors is the empty list, a nil
  \<open>kmeans\<close> or \<open>pq\<close> is \<open>None\<close>. A rebuild locks the index twice and computes in between, so it is composed of the
  sections other goroutines can run between: \<open>rebuild_drain\<close> (phase 1), \<open>rebuild_compute\<close> (phase 2, on its own
  copies), \<open>collect_deleted\<close> (the unlocked read before phase 3) and \<open>rebuild_swap\<close> (phase 3). The parameters, in
  the record \<open>ivf_env\<close>, are the platform and \<open>MaxFloat32\<close>, \<open>runtime.NumCPU\<close>, the random numbers of a rebuild and
  the draws of the training.
\<close>

record 'f IVFIndex =
  iv_dim :: nat
  iv_k :: nat
  iv_nprobe :: nat
  iv_metric :: string
  kmeans :: "'f KMeans option"
  postingList :: "u64 list list"
  built :: bool
  usePQ :: bool
  iv_pq :: "'f ProductQuantizer option"
  pqCodes :: "u8 list"
  iv_vectors :: "'f list"
  iv_ids :: "u64 list"
  iv_idToRow :: "u64 \<rightharpoonup> nat"
  iv_count :: nat
  iv_capacity :: nat
  clusterOf :: "u64 \<rightharpoonup> nat"
  dirty :: "'f FlatIndex"
  dirtyThreshold :: int

record 'f ivf_env =
  iv_plat :: "'f platform"
  iv_maxf :: 'f
  iv_intn :: "nat \<Rightarrow> nat"
  iv_rnd :: "nat \<Rightarrow> 'f"
  iv_cpus :: nat
  iv_draws :: "nat \<Rightarrow> nat list"

definition initCap :: nat where
  "initCap = 1024"

definition NewIVFIndex :: "int \<Rightarrow> int \<Rightarrow> int \<Rightarrow> string \<Rightarrow> int \<Rightarrow> rat \<Rightarrow> error + 'f::linordered_field IVFIndex" where
  "NewIVFIndex d k nprobe metric pqM threshold =
     (if d \<le> 0 then Inl (Newf ErrDimensionMismatch)
      else case GetDistanceFunc metric of None \<Rightarrow> Inl (OtherError ''distance: unknown metric'' None)
      | Some _ \<Rightarrow>
        (let k = (if k \<le> 0 then 256 else nat k); nprobe = (if nprobe \<le> 0 then 5 else nat nprobe);
             t = \<lfloor>rat_of_nat initCap * threshold\<rfloor> in
         case NewFlatIndex d metric of Inl e \<Rightarrow> Inl e
         | Inr fresh \<Rightarrow>
           (case (if 0 < pqM then map_sum id Some (NewProductQuantizer d pqM) else Inr None) of
              Inl _ \<Rightarrow> Inl (Newf ErrDimensionMismatch)
            | Inr pq \<Rightarrow> Inr \<lparr>iv_dim = nat d, iv_k = k, iv_nprobe = nprobe, iv_metric = metric, kmeans = None,
                postingList = replicate k [], built = False, usePQ = (pq \<noteq> None), iv_pq = pq,
                pqCodes = (if pq \<noteq> None then replicate (initCap * nat pqM) 0 else []),
                iv_vectors = (if pq \<noteq> None then [] else replicate (initCap * nat d) 0),
                iv_ids = replicate initCap 0, iv_idToRow = Map.empty, iv_count = 0, iv_capacity = initCap,
                clusterOf = Map.empty, dirty = fresh, dirtyThreshold = (if t < 100 then 100 else t)\<rparr>)))"

definition the_pq :: "'f IVFIndex \<Rightarrow> 'f ProductQuantizer go" where
  "the_pq idx = (case iv_pq idx of None \<Rightarrow> Inl NilDereference | Some pq \<Rightarrow> Inr pq)"

definition the_kmeans :: "'f IVFIndex \<Rightarrow> 'f KMeans go" where
  "the_kmeans idx = (case kmeans idx of None \<Rightarrow> Inl NilDereference | Some km \<Rightarrow> Inr km)"

definition env_distance :: "'f::linordered_field ivf_env \<Rightarrow> 'f IVFIndex \<Rightarrow> 'f list \<Rightarrow> 'f list \<Rightarrow> 'f" where
  "env_distance e idx = apply_metric (rt32 (iv_plat e)) (the (GetDistanceFunc (iv_metric idx)))"

definition env_km :: "'f::linordered_field ivf_env \<Rightarrow> 'f IVFIndex \<Rightarrow> 'f km_env" where
  "env_km e idx = \<lparr>distFn = env_distance e idx, maxFloat = iv_maxf e, intn = iv_intn e, float64 = iv_rnd e, numCPU = iv_cpus e\<rparr>"

subsection \<open>Insertion and deletion\<close>

definition iv_Insert :: "u64 \<Rightarrow> 'f::linordered_field list \<Rightarrow> 'f IVFIndex \<Rightarrow> ('f IVFIndex \<times> error option) go" where
  "iv_Insert i v idx =
     (if length v \<noteq> iv_dim idx then Inr (idx, Some (Newf ErrDimensionMismatch))
      else if i \<in> dom (iv_idToRow idx) then Inr (idx, Some (Newf ErrDuplicateID))
      else go_bind (GetVector i (dirty idx)) (\<lambda>found.
        if found \<noteq> None then Inr (idx, Some (Newf ErrDuplicateID))
        else go_bind (Insert i v (dirty idx)) (\<lambda>(fresh, err). Inr (idx\<lparr>dirty := fresh\<rparr>, err))))"

fun swap_remove :: "u64 \<Rightarrow> u64 list \<Rightarrow> nat \<Rightarrow> u64 list \<Rightarrow> u64 list" where
  \<comment> \<open>\<open>for i, v := range list\<close>: the whole list, the index and what is still to be looked at\<close>
  "swap_remove x l i [] = l"
| "swap_remove x l i (v # vs) =
     (if v = x then take (length l - 1) (l[i := l ! (length l - 1)]) else swap_remove x l (i + 1) vs)"

definition removeFromPostingList :: "nat \<Rightarrow> u64 \<Rightarrow> 'f IVFIndex \<Rightarrow> 'f IVFIndex go" where
  "removeFromPostingList cluster x idx =
     go_bind (get_at (postingList idx) cluster) (\<lambda>l.
     go_bind (put_at (postingList idx) cluster (swap_remove x l 0 l)) (\<lambda>pl. Inr (idx\<lparr>postingList := pl\<rparr>)))"

definition move_row :: "nat \<Rightarrow> nat \<Rightarrow> 'f IVFIndex \<Rightarrow> 'f IVFIndex go" where
  \<comment> \<open>the row of codes or of the vector\<close>
  "move_row row lastRow idx =
     (if usePQ idx
      then go_bind (the_pq idx) (\<lambda>pq. let m = pq_M pq in
           go_bind (slice (pqCodes idx) (lastRow * m) ((lastRow + 1) * m)) (\<lambda>r.
           go_bind (copy_into (pqCodes idx) (row * m) ((row + 1) * m) r) (\<lambda>cs. Inr (idx\<lparr>pqCodes := cs\<rparr>))))
      else let d = iv_dim idx in
           go_bind (slice (iv_vectors idx) (lastRow * d) ((lastRow + 1) * d)) (\<lambda>r.
           go_bind (copy_into (iv_vectors idx) (row * d) ((row + 1) * d) r) (\<lambda>vs. Inr (idx\<lparr>iv_vectors := vs\<rparr>))))"

definition forget_cluster :: "u64 \<Rightarrow> 'f IVFIndex \<Rightarrow> 'f IVFIndex go" where
  "forget_cluster x idx = (case clusterOf idx x of None \<Rightarrow> Inr idx
     | Some cluster \<Rightarrow> go_bind (removeFromPostingList cluster x idx) (\<lambda>idx. Inr (idx\<lparr>clusterOf := (clusterOf idx)(x := None)\<rparr>)))"

definition remove_row :: "u64 \<Rightarrow> nat \<Rightarrow> 'f IVFIndex \<Rightarrow> 'f IVFIndex go" where
  "remove_row x row idx = (let lastRow = iv_count idx - 1 in
     go_bind (if row \<noteq> lastRow then
         go_bind (move_row row lastRow idx) (\<lambda>idx.
         go_bind (get_at (iv_ids idx) lastRow) (\<lambda>lastID.
         go_bind (put_at (iv_ids idx) row lastID) (\<lambda>xs.
           Inr (idx\<lparr>iv_ids := xs, iv_idToRow := (iv_idToRow idx)(lastID \<mapsto> row)\<rparr>))))
       else Inr idx) (\<lambda>idx.
     Inr (idx\<lparr>iv_idToRow := (iv_idToRow idx)(x := None), iv_count := iv_count idx - 1\<rparr>)))"

definition delete_row :: "u64 \<Rightarrow> nat \<Rightarrow> 'f IVFIndex \<Rightarrow> 'f IVFIndex go" where
  \<comment> \<open>an identifier of the main index, in the given row\<close>
  "delete_row x row idx = go_bind (forget_cluster x idx) (remove_row x row)"

definition iv_Delete :: "u64 \<Rightarrow> 'f IVFIndex \<Rightarrow> ('f IVFIndex \<times> error option) go" where
  \<comment> \<open>an identifier that is nowhere is no error\<close>
  "iv_Delete x idx =
     (case iv_idToRow idx x of
        Some row \<Rightarrow> go_bind (delete_row x row idx) (\<lambda>idx. Inr (idx, None))
      | None \<Rightarrow> go_bind (Delete x (dirty idx)) (\<lambda>(fresh, _). Inr (idx\<lparr>dirty := fresh\<rparr>, None)))"

definition iv_Len :: "'f IVFIndex \<Rightarrow> nat" where
  "iv_Len idx = iv_count idx + Len (dirty idx)"

subsection \<open>Search\<close>

definition probe_codes ::
  "'f::linordered_field list \<Rightarrow> 'f IVFIndex \<Rightarrow> 'f CentroidDist \<Rightarrow> u64 list \<times> 'f list \<Rightarrow> (u64 list \<times> 'f list) go" where
  \<comment> \<open>a posting list by look-up in the distance table of the residual query\<close>
  "probe_codes query idx cd st =
     go_bind (get_at (postingList idx) (cd_Index cd)) (\<lambda>l.
       if l = [] then Inr st
       else go_bind (the_kmeans idx) (\<lambda>km.
            go_bind (the_pq idx) (\<lambda>pq.
            go_bind (nth_row (iv_dim idx) (Centroids km) (cd_Index cd)) (\<lambda>centroid.
            go_bind (BuildDistanceTable (map2 (-) query centroid) pq) (\<lambda>table.
              for_each (\<lambda>x (xs, ds). case iv_idToRow idx x of None \<Rightarrow> Inr (xs, ds)
                | Some row \<Rightarrow>
                    go_bind (slice (pqCodes idx) (row * pq_M pq) (row * pq_M pq + pq_M pq)) (\<lambda>codes.
                    go_bind (DistanceADC table codes pq) (\<lambda>x'. Inr (xs @ [x], ds @ [x'])))) l st)))))"

definition probe_vectors :: "'f::linordered_field IVFIndex \<Rightarrow> 'f CentroidDist \<Rightarrow> u64 list \<times> 'f list \<Rightarrow> (u64 list \<times> 'f list) go" where
  \<comment> \<open>a posting list appended to the batch\<close>
  "probe_vectors idx cd st =
     go_bind (get_at (postingList idx) (cd_Index cd)) (\<lambda>l.
       for_each (\<lambda>x (xs, vs). case iv_idToRow idx x of None \<Rightarrow> Inr (xs, vs)
         | Some row \<Rightarrow> go_bind (nth_row (iv_dim idx) (iv_vectors idx) row) (\<lambda>v. Inr (xs @ [x], vs @ v))) l st)"

definition search_cells ::
  "'f::linordered_field ivf_env \<Rightarrow> 'f list \<Rightarrow> int \<Rightarrow> nat \<Rightarrow> 'f IVFIndex \<Rightarrow> 'f SearchResult list go" where
  "search_cells e query k nprobe idx =
     go_bind (the_kmeans idx) (\<lambda>km.
     go_bind (NearestKCentroids (env_km e idx) km query nprobe) (\<lambda>top_cells.
     go_bind (for_each (\<lambda>cd n. go_bind (get_at (postingList idx) (cd_Index cd)) (\<lambda>l. Inr (n + length l))) top_cells 0) (\<lambda>estimatedSize.
       if estimatedSize = 0 then Inr []
       else if usePQ idx
         then go_bind (for_each (probe_codes query idx) top_cells ([], [])) (\<lambda>(xs, ds). TopK ds xs k)
       else go_bind (for_each (probe_vectors idx) top_cells ([], [])) (\<lambda>(xs, vs).
            go_bind (if xs = [] then Inr []
              else BatchDistance (iv_plat e) query vs (length xs) (iv_dim idx) (iv_metric idx) (replicate (length xs) 0)) (\<lambda>ds.
              TopK ds xs k)))))"

fun dedup :: "u64 set \<Rightarrow> 'f SearchResult list \<Rightarrow> 'f SearchResult list" where
  "dedup seen [] = []"
| "dedup seen (r # rs) = (if ID r \<in> seen then dedup seen rs else r # dedup (insert (ID r) seen) rs)"

definition iv_mergeResults :: "'f::linordered_field SearchResult list \<Rightarrow> 'f SearchResult list \<Rightarrow> int \<Rightarrow> 'f SearchResult list go" where
  "iv_mergeResults a b k =
     (if a = [] then Inr (if int (length b) > k then take (nat k) b else b)
      else if b = [] then Inr (if int (length a) > k then take (nat k) a else a)
      else let al = dedup {} (a @ b) in TopK (map Distance al) (map ID al) k)"

definition iv_Search ::
  "'f::linordered_field ivf_env \<Rightarrow> (nat \<Rightarrow> error option) \<Rightarrow> 'f list \<Rightarrow> 'f list \<Rightarrow> int \<Rightarrow> int \<Rightarrow> 'f IVFIndex \<Rightarrow>
    (error + 'f SearchResult list) go" where
  \<comment> \<open>the third argument is the pooled buffer of the flat index\<close>
  "iv_Search e ctx buf query k nprobe idx =
     (if length query \<noteq> iv_dim idx then Inr (Inl (Newf ErrDimensionMismatch))
      else if k \<le> 0 then Inr (Inr [])
      else let nprobe = (if nprobe \<le> 0 then iv_nprobe idx else nat nprobe) in
        go_bind (if built idx \<and> 0 < iv_count idx then search_cells e query k nprobe idx else Inr []) (\<lambda>cells.
        go_bind (Search (iv_plat e) ctx buf query k (dirty idx)) (\<lambda>r. case r of
          Inl err \<Rightarrow> Inr (Inl err)
        | Inr buffered \<Rightarrow>
            go_bind (iv_mergeResults cells buffered k) (\<lambda>merged.
              Inr (Inr (map (\<lambda>r. r\<lparr>Score := ScoreFromDistance (rt32 (iv_plat e)) (Distance r) (iv_metric idx)\<rparr>) merged))))))"

subsection \<open>Rebuilding\<close>

record 'f job =
  allVecs :: "'f list"
  allIDs :: "u64 list"
  totalN :: nat

definition decode_rows :: "'f::linordered_field IVFIndex \<Rightarrow> nat \<Rightarrow> 'f list \<Rightarrow> 'f list go" where
  \<comment> \<open>the approximate vector of a row of codes; the error of \<open>Decode\<close> is ignored and its result then nil\<close>
  "decode_rows idx i vecs =
     go_bind (get_at (iv_ids idx) i) (\<lambda>x.
     go_bind (the_kmeans idx) (\<lambda>km.
     go_bind (the_pq idx) (\<lambda>pq.
     go_bind (nth_row (iv_dim idx) (Centroids km) (map_get 0 (clusterOf idx) x)) (\<lambda>oldCentroid.
     go_bind (slice (pqCodes idx) (i * pq_M pq) (i * pq_M pq + pq_M pq)) (\<lambda>codes.
     go_bind (Decode codes pq) (\<lambda>r. case r of
       Inl _ \<Rightarrow> (if iv_dim idx = 0 then Inr vecs else Inl IndexOutOfRange)
     | Inr res \<Rightarrow> copy_into vecs (i * iv_dim idx) (i * iv_dim idx + iv_dim idx) (map2 (+) oldCentroid res)))))))"

definition rebuild_drain :: "'f::linordered_field IVFIndex \<Rightarrow> ('f IVFIndex \<times> 'f job) go" where
  "rebuild_drain idx =
     go_bind (AllVectors (dirty idx)) (\<lambda>(dirtyIDs, dirtyVecs, dirtyCount).
     let mainCount = iv_count idx; n = mainCount + dirtyCount; d = iv_dim idx in
     go_bind (if usePQ idx \<and> built idx then for_each (decode_rows idx) [0..<mainCount] (replicate (n * d) 0)
         else if 0 < mainCount \<and> \<not> usePQ idx
         then go_bind (slice (iv_vectors idx) 0 (mainCount * d)) (copy_into (replicate (n * d) 0) 0 (n * d))
         else Inr (replicate (n * d) 0)) (\<lambda>vecs.
     go_bind (slice (iv_ids idx) 0 mainCount) (\<lambda>mainIDs.
     go_bind (copy_into (replicate n 0) 0 n mainIDs) (\<lambda>xs.
     go_bind (slice dirtyVecs 0 (dirtyCount * d)) (\<lambda>dv.
     go_bind (copy_into vecs (mainCount * d) (n * d) dv) (\<lambda>vecs.
     go_bind (slice dirtyIDs 0 dirtyCount) (\<lambda>di.
     go_bind (copy_into xs mainCount n di) (\<lambda>xs.
       case NewFlatIndex (int d) (iv_metric idx) of
         Inl _ \<Rightarrow> Inl NilDereference
       | Inr fresh \<Rightarrow> Inr (idx\<lparr>dirty := fresh\<rparr>, \<lparr>allVecs = vecs, allIDs = xs, totalN = n\<rparr>)))))))))"

record 'f rebuild_result =
  rb_km :: "'f KMeans"
  rb_codes :: "u8 list"
  rb_postings :: "u64 list list"
  rb_clusterOf :: "u64 \<rightharpoonup> nat"

definition train_and_encode ::
  "'f::linordered_field ivf_env \<Rightarrow> 'f job \<Rightarrow> 'f KMeans \<Rightarrow> nat list \<Rightarrow> 'f IVFIndex \<Rightarrow> ('f IVFIndex \<times> u8 list) option go" where
  \<comment> \<open>\<open>None\<close>: the training has not returned with the draws given; errors of \<open>Encode\<close> give nil codes\<close>
  "train_and_encode e j km asg idx =
     (let d = iv_dim idx; n = totalN j in
      go_bind (the_pq idx) (\<lambda>pq.
      go_bind (for_each (\<lambda>i res. go_bind (get_at asg i) (\<lambda>cluster.
          go_bind (nth_row d (Centroids km) cluster) (\<lambda>centroid.
          go_bind (nth_row d (allVecs j) i) (\<lambda>v. set_row d res i (map2 (-) v centroid))))) [0..<n] (replicate (n * d) 0)) (\<lambda>residuals.
      go_bind (if IsTrained pq then Inr (Some (pq, None)) else Train (iv_maxf e) (iv_draws e n) residuals n 25 pq) (\<lambda>r. case r of
        None \<Rightarrow> Inr None
      | Some (pq, _) \<Rightarrow>
          go_bind (for_each (\<lambda>i cs. go_bind (nth_row d residuals i) (\<lambda>res.
            go_bind (Encode (iv_maxf e) res pq) (\<lambda>codes.
              set_row (pq_M pq) cs i (case codes of Inl _ \<Rightarrow> [] | Inr c \<Rightarrow> c)))) [0..<n] (replicate (n * pq_M pq) 0)) (\<lambda>newCodes.
            Inr (Some (idx\<lparr>iv_pq := Some pq\<rparr>, newCodes)))))))"

definition assign_lists :: "u64 list \<Rightarrow> nat list \<Rightarrow> nat \<Rightarrow> (u64 list list \<times> (u64 \<rightharpoonup> nat)) go" where
  "assign_lists xs asg k =
     for_each (\<lambda>i (pl, co). go_bind (get_at asg i) (\<lambda>cluster. go_bind (get_at xs i) (\<lambda>x. go_bind (get_at pl cluster) (\<lambda>l.
       go_bind (put_at pl cluster (l @ [x])) (\<lambda>pl. Inr (pl, co(x \<mapsto> cluster)))))))
     [0..<length asg] (replicate k [], Map.empty)"

datatype 'f computed = Cancelled "error option" | Computed "'f rebuild_result"

definition rebuild_compute ::
  "'f::linordered_field ivf_env \<Rightarrow> (nat \<Rightarrow> error option) \<Rightarrow> 'f job \<Rightarrow> 'f IVFIndex \<Rightarrow> ('f IVFIndex \<times> 'f computed) option go" where
  "rebuild_compute e ctx j idx =
     (case ctx 0 of Some err \<Rightarrow> Inr (Some (idx, Cancelled (Some err)))
      | None \<Rightarrow>
        (let effectiveK = (if totalN j < iv_k idx then totalN j else iv_k idx) in
         go_bind (FitCtx (env_km e idx) (\<lambda>c. ctx (c + 1)) (allVecs j) (totalN j) (NewKMeans effectiveK (iv_dim idx))) (\<lambda>(r, km, asked).
         case (r, ctx (asked + 1)) of
           (None, err) \<Rightarrow> Inr (Some (idx, Cancelled err))
         | (Some _, Some err) \<Rightarrow> Inr (Some (idx, Cancelled (Some err)))
         | (Some asg, None) \<Rightarrow>
             go_bind (if usePQ idx then train_and_encode e j km asg idx else Inr (Some (idx, []))) (\<lambda>r. case r of
               None \<Rightarrow> Inr None
             | Some (idx, codes) \<Rightarrow>
                 go_bind (assign_lists (allIDs j) asg effectiveK) (\<lambda>(pl, co).
                   Inr (Some (idx, Computed \<lparr>rb_km = km, rb_codes = codes, rb_postings = pl, rb_clusterOf = co\<rparr>)))))))"

definition collect_deleted :: "'f rebuild_result \<Rightarrow> 'f IVFIndex \<Rightarrow> u64 set" where
  "collect_deleted r idx = {x \<in> dom (iv_idToRow idx). x \<notin> dom (rb_clusterOf r)}"

definition reserve :: "nat \<Rightarrow> 'f::zero IVFIndex \<Rightarrow> 'f IVFIndex go" where
  "reserve n idx =
     (if n > iv_capacity idx
      then go_bind (if usePQ idx then go_bind (the_pq idx) (\<lambda>pq. Inr (idx\<lparr>pqCodes := replicate (n * 2 * pq_M pq) 0\<rparr>))
             else Inr (idx\<lparr>iv_vectors := replicate (n * 2 * iv_dim idx) 0\<rparr>)) (\<lambda>idx.
           Inr (idx\<lparr>iv_capacity := n * 2, iv_ids := replicate (n * 2) 0\<rparr>))
      else Inr idx)"

definition rebuild_swap :: "u64 list \<Rightarrow> 'f job \<Rightarrow> 'f rebuild_result \<Rightarrow> 'f::zero IVFIndex \<Rightarrow> 'f IVFIndex go" where
  \<comment> \<open>the first argument is the set of collected deletions in the order of \<open>range\<close>\<close>
  "rebuild_swap deletedDuringRebuild j r idx =
     go_bind (reserve (totalN j) idx) (\<lambda>idx.
     go_bind (if usePQ idx
        then go_bind (copy_into (pqCodes idx) 0 (length (pqCodes idx)) (rb_codes r)) (\<lambda>cs. Inr (idx\<lparr>pqCodes := cs, iv_vectors := []\<rparr>))
        else go_bind (slice (allVecs j) 0 (totalN j * iv_dim idx)) (\<lambda>vs.
             go_bind (copy_into (iv_vectors idx) 0 (length (iv_vectors idx)) vs) (\<lambda>vs. Inr (idx\<lparr>iv_vectors := vs\<rparr>)))) (\<lambda>idx.
     go_bind (slice (allIDs j) 0 (totalN j)) (\<lambda>xs.
     go_bind (copy_into (iv_ids idx) 0 (length (iv_ids idx)) xs) (\<lambda>is.
     let idx = idx\<lparr>iv_ids := is, iv_count := totalN j,
           iv_idToRow := fold (\<lambda>i m. m(xs ! i \<mapsto> i)) [0..<totalN j] Map.empty,
           kmeans := Some (rb_km r), postingList := rb_postings r, clusterOf := rb_clusterOf r, built := True\<rparr> in
     for_each (\<lambda>x idx. case iv_idToRow idx x of None \<Rightarrow> Inr idx | Some row \<Rightarrow> delete_row x row idx) deletedDuringRebuild idx))))"

definition RebuildCtx ::
  "'f::linordered_field ivf_env \<Rightarrow> (u64 set \<Rightarrow> u64 list) \<Rightarrow> (nat \<Rightarrow> error option) \<Rightarrow> 'f IVFIndex \<Rightarrow> ('f IVFIndex \<times> error option) option go" where
  \<comment> \<open>with nothing in between; \<open>ord\<close> enumerates a set in the order of \<open>range\<close>\<close>
  "RebuildCtx e ord ctx idx =
     go_bind (rebuild_drain idx) (\<lambda>(idx, j).
       if totalN j = 0 then Inr (Some (idx, None))
       else go_bind (rebuild_compute e ctx j idx) (\<lambda>r. case r of
         None \<Rightarrow> Inr None
       | Some (idx, Cancelled err) \<Rightarrow> Inr (Some (idx, err))
       | Some (idx, Computed r) \<Rightarrow> go_bind (rebuild_swap (ord (collect_deleted r idx)) j r idx) (\<lambda>idx. Inr (Some (idx, None)))))"

definition iv_Rebuild :: "'f::linordered_field ivf_env \<Rightarrow> (u64 set \<Rightarrow> u64 list) \<Rightarrow> 'f IVFIndex \<Rightarrow> ('f IVFIndex \<times> error option) option go" where
  "iv_Rebuild e ord idx = RebuildCtx e ord (\<lambda>_. None) idx"

definition rebuilder_tick ::
  "'f::linordered_field ivf_env \<Rightarrow> (u64 set \<Rightarrow> u64 list) \<Rightarrow> (nat \<Rightarrow> error option) \<Rightarrow> 'f IVFIndex \<Rightarrow> ('f IVFIndex \<times> error option) option go" where
  \<comment> \<open>a tick of \<open>backgroundRebuilder\<close>\<close>
  "rebuilder_tick e ord ctx idx =
     (if int (Len (dirty idx)) > dirtyThreshold idx then RebuildCtx e ord ctx idx else Inr (Some (idx, None)))"

definition iv_ExportVectors :: "(u64 set \<Rightarrow> u64 list) \<Rightarrow> 'f::linordered_field IVFIndex \<Rightarrow> (u64 \<times> 'f list) list go" where
  "iv_ExportVectors ord idx =
     go_bind (if usePQ idx \<and> iv_vectors idx = [] \<and> iv_pq idx \<noteq> None \<and> kmeans idx \<noteq> None
        then for_each (\<lambda>x acc. case clusterOf idx x of None \<Rightarrow> Inr acc
             | Some cluster \<Rightarrow>
                 go_bind (the_kmeans idx) (\<lambda>km. go_bind (the_pq idx) (\<lambda>pq.
                 go_bind (nth_row (iv_dim idx) (Centroids km) cluster) (\<lambda>centroid.
                 let row = map_get 0 (iv_idToRow idx) x in
                 go_bind (slice (pqCodes idx) (row * pq_M pq) (row * pq_M pq + pq_M pq)) (\<lambda>codes.
                 go_bind (Decode codes pq) (\<lambda>r. case r of Inl _ \<Rightarrow> Inr acc | Inr res \<Rightarrow> Inr (acc @ [(x, map2 (+) centroid res)]))))))
             ) (ord (dom (iv_idToRow idx))) []
        else if iv_vectors idx \<noteq> []
        then for_each (\<lambda>x acc. go_bind (nth_row (iv_dim idx) (iv_vectors idx) (map_get 0 (iv_idToRow idx) x)) (\<lambda>v. Inr (acc @ [(x, v)])))
             (ord (dom (iv_idToRow idx))) []
        else Inr []) (\<lambda>main.
     go_bind (if 0 < Len (dirty idx) then ExportVectors (ord (dom (idToRow (dirty idx)))) (dirty idx) else Inr []) (\<lambda>rest.
       Inr (main @ rest)))"


subsection \<open>Invariant\<close>

text \<open>The rows of the main index, of vectors or of codes, as the storage of a flat index.\<close>

definition iv_main :: "'f IVFIndex \<Rightarrow> 'f FlatIndex" where
  "iv_main idx = \<lparr>fi_dim = iv_dim idx, fi_metric = iv_metric idx, capacity = iv_capacity idx, count = iv_count idx,
     vectors = iv_vectors idx, ids = iv_ids idx, idToRow = iv_idToRow idx\<rparr>"

definition iv_codes :: "nat \<Rightarrow> 'f IVFIndex \<Rightarrow> u8 FlatIndex" where
  "iv_codes m idx = \<lparr>fi_dim = m, fi_metric = iv_metric idx, capacity = iv_capacity idx, count = iv_count idx,
     vectors = pqCodes idx, ids = iv_ids idx, idToRow = iv_idToRow idx\<rparr>"

lemma iv_main_simps [simp]: "fi_dim (iv_main idx) = iv_dim idx" "fi_metric (iv_main idx) = iv_metric idx"
  "capacity (iv_main idx) = iv_capacity idx" "count (iv_main idx) = iv_count idx" "vectors (iv_main idx) = iv_vectors idx"
  "ids (iv_main idx) = iv_ids idx" "idToRow (iv_main idx) = iv_idToRow idx"
  "fi_dim (iv_codes m idx) = m" "fi_metric (iv_codes m idx) = iv_metric idx"
  "capacity (iv_codes m idx) = iv_capacity idx" "count (iv_codes m idx) = iv_count idx" "vectors (iv_codes m idx) = pqCodes idx"
  "ids (iv_codes m idx) = iv_ids idx" "idToRow (iv_codes m idx) = iv_idToRow idx"
  by (simp_all add: iv_main_def iv_codes_def)

definition pq_of :: "'f IVFIndex \<Rightarrow> 'f ProductQuantizer" where
  "pq_of idx = the (iv_pq idx)"

definition quantizer_ok :: "'f IVFIndex \<Rightarrow> bool" where
  "quantizer_ok idx \<longleftrightarrow> (usePQ idx \<longrightarrow> iv_pq idx = Some (pq_of idx) \<and> pq_ok (pq_of idx) \<and> pq_Dim (pq_of idx) = iv_dim idx \<and>
     (built idx \<longrightarrow> trained (pq_of idx)))"

definition rows_ok :: "'f IVFIndex \<Rightarrow> bool" where
  "rows_ok idx \<longleftrightarrow> (if usePQ idx then fi_inv (iv_codes (pq_M (pq_of idx)) idx) else fi_inv (iv_main idx))"

definition lists_ok :: "u64 list list \<Rightarrow> (u64 \<rightharpoonup> nat) \<Rightarrow> bool" where
  "lists_ok pl co \<longleftrightarrow> (\<forall>x c. co x = Some c \<longrightarrow> c < length pl \<and> x \<in> set (pl ! c)) \<and>
     (\<forall>c < length pl. distinct (pl ! c) \<and> (\<forall>x \<in> set (pl ! c). co x = Some c))"

definition centroids_ok :: "'f IVFIndex \<Rightarrow> bool" where
  "centroids_ok idx \<longleftrightarrow> (if built idx
     then (\<exists>km. kmeans idx = Some km \<and> km_shape km \<and> km_Dim km = iv_dim idx \<and> km_K km = length (postingList idx))
     else iv_count idx = 0)"

definition buffer_ok :: "'f IVFIndex \<Rightarrow> bool" where
  "buffer_ok idx \<longleftrightarrow> fi_inv (dirty idx) \<and> fi_dim (dirty idx) = iv_dim idx \<and> fi_metric (dirty idx) = iv_metric idx"

definition iv_inv :: "'f IVFIndex \<Rightarrow> bool" where
  "iv_inv idx \<longleftrightarrow> 0 < iv_dim idx \<and> 0 < iv_k idx \<and> 0 < iv_nprobe idx \<and> GetDistanceFunc (iv_metric idx) \<noteq> None \<and>
     quantizer_ok idx \<and> rows_ok idx \<and> dom (clusterOf idx) = dom (iv_idToRow idx) \<and> lists_ok (postingList idx) (clusterOf idx) \<and>
     centroids_ok idx \<and> buffer_ok idx \<and> dom (iv_idToRow idx) \<inter> dom (fi_vecs (dirty idx)) = {}"

text \<open>What the index stores. The content of a vector that product quantization has compressed is left out.\<close>

definition main_vecs :: "'f IVFIndex \<Rightarrow> 'f store" where
  "main_vecs idx = (\<lambda>x. map_option (\<lambda>r. if usePQ idx then [] else row_of (iv_dim idx) (iv_vectors idx) r) (iv_idToRow idx x))"

definition iv_vecs :: "'f IVFIndex \<Rightarrow> 'f store" where
  "iv_vecs idx = main_vecs idx ++ fi_vecs (dirty idx)"

definition squash :: "bool \<Rightarrow> 'f store \<Rightarrow> 'f store" where
  "squash compressed m = (if compressed then (\<lambda>x. map_option (\<lambda>_. []) (m x)) else m)"

definition iv_same :: "'f IVFIndex \<Rightarrow> 'f IVFIndex \<Rightarrow> bool" where
  "iv_same idx idx' \<longleftrightarrow> iv_dim idx' = iv_dim idx \<and> iv_k idx' = iv_k idx \<and> iv_nprobe idx' = iv_nprobe idx \<and>
     iv_metric idx' = iv_metric idx \<and> usePQ idx' = usePQ idx \<and> dirtyThreshold idx' = dirtyThreshold idx"

lemma iv_same_refl [simp]: "iv_same idx idx"
  by (simp add: iv_same_def)

lemma iv_same_trans: "iv_same a b \<Longrightarrow> iv_same b c \<Longrightarrow> iv_same a c"
  by (simp add: iv_same_def)

lemma dom_main_vecs [simp]: "dom (main_vecs idx) = dom (iv_idToRow idx)"
  by (auto simp: main_vecs_def)

lemma iv_invD:
  assumes "iv_inv idx"
  shows "0 < iv_dim idx" "0 < iv_k idx" "0 < iv_nprobe idx" "GetDistanceFunc (iv_metric idx) \<noteq> None" "quantizer_ok idx" "rows_ok idx"
    "dom (clusterOf idx) = dom (iv_idToRow idx)" "lists_ok (postingList idx) (clusterOf idx)" "centroids_ok idx" "buffer_ok idx"
    "dom (iv_idToRow idx) \<inter> dom (fi_vecs (dirty idx)) = {}" "fi_inv (dirty idx)" "fi_dim (dirty idx) = iv_dim idx" "fi_metric (dirty idx) = iv_metric idx"
  using assms by (simp_all add: iv_inv_def buffer_ok_def)

lemma NewIVFIndex_ok:
  fixes idx :: "'f::linordered_field IVFIndex"
  assumes "NewIVFIndex d k nprobe metric pqM threshold = Inr idx"
  shows "iv_inv idx \<and> iv_vecs idx = Map.empty \<and> iv_dim idx = nat d \<and> iv_metric idx = metric \<and> usePQ idx = (0 < pqM)"
proof -
  have d: "0 < d" and m: "GetDistanceFunc metric \<noteq> None" using assms by (auto simp: NewIVFIndex_def split: if_splits option.splits)
  define k' where "k' = (if k \<le> 0 then 256 else nat k)"
  define np where "np = (if nprobe \<le> 0 then 5 else nat nprobe)"
  obtain fresh where f: "NewFlatIndex d metric = Inr (fresh :: 'f FlatIndex)"
    using assms by (auto simp: NewIVFIndex_def Let_def split: if_splits option.splits sum.splits)
  note nf = NewFlatIndex_inv [OF f]
  obtain pq where p: "(if 0 < pqM then map_sum id Some (NewProductQuantizer d pqM) else Inr None) = Inr (pq :: 'f ProductQuantizer option)"
    and idx: "idx = \<lparr>iv_dim = nat d, iv_k = k', iv_nprobe = np, iv_metric = metric, kmeans = None,
                postingList = replicate k' [], built = False, usePQ = (pq \<noteq> None), iv_pq = pq,
                pqCodes = (if pq \<noteq> None then replicate (initCap * nat pqM) 0 else []),
                iv_vectors = (if pq \<noteq> None then [] else replicate (initCap * nat d) 0),
                iv_ids = replicate initCap 0, iv_idToRow = Map.empty, iv_count = 0, iv_capacity = initCap,
                clusterOf = Map.empty, dirty = fresh, dirtyThreshold = dirtyThreshold idx\<rparr>"
    using assms d m f unfolding NewIVFIndex_def k'_def [symmetric] np_def [symmetric] Let_def
    by (cases "if 0 < pqM then map_sum id Some (NewProductQuantizer d pqM :: error + 'f ProductQuantizer) else Inr None") (auto split: option.splits)
  have pqM: "(pq \<noteq> None) = (0 < pqM)" using p by (cases "NewProductQuantizer d pqM :: error + 'f ProductQuantizer") (auto split: if_splits)
  have q: "pq_ok (the pq) \<and> pq_Dim (the pq) = nat d \<and> pq_M (the pq) = nat pqM" if ne: "pq \<noteq> None"
  proof -
    obtain pq' where "NewProductQuantizer d pqM = Inr pq'" "pq = Some pq'"
      using p ne by (cases "NewProductQuantizer d pqM :: error + 'f ProductQuantizer") (auto split: if_splits)
    moreover from this(1) have "pq_M pq' = nat pqM" by (auto simp: NewProductQuantizer_def split: if_splits)
    ultimately show ?thesis using NewProductQuantizer_ok by auto
  qed
  have "iv_inv idx" using d m nf q pqM
    by (subst idx) (auto simp: iv_inv_def quantizer_ok_def rows_ok_def lists_ok_def centroids_ok_def buffer_ok_def fi_inv_def pq_of_def k'_def np_def pq_ok_def)
  moreover have "iv_vecs idx = Map.empty" using nf by (subst idx) (simp add: iv_vecs_def main_vecs_def)
  moreover have "iv_dim idx = nat d" "iv_metric idx = metric" "usePQ idx = (pq \<noteq> None)" by (subst idx, simp)+
  ultimately show ?thesis using pqM by simp
qed

subsection \<open>Insertion\<close>

lemma rows_ok_cong:
  "usePQ a = usePQ b \<Longrightarrow> iv_pq a = iv_pq b \<Longrightarrow> iv_dim a = iv_dim b \<Longrightarrow> iv_metric a = iv_metric b \<Longrightarrow> iv_capacity a = iv_capacity b \<Longrightarrow>
    iv_count a = iv_count b \<Longrightarrow> pqCodes a = pqCodes b \<Longrightarrow> iv_vectors a = iv_vectors b \<Longrightarrow> iv_ids a = iv_ids b \<Longrightarrow>
    iv_idToRow a = iv_idToRow b \<Longrightarrow> rows_ok a = rows_ok b"
  by (simp add: rows_ok_def pq_of_def iv_main_def iv_codes_def)

lemma buffer_change:
  assumes inv: "iv_inv idx" and s: "fi_inv s" "fi_dim s = iv_dim idx" "fi_metric s = iv_metric idx" "dom (iv_idToRow idx) \<inter> dom (fi_vecs s) = {}"
  shows "iv_inv (idx\<lparr>dirty := s\<rparr>)"
  unfolding iv_inv_def
proof (intro conjI)
  note I = iv_invD [OF inv]
  show "quantizer_ok (idx\<lparr>dirty := s\<rparr>)" using I(5) by (simp add: quantizer_ok_def pq_of_def)
  show "rows_ok (idx\<lparr>dirty := s\<rparr>)" using I(6) rows_ok_cong [of "idx\<lparr>dirty := s\<rparr>" idx] by simp
  show "centroids_ok (idx\<lparr>dirty := s\<rparr>)" using I(9) by (simp add: centroids_ok_def)
  show "buffer_ok (idx\<lparr>dirty := s\<rparr>)" using s by (simp add: buffer_ok_def)
qed (use iv_invD [OF inv] s(4) in simp_all)

lemma iv_Insert_ok:
  assumes "iv_inv idx"
  shows "\<exists>idx' err. iv_Insert i v idx = Inr (idx', err) \<and> iv_inv idx' \<and> iv_same idx idx' \<and>
    (iv_vecs idx', code_of err) = spec_Insert (iv_dim idx) i v (iv_vecs idx)"
proof -
  note I = iv_invD [OF assms]
  have dom: "dom (iv_vecs idx) = dom (iv_idToRow idx) \<union> dom (fi_vecs (dirty idx))" by (auto simp: iv_vecs_def)
  show ?thesis
  proof (cases "length v \<noteq> iv_dim idx \<or> i \<in> dom (iv_idToRow idx) \<or> fi_vecs (dirty idx) i \<noteq> None")
    case True
    then have "\<exists>c. iv_Insert i v idx = Inr (idx, Some (Newf c)) \<and> (iv_vecs idx, Some c) = spec_Insert (iv_dim idx) i v (iv_vecs idx)"
      using GetVector_ok [OF I(12), of i] dom domI [of "fi_vecs (dirty idx)" i] by (auto simp: iv_Insert_def spec_Insert_def simp del: dom_fi_vecs)
    then show ?thesis using assms by (metis code_of_simps(2) iv_same_refl)
  next
    case False
    obtain f' err where f: "Insert i v (dirty idx) = Inr (f', err)" "fi_inv f'" "fi_dim f' = fi_dim (dirty idx)" "fi_metric f' = fi_metric (dirty idx)"
      "(fi_vecs f', code_of err) = spec_Insert (fi_dim (dirty idx)) i v (fi_vecs (dirty idx))" using Insert_ok [OF I(12)] by blast
    have s: "fi_vecs f' = (fi_vecs (dirty idx))(i \<mapsto> v)" "code_of err = None"
      using f(5) False I(13) by (auto simp: spec_Insert_def domIff simp del: dom_fi_vecs)
    have "iv_Insert i v idx = Inr (idx\<lparr>dirty := f'\<rparr>, err)" using False f(1) GetVector_ok [OF I(12), of i] by (simp add: iv_Insert_def)
    moreover have "iv_inv (idx\<lparr>dirty := f'\<rparr>)"
      by (rule buffer_change [OF assms f(2)]) (use f(3,4) I(11,13,14) False arg_cong [OF s(1), of dom] in \<open>auto simp del: dom_fi_vecs\<close>)
    moreover have "iv_vecs (idx\<lparr>dirty := f'\<rparr>) = (iv_vecs idx)(i \<mapsto> v)" by (simp add: iv_vecs_def main_vecs_def s(1) cong: if_cong)
    moreover have "spec_Insert (iv_dim idx) i v (iv_vecs idx) = ((iv_vecs idx)(i \<mapsto> v), None)"
      using False dom domIff [of i "fi_vecs (dirty idx)"] by (auto simp: spec_Insert_def)
    ultimately show ?thesis using s(2) by (auto simp: iv_same_def)
  qed
qed

subsection \<open>Deletion\<close>

lemma swap_remove_ok:
  assumes "distinct l" "x \<in> set l"
  shows "distinct (swap_remove x l 0 l) \<and> set (swap_remove x l 0 l) = set l - {x}"
proof -
  have step: "\<exists>i < length l. l ! i = x \<and> swap_remove x l k vs = take (length l - 1) (l[i := l ! (length l - 1)])"
    if "vs = drop k l" "x \<in> set vs" for k vs
    using that
  proof (induction vs arbitrary: k)
    case (Cons v vs)
    have k: "k < length l" using Cons.prems(1) by (metis drop_all leI list.distinct(1))
    then have v: "v = l ! k" "vs = drop (k + 1) l" using Cons.prems(1) by (simp_all add: Cons_nth_drop_Suc [symmetric])
    show ?case using Cons.IH [OF v(2)] Cons.prems(2) v k by auto
  qed simp
  obtain i where i: "i < length l" "l ! i = x" "swap_remove x l 0 l = take (length l - 1) (l[i := l ! (length l - 1)])"
    using step [of l 0] assms(2) by auto
  define n where "n = length l - 1"
  have n: "length l = Suc n" "i \<le> n" using i(1) by (auto simp: n_def)
  let ?r = "take n (l[i := l ! n])"
  have nth: "?r ! j = (if j = i then l ! n else l ! j)" if "j < n" for j using that n by (simp add: nth_list_update)
  have len: "length ?r = n" using n by simp
  have uniq: "l ! a = l ! b \<longleftrightarrow> a = b" if "a \<le> n" "b \<le> n" for a b using nth_eq_iff_index_eq [OF assms(1)] that n by simp
  have "distinct ?r" unfolding distinct_conv_nth len using nth uniq n(2) by (auto split: if_splits)
  moreover have "set ?r = set l - {x}"
  proof (intro set_eqI iffI)
    fix y assume "y \<in> set ?r"
    then obtain j where j: "j < n" "y = ?r ! j" by (metis in_set_conv_nth len)
    then show "y \<in> set l - {x}" using nth [OF j(1)] uniq [of _ i] n i(2) by (auto split: if_splits)
  next
    fix y assume "y \<in> set l - {x}"
    then obtain j where j: "j \<le> n" "y = l ! j" "j \<noteq> i" using i(2) n by (metis DiffD1 DiffD2 in_set_conv_nth less_Suc_eq_le singletonI)
    define a where "a = (if j = n then i else j)"
    have "a < n \<and> ?r ! a = y" using j n nth [of a] by (auto simp: a_def)
    then show "y \<in> set ?r" by (metis len nth_mem)
  qed
  ultimately show ?thesis using i(3) n by simp
qed

lemma lists_okD:
  assumes "lists_ok pl co"
  shows "co x = Some c \<Longrightarrow> c < length pl" "co x = Some c \<Longrightarrow> x \<in> set (pl ! c)" "c < length pl \<Longrightarrow> distinct (pl ! c)"
    "c < length pl \<Longrightarrow> x \<in> set (pl ! c) \<Longrightarrow> co x = Some c"
  using assms unfolding lists_ok_def by blast+

lemma forget_cluster_ok:
  assumes l: "lists_ok (postingList idx) (clusterOf idx)"
  shows "\<exists>pl. forget_cluster x idx = Inr (idx\<lparr>postingList := pl, clusterOf := (clusterOf idx)(x := None)\<rparr>) \<and>
    length pl = length (postingList idx) \<and> lists_ok pl ((clusterOf idx)(x := None))"
proof (cases "clusterOf idx x")
  case None
  then have e: "(clusterOf idx)(x := None) = clusterOf idx" by auto
  show ?thesis unfolding e by (intro exI [of _ "postingList idx"]) (simp add: forget_cluster_def None l)
next
  case (Some c)
  let ?l = "postingList idx ! c"
  have c: "c < length (postingList idx)" "x \<in> set ?l" "distinct ?l" using lists_okD(1,2,3) [OF l] Some by blast+
  note sr = swap_remove_ok [OF c(3,2)]
  define pl where "pl = (postingList idx)[c := swap_remove x ?l 0 ?l]"
  have "forget_cluster x idx = Inr (idx\<lparr>postingList := pl, clusterOf := (clusterOf idx)(x := None)\<rparr>)"
    using Some c by (simp add: forget_cluster_def removeFromPostingList_def get_at_def put_at_def pl_def)
  moreover have "lists_ok pl ((clusterOf idx)(x := None))"
    unfolding lists_ok_def
  proof (intro conjI allI impI ballI)
    fix y c' assume y: "((clusterOf idx)(x := None)) y = Some c'"
    then have "y \<noteq> x" "c' < length (postingList idx)" "y \<in> set (postingList idx ! c')" using lists_okD(1,2) [OF l, of y c'] by (auto split: if_splits)
    then show "c' < length pl" "y \<in> set (pl ! c')" using sr c(1) by (auto simp: pl_def nth_list_update)
  next
    fix c' assume c': "c' < length pl"
    then have d: "distinct (postingList idx ! c')" "\<And>y. y \<in> set (postingList idx ! c') \<Longrightarrow> clusterOf idx y = Some c'"
      using lists_okD(3,4) [OF l, of c'] by (auto simp: pl_def)
    show "distinct (pl ! c')" using d(1) sr c(1) by (auto simp: pl_def nth_list_update)
    fix y assume "y \<in> set (pl ! c')"
    then have "y \<in> set (postingList idx ! c') \<and> (c' = c \<longrightarrow> y \<noteq> x)" using sr c(1) by (cases "c' = c") (simp_all add: pl_def)
    then show "((clusterOf idx)(x := None)) y = Some c'" using d(2) [of y] Some by (cases "y = x") simp_all
  qed
  ultimately show ?thesis by (auto simp: pl_def)
qed

lemma go_bind_InrE: "go_bind m f = Inr y \<Longrightarrow> (\<And>a. m = Inr a \<Longrightarrow> f a = Inr y \<Longrightarrow> thesis) \<Longrightarrow> thesis"
  by (cases m) auto

lemma remove_row_vectors:
  assumes "\<not> usePQ idx" "iv_idToRow idx x = Some row" "Delete x (iv_main idx) = Inr (s, e)"
  shows "remove_row x row idx = Inr (idx\<lparr>iv_vectors := vectors s, iv_ids := ids s, iv_idToRow := idToRow s, iv_count := count s\<rparr>)"
proof (cases "row = iv_count idx - 1")
  case True
  then show ?thesis using assms by (auto simp: Delete_def remove_row_def)
next
  case False
  then show ?thesis using assms(1,2) assms(3)
    by (auto simp: Delete_def remove_row_def move_row_def Let_def elim!: go_bind_InrE)
qed

lemma remove_row_codes:
  assumes "usePQ idx" "iv_pq idx = Some pq" "iv_idToRow idx x = Some row" "Delete x (iv_codes (pq_M pq) idx) = Inr (s, e)"
  shows "remove_row x row idx = Inr (idx\<lparr>pqCodes := vectors s, iv_ids := ids s, iv_idToRow := idToRow s, iv_count := count s\<rparr>)"
proof (cases "row = iv_count idx - 1")
  case True
  then show ?thesis using assms by (auto simp: Delete_def remove_row_def)
next
  case False
  then show ?thesis using assms(1,2,3) assms(4)
    by (auto simp: Delete_def remove_row_def move_row_def the_pq_def Let_def elim!: go_bind_InrE)
qed

lemma remove_row_ok:
  assumes inv: "quantizer_ok idx" "rows_ok idx" and x: "iv_idToRow idx x = Some row"
  shows "\<exists>vs cs xs m n. remove_row x row idx =
      Inr (idx\<lparr>iv_vectors := vs, pqCodes := cs, iv_ids := xs, iv_idToRow := m, iv_count := n\<rparr>) \<and>
    rows_ok (idx\<lparr>iv_vectors := vs, pqCodes := cs, iv_ids := xs, iv_idToRow := m, iv_count := n\<rparr>) \<and>
    main_vecs (idx\<lparr>iv_vectors := vs, pqCodes := cs, iv_ids := xs, iv_idToRow := m, iv_count := n\<rparr>) = (main_vecs idx)(x := None) \<and>
    n < iv_count idx"
proof (cases "usePQ idx")
  case False
  then have i: "fi_inv (iv_main idx)" using inv(2) by (simp add: rows_ok_def)
  have less: "0 < iv_count idx" using fi_invD(6) [OF i, of x row] x by simp
  obtain s e where s: "Delete x (iv_main idx) = Inr (s, e)" "fi_inv s" "fi_dim s = iv_dim idx" "fi_metric s = iv_metric idx"
    "(fi_vecs s, code_of e) = spec_Delete x (fi_vecs (iv_main idx))" using Delete_ok [OF i, of x] by auto
  have c: "count s = iv_count idx - 1" "capacity s = iv_capacity idx" using s(1) x
    by (auto simp: Delete_def Let_def split: if_splits elim!: go_bind_InrE)
  have e: "idx\<lparr>iv_vectors := vectors s, pqCodes := pqCodes idx, iv_ids := ids s, iv_idToRow := idToRow s, iv_count := count s\<rparr> =
      idx\<lparr>iv_vectors := vectors s, iv_ids := ids s, iv_idToRow := idToRow s, iv_count := count s\<rparr>" by simp
  have fs: "iv_main (idx\<lparr>iv_vectors := vectors s, iv_ids := ids s, iv_idToRow := idToRow s, iv_count := count s\<rparr>) = s"
    using s(3,4) c(2) by (simp add: iv_main_def)
  have mv: "main_vecs j = fi_vecs (iv_main j)" if "\<not> usePQ j" for j :: "'a IVFIndex" using that by (simp add: main_vecs_def fi_vecs_def)
  have sp: "fi_vecs s = (fi_vecs (iv_main idx))(x := None)" using s(5) x by (auto simp: spec_Delete_def split: if_splits)
  show ?thesis
    by (rule exI [of _ "vectors s"], rule exI [of _ "pqCodes idx"], rule exI [of _ "ids s"], rule exI [of _ "idToRow s"], rule exI [of _ "count s"])
      (use remove_row_vectors [OF False x s(1)] False s(2) fs sp c(1) less in \<open>simp add: e mv rows_ok_def\<close>)
next
  case True
  then have q: "iv_pq idx = Some (pq_of idx)" and i: "fi_inv (iv_codes (pq_M (pq_of idx)) idx)" using inv by (auto simp: rows_ok_def quantizer_ok_def)
  have less: "0 < iv_count idx" using fi_invD(6) [OF i, of x row] x by simp
  obtain s e where s: "Delete x (iv_codes (pq_M (pq_of idx)) idx) = Inr (s, e)" "fi_inv s" "fi_dim s = pq_M (pq_of idx)" "fi_metric s = iv_metric idx"
    "(fi_vecs s, code_of e) = spec_Delete x (fi_vecs (iv_codes (pq_M (pq_of idx)) idx))" using Delete_ok [OF i, of x] by auto
  have c: "count s = iv_count idx - 1" "capacity s = iv_capacity idx" using s(1) x
    by (auto simp: Delete_def Let_def split: if_splits elim!: go_bind_InrE)
  have e: "idx\<lparr>iv_vectors := iv_vectors idx, pqCodes := vectors s, iv_ids := ids s, iv_idToRow := idToRow s, iv_count := count s\<rparr> =
      idx\<lparr>pqCodes := vectors s, iv_ids := ids s, iv_idToRow := idToRow s, iv_count := count s\<rparr>" by simp
  have fs: "iv_codes (pq_M (pq_of idx)) (idx\<lparr>pqCodes := vectors s, iv_ids := ids s, iv_idToRow := idToRow s, iv_count := count s\<rparr>) = s"
    using s(3,4) c(2) by (simp add: iv_codes_def)
  have po: "pq_of (idx\<lparr>pqCodes := vectors s, iv_ids := ids s, iv_idToRow := idToRow s, iv_count := count s\<rparr>) = pq_of idx" by (simp add: pq_of_def)
  have "dom (idToRow s) = dom (iv_idToRow idx) - {x}"
  proof -
    have "x \<in> dom (fi_vecs (iv_codes (pq_M (pq_of idx)) idx))" using x by (simp add: domI)
    then have "fi_vecs s = (fi_vecs (iv_codes (pq_M (pq_of idx)) idx))(x := None)" using s(5) by (simp add: spec_Delete_def)
    from arg_cong [OF this, of dom] show ?thesis by simp
  qed
  then have d: "main_vecs (idx\<lparr>pqCodes := vectors s, iv_ids := ids s, iv_idToRow := idToRow s, iv_count := count s\<rparr>) = (main_vecs idx)(x := None)"
  proof (intro ext)
    fix y
    have "idToRow s y = None \<longleftrightarrow> iv_idToRow idx y = None \<or> y = x" using \<open>dom (idToRow s) = _\<close> by (metis Diff_iff domIff singleton_iff)
    then show "main_vecs (idx\<lparr>pqCodes := vectors s, iv_ids := ids s, iv_idToRow := idToRow s, iv_count := count s\<rparr>) y = ((main_vecs idx)(x := None)) y"
      using True by (cases "idToRow s y"; cases "iv_idToRow idx y"; cases "y = x") (simp_all add: main_vecs_def)
  qed
  show ?thesis
    by (rule exI [of _ "iv_vectors idx"], rule exI [of _ "vectors s"], rule exI [of _ "ids s"], rule exI [of _ "idToRow s"], rule exI [of _ "count s"])
      (use remove_row_codes [OF True q x s(1)] True s(2) fs d c(1) less po in \<open>simp add: e rows_ok_def\<close>)
qed

lemma delete_row_ok:
  assumes inv: "iv_inv idx" and x: "iv_idToRow idx x = Some row"
  shows "\<exists>idx'. delete_row x row idx = Inr idx' \<and> iv_inv idx' \<and> iv_same idx idx' \<and> dirty idx' = dirty idx \<and>
    main_vecs idx' = (main_vecs idx)(x := None) \<and> iv_count idx' < iv_count idx"
proof -
  note I = iv_invD [OF inv]
  obtain pl where f: "forget_cluster x idx = Inr (idx\<lparr>postingList := pl, clusterOf := (clusterOf idx)(x := None)\<rparr>)"
    and pl: "length pl = length (postingList idx)" "lists_ok pl ((clusterOf idx)(x := None))" using forget_cluster_ok [OF I(8), of x] by blast
  define j where "j = idx\<lparr>postingList := pl, clusterOf := (clusterOf idx)(x := None)\<rparr>"
  have j: "quantizer_ok j" "rows_ok j" "iv_idToRow j x = Some row" "main_vecs j = main_vecs idx"
    using I(5,6) x rows_ok_cong [of j idx] by (simp_all add: j_def quantizer_ok_def pq_of_def main_vecs_def cong: if_cong)
  obtain vs cs xs m n where r: "remove_row x row j = Inr (j\<lparr>iv_vectors := vs, pqCodes := cs, iv_ids := xs, iv_idToRow := m, iv_count := n\<rparr>)"
      "rows_ok (j\<lparr>iv_vectors := vs, pqCodes := cs, iv_ids := xs, iv_idToRow := m, iv_count := n\<rparr>)"
      "main_vecs (j\<lparr>iv_vectors := vs, pqCodes := cs, iv_ids := xs, iv_idToRow := m, iv_count := n\<rparr>) = (main_vecs j)(x := None)"
    and less: "n < iv_count j" using remove_row_ok [OF j(1,2,3)] by blast
  let ?k = "j\<lparr>iv_vectors := vs, pqCodes := cs, iv_ids := xs, iv_idToRow := m, iv_count := n\<rparr>"
  have d: "dom m = dom (iv_idToRow idx) - {x}" using arg_cong [OF r(3), of dom] dom_main_vecs [of ?k] j(4) by simp
  have "iv_inv ?k" unfolding iv_inv_def
  proof (intro conjI)
    show "quantizer_ok ?k" using I(5) by (simp add: quantizer_ok_def j_def pq_of_def)
    show "rows_ok ?k" by (rule r(2))
    show "centroids_ok ?k" using I(9) less pl(1) by (auto simp: centroids_ok_def j_def split: if_splits)
    show "buffer_ok ?k" using I(10) by (simp add: buffer_ok_def j_def)
    show "lists_ok (postingList ?k) (clusterOf ?k)" using pl(2) by (simp add: j_def)
    show "dom (clusterOf ?k) = dom (iv_idToRow ?k)" using I(7) d by (simp add: j_def)
    show "dom (iv_idToRow ?k) \<inter> dom (fi_vecs (dirty ?k)) = {}" using I(11) d by (auto simp: j_def)
  qed (use I in \<open>simp_all add: j_def\<close>)
  moreover have "delete_row x row idx = Inr ?k" using f r(1) by (simp add: delete_row_def j_def)
  ultimately show ?thesis using r(3) j(4) less by (intro exI [of _ ?k]) (simp add: iv_same_def j_def)
qed

lemma iv_Delete_ok:
  assumes inv: "iv_inv idx"
  shows "\<exists>idx'. iv_Delete x idx = Inr (idx', None) \<and> iv_inv idx' \<and> iv_same idx idx' \<and> iv_vecs idx' = (iv_vecs idx)(x := None)"
proof (cases "iv_idToRow idx x")
  case (Some row)
  obtain idx' where d: "delete_row x row idx = Inr idx'" "iv_inv idx'" "iv_same idx idx'" "dirty idx' = dirty idx"
    "main_vecs idx' = (main_vecs idx)(x := None)" using delete_row_ok [OF inv Some] by blast
  have "fi_vecs (dirty idx) x = None" using iv_invD(11) [OF inv] Some by (metis disjoint_iff domI domIff)
  then have "iv_vecs idx' = (iv_vecs idx)(x := None)" unfolding iv_vecs_def d(4,5) by (auto simp: map_add_def split: option.splits)
  then show ?thesis using d Some by (simp add: iv_Delete_def)
next
  case None
  note I = iv_invD [OF inv]
  obtain s e where s: "Delete x (dirty idx) = Inr (s, e)" "fi_inv s" "fi_dim s = fi_dim (dirty idx)" "fi_metric s = fi_metric (dirty idx)"
    "(fi_vecs s, code_of e) = spec_Delete x (fi_vecs (dirty idx))" using Delete_ok [OF I(12)] by blast
  have v: "fi_vecs s = (fi_vecs (dirty idx))(x := None)" using s(5) by (auto simp: spec_Delete_def domIff simp del: dom_fi_vecs split: if_splits)
  have "iv_inv (idx\<lparr>dirty := s\<rparr>)"
    by (rule buffer_change [OF inv s(2)]) (use s(3,4) I(11,13,14) arg_cong [OF v, of dom] in \<open>auto simp del: dom_fi_vecs\<close>)
  moreover have "iv_vecs (idx\<lparr>dirty := s\<rparr>) = (iv_vecs idx)(x := None)"
    using None by (auto simp: iv_vecs_def main_vecs_def v map_add_def fun_eq_iff cong: if_cong split: option.splits)
  ultimately show ?thesis using None s(1) by (simp add: iv_Delete_def iv_same_def)
qed

end
