(* ===== verification/Ivf_Search.thy ===== *)
theory Ivf_Search
  imports Ivf_Index
begin

section \<open>The inverted file index: search\<close>

text \<open>
  Every search runs without a panic and returns the nearest of the vectors in the probed cells and of those in the
  buffer: the two selections of the code, each by a bounded heap, and their merge compose to one selection.
\<close>

subsection \<open>Nearest of a set of identifiers\<close>

definition knn :: "(u64 \<Rightarrow> 'f::linordered_field) \<Rightarrow> nat \<Rightarrow> u64 set \<Rightarrow> 'f SearchResult list \<Rightarrow> bool" where
  \<comment> \<open>\<open>rs\<close> are the \<open>k\<close> nearest of \<open>S\<close> under the distance \<open>D\<close>, nearest first, each once\<close>
  "knn D k S rs \<longleftrightarrow> length rs = min k (card S) \<and> distinct (map ID rs) \<and> sorted (map Distance rs) \<and>
     (\<forall>r \<in> set rs. ID r \<in> S \<and> Distance r = D (ID r)) \<and>
     (\<forall>i \<in> S. i \<notin> ID ` set rs \<longrightarrow> (\<forall>r \<in> set rs. Distance r \<le> D i))"

lemma knn_cong: "(\<And>i. i \<in> S \<Longrightarrow> D i = D' i) \<Longrightarrow> knn D k S rs = knn D' k S rs"
  unfolding knn_def by auto

lemma selects_knn:
  fixes D :: "u64 \<Rightarrow> 'f::linordered_field"
  assumes "selects k rs (mset (map2 result_of xs (map D xs)))" "sorted (map Distance rs)" "distinct xs"
  shows "knn D k (set xs) rs"
proof -
  have eq: "map D xs = map (\<lambda>j. D (xs ! j)) [0..<length xs]" by (intro nth_equalityI) auto
  note sel = selects_rows [OF assms(1) [unfolded eq] refl assms(3)]
  show ?thesis
    unfolding knn_def
  proof (intro conjI ballI impI)
    show "length rs = min k (card (set xs))" using sel(1) assms(3) by (simp add: distinct_card)
    show "distinct (map ID rs)" by (rule sel(2))
    show "sorted (map Distance rs)" by (rule assms(2))
  next
    fix r assume "r \<in> set rs"
    then obtain j where "j < length xs" "r = result_of (xs ! j) (D (xs ! j))" using sel(3) by blast
    then show "ID r \<in> set xs" "Distance r = D (ID r)" by (simp_all add: result_of_def)
  next
    fix i r assume "i \<in> set xs" "i \<notin> ID ` set rs" "r \<in> set rs"
    moreover from this(1) obtain j where "j < length xs" "xs ! j = i" by (auto simp: in_set_conv_nth)
    ultimately show "Distance r \<le> D i" using sel(4) by blast
  qed
qed

lemma TopK_knn:
  fixes D :: "u64 \<Rightarrow> 'f::linordered_field"
  assumes "0 < k" "distinct xs"
  shows "\<exists>rs. TopK (map D xs) xs k = Inr rs \<and> knn D (nat k) (set xs) rs"
proof -
  obtain rs where rs: "TopK (map D xs) xs k = Inr rs" "sorted (map Distance rs)" "selects (nat k) rs (mset (map2 result_of xs (map D xs)))"
    using TopK_selects [of k "map D xs" xs] assms(1) by auto
  show ?thesis using rs(1) selects_knn [OF rs(3,2) assms(2)] by blast
qed

lemma dedup_distinct: "distinct (map ID rs) \<Longrightarrow> ID ` set rs \<inter> seen = {} \<Longrightarrow> dedup seen rs = rs"
  by (induction rs arbitrary: seen) auto

lemma knn_extend:
  \<comment> \<open>the nearest of the nearest of two sets\<close>
  assumes a: "knn D k A a" and b: "ID ` set b \<inter> A = {}" "finite A"
    and rs: "knn D k (ID ` set a \<union> ID ` set b) rs" and i: "i \<in> A" "i \<notin> ID ` set rs" "i \<notin> ID ` set a" and r: "r \<in> set rs"
  shows "Distance r \<le> D i"
proof -
  have len: "length a = k"
  proof -
    have "ID ` set a \<subset> A" using a i(1,3) unfolding knn_def by blast
    then have "card (ID ` set a) < card A" by (rule psubset_card_mono [OF b(2)])
    then have "length a < card A" using a by (simp add: knn_def distinct_card [of "map ID a", simplified])
    then show ?thesis using a by (simp add: knn_def)
  qed
  have near: "D j \<le> D i" if "j \<in> ID ` set a" for j using a i(1,3) that unfolding knn_def by fastforce
  have r': "Distance r = D (ID r)" using rs r by (simp add: knn_def)
  show ?thesis
  proof (cases "ID ` set a \<subseteq> ID ` set rs")
    case True
    have "length rs \<le> k" using rs by (simp add: knn_def)
    then have "card (ID ` set rs) \<le> card (ID ` set a)"
      using card_length [of "map ID rs"] a len distinct_card [of "map ID a"] by (simp add: knn_def)
    then have "ID ` set rs = ID ` set a" using True by (metis List.finite_set card_seteq finite_imageI)
    then show ?thesis using near r r' by auto
  next
    case False
    then obtain j where j: "j \<in> ID ` set a" "j \<notin> ID ` set rs" by blast
    then have "Distance r \<le> D j" using rs r unfolding knn_def by blast
    then show ?thesis using near [OF j(1)] by linarith
  qed
qed

lemma knn_nil: "knn D k S [] \<Longrightarrow> finite S \<Longrightarrow> 0 < k \<Longrightarrow> S = {}"
  by (auto simp: knn_def min_def split: if_splits)

lemma merge_knn:
  assumes a: "knn D (nat k) A a" and b: "knn D (nat k) B b" and fin: "finite A" "finite B" "A \<inter> B = {}" and k: "0 < k"
  shows "\<exists>rs. iv_mergeResults a b k = Inr rs \<and> knn D (nat k) (A \<union> B) rs"
proof -
  have la: "length a \<le> nat k" "length b \<le> nat k" using a b by (simp_all add: knn_def)
  consider "a = []" | "a \<noteq> []" "b = []" | "a \<noteq> []" "b \<noteq> []" by blast
  then show ?thesis
  proof cases
    case 1
    then have "A = {}" using knn_nil [of D "nat k" A] a fin(1) k by simp
    moreover have "\<not> k < int (length b)" using la(2) k by linarith
    ultimately show ?thesis using 1 b by (simp add: iv_mergeResults_def)
  next
    case 2
    then have "B = {}" using knn_nil [of D "nat k" B] b fin(2) k by simp
    moreover have "\<not> k < int (length a)" using la(1) k by linarith
    ultimately show ?thesis using 2 a by (simp add: iv_mergeResults_def)
  next
    case 3
    have sub: "ID ` set a \<subseteq> A" "ID ` set b \<subseteq> B" using a b by (auto simp: knn_def)
    have dis: "distinct (map ID (a @ b))" using a b sub fin(3) unfolding knn_def by auto
    have ds: "map Distance (a @ b) = map D (map ID (a @ b))" using a b by (auto simp: knn_def)
    obtain rs where rs: "TopK (map Distance (a @ b)) (map ID (a @ b)) k = Inr rs" "knn D (nat k) (set (map ID (a @ b))) rs"
      using TopK_knn [OF k dis, of D] unfolding ds by blast
    have r2: "knn D (nat k) (ID ` set a \<union> ID ` set b) rs" using rs(2) by (simp add: image_Un)
    have "dedup {} (a @ b) = a @ b" by (rule dedup_distinct [OF dis]) simp
    then have eq: "iv_mergeResults a b k = Inr rs" using 3 rs(1) by (simp add: iv_mergeResults_def Let_def)
    have "knn D (nat k) (A \<union> B) rs"
      unfolding knn_def
    proof (intro conjI ballI impI)
      have c: "card (ID ` set a) = min (nat k) (card A)" "card (ID ` set b) = min (nat k) (card B)"
        using a b distinct_card [of "map ID a"] distinct_card [of "map ID b"] by (simp_all add: knn_def)
      have "card (ID ` set a \<union> ID ` set b) = card (ID ` set a) + card (ID ` set b)"
        by (rule card_Un_disjoint) (use sub fin(3) in auto)
      then show "length rs = min (nat k) (card (A \<union> B))"
        using r2 c card_Un_disjoint [OF fin] by (simp add: knn_def min_def split: if_splits)
    next
      fix i r assume i: "i \<in> A \<union> B" "i \<notin> ID ` set rs" "r \<in> set rs"
      consider "i \<in> ID ` set a \<union> ID ` set b" | "i \<in> A" "i \<notin> ID ` set a" | "i \<in> B" "i \<notin> ID ` set b" using i(1) by blast
      then show "Distance r \<le> D i"
      proof cases
        case 1
        then show ?thesis using r2 i unfolding knn_def by blast
      next
        case 2
        then show ?thesis using knn_extend [OF a _ fin(1) r2 _ i(2) _ i(3)] sub fin(3) by blast
      next
        case 3
        then show ?thesis using knn_extend [OF b _ fin(2) r2 [unfolded Un_commute [of "ID ` set a"]] _ i(2) _ i(3)] sub fin(3) by blast
      qed
    next
      fix r assume "r \<in> set rs"
      then have "ID r \<in> ID ` set a \<union> ID ` set b" "Distance r = D (ID r)" using r2 unfolding knn_def by blast+
      then show "ID r \<in> A \<union> B" "Distance r = D (ID r)" using sub by blast+
    qed (use r2 in \<open>simp_all add: knn_def\<close>)
    with eq show ?thesis by blast
  qed
qed

subsection \<open>Search in the probed cells\<close>

lemma for_each_append:
  assumes "\<And>x xs ys. x \<in> set l \<Longrightarrow> f x (xs, ys) = Inr (xs @ L x, ys @ G x)"
  shows "for_each f l (xs, ys) = Inr (xs @ concat (map L l), ys @ concat (map G l))"
  using assms
proof (induction l arbitrary: xs ys)
  case (Cons a l)
  show ?case using Cons.prems [of a] Cons.IH [of "xs @ L a" "ys @ G a"] Cons.prems by simp
qed simp

lemma concat_rows:
  assumes "\<And>x. x \<in> set xs \<Longrightarrow> length (g x) = d" "i < length xs"
  shows "row_of d (concat (map g xs)) i = g (xs ! i)" "length (concat (map g xs)) = length xs * d"
proof -
  show len: "length (concat (map g xs)) = length xs * d" using assms(1) by (induction xs) (auto simp: algebra_simps)
  have "take d (drop (i * d) (concat (map g xs))) = g (xs ! i)" using assms
  proof (induction xs arbitrary: i)
    case (Cons a xs)
    then show ?case by (cases i) (simp_all add: add.commute)
  qed simp
  then show "row_of d (concat (map g xs)) i = g (xs ! i)" by (simp add: row_of_def)
qed

definition the_km :: "'f IVFIndex \<Rightarrow> 'f KMeans" where
  "the_km idx = the (kmeans idx)"

definition probed :: "'f IVFIndex \<Rightarrow> nat list \<Rightarrow> u64 set" where
  "probed idx cs = (\<Union>c \<in> set cs. set (postingList idx ! c))"

definition row_codes :: "'f IVFIndex \<Rightarrow> u64 \<Rightarrow> u8 list" where
  "row_codes idx x = row_of (pq_M (pq_of idx)) (pqCodes idx) (the (iv_idToRow idx x))"

definition pq_dist :: "'f::linordered_field list \<Rightarrow> 'f IVFIndex \<Rightarrow> u64 \<Rightarrow> 'f" where
  \<comment> \<open>the squared distance of the residual query to the decoded residual\<close>
  "pq_dist q idx x = L2Squared (map2 (-) q (cent (the_km idx) (the (clusterOf idx x)))) (projr (projr (Decode (row_codes idx x) (pq_of idx))))"

definition cell_dist :: "'f::linordered_field ivf_env \<Rightarrow> 'f list \<Rightarrow> 'f IVFIndex \<Rightarrow> u64 \<Rightarrow> 'f" where
  "cell_dist e q idx x = (if usePQ idx then pq_dist q idx x else env_distance e idx q (row_of (iv_dim idx) (iv_vectors idx) (the (iv_idToRow idx x))))"

lemma listed:
  assumes "iv_inv idx" "c < length (postingList idx)" "x \<in> set (postingList idx ! c)"
  shows "clusterOf idx x = Some c" "\<exists>row. iv_idToRow idx x = Some row"
proof -
  note I = iv_invD [OF assms(1)]
  show c: "clusterOf idx x = Some c" using lists_okD(4) [OF I(8)] assms(2,3) by blast
  then show "\<exists>row. iv_idToRow idx x = Some row" using I(7) by (metis domD domI)
qed

lemma distinct_cells:
  assumes "iv_inv idx" "distinct cs" "\<And>c. c \<in> set cs \<Longrightarrow> c < length (postingList idx)"
  shows "distinct (concat (map ((!) (postingList idx)) cs))" "set (concat (map ((!) (postingList idx)) cs)) = probed idx cs"
proof -
  show "set (concat (map ((!) (postingList idx)) cs)) = probed idx cs" by (simp add: probed_def)
  note L = lists_okD [OF iv_invD(8) [OF assms(1)]]
  show "distinct (concat (map ((!) (postingList idx)) cs))" using assms(2,3)
  proof (induction cs)
    case (Cons c cs)
    have "set (postingList idx ! c) \<inter> set (postingList idx ! c') = {}" if "c' \<in> set cs" for c'
      using L(4) [of c] L(4) [of c'] Cons.prems that by (auto, metis option.inject)
    then show ?case using Cons L(3) by auto
  qed simp
qed

lemma main_row:
  assumes "iv_inv idx" "\<not> usePQ idx" "iv_idToRow idx x = Some row"
  shows "nth_row (iv_dim idx) (iv_vectors idx) row = Inr (row_of (iv_dim idx) (iv_vectors idx) row)"
    "length (row_of (iv_dim idx) (iv_vectors idx) row) = iv_dim idx"
proof -
  have i: "fi_inv (iv_main idx)" using iv_invD(6) [OF assms(1)] assms(2) by (simp add: rows_ok_def)
  have r: "row < iv_capacity idx" "length (iv_vectors idx) = iv_capacity idx * iv_dim idx"
    using fi_invD(2,4) [OF i] fi_invD(6) [OF i, of x row] assms(3) by simp_all
  show "nth_row (iv_dim idx) (iv_vectors idx) row = Inr (row_of (iv_dim idx) (iv_vectors idx) row)"
    "length (row_of (iv_dim idx) (iv_vectors idx) row) = iv_dim idx"
    by (rule nth_row_ok [OF r(1) eq_imp_le [OF r(2) [symmetric]]], rule length_row [OF r(1) eq_imp_le [OF r(2) [symmetric]]])
qed

lemma codes_row:
  assumes "iv_inv idx" "usePQ idx" "iv_idToRow idx x = Some row"
  shows "slice (pqCodes idx) (row * pq_M (pq_of idx)) (row * pq_M (pq_of idx) + pq_M (pq_of idx)) = Inr (row_codes idx x)"
    "length (row_codes idx x) = pq_M (pq_of idx)"
proof -
  have i: "fi_inv (iv_codes (pq_M (pq_of idx)) idx)" using iv_invD(6) [OF assms(1)] assms(2) by (simp add: rows_ok_def)
  have r: "row < iv_capacity idx" "length (pqCodes idx) = iv_capacity idx * pq_M (pq_of idx)"
    using fi_invD(2,4) [OF i] fi_invD(6) [OF i, of x row] assms(3) by simp_all
  show "slice (pqCodes idx) (row * pq_M (pq_of idx)) (row * pq_M (pq_of idx) + pq_M (pq_of idx)) = Inr (row_codes idx x)"
    "length (row_codes idx x) = pq_M (pq_of idx)"
    using nth_row_ok [OF r(1) eq_imp_le [OF r(2) [symmetric]]] length_row [OF r(1) eq_imp_le [OF r(2) [symmetric]]] assms(3)
    by (simp_all add: nth_row_def row_codes_def add.commute)
qed

lemma probe_vectors_ok:
  assumes inv: "iv_inv idx" and q: "\<not> usePQ idx" and c: "cd_Index cd < length (postingList idx)"
  shows "probe_vectors idx cd (xs, vs) = Inr (xs @ postingList idx ! cd_Index cd,
    vs @ concat (map (\<lambda>x. row_of (iv_dim idx) (iv_vectors idx) (the (iv_idToRow idx x))) (postingList idx ! cd_Index cd)))"
proof -
  have "for_each (\<lambda>x (xs, vs). case iv_idToRow idx x of None \<Rightarrow> Inr (xs, vs)
      | Some row \<Rightarrow> go_bind (nth_row (iv_dim idx) (iv_vectors idx) row) (\<lambda>v. Inr (xs @ [x], vs @ v))) (postingList idx ! cd_Index cd) (xs, vs) =
    Inr (xs @ concat (map (\<lambda>x. [x]) (postingList idx ! cd_Index cd)),
      vs @ concat (map (\<lambda>x. row_of (iv_dim idx) (iv_vectors idx) (the (iv_idToRow idx x))) (postingList idx ! cd_Index cd)))"
  proof (rule for_each_append)
    fix x xs and vs :: "'a list" assume x: "x \<in> set (postingList idx ! cd_Index cd)"
    obtain row where row: "iv_idToRow idx x = Some row" using listed(2) [OF inv c x] by blast
    then show "(case (xs, vs) of (xs, vs) \<Rightarrow> (case iv_idToRow idx x of None \<Rightarrow> Inr (xs, vs)
        | Some row \<Rightarrow> go_bind (nth_row (iv_dim idx) (iv_vectors idx) row) (\<lambda>v. Inr (xs @ [x], vs @ v)))) =
      Inr (xs @ [x], vs @ row_of (iv_dim idx) (iv_vectors idx) (the (iv_idToRow idx x)))"
      using main_row(1) [OF inv q row] by simp
  qed
  then show ?thesis using c by (simp add: probe_vectors_def get_at_def concat_map_singleton)
qed

lemma pq_lookup:
  assumes pq: "pq_ok pq" "trained pq" and len: "length q = pq_Dim pq" "length codes = pq_M pq"
  shows "\<exists>table v. BuildDistanceTable q pq = Inr table \<and> Decode codes pq = Inr (Inr v) \<and> length v = pq_Dim pq \<and>
    DistanceADC table codes pq = Inr (L2Squared q v)"
proof -
  define T where "T = (\<lambda>m k. L2Squared (row_of (SubDim pq) q m) (codeword pq m k))"
  obtain table where t: "BuildDistanceTable q pq = Inr table" "length table = pq_M pq * 256" "\<forall>m < pq_M pq. \<forall>k < 256. table ! (m * 256 + k) = T m k"
    using BuildDistanceTable_ok [OF pq len(1)] by (auto simp: T_def)
  obtain v where v: "Decode codes pq = Inr (Inr v)" "length v = pq_Dim pq" "\<forall>m < pq_M pq. row_of (SubDim pq) v m = codeword pq m (unat (codes ! m))"
    using Decode_ok [OF pq len(2)] by blast
  have "L2Squared q v = (\<Sum>m < pq_M pq. T m (unat (codes ! m)))"
    using v(2,3) pq(1) len(1) L2Squared_split [of q "pq_M pq" "SubDim pq" v] by (simp add: pq_ok_def T_def)
  moreover have "DistanceADC table codes pq = Inr (\<Sum>m < pq_M pq. T m (unat (codes ! m)))"
    unfolding DistanceADC_ok [OF pq(1) len(2) t(2)] using t(3) u8_less by (intro arg_cong [of _ _ Inr] sum.cong) auto
  ultimately show ?thesis using t(1) v(1,2) by simp
qed

lemma probe_codes_ok:
  assumes inv: "iv_inv idx" and b: "usePQ idx" "built idx" and q: "length query = iv_dim idx" and c: "cd_Index cd < length (postingList idx)"
  shows "probe_codes query idx cd (xs, ds) = Inr (xs @ postingList idx ! cd_Index cd, ds @ map (pq_dist query idx) (postingList idx ! cd_Index cd))"
proof -
  note I = iv_invD [OF inv]
  let ?l = "postingList idx ! cd_Index cd"
  obtain km where km: "kmeans idx = Some km" "km_shape km" "km_Dim km = iv_dim idx" "km_K km = length (postingList idx)"
    using I(9) b(2) by (auto simp: centroids_ok_def)
  have pq: "iv_pq idx = Some (pq_of idx)" "pq_ok (pq_of idx)" "pq_Dim (pq_of idx) = iv_dim idx" "trained (pq_of idx)"
    using I(5) b by (simp_all add: quantizer_ok_def)
  have cc: "cd_Index cd < km_K km" using c km(4) by simp
  have cen: "nth_row (iv_dim idx) (Centroids km) (cd_Index cd) = Inr (cent km (cd_Index cd))" "length (cent km (cd_Index cd)) = iv_dim idx"
    using cent_ok [OF km(2) cc] length_row [OF cc, of "km_Dim km" "Centroids km"] km(2,3) by (simp_all add: cent_def km_shape_def)
  define res where "res = map2 (-) query (cent km (cd_Index cd))"
  have res: "length res = pq_Dim (pq_of idx)" using q cen(2) pq(3) by (simp add: res_def)
  obtain table where tab: "BuildDistanceTable res (pq_of idx) = Inr table" using BuildDistanceTable_ok [OF pq(2,4) res] by blast
  have dist: "DistanceADC table (row_codes idx x) (pq_of idx) = Inr (pq_dist query idx x)" if x: "x \<in> set ?l" for x
  proof -
    obtain row where row: "iv_idToRow idx x = Some row" using listed(2) [OF inv c x] by blast
    show ?thesis using pq_lookup [OF pq(2,4) res codes_row(2) [OF inv b(1) row]] tab listed(1) [OF inv c x]
      by (auto simp: pq_dist_def the_km_def km(1) res_def)
  qed
  have "for_each (\<lambda>x (xs, ds). case iv_idToRow idx x of None \<Rightarrow> Inr (xs, ds)
      | Some row \<Rightarrow> go_bind (slice (pqCodes idx) (row * pq_M (pq_of idx)) (row * pq_M (pq_of idx) + pq_M (pq_of idx))) (\<lambda>codes.
          go_bind (DistanceADC table codes (pq_of idx)) (\<lambda>x'. Inr (xs @ [x], ds @ [x'])))) ?l (xs, ds) =
    Inr (xs @ concat (map (\<lambda>x. [x]) ?l), ds @ concat (map (\<lambda>x. [pq_dist query idx x]) ?l))"
  proof (rule for_each_append)
    fix x xs ds assume x: "x \<in> set ?l"
    obtain row where row: "iv_idToRow idx x = Some row" using listed(2) [OF inv c x] by blast
    show "(case (xs, ds) of (xs, ds) \<Rightarrow> (case iv_idToRow idx x of None \<Rightarrow> Inr (xs, ds)
        | Some row \<Rightarrow> go_bind (slice (pqCodes idx) (row * pq_M (pq_of idx)) (row * pq_M (pq_of idx) + pq_M (pq_of idx))) (\<lambda>codes.
          go_bind (DistanceADC table codes (pq_of idx)) (\<lambda>x'. Inr (xs @ [x], ds @ [x']))))) = Inr (xs @ [x], ds @ [pq_dist query idx x])"
      using row codes_row(1) [OF inv b(1) row] dist [OF x] by simp
  qed
  moreover have "concat (map (\<lambda>x. [x]) ?l) = ?l" "concat (map (\<lambda>x. [pq_dist query idx x]) ?l) = map (pq_dist query idx) ?l"
    by (induction ?l) auto
  ultimately show ?thesis using c km pq tab cen(1)
    by (simp add: probe_codes_def get_at_def the_kmeans_def the_pq_def res_def [symmetric])
qed

lemma estimated_size:
  "(\<And>cd. cd \<in> set cds \<Longrightarrow> cd_Index cd < length pl) \<Longrightarrow>
   for_each (\<lambda>cd n. go_bind (get_at pl (cd_Index cd)) (\<lambda>l. Inr (n + length l))) cds n =
     Inr (n + length (concat (map (\<lambda>cd. pl ! cd_Index cd) cds)))"
  by (induction cds arbitrary: n) (simp_all add: get_at_def)

lemma gather_cells:
  assumes inv: "iv_inv idx" "built idx" and q: "length query = iv_dim idx" and less: "\<forall>cd \<in> set cds. cd_Index cd < length (postingList idx)"
    and xs: "xs = concat (map ((!) (postingList idx)) (map cd_Index cds))"
  shows "usePQ idx \<Longrightarrow> for_each (probe_codes query idx) cds ([], []) = Inr (xs, map (pq_dist query idx) xs)"
    and "\<not> usePQ idx \<Longrightarrow> for_each (probe_vectors idx) cds ([], []) =
      Inr (xs, concat (map (\<lambda>x. row_of (iv_dim idx) (iv_vectors idx) (the (iv_idToRow idx x))) xs))"
proof -
  have cds: "\<And>cd. cd \<in> set cds \<Longrightarrow> cd_Index cd < length (postingList idx)" using less by blast
  let ?L = "\<lambda>cd. postingList idx ! cd_Index cd"
  have xs': "xs = concat (map ?L cds)" by (simp add: xs comp_def)
  have mc: "concat (map (\<lambda>cd. map g (?L cd)) cds) = map g xs" for g :: "u64 \<Rightarrow> 'a" unfolding xs' by (simp add: map_concat comp_def)
  have cc: "concat (map (\<lambda>cd. concat (map g (?L cd))) cds) = concat (map g xs)" for g :: "u64 \<Rightarrow> 'a list"
    unfolding xs' by (induction cds) auto
  show "for_each (probe_codes query idx) cds ([], []) = Inr (xs, map (pq_dist query idx) xs)" if "usePQ idx"
    using for_each_append [of cds "probe_codes query idx" ?L "\<lambda>cd. map (pq_dist query idx) (?L cd)" "[]" "[]"]
      probe_codes_ok [OF inv(1) that inv(2) q cds] mc xs' by simp
  show "for_each (probe_vectors idx) cds ([], []) =
      Inr (xs, concat (map (\<lambda>x. row_of (iv_dim idx) (iv_vectors idx) (the (iv_idToRow idx x))) xs))" if "\<not> usePQ idx"
    using for_each_append [of cds "probe_vectors idx" ?L "\<lambda>cd. concat (map (\<lambda>x. row_of (iv_dim idx) (iv_vectors idx) (the (iv_idToRow idx x))) (?L cd))" "[]" "[]"]
      probe_vectors_ok [OF inv(1) that cds] cc xs' by simp
qed

lemma search_cells_ok:
  fixes query :: "'f::linordered_field list"
  assumes inv: "iv_inv idx" "built idx" and q: "length query = iv_dim idx" and k: "0 < k" and p: "kernels_agree (iv_plat e)"
  shows "\<exists>cs rs. search_cells e query k nprobe idx = Inr rs \<and> nearest_cells (env_km e idx) (the_km idx) query nprobe cs \<and>
    knn (cell_dist e query idx) (nat k) (probed idx cs) rs"
proof -
  note I = iv_invD [OF inv(1)]
  obtain km where km: "kmeans idx = Some km" "km_shape km" "km_Dim km = iv_dim idx" "km_K km = length (postingList idx)"
    using I(9) inv(2) by (auto simp: centroids_ok_def)
  obtain cds where cds: "NearestKCentroids (env_km e idx) km query nprobe = Inr cds" "nearest_cells (env_km e idx) km query nprobe (map cd_Index cds)"
    using NearestKCentroids_ok [OF km(2)] by blast
  define cs where "cs = map cd_Index cds"
  have cs: "distinct cs" "\<And>c. c \<in> set cs \<Longrightarrow> c < length (postingList idx)"
    using cds(2) km(4) unfolding nearest_cells_def cs_def by auto
  then have less: "\<And>cd. cd \<in> set cds \<Longrightarrow> cd_Index cd < length (postingList idx)" by (simp add: cs_def)
  define xs where "xs = concat (map ((!) (postingList idx)) (map cd_Index cds))"
  have xs: "distinct xs" "set xs = probed idx cs" using distinct_cells [OF inv(1) cs] by (simp_all add: xs_def cs_def)
  have "\<forall>cd \<in> set cds. cd_Index cd < length (postingList idx)" using less by blast
  note g = gather_cells [OF inv q this xs_def]
  have es: "for_each (\<lambda>cd n. go_bind (get_at (postingList idx) (cd_Index cd)) (\<lambda>l. Inr (n + length l))) cds 0 = Inr (length xs)"
    using estimated_size [OF less, of cds 0] by (simp add: xs_def comp_def)
  have "\<exists>rs. search_cells e query k nprobe idx = Inr rs \<and> knn (cell_dist e query idx) (nat k) (set xs) rs"
  proof (cases "xs = []")
    case True
    then show ?thesis using km(1) cds(1) es by (simp add: search_cells_def the_kmeans_def knn_def)
  next
    case ne: False
    show ?thesis
    proof (cases "usePQ idx")
      case True
      obtain rs where rs: "TopK (map (pq_dist query idx) xs) xs k = Inr rs" "knn (pq_dist query idx) (nat k) (set xs) rs"
        using TopK_knn [OF k xs(1)] by blast
      have "knn (cell_dist e query idx) (nat k) (set xs) rs" using rs(2) True by (simp add: cell_dist_def [abs_def])
      then show ?thesis using km(1) cds(1) es g(1) [OF True] rs(1) ne True by (simp add: search_cells_def the_kmeans_def)
    next
      case False
      define v where "v = (\<lambda>x. row_of (iv_dim idx) (iv_vectors idx) (the (iv_idToRow idx x)))"
      obtain f where f: "GetDistanceFunc (iv_metric idx) = Some f" using I(4) by blast
      have lv: "length (v x) = iv_dim idx" if "x \<in> set xs" for x
      proof -
        obtain c where "c \<in> set cs" "x \<in> set (postingList idx ! c)" using \<open>x \<in> set xs\<close> xs(2) by (auto simp: probed_def)
        then obtain row where "iv_idToRow idx x = Some row" using listed(2) [OF inv(1) cs(2)] by blast
        then show ?thesis using main_row(2) [OF inv(1) False] by (simp add: v_def)
      qed
      have r1: "row_of (iv_dim idx) (concat (map v xs)) i = v (xs ! i)" if "i < length xs" for i
        by (rule concat_rows(1) [OF _ that]) (rule lv)
      have cd: "cell_dist e query idx x = apply_metric (rt32 (iv_plat e)) f query (v x)" for x
        using f False by (simp add: cell_dist_def env_distance_def v_def)
      have rows: "map (\<lambda>i. apply_metric (rt32 (iv_plat e)) f query (row_of (iv_dim idx) (concat (map v xs)) i)) [0..<length xs] = map (cell_dist e query idx) xs"
        by (intro nth_equalityI) (simp_all add: r1 cd)
      have "length (concat (map v xs)) = length xs * iv_dim idx"
        by (rule concat_rows(2)) (use lv ne in auto)
      then have len: "length xs * iv_dim idx \<le> length (concat (map v xs))" by simp
      have b: "BatchDistance (iv_plat e) query (concat (map v xs)) (length xs) (iv_dim idx) (iv_metric idx) (replicate (length xs) 0) =
          Inr (map (cell_dist e query idx) xs)"
        using BatchDistance_rows [OF p q I(1) len _ f, of "replicate (length xs) 0"] rows by simp
      obtain rs where rs: "TopK (map (cell_dist e query idx) xs) xs k = Inr rs" "knn (cell_dist e query idx) (nat k) (set xs) rs"
        using TopK_knn [OF k xs(1)] by blast
      then show ?thesis using km(1) cds(1) es g(2) [OF False] b ne False
        by (simp add: search_cells_def the_kmeans_def v_def)
    qed
  qed
  then show ?thesis using cds(2) xs(2) km(1) by (auto simp: the_km_def cs_def)
qed

definition iv_dist :: "'f::linordered_field ivf_env \<Rightarrow> 'f list \<Rightarrow> 'f IVFIndex \<Rightarrow> u64 \<Rightarrow> 'f" where
  "iv_dist e q idx x = (if x \<in> dom (iv_idToRow idx) then cell_dist e q idx x else env_distance e idx q (the (fi_vecs (dirty idx) x)))"

lemma knn_score: "knn D k S rs \<Longrightarrow> knn D k S (map (\<lambda>r. r\<lparr>Score := g r\<rparr>) rs)"
  by (auto simp: knn_def comp_def image_iff)

lemma probed_main:
  assumes "iv_inv idx" "\<And>c. c \<in> set cs \<Longrightarrow> c < length (postingList idx)"
  shows "probed idx cs \<subseteq> dom (iv_idToRow idx)"
  using listed(2) [OF assms(1)] assms(2) unfolding probed_def by blast

lemma empty_main:
  assumes "iv_inv idx" "iv_count idx = 0"
  shows "iv_idToRow idx = Map.empty"
proof (rule ext)
  fix x
  have "iv_idToRow idx x \<noteq> Some r" for r
    using iv_invD(6) [OF assms(1)] fi_invD(6) [of "iv_main idx" x r] fi_invD(6) [of "iv_codes (pq_M (pq_of idx)) idx" x r] assms(2)
    by (auto simp: rows_ok_def split: if_splits)
  then show "iv_idToRow idx x = None" by (cases "iv_idToRow idx x") auto
qed

lemma iv_Search_ok:
  fixes query :: "'f::linordered_field list"
  assumes inv: "iv_inv idx" and q: "length query = iv_dim idx" and k: "0 < k" and p: "kernels_agree (iv_plat e)" and ctx: "\<And>c. ctx c = None"
  shows "\<exists>cs rs. iv_Search e ctx buf query k nprobe idx = Inr (Inr rs) \<and>
    (if built idx then nearest_cells (env_km e idx) (the_km idx) query (if nprobe \<le> 0 then iv_nprobe idx else nat nprobe) cs else cs = []) \<and>
    knn (iv_dist e query idx) (nat k) (probed idx cs \<union> dom (fi_vecs (dirty idx))) rs \<and>
    (\<forall>r \<in> set rs. Score r = ScoreFromDistance (rt32 (iv_plat e)) (Distance r) (iv_metric idx))"
proof -
  note I = iv_invD [OF inv]
  define np where "np = (if nprobe \<le> 0 then iv_nprobe idx else nat nprobe)"
  obtain f where f: "GetDistanceFunc (iv_metric idx) = Some f" using I(4) by blast
  have "\<exists>cs rs. (if built idx \<and> 0 < iv_count idx then search_cells e query k np idx else Inr []) = Inr rs \<and>
      (if built idx then nearest_cells (env_km e idx) (the_km idx) query np cs else cs = []) \<and> knn (cell_dist e query idx) (nat k) (probed idx cs) rs"
  proof (cases "built idx")
    case True
    obtain cs rs where s: "search_cells e query k np idx = Inr rs" "nearest_cells (env_km e idx) (the_km idx) query np cs"
      "knn (cell_dist e query idx) (nat k) (probed idx cs) rs" using search_cells_ok [OF inv True q k p, where nprobe = np] by blast
    show ?thesis
    proof (cases "iv_count idx = 0")
      case 0: True
      have "\<And>c. c \<in> set cs \<Longrightarrow> c < length (postingList idx)"
        using s(2) I(9) True by (auto simp: nearest_cells_def centroids_ok_def the_km_def)
      then have "probed idx cs = {}" using probed_main [OF inv, of cs] empty_main [OF inv 0] by auto
      then show ?thesis using True 0 s(2) by (intro exI [of _ cs] exI [of _ "[]"]) (simp add: knn_def)
    qed (use True s in auto)
  qed (simp add: knn_def probed_def)
  then obtain cs rs where c: "(if built idx \<and> 0 < iv_count idx then search_cells e query k np idx else Inr []) = Inr rs"
    "if built idx then nearest_cells (env_km e idx) (the_km idx) query np cs else cs = []" "knn (cell_dist e query idx) (nat k) (probed idx cs) rs" by blast
  have main: "probed idx cs \<subseteq> dom (iv_idToRow idx)"
    by (rule probed_main [OF inv]) (use c(2) I(9) in \<open>auto simp: nearest_cells_def centroids_ok_def the_km_def split: if_splits\<close>)
  have fd: "GetDistanceFunc (fi_metric (dirty idx)) = Some f" "length query = fi_dim (dirty idx)" using f q I(13,14) by simp_all
  obtain bs where b: "Search (iv_plat e) ctx buf query k (dirty idx) = Inr (Inr bs)"
    "exact_knn (rt32 (iv_plat e)) (iv_metric idx) query k (fi_vecs (dirty idx)) bs"
    using Search_ok [where ctx = ctx and buf = buf, OF I(12) p fd(2) fd(1) k ctx] I(14) by auto
  have kb: "knn (iv_dist e query idx) (nat k) (dom (fi_vecs (dirty idx))) bs"
    unfolding knn_def
  proof (intro conjI ballI impI)
    have D: "iv_dist e query idx x = apply_metric (rt32 (iv_plat e)) (the (GetDistanceFunc (iv_metric idx))) query v" if "fi_vecs (dirty idx) x = Some v" for x v
      using that I(11) by (auto simp: iv_dist_def env_distance_def disjoint_iff simp del: dom_fi_vecs)
    fix r assume r: "r \<in> set bs"
    then obtain v where v: "fi_vecs (dirty idx) (ID r) = Some v" "Distance r = apply_metric (rt32 (iv_plat e)) (the (GetDistanceFunc (iv_metric idx))) query v"
      using b(2) unfolding exact_knn_def by blast
    then show "ID r \<in> dom (fi_vecs (dirty idx))" "Distance r = iv_dist e query idx (ID r)" using D by (blast, simp)
    fix i assume i: "i \<in> dom (fi_vecs (dirty idx))" "i \<notin> ID ` set bs"
    then obtain w where "fi_vecs (dirty idx) i = Some w" by blast
    then show "Distance r \<le> iv_dist e query idx i" using b(2) i(2) r D unfolding exact_knn_def by metis
  qed (use b(2) in \<open>simp_all add: exact_knn_def\<close>)
  have kc: "knn (iv_dist e query idx) (nat k) (probed idx cs) rs"
    using c(3) main by (subst knn_cong [where D' = "cell_dist e query idx"]) (auto simp: iv_dist_def)
  have fin: "finite (probed idx cs)" "finite (dom (fi_vecs (dirty idx)))" "probed idx cs \<inter> dom (fi_vecs (dirty idx)) = {}"
    using count_card [OF I(12)] main I(11) by (auto simp: probed_def simp del: dom_fi_vecs)
  obtain ms where m: "iv_mergeResults rs bs k = Inr ms" "knn (iv_dist e query idx) (nat k) (probed idx cs \<union> dom (fi_vecs (dirty idx))) ms"
    using merge_knn [OF kc kb fin k] by blast
  let ?g = "\<lambda>r. ScoreFromDistance (rt32 (iv_plat e)) (Distance r) (iv_metric idx)"
  have "iv_Search e ctx buf query k nprobe idx = Inr (Inr (map (\<lambda>r. r\<lparr>Score := ?g r\<rparr>) ms))"
    using q k c(1) b(1) m(1) unfolding iv_Search_def np_def [symmetric] Let_def by simp
  then show ?thesis using c(2) knn_score [OF m(2), of ?g] unfolding np_def [symmetric]
    by (intro exI [of _ cs] exI [of _ "map (\<lambda>r. r\<lparr>Score := ?g r\<rparr>) ms"]) simp
qed

end
