(* ===== verification/Ivf_Rebuild.thy ===== *)
theory Ivf_Rebuild
  imports Ivf_Search
begin

section \<open>The inverted file index: rebuild\<close>

text \<open>
  The sections of a rebuild keep every slice within its bounds: draining copies all vectors and identifiers into
  the job, the computation returns cells for them, and swapping them in gives an index that satisfies the
  invariant and stores the vectors of the job.
\<close>

subsection \<open>Draining for a rebuild\<close>

lemma copy_at: "length src = b - a \<Longrightarrow> a \<le> b \<Longrightarrow> b \<le> length xs \<Longrightarrow> copy_into xs a b src = Inr (take a xs @ src @ drop b xs)"
  by (simp add: copy_into_def)

lemma row_of_glue: "length xs = m * d \<Longrightarrow> row_of d (xs @ ys) r = (if r < m then row_of d xs r else row_of d ys (r - m))"
  using row_end [of r m d] by (auto simp: row_of_append row_of_def diff_mult_distrib)

lemma main_rows:
  assumes "iv_inv idx"
  shows "distinct (take (iv_count idx) (iv_ids idx))" "dom (iv_idToRow idx) = set (take (iv_count idx) (iv_ids idx))"
    "j < iv_count idx \<Longrightarrow> iv_idToRow idx (iv_ids idx ! j) = Some j" "iv_count idx \<le> iv_capacity idx" "length (iv_ids idx) = iv_capacity idx"
proof -
  have "\<exists>s :: 'a FlatIndex. fi_inv s \<and> ids s = iv_ids idx \<and> count s = iv_count idx \<and> idToRow s = iv_idToRow idx \<and> capacity s = iv_capacity idx
      \<or> (\<exists>s :: u8 FlatIndex. fi_inv s \<and> ids s = iv_ids idx \<and> count s = iv_count idx \<and> idToRow s = iv_idToRow idx \<and> capacity s = iv_capacity idx)"
    using iv_invD(6) [OF assms] unfolding rows_ok_def by (metis iv_main_simps(3,4,6,7,10,11,13,14))
  then show "distinct (take (iv_count idx) (iv_ids idx))" "dom (iv_idToRow idx) = set (take (iv_count idx) (iv_ids idx))"
    "j < iv_count idx \<Longrightarrow> iv_idToRow idx (iv_ids idx ! j) = Some j" "iv_count idx \<le> iv_capacity idx" "length (iv_ids idx) = iv_capacity idx"
    using live_rows(1,2) fi_invD(3,4,5) dom_fi_vecs by metis+
qed

definition job_ok :: "'f IVFIndex \<Rightarrow> 'f job \<Rightarrow> bool" where
  \<comment> \<open>the job has every identifier stored, once, with its vector\<close>
  "job_ok idx j \<longleftrightarrow> length (allVecs j) = totalN j * iv_dim idx \<and> length (allIDs j) = totalN j \<and> distinct (allIDs j) \<and>
     set (allIDs j) = dom (iv_vecs idx) \<and>
     (\<not> usePQ idx \<longrightarrow> (\<forall>i < totalN j. iv_vecs idx (allIDs j ! i) = Some (row_of (iv_dim idx) (allVecs j) i)))"

lemma decode_rows_ok:
  assumes inv: "iv_inv idx" and b: "usePQ idx" "built idx" and i: "i < iv_count idx" and v: "length vecs = n * iv_dim idx" "i < n"
  shows "\<exists>vecs'. decode_rows idx i vecs = Inr vecs' \<and> length vecs' = n * iv_dim idx"
proof -
  note I = iv_invD [OF inv] and M = main_rows [OF inv]
  obtain km where km: "kmeans idx = Some km" "km_shape km" "km_Dim km = iv_dim idx" "km_K km = length (postingList idx)"
    using I(9) b(2) by (auto simp: centroids_ok_def)
  have pq: "iv_pq idx = Some (pq_of idx)" "pq_ok (pq_of idx)" "trained (pq_of idx)"
    using I(5) b by (simp_all add: quantizer_ok_def)
  define x where "x = iv_ids idx ! i"
  have x: "get_at (iv_ids idx) i = Inr x" "iv_idToRow idx x = Some i" using M(3) [OF i] M(4,5) i by (simp_all add: x_def get_at_def)
  obtain c where c: "clusterOf idx x = Some c" "c < km_K km" using x(2) I(7) lists_okD(1) [OF I(8)] km(4) by (metis domD domI)
  obtain v where d: "Decode (row_codes idx x) (pq_of idx) = Inr (Inr v)" using Decode_ok [OF pq(2,3) codes_row(2) [OF inv b(1) x(2)]] by blast
  have "i * iv_dim idx + iv_dim idx \<le> length vecs" using row_end [OF v(2), of "iv_dim idx"] v(1) by simp
  then obtain w where "copy_into vecs (i * iv_dim idx) (i * iv_dim idx + iv_dim idx) (map2 (+) (cent km c) v) = Inr w" "length w = length vecs"
    using copy_into_length [of "i * iv_dim idx" "i * iv_dim idx + iv_dim idx" vecs "map2 (+) (cent km c) v"] by auto
  then show ?thesis using x(1) km(1) pq(1) c cent_ok [OF km(2) c(2)] codes_row(1) [OF inv b(1) x(2)] d v(1)
    by (simp add: decode_rows_def the_kmeans_def the_pq_def map_get_def km(3))
qed

lemma rebuild_drain_ok:
  fixes idx :: "'f::linordered_field IVFIndex"
  assumes inv: "iv_inv idx"
  shows "\<exists>fresh j. rebuild_drain idx = Inr (idx\<lparr>dirty := fresh\<rparr>, j) \<and> NewFlatIndex (int (iv_dim idx)) (iv_metric idx) = Inr fresh \<and> job_ok idx j"
proof -
  note I = iv_invD [OF inv] and M = main_rows [OF inv] and L = live_rows [OF iv_invD(12) [OF inv]]
  define d where "d = iv_dim idx"
  define c where "c = iv_count idx"
  define dc where "dc = count (dirty idx)"
  define n where "n = c + dc"
  note F = fi_invD [OF I(12)]
  define dv where "dv = take (dc * d) (vectors (dirty idx))"
  define di where "di = take dc (ids (dirty idx))"
  have "dc * d \<le> length (vectors (dirty idx))" using F(2,4) I(13) by (auto simp: dc_def d_def intro: mult_le_mono1)
  then have dv: "length dv = dc * d" "slice (vectors (dirty idx)) 0 (dc * d) = Inr dv" by (simp_all add: dv_def slice_def)
  have di: "length di = dc" "slice (ids (dirty idx)) 0 dc = Inr di" using F(3,4) by (simp_all add: di_def dc_def slice_def)
  have av: "AllVectors (dirty idx) = Inr (di, dv, dc)" using dv(2) di(2) I(13) by (simp add: AllVectors_def dc_def d_def)
  obtain f where f: "NewFlatIndex (int d) (iv_metric idx) = Inr (f :: 'f FlatIndex)"
    using I(1,4) by (auto simp: NewFlatIndex_def d_def)
  define mk where "mk = (if usePQ idx \<and> built idx then for_each (decode_rows idx) [0..<c] (replicate (n * d) 0)
     else if 0 < c \<and> \<not> usePQ idx then go_bind (slice (iv_vectors idx) 0 (c * d)) (copy_into (replicate (n * d) 0) 0 (n * d))
     else Inr (replicate (n * d) 0))"
  have cd: "c * d \<le> n * d" by (simp add: n_def)
  have "\<exists>vecs. mk = Inr vecs \<and> length vecs = n * d \<and> (\<not> usePQ idx \<longrightarrow> take (c * d) vecs = take (c * d) (iv_vectors idx))"
  proof -
    consider "usePQ idx \<and> built idx" | "\<not> usePQ idx" "0 < c" | "usePQ idx" "\<not> built idx" | "\<not> usePQ idx" "c = 0" by blast
    then show ?thesis
    proof cases
      case 1
      have "\<exists>s. for_each (decode_rows idx) [0..<c] (replicate (n * d) 0) = Inr s \<and> length s = n * d"
      proof (rule for_range [where P = "\<lambda>_ s. length s = n * d"])
        fix i and s :: "'f list" assume "i < c" "length s = n * d"
        then show "\<exists>s'. decode_rows idx i s = Inr s' \<and> length s' = n * d"
          using decode_rows_ok [OF inv _ _ _ _, of i s n] 1 by (simp add: c_def d_def n_def)
      qed simp_all
      then show ?thesis using 1 by (simp add: mk_def)
    next
      case 2
      have "length (iv_vectors idx) = iv_capacity idx * d" using I(6) 2 fi_invD(2) [of "iv_main idx"] by (simp add: rows_ok_def d_def)
      then have "c * d \<le> length (iv_vectors idx)" using M(4) by (simp add: c_def)
      then have "slice (iv_vectors idx) 0 (c * d) = Inr (take (c * d) (iv_vectors idx))" "length (take (c * d) (iv_vectors idx)) = c * d"
        by (simp_all add: slice_def)
      then show ?thesis using 2 cd by (simp add: mk_def copy_into_def Let_def min_absorb2)
    qed (simp_all add: mk_def)
  qed
  then obtain v0 where v0: "mk = Inr v0" "length v0 = n * d" "\<not> usePQ idx \<longrightarrow> take (c * d) v0 = take (c * d) (iv_vectors idx)" by blast
  define vs where "vs = take (c * d) v0 @ dv"
  have "copy_into v0 (c * d) (n * d) dv = Inr (take (c * d) v0 @ dv @ drop (n * d) v0)"
    by (rule copy_at) (use v0(2) dv(1) cd in \<open>simp_all add: n_def algebra_simps\<close>)
  then have cv: "copy_into v0 (c * d) (n * d) dv = Inr vs" using v0(2) by (simp add: vs_def)
  define mi where "mi = take c (iv_ids idx)"
  have mi: "length mi = c" "slice (iv_ids idx) 0 c = Inr mi" using M(4,5) by (simp_all add: mi_def c_def slice_def)
  have ci: "copy_into (replicate n 0) 0 n mi = Inr (mi @ replicate dc 0)" using mi(1) by (simp add: copy_into_def n_def Let_def)
  have "copy_into (mi @ replicate dc 0) c n di = Inr (take c (mi @ replicate dc 0) @ di @ drop n (mi @ replicate dc 0))"
    by (rule copy_at) (use mi(1) di(1) in \<open>simp_all add: n_def\<close>)
  then have ci2: "copy_into (mi @ replicate dc 0) c n di = Inr (mi @ di)" using mi(1) by (simp add: n_def)
  define j where "j = \<lparr>allVecs = vs, allIDs = mi @ di, totalN = n\<rparr>"
  have eq: "rebuild_drain idx = Inr (idx\<lparr>dirty := f\<rparr>, j)"
    using v0(1) mi(2) ci dv di cv ci2 f unfolding mk_def n_def c_def d_def j_def
    by (simp add: rebuild_drain_def av Let_def slice_def)
  have dis: "set mi \<inter> set di = {}" using I(11) M(2) L(2) by (simp add: mi_def di_def c_def dc_def)
  have "job_ok idx j"
    unfolding job_ok_def
  proof (intro conjI impI allI)
    have len: "length (take (c * d) v0) = c * d" using v0(2) cd by simp
    show "length (allVecs j) = totalN j * iv_dim idx" using len dv(1) by (simp add: j_def vs_def n_def d_def algebra_simps)
    show "length (allIDs j) = totalN j" using mi(1) di(1) by (simp add: j_def n_def)
    show "distinct (allIDs j)" using M(1) L(1) dis by (simp add: j_def mi_def di_def c_def dc_def)
    show "set (allIDs j) = dom (iv_vecs idx)" using M(2) L(2) by (auto simp: j_def iv_vecs_def mi_def di_def c_def dc_def)
    fix i assume nq: "\<not> usePQ idx" and i: "i < totalN j"
    show "iv_vecs idx (allIDs j ! i) = Some (row_of (iv_dim idx) (allVecs j) i)"
    proof (cases "i < c")
      case True
      define x where "x = iv_ids idx ! i"
      have x: "allIDs j ! i = x" "x \<in> set mi" using True mi(1) M(4,5) nth_mem [of i mi] by (simp_all add: j_def nth_append mi_def x_def c_def)
      then have "fi_vecs (dirty idx) x = None" using dis L(2) unfolding di_def dc_def by (metis disjoint_iff domIff)
      then have "iv_vecs idx x = Some (row_of d (iv_vectors idx) i)"
        using M(3) True nq by (simp add: iv_vecs_def main_vecs_def x_def c_def d_def map_add_def)
      moreover have "row_of d vs i = row_of d (iv_vectors idx) i"
        using True v0(3) nq row_of_glue [OF len, of dv i] row_of_take [OF True, of d "iv_vectors idx"] by (simp add: vs_def)
      ultimately show ?thesis using x(1) by (simp add: j_def d_def)
    next
      case False
      then have k: "i - c < dc" using i by (simp add: j_def n_def)
      have "allIDs j ! i = ids (dirty idx) ! (i - c)" using False mi(1) k by (simp add: j_def nth_append di_def)
      moreover have "fi_vecs (dirty idx) (ids (dirty idx) ! (i - c)) = Some (row_of d (vectors (dirty idx)) (i - c))"
        using L(3) k I(13) by (simp add: dc_def d_def)
      moreover have "row_of d vs i = row_of d (vectors (dirty idx)) (i - c)"
        using False row_of_glue [OF len, of dv i] row_of_take [OF k, of d "vectors (dirty idx)"] by (simp add: vs_def dv_def)
      ultimately show ?thesis by (simp add: j_def d_def iv_vecs_def)
    qed
  qed
  with eq f show ?thesis by (auto simp: d_def)
qed

subsection \<open>Computing the new cells\<close>

lemma lists_ok_add:
  assumes l: "lists_ok pl co" and c: "c < length pl" and x: "x \<notin> dom co"
  shows "lists_ok (pl[c := pl ! c @ [x]]) (co(x \<mapsto> c))"
  unfolding lists_ok_def
proof (intro conjI allI impI ballI)
  note L = lists_okD [OF l]
  fix y c' assume y: "(co(x \<mapsto> c)) y = Some c'"
  then have "y = x \<and> c' = c \<or> co y = Some c'" by (auto split: if_splits)
  then show "c' < length (pl[c := pl ! c @ [x]])" "y \<in> set (pl[c := pl ! c @ [x]] ! c')"
    using L(1,2) [of y c'] c by (auto simp: nth_list_update)
next
  note L = lists_okD [OF l]
  fix c' assume c': "c' < length (pl[c := pl ! c @ [x]])"
  have nx: "x \<notin> set (pl ! c')" using L(4) [of c' x] c' x by auto
  show "distinct (pl[c := pl ! c @ [x]] ! c')" using L(3) [of c'] nx c c' by (cases "c' = c") simp_all
  fix y assume "y \<in> set (pl[c := pl ! c @ [x]] ! c')"
  then have "y = x \<and> c' = c \<or> y \<in> set (pl ! c')" using c by (cases "c' = c") auto
  then show "(co(x \<mapsto> c)) y = Some c'" using L(4) [of c' y] nx c' by auto
qed

lemma assign_lists_ok:
  assumes "distinct xs" "length asg = length xs" "\<forall>i < length xs. asg ! i < k"
  shows "\<exists>pl co. assign_lists xs asg k = Inr (pl, co) \<and> length pl = k \<and> lists_ok pl co \<and> dom co = set xs"
proof -
  let ?f = "\<lambda>i (pl, co). go_bind (get_at asg i) (\<lambda>cluster. go_bind (get_at xs i) (\<lambda>x. go_bind (get_at pl cluster) (\<lambda>l.
       go_bind (put_at pl cluster (l @ [x])) (\<lambda>pl. Inr (pl, co(x \<mapsto> cluster))))))"
  define P where "P = (\<lambda>i s. case s of (pl, co) \<Rightarrow> length pl = k \<and> lists_ok pl co \<and> dom (co :: u64 \<rightharpoonup> nat) = set (take i xs))"
  have "\<exists>s. for_each ?f [0..<length asg] (replicate k [], Map.empty) = Inr s \<and> P (length asg) s"
  proof (rule for_range [where P = P])
    show "P 0 (replicate k [], Map.empty)" by (simp add: P_def lists_ok_def)
  next
    fix i and s :: "u64 list list \<times> (u64 \<rightharpoonup> nat)" assume i: "i < length asg" and s: "P i s"
    obtain pl co where sp: "s = (pl, co)" by (cases s)
    have p: "length pl = k" "lists_ok pl co" "dom co = set (take i xs)" using s by (simp_all add: P_def sp)
    define c where "c = asg ! i"
    define x where "x = xs ! i"
    have cx: "c < k" "i < length xs" using i assms(2,3) by (simp_all add: c_def)
    have new: "x \<notin> dom co" using assms(1) cx(2) unfolding p(3) x_def by (auto simp: in_set_conv_nth nth_eq_iff_index_eq)
    have "lists_ok (pl[c := pl ! c @ [x]]) (co(x \<mapsto> c))" using lists_ok_add [OF p(2) _ new] cx(1) p(1) by simp
    moreover have "dom (co(x \<mapsto> c)) = set (take (Suc i) xs)" using p(3) cx(2) by (simp add: x_def take_Suc_conv_app_nth)
    ultimately show "\<exists>s'. ?f i s = Inr s' \<and> P (Suc i) s'"
      using i cx p(1) by (simp add: sp get_at_def put_at_def P_def c_def [symmetric] x_def [symmetric])
  qed simp
  then show ?thesis using assms(2) by (auto simp: assign_lists_def P_def)
qed

definition trained_from :: "'f IVFIndex \<Rightarrow> 'f IVFIndex \<Rightarrow> bool" where
  \<comment> \<open>the second state has another quantizer at most, of the same shape, and it is trained\<close>
  "trained_from idx idx' \<longleftrightarrow> idx' = idx\<lparr>iv_pq := iv_pq idx'\<rparr> \<and> (\<not> usePQ idx \<longrightarrow> idx' = idx) \<and>
     (usePQ idx \<longrightarrow> iv_pq idx' = Some (pq_of idx') \<and> pq_ok (pq_of idx') \<and> trained (pq_of idx') \<and>
        pq_Dim (pq_of idx') = pq_Dim (pq_of idx) \<and> pq_M (pq_of idx') = pq_M (pq_of idx))"

lemma train_and_encode_ok:
  fixes idx :: "'f::linordered_field IVFIndex"
  assumes inv: "iv_inv idx" and u: "usePQ idx" and j: "length (allVecs j) = totalN j * iv_dim idx" "0 < totalN j"
    and km: "km_shape km" "km_Dim km = iv_dim idx" and asg: "cells_ok (km_K km) (totalN j) asg" and draws: "set (iv_draws e (totalN j)) \<subseteq> {..<totalN j}"
  shows "\<exists>r. train_and_encode e j km asg idx = Inr r \<and> (r = None \<longrightarrow> \<not> trained (pq_of idx)) \<and>
    (\<forall>idx' cs. r = Some (idx', cs) \<longrightarrow> trained_from idx idx' \<and> length cs = totalN j * pq_M (pq_of idx))"
proof -
  note I = iv_invD [OF inv]
  define d where "d = iv_dim idx"
  define n where "n = totalN j"
  define pq where "pq = pq_of idx"
  have pq: "iv_pq idx = Some pq" "pq_ok pq" "pq_Dim pq = d" using I(5) u by (simp_all add: quantizer_ok_def pq_def d_def)
  have a: "length asg = n" "\<And>i. i < n \<Longrightarrow> asg ! i < km_K km" using asg by (simp_all add: cells_ok_def n_def)
  let ?f = "\<lambda>i res. go_bind (get_at asg i) (\<lambda>cluster. go_bind (nth_row d (Centroids km) cluster) (\<lambda>centroid.
          go_bind (nth_row d (allVecs j) i) (\<lambda>v. set_row d res i (map2 (-) v centroid))))"
  have "\<exists>s. for_each ?f [0..<n] (replicate (n * d) 0) = Inr s \<and> length s = n * d"
  proof (rule for_range [where P = "\<lambda>_ s. length s = n * d"])
    fix i and s :: "'f list" assume i: "0 \<le> i" "i < n" "length s = n * d"
    have c: "nth_row d (Centroids km) (asg ! i) = Inr (cent km (asg ! i))" "length (cent km (asg ! i)) = d"
      using cent_ok [OF km(1) a(2) [OF i(2)]] length_row [OF a(2) [OF i(2)], of "km_Dim km" "Centroids km"] km
      by (simp_all add: cent_def km_shape_def d_def)
    have le: "n * d \<le> length (allVecs j)" "n * d \<le> length s" using i(3) j(1) by (simp_all add: n_def d_def)
    have "length (map2 (-) (row_of d (allVecs j) i) (cent km (asg ! i))) = d" using c(2) length_row [OF i(2) le(1)] by simp
    from set_row_ok [OF i(2) le(2) this] obtain s' where "set_row d s i (map2 (-) (row_of d (allVecs j) i) (cent km (asg ! i))) = Inr s'" "length s' = length s" by blast
    then show "\<exists>s'. ?f i s = Inr s' \<and> length s' = n * d" using i a c(1) nth_row_ok [OF i(2) le(1)] by (simp add: get_at_def)
  qed simp_all
  then obtain res where res: "for_each ?f [0..<n] (replicate (n * d) 0) = Inr res" "length res = n * d" by blast
  have "\<exists>r. (if IsTrained pq then Inr (Some (pq, None)) else Train (iv_maxf e) (iv_draws e n) res n 25 pq) = Inr r \<and> (r = None \<longrightarrow> \<not> trained pq) \<and>
      (\<forall>pq' err. r = Some (pq', err) \<longrightarrow> pq_ok pq' \<and> trained pq' \<and> pq_Dim pq' = pq_Dim pq \<and> pq_M pq' = pq_M pq)"
    using Train_ok [OF pq(2), of n res "iv_draws e n" "iv_maxf e" 25] res(2) pq(2,3) j(2) draws by (auto simp: IsTrained_def n_def)
  then obtain r where r: "(if IsTrained pq then Inr (Some (pq, None)) else Train (iv_maxf e) (iv_draws e n) res n 25 pq) = Inr r"
    "r = None \<longrightarrow> \<not> trained pq" "\<forall>pq' err. r = Some (pq', err) \<longrightarrow> pq_ok pq' \<and> trained pq' \<and> pq_Dim pq' = pq_Dim pq \<and> pq_M pq' = pq_M pq" by blast
  show ?thesis
  proof (cases r)
    case None
    then have "train_and_encode e j km asg idx = Inr None" using pq(1) res(1) r(1)
      unfolding train_and_encode_def d_def [symmetric] n_def [symmetric] Let_def by (simp add: the_pq_def)
    then show ?thesis using None r(2) by (simp add: pq_def)
  next
    case (Some p)
    obtain pq' err where p: "p = (pq', err)" by (cases p)
    have q: "pq_ok pq'" "trained pq'" "pq_Dim pq' = pq_Dim pq" "pq_M pq' = pq_M pq" using r(3) Some p by auto
    let ?g = "\<lambda>i cs. go_bind (nth_row d res i) (\<lambda>v. go_bind (Encode (iv_maxf e) v pq') (\<lambda>codes.
              set_row (pq_M pq') cs i (case codes of Inl _ \<Rightarrow> [] | Inr c \<Rightarrow> c)))"
    have "\<exists>s. for_each ?g [0..<n] (replicate (n * pq_M pq') 0) = Inr s \<and> length s = n * pq_M pq'"
    proof (rule for_range [where P = "\<lambda>_ s. length s = n * pq_M pq'"])
      fix i and s :: "u8 list" assume i: "0 \<le> i" "i < n" "length s = n * pq_M pq'"
      have v: "nth_row d res i = Inr (row_of d res i)" "length (row_of d res i) = pq_Dim pq'"
        using nth_row_ok [OF i(2), of d res] length_row [OF i(2), of d res] res(2) q(3) pq(3) by simp_all
      obtain cs where cs: "Encode (iv_maxf e) (row_of d res i) pq' = Inr (Inr cs)" "length cs = pq_M pq'" using Encode_ok [OF q(1,2) v(2)] by blast
      from set_row_ok [OF i(2) _ cs(2), of s] i(3) obtain s' where "set_row (pq_M pq') s i cs = Inr s'" "length s' = length s" by auto
      then show "\<exists>s'. ?g i s = Inr s' \<and> length s' = n * pq_M pq'" using i(3) v(1) cs(1) by simp
    qed simp_all
    then obtain cs where cs: "for_each ?g [0..<n] (replicate (n * pq_M pq') 0) = Inr cs" "length cs = n * pq_M pq'" by blast
    have "train_and_encode e j km asg idx = Inr (Some (idx\<lparr>iv_pq := Some pq'\<rparr>, cs))" using pq(1) res(1) r(1) Some p cs(1)
      unfolding train_and_encode_def d_def [symmetric] n_def [symmetric] Let_def by (simp add: the_pq_def)
    then show ?thesis using cs(2) q u by (simp add: trained_from_def pq_of_def pq_def n_def)
  qed
qed

definition result_ok :: "'f IVFIndex \<Rightarrow> 'f job \<Rightarrow> 'f rebuild_result \<Rightarrow> bool" where
  "result_ok idx j r \<longleftrightarrow> km_shape (rb_km r) \<and> km_Dim (rb_km r) = iv_dim idx \<and> km_K (rb_km r) = length (rb_postings r) \<and>
     lists_ok (rb_postings r) (rb_clusterOf r) \<and> dom (rb_clusterOf r) = set (allIDs j) \<and>
     (usePQ idx \<longrightarrow> length (rb_codes r) = totalN j * pq_M (pq_of idx))"

definition platform_ok :: "'f ivf_env \<Rightarrow> bool" where
  "platform_ok e \<longleftrightarrow> 0 < iv_cpus e \<and> (\<forall>n > 0. iv_intn e n < n \<and> set (iv_draws e n) \<subseteq> {..<n})"

lemma rebuild_compute_ok:
  fixes idx :: "'f::linordered_field IVFIndex"
  assumes inv: "iv_inv idx" and e: "platform_ok e" and n: "0 < totalN j"
    and j: "length (allVecs j) = totalN j * iv_dim idx" "length (allIDs j) = totalN j" "distinct (allIDs j)"
  shows "\<exists>r. rebuild_compute e ctx j idx = Inr r \<and> (r = None \<longrightarrow> usePQ idx \<and> \<not> trained (pq_of idx)) \<and>
    (\<forall>idx' err. r = Some (idx', Cancelled err) \<longrightarrow> idx' = idx \<and> (\<exists>i. ctx i \<noteq> None)) \<and>
    (\<forall>idx' rb. r = Some (idx', Computed rb) \<longrightarrow> trained_from idx idx' \<and> result_ok idx j rb)"
proof (cases "ctx 0")
  case (Some err)
  then show ?thesis by (auto simp: rebuild_compute_def)
next
  case None
  note I = iv_invD [OF inv]
  define K where "K = (if totalN j < iv_k idx then totalN j else iv_k idx)"
  define km0 where "km0 = (NewKMeans K (iv_dim idx) :: 'f KMeans)"
  have p: "km_K km0 = K" "km_Dim km0 = iv_dim idx" "MaxIter km0 = 200" by (simp_all add: km0_def NewKMeans_def)
  have pre: "0 < km_K km0" "km_K km0 \<le> totalN j" "0 < km_Dim km0" "totalN j * km_Dim km0 \<le> length (allVecs j)"
    "intn (env_km e idx) (totalN j) < totalN j" "0 < numCPU (env_km e idx)" "MaxIter km0 = 200"
    using n I(1,2) j(1) e by (simp_all add: p K_def env_km_def platform_ok_def)
  obtain r km it where f: "FitCtx (env_km e idx) (\<lambda>c. ctx (c + 1)) (allVecs j) (totalN j) km0 = Inr (r, km, it) \<and> km_shape km \<and> same_params km0 km \<and>
     (\<forall>asg. r = Some asg \<longrightarrow> cells_ok (km_K km0) (totalN j) asg \<and> (km_K km0 < totalN j \<longrightarrow> all_nearest (env_km e idx) km (allVecs j) asg \<or> it = 200)) \<and>
     (r = None \<longrightarrow> (\<exists>i. ctx (i + 1) \<noteq> None))"
    using FitCtx_ok [OF pre, of "\<lambda>c. ctx (c + 1)"] by (elim exE) (rule that)
  have km: "km_shape km" "km_Dim km = iv_dim idx" "km_K km = K" using f p by (simp_all add: same_params_def)
  have eq: "rebuild_compute e ctx j idx = (case (r, ctx (it + 1)) of
           (None, err) \<Rightarrow> Inr (Some (idx, Cancelled err))
         | (Some _, Some err) \<Rightarrow> Inr (Some (idx, Cancelled (Some err)))
         | (Some asg, None) \<Rightarrow>
             go_bind (if usePQ idx then train_and_encode e j km asg idx else Inr (Some (idx, []))) (\<lambda>r. case r of
               None \<Rightarrow> Inr None
             | Some (idx, codes) \<Rightarrow>
                 go_bind (assign_lists (allIDs j) asg K) (\<lambda>(pl, co).
                   Inr (Some (idx, Computed \<lparr>rb_km = km, rb_codes = codes, rb_postings = pl, rb_clusterOf = co\<rparr>)))))"
    using f None unfolding rebuild_compute_def K_def [symmetric] km0_def [symmetric] Let_def by (simp only: go_bind.simps option.case prod.case)
  show ?thesis
  proof (cases "r = None \<or> ctx (it + 1) \<noteq> None")
    case True
    then obtain err where "rebuild_compute e ctx j idx = Inr (Some (idx, Cancelled err))" "\<exists>i. ctx i \<noteq> None"
      using eq f by (auto split: option.splits)
    then show ?thesis by auto
  next
    case False
    then obtain asg where r: "r = Some asg" and c: "ctx (it + 1) = None" by auto
    have asg: "cells_ok (km_K km) (totalN j) asg" using f r km(3) p(1) by simp
    have "\<exists>t. (if usePQ idx then train_and_encode e j km asg idx else Inr (Some (idx, []))) = Inr t \<and> (t = None \<longrightarrow> usePQ idx \<and> \<not> trained (pq_of idx)) \<and>
        (\<forall>idx' cs. t = Some (idx', cs) \<longrightarrow> trained_from idx idx' \<and> (usePQ idx \<longrightarrow> length cs = totalN j * pq_M (pq_of idx)))"
    proof (cases "usePQ idx")
      case True
      then show ?thesis using train_and_encode_ok [OF inv True j(1) n km(1,2) asg, of e] e n by (auto simp: platform_ok_def)
    qed (simp add: trained_from_def)
    then obtain t where t: "(if usePQ idx then train_and_encode e j km asg idx else Inr (Some (idx, []))) = Inr t" "t = None \<longrightarrow> usePQ idx \<and> \<not> trained (pq_of idx)"
      "\<forall>idx' cs. t = Some (idx', cs) \<longrightarrow> trained_from idx idx' \<and> (usePQ idx \<longrightarrow> length cs = totalN j * pq_M (pq_of idx))" by blast
    have "length asg = length (allIDs j)" "\<forall>i < length (allIDs j). asg ! i < K" using asg km(3) j(2) by (simp_all add: cells_ok_def)
    then obtain pl co where a: "assign_lists (allIDs j) asg K = Inr (pl, co)" "length pl = K" "lists_ok pl co" "dom co = set (allIDs j)"
      using assign_lists_ok [OF j(3)] by blast
    show ?thesis
    proof (cases t)
      case None
      then show ?thesis using eq t(1,2) r c by simp
    next
      case (Some s)
      obtain idx' cs where s: "s = (idx', cs)" by (cases s)
      have "rebuild_compute e ctx j idx = Inr (Some (idx', Computed \<lparr>rb_km = km, rb_codes = cs, rb_postings = pl, rb_clusterOf = co\<rparr>))"
        using eq t(1) r c a(1) Some s by simp
      then show ?thesis using t(3) Some s a km by (simp add: result_ok_def)
    qed
  qed
qed

subsection \<open>Swapping the rebuilt index in\<close>

lemma fold_rows:
  assumes "distinct xs" "n \<le> length xs"
  shows "fold (\<lambda>i m. m(xs ! i \<mapsto> i)) [0..<n] Map.empty x = Some r \<longleftrightarrow> r < n \<and> xs ! r = x"
  using assms(2)
proof (induction n arbitrary: x r)
  case (Suc n)
  then show ?case using nth_eq_iff_index_eq [OF assms(1)] by (auto simp: less_Suc_eq)
qed simp

lemma fold_rows_dom: "distinct xs \<Longrightarrow> dom (fold (\<lambda>i m. m(xs ! i \<mapsto> i)) [0..<length xs] Map.empty) = set xs"
  by (auto simp: dom_def fold_rows in_set_conv_nth)

lemma fi_inv_rows:
  assumes "0 < d" "length vs = cp * d" "length is = cp" "n \<le> cp" "distinct xs" "length xs = n" "take n is = xs"
  shows "fi_inv \<lparr>fi_dim = d, fi_metric = mt, capacity = cp, count = n, vectors = vs, ids = is,
    idToRow = fold (\<lambda>i m. m(xs ! i \<mapsto> i)) [0..<n] Map.empty\<rparr>"
proof -
  have "is ! i = xs ! i" if "i < n" for i using that assms(7) by (metis nth_take)
  then show ?thesis using assms fold_rows [OF assms(5), of n] by (auto simp: fi_inv_def)
qed

lemma reserve_ok:
  assumes inv: "quantizer_ok idx" "rows_ok idx"
  shows "\<exists>idx' cs vs cp xs. reserve n idx = Inr idx' \<and> idx' = idx\<lparr>pqCodes := cs, iv_vectors := vs, iv_capacity := cp, iv_ids := xs\<rparr> \<and>
    n \<le> cp \<and> length xs = cp \<and> (usePQ idx \<longrightarrow> length cs = cp * pq_M (pq_of idx)) \<and> (\<not> usePQ idx \<longrightarrow> length vs = cp * iv_dim idx)"
proof (cases "n > iv_capacity idx")
  case True
  have n2: "n \<le> n * 2" by simp
  show ?thesis
  proof (cases "usePQ idx")
    case u: True
    define cs :: "u8 list" where "cs = replicate (n * 2 * pq_M (pq_of idx)) 0"
    define ys :: "u64 list" where "ys = replicate (n * 2) 0"
    have q: "iv_pq idx = Some (pq_of idx)" using inv(1) u unfolding quantizer_ok_def by blast
    have "reserve n idx = Inr (idx\<lparr>pqCodes := cs, iv_vectors := iv_vectors idx, iv_capacity := n * 2, iv_ids := ys\<rparr>)"
      using True u by (simp add: reserve_def the_pq_def q cs_def ys_def)
    moreover have "length ys = n * 2" "length cs = n * 2 * pq_M (pq_of idx)" by (simp_all add: cs_def ys_def)
    ultimately show ?thesis using n2 u by blast
  next
    case u: False
    define vs :: "'a list" where "vs = replicate (n * 2 * iv_dim idx) 0"
    define ys :: "u64 list" where "ys = replicate (n * 2) 0"
    have "reserve n idx = Inr (idx\<lparr>pqCodes := pqCodes idx, iv_vectors := vs, iv_capacity := n * 2, iv_ids := ys\<rparr>)"
      using True u by (simp add: reserve_def vs_def ys_def)
    moreover have "length ys = n * 2" "length vs = n * 2 * iv_dim idx" by (simp_all add: vs_def ys_def)
    ultimately show ?thesis using n2 u by blast
  qed
next
  case False
  have "reserve n idx = Inr idx" using False by (simp add: reserve_def)
  moreover have "idx = idx\<lparr>pqCodes := pqCodes idx, iv_vectors := iv_vectors idx, iv_capacity := iv_capacity idx, iv_ids := iv_ids idx\<rparr>" by simp
  moreover have "length (iv_ids idx) = iv_capacity idx" "usePQ idx \<longrightarrow> length (pqCodes idx) = iv_capacity idx * pq_M (pq_of idx)"
    "\<not> usePQ idx \<longrightarrow> length (iv_vectors idx) = iv_capacity idx * iv_dim idx"
    using inv(2) fi_invD(2,3) [of "iv_main idx"] fi_invD(2,3) [of "iv_codes (pq_M (pq_of idx)) idx"] by (simp_all add: rows_ok_def split: if_splits)
  moreover have "n \<le> iv_capacity idx" using False by simp
  ultimately show ?thesis by blast
qed

lemma no_redeletion:
  assumes "set del \<inter> dom (iv_idToRow idx) = {}"
  shows "for_each (\<lambda>x idx. case iv_idToRow idx x of None \<Rightarrow> Inr idx | Some row \<Rightarrow> delete_row x row idx) del idx = Inr idx"
  using assms by (induction del) (auto split: option.splits)

lemma rebuild_swap_ok:
  fixes idx :: "'f::linordered_field IVFIndex"
  assumes inv: "iv_inv idx" and tr: "usePQ idx \<Longrightarrow> trained (pq_of idx)" and r: "result_ok idx j r"
    and j: "length (allVecs j) = totalN j * iv_dim idx" "length (allIDs j) = totalN j" "distinct (allIDs j)" and del: "set del \<inter> set (allIDs j) = {}"
  shows "\<exists>idx'. rebuild_swap del j r idx = Inr idx' \<and> iv_same idx idx' \<and> dirty idx' = dirty idx \<and> built idx' \<and>
    dom (main_vecs idx') = set (allIDs j) \<and>
    (\<forall>i < totalN j. main_vecs idx' (allIDs j ! i) = Some (if usePQ idx then [] else row_of (iv_dim idx) (allVecs j) i)) \<and>
    (set (allIDs j) \<inter> dom (fi_vecs (dirty idx)) = {} \<longrightarrow> iv_inv idx')"
proof -
  note I = iv_invD [OF inv]
  define n where "n = totalN j"
  define d where "d = iv_dim idx"
  define M where "M = pq_M (pq_of idx)"
  define xs where "xs = allIDs j"
  have n: "length xs = n" "distinct xs" "length (allVecs j) = n * d" using j by (simp_all add: n_def d_def xs_def)
  obtain idx1 cs vs cp ys where res: "reserve n idx = Inr idx1" "idx1 = idx\<lparr>pqCodes := cs, iv_vectors := vs, iv_capacity := cp, iv_ids := ys\<rparr>"
    and cap: "n \<le> cp" "length ys = cp" "usePQ idx \<longrightarrow> length cs = cp * M" "\<not> usePQ idx \<longrightarrow> length vs = cp * d"
    using reserve_ok [OF I(5,6), of n] unfolding d_def M_def by blast
  define cs' where "cs' = (if usePQ idx then rb_codes r @ drop (n * M) cs else cs)"
  define vs' where "vs' = (if usePQ idx then [] else allVecs j @ drop (n * d) vs)"
  have le: "n * M \<le> cp * M" "n * d \<le> cp * d" using cap(1) by simp_all
  have cv: "(if usePQ idx1
        then go_bind (copy_into (pqCodes idx1) 0 (length (pqCodes idx1)) (rb_codes r)) (\<lambda>cs. Inr (idx1\<lparr>pqCodes := cs, iv_vectors := []\<rparr>))
        else go_bind (slice (allVecs j) 0 (n * iv_dim idx1)) (\<lambda>vs.
             go_bind (copy_into (iv_vectors idx1) 0 (length (iv_vectors idx1)) vs) (\<lambda>vs. Inr (idx1\<lparr>iv_vectors := vs\<rparr>)))) =
      Inr (idx1\<lparr>pqCodes := cs', iv_vectors := vs'\<rparr>)"
  proof (cases "usePQ idx")
    case True
    then have "length (rb_codes r) = n * M" "length cs = cp * M" using r cap(3) by (simp_all add: result_ok_def n_def M_def)
    then have "copy_into cs 0 (length cs) (rb_codes r) = Inr cs'" using le(1) True by (simp add: copy_into_def cs'_def min_absorb2)
    then show ?thesis using True by (simp add: res(2) vs'_def)
  next
    case False
    then have "length vs = cp * d" using cap(4) by simp
    then have "copy_into vs 0 (length vs) (allVecs j) = Inr vs'" using le(2) False n(3) by (simp add: copy_into_def vs'_def min_absorb2)
    then show ?thesis using False n(3) by (simp add: res(2) cs'_def slice_def d_def [symmetric])
  qed
  define ys' where "ys' = xs @ drop n ys"
  have cy: "copy_into ys 0 (length ys) xs = Inr ys'" using cap n(1) by (simp add: copy_into_def ys'_def min_absorb2)
  define idx2 where "idx2 = idx1\<lparr>pqCodes := cs', iv_vectors := vs', iv_ids := ys', iv_count := n,
      iv_idToRow := fold (\<lambda>i m. m(xs ! i \<mapsto> i)) [0..<n] Map.empty, kmeans := Some (rb_km r), postingList := rb_postings r, clusterOf := rb_clusterOf r, built := True\<rparr>"
  have dom: "dom (iv_idToRow idx2) = set xs" using fold_rows_dom [OF n(2)] n(1) by (simp add: idx2_def)
  have "rebuild_swap del j r idx = Inr idx2"
  proof -
    have ids1: "iv_ids idx1 = ys" by (simp add: res(2))
    have nd: "for_each (\<lambda>x idx. case iv_idToRow idx x of None \<Rightarrow> Inr idx | Some row \<Rightarrow> delete_row x row idx) del idx2 = Inr idx2"
      by (rule no_redeletion) (use dom del in \<open>simp add: xs_def\<close>)
    have sl: "slice xs 0 n = Inr xs" using n(1) by (simp add: slice_def)
    show ?thesis
      unfolding rebuild_swap_def n_def [symmetric] xs_def [symmetric] res(1) go_bind.simps cv sl
      using nd cy by (simp add: ids1 idx2_def Let_def)
  qed
  moreover have "iv_same idx idx2" "dirty idx2 = dirty idx" "built idx2" by (simp_all add: iv_same_def idx2_def res(2))
  moreover have "main_vecs idx2 (xs ! i) = Some (if usePQ idx then [] else row_of d (allVecs j) i)" if i: "i < n" for i
  proof -
    have "iv_idToRow idx2 (xs ! i) = Some i" using fold_rows [OF n(2), of n "xs ! i" i] n(1) i by (simp add: idx2_def)
    moreover have "row_of d (allVecs j @ drop (n * d) vs) i = row_of d (allVecs j) i" using row_of_glue [OF n(3)] i by simp
    ultimately show ?thesis by (simp add: main_vecs_def idx2_def res(2) vs'_def d_def)
  qed
  moreover have "iv_inv idx2" if disj: "set xs \<inter> dom (fi_vecs (dirty idx)) = {}"
    unfolding iv_inv_def
  proof (intro conjI)
    have pqe: "pq_of idx2 = pq_of idx" by (simp add: idx2_def res(2) pq_of_def)
    show "quantizer_ok idx2" using I(5) tr unfolding quantizer_ok_def pqe by (simp add: idx2_def res(2))
    have ys: "length ys' = cp" "take n ys' = xs" using cap n(1) by (simp_all add: ys'_def)
    show "rows_ok idx2"
    proof (cases "usePQ idx")
      case True
      have "0 < M" using I(5) True by (simp add: quantizer_ok_def pq_ok_def M_def)
      moreover have "length cs' = cp * M" using True r cap(3) le(1) by (simp add: cs'_def result_ok_def n_def M_def)
      ultimately have "fi_inv (iv_codes M idx2)" unfolding iv_codes_def idx2_def res(2)
        using fi_inv_rows [of M cs' cp ys' n xs "iv_metric idx"] ys cap(1) n by simp
      then show ?thesis using True unfolding rows_ok_def pqe M_def [symmetric] by (simp add: idx2_def res(2))
    next
      case False
      have "length vs' = cp * d" using False n(3) cap(4) le(2) by (simp add: vs'_def)
      then have "fi_inv (iv_main idx2)" unfolding iv_main_def idx2_def res(2)
        using fi_inv_rows [of d vs' cp ys' n xs "iv_metric idx"] ys cap(1) n I(1) by (simp add: d_def)
      then show ?thesis using False unfolding rows_ok_def by (simp add: idx2_def res(2))
    qed
    show "dom (clusterOf idx2) = dom (iv_idToRow idx2)" unfolding dom using r by (simp add: idx2_def result_ok_def xs_def)
    show "lists_ok (postingList idx2) (clusterOf idx2)" using r by (simp add: idx2_def result_ok_def)
    show "centroids_ok idx2" using r by (simp add: centroids_ok_def idx2_def res(2) result_ok_def)
    show "buffer_ok idx2" using I(10) by (simp add: buffer_ok_def idx2_def res(2))
    show "dom (iv_idToRow idx2) \<inter> dom (fi_vecs (dirty idx2)) = {}" unfolding dom using disj by (simp add: idx2_def res(2))
  qed (use I in \<open>simp_all add: idx2_def res(2)\<close>)
  ultimately show ?thesis using dom by (intro exI [of _ idx2]) (simp add: n_def d_def xs_def)
qed

subsection \<open>A rebuild with nothing in between\<close>

definition enumeration :: "(u64 set \<Rightarrow> u64 list) \<Rightarrow> bool" where
  \<comment> \<open>what is known of the order of \<open>range\<close>\<close>
  "enumeration ord \<longleftrightarrow> (\<forall>S. finite S \<longrightarrow> set (ord S) = S \<and> distinct (ord S))"

lemma trained_from_inv:
  assumes inv: "iv_inv idx" and t: "trained_from idx idx'"
  shows "iv_inv idx'" "iv_same idx idx'" "main_vecs idx' = main_vecs idx" "dirty idx' = dirty idx" "usePQ idx \<Longrightarrow> trained (pq_of idx')"
    "pq_M (pq_of idx') = pq_M (pq_of idx)" "iv_idToRow idx' = iv_idToRow idx"
proof -
  note I = iv_invD [OF inv]
  have e: "idx' = idx\<lparr>iv_pq := iv_pq idx'\<rparr>" "\<not> usePQ idx \<longrightarrow> idx' = idx" and q: "usePQ idx \<longrightarrow> iv_pq idx' = Some (pq_of idx') \<and> pq_ok (pq_of idx') \<and> trained (pq_of idx') \<and>
        pq_Dim (pq_of idx') = pq_Dim (pq_of idx) \<and> pq_M (pq_of idx') = pq_M (pq_of idx)" using t by (simp_all add: trained_from_def)
  have f: "iv_dim idx' = iv_dim idx" "iv_k idx' = iv_k idx" "iv_nprobe idx' = iv_nprobe idx" "iv_metric idx' = iv_metric idx" "usePQ idx' = usePQ idx"
    "built idx' = built idx" "kmeans idx' = kmeans idx" "postingList idx' = postingList idx" "clusterOf idx' = clusterOf idx" "dirty idx' = dirty idx"
    "dirtyThreshold idx' = dirtyThreshold idx" "iv_vectors idx' = iv_vectors idx" "pqCodes idx' = pqCodes idx" "iv_ids idx' = iv_ids idx"
    "iv_count idx' = iv_count idx" "iv_capacity idx' = iv_capacity idx" "iv_idToRow idx' = iv_idToRow idx" by (subst e(1), simp)+
  show m: "pq_M (pq_of idx') = pq_M (pq_of idx)" using q e(2) by (cases "usePQ idx") auto
  show "iv_inv idx'" unfolding iv_inv_def
  proof (intro conjI)
    show "quantizer_ok idx'" using q I(5) by (simp add: quantizer_ok_def f)
    show "rows_ok idx'" using I(6) unfolding rows_ok_def iv_main_def iv_codes_def f m .
    show "centroids_ok idx'" using I(9) unfolding centroids_ok_def f .
    show "buffer_ok idx'" using I(10) unfolding buffer_ok_def f .
  qed (use I in \<open>simp_all add: f\<close>)
  show "iv_same idx idx'" by (simp add: iv_same_def f)
  show "main_vecs idx' = main_vecs idx" by (simp add: main_vecs_def f cong: if_cong)
  show "dirty idx' = dirty idx" "iv_idToRow idx' = iv_idToRow idx" by (simp_all add: f)
  show "usePQ idx \<Longrightarrow> trained (pq_of idx')" using q by simp
qed

lemma drained_inv:
  assumes "iv_inv idx" "NewFlatIndex (int (iv_dim idx)) (iv_metric idx) = Inr f"
  shows "iv_inv (idx\<lparr>dirty := f\<rparr>)" "iv_vecs (idx\<lparr>dirty := f\<rparr>) = main_vecs idx" "fi_vecs f = Map.empty"
proof -
  note nf = NewFlatIndex_inv [OF assms(2)]
  show "fi_vecs f = Map.empty" using nf by simp
  show "iv_inv (idx\<lparr>dirty := f\<rparr>)" by (rule buffer_change [OF assms(1)]) (use nf in \<open>simp_all del: dom_fi_vecs\<close>)
  show "iv_vecs (idx\<lparr>dirty := f\<rparr>) = main_vecs idx" using nf by (simp add: iv_vecs_def main_vecs_def cong: if_cong)
qed

lemma job_of_none: "job_ok idx j \<Longrightarrow> totalN j = 0 \<Longrightarrow> iv_vecs idx = Map.empty"
  by (metis job_ok_def length_0_conv dom_eq_empty_conv list.set(1))

lemma job_store:
  assumes j: "job_ok idx j" and m: "dom m = set (allIDs j)"
    "\<forall>i < totalN j. m (allIDs j ! i) = Some (if usePQ idx then [] else row_of (iv_dim idx) (allVecs j) i)"
  shows "m = squash (usePQ idx) (iv_vecs idx)"
proof (rule ext)
  fix x
  have J: "length (allIDs j) = totalN j" "set (allIDs j) = dom (iv_vecs idx)" "\<not> usePQ idx \<longrightarrow> (\<forall>i < totalN j. iv_vecs idx (allIDs j ! i) = Some (row_of (iv_dim idx) (allVecs j) i))"
    using j by (simp_all add: job_ok_def)
  show "m x = squash (usePQ idx) (iv_vecs idx) x"
  proof (cases "x \<in> set (allIDs j)")
    case True
    then obtain i where i: "i < totalN j" "x = allIDs j ! i" using J(1) by (auto simp: in_set_conv_nth)
    obtain v where v: "iv_vecs idx x = Some v" using True J(2) by blast
    show ?thesis
    proof (cases "usePQ idx")
      case True
      then show ?thesis using m(2) i v by (simp add: squash_def)
    next
      case False
      then show ?thesis using m(2) i J(3) by (simp add: squash_def)
    qed
  next
    case False
    then have "m x = None" "iv_vecs idx x = None" using m(1) J(2) by (metis domIff)+
    then show ?thesis by (simp add: squash_def)
  qed
qed

lemma RebuildCtx_ok:
  fixes idx :: "'f::linordered_field IVFIndex"
  assumes inv: "iv_inv idx" and e: "platform_ok e" and ord: "enumeration ord"
  shows "\<exists>r. RebuildCtx e ord ctx idx = Inr r \<and> (r = None \<longrightarrow> usePQ idx \<and> \<not> trained (pq_of idx)) \<and>
    (\<forall>idx' err. r = Some (idx', err) \<longrightarrow> iv_inv idx' \<and> iv_same idx idx' \<and>
      (err = None \<and> iv_vecs idx' = squash (usePQ idx) (iv_vecs idx) \<or> iv_vecs idx' = main_vecs idx \<and> (\<exists>i. ctx i \<noteq> None)))"
proof -
  obtain f j where dr: "rebuild_drain idx = Inr (idx\<lparr>dirty := f\<rparr>, j)" "NewFlatIndex (int (iv_dim idx)) (iv_metric idx) = Inr f" "job_ok idx j"
    using rebuild_drain_ok [OF inv] by blast
  define s0 where "s0 = idx\<lparr>dirty := f\<rparr>"
  note D = drained_inv [OF inv dr(2), folded s0_def]
  have s0: "iv_same idx s0" "usePQ s0 = usePQ idx" "pq_of s0 = pq_of idx" "iv_dim s0 = iv_dim idx" "iv_idToRow s0 = iv_idToRow idx" "dirty s0 = f"
    by (simp_all add: s0_def iv_same_def pq_of_def)
  show ?thesis
  proof (cases "totalN j = 0")
    case True
    have "iv_vecs idx = Map.empty" by (rule job_of_none [OF dr(3) True])
    moreover from this have "main_vecs idx = Map.empty" by (simp add: iv_vecs_def)
    ultimately have "iv_vecs s0 = squash (usePQ idx) (iv_vecs idx)" using D(2) by (simp add: squash_def)
    then show ?thesis using dr(1) True D(1) s0(1) by (simp add: RebuildCtx_def s0_def)
  next
    case False
    have J: "length (allVecs j) = totalN j * iv_dim s0" "length (allIDs j) = totalN j" "distinct (allIDs j)" "set (allIDs j) = dom (iv_vecs idx)"
      using dr(3) s0(4) by (simp_all add: job_ok_def)
    obtain r where r: "rebuild_compute e ctx j s0 = Inr r" "r = None \<longrightarrow> usePQ s0 \<and> \<not> trained (pq_of s0)"
      "\<forall>idx' err. r = Some (idx', Cancelled err) \<longrightarrow> idx' = s0 \<and> (\<exists>i. ctx i \<noteq> None)"
      "\<forall>idx' rb. r = Some (idx', Computed rb) \<longrightarrow> trained_from s0 idx' \<and> result_ok s0 j rb"
      using rebuild_compute_ok [OF D(1) e _ J(1,2,3), of ctx] False by auto
    have eq: "RebuildCtx e ord ctx idx = (case r of None \<Rightarrow> Inr None
       | Some (idx, Cancelled err) \<Rightarrow> Inr (Some (idx, err))
       | Some (idx, Computed r) \<Rightarrow> go_bind (rebuild_swap (ord (collect_deleted r idx)) j r idx) (\<lambda>idx. Inr (Some (idx, None))))"
      using dr(1) False r(1) by (simp add: RebuildCtx_def s0_def)
    consider "r = None" | s err where "r = Some (s, Cancelled err)" | s rb where "r = Some (s, Computed rb)"
      by (metis computed.exhaust not_None_eq prod.exhaust)
    then show ?thesis
    proof cases
      case 1
      then show ?thesis using eq r(2) s0 by simp
    next
      case 2
      then have "s = s0" "\<exists>i. ctx i \<noteq> None" using r(3) by auto
      then show ?thesis using 2 eq D s0(1) by simp
    next
      case 3
      have t: "trained_from s0 s" "result_ok s0 j rb" using r(4) 3 by auto
      note T = trained_from_inv [OF D(1) t(1)]
      have ro: "result_ok s j rb" using t(2) T(2,6) by (simp add: result_ok_def iv_same_def)
      have us: "usePQ s = usePQ s0" "iv_dim s = iv_dim s0" using T(2) by (simp_all add: iv_same_def)
      have tr: "usePQ s \<Longrightarrow> trained (pq_of s)" using T(5) us by simp
      have "collect_deleted rb s = {}" using t(2) J(4) T(7) s0(5) by (auto simp: collect_deleted_def result_ok_def iv_vecs_def)
      then have o0: "ord (collect_deleted rb s) = []" using ord unfolding enumeration_def by (metis finite.emptyI set_empty)
      have Js: "length (allVecs j) = totalN j * iv_dim s" using J(1) us by simp
      obtain s' where s': "rebuild_swap [] j rb s = Inr s'" "iv_same s s'" "dirty s' = dirty s"
        "dom (main_vecs s') = set (allIDs j)" "\<forall>i < totalN j. main_vecs s' (allIDs j ! i) = Some (if usePQ s then [] else row_of (iv_dim s) (allVecs j) i)"
        "set (allIDs j) \<inter> dom (fi_vecs (dirty s)) = {} \<longrightarrow> iv_inv s'"
        using rebuild_swap_ok [OF T(1) tr ro Js J(2,3), of "[]"] by auto
      have fe: "fi_vecs (dirty s) = Map.empty" using D(3) T(4) s0(6) by simp
      then have "iv_inv s'" using s'(6) by (simp del: dom_fi_vecs)
      moreover have "iv_vecs s' = main_vecs s'" using fe s'(3) by (simp add: iv_vecs_def)
      moreover have "main_vecs s' = squash (usePQ idx) (iv_vecs idx)"
        by (rule job_store [OF dr(3) s'(4)]) (use s'(5) us s0 in simp)
      moreover have "iv_same idx s'" using s0(1) T(2) s'(2) iv_same_trans by blast
      ultimately show ?thesis using eq 3 o0 s'(1) by simp
    qed
  qed
qed

end
