(* ===== verification/Ivf_System.thy ===== *)
theory Ivf_System
  imports Ivf_Rebuild
begin

section \<open>The inverted file index as a whole\<close>

text \<open>
  Sequences of operations refine a map of vectors, searches after them are exact on what they probe, and the
  effects of operations between the sections of a rebuild.
\<close>

subsection \<open>Operations in sequence\<close>

datatype 'f iv_action = IvInsert u64 "'f list" | IvDelete u64 | IvRebuild

fun iv_op :: "'f::linordered_field ivf_env \<Rightarrow> (u64 set \<Rightarrow> u64 list) \<Rightarrow> 'f iv_action \<Rightarrow> 'f IVFIndex \<Rightarrow> ('f IVFIndex \<times> error option) option go" where
  "iv_op e ord (IvInsert i v) idx = go_bind (iv_Insert i v idx) (\<lambda>r. Inr (Some r))"
| "iv_op e ord (IvDelete i) idx = go_bind (iv_Delete i idx) (\<lambda>r. Inr (Some r))"
| "iv_op e ord IvRebuild idx = iv_Rebuild e ord idx"

fun iv_run ::
  "'f::linordered_field ivf_env \<Rightarrow> (u64 set \<Rightarrow> u64 list) \<Rightarrow> 'f iv_action list \<Rightarrow> 'f IVFIndex \<Rightarrow> ('f IVFIndex \<times> ErrorCode option list) option go" where
  "iv_run e ord [] idx = Inr (Some (idx, []))"
| "iv_run e ord (x # xs) idx = go_bind (iv_op e ord x idx) (\<lambda>r. case r of None \<Rightarrow> Inr None
     | Some (idx, err) \<Rightarrow> go_bind (iv_run e ord xs idx) (\<lambda>r. case r of None \<Rightarrow> Inr None
         | Some (idx, es) \<Rightarrow> Inr (Some (idx, code_of err # es))))"

fun iv_spec :: "nat \<Rightarrow> bool \<Rightarrow> 'f iv_action \<Rightarrow> 'f store \<Rightarrow> 'f store \<times> ErrorCode option" where
  "iv_spec d compressed (IvInsert i v) m = spec_Insert d i v m"
| "iv_spec d compressed (IvDelete i) m = (m(i := None), None)"
| "iv_spec d compressed IvRebuild m = (squash compressed m, None)"

fun iv_spec_run :: "nat \<Rightarrow> bool \<Rightarrow> 'f iv_action list \<Rightarrow> 'f store \<Rightarrow> 'f store \<times> ErrorCode option list" where
  "iv_spec_run d compressed [] m = (m, [])"
| "iv_spec_run d compressed (x # xs) m =
     (case iv_spec d compressed x m of (m', e) \<Rightarrow> case iv_spec_run d compressed xs m' of (m'', es) \<Rightarrow> (m'', e # es))"

lemma iv_op_ok:
  assumes inv: "iv_inv idx" and e: "platform_ok e" "enumeration ord"
  shows "\<exists>r. iv_op e ord x idx = Inr r \<and> (r = None \<longrightarrow> usePQ idx) \<and>
    (\<forall>idx' err. r = Some (idx', err) \<longrightarrow> iv_inv idx' \<and> iv_same idx idx' \<and> (iv_vecs idx', code_of err) = iv_spec (iv_dim idx) (usePQ idx) x (iv_vecs idx))"
proof (cases x)
  case (IvInsert i v)
  then show ?thesis using iv_Insert_ok [OF inv, of i v] by auto
next
  case (IvDelete i)
  then show ?thesis using iv_Delete_ok [OF inv, of i] by auto
next
  case IvRebuild
  then show ?thesis using RebuildCtx_ok [OF inv e, of "\<lambda>_. None"] by (fastforce simp: iv_Rebuild_def)
qed

lemma iv_run_ok:
  assumes "iv_inv idx" "platform_ok e" "enumeration ord"
  shows "\<exists>r. iv_run e ord xs idx = Inr r \<and> (r = None \<longrightarrow> usePQ idx) \<and>
    (\<forall>idx' es. r = Some (idx', es) \<longrightarrow> iv_inv idx' \<and> iv_same idx idx' \<and> (iv_vecs idx', es) = iv_spec_run (iv_dim idx) (usePQ idx) xs (iv_vecs idx))"
  using assms(1)
proof (induction xs arbitrary: idx)
  case (Cons x xs)
  obtain r where r: "iv_op e ord x idx = Inr r" "r = None \<longrightarrow> usePQ idx"
    "\<forall>idx' err. r = Some (idx', err) \<longrightarrow> iv_inv idx' \<and> iv_same idx idx' \<and> (iv_vecs idx', code_of err) = iv_spec (iv_dim idx) (usePQ idx) x (iv_vecs idx)"
    using iv_op_ok [OF Cons.prems assms(2,3), of x] by blast
  show ?case
  proof (cases r)
    case None
    then show ?thesis using r(1,2) by simp
  next
    case (Some s)
    obtain idx1 err where s: "s = (idx1, err)" by (cases s)
    have i1: "iv_inv idx1" "iv_same idx idx1" "(iv_vecs idx1, code_of err) = iv_spec (iv_dim idx) (usePQ idx) x (iv_vecs idx)" using r(3) Some s by auto
    have d: "iv_dim idx1 = iv_dim idx" "usePQ idx1 = usePQ idx" using i1(2) by (simp_all add: iv_same_def)
    obtain q where q: "iv_run e ord xs idx1 = Inr q" "q = None \<longrightarrow> usePQ idx1"
      "\<forall>idx' es. q = Some (idx', es) \<longrightarrow> iv_inv idx' \<and> iv_same idx1 idx' \<and> (iv_vecs idx', es) = iv_spec_run (iv_dim idx) (usePQ idx) xs (iv_vecs idx1)"
      using Cons.IH [OF i1(1)] unfolding d by blast
    show ?thesis
    proof (cases q)
      case None
      then show ?thesis using r(1) Some s q(1,2) d by simp
    next
      case (Some t)
      obtain idx2 es where t: "t = (idx2, es)" by (cases t)
      have i2: "iv_inv idx2" "iv_same idx idx2" "(iv_vecs idx2, es) = iv_spec_run (iv_dim idx) (usePQ idx) xs (iv_vecs idx1)"
        using q(3) Some t iv_same_trans [OF i1(2)] by blast+
      have "iv_run e ord (x # xs) idx = Inr (Some (idx2, code_of err # es))" using r(1) \<open>r = Some s\<close> s q(1) Some t by simp
      then show ?thesis using i2 i1(3) [symmetric] by (auto split: prod.splits)
    qed
  qed
qed (simp add: iv_same_def)

lemma iv_Len_ok:
  assumes "iv_inv idx"
  shows "iv_Len idx = card (dom (iv_vecs idx))"
proof -
  note I = iv_invD [OF assms] and M = main_rows [OF assms]
  have "card (dom (iv_idToRow idx)) = iv_count idx" using M(1,2,4,5) distinct_card [OF M(1)] by simp
  moreover have "dom (iv_vecs idx) = dom (iv_idToRow idx) \<union> dom (fi_vecs (dirty idx))" by (auto simp: iv_vecs_def)
  moreover have "finite (dom (iv_idToRow idx))" using M(2) by simp
  ultimately show ?thesis using count_card [OF I(12)] card_Un_disjoint [OF _ _ I(11)] by (simp add: iv_Len_def del: dom_fi_vecs)
qed

text \<open>C7. The index of cells refines a map from identifiers to vectors: from \<open>NewIVFIndex\<close> on, any sequence of
  inserts, deletes and rebuilds that are not interleaved runs without a panic and returns the errors of the
  specification, in which a deletion never fails and a rebuild changes nothing but that, with product
  quantization, it forgets the exact vectors; \<open>Len\<close> counts the identifiers. Only with product quantization can
  a run not return, when the random selection of the training never finishes.\<close>

theorem ivf_refines_store:
  fixes idx :: "'f::linordered_field IVFIndex"
  assumes "NewIVFIndex d k nprobe metric pqM threshold = Inr idx" "platform_ok e" "enumeration ord"
  shows "\<exists>r. iv_run e ord ops idx = Inr r \<and> (pqM \<le> 0 \<longrightarrow> r \<noteq> None) \<and>
    (\<forall>idx' es. r = Some (idx', es) \<longrightarrow> (iv_vecs idx', es) = iv_spec_run (nat d) (0 < pqM) ops Map.empty \<and> iv_Len idx' = card (dom (iv_vecs idx')))"
proof -
  note n = NewIVFIndex_ok [OF assms(1)]
  then have n': "iv_inv idx" "iv_vecs idx = Map.empty" "iv_dim idx = nat d" "usePQ idx = (0 < pqM)" by simp_all
  show ?thesis using iv_run_ok [OF n'(1) assms(2,3), of ops] iv_Len_ok unfolding n'(2,3,4) by fastforce
qed

definition ex_ivf_env :: "rat ivf_env" where
  "ex_ivf_env = \<lparr>iv_plat = go_platform, iv_maxf = 1000000, iv_intn = (\<lambda>_. 0), iv_rnd = (\<lambda>_. 1 / 2), iv_cpus = 2, iv_draws = (\<lambda>n. [0..<n])\<rparr>"

lemma ex_ivf_env_ok: "platform_ok ex_ivf_env" "kernels_agree (iv_plat ex_ivf_env)"
  using go_platform_agrees by (auto simp: platform_ok_def ex_ivf_env_def)

lemma enumeration_sorted: "enumeration sorted_list_of_set"
  by (simp add: enumeration_def)

lemma new_ivf_exists: obtains idx :: "rat IVFIndex" where "NewIVFIndex 1 2 1 ''l2'' 0 (1 / 2) = Inr idx"
proof -
  have m: "GetDistanceFunc ''l2'' \<noteq> None" by (auto simp: GetDistanceFunc_def)
  obtain f :: "rat FlatIndex" where "NewFlatIndex 1 ''l2'' = Inr f" by (rule new_flat_exists [of 1 "''l2''"]) (use m in auto)
  then show ?thesis using m by (intro that) (auto simp: NewIVFIndex_def Let_def)
qed

theorem ivf_refines_store_witness:
  "\<exists>idx idx' es. NewIVFIndex 1 2 1 ''l2'' 0 (1 / 2) = Inr idx \<and>
     iv_run ex_ivf_env sorted_list_of_set [IvInsert 1 [0], IvInsert 1 [5], IvRebuild, IvInsert 2 [7], IvDelete 1, IvRebuild] idx = Inr (Some (idx', es)) \<and>
     iv_vecs idx' = [2 \<mapsto> [7]] \<and> es = [None, Some ErrDuplicateID, None, None, None, None] \<and> iv_Len idx' = 1"
proof -
  obtain idx :: "rat IVFIndex" where idx: "NewIVFIndex 1 2 1 ''l2'' 0 (1 / 2) = Inr idx" by (rule new_ivf_exists)
  show ?thesis
    using ivf_refines_store [OF idx ex_ivf_env_ok(1) enumeration_sorted, of "[IvInsert 1 [0], IvInsert 1 [5], IvRebuild, IvInsert 2 [7], IvDelete 1, IvRebuild]"] idx
    by (fastforce simp: spec_Insert_def squash_def)
qed

lemma all_probed:
  assumes inv: "iv_inv idx" and c: "if built idx then nearest_cells en (the_km idx) q np cs else cs = []" and np: "length (postingList idx) \<le> np"
  shows "probed idx cs = dom (iv_idToRow idx)"
proof (cases "built idx")
  case False
  then show ?thesis using c empty_main [OF inv] iv_invD(9) [OF inv] by (simp add: probed_def centroids_ok_def)
next
  case True
  note I = iv_invD [OF inv]
  have K: "km_K (the_km idx) = length (postingList idx)" using I(9) True by (auto simp: centroids_ok_def the_km_def)
  have cs: "set cs \<subseteq> {..<length (postingList idx)}" "distinct cs" "length cs = length (postingList idx)"
    using c True np unfolding nearest_cells_def K by auto
  then have all: "set cs = {..<length (postingList idx)}" by (intro card_subset_eq) (simp_all add: distinct_card)
  show ?thesis
  proof
    show "probed idx cs \<subseteq> dom (iv_idToRow idx)" by (rule probed_main [OF inv]) (use cs in auto)
    show "dom (iv_idToRow idx) \<subseteq> probed idx cs"
    proof
      fix x assume "x \<in> dom (iv_idToRow idx)"
      then obtain c where "clusterOf idx x = Some c" using I(7) by blast
      then show "x \<in> probed idx cs" using lists_okD(1,2) [OF I(8)] unfolding probed_def all by blast
    qed
  qed
qed

lemma knn_exact:
  assumes inv: "iv_inv idx" and u: "\<not> usePQ idx" and k: "knn (iv_dist e q idx) (nat k) (dom (iv_vecs idx)) rs"
    and s: "\<forall>r \<in> set rs. Score r = ScoreFromDistance (rt32 (iv_plat e)) (Distance r) (iv_metric idx)"
  shows "exact_knn (rt32 (iv_plat e)) (iv_metric idx) q k (iv_vecs idx) rs"
proof -
  have D: "iv_dist e q idx x = apply_metric (rt32 (iv_plat e)) (the (GetDistanceFunc (iv_metric idx))) q v" if v: "iv_vecs idx x = Some v" for x v
  proof (cases "iv_idToRow idx x")
    case None
    then have "fi_vecs (dirty idx) x = Some v" using v by (auto simp: iv_vecs_def main_vecs_def map_add_def split: option.splits)
    then show ?thesis using None by (simp add: iv_dist_def env_distance_def domIff)
  next
    case (Some row)
    then have "fi_vecs (dirty idx) x = None" using iv_invD(11) [OF inv] by (metis disjoint_iff domI domIff)
    then have "v = row_of (iv_dim idx) (iv_vectors idx) row" using v Some u by (simp add: iv_vecs_def main_vecs_def map_add_def)
    then show ?thesis using Some u by (simp add: iv_dist_def cell_dist_def env_distance_def domIff)
  qed
  show ?thesis
    unfolding exact_knn_def
  proof (intro conjI ballI allI impI)
    fix r assume r: "r \<in> set rs"
    then obtain v where v: "iv_vecs idx (ID r) = Some v" using k unfolding knn_def by blast
    then show "\<exists>v. iv_vecs idx (ID r) = Some v \<and> Distance r = apply_metric (rt32 (iv_plat e)) (the (GetDistanceFunc (iv_metric idx))) q v \<and>
        Score r = ScoreFromDistance (rt32 (iv_plat e)) (Distance r) (iv_metric idx)" using k s r D [OF v] unfolding knn_def by auto
  next
    fix i v r assume "iv_vecs idx i = Some v" "i \<notin> ID ` set rs" "r \<in> set rs"
    then show "Distance r \<le> apply_metric (rt32 (iv_plat e)) (the (GetDistanceFunc (iv_metric idx))) q v"
      using k D unfolding knn_def by (metis domI)
  qed (use k in \<open>simp_all add: knn_def\<close>)
qed

text \<open>C8. The search of the index of cells, not cancelled, in exact arithmetic and with batch kernels that compute the
  distances: after any such sequence of operations it returns the \<open>k\<close> nearest of the
  vectors that are in the nearest \<open>nprobe\<close> cells or not yet in any cell, each once, nearest first, whatever the
  pooled buffer held. A vector in a cell is as far as its metric says or, with product quantization, as the
  squared distance of the residual of the query to the decoded residual. Without product quantization and
  with no fewer probes than cells the search is exact: it agrees with the flat index on all vectors stored.\<close>

theorem ivf_search_nearest:
  fixes idx :: "'f::linordered_field IVFIndex"
  assumes "NewIVFIndex d k' nprobe' metric pqM threshold = Inr idx" "platform_ok e" "enumeration ord" "iv_run e ord ops idx = Inr (Some (s, es))"
    "length q = nat d" "0 < k" "kernels_agree (iv_plat e)" "\<And>c. ctx c = None"
  shows "\<exists>cs rs. iv_Search e ctx buf q k nprobe s = Inr (Inr rs) \<and>
    (if built s then nearest_cells (env_km e s) (the_km s) q (if nprobe \<le> 0 then iv_nprobe s else nat nprobe) cs else cs = []) \<and>
    knn (iv_dist e q s) (nat k) (probed s cs \<union> dom (fi_vecs (dirty s))) rs \<and>
    (pqM \<le> 0 \<and> int (length (postingList s)) \<le> nprobe \<longrightarrow> exact_knn (rt32 (iv_plat e)) metric q k (iv_vecs s) rs)"
proof -
  have n: "iv_inv idx" "iv_dim idx = nat d" "iv_metric idx = metric" "usePQ idx = (0 < pqM)" using NewIVFIndex_ok [OF assms(1)] by simp_all
  have s: "iv_inv s" "iv_dim s = nat d" "iv_metric s = metric" "usePQ s = (0 < pqM)"
    using iv_run_ok [OF n(1) assms(2,3), of ops] assms(4) n(2,3,4) by (auto simp: iv_same_def)
  obtain cs rs where r: "iv_Search e ctx buf q k nprobe s = Inr (Inr rs)"
    "if built s then nearest_cells (env_km e s) (the_km s) q (if nprobe \<le> 0 then iv_nprobe s else nat nprobe) cs else cs = []"
    "knn (iv_dist e q s) (nat k) (probed s cs \<union> dom (fi_vecs (dirty s))) rs"
    "\<forall>r \<in> set rs. Score r = ScoreFromDistance (rt32 (iv_plat e)) (Distance r) (iv_metric s)"
    using iv_Search_ok [where ctx = ctx and buf = buf, OF s(1) _ assms(6,7,8), of q nprobe] assms(5) s(2) by auto
  have "exact_knn (rt32 (iv_plat e)) metric q k (iv_vecs s) rs" if x: "pqM \<le> 0 \<and> int (length (postingList s)) \<le> nprobe"
  proof -
    have "length (postingList s) \<le> (if nprobe \<le> 0 then iv_nprobe s else nat nprobe)" using x by auto
    from all_probed [OF s(1) r(2) this] have "probed s cs \<union> dom (fi_vecs (dirty s)) = dom (iv_vecs s)" by (auto simp: iv_vecs_def)
    then show ?thesis using knn_exact [OF s(1) _ _ r(4), of q k] r(3) x s(3,4) by simp
  qed
  then show ?thesis using r(1,2,3) by blast
qed

lemma ivf_ex_run:
  assumes "NewIVFIndex 1 2 1 ''l2'' 0 (1 / 2) = Inr (idx :: rat IVFIndex)"
  obtains s es where "iv_run ex_ivf_env sorted_list_of_set ops idx = Inr (Some (s, es))" "iv_inv s" "iv_dim s = 1" "\<not> usePQ s"
    "(iv_vecs s, es) = iv_spec_run 1 False ops Map.empty"
proof -
  note n = NewIVFIndex_ok [OF assms]
  then have n': "iv_inv idx" "iv_vecs idx = Map.empty" "iv_dim idx = 1" "usePQ idx = False" by simp_all
  obtain r where r: "iv_run ex_ivf_env sorted_list_of_set ops idx = Inr r \<and> (r = None \<longrightarrow> usePQ idx) \<and>
    (\<forall>idx' es. r = Some (idx', es) \<longrightarrow> iv_inv idx' \<and> iv_same idx idx' \<and> (iv_vecs idx', es) = iv_spec_run (iv_dim idx) (usePQ idx) ops (iv_vecs idx))"
    using iv_run_ok [OF n'(1) ex_ivf_env_ok(1) enumeration_sorted, of ops] by (elim exE) (rule that)
  then obtain s es where "r = Some (s, es)" using n'(4) by (cases r) auto
  then show ?thesis using r n' by (intro that [of s es]) (auto simp: iv_same_def)
qed

theorem ivf_search_nearest_witness:
  "\<exists>idx s es rs. NewIVFIndex 1 2 1 ''l2'' 0 (1 / 2) = Inr idx \<and>
     iv_run ex_ivf_env sorted_list_of_set [IvInsert 1 [0], IvInsert 2 [5], IvRebuild, IvInsert 3 [1]] idx = Inr (Some (s, es)) \<and>
     iv_Search ex_ivf_env (\<lambda>_. None) [] [0] 2 (int (length (postingList s))) s = Inr (Inr rs) \<and>
     exact_knn id ''l2'' [0] 2 [1 \<mapsto> [0], 2 \<mapsto> [5], 3 \<mapsto> [1]] rs"
proof -
  obtain idx :: "rat IVFIndex" where idx: "NewIVFIndex 1 2 1 ''l2'' 0 (1 / 2) = Inr idx" by (rule new_ivf_exists)
  obtain s es where s: "iv_run ex_ivf_env sorted_list_of_set [IvInsert 1 [0], IvInsert 2 [5], IvRebuild, IvInsert 3 [1]] idx = Inr (Some (s, es))"
    "(iv_vecs s, es) = iv_spec_run 1 False [IvInsert 1 [0], IvInsert 2 [5], IvRebuild, IvInsert 3 [1]] Map.empty" using ivf_ex_run [OF idx] by metis
  have v: "iv_vecs s = [1 \<mapsto> [0], 2 \<mapsto> [5], 3 \<mapsto> [1]]" using s(2) by (simp add: spec_Insert_def squash_def)
  have r: "rt32 (iv_plat ex_ivf_env) = id" by (simp add: ex_ivf_env_def go_platform_def)
  show ?thesis
    using ivf_search_nearest [where q = "[0]" and k = 2 and ctx = "\<lambda>_. None" and buf = "[]" and nprobe = "int (length (postingList s))",
        OF idx ex_ivf_env_ok(1) enumeration_sorted s(1) _ _ ex_ivf_env_ok(2)] idx s(1)
    unfolding v r by auto
qed

subsection \<open>A rebuild with operations in between\<close>

text \<open>C9. What other goroutines see of a rebuild. The vectors it takes from the buffer are stored nowhere until
  the rebuild ends: while it computes, the index is the store of the main vectors alone, so a search misses the
  others, an insertion of one of their identifiers succeeds and a deletion of one reports success. If the context
  is cancelled the rebuild stops there and they are lost. If it completes, every identifier that was stored when it
  began is stored again, those deleted in between included.\<close>

theorem ivf_rebuild_window:
  fixes idx :: "'f::linordered_field IVFIndex"
  assumes "NewIVFIndex d k nprobe metric pqM threshold = Inr idx" "platform_ok e" "enumeration ord"
    "iv_run e ord ops idx = Inr (Some (s, es))" "rebuild_drain s = Inr (s0, j)" "0 < totalN j"
    "iv_run e ord window s0 = Inr (Some (s1, es'))" "IvRebuild \<notin> set window" "rebuild_compute e ctx j s1 = Inr (Some (s2, c))"
  shows "(iv_vecs s1, es') = iv_spec_run (nat d) (0 < pqM) window (main_vecs s) \<and>
    (\<forall>err. c = Cancelled err \<longrightarrow> iv_vecs s2 = iv_vecs s1) \<and>
    (\<forall>r. c = Computed r \<longrightarrow> (\<exists>s3. rebuild_swap (ord (collect_deleted r s2)) j r s2 = Inr s3 \<and> dom (iv_vecs s) \<subseteq> dom (iv_vecs s3)))"
proof -
  have n: "iv_inv idx" "iv_dim idx = nat d" "usePQ idx = (0 < pqM)" using NewIVFIndex_ok [OF assms(1)] by simp_all
  have s: "iv_inv s" "iv_dim s = nat d" "usePQ s = (0 < pqM)"
    using iv_run_ok [OF n(1) assms(2,3), of ops] assms(4) n(2,3) by (auto simp: iv_same_def)
  obtain f where f: "s0 = s\<lparr>dirty := f\<rparr>" "NewFlatIndex (int (iv_dim s)) (iv_metric s) = Inr f" "job_ok s j"
    using rebuild_drain_ok [OF s(1)] assms(5) by auto
  note D = drained_inv [OF s(1) f(2), folded f(1)]
  have s1: "iv_inv s1" "iv_same s0 s1" "(iv_vecs s1, es') = iv_spec_run (nat d) (0 < pqM) window (main_vecs s)"
    using iv_run_ok [OF D(1) assms(2,3), of window] assms(7) s(2,3) D(2) f(1) by auto
  have d1: "iv_dim s1 = iv_dim s" "usePQ s1 = usePQ s" using s1(2) f(1) by (simp_all add: iv_same_def)
  have J: "length (allVecs j) = totalN j * iv_dim s1" "length (allIDs j) = totalN j" "distinct (allIDs j)" "set (allIDs j) = dom (iv_vecs s)"
    using f(3) d1 by (simp_all add: job_ok_def)
  have c: "\<And>err. c = Cancelled err \<Longrightarrow> s2 = s1" "\<And>rb. c = Computed rb \<Longrightarrow> trained_from s1 s2 \<and> result_ok s1 j rb"
    using rebuild_compute_ok [OF s1(1) assms(2,6) J(1,2,3), of ctx] assms(9) by auto
  have "\<exists>s3. rebuild_swap (ord (collect_deleted r s2)) j r s2 = Inr s3 \<and> dom (iv_vecs s) \<subseteq> dom (iv_vecs s3)" if r: "c = Computed r" for r
  proof -
    have t: "trained_from s1 s2" "result_ok s1 j r" using c(2) [OF r] by simp_all
    note T = trained_from_inv [OF s1(1) t(1)]
    have us: "usePQ s2 = usePQ s1" "iv_dim s2 = iv_dim s1" using T(2) by (simp_all add: iv_same_def)
    have ro: "result_ok s2 j r" using t(2) T(6) us by (simp add: result_ok_def)
    have tr: "usePQ s2 \<Longrightarrow> trained (pq_of s2)" using T(5) us by simp
    have Js: "length (allVecs j) = totalN j * iv_dim s2" using J(1) us by simp
    have "finite (collect_deleted r s2)" using main_rows(2) [OF T(1)] by (simp add: collect_deleted_def)
    then have "set (ord (collect_deleted r s2)) = collect_deleted r s2" using assms(3) by (simp add: enumeration_def)
    then have del: "set (ord (collect_deleted r s2)) \<inter> set (allIDs j) = {}" using ro by (auto simp: collect_deleted_def result_ok_def)
    obtain s3 where s3: "rebuild_swap (ord (collect_deleted r s2)) j r s2 = Inr s3" "dom (main_vecs s3) = set (allIDs j)"
      using rebuild_swap_ok [OF T(1) tr ro Js J(2,3) del] by blast
    then show ?thesis using J(4) by (intro exI [of _ s3]) (simp add: iv_vecs_def)
  qed
  then show ?thesis using s1(3) c(1) by blast
qed

lemma iv_Insert_main: "iv_Insert i v idx = Inr (idx', err) \<Longrightarrow> iv_idToRow idx' = iv_idToRow idx"
  by (auto simp: iv_Insert_def split: if_splits elim!: go_bind_InrE)

theorem ivf_rebuild_window_witness:
  "\<exists>idx s s0 j s1 es' s2 r s3. NewIVFIndex 1 2 1 ''l2'' 0 (1 / 2) = Inr idx \<and>
     iv_run ex_ivf_env sorted_list_of_set [IvInsert 1 [0]] idx = Inr (Some (s, [None])) \<and> rebuild_drain s = Inr (s0, j) \<and>
     iv_run ex_ivf_env sorted_list_of_set [IvDelete 1] s0 = Inr (Some (s1, es')) \<and> es' = [None] \<and> iv_vecs s1 = Map.empty \<and>
     rebuild_compute ex_ivf_env (\<lambda>_. None) j s1 = Inr (Some (s2, Computed r)) \<and>
     rebuild_swap (sorted_list_of_set (collect_deleted r s2)) j r s2 = Inr s3 \<and> 1 \<in> dom (iv_vecs s3)"
proof -
  obtain idx :: "rat IVFIndex" where idx: "NewIVFIndex 1 2 1 ''l2'' 0 (1 / 2) = Inr idx" by (rule new_ivf_exists)
  obtain s es where s: "iv_run ex_ivf_env sorted_list_of_set [IvInsert 1 [0]] idx = Inr (Some (s, es))" "iv_inv s" "iv_dim s = 1" "\<not> usePQ s"
    "(iv_vecs s, es) = iv_spec_run 1 False [IvInsert 1 [0]] Map.empty" by (rule ivf_ex_run [OF idx])
  have v: "iv_vecs s = [1 \<mapsto> [0]]" "es = [None]" using s(5) by (simp_all add: spec_Insert_def)
  have i0: "iv_idToRow idx = Map.empty" using idx by (auto simp: NewIVFIndex_def Let_def split: if_splits option.splits sum.splits)
  obtain s' err where "iv_Insert 1 [0] idx = Inr (s', err)" using iv_Insert_ok [of idx 1 "[0]"] NewIVFIndex_ok [OF idx] by blast
  moreover from this have "s = s'" using s(1) by simp
  ultimately have "iv_idToRow s = Map.empty" using i0 iv_Insert_main by metis
  then have mv: "main_vecs s = Map.empty" by (simp add: main_vecs_def)
  obtain f j where dr: "rebuild_drain s = Inr (s\<lparr>dirty := f\<rparr>, j)" "NewFlatIndex (int (iv_dim s)) (iv_metric s) = Inr f" "job_ok s j"
    using rebuild_drain_ok [OF s(2)] by blast
  note D = drained_inv [OF s(2) dr(2)]
  have J: "set (allIDs j) = {1}" "length (allIDs j) = totalN j" "distinct (allIDs j)" "length (allVecs j) = totalN j * 1" using dr(3) v(1) s(3) by (simp_all add: job_ok_def)
  then have pos: "0 < totalN j" by (cases "allIDs j") auto
  obtain q where q: "iv_run ex_ivf_env sorted_list_of_set [IvDelete 1] (s\<lparr>dirty := f\<rparr>) = Inr q" "q = None \<longrightarrow> usePQ s"
    "\<forall>idx' es. q = Some (idx', es) \<longrightarrow> iv_inv idx' \<and> iv_same (s\<lparr>dirty := f\<rparr>) idx'"
    using iv_run_ok [OF D(1) ex_ivf_env_ok(1) enumeration_sorted, of "[IvDelete 1]"] by auto
  then obtain s1 es' where s1: "iv_run ex_ivf_env sorted_list_of_set [IvDelete 1] (s\<lparr>dirty := f\<rparr>) = Inr (Some (s1, es'))" "iv_inv s1" "iv_same (s\<lparr>dirty := f\<rparr>) s1"
    using s(4) by (cases q) auto
  have d1: "iv_dim s1 = 1" "\<not> usePQ s1" using s1(3) s(3,4) by (simp_all add: iv_same_def)
  have J1: "length (allVecs j) = totalN j * iv_dim s1" using J(4) d1 by simp
  obtain s2 r where c: "rebuild_compute ex_ivf_env (\<lambda>_. None) j s1 = Inr (Some (s2, Computed r))"
    using rebuild_compute_ok [OF s1(2) ex_ivf_env_ok(1) pos J1 J(2,3), of "\<lambda>_. None"] d1(2) by (metis computed.exhaust not_None_eq prod.exhaust)
  have w: "IvRebuild \<notin> set [IvDelete 1]" by simp
  note R = ivf_rebuild_window [OF idx ex_ivf_env_ok(1) enumeration_sorted s(1) dr(1) pos s1(1) w c]
  have e: "es' = [None]" "iv_vecs s1 = Map.empty" using R mv by auto
  obtain s3 where "rebuild_swap (sorted_list_of_set (collect_deleted r s2)) j r s2 = Inr s3" "dom (iv_vecs s) \<subseteq> dom (iv_vecs s3)" using R by auto
  moreover from this(2) have "1 \<in> dom (iv_vecs s3)" using v(1) by auto
  ultimately show ?thesis using idx s(1) v(2) dr(1) s1(1) e c by blast
qed

end
