(* ===== verification/Posting_Store.thy ===== *)
theory Posting_Store
  imports Segment_File
begin

section \<open>Posting lists in a mapped file\<close>

text \<open>
  Models \<open>internal/index/spann/posting_store.go\<close>: \<open>WritePostings\<close>, which writes the posting lists and a footer of
  (centroid, offset, count) entries, and \<open>MmapPostingStore\<close>, which maps such a file and reads lists out of it.
  \<open>bits\<close> and \<open>frombits\<close> are \<open>math.Float32bits\<close> (the bytes in memory, on a little-endian machine) and
  \<open>math.Float32frombits\<close>. The file is not changed by others while it is mapped, so the mapped bytes are those of the
  file when it was opened.
\<close>

record 'f posting =
  po_id :: u64
  po_vector :: "'f list"

record MmapPostingStore =
  ps_data :: "bytes option" \<comment> \<open>nil for an empty file\<close>
  ps_dim :: nat
  offsets :: "nat \<rightharpoonup> u64 \<times> nat" \<comment> \<open>the bits of an \<open>int64\<close>, and the count\<close>
  ps_mapped :: bool \<comment> \<open>the mapping of \<open>data\<close> exists\<close>

subsection \<open>Writing\<close>

text \<open>Every \<open>f.Write\<close> ignores its error, after which a part of the bytes may be in the file; the process may also stop
  at it. The state is the number of the next write and the contents of the file.\<close>

datatype write_result = Whole | Short nat | Halts nat

type_synonym 'a writer = "nat \<times> bytes \<Rightarrow> ('a exit \<times> nat \<times> bytes) go"

definition wr_ret :: "'a \<Rightarrow> 'a writer" where
  "wr_ret x = (\<lambda>s. Inr (Returns x, s))"

definition wr_panic :: "panic \<Rightarrow> 'a writer" where
  "wr_panic p = (\<lambda>s. Inl p)"

definition wr_bind :: "'a writer \<Rightarrow> ('a \<Rightarrow> 'b writer) \<Rightarrow> 'b writer" where
  "wr_bind m k = (\<lambda>s. go_bind (m s) (\<lambda>(r, s). case r of Stops \<Rightarrow> Inr (Stops, s) | Returns x \<Rightarrow> k x s))"

definition f_write :: "(nat \<Rightarrow> write_result) \<Rightarrow> bytes \<Rightarrow> unit writer" where
  "f_write io b = (\<lambda>(k, c). case io k of
     Whole \<Rightarrow> Inr (Returns (), k + 1, c @ b)
   | Short n \<Rightarrow> Inr (Returns (), k + 1, c @ take n b)
   | Halts n \<Rightarrow> Inr (Stops, k + 1, c @ take n b))"

fun write_list :: "(nat \<Rightarrow> write_result) \<Rightarrow> ('f \<Rightarrow> u32) \<Rightarrow> nat \<Rightarrow> 'f posting list \<Rightarrow> u64 \<Rightarrow> (error + u64) writer" where
  \<comment> \<open>\<open>for _, p := range list\<close>: the offset afterwards\<close>
  "write_list io bits d [] offset = wr_ret (Inr offset)"
| "write_list io bits d (p # ps) offset =
     wr_bind (f_write io (le_encode 8 (po_id p))) (\<lambda>_.
       if length (po_vector p) < d then wr_ret (Inl (OtherError ''spann: posting has too few floats'' None))
       else if po_vector p = [] then wr_panic IndexOutOfRange
       else wr_bind (f_write io (concat (map (\<lambda>x. le_encode 4 (bits x)) (take d (po_vector p))))) (\<lambda>_.
         write_list io bits d ps (offset + of_nat (8 + d * 4))))"

definition footer_entry :: "nat \<Rightarrow> u64 \<Rightarrow> nat \<Rightarrow> bytes" where
  "footer_entry i startOff n = le_encode 4 (of_nat i :: u32) @ le_encode 8 startOff @ le_encode 4 (of_nat n :: u32)"

fun write_lists ::
  "(nat \<Rightarrow> write_result) \<Rightarrow> ('f \<Rightarrow> u32) \<Rightarrow> nat \<Rightarrow> nat \<Rightarrow> 'f posting list list \<Rightarrow> u64 \<Rightarrow> bytes \<Rightarrow> (error + bytes) writer" where
  \<comment> \<open>\<open>for i, list := range postings\<close>: the footer\<close>
  "write_lists io bits d i [] offset header = wr_ret (Inr header)"
| "write_lists io bits d i (l # ls) offset header =
     (if l = [] then write_lists io bits d (i + 1) ls offset header
      else wr_bind (write_list io bits d l offset) (\<lambda>r. case r of
             Inl e \<Rightarrow> wr_ret (Inl e)
           | Inr offset' \<Rightarrow> write_lists io bits d (i + 1) ls offset' (header @ footer_entry i offset (length l))))"

definition WritePostings ::
  "outcome \<Rightarrow> (nat \<Rightarrow> write_result) \<Rightarrow> outcome \<Rightarrow> ('f \<Rightarrow> u32) \<Rightarrow> string \<Rightarrow> 'f posting list list \<Rightarrow> nat \<Rightarrow> fs \<Rightarrow>
    (error option exit \<times> fs) go" where
  \<comment> \<open>the outcomes of \<open>os.Create\<close>, of the writes and of \<open>Sync\<close>\<close>
  "WritePostings create io sync bits path postings d f =
     (case create of
        Fails e \<Rightarrow> Inr (Returns (Some e), f)
      | Crashes n \<Rightarrow> Inr (Stops, if n = 0 then f else f(path \<mapsto> []))
      | Succeeds \<Rightarrow>
          go_bind (wr_bind (write_lists io bits d 0 postings 0 []) (\<lambda>r. case r of
              Inl e \<Rightarrow> wr_ret (Some e)
            | Inr header \<Rightarrow> wr_bind (f_write io header) (\<lambda>_.
                wr_bind (f_write io (le_encode 4 (of_nat (length header div 16) :: u32))) (\<lambda>_.
                  (\<lambda>s. Inr (case sync of Succeeds \<Rightarrow> Returns None | Fails e \<Rightarrow> Returns (Some e) | Crashes _ \<Rightarrow> Stops, s))))) (0, []))
            (\<lambda>(r, _, c). Inr (r, f(path \<mapsto> c))))"

subsection \<open>Reading\<close>

fun read_entries :: "bytes \<Rightarrow> nat \<Rightarrow> nat \<Rightarrow> (nat \<rightharpoonup> u64 \<times> nat) \<Rightarrow> (nat \<rightharpoonup> u64 \<times> nat) go" where
  \<comment> \<open>the loop over the footer: entry \<open>i\<close> and how many are left\<close>
  "read_entries hdata i 0 offs = Inr offs"
| "read_entries hdata i (Suc n) offs =
     go_bind (slice hdata (i * 16) (i * 16 + 4)) (\<lambda>cid.
     go_bind (slice hdata (i * 16 + 4) (i * 16 + 12)) (\<lambda>ofs.
     go_bind (slice hdata (i * 16 + 12) (i * 16 + 16)) (\<lambda>cnt.
       read_entries hdata (i + 1) n (offs(unat (le_decode cid :: u32) \<mapsto> (le_decode ofs, unat (le_decode cnt :: u32)))))))"

definition readHeader :: "MmapPostingStore \<Rightarrow> (MmapPostingStore \<times> error option) go" where
  "readHeader s =
     (let data = (case ps_data s of None \<Rightarrow> [] | Some b \<Rightarrow> b) in
      if length data < 4 then Inr (s, None)
      else go_bind (slice data (length data - 4) (length data)) (\<lambda>b.
        let numCents = unat (le_decode b :: u32); headerLen = numCents * 16 in
        if length data < headerLen + 4 then Inr (s, Some (OtherError ''invalid posting store file size'' None))
        else go_bind (slice data (length data - 4 - headerLen) (length data - 4)) (\<lambda>hdata.
          go_bind (read_entries hdata 0 numCents (offsets s)) (\<lambda>offs. Inr (s\<lparr>offsets := offs\<rparr>, None)))))"

definition NewMmapPostingStore :: "(nat \<Rightarrow> error option) \<Rightarrow> string \<Rightarrow> nat \<Rightarrow> fs \<Rightarrow> (error + MmapPostingStore) go" where
  \<comment> \<open>the errors of \<open>open\<close>, \<open>stat\<close> and \<open>mmap\<close>; the advice to the kernel and the closing on an error have no effect here\<close>
  "NewMmapPostingStore io path d f =
     (case (f path, io 0) of
        (None, _) \<Rightarrow> Inr (Inl (OtherError ''spann: opening posting store'' None))
      | (Some _, Some e) \<Rightarrow> Inr (Inl (OtherError ''spann: opening posting store'' (Some e)))
      | (Some b, None) \<Rightarrow>
          (case io 1 of Some e \<Rightarrow> Inr (Inl (OtherError ''spann: stat posting store'' (Some e)))
           | None \<Rightarrow>
              if length b = 0 then Inr (Inr \<lparr>ps_data = None, ps_dim = d, offsets = Map.empty, ps_mapped = True\<rparr>)
              else (case io 2 of Some e \<Rightarrow> Inr (Inl (OtherError ''spann: mmap posting store'' (Some e)))
                | None \<Rightarrow>
                   go_bind (readHeader \<lparr>ps_data = Some b, ps_dim = d, offsets = Map.empty, ps_mapped = True\<rparr>) (\<lambda>(s, err).
                     Inr (case err of Some e \<Rightarrow> Inl e | None \<Rightarrow> Inr s)))))"

fun read_floats :: "(u32 \<Rightarrow> 'f) \<Rightarrow> bytes \<Rightarrow> nat \<Rightarrow> nat \<Rightarrow> 'f list go" where
  \<comment> \<open>the inner loop: the next float is at \<open>at\<close>, \<open>n\<close> are left\<close>
  "read_floats frombits chunk at 0 = Inr []"
| "read_floats frombits chunk at (Suc n) =
     go_bind (slice chunk at (at + 4)) (\<lambda>b. go_bind (read_floats frombits chunk (at + 4) n) (\<lambda>xs. Inr (frombits (le_decode b) # xs)))"

fun read_postings :: "(u32 \<Rightarrow> 'f) \<Rightarrow> bytes \<Rightarrow> nat \<Rightarrow> nat \<Rightarrow> nat \<Rightarrow> 'f posting list go" where
  \<comment> \<open>\<open>for i := 0; i < meta.count; i++\<close>: record \<open>i\<close> and how many are left\<close>
  "read_postings frombits chunk d i 0 = Inr []"
| "read_postings frombits chunk d i (Suc n) =
     go_bind (slice chunk (i * (8 + d * 4)) (i * (8 + d * 4) + 8)) (\<lambda>b.
     go_bind (read_floats frombits chunk (i * (8 + d * 4) + 8) d) (\<lambda>vec.
     go_bind (read_postings frombits chunk d (i + 1) n) (\<lambda>ps. Inr (\<lparr>po_id = le_decode b, po_vector = vec\<rparr> # ps))))"

definition unexpected_fault :: panic where
  \<comment> \<open>reading unmapped memory; the runtime ends the process\<close>
  "unexpected_fault = PanicValue ''unexpected fault address''"

definition GetPostings :: "(u32 \<Rightarrow> 'f) \<Rightarrow> nat \<Rightarrow> MmapPostingStore \<Rightarrow> (error + 'f posting list) go" where
  \<comment> \<open>the end is computed in \<open>int64\<close>; a slice of \<open>data\<close> reaches, by its capacity, to the end of \<open>data\<close>\<close>
  "GetPostings frombits centroidID s =
     (case ps_data s of None \<Rightarrow> Inr (Inr [])
      | Some data \<Rightarrow>
         (case offsets s centroidID of None \<Rightarrow> Inr (Inr [])
          | Some (offset, num) \<Rightarrow>
              if num = 0 then Inr (Inr [])
              else let recordSize = 8 + ps_dim s * 4; ending = offset + of_nat num * of_nat recordSize in
                if sint ending > int (length data) then Inr (Inl (OtherError ''posting list bounds out of range'' None))
                else if sint offset < 0 \<or> sint ending < sint offset then Inl IndexOutOfRange
                else if \<not> ps_mapped s then Inl unexpected_fault
                else go_bind (read_postings frombits (drop (nat (sint offset)) data) (ps_dim s) 0 num) (\<lambda>ps. Inr (Inr ps))))"

definition ps_Close :: "(nat \<Rightarrow> error option) \<Rightarrow> MmapPostingStore \<Rightarrow> MmapPostingStore \<times> error option" where
  \<comment> \<open>the errors of \<open>munmap\<close> and \<open>close\<close>; \<open>data\<close> keeps pointing to where the mapping was\<close>
  "ps_Close io s =
     (let err1 = (if ps_data s = None then None else io 0) in
      (if err1 = None then s\<lparr>ps_mapped := False\<rparr> else s, if err1 \<noteq> None then err1 else io 1))"

subsection \<open>Blocks of equal length\<close>

lemma slice_block:
  assumes "\<And>x. x \<in> set xs \<Longrightarrow> length (g x) = w" "i < length xs" "a \<le> b" "b \<le> w"
  shows "slice (concat (map g xs) @ rest) (i * w + a) (i * w + b) = Inr (take (b - a) (drop a (g (xs ! i))))"
  using assms
proof (induction xs arbitrary: i)
  case (Cons x xs)
  have w: "length (g x) = w" using Cons.prems(1) by simp
  show ?case
  proof (cases i)
    case 0
    then show ?thesis using Cons.prems(3,4) w by (simp add: slice_def)
  next
    case (Suc j)
    have "slice (concat (map g xs) @ rest) (j * w + a) (j * w + b) = Inr (take (b - a) (drop a (g (xs ! j))))"
      by (rule Cons.IH) (use Cons.prems Suc in auto)
    then show ?thesis using w Suc unfolding slice_def by (auto split: if_splits simp: add.assoc)
  qed
qed simp

lemma length_concat_blocks: "(\<And>x. x \<in> set xs \<Longrightarrow> length (g x) = w) \<Longrightarrow> length (concat (map g xs)) = length xs * w"
  by (induction xs) auto

subsection \<open>Without errors\<close>

definition record_bytes :: "('f \<Rightarrow> u32) \<Rightarrow> nat \<Rightarrow> 'f posting \<Rightarrow> bytes" where
  "record_bytes bits d p = le_encode 8 (po_id p) @ concat (map (\<lambda>x. le_encode 4 (bits x)) (take d (po_vector p)))"

definition list_bytes :: "('f \<Rightarrow> u32) \<Rightarrow> nat \<Rightarrow> 'f posting list \<Rightarrow> bytes" where
  "list_bytes bits d l = concat (map (record_bytes bits d) l)"

fun footer_entries :: "nat \<Rightarrow> nat \<Rightarrow> 'f posting list list \<Rightarrow> nat \<Rightarrow> (nat \<times> nat \<times> nat) list" where
  "footer_entries d i [] off = []"
| "footer_entries d i (l # ls) off =
     (if l = [] then footer_entries d (i + 1) ls off
      else (i, off, length l) # footer_entries d (i + 1) ls (off + length l * (8 + d * 4)))"

definition footer_bytes :: "nat \<times> nat \<times> nat \<Rightarrow> bytes" where
  "footer_bytes = (\<lambda>(i, off, n). footer_entry i (of_nat off) n)"

definition postings_file :: "('f \<Rightarrow> u32) \<Rightarrow> nat \<Rightarrow> 'f posting list list \<Rightarrow> bytes" where
  "postings_file bits d ls =
     (let es = footer_entries d 0 ls 0 in
      concat (map (list_bytes bits d) ls) @ concat (map footer_bytes es) @ le_encode 4 (of_nat (length es) :: u32))"

definition wide :: "nat \<Rightarrow> 'f posting list \<Rightarrow> bool" where
  "wide d l \<longleftrightarrow> (\<forall>p \<in> set l. d \<le> length (po_vector p))"

lemma wide_simps [simp]: "wide d []" "wide d (p # l) \<longleftrightarrow> d \<le> length (po_vector p) \<and> wide d l"
  by (auto simp: wide_def)

lemma length_footer_bytes [simp]: "length (footer_bytes e) = 16"
  by (simp add: footer_bytes_def footer_entry_def split: prod.split)

lemma length_record_bytes [simp]: "d \<le> length (po_vector p) \<Longrightarrow> length (record_bytes bits d p) = 8 + d * 4"
  using length_concat_blocks [of "take d (po_vector p)" "\<lambda>x. le_encode 4 (bits x)" 4] by (simp add: record_bytes_def)

lemma write_list_whole:
  assumes "0 < d" "wide d l"
  shows "\<exists>k'. write_list (\<lambda>_. Whole) bits d l offset (k, c) =
    Inr (Returns (Inr (offset + of_nat (length l * (8 + d * 4)))), k', c @ list_bytes bits d l)"
  using assms(2)
proof (induction l arbitrary: offset k c)
  case Nil
  then show ?case by (simp add: wr_ret_def list_bytes_def)
next
  case (Cons p l)
  have p: "\<not> length (po_vector p) < d" "po_vector p \<noteq> []" "wide d l" using Cons.prems assms(1) by auto
  obtain k' where "write_list (\<lambda>_. Whole) bits d l (offset + of_nat (8 + d * 4)) (k + 1 + 1, (c @ le_encode 8 (po_id p)) @ concat (map (\<lambda>x. le_encode 4 (bits x)) (take d (po_vector p)))) =
    Inr (Returns (Inr (offset + of_nat (8 + d * 4) + of_nat (length l * (8 + d * 4)))), k', ((c @ le_encode 8 (po_id p)) @ concat (map (\<lambda>x. le_encode 4 (bits x)) (take d (po_vector p)))) @ list_bytes bits d l)"
    using Cons.IH [OF p(3)] by blast
  then show ?case using p
    by (auto simp: wr_bind_def f_write_def list_bytes_def record_bytes_def algebra_simps)
qed

lemma write_lists_whole:
  assumes "0 < d" "\<forall>l \<in> set ls. wide d l"
  shows "\<exists>k'. write_lists (\<lambda>_. Whole) bits d i ls (of_nat off) header (k, c) =
    Inr (Returns (Inr (header @ concat (map footer_bytes (footer_entries d i ls off)))), k', c @ concat (map (list_bytes bits d) ls))"
  using assms(2)
proof (induction ls arbitrary: i off header k c)
  case Nil
  then show ?case by (simp add: wr_ret_def)
next
  case (Cons l ls)
  show ?case
  proof (cases "l = []")
    case True
    then show ?thesis using Cons.IH [of "i + 1" off header k c] Cons.prems by (simp add: list_bytes_def)
  next
    case False
    obtain k1 where k1: "write_list (\<lambda>_. Whole) bits d l (of_nat off) (k, c) =
      Inr (Returns (Inr (of_nat off + of_nat (length l * (8 + d * 4)))), k1, c @ list_bytes bits d l)"
      using write_list_whole [OF assms(1), of l] Cons.prems by fastforce
    have "of_nat off + of_nat (length l * (8 + d * 4)) = (of_nat (off + length l * (8 + d * 4)) :: u64)" by simp
    then show ?thesis
      using False k1 Cons.IH [of "i + 1" "off + length l * (8 + d * 4)" "header @ footer_entry i (of_nat off) (length l)" k1 "c @ list_bytes bits d l"] Cons.prems
      by (simp add: wr_bind_def footer_bytes_def)
  qed
qed

lemma WritePostings_whole:
  assumes "0 < d" "\<forall>l \<in> set ls. wide d l"
  shows "WritePostings Succeeds (\<lambda>_. Whole) Succeeds bits path ls d f = Inr (Returns None, f(path \<mapsto> postings_file bits d ls))"
proof -
  obtain k' where "write_lists (\<lambda>_. Whole) bits d 0 ls 0 [] (0, []) =
    Inr (Returns (Inr (concat (map footer_bytes (footer_entries d 0 ls 0)))), k', concat (map (list_bytes bits d) ls))"
    using write_lists_whole [where d = d and ls = ls and i = 0 and off = 0 and header = "[]" and k = 0 and c = "[]" and bits = bits, OF assms] by auto
  moreover have "length (concat (map footer_bytes es)) div 16 = length es" for es
    using length_concat_blocks [of es footer_bytes 16] by simp
  ultimately show ?thesis
    by (simp add: WritePostings_def wr_bind_def f_write_def postings_file_def Let_def)
qed

subsection \<open>Reading a complete file\<close>

definition add_entry :: "nat \<times> nat \<times> nat \<Rightarrow> (nat \<rightharpoonup> u64 \<times> nat) \<Rightarrow> (nat \<rightharpoonup> u64 \<times> nat)" where
  "add_entry = (\<lambda>(i, off, n) m. m(i \<mapsto> (of_nat off, n)))"

lemma add_entry_apply [simp]: "add_entry (i, off, n) m = m(i \<mapsto> (of_nat off, n))"
  by (simp add: add_entry_def)

lemma read_entries_complete:
  assumes "\<forall>(i, off, n) \<in> set es. i < 2 ^ 32 \<and> n < 2 ^ 32" "i + n = length es"
  shows "read_entries (concat (map footer_bytes es)) i n offs = Inr (fold add_entry (drop i es) offs)"
  using assms(2)
proof (induction n arbitrary: i offs)
  case (Suc n)
  have i: "i < length es" using Suc.prems by simp
  obtain c off m where e: "es ! i = (c, off, m)" by (cases "es ! i") auto
  then have b: "c < 2 ^ 32" "m < 2 ^ 32" using assms(1) nth_mem [OF i] by auto
  have un: "unat (of_nat c :: u32) = c" "unat (of_nat m :: u32) = m" using b by (simp_all add: unat_of_nat)
  have dec: "le_decode (le_encode 4 (of_nat c :: u32)) = (of_nat c :: u32)" "le_decode (le_encode 8 (of_nat off :: u64)) = (of_nat off :: u64)"
    "le_decode (le_encode 4 (of_nat m :: u32)) = (of_nat m :: u32)" by (simp_all add: le_decode_encode)
  have sl: "slice (concat (map footer_bytes es)) (i * 16 + a) (i * 16 + b) = Inr (take (b - a) (drop a (footer_bytes (es ! i))))"
    if "a \<le> b" "b \<le> 16" for a b
    using slice_block [where g = footer_bytes and xs = es and w = 16 and rest = "[]", OF _ i that] by simp
  have s: "slice (concat (map footer_bytes es)) (i * 16) (i * 16 + 4) = Inr (le_encode 4 (of_nat c :: u32))"
    "slice (concat (map footer_bytes es)) (i * 16 + 4) (i * 16 + 12) = Inr (le_encode 8 (of_nat off :: u64))"
    "slice (concat (map footer_bytes es)) (i * 16 + 12) (i * 16 + 16) = Inr (le_encode 4 (of_nat m :: u32))"
    using sl [of 0 4] sl [of 4 12] sl [of 12 16] e by (simp_all add: footer_bytes_def footer_entry_def)
  have dr: "drop i es = es ! i # drop (i + 1) es" using i by (simp add: Cons_nth_drop_Suc)
  have "read_entries (concat (map footer_bytes es)) i (Suc n) offs =
    read_entries (concat (map footer_bytes es)) (i + 1) n (offs(c \<mapsto> (of_nat off, m)))" by (simp add: s dec un)
  also have "\<dots> = Inr (fold add_entry (drop (i + 1) es) (offs(c \<mapsto> (of_nat off, m))))" by (rule Suc.IH) (use Suc.prems in simp)
  finally show ?case unfolding dr e by simp
qed simp

lemma footer_entries_lookup:
  "fold add_entry (footer_entries d i ls off) m j =
     (if i \<le> j \<and> j < i + length ls \<and> ls ! (j - i) \<noteq> []
      then Some (of_nat (off + length (concat (take (j - i) ls)) * (8 + d * 4)), length (ls ! (j - i))) else m j)"
proof (induction d i ls off arbitrary: m rule: footer_entries.induct)
  case (2 d i l ls off)
  have nth: "(l # ls) ! (j - i) = (if j = i then l else ls ! (j - (i + 1)))" if "i \<le> j" using that by (auto simp: nth_Cons' )
  have tk: "take (j - i) (l # ls) = l # take (j - (i + 1)) ls" if "i < j"
  proof -
    have "j - i = Suc (j - (i + 1))" using that by simp
    then show ?thesis by simp
  qed
  show ?case
  proof (cases "i = j")
    case True
    then show ?thesis using 2 by simp
  next
    case False
    then show ?thesis using 2 nth tk
      by (cases "i < j") (auto simp: algebra_simps)
  qed
qed auto

lemma footer_entries_bound:
  "(a, b, n) \<in> set (footer_entries d i ls off) \<Longrightarrow> a < i + length ls \<and> (\<exists>l \<in> set ls. n = length l)"
  by (induction d i ls off rule: footer_entries.induct) (auto split: if_splits)

lemma length_footer_entries: "length (footer_entries d i ls off) \<le> length ls"
  by (induction d i ls off rule: footer_entries.induct) auto

lemma read_floats_ok:
  assumes "\<And>j. j < length xs \<Longrightarrow> slice chunk (at + j * 4) (at + j * 4 + 4) = Inr (le_encode 4 (bits (xs ! j)))"
  shows "read_floats frombits chunk at (length xs) = Inr (map (\<lambda>x. frombits (bits x)) xs)"
  using assms
proof (induction xs arbitrary: at)
  case (Cons x xs)
  have "read_floats frombits chunk (at + 4) (length xs) = Inr (map (\<lambda>x. frombits (bits x)) xs)"
  proof (rule Cons.IH)
    fix j assume "j < length xs"
    then show "slice chunk (at + 4 + j * 4) (at + 4 + j * 4 + 4) = Inr (le_encode 4 (bits (xs ! j)))"
      using Cons.prems [of "Suc j"] by (simp add: algebra_simps)
  qed
  then show ?case using Cons.prems [of 0] by (simp add: le_decode_encode)
qed simp

definition stored_posting :: "('f \<Rightarrow> u32) \<Rightarrow> (u32 \<Rightarrow> 'f) \<Rightarrow> nat \<Rightarrow> 'f posting \<Rightarrow> 'f posting" where
  "stored_posting bits frombits d p = \<lparr>po_id = po_id p, po_vector = map (\<lambda>x. frombits (bits x)) (take d (po_vector p))\<rparr>"

lemma read_postings_ok:
  assumes "wide d l" "i + n = length l"
  shows "read_postings frombits (list_bytes bits d l @ rest) d i n = Inr (map (stored_posting bits frombits d) (drop i l))"
  using assms(2)
proof (induction n arbitrary: i)
  case (Suc n)
  let ?rs = "8 + d * 4"
  have i: "i < length l" using Suc.prems by simp
  have w: "length (record_bytes bits d p) = ?rs" if "p \<in> set l" for p using assms(1) that by (simp add: wide_def)
  have v: "d \<le> length (po_vector (l ! i))" using assms(1) i by (simp add: wide_def)
  have sl: "slice (list_bytes bits d l @ rest) (i * ?rs + a) (i * ?rs + b) = Inr (take (b - a) (drop a (record_bytes bits d (l ! i))))"
    if "a \<le> b" "b \<le> ?rs" for a b
    unfolding list_bytes_def by (rule slice_block [OF w i that])
  have fl: "slice (list_bytes bits d l @ rest) (i * ?rs + 8 + j * 4) (i * ?rs + 8 + j * 4 + 4) = Inr (le_encode 4 (bits (take d (po_vector (l ! i)) ! j)))"
    if "j < length (take d (po_vector (l ! i)))" for j
  proof -
    have "j < d" using that by simp
    then have "8 + j * 4 \<le> 8 + j * 4 + 4" "8 + j * 4 + 4 \<le> ?rs" by simp_all
    note 1 = sl [OF this]
    have "slice (concat (map (\<lambda>x. le_encode 4 (bits x)) (take d (po_vector (l ! i)))) @ []) (j * 4 + 0) (j * 4 + 4) =
      Inr (take (4 - 0) (drop 0 (le_encode 4 (bits (take d (po_vector (l ! i)) ! j)))))"
      by (rule slice_block) (use that in simp_all)
    then show ?thesis using 1 by (simp add: record_bytes_def slice_def add.assoc split: if_splits)
  qed
  have "slice (list_bytes bits d l @ rest) (i * ?rs) (i * ?rs + 8) = Inr (le_encode 8 (po_id (l ! i)))"
    using sl [of 0 8] by (simp add: record_bytes_def)
  moreover have "read_floats frombits (list_bytes bits d l @ rest) (i * ?rs + 8) d = Inr (map (\<lambda>x. frombits (bits x)) (take d (po_vector (l ! i))))"
    using read_floats_ok [where xs = "take d (po_vector (l ! i))", OF fl] v by (simp add: min_absorb2)
  moreover have "drop i l = l ! i # drop (i + 1) l" using i by (simp add: Cons_nth_drop_Suc)
  ultimately show ?case using Suc.IH [of "i + 1"] Suc.prems by (simp add: le_decode_encode stored_posting_def)
qed simp

definition posting_store :: "('f \<Rightarrow> u32) \<Rightarrow> nat \<Rightarrow> 'f posting list list \<Rightarrow> MmapPostingStore" where
  \<comment> \<open>what opening the file of the lists \<open>ls\<close> gives\<close>
  "posting_store bits d ls =
     \<lparr>ps_data = Some (postings_file bits d ls), ps_dim = d, offsets = fold add_entry (footer_entries d 0 ls 0) Map.empty, ps_mapped = True\<rparr>"

definition lists_fit :: "nat \<Rightarrow> 'f posting list list \<Rightarrow> bool" where
  "lists_fit d ls \<longleftrightarrow> (\<forall>l \<in> set ls. wide d l) \<and> length ls < 2 ^ 32 \<and> length (concat ls) < 2 ^ 32 \<and>
     length (concat ls) * (8 + d * 4) + length ls * 16 + 4 < 2 ^ 63"

lemma length_list_bytes: "wide d l \<Longrightarrow> length (list_bytes bits d l) = length l * (8 + d * 4)"
  unfolding list_bytes_def by (rule length_concat_blocks) (simp add: wide_def)

lemma length_lists: "\<forall>l \<in> set ls. wide d l \<Longrightarrow> length (concat (map (list_bytes bits d) ls)) = length (concat ls) * (8 + d * 4)"
  by (induction ls) (simp_all add: length_list_bytes algebra_simps)

lemma length_le_concat: "l \<in> set ls \<Longrightarrow> length l \<le> length (concat ls)"
  by (induction ls) auto

lemma readHeader_complete:
  assumes "lists_fit d ls"
  shows "readHeader \<lparr>ps_data = Some (postings_file bits d ls), ps_dim = d, offsets = Map.empty, ps_mapped = True\<rparr> = Inr (posting_store bits d ls, None)"
proof -
  define es where "es = footer_entries d 0 ls 0"
  define A where "A = concat (map (list_bytes bits d) ls)"
  define B where "B = concat (map footer_bytes es)"
  define C where "C = le_encode 4 (of_nat (length es) :: u32)"
  have f: "postings_file bits d ls = A @ B @ C" by (simp add: postings_file_def Let_def A_def B_def C_def es_def)
  have len: "length B = length es * 16" "length C = 4"
    using length_concat_blocks [of es footer_bytes 16] by (simp_all add: B_def C_def)
  have es: "length es < 2 ^ 32" using length_footer_entries [of d 0 ls 0] assms by (simp add: es_def lists_fit_def)
  have dec: "unat (le_decode C :: u32) = length es" using es by (simp add: C_def le_decode_encode unat_of_nat)
  have small: "\<forall>(i, off, n) \<in> set es. i < 2 ^ 32 \<and> n < 2 ^ 32"
  proof (clarify, intro conjI)
    fix a b n assume e: "(a, b, n) \<in> set es"
    show "a < 2 ^ 32" using footer_entries_bound [OF e [unfolded es_def]] assms by (simp add: lists_fit_def)
    obtain l where "l \<in> set ls" "n = length l" using footer_entries_bound [OF e [unfolded es_def]] by blast
    then show "n < 2 ^ 32" using length_le_concat [of l ls] assms by (simp add: lists_fit_def)
  qed
  have "slice (A @ B @ C) (length (A @ B @ C) - 4) (length (A @ B @ C)) = Inr C" using len by (simp add: slice_def)
  moreover have "slice (A @ B @ C) (length (A @ B @ C) - 4 - length es * 16) (length (A @ B @ C) - 4) = Inr B"
    using len by (simp add: slice_def)
  moreover have "read_entries B 0 (length es) Map.empty = Inr (fold add_entry es Map.empty)"
    using read_entries_complete [OF small, of 0 "length es"] by (simp add: B_def)
  moreover have "\<not> length (A @ B @ C) < 4" "\<not> length (A @ B @ C) < length es * 16 + 4" using len by simp_all
  ultimately show ?thesis
    unfolding readHeader_def f MmapPostingStore.simps option.case Let_def
    by (simp only: if_False go_bind.simps dec) (simp add: posting_store_def f es_def)
qed

lemma NewMmapPostingStore_complete:
  assumes "lists_fit d ls" "f path = Some (postings_file bits d ls)"
  shows "NewMmapPostingStore (\<lambda>_. None) path d f = Inr (Inr (posting_store bits d ls))"
proof -
  have "postings_file bits d ls \<noteq> []" by (simp add: postings_file_def Let_def le_encode_def)
  then show ?thesis using assms by (simp add: NewMmapPostingStore_def readHeader_complete)
qed

lemma offsets_posting_store:
  "offsets (posting_store bits d ls) c =
     (if c < length ls \<and> ls ! c \<noteq> [] then Some (of_nat (length (concat (take c ls)) * (8 + d * 4)), length (ls ! c)) else None)"
  by (simp add: posting_store_def footer_entries_lookup)

lemma GetPostings_complete:
  assumes "lists_fit d ls"
  shows "GetPostings frombits c (posting_store bits d ls) = Inr (Inr (if c < length ls then map (stored_posting bits frombits d) (ls ! c) else []))"
proof (cases "c < length ls \<and> ls ! c \<noteq> []")
  case False
  then have "offsets (posting_store bits d ls) c = None" by (auto simp: offsets_posting_store)
  moreover have "ps_data (posting_store bits d ls) = Some (postings_file bits d ls)" by (simp add: posting_store_def)
  ultimately show ?thesis using False by (auto simp: GetPostings_def)
next
  case True
  let ?rs = "8 + d * 4"
  define a where "a = length (concat (take c ls)) * ?rs"
  define n where "n = length (ls ! c)"
  have w: "\<forall>l \<in> set ls. wide d l" and w1: "wide d (ls ! c)" using assms True by (auto simp: lists_fit_def)
  have split: "ls = take c ls @ ls ! c # drop (c + 1) ls" using True by (simp add: id_take_nth_drop)
  have total_len: "length (concat ls) = length (concat (take c ls)) + n + length (concat (drop (c + 1) ls))"
    by (subst split) (simp add: n_def)
  define rest where "rest = concat (map (list_bytes bits d) (drop (c + 1) ls)) @ concat (map footer_bytes (footer_entries d 0 ls 0)) @
    le_encode 4 (of_nat (length (footer_entries d 0 ls 0)) :: u32)"
  have body: "concat (map (list_bytes bits d) ls) = concat (map (list_bytes bits d) (take c ls)) @ list_bytes bits d (ls ! c) @ concat (map (list_bytes bits d) (drop (c + 1) ls))"
    by (subst split) simp
  have pf: "postings_file bits d ls = concat (map (list_bytes bits d) (take c ls)) @ list_bytes bits d (ls ! c) @ rest"
    by (simp add: postings_file_def Let_def body rest_def)
  have la: "length (concat (map (list_bytes bits d) (take c ls))) = a"
    unfolding a_def by (rule length_lists) (use w in \<open>auto dest: in_set_takeD\<close>)
  have drp: "drop a (postings_file bits d ls) = list_bytes bits d (ls ! c) @ rest" unfolding pf by (simp add: la)
  have fl: "a + n * ?rs \<le> length (postings_file bits d ls)" unfolding pf using la length_list_bytes [OF w1, of bits] by (simp add: n_def)
  have an: "a + n * ?rs < 2 ^ 63"
  proof -
    have "a + n * ?rs \<le> length (concat ls) * ?rs" using total_len by (simp add: a_def algebra_simps)
    then show ?thesis using assms by (simp add: lists_fit_def)
  qed
  have si: "sint (of_nat m :: u64) = int m" if "m < 2 ^ 63" for m
    using that by (simp add: signed_of_nat signed_take_bit_int_eq_self)
  have s: "sint (of_nat a :: u64) = int a" "sint (of_nat a + of_nat n * of_nat ?rs :: u64) = int (a + n * ?rs)"
    using si [of a] si [of "a + n * ?rs"] an by simp_all
  have "read_postings frombits (list_bytes bits d (ls ! c) @ rest) d 0 n = Inr (map (stored_posting bits frombits d) (ls ! c))"
    using read_postings_ok [OF w1, of 0 n] by (simp add: n_def)
  moreover have "n \<noteq> 0" using True by (simp add: n_def)
  moreover have "offsets (posting_store bits d ls) c = Some (of_nat a, n)" using True by (simp add: offsets_posting_store a_def n_def)
  moreover have "ps_data (posting_store bits d ls) = Some (postings_file bits d ls)" "ps_dim (posting_store bits d ls) = d"
    "(\<not> ps_mapped (posting_store bits d ls)) = False" by (simp_all add: posting_store_def)
  moreover have "(int (length (postings_file bits d ls)) < int (a + n * ?rs)) = False" using fl by (simp only: of_nat_less_iff simp_thms not_less)
  moreover have "(int a < 0 \<or> int (a + n * ?rs) < int a) = False" by (simp only: of_nat_less_iff) simp
  ultimately show ?thesis
    using True unfolding GetPostings_def by (simp only: option.case prod.case Let_def s if_False nat_int drp go_bind.simps) simp
qed

text \<open>C12. Posting lists: when no write fails, \<open>WritePostings\<close> succeeds, opening the file gives a store, and the store
  returns for every centroid exactly the vectors of its list, in their order, cut to the dimension, and none for other
  centroids. The counts must fit into 32 bits and the file into 63.\<close>

theorem postings_roundtrip:
  assumes "lists_fit d ls" "0 < d" "\<And>l p x. l \<in> set ls \<Longrightarrow> p \<in> set l \<Longrightarrow> x \<in> set (po_vector p) \<Longrightarrow> frombits (bits x) = x"
  shows "\<exists>f' s. WritePostings Succeeds (\<lambda>_. Whole) Succeeds bits path ls d f = Inr (Returns None, f') \<and>
    (\<forall>p. p \<noteq> path \<longrightarrow> f' p = f p) \<and> NewMmapPostingStore (\<lambda>_. None) path d f' = Inr (Inr s) \<and>
    (\<forall>c. GetPostings frombits c s = Inr (Inr (if c < length ls then map (\<lambda>p. \<lparr>po_id = po_id p, po_vector = take d (po_vector p)\<rparr>) (ls ! c) else [])))"
proof -
  have w: "\<forall>l \<in> set ls. wide d l" using assms(1) by (simp add: lists_fit_def)
  have st: "map (stored_posting bits frombits d) (ls ! c) = map (\<lambda>p. \<lparr>po_id = po_id p, po_vector = take d (po_vector p)\<rparr>) (ls ! c)"
    if "c < length ls" for c
    using assms(3) [OF nth_mem [OF that]] by (auto simp: stored_posting_def intro!: map_idI dest: in_set_takeD)
  define f' where "f' = f(path \<mapsto> postings_file bits d ls)"
  have "NewMmapPostingStore (\<lambda>_. None) path d f' = Inr (Inr (posting_store bits d ls))"
    by (rule NewMmapPostingStore_complete [OF assms(1)]) (simp add: f'_def)
  then show ?thesis
    using WritePostings_whole [OF assms(2) w, of bits path f] GetPostings_complete [OF assms(1), of frombits _ bits] st
    by (intro exI [of _ f'] exI [of _ "posting_store bits d ls"]) (auto simp: f'_def)
qed

text \<open>A lost write is not noticed: when the first write stores nothing, \<open>WritePostings\<close> still succeeds, and what
  is read back are other identifiers and other vectors.\<close>

theorem lost_write_unnoticed:
  "\<exists>f' s ps. WritePostings Succeeds (\<lambda>k. if k = 0 then Short 0 else Whole) Succeeds id ''p'' [[\<lparr>po_id = 1, po_vector = [5 :: u32]\<rparr>]] 1 Map.empty = Inr (Returns None, f') \<and>
    NewMmapPostingStore (\<lambda>_. None) ''p'' 1 f' = Inr (Inr s) \<and> GetPostings id 0 s = Inr (Inr ps) \<and> ps \<noteq> [\<lparr>po_id = 1, po_vector = [5]\<rparr>]"
proof -
  let ?w = "WritePostings Succeeds (\<lambda>k. if k = 0 then Short 0 else Whole) Succeeds id ''p'' [[\<lparr>po_id = 1, po_vector = [5 :: u32]\<rparr>]] 1 Map.empty"
  let ?c = "le_encode 4 (5 :: u32) @ footer_entry 0 0 1 @ le_encode 4 (1 :: u32)"
  have w: "?w = Inr (Returns None, [''p'' \<mapsto> ?c])"
    by (simp add: WritePostings_def wr_bind_def f_write_def wr_ret_def footer_entry_def)
  have c: "?c = [5, 0, 0, 0, 0, 0, 0, 0, 0, 0, 0, 0, 0, 0, 0, 0, 1, 0, 0, 0, 1, 0, 0, 0]" by code_simp
  have n: "NewMmapPostingStore (\<lambda>_. None) ''p'' 1 [''p'' \<mapsto> ?c] = Inr (Inr \<lparr>ps_data = Some ?c, ps_dim = 1, offsets = [0 \<mapsto> (0, 1)], ps_mapped = True\<rparr>)"
    unfolding c by (simp add: NewMmapPostingStore_def readHeader_def Let_def slice_def numeral_eq_Suc)
  have g: "GetPostings id 0 \<lparr>ps_data = Some ?c, ps_dim = 1, offsets = [0 \<mapsto> (0, 1)], ps_mapped = True\<rparr> = Inr (Inr [\<lparr>po_id = 5, po_vector = [0 :: u32]\<rparr>])"
    unfolding c by (simp add: GetPostings_def Let_def slice_def)
  have "[\<lparr>po_id = 5, po_vector = [0 :: u32]\<rparr>] \<noteq> [\<lparr>po_id = 1, po_vector = [5]\<rparr>]" by simp
  with w n g show ?thesis by blast
qed

theorem postings_roundtrip_witness:
  "\<exists>f' s. WritePostings Succeeds (\<lambda>_. Whole) Succeeds id ''p'' [[], [\<lparr>po_id = 7, po_vector = [1, 2, 3 :: u32]\<rparr>]] 2 Map.empty = Inr (Returns None, f') \<and>
     NewMmapPostingStore (\<lambda>_. None) ''p'' 2 f' = Inr (Inr s) \<and> GetPostings id 1 s = Inr (Inr [\<lparr>po_id = 7, po_vector = [1, 2]\<rparr>])"
proof -
  have l: "lists_fit 2 [[], [\<lparr>po_id = 7, po_vector = [1, 2, 3 :: u32]\<rparr>]]" by (simp add: lists_fit_def)
  show ?thesis using postings_roundtrip [OF l, of id id "''p''" Map.empty] by fastforce
qed

end
