(* ===== verification/Spann_Index.thy ===== *)
theory Spann_Index
  imports Posting_Store Hnsw_System Ivf_Search
begin

section \<open>The SPANN index\<close>

text \<open>
  Models \<open>internal/index/spann/spann.go\<close>: an HNSW index over the centroids, the posting lists of the centroids in a
  mapped file, and a buffer of the vectors inserted since the last rebuild. The parameters, in the record \<open>spann_env\<close>,
  are those of the HNSW index, the conversions of \<open>float32\<close> to and from its bits and the order in which \<open>range\<close> visits
  the offsets; the record \<open>rebuild_io\<close> has the outcomes of the system calls of one rebuild. The random choice of the
  first centroids draws until it finds an unused index, so a rebuild has the result \<open>None\<close> when the draws given do
  not let it return. The applier of the centroid index runs between the operations.
\<close>

record 'f SPANNIndex =
  spn_dim :: nat
  spn_metric :: string
  spn_distFn :: metric_fn
  numCents :: nat
  spn_nprobe :: nat
  centroidHNSW :: "'f HNSWIndex option"
  spn_centroids :: "'f list list"
  spn_store :: "MmapPostingStore option"
  storePath :: string
  idToCentroid :: "u64 \<rightharpoonup> int"
  spn_deleted :: "u64 set"
  dirtyBuf :: "'f posting list"
  spn_built :: bool

record 'f spann_env =
  spn_hnsw :: "'f hnsw_env"
  float_bits :: "'f \<Rightarrow> u32"
  bits_float :: "u32 \<Rightarrow> 'f"
  range_offsets :: "nat set \<Rightarrow> nat list"

record rebuild_io =
  io_create :: outcome
  io_writes :: "nat \<Rightarrow> write_result"
  io_sync :: outcome
  io_open :: "nat \<Rightarrow> error option"
  io_close :: "nat \<Rightarrow> error option"

definition NewSPANNIndex :: "string \<Rightarrow> int \<Rightarrow> int \<Rightarrow> int \<Rightarrow> string \<Rightarrow> error + 'f SPANNIndex" where
  \<comment> \<open>the first argument is the path with the random number\<close>
  "NewSPANNIndex path d numCentroids nprobe metric =
     (if d \<le> 0 then Inl (Newf ErrDimensionMismatch)
      else case GetDistanceFunc metric of None \<Rightarrow> Inl (OtherError ''distance: unknown metric'' None)
      | Some fn \<Rightarrow> Inr \<lparr>spn_dim = nat d, spn_metric = metric, spn_distFn = fn,
          numCents = (if numCentroids \<le> 0 then 256 else nat numCentroids), spn_nprobe = (if nprobe \<le> 0 then 5 else nat nprobe),
          centroidHNSW = None, spn_centroids = [], spn_store = None, storePath = path, idToCentroid = Map.empty,
          spn_deleted = {}, dirtyBuf = [], spn_built = False\<rparr>)"

definition spn_distance :: "'f spann_env \<Rightarrow> 'f SPANNIndex \<Rightarrow> 'f list \<Rightarrow> 'f list \<Rightarrow> 'f::linordered_field" where
  "spn_distance e idx = apply_metric (rt32 (plat (spn_hnsw e))) (spn_distFn idx)"

subsection \<open>Insertion and deletion\<close>

fun in_buffer :: "u64 \<Rightarrow> 'f posting list \<Rightarrow> bool" where
  \<comment> \<open>the loop over the dirty buffer\<close>
  "in_buffer x [] = False"
| "in_buffer x (p # ps) = (if po_id p = x then True else in_buffer x ps)"

definition spn_Insert :: "u64 \<Rightarrow> 'f list \<Rightarrow> 'f SPANNIndex \<Rightarrow> 'f SPANNIndex \<times> error option" where
  "spn_Insert x v idx =
     (if length v \<noteq> spn_dim idx then (idx, Some (Newf ErrDimensionMismatch))
      else if idToCentroid idx x \<noteq> None then (idx, Some (Newf ErrDuplicateID))
      else if in_buffer x (dirtyBuf idx) then (idx, Some (Newf ErrDuplicateID))
      else let buf = dirtyBuf idx @ [\<lparr>po_id = x, po_vector = v\<rparr>] in
        if \<not> spn_built idx then (idx\<lparr>dirtyBuf := buf\<rparr>, None)
        else (idx\<lparr>dirtyBuf := buf, idToCentroid := (idToCentroid idx)(x \<mapsto> - 1)\<rparr>, None))"

definition spn_Delete :: "u64 \<Rightarrow> 'f SPANNIndex \<Rightarrow> 'f SPANNIndex \<times> error option" where
  "spn_Delete x idx =
     (if idToCentroid idx x = None \<and> \<not> in_buffer x (dirtyBuf idx) then (idx, Some (Newf ErrVectorNotFound))
      else (idx\<lparr>spn_deleted := insert x (spn_deleted idx)\<rparr>, None))"

definition live_only :: "'f SPANNIndex \<Rightarrow> 'f posting list \<Rightarrow> 'f posting list" where
  \<comment> \<open>\<open>if s.deleted[p.id] { continue }\<close>\<close>
  "live_only idx = filter (\<lambda>p. po_id p \<notin> spn_deleted idx)"

fun read_lists :: "(u32 \<Rightarrow> 'f) \<Rightarrow> MmapPostingStore \<Rightarrow> nat list \<Rightarrow> 'f posting list go" where
  \<comment> \<open>\<open>for cid := range s.store.offsets\<close>: a list that cannot be read counts as empty\<close>
  "read_lists frombits s [] = Inr []"
| "read_lists frombits s (cid # cids) =
     go_bind (GetPostings frombits cid s) (\<lambda>posts. go_bind (read_lists frombits s cids) (\<lambda>rest.
       Inr ((case posts of Inl _ \<Rightarrow> [] | Inr ps \<Rightarrow> ps) @ rest)))"

definition stored_postings :: "'f spann_env \<Rightarrow> 'f SPANNIndex \<Rightarrow> 'f posting list go" where
  "stored_postings e idx =
     (case spn_store idx of None \<Rightarrow> Inr []
      | Some s \<Rightarrow> read_lists (bits_float e) s (range_offsets e (dom (offsets s))))"

definition spn_Len :: "'f spann_env \<Rightarrow> 'f SPANNIndex \<Rightarrow> nat go" where
  "spn_Len e idx =
     go_bind (stored_postings e idx) (\<lambda>ps. Inr (length (live_only idx ps) + length (live_only idx (dirtyBuf idx))))"

definition spn_ExportVectors :: "'f spann_env \<Rightarrow> 'f SPANNIndex \<Rightarrow> (u64 \<times> 'f list) list go" where
  "spn_ExportVectors e idx =
     go_bind (stored_postings e idx) (\<lambda>ps.
       Inr (map (\<lambda>p. (po_id p, po_vector p)) (live_only idx ps @ live_only idx (dirtyBuf idx))))"

subsection \<open>Search\<close>

definition candidates_of :: "'f spann_env \<Rightarrow> 'f SPANNIndex \<Rightarrow> 'f list \<Rightarrow> 'f posting list \<Rightarrow> 'f::linordered_field SearchResult list" where
  "candidates_of e idx q ps = map (\<lambda>p. result_of (po_id p) (spn_distance e idx q (po_vector p))) (live_only idx ps)"

definition select_top :: "'f spann_env \<Rightarrow> 'f SPANNIndex \<Rightarrow> nat \<Rightarrow> 'f::linordered_field SearchResult list \<Rightarrow> 'f SearchResult list" where
  "select_top e idx k candidates =
     map (\<lambda>r. r\<lparr>Score := ScoreFromDistance (rt32 (plat (spn_hnsw e))) (Distance r) (spn_metric idx)\<rparr>)
       (let c = rsort (spn_hnsw e) candidates in if length c > k then take k c else c)"

definition bruteForceSearch :: "'f spann_env \<Rightarrow> 'f list \<Rightarrow> nat \<Rightarrow> 'f SPANNIndex \<Rightarrow> 'f::linordered_field SearchResult list" where
  "bruteForceSearch e q k idx = select_top e idx k (candidates_of e idx q (dirtyBuf idx))"

fun scan_cells ::
  "'f spann_env \<Rightarrow> 'f list \<Rightarrow> 'f SPANNIndex \<Rightarrow> 'f SearchResult list \<Rightarrow> 'f::linordered_field SearchResult list \<Rightarrow> (error + 'f SearchResult list) go" where
  \<comment> \<open>\<open>for _, cr := range centroidResults\<close>\<close>
  "scan_cells e q idx [] candidates = Inr (Inr candidates)"
| "scan_cells e q idx (cr # crs) candidates =
     (case spn_store idx of None \<Rightarrow> Inl NilDereference
      | Some s \<Rightarrow>
          go_bind (GetPostings (bits_float e) (unat (ID cr)) s) (\<lambda>posts. case posts of
            Inl err \<Rightarrow> Inr (Inl err)
          | Inr ps \<Rightarrow> scan_cells e q idx crs (candidates @ candidates_of e idx q ps)))"

definition spn_Search ::
  "'f spann_env \<Rightarrow> (nat \<Rightarrow> error option) \<Rightarrow> visitedTracker \<Rightarrow> 'f list \<Rightarrow> int \<Rightarrow> int \<Rightarrow> 'f::linordered_field SPANNIndex \<Rightarrow>
    (error + 'f SearchResult list) go" where
  "spn_Search e ctx vt query k nprobe idx =
     (if length query \<noteq> spn_dim idx then Inr (Inl (Newf ErrDimensionMismatch))
      else if k \<le> 0 then Inr (Inr [])
      else let nprobe = (if nprobe \<le> 0 then int (spn_nprobe idx) else nprobe) in
        if \<not> spn_built idx then Inr (Inr (bruteForceSearch e query (nat k) idx))
        else (case centroidHNSW idx of None \<Rightarrow> Inl NilDereference
          | Some h \<Rightarrow>
              go_bind (hn_Search (spn_hnsw e) ctx vt query nprobe (nprobe * 2) h) (\<lambda>r. case r of
                Inl err \<Rightarrow> Inr (Inl err)
              | Inr centroidResults \<Rightarrow>
                  go_bind (scan_cells e query idx centroidResults []) (\<lambda>r. case r of
                    Inl err \<Rightarrow> Inr (Inl err)
                  | Inr candidates \<Rightarrow>
                      Inr (Inr (select_top e idx (nat k) (candidates @ candidates_of e idx query (dirtyBuf idx))))))))"

subsection \<open>Clustering\<close>

definition nearest_centroid ::
  "'f spann_env \<Rightarrow> 'f SPANNIndex \<Rightarrow> 'f list list \<Rightarrow> nat \<Rightarrow> 'f::linordered_field list \<Rightarrow> nat go" where
  \<comment> \<open>the loop \<open>for c := 0; c < k; c++\<close> over the centroids\<close>
  "nearest_centroid e idx cs k v =
     go_bind (for_each (\<lambda>c (nearest, nearestDist).
         go_bind (get_at cs c) (\<lambda>centroid.
           let x = spn_distance e idx v centroid in Inr (if x < nearestDist then (c, x) else (nearest, nearestDist))))
       [0..<k] (0, hnsw_env.maxFloat (spn_hnsw e))) (\<lambda>(nearest, _). Inr nearest)"

definition spn_nearestCentroid :: "'f spann_env \<Rightarrow> 'f SPANNIndex \<Rightarrow> 'f::linordered_field list \<Rightarrow> nat go" where
  "spn_nearestCentroid e idx v = nearest_centroid e idx (spn_centroids idx) (length (spn_centroids idx)) v"

definition assign_cell ::
  "'f spann_env \<Rightarrow> 'f SPANNIndex \<Rightarrow> 'f::linordered_field posting list \<Rightarrow> 'f list list \<Rightarrow> nat \<Rightarrow> nat \<Rightarrow> nat list \<times> nat \<Rightarrow> (nat list \<times> nat) go" where
  "assign_cell e idx data cs k i st = (case st of (asg, changes) \<Rightarrow>
     go_bind (get_at data i) (\<lambda>p.
     go_bind (nearest_centroid e idx cs k (po_vector p)) (\<lambda>nearest.
     go_bind (get_at asg i) (\<lambda>old.
       Inr (if nearest \<noteq> old then (asg[i := nearest], changes + 1) else (asg, changes))))))"

definition add_vector :: "nat \<Rightarrow> 'f::linordered_field list \<Rightarrow> 'f list \<Rightarrow> 'f list go" where
  "add_vector d v row = for_each (\<lambda>j row. go_bind (get_at v j) (\<lambda>x. go_bind (get_at row j) (\<lambda>y. put_at row j (y + x)))) [0..<d] row"

definition scale_vector :: "nat \<Rightarrow> 'f::linordered_field \<Rightarrow> 'f list \<Rightarrow> 'f list go" where
  "scale_vector d invN row = for_each (\<lambda>j row. go_bind (get_at row j) (\<lambda>y. put_at row j (y * invN))) [0..<d] row"

definition sum_cell ::
  "nat \<Rightarrow> 'f::linordered_field posting list \<Rightarrow> nat list \<Rightarrow> nat \<Rightarrow> 'f list list \<times> nat list \<Rightarrow> ('f list list \<times> nat list) go" where
  "sum_cell d data asg i st = (case st of (cs, counts) \<Rightarrow>
     go_bind (get_at data i) (\<lambda>p.
     go_bind (get_at asg i) (\<lambda>c.
     go_bind (get_at counts c) (\<lambda>n.
     go_bind (put_at counts c (n + 1)) (\<lambda>counts.
     go_bind (get_at cs c) (\<lambda>row.
     go_bind (add_vector d (po_vector p) row) (\<lambda>row.
     go_bind (put_at cs c row) (\<lambda>cs. Inr (cs, counts)))))))))"

definition average_cell :: "nat \<Rightarrow> 'f::linordered_field list list \<Rightarrow> nat list \<Rightarrow> nat \<Rightarrow> 'f list list \<Rightarrow> 'f list list go" where
  \<comment> \<open>a centroid without vectors keeps its place\<close>
  "average_cell d old counts c cs =
     go_bind (get_at counts c) (\<lambda>n.
     go_bind (get_at cs c) (\<lambda>row.
       if n > 0 then go_bind (scale_vector d (1 / of_nat n) row) (put_at cs c)
       else go_bind (get_at old c) (\<lambda>centroid. go_bind (copy_into row 0 (length row) centroid) (put_at cs c))))"

fun cluster_loop ::
  "'f spann_env \<Rightarrow> 'f SPANNIndex \<Rightarrow> 'f posting list \<Rightarrow> nat \<Rightarrow> nat \<Rightarrow> nat list \<Rightarrow> 'f::linordered_field list list \<Rightarrow> 'f list list go" where
  "cluster_loop e idx data k 0 asg cs = Inr cs"
| "cluster_loop e idx data k (Suc iters) asg cs =
     go_bind (for_each (assign_cell e idx data cs k) [0..<length data] (asg, 0)) (\<lambda>(asg, changes).
       if changes = 0 then Inr cs
       else go_bind (for_each (sum_cell (spn_dim idx) data asg) [0..<length data]
              (replicate k (replicate (spn_dim idx) 0), replicate k 0)) (\<lambda>(new, counts).
            go_bind (for_each (average_cell (spn_dim idx) cs counts) [0..<k] new) (\<lambda>new.
              cluster_loop e idx data k iters asg new)))"

definition spn_kmeans ::
  "'f spann_env \<Rightarrow> 'f SPANNIndex \<Rightarrow> nat list \<Rightarrow> 'f posting list \<Rightarrow> nat \<Rightarrow> nat \<Rightarrow> 'f::linordered_field list list option go" where
  \<comment> \<open>\<open>draws\<close> are the results of \<open>rng.Intn(n)\<close>\<close>
  "spn_kmeans e idx draws data k maxIter =
     (case draw_loop k [] draws of None \<Rightarrow> Inr None
      | Some (chosen, _) \<Rightarrow>
          go_bind (for_each (\<lambda>i cs. go_bind (get_at data i) (\<lambda>p.
              go_bind (copy_into (replicate (spn_dim idx) 0) 0 (spn_dim idx) (po_vector p)) (\<lambda>c. Inr (cs @ [c])))) chosen []) (\<lambda>cs.
          go_bind (cluster_loop e idx data k maxIter (replicate (length data) 0) cs) (\<lambda>cs. Inr (Some cs))))"

subsection \<open>Rebuild\<close>

fun insert_centroids :: "nat \<Rightarrow> 'f list list \<Rightarrow> 'f HNSWIndex \<Rightarrow> 'f HNSWIndex \<times> error option" where
  \<comment> \<open>\<open>for i, c := range centroids\<close>\<close>
  "insert_centroids i [] h = (h, None)"
| "insert_centroids i (c # cs) h =
     (case hn_Insert (of_nat i) c h of (h, err) \<Rightarrow> if err \<noteq> None then (h, err) else insert_centroids (i + 1) cs h)"

definition assign_posting ::
  "'f spann_env \<Rightarrow> 'f SPANNIndex \<Rightarrow> 'f list list \<Rightarrow> nat \<Rightarrow> 'f::linordered_field posting \<Rightarrow> 'f posting list list \<times> (u64 \<rightharpoonup> int) \<Rightarrow>
    ('f posting list list \<times> (u64 \<rightharpoonup> int)) go" where
  "assign_posting e idx cs k p st = (case st of (postings, cells) \<Rightarrow>
     go_bind (nearest_centroid e idx cs k (po_vector p)) (\<lambda>nearest.
     go_bind (get_at postings nearest) (\<lambda>l.
     go_bind (put_at postings nearest (l @ [p])) (\<lambda>postings. Inr (postings, cells(po_id p \<mapsto> int nearest))))))"

definition write_and_open ::
  "'f spann_env \<Rightarrow> rebuild_io \<Rightarrow> 'f SPANNIndex \<Rightarrow> 'f posting list list \<Rightarrow> fs \<Rightarrow> ((error + MmapPostingStore) exit \<times> fs) go" where
  \<comment> \<open>the new file and its mapping\<close>
  "write_and_open e io idx postings f =
     go_bind (WritePostings (io_create io) (io_writes io) (io_sync io) (float_bits e) (storePath idx) postings (spn_dim idx) f) (\<lambda>(r, f).
       case r of Stops \<Rightarrow> Inr (Stops, f)
       | Returns (Some err) \<Rightarrow> Inr (Returns (Inl err), f)
       | Returns None \<Rightarrow> go_bind (NewMmapPostingStore (io_open io) (storePath idx) (spn_dim idx) f) (\<lambda>s. Inr (Returns s, f)))"

definition commit_rebuild ::
  "'f spann_env \<Rightarrow> rebuild_io \<Rightarrow> 'f SPANNIndex \<Rightarrow> 'f HNSWIndex \<Rightarrow> 'f list list \<Rightarrow> 'f posting list list \<Rightarrow> (u64 \<rightharpoonup> int) \<Rightarrow> fs \<Rightarrow>
    ('f SPANNIndex \<times> error option exit \<times> fs) go" where
  \<comment> \<open>the part of \<open>Rebuild\<close> from the closing of the old store on\<close>
  "commit_rebuild e io idx h centroids postings cells f =
     (let idx = idx\<lparr>spn_store := map_option (\<lambda>s. fst (ps_Close (io_close io) s)) (spn_store idx)\<rparr> in
      go_bind (write_and_open e io idx postings f) (\<lambda>(r, f). Inr (case r of
        Stops \<Rightarrow> (idx, Stops, f)
      | Returns (Inl err) \<Rightarrow> (idx, Returns (Some err), f)
      | Returns (Inr s) \<Rightarrow>
          (idx\<lparr>centroidHNSW := Some h, spn_centroids := centroids, spn_store := Some s, idToCentroid := cells,
             dirtyBuf := [], spn_deleted := {}, spn_built := True\<rparr>, Returns None, f))))"

definition spn_Rebuild ::
  "'f spann_env \<Rightarrow> (nat \<Rightarrow> nat list) \<Rightarrow> rebuild_io \<Rightarrow> 'f SPANNIndex \<Rightarrow> fs \<Rightarrow> ('f::linordered_field SPANNIndex \<times> error option exit \<times> fs) option go" where
  "spn_Rebuild e draws io idx f =
     go_bind (stored_postings e idx) (\<lambda>stored.
     let allVecs = live_only idx (dirtyBuf idx) @ live_only idx stored; n = length allVecs in
       if n = 0 then Inr (Some (idx, Returns None, f))
       else let k = (if numCents idx > n then n else numCents idx) in
         go_bind (spn_kmeans e idx (draws n) allVecs k 20) (\<lambda>r. case r of None \<Rightarrow> Inr None
         | Some centroids \<Rightarrow>
         (case NewHNSWIndex (spn_hnsw e) (int (spn_dim idx)) 16 200 50 (spn_metric idx) of Inl err \<Rightarrow> Inr (Some (idx, Returns (Some err), f))
          | Inr h \<Rightarrow>
          (case insert_centroids 0 centroids h of
             (h, Some err) \<Rightarrow> Inr (Some (idx, Returns (Some err), f))
           | (h, None) \<Rightarrow>
             go_bind (for_each (assign_posting e idx centroids k) allVecs (replicate k [], Map.empty)) (\<lambda>(postings, cells).
               go_bind (commit_rebuild e io idx h centroids postings cells f) (\<lambda>r. Inr (Some r)))))))"

definition spn_Close :: "(nat \<Rightarrow> error option) \<Rightarrow> bool \<Rightarrow> 'f SPANNIndex \<Rightarrow> fs \<Rightarrow> 'f SPANNIndex \<times> fs" where
  \<comment> \<open>the errors of closing the store and of \<open>os.Remove\<close> are ignored; the centroid index is not closed\<close>
  "spn_Close io removed idx f =
     (case spn_store idx of None \<Rightarrow> idx | Some s \<Rightarrow> idx\<lparr>spn_store := None\<rparr>, if removed then f(storePath idx := None) else f)"

subsection \<open>Clustering does not panic\<close>

definition nearest_in :: "'f::linordered_field spann_env \<Rightarrow> 'f SPANNIndex \<Rightarrow> 'f list list \<Rightarrow> 'f list \<Rightarrow> nat \<Rightarrow> bool" where
  \<comment> \<open>a centroid of least distance; distances not below \<open>MaxFloat32\<close> do not count\<close>
  "nearest_in e idx cs v c \<longleftrightarrow> c < length cs \<and>
     (\<forall>c' < length cs. spn_distance e idx v (cs ! c') < hnsw_env.maxFloat (spn_hnsw e) \<longrightarrow> spn_distance e idx v (cs ! c) \<le> spn_distance e idx v (cs ! c'))"

definition vectors_of_dim :: "nat \<Rightarrow> 'f posting list \<Rightarrow> bool" where
  "vectors_of_dim d ps \<longleftrightarrow> (\<forall>p \<in> set ps. length (po_vector p) = d)"

definition rows_of_dim :: "nat \<Rightarrow> nat \<Rightarrow> 'f list list \<Rightarrow> bool" where
  "rows_of_dim k d cs \<longleftrightarrow> length cs = k \<and> (\<forall>c < k. length (cs ! c) = d)"

lemma rows_of_dim_upd: "rows_of_dim k d cs \<Longrightarrow> length row = d \<Longrightarrow> rows_of_dim k d (cs[c := row])"
  unfolding rows_of_dim_def by (metis length_list_update nth_list_update_eq nth_list_update_neq)

lemma nearest_centroid_ok:
  assumes "0 < length cs"
  shows "\<exists>c. nearest_centroid e idx cs (length cs) v = Inr c \<and> nearest_in e idx cs v c"
proof -
  let ?f = "\<lambda>c (nearest, nearestDist). go_bind (get_at cs c) (\<lambda>centroid.
    let x = spn_distance e idx v centroid in Inr (if x < nearestDist then (c, x) else (nearest, nearestDist)))"
  have "?f c (b, bd) = Inr (if spn_distance e idx v (cs ! c) < bd then (c, spn_distance e idx v (cs ! c)) else (b, bd))"
    if "c < length cs" for c b bd using that by (simp add: get_at_def)
  from argmin_loop [of "length cs" ?f, OF this, of "hnsw_env.maxFloat (spn_hnsw e)"]
  obtain b bd where "for_each ?f [0..<length cs] (0, hnsw_env.maxFloat (spn_hnsw e)) = Inr (b, bd)" "0 < length cs \<longrightarrow> b < length cs"
    "\<forall>c < length cs. spn_distance e idx v (cs ! c) < hnsw_env.maxFloat (spn_hnsw e) \<longrightarrow> spn_distance e idx v (cs ! b) \<le> spn_distance e idx v (cs ! c)"
    by blast
  then show ?thesis using assms unfolding nearest_centroid_def nearest_in_def by (intro exI [of _ b]) simp
qed

lemma assign_cell_ok:
  assumes "i < length data" "0 < k" "rows_of_dim k d cs" "cells_ok k (length data) asg"
  shows "\<exists>asg' ch'. assign_cell e idx data cs k i (asg, ch) = Inr (asg', ch') \<and> cells_ok k (length data) asg'"
proof -
  have k: "length cs = k" using assms(3) by (simp add: rows_of_dim_def)
  obtain c where c: "nearest_centroid e idx cs k (po_vector (data ! i)) = Inr c" "c < k"
    using nearest_centroid_ok [of cs e idx "po_vector (data ! i)"] assms(2) k by (auto simp: nearest_in_def)
  have "cells_ok k (length data) (asg[i := c])" using assms(1,4) c(2) by (simp add: cells_ok_def nth_list_update)
  then show ?thesis using assms(1,4) c by (simp add: assign_cell_def get_at_def cells_ok_def)
qed

lemma add_vector_ok:
  assumes "length v = d" "length row = d"
  shows "\<exists>row'. add_vector d v row = Inr row' \<and> length row' = d"
  unfolding add_vector_def
  by (rule for_range [where P = "\<lambda>i s. length s = d"]) (use assms in \<open>auto simp: get_at_def put_at_def\<close>)

lemma scale_vector_ok: "length row = d \<Longrightarrow> \<exists>row'. scale_vector d x row = Inr row' \<and> length row' = d"
  unfolding scale_vector_def
  by (rule for_range [where P = "\<lambda>i s. length s = d"]) (auto simp: get_at_def put_at_def)

lemma sum_cell_ok:
  assumes "i < length data" "vectors_of_dim d data" "cells_ok k (length data) asg" "rows_of_dim k d cs" "length counts = k"
  shows "\<exists>cs' counts'. sum_cell d data asg i (cs, counts) = Inr (cs', counts') \<and> rows_of_dim k d cs' \<and> length counts' = k"
proof -
  have c: "i < length asg" "asg ! i < k" using assms(1,3) by (auto simp: cells_ok_def)
  have v: "length (po_vector (data ! i)) = d" using assms(1,2) by (simp add: vectors_of_dim_def)
  obtain row where "add_vector d (po_vector (data ! i)) (cs ! (asg ! i)) = Inr row" "length row = d"
    using add_vector_ok [OF v, of "cs ! (asg ! i)"] assms(4) c(2) by (auto simp: rows_of_dim_def)
  then show ?thesis using assms(1,4,5) c rows_of_dim_upd [OF assms(4), of row "asg ! i"]
    by (simp add: sum_cell_def get_at_def put_at_def rows_of_dim_def)
qed

lemma average_cell_ok:
  assumes "c < k" "rows_of_dim k d old" "rows_of_dim k d cs" "length counts = k"
  shows "\<exists>cs'. average_cell d old counts c cs = Inr cs' \<and> rows_of_dim k d cs'"
proof (cases "0 < counts ! c")
  case True
  obtain row where "scale_vector d (1 / of_nat (counts ! c)) (cs ! c) = Inr row" "length row = d"
    using scale_vector_ok [of "cs ! c" d] assms(1,3) by (auto simp: rows_of_dim_def)
  then show ?thesis using True assms rows_of_dim_upd [OF assms(3), of row c]
    by (simp add: average_cell_def get_at_def put_at_def rows_of_dim_def)
next
  case False
  then show ?thesis using assms rows_of_dim_upd [OF assms(3), of "old ! c" c]
    by (simp add: average_cell_def get_at_def put_at_def rows_of_dim_def copy_into_def Let_def)
qed

lemma cluster_loop_ok:
  assumes "0 < k" "vectors_of_dim (spn_dim idx) data" "rows_of_dim k (spn_dim idx) cs" "cells_ok k (length data) asg"
  shows "\<exists>cs'. cluster_loop e idx data k iters asg cs = Inr cs' \<and> rows_of_dim k (spn_dim idx) cs'"
  using assms(3,4)
proof (induction iters arbitrary: asg cs)
  case (Suc iters)
  let ?d = "spn_dim idx" and ?n = "length data"
  have "\<exists>s'. for_each (assign_cell e idx data cs k) [0..<?n] (asg, 0) = Inr s' \<and> cells_ok k ?n (fst s')"
  proof (rule for_range [where P = "\<lambda>i s. cells_ok k ?n (fst s)"])
    fix i and s :: "nat list \<times> nat"
    assume "i < ?n" "cells_ok k ?n (fst s)"
    then show "\<exists>s'. assign_cell e idx data cs k i s = Inr s' \<and> cells_ok k ?n (fst s')"
      using assign_cell_ok [of i data k ?d cs "fst s" e idx "snd s"] assms(1) Suc.prems(1) by auto
  qed (use Suc.prems in auto)
  then obtain asg1 ch where 1: "for_each (assign_cell e idx data cs k) [0..<?n] (asg, 0) = Inr (asg1, ch)" "cells_ok k ?n asg1" by fastforce
  have "\<exists>s'. for_each (sum_cell ?d data asg1) [0..<?n] (replicate k (replicate ?d 0), replicate k 0) = Inr s' \<and>
    rows_of_dim k ?d (fst s') \<and> length (snd s') = k"
  proof (rule for_range [where P = "\<lambda>i s. rows_of_dim k ?d (fst s) \<and> length (snd s) = k"])
    fix i and s :: "'a list list \<times> nat list"
    assume "i < ?n" "rows_of_dim k ?d (fst s) \<and> length (snd s) = k"
    then show "\<exists>s'. sum_cell ?d data asg1 i s = Inr s' \<and> rows_of_dim k ?d (fst s') \<and> length (snd s') = k"
      using sum_cell_ok [OF _ assms(2) 1(2), of i "fst s" "snd s"] by auto
  qed (simp_all add: rows_of_dim_def)
  then obtain cs1 counts where 2: "for_each (sum_cell ?d data asg1) [0..<?n] (replicate k (replicate ?d 0), replicate k 0) = Inr (cs1, counts)"
    "rows_of_dim k ?d cs1" "length counts = k" by fastforce
  have "\<exists>s'. for_each (average_cell ?d cs counts) [0..<k] cs1 = Inr s' \<and> rows_of_dim k ?d s'"
    by (rule for_range [where P = "\<lambda>i s. rows_of_dim k ?d s"]) (use 2 average_cell_ok [OF _ Suc.prems(1)] in auto)
  then obtain cs2 where 3: "for_each (average_cell ?d cs counts) [0..<k] cs1 = Inr cs2" "rows_of_dim k ?d cs2" by blast
  show ?case using 1 2 3 Suc.IH [OF 3(2) 1(2)] Suc.prems(1) by (cases "ch = 0") simp_all
qed simp

lemma spn_kmeans_ok:
  assumes "0 < k" "vectors_of_dim (spn_dim idx) data" "set draws \<subseteq> {..<length data}"
  shows "\<exists>r. spn_kmeans e idx draws data k iters = Inr r \<and> (\<forall>cs. r = Some cs \<longrightarrow> rows_of_dim k (spn_dim idx) cs)"
proof (cases "draw_loop k [] draws")
  case None
  then show ?thesis by (simp add: spn_kmeans_def)
next
  case (Some x)
  let ?d = "spn_dim idx"
  obtain ch rest where s: "draw_loop k [] draws = Some (ch, rest)" using Some by (cases x) simp
  note sl = draw_loop_ok [OF s]
  let ?f = "\<lambda>i cs. go_bind (get_at data i) (\<lambda>p. go_bind (copy_into (replicate ?d 0) 0 ?d (po_vector p)) (\<lambda>c. Inr (cs @ [c])))"
  have sub: "set ch \<subseteq> {..<length data}" using sl assms(3) by auto
  have "\<exists>s'. for_each ?f ch [] = Inr s' \<and> (set ([] :: nat list) \<subseteq> {..<length data} \<and> length s' + length ([] :: nat list) = length ch \<and> (\<forall>c \<in> set s'. length c = ?d))"
  proof (rule for_list [where P = "\<lambda>xs s. set xs \<subseteq> {..<length data} \<and> length s + length xs = length ch \<and> (\<forall>c \<in> set s. length c = ?d)"])
    fix i ys and s :: "'a list list"
    assume p: "set (i # ys) \<subseteq> {..<length data} \<and> length s + length (i # ys) = length ch \<and> (\<forall>c \<in> set s. length c = ?d)"
    have "length (po_vector (data ! i)) = ?d" using p assms(2) by (simp add: vectors_of_dim_def)
    then show "\<exists>s'. ?f i s = Inr s' \<and> set ys \<subseteq> {..<length data} \<and> length s' + length ys = length ch \<and> (\<forall>c \<in> set s'. length c = ?d)"
      using p by (auto simp: get_at_def copy_into_def Let_def)
  qed (use sub in simp)
  then obtain cs where cs: "for_each ?f ch [] = Inr cs" "length cs = length ch" "\<forall>c \<in> set cs. length c = ?d" by auto
  then have r: "rows_of_dim k ?d cs" using sl by (simp add: rows_of_dim_def)
  have "cells_ok k (length data) (replicate (length data) 0)" using assms(1) by (simp add: cells_ok_def)
  from cluster_loop_ok [OF assms(1,2) r this]
  obtain cs' where "cluster_loop e idx data k iters (replicate (length data) 0) cs = Inr cs'" "rows_of_dim k ?d cs'" by blast
  then show ?thesis using cs(1) s by (simp add: spn_kmeans_def)
qed

end
