(* ===== verification/Spann_System.thy ===== *)
theory Spann_System
  imports Spann_Index
begin

section \<open>Runs of the SPANN index\<close>

text \<open>
  The invariant of the index of theory \<open>Spann_Index\<close>, what its operations do to the set of vectors, deleted ones
  included, what a search returns, and what a rebuild that fails leaves behind.
\<close>

subsection \<open>The invariant\<close>

definition spann_env_ok :: "'f::linordered_field spann_env \<Rightarrow> bool" where
  "spann_env_ok e \<longleftrightarrow> env_ok (spn_hnsw e) \<and> (\<forall>S. finite S \<longrightarrow> set (range_offsets e S) = S \<and> distinct (range_offsets e S))"

definition is_float32 :: "'f spann_env \<Rightarrow> 'f list \<Rightarrow> bool" where
  "is_float32 e v \<longleftrightarrow> (\<forall>x \<in> set v. bits_float e (float_bits e x) = x)"

definition navigator_ok :: "nat \<Rightarrow> nat \<Rightarrow> 'f::linordered_field HNSWIndex \<Rightarrow> bool" where
  \<comment> \<open>the index over \<open>k\<close> centroids: none was deleted, the pending ones are not yet in the graph\<close>
  "navigator_ok d k h \<longleftrightarrow> hn_inv h \<and> hn_dim h = d \<and> HNSWIndex.deleted h = {} \<and> exact h \<and> distinct (map fst (HNSWIndex.dirty h)) \<and>
     fst ` set (HNSWIndex.dirty h) \<inter> dom (idToNode h) = {} \<and>
     fst ` set (HNSWIndex.dirty h) \<union> dom (idToNode h) = of_nat ` {..<k}"

definition spn_all :: "'f SPANNIndex \<Rightarrow> 'f posting list list \<Rightarrow> 'f posting list" where
  \<comment> \<open>all postings, deleted ones included, when the file has the lists \<open>ls\<close>\<close>
  "spn_all idx ls = dirtyBuf idx @ concat ls"

definition built_ok :: "'f::linordered_field spann_env \<Rightarrow> 'f SPANNIndex \<Rightarrow> 'f posting list list \<Rightarrow> bool" where
  "built_ok e idx ls \<longleftrightarrow> spn_store idx = Some (posting_store (float_bits e) (spn_dim idx) ls) \<and> lists_fit (spn_dim idx) ls \<and> concat ls \<noteq> [] \<and>
     dom (idToCentroid idx) = po_id ` set (spn_all idx ls) \<and> length (spn_centroids idx) = length ls \<and>
     (\<exists>h. centroidHNSW idx = Some h \<and> navigator_ok (spn_dim idx) (length ls) h) \<and>
     (\<forall>c < length ls. \<forall>p \<in> set (ls ! c). nearest_in e idx (spn_centroids idx) (po_vector p) c)"

definition spn_inv :: "'f::linordered_field spann_env \<Rightarrow> 'f SPANNIndex \<Rightarrow> 'f posting list list \<Rightarrow> bool" where
  "spn_inv e idx ls \<longleftrightarrow> 0 < spn_dim idx \<and> 0 < numCents idx \<and> GetDistanceFunc (spn_metric idx) = Some (spn_distFn idx) \<and>
     distinct (map po_id (spn_all idx ls)) \<and> vectors_of_dim (spn_dim idx) (spn_all idx ls) \<and>
     (\<forall>p \<in> set (spn_all idx ls). is_float32 e (po_vector p)) \<and> spn_deleted idx \<subseteq> po_id ` set (spn_all idx ls) \<and>
     (if spn_built idx then built_ok e idx ls else ls = [] \<and> spn_store idx = None \<and> centroidHNSW idx = None \<and> idToCentroid idx = Map.empty)"

lemma spn_invD:
  assumes "spn_inv e idx ls"
  shows "0 < spn_dim idx" "0 < numCents idx" "GetDistanceFunc (spn_metric idx) = Some (spn_distFn idx)"
    "distinct (map po_id (spn_all idx ls))" "vectors_of_dim (spn_dim idx) (spn_all idx ls)"
    "p \<in> set (spn_all idx ls) \<Longrightarrow> is_float32 e (po_vector p)" "spn_deleted idx \<subseteq> po_id ` set (spn_all idx ls)"
    "spn_built idx \<Longrightarrow> built_ok e idx ls" "\<not> spn_built idx \<Longrightarrow> ls = [] \<and> spn_store idx = None \<and> centroidHNSW idx = None \<and> idToCentroid idx = Map.empty"
  using assms by (simp_all add: spn_inv_def split: if_splits)

lemma spann_env_okD:
  assumes "spann_env_ok e"
  shows "env_ok (spn_hnsw e)" "finite S \<Longrightarrow> set (range_offsets e S) = S" "finite S \<Longrightarrow> distinct (range_offsets e S)"
  using assms by (auto simp: spann_env_ok_def)

lemma in_buffer_iff: "in_buffer x ps \<longleftrightarrow> x \<in> po_id ` set ps"
  by (induction ps) auto

lemma known_ids:
  assumes "spn_inv e idx ls"
  shows "(idToCentroid idx x \<noteq> None \<or> in_buffer x (dirtyBuf idx)) \<longleftrightarrow> x \<in> po_id ` set (spn_all idx ls)"
proof (cases "spn_built idx")
  case True
  have "dom (idToCentroid idx) = po_id ` set (spn_all idx ls)" using spn_invD(8) [OF assms True] by (simp add: built_ok_def)
  moreover have "po_id ` set (dirtyBuf idx) \<subseteq> po_id ` set (spn_all idx ls)" by (auto simp: spn_all_def)
  moreover have "(idToCentroid idx x \<noteq> None) = (x \<in> dom (idToCentroid idx))" by (simp add: domIff)
  ultimately show ?thesis by (simp only: in_buffer_iff) blast
next
  case False
  then show ?thesis using spn_invD(9) [OF assms False] by (simp add: in_buffer_iff spn_all_def)
qed

lemma NewSPANNIndex_inv: "NewSPANNIndex path d c p metric = Inr idx \<Longrightarrow> spn_inv e idx [] \<and> spn_dim idx = nat d \<and> spn_all idx [] = [] \<and> \<not> spn_built idx \<and> spn_metric idx = metric"
  by (auto simp: NewSPANNIndex_def spn_inv_def spn_all_def vectors_of_dim_def split: if_splits option.splits)

subsection \<open>The stored postings\<close>

lemma stored_posting_same:
  assumes "is_float32 e (po_vector p)" "length (po_vector p) = d"
  shows "stored_posting (float_bits e) (bits_float e) d p = p"
proof -
  have "map (\<lambda>x. bits_float e (float_bits e x)) (po_vector p) = po_vector p" using assms(1) by (auto simp: is_float32_def intro: map_idI)
  then show ?thesis using assms(2) by (simp add: stored_posting_def)
qed

lemma list_of_cell:
  assumes inv: "spn_inv e idx ls" and b: "spn_built idx"
  shows "GetPostings (bits_float e) c (posting_store (float_bits e) (spn_dim idx) ls) = Inr (Inr (if c < length ls then ls ! c else []))"
proof -
  have "map (stored_posting (float_bits e) (bits_float e) (spn_dim idx)) (ls ! c) = ls ! c" if "c < length ls"
  proof (rule map_idI)
    fix p assume "p \<in> set (ls ! c)"
    then have "p \<in> set (spn_all idx ls)" using that by (auto simp: spn_all_def)
    then show "stored_posting (float_bits e) (bits_float e) (spn_dim idx) p = p"
      using spn_invD(5,6) [OF inv] by (intro stored_posting_same) (auto simp: vectors_of_dim_def)
  qed
  then show ?thesis using GetPostings_complete [of "spn_dim idx" ls "bits_float e" c "float_bits e"] spn_invD(8) [OF inv b]
    by (simp add: built_ok_def)
qed

lemma read_lists_ok:
  assumes "\<And>c. GetPostings fb c s = Inr (Inr (g c))"
  shows "read_lists fb s cids = Inr (concat (map g cids))"
  by (induction cids) (simp_all add: assms)

lemma mset_concat_nonempty:
  assumes "set cids = {c. c < length ls \<and> ls ! c \<noteq> []}" "distinct cids"
  shows "mset (concat (map (\<lambda>c. if c < length ls then ls ! c else []) cids)) = mset (concat ls)"
proof -
  have m: "mset (concat (map g xs)) = (\<Sum>c \<in> set xs. mset (g c))" if "distinct xs" for g :: "nat \<Rightarrow> 'a list" and xs
    using that by (induction xs) auto
  have "mset (concat (map (\<lambda>c. if c < length ls then ls ! c else []) cids)) = (\<Sum>c \<in> set cids. mset (ls ! c))"
    unfolding m [OF assms(2)] by (rule sum.cong) (auto simp: assms(1))
  also have "\<dots> = (\<Sum>c \<in> {..<length ls}. mset (ls ! c))"
    by (rule sum.mono_neutral_left) (auto simp: assms(1))
  also have "\<dots> = mset (concat (map (\<lambda>c. ls ! c) [0..<length ls]))" unfolding m [OF distinct_upt] by (simp add: lessThan_atLeast0)
  finally show ?thesis by (simp add: map_nth)
qed

lemma stored_postings_ok:
  assumes inv: "spn_inv e idx ls" and e: "spann_env_ok e"
  shows "\<exists>ps. stored_postings e idx = Inr ps \<and> mset ps = mset (concat ls)"
proof (cases "spn_built idx")
  case True
  let ?s = "posting_store (float_bits e) (spn_dim idx) ls"
  have st: "spn_store idx = Some ?s" using spn_invD(8) [OF inv True] by (simp add: built_ok_def)
  have dm: "dom (offsets ?s) = {c. c < length ls \<and> ls ! c \<noteq> []}" by (auto simp: offsets_posting_store dom_def)
  then have "finite (dom (offsets ?s))" by simp
  note r = spann_env_okD(2,3) [OF e this]
  have "mset (concat (map (\<lambda>c. if c < length ls then ls ! c else []) (range_offsets e (dom (offsets ?s))))) = mset (concat ls)"
    by (rule mset_concat_nonempty) (use r dm in simp_all)
  then show ?thesis using read_lists_ok [OF list_of_cell [OF inv True]] st by (simp add: stored_postings_def)
next
  case False
  then show ?thesis using spn_invD(9) [OF inv False] by (simp add: stored_postings_def)
qed

subsection \<open>Operations and their specification\<close>

datatype 'f spn_op = SpInsert u64 "'f list" | SpDelete u64 | SpRebuild "nat \<Rightarrow> nat list" rebuild_io | SpTick "nat \<Rightarrow> visitedTracker"

definition centroid_tick :: "'f spann_env \<Rightarrow> (nat \<Rightarrow> visitedTracker) \<Rightarrow> 'f::linordered_field SPANNIndex \<Rightarrow> 'f SPANNIndex go" where
  \<comment> \<open>the background applier of the centroid index\<close>
  "centroid_tick e pool idx =
     (case centroidHNSW idx of None \<Rightarrow> Inr idx
      | Some h \<Rightarrow> go_bind (applier_tick (spn_hnsw e) pool h) (\<lambda>h. Inr (idx\<lparr>centroidHNSW := Some h\<rparr>)))"

fun spn_exec :: "'f spann_env \<Rightarrow> 'f spn_op \<Rightarrow> 'f::linordered_field SPANNIndex \<times> fs \<Rightarrow> (('f SPANNIndex \<times> fs) \<times> error option) option go" where
  \<comment> \<open>\<open>None\<close>: the operation does not return, or the process stops\<close>
  "spn_exec e (SpInsert x v) (idx, f) = (case spn_Insert x v idx of (idx, err) \<Rightarrow> Inr (Some ((idx, f), err)))"
| "spn_exec e (SpDelete x) (idx, f) = (case spn_Delete x idx of (idx, err) \<Rightarrow> Inr (Some ((idx, f), err)))"
| "spn_exec e (SpRebuild draws io) (idx, f) =
     go_bind (spn_Rebuild e draws io idx f) (\<lambda>r. Inr (case r of Some (idx, Returns err, f) \<Rightarrow> Some ((idx, f), err) | _ \<Rightarrow> None))"
| "spn_exec e (SpTick pool) (idx, f) = go_bind (centroid_tick e pool idx) (\<lambda>idx. Inr (Some ((idx, f), None)))"

fun spn_run :: "'f spann_env \<Rightarrow> 'f spn_op list \<Rightarrow> 'f::linordered_field SPANNIndex \<times> fs \<Rightarrow> (('f SPANNIndex \<times> fs) \<times> error option list) option go" where
  "spn_run e [] s = Inr (Some (s, []))"
| "spn_run e (x # xs) s =
     go_bind (spn_exec e x s) (\<lambda>r. case r of None \<Rightarrow> Inr None
     | Some (s, err) \<Rightarrow> go_bind (spn_run e xs s) (\<lambda>r. Inr (case r of None \<Rightarrow> None | Some (s, errs) \<Rightarrow> Some (s, err # errs))))"

definition no_faults :: "rebuild_io \<Rightarrow> bool" where
  "no_faults io \<longleftrightarrow> io_create io = Succeeds \<and> io_writes io = (\<lambda>_. Whole) \<and> io_sync io = Succeeds \<and> io_open io = (\<lambda>_. None)"

fun spn_op_ok :: "'f spann_env \<Rightarrow> 'f spn_op \<Rightarrow> bool" where
  "spn_op_ok e (SpInsert x v) = is_float32 e v"
| "spn_op_ok e (SpRebuild draws io) = (no_faults io \<and> (\<forall>n. set (draws n) \<subseteq> {..<n}))"
| "spn_op_ok e (SpTick pool) = trackers_ok pool"
| "spn_op_ok e _ = True"

fun enough_draws :: "'f spn_op \<Rightarrow> bool" where
  \<comment> \<open>every index is drawn at some time\<close>
  "enough_draws (SpRebuild draws io) = (\<forall>n. {..<n} \<subseteq> set (draws n))"
| "enough_draws _ = True"

text \<open>
  The specification: vectors with a mark whether they are live. A deleted identifier is occupied until a rebuild
  finds another vector to build from.
\<close>

type_synonym 'f marked = "u64 \<rightharpoonup> 'f list \<times> bool"

definition live_part :: "'f marked \<Rightarrow> 'f store" where
  "live_part m = (\<lambda>x. case m x of Some (v, True) \<Rightarrow> Some v | _ \<Rightarrow> None)"

fun marked_exec :: "nat \<Rightarrow> 'f spn_op \<Rightarrow> 'f marked \<Rightarrow> 'f marked \<times> error option" where
  "marked_exec d (SpInsert x v) m =
     (if length v \<noteq> d then (m, Some (Newf ErrDimensionMismatch)) else if x \<in> dom m then (m, Some (Newf ErrDuplicateID))
      else (m(x \<mapsto> (v, True)), None))"
| "marked_exec d (SpDelete x) m =
     (case m x of None \<Rightarrow> (m, Some (Newf ErrVectorNotFound)) | Some (v, _) \<Rightarrow> (m(x \<mapsto> (v, False)), None))"
| "marked_exec d (SpRebuild draws io) m =
     (if live_part m = Map.empty then (m, None) else (\<lambda>x. map_option (\<lambda>v. (v, True)) (live_part m x), None))"
| "marked_exec d (SpTick pool) m = (m, None)"

fun marked_run :: "nat \<Rightarrow> 'f spn_op list \<Rightarrow> 'f marked \<Rightarrow> 'f marked \<times> error option list" where
  "marked_run d [] m = (m, [])"
| "marked_run d (x # xs) m = (case marked_exec d x m of (m, err) \<Rightarrow> case marked_run d xs m of (m, errs) \<Rightarrow> (m, err # errs))"

definition marks :: "u64 set \<Rightarrow> 'f posting list \<Rightarrow> 'f marked" where
  "marks del ps = (\<lambda>x. map_option (\<lambda>v. (v, x \<notin> del)) (map_of (map (\<lambda>p. (po_id p, po_vector p)) ps) x))"

definition spn_abs :: "'f SPANNIndex \<Rightarrow> 'f posting list list \<Rightarrow> 'f marked" where
  "spn_abs idx ls = marks (spn_deleted idx) (spn_all idx ls)"

lemma dom_marks: "dom (marks del ps) = po_id ` set ps"
  by (auto simp: marks_def dom_def map_of_eq_None_iff image_iff)

lemma marks_nil [simp]: "marks del [] = Map.empty"
  by (simp add: marks_def fun_eq_iff)

lemma map_of_mset:
  assumes "mset xs = mset ys" "distinct (map fst xs)"
  shows "map_of xs = map_of ys"
proof -
  have "mset (map fst xs) = mset (map fst ys)" using assms(1) by (metis mset_map)
  then have "distinct (map fst ys)" using assms(2) by (metis mset_eq_imp_distinct_iff)
  moreover have "set xs = set ys" using assms(1) by (rule mset_eq_setD)
  ultimately show ?thesis using assms(2) by (simp add: map_of_inject_set)
qed

lemma marks_mset: "mset ps = mset qs \<Longrightarrow> distinct (map po_id ps) \<Longrightarrow> marks del ps = marks del qs"
proof -
  assume a: "mset ps = mset qs" "distinct (map po_id ps)"
  have "mset (map (\<lambda>p. (po_id p, po_vector p)) ps) = mset (map (\<lambda>p. (po_id p, po_vector p)) qs)" using a(1) by (metis mset_map)
  moreover have "distinct (map fst (map (\<lambda>p. (po_id p, po_vector p)) ps))" using a(2) by (simp add: comp_def)
  ultimately have "map_of (map (\<lambda>p. (po_id p, po_vector p)) ps) = map_of (map (\<lambda>p. (po_id p, po_vector p)) qs)" by (rule map_of_mset)
  then show ?thesis unfolding marks_def by (rule arg_cong)
qed

lemma live_marks: "live_part (marks del ps) = map_of (map (\<lambda>p. (po_id p, po_vector p)) (filter (\<lambda>p. po_id p \<notin> del) ps))"
proof (rule ext)
  fix x
  have "map_of (map (\<lambda>p. (po_id p, po_vector p)) (filter (\<lambda>p. po_id p \<notin> del) ps)) x =
    (if x \<in> del then None else map_of (map (\<lambda>p. (po_id p, po_vector p)) ps) x)" by (induction ps) auto
  then show "live_part (marks del ps) x = map_of (map (\<lambda>p. (po_id p, po_vector p)) (filter (\<lambda>p. po_id p \<notin> del) ps)) x"
    by (auto simp: live_part_def marks_def split: option.split)
qed

lemma marks_all_live: "(\<lambda>x. map_option (\<lambda>v. (v, True)) (live_part (marks del ps) x)) = marks {} (filter (\<lambda>p. po_id p \<notin> del) ps)"
  unfolding live_marks by (simp add: marks_def)

lemma spn_Insert_ok:
  assumes inv: "spn_inv e idx ls" and v: "is_float32 e v" and r: "spn_Insert x v idx = (idx', err)"
  shows "spn_inv e idx' ls" "spn_dim idx' = spn_dim idx" "(spn_abs idx' ls, err) = marked_exec (spn_dim idx) (SpInsert x v) (spn_abs idx ls)"
    "length (spn_all idx' ls) \<le> Suc (length (spn_all idx ls))"
proof -
  note I = spn_invD [OF inv] and k = known_ids [OF inv, of x]
  have dm: "dom (spn_abs idx ls) = po_id ` set (spn_all idx ls)" by (simp add: spn_abs_def dom_marks)
  have "spn_inv e idx' ls \<and> spn_dim idx' = spn_dim idx \<and> (spn_abs idx' ls, err) = marked_exec (spn_dim idx) (SpInsert x v) (spn_abs idx ls) \<and>
    length (spn_all idx' ls) \<le> Suc (length (spn_all idx ls))"
  proof (cases "length v = spn_dim idx \<and> x \<notin> po_id ` set (spn_all idx ls)")
    case False
    then have "idx' = idx" "err = (if length v \<noteq> spn_dim idx then Some (Newf ErrDimensionMismatch) else Some (Newf ErrDuplicateID))"
      using r k by (auto simp: spn_Insert_def split: if_splits)
    then show ?thesis using inv False by (auto simp: dm)
  next
    case True
    let ?p = "\<lparr>po_id = x, po_vector = v\<rparr>"
    have new: "idToCentroid idx x = None" "\<not> in_buffer x (dirtyBuf idx)" using True k by auto
    have r': "err = None" "dirtyBuf idx' = dirtyBuf idx @ [?p]" "spn_deleted idx' = spn_deleted idx" "spn_dim idx' = spn_dim idx"
      "spn_built idx' = spn_built idx" "spn_store idx' = spn_store idx" "centroidHNSW idx' = centroidHNSW idx" "spn_centroids idx' = spn_centroids idx"
      "numCents idx' = numCents idx" "spn_metric idx' = spn_metric idx" "spn_distFn idx' = spn_distFn idx"
      "idToCentroid idx' = (if spn_built idx then (idToCentroid idx)(x \<mapsto> - 1) else idToCentroid idx)"
      using r new True by (auto simp: spn_Insert_def Let_def split: if_splits)
    have nin: "nearest_in e idx' cs w c = nearest_in e idx cs w c" for cs w c by (simp add: nearest_in_def spn_distance_def r')
    have al: "set (spn_all idx' ls) = insert ?p (set (spn_all idx ls))" by (auto simp: spn_all_def r')
    have m: "mset (spn_all idx' ls) = mset (?p # spn_all idx ls)" by (simp add: spn_all_def r')
    have dd: "distinct (map po_id (?p # spn_all idx ls))" using True I(4) by simp
    have d: "distinct (map po_id (spn_all idx' ls))" using dd m by (metis mset_map mset_eq_imp_distinct_iff)
    have "x \<notin> spn_deleted idx" using True I(7) by blast
    then have "spn_abs idx' ls = (spn_abs idx ls)(x \<mapsto> (v, True))"
      unfolding spn_abs_def r' marks_mset [OF m d] by (auto simp: marks_def fun_eq_iff)
    moreover have "spn_inv e idx' ls"
      using I d v True unfolding spn_inv_def al built_ok_def nin
      by (auto simp: r' vectors_of_dim_def al)
    ultimately show ?thesis using True r'(1,4) by (auto simp: dm spn_all_def r'(2))
  qed
  then show "spn_inv e idx' ls" "spn_dim idx' = spn_dim idx" "(spn_abs idx' ls, err) = marked_exec (spn_dim idx) (SpInsert x v) (spn_abs idx ls)"
    "length (spn_all idx' ls) \<le> Suc (length (spn_all idx ls))" by blast+
qed

lemma spn_Delete_ok:
  assumes inv: "spn_inv e idx ls" and r: "spn_Delete x idx = (idx', err)"
  shows "spn_inv e idx' ls" "spn_dim idx' = spn_dim idx" "(spn_abs idx' ls, err) = marked_exec (spn_dim idx) (SpDelete x) (spn_abs idx ls)"
    "spn_all idx' ls = spn_all idx ls"
proof -
  note I = spn_invD [OF inv] and k = known_ids [OF inv, of x]
  have dm: "dom (spn_abs idx ls) = po_id ` set (spn_all idx ls)" by (simp add: spn_abs_def dom_marks)
  have "spn_inv e idx' ls \<and> spn_dim idx' = spn_dim idx \<and> (spn_abs idx' ls, err) = marked_exec (spn_dim idx) (SpDelete x) (spn_abs idx ls) \<and>
    spn_all idx' ls = spn_all idx ls"
  proof (cases "x \<in> po_id ` set (spn_all idx ls)")
    case False
    then have "idx' = idx" "err = Some (Newf ErrVectorNotFound)" using r k by (auto simp: spn_Delete_def split: if_splits)
    moreover have "spn_abs idx ls x = None" using False dm by (metis domIff)
    ultimately show ?thesis using inv by simp
  next
    case True
    have r': "idx' = idx\<lparr>spn_deleted := insert x (spn_deleted idx)\<rparr>" "err = None" using True r k by (auto simp: spn_Delete_def split: if_splits)
    have nin: "nearest_in e idx' cs w c = nearest_in e idx cs w c" for cs w c by (simp add: nearest_in_def spn_distance_def r')
    have al: "spn_all idx' ls = spn_all idx ls" by (simp add: spn_all_def r')
    obtain v b where v: "spn_abs idx ls x = Some (v, b)" using True dm by (metis domD prod.exhaust)
    have "spn_abs idx' ls = (spn_abs idx ls)(x \<mapsto> (v, False))"
      using v unfolding spn_abs_def al by (auto simp: r' marks_def fun_eq_iff)
    moreover have "spn_inv e idx' ls"
      using I True unfolding spn_inv_def al built_ok_def nin by (auto simp: r')
    ultimately show ?thesis using r' v al by simp
  qed
  then show "spn_inv e idx' ls" "spn_dim idx' = spn_dim idx" "(spn_abs idx' ls, err) = marked_exec (spn_dim idx) (SpDelete x) (spn_abs idx ls)"
    "spn_all idx' ls = spn_all idx ls" by blast+
qed

lemma centroid_tick_ok:
  assumes inv: "spn_inv e idx ls" and e: "spann_env_ok e" and p: "trackers_ok pool"
  shows "\<exists>idx'. centroid_tick e pool idx = Inr idx' \<and> spn_inv e idx' ls \<and> spn_dim idx' = spn_dim idx \<and> spn_abs idx' ls = spn_abs idx ls \<and>
    spn_all idx' ls = spn_all idx ls"
proof (cases "centroidHNSW idx")
  case None
  then show ?thesis using inv by (simp add: centroid_tick_def)
next
  case (Some h)
  then have b: "spn_built idx" using spn_invD(9) [OF inv] by auto
  have n: "navigator_ok (spn_dim idx) (length ls) h" using spn_invD(8) [OF inv b] Some by (simp add: built_ok_def)
  then have i: "hn_inv h" by (simp add: navigator_ok_def)
  have t: "\<forall>n. tracker_ok (pool n)" using p by (simp add: trackers_ok_def)
  obtain h' dr where d: "drainDirtyBuffer (spn_hnsw e) pool h = Inr (h', dr)" "hn_inv h'" "hn_dim h' = hn_dim h" "HNSWIndex.dirty h' = []"
    "HNSWIndex.deleted h' = HNSWIndex.deleted h" "dom (idToNode h') = dom (idToNode h) \<union> fst ` set (HNSWIndex.dirty h)" "exact h \<longrightarrow> exact h'"
    using drain_ok [OF spann_env_okD(1) [OF e] t i] by blast
  define g where "g = (if 0 < length (HNSWIndex.dirty h) then h' else h)"
  have g: "applier_tick (spn_hnsw e) pool h = Inr g" "navigator_ok (spn_dim idx) (length ls) g"
    using d n by (auto simp: applier_tick_def g_def navigator_ok_def)
  let ?i = "idx\<lparr>centroidHNSW := Some g\<rparr>"
  have nin: "nearest_in e ?i cs w c = nearest_in e idx cs w c" for cs w c by (simp add: nearest_in_def spn_distance_def)
  have al: "spn_all ?i ls = spn_all idx ls" by (simp add: spn_all_def)
  have "built_ok e ?i ls" using spn_invD(8) [OF inv b] g(2) unfolding built_ok_def al nin by simp
  then have "spn_inv e ?i ls" using inv b unfolding spn_inv_def al by simp
  then show ?thesis using g(1) Some al by (simp add: centroid_tick_def spn_abs_def)
qed

subsection \<open>A rebuild without faults\<close>

definition room :: "nat \<Rightarrow> nat \<Rightarrow> bool" where
  \<comment> \<open>the posting file of \<open>n\<close> vectors does not exceed the integers it is described with\<close>
  "room d n \<longleftrightarrow> n < 2 ^ 32 \<and> n * (8 + d * 4) + n * 16 + 4 < 2 ^ 63"

lemma room_mono:
  assumes "room d n" "m \<le> n"
  shows "room d m"
proof -
  have "m * (8 + d * 4) \<le> n * (8 + d * 4)" using assms(2) by (rule mult_le_mono1)
  then show ?thesis using assms unfolding room_def by linarith
qed

lemma insert_centroids_ok:
  assumes "\<forall>c \<in> set cs. length c = hn_dim h" "hn_inv h"
  shows "\<exists>h'. insert_centroids i cs h = (h', None) \<and> hn_inv h' \<and> hn_dim h' = hn_dim h \<and> HNSWIndex.deleted h' = HNSWIndex.deleted h \<and>
    idToNode h' = idToNode h \<and> exact h' = exact h \<and> HNSWIndex.dirty h' = HNSWIndex.dirty h @ zip (map of_nat [i..<i + length cs]) cs"
  using assms
proof (induction cs arbitrary: i h)
  case Nil
  then show ?case by simp
next
  case (Cons c cs)
  let ?h = "h\<lparr>HNSWIndex.dirty := HNSWIndex.dirty h @ [(of_nat i, c)]\<rparr>"
  have h: "hn_Insert (of_nat i) c h = (?h, None)" using Cons.prems(1) by (simp add: hn_Insert_def)
  have inv: "hn_inv ?h" using hn_Insert_inv [OF Cons.prems(2), of "of_nat i" c] h by simp
  obtain h' where "insert_centroids (i + 1) cs ?h = (h', None)" "hn_inv h'" "hn_dim h' = hn_dim h" "HNSWIndex.deleted h' = HNSWIndex.deleted h"
    "idToNode h' = idToNode h" "exact h' = exact h" "HNSWIndex.dirty h' = HNSWIndex.dirty h @ [(of_nat i, c)] @ zip (map of_nat [i + 1..<i + 1 + length cs]) cs"
    using Cons.IH [of ?h "i + 1"] Cons.prems(1) inv by (auto simp: exact_def)
  then show ?case using h by (simp add: upt_rec [of i] del: upt_Suc)
qed

lemma new_navigator:
  assumes e: "env_ok E" and d: "0 < d" and m: "GetDistanceFunc metric = Some fn" and cs: "rows_of_dim k d cs" and k: "k < 2 ^ 32"
  shows "\<exists>h h'. NewHNSWIndex E (int d) 16 200 50 metric = Inr h \<and> insert_centroids 0 cs h = (h', None) \<and> navigator_ok d k h'"
proof -
  obtain h where h: "NewHNSWIndex E (int d) 16 200 50 metric = Inr h" "HNSWIndex.deleted h = {}" "idToNode h = Map.empty" "HNSWIndex.dirty h = []"
    using d m by (auto simp: NewHNSWIndex_def Let_def)
  have N: "hn_inv h" "exact h" "hn_dim h = d" using NewHNSWIndex_ok [OF e _ h(1)] by simp_all
  have "\<forall>c \<in> set cs. length c = hn_dim h" using cs N(3) by (auto simp: rows_of_dim_def in_set_conv_nth)
  from insert_centroids_ok [OF this N(1), of 0] obtain h' where h': "insert_centroids 0 cs h = (h', None)" "hn_inv h'" "hn_dim h' = d"
    "HNSWIndex.deleted h' = {}" "idToNode h' = Map.empty" "exact h'" "HNSWIndex.dirty h' = zip (map of_nat [0..<k]) cs"
    using h N cs by (auto simp: rows_of_dim_def)
  have f: "map fst (HNSWIndex.dirty h') = map of_nat [0..<k]" using h'(7) cs by (simp add: rows_of_dim_def)
  have "inj_on (of_nat :: nat \<Rightarrow> u64) {0..<k}"
  proof (rule inj_onI)
    fix x y :: nat assume xy: "x \<in> {0..<k}" "y \<in> {0..<k}" "(of_nat x :: u64) = of_nat y"
    have "unat (of_nat x :: u64) = x" "unat (of_nat y :: u64) = y" using k xy(1,2) by (simp_all add: unat_of_nat)
    then show "x = y" using xy(3) by metis
  qed
  then have "distinct (map fst (HNSWIndex.dirty h'))" unfolding f by (simp add: distinct_map)
  moreover have "fst ` set (HNSWIndex.dirty h') = of_nat ` {..<k}" using arg_cong [OF f, of set] by (simp add: lessThan_atLeast0)
  ultimately show ?thesis using h(1) h' by (auto simp: navigator_ok_def)
qed

lemma mset_concat_append:
  "i < length ls \<Longrightarrow> mset (concat (ls[i := ls ! i @ [p]])) = add_mset p (mset (concat ls))"
proof (induction ls arbitrary: i)
  case (Cons l ls)
  then show ?case by (cases i) auto
qed simp

lemma assign_postings_ok:
  assumes "length cs = k" "0 < k"
  shows "\<exists>ls cells. for_each (assign_posting e idx cs k) ps (replicate k [], Map.empty) = Inr (ls, cells) \<and> length ls = k \<and>
    mset (concat ls) = mset ps \<and> dom cells = po_id ` set ps \<and> (\<forall>c < k. \<forall>p \<in> set (ls ! c). nearest_in e idx cs (po_vector p) c)"
proof -
  define P where "P = (\<lambda>rest (ls, cells :: u64 \<rightharpoonup> int). length ls = k \<and> mset (concat ls) + mset rest = mset ps \<and>
    dom cells = po_id ` set (concat ls) \<and> (\<forall>c < k. \<forall>p \<in> set (ls ! c). nearest_in e idx cs (po_vector p) c))"
  have "\<exists>s'. for_each (assign_posting e idx cs k) ps (replicate k [], Map.empty) = Inr s' \<and> P [] s'"
  proof (rule for_list [where P = P])
    show "P ps (replicate k [], Map.empty)" by (simp add: P_def)
  next
    fix p rest s
    assume s: "P (p # rest) s"
    obtain ls cells where l: "s = (ls, cells)" by fastforce
    have L: "length ls = k" "mset (concat ls) + mset (p # rest) = mset ps" "dom cells = po_id ` set (concat ls)"
      "\<forall>c < k. \<forall>p \<in> set (ls ! c). nearest_in e idx cs (po_vector p) c" using s by (simp_all add: P_def l)
    have "0 < length cs" using assms by simp
    then obtain c where c: "nearest_centroid e idx cs k (po_vector p) = Inr c" "nearest_in e idx cs (po_vector p) c"
      using nearest_centroid_ok [of cs e idx "po_vector p"] assms(1) by auto
    have ck: "c < length ls" using c(2) L(1) assms(1) by (simp add: nearest_in_def)
    let ?ls = "ls[c := ls ! c @ [p]]"
    have m: "mset (concat ?ls) = add_mset p (mset (concat ls))" by (rule mset_concat_append [OF ck])
    have st: "set (concat ?ls) = insert p (set (concat ls))" using arg_cong [OF m, of set_mset] by simp
    have "assign_posting e idx cs k p s = Inr (?ls, cells(po_id p \<mapsto> int c))"
      using c(1) ck by (simp add: assign_posting_def l get_at_def put_at_def)
    moreover have "P rest (?ls, cells(po_id p \<mapsto> int c))"
      unfolding P_def prod.case
    proof (intro conjI allI impI ballI)
      show "mset (concat ?ls) + mset rest = mset ps" using L(2) m by simp
      show "dom (cells(po_id p \<mapsto> int c)) = po_id ` set (concat ?ls)" unfolding st using L(3) by simp
    next
      fix c' q assume "c' < k" "q \<in> set (?ls ! c')"
      then show "nearest_in e idx cs (po_vector q) c'" using L(1,4) ck c(2) by (cases "c' = c") auto
    qed (use L(1) in simp)
    ultimately show "\<exists>s'. assign_posting e idx cs k p s = Inr s' \<and> P rest s'" by blast
  qed
  then obtain ls cells where "for_each (assign_posting e idx cs k) ps (replicate k [], Map.empty) = Inr (ls, cells)" "P [] (ls, cells)" by fastforce
  moreover from this(2) have "mset (concat ls) = mset ps" by (simp add: P_def)
  moreover from this have "set (concat ls) = set ps" by (rule mset_eq_setD)
  ultimately show ?thesis by (auto simp: P_def)
qed

lemma write_and_open_ok:
  assumes "no_faults io" "0 < spn_dim idx" "lists_fit (spn_dim idx) ls"
  shows "write_and_open e io idx ls f = Inr (Returns (Inr (posting_store (float_bits e) (spn_dim idx) ls)),
    f(storePath idx \<mapsto> postings_file (float_bits e) (spn_dim idx) ls))"
proof -
  have "\<forall>l \<in> set ls. wide (spn_dim idx) l" using assms(3) by (simp add: lists_fit_def)
  note w = WritePostings_whole [OF assms(2) this, of "float_bits e" "storePath idx" f]
  have "NewMmapPostingStore (\<lambda>_. None) (storePath idx) (spn_dim idx) (f(storePath idx \<mapsto> postings_file (float_bits e) (spn_dim idx) ls)) =
    Inr (Inr (posting_store (float_bits e) (spn_dim idx) ls))" by (rule NewMmapPostingStore_complete [OF assms(3)]) simp
  with w show ?thesis using assms(1) by (simp add: write_and_open_def no_faults_def)
qed

lemma spn_kmeans_none:
  assumes "spn_kmeans e idx draws data k iters = Inr r" "r = None"
  shows "draw_loop k [] draws = None"
  using assms by (auto simp: spn_kmeans_def go_bind_eq_Inr split: option.splits prod.splits)

lemma draw_loop_all:
  assumes "{..<n} \<subseteq> set draws" "k \<le> n"
  shows "draw_loop k [] draws \<noteq> None"
proof (rule draw_loop_returns)
  have "card {..<n} \<le> card (set draws)" by (rule card_mono [OF _ assms(1)]) simp
  then show "k + card (set []) \<le> card (set [] \<union> set draws)" using assms(2) by simp
qed

definition prepared :: "'f::linordered_field spann_env \<Rightarrow> 'f SPANNIndex \<Rightarrow> 'f posting list \<Rightarrow> 'f HNSWIndex \<Rightarrow> 'f list list \<Rightarrow> 'f posting list list \<Rightarrow>
    (u64 \<rightharpoonup> int) \<Rightarrow> bool" where
  \<comment> \<open>what a rebuild of the vectors \<open>av\<close> has computed when it closes the old store\<close>
  "prepared e idx av h cs ps cells \<longleftrightarrow> navigator_ok (spn_dim idx) (length ps) h \<and> length cs = length ps \<and> lists_fit (spn_dim idx) ps \<and>
     mset (concat ps) = mset av \<and> dom cells = po_id ` set av \<and> (\<forall>c < length ps. \<forall>p \<in> set (ps ! c). nearest_in e idx cs (po_vector p) c)"

lemma rebuild_prepares:
  assumes inv: "spn_inv e idx ls" and e: "spann_env_ok e" and dr: "\<And>n. set (draws n) \<subseteq> {..<n}"
    and room: "room (spn_dim idx) (length (spn_all idx ls))"
  shows "\<exists>av. mset av = mset (filter (\<lambda>p. po_id p \<notin> spn_deleted idx) (spn_all idx ls)) \<and>
    (av = [] \<and> spn_Rebuild e draws io idx f = Inr (Some (idx, Returns None, f)) \<or>
     av \<noteq> [] \<and> spn_Rebuild e draws io idx f = Inr None \<and> \<not> (\<forall>n. {..<n} \<subseteq> set (draws n)) \<or>
     av \<noteq> [] \<and> (\<exists>h cs ps cells. prepared e idx av h cs ps cells \<and>
       spn_Rebuild e draws io idx f = go_bind (commit_rebuild e io idx h cs ps cells f) (\<lambda>r. Inr (Some r))))"
proof -
  note I = spn_invD [OF inv]
  let ?d = "spn_dim idx"
  obtain st where st: "stored_postings e idx = Inr st" "mset st = mset (concat ls)" using stored_postings_ok [OF inv e] by blast
  define av where "av = live_only idx (dirtyBuf idx) @ live_only idx st"
  define n where "n = length av"
  have mav: "mset av = mset (filter (\<lambda>p. po_id p \<notin> spn_deleted idx) (spn_all idx ls))"
    using st(2) by (simp add: av_def live_only_def spn_all_def mset_filter)
  have sav: "set av \<subseteq> set (spn_all idx ls)" using arg_cong [OF mav, of set_mset] by auto
  have nle: "n \<le> length (spn_all idx ls)"
    unfolding n_def mset_eq_length [OF mav] by (rule length_filter_le)
  have df: "distinct (map po_id (filter (\<lambda>p. po_id p \<notin> spn_deleted idx) (spn_all idx ls)))" using I(4) by (rule distinct_map_filter)
  then have dav: "distinct (map po_id av)" using mav by (metis mset_map mset_eq_imp_distinct_iff)
  have dim: "vectors_of_dim ?d av" using I(5) sav by (auto simp: vectors_of_dim_def)
  have "av = [] \<and> spn_Rebuild e draws io idx f = Inr (Some (idx, Returns None, f)) \<or>
     av \<noteq> [] \<and> spn_Rebuild e draws io idx f = Inr None \<and> \<not> (\<forall>n. {..<n} \<subseteq> set (draws n)) \<or>
     av \<noteq> [] \<and> (\<exists>h cs ps cells. prepared e idx av h cs ps cells \<and>
       spn_Rebuild e draws io idx f = go_bind (commit_rebuild e io idx h cs ps cells f) (\<lambda>r. Inr (Some r)))"
  proof (cases "av = []")
    case True
    then have "spn_Rebuild e draws io idx f = Inr (Some (idx, Returns None, f))"
      unfolding spn_Rebuild_def st(1) go_bind.simps(2) Let_def av_def [symmetric] by simp
    then show ?thesis using True by blast
  next
    case False
    define k where "k = (if numCents idx > n then n else numCents idx)"
    have k: "0 < k" "k \<le> n" using False I(2) by (auto simp: k_def n_def)
    have rn: "room ?d n" by (rule room_mono [OF room nle])
    obtain r where r: "spn_kmeans e idx (draws n) av k 20 = Inr r" "\<forall>cs. r = Some cs \<longrightarrow> rows_of_dim k ?d cs"
      using spn_kmeans_ok [OF k(1) dim dr [of "length av"], of e 20] by (auto simp: n_def)
    note unfolded = spn_Rebuild_def [of e draws io idx f, unfolded st(1) go_bind.simps(2) Let_def, folded av_def, folded n_def, folded k_def]
    have n0: "(n = 0) = False" using False by (simp add: n_def)
    show ?thesis
    proof (cases r)
      case None
      then have "draw_loop k [] (draws n) = None" using spn_kmeans_none [OF r(1)] by simp
      then have "\<not> {..<n} \<subseteq> set (draws n)" using draw_loop_all [of n "draws n" k] k(2) by blast
      moreover have "spn_Rebuild e draws io idx f = Inr None" unfolding unfolded n0 if_False r(1) go_bind.simps None option.case by (rule refl)
      ultimately show ?thesis using False by blast
    next
      case (Some cs)
      then have cs: "rows_of_dim k ?d cs" "length cs = k" using r(2) by (auto simp: rows_of_dim_def)
      have k32: "k < 2 ^ 32" using k(2) rn by (simp add: room_def)
      obtain h h' where h: "NewHNSWIndex (spn_hnsw e) (int ?d) 16 200 50 (spn_metric idx) = Inr h" "insert_centroids 0 cs h = (h', None)"
        "navigator_ok ?d k h'" using new_navigator [OF spann_env_okD(1) [OF e] I(1,3) cs(1) k32] by blast
      obtain ps cells where a: "for_each (assign_posting e idx cs k) av (replicate k [], Map.empty) = Inr (ps, cells)" "length ps = k"
        "mset (concat ps) = mset av" "dom cells = po_id ` set av" "\<forall>c < k. \<forall>p \<in> set (ps ! c). nearest_in e idx cs (po_vector p) c"
        using assign_postings_ok [OF cs(2) k(1)] by blast
      have sps: "set (concat ps) = set av" by (rule mset_eq_setD [OF a(3)])
      have fit: "lists_fit ?d ps"
      proof -
        have "\<forall>l \<in> set ps. wide ?d l"
        proof
          fix l assume "l \<in> set ps"
          then have "set l \<subseteq> set av" using sps by auto
          then show "wide ?d l" using dim by (auto simp: wide_def vectors_of_dim_def)
        qed
        moreover have "length (concat ps) = n" using arg_cong [OF a(3), of size] by (simp add: n_def)
        ultimately show ?thesis using a(2) k(2) k32 rn unfolding lists_fit_def room_def by auto
      qed
      have "prepared e idx av h' cs ps cells" using h(3) a cs(2) fit by (simp add: prepared_def)
      moreover have "spn_Rebuild e draws io idx f = go_bind (commit_rebuild e io idx h' cs ps cells f) (\<lambda>r. Inr (Some r))"
        unfolding unfolded n0 if_False r(1) go_bind.simps Some option.case h sum.case prod.case a(1) by (rule refl)
      ultimately show ?thesis using False by blast
    qed
  qed
  with mav show ?thesis by blast
qed

lemma no_live_vectors:
  assumes "mset av = mset (filter (\<lambda>p. po_id p \<notin> spn_deleted idx) (spn_all idx ls))"
  shows "live_part (spn_abs idx ls) = Map.empty \<longleftrightarrow> av = []"
proof -
  have "live_part (spn_abs idx ls) = Map.empty \<longleftrightarrow> filter (\<lambda>p. po_id p \<notin> spn_deleted idx) (spn_all idx ls) = []"
    unfolding spn_abs_def live_marks by simp
  also have "\<dots> \<longleftrightarrow> av = []" using assms by (metis mset_zero_iff)
  finally show ?thesis .
qed

lemma spn_Rebuild_ok:
  assumes inv: "spn_inv e idx ls" and e: "spann_env_ok e" and io: "no_faults io" and dr: "\<And>n. set (draws n) \<subseteq> {..<n}"
    and room: "room (spn_dim idx) (length (spn_all idx ls))"
  shows "\<exists>r. spn_Rebuild e draws io idx f = Inr r \<and> (r = None \<longrightarrow> \<not> (\<forall>n. {..<n} \<subseteq> set (draws n))) \<and> (\<forall>y. r = Some y \<longrightarrow>
    (\<exists>idx' ls' f'. y = (idx', Returns None, f') \<and> spn_inv e idx' ls' \<and> spn_dim idx' = spn_dim idx \<and>
    spn_abs idx' ls' = fst (marked_exec (spn_dim idx) (SpRebuild draws io) (spn_abs idx ls)) \<and> length (spn_all idx' ls') \<le> length (spn_all idx ls)))"
proof -
  note I = spn_invD [OF inv]
  let ?d = "spn_dim idx"
  obtain av where mav: "mset av = mset (filter (\<lambda>p. po_id p \<notin> spn_deleted idx) (spn_all idx ls))"
    and R: "av = [] \<and> spn_Rebuild e draws io idx f = Inr (Some (idx, Returns None, f)) \<or>
     av \<noteq> [] \<and> spn_Rebuild e draws io idx f = Inr None \<and> \<not> (\<forall>n. {..<n} \<subseteq> set (draws n)) \<or>
     av \<noteq> [] \<and> (\<exists>h cs ps cells. prepared e idx av h cs ps cells \<and>
       spn_Rebuild e draws io idx f = go_bind (commit_rebuild e io idx h cs ps cells f) (\<lambda>r. Inr (Some r)))"
    using rebuild_prepares [OF inv e dr room, of io f] by blast
  note live = no_live_vectors [OF mav]
  from R consider "av = []" "spn_Rebuild e draws io idx f = Inr (Some (idx, Returns None, f))"
    | "spn_Rebuild e draws io idx f = Inr None" "\<not> (\<forall>n. {..<n} \<subseteq> set (draws n))"
    | h cs ps cells where "av \<noteq> []" "prepared e idx av h cs ps cells"
      "spn_Rebuild e draws io idx f = go_bind (commit_rebuild e io idx h cs ps cells f) (\<lambda>r. Inr (Some r))" by blast
  then show ?thesis
  proof cases
    case 1
    then show ?thesis using inv live by auto
  next
    case 2
    then show ?thesis by blast
  next
    case 3
    note a = 3(2) [unfolded prepared_def]
    have sps: "set (concat ps) = set av" using a by (blast dest: mset_eq_setD)
    have sav: "set av \<subseteq> set (spn_all idx ls)" using arg_cong [OF mav, of set_mset] by auto
    define idx1 where "idx1 = idx\<lparr>spn_store := map_option (\<lambda>s. fst (ps_Close (io_close io) s)) (spn_store idx)\<rparr>"
    define f' where "f' = f(storePath idx \<mapsto> postings_file (float_bits e) ?d ps)"
    have w: "write_and_open e io idx1 ps f = Inr (Returns (Inr (posting_store (float_bits e) ?d ps)), f')"
      using write_and_open_ok [OF io, of idx1 ps e f] I(1) a by (simp add: idx1_def f'_def)
    define idx' where "idx' = idx1\<lparr>centroidHNSW := Some h, spn_centroids := cs, spn_store := Some (posting_store (float_bits e) ?d ps),
      idToCentroid := cells, dirtyBuf := [], spn_deleted := {}, spn_built := True\<rparr>"
    have res: "spn_Rebuild e draws io idx f = Inr (Some (idx', Returns None, f'))"
      unfolding 3(3) commit_rebuild_def Let_def idx1_def [symmetric] w by (simp add: idx'_def)
    have F: "spn_dim idx' = ?d" "spn_all idx' ps = concat ps" "spn_deleted idx' = {}" "spn_distFn idx' = spn_distFn idx" "spn_built idx'"
      "numCents idx' = numCents idx" "spn_metric idx' = spn_metric idx" "spn_store idx' = Some (posting_store (float_bits e) ?d ps)"
      "idToCentroid idx' = cells" "spn_centroids idx' = cs" "centroidHNSW idx' = Some h"
      by (simp_all add: idx'_def idx1_def spn_all_def)
    have nin: "nearest_in e idx' cs w c = nearest_in e idx cs w c" for w c by (simp add: nearest_in_def spn_distance_def F)
    have "distinct (map po_id (filter (\<lambda>p. po_id p \<notin> spn_deleted idx) (spn_all idx ls)))" using I(4) by (rule distinct_map_filter)
    then have dps: "distinct (map po_id (concat ps))" using a mav by (metis mset_map mset_eq_imp_distinct_iff)
    have "concat ps \<noteq> []" using a 3(1) by (metis mset_zero_iff)
    then have "built_ok e idx' ps" unfolding built_ok_def F nin using a sps by auto
    then have "spn_inv e idx' ps"
      unfolding spn_inv_def F using F(5) I(1-3,5,6) dps sav sps by (auto simp: vectors_of_dim_def)
    moreover have "spn_abs idx' ps = fst (marked_exec ?d (SpRebuild draws io) (spn_abs idx ls))"
    proof -
      have "marks {} (concat ps) = marks {} (filter (\<lambda>p. po_id p \<notin> spn_deleted idx) (spn_all idx ls))"
        by (rule marks_mset [OF _ dps]) (use a mav in simp)
      then show ?thesis using live 3(1) by (simp add: spn_abs_def F marks_all_live)
    qed
    moreover have "length (spn_all idx' ps) \<le> length (spn_all idx ls)"
    proof -
      have "length (concat ps) = length av" using a by (blast dest: mset_eq_length)
      also have "\<dots> \<le> length (spn_all idx ls)" unfolding mset_eq_length [OF mav] by (rule length_filter_le)
      finally show ?thesis by (simp add: F)
    qed
    ultimately show ?thesis using res F(1) by blast
  qed
qed

subsection \<open>Runs\<close>

lemma one_result:
  "g = Inr (Some ((i, f), err)) \<Longrightarrow> P i l f err \<Longrightarrow>
    \<exists>r. g = Inr r \<and> (r = None \<longrightarrow> \<not> Q) \<and> (\<forall>y. r = Some y \<longrightarrow> (\<exists>i l f err. y = ((i, f), err) \<and> P i l f err))"
  by blast

lemma spn_exec_ok:
  assumes inv: "spn_inv e idx ls" and e: "spann_env_ok e" and x: "spn_op_ok e x" and room: "room (spn_dim idx) (length (spn_all idx ls))"
  shows "\<exists>r. spn_exec e x (idx, f) = Inr r \<and> (r = None \<longrightarrow> \<not> enough_draws x) \<and> (\<forall>y. r = Some y \<longrightarrow> (\<exists>idx' ls' f' err. y = ((idx', f'), err) \<and> spn_inv e idx' ls' \<and>
    spn_dim idx' = spn_dim idx \<and> (spn_abs idx' ls', err) = marked_exec (spn_dim idx) x (spn_abs idx ls) \<and>
    length (spn_all idx' ls') \<le> Suc (length (spn_all idx ls))))"
proof (cases x)
  case (SpInsert i v)
  obtain idx' err where r: "spn_Insert i v idx = (idx', err)" by fastforce
  have g: "spn_exec e x (idx, f) = Inr (Some ((idx', f), err))" using r by (simp add: SpInsert)
  have v: "is_float32 e v" using x by (simp add: SpInsert)
  show ?thesis by (rule one_result [OF g, where l = ls]) (use spn_Insert_ok [OF inv v r] in \<open>simp only: SpInsert simp_thms\<close>)
next
  case (SpDelete i)
  obtain idx' err where r: "spn_Delete i idx = (idx', err)" by fastforce
  have g: "spn_exec e x (idx, f) = Inr (Some ((idx', f), err))" using r by (simp add: SpDelete)
  show ?thesis by (rule one_result [OF g, where l = ls]) (use spn_Delete_ok [OF inv r] in \<open>simp only: SpDelete simp_thms le_SucI order_refl\<close>)
next
  case (SpRebuild draws io)
  have io: "no_faults io" "set (draws n) \<subseteq> {..<n}" for n using x by (auto simp: SpRebuild)
  have err: "snd (marked_exec (spn_dim idx) (SpRebuild draws io) m) = None" for m :: "'a marked" by simp
  obtain r where r: "spn_Rebuild e draws io idx f = Inr r" "r = None \<longrightarrow> \<not> (\<forall>n. {..<n} \<subseteq> set (draws n))" "\<forall>y. r = Some y \<longrightarrow> (\<exists>idx' ls' f'. y = (idx', Returns None, f') \<and> spn_inv e idx' ls' \<and>
    spn_dim idx' = spn_dim idx \<and> spn_abs idx' ls' = fst (marked_exec (spn_dim idx) (SpRebuild draws io) (spn_abs idx ls)) \<and>
    length (spn_all idx' ls') \<le> length (spn_all idx ls))"
    using spn_Rebuild_ok [OF inv e io room, of f] by blast
  show ?thesis
  proof (cases r)
    case None
    then show ?thesis using r(1,2) by (simp add: SpRebuild)
  next
    case (Some y)
    then obtain idx' ls' f' where y: "y = (idx', Returns None, f')" "spn_inv e idx' ls'" "spn_dim idx' = spn_dim idx"
      "spn_abs idx' ls' = fst (marked_exec (spn_dim idx) (SpRebuild draws io) (spn_abs idx ls))" "length (spn_all idx' ls') \<le> length (spn_all idx ls)"
      using r(3) by blast
    then have "(spn_abs idx' ls', None) = marked_exec (spn_dim idx) x (spn_abs idx ls)" using err by (metis SpRebuild prod.collapse)
    then show ?thesis using y r(1) Some unfolding SpRebuild by (auto intro: le_SucI)
  qed
next
  case (SpTick pool)
  obtain idx' where "centroid_tick e pool idx = Inr idx'" "spn_inv e idx' ls" "spn_dim idx' = spn_dim idx" "spn_abs idx' ls = spn_abs idx ls"
    "spn_all idx' ls = spn_all idx ls" using centroid_tick_ok [OF inv e] x by (auto simp: SpTick)
  then show ?thesis unfolding SpTick by auto
qed

lemma spn_run_ok:
  assumes e: "spann_env_ok e"
  shows "spn_inv e idx ls \<Longrightarrow> \<forall>x \<in> set xs. spn_op_ok e x \<Longrightarrow> room (spn_dim idx) (length (spn_all idx ls) + length xs) \<Longrightarrow>
    \<exists>r. spn_run e xs (idx, f) = Inr r \<and> (r = None \<longrightarrow> (\<exists>x \<in> set xs. \<not> enough_draws x)) \<and> (\<forall>y. r = Some y \<longrightarrow> (\<exists>idx' ls' f' errs. y = ((idx', f'), errs) \<and> spn_inv e idx' ls' \<and>
    spn_dim idx' = spn_dim idx \<and> (spn_abs idx' ls', errs) = marked_run (spn_dim idx) xs (spn_abs idx ls) \<and>
    length (spn_all idx' ls') \<le> length (spn_all idx ls) + length xs))"
proof (induction xs arbitrary: idx ls f)
  case Nil
  then show ?case by auto
next
  case (Cons x xs)
  have room: "room (spn_dim idx) (length (spn_all idx ls))" by (rule room_mono [OF Cons.prems(3)]) simp
  obtain r where r: "spn_exec e x (idx, f) = Inr r" "r = None \<longrightarrow> \<not> enough_draws x" "\<forall>y. r = Some y \<longrightarrow> (\<exists>idx' ls' f' err. y = ((idx', f'), err) \<and> spn_inv e idx' ls' \<and>
    spn_dim idx' = spn_dim idx \<and> (spn_abs idx' ls', err) = marked_exec (spn_dim idx) x (spn_abs idx ls) \<and>
    length (spn_all idx' ls') \<le> Suc (length (spn_all idx ls)))"
    using spn_exec_ok [OF Cons.prems(1) e _ room, of x f] Cons.prems(2) by auto
  show ?case
  proof (cases r)
    case None
    then show ?thesis using r(1,2) by simp
  next
    case (Some y)
    then obtain i1 l1 f1 err where 1: "y = ((i1, f1), err)" "spn_inv e i1 l1" "spn_dim i1 = spn_dim idx"
      "(spn_abs i1 l1, err) = marked_exec (spn_dim idx) x (spn_abs idx ls)" "length (spn_all i1 l1) \<le> Suc (length (spn_all idx ls))"
      using r(3) by blast
    have xok: "\<forall>x \<in> set xs. spn_op_ok e x" using Cons.prems(2) by simp
    have rm: "room (spn_dim i1) (length (spn_all i1 l1) + length xs)" unfolding 1(3) by (rule room_mono [OF Cons.prems(3)]) (use 1(5) in simp)
    obtain r2 where r2: "spn_run e xs (i1, f1) = Inr r2" "r2 = None \<longrightarrow> (\<exists>x \<in> set xs. \<not> enough_draws x)" "\<forall>y. r2 = Some y \<longrightarrow> (\<exists>idx' ls' f' errs. y = ((idx', f'), errs) \<and> spn_inv e idx' ls' \<and>
      spn_dim idx' = spn_dim i1 \<and> (spn_abs idx' ls', errs) = marked_run (spn_dim i1) xs (spn_abs i1 l1) \<and>
      length (spn_all idx' ls') \<le> length (spn_all i1 l1) + length xs)"
      using Cons.IH [OF 1(2) xok rm, of f1] by blast
    show ?thesis
    proof (cases r2)
      case None
      then show ?thesis using r(1) Some 1(1) r2(1,2) by auto
    next
      case (Some y2)
      then obtain i2 l2 f2 errs where 2: "y2 = ((i2, f2), errs)" "spn_inv e i2 l2" "spn_dim i2 = spn_dim i1"
        "(spn_abs i2 l2, errs) = marked_run (spn_dim i1) xs (spn_abs i1 l1)" "length (spn_all i2 l2) \<le> length (spn_all i1 l1) + length xs"
        using r2(3) by blast
      have "spn_run e (x # xs) (idx, f) = Inr (Some ((i2, f2), err # errs))" using r(1) \<open>r = Some y\<close> 1(1) r2(1) Some 2(1) by simp
      moreover have "(spn_abs i2 l2, err # errs) = marked_run (spn_dim idx) (x # xs) (spn_abs idx ls)"
        using 1(3,4) 2(4) by (metis (no_types, lifting) case_prod_conv marked_run.simps(2))
      moreover have "length (spn_all i2 l2) \<le> length (spn_all idx ls) + length (x # xs)" using 1(5) 2(5) by simp
      ultimately show ?thesis using 1(3) 2(2,3) by auto
    qed
  qed
qed

lemma observed_contents:
  assumes inv: "spn_inv e idx ls" and e: "spann_env_ok e"
  shows "\<exists>xs. spn_ExportVectors e idx = Inr xs \<and> distinct (map fst xs) \<and> map_of xs = live_part (spn_abs idx ls) \<and> spn_Len e idx = Inr (length xs)"
proof -
  obtain st where st: "stored_postings e idx = Inr st" "mset st = mset (concat ls)" using stored_postings_ok [OF inv e] by blast
  define av where "av = live_only idx st @ live_only idx (dirtyBuf idx)"
  have m: "mset av = mset (filter (\<lambda>p. po_id p \<notin> spn_deleted idx) (spn_all idx ls))"
    using st(2) by (simp add: av_def live_only_def spn_all_def mset_filter)
  have df: "distinct (map po_id (filter (\<lambda>p. po_id p \<notin> spn_deleted idx) (spn_all idx ls)))" using spn_invD(4) [OF inv] by (rule distinct_map_filter)
  let ?g = "\<lambda>p :: 'a posting. (po_id p, po_vector p)"
  have "distinct (map po_id av)" using df m by (metis mset_map mset_eq_imp_distinct_iff)
  then have d: "distinct (map fst (map ?g av))" by (simp add: comp_def)
  have "map_of (map ?g av) = map_of (map ?g (filter (\<lambda>p. po_id p \<notin> spn_deleted idx) (spn_all idx ls)))"
  proof (rule map_of_mset)
    show "mset (map ?g av) = mset (map ?g (filter (\<lambda>p. po_id p \<notin> spn_deleted idx) (spn_all idx ls)))" using m by (metis mset_map)
    show "distinct (map fst (map ?g av))" by (rule d)
  qed
  moreover note d
  ultimately show ?thesis
    using st(1) by (simp add: spn_ExportVectors_def spn_Len_def av_def spn_abs_def live_marks)
qed

text \<open>C10. The SPANN index as a store: after any sequence of inserts, deletes, rebuilds without faults and ticks of the
  centroid index on a new index, in whatever order \<open>range\<close> visits the posting lists, nothing has panicked, and the
  errors, the exported vectors and the length are those of a map in which a deleted identifier stays occupied
  until a rebuild finds a live vector. The run returns if every rebuild draws each index at some time. The vectors
  are \<open>float32\<close> values and the posting file must not exceed the integers that describe it.\<close>

theorem spann_refines_marked:
  assumes "NewSPANNIndex path d c p metric = Inr idx" "spann_env_ok e" "\<forall>x \<in> set ops. spn_op_ok e x" "room (nat d) (length ops)"
  shows "\<exists>r. spn_run e ops (idx, f) = Inr r \<and> ((\<forall>x \<in> set ops. enough_draws x) \<longrightarrow> r \<noteq> None) \<and>
    (\<forall>s f' errs. r = Some ((s, f'), errs) \<longrightarrow> (\<exists>m xs. marked_run (nat d) ops Map.empty = (m, errs) \<and>
       spn_ExportVectors e s = Inr xs \<and> distinct (map fst xs) \<and> map_of xs = live_part m \<and> spn_Len e s = Inr (length xs)))"
proof -
  have n: "spn_inv e idx []" "spn_dim idx = nat d" "spn_all idx [] = []" using NewSPANNIndex_inv [OF assms(1)] by blast+
  have room: "room (spn_dim idx) (length (spn_all idx []) + length ops)" using assms(4) n by simp
  have a0: "spn_abs idx [] = Map.empty" using n(3) by (simp add: spn_abs_def)
  obtain r where r: "spn_run e ops (idx, f) = Inr r" "r = None \<longrightarrow> (\<exists>x \<in> set ops. \<not> enough_draws x)"
    "\<forall>y. r = Some y \<longrightarrow> (\<exists>idx' ls' f' errs. y = ((idx', f'), errs) \<and> spn_inv e idx' ls' \<and> spn_dim idx' = spn_dim idx \<and>
      (spn_abs idx' ls', errs) = marked_run (spn_dim idx) ops (spn_abs idx []) \<and> length (spn_all idx' ls') \<le> length (spn_all idx []) + length ops)"
    using spn_run_ok [OF assms(2) n(1) assms(3) room, of f] by blast
  have "\<exists>m xs. marked_run (nat d) ops Map.empty = (m, errs) \<and> spn_ExportVectors e s = Inr xs \<and> distinct (map fst xs) \<and>
      map_of xs = live_part m \<and> spn_Len e s = Inr (length xs)" if s: "r = Some ((s, f'), errs)" for s f' errs
  proof -
    obtain ls where "spn_inv e s ls" "(spn_abs s ls, errs) = marked_run (nat d) ops Map.empty" 
      using r(3) [rule_format, OF s] unfolding n(2) a0 by auto
    then show ?thesis using observed_contents [OF _ assms(2), of s ls] by metis
  qed
  with r(1,2) show ?thesis by blast
qed

subsection \<open>Search\<close>

lemma distinct_take_srt:
  assumes "slice_sorter (\<lambda>a b. Distance a < Distance b) srt" "distinct (map ID xs)"
  shows "distinct (map ID (take k (srt xs)))"
proof -
  have "distinct (map ID (srt xs))" using assms(2) slice_sorter.mset_srt [OF assms(1), of xs] by (metis mset_map mset_eq_imp_distinct_iff)
  then show ?thesis by (simp add: take_map [symmetric] distinct_take)
qed

lemma with_scores_ID [simp]: "map ID (with_scores E h rs) = map ID rs"
  by (simp add: with_scores_def comp_def)

lemma navigator_search:
  assumes E: "env_ok E" and n: "navigator_ok d k h" and q: "length q = d" and np: "0 < np" and vt: "tracker_ok vt" and ctx: "\<And>c. ctx c = None"
  shows "\<exists>crs. hn_Search E ctx vt q np nprobe h = Inr (Inr crs) \<and> distinct (map ID crs) \<and> length crs \<le> nat np"
proof -
  have h: "hn_inv h" and qd: "length q = hn_dim h" and del: "HNSWIndex.deleted h = {}" and dd: "distinct (map fst (HNSWIndex.dirty h))"
    and dj: "fst ` set (HNSWIndex.dirty h) \<inter> dom (idToNode h) = {}" using n q by (auto simp: navigator_ok_def)
  let ?p = "pending E h q (nat np) (HNSWIndex.dirty h)"
  let ?xs = "map (\<lambda>(i, v). result_of i (apply_metric (rt32 (plat E)) (HNSWIndex.distFn h) q v)) (HNSWIndex.dirty h)"
  have ids: "map ID ?xs = map fst (HNSWIndex.dirty h)" by (simp add: comp_def case_prod_beta result_of_def)
  have P: "distinct (map ID ?p)" unfolding pending_def with_scores_ID by (rule distinct_take_srt [OF env_okD(8) [OF E]]) (simp only: ids dd)
  have pid: "ID ` set ?p \<subseteq> fst ` set (HNSWIndex.dirty h)"
  proof -
    have "ID ` set ?p = set (map ID ?p)" by simp
    also have "\<dots> = ID ` set (take (nat np) (rsort E ?xs))" unfolding pending_def with_scores_ID by simp
    also have "\<dots> \<subseteq> ID ` set ?xs" using take_srt_ok(3) [OF env_okD(8) [OF E]] by (rule image_mono)
    also have "\<dots> = fst ` set (HNSWIndex.dirty h)" using arg_cong [OF ids, of set] by (simp only: list.set_map)
    finally show ?thesis .
  qed
  obtain crs where r: "hn_Search E ctx vt q np nprobe h = Inr (Inr crs)" "length crs \<le> nat np"
    using hn_Search_finds [where nprobe = nprobe and ctx = ctx, OF E h qd np vt ctx] unfolding finds_def by blast
  have S: "hn_Search E ctx vt q np nprobe h =
    search_graph E ctx vt h q np nprobe (\<lambda>ep l. greedyClosest E h q ep l)
      (\<lambda>c ep ef vt. searchLayer E ctx c h q ep ef 0 vt pass_all) (HNSWIndex.deleted h) ?p"
    using np by (simp add: hn_Search_def qd searchDirtyBuffer_def search_pending_total [OF E h qd subset_refl])
  have "distinct (map ID crs)"
  proof (cases "entryPoint h")
    case None
    then show ?thesis using S r P by (simp add: search_graph_def)
  next
    case (Some ep)
    have step: "\<exists>ep'. greedyClosest E h q ep l = Inr ep' \<and> on_layer h l ep'" if "on_layer h l ep" for ep l
      by (rule greedyClosest_ok [OF hn_invD(1) [OF h] that])
    obtain ep' js where R: "nearest_hits E h q (\<lambda>_. True) (HNSWIndex.deleted h) (nat np) ep' (clean vt \<and> length (nodes h) \<le> search_ef h np nprobe) js"
      "search_graph E ctx vt h q np nprobe (\<lambda>ep l. greedyClosest E h q ep l)
      (\<lambda>c ep ef vt. searchLayer E ctx c h q ep ef 0 vt pass_all) (HNSWIndex.deleted h) ?p =
        Inr (Inr (if ?p \<noteq> [] then mergeResults E (map (hit E h q) js) ?p (nat np) else map (hit E h q) js))"
      using search_graph_hits [where step = "greedyClosest E h q" and ctx = ctx and skip = "HNSWIndex.deleted h" and nprobe = nprobe and dr = ?p, OF E h qd np vt filters_pass_all(1) step ctx Some] by blast
    have J: "distinct js" "set js \<subseteq> {..<length (nodes h)}" using R(1) by (auto simp: nearest_hits_def)
    have bk: "idToNode h (nd_id (nodes h ! j)) = Some j" if "j \<in> set js" for j
      using ids_okD(3) [OF hn_invD(2) [OF h]] J(2) del that by auto
    have hid: "map ID (map (hit E h q) js) = map (\<lambda>j. nd_id (nodes h ! j)) js" by (simp add: hit_def)
    have "inj_on (\<lambda>j. nd_id (nodes h ! j)) (set js)" by (rule inj_on_inverseI [of _ "\<lambda>i. the (idToNode h i)"]) (simp add: bk)
    then have dj': "distinct (map ID (map (hit E h q) js))" unfolding hid using J(1) by (simp add: distinct_map)
    have "set (map ID (map (hit E h q) js)) \<subseteq> dom (idToNode h)" unfolding hid using bk by auto
    then have "distinct (map ID (map (hit E h q) js @ ?p))" using dj' P pid dj by (auto simp del: map_map)
    then have "distinct (map ID (mergeResults E (map (hit E h q) js) ?p (nat np)))"
      unfolding mergeResults_def by (rule distinct_take_srt [OF env_okD(8) [OF E]])
    then show ?thesis using S R(2) r(1) dj' by (auto split: if_splits)
  qed
  with r show ?thesis by blast
qed

lemma selects_take_srt:
  assumes "slice_sorter (\<lambda>a b. Distance a < Distance b) (srt :: 'f::linordered_field SearchResult list \<Rightarrow> _)"
  shows "selects k (take k (srt xs)) (mset xs)"
proof -
  have "mset xs = mset (take k (srt xs)) + mset (drop k (srt xs))"
    using slice_sorter.mset_srt [OF assms, of xs] by (metis append_take_drop_id mset_append)
  moreover have "\<forall>x \<in> set (take k (srt xs)). \<forall>y \<in># mset (drop k (srt xs)). Distance x \<le> Distance y"
    using slice_sorter.srt_take_drop [OF assms] by (fastforce simp: not_less)
  ultimately show ?thesis using slice_sorter.length_srt [OF assms, of xs] by (auto simp: selects_def)
qed

lemma select_top_knn:
  assumes e: "spann_env_ok e" and xs: "candidates = map2 result_of xs (map D xs)" "distinct xs"
  shows "knn D k (set xs) (select_top e idx k candidates)"
    "\<forall>r \<in> set (select_top e idx k candidates). Score r = ScoreFromDistance (rt32 (plat (spn_hnsw e))) (Distance r) (spn_metric idx)"
proof -
  note S = env_okD(8) [OF spann_env_okD(1) [OF e]]
  let ?t = "take k (rsort (spn_hnsw e) candidates)"
  have t: "(let c = rsort (spn_hnsw e) candidates in if length c > k then take k c else c) = ?t" by (simp add: Let_def)
  have "selects k ?t (mset (map2 result_of xs (map D xs)))" using selects_take_srt [OF S] unfolding xs(1) .
  from selects_knn [OF this take_srt_ok(2) [OF S] xs(2)] show "knn D k (set xs) (select_top e idx k candidates)"
    unfolding select_top_def t by (rule knn_score)
  show "\<forall>r \<in> set (select_top e idx k candidates). Score r = ScoreFromDistance (rt32 (plat (spn_hnsw e))) (Distance r) (spn_metric idx)"
    by (auto simp: select_top_def)
qed

definition cell :: "'f posting list list \<Rightarrow> nat \<Rightarrow> 'f posting list" where
  "cell ls c = (if c < length ls then ls ! c else [])"

lemma candidates_append: "candidates_of e idx q ps @ candidates_of e idx q qs = candidates_of e idx q (ps @ qs)"
  by (simp add: candidates_of_def live_only_def)

lemma scan_cells_ok:
  assumes "spn_inv e idx ls" "spn_built idx"
  shows "scan_cells e q idx crs (candidates_of e idx q ps) =
    Inr (Inr (candidates_of e idx q (ps @ concat (map (\<lambda>cr. cell ls (unat (ID cr))) crs))))"
proof (induction crs arbitrary: ps)
  case (Cons cr crs)
  have "spn_store idx = Some (posting_store (float_bits e) (spn_dim idx) ls)" using spn_invD(8) [OF assms] by (simp add: built_ok_def)
  then show ?case using list_of_cell [OF assms, of "unat (ID cr)"] Cons.IH [of "ps @ cell ls (unat (ID cr))"]
    by (simp add: cell_def [symmetric] candidates_append)
qed simp

lemma cells_within: "distinct cids \<Longrightarrow> mset (concat (map (cell ls) cids)) \<subseteq># mset (concat ls)"
proof -
  assume d: "distinct cids"
  have m: "mset (concat (map g xs)) = (\<Sum>c \<in> set xs. mset (g c))" if "distinct xs" for g :: "nat \<Rightarrow> 'a posting list" and xs
    using that by (induction xs) auto
  let ?A = "set cids \<inter> {..<length ls}"
  have 1: "mset (concat (map (cell ls) cids)) = (\<Sum>c \<in> ?A. mset (cell ls c))"
    unfolding m [OF d] by (rule sum.mono_neutral_right) (auto simp: cell_def)
  have "concat ls = concat (map (cell ls) [0..<length ls])" by (rule arg_cong [of _ _ concat], rule nth_equalityI) (simp_all add: cell_def)
  then have 2: "mset (concat ls) = (\<Sum>c \<in> {..<length ls}. mset (cell ls c))" using m [OF distinct_upt, of "cell ls"] by (simp add: lessThan_atLeast0)
  have "(\<Sum>c \<in> {..<length ls}. mset (cell ls c)) = (\<Sum>c \<in> {..<length ls} - ?A. mset (cell ls c)) + (\<Sum>c \<in> ?A. mset (cell ls c))"
    by (rule sum.subset_diff) auto
  then show ?thesis unfolding 1 2 by simp
qed

lemma distinct_map_within:
  assumes "mset xs \<subseteq># mset ys" "distinct (map f ys)"
  shows "distinct (map f xs)"
proof -
  obtain zs where "mset ys = mset (xs @ zs)" using assms(1) by (metis ex_mset mset_append mset_subset_eq_exists_conv)
  then have "distinct (map f (xs @ zs))" using assms(2) by (metis mset_map mset_eq_imp_distinct_iff)
  then show ?thesis by simp
qed

definition vector_distance :: "'f spann_env \<Rightarrow> 'f SPANNIndex \<Rightarrow> 'f list \<Rightarrow> 'f posting list \<Rightarrow> u64 \<Rightarrow> 'f::linordered_field" where
  "vector_distance e idx q ps x = spn_distance e idx q (the (map_of (map (\<lambda>p. (po_id p, po_vector p)) ps) x))"

lemma pair_up: "map (\<lambda>p. result_of (po_id p) (g (po_id p))) zs = map2 result_of (map po_id zs) (map g (map po_id zs))"
  by (induction zs) auto

lemma live_candidates:
  assumes "distinct (map po_id al)" "mset ps \<subseteq># mset al"
  shows "candidates_of e idx q ps = map2 result_of (map po_id (live_only idx ps)) (map (vector_distance e idx q al) (map po_id (live_only idx ps)))"
    "distinct (map po_id (live_only idx ps))"
proof -
  have d: "distinct (map po_id ps)" by (rule distinct_map_within [OF assms(2,1)])
  then show "distinct (map po_id (live_only idx ps))" unfolding live_only_def by (rule distinct_map_filter)
  have "vector_distance e idx q al (po_id p) = spn_distance e idx q (po_vector p)" if "p \<in> set ps" for p
  proof -
    have "p \<in> set al" using that assms(2) by (metis mset_subset_eqD set_mset_mset)
    then have "(po_id p, po_vector p) \<in> set (map (\<lambda>p. (po_id p, po_vector p)) al)" by auto
    moreover have "distinct (map fst (map (\<lambda>p. (po_id p, po_vector p)) al))" using assms(1) by (simp add: comp_def)
    ultimately show ?thesis by (simp only: vector_distance_def map_of_is_SomeI option.sel)
  qed
  then have "map (\<lambda>p. result_of (po_id p) (spn_distance e idx q (po_vector p))) (live_only idx ps) =
    map (\<lambda>p. result_of (po_id p) (vector_distance e idx q al (po_id p))) (live_only idx ps)" by (auto simp: live_only_def)
  also have "\<dots> = map2 result_of (map po_id (live_only idx ps)) (map (vector_distance e idx q al) (map po_id (live_only idx ps)))"
    by (rule pair_up)
  finally show "candidates_of e idx q ps = map2 result_of (map po_id (live_only idx ps)) (map (vector_distance e idx q al) (map po_id (live_only idx ps)))"
    unfolding candidates_of_def by (simp only:)
qed

definition probed_postings :: "'f SPANNIndex \<Rightarrow> 'f posting list list \<Rightarrow> 'f SearchResult list \<Rightarrow> 'f posting list" where
  \<comment> \<open>the postings a search looks at when the centroid index answers \<open>crs\<close>\<close>
  "probed_postings idx ls crs = concat (map (\<lambda>cr. cell ls (unat (ID cr))) crs) @ dirtyBuf idx"

lemma probed_within:
  assumes "distinct (map ID crs)"
  shows "mset (probed_postings idx ls crs) \<subseteq># mset (spn_all idx ls)"
proof -
  have "distinct (map (\<lambda>cr. unat (ID cr)) crs)"
  proof -
    have "inj_on unat (set (map ID crs))" by (rule inj_onI) (simp only: word_unat_eq_iff)
    then have "distinct (map unat (map ID crs))" using assms unfolding distinct_map [of unat] by (rule conjI [rotated])
    then show ?thesis unfolding map_map comp_def .
  qed
  from cells_within [OF this, of ls] show ?thesis by (simp add: probed_postings_def spn_all_def comp_def)
qed

lemma spn_Search_ok:
  assumes inv: "spn_inv e idx ls" and e: "spann_env_ok e" and q: "length q = spn_dim idx" and k: "0 < k" and vt: "tracker_ok vt"
    and ctx: "\<And>c. ctx c = None"
  shows "\<exists>crs rs. spn_Search e ctx vt q k nprobe idx = Inr (Inr rs) \<and> distinct (map ID crs) \<and> (\<not> spn_built idx \<longrightarrow> crs = []) \<and>
    (spn_built idx \<longrightarrow> (let np = if nprobe \<le> 0 then int (spn_nprobe idx) else nprobe in
       hn_Search (spn_hnsw e) ctx vt q np (np * 2) (the (centroidHNSW idx)) = Inr (Inr crs))) \<and>
    knn (vector_distance e idx q (spn_all idx ls)) (nat k) (po_id ` set (live_only idx (probed_postings idx ls crs))) rs \<and>
    (\<forall>r \<in> set rs. Score r = ScoreFromDistance (rt32 (plat (spn_hnsw e))) (Distance r) (spn_metric idx))"
proof -
  note I = spn_invD [OF inv]
  have top: "knn (vector_distance e idx q (spn_all idx ls)) (nat k) (po_id ` set (live_only idx ps)) (select_top e idx (nat k) (candidates_of e idx q ps))"
    "\<forall>r \<in> set (select_top e idx (nat k) (candidates_of e idx q ps)). Score r = ScoreFromDistance (rt32 (plat (spn_hnsw e))) (Distance r) (spn_metric idx)"
    if "mset ps \<subseteq># mset (spn_all idx ls)" for ps
    using select_top_knn [where k = "nat k" and idx = idx, OF e live_candidates(1) [OF I(4) that, where e = e and idx = idx and q = q] live_candidates(2) [OF I(4) that, where idx = idx]] by simp_all
  show ?thesis
  proof (cases "spn_built idx")
    case False
    then have "spn_Search e ctx vt q k nprobe idx = Inr (Inr (select_top e idx (nat k) (candidates_of e idx q (probed_postings idx ls []))))"
      using q k by (simp add: spn_Search_def bruteForceSearch_def probed_postings_def Let_def)
    with top [OF probed_within, of "[]"] False show ?thesis by (metis distinct.simps(1) list.simps(8))
  next
    case True
    define np where "np = (if nprobe \<le> 0 then int (spn_nprobe idx) else nprobe)"
    obtain h where h: "centroidHNSW idx = Some h" "navigator_ok (spn_dim idx) (length ls) h" using I(8) [OF True] by (auto simp: built_ok_def)
    have "\<exists>crs. hn_Search (spn_hnsw e) ctx vt q np (np * 2) h = Inr (Inr crs) \<and> distinct (map ID crs)"
    proof (cases "0 < np")
      case True
      then show ?thesis using navigator_search [where ctx = ctx and nprobe = "np * 2", OF spann_env_okD(1) [OF e] h(2) q True vt ctx] by blast
    next
      case False
      then show ?thesis using h(2) q by (simp add: hn_Search_def navigator_ok_def)
    qed
    then obtain crs where c: "hn_Search (spn_hnsw e) ctx vt q np (np * 2) h = Inr (Inr crs)" "distinct (map ID crs)" by blast
    have "spn_Search e ctx vt q k nprobe idx = Inr (Inr (select_top e idx (nat k) (candidates_of e idx q (probed_postings idx ls crs))))"
      using q k True h(1) c(1) scan_cells_ok [OF inv True, of q crs "[]"] unfolding spn_Search_def Let_def np_def [symmetric]
      by (simp add: probed_postings_def candidates_append [symmetric]) (simp add: candidates_of_def live_only_def)
    with top [OF probed_within [OF c(2)]] True c h(1) show ?thesis unfolding Let_def np_def [symmetric] by (metis option.sel)
  qed
qed

lemma go_bindE: "go_bind m k = Inr y \<Longrightarrow> (\<And>x. m = Inr x \<Longrightarrow> k x = Inr y \<Longrightarrow> thesis) \<Longrightarrow> thesis"
  by (auto simp: go_bind_eq_Inr)

lemma commit_metric: "commit_rebuild e io idx h cs ps cells f = Inr (idx', r, f') \<Longrightarrow> spn_metric idx' = spn_metric idx"
  by (auto simp: commit_rebuild_def Let_def elim!: go_bindE split: exit.split_asm sum.split_asm)

lemma exec_metric:
  assumes "spn_exec e x (idx, f) = Inr (Some ((idx', f'), err))"
  shows "spn_metric idx' = spn_metric idx"
proof (cases x)
  case (SpInsert i v)
  then show ?thesis using assms by (auto simp: spn_Insert_def Let_def split: if_splits)
next
  case (SpDelete i)
  then show ?thesis using assms by (auto simp: spn_Delete_def split: if_splits)
next
  case (SpRebuild draws io)
  then obtain err' where "spn_Rebuild e draws io idx f = Inr (Some (idx', Returns err', f'))"
    using assms by (cases "spn_Rebuild e draws io idx f") (auto split: option.split_asm exit.split_asm)
  then show ?thesis unfolding spn_Rebuild_def Let_def
    by (auto elim!: go_bindE dest!: commit_metric split: if_split_asm option.split_asm sum.split_asm prod.split_asm)
next
  case (SpTick pool)
  then show ?thesis using assms by (auto simp: centroid_tick_def go_bind_eq_Inr split: option.splits)
qed

lemma spn_run_metric: "spn_run e xs (idx, f) = Inr (Some ((idx', f'), errs)) \<Longrightarrow> spn_metric idx' = spn_metric idx"
proof (induction xs arbitrary: idx f errs)
  case (Cons x xs)
  obtain i1 f1 err errs1 where "spn_exec e x (idx, f) = Inr (Some ((i1, f1), err))" "spn_run e xs (i1, f1) = Inr (Some ((idx', f'), errs1))"
    using Cons.prems by (auto simp: go_bind_eq_Inr split: option.splits)
  then show ?case using exec_metric Cons.IH by metis
qed simp

lemma run_reaches:
  assumes "NewSPANNIndex path d c p metric = Inr idx" "spann_env_ok e" "\<forall>x \<in> set ops. spn_op_ok e x" "room (nat d) n" "length ops \<le> n"
    "spn_run e ops (idx, f) = Inr (Some ((s, f'), errs))"
  shows "\<exists>ls. spn_inv e s ls \<and> spn_dim s = nat d \<and> spn_metric s = metric \<and> spn_abs s ls = fst (marked_run (nat d) ops Map.empty) \<and> length (spn_all s ls) \<le> length ops"
proof -
  have n: "spn_inv e idx []" "spn_dim idx = nat d" "spn_all idx [] = []" "spn_metric idx = metric" using NewSPANNIndex_inv [OF assms(1)] by blast+
  have room: "room (spn_dim idx) (length (spn_all idx []) + length ops)" using room_mono [OF assms(4,5)] n by simp
  have a0: "spn_abs idx [] = Map.empty" using n(3) by (simp add: spn_abs_def)
  obtain ls where "spn_inv e s ls" "spn_dim s = spn_dim idx" "(spn_abs s ls, errs) = marked_run (spn_dim idx) ops (spn_abs idx [])"
    "length (spn_all s ls) \<le> length (spn_all idx []) + length ops"
    using spn_run_ok [OF assms(2) n(1) assms(3) room, of f] unfolding assms(6) by auto
  moreover from this(3) have "spn_abs s ls = fst (marked_run (nat d) ops Map.empty)" unfolding a0 n(2) by (metis fst_conv)
  ultimately show ?thesis using spn_run_metric [OF assms(6)] n by (intro exI [of _ ls]) simp
qed

lemma live_vector:
  assumes "distinct (map po_id (spn_all s ls))" "p \<in> set (spn_all s ls)" "po_id p \<notin> spn_deleted s"
  shows "live_part (spn_abs s ls) (po_id p) = Some (po_vector p)"
proof -
  have d: "distinct (map fst (map (\<lambda>p. (po_id p, po_vector p)) (filter (\<lambda>p. po_id p \<notin> spn_deleted s) (spn_all s ls))))"
    using distinct_map_filter [OF assms(1)] by (simp add: comp_def)
  have "(po_id p, po_vector p) \<in> set (map (\<lambda>p. (po_id p, po_vector p)) (filter (\<lambda>p. po_id p \<notin> spn_deleted s) (spn_all s ls)))"
    using assms(2,3) by auto
  then show ?thesis unfolding spn_abs_def live_marks by (rule map_of_is_SomeI [OF d])
qed

lemma live_posting:
  assumes "live_part (spn_abs s ls) x = Some v"
  shows "\<exists>p \<in> set (spn_all s ls). po_id p = x \<and> po_vector p = v \<and> x \<notin> spn_deleted s"
  using map_of_SomeD [OF assms [unfolded spn_abs_def live_marks]] by auto

lemma knn_exact_part:
  assumes k: "knn D (nat k) S rs" and S: "S \<subseteq> dom m" and D: "\<And>x v. x \<in> S \<Longrightarrow> m x = Some v \<Longrightarrow> D x = apply_metric rt (the (GetDistanceFunc metric)) q v"
    and s: "\<forall>r \<in> set rs. Score r = ScoreFromDistance rt (Distance r) metric"
  shows "exact_knn rt metric q k (m |` S) rs"
  unfolding exact_knn_def
proof (intro conjI ballI allI impI)
  fix r assume r: "r \<in> set rs"
  then have i: "ID r \<in> S" "Distance r = D (ID r)" using k by (auto simp: knn_def)
  then obtain v where "m (ID r) = Some v" using S by blast
  then show "\<exists>v. (m |` S) (ID r) = Some v \<and> Distance r = apply_metric rt (the (GetDistanceFunc metric)) q v \<and>
    Score r = ScoreFromDistance rt (Distance r) metric" using i D s r by auto
next
  fix i v r assume a: "(m |` S) i = Some v" "i \<notin> ID ` set rs" "r \<in> set rs"
  then have "i \<in> S" "m i = Some v" by (auto simp: restrict_map_def split: if_splits)
  then show "Distance r \<le> apply_metric rt (the (GetDistanceFunc metric)) q v" using a(2,3) k D by (auto simp: knn_def)
qed (use k S in \<open>auto simp: knn_def Int_absorb1\<close>)

text \<open>C11. The search of the SPANN index: after any sequence of inserts, deletes, rebuilds without faults and ticks, a
  search returns exactly the nearest \<open>k\<close> of the live vectors it looks at, each once, nearest first, with the distances
  and scores of the metric. Before the first rebuild these are all live vectors. Afterwards a live vector that is
  not looked at has a nearest centroid that is not among those the centroid index returned.\<close>

theorem spann_search_nearest:
  assumes "NewSPANNIndex path d c p metric = Inr idx" "spann_env_ok e" "\<forall>x \<in> set ops. spn_op_ok e x" "room (nat d) (length ops)"
    "spn_run e ops (idx, f) = Inr (Some ((s, f'), errs))" "length q = nat d" "0 < k" "tracker_ok vt" "\<And>c. ctx c = None"
    "m = live_part (fst (marked_run (nat d) ops Map.empty))"
  shows "\<exists>crs S rs. spn_Search e ctx vt q k nprobe s = Inr (Inr rs) \<and> S \<subseteq> dom m \<and>
    exact_knn (rt32 (plat (spn_hnsw e))) metric q k (m |` S) rs \<and>
    (if spn_built s then let np = if nprobe \<le> 0 then int (spn_nprobe s) else nprobe in
       hn_Search (spn_hnsw e) ctx vt q np (np * 2) (the (centroidHNSW s)) = Inr (Inr crs) else S = dom m) \<and>
    (\<forall>x v. m x = Some v \<and> x \<notin> S \<longrightarrow> (\<exists>c. nearest_in e s (spn_centroids s) v c \<and> of_nat c \<notin> ID ` set crs))"
proof -
  obtain ls where ls: "spn_inv e s ls" "spn_dim s = nat d" "spn_metric s = metric" "spn_abs s ls = fst (marked_run (nat d) ops Map.empty)"
    "length (spn_all s ls) \<le> length ops" using run_reaches [OF assms(1-4) order_refl assms(5)] by blast
  note I = spn_invD [OF ls(1)]
  have m: "m = live_part (spn_abs s ls)" unfolding assms(10) ls(4) by (rule refl)
  have q: "length q = spn_dim s" using assms(6) ls(2) by simp
  obtain crs rs where R: "spn_Search e ctx vt q k nprobe s = Inr (Inr rs)" "distinct (map ID crs)" "\<not> spn_built s \<longrightarrow> crs = []"
    "spn_built s \<longrightarrow> (let np = if nprobe \<le> 0 then int (spn_nprobe s) else nprobe in
       hn_Search (spn_hnsw e) ctx vt q np (np * 2) (the (centroidHNSW s)) = Inr (Inr crs))"
    "knn (vector_distance e s q (spn_all s ls)) (nat k) (po_id ` set (live_only s (probed_postings s ls crs))) rs"
    "\<forall>r \<in> set rs. Score r = ScoreFromDistance (rt32 (plat (spn_hnsw e))) (Distance r) (spn_metric s)"
    using spn_Search_ok [where ctx = ctx, OF ls(1) assms(2) q assms(7-9), of nprobe] by blast
  define S where "S = po_id ` set (live_only s (probed_postings s ls crs))"
  have sub: "set (probed_postings s ls crs) \<subseteq> set (spn_all s ls)"
    using set_mset_mono [OF probed_within [OF R(2), of s ls]] by simp
  have lv: "live_part (spn_abs s ls) (po_id p) = Some (po_vector p)" if "p \<in> set (live_only s (probed_postings s ls crs))" for p
    using that sub by (intro live_vector [OF I(4)]) (auto simp: live_only_def)
  then have Sm: "S \<subseteq> dom m" unfolding S_def m by auto
  have D: "vector_distance e s q (spn_all s ls) x = apply_metric (rt32 (plat (spn_hnsw e))) (the (GetDistanceFunc (spn_metric s))) q v"
    if mx: "m x = Some v" for x v
  proof -
    obtain p where p: "p \<in> set (spn_all s ls)" "po_id p = x" "po_vector p = v" using live_posting [OF mx [unfolded m]] by blast
    have "distinct (map fst (map (\<lambda>p. (po_id p, po_vector p)) (spn_all s ls)))" using I(4) by (simp add: comp_def)
    then have "map_of (map (\<lambda>p. (po_id p, po_vector p)) (spn_all s ls)) x = Some v" using p by (intro map_of_is_SomeI) auto
    then show ?thesis using I(3) by (simp add: vector_distance_def spn_distance_def)
  qed
  have K: "exact_knn (rt32 (plat (spn_hnsw e))) metric q k (m |` S) rs"
    using knn_exact_part [OF R(5) [folded S_def] Sm D R(6)] unfolding ls(3) .
  have miss: "\<exists>c. nearest_in e s (spn_centroids s) v c \<and> of_nat c \<notin> ID ` set crs" if x: "m x = Some v" "x \<notin> S" for x v
  proof -
    obtain p where p: "p \<in> set (spn_all s ls)" "po_id p = x" "po_vector p = v" "x \<notin> spn_deleted s"
      using live_posting [of s ls x v] x(1) m by blast
    have np: "p \<notin> set (probed_postings s ls crs)" using x(2) p(2,4) unfolding S_def live_only_def by auto
    then have "p \<in> set (concat ls)" using p(1) by (auto simp: probed_postings_def spn_all_def)
    then obtain l where "l \<in> set ls" "p \<in> set l" by auto
    then obtain c where c: "c < length ls" "p \<in> set (ls ! c)" by (metis in_set_conv_nth)
    then have b: "spn_built s" using I(9) by fastforce
    have "nearest_in e s (spn_centroids s) v c" using I(8) [OF b] c p(3) by (auto simp: built_ok_def)
    moreover have "of_nat c \<notin> ID ` set crs"
    proof
      assume "of_nat c \<in> ID ` set crs"
      then obtain cr where cr: "cr \<in> set crs" "ID cr = of_nat c" by auto
      have "length ls < 2 ^ 64" using I(8) [OF b] by (auto simp: built_ok_def lists_fit_def)
      then have "unat (ID cr) = c" using c(1) by (simp add: cr(2) unat_of_nat)
      then show False using np cr(1) c by (auto simp: probed_postings_def cell_def)
    qed
    ultimately show ?thesis by blast
  qed
  have "S = dom m" if "\<not> spn_built s"
  proof -
    have "crs = []" "ls = []" using R(3) I(9) that by blast+
    then show ?thesis using Sm live_posting [of s ls] unfolding m S_def live_only_def probed_postings_def spn_all_def by force
  qed
  show ?thesis
  proof ((rule exI)+, intro conjI)
    show "spn_Search e ctx vt q k nprobe s = Inr (Inr rs)" by (rule R(1))
    show "S \<subseteq> dom m" by (rule Sm)
    show "exact_knn (rt32 (plat (spn_hnsw e))) metric q k (m |` S) rs" by (rule K)
    show "if spn_built s then let np = if nprobe \<le> 0 then int (spn_nprobe s) else nprobe in
       hn_Search (spn_hnsw e) ctx vt q np (np * 2) (the (centroidHNSW s)) = Inr (Inr crs) else S = dom m"
      using R(4) \<open>\<not> spn_built s \<Longrightarrow> S = dom m\<close> by simp
  qed (use miss in blast)
qed

subsection \<open>A rebuild that fails\<close>

lemma GetPostings_unmapped:
  "GetPostings fb c s = Inr (Inr ps) \<Longrightarrow> ps \<noteq> [] \<Longrightarrow> GetPostings fb c (s\<lparr>ps_mapped := False\<rparr>) = Inl unexpected_fault"
  by (auto simp: GetPostings_def Let_def split: option.split_asm if_split_asm prod.split_asm)

lemma closed_store_faults:
  assumes inv: "spn_inv e idx ls" and e: "spann_env_ok e" and b: "spn_built idx"
    and s: "spn_store idx2 = map_option (\<lambda>s. s\<lparr>ps_mapped := False\<rparr>) (spn_store idx)"
  shows "stored_postings e idx2 = Inl unexpected_fault"
proof -
  let ?s = "posting_store (float_bits e) (spn_dim idx) ls"
  have st: "spn_store idx = Some ?s" and ne: "concat ls \<noteq> []" using spn_invD(8) [OF inv b] by (simp_all add: built_ok_def)
  have dm: "dom (offsets ?s) = {c. c < length ls \<and> ls ! c \<noteq> []}" by (auto simp: offsets_posting_store dom_def)
  then have "finite (dom (offsets ?s))" by simp
  note r = spann_env_okD(2) [OF e this]
  obtain l where "l \<in> set ls" "l \<noteq> []" using ne by auto
  then have "dom (offsets ?s) \<noteq> {}" unfolding dm by (auto simp: in_set_conv_nth)
  then obtain c cs where c: "range_offsets e (dom (offsets ?s)) = c # cs" using r by (cases "range_offsets e (dom (offsets ?s))") auto
  have "c \<in> dom (offsets ?s)" using r unfolding c by auto
  then have "c < length ls" "ls ! c \<noteq> []" unfolding dm by auto
  then have "GetPostings (bits_float e) c (?s\<lparr>ps_mapped := False\<rparr>) = Inl unexpected_fault"
    using list_of_cell [OF inv b, of c] by (intro GetPostings_unmapped) auto
  then show ?thesis using s c by (simp add: stored_postings_def st)
qed

text \<open>C13. A rebuild that fails loses the index: when a rebuild of an index built before returns an error, however the
  writing or the mapping of the new file went, the old file has been closed already and the index still points to
  its former mapping, so the length, the export and every further rebuild end in a memory fault.\<close>

theorem failed_rebuild_loses_store:
  assumes "NewSPANNIndex path d c p metric = Inr idx" "spann_env_ok e" "\<forall>x \<in> set ops. spn_op_ok e x" "room (nat d) (length ops)"
    "spn_run e ops (idx, f) = Inr (Some ((s, f'), errs))" "spn_built s" "\<And>n. set (draws n) \<subseteq> {..<n}" "io_close io 0 = None"
    "spn_Rebuild e draws io s f' = Inr (Some (s2, Returns (Some err), f2))"
  shows "spn_Len e s2 = Inl unexpected_fault \<and> spn_ExportVectors e s2 = Inl unexpected_fault \<and>
    spn_Rebuild e draws2 io2 s2 f3 = Inl unexpected_fault"
proof -
  obtain ls where ls: "spn_inv e s ls" "spn_dim s = nat d" "length (spn_all s ls) \<le> length ops"
    using run_reaches [OF assms(1-4) order_refl assms(5)] by blast
  have room: "room (spn_dim s) (length (spn_all s ls))" unfolding ls(2) by (rule room_mono [OF assms(4) ls(3)])
  obtain h cs ps cells where C: "go_bind (commit_rebuild e io s h cs ps cells f') (\<lambda>r. Inr (Some r)) = Inr (Some (s2, Returns (Some err), f2))"
    using rebuild_prepares [OF ls(1) assms(2,7) room, of io f'] unfolding assms(9) by auto
  have "s2 = s\<lparr>spn_store := map_option (\<lambda>s. fst (ps_Close (io_close io) s)) (spn_store s)\<rparr>"
    using C by (auto simp: commit_rebuild_def Let_def elim!: go_bindE split: exit.split_asm sum.split_asm)
  moreover have "fst (ps_Close (io_close io) st) = st\<lparr>ps_mapped := False\<rparr>" for st using assms(8) by (simp add: ps_Close_def Let_def)
  ultimately have "spn_store s2 = map_option (\<lambda>s. s\<lparr>ps_mapped := False\<rparr>) (spn_store s)" by simp
  from closed_store_faults [OF ls(1) assms(2,6) this] show ?thesis
    by (simp add: spn_Len_def spn_ExportVectors_def spn_Rebuild_def)
qed

subsection \<open>Examples\<close>

definition ex_spann_env :: "rat spann_env" where
  "ex_spann_env = \<lparr>spn_hnsw = ex_env, float_bits = (\<lambda>x. word_of_int \<lfloor>x\<rfloor>), bits_float = (\<lambda>w. of_int (sint w)), range_offsets = sorted_list_of_set\<rparr>"

definition whole_io :: rebuild_io where
  "whole_io = \<lparr>io_create = Succeeds, io_writes = (\<lambda>_. Whole), io_sync = Succeeds, io_open = (\<lambda>_. None), io_close = (\<lambda>_. None)\<rparr>"

definition ex_spann :: "rat SPANNIndex" where
  "ex_spann = (case NewSPANNIndex ''p'' 1 0 0 ''l2'' of Inr idx \<Rightarrow> idx)"

definition ex_spann_ops :: "rat spn_op list" where
  "ex_spann_ops = [SpInsert 1 [2], SpInsert 2 [5], SpInsert 2 [6], SpDelete 1, SpRebuild (\<lambda>n. [0..<n]) whole_io, SpInsert 3 [9], SpTick (\<lambda>_. fresh_tracker)]"

lemma ex_spann: "NewSPANNIndex ''p'' 1 0 0 ''l2'' = Inr ex_spann"
  by (simp add: ex_spann_def NewSPANNIndex_def GetDistanceFunc_def)

lemma ex_spann_env_ok: "spann_env_ok ex_spann_env"
  by (simp add: spann_env_ok_def ex_spann_env_def ex_env_ok)

lemma whole_io_ok: "no_faults whole_io"
  by (simp add: no_faults_def whole_io_def)

lemma fresh_trackers: "trackers_ok (\<lambda>_. fresh_tracker)"
  by (simp add: trackers_ok_def)

lemma ex_spann_ops_ok: "\<forall>x \<in> set ex_spann_ops. spn_op_ok ex_spann_env x" "\<forall>x \<in> set ex_spann_ops. enough_draws x"
  "room (nat 1) (length ex_spann_ops)"
  by (auto simp: ex_spann_ops_def is_float32_def ex_spann_env_def whole_io_ok fresh_trackers room_def)

lemma ex_spann_marked: "live_part (fst (marked_run (nat 1) ex_spann_ops Map.empty)) = [2 \<mapsto> [5], 3 \<mapsto> [9]]"
  "snd (marked_run (nat 1) ex_spann_ops Map.empty) = [None, None, Some (Newf ErrDuplicateID), None, None, None, None]"
proof -
  have "live_part [1 \<mapsto> ([2 :: rat], False), 2 \<mapsto> ([5], True)] = [2 \<mapsto> [5]]" by (auto simp: live_part_def fun_eq_iff)
  moreover have "[2 \<mapsto> [5 :: rat]] \<noteq> Map.empty" by (metis fun_upd_same option.distinct(1))
  ultimately show "live_part (fst (marked_run (nat 1) ex_spann_ops Map.empty)) = [2 \<mapsto> [5], 3 \<mapsto> [9]]"
    "snd (marked_run (nat 1) ex_spann_ops Map.empty) = [None, None, Some (Newf ErrDuplicateID), None, None, None, None]"
    by (auto simp: ex_spann_ops_def live_part_def fun_eq_iff)
qed

theorem spann_refines_marked_witness:
  "\<exists>s f' xs. spn_run ex_spann_env ex_spann_ops (ex_spann, Map.empty) =
      Inr (Some ((s, f'), [None, None, Some (Newf ErrDuplicateID), None, None, None, None])) \<and>
    spn_ExportVectors ex_spann_env s = Inr xs \<and> map_of xs = [2 \<mapsto> [5], 3 \<mapsto> [9]] \<and> spn_Len ex_spann_env s = Inr (length xs)"
proof -
  obtain r where r: "spn_run ex_spann_env ex_spann_ops (ex_spann, Map.empty) = Inr r" "r \<noteq> None"
    "\<forall>s f' errs. r = Some ((s, f'), errs) \<longrightarrow> (\<exists>m xs. marked_run (nat 1) ex_spann_ops Map.empty = (m, errs) \<and>
       spn_ExportVectors ex_spann_env s = Inr xs \<and> distinct (map fst xs) \<and> map_of xs = live_part m \<and> spn_Len ex_spann_env s = Inr (length xs))"
    using spann_refines_marked [OF ex_spann ex_spann_env_ok ex_spann_ops_ok(1,3), of Map.empty] ex_spann_ops_ok(2) by blast
  obtain s f' errs where y: "r = Some ((s, f'), errs)" using r(2) by (metis not_None_eq surj_pair)
  obtain m xs where m: "marked_run (nat 1) ex_spann_ops Map.empty = (m, errs)" "spn_ExportVectors ex_spann_env s = Inr xs" "map_of xs = live_part m"
    "spn_Len ex_spann_env s = Inr (length xs)" using r(3) y by blast
  show ?thesis using r(1) y m(2-4) ex_spann_marked unfolding m(1) fst_conv snd_conv by auto
qed

lemma run_returns:
  assumes "NewSPANNIndex path d c p metric = Inr idx" "spann_env_ok e" "\<forall>x \<in> set ops. spn_op_ok e x" "room (nat d) (length ops)"
    "\<forall>x \<in> set ops. enough_draws x"
  shows "\<exists>s f' errs. spn_run e ops (idx, f) = Inr (Some ((s, f'), errs))"
proof -
  have n: "spn_inv e idx []" "spn_dim idx = nat d" "spn_all idx [] = []" using NewSPANNIndex_inv [OF assms(1)] by blast+
  have "room (spn_dim idx) (length (spn_all idx []) + length ops)" using assms(4) n by simp
  then obtain r where "spn_run e ops (idx, f) = Inr r" "r = None \<longrightarrow> (\<exists>x \<in> set ops. \<not> enough_draws x)"
    using spn_run_ok [OF assms(2) n(1) assms(3), of f] by blast
  then show ?thesis using assms(5) by (cases r) auto
qed

theorem spann_search_nearest_witness:
  "\<exists>s f' errs S rs. spn_run ex_spann_env ex_spann_ops (ex_spann, Map.empty) = Inr (Some ((s, f'), errs)) \<and>
    spn_Search ex_spann_env (\<lambda>_. None) fresh_tracker [4] 2 0 s = Inr (Inr rs) \<and> S \<subseteq> {2, 3} \<and>
    exact_knn (rt32 (plat ex_env)) ''l2'' [4] 2 ([2 \<mapsto> [5], 3 \<mapsto> [9]] |` S) rs"
proof -
  obtain s f' errs where r: "spn_run ex_spann_env ex_spann_ops (ex_spann, Map.empty) = Inr (Some ((s, f'), errs))"
    using run_returns [OF ex_spann ex_spann_env_ok ex_spann_ops_ok(1,3,2)] by blast
  have t: "tracker_ok fresh_tracker" using fresh_trackers by (simp add: trackers_ok_def)
  have e: "spn_hnsw ex_spann_env = ex_env" by (simp add: ex_spann_env_def)
  have d: "dom [2 \<mapsto> [5], 3 \<mapsto> [9 :: rat]] = {2, 3 :: u64}" by auto
  have len: "length [4 :: rat] = nat 1" by simp
  obtain S rs where "spn_Search ex_spann_env (\<lambda>_. None) fresh_tracker [4] 2 0 s = Inr (Inr rs)" "S \<subseteq> {2, 3}"
    "exact_knn (rt32 (plat ex_env)) ''l2'' [4] 2 ([2 \<mapsto> [5], 3 \<mapsto> [9]] |` S) rs"
    using spann_search_nearest [where ctx = "\<lambda>_. None" and k = 2 and nprobe = 0, OF ex_spann ex_spann_env_ok ex_spann_ops_ok(1,3) r len _ t refl refl, unfolded ex_spann_marked e d]
    by auto
  with r show ?thesis by blast
qed

lemma rebuild_builds:
  assumes "spn_inv e idx ls" "spann_env_ok e" "\<And>n. set (draws n) \<subseteq> {..<n}" "room (spn_dim idx) (length (spn_all idx ls))"
    "no_faults io" "live_part (spn_abs idx ls) \<noteq> Map.empty" "spn_Rebuild e draws io idx f = Inr (Some (idx', r, f'))"
  shows "spn_built idx'"
proof -
  have "live_part (spn_abs idx ls) = Map.empty \<longleftrightarrow> av = []"
    if "mset av = mset (filter (\<lambda>p. po_id p \<notin> spn_deleted idx) (spn_all idx ls))" for av by (rule no_live_vectors [OF that])
  then have "\<exists>av h cs ps cells. prepared e idx av h cs ps cells \<and>
    spn_Rebuild e draws io idx f = go_bind (commit_rebuild e io idx h cs ps cells f) (\<lambda>r. Inr (Some r))"
    using rebuild_prepares [OF assms(1-4), of io f] assms(6,7) by (metis Inr_inject option.distinct(1))
  then obtain av h cs ps cells where a: "prepared e idx av h cs ps cells"
    "go_bind (commit_rebuild e io idx h cs ps cells f) (\<lambda>r. Inr (Some r)) = Inr (Some (idx', r, f'))" unfolding assms(7) by metis
  let ?i = "idx\<lparr>spn_store := map_option (\<lambda>s. fst (ps_Close (io_close io) s)) (spn_store idx)\<rparr>"
  have "write_and_open e io ?i ps f = Inr (Returns (Inr (posting_store (float_bits e) (spn_dim ?i) ps)),
    f(storePath ?i \<mapsto> postings_file (float_bits e) (spn_dim ?i) ps))"
    using write_and_open_ok [OF assms(5), of ?i ps e f] a(1) spn_invD(1) [OF assms(1)] by (simp add: prepared_def)
  then show ?thesis using a(2) by (auto simp: commit_rebuild_def Let_def)
qed

lemma rebuild_create_fails:
  assumes "spn_inv e idx ls" "spann_env_ok e" "\<And>n. set (draws n) \<subseteq> {..<n}" "room (spn_dim idx) (length (spn_all idx ls))"
    "live_part (spn_abs idx ls) \<noteq> Map.empty" "\<And>n. {..<n} \<subseteq> set (draws n)" "io_create io = Fails err"
  shows "\<exists>idx' f'. spn_Rebuild e draws io idx f = Inr (Some (idx', Returns (Some err), f'))"
proof -
  obtain av h cs ps cells where "prepared e idx av h cs ps cells"
    "spn_Rebuild e draws io idx f = go_bind (commit_rebuild e io idx h cs ps cells f) (\<lambda>r. Inr (Some r))"
    using rebuild_prepares [OF assms(1-4), of io f] no_live_vectors [of _ idx ls] assms(5,6) by blast
  then show ?thesis using assms(7) by (simp add: commit_rebuild_def write_and_open_def WritePostings_def Let_def)
qed

theorem failed_rebuild_loses_store_witness:
  "\<exists>s f' errs s2 err f2.
    spn_run ex_spann_env [SpInsert 1 [2], SpRebuild (\<lambda>n. [0..<n]) whole_io] (ex_spann, Map.empty) = Inr (Some ((s, f'), errs)) \<and>
    spn_Rebuild ex_spann_env (\<lambda>n. [0..<n]) (whole_io\<lparr>io_create := Fails err\<rparr>) s f' = Inr (Some (s2, Returns (Some err), f2)) \<and>
    spn_Len ex_spann_env s2 = Inl unexpected_fault"
proof -
  let ?ops = "[SpInsert 1 [2 :: rat], SpRebuild (\<lambda>n. [0..<n]) whole_io]" and ?draws = "\<lambda>n :: nat. [0..<n]" and ?err = "Newf ErrVectorNotFound"
  let ?io = "whole_io\<lparr>io_create := Fails ?err\<rparr>"
  have ops: "\<forall>x \<in> set ?ops. spn_op_ok ex_spann_env x" "\<forall>x \<in> set ?ops. enough_draws x" "room (nat 1) (length ?ops)"
    by (auto simp: is_float32_def ex_spann_env_def whole_io_ok room_def)
  have dr: "set (?draws n) \<subseteq> {..<n}" "{..<n} \<subseteq> set (?draws n)" for n by auto
  obtain s f' errs where r: "spn_run ex_spann_env ?ops (ex_spann, Map.empty) = Inr (Some ((s, f'), errs))"
    using run_returns [OF ex_spann ex_spann_env_ok ops(1,3,2)] by blast
  have n: "spn_inv ex_spann_env ex_spann []" "spn_dim ex_spann = 1" "spn_all ex_spann [] = []"
    using NewSPANNIndex_inv [OF ex_spann, of ex_spann_env] by simp_all
  obtain s1 e1 where i: "spn_Insert 1 [2] ex_spann = (s1, e1)" by fastforce
  have f: "is_float32 ex_spann_env [2]" using ops(1) by simp
  note s1 = spn_Insert_ok [OF n(1) f i]
  have l1: "live_part (spn_abs s1 []) \<noteq> Map.empty"
  proof -
    have "spn_abs s1 [] = [1 \<mapsto> ([2], True)]" using s1(3) n by (simp add: spn_abs_def)
    then have "live_part (spn_abs s1 []) 1 = Some [2]" by (simp add: live_part_def)
    then show ?thesis by auto
  qed
  have r1: "room (spn_dim s1) (length (spn_all s1 []))" unfolding s1(2) n(2)
    by (rule room_mono [of 1 2]) (use s1(4) n(3) in \<open>simp_all add: room_def\<close>)
  obtain r2 where "spn_Rebuild ex_spann_env ?draws whole_io s1 Map.empty = Inr (Some (s, r2, f'))"
    using r i by (cases "spn_Rebuild ex_spann_env ?draws whole_io s1 Map.empty") (auto split: option.split_asm exit.split_asm)
  then have b: "spn_built s" by (rule rebuild_builds [OF s1(1) ex_spann_env_ok dr(1) r1 whole_io_ok l1])
  obtain ls where ls: "spn_inv ex_spann_env s ls" "spn_dim s = nat 1" "spn_abs s ls = fst (marked_run (nat 1) ?ops Map.empty)" "length (spn_all s ls) \<le> length ?ops"
    using run_reaches [OF ex_spann ex_spann_env_ok ops(1,3) order_refl r] by blast
  have l2: "live_part (spn_abs s ls) \<noteq> Map.empty"
  proof -
    have "live_part [1 \<mapsto> ([2 :: rat], True)] = [1 \<mapsto> [2]]" by (auto simp: live_part_def fun_eq_iff)
    then have "live_part (spn_abs s ls) 1 = Some [2]" unfolding ls(3) by (simp add: live_part_def)
    then show ?thesis by auto
  qed
  have r3: "room (spn_dim s) (length (spn_all s ls))" unfolding ls(2) by (rule room_mono [OF ops(3) ls(4)])
  obtain s2 f2 where g: "spn_Rebuild ex_spann_env ?draws ?io s f' = Inr (Some (s2, Returns (Some ?err), f2))"
    using rebuild_create_fails [where io = ?io and f = f', OF ls(1) ex_spann_env_ok dr(1) r3 l2 dr(2)] by auto
  have "io_close ?io 0 = None" by (simp add: whole_io_def)
  from failed_rebuild_loses_store [OF ex_spann ex_spann_env_ok ops(1,3) r b dr(1) this g] r g show ?thesis by blast
qed

end
