(* ===== verification/Scalar_Quantizer.thy ===== *)
theory Scalar_Quantizer
  imports K_Means
begin

section \<open>Scalar quantization and re-ranking\<close>

text \<open>
  Models \<open>internal/quantize/scalar.go\<close> and \<open>pipeline.go\<close> on an Archimedean ordered field: codes of one byte for
  each dimension, and the search that over-samples on codes and re-ranks with exact distances. \<open>math.Round\<close> is
  \<^const>\<open>round\<close>, which agrees with it on the numbers not below 0 that reach it. The loops of \<open>Train\<close> over the
  vectors are written for each dimension on its own. The inner index and the source of raw vectors are
  interfaces without an implementation under \<open>src/\<close>, so they are arguments.
\<close>

record 'f ScalarQuantizer =
  sq_Dim :: nat
  Mins :: "'f list"
  Scales :: "'f list"
  sq_trained :: bool

definition NewScalarQuantizer :: "nat \<Rightarrow> 'f::zero ScalarQuantizer" where
  "NewScalarQuantizer d = \<lparr>sq_Dim = d, Mins = replicate d 0, Scales = replicate d 0, sq_trained = False\<rparr>"

definition scan_min :: "'f::linordered_field list \<Rightarrow> nat \<Rightarrow> nat \<Rightarrow> nat \<Rightarrow> 'f" where
  "scan_min vs n dm j = fold (\<lambda>i m. if vs ! (i * dm + j) < m then vs ! (i * dm + j) else m) [1..<n] (vs ! j)"

definition scan_max :: "'f::linordered_field list \<Rightarrow> nat \<Rightarrow> nat \<Rightarrow> nat \<Rightarrow> 'f" where
  "scan_max vs n dm j = fold (\<lambda>i m. if vs ! (i * dm + j) > m then vs ! (i * dm + j) else m) [1..<n] (vs ! j)"

definition sq_Train :: "'f::linordered_field list \<Rightarrow> nat \<Rightarrow> 'f ScalarQuantizer \<Rightarrow> 'f ScalarQuantizer \<times> error option" where
  "sq_Train vs n sq =
     (if n = 0 then (sq, Some (OtherError ''quantize: cannot train on zero vectors'' None))
      else if length vs \<noteq> n * sq_Dim sq then (sq, Some (OtherError ''quantize: wrong number of values'' None))
      else let mins = map (scan_min vs n (sq_Dim sq)) [0..<sq_Dim sq]; maxs = map (scan_max vs n (sq_Dim sq)) [0..<sq_Dim sq] in
        (sq\<lparr>Mins := mins,
            Scales := map2 (\<lambda>lo hi. let rangeD = hi - lo in if rangeD = 0 then 0 else rangeD / 255) mins maxs,
            sq_trained := True\<rparr>, None))"

definition encode_component :: "'f::{floor_ceiling,linordered_field} \<Rightarrow> 'f \<Rightarrow> 'f \<Rightarrow> u8" where
  "encode_component x lo scale =
     (if scale = 0 then 0
      else let val = (x - lo) / scale; val = (if val < 0 then 0 else if val > 255 then 255 else val) in of_int (round val))"

definition sq_Encode :: "'f::{floor_ceiling,linordered_field} list \<Rightarrow> 'f ScalarQuantizer \<Rightarrow> error + u8 list" where
  "sq_Encode v sq =
     (if \<not> sq_trained sq then Inl (OtherError ''quantize: quantizer not trained'' None)
      else if length v \<noteq> sq_Dim sq then Inl (OtherError ''quantize: dimension mismatch'' None)
      else Inr (map (\<lambda>j. encode_component (v ! j) (Mins sq ! j) (Scales sq ! j)) [0..<sq_Dim sq]))"

definition reconstructed :: "'f::linordered_field ScalarQuantizer \<Rightarrow> u8 list \<Rightarrow> nat \<Rightarrow> 'f" where
  "reconstructed sq code j = Mins sq ! j + of_nat (unat (code ! j)) * Scales sq ! j"

definition sq_Decode :: "u8 list \<Rightarrow> 'f::linordered_field ScalarQuantizer \<Rightarrow> error + 'f list" where
  "sq_Decode code sq =
     (if \<not> sq_trained sq then Inl (OtherError ''quantize: quantizer not trained'' None)
      else if length code \<noteq> sq_Dim sq then Inl (OtherError ''quantize: code length mismatch'' None)
      else Inr (map (reconstructed sq code) [0..<sq_Dim sq]))"

definition EncodeBatch :: "'f::{floor_ceiling,linordered_field} list \<Rightarrow> nat \<Rightarrow> 'f ScalarQuantizer \<Rightarrow> (error + u8 list) go" where
  "EncodeBatch vs n sq =
     (if \<not> sq_trained sq then Inr (Inl (OtherError ''quantize: quantizer not trained'' None))
      else go_bind (for_each (\<lambda>i codes. go_bind (nth_row (sq_Dim sq) vs i) (\<lambda>vec.
          set_row (sq_Dim sq) codes i (map (\<lambda>j. encode_component (vec ! j) (Mins sq ! j) (Scales sq ! j)) [0..<sq_Dim sq])))
        [0..<n] (replicate (n * sq_Dim sq) 0)) (\<lambda>codes. Inr (Inr codes)))"

definition DistanceL2SQ :: "'f::linordered_field list \<Rightarrow> u8 list \<Rightarrow> 'f ScalarQuantizer \<Rightarrow> 'f" where
  "DistanceL2SQ query code sq =
     sum_loop (\<lambda>j. let diff = query ! j - reconstructed sq code j in diff * diff) (sq_Dim sq) 0"

definition sq_CompressionRatio :: "'f::linordered_field" where
  "sq_CompressionRatio = 4"

definition sq_IsTrained :: "'f ScalarQuantizer \<Rightarrow> bool" where
  "sq_IsTrained sq = sq_trained sq"

subsection \<open>The re-ranking pipeline\<close>

record 'f QuantizedIndex =
  qi_dim :: nat
  qi_metric :: string
  cal :: "'f ScalarQuantizer"

type_synonym 'f inner_search = "u8 list \<Rightarrow> int \<Rightarrow> int \<Rightarrow> error + 'f SearchResult list"
type_synonym 'f raw_source = "u64 \<Rightarrow> error + 'f list"

definition NewQuantizedIndex :: "nat \<Rightarrow> string \<Rightarrow> 'f ScalarQuantizer \<Rightarrow> 'f QuantizedIndex" where
  "NewQuantizedIndex d metric quantizer = \<lparr>qi_dim = d, qi_metric = metric, cal = quantizer\<rparr>"

definition qi_Insert :: "(u64 \<Rightarrow> u8 list \<Rightarrow> 'i \<Rightarrow> error option \<times> 'i) \<Rightarrow> u64 \<Rightarrow> 'f::{floor_ceiling,linordered_field} list \<Rightarrow>
    'f QuantizedIndex \<Rightarrow> 'i \<Rightarrow> error option \<times> 'i" where
  "qi_Insert inner_insert i v idx inner = (case sq_Encode v (cal idx) of Inl err \<Rightarrow> (Some err, inner) | Inr code \<Rightarrow> inner_insert i code inner)"

definition topK :: "'f::linordered_field SearchResult list \<Rightarrow> int \<Rightarrow> 'f SearchResult list go" where
  \<comment> \<open>a negative \<open>k\<close> panics at \<open>results[:k]\<close>\<close>
  "topK results k =
     (if int (length results) \<le> k then Inr (selection_sort Distance (length results) results)
      else if k < 0 then Inl IndexOutOfRange
      else Inr (take (nat k) (selection_sort Distance (nat k) results)))"

fun fetch_raw :: "'f raw_source \<Rightarrow> nat \<Rightarrow> 'f SearchResult list \<Rightarrow> 'f list \<times> 'f SearchResult list" where
  \<comment> \<open>the vectors, one after the other, and the candidates that have one of the right dimension\<close>
  "fetch_raw raw d [] = ([], [])"
| "fetch_raw raw d (c # cs) =
     (case fetch_raw raw d cs of (vecs, valid) \<Rightarrow>
        (case raw (ID c) of Inr v \<Rightarrow> if length v = d then (v @ vecs, c # valid) else (vecs, valid) | Inl _ \<Rightarrow> (vecs, valid)))"

definition qi_Search ::
  "'f platform \<Rightarrow> 'f inner_search \<Rightarrow> 'f raw_source \<Rightarrow> 'f::{floor_ceiling,linordered_field} list \<Rightarrow> int \<Rightarrow> int \<Rightarrow> 'f QuantizedIndex \<Rightarrow>
    (error + 'f SearchResult list) go" where
  "qi_Search p inner raw query k nprobe idx =
     (case sq_Encode query (cal idx) of Inl err \<Rightarrow> Inr (Inl err)
      | Inr qQuery \<Rightarrow>
          (case inner qQuery (k * 10) nprobe of Inl err \<Rightarrow> Inr (Inl err)
           | Inr candidates \<Rightarrow>
               (case fetch_raw raw (qi_dim idx) candidates of (vecs, valid) \<Rightarrow>
                  if candidates = [] \<or> valid = [] then Inr (Inr [])
                  else go_bind (BatchDistance p query vecs (length valid) (qi_dim idx) (qi_metric idx) (replicate (length valid) 0)) (\<lambda>ds.
                    go_bind (topK (map2 (\<lambda>c d. c\<lparr>Distance := d\<rparr>) valid ds) k) (\<lambda>rs. Inr (Inr rs))))))"


subsection \<open>The error of quantization\<close>

lemma scan_min_le:
  "1 \<le> n \<Longrightarrow> i < n \<Longrightarrow> scan_min vs n dm j \<le> vs ! (i * dm + j)"
proof (induction n)
  case (Suc n)
  show ?case
  proof (cases "n = 0")
    case True
    then show ?thesis using Suc.prems by (simp add: scan_min_def)
  next
    case False
    have step: "scan_min vs (Suc n) dm j = (if vs ! (n * dm + j) < scan_min vs n dm j then vs ! (n * dm + j) else scan_min vs n dm j)"
      using False by (simp add: scan_min_def)
    show ?thesis using Suc False by (cases "i = n") (auto simp: step intro: order_trans less_imp_le)
  qed
qed simp

lemma scan_max_ge:
  "1 \<le> n \<Longrightarrow> i < n \<Longrightarrow> vs ! (i * dm + j) \<le> scan_max vs n dm j"
proof (induction n)
  case (Suc n)
  show ?case
  proof (cases "n = 0")
    case True
    then show ?thesis using Suc.prems by (simp add: scan_max_def)
  next
    case False
    have step: "scan_max vs (Suc n) dm j = (if vs ! (n * dm + j) > scan_max vs n dm j then vs ! (n * dm + j) else scan_max vs n dm j)"
      using False by (simp add: scan_max_def)
    show ?thesis using Suc False by (cases "i = n") (auto simp: step intro: order_trans less_imp_le)
  qed
qed simp

lemma encode_component_error:
  fixes x :: "'f::{floor_ceiling,linordered_field}"
  assumes "lo \<le> x" "x \<le> hi" "s = (if hi - lo = 0 then 0 else (hi - lo) / 255)"
  shows "\<bar>lo + of_nat (unat (encode_component x lo s)) * s - x\<bar> \<le> s / 2"
proof (cases "hi - lo = 0")
  case True
  then show ?thesis using assms by (simp add: encode_component_def)
next
  case False
  then have s: "s = (hi - lo) / 255" "0 < s" using assms by auto
  define val where "val = (x - lo) / s"
  have val: "0 \<le> val" "val \<le> 255" "val * s = x - lo"
  proof -
    show "0 \<le> val" using assms(1) s(2) by (simp add: val_def)
    have "x - lo \<le> 255 * s" using assms(2) s(1) by simp
    then show "val \<le> 255" using s(2) by (simp add: val_def pos_divide_le_eq)
    show "val * s = x - lo" using s(2) by (simp add: val_def)
  qed
  have r: "0 \<le> round val" "round val \<le> 255"
    using round_mono [OF val(1)] round_mono [OF val(2)] by simp_all
  have "encode_component x lo s = of_int (round val)"
    using s(2) val by (simp add: encode_component_def val_def [symmetric] Let_def)
  moreover have "unat (of_int (round val) :: u8) = nat (round val)"
    using r by (simp add: unsigned_of_int take_bit_int_eq_self)
  ultimately have "of_nat (unat (encode_component x lo s)) = (of_int (round val) :: 'f)" using r(1) by simp
  then have "lo + of_nat (unat (encode_component x lo s)) * s - x = (of_int (round val) - val) * s"
    using val(3) by (simp add: algebra_simps)
  moreover have "\<bar>of_int (round val) - val\<bar> \<le> 1 / 2" by (rule of_int_round_abs_le)
  ultimately show ?thesis using s(2) mult_right_mono [of "\<bar>of_int (round val) - val\<bar>" "1 / 2" s] by (simp add: abs_mult)
qed

text \<open>Scalar quantization: after training, each component of a vector that lies between the least and the
  greatest trained value of its dimension comes back from encoding and decoding with an error of at most
  half a step, and the distance computed on codes is the squared L2 distance to the decoded vector.\<close>

theorem sq8_error_bound:
  fixes vs :: "'f::{floor_ceiling,linordered_field} list"
  assumes "sq_Train vs n (NewScalarQuantizer dm) = (sq, None)" "length x = dm"
    "\<forall>j < dm. \<exists>a < n. \<exists>b < n. vs ! (a * dm + j) \<le> x ! j \<and> x ! j \<le> vs ! (b * dm + j)"
  shows "\<exists>code w. sq_Encode x sq = Inr code \<and> sq_Decode code sq = Inr w \<and> length w = dm \<and>
    (\<forall>j < dm. \<bar>w ! j - x ! j\<bar> \<le> Scales sq ! j / 2) \<and> (\<forall>q. length q = dm \<longrightarrow> DistanceL2SQ q code sq = L2Squared q w)"
proof -
  have n: "1 \<le> n" and sq: "sq_trained sq" "sq_Dim sq = dm" "Mins sq = map (scan_min vs n dm) [0..<dm]"
    "Scales sq = map2 (\<lambda>lo hi. let rangeD = hi - lo in if rangeD = 0 then 0 else rangeD / 255) (map (scan_min vs n dm) [0..<dm]) (map (scan_max vs n dm) [0..<dm])"
    using assms(1) by (auto simp: sq_Train_def NewScalarQuantizer_def Let_def split: if_splits)
  define code where "code = map (\<lambda>j. encode_component (x ! j) (Mins sq ! j) (Scales sq ! j)) [0..<dm]"
  define w where "w = map (reconstructed sq code) [0..<dm]"
  have "\<bar>w ! j - x ! j\<bar> \<le> Scales sq ! j / 2" if j: "j < dm" for j
  proof -
    obtain a b where ab: "a < n" "b < n" "vs ! (a * dm + j) \<le> x ! j" "x ! j \<le> vs ! (b * dm + j)" using assms(3) j by blast
    have "scan_min vs n dm j \<le> x ! j" using scan_min_le [OF n ab(1), of vs dm j] ab(3) by simp
    moreover have "x ! j \<le> scan_max vs n dm j" using scan_max_ge [OF n ab(2), of vs dm j] ab(4) by simp
    moreover have "Scales sq ! j = (if scan_max vs n dm j - scan_min vs n dm j = 0 then 0 else (scan_max vs n dm j - scan_min vs n dm j) / 255)"
      using j by (simp add: sq(4) Let_def)
    ultimately show ?thesis using encode_component_error [of "scan_min vs n dm j" "x ! j" "scan_max vs n dm j" "Scales sq ! j"] j
      by (simp add: w_def reconstructed_def code_def sq(3))
  qed
  moreover have "DistanceL2SQ q code sq = L2Squared q w" if "length q = dm" for q
  proof -
    have "sum_loop (\<lambda>j. let diff = q ! j - reconstructed sq code j in diff * diff) k 0 = sum_loop (\<lambda>i. let diff = q ! i - w ! i in diff * diff) k 0" if "k \<le> dm" for k
      using that by (induction k) (simp_all add: w_def)
    then show ?thesis using that by (simp add: DistanceL2SQ_def L2Squared_def sq(2))
  qed
  moreover have "sq_Encode x sq = Inr code" "sq_Decode code sq = Inr w" "length w = dm"
    using sq assms(2) by (simp_all add: sq_Encode_def code_def sq_Decode_def w_def)
  ultimately show ?thesis by blast
qed

theorem sq8_error_bound_witness:
  "\<exists>sq code w. sq_Train [0, 10, 51, 10] 2 (NewScalarQuantizer 2) = (sq, None) \<and> sq_Encode [7, 10 :: rat] sq = Inr code \<and> sq_Decode code sq = Inr w \<and>
     \<bar>w ! 0 - 7\<bar> \<le> 1 / 10 \<and> w ! 1 = 10"
proof -
  define sq :: "rat ScalarQuantizer" where "sq = \<lparr>sq_Dim = 2, Mins = [0, 10], Scales = [1 / 5, 0], sq_trained = True\<rparr>"
  have t: "sq_Train [0, 10, 51, 10] 2 (NewScalarQuantizer 2) = (sq, None)"
    by (simp add: sq_Train_def NewScalarQuantizer_def scan_min_def scan_max_def sq_def Let_def upt_rec)
  have b: "\<forall>j < 2. \<exists>a < 2. \<exists>b < 2. [0, 10, 51, 10 :: rat] ! (a * 2 + j) \<le> [7, 10] ! j \<and> [7, 10] ! j \<le> [0, 10, 51, 10 :: rat] ! (b * 2 + j)"
  proof (intro allI impI)
    fix j :: nat assume "j < 2"
    then consider "j = 0" | "j = 1" by linarith
    then show "\<exists>a < 2. \<exists>b < 2. [0, 10, 51, 10 :: rat] ! (a * 2 + j) \<le> [7, 10] ! j \<and> [7, 10] ! j \<le> [0, 10, 51, 10 :: rat] ! (b * 2 + j)"
      by cases (intro exI [of _ 0] exI [of _ 1] conjI; simp)+
  qed
  have l: "length [7, 10 :: rat] = 2" by simp
  obtain code w where r: "sq_Encode [7, 10] sq = Inr code" "sq_Decode code sq = Inr w" "\<forall>j < 2. \<bar>w ! j - [7, 10] ! j\<bar> \<le> Scales sq ! j / 2"
    using sq8_error_bound [OF t l b] by blast
  have "\<bar>w ! 0 - 7\<bar> \<le> 1 / 10" "\<bar>w ! 1 - 10\<bar> \<le> 0" using r(3) [rule_format, of 0] r(3) [rule_format, of 1] by (simp_all add: sq_def)
  then show ?thesis using t r(1,2) by auto
qed

subsection \<open>What the pipeline returns\<close>

lemma fetch_raw_ok:
  assumes "fetch_raw raw d cs = (vecs, valid)"
  shows "length vecs = length valid * d \<and> valid = filter (\<lambda>c. \<exists>v. raw (ID c) = Inr v \<and> length v = d) cs \<and>
    (\<forall>i < length valid. raw (ID (valid ! i)) = Inr (row_of d vecs i))"
  using assms
proof (induction cs arbitrary: vecs valid)
  case (Cons c cs)
  obtain vs' va' where r: "fetch_raw raw d cs = (vs', va')" by fastforce
  note IH = Cons.IH [OF r]
  show ?case
  proof (cases "\<exists>v. raw (ID c) = Inr v \<and> length v = d")
    case True
    then obtain v where v: "raw (ID c) = Inr v" "length v = d" by blast
    then have eq: "vecs = v @ vs'" "valid = c # va'" using Cons.prems r by auto
    have "raw (ID (valid ! i)) = Inr (row_of d vecs i)" if "i < length valid" for i
    proof (cases i)
      case 0
      then show ?thesis using v by (simp add: eq row_of_def)
    next
      case (Suc j)
      then have "row_of d vecs i = row_of d vs' j" using v(2) by (simp add: eq row_of_def)
      moreover have "j < length va'" using that Suc by (simp add: eq)
      ultimately show ?thesis using IH unfolding Suc eq(2) nth_Cons_Suc by (metis (no_types, lifting))
    qed
    then show ?thesis using IH v by (auto simp: eq)
  next
    case False
    then have "vecs = vs'" "valid = va'" using Cons.prems r by (auto split: sum.splits if_splits)
    then show ?thesis using IH False by auto
  qed
qed simp

lemma topK_ok:
  "\<exists>ts. topK rs (int k) = Inr ts \<and> sorted (map Distance ts) \<and> length ts = min k (length rs) \<and>
   (\<exists>rest. mset rs = mset ts + rest \<and> (\<forall>x \<in> set ts. \<forall>y \<in># rest. Distance x \<le> Distance y))"
proof -
  define k' where "k' = min k (length rs)"
  define ss where "ss = selection_sort Distance k' rs"
  have s: "prefix_sorted Distance k' ss" "mset ss = mset rs" using selection_sort_ok [of k' rs Distance] by (simp_all add: ss_def k'_def)
  then have len: "length ss = length rs" by (metis size_mset)
  have t: "topK rs (int k) = Inr (take k' ss)"
  proof (cases "length rs \<le> k")
    case True
    then have "take k' ss = ss" using len by (simp add: k'_def)
    then show ?thesis using True by (simp add: topK_def ss_def k'_def min_absorb2)
  qed (simp add: topK_def ss_def k'_def)
  have "sorted (map Distance (take k' ss))" using s(1) len by (simp add: sorted_iff_nth_mono prefix_sorted_def)
  moreover have "mset rs = mset (take k' ss) + mset (drop k' ss)" using s(2) by (metis append_take_drop_id mset_append)
  moreover have "Distance x \<le> Distance y" if "x \<in> set (take k' ss)" "y \<in> set (drop k' ss)" for x y
    using that s(1) by (auto simp: in_set_conv_nth prefix_sorted_def)
  ultimately show ?thesis unfolding t using len by (auto simp: k'_def intro!: exI [of _ "mset (drop k' ss)"])
qed

text \<open>C37. Re-ranking: the pipeline asks the quantized index for ten times as many candidates, gives every candidate
  whose raw vector can be read its exact distance, and returns the \<open>k\<close> nearest of these, nearest first. A
  candidate without a raw vector of the right length is left out.\<close>

theorem quantized_search_reranks:
  fixes query :: "'f::{floor_ceiling,linordered_field} list"
  assumes "sq_Encode query (cal idx) = Inr code" "inner code (int k * 10) nprobe = Inr candidates" "kernels_agree p"
    "GetDistanceFunc (qi_metric idx) = Some f" "length query = qi_dim idx" "0 < qi_dim idx"
    "reranked = map (\<lambda>c. c\<lparr>Distance := apply_metric (rt32 p) f query (projr (raw (ID c)))\<rparr>)
       (filter (\<lambda>c. \<exists>v. raw (ID c) = Inr v \<and> length v = qi_dim idx) candidates)"
  shows "\<exists>rs. qi_Search p inner raw query (int k) nprobe idx = Inr (Inr rs) \<and> length rs = min k (length reranked) \<and>
    sorted (map Distance rs) \<and> (\<exists>rest. mset reranked = mset rs + rest \<and> (\<forall>x \<in> set rs. \<forall>y \<in># rest. Distance x \<le> Distance y))"
proof -
  obtain vecs valid where f: "fetch_raw raw (qi_dim idx) candidates = (vecs, valid)" by fastforce
  note fr = fetch_raw_ok [OF f]
  show ?thesis
  proof (cases "valid = []")
    case True
    then have "reranked = []" using fr assms(7) by (metis list.simps(8))
    then show ?thesis using True assms(1,2) f by (simp add: qi_Search_def)
  next
    case False
    then have ne: "candidates \<noteq> []" using fr by auto
    have b: "BatchDistance p query vecs (length valid) (qi_dim idx) (qi_metric idx) (replicate (length valid) 0) =
        Inr (map (\<lambda>i. apply_metric (rt32 p) f query (row_of (qi_dim idx) vecs i)) [0..<length valid])"
      using BatchDistance_rows [OF assms(3,5,6) _ _ assms(4), of "length valid" vecs "replicate (length valid) 0"] fr by simp
    have "map2 (\<lambda>c d. c\<lparr>Distance := d\<rparr>) valid (map (\<lambda>i. apply_metric (rt32 p) f query (row_of (qi_dim idx) vecs i)) [0..<length valid]) = reranked"
      using fr unfolding assms(7) by (intro nth_equalityI) auto
    then have "qi_Search p inner raw query (int k) nprobe idx = go_bind (topK reranked (int k)) (\<lambda>rs. Inr (Inr rs))"
      using assms(1,2) f ne False b by (simp add: qi_Search_def)
    then show ?thesis using topK_ok [of reranked k] by auto
  qed
qed

definition ex_candidates :: "rat SearchResult list" where
  "ex_candidates = [result_of 1 0, result_of 2 0, result_of 3 0]"

definition ex_raw :: "rat raw_source" where
  "ex_raw i = (if i = 1 then Inr [5] else if i = 2 then Inr [8] else Inl (Newf ErrVectorNotFound))"

definition ex_qi :: "rat QuantizedIndex" where
  "ex_qi = NewQuantizedIndex 1 ''l2'' \<lparr>sq_Dim = 1, Mins = [0], Scales = [1], sq_trained = True\<rparr>"

theorem quantized_search_reranks_witness:
  "\<exists>rs. qi_Search \<lparr>useSIMD = False, build = SimdStub, rt32 = id\<rparr> (\<lambda>_ _ _. Inr ex_candidates) ex_raw [7] 1 0 ex_qi = Inr (Inr rs) \<and> length rs = 1"
proof -
  have e: "sq_Encode [7] (cal ex_qi) = Inr [encode_component (7 :: rat) 0 1]" by (simp add: sq_Encode_def ex_qi_def NewQuantizedIndex_def)
  have "GetDistanceFunc (qi_metric ex_qi) = Some L2Squared_fn" "length [7 :: rat] = qi_dim ex_qi" "0 < qi_dim ex_qi"
    "kernels_agree \<lparr>useSIMD = False, build = SimdStub :: rat simd_build, rt32 = id\<rparr>"
    by (simp_all add: ex_qi_def NewQuantizedIndex_def GetDistanceFunc_def kernels_agree_def)
  note R = quantized_search_reranks [OF e, where inner = "\<lambda>_ _ _. Inr ex_candidates" and candidates = ex_candidates and k = 1 and nprobe = 0
    and p = "\<lparr>useSIMD = False, build = SimdStub, rt32 = id\<rparr>" and f = L2Squared_fn and raw = ex_raw, OF refl this(4) this(1) this(2) this(3) refl]
  have "filter (\<lambda>c. \<exists>v. ex_raw (ID c) = Inr v \<and> length v = qi_dim ex_qi) ex_candidates = [result_of 1 0, result_of 2 0]"
    by (simp add: ex_candidates_def ex_raw_def result_of_def ex_qi_def NewQuantizedIndex_def)
  then show ?thesis using R by (elim exE) (auto intro!: exI)
qed

end
