(* ===== verification/Failure_Detector.thy ===== *)
theory Failure_Detector
  imports Go_Prelude Complex_Main
begin

section \<open>The failure detector\<close>

text \<open>
  Models \<open>internal/failure/detector.go\<close>. Times and durations are integers in nanoseconds, a zero \<open>time.Time\<close> and a
  nil slice of intervals are \<open>None\<close> and the empty list. Floating-point numbers are an ordered field with the
  logarithm of ten as a parameter. A callback is what the goroutine is started for: \<open>checkAll\<close> returns the list of
  them in the order of \<open>range\<close>, a parameter. Every operation holds the mutex and is one step; \<open>checkLoop\<close> repeats
  \<open>checkAll\<close>.
\<close>

datatype DetectorState = StateUnknown | StateAlive | StateSuspect | StateDead

fun state_String :: "DetectorState \<Rightarrow> string" where
  "state_String StateAlive = ''alive''"
| "state_String StateSuspect = ''suspect''"
| "state_String StateDead = ''dead''"
| "state_String StateUnknown = ''unknown''"

record 'f trackedNode =
  tn_address :: string
  tn_state :: DetectorState
  lastSeen :: time
  stateChange :: "time option"
  intervals :: "time list"
  intervalIdx :: nat
  tn_phi :: 'f

record DetectorConfig =
  dc_Interval :: time
  dc_Timeout :: time
  SuspectAfter :: time
  DeadAfter :: time
  OnNodeSuspect :: bool \<comment> \<open>the callback is not nil\<close>
  OnNodeDead :: bool

record 'f Detector =
  dt_config :: DetectorConfig
  dt_nodes :: "node_id \<rightharpoonup> 'f trackedNode"
  running :: bool

datatype notice = CallSuspect node_id | CallDead node_id

definition seconds :: "int \<Rightarrow> time" where
  "seconds n = n * 1000000000"

definition DefaultDetectorConfig :: DetectorConfig where
  "DefaultDetectorConfig = \<lparr>dc_Interval = seconds 1, dc_Timeout = 500000000, SuspectAfter = seconds 5, DeadAfter = seconds 15,
     OnNodeSuspect = False, OnNodeDead = False\<rparr>"

definition NewDetector :: "DetectorConfig \<Rightarrow> 'f Detector" where
  "NewDetector cfg =
     (let cfg = (if dc_Interval cfg \<le> 0 then cfg\<lparr>dc_Interval := seconds 1\<rparr> else cfg);
          cfg = (if SuspectAfter cfg \<le> 0 then cfg\<lparr>SuspectAfter := seconds 5\<rparr> else cfg);
          cfg = (if DeadAfter cfg \<le> 0 then cfg\<lparr>DeadAfter := seconds 15\<rparr> else cfg) in
      \<lparr>dt_config = cfg, dt_nodes = Map.empty, running = False\<rparr>)"

definition dt_Start :: "'f Detector \<Rightarrow> 'f Detector \<times> bool" where
  \<comment> \<open>with whether the loop is started\<close>
  "dt_Start d = (if running d then (d, False) else (d\<lparr>running := True\<rparr>, True))"

definition dt_Stop :: "'f Detector \<Rightarrow> 'f Detector" where
  "dt_Stop d = d\<lparr>running := False\<rparr>"

definition dt_AddNode :: "time \<Rightarrow> node_id \<Rightarrow> string \<Rightarrow> 'f::zero Detector \<Rightarrow> 'f Detector" where
  "dt_AddNode now nodeID address d = d\<lparr>dt_nodes := (dt_nodes d)(nodeID \<mapsto>
     \<lparr>tn_address = address, tn_state = StateAlive, lastSeen = now, stateChange = None, intervals = [], intervalIdx = 0, tn_phi = 0\<rparr>)\<rparr>"

definition dt_RemoveNode :: "node_id \<Rightarrow> 'f Detector \<Rightarrow> 'f Detector" where
  "dt_RemoveNode nodeID d = d\<lparr>dt_nodes := (dt_nodes d)(nodeID := None)\<rparr>"

definition record_interval :: "time \<Rightarrow> 'f trackedNode \<Rightarrow> 'f trackedNode go" where
  "record_interval elapsed node =
     (let node = (if intervals node = [] then node\<lparr>intervals := replicate 100 0\<rparr> else node) in
      if 0 < elapsed \<and> elapsed < 5 * seconds 60
      then go_bind (put_at (intervals node) (intervalIdx node) elapsed) (\<lambda>xs.
             Inr (node\<lparr>intervals := xs, intervalIdx := (intervalIdx node + 1) mod 100\<rparr>))
      else Inr node)"

definition RecordHeartbeat :: "time \<Rightarrow> node_id \<Rightarrow> 'f Detector \<Rightarrow> 'f Detector go" where
  "RecordHeartbeat now nodeID d =
     (case dt_nodes d nodeID of None \<Rightarrow> Inr d
      | Some node \<Rightarrow>
          go_bind (record_interval (now - lastSeen node) (node\<lparr>lastSeen := now\<rparr>)) (\<lambda>node.
          let node = (if tn_state node \<noteq> StateAlive then node\<lparr>tn_state := StateAlive, stateChange := Some now\<rparr> else node) in
            Inr (d\<lparr>dt_nodes := (dt_nodes d)(nodeID \<mapsto> node)\<rparr>)))"

definition dt_GetState :: "node_id \<Rightarrow> 'f Detector \<Rightarrow> DetectorState" where
  "dt_GetState nodeID d = (case dt_nodes d nodeID of None \<Rightarrow> StateUnknown | Some node \<Rightarrow> tn_state node)"

definition dt_GetAddress :: "node_id \<Rightarrow> 'f Detector \<Rightarrow> string" where
  "dt_GetAddress nodeID d = (case dt_nodes d nodeID of None \<Rightarrow> [] | Some node \<Rightarrow> tn_address node)"

definition dt_NodeCount :: "'f Detector \<Rightarrow> nat" where
  "dt_NodeCount d = card (dom (dt_nodes d))"

definition dt_GetAliveNodes :: "(node_id set \<Rightarrow> node_id list) \<Rightarrow> 'f Detector \<Rightarrow> node_id list" where
  "dt_GetAliveNodes ord d = filter (\<lambda>n. map_option tn_state (dt_nodes d n) = Some StateAlive) (ord (dom (dt_nodes d)))"

definition by_timeouts :: "DetectorConfig \<Rightarrow> time \<Rightarrow> DetectorState" where
  "by_timeouts cfg elapsed = (if elapsed \<ge> DeadAfter cfg then StateDead else if elapsed \<ge> SuspectAfter cfg then StateSuspect else StateAlive)"

definition phi_of :: "'f::linordered_field \<Rightarrow> time \<Rightarrow> nat \<Rightarrow> time \<Rightarrow> 'f" where
  "phi_of ln_ten tot n elapsed = (let mean = of_int tot / of_nat n in of_int elapsed / mean / ln_ten)"

definition by_phi :: "'f::linordered_field \<Rightarrow> DetectorState" where
  "by_phi phi = (if phi \<ge> 8 then StateDead else if phi \<ge> 3 then StateSuspect else StateAlive)"

definition evaluate :: "'f::linordered_field \<Rightarrow> DetectorConfig \<Rightarrow> time \<Rightarrow> 'f trackedNode \<Rightarrow> 'f trackedNode" where
  \<comment> \<open>the body of the loop of \<open>checkAll\<close> up to the callbacks\<close>
  "evaluate ln_ten cfg now node =
     (let elapsed = now - lastSeen node;
          (tot, n) = fold (\<lambda>x (tot, n). if 0 < x then (tot + x, n + 1) else (tot, n)) (intervals node) (0, 0 :: nat);
          node' = (if n < 10 then node\<lparr>tn_state := by_timeouts cfg elapsed\<rparr>
                   else let phi = phi_of ln_ten tot n elapsed in node\<lparr>tn_phi := phi, tn_state := by_phi phi\<rparr>) in
      if tn_state node' \<noteq> tn_state node then node'\<lparr>stateChange := Some now\<rparr> else node')"

definition callbacks :: "DetectorConfig \<Rightarrow> node_id \<Rightarrow> DetectorState \<Rightarrow> DetectorState \<Rightarrow> notice list" where
  "callbacks cfg nodeID previous state =
     (if state \<noteq> previous then
        (if state = StateSuspect then (if OnNodeSuspect cfg then [CallSuspect nodeID] else [])
         else if state = StateDead then (if OnNodeDead cfg then [CallDead nodeID] else []) else [])
      else [])"

fun check_nodes ::
  "'f::linordered_field \<Rightarrow> time \<Rightarrow> node_id list \<Rightarrow> 'f Detector \<Rightarrow> 'f Detector \<times> notice list" where
  \<comment> \<open>\<open>for nodeID, node := range d.nodes\<close>\<close>
  "check_nodes ln_ten now [] d = (d, [])"
| "check_nodes ln_ten now (n # ns) d =
     (case dt_nodes d n of None \<Rightarrow> check_nodes ln_ten now ns d
      | Some node \<Rightarrow>
          let node' = evaluate ln_ten (dt_config d) now node in
          (case check_nodes ln_ten now ns (d\<lparr>dt_nodes := (dt_nodes d)(n \<mapsto> node')\<rparr>) of
             (d', calls) \<Rightarrow> (d', callbacks (dt_config d) n (tn_state node) (tn_state node') @ calls)))"

definition checkAll :: "'f::linordered_field \<Rightarrow> (node_id set \<Rightarrow> node_id list) \<Rightarrow> time \<Rightarrow> 'f Detector \<Rightarrow> 'f Detector \<times> notice list" where
  "checkAll ln_ten ord now d = check_nodes ln_ten now (ord (dom (dt_nodes d))) d"


subsection \<open>What is promised: a history of each node\<close>

text \<open>An abstract detector keeps of each node when it was heard from, from its registration on, and its state.\<close>

type_synonym history = "node_id \<rightharpoonup> time list \<times> DetectorState"

definition usable :: "time \<Rightarrow> bool" where
  "usable g \<longleftrightarrow> 0 < g \<and> g < 5 * seconds 60"

definition gaps :: "time list \<Rightarrow> time list" where
  "gaps h = filter usable (map2 (-) (tl h) h)"

definition recent :: "time list \<Rightarrow> time list" where
  "recent gs = drop (length gs - 100) gs"

definition judge :: "'f::linordered_field \<Rightarrow> DetectorConfig \<Rightarrow> time \<Rightarrow> time list \<Rightarrow> DetectorState" where
  \<comment> \<open>by the timeouts until there are ten gaps, then by their mean\<close>
  "judge ln_ten cfg now h =
     (let gs = recent (gaps h); elapsed = now - last h in
      if length gs < 10 then by_timeouts cfg elapsed else by_phi (phi_of ln_ten (sum_list gs) (length gs) elapsed))"

datatype detector_op = DtAdd node_id string | DtRemove node_id | DtHeartbeat node_id | DtCheck

fun dt_step :: "'f::linordered_field \<Rightarrow> (node_id set \<Rightarrow> node_id list) \<Rightarrow> time \<times> detector_op \<Rightarrow> 'f Detector \<Rightarrow> ('f Detector \<times> notice list) go" where
  "dt_step ln_ten ord (now, DtAdd n a) d = Inr (dt_AddNode now n a d, [])"
| "dt_step ln_ten ord (now, DtRemove n) d = Inr (dt_RemoveNode n d, [])"
| "dt_step ln_ten ord (now, DtHeartbeat n) d = go_bind (RecordHeartbeat now n d) (\<lambda>d. Inr (d, []))"
| "dt_step ln_ten ord (now, DtCheck) d = Inr (checkAll ln_ten ord now d)"

fun dt_run ::
  "'f::linordered_field \<Rightarrow> (node_id set \<Rightarrow> node_id list) \<Rightarrow> (time \<times> detector_op) list \<Rightarrow> 'f Detector \<Rightarrow> ('f Detector \<times> notice list) go" where
  "dt_run ln_ten ord [] d = Inr (d, [])"
| "dt_run ln_ten ord (x # xs) d = go_bind (dt_step ln_ten ord x d) (\<lambda>(d, cs). go_bind (dt_run ln_ten ord xs d) (\<lambda>(d, cs'). Inr (d, cs @ cs')))"

fun history_step ::
  "'f::linordered_field \<Rightarrow> DetectorConfig \<Rightarrow> (node_id set \<Rightarrow> node_id list) \<Rightarrow> time \<times> detector_op \<Rightarrow> history \<Rightarrow> history \<times> notice list" where
  "history_step ln_ten cfg ord (now, DtAdd n a) H = (H(n \<mapsto> ([now], StateAlive)), [])"
| "history_step ln_ten cfg ord (now, DtRemove n) H = (H(n := None), [])"
| "history_step ln_ten cfg ord (now, DtHeartbeat n) H = (case H n of None \<Rightarrow> H | Some (h, s) \<Rightarrow> H(n \<mapsto> (h @ [now], StateAlive)), [])"
| "history_step ln_ten cfg ord (now, DtCheck) H =
     ((\<lambda>n. map_option (\<lambda>(h, s). (h, judge ln_ten cfg now h)) (H n)),
      concat (map (\<lambda>n. case H n of None \<Rightarrow> [] | Some (h, s) \<Rightarrow> callbacks cfg n s (judge ln_ten cfg now h)) (ord (dom H))))"

fun history_run ::
  "'f::linordered_field \<Rightarrow> DetectorConfig \<Rightarrow> (node_id set \<Rightarrow> node_id list) \<Rightarrow> (time \<times> detector_op) list \<Rightarrow> history \<Rightarrow> history \<times> notice list" where
  "history_run ln_ten cfg ord [] H = (H, [])"
| "history_run ln_ten cfg ord (x # xs) H =
     (case history_step ln_ten cfg ord x H of (H', cs) \<Rightarrow> case history_run ln_ten cfg ord xs H' of (H'', cs') \<Rightarrow> (H'', cs @ cs'))"

subsection \<open>The ring of intervals\<close>

lemma rotate_put:
  assumes "i < length xs"
  shows "let j = (i + 1) mod length xs; ys = xs[i := g] in drop j ys @ take j ys = tl (drop i xs @ take i xs) @ [g]"
proof (cases "i + 1 = length xs")
  case True
  have "drop i xs = [xs ! i]" using True assms by (simp add: Cons_nth_drop_Suc [symmetric])
  moreover have "xs[i := g] = take i xs @ [g]" using True assms by (simp add: upd_conv_take_nth_drop)
  ultimately show ?thesis using True by (simp add: Let_def)
next
  case False
  then have "i + 1 < length xs" using assms by simp
  then show ?thesis using assms by (simp add: Let_def take_Suc_conv_app_nth drop_update_cancel Cons_nth_drop_Suc [symmetric])
qed

definition interval_ring :: "time list \<Rightarrow> 'f trackedNode \<Rightarrow> bool" where
  \<comment> \<open>read from the index on, the ring has the last hundred gaps\<close>
  "interval_ring gs node \<longleftrightarrow> (if intervals node = [] then gs = [] \<and> intervalIdx node = 0
     else length (intervals node) = 100 \<and> intervalIdx node < 100 \<and>
       drop (intervalIdx node) (intervals node) @ take (intervalIdx node) (intervals node) = drop (length gs) (replicate 100 0 @ gs))"

lemma interval_ring_cong: "intervals a = intervals b \<Longrightarrow> intervalIdx a = intervalIdx b \<Longrightarrow> interval_ring gs a = interval_ring gs b"
  by (simp add: interval_ring_def)

lemma record_interval_ok:
  assumes r: "interval_ring gs node"
  shows "\<exists>node'. record_interval g node = Inr node' \<and> interval_ring (gs @ filter usable [g]) node' \<and> tn_address node' = tn_address node \<and>
    tn_state node' = tn_state node \<and> lastSeen node' = lastSeen node \<and> stateChange node' = stateChange node \<and> tn_phi node' = tn_phi node"
proof -
  define node0 where "node0 = (if intervals node = [] then node\<lparr>intervals := replicate 100 0\<rparr> else node)"
  have r0: "length (intervals node0) = 100" "intervalIdx node0 < 100"
      "drop (intervalIdx node0) (intervals node0) @ take (intervalIdx node0) (intervals node0) = drop (length gs) (replicate 100 0 @ gs)"
    using r by (auto simp: node0_def interval_ring_def split: if_splits)
  have same: "tn_address node0 = tn_address node" "tn_state node0 = tn_state node" "lastSeen node0 = lastSeen node" "stateChange node0 = stateChange node"
    "tn_phi node0 = tn_phi node" by (simp_all add: node0_def)
  show ?thesis
  proof (cases "usable g")
    case False
    then have "record_interval g node = Inr node0" unfolding record_interval_def node0_def [symmetric] Let_def usable_def by (simp only: if_False)
    moreover have "intervals node0 \<noteq> []" using r0(1) by auto
    then have "interval_ring gs node0" using r0 by (simp add: interval_ring_def)
    ultimately show ?thesis using False same by simp
  next
    case True
    define node1 where "node1 = node0\<lparr>intervals := (intervals node0)[intervalIdx node0 := g], intervalIdx := (intervalIdx node0 + 1) mod 100\<rparr>"
    have "record_interval g node = Inr node1" using True r0(1,2) unfolding record_interval_def node0_def [symmetric] Let_def
      by (simp add: usable_def put_at_def node1_def)
    moreover have "interval_ring (gs @ [g]) node1"
    proof -
      have "tl (drop (length gs) (replicate 100 (0 :: time) @ gs)) = drop (length gs + 1) (replicate 100 0 @ gs)" by (metis Suc_eq_plus1 drop_Suc tl_drop)
      moreover have "drop (length gs + 1) (replicate 100 (0 :: time) @ gs @ [g]) = drop (length gs + 1) (replicate 100 0 @ gs) @ [g]" by simp
      moreover have "intervals node1 \<noteq> []" using r0(1) by (auto simp: node1_def)
      ultimately show ?thesis using rotate_put [of "intervalIdx node0" "intervals node0" g] r0 by (simp add: interval_ring_def node1_def Let_def)
    qed
    ultimately show ?thesis using True same by (simp add: node1_def)
  qed
qed

lemma sum_positive:
  "fold (\<lambda>x (tot, n). if 0 < x then (tot + x, n + 1) else (tot, n)) xs (a :: int, m :: nat) = (a + sum_list (filter ((<) 0) xs), m + length (filter ((<) 0) xs))"
  by (induction xs arbitrary: a m) auto

lemma ring_mset:
  assumes "interval_ring gs node" "\<forall>g \<in> set gs. 0 < g"
  shows "mset (filter ((<) 0) (intervals node)) = mset (recent gs)"
proof (cases "intervals node = []")
  case True
  then show ?thesis using assms(1) by (simp add: interval_ring_def recent_def)
next
  case False
  define i where "i = intervalIdx node"
  have "drop i (intervals node) @ take i (intervals node) = drop (length gs) (replicate 100 0 @ gs)" using False assms(1) by (simp add: interval_ring_def i_def)
  also have "\<dots> = replicate (100 - length gs) 0 @ recent gs" by (simp add: recent_def)
  finally have "mset (drop i (intervals node) @ take i (intervals node)) = mset (replicate (100 - length gs) 0 @ recent gs)" by simp
  moreover have "mset (drop i (intervals node) @ take i (intervals node)) = mset (intervals node)"
  proof -
    have "mset (drop i (intervals node) @ take i (intervals node)) = mset (take i (intervals node) @ drop i (intervals node))"
      by (simp only: mset_append union_commute)
    then show ?thesis by (simp only: append_take_drop_id)
  qed
  ultimately have "mset (intervals node) = mset (replicate (100 - length gs) 0 @ recent gs)" by simp
  then have "filter_mset ((<) 0) (mset (intervals node)) = filter_mset ((<) 0) (mset (replicate (100 - length gs) 0 @ recent gs))" by simp
  moreover have "filter ((<) 0) (recent gs) = recent gs" using assms(2) by (auto simp: recent_def filter_id_conv dest: in_set_dropD)
  moreover have "filter ((<) 0) (replicate (100 - length gs) 0 @ recent gs) = filter ((<) 0) (recent gs)" by simp
  ultimately show ?thesis by (metis mset_filter)
qed

lemma gaps_positive: "\<forall>g \<in> set (gaps h). 0 < g"
  by (auto simp: gaps_def usable_def)

lemma gaps_snoc: "h \<noteq> [] \<Longrightarrow> gaps (h @ [t]) = gaps h @ filter usable [t - last h]"
proof -
  assume h: "h \<noteq> []"
  have "map2 (-) (tl (h @ [t])) (h @ [t]) = map2 (-) (tl h) h @ [t - last h]"
  proof (rule nth_equalityI)
    show "length (map2 (-) (tl (h @ [t])) (h @ [t])) = length (map2 (-) (tl h) h @ [t - last h])" using h by (cases h) simp_all
    fix i assume "i < length (map2 (-) (tl (h @ [t])) (h @ [t]))"
    then have i: "i < length h" using h by (cases h) simp_all
    show "map2 (-) (tl (h @ [t])) (h @ [t]) ! i = (map2 (-) (tl h) h @ [t - last h]) ! i"
      using i h by (cases "i = length h - 1") (auto simp: nth_append nth_tl last_conv_nth)
  qed
  then show ?thesis by (simp add: gaps_def)
qed

lemma evaluate_state:
  assumes "interval_ring (gaps h) node" "lastSeen node = last h"
  shows "tn_state (evaluate ln_ten cfg now node) = judge ln_ten cfg now h" "interval_ring (gaps h) (evaluate ln_ten cfg now node)"
    "lastSeen (evaluate ln_ten cfg now node) = last h"
proof -
  note m = ring_mset [OF assms(1) gaps_positive]
  have "sum_list (filter ((<) 0) (intervals node)) = sum_list (recent (gaps h))" by (metis m sum_mset_sum_list)
  moreover have "length (filter ((<) 0) (intervals node)) = length (recent (gaps h))" by (metis m size_mset)
  ultimately show "tn_state (evaluate ln_ten cfg now node) = judge ln_ten cfg now h" "interval_ring (gaps h) (evaluate ln_ten cfg now node)"
    "lastSeen (evaluate ln_ten cfg now node) = last h"
    using assms by (auto simp: evaluate_def judge_def sum_positive Let_def interval_ring_def)
qed

subsection \<open>Refinement\<close>

fun matches :: "(time list \<times> DetectorState) option \<Rightarrow> 'f trackedNode option \<Rightarrow> bool" where
  "matches None node = (node = None)"
| "matches (Some (h, s)) None = False"
| "matches (Some (h, s)) (Some node) = (h \<noteq> [] \<and> interval_ring (gaps h) node \<and> lastSeen node = last h \<and> tn_state node = s)"

definition tracks :: "'f Detector \<Rightarrow> history \<Rightarrow> bool" where
  "tracks d H \<longleftrightarrow> (\<forall>n. matches (H n) (dt_nodes d n))"

lemma matches_None: "matches a b \<Longrightarrow> (a = None) = (b = None)"
  by (cases "(a, b)" rule: matches.cases) auto

lemma tracks_dom: "tracks d H \<Longrightarrow> dom (dt_nodes d) = dom H"
proof -
  assume "tracks d H"
  then have "(H n = None) = (dt_nodes d n = None)" for n by (intro matches_None) (simp add: tracks_def)
  then show ?thesis by (simp add: dom_def)
qed

lemma tracks_node:
  assumes "tracks d H" "H n = Some (h, s)"
  obtains node where "dt_nodes d n = Some node" "interval_ring (gaps h) node" "lastSeen node = last h" "tn_state node = s" "h \<noteq> []"
  using assms(1) [unfolded tracks_def, rule_format, of n] assms(2) by (cases "dt_nodes d n") auto

lemma tracks_upd:
  "tracks d H \<Longrightarrow> h \<noteq> [] \<Longrightarrow> interval_ring (gaps h) node \<Longrightarrow> lastSeen node = last h \<Longrightarrow> tn_state node = s \<Longrightarrow>
     tracks (d\<lparr>dt_nodes := (dt_nodes d)(n \<mapsto> node)\<rparr>) (H(n \<mapsto> (h, s)))"
  by (auto simp: tracks_def)

lemma check_nodes_ok:
  assumes "tracks d H" "distinct ns" "dt_config d = cfg"
  shows "\<exists>d' cs. check_nodes ln_ten now ns d = (d', cs) \<and> dt_config d' = cfg \<and>
    tracks d' (\<lambda>n. if n \<in> set ns then map_option (\<lambda>(h, s). (h, judge ln_ten cfg now h)) (H n) else H n) \<and>
    cs = concat (map (\<lambda>n. case H n of None \<Rightarrow> [] | Some (h, s) \<Rightarrow> callbacks cfg n s (judge ln_ten cfg now h)) ns)"
  using assms
proof (induction ns arbitrary: d H)
  case (Cons n ns)
  show ?case
  proof (cases "H n")
    case None
    then have "dt_nodes d n = None" using tracks_dom [OF Cons.prems(1)] by (metis domIff)
    moreover have "(\<lambda>m. if m \<in> set (n # ns) then map_option (\<lambda>(h, s). (h, judge ln_ten cfg now h)) (H m) else H m) =
        (\<lambda>m. if m \<in> set ns then map_option (\<lambda>(h, s). (h, judge ln_ten cfg now h)) (H m) else H m)" using None by (auto simp: fun_eq_iff)
    ultimately show ?thesis using Cons.IH [OF Cons.prems(1) _ Cons.prems(3)] Cons.prems(2) None by simp
  next
    case (Some p)
    obtain h s where p: "H n = Some (h, s)" using Some by (cases p) auto
    obtain node where node: "dt_nodes d n = Some node" "interval_ring (gaps h) node" "lastSeen node = last h" "tn_state node = s" "h \<noteq> []"
      using tracks_node [OF Cons.prems(1) p] by blast
    define node' where "node' = evaluate ln_ten cfg now node"
    note E = evaluate_state [OF node(2,3), of ln_ten cfg now, folded node'_def]
    define H1 where "H1 = H(n \<mapsto> (h, judge ln_ten cfg now h))"
    define d1 where "d1 = d\<lparr>dt_nodes := (dt_nodes d)(n \<mapsto> node')\<rparr>"
    have t1: "tracks d1 H1" unfolding d1_def H1_def by (rule tracks_upd [OF Cons.prems(1) node(5) E(2,3,1)])
    have c1: "dt_config d1 = cfg" using Cons.prems(3) by (simp add: d1_def)
    obtain d' cs where r: "check_nodes ln_ten now ns d1 = (d', cs)" "dt_config d' = cfg"
      "tracks d' (\<lambda>m. if m \<in> set ns then map_option (\<lambda>(h, s). (h, judge ln_ten cfg now h)) (H1 m) else H1 m)"
      "cs = concat (map (\<lambda>m. case H1 m of None \<Rightarrow> [] | Some (h, s) \<Rightarrow> callbacks cfg m s (judge ln_ten cfg now h)) ns)"
      using Cons.IH [OF t1 _ c1] Cons.prems(2) by auto
    have "check_nodes ln_ten now (n # ns) d = (d', callbacks cfg n s (judge ln_ten cfg now h) @ cs)"
      using node(1,4) Cons.prems(3) r(1) E(1) by (simp add: Let_def node'_def [symmetric] d1_def [symmetric])
    moreover have "(\<lambda>m. if m \<in> set ns then map_option (\<lambda>(h, s). (h, judge ln_ten cfg now h)) (H1 m) else H1 m) =
        (\<lambda>m. if m \<in> set (n # ns) then map_option (\<lambda>(h, s). (h, judge ln_ten cfg now h)) (H m) else H m)"
      using Cons.prems(2) p by (auto simp: fun_eq_iff H1_def)
    moreover have "map (\<lambda>m. case H1 m of None \<Rightarrow> [] | Some (h, s) \<Rightarrow> callbacks cfg m s (judge ln_ten cfg now h)) ns =
        map (\<lambda>m. case H m of None \<Rightarrow> [] | Some (h, s) \<Rightarrow> callbacks cfg m s (judge ln_ten cfg now h)) ns"
      using Cons.prems(2) by (intro map_cong) (auto simp: H1_def)
    ultimately show ?thesis using r p by simp
  qed
qed simp

definition range_order :: "(node_id set \<Rightarrow> node_id list) \<Rightarrow> bool" where
  "range_order ord \<longleftrightarrow> (\<forall>S. finite S \<longrightarrow> set (ord S) = S \<and> distinct (ord S))"

lemma dt_step_ok:
  assumes t: "tracks d H" and c: "dt_config d = cfg" and ord: "range_order ord" and fin: "finite (dom H)"
  shows "\<exists>d' cs. dt_step ln_ten ord x d = Inr (d', cs) \<and> dt_config d' = cfg \<and> tracks d' (fst (history_step ln_ten cfg ord x H)) \<and>
    cs = snd (history_step ln_ten cfg ord x H) \<and> finite (dom (fst (history_step ln_ten cfg ord x H)))"
proof -
  obtain now y where x: "x = (now, y)" by (cases x)
  show ?thesis
  proof (cases y)
    case (DtAdd n a)
    have "tracks (dt_AddNode now n a d) (H(n \<mapsto> ([now], StateAlive)))" unfolding dt_AddNode_def
      by (rule tracks_upd [OF t]) (simp_all add: interval_ring_def gaps_def)
    then show ?thesis using x DtAdd c fin by (simp add: dt_AddNode_def)
  next
    case (DtRemove n)
    have "tracks (dt_RemoveNode n d) (H(n := None))" using t by (auto simp: tracks_def dt_RemoveNode_def)
    then show ?thesis using x DtRemove c fin by (simp add: dt_RemoveNode_def)
  next
    case (DtHeartbeat n)
    show ?thesis
    proof (cases "H n")
      case None
      then have "dt_nodes d n = None" using tracks_dom [OF t] by (metis domIff)
      then show ?thesis using x DtHeartbeat t c fin None by (simp add: RecordHeartbeat_def)
    next
      case (Some p)
      obtain h s where p: "H n = Some (h, s)" using Some by (cases p) auto
      obtain node where node: "dt_nodes d n = Some node" "interval_ring (gaps h) node" "lastSeen node = last h" "tn_state node = s" "h \<noteq> []"
        using tracks_node [OF t p] by blast
      have "interval_ring (gaps h) (node\<lparr>lastSeen := now\<rparr>)" using node(2) by (simp add: interval_ring_def)
      then obtain node1 where n1: "record_interval (now - last h) (node\<lparr>lastSeen := now\<rparr>) = Inr node1" "interval_ring (gaps h @ filter usable [now - last h]) node1"
        "lastSeen node1 = now" using record_interval_ok [of "gaps h" "node\<lparr>lastSeen := now\<rparr>" "now - last h"] by auto
      define node2 where "node2 = (if tn_state node1 \<noteq> StateAlive then node1\<lparr>tn_state := StateAlive, stateChange := Some now\<rparr> else node1)"
      have n2: "interval_ring (gaps (h @ [now])) node2" "lastSeen node2 = now" "tn_state node2 = StateAlive"
        using n1(2,3) interval_ring_cong [of node2 node1] unfolding gaps_snoc [OF node(5)] by (simp_all add: node2_def)
      have "RecordHeartbeat now n d = Inr (d\<lparr>dt_nodes := (dt_nodes d)(n \<mapsto> node2)\<rparr>)"
        using node(1,3) n1(1) by (simp add: RecordHeartbeat_def Let_def node2_def)
      moreover have "tracks (d\<lparr>dt_nodes := (dt_nodes d)(n \<mapsto> node2)\<rparr>) (H(n \<mapsto> (h @ [now], StateAlive)))"
        by (rule tracks_upd [OF t]) (use n2 in simp_all)
      ultimately show ?thesis using x DtHeartbeat c fin p by simp
    qed
  next
    case DtCheck
    have o: "set (ord (dom H)) = dom H" "distinct (ord (dom H))" using ord fin by (auto simp: range_order_def)
    obtain d' cs where r: "check_nodes ln_ten now (ord (dom H)) d = (d', cs)" "dt_config d' = cfg"
      "tracks d' (\<lambda>n. if n \<in> dom H then map_option (\<lambda>(h, s). (h, judge ln_ten cfg now h)) (H n) else H n)"
      "cs = concat (map (\<lambda>n. case H n of None \<Rightarrow> [] | Some (h, s) \<Rightarrow> callbacks cfg n s (judge ln_ten cfg now h)) (ord (dom H)))"
      using check_nodes_ok [OF t o(2) c, of ln_ten now] unfolding o(1) by blast
    have "(\<lambda>n. if n \<in> dom H then map_option (\<lambda>(h, s). (h, judge ln_ten cfg now h)) (H n) else H n) = (\<lambda>n. map_option (\<lambda>(h, s). (h, judge ln_ten cfg now h)) (H n))"
    proof (rule ext)
      fix n
      show "(if n \<in> dom H then map_option (\<lambda>(h, s). (h, judge ln_ten cfg now h)) (H n) else H n) = map_option (\<lambda>(h, s). (h, judge ln_ten cfg now h)) (H n)"
        by (cases "H n") (auto simp: domIff)
    qed
    moreover have "dom (\<lambda>n. map_option (\<lambda>(h, s). (h, judge ln_ten cfg now h)) (H n)) = dom H" by (auto simp: dom_def)
    ultimately show ?thesis using x DtCheck r fin tracks_dom [OF t] by (simp add: checkAll_def)
  qed
qed

lemma dt_run_ok:
  assumes "range_order ord" "tracks d H" "dt_config d = cfg" "finite (dom H)"
  shows "\<exists>d' cs. dt_run ln_ten ord ops d = Inr (d', cs) \<and> dt_config d' = cfg \<and> tracks d' (fst (history_run ln_ten cfg ord ops H)) \<and>
    cs = snd (history_run ln_ten cfg ord ops H) \<and> finite (dom (fst (history_run ln_ten cfg ord ops H)))"
  using assms(2-)
proof (induction ops arbitrary: d H)
  case (Cons x ops)
  obtain d1 cs where s: "dt_step ln_ten ord x d = Inr (d1, cs)" "dt_config d1 = cfg" "tracks d1 (fst (history_step ln_ten cfg ord x H))"
    "cs = snd (history_step ln_ten cfg ord x H)" "finite (dom (fst (history_step ln_ten cfg ord x H)))"
    using dt_step_ok [OF Cons.prems(1,2) assms(1) Cons.prems(3), of ln_ten x] by auto
  obtain d2 cs' where r: "dt_run ln_ten ord ops d1 = Inr (d2, cs')" "dt_config d2 = cfg" "tracks d2 (fst (history_run ln_ten cfg ord ops (fst (history_step ln_ten cfg ord x H))))"
    "cs' = snd (history_run ln_ten cfg ord ops (fst (history_step ln_ten cfg ord x H)))" "finite (dom (fst (history_run ln_ten cfg ord ops (fst (history_step ln_ten cfg ord x H)))))"
    using Cons.IH [OF s(3,2,5)] by auto
  show ?case using s(1,4) r by (simp add: split_beta)
qed simp

lemma NewDetector_tracks: "tracks (NewDetector cfg) Map.empty"
  by (simp add: tracks_def NewDetector_def Let_def)

text \<open>C16. The failure detector: on any sequence of registrations, removals, heartbeats and checks it runs without a
  panic, and states and callbacks are those of a detector that remembers the whole history of each node. A
  heartbeat makes a node alive; a check judges it by the time since it was last heard from, against the
  timeouts as long as there are fewer than ten usable gaps between heartbeats, and after that against the mean of
  the last hundred usable gaps alone, whatever the timeouts are. The ring of intervals is not observable.\<close>

theorem detector_refines_history:
  fixes ln_ten :: "'a::linordered_field"
  assumes "range_order ord"
  shows "\<exists>d cs H. dt_run ln_ten ord ops (NewDetector cfg) = Inr (d, cs) \<and> history_run ln_ten (dt_config (NewDetector cfg :: 'a Detector)) ord ops Map.empty = (H, cs) \<and>
    dom (dt_nodes d) = dom H \<and> (\<forall>n h s. H n = Some (h, s) \<longrightarrow> dt_GetState n d = s) \<and> dt_NodeCount d = card (dom H) \<and>
    (\<forall>n \<in> set (dt_GetAliveNodes ord d). \<exists>h. H n = Some (h, StateAlive))"
proof -
  have fin: "finite (dom (Map.empty :: history))" by simp
  define c where "c = dt_config (NewDetector cfg :: 'a Detector)"
  define H where "H = fst (history_run ln_ten c ord ops Map.empty)"
  obtain d cs where r: "dt_run ln_ten ord ops (NewDetector cfg) = Inr (d, cs) \<and> dt_config d = c \<and> tracks d H \<and>
      cs = snd (history_run ln_ten c ord ops Map.empty) \<and> finite (dom H)"
    using dt_run_ok [where ln_ten = ln_ten and ops = ops and d = "NewDetector cfg", OF assms NewDetector_tracks refl fin, folded c_def, folded H_def]
    by (elim exE) (rule that)
  have H: "tracks d H" "history_run ln_ten c ord ops Map.empty = (H, cs)" "finite (dom H)"
    using r by (blast, metis H_def prod.collapse, blast)
  note D = tracks_dom [OF H(1)]
  have st: "dt_GetState n d = s" if "H n = Some (h, s)" for n h s by (rule tracks_node [OF H(1) that]) (simp add: dt_GetState_def)
  have "\<exists>h. H n = Some (h, StateAlive)" if n: "n \<in> set (dt_GetAliveNodes ord d)" for n
  proof -
    obtain node where node: "dt_nodes d n = Some node" "tn_state node = StateAlive" using n by (auto simp: dt_GetAliveNodes_def)
    then obtain h s where "H n = Some (h, s)" using D by (metis domD domI prod.exhaust)
    moreover from st [OF this] node have "s = StateAlive" by (simp add: dt_GetState_def)
    ultimately show ?thesis by blast
  qed
  then show ?thesis using r H(2) D st unfolding c_def [symmetric]
    by (intro exI [of _ d] exI [of _ cs] exI [of _ H]) (simp add: dt_NodeCount_def)
qed

theorem detector_refines_history_witness:
  "\<exists>d cs. dt_run (23 / 10 :: rat) sorted_list_of_set [(0, DtAdd ''a'' ''x''), (seconds 1, DtHeartbeat ''a''), (seconds 3, DtHeartbeat ''a''), (seconds 20, DtCheck)]
      (NewDetector (DefaultDetectorConfig\<lparr>OnNodeDead := True\<rparr>)) = Inr (d, cs) \<and> dt_GetState ''a'' d = StateDead \<and> cs = [CallDead ''a'']"
proof -
  define cfg where "cfg = DefaultDetectorConfig\<lparr>OnNodeDead := True\<rparr>"
  let ?ops = "[(0, DtAdd ''a'' ''x''), (seconds 1, DtHeartbeat ''a''), (seconds 3, DtHeartbeat ''a''), (seconds 20, DtCheck)]"
  have o: "range_order sorted_list_of_set" by (simp add: range_order_def)
  have c: "dt_config (NewDetector cfg :: rat Detector) = cfg" "DeadAfter cfg = seconds 15" "OnNodeDead cfg"
    by (simp_all add: cfg_def NewDetector_def DefaultDetectorConfig_def seconds_def)
  have j: "judge (23 / 10 :: rat) cfg (seconds 20) [0, seconds 1, seconds 3] = StateDead"
    using c(2) by (simp add: judge_def gaps_def usable_def recent_def seconds_def by_timeouts_def Let_def)
  have m: "(\<lambda>n. map_option (\<lambda>(h, s). (h, judge (23 / 10 :: rat) cfg (seconds 20) h)) ([''a'' \<mapsto> ([0, seconds 1, seconds 3], StateAlive)] n)) =
      [''a'' \<mapsto> ([0, seconds 1, seconds 3], StateDead)]" by (rule ext) (simp add: j)
  have h: "history_run (23 / 10 :: rat) cfg sorted_list_of_set ?ops Map.empty = ([''a'' \<mapsto> ([0, seconds 1, seconds 3], StateDead)], [CallDead ''a''])"
    using m c(3) by (simp add: j callbacks_def)
  obtain d cs H where r: "dt_run (23 / 10 :: rat) sorted_list_of_set ?ops (NewDetector cfg) = Inr (d, cs)"
      "([''a'' \<mapsto> ([0, seconds 1, seconds 3], StateDead)], [CallDead ''a'']) = (H, cs)" "\<forall>n h s. H n = Some (h, s) \<longrightarrow> dt_GetState n d = s"
    using detector_refines_history [OF o, of "23 / 10 :: rat" ?ops cfg] unfolding c(1) h by blast
  then have "H ''a'' = Some ([0, seconds 1, seconds 3], StateDead)" "cs = [CallDead ''a'']" by auto
  then show ?thesis using r(1,3) unfolding cfg_def [symmetric] by blast
qed

fun rank :: "DetectorState \<Rightarrow> nat" where
  "rank StateUnknown = 0"
| "rank StateAlive = 1"
| "rank StateSuspect = 2"
| "rank StateDead = 3"

lemma mean_gap:
  fixes gs :: "time list"
  assumes "\<forall>g \<in> set gs. usable g" "gs \<noteq> []"
  shows "0 < sum_list gs" "sum_list gs \<le> int (length gs) * (5 * seconds 60)"
  using assms
proof (induction gs)
  case (Cons g gs)
  {
    case 1
    then show ?case using Cons.IH(1) by (cases gs) (auto simp: usable_def intro: add_pos_pos)
  next
    case 2
    then show ?case using Cons.IH(2) by (cases gs) (auto simp: usable_def algebra_simps)
  }
qed simp_all

lemma recent_usable: "\<forall>g \<in> set (recent (gaps h)). usable g"
  by (auto simp: recent_def gaps_def dest: in_set_dropD)

lemma phi_mono:
  fixes ln_ten :: "'f::linordered_field"
  assumes "0 < ln_ten" "0 < m" "0 < n" "a \<le> b"
  shows "phi_of ln_ten m n a \<le> phi_of ln_ten m n b"
  using assms by (simp add: phi_of_def Let_def divide_right_mono)

lemma judge_mono:
  fixes ln_ten :: "'f::linordered_field"
  assumes "0 < ln_ten" "t \<le> t'"
  shows "rank (judge ln_ten cfg t h) \<le> rank (judge ln_ten cfg t' h)"
proof (cases "length (recent (gaps h)) < 10")
  case True
  then show ?thesis using assms(2) by (simp add: judge_def Let_def by_timeouts_def)
next
  case False
  then have ne: "recent (gaps h) \<noteq> []" by auto
  have "phi_of ln_ten (sum_list (recent (gaps h))) (length (recent (gaps h))) (t - last h)
      \<le> phi_of ln_ten (sum_list (recent (gaps h))) (length (recent (gaps h))) (t' - last h)"
    using phi_mono [OF assms(1) mean_gap(1) [OF recent_usable ne]] ne assms(2) by simp
  then show ?thesis using False by (auto simp: judge_def Let_def by_phi_def)
qed

lemma judge_dead:
  fixes ln_ten :: "'f::linordered_field"
  assumes "0 < ln_ten" "DeadAfter cfg \<le> now - last h" "8 * ln_ten * of_int (5 * seconds 60) \<le> of_int (now - last h)"
  shows "judge ln_ten cfg now h = StateDead"
proof (cases "length (recent (gaps h)) < 10")
  case True
  then show ?thesis using assms(2) by (simp add: judge_def Let_def by_timeouts_def)
next
  case False
  define gs where "gs = recent (gaps h)"
  define mean :: 'f where "mean = of_int (sum_list gs) / of_nat (length gs)"
  have ne: "gs \<noteq> []" using False by (auto simp: gs_def)
  note g = mean_gap [OF recent_usable ne [unfolded gs_def], folded gs_def]
  have m0: "0 < mean" using g(1) ne by (simp add: mean_def)
  have "(of_int (sum_list gs) :: 'f) \<le> of_int (int (length gs) * (5 * seconds 60))" using g(2) by (simp only: of_int_le_iff)
  then have "mean \<le> of_int (5 * seconds 60)" using ne by (simp add: mean_def divide_le_eq mult.commute)
  then have "8 * ln_ten * mean \<le> 8 * ln_ten * of_int (5 * seconds 60)" using assms(1) by simp
  then have "8 * ln_ten * mean \<le> of_int (now - last h)" using assms(3) by linarith
  then have "8 \<le> of_int (now - last h) / mean / ln_ten" using m0 assms(1) by (simp add: le_divide_eq algebra_simps)
  then show ?thesis using False by (simp add: judge_def Let_def by_phi_def phi_of_def gs_def [symmetric] mean_def)
qed

text \<open>C20. Completeness of the detector: after any sequence of operations, a node that has been silent for \<open>DeadAfter\<close>
  and for eight times the logarithm of ten times five minutes is dead after the next check, and the callback for
  dead nodes is called if it was not dead before; and of two checks with nothing heard in between the second never
  finds any node in a better state.\<close>

theorem silent_node_declared_dead:
  fixes ln_ten :: "'f::linordered_field"
  assumes "range_order ord" "0 < ln_ten" "dt_run ln_ten ord ops (NewDetector cfg) = Inr (d, cs)" "dt_nodes d n = Some node"
  shows "\<exists>d' cs'. dt_step ln_ten ord (now, DtCheck) d = Inr (d', cs') \<and>
    (DeadAfter (dt_config d) \<le> now - lastSeen node \<and> 8 * ln_ten * of_int (5 * seconds 60) \<le> of_int (now - lastSeen node) \<longrightarrow>
       dt_GetState n d' = StateDead \<and> (tn_state node \<noteq> StateDead \<and> OnNodeDead (dt_config d) \<longrightarrow> CallDead n \<in> set cs')) \<and>
    (\<forall>later \<ge> now. \<exists>d'' cs''. dt_step ln_ten ord (later, DtCheck) d' = Inr (d'', cs'') \<and> rank (dt_GetState n d') \<le> rank (dt_GetState n d''))"
proof -
  define c where "c = dt_config (NewDetector cfg :: 'f Detector)"
  have fin: "finite (dom (Map.empty :: history))" by simp
  define H where "H = fst (history_run ln_ten c ord ops Map.empty)"
  have H: "dt_config d = c" "tracks d H" "finite (dom H)"
    using dt_run_ok [where ln_ten = ln_ten and ops = ops and d = "NewDetector cfg", OF assms(1) NewDetector_tracks refl fin, folded c_def, folded H_def] assms(3)
    by auto
  obtain h s where h: "H n = Some (h, s)" using assms(4) tracks_dom [OF H(2)] by (metis domD domI prod.exhaust)
  have node: "lastSeen node = last h" "tn_state node = s" by (rule tracks_node [OF H(2) h], use assms(4) in simp)+
  define H1 where "H1 = fst (history_step ln_ten c ord (now, DtCheck) H)"
  obtain d' cs' where s1: "dt_step ln_ten ord (now, DtCheck) d = Inr (d', cs')" "dt_config d' = c" "tracks d' H1"
      "cs' = snd (history_step ln_ten c ord (now, DtCheck) H)" "finite (dom H1)"
    using dt_step_ok [OF H(2,1) assms(1) H(3), of ln_ten "(now, DtCheck)"] unfolding H1_def by blast
  have h1: "H1 n = Some (h, judge ln_ten c now h)" by (simp add: H1_def h)
  have g1: "dt_GetState n d' = judge ln_ten c now h" by (rule tracks_node [OF s1(3) h1]) (simp add: dt_GetState_def)
  have dead: "dt_GetState n d' = StateDead \<and> (tn_state node \<noteq> StateDead \<and> OnNodeDead (dt_config d) \<longrightarrow> CallDead n \<in> set cs')"
    if x: "DeadAfter (dt_config d) \<le> now - lastSeen node \<and> 8 * ln_ten * of_int (5 * seconds 60) \<le> of_int (now - lastSeen node)"
  proof -
    have j: "judge ln_ten c now h = StateDead" using judge_dead [OF assms(2)] x H(1) node(1) by simp
    have "n \<in> set (ord (dom H))" using assms(1) H(3) h by (auto simp: range_order_def)
    moreover have "CallDead n \<in> set (callbacks c n s StateDead)" if "s \<noteq> StateDead" "OnNodeDead c" using that by (simp add: callbacks_def)
    ultimately show ?thesis using g1 j node(2) H(1) h unfolding s1(4) by (auto intro!: bexI [of _ n])
  qed
  have "\<exists>d'' cs''. dt_step ln_ten ord (later, DtCheck) d' = Inr (d'', cs'') \<and> rank (dt_GetState n d') \<le> rank (dt_GetState n d'')" if l: "now \<le> later" for later
  proof -
    obtain d'' cs'' where s2: "dt_step ln_ten ord (later, DtCheck) d' = Inr (d'', cs'')" "tracks d'' (fst (history_step ln_ten c ord (later, DtCheck) H1))"
      using dt_step_ok [OF s1(3,2) assms(1) s1(5), of ln_ten "(later, DtCheck)"] by blast
    have h2: "fst (history_step ln_ten c ord (later, DtCheck) H1) n = Some (h, judge ln_ten c later h)" by (simp add: h1)
    have "dt_GetState n d'' = judge ln_ten c later h" by (rule tracks_node [OF s2(2) h2]) (simp add: dt_GetState_def)
    then show ?thesis using s2(1) g1 judge_mono [OF assms(2) l] by auto
  qed
  then show ?thesis using s1(1) dead by blast
qed

theorem silent_node_declared_dead_witness:
  "\<exists>d cs d' cs'. dt_run (23 / 10 :: rat) sorted_list_of_set [(0, DtAdd ''a'' ''x'')] (NewDetector (DefaultDetectorConfig\<lparr>OnNodeDead := True\<rparr>)) = Inr (d, cs) \<and>
     dt_step (23 / 10 :: rat) sorted_list_of_set (seconds 7200, DtCheck) d = Inr (d', cs') \<and> dt_GetState ''a'' d' = StateDead \<and> CallDead ''a'' \<in> set cs'"
proof -
  define cfg where "cfg = DefaultDetectorConfig\<lparr>OnNodeDead := True\<rparr>"
  define d :: "rat Detector" where "d = dt_AddNode 0 ''a'' ''x'' (NewDetector cfg)"
  have o: "range_order sorted_list_of_set" by (simp add: range_order_def)
  have r: "dt_run (23 / 10 :: rat) sorted_list_of_set [(0, DtAdd ''a'' ''x'')] (NewDetector cfg) = Inr (d, [])" by (simp add: d_def)
  have c: "DeadAfter (dt_config d) = seconds 15" "OnNodeDead (dt_config d)"
    by (simp_all add: d_def dt_AddNode_def cfg_def NewDetector_def DefaultDetectorConfig_def seconds_def)
  have n: "\<exists>node. dt_nodes d ''a'' = Some node \<and> lastSeen node = 0 \<and> tn_state node = StateAlive" by (simp add: d_def dt_AddNode_def)
  then obtain node where n: "dt_nodes d ''a'' = Some node" "lastSeen node = 0" "tn_state node = StateAlive" by blast
  have ln: "(0 :: rat) < 23 / 10" by simp
  show ?thesis using silent_node_declared_dead [OF o ln r n(1), of "seconds 7200"] r c n(2,3) unfolding cfg_def [symmetric] by (fastforce simp: seconds_def)
qed

end
