(* ===== verification/Spec2Isabelle.thy ===== *)
theory Spec2Isabelle
  imports Hash_Ring Rendezvous Coordinator Flat_Index Bitmap_Index Segment_Cache S3_Wal Simd_Kernels Compact_Action Garbage_Collector Manager_System Tenants Hnsw_System Hnsw_Snapshot Ivf_System Spann_System Scalar_Quantizer Failure_Detector
begin

text \<open>
  \<^bold>\<open>Magnitude, a verification library for the vector database under \<open>src/\<close>.\<close>

  Magnitude stores collections of vectors. A \<^emph>\<open>collection manager\<close> (\<open>internal/collection\<close>) keeps the collections in
  memory, each with a vector \<^emph>\<open>index\<close> (\<open>internal/index\<close>), an inverted index of texts and the metadata of its
  vectors. Every write is first appended to a \<^emph>\<open>write-ahead log\<close> (\<open>internal/storage/wal.go\<close>); the collections
  themselves, tenants, tombstones and metadata are rows of the \<^emph>\<open>system database\<close> (\<open>internal/metadata\<close>). A start reads
  the database, loads snapshots of the indexes and replays the log. Around this stand the storage services
  (segment files and compaction, a log on object storage, admission control, garbage collection, a cache of
  segments) and the placement of collections on the nodes of a cluster (\<open>internal/cluster\<close>).

  \<^bold>\<open>How the code is modelled.\<close> A struct is a record with the code's field names (a prefix where two structs share
  one), a slice a list, a map a function to options, a fixed-width integer a word where its width matters and an
  unbounded number otherwise. An operation is a function from the state to its result and the new state; an
  operation that holds a mutex is one step. Errors are the left part of a sum, panics the values of \<open>panic\<close> in
  theory \<open>Go_Prelude\<close>: every index, slice expression and allocation that can panic keeps its bounds check, and
  the theorems say when it cannot. What is not under \<open>src/\<close> is an argument: SHA-256, SQLite, the JSON codec, the
  bit sets, \<open>sort.Slice\<close> (theory \<open>Slice_Sort\<close> states what is known of it), the order of \<open>range\<close> over a map, the clock,
  random numbers, the logarithm, and which system call fails or is the last one before the
  process stops. Floating-point numbers are an arbitrary type with the operations the code applies, in its order;
  theorems that need laws assume a linear order or an ordered field, so they hold of exact arithmetic without NaN.

  \<^bold>\<open>Foundations.\<close>
  \<^item> \<open>Go_Prelude\<close>: zero-value reads of maps, panics and errors, \<open>sort.Search\<close>, decimal numbers, little-endian bytes.
  \<^item> \<open>Errors\<close>: \<open>internal/errors/errors.go\<close>, codes, wrapping and the tests of a code along the chain.
  \<^item> \<open>Slice_Sort\<close>, \<open>Go_Heap\<close>: the contracts of \<open>sort.Slice\<close> and of \<open>container/heap\<close>, the latter with its code.
  \<^item> Interfaces as locales: \<open>Placement\<close> (a router of keys to nodes, interpreted by \<open>Hash_Ring\<close> and \<open>Rendezvous\<close>),
    \<open>Index_Contract\<close> (\<open>index.Index\<close>, interpreted by \<open>Flat_Index\<close>), \<open>Object_Store\<close> (interpreted by the memory store and
    the admitted store), the log in \<open>Wal\<close> (interpreted by the SQLite log), \<open>Catalog\<close> (the system database as the manager
    uses it, interpreted by \<open>Sys_DB\<close>).

  \<^bold>\<open>Cluster\<close> (\<open>internal/cluster\<close>).
  \<^item> \<open>Hash_Ring\<close>, \<open>hash.go\<close>: ring positions, owners and members. \<open>GetNode\<close> refines the successor function on the
    set of virtual nodes, removal moves exactly the keys of the node removed, and the ring does not depend on the
    history, all for any hash without collisions among the nodes in use.
  \<^item> \<open>Rendezvous\<close>, \<open>rendezvous.go\<close>: the node with the highest weight, minimal movement, \<open>RouteN\<close>.
  \<^item> \<open>Coordinator\<close>, \<open>coordinator.go\<close> and \<open>consistency.go\<close>: a state machine of joins, departures, heartbeats and health
    checks; dead nodes are never routed to, whatever collides, and without collisions nothing panics and every
    collection has a live node as long as there is one in the ring; levels of consistency.
  \<^item> \<open>Failure_Detector\<close>, \<open>internal/failure/detector.go\<close>: heartbeats in a ring of intervals, judged by timeouts and then by
    the accrual of suspicion; it refines a detector that remembers the history of each node, and a silent node is
    declared dead.

  \<^bold>\<open>Vectors and indexes\<close> (\<open>internal/distance\<close>, \<open>internal/index\<close>).
  \<^item> \<open>Distance\<close>: scalar functions, four-lane kernels and their dispatch; the kernels compute the scalar functions on a
    commutative ring. \<open>Simd_Kernels\<close>, \<open>simd_avx2.c\<close> and \<open>neon/simd_neon.c\<close>: the C kernels with their blocks, fused
    multiply-add and horizontal sums; on both builds the dispatch computes the scalar distances. (The build
    without C panics when it dispatches to its stubs.)
  \<^item> \<open>Flat_Index\<close>, \<open>flat/flat.go\<close> and \<open>flat/heap.go\<close>: growth, swap-with-last deletion, search in chunks with a bounded heap.
    It refines a map from identifiers to vectors, and its search returns the k nearest in order.
  \<^item> \<open>Hnsw_Graph\<close>, \<open>Hnsw_Invariant\<close>, \<open>Hnsw_Index\<close>, \<open>Hnsw_System\<close>, \<open>hnsw/hnsw.go\<close>: first the graph with greedy descent, beam
    search and insertion; then the invariant (links stay on their layer, degrees are bounded, every node has its
    vector) with total correctness of the searches and of insertion under it; then the dirty buffer, the applier,
    deletion and rebuild; last the index as a state machine, which refines a buffered store, never panics and
    whose searches return nearest candidates. Loops run without fuel: greedy descent ends because the distance
    decreases, the beam search because every candidate is a node not visited before.
  \<^item> \<open>Hnsw_Snapshot\<close>, \<open>hnsw/snapshot.go\<close>: the binary format, atomic writing, reading in two passes; a round trip on
    every reachable index without deletions.
  \<^item> \<open>K_Means\<close>, \<open>ivf/kmeans.go\<close>: initialisation, the parallel assignment, the update with its refilling of empty
    cells, and the nearest centroids of a query; no slice is overrun and every vector is assigned to a cell.
  \<^item> \<open>Product_Quantizer\<close> and \<open>Scalar_Quantizer\<close> (\<open>internal/quantize\<close>): training, encoding and decoding; table look-up
    equals the distance to the decoded vector, the chosen codes are the best ones, the error of a component is at
    most half a step; the search that ranks an oversampled result again by exact distances.
  \<^item> \<open>Ivf_Index\<close>, \<open>Ivf_Search\<close>, \<open>Ivf_Rebuild\<close>, \<open>Ivf_System\<close>, \<open>ivf/ivf.go\<close>: vectors in the cells of the centroids, new
    ones in a flat index until the next rebuild. The state and its operations with the invariant that ties rows,
    posting lists and cells together; searches over the probed cells; the sections of a rebuild; last the index as
    a whole, which refines a map of vectors when a rebuild runs alone, and what is lost when it does not. The
    training of the quantizer selects at random until it has enough different vectors; it is given the draws and
    has no result when they do not suffice.
  \<^item> \<open>Posting_Store\<close>, \<open>spann/posting_store.go\<close>: posting lists in a mapped file with a footer of offsets; what is written
    without faults is read back, and a write that is lost goes unnoticed. \<open>Spann_Index\<close>, \<open>spann/spann.go\<close>: K-means,
    posting lists and an HNSW index over the centroids. \<open>Spann_System\<close>: every sequence of inserts, deletes, rebuilds
    without faults and ticks of the applier of the centroids is a run over a map of vectors with marks (a deleted
    identifier stays occupied until a rebuild); a search is exact on the cells it probes and the buffer; a rebuild
    that fails leaves an index that can no longer be read.
  \<^item> \<open>Bitmap_Index\<close> (\<open>bitmap_index.go\<close>) with \<open>Where_Filter\<close> (\<open>internal/metadata/filter.go\<close>): the parser of filters, their
    evaluation, and the resolution of a filter by bitmaps, which selects exactly the vectors that match.
  \<^item> \<open>Sparse_Index\<close> (\<open>sparse/inverted.go\<close>) and \<open>Rank_Fusion\<close> (\<open>internal/search/rrf.go\<close>): BM25 search equals its formula over the
    documents indexed; fused scores equal the sums of reciprocal ranks.

  \<^bold>\<open>Storage\<close> (\<open>internal/storage\<close>, \<open>internal/gc\<close>, \<open>internal/cache\<close>).
  \<^item> \<open>Wal\<close>, \<open>wal.go\<close>: what was appended and not truncated is read back in order, each entry once; the encoding of vectors.
  \<^item> \<open>Segment_File\<close>, \<open>format.go\<close>, \<open>compaction.go\<close>, \<open>mmap_unix.go\<close>: header and checksum, compaction that is atomic wherever it
    fails or stops, mapped reads and writes. \<open>Compact_Action\<close>, \<open>compact_action.go\<close>: a compaction interrupted anywhere is
    completed by replaying its action file.
  \<^item> \<open>Admission\<close> and \<open>Object_Store\<close>, \<open>admission.go\<close>: slots and wait queues as a state machine, keys and stores; \<open>S3_Wal\<close>,
    \<open>s3wal.go\<close>: read after append and truncation for one writer whose calls may fail, what a failed manifest write
    leaves, the loss with two writers.
  \<^item> \<open>Garbage_Collector\<close>, \<open>gc/gc.go\<close>: a sweep deletes exactly the marked segments that no reader pins.
  \<^item> \<open>Segment_Cache\<close>, \<open>cache/segment_cache.go\<close>: the budget of bytes and admission on the second access.

  \<^bold>\<open>Manager and system database\<close> (\<open>internal/collection\<close>, \<open>internal/metadata\<close>).
  \<^item> \<open>Collection_Manager\<close>, \<open>collection.go\<close> and \<open>fork.go\<close>: every operation of \<open>Manager\<close>. \<open>Manager_Recovery\<close> shows on any
    catalogue that replaying the log repeats the operations; \<open>Manager_System\<close> puts the manager on the database and
    the SQLite log: a restart recovers the state when only the manager's calls change the indexes, and the ways in which
    the code makes it lose or invent vectors.
  \<^item> \<open>Sys_DB\<close>, \<open>sqlite.go\<close>: tables as lists of rows, each SQL statement as the list operation it denotes, with its
    constraints and a possible failure, for calls made one after the other on one connection; the cache of tombstones, metadata, filters as SQL.
  \<^item> \<open>Tenants\<close>, \<open>tenant.go\<close>: tenants, databases, quotas and API keys, with the consistency of their tables and of the
    cache of tombstones over all calls.

  \<^bold>\<open>Findings.\<close> Where the code does not do what it means to, a theorem states what it does: tombstones forgotten by
  \<open>DeleteTenant\<close>, deleted vectors revived by a snapshot or by a rebuild of the cells, vectors lost by a cancelled rebuild, entry points returned by filtered searches, a fresh tracker
  that blinds a search, vectors exchanged by \<open>Rebuild\<close>, posting lists lost by a rebuild that
  fails, failed batches that come back after a restart, a delete that the replay of an HNSW index misses, a snapshot that hides
  the log, two writers and failed manifest writes of the log on object storage.

  \<^bold>\<open>Not modelled.\<close> The HTTP and gRPC interfaces, the clients and the server's start-up translate requests and hold no
  algorithm. Configuration, metrics and auditing are input and output. Gossip, request forwarding and migration exchange
  messages with other nodes over HTTP and UDP and decide little by themselves; the scheduler and the event flow are thin
  layers over channels, and what they do is the semantics of \<open>select\<close>. The bloom filter, the rate limiter and authentication
  call libraries.  Within the modelled
  components, statistics counters, log messages, the texts of errors, synchronisation pragmas and \<open>msync\<close> are left
  out, and the bitmap index and the pre-filtered paths of \<open>Collection_Manager\<close>, which only HNSW collections take.
\<close>

end
